(* ===== verification/Prelude.thy ===== *)
theory Prelude
  imports Main "HOL-Library.Word"
begin

text \<open>
  Shared vocabulary of the nat-os development: the machine integer types of the
  kernel's C code, the byte memory that arenas and drivers read and write, the
  generic lemmas on words and lists that every component proof uses, and the
  interface of a state machine with an invariant (\<open>invariant_system\<close>), which the
  components interpret on their own operations.
\<close>

unbundle bit_operations_syntax

type_synonym u8 = "8 word"
type_synonym u16 = "16 word"
type_synonym u32 = "32 word"

text \<open>Byte-addressed kernel memory, and C's NUL-terminated strings as byte lists
  without their terminator.\<close>

type_synonym memory = "u32 \<Rightarrow> u8"
type_synonym cstring = "u8 list"

named_theorems u32_unat \<open>reading 32-bit words as natural numbers\<close>

subsection \<open>Words as natural numbers\<close>

lemma unat_lt_u32 [simp]: "unat (x :: u32) < 4294967296"
  using unsigned_less [of x] by simp

lemma unat_le_u32: "unat (x :: u32) \<le> 4294967295"
  using unat_lt_u32 [of x] by linarith

lemma unat_of_nat_u32 [u32_unat]: "n < 4294967296 \<Longrightarrow> unat (of_nat n :: u32) = n"
  by (simp add: unat_of_nat)

lemma of_nat_eq_u32: "m < 4294967296 \<Longrightarrow> n < 4294967296 \<Longrightarrow>
    (of_nat m = (of_nat n :: u32)) = (m = n)"
  by (metis unat_of_nat_u32)

lemma of_nat_unat_u32 [simp]: "of_nat (unat (x :: u32)) = x"
  by simp

lemma unat_add_u32: "unat (x :: u32) + unat y < 4294967296 \<Longrightarrow> unat (x + y) = unat x + unat y"
  by (simp add: unat_word_ariths)

lemma unat_sub_u32: "unat y \<le> unat (x :: u32) \<Longrightarrow> unat (x - y) = unat x - unat y"
  by (simp add: unat_sub word_le_nat_alt)

lemma unat_sub_less_u32:
  assumes "unat (k :: u32) + r \<le> 4294967296"
  shows "unat (y - k) < r \<longleftrightarrow> unat k \<le> unat y \<and> unat y < unat k + r"
proof -
  have "unat y < 4294967296" by simp
  with assms show ?thesis by (auto simp: unat_sub_if' simp del: unat_lt_u32)
qed

lemma unat_add_mod_u32: "unat ((x :: u32) + y) = (unat x + unat y) mod 4294967296"
  by (simp add: unat_word_ariths)

lemma unat_Suc_le: "unat (x + 1 :: u32) \<le> Suc (unat x)"
  by (simp add: unat_word_ariths)

lemma unat_and_mask: "unat (x AND mask n :: 'a::len word) = unat x mod 2 ^ n"
  by (metis take_bit_eq_mask unsigned_take_bit_eq take_bit_nat_def)

lemma and_plus_and_not: "(x AND m) + (x AND NOT m) = (x :: 'a::len word)"
proof -
  have "(x AND m) AND (x AND NOT m) = 0"
    by (simp add: bit_eq_iff bit_simps)
  then have "(x AND m) + (x AND NOT m) = (x AND m) OR (x AND NOT m)"
    by (rule disjunctive_add_eq_or)
  also have "\<dots> = x"
    by (auto simp add: bit_eq_iff bit_simps)
  finally show ?thesis .
qed

lemma unat_and_not_mask:
  "unat (x AND NOT (mask n) :: 'a::len word) = unat x - unat x mod 2 ^ n"
proof -
  have eq: "x AND NOT (mask n) = x - (x AND mask n)"
    using and_plus_and_not [of x "mask n"] by (simp add: algebra_simps)
  have "unat (x AND mask n) \<le> unat x"
    by (simp add: unat_and_mask)
  then show ?thesis
    by (simp add: eq unat_sub word_le_nat_alt unat_and_mask)
qed

lemma unat_and_3 [u32_unat]: "unat (x AND 3 :: u32) = unat x mod 4"
  using unat_and_mask [of x 2] by (simp add: mask_numeral)

text \<open>The simplifier writes \<open>NOT 7\<close> as \<open>- 8\<close> and \<open>NOT 3\<close> as \<open>- 4\<close>, so the rules are stated on
  those forms.\<close>

lemma unat_and_not_7 [u32_unat]: "unat (x AND - 8 :: u32) = unat x - unat x mod 8"
  using unat_and_not_mask [of x 3] by (simp add: mask_numeral)

lemma unat_and_not_3 [u32_unat]: "unat (x AND - 4 :: u32) = unat x - unat x mod 4"
  using unat_and_not_mask [of x 2] by (simp add: mask_numeral)

lemma unat_and_not_15 [u32_unat]: "unat (x AND - 16 :: u32) = unat x - unat x mod 16"
  using unat_and_not_mask [of x 4] by (simp add: mask_numeral)

lemma u32_eq_0_iff: "(x :: u32) = 0 \<longleftrightarrow> unat x = 0"
  by (simp add: unat_eq_0)

subsection \<open>Byte memory\<close>

text \<open>\<open>store_bytes\<close> is a C loop \<^verbatim>\<open>d[i] = s[i]\<close>, \<open>load_bytes\<close> the copy the other way; words
  are little-endian, as on the Xtensa core.\<close>

fun store_bytes :: "memory \<Rightarrow> u32 \<Rightarrow> u8 list \<Rightarrow> memory" where
  "store_bytes m a [] = m"
| "store_bytes m a (b # bs) = store_bytes (m(a := b)) (a + 1) bs"

fun load_bytes :: "memory \<Rightarrow> u32 \<Rightarrow> nat \<Rightarrow> u8 list" where
  "load_bytes m a 0 = []"
| "load_bytes m a (Suc n) = m a # load_bytes m (a + 1) n"

definition peek32 :: "memory \<Rightarrow> u32 \<Rightarrow> u32" where
  "peek32 m a = ucast (m a) OR push_bit 8 (ucast (m (a + 1)))
     OR push_bit 16 (ucast (m (a + 2))) OR push_bit 24 (ucast (m (a + 3)))"

definition poke32 :: "memory \<Rightarrow> u32 \<Rightarrow> u32 \<Rightarrow> memory" where
  "poke32 m a v = store_bytes m a [ucast v, ucast (drop_bit 8 v), ucast (drop_bit 16 v), ucast (drop_bit 24 v)]"

lemma unat_diff_Suc:
  "x \<noteq> a \<Longrightarrow> unat ((x :: u32) - (a + 1)) = unat (x - a) - 1"
proof -
  assume "x \<noteq> a"
  then have "x - a \<noteq> 0" by simp
  then have "unat (x - a - 1) = unat (x - a) - 1" by (rule unat_minus_one)
  then show ?thesis by (simp add: algebra_simps)
qed

lemma store_bytes_apply:
  "length bs \<le> 4294967296 \<Longrightarrow>
   store_bytes m a bs x = (if unat (x - a) < length bs then bs ! unat (x - a) else m x)"
proof (induction bs arbitrary: m a)
  case (Cons b bs)
  show ?case
  proof (cases "x = a")
    case True
    have "unat (a - (a + 1)) = 4294967295" by (simp add: unsigned_minus_1_eq_mask mask_eq_exp_minus_1)
    with Cons True show ?thesis by simp
  next
    case False
    then have "0 < unat (x - a)" by (simp add: unat_gt_0)
    with Cons False unat_diff_Suc [OF False] show ?thesis by (auto simp: nth_Cons')
  qed
qed simp

lemma length_load_bytes [simp]: "length (load_bytes m a n) = n"
  by (induction m a n rule: load_bytes.induct) auto

lemma load_bytes_nth: "i < n \<Longrightarrow> load_bytes m a n ! i = m (a + of_nat i)"
  by (induction m a n arbitrary: i rule: load_bytes.induct)
    (auto simp: nth_Cons' algebra_simps of_nat_diff)

lemma load_store_bytes: "length bs \<le> 4294967296 \<Longrightarrow> load_bytes (store_bytes m a bs) a (length bs) = bs"
  by (rule nth_equalityI) (auto simp: load_bytes_nth store_bytes_apply unat_of_nat)

lemma poke32_outside: "4 \<le> unat (x - a) \<Longrightarrow> poke32 m a v x = m x"
  by (simp add: poke32_def store_bytes_apply del: store_bytes.simps)

lemma peek_poke32 [simp]: "peek32 (poke32 m a v) a = v"
proof -
  have ap: "poke32 m a v (a + of_nat i) = [ucast v, ucast (drop_bit 8 v), ucast (drop_bit 16 v), ucast (drop_bit 24 v)] ! i"
    if "i < 4" for i
    using that by (simp add: poke32_def store_bytes_apply unat_of_nat del: store_bytes.simps)
  have p: "peek32 (poke32 m a v) a = ucast (ucast v :: u8) OR push_bit 8 (ucast (ucast (drop_bit 8 v) :: u8))
      OR push_bit 16 (ucast (ucast (drop_bit 16 v) :: u8)) OR push_bit 24 (ucast (ucast (drop_bit 24 v) :: u8))"
    using ap [of 0] ap [of 1] ap [of 2] ap [of 3] by (simp add: peek32_def)
  have "bit (peek32 (poke32 m a v) a) n = bit v n" if n: "n < 32" for n
  proof -
    consider "n < 8" | "8 \<le> n" "n < 16" | "16 \<le> n" "n < 24" | "24 \<le> n" by linarith
    then show ?thesis using n by cases (auto simp: p bit_simps)
  qed
  then show ?thesis by (intro bit_word_eqI) simp
qed

lemma peek_poke32_other:
  assumes "4 \<le> unat (b - a)" "unat (b - a) \<le> 4294967292"
  shows "peek32 (poke32 m b v) a = peek32 m a"
proof -
  have "4 \<le> unat (a + of_nat i - b)" if "i < 4" for i
  proof -
    have u: "unat (of_nat i :: u32) = i" using that by (simp add: unat_of_nat)
    have e: "a + of_nat i - b = of_nat i - (b - a)" by (simp add: algebra_simps)
    have "unat (of_nat i - (b - a)) = i + 4294967296 - unat (b - a)"
      using u that assms by (simp add: unat_sub_if' [of "of_nat i" "b - a"])
    then show ?thesis unfolding e using assms by simp
  qed
  from poke32_outside [OF this [of 0]] poke32_outside [OF this [of 1]] poke32_outside [OF this [of 2]]
    poke32_outside [OF this [of 3]] show ?thesis by (simp add: peek32_def)
qed

lemma poke32_within:
  assumes "unat k + 4 \<le> n" "n \<le> unat (x - base)"
  shows "poke32 m (base + k) v x = m x"
proof (rule poke32_outside)
  have e: "x - (base + k) = (x - base) - k" by (simp add: algebra_simps)
  have "unat ((x - base) - k) = unat (x - base) - unat k" using assms by (intro unat_sub_u32) simp
  then show "4 \<le> unat (x - (base + k))" unfolding e using assms by linarith
qed

subsection \<open>Range guards\<close>

text \<open>The interface of a bounds check as the kernel writes it, in the offset domain: it accepts
  \<open>[off, off + len)\<close> exactly when the end of the range, computed without wrap-around, is at most the
  limit of the object. The clients only use these laws.\<close>

locale range_guard =
  fixes guard :: "'v \<Rightarrow> u32 \<Rightarrow> u32 \<Rightarrow> bool"
    and limit :: "'v \<Rightarrow> nat"
  assumes guard_iff: "guard v off len \<longleftrightarrow> unat off + unat len \<le> limit v"
    and limit_u32: "limit v < 4294967296"
begin

lemma guard_no_wrap: "guard v off len \<Longrightarrow> unat (off + len) = unat off + unat len"
  using limit_u32 [of v] by (intro unat_add_u32) (simp add: guard_iff)

lemma guard_byte: "guard v off len \<Longrightarrow> k < len \<Longrightarrow> guard v (off + k) 1"
  using limit_u32 [of v] by (simp add: guard_iff word_less_nat_alt unat_add_u32)

lemma guard_smaller: "guard v off len \<Longrightarrow> len' \<le> len \<Longrightarrow> guard v off len'"
  by (simp add: guard_iff word_le_nat_alt)

lemma guard_offset: "guard v off len \<Longrightarrow> 0 < len \<Longrightarrow> unat off < limit v"
  by (simp add: guard_iff word_less_nat_alt)

lemma guard_inside: "guard v off len \<Longrightarrow> unat (x - off) < unat len \<Longrightarrow> unat x < limit v"
proof -
  assume g: "guard v off len" and x: "unat (x - off) < unat len"
  have "unat ((x - off) + off) = unat (x - off) + unat off"
    using g x limit_u32 [of v] by (intro unat_add_u32) (simp add: guard_iff)
  with g x show ?thesis by (simp add: guard_iff)
qed

end

subsection \<open>State machines with an invariant\<close>

text \<open>
  A component is a state machine: a set of start states, a step relation and an
  invariant that the starts satisfy and every step keeps. The one theorem a client
  needs is that the invariant holds in every reachable state.
\<close>

inductive reaches :: "('s \<Rightarrow> bool) \<Rightarrow> ('s \<Rightarrow> 's \<Rightarrow> bool) \<Rightarrow> 's \<Rightarrow> bool"
  for start :: "'s \<Rightarrow> bool" and step :: "'s \<Rightarrow> 's \<Rightarrow> bool" where
  reaches_start: "start s \<Longrightarrow> reaches start step s"
| reaches_step: "reaches start step s \<Longrightarrow> step s t \<Longrightarrow> reaches start step t"

locale invariant_system =
  fixes start :: "'s \<Rightarrow> bool"
    and step :: "'s \<Rightarrow> 's \<Rightarrow> bool"
    and inv :: "'s \<Rightarrow> bool"
  assumes start_inv: "start s \<Longrightarrow> inv s"
    and step_inv: "step s t \<Longrightarrow> inv s \<Longrightarrow> inv t"
begin

lemma reaches_inv: "reaches start step s \<Longrightarrow> inv s"
  by (induction rule: reaches.induct) (auto intro: start_inv step_inv)

end

end
