(* ===== verification/KHeap.thy ===== *)
theory KHeap
  imports Prelude
begin

text \<open>
  The kernel heap, \<^verbatim>\<open>kernel/heap.c\<close>: a first-fit allocator over one region, kept as
  an address-ordered doubly linked list of blocks that tile the region. Block headers are a
  typed store \<open>hdr\<close> from addresses to \<open>block_t\<close>, so the C pointer updates are
  function updates; everything the code reads is read from that store, including headers that
  are stale or that a client has written over. Walks along \<open>next\<close> are
  \<^theory_text>\<open>partial_function (option)\<close>, \<open>None\<close> being a walk that never ends.

  The abstraction of a heap is the list of its blocks \<open>(address, size, used)\<close>.
  \<open>heap_rel\<close> relates the two; allocation and release are shown to refine operations
  on the list, to keep the structural invariant, and to leave \<open>heap_check\<close> at 0.
\<close>

subsection \<open>Data\<close>

definition BLK_FREE :: u32 where "BLK_FREE = 0xF2EEB10C"
definition BLK_USED :: u32 where "BLK_USED = 0x05EDB10C"

record block_t =
  prev :: u32
  nxt :: u32
  bsize :: u32
  magic :: u32

abbreviation HEAP_ALIGN :: u32 where "HEAP_ALIGN \<equiv> 8"
abbreviation HDR_BYTES :: u32 where "HDR_BYTES \<equiv> 16"
abbreviation SPLIT_MIN :: u32 where "SPLIT_MIN \<equiv> HDR_BYTES + HEAP_ALIGN"

text \<open>The file's statics, with the linker symbols that bound the region and the header
  store. Address 0 is the null pointer.\<close>

record heap =
  heap_start :: u32
  heap_end :: u32
  hdr :: "u32 \<Rightarrow> block_t"
  g_first :: u32
  g_total :: u32
  g_used :: u32
  g_high_water :: u32
  g_fail :: u32
  g_bad_free :: u32

subsection \<open>Operations\<close>

definition align_up :: "u32 \<Rightarrow> u32" where
  "align_up v = (v + (HEAP_ALIGN - 1)) AND NOT (HEAP_ALIGN - 1)"

definition payload_of :: "u32 \<Rightarrow> u32" where
  "payload_of b = b + HDR_BYTES"

definition upd_hdr :: "u32 \<Rightarrow> (block_t \<Rightarrow> block_t) \<Rightarrow> heap \<Rightarrow> heap" where
  "upd_hdr b f h = h\<lparr>hdr := (hdr h)(b := f (hdr h b))\<rparr>"

definition heap_init :: "heap \<Rightarrow> heap" where
  "heap_init h =
     (let start = align_up (heap_start h);
          en = heap_end h AND NOT (HEAP_ALIGN - 1);
          h0 = h\<lparr>g_first := 0, g_total := 0, g_used := 0, g_high_water := 0,
                 g_fail := 0, g_bad_free := 0\<rparr>
      in if en \<le> start \<or> en - start < HDR_BYTES + HEAP_ALIGN then h0
         else h0\<lparr>g_first := start,
                 hdr := (hdr h)(start := \<lparr>prev = 0, nxt = 0,
                                         bsize = (en - start) - HDR_BYTES, magic = BLK_FREE\<rparr>),
                 g_total := (en - start) - HDR_BYTES\<rparr>)"

text \<open>The search loop of \<open>heap_alloc\<close>: the first free block that is large enough,
  0 when the list runs out.\<close>

partial_function (option) alloc_scan :: "(u32 \<Rightarrow> block_t) \<Rightarrow> u32 \<Rightarrow> u32 \<Rightarrow> u32 option" where
  "alloc_scan H want b =
     (if b = 0 then Some 0
      else if magic (H b) \<noteq> BLK_FREE \<or> bsize (H b) < want then alloc_scan H want (nxt (H b))
      else Some b)"

text \<open>The body of the loop once a block is chosen: the split, then the marking.\<close>

definition alloc_split :: "u32 \<Rightarrow> u32 \<Rightarrow> heap \<Rightarrow> heap" where
  "alloc_split want b h =
     (if bsize (hdr h b) - want \<ge> SPLIT_MIN then
        let tail = b + HDR_BYTES + want;
            h1 = upd_hdr tail (\<lambda>_. \<lparr>prev = b, nxt = nxt (hdr h b),
                    bsize = bsize (hdr h b) - want - HDR_BYTES, magic = BLK_FREE\<rparr>) h;
            tn = nxt (hdr h1 tail);
            h2 = (if tn \<noteq> 0 then upd_hdr tn (\<lambda>n. n\<lparr>prev := tail\<rparr>) h1 else h1);
            h3 = upd_hdr b (\<lambda>x. x\<lparr>nxt := tail, bsize := want\<rparr>) h2
        in h3\<lparr>g_total := g_total h3 - HDR_BYTES\<rparr>
      else h)"

definition alloc_mark :: "u32 \<Rightarrow> heap \<Rightarrow> heap" where
  "alloc_mark b h =
     (let h1 = upd_hdr b (\<lambda>x. x\<lparr>magic := BLK_USED\<rparr>) h;
          h2 = h1\<lparr>g_used := g_used h1 + bsize (hdr h1 b)\<rparr>
      in if g_used h2 > g_high_water h2 then h2\<lparr>g_high_water := g_used h2\<rparr> else h2)"

definition heap_alloc :: "u32 \<Rightarrow> heap \<Rightarrow> (u32 \<times> heap) option" where
  "heap_alloc bytes h =
     (if bytes = 0 then Some (0, h)
      else if bytes > g_total h then Some (0, h\<lparr>g_fail := g_fail h + 1\<rparr>)
      else
        let want = align_up bytes in
        case alloc_scan (hdr h) want (g_first h) of
          None \<Rightarrow> None
        | Some b \<Rightarrow>
            if b = 0 then Some (0, h\<lparr>g_fail := g_fail h + 1\<rparr>)
            else Some (payload_of b, alloc_mark b (alloc_split want b h)))"

definition coalesce_with_next :: "u32 \<Rightarrow> heap \<Rightarrow> heap" where
  "coalesce_with_next b h =
     (let n = nxt (hdr h b) in
      if n = 0 \<or> magic (hdr h b) \<noteq> BLK_FREE \<or> magic (hdr h n) \<noteq> BLK_FREE then h
      else
        let h1 = upd_hdr b (\<lambda>x. x\<lparr>bsize := bsize x + (HDR_BYTES + bsize (hdr h n)),
                                  nxt := nxt (hdr h n)\<rparr>) h;
            nn = nxt (hdr h1 n);
            h2 = (if nn \<noteq> 0 then upd_hdr nn (\<lambda>x. x\<lparr>prev := b\<rparr>) h1 else h1);
            h3 = h2\<lparr>g_total := g_total h2 + HDR_BYTES\<rparr>
        in upd_hdr n (\<lambda>x. x\<lparr>magic := 0\<rparr>) h3)"

definition heap_free :: "u32 \<Rightarrow> heap \<Rightarrow> heap" where
  "heap_free p h =
     (if p = 0 then h
      else if p < heap_start h + HDR_BYTES \<or> p \<ge> heap_end h then h\<lparr>g_bad_free := g_bad_free h + 1\<rparr>
      else
        let b = p - HDR_BYTES in
        if magic (hdr h b) \<noteq> BLK_USED then h\<lparr>g_bad_free := g_bad_free h + 1\<rparr>
        else
          let h1 = upd_hdr b (\<lambda>x. x\<lparr>magic := BLK_FREE\<rparr>) h;
              h2 = h1\<lparr>g_used := g_used h1 - bsize (hdr h1 b)\<rparr>;
              h3 = coalesce_with_next b h2
          in if prev (hdr h3 b) \<noteq> 0 then coalesce_with_next (prev (hdr h3 b)) h3 else h3)"

subsection \<open>Instrumentation\<close>

partial_function (option) free_bytes_loop :: "(u32 \<Rightarrow> block_t) \<Rightarrow> u32 \<Rightarrow> u32 \<Rightarrow> u32 option" where
  "free_bytes_loop H n b =
     (if b = 0 then Some n
      else free_bytes_loop H (if magic (H b) = BLK_FREE then n + bsize (H b) else n) (nxt (H b)))"

definition heap_free_bytes :: "heap \<Rightarrow> u32 option" where
  "heap_free_bytes h = free_bytes_loop (hdr h) 0 (g_first h)"

partial_function (option) largest_free_loop :: "(u32 \<Rightarrow> block_t) \<Rightarrow> u32 \<Rightarrow> u32 \<Rightarrow> u32 option" where
  "largest_free_loop H best b =
     (if b = 0 then Some best
      else largest_free_loop H
             (if magic (H b) = BLK_FREE \<and> bsize (H b) > best then bsize (H b) else best) (nxt (H b)))"

definition heap_largest_free :: "heap \<Rightarrow> u32 option" where
  "heap_largest_free h = largest_free_loop (hdr h) 0 (g_first h)"

partial_function (option) blocks_loop :: "(u32 \<Rightarrow> block_t) \<Rightarrow> u32 \<Rightarrow> u32 \<Rightarrow> u32 option" where
  "blocks_loop H n b = (if b = 0 then Some n else blocks_loop H (n + 1) (nxt (H b)))"

definition heap_blocks :: "heap \<Rightarrow> u32 option" where
  "heap_blocks h = blocks_loop (hdr h) 0 (g_first h)"

text \<open>\<open>heap_check\<close>: the walk returns the code of the first failed test, or the two sums.\<close>

partial_function (option) check_loop ::
    "(u32 \<Rightarrow> block_t) \<Rightarrow> u32 \<Rightarrow> u32 \<Rightarrow> u32 \<Rightarrow> u32 \<Rightarrow> u32 \<Rightarrow> (nat + u32 \<times> u32) option" where
  "check_loop H hi pv b span used =
     (if b = 0 then Some (Inr (span, used))
      else if magic (H b) \<noteq> BLK_FREE \<and> magic (H b) \<noteq> BLK_USED then Some (Inl 3)
      else if prev (H b) \<noteq> pv then Some (Inl 4)
      else if bsize (H b) mod HEAP_ALIGN \<noteq> 0 then Some (Inl 5)
      else if nxt (H b) \<noteq> 0 \<and> nxt (H b) \<noteq> b + HDR_BYTES + bsize (H b) then Some (Inl 6)
      else if nxt (H b) = 0 \<and> b + HDR_BYTES + bsize (H b) \<noteq> hi then Some (Inl 7)
      else if magic (H b) = BLK_FREE \<and> nxt (H b) \<noteq> 0 \<and> magic (H (nxt (H b))) = BLK_FREE
        then Some (Inl 8)
      else check_loop H hi b (nxt (H b)) (span + bsize (H b))
             (if magic (H b) = BLK_USED then used + bsize (H b) else used))"

definition heap_check :: "heap \<Rightarrow> nat option" where
  "heap_check h =
     (let lo = align_up (heap_start h);
          hi = heap_end h AND NOT (HEAP_ALIGN - 1)
      in if g_first h = 0 then Some (if g_total h = 0 then 0 else 1)
         else if g_first h \<noteq> lo then Some 2
         else case check_loop (hdr h) hi 0 (g_first h) 0 0 of
                None \<Rightarrow> None
              | Some (Inl e) \<Rightarrow> Some e
              | Some (Inr (span, used)) \<Rightarrow>
                  Some (if used \<noteq> g_used h then 9 else if span \<noteq> g_total h then 10 else 0))"

declare alloc_scan.simps [code] free_bytes_loop.simps [code] largest_free_loop.simps [code]
  blocks_loop.simps [code] check_loop.simps [code]

subsection \<open>The abstract heap\<close>

text \<open>A block is its address, its payload size and whether it is in use. \<open>tiles\<close> says the
  blocks cover \<open>[lo, hi)\<close> with no gap; \<open>seg\<close> says the header store holds them, linked both
  ways.\<close>

type_synonym ablock = "nat \<times> nat \<times> bool"

fun tiles :: "nat \<Rightarrow> ablock list \<Rightarrow> nat \<Rightarrow> bool" where
  "tiles lo [] hi = (lo = hi)"
| "tiles lo ((a, s, u) # bs) hi = (a = lo \<and> 8 dvd s \<and> 0 < s \<and> tiles (lo + 16 + s) bs hi)"

definition magic_of :: "bool \<Rightarrow> u32" where
  "magic_of u = (if u then BLK_USED else BLK_FREE)"

fun head_addr :: "ablock list \<Rightarrow> u32 \<Rightarrow> u32" where
  "head_addr [] nx = nx"
| "head_addr ((a, s, u) # bs) nx = of_nat a"

fun last_addr :: "u32 \<Rightarrow> ablock list \<Rightarrow> u32" where
  "last_addr pv [] = pv"
| "last_addr pv ((a, s, u) # bs) = last_addr (of_nat a) bs"

fun seg :: "(u32 \<Rightarrow> block_t) \<Rightarrow> u32 \<Rightarrow> ablock list \<Rightarrow> u32 \<Rightarrow> bool" where
  "seg H pv [] nx = True"
| "seg H pv ((a, s, u) # bs) nx =
     (H (of_nat a) = \<lparr>prev = pv, nxt = head_addr bs nx, bsize = of_nat s, magic = magic_of u\<rparr>
      \<and> seg H (of_nat a) bs nx)"

definition addrs :: "ablock list \<Rightarrow> u32 set" where
  "addrs bs = (\<lambda>(a, s, u). of_nat a) ` set bs"

definition sizes :: "ablock list \<Rightarrow> nat" where
  "sizes bs = sum_list (map (\<lambda>(a, s, u). s) bs)"

definition used_sizes :: "ablock list \<Rightarrow> nat" where
  "used_sizes bs = sum_list (map (\<lambda>(a, s, u). if u then s else 0) bs)"

definition free_sizes :: "ablock list \<Rightarrow> nat" where
  "free_sizes bs = sum_list (map (\<lambda>(a, s, u). if u then 0 else s) bs)"

abbreviation no_adj_free :: "ablock list \<Rightarrow> bool" where
  "no_adj_free \<equiv> successively (\<lambda>x y. snd (snd x) \<or> snd (snd y))"

abbreviation heap_lo :: "heap \<Rightarrow> nat" where
  "heap_lo h \<equiv> unat (align_up (heap_start h))"

abbreviation heap_hi :: "heap \<Rightarrow> nat" where
  "heap_hi h \<equiv> unat (heap_end h AND NOT 7)"

definition heap_shape :: "heap \<Rightarrow> ablock list \<Rightarrow> bool" where
  "heap_shape h bs \<longleftrightarrow>
     bs \<noteq> [] \<and> 0 < heap_lo h \<and> tiles (heap_lo h) bs (heap_hi h)
     \<and> g_first h = head_addr bs 0 \<and> seg (hdr h) 0 bs 0
     \<and> unat (g_total h) = sizes bs \<and> unat (g_used h) = used_sizes bs"

text \<open>The whole relation: the shape, and no two neighbours both free. A heap whose region is too
  small has no block at all and refuses everything.\<close>

definition heap_rel :: "heap \<Rightarrow> ablock list \<Rightarrow> bool" where
  "heap_rel h bs \<longleftrightarrow>
     (if bs = [] then g_first h = 0 \<and> g_total h = 0 \<and> g_used h = 0
      else heap_shape h bs \<and> no_adj_free bs)"

text \<open>First fit on the list, and release with coalescing in both directions.\<close>

fun alloc_spec :: "nat \<Rightarrow> ablock list \<Rightarrow> (nat \<times> ablock list) option" where
  "alloc_spec want [] = None"
| "alloc_spec want ((a, s, u) # bs) =
     (if u \<or> s < want then
        (case alloc_spec want bs of None \<Rightarrow> None | Some (p, bs') \<Rightarrow> Some (p, (a, s, u) # bs'))
      else if s - want \<ge> 24 then Some (a, (a, want, True) # (a + 16 + want, s - want - 16, False) # bs)
      else Some (a, (a, s, True) # bs))"

fun merge_next :: "ablock \<Rightarrow> ablock list \<Rightarrow> ablock list" where
  "merge_next (a, s, u) ((b, t, v) # bs) =
     (if \<not> u \<and> \<not> v then (a, s + 16 + t, False) # bs else (a, s, u) # (b, t, v) # bs)"
| "merge_next x [] = [x]"

definition free_spec :: "ablock list \<Rightarrow> ablock \<Rightarrow> ablock list \<Rightarrow> ablock list" where
  "free_spec xs x ys =
     (let zs = merge_next (fst x, fst (snd x), False) ys
      in if xs = [] then zs else butlast xs @ merge_next (last xs) zs)"

subsection \<open>Lemmas on the abstraction\<close>

lemma unat_align_up: "unat v + 7 < 4294967296 \<Longrightarrow> unat (align_up v) = (unat v + 7) div 8 * 8"
  by (simp add: align_up_def unat_and_not_7 unat_add_u32 minus_mod_eq_div_mult)

lemma align_up_ge: "unat v + 7 < 4294967296 \<Longrightarrow> unat v \<le> unat (align_up v) \<and> 8 dvd unat (align_up v)"
  by (auto simp add: unat_align_up)

lemma align_up_dvd: "8 dvd unat (align_up v)"
  by (simp add: align_up_def unat_and_not_7 dvd_minus_mod)

lemma tiles_append: "tiles lo (xs @ ys) hi \<longleftrightarrow> (\<exists>m. tiles lo xs m \<and> tiles m ys hi)"
  by (induction lo xs hi rule: tiles.induct) auto

lemma tiles_le: "tiles lo bs hi \<Longrightarrow> lo + 16 * length bs + sizes bs = hi"
  by (induction lo bs hi rule: tiles.induct) (auto simp: sizes_def)

lemma tiles_le': "tiles lo bs hi \<Longrightarrow> lo \<le> hi"
  using tiles_le by fastforce

lemma tiles_dvd: "tiles lo bs hi \<Longrightarrow> 8 dvd lo \<Longrightarrow> 8 dvd hi"
  by (induction lo bs hi rule: tiles.induct) auto

lemma tiles_mem:
  "tiles lo bs hi \<Longrightarrow> (a, s, u) \<in> set bs \<Longrightarrow> lo \<le> a \<and> a + 16 + s \<le> hi \<and> 8 dvd s \<and> 0 < s"
proof (induction lo bs hi rule: tiles.induct)
  case (2 lo a' s' u' bs hi)
  then show ?case using tiles_le' [of "lo + 16 + s'" bs hi] by auto
qed simp

lemma tiles_mem_dvd: "tiles lo bs hi \<Longrightarrow> 8 dvd lo \<Longrightarrow> (a, s, u) \<in> set bs \<Longrightarrow> 8 dvd a"
  by (induction lo bs hi rule: tiles.induct) auto

lemma addrs_below: "tiles lo xs m \<Longrightarrow> m \<le> k \<Longrightarrow> k < 4294967296 \<Longrightarrow> of_nat k \<notin> addrs xs"
  by (fastforce simp: addrs_def of_nat_eq_u32 dest: tiles_mem)

lemma addrs_above: "tiles m ys hi \<Longrightarrow> k < m \<Longrightarrow> hi < 4294967296 \<Longrightarrow> of_nat k \<notin> addrs ys"
  by (fastforce simp: addrs_def of_nat_eq_u32 dest: tiles_mem)

lemma addrs_simps [simp]:
  "addrs [] = {}" "addrs ((a, s, u) # bs) = insert (of_nat a) (addrs bs)"
  "addrs (xs @ ys) = addrs xs \<union> addrs ys"
  by (simp_all add: addrs_def image_Un)

lemma sizes_simps [simp]:
  "sizes [] = 0" "sizes ((a, s, u) # bs) = s + sizes bs" "sizes (xs @ ys) = sizes xs + sizes ys"
  by (auto simp: sizes_def)

lemma used_sizes_simps [simp]:
  "used_sizes [] = 0" "used_sizes ((a, s, u) # bs) = (if u then s else 0) + used_sizes bs"
  "used_sizes (xs @ ys) = used_sizes xs + used_sizes ys"
  by (auto simp: used_sizes_def)

lemma free_sizes_simps [simp]:
  "free_sizes [] = 0" "free_sizes ((a, s, u) # bs) = (if u then 0 else s) + free_sizes bs"
  "free_sizes (xs @ ys) = free_sizes xs + free_sizes ys"
  by (auto simp: free_sizes_def)

lemma used_le_sizes: "used_sizes bs \<le> sizes bs"
  by (induction bs) auto

lemma head_addr_append [simp]: "head_addr (xs @ ys) nx = head_addr xs (head_addr ys nx)"
  by (cases xs) auto

lemma last_addr_append [simp]: "last_addr pv (xs @ ys) = last_addr (last_addr pv xs) ys"
  by (induction pv xs rule: last_addr.induct) auto

lemma seg_append: "seg H pv (xs @ ys) nx \<longleftrightarrow> seg H pv xs (head_addr ys nx) \<and> seg H (last_addr pv xs) ys nx"
  by (induction H pv xs nx rule: seg.induct) auto

lemma seg_frame: "(\<And>b. b \<in> addrs bs \<Longrightarrow> H' b = H b) \<Longrightarrow> seg H' pv bs nx = seg H pv bs nx"
  by (induction H pv bs nx rule: seg.induct) auto

lemma seg_upd [simp]: "b \<notin> addrs bs \<Longrightarrow> seg (H(b := x)) pv bs nx = seg H pv bs nx"
  by (rule seg_frame) auto

lemma magic_of_simps [simp]:
  "(magic_of u = BLK_FREE) = (\<not> u)" "(magic_of u = BLK_USED) = u"
  "magic_of True = BLK_USED" "magic_of False = BLK_FREE" "magic_of u \<noteq> 0"
  "BLK_FREE \<noteq> 0" "BLK_USED \<noteq> 0" "BLK_FREE \<noteq> BLK_USED" "BLK_USED \<noteq> BLK_FREE"
  by (auto simp: magic_of_def BLK_FREE_def BLK_USED_def)

subsection \<open>Allocation refines first fit\<close>

lemma alloc_scan_seg:
  assumes "seg H pv bs 0" "tiles lo bs hi" "0 < lo" "hi < 4294967296"
  shows "alloc_scan H want (head_addr bs 0) =
    Some (case alloc_spec (unat want) bs of None \<Rightarrow> 0 | Some (a, _) \<Rightarrow> of_nat a)"
  using assms
proof (induction bs arbitrary: pv lo)
  case Nil
  then show ?case by (simp add: alloc_scan.simps)
next
  case (Cons x bs)
  obtain a s u where x: "x = (a, s, u)" by (cases x)
  from Cons.prems x have t: "tiles (lo + 16 + s) bs hi" and alo: "a = lo" by simp_all
  from tiles_le' [OF t] Cons.prems(3,4) alo have a: "0 < a" "a < 4294967296" "s < 4294967296" by linarith+
  have nz: "(of_nat a :: u32) \<noteq> 0"
    using a of_nat_eq_u32 [of a 0] by simp
  have lt: "(of_nat s < want) = (s < unat want)"
    using a by (simp add: word_less_nat_alt unat_of_nat_u32)
  from Cons.IH [of "of_nat a" "lo + 16 + s"] Cons.prems x t
  have IH: "alloc_scan H want (head_addr bs 0) =
    Some (case alloc_spec (unat want) bs of None \<Rightarrow> 0 | Some (a, _) \<Rightarrow> of_nat a)"
    by simp
  show ?case
    using Cons.prems x nz lt IH
    by (subst alloc_scan.simps) (auto split: option.splits)
qed

lemma alloc_spec_split:
  "alloc_spec want bs = Some (p, bs') \<Longrightarrow>
   \<exists>xs s ys. bs = xs @ (p, s, False) # ys \<and> want \<le> s \<and>
     bs' = xs @ (if s - want \<ge> 24 then [(p, want, True), (p + 16 + want, s - want - 16, False)]
                 else [(p, s, True)]) @ ys"
proof (induction want bs arbitrary: bs' rule: alloc_spec.induct)
  case (2 want a s u bs)
  show ?case
  proof (cases "u \<or> s < want")
    case True
    with 2 obtain bs'' where "alloc_spec want bs = Some (p, bs'')" "bs' = (a, s, u) # bs''"
      by (auto split: option.splits)
    with 2 True obtain xs t ys where "bs = xs @ (p, t, False) # ys" "want \<le> t"
      "bs'' = xs @ (if t - want \<ge> 24 then [(p, want, True), (p + 16 + want, t - want - 16, False)]
                 else [(p, t, True)]) @ ys"
      by blast
    with \<open>bs' = _\<close> show ?thesis
      by (intro exI [of _ "(a, s, u) # xs"] exI [of _ t] exI [of _ ys]) simp
  next
    case False
    with 2 show ?thesis
      by (intro exI [of _ "[]"] exI [of _ s] exI [of _ bs]) (auto split: if_splits)
  qed
qed simp

lemma heap_shape_range: "heap_shape h bs \<Longrightarrow> heap_hi h < 4294967296 \<and> 0 < heap_lo h \<and> 8 dvd heap_lo h"
  by (simp add: heap_shape_def align_up_dvd)

lemma heap_shape_upd:
  "g_first h' = g_first h \<Longrightarrow> heap_start h' = heap_start h \<Longrightarrow> heap_end h' = heap_end h \<Longrightarrow>
   heap_shape h bs \<Longrightarrow> tiles (heap_lo h) bs' (heap_hi h) \<Longrightarrow> head_addr bs' 0 = head_addr bs 0 \<Longrightarrow> bs' \<noteq> [] \<Longrightarrow>
   seg (hdr h') 0 bs' 0 \<Longrightarrow> unat (g_total h') = sizes bs' \<Longrightarrow> unat (g_used h') = used_sizes bs' \<Longrightarrow>
   heap_shape h' bs'"
  by (simp add: heap_shape_def)

text \<open>The facts every update of a single block needs, for a heap split at that block.\<close>

lemma shape_split:
  assumes "heap_shape h (xs @ (a, s, u) # ys)"
  shows "0 < a" "a + 16 + s \<le> heap_hi h" "a + 16 + s < 4294967296" "8 dvd a" "8 dvd s"
    "tiles (heap_lo h) xs a" "tiles (a + 16 + s) ys (heap_hi h)"
    "hdr h (of_nat a) = \<lparr>prev = last_addr 0 xs, nxt = head_addr ys 0, bsize = of_nat s, magic = magic_of u\<rparr>"
    "seg (hdr h) 0 xs (of_nat a)" "seg (hdr h) (of_nat a) ys 0" "0 < s"
proof -
  from assms obtain m where m: "tiles (heap_lo h) xs m" "tiles m ((a, s, u) # ys) (heap_hi h)"
    by (auto simp: heap_shape_def tiles_append)
  have mem: "(a, s, u) \<in> set (xs @ (a, s, u) # ys)" by simp
  from m(2) have am: "a = m" by simp
  from m am show "tiles (heap_lo h) xs a" "tiles (a + 16 + s) ys (heap_hi h)" "8 dvd s" "0 < s" by auto
  from tiles_le' [OF m(1)] heap_shape_range [OF assms] am show "0 < a" by simp
  from tiles_le' [of "m + 16 + s" ys "heap_hi h"] m am show hi: "a + 16 + s \<le> heap_hi h" by simp
  from hi unat_lt_u32 [of "heap_end h AND NOT 7"] show "a + 16 + s < 4294967296" by linarith
  show "8 dvd a"
    using tiles_mem_dvd [OF _ _ mem] assms heap_shape_range [OF assms] by (auto simp: heap_shape_def)
  from assms show
    "hdr h (of_nat a) = \<lparr>prev = last_addr 0 xs, nxt = head_addr ys 0, bsize = of_nat s, magic = magic_of u\<rparr>"
    "seg (hdr h) 0 xs (of_nat a)" "seg (hdr h) (of_nat a) ys 0"
    by (auto simp: heap_shape_def seg_append)
qed

lemma of_nat_add_u32: "(of_nat a :: u32) + 16 + of_nat s = of_nat (a + 16 + s)"
  by simp

lemma alloc_mark_shape:
  assumes sh: "heap_shape h (xs @ (a, s, False) # ys)"
  shows "heap_shape (alloc_mark (of_nat a) h) (xs @ (a, s, True) # ys)"
proof -
  note sp = shape_split [OF sh]
  have nx: "of_nat a \<notin> addrs xs" using addrs_below [OF sp(6)] sp by simp
  have ny: "of_nat a \<notin> addrs ys" using addrs_above [OF sp(7)] sp by simp
  have s32: "unat (of_nat s :: u32) = s" using sp by (simp add: unat_of_nat_u32)
  have used: "used_sizes xs + used_sizes ys + s < 4294967296"
    using tiles_le [OF sp(6)] tiles_le [OF sp(7)] used_le_sizes [of xs] used_le_sizes [of ys]
      unat_lt_u32 [of "heap_end h AND NOT 7"] by linarith
  from sh have gu: "unat (g_used h) = used_sizes xs + used_sizes ys" by (simp add: heap_shape_def)
  have "unat (g_used h + of_nat s) = used_sizes xs + s + used_sizes ys"
    using used gu s32 by (simp add: unat_add_u32)
  with sh sp nx ny show ?thesis
    by (auto simp: alloc_mark_def upd_hdr_def Let_def heap_shape_def seg_append tiles_append)
qed

lemma alloc_split_shape:
  assumes sh: "heap_shape h (xs @ (a, s, False) # ys)"
    and want: "unat want \<le> s" "8 dvd unat want" "0 < unat want" and big: "24 \<le> s - unat want"
  shows "heap_shape (alloc_split want (of_nat a) h)
           (xs @ (a, unat want, False) # (a + 16 + unat want, s - unat want - 16, False) # ys)"
proof -
  note sp = shape_split [OF sh]
  let ?w = "unat want" and ?b = "of_nat a :: u32"
  define t where "t = a + 16 + ?w"
  have s32: "unat (of_nat s :: u32) = s" using sp by (simp add: unat_of_nat_u32)
  have tl: "of_nat a + 16 + want = (of_nat t :: u32)" by (simp add: t_def)
  have sub: "unat ((of_nat s :: u32) - want) = s - ?w" using want s32 by (simp add: unat_sub_u32)
  have sub2: "(of_nat s :: u32) - want - 16 = of_nat (s - ?w - 16)"
    using want big by (simp add: of_nat_diff algebra_simps)
  have t32: "t < 4294967296" "a < t" "t + 16 + (s - ?w - 16) = a + 16 + s"
    using sp want big by (auto simp: t_def)
  have ne: "(of_nat t :: u32) \<noteq> of_nat a"
    using t32 sp of_nat_eq_u32 [of t a] by simp
  have ax: "of_nat a \<notin> addrs xs" "of_nat t \<notin> addrs xs"
    using addrs_below [OF sp(6)] sp t32 by auto
  have ay: "of_nat a \<notin> addrs ys" "of_nat t \<notin> addrs ys"
    using addrs_above [OF sp(7)] sp t32 by auto
  have tot: "unat (g_total h) = sizes xs + s + sizes ys" using sh by (simp add: heap_shape_def)
  then have tot': "unat (g_total h - 16) = sizes xs + s + sizes ys - 16"
    using big by (simp add: unat_sub_u32)
  have ge: "24 \<le> (of_nat s :: u32) - want" using big sub by (simp add: word_le_nat_alt)
  have dv: "8 dvd s - ?w - 16" using sp want by (simp add: dvd_diff_nat)
  have tiles': "tiles (heap_lo h) (xs @ (a, ?w, False) # (t, s - ?w - 16, False) # ys) (heap_hi h)"
    using sp want dv t32 big by (auto simp: tiles_append t_def add.assoc)
  show ?thesis
  proof (cases ys)
    case Nil
    with sp have nx: "nxt (hdr h ?b) = 0" by simp
    have "seg (hdr (alloc_split want ?b h)) 0 (xs @ (a, ?w, False) # (t, s - ?w - 16, False) # ys) 0"
      using sp ax ge ne Nil nx tl sub2
      by (simp add: alloc_split_def upd_hdr_def Let_def seg_append)
    then show ?thesis
      using tiles' sh tot' big ge nx want sp
      by (intro heap_shape_upd [OF _ _ _ sh])
        (auto simp: alloc_split_def upd_hdr_def Let_def t_def heap_shape_def)
  next
    case (Cons y ys')
    obtain c r v where y: "y = (c, r, v)" by (cases y)
    with Cons sp have c: "c = a + 16 + s" "hdr h (of_nat c) = \<lparr>prev = ?b, nxt = head_addr ys' 0,
        bsize = of_nat r, magic = magic_of v\<rparr>" "tiles (c + 16 + r) ys' (heap_hi h)" by auto
    have c32: "c < 4294967296" using c sp by simp
    have nx: "nxt (hdr h ?b) = of_nat c" "(of_nat c :: u32) \<noteq> 0"
      using sp Cons y c c32 of_nat_eq_u32 [of c 0] by auto
    have cn: "(of_nat c :: u32) \<noteq> of_nat a" "(of_nat c :: u32) \<noteq> of_nat t"
      using ay Cons y by auto
    have cx: "of_nat c \<notin> addrs xs" using addrs_below [OF sp(6), of c] c c32 by simp
    have cy: "of_nat c \<notin> addrs ys'"
      using addrs_above [OF c(3), of c] by simp
    have "seg (hdr (alloc_split want ?b h)) 0 (xs @ (a, ?w, False) # (t, s - ?w - 16, False) # ys) 0"
      using sp ax ay cx cy cn c ge ne Cons y nx tl sub2
      by (simp add: alloc_split_def upd_hdr_def Let_def seg_append)
    then show ?thesis
      using tiles' sh tot' big ge nx want sp
      by (intro heap_shape_upd [OF _ _ _ sh])
        (auto simp: alloc_split_def upd_hdr_def Let_def t_def heap_shape_def)
  qed
qed

lemma alloc_split_small:
  assumes sh: "heap_shape h (xs @ (a, s, False) # ys)" and want: "unat want \<le> s" and "\<not> 24 \<le> s - unat want"
  shows "alloc_split want (of_nat a) h = h"
proof -
  note sp = shape_split [OF sh]
  have "unat ((of_nat s :: u32) - want) = s - unat want"
    using want sp by (simp add: unat_sub_u32 unat_of_nat_u32)
  with assms sp show ?thesis by (simp add: alloc_split_def word_le_nat_alt)
qed

lemma no_adj_free_alloc:
  "no_adj_free (xs @ (a, s, False) # ys) \<Longrightarrow>
   no_adj_free (xs @ (a, s', True) # ys) \<and> no_adj_free (xs @ (a, s', True) # (b, t, False) # ys)"
  by (auto simp: successively_append_iff successively_Cons)

text \<open>\<open>heap_alloc\<close> on a well-formed heap always returns; it returns what first fit on the block
  list gives, and the list afterwards is the one first fit leaves.\<close>

lemma heap_alloc_refines:
  assumes rel: "heap_rel h bs" and b0: "bytes \<noteq> 0" and fits: "bytes \<le> g_total h"
  shows "case alloc_spec (unat (align_up bytes)) bs of
      None \<Rightarrow> heap_alloc bytes h = Some (0, h\<lparr>g_fail := g_fail h + 1\<rparr>)
    | Some (a, bs') \<Rightarrow>
        heap_alloc bytes h = Some (of_nat (a + 16), alloc_mark (of_nat a) (alloc_split (align_up bytes) (of_nat a) h))
        \<and> heap_rel (alloc_mark (of_nat a) (alloc_split (align_up bytes) (of_nat a) h)) bs' \<and> bs' \<noteq> []
        \<and> of_nat a \<noteq> (0 :: u32)"
proof -
  from b0 fits rel have ne: "bs \<noteq> []" by (auto simp: heap_rel_def)
  with rel have sh: "heap_shape h bs" and adj: "no_adj_free bs" by (auto simp: heap_rel_def)
  have "unat bytes \<le> sizes bs" using fits sh by (simp add: heap_shape_def word_le_nat_alt)
  moreover have "sizes bs + 16 + 1 \<le> heap_hi h"
    using sh tiles_le [of "heap_lo h" bs "heap_hi h"] ne by (cases bs) (auto simp: heap_shape_def)
  ultimately have nowrap: "unat bytes + 7 < 4294967296"
    using unat_lt_u32 [of "heap_end h AND NOT 7"] by linarith
  let ?w = "align_up bytes"
  have dw: "8 dvd unat ?w" by (rule align_up_dvd)
  have w0: "0 < unat ?w" using align_up_ge [OF nowrap] b0 by (simp add: u32_eq_0_iff)
  have scan: "alloc_scan (hdr h) ?w (g_first h) =
      Some (case alloc_spec (unat ?w) bs of None \<Rightarrow> 0 | Some (a, _) \<Rightarrow> of_nat a)"
    using sh alloc_scan_seg [of "hdr h" 0 bs "heap_lo h" "heap_hi h"] by (simp add: heap_shape_def)
  show ?thesis
  proof (cases "alloc_spec (unat ?w) bs")
    case None
    with scan b0 fits show ?thesis by (simp add: heap_alloc_def Let_def not_less)
  next
    case (Some pb)
    obtain a bs' where pb: "pb = (a, bs')" by (cases pb)
    from alloc_spec_split [of "unat ?w" bs a bs'] Some pb obtain xs s ys where
      bs: "bs = xs @ (a, s, False) # ys" and ws: "unat ?w \<le> s" and
      bs': "bs' = xs @ (if 24 \<le> s - unat ?w then [(a, unat ?w, True), (a + 16 + unat ?w, s - unat ?w - 16, False)]
                 else [(a, s, True)]) @ ys" by auto
    note sp = shape_split [OF sh [unfolded bs]]
    have nz: "(of_nat a :: u32) \<noteq> 0" using sp of_nat_eq_u32 [of a 0] by simp
    have val: "heap_alloc bytes h = Some (of_nat (a + 16), alloc_mark (of_nat a) (alloc_split ?w (of_nat a) h))"
      using scan Some pb b0 leD [OF fits] nz by (simp add: heap_alloc_def Let_def payload_of_def add.commute)
    have "heap_shape (alloc_mark (of_nat a) (alloc_split ?w (of_nat a) h)) bs'"
    proof (cases "24 \<le> s - unat ?w")
      case True
      with alloc_mark_shape [OF alloc_split_shape [OF sh [unfolded bs] ws dw w0 True]] bs' show ?thesis by simp
    next
      case False
      with alloc_split_small [OF sh [unfolded bs] ws] alloc_mark_shape [OF sh [unfolded bs]] bs' show ?thesis by simp
    qed
    moreover have "no_adj_free bs'" using no_adj_free_alloc [of xs a s ys] adj bs bs' by auto
    ultimately show ?thesis using Some pb val nz bs' by (auto simp: heap_rel_def)
  qed
qed

subsection \<open>Release refines coalescing\<close>

lemma coalesce_shape:
  assumes sh: "heap_shape h (xs @ (a, s, u) # ys)"
  shows "heap_shape (coalesce_with_next (of_nat a) h) (xs @ merge_next (a, s, u) ys)"
proof (cases "ys \<noteq> [] \<and> \<not> u \<and> \<not> snd (snd (hd ys))")
  case False
  note sp = shape_split [OF sh]
  show ?thesis
  proof (cases ys)
    case Nil
    with sp sh show ?thesis by (simp add: coalesce_with_next_def Let_def)
  next
    case (Cons y ys')
    obtain c r v where y: "y = (c, r, v)" by (cases y)
    with sp Cons have "hdr h (of_nat c) = \<lparr>prev = of_nat a, nxt = head_addr ys' 0, bsize = of_nat r, magic = magic_of v\<rparr>"
      by simp
    with False Cons y sp sh show ?thesis by (auto simp: coalesce_with_next_def Let_def)
  qed
next
  case True
  then obtain c r ys' where ys: "ys = (c, r, False) # ys'" and u: "u = False"
    by (cases ys) auto
  note sp = shape_split [OF sh]
  from sp ys have c: "c = a + 16 + s" "8 dvd r" "0 < r" "tiles (c + 16 + r) ys' (heap_hi h)"
    "hdr h (of_nat c) = \<lparr>prev = of_nat a, nxt = head_addr ys' 0, bsize = of_nat r, magic = BLK_FREE\<rparr>"
    "seg (hdr h) (of_nat c) ys' 0" by auto
  have cr: "c + 16 + r < 4294967296"
    using tiles_le' [OF c(4)] unat_lt_u32 [of "heap_end h AND NOT 7"] by linarith
  have ca: "a < c" "c < 4294967296" "a < 4294967296" using c(1) cr by linarith+
  have nz: "(of_nat c :: u32) \<noteq> 0" using ca of_nat_eq_u32 [of c 0] by simp
  have ne: "(of_nat c :: u32) \<noteq> of_nat a" using ca of_nat_eq_u32 [of c a] by simp
  have ax: "of_nat a \<notin> addrs xs" "of_nat c \<notin> addrs xs"
    using addrs_below [OF sp(6)] ca by auto
  have ay: "of_nat a \<notin> addrs ys'" "of_nat c \<notin> addrs ys'"
    using addrs_above [OF c(4)] ca by auto
  have sz: "(of_nat s :: u32) + (16 + of_nat r) = of_nat (s + 16 + r)" by simp
  have tot: "unat (g_total h) = sizes xs + s + r + sizes ys'" using sh ys by (simp add: heap_shape_def)
  have "unat (g_total h) + 16 < 4294967296"
    using tot tiles_le [OF sp(6)] tiles_le [OF c(4)] c(1) sp(1) unat_lt_u32 [of "heap_end h AND NOT 7"]
    by linarith
  then have tot': "unat (g_total h + 16) = sizes xs + s + 16 + r + sizes ys'"
    using tot by (simp add: unat_add_u32)
  have tiles': "tiles (heap_lo h) (xs @ (a, s + 16 + r, False) # ys') (heap_hi h)"
    using sp c by (auto simp: tiles_append add.assoc)
  have "seg (hdr (coalesce_with_next (of_nat a) h)) 0 (xs @ (a, s + 16 + r, False) # ys') 0"
  proof (cases ys')
    case Nil
    then show ?thesis
      using sp ys u c(5,6) ax ay ne nz sz
      by (simp add: coalesce_with_next_def upd_hdr_def Let_def seg_append algebra_simps)
  next
    case (Cons y ys'')
    obtain d q v where y: "y = (d, q, v)" by (cases y)
    with Cons c have d: "d = c + 16 + r" "hdr h (of_nat d) = \<lparr>prev = of_nat c, nxt = head_addr ys'' 0,
        bsize = of_nat q, magic = magic_of v\<rparr>" "tiles (d + 16 + q) ys'' (heap_hi h)" by auto
    have da: "c < d" "d < 4294967296" using d(1) cr by linarith+
    have dz: "(of_nat d :: u32) \<noteq> 0" "(of_nat d :: u32) \<noteq> of_nat a" "(of_nat d :: u32) \<noteq> of_nat c"
      using da ca of_nat_eq_u32 [of d 0] of_nat_eq_u32 [of d a] of_nat_eq_u32 [of d c] by simp_all
    have dn: "of_nat d \<notin> addrs xs" "of_nat d \<notin> addrs ys''"
      using addrs_below [OF sp(6), of d] addrs_above [OF d(3), of d] da ca by auto
    show ?thesis
      using sp ys u c(5,6) d(2) dz dn ax ay ne nz sz Cons y
      by (simp add: coalesce_with_next_def upd_hdr_def Let_def seg_append algebra_simps)
  qed
  then show ?thesis
    using tiles' sh tot' ys u sp c nz
    by (intro heap_shape_upd [OF _ _ _ sh])
      (auto simp: coalesce_with_next_def upd_hdr_def Let_def heap_shape_def)
qed

lemma free_mark_shape:
  assumes sh: "heap_shape h (xs @ (a, s, True) # ys)"
  shows "heap_shape ((upd_hdr (of_nat a) (\<lambda>x. x\<lparr>magic := BLK_FREE\<rparr>) h)\<lparr>g_used := g_used h - of_nat s\<rparr>)
           (xs @ (a, s, False) # ys)"
proof -
  note sp = shape_split [OF sh]
  have n: "of_nat a \<notin> addrs xs" "of_nat a \<notin> addrs ys"
    using addrs_below [OF sp(6)] addrs_above [OF sp(7)] sp by auto
  have "unat (g_used h) = used_sizes xs + s + used_sizes ys" using sh by (simp add: heap_shape_def)
  then have "unat (g_used h - of_nat s) = used_sizes xs + used_sizes ys"
    using sp by (simp add: unat_sub_u32 unat_of_nat_u32)
  with sh sp n show ?thesis
    by (auto simp: upd_hdr_def heap_shape_def seg_append tiles_append)
qed

lemma heap_start_le_lo:
  assumes "0 < heap_lo h" shows "unat (heap_start h) \<le> heap_lo h"
proof (cases "unat (heap_start h) + 7 < 4294967296")
  case True
  then show ?thesis using align_up_ge by blast
next
  case False
  then have "unat (heap_start h + 7) = unat (heap_start h) + 7 - 4294967296"
    by (simp add: unat_plus_if')
  then have "unat (heap_start h + 7) < 8"
    using unat_lt_u32 [of "heap_start h"] by linarith
  then have "heap_lo h = 0" by (simp add: align_up_def unat_and_not_7)
  with assms show ?thesis by simp
qed

lemma heap_hi_le_end: "heap_hi h \<le> unat (heap_end h)"
  by (simp add: unat_and_not_7)

lemma last_addr_snoc: "xs \<noteq> [] \<Longrightarrow> last_addr pv xs = of_nat (fst (last xs))"
  by (induction pv xs rule: last_addr.induct) auto

lemma merge_next_head: "\<exists>s' ys'. merge_next (a, s, u) ys = (a, s', u) # ys'"
  by (cases ys) auto

lemma heap_free_live:
  assumes sh: "heap_shape h (xs @ (a, s, True) # ys)"
  shows "heap_shape (heap_free (of_nat (a + 16)) h) (free_spec xs (a, s, True) ys)"
proof -
  note sp = shape_split [OF sh]
  let ?p = "of_nat (a + 16) :: u32"
  have up: "unat ?p = a + 16" using sp by (simp only: unat_of_nat_u32)
  have lo: "unat (heap_start h) \<le> a"
    using heap_start_le_lo [of h] tiles_le' [OF sp(6)] sh by (simp add: heap_shape_def)
  have "unat (heap_start h + 16) = unat (heap_start h) + 16"
    using lo sp by (simp add: unat_add_u32)
  then have g1: "\<not> ?p < heap_start h + 16" using up lo by (simp add: word_less_nat_alt)
  have g2: "\<not> heap_end h \<le> ?p" using up sp heap_hi_le_end [of h] by (simp add: word_le_nat_alt)
  have p0: "?p \<noteq> 0" using up by (auto simp: u32_eq_0_iff)
  have b: "?p - 16 = of_nat a" by simp
  let ?h2 = "(upd_hdr (of_nat a) (\<lambda>x. x\<lparr>magic := BLK_FREE\<rparr>) h)\<lparr>g_used := g_used h - of_nat s\<rparr>"
  let ?h3 = "coalesce_with_next (of_nat a) ?h2"
  have eq: "heap_free ?p h = (if prev (hdr ?h3 (of_nat a)) \<noteq> 0
              then coalesce_with_next (prev (hdr ?h3 (of_nat a))) ?h3 else ?h3)"
    using sp g1 g2 p0 b by (simp add: heap_free_def Let_def upd_hdr_def)
  have sh3: "heap_shape ?h3 (xs @ merge_next (a, s, False) ys)"
    by (rule coalesce_shape [OF free_mark_shape [OF sh]])
  obtain s' ys' where m: "merge_next (a, s, False) ys = (a, s', False) # ys'"
    using merge_next_head by blast
  have pv: "prev (hdr ?h3 (of_nat a)) = last_addr 0 xs"
    using shape_split(8) [OF sh3 [unfolded m]] by simp
  show ?thesis
  proof (cases "xs = []")
    case True
    with eq pv sh3 show ?thesis by (simp add: free_spec_def Let_def)
  next
    case False
    obtain c r v where l: "last xs = (c, r, v)" by (cases "last xs")
    with False have xs: "xs = butlast xs @ [(c, r, v)]" by (metis append_butlast_last_id)
    have sh3': "heap_shape ?h3 (butlast xs @ (c, r, v) # merge_next (a, s, False) ys)"
      using sh3 xs by (metis append_Cons append_Nil append_assoc)
    note sp3 = shape_split [OF sh3']
    have "last_addr 0 xs = of_nat c" using last_addr_snoc [OF False] l by simp
    moreover have "(of_nat c :: u32) \<noteq> 0" using sp3 of_nat_eq_u32 [of c 0] by simp
    ultimately have "heap_free ?p h = coalesce_with_next (of_nat c) ?h3" using eq pv by simp
    with coalesce_shape [OF sh3'] False l show ?thesis by (simp add: free_spec_def Let_def)
  qed
qed

lemma no_adj_free_free:
  assumes "no_adj_free (xs @ (a, s, True) # ys)"
  shows "no_adj_free (free_spec xs (a, s, True) ys)"
proof -
  have y: "no_adj_free (merge_next (a, s, False) ys)"
    using assms by (cases ys) (auto simp: successively_append_iff successively_Cons split: if_splits)
  obtain s' ys' where m: "merge_next (a, s, False) ys = (a, s', False) # ys'"
    using merge_next_head by blast
  show ?thesis
  proof (cases xs rule: rev_cases)
    case Nil
    with y show ?thesis by (simp add: free_spec_def Let_def)
  next
    case (snoc zs z)
    obtain c r v where z: "z = (c, r, v)" by (cases z)
    with snoc assms y m show ?thesis
      by (auto simp: free_spec_def Let_def successively_append_iff successively_Cons)
  qed
qed

lemma heap_free_refines:
  assumes "heap_rel h (xs @ (a, s, True) # ys)"
  shows "heap_rel (heap_free (of_nat (a + 16)) h) (free_spec xs (a, s, True) ys)"
proof -
  have "heap_shape (heap_free (of_nat (a + 16)) h) (free_spec xs (a, s, True) ys)"
    using assms by (intro heap_free_live) (simp add: heap_rel_def)
  moreover have "no_adj_free (free_spec xs (a, s, True) ys)"
    using assms by (intro no_adj_free_free) (simp add: heap_rel_def)
  ultimately show ?thesis by (simp add: heap_rel_def heap_shape_def)
qed

subsection \<open>Walks over a well-formed heap\<close>

text \<open>Every walk of the header store visits exactly the blocks of the abstraction, so each of the
  instrumentation functions returns, with the value computed on the list.\<close>

lemma seg_Cons_facts:
  assumes "seg H pv ((a, s, u) # bs) 0" "tiles lo ((a, s, u) # bs) hi" "0 < lo" "hi < 4294967296"
  shows "(of_nat a :: u32) \<noteq> 0" "a = lo" "unat (of_nat s :: u32) = s" "8 dvd s"
    "H (of_nat a) = \<lparr>prev = pv, nxt = head_addr bs 0, bsize = of_nat s, magic = magic_of u\<rparr>"
    "seg H (of_nat a) bs 0" "tiles (lo + 16 + s) bs hi" "0 < lo + 16 + s" "lo + 16 + s \<le> hi"
proof -
  from assms show t: "tiles (lo + 16 + s) bs hi" and al: "a = lo" by simp_all
  from tiles_le' [OF t] show "lo + 16 + s \<le> hi" .
  with assms(3,4) al show "(of_nat a :: u32) \<noteq> 0" "unat (of_nat s :: u32) = s"
    using of_nat_eq_u32 [of a 0] by (auto simp: unat_of_nat_u32)
qed (use assms in auto)

lemma head_addr_0_iff:
  assumes "tiles lo bs hi" "0 < lo" "hi < 4294967296"
  shows "(head_addr bs 0 = 0) = (bs = [])"
proof (cases bs)
  case (Cons x bs')
  obtain a s u where "x = (a, s, u)" by (cases x)
  with Cons assms tiles_le' [of "lo + 16 + s" bs' hi] of_nat_eq_u32 [of a 0] show ?thesis by auto
qed simp

lemma free_bytes_loop_seg:
  "seg H pv bs 0 \<Longrightarrow> tiles lo bs hi \<Longrightarrow> 0 < lo \<Longrightarrow> hi < 4294967296 \<Longrightarrow>
   free_bytes_loop H n (head_addr bs 0) = Some (n + of_nat (free_sizes bs))"
proof (induction bs arbitrary: pv lo n)
  case Nil
  then show ?case by (simp add: free_bytes_loop.simps)
next
  case (Cons x bs)
  obtain a s u where x: "x = (a, s, u)" by (cases x)
  note f = seg_Cons_facts [OF Cons.prems [unfolded x]]
  from Cons.IH [OF f(6) f(7) f(8) Cons.prems(4)] f x show ?case
    by (subst free_bytes_loop.simps) (simp add: algebra_simps)
qed

lemma blocks_loop_seg:
  "seg H pv bs 0 \<Longrightarrow> tiles lo bs hi \<Longrightarrow> 0 < lo \<Longrightarrow> hi < 4294967296 \<Longrightarrow>
   blocks_loop H n (head_addr bs 0) = Some (n + of_nat (length bs))"
proof (induction bs arbitrary: pv lo n)
  case Nil
  then show ?case by (simp add: blocks_loop.simps)
next
  case (Cons x bs)
  obtain a s u where x: "x = (a, s, u)" by (cases x)
  note f = seg_Cons_facts [OF Cons.prems [unfolded x]]
  from Cons.IH [OF f(6) f(7) f(8) Cons.prems(4)] f x show ?case
    by (subst blocks_loop.simps) (simp add: algebra_simps)
qed

definition largest :: "ablock list \<Rightarrow> nat" where
  "largest bs = fold max (map (\<lambda>(a, s, u). if u then 0 else s) bs) 0"

lemma fold_max_ge: "(m :: nat) \<le> fold max xs m"
  by (induction xs arbitrary: m) (auto intro: order_trans [OF max.cobounded2])

lemma fold_max_mem: "x \<in> set xs \<Longrightarrow> (x :: nat) \<le> fold max xs m"
proof (induction xs arbitrary: m)
  case (Cons y ys)
  then show ?case using fold_max_ge [of "max y m" ys] by auto
qed simp

lemma fold_max_in: "fold max xs (m :: nat) = m \<or> fold max xs m \<in> set xs"
proof (induction xs arbitrary: m)
  case (Cons y ys)
  from Cons.IH [of "max y m"] show ?case by (auto simp: max_def split: if_splits)
qed simp

lemma largest_free_loop_seg:
  "seg H pv bs 0 \<Longrightarrow> tiles lo bs hi \<Longrightarrow> 0 < lo \<Longrightarrow> hi < 4294967296 \<Longrightarrow>
   largest_free_loop H n (head_addr bs 0) =
     Some (of_nat (fold max (map (\<lambda>(a, s, u). if u then 0 else s) bs) (unat n)))"
proof (induction bs arbitrary: pv lo n)
  case Nil
  then show ?case by (simp add: largest_free_loop.simps)
next
  case (Cons x bs)
  obtain a s u where x: "x = (a, s, u)" by (cases x)
  note f = seg_Cons_facts [OF Cons.prems [unfolded x]]
  have mx: "unat (if \<not> u \<and> n < of_nat s then of_nat s else n) = max (if u then 0 else s) (unat n)"
    using f(3) by (auto simp: word_less_nat_alt max_def)
  from Cons.IH [OF f(6) f(7) f(8) Cons.prems(4), of "if \<not> u \<and> n < of_nat s then of_nat s else n"] f x mx
  show ?case by (subst largest_free_loop.simps) (simp cong: if_cong)
qed

lemma alloc_spec_None: "0 < want \<Longrightarrow> alloc_spec want bs = None \<longleftrightarrow> largest bs < want"
proof -
  assume w: "0 < want"
  have "alloc_spec want bs = None \<longleftrightarrow> (\<forall>(a, s, u) \<in> set bs. u \<or> s < want)"
    by (induction want bs rule: alloc_spec.induct) (auto split: option.splits if_splits)
  also have "\<dots> \<longleftrightarrow> (\<forall>x \<in> set (map (\<lambda>(a, s, u). if u then 0 else s) bs). x < want)"
    using w by (auto simp: split_beta)
  also have "\<dots> \<longleftrightarrow> largest bs < want"
    unfolding largest_def
    using w fold_max_in [of "map (\<lambda>(a, s, u). if u then 0 else s) bs" 0]
    by (auto dest: fold_max_mem [where m = 0] simp del: set_map intro: le_less_trans)
  finally show ?thesis .
qed

lemma check_loop_seg:
  "seg H pv bs 0 \<Longrightarrow> tiles lo bs hi \<Longrightarrow> 0 < lo \<Longrightarrow> hi < 4294967296 \<Longrightarrow> no_adj_free bs \<Longrightarrow>
   check_loop H (of_nat hi) pv (head_addr bs 0) sp us =
     Some (Inr (sp + of_nat (sizes bs), us + of_nat (used_sizes bs)))"
proof (induction bs arbitrary: pv lo sp us)
  case Nil
  then show ?case by (simp add: check_loop.simps)
next
  case (Cons x bs)
  obtain a s u where x: "x = (a, s, u)" by (cases x)
  note f = seg_Cons_facts [OF Cons.prems(1-4) [unfolded x]]
  have adj: "no_adj_free bs" using Cons.prems(5) by (auto simp: successively_Cons)
  have IH: "check_loop H (of_nat hi) (of_nat a) (head_addr bs 0) sp' us' =
     Some (Inr (sp' + of_nat (sizes bs), us' + of_nat (used_sizes bs)))" for sp' us'
    by (rule Cons.IH [OF f(6) f(7) f(8) Cons.prems(4) adj])
  have md: "(of_nat s :: u32) mod 8 = 0"
    using f(3,4) by (simp add: word_arith_nat_mod unat_of_nat_u32 dvd_eq_mod_eq_0)
  have mg: "(magic_of u = BLK_FREE \<or> magic_of u = BLK_USED)" by simp
  show ?case
  proof (cases bs)
    case Nil
    with f(2,7) have "(of_nat a :: u32) + 16 + of_nat s = of_nat hi" by (metis of_nat_add_u32 tiles.simps(1))
    with Nil f x IH md mg show ?thesis
      by (subst check_loop.simps) simp
  next
    case (Cons y bs')
    obtain c r v where y: "y = (c, r, v)" by (cases y)
    from f(7) Cons y have c: "c = lo + 16 + s" by simp
    have hn: "head_addr bs 0 \<noteq> 0" using head_addr_0_iff [OF f(7) f(8) Cons.prems(4)] Cons by simp
    have mc: "magic (H (of_nat c)) = magic_of v" using f(6) Cons y by simp
    have uv: "u \<or> v" using Cons.prems(5) x Cons y by simp
    show ?thesis
      using f x IH md mg hn Cons y c mc uv
      by (subst check_loop.simps) (auto simp: algebra_simps)
  qed
qed

subsection \<open>Initialisation and uniqueness of the abstraction\<close>

lemma heap_init_rel:
  assumes "0 < heap_lo h"
  shows "\<exists>bs. heap_rel (heap_init h) bs"
proof -
  let ?lo = "align_up (heap_start h)" and ?hi = "heap_end h AND NOT 7"
  show ?thesis
  proof (cases "?hi \<le> ?lo \<or> ?hi - ?lo < 24")
    case True
    then have "heap_rel (heap_init h) []" by (simp add: heap_init_def Let_def heap_rel_def)
    then show ?thesis ..
  next
    case False
    then have d: "unat ?lo < unat ?hi" "24 \<le> unat (?hi - ?lo)"
      by (auto simp: word_le_nat_alt word_less_nat_alt)
    then have e: "unat (?hi - ?lo) = unat ?hi - unat ?lo" by (simp add: unat_sub_u32)
    let ?s = "unat ?hi - unat ?lo - 16"
    have sz: "unat (?hi - ?lo - 16) = ?s" using d e by (simp add: unat_sub_u32)
    have "8 dvd unat ?hi" by (simp add: unat_and_not_7 dvd_minus_mod)
    then have dv: "8 dvd ?s" using align_up_dvd [of "heap_start h"]
      by (intro dvd_diff_nat) simp_all
    have s: "of_nat ?s = ?hi - ?lo - 16" using sz by (metis of_nat_unat_u32)
    have "heap_shape (heap_init h) [(unat ?lo, ?s, False)]"
      using False assms d e dv s sz
      by (simp add: heap_init_def Let_def heap_shape_def)
    then have "heap_rel (heap_init h) [(unat ?lo, ?s, False)]" by (simp add: heap_rel_def)
    then show ?thesis ..
  qed
qed

lemma seg_unique:
  assumes "seg H pv bs 0" "tiles lo bs hi" "seg H pv bs' 0" "tiles lo bs' hi"
    "0 < lo" "hi < 4294967296" "(bs = []) = (bs' = [])"
  shows "bs = bs'"
  using assms
proof (induction bs arbitrary: bs' pv lo)
  case (Cons x bs)
  obtain a s u where x: "x = (a, s, u)" by (cases x)
  from Cons.prems(7) obtain y bs2 where bs': "bs' = y # bs2" by (cases bs') auto
  obtain c r v where y: "y = (c, r, v)" by (cases y)
  note f = seg_Cons_facts [OF Cons.prems(1,2) [unfolded x] Cons.prems(5,6)]
  note g = seg_Cons_facts [OF Cons.prems(3,4) [unfolded bs' y] Cons.prems(5,6)]
  have ac: "a = c" using f(2) g(2) by simp
  with f(5) g(5) have eq: "(of_nat s :: u32) = of_nat r" "magic_of u = magic_of v" "head_addr bs 0 = head_addr bs2 0"
    by simp_all
  have "s = r" using eq(1) f(3) g(3) by metis
  moreover have "u = v" using eq(2) by (metis magic_of_simps(1))
  moreover have "bs = bs2"
  proof (rule Cons.IH)
    show "(bs = []) = (bs2 = [])"
      using eq(3) head_addr_0_iff [OF f(7) f(8) Cons.prems(6)] head_addr_0_iff [OF g(7) g(8) Cons.prems(6)] by simp
  qed (use f g ac \<open>s = r\<close> Cons.prems(6) in auto)
  ultimately show ?case using x y bs' ac by simp
qed simp

lemma heap_rel_unique: "heap_rel h bs \<Longrightarrow> heap_rel h bs' \<Longrightarrow> bs = bs'"
proof -
  assume r: "heap_rel h bs" "heap_rel h bs'"
  have nz: "heap_shape h cs \<Longrightarrow> g_first h \<noteq> 0" for cs
    using head_addr_0_iff [of "heap_lo h" cs "heap_hi h"] by (auto simp: heap_shape_def)
  have ne: "(bs = []) = (bs' = [])" using r nz by (auto simp: heap_rel_def split: if_splits)
  show ?thesis
  proof (cases "bs = []")
    case True
    with ne show ?thesis by simp
  next
    case False
    with r ne have "heap_shape h bs" "heap_shape h bs'" by (auto simp: heap_rel_def split: if_splits)
    then show ?thesis
      using ne by (intro seg_unique [of "hdr h" 0 bs "heap_lo h" "heap_hi h" bs']) (auto simp: heap_shape_def)
  qed
qed

subsection \<open>Live regions, and the allocator interface\<close>

definition alive :: "ablock list \<Rightarrow> (nat \<times> nat) set" where
  "alive bs = {(a + 16, s) | a s. (a, s, True) \<in> set bs}"

definition heap_ok :: "heap \<Rightarrow> bool" where
  "heap_ok h \<longleftrightarrow> (\<exists>bs. heap_rel h bs)"

definition heap_live :: "heap \<Rightarrow> (nat \<times> nat) set" where
  "heap_live h = (\<Union>bs \<in> {bs. heap_rel h bs}. alive bs)"

lemma heap_live_eq: "heap_rel h bs \<Longrightarrow> heap_live h = alive bs"
proof -
  assume r: "heap_rel h bs"
  then have "{bs. heap_rel h bs} = {bs}" using heap_rel_unique by blast
  then show ?thesis by (simp add: heap_live_def)
qed

lemma alive_simps [simp]:
  "alive [] = {}" "alive ((a, s, True) # bs) = insert (a + 16, s) (alive bs)"
  "alive ((a, s, False) # bs) = alive bs" "alive (xs @ ys) = alive xs \<union> alive ys"
  by (auto simp: alive_def)

lemma alive_range: "tiles lo bs hi \<Longrightarrow> (p, s) \<in> alive bs \<Longrightarrow> lo + 16 \<le> p \<and> p + s \<le> hi \<and> 0 < s"
  by (auto simp: alive_def dest: tiles_mem)

lemma alive_disjoint:
  "tiles lo bs hi \<Longrightarrow> (p, s) \<in> alive bs \<Longrightarrow> (q, t) \<in> alive bs \<Longrightarrow>
   (p, s) = (q, t) \<or> p + s \<le> q \<or> q + t \<le> p"
proof (induction lo bs hi rule: tiles.induct)
  case (2 lo a s' u bs hi)
  then show ?case
    using alive_range [of "lo + 16 + s'" bs hi] by (cases u) fastforce+
qed simp

lemma alive_alloc:
  assumes "alloc_spec want bs = Some (a, bs')"
  shows "\<exists>s \<ge> want. alive bs' = insert (a + 16, s) (alive bs)"
proof -
  from alloc_spec_split [OF assms] obtain xs s ys where
    bs: "bs = xs @ (a, s, False) # ys" "want \<le> s"
    "bs' = xs @ (if s - want \<ge> 24 then [(a, want, True), (a + 16 + want, s - want - 16, False)]
                 else [(a, s, True)]) @ ys" by blast
  then show ?thesis
    by (intro exI [of _ "if s - want \<ge> 24 then want else s"]) auto
qed

lemma alive_Cons: "alive ((a, s, u) # bs) = (if u then insert (a + 16, s) (alive bs) else alive bs)"
  by (cases u) simp_all

lemma alive_merge [simp]: "alive (merge_next (a, s, u) bs) = alive ((a, s, u) # bs)"
  by (cases "((a, s, u), bs)" rule: merge_next.cases) (auto simp: alive_Cons)

lemma alive_free_spec: "alive (free_spec xs (a, s, True) ys) = alive xs \<union> alive ys"
proof (cases xs rule: rev_cases)
  case (snoc zs z)
  then show ?thesis
    by (cases z) (auto simp: free_spec_def Let_def alive_Cons)
qed (simp add: free_spec_def)

lemma alive_remove:
  assumes "tiles lo (xs @ (a, s, True) # ys) hi"
  shows "alive (xs @ (a, s, True) # ys) - {(a + 16, s)} = alive xs \<union> alive ys"
proof -
  from assms have t: "tiles lo xs a" "tiles (a + 16 + s) ys hi" "0 < s" by (auto simp: tiles_append)
  have "(a + 16, s) \<notin> alive xs" using alive_range [OF t(1), of "a + 16" s] t(3) by auto
  moreover have "(a + 16, s) \<notin> alive ys" using alive_range [OF t(2), of "a + 16" s] by auto
  ultimately show ?thesis by auto
qed

text \<open>What a client of the heap may rely on: \<open>live\<close> is the set of regions handed out, they are
  disjoint and never wrap, an allocation adds one region of at least the requested size, and
  releasing a region removes exactly it.\<close>

locale allocator =
  fixes alloc :: "u32 \<Rightarrow> 'h \<Rightarrow> (u32 \<times> 'h) option"
    and free :: "u32 \<Rightarrow> 'h \<Rightarrow> 'h"
    and ok :: "'h \<Rightarrow> bool"
    and live :: "'h \<Rightarrow> (nat \<times> nat) set"
  assumes alloc_returns: "ok h \<Longrightarrow> \<exists>w h'. alloc n h = Some (w, h') \<and> ok h'"
    and alloc_refused: "ok h \<Longrightarrow> alloc n h = Some (0, h') \<Longrightarrow> live h' = live h"
    and alloc_fresh: "ok h \<Longrightarrow> alloc n h = Some (w, h') \<Longrightarrow> w \<noteq> 0 \<Longrightarrow>
        \<exists>s \<ge> unat n. live h' = insert (unat w, s) (live h) \<and> (unat w, s) \<notin> live h"
    and live_range: "ok h \<Longrightarrow> (p, s) \<in> live h \<Longrightarrow> 16 < p \<and> 0 < s \<and> p + s < 4294967296 \<and> 8 dvd p"
    and live_disjoint: "ok h \<Longrightarrow> (p, s) \<in> live h \<Longrightarrow> (q, t) \<in> live h \<Longrightarrow>
        (p, s) = (q, t) \<or> p + s \<le> q \<or> q + t \<le> p"
    and free_releases: "ok h \<Longrightarrow> (p, s) \<in> live h \<Longrightarrow>
        ok (free (of_nat p) h) \<and> live (free (of_nat p) h) = live h - {(p, s)}"
begin

text \<open>A fresh region overlaps no region that was live before.\<close>

lemma fresh_disjoint:
  assumes "ok h" "alloc n h = Some (p, h')" "p \<noteq> 0" "(q, t) \<in> live h"
  shows "unat p + unat n \<le> q \<or> q + t \<le> unat p"
proof -
  from alloc_fresh [OF assms(1-3)] obtain s where
    s: "unat n \<le> s" "live h' = insert (unat p, s) (live h)" "(unat p, s) \<notin> live h" by blast
  from alloc_returns [OF assms(1), of n] assms(2) have "ok h'" by auto
  from live_disjoint [OF this, of "unat p" s q t] s assms(4) show ?thesis by auto
qed

lemma live_start_unique: "ok h \<Longrightarrow> (p, s) \<in> live h \<Longrightarrow> (p, t) \<in> live h \<Longrightarrow> s = t"
  using live_disjoint [of h p s p t] live_range [of h p s] live_range [of h p t] by auto

end

lemma heap_shape_live:
  assumes "heap_shape h bs" "(p, s) \<in> alive bs"
  shows "16 < p \<and> 0 < s \<and> p + s < 4294967296 \<and> 8 dvd p"
proof -
  from assms(1) have t: "tiles (heap_lo h) bs (heap_hi h)" "0 < heap_lo h" by (auto simp: heap_shape_def)
  have "8 dvd p"
    using assms(2) tiles_mem_dvd [OF t(1) align_up_dvd] by (auto simp: alive_def)
  moreover have "p + s < 4294967296"
    using alive_range [OF t(1) assms(2)] unat_lt_u32 [of "heap_end h AND NOT 7"] by linarith
  ultimately show ?thesis using alive_range [OF t(1) assms(2)] t(2) by auto
qed

lemma heap_alloc_cases:
  assumes "heap_rel h bs"
  obtains (refused) k where "heap_alloc n h = Some (0, h\<lparr>g_fail := k\<rparr>)"
      "n = 0 \<or> g_total h < n \<or> alloc_spec (unat (align_up n)) bs = None"
  | (taken) a bs' h' where "heap_alloc n h = Some (of_nat (a + 16), h')" "heap_rel h' bs'" "n \<noteq> 0" "n \<le> g_total h"
      "alloc_spec (unat (align_up n)) bs = Some (a, bs')"
proof (cases "n = 0 \<or> g_total h < n")
  case True
  have "\<exists>k. heap_alloc n h = Some (0, h\<lparr>g_fail := k\<rparr>)"
  proof (cases "n = 0")
    case True
    then have "heap_alloc n h = Some (0, h\<lparr>g_fail := g_fail h\<rparr>)" by (simp add: heap_alloc_def)
    then show ?thesis ..
  next
    case False
    with \<open>n = 0 \<or> g_total h < n\<close> have "heap_alloc n h = Some (0, h\<lparr>g_fail := g_fail h + 1\<rparr>)"
      by (simp add: heap_alloc_def)
    then show ?thesis ..
  qed
  with True show ?thesis using refused by blast
next
  case False
  then have n: "n \<noteq> 0" "n \<le> g_total h" by auto
  show ?thesis
    using heap_alloc_refines [OF assms n] refused taken n by (auto split: option.splits)
qed

lemma heap_rel_g_fail [simp]: "heap_rel (h\<lparr>g_fail := k\<rparr>) bs = heap_rel h bs"
  by (simp add: heap_rel_def heap_shape_def)

lemma heap_rel_g_bad_free [simp]: "heap_rel (h\<lparr>g_bad_free := k\<rparr>) bs = heap_rel h bs"
  by (simp add: heap_rel_def heap_shape_def)

lemma heap_ok_alloc: "heap_ok h \<Longrightarrow> \<exists>w h'. heap_alloc n h = Some (w, h') \<and> heap_ok h'"
  unfolding heap_ok_def by (metis heap_alloc_cases heap_rel_g_fail)

lemma payload_nonzero:
  assumes "heap_rel h bs" "alloc_spec w bs = Some (a, bs')"
  shows "a + 16 < 4294967296" "unat (of_nat (a + 16) :: u32) = a + 16" "(of_nat (a + 16) :: u32) \<noteq> 0"
proof -
  from alloc_spec_split [OF assms(2)] obtain xs s ys where bs: "bs = xs @ (a, s, False) # ys" by blast
  with assms(1) have "heap_shape h (xs @ (a, s, False) # ys)" by (auto simp: heap_rel_def split: if_splits)
  from shape_split(3) [OF this] show l: "a + 16 < 4294967296" by simp
  then show u: "unat (of_nat (a + 16) :: u32) = a + 16" by (rule unat_of_nat_u32)
  then show "(of_nat (a + 16) :: u32) \<noteq> 0" by (auto simp: u32_eq_0_iff)
qed

lemma align_up_total:
  assumes "heap_rel h bs" "n \<le> g_total h" "n \<noteq> 0"
  shows "unat n \<le> unat (align_up n)" "0 < unat (align_up n)"
    "8 dvd m \<Longrightarrow> unat (align_up n) \<le> m \<longleftrightarrow> unat n \<le> m"
proof -
  have "bs \<noteq> []" using assms by (auto simp: heap_rel_def)
  with assms have sh: "heap_shape h bs" by (auto simp: heap_rel_def)
  have "unat n \<le> sizes bs" using sh assms by (simp add: heap_shape_def word_le_nat_alt)
  moreover have "heap_lo h + 16 * length bs + sizes bs = heap_hi h" "0 < length bs"
    using sh tiles_le by (auto simp: heap_shape_def)
  ultimately have nw: "unat n + 7 < 4294967296"
    using unat_lt_u32 [of "heap_end h AND NOT 7"] by linarith
  show "unat n \<le> unat (align_up n)" using align_up_ge [OF nw] by simp
  then show "0 < unat (align_up n)" using assms(3) by (simp add: u32_eq_0_iff)
  show "8 dvd m \<Longrightarrow> unat (align_up n) \<le> m \<longleftrightarrow> unat n \<le> m"
    by (auto simp: unat_align_up [OF nw] elim!: dvdE)
qed

lemma heap_alloc_fresh:
  assumes "heap_rel h bs" "heap_alloc n h = Some (p, h')" "p \<noteq> 0"
  obtains s where "unat n \<le> s" "heap_live h' = insert (unat p, s) (heap_live h)" "(unat p, s) \<notin> heap_live h"
  using assms(1)
proof (cases rule: heap_alloc_cases [where n = n])
  case (taken a bs' h2)
  with assms have e: "p = of_nat (a + 16)" "h' = h2" by auto
  note pn = payload_nonzero [OF assms(1) taken(5)]
  from alive_alloc [OF taken(5)] obtain s where
    s: "unat (align_up n) \<le> s" "alive bs' = insert (a + 16, s) (alive bs)" by blast
  have "(a + 16, s) \<notin> alive bs"
  proof
    assume m: "(a + 16, s) \<in> alive bs"
    from alloc_spec_split [OF taken(5)] obtain xs s0 ys where bs: "bs = xs @ (a, s0, False) # ys" by blast
    have "heap_shape h (xs @ (a, s0, False) # ys)" using assms(1) bs by (simp add: heap_rel_def)
    note t = shape_split(6,7) [OF this]
    from m bs have "(a + 16, s) \<in> alive xs \<or> (a + 16, s) \<in> alive ys" by simp
    then show False using alive_range [OF t(1), of "a + 16" s] alive_range [OF t(2), of "a + 16" s] by auto
  qed
  with s e pn that [of s] heap_live_eq [OF assms(1)] heap_live_eq [OF taken(2)]
    align_up_total(1) [OF assms(1) taken(4,3)]
  show ?thesis by (metis order_trans)
qed (use assms in simp)

interpretation kheap: allocator heap_alloc heap_free heap_ok heap_live
proof
  fix h :: heap and n :: u32
  assume ok: "heap_ok h"
  show "\<exists>w h'. heap_alloc n h = Some (w, h') \<and> heap_ok h'" by (rule heap_ok_alloc [OF ok])
next
  fix h n h'
  assume ok: "heap_ok h" and a: "heap_alloc n h = Some (0, h')"
  from ok obtain bs where r: "heap_rel h bs" by (auto simp: heap_ok_def)
  from r show "heap_live h' = heap_live h"
  proof (cases rule: heap_alloc_cases [where n = n])
    case (refused k)
    with a have "h' = h\<lparr>g_fail := k\<rparr>" by simp
    with r have "heap_rel h' bs" by simp
    with r show ?thesis by (simp add: heap_live_eq)
  next
    case (taken b bs' h2)
    with a payload_nonzero(3) [OF r taken(5)] show ?thesis by simp
  qed
next
  fix h n w h'
  assume "heap_ok h" "heap_alloc n h = Some (w, h')" "w \<noteq> 0"
  then show "\<exists>s \<ge> unat n. heap_live h' = insert (unat w, s) (heap_live h) \<and> (unat w, s) \<notin> heap_live h"
    unfolding heap_ok_def by (metis heap_alloc_fresh)
next
  fix h p s
  assume "heap_ok h" "(p, s) \<in> heap_live h"
  then obtain bs where "heap_rel h bs" "(p, s) \<in> alive bs" by (auto simp: heap_ok_def heap_live_def)
  then show "16 < p \<and> 0 < s \<and> p + s < 4294967296 \<and> 8 dvd p"
    using heap_shape_live [of h bs p s] by (auto simp: heap_rel_def split: if_splits)
next
  fix h p s q t
  assume ok: "heap_ok h" and m: "(p, s) \<in> heap_live h" "(q, t) \<in> heap_live h"
  from ok obtain bs where r: "heap_rel h bs" by (auto simp: heap_ok_def)
  from r m have "(p, s) \<in> alive bs" "(q, t) \<in> alive bs" by (auto simp: heap_live_eq)
  moreover from r this have "heap_shape h bs" by (auto simp: heap_rel_def split: if_splits)
  ultimately show "(p, s) = (q, t) \<or> p + s \<le> q \<or> q + t \<le> p"
    using alive_disjoint [of "heap_lo h" bs "heap_hi h" p s q t] by (simp add: heap_shape_def)
next
  fix h p s
  assume ok: "heap_ok h" and m: "(p, s) \<in> heap_live h"
  from ok obtain bs where r: "heap_rel h bs" by (auto simp: heap_ok_def)
  with m have "(p, s) \<in> alive bs" by (simp add: heap_live_eq)
  then obtain a xs ys where bs: "bs = xs @ (a, s, True) # ys" and p: "p = a + 16"
    by (auto simp: alive_def dest: split_list)
  from heap_free_refines [OF r [unfolded bs]]
  have r': "heap_rel (heap_free (of_nat p) h) (free_spec xs (a, s, True) ys)" by (simp add: p)
  have "tiles (heap_lo h) bs (heap_hi h)" using r bs by (simp add: heap_rel_def heap_shape_def)
  then have "alive bs - {(p, s)} = alive xs \<union> alive ys" using alive_remove bs p by blast
  then show "heap_ok (heap_free (of_nat p) h) \<and> heap_live (heap_free (of_nat p) h) = heap_live h - {(p, s)}"
    using r r' by (auto simp: heap_ok_def heap_live_eq alive_free_spec)
qed

subsection \<open>Histories of a heap\<close>

text \<open>The blocks a walk from \<open>g_first\<close> meets.\<close>

inductive on_chain :: "heap \<Rightarrow> u32 \<Rightarrow> bool" for h :: heap where
  chain_first: "g_first h \<noteq> 0 \<Longrightarrow> on_chain h (g_first h)"
| chain_next: "on_chain h b \<Longrightarrow> nxt (hdr h b) \<noteq> 0 \<Longrightarrow> on_chain h (nxt (hdr h b))"

text \<open>What can happen to a heap: an allocation of any size; a release of any pointer, except one
  into a payload whose owner has forged a used header in front of it; a client writing whatever it
  likes over memory that is not a block header.\<close>

inductive heap_step :: "heap \<Rightarrow> heap \<Rightarrow> bool" where
  step_alloc: "heap_alloc n h = Some (p, h') \<Longrightarrow> heap_step h h'"
| step_free: "magic (hdr h (p - HDR_BYTES)) \<noteq> BLK_USED \<or> on_chain h (p - HDR_BYTES) \<Longrightarrow>
    heap_step h (heap_free p h)"
| step_payload: "(\<And>b. on_chain h b \<Longrightarrow> H b = hdr h b) \<Longrightarrow> heap_step h (h\<lparr>hdr := H\<rparr>)"

definition heap_boot :: "heap \<Rightarrow> bool" where
  "heap_boot h \<longleftrightarrow> (\<exists>h0. align_up (heap_start h0) \<noteq> 0 \<and> h = heap_init h0)"

lemma chain_addrs:
  assumes "heap_rel h bs" "on_chain h b" shows "b \<in> addrs bs"
  using assms(2)
proof (induction rule: on_chain.induct)
  case chain_first
  with assms(1) show ?case by (cases bs) (auto simp: heap_rel_def heap_shape_def)
next
  case (chain_next b)
  then have "bs \<noteq> []" by auto
  with assms(1) have sh: "heap_shape h bs" by (simp add: heap_rel_def)
  from chain_next.IH obtain a s u xs ys where b: "b = of_nat a" and bs: "bs = xs @ (a, s, u) # ys"
    by (auto simp: addrs_def dest: split_list)
  from shape_split(8) [OF sh [unfolded bs]] b chain_next.hyps(2) have "nxt (hdr h b) = head_addr ys 0" "ys \<noteq> []"
    by auto
  with bs show ?case by (cases ys) auto
qed

lemma addrs_chain:
  assumes "heap_shape h (xs @ (a, s, u) # ys)" shows "on_chain h (of_nat a)"
  using assms
proof (induction xs arbitrary: a s u ys rule: rev_induct)
  case Nil
  have "(of_nat a :: u32) \<noteq> 0"
    using shape_split(1,3) [OF Nil] of_nat_eq_u32 [of a 0] by simp
  with Nil chain_first [of h] show ?case by (simp add: heap_shape_def)
next
  case (snoc x xs)
  obtain c r v where x: "x = (c, r, v)" by (cases x)
  have sh: "heap_shape h (xs @ (c, r, v) # (a, s, u) # ys)" using snoc.prems x by simp
  have "(of_nat a :: u32) \<noteq> 0"
    using shape_split(1,3) [OF snoc.prems] of_nat_eq_u32 [of a 0] by simp
  with shape_split(8) [OF sh] chain_next [OF snoc.IH [OF sh]] show ?case by simp
qed

lemma chain_iff: "heap_rel h bs \<Longrightarrow> on_chain h b \<longleftrightarrow> b \<in> addrs bs"
proof
  assume "heap_rel h bs" "b \<in> addrs bs"
  then obtain a s u where b: "b = of_nat a" "(a, s, u) \<in> set bs" and sh: "heap_shape h bs"
    by (auto simp: addrs_def heap_rel_def split: if_splits)
  from split_list [OF b(2)] obtain xs ys where "bs = xs @ (a, s, u) # ys" by blast
  with b sh addrs_chain show "on_chain h b" by blast
qed (rule chain_addrs)

text \<open>Releasing a pointer whose header does not say used changes nothing but a counter.\<close>

lemma heap_free_refused:
  "magic (hdr h (p - HDR_BYTES)) \<noteq> BLK_USED \<Longrightarrow>
   heap_free p h = (if p = 0 then h else h\<lparr>g_bad_free := g_bad_free h + 1\<rparr>)"
  by (simp add: heap_free_def Let_def)

lemma heap_free_rel:
  assumes r: "heap_rel h bs" and ok: "magic (hdr h (p - HDR_BYTES)) \<noteq> BLK_USED \<or> on_chain h (p - HDR_BYTES)"
  shows "\<exists>bs'. heap_rel (heap_free p h) bs'"
proof (cases "magic (hdr h (p - HDR_BYTES)) = BLK_USED")
  case False
  with r have "heap_rel (heap_free p h) bs" by (simp add: heap_free_refused)
  then show ?thesis ..
next
  case True
  with ok chain_addrs [OF r] have "p - 16 \<in> addrs bs" by auto
  then obtain a s u xs ys where pa: "p - 16 = of_nat a" and bs: "bs = xs @ (a, s, u) # ys"
    by (auto simp: addrs_def dest: split_list)
  have sh: "heap_shape h (xs @ (a, s, u) # ys)" using r bs by (simp add: heap_rel_def)
  from True shape_split(8) [OF sh] pa have "u = True" by simp
  moreover have "p = of_nat (a + 16)" using pa by (simp add: algebra_simps)
  ultimately show ?thesis using heap_free_refines r bs by metis
qed

lemma heap_step_ok: "heap_step h h' \<Longrightarrow> heap_ok h \<Longrightarrow> heap_ok h'"
proof (induction rule: heap_step.induct)
  case (step_alloc n h p h')
  from heap_ok_alloc [OF step_alloc.prems, of n] step_alloc.hyps show ?case by auto
next
  case (step_free h p)
  then show ?case using heap_free_rel by (auto simp: heap_ok_def)
next
  case (step_payload h H)
  then obtain bs where r: "heap_rel h bs" by (auto simp: heap_ok_def)
  have "seg H 0 bs 0 = seg (hdr h) 0 bs 0"
    using step_payload.hyps chain_iff [OF r] by (intro seg_frame) simp
  with r have "heap_rel (h\<lparr>hdr := H\<rparr>) bs" by (auto simp: heap_rel_def heap_shape_def split: if_splits)
  then show ?case by (auto simp: heap_ok_def)
qed

interpretation heap_sys: invariant_system heap_boot heap_step heap_ok
proof
  fix h assume "heap_boot h"
  then obtain h0 where "0 < heap_lo h0" "h = heap_init h0" by (auto simp: heap_boot_def u32_eq_0_iff)
  then show "heap_ok h" using heap_init_rel by (auto simp: heap_ok_def)
qed (rule heap_step_ok)

lemma heap_check_ok: "heap_ok h \<Longrightarrow> heap_check h = Some 0"
proof -
  assume "heap_ok h"
  then obtain bs where r: "heap_rel h bs" by (auto simp: heap_ok_def)
  show ?thesis
  proof (cases "bs = []")
    case True
    with r show ?thesis by (simp add: heap_rel_def heap_check_def Let_def)
  next
    case False
    with r have sh: "heap_shape h bs" and adj: "no_adj_free bs" by (auto simp: heap_rel_def)
    have nz: "g_first h \<noteq> 0" and gf: "g_first h = align_up (heap_start h)"
      using sh head_addr_0_iff [of "heap_lo h" bs "heap_hi h"]
      by (cases bs; auto simp: heap_shape_def)+
    have "check_loop (hdr h) (heap_end h AND NOT 7) 0 (g_first h) 0 0 =
        Some (Inr (of_nat (sizes bs), of_nat (used_sizes bs)))"
      using check_loop_seg [of "hdr h" 0 bs "heap_lo h" "heap_hi h" 0 0] sh adj by (simp add: heap_shape_def)
    moreover have "of_nat (sizes bs) = g_total h" "of_nat (used_sizes bs) = g_used h"
      using sh by (metis heap_shape_def of_nat_unat_u32)+
    ultimately show ?thesis using nz gf by (simp add: heap_check_def Let_def)
  qed
qed

lemma heap_free_bytes_ok: "heap_ok h \<Longrightarrow> heap_free_bytes h = Some (g_total h - g_used h)"
proof -
  assume "heap_ok h"
  then obtain bs where r: "heap_rel h bs" by (auto simp: heap_ok_def)
  show ?thesis
  proof (cases "bs = []")
    case True
    with r show ?thesis by (simp add: heap_rel_def heap_free_bytes_def free_bytes_loop.simps)
  next
    case False
    with r have sh: "heap_shape h bs" by (auto simp: heap_rel_def)
    have "sizes bs = used_sizes bs + free_sizes bs" by (induction bs) auto
    moreover have "g_total h = of_nat (sizes bs)" "g_used h = of_nat (used_sizes bs)"
      using sh by (metis heap_shape_def of_nat_unat_u32)+
    ultimately have "g_total h = g_used h + of_nat (free_sizes bs)" by simp
    with free_bytes_loop_seg [of "hdr h" 0 bs "heap_lo h" "heap_hi h" 0] sh show ?thesis
      by (simp add: heap_free_bytes_def heap_shape_def)
  qed
qed

lemma largest_le: "largest bs \<le> sizes bs"
proof -
  have "\<forall>x \<in> set (map (\<lambda>(a, s, u). if u then 0 else s) bs). x \<le> sizes bs"
    by (induction bs) (auto intro: trans_le_add2)
  then show ?thesis
    using fold_max_in [of "map (\<lambda>(a, s, u). if u then 0 else s) bs" 0] unfolding largest_def by fastforce
qed

lemma largest_dvd: "tiles lo bs hi \<Longrightarrow> 8 dvd largest bs"
  using fold_max_in [of "map (\<lambda>(a, s, u). if u then 0 else s) bs" 0]
  by (auto simp: largest_def dest: tiles_mem)

lemma heap_largest_ok:
  assumes "heap_rel h bs" shows "heap_largest_free h = Some (of_nat (largest bs))" "largest bs \<le> unat (g_total h)"
proof -
  show "heap_largest_free h = Some (of_nat (largest bs))"
  proof (cases "bs = []")
    case True
    with assms show ?thesis by (simp add: heap_rel_def heap_largest_free_def largest_free_loop.simps largest_def)
  next
    case False
    with assms have sh: "heap_shape h bs" by (auto simp: heap_rel_def)
    with largest_free_loop_seg [of "hdr h" 0 bs "heap_lo h" "heap_hi h" 0] show ?thesis
      by (simp add: heap_largest_free_def heap_shape_def largest_def)
  qed
  show "largest bs \<le> unat (g_total h)"
    using assms largest_le [of bs] by (auto simp: heap_rel_def heap_shape_def largest_def split: if_splits)
qed

lemma heap_alloc_succeeds_iff:
  assumes r: "heap_rel h bs" and n0: "n \<noteq> 0"
  shows "\<exists>p h'. heap_alloc n h = Some (p, h') \<and> (p \<noteq> 0 \<longleftrightarrow> unat n \<le> largest bs)"
proof (cases "n \<le> g_total h")
  case False
  then have "\<not> unat n \<le> largest bs" using heap_largest_ok(2) [OF r] by (simp add: word_le_nat_alt)
  with False n0 show ?thesis by (simp add: heap_alloc_def not_le)
next
  case True
  have "8 dvd largest bs"
    using r largest_dvd by (cases "bs = []") (auto simp: heap_rel_def heap_shape_def largest_def)
  then have "unat (align_up n) \<le> largest bs \<longleftrightarrow> unat n \<le> largest bs"
    by (rule align_up_total(3) [OF r True n0])
  with alloc_spec_None [OF align_up_total(2) [OF r True n0], of bs]
  have none: "alloc_spec (unat (align_up n)) bs = None \<longleftrightarrow> \<not> unat n \<le> largest bs" by linarith
  from r show ?thesis
  proof (cases rule: heap_alloc_cases [where n = n])
    case (refused k)
    with none n0 True show ?thesis by auto
  next
    case (taken a bs' h')
    with none payload_nonzero(3) [OF r taken(5)] show ?thesis by auto
  qed
qed

subsection \<open>Allocation followed by release\<close>

lemma free_spec_alloc_split:
  assumes "no_adj_free (xs @ (a, s, False) # ys)" "w \<le> s"
  shows "free_spec xs (a, s, True) ys = xs @ (a, s, False) # ys"
    and "24 \<le> s - w \<Longrightarrow> free_spec xs (a, w, True) ((a + 16 + w, s - w - 16, False) # ys) = xs @ (a, s, False) # ys"
proof -
  have y: "merge_next (a, s, False) ys = (a, s, False) # ys"
    using assms(1) by (cases ys) (auto simp: successively_append_iff successively_Cons)
  have x: "butlast xs @ merge_next (last xs) ((a, s, False) # ys) = xs @ (a, s, False) # ys" if ne: "xs \<noteq> []"
  proof -
    obtain zs z where zs: "xs = zs @ [z]" using ne by (cases xs rule: rev_cases) auto
    moreover obtain c r v where "z = (c, r, v)" by (cases z)
    ultimately have "xs = zs @ [(c, r, v)]" by simp
    with assms(1) show ?thesis by (auto simp: successively_append_iff successively_Cons)
  qed
  from x y show "free_spec xs (a, s, True) ys = xs @ (a, s, False) # ys"
    by (simp add: free_spec_def Let_def)
  assume "24 \<le> s - w"
  then have "w + 16 + (s - w - 16) = s" by simp
  then have "merge_next (a, w, False) ((a + 16 + w, s - w - 16, False) # ys) = (a, s, False) # ys" by simp
  with x show "free_spec xs (a, w, True) ((a + 16 + w, s - w - 16, False) # ys) = xs @ (a, s, False) # ys"
    by (auto simp: free_spec_def Let_def)
qed

lemma heap_alloc_free_rel:
  assumes r: "heap_rel h bs" and al: "heap_alloc n h = Some (p, h')" and p: "p \<noteq> 0"
  shows "heap_rel (heap_free p h') bs"
  using r
proof (cases rule: heap_alloc_cases [where n = n])
  case (taken a bs' h2)
  with al have e: "p = of_nat (a + 16)" "h' = h2" by auto
  let ?w = "unat (align_up n)"
  from alloc_spec_split [OF taken(5)] obtain xs s ys where
    bs: "bs = xs @ (a, s, False) # ys" "?w \<le> s"
    "bs' = xs @ (if s - ?w \<ge> 24 then [(a, ?w, True), (a + 16 + ?w, s - ?w - 16, False)]
                 else [(a, s, True)]) @ ys" by blast
  have adj: "no_adj_free (xs @ (a, s, False) # ys)" using r bs by (simp add: heap_rel_def)
  show ?thesis
  proof (cases "24 \<le> s - ?w")
    case True
    with taken(2) bs have "heap_rel h' (xs @ (a, ?w, True) # (a + 16 + ?w, s - ?w - 16, False) # ys)"
      using e by simp
    from heap_free_refines [OF this] free_spec_alloc_split(2) [OF adj bs(2) True] bs(1) e(1)
    show ?thesis by simp
  next
    case False
    with taken(2) bs have "heap_rel h' (xs @ (a, s, True) # ys)" using e by simp
    from heap_free_refines [OF this] free_spec_alloc_split(1) [OF adj bs(2)] bs(1) e(1)
    show ?thesis by simp
  qed
qed (use al p in simp)

subsection \<open>Properties\<close>

text \<open>A heap of 256 bytes, for the witnesses.\<close>

definition heap_example :: heap where
  "heap_example = heap_init \<lparr>heap_start = 0x1000, heap_end = 0x1100,
      hdr = (\<lambda>_. \<lparr>prev = 0, nxt = 0, bsize = 0, magic = 0\<rparr>), g_first = 0, g_total = 0, g_used = 0,
      g_high_water = 0, g_fail = 0, g_bad_free = 0\<rparr>"

lemma heap_example_boot: "heap_boot heap_example"
  unfolding heap_boot_def heap_example_def by (rule exI, rule conjI [OF _ refl]) (simp add: align_up_def)

lemma heap_example_ok: "heap_ok heap_example"
  by (rule heap_sys.start_inv [OF heap_example_boot])

lemma heap_example_reaches: "reaches heap_boot heap_step heap_example"
  by (rule reaches_start) (rule heap_example_boot)

text \<open>(C3) In every state a heap can reach, through any sequence of allocations of any size,
  releases of any pointer that is not a forged header, and arbitrary client writes outside the block
  headers, the kernel's own structural audit \<open>heap_check\<close> terminates and returns 0: headers intact,
  links consistent in both directions, blocks tiling the region, no two neighbours both free, and
  the used and total counters equal to the sums over the blocks.\<close>

theorem heap_check_reachable: "reaches heap_boot heap_step h \<Longrightarrow> heap_check h = Some 0"
  by (rule heap_check_ok [OF heap_sys.reaches_inv])

theorem heap_check_reachable_witness:
  "\<exists>h. reaches heap_boot heap_step h \<and> g_used h = 104 \<and> heap_check h = Some 0"
proof -
  obtain p h' where a: "heap_alloc 100 heap_example = Some (p, h')"
    using heap_ok_alloc [OF heap_example_ok] by blast
  have "map_option (\<lambda>(p, h). g_used h) (heap_alloc 100 heap_example) = Some 104" by code_simp
  with a have u: "g_used h' = 104" by simp
  have r: "reaches heap_boot heap_step h'"
    by (rule reaches_step [where step = heap_step, OF heap_example_reaches]) (rule step_alloc [OF a])
  from heap_check_reachable [OF r] r u show ?thesis by blast
qed

text \<open>(C11) Soundness of allocation: on a well-formed heap \<open>heap_alloc\<close> returns, and a non-null
  result is an 8-byte aligned region of at least the requested size that lies below the end of the
  address space, becomes live, and overlaps no region that was live before.\<close>

theorem heap_alloc_sound:
  assumes "heap_ok h"
  shows "\<exists>p h'. heap_alloc n h = Some (p, h') \<and> heap_ok h' \<and>
    (p \<noteq> 0 \<longrightarrow> (\<exists>s. unat n \<le> s \<and> heap_live h' = insert (unat p, s) (heap_live h)
       \<and> 8 dvd unat p \<and> unat p + s < 2 ^ 32
       \<and> (\<forall>(q, t) \<in> heap_live h. unat p + s \<le> q \<or> q + t \<le> unat p)))"
proof -
  from kheap.alloc_returns [OF assms] obtain p h' where a: "heap_alloc n h = Some (p, h')" "heap_ok h'" by blast
  have "\<exists>s. unat n \<le> s \<and> heap_live h' = insert (unat p, s) (heap_live h)
       \<and> 8 dvd unat p \<and> unat p + s < 2 ^ 32
       \<and> (\<forall>(q, t) \<in> heap_live h. unat p + s \<le> q \<or> q + t \<le> unat p)" if "p \<noteq> 0"
  proof -
    from kheap.alloc_fresh [OF assms a(1) that] obtain s where
      s: "unat n \<le> s" "heap_live h' = insert (unat p, s) (heap_live h)" "(unat p, s) \<notin> heap_live h" by blast
    with kheap.live_range [OF a(2), of "unat p" s] kheap.live_disjoint [OF a(2), of "unat p" s]
    show ?thesis by (intro exI [of _ s]) auto
  qed
  with a show ?thesis by blast
qed

theorem heap_alloc_sound_witness:
  "\<exists>p h'. heap_alloc 100 heap_example = Some (p, h') \<and> p = 0x1010 \<and> (\<exists>s \<ge> 100. (unat p, s) \<in> heap_live h')"
proof -
  from heap_alloc_sound [OF heap_example_ok, of 100] obtain p h' where
    a: "heap_alloc 100 heap_example = Some (p, h')"
    "p \<noteq> 0 \<longrightarrow> (\<exists>s. unat (100 :: u32) \<le> s \<and> heap_live h' = insert (unat p, s) (heap_live heap_example))" by blast
  have "map_option fst (heap_alloc 100 heap_example) = Some 0x1010" by code_simp
  with a show ?thesis by auto
qed

text \<open> Completeness of allocation: \<open>heap_alloc\<close> of a non-zero size succeeds exactly when the
  size is at most what \<open>heap_largest_free\<close> reports, so no request that fits is refused and none
  that does not fit is granted, including sizes near \<open>2^32\<close> whose rounding would wrap.\<close>

theorem heap_alloc_complete:
  assumes "heap_ok h" "n \<noteq> 0"
  shows "\<exists>p h' m. heap_alloc n h = Some (p, h') \<and> heap_largest_free h = Some m \<and> (p \<noteq> 0 \<longleftrightarrow> n \<le> m)"
proof -
  from assms(1) obtain bs where r: "heap_rel h bs" by (auto simp: heap_ok_def)
  have "largest bs < 4294967296"
    using heap_largest_ok(2) [OF r] unat_lt_u32 [of "g_total h"] by linarith
  with heap_alloc_succeeds_iff [OF r assms(2)] heap_largest_ok(1) [OF r] show ?thesis
    by (auto simp: word_le_nat_alt unat_of_nat_u32)
qed

theorem heap_alloc_complete_witness:
  "heap_largest_free heap_example = Some 240 \<and> (\<exists>h'. heap_alloc 0xFFFFFFFF heap_example = Some (0, h'))"
proof -
  have "heap_largest_free heap_example = Some 240" by code_simp
  with heap_alloc_complete [OF heap_example_ok, of "0xFFFFFFFF"] show ?thesis by auto
qed

text \<open> No leak and no fragmentation: releasing a block straight after allocating it gives back
  exactly the block list from before, whether or not the allocation had split a block, with the
  used and total byte counters restored.\<close>

theorem heap_alloc_free_roundtrip:
  assumes "heap_rel h bs" "heap_alloc n h = Some (p, h')" "p \<noteq> 0"
  shows "heap_rel (heap_free p h') bs \<and> g_total (heap_free p h') = g_total h \<and> g_used (heap_free p h') = g_used h"
proof -
  have r: "heap_rel (heap_free p h') bs" by (rule heap_alloc_free_rel [OF assms])
  have "heap_rel k bs \<Longrightarrow> unat (g_total k) = sizes bs \<and> unat (g_used k) = used_sizes bs" for k
    by (auto simp: heap_rel_def heap_shape_def split: if_splits)
  from this [OF r] this [OF assms(1)] r show ?thesis by (simp add: word_unat_eq_iff)
qed

theorem heap_alloc_free_roundtrip_witness:
  "\<exists>bs p h'. heap_alloc 100 heap_example = Some (p, h') \<and> g_used h' = 104 \<and> heap_rel (heap_free p h') bs
     \<and> g_used (heap_free p h') = 0"
proof -
  obtain bs where r: "heap_rel heap_example bs" using heap_example_ok by (auto simp: heap_ok_def)
  obtain p h' where a: "heap_alloc 100 heap_example = Some (p, h')"
    using heap_ok_alloc [OF heap_example_ok] by blast
  have "map_option (\<lambda>(p, h). (p = 0, g_used h)) (heap_alloc 100 heap_example) = Some (False, 104)"
    "g_used heap_example = 0" by code_simp+
  with a heap_alloc_free_roundtrip [OF r a] show ?thesis by auto
qed

text \<open>What \<open>heap_free\<close> does not refuse: it trusts the four header bytes in front of the
  pointer. A heap can be reached, by one allocation and a client write inside the memory it was
  given, in which an interior pointer is released without being counted as a bad free, and
  \<open>heap_check\<close> then reports damage.\<close>

theorem heap_free_forged:
  "\<exists>h p. reaches heap_boot heap_step h \<and> \<not> on_chain h (p - HDR_BYTES)
     \<and> g_bad_free (heap_free p h) = g_bad_free h \<and> heap_check (heap_free p h) \<noteq> Some 0"
proof -
  obtain q h1 where a: "heap_alloc 100 heap_example = Some (q, h1)"
    using heap_ok_alloc [OF heap_example_ok] by blast
  have r1: "reaches heap_boot heap_step h1"
    by (rule reaches_step [where step = heap_step, OF heap_example_reaches]) (rule step_alloc [OF a])
  let ?fake = "\<lparr>prev = 0, nxt = 0, bsize = 8, magic = BLK_USED\<rparr>"
  let ?h = "h1\<lparr>hdr := (hdr h1)(0x1020 := ?fake)\<rparr>"
  have ev: "map_option (\<lambda>(q, k). (g_first k, nxt (hdr k (g_first k)), nxt (hdr k (nxt (hdr k (g_first k))))))
      (heap_alloc 100 heap_example) = Some (0x1000, 0x1078, 0)" by code_simp
  have ch: "on_chain h1 b \<Longrightarrow> b = 0x1000 \<or> b = 0x1078" for b
    by (induction rule: on_chain.induct) (use ev a in auto)
  have r: "reaches heap_boot heap_step ?h"
    by (rule reaches_step [where step = heap_step, OF r1], rule step_payload) (use ch [of "0x1020"] in auto)
  have ch2: "on_chain ?h b \<Longrightarrow> b = 0x1000 \<or> b = 0x1078" for b
    by (induction rule: on_chain.induct) (use ev a in auto)
  have e2: "map_option (\<lambda>(q, k). let h = k\<lparr>hdr := (hdr k)(0x1020 := ?fake)\<rparr> in
      (g_bad_free (heap_free 0x1030 h) = g_bad_free h, heap_check (heap_free 0x1030 h)))
      (heap_alloc 100 heap_example) = Some (True, Some 9)" by code_simp
  show ?thesis
    using r ch2 [of "0x1020"] e2 a by (intro exI [of _ ?h] exI [of _ "0x1030"]) (auto simp: Let_def)
qed
end
