(* ===== verification/KArena.thy ===== *)
theory KArena
  imports KHeap
begin

text \<open>
  Application arenas, \<^verbatim>\<open>kernel/arena.c\<close>: a table of \<open>ARENA_MAX\<close> regions taken from the heap,
  zeroed before they are handed over, with the bounds check that every access is made against. The
  client side of the heap's \<open>allocator\<close> interface is proved once in that locale; the table
  invariant \<open>arena_ok\<close> ties each slot to one live heap region.
\<close>

abbreviation (input) APP_MAX :: nat where "APP_MAX \<equiv> 4"
abbreviation (input) ARENA_MAX :: nat where "ARENA_MAX \<equiv> APP_MAX + 1"

subsection \<open>Data and operations\<close>

record arena_t =
  abase :: u32
  alen :: u32

text \<open>The statics of arena.c, with the heap and the memory its operations change.\<close>

record arenas =
  g_arenas :: "arena_t list"
  g_committed :: u32
  g_arena_rejects :: u32
  aheap :: heap
  amem :: memory

definition live_slot :: "arenas \<Rightarrow> int \<Rightarrow> bool" where
  "live_slot st i \<longleftrightarrow> \<not> (i < 0 \<or> i \<ge> int ARENA_MAX \<or> abase (g_arenas st ! nat i) = 0)"

text \<open>The two zeroing loops of \<open>arena_create\<close>, whole words and then the odd bytes.\<close>

primrec zero_words :: "memory \<Rightarrow> u32 \<Rightarrow> nat \<Rightarrow> memory" where
  "zero_words m p 0 = m"
| "zero_words m p (Suc i) = poke32 (zero_words m p i) (p + 4 * of_nat i) 0"

primrec zero_bytes :: "memory \<Rightarrow> u32 \<Rightarrow> nat \<Rightarrow> memory" where
  "zero_bytes m p 0 = m"
| "zero_bytes m p (Suc i) = (zero_bytes m p i)(p + of_nat i := 0)"

text \<open>The search of \<open>arena_create\<close>: the first slot whose base is 0.\<close>

fun free_slot :: "arena_t list \<Rightarrow> nat \<Rightarrow> nat option" where
  "free_slot [] i = None"
| "free_slot (a # as) i = (if abase a \<noteq> 0 then free_slot as (Suc i) else Some i)"

definition arena_create :: "u32 \<Rightarrow> arenas \<Rightarrow> (int \<times> arenas) option" where
  "arena_create bytes st =
     (if bytes = 0 then Some (-1, st\<lparr>g_arena_rejects := g_arena_rejects st + 1\<rparr>)
      else case free_slot (g_arenas st) 0 of
        None \<Rightarrow> Some (-1, st\<lparr>g_arena_rejects := g_arena_rejects st + 1\<rparr>)
      | Some i \<Rightarrow>
          (case heap_alloc bytes (aheap st) of
             None \<Rightarrow> None
           | Some (p, h) \<Rightarrow>
               let st1 = st\<lparr>aheap := h\<rparr> in
               if p = 0 then Some (-1, st1\<lparr>g_arena_rejects := g_arena_rejects st1 + 1\<rparr>)
               else
                 let n = bytes div 4;
                     m1 = zero_words (amem st1) p (unat n);
                     m2 = zero_bytes m1 (p + n * 4) (unat (bytes mod 4))
                 in Some (int i,
                      st1\<lparr>amem := m2, g_arenas := (g_arenas st1)[i := \<lparr>abase = p, alen = bytes\<rparr>],
                           g_committed := g_committed st1 + bytes\<rparr>)))"

definition arena_destroy :: "int \<Rightarrow> arenas \<Rightarrow> arenas" where
  "arena_destroy i st =
     (if i < 0 \<or> i \<ge> int ARENA_MAX \<or> abase (g_arenas st ! nat i) = 0
      then st\<lparr>g_arena_rejects := g_arena_rejects st + 1\<rparr>
      else
        let a = g_arenas st ! nat i in
        st\<lparr>aheap := heap_free (abase a) (aheap st),
           g_committed := g_committed st - alen a,
           g_arenas := (g_arenas st)[nat i := \<lparr>abase = 0, alen = 0\<rparr>]\<rparr>)"

definition arena_bounds :: "int \<Rightarrow> arenas \<Rightarrow> (u32 \<times> u32) option" where
  "arena_bounds i st =
     (if i < 0 \<or> i \<ge> int ARENA_MAX \<or> abase (g_arenas st ! nat i) = 0 then None
      else Some (abase (g_arenas st ! nat i), alen (g_arenas st ! nat i)))"

definition arena_contains :: "int \<Rightarrow> u32 \<Rightarrow> u32 \<Rightarrow> arenas \<Rightarrow> bool" where
  "arena_contains i addr len st =
     (if i < 0 \<or> i \<ge> int ARENA_MAX \<or> abase (g_arenas st ! nat i) = 0 then False
      else
        let base = abase (g_arenas st ! nat i);
            sz = alen (g_arenas st ! nat i)
        in if addr < base then False
           else let offset = addr - base in
                if offset > sz then False
                else if len > sz - offset then False
                else True)"

definition arena_count :: "arenas \<Rightarrow> u32" where
  "arena_count st = of_nat (length (filter (\<lambda>a. abase a \<noteq> 0) (g_arenas st)))"

subsection \<open>Zeroing\<close>

lemma poke32_0: "poke32 m q 0 x = (if unat (x - q) < 4 then 0 else m x)"
proof -
  have r: "[0, 0, 0, 0] = replicate 4 (0 :: u8)" by (simp add: numeral_eq_Suc)
  have "poke32 m q 0 = store_bytes m q (replicate 4 0)" by (simp only: poke32_def r [symmetric]) simp
  then show ?thesis by (simp add: store_bytes_apply)
qed

lemma zero_words_apply:
  "4 * n \<le> 4294967296 \<Longrightarrow> zero_words m p n x = (if unat (x - p) < 4 * n then 0 else m x)"
proof (induction n)
  case (Suc n)
  let ?q = "p + 4 * of_nat n :: u32"
  have n4: "unat (4 * of_nat n :: u32) = 4 * n"
    using Suc.prems by (simp add: unat_of_nat unat_word_ariths)
  have sub: "x - ?q = (x - p) - 4 * of_nat n" by (simp add: algebra_simps)
  have "poke32 (zero_words m p n) ?q 0 x = (if unat (x - ?q) < 4 then 0 else zero_words m p n x)"
    by (rule poke32_0)
  moreover have "unat (x - ?q) < 4 \<longleftrightarrow> 4 * n \<le> unat (x - p) \<and> unat (x - p) < 4 * Suc n"
    using unat_sub_less_u32 [of "4 * of_nat n" 4 "x - p"] n4 Suc.prems unfolding sub
    by (simp add: add.commute)
  ultimately show ?case using Suc by auto
qed simp

lemma zero_bytes_apply:
  "n \<le> 4294967296 \<Longrightarrow> zero_bytes m p n x = (if unat (x - p) < n then 0 else m x)"
proof (induction n)
  case (Suc n)
  have "x = p + of_nat n \<longleftrightarrow> unat (x - p) = n"
  proof
    assume "x = p + of_nat n"
    then show "unat (x - p) = n" using Suc.prems by (simp add: unat_of_nat)
  next
    assume "unat (x - p) = n"
    then show "x = p + of_nat n" by (auto simp: algebra_simps)
  qed
  with Suc show ?case by auto
qed simp

lemma arena_zeroed:
  "zero_bytes (zero_words m p (unat (bytes div 4))) (p + bytes div 4 * 4) (unat (bytes mod 4)) x =
     (if unat (x - p) < unat bytes then 0 else m x)"
proof -
  let ?w = "unat bytes div 4 * 4"
  have d: "unat (bytes div 4) = unat bytes div 4" "unat (bytes mod 4) = unat bytes mod 4"
    by (simp_all add: unat_div unat_mod)
  have w: "unat (bytes div 4 * 4) = ?w"
    using d unat_lt_u32 [of bytes] by (simp add: unat_word_ariths del: unat_lt_u32)
  have s: "?w + unat bytes mod 4 = unat bytes" by simp
  have sub: "x - (p + bytes div 4 * 4) = (x - p) - bytes div 4 * 4" by (simp add: algebra_simps)
  have "unat (x - (p + bytes div 4 * 4)) < unat bytes mod 4 \<longleftrightarrow> ?w \<le> unat (x - p) \<and> unat (x - p) < unat bytes"
    using unat_sub_less_u32 [of "bytes div 4 * 4" "unat bytes mod 4" "x - p"] w s unat_lt_u32 [of bytes]
    unfolding sub by (simp del: unat_lt_u32)
  moreover have "4 * (unat bytes div 4) \<le> 4294967296" using unat_lt_u32 [of bytes] by linarith
  ultimately show ?thesis
    using s by (auto simp: zero_bytes_apply zero_words_apply d)
qed

subsection \<open>The table invariant\<close>

text \<open>Facts about any allocator that hands regions to a table of owners.\<close>

context allocator
begin

lemma trimmed_disjoint:
  assumes "ok h" "(p, s) \<in> live h" "(q, t) \<in> live h" "p \<noteq> q" "n \<le> s" "m \<le> t"
  shows "p + n \<le> q \<or> q + m \<le> p"
  using live_disjoint [OF assms(1-3)] assms(4-6) by auto

lemma fresh_start:
  assumes "ok h" "alloc n h = Some (w, h')" "w \<noteq> 0" "(q, t) \<in> live h"
  shows "unat w \<noteq> q"
proof
  assume q: "unat w = q"
  from alloc_fresh [OF assms(1-3)] obtain s where
    s: "live h' = insert (unat w, s) (live h)" "(unat w, s) \<notin> live h" by blast
  from alloc_returns [OF assms(1), of n] assms(2) have "ok h'" by auto
  from live_start_unique [OF this, of q s t] s assms(4) q show False by auto
qed

end

definition backed :: "heap \<Rightarrow> arena_t \<Rightarrow> bool" where
  "backed h a \<longleftrightarrow> (if abase a = 0 then alen a = 0
     else alen a \<noteq> 0 \<and> (\<exists>s. (unat (abase a), s) \<in> heap_live h \<and> unat (alen a) \<le> s))"

definition arena_ok :: "arenas \<Rightarrow> bool" where
  "arena_ok st \<longleftrightarrow>
     length (g_arenas st) = ARENA_MAX \<and> heap_ok (aheap st)
     \<and> (\<forall>a \<in> set (g_arenas st). backed (aheap st) a)
     \<and> (\<forall>i < ARENA_MAX. \<forall>j < ARENA_MAX. i \<noteq> j \<longrightarrow> abase (g_arenas st ! i) \<noteq> 0 \<longrightarrow>
           abase (g_arenas st ! i) \<noteq> abase (g_arenas st ! j))
     \<and> g_committed st = sum_list (map alen (g_arenas st))"

lemma free_slot_Some: "free_slot as k = Some i \<Longrightarrow> k \<le> i \<and> i < k + length as \<and> abase (as ! (i - k)) = 0"
  by (induction as k rule: free_slot.induct) (auto simp: nth_Cons' split: if_splits)

lemma free_slot_None: "free_slot as k = None \<Longrightarrow> a \<in> set as \<Longrightarrow> abase a \<noteq> 0"
  by (induction as k rule: free_slot.induct) (auto split: if_splits)

lemma sum_list_update_u32:
  "i < length xs \<Longrightarrow> sum_list (xs[i := y]) = sum_list xs - xs ! i + (y :: u32)"
proof (induction xs arbitrary: i)
  case (Cons x xs)
  then show ?case by (cases i) (simp_all add: algebra_simps)
qed simp

lemma arena_okD:
  assumes "arena_ok st" "i < ARENA_MAX"
  shows "backed (aheap st) (g_arenas st ! i)" "i < length (g_arenas st)" "heap_ok (aheap st)"
  using assms by (auto simp: arena_ok_def)

lemma arena_ok_update:
  assumes ok: "arena_ok st" and i: "i < ARENA_MAX" and h: "heap_ok h"
    and new: "backed h a"
    and fresh: "abase a \<noteq> 0 \<Longrightarrow> (\<forall>j < ARENA_MAX. j \<noteq> i \<longrightarrow> abase (g_arenas st ! j) \<noteq> abase a)"
    and keep: "\<And>j. j < ARENA_MAX \<Longrightarrow> j \<noteq> i \<Longrightarrow> backed h (g_arenas st ! j)"
    and st': "g_arenas st' = (g_arenas st)[i := a]" "aheap st' = h"
      "g_committed st' = g_committed st - alen (g_arenas st ! i) + alen a"
  shows "arena_ok st'"
proof -
  have len: "length (g_arenas st) = ARENA_MAX" using ok by (simp add: arena_ok_def)
  have "\<forall>b \<in> set (g_arenas st'). backed (aheap st') b"
  proof
    fix b assume "b \<in> set (g_arenas st')"
    then obtain j where "j < ARENA_MAX" "b = (g_arenas st)[i := a] ! j"
      using st' len by (auto simp: in_set_conv_nth)
    then show "backed (aheap st') b" using st' new keep len i by (cases "j = i") auto
  qed
  moreover have "g_committed st' = sum_list (map alen (g_arenas st'))"
    using ok i len st' by (simp add: arena_ok_def map_update sum_list_update_u32)
  moreover have "abase (g_arenas st' ! j) \<noteq> abase (g_arenas st' ! k)"
    if "j < ARENA_MAX" "k < ARENA_MAX" "j \<noteq> k" "abase (g_arenas st' ! j) \<noteq> 0" for j k
    using that ok i len st' fresh
    by (cases "j = i"; cases "k = i"; force simp: arena_ok_def nth_list_update)
  ultimately show ?thesis using len h st' by (simp add: arena_ok_def)
qed

lemma backed_mono: "backed h a \<Longrightarrow> heap_live h \<subseteq> heap_live h' \<Longrightarrow> backed h' a"
  by (auto simp: backed_def split: if_splits)

lemma arena_create_cases:
  assumes ok: "arena_ok st"
  obtains (refused) h k where "arena_create n st = Some (-1, st\<lparr>aheap := h, g_arena_rejects := k\<rparr>)"
      "heap_ok h" "heap_live h = heap_live (aheap st)"
  | (created) i p h m where "n \<noteq> 0" "i < ARENA_MAX" "abase (g_arenas st ! i) = 0" "p \<noteq> 0"
      "heap_alloc n (aheap st) = Some (p, h)" "heap_ok h"
      "m = (\<lambda>x. if unat (x - p) < unat n then 0 else amem st x)"
      "arena_create n st = Some (int i, st\<lparr>aheap := h, amem := m,
         g_arenas := (g_arenas st)[i := \<lparr>abase = p, alen = n\<rparr>], g_committed := g_committed st + n\<rparr>)"
proof -
  from ok have len: "length (g_arenas st) = ARENA_MAX" and hok: "heap_ok (aheap st)" by (auto simp: arena_ok_def)
  obtain p h where al: "heap_alloc n (aheap st) = Some (p, h)" "heap_ok h" using heap_ok_alloc [OF hok] by blast
  show ?thesis
  proof (cases "n = 0 \<or> free_slot (g_arenas st) 0 = None")
    case True
    then have "arena_create n st = Some (-1, st\<lparr>aheap := aheap st, g_arena_rejects := g_arena_rejects st + 1\<rparr>)"
      by (auto simp: arena_create_def)
    then show ?thesis using hok by (rule refused) simp
  next
    case False
    then obtain i where i: "free_slot (g_arenas st) 0 = Some i" by auto
    from free_slot_Some [OF i] len have i5: "i < ARENA_MAX" "abase (g_arenas st ! i) = 0" by auto
    show ?thesis
    proof (cases "p = 0")
      case True
      with al have "heap_alloc n (aheap st) = Some (0, h)" by simp
      from kheap.alloc_refused [OF hok this] have lv: "heap_live h = heap_live (aheap st)" .
      have "arena_create n st = Some (-1, st\<lparr>aheap := h, g_arena_rejects := g_arena_rejects st + 1\<rparr>)"
        using False i al True by (simp add: arena_create_def Let_def)
      then show ?thesis using al(2) lv by (rule refused)
    next
      case pz: False
      have "arena_create n st = Some (int i, st\<lparr>aheap := h,
         amem := (\<lambda>x. if unat (x - p) < unat n then 0 else amem st x),
         g_arenas := (g_arenas st)[i := \<lparr>abase = p, alen = n\<rparr>], g_committed := g_committed st + n\<rparr>)"
        using False i al pz by (simp add: arena_create_def Let_def arena_zeroed [abs_def] fun_eq_iff)
      with created [OF _ i5 pz al(1,2) refl] False show ?thesis by blast
    qed
  qed
qed

lemma arena_create_ok: "arena_ok st \<Longrightarrow> \<exists>i st'. arena_create n st = Some (i, st') \<and> arena_ok st'"
proof -
  assume ok: "arena_ok st"
  from ok show ?thesis
  proof (cases rule: arena_create_cases [where n = n])
    case (refused h k)
    have "arena_ok (st\<lparr>aheap := h, g_arena_rejects := k\<rparr>)"
      using ok refused(2,3) by (auto simp: arena_ok_def intro: backed_mono)
    with refused show ?thesis by blast
  next
    case (created i p h m)
    from ok have hok: "heap_ok (aheap st)" by (simp add: arena_ok_def)
    from kheap.alloc_fresh [OF hok created(5,4)] obtain s where
      s: "unat n \<le> s" "heap_live h = insert (unat p, s) (heap_live (aheap st))" by blast
    let ?st = "st\<lparr>aheap := h, amem := m, g_arenas := (g_arenas st)[i := \<lparr>abase = p, alen = n\<rparr>],
        g_committed := g_committed st + n\<rparr>"
    have al0: "alen (g_arenas st ! i) = 0"
      using arena_okD(1) [OF ok created(2)] created(3) by (simp add: backed_def)
    have "arena_ok ?st"
    proof (rule arena_ok_update [OF ok created(2) created(6)])
      show "backed h \<lparr>abase = p, alen = n\<rparr>" using created(1,4) s by (auto simp: backed_def)
      show "\<forall>j < ARENA_MAX. j \<noteq> i \<longrightarrow> abase (g_arenas st ! j) \<noteq> abase \<lparr>abase = p, alen = n\<rparr>"
      proof (intro allI impI)
        fix j assume j: "j < ARENA_MAX" "j \<noteq> i"
        show "abase (g_arenas st ! j) \<noteq> abase \<lparr>abase = p, alen = n\<rparr>"
        proof (cases "abase (g_arenas st ! j) = 0")
          case False
          with arena_okD(1) [OF ok j(1)] obtain t where
            "(unat (abase (g_arenas st ! j)), t) \<in> heap_live (aheap st)" by (auto simp: backed_def)
          from kheap.fresh_start [OF hok created(5,4) this] show ?thesis by auto
        qed (use created(4) in simp)
      qed
      show "backed h (g_arenas st ! j)" if "j < ARENA_MAX" for j
        by (rule backed_mono [OF arena_okD(1) [OF ok that]]) (use s in auto)
    qed (use al0 in simp_all)
    with created(8) show ?thesis by blast
  qed
qed

lemma arena_destroy_ok: "arena_ok st \<Longrightarrow> arena_ok (arena_destroy i st)"
proof (cases "live_slot st i")
  case False
  assume "arena_ok st"
  then show ?thesis using False by (simp add: arena_destroy_def live_slot_def arena_ok_def)
next
  case True
  assume ok: "arena_ok st"
  let ?i = "nat i" and ?a = "g_arenas st ! nat i"
  from True have i: "?i < ARENA_MAX" "abase ?a \<noteq> 0" by (auto simp: live_slot_def)
  from ok have hok: "heap_ok (aheap st)" by (simp add: arena_ok_def)
  from arena_okD(1) [OF ok i(1)] i(2) obtain s where
    s: "(unat (abase ?a), s) \<in> heap_live (aheap st)" by (auto simp: backed_def)
  from kheap.free_releases [OF hok s] have fr: "heap_ok (heap_free (abase ?a) (aheap st))"
    "heap_live (heap_free (abase ?a) (aheap st)) = heap_live (aheap st) - {(unat (abase ?a), s)}" by simp_all
  show ?thesis
  proof (rule arena_ok_update [OF ok i(1) fr(1)])
    show "backed (heap_free (abase ?a) (aheap st)) \<lparr>abase = 0, alen = 0\<rparr>" by (simp add: backed_def)
    fix j assume j: "j < ARENA_MAX" "j \<noteq> ?i"
    have "abase (g_arenas st ! j) \<noteq> abase ?a \<or> abase (g_arenas st ! j) = 0"
      using ok i j unfolding arena_ok_def by metis
    then show "backed (heap_free (abase ?a) (aheap st)) (g_arenas st ! j)"
      using arena_okD(1) [OF ok j(1)] fr(2) by (auto simp: backed_def word_unat_eq_iff split: if_splits)
  qed (use True in \<open>simp_all add: arena_destroy_def live_slot_def Let_def\<close>)
qed

subsection \<open>Histories of the table\<close>

text \<open>The table starts empty on a freshly initialised heap. After that arenas are created and
  destroyed with any argument, programs and the kernel write memory, and other clients of the heap
  allocate and release regions of their own.\<close>

definition arena_boot :: "arenas \<Rightarrow> bool" where
  "arena_boot st \<longleftrightarrow> heap_boot (aheap st) \<and> g_committed st = 0
     \<and> g_arenas st = replicate ARENA_MAX \<lparr>abase = 0, alen = 0\<rparr>"

inductive arena_step :: "arenas \<Rightarrow> arenas \<Rightarrow> bool" where
  step_create: "arena_create n st = Some (i, st') \<Longrightarrow> arena_step st st'"
| step_destroy: "arena_step st (arena_destroy i st)"
| step_memory: "arena_step st (st\<lparr>amem := m\<rparr>)"
| step_other_alloc: "heap_alloc n (aheap st) = Some (p, h) \<Longrightarrow> arena_step st (st\<lparr>aheap := h\<rparr>)"
| step_other_free: "(unat p, s) \<in> heap_live (aheap st) \<Longrightarrow> p \<notin> abase ` set (g_arenas st) \<Longrightarrow>
    arena_step st (st\<lparr>aheap := heap_free p (aheap st)\<rparr>)"

lemma arena_ok_heap:
  "arena_ok st \<Longrightarrow> heap_ok h \<Longrightarrow> (\<And>a. a \<in> set (g_arenas st) \<Longrightarrow> backed h a) \<Longrightarrow> arena_ok (st\<lparr>aheap := h\<rparr>)"
  by (simp add: arena_ok_def)

lemma alloc_live_mono:
  assumes "heap_ok h" "heap_alloc n h = Some (p, h')" shows "heap_ok h'" "heap_live h \<subseteq> heap_live h'"
proof -
  from kheap.alloc_returns [OF assms(1), of n] assms(2) show "heap_ok h'" by auto
  show "heap_live h \<subseteq> heap_live h'"
    using kheap.alloc_refused [OF assms(1), of n h'] kheap.alloc_fresh [OF assms] assms(2)
    by (cases "p = 0") auto
qed

lemma arena_step_ok: "arena_step st st' \<Longrightarrow> arena_ok st \<Longrightarrow> arena_ok st'"
proof (induction rule: arena_step.induct)
  case (step_create n st i st')
  then show ?case using arena_create_ok [of st n] by auto
next
  case (step_destroy st i)
  then show ?case by (rule arena_destroy_ok)
next
  case (step_memory st m)
  then show ?case by (simp add: arena_ok_def)
next
  case (step_other_alloc n st p h)
  then have "heap_ok (aheap st)" by (simp add: arena_ok_def)
  note l = alloc_live_mono [OF this step_other_alloc.hyps]
  show ?case
    using step_other_alloc.prems l by (intro arena_ok_heap) (auto simp: arena_ok_def intro: backed_mono)
next
  case (step_other_free p s st)
  then have "heap_ok (aheap st)" by (simp add: arena_ok_def)
  from kheap.free_releases [OF this step_other_free.hyps(1)] have
    fr: "heap_ok (heap_free p (aheap st))" "heap_live (heap_free p (aheap st)) = heap_live (aheap st) - {(unat p, s)}"
    by simp_all
  show ?case
  proof (rule arena_ok_heap [OF step_other_free.prems fr(1)])
    fix a assume a: "a \<in> set (g_arenas st)"
    then have "backed (aheap st) a" using step_other_free.prems by (simp add: arena_ok_def)
    moreover have "unat (abase a) \<noteq> unat p" using a step_other_free.hyps(2) by (metis image_eqI word_unat_eq_iff)
    ultimately show "backed (heap_free p (aheap st)) a" using fr(2) by (auto simp: backed_def split: if_splits)
  qed
qed

interpretation arena_sys: invariant_system arena_boot arena_step arena_ok
proof
  fix st assume "arena_boot st"
  then show "arena_ok st"
    using heap_sys.start_inv by (auto simp: arena_boot_def arena_ok_def backed_def sum_list_replicate)
qed (rule arena_step_ok)

subsection \<open>The bounds check\<close>

text \<open>\<open>arena_contains\<close> read in the offset domain is a range guard for a live slot.\<close>

definition slot_limit :: "arena_t \<Rightarrow> nat" where
  "slot_limit a = unat (alen a)"

definition slot_guard :: "arena_t \<Rightarrow> u32 \<Rightarrow> u32 \<Rightarrow> bool" where
  "slot_guard a off len = (\<not> off > alen a \<and> \<not> len > alen a - off)"

interpretation slot: range_guard slot_guard slot_limit
  by unfold_locales (auto simp: slot_guard_def slot_limit_def word_less_nat_alt unat_sub_u32)

lemma arena_contains_slot:
  "arena_contains i addr len st \<longleftrightarrow> live_slot st i \<and> abase (g_arenas st ! nat i) \<le> addr
     \<and> slot_guard (g_arenas st ! nat i) (addr - abase (g_arenas st ! nat i)) len"
  by (auto simp: arena_contains_def live_slot_def slot_guard_def Let_def not_less)

lemma arena_contains_nat:
  "arena_contains i addr len st \<longleftrightarrow> live_slot st i \<and>
     (let a = g_arenas st ! nat i in unat (abase a) \<le> unat addr
        \<and> unat addr + unat len \<le> unat (abase a) + unat (alen a))"
  unfolding arena_contains_slot slot.guard_iff
  by (auto simp: Let_def word_le_nat_alt slot_limit_def unat_sub_u32)

lemma live_slots_disjoint:
  assumes ok: "arena_ok st" and i: "live_slot st i" and j: "live_slot st j" and ne: "i \<noteq> j"
  defines "a \<equiv> g_arenas st ! nat i" and "b \<equiv> g_arenas st ! nat j"
  shows "unat (abase a) + unat (alen a) \<le> unat (abase b) \<or> unat (abase b) + unat (alen b) \<le> unat (abase a)"
proof -
  from i j ne have n: "nat i < ARENA_MAX" "nat j < ARENA_MAX" "nat i \<noteq> nat j" "abase a \<noteq> 0" "abase b \<noteq> 0"
    by (auto simp: live_slot_def a_def b_def)
  then have "abase a \<noteq> abase b" using ok unfolding arena_ok_def a_def b_def by metis
  then have d: "unat (abase a) \<noteq> unat (abase b)" by (simp add: word_unat_eq_iff)
  from arena_okD(1) [OF ok n(1)] arena_okD(1) [OF ok n(2)] n(4,5) obtain s t where
    "(unat (abase a), s) \<in> heap_live (aheap st)" "unat (alen a) \<le> s"
    "(unat (abase b), t) \<in> heap_live (aheap st)" "unat (alen b) \<le> t"
    by (auto simp: backed_def a_def b_def)
  with kheap.trimmed_disjoint arena_okD(3) [OF ok n(1)] d show ?thesis by blast
qed

subsection \<open>Properties\<close>

lemma backed_range: "heap_ok h \<Longrightarrow> backed h a \<Longrightarrow> abase a \<noteq> 0 \<Longrightarrow> unat (abase a) + unat (alen a) < 4294967296"
  using kheap.live_range [of h "unat (abase a)"] by (fastforce simp: backed_def)

lemma contains_byte:
  assumes "arena_ok st" "live_slot st i"
  shows "arena_contains i x 1 st \<longleftrightarrow> unat (x - abase (g_arenas st ! nat i)) < unat (alen (g_arenas st ! nat i))"
proof -
  let ?a = "g_arenas st ! nat i"
  from assms(2) have i: "nat i < ARENA_MAX" "abase ?a \<noteq> 0" by (auto simp: live_slot_def)
  from backed_range [OF _ arena_okD(1) [OF assms(1) i(1)] i(2)] arena_okD(3) [OF assms(1) i(1)]
  have "unat (abase ?a) + unat (alen ?a) \<le> 4294967296" by simp
  from unat_sub_less_u32 [OF this, of x] assms(2) show ?thesis
    by (auto simp: arena_contains_nat Let_def)
qed

text \<open>What \<open>arena_create\<close> promises of a slot it hands out.\<close>

definition slot_created :: "int \<Rightarrow> u32 \<Rightarrow> arenas \<Rightarrow> arenas \<Rightarrow> bool" where
  "slot_created i n st st' \<longleftrightarrow> \<not> live_slot st i \<and> (\<exists>base. arena_bounds i st' = Some (base, n))
     \<and> (\<forall>x. amem st' x = (if arena_contains i x 1 st' then 0 else amem st x))
     \<and> (\<forall>x j. arena_contains j x 1 st \<longrightarrow> \<not> arena_contains i x 1 st')
     \<and> (\<forall>j. j \<noteq> i \<longrightarrow> arena_bounds j st' = arena_bounds j st)"

lemma arena_contains_bounds:
  "arena_contains i addr len st \<longleftrightarrow>
     (\<exists>base sz. arena_bounds i st = Some (base, sz) \<and> unat base \<le> unat addr
        \<and> unat addr + unat len \<le> unat base + unat sz)"
  by (simp add: arena_contains_nat arena_bounds_def live_slot_def Let_def)

lemma arena_disjoint:
  assumes "arena_ok st" "arena_contains i addr n st" "arena_contains j addr m st" "0 < n" "0 < m"
  shows "i = j"
proof (rule ccontr)
  assume ne: "i \<noteq> j"
  from assms have l: "live_slot st i" "live_slot st j" by (auto simp: arena_contains_nat)
  from live_slots_disjoint [OF assms(1) l ne] assms(2-5)
  show False by (auto simp: arena_contains_nat Let_def word_less_nat_alt)
qed

lemma created_slot:
  assumes ok: "arena_ok st" and c: "n \<noteq> 0" "i < ARENA_MAX" "abase (g_arenas st ! i) = 0" "p \<noteq> 0"
    and m: "m = (\<lambda>x. if unat (x - p) < unat n then 0 else amem st x)"
    and st': "st' = st\<lparr>aheap := h, amem := m, g_arenas := (g_arenas st)[i := \<lparr>abase = p, alen = n\<rparr>],
        g_committed := g_committed st + n\<rparr>" and ok': "arena_ok st'"
  shows "slot_created (int i) n st st'"
proof -
  have slot: "g_arenas st' ! i = \<lparr>abase = p, alen = n\<rparr>" using st' c arena_okD(2) [OF ok c(2)] by simp
  then have l: "live_slot st' (int i)" using c by (simp add: live_slot_def)
  have nl: "\<not> live_slot st (int i)" using c by (simp add: live_slot_def)
  have b: "arena_bounds j st' = arena_bounds j st" if "j \<noteq> int i" for j
  proof (cases "0 \<le> j")
    case True
    with that have "i \<noteq> nat j" by auto
    then show ?thesis using st' by (simp add: arena_bounds_def)
  qed (simp add: arena_bounds_def)
  have "\<not> arena_contains (int i) x 1 st'" if x: "arena_contains j x 1 st" for x j
  proof
    assume y: "arena_contains (int i) x 1 st'"
    have ji: "j \<noteq> int i" using x nl by (auto simp: arena_contains_nat)
    with x b [OF ji] have "arena_contains j x 1 st'" by (simp add: arena_contains_bounds)
    from arena_disjoint [OF ok' this y] ji show False by simp
  qed
  with nl b contains_byte [OF ok' l] slot l m st' show ?thesis
    by (auto simp: slot_created_def arena_bounds_def live_slot_def)
qed

subsection \<open>Properties\<close>

definition arena_example :: arenas where
  "arena_example = \<lparr>g_arenas = replicate 5 \<lparr>abase = 0, alen = 0\<rparr>, g_committed = 0, g_arena_rejects = 0,
     aheap = heap_example, amem = (\<lambda>_. 0xAA)\<rparr>"

lemma arena_example_reaches: "reaches arena_boot arena_step arena_example"
  by (rule reaches_start) (simp add: arena_boot_def arena_example_def heap_example_boot)

lemmas arena_example_ok = arena_sys.reaches_inv [OF arena_example_reaches]

text \<open>(C8) Isolation of arenas: in every reachable state of the table, whatever was created,
  destroyed, written or taken from the heap by others, no address is accepted by the bounds checks
  of two different arenas.\<close>

theorem arena_isolation:
  assumes "reaches arena_boot arena_step st" "arena_contains i addr n st" "arena_contains j addr m st"
    "0 < n" "0 < m"
  shows "i = j"
  by (rule arena_disjoint [OF arena_sys.reaches_inv [OF assms(1)] assms(2-5)])

theorem arena_isolation_witness:
  "\<exists>st. reaches arena_boot arena_step st \<and> arena_contains 1 0x1050 4 st \<and> \<not> arena_contains 0 0x1050 1 st"
proof -
  obtain i st1 where c1: "arena_create 32 arena_example = Some (i, st1)" and ok1: "arena_ok st1"
    using arena_create_ok [OF arena_example_ok] by blast
  obtain j st2 where c2: "arena_create 32 st1 = Some (j, st2)" and ok2: "arena_ok st2"
    using arena_create_ok [OF ok1] by blast
  have r: "reaches arena_boot arena_step st2"
    by (rule reaches_step [where step = arena_step, OF reaches_step [where step = arena_step,
          OF arena_example_reaches step_create [OF c1]] step_create [OF c2]])
  have "map_option (arena_contains 1 0x1050 4)
      (Option.bind (arena_create 32 arena_example) (\<lambda>(i, s). map_option snd (arena_create 32 s))) = Some True"
    by code_simp
  with c1 c2 have k: "arena_contains 1 0x1050 4 st2" by simp
  with arena_isolation [OF r k, of 0 1] r show ?thesis by auto
qed

text \<open>Exactness of \<open>arena_contains\<close>: it accepts \<open>[addr, addr + len)\<close> exactly when the slot is live
  and the range, with its end computed without wrap-around, lies inside the slot's region.\<close>

theorem arena_contains_exact:
  "arena_contains i addr len st \<longleftrightarrow>
     (\<exists>base sz. arena_bounds i st = Some (base, sz) \<and> unat base \<le> unat addr
        \<and> unat addr + unat len \<le> unat base + unat sz)"
  by (rule arena_contains_bounds)

lemma arena_create_outcome:
  assumes "arena_ok st"
  shows "\<exists>i st'. arena_create n st = Some (i, st') \<and> arena_ok st' \<and>
    (if i < 0 then g_arenas st' = g_arenas st \<and> amem st' = amem st else slot_created i n st st')"
proof -
  from arena_create_ok [OF assms, of n] obtain i st' where
    c: "arena_create n st = Some (i, st')" and ok': "arena_ok st'" by blast
  from assms have "if i < 0 then g_arenas st' = g_arenas st \<and> amem st' = amem st else slot_created i n st st'"
  proof (cases rule: arena_create_cases [where n = n])
    case (created k p h m)
    with c have "i = int k" by simp
    with created_slot [OF assms created(1-4,7) _ ok', of h] c created(8) show ?thesis by simp
  qed (use c in auto)
  with c ok' show ?thesis by blast
qed

text \<open>Creation: in a well-formed table \<open>arena_create\<close> returns and keeps the table well formed. A
  non-negative result was a free slot; it now has the requested length, all of its bytes read 0,
  every byte outside it and every other slot is as before, and no arena that was live accepted any
  of its addresses (\<open>slot_created\<close>). A refusal changes no slot and no byte.\<close>

theorem arena_create_spec:
  assumes "arena_ok st"
  shows "\<exists>i st'. arena_create n st = Some (i, st') \<and> arena_ok st' \<and>
    (if i < 0 then g_arenas st' = g_arenas st \<and> amem st' = amem st else slot_created i n st st')"
  by (rule arena_create_outcome [OF assms])

theorem arena_create_spec_witness:
  "\<exists>st'. arena_create 30 arena_example = Some (0, st') \<and> slot_created 0 30 arena_example st'"
proof -
  have "map_option fst (arena_create 30 arena_example) = Some 0" by code_simp
  with arena_create_spec [OF arena_example_ok, of 30] show ?thesis by auto
qed

text \<open>Destroying an arena that was just created restores the table: the slot is free again, every
  other slot and the committed byte count are as before, and the heap holds the same live regions.\<close>

theorem arena_create_destroy:
  assumes "arena_ok st" "arena_create n st = Some (i, st')" "0 \<le> i"
  shows "g_arenas (arena_destroy i st') = g_arenas st \<and> g_committed (arena_destroy i st') = g_committed st
    \<and> heap_live (aheap (arena_destroy i st')) = heap_live (aheap st)
    \<and> g_arena_rejects (arena_destroy i st') = g_arena_rejects st"
  using assms(1)
proof (cases rule: arena_create_cases [where n = n])
  case (created k p h m)
  from assms(1) have hok: "heap_ok (aheap st)" by (simp add: arena_ok_def)
  from kheap.alloc_fresh [OF hok created(5,4)] obtain s where
    s: "heap_live h = insert (unat p, s) (heap_live (aheap st))" "(unat p, s) \<notin> heap_live (aheap st)" by blast
  have fr: "heap_live (heap_free p h) = heap_live (aheap st)"
    using kheap.free_releases [OF created(6), of "unat p" s] s by simp
  have old: "g_arenas st ! k = \<lparr>abase = 0, alen = 0\<rparr>"
    using arena_okD(1) [OF assms(1) created(2)] created(3) by (simp add: backed_def)
  have "(g_arenas st)[k := \<lparr>abase = 0, alen = 0\<rparr>] = g_arenas st" by (simp flip: old)
  with created assms(2) fr arena_okD(2) [OF assms(1) created(2)] show ?thesis
    by (simp add: arena_destroy_def Let_def)
qed (use assms in auto)

theorem arena_create_destroy_witness:
  "\<exists>st'. arena_create 30 arena_example = Some (0, st') \<and> g_committed st' = 30 \<and> g_committed (arena_destroy 0 st') = 0"
proof -
  have "map_option (\<lambda>(i, st). (i, g_committed st)) (arena_create 30 arena_example) = Some (0, 30)" by code_simp
  then obtain st' where "arena_create 30 arena_example = Some (0, st')" "g_committed st' = 30" by auto
  with arena_create_destroy [OF arena_example_ok, of 30 0 st'] show ?thesis by (simp add: arena_example_def)
qed

end
