(* ===== verification/KTimer.thy ===== *)
theory KTimer
  imports Prelude
begin

text \<open>
  The periodic tick, \<^verbatim>\<open>kernel/timer.c\<close> and the inline \<^verbatim>\<open>timer_rescue\<close> of \<^verbatim>\<open>kernel/timer.h\<close>. The cycle
  counter is read through \<^verbatim>\<open>xt_ccount\<close>; each read is an argument, in program order, so that a handler
  may be delayed between two reads. The clock theorems place the 32-bit counter on an unbounded
  time line and follow the deadline through every handler entry, yield and rescue.
\<close>

subsection \<open>State and operations\<close>

record timer =
  g_ticks :: u32
  g_last_delta :: u32
  g_late :: u32
  g_timer_interval :: u32
  g_timer_next :: u32
  g_timer_rescues :: u32
  ccompare1 :: u32
  timer_irq_enabled :: bool
  intlevel :: nat

text \<open>\<open>now\<close>, \<open>c2\<close> and \<open>c3\<close> are the three reads of the cycle counter in \<open>timer_isr\<close>.\<close>

definition timer_isr :: "u32 \<Rightarrow> u32 \<Rightarrow> u32 \<Rightarrow> timer \<Rightarrow> timer" where
  "timer_isr now c2 c3 t =
     (if sint (now - g_timer_next t) < 0 then t\<lparr>ccompare1 := g_timer_next t\<rparr>
      else
        let t1 = t\<lparr>g_last_delta := now - (g_timer_next t - g_timer_interval t)\<rparr>;
            t2 = t1\<lparr>g_timer_next := g_timer_next t1 + g_timer_interval t1\<rparr>;
            ahead = sint (g_timer_next t2 - c2);
            t3 = (if ahead \<le> 0 \<or> ahead > sint (g_timer_interval t2)
                  then t2\<lparr>g_timer_next := c3 + g_timer_interval t2, g_late := g_late t2 + 1\<rparr> else t2)
        in t3\<lparr>ccompare1 := g_timer_next t3, g_ticks := g_ticks t3 + 1\<rparr>)"

definition timer_rescue :: "u32 \<Rightarrow> timer \<Rightarrow> bool \<times> timer" where
  "timer_rescue now t =
     (if g_timer_interval t = 0 then (False, t)
      else if sint (g_timer_next t - now) > 0 then (False, t)
      else
        let t1 = t\<lparr>g_timer_next := now + g_timer_interval t\<rparr> in
        (True, t1\<lparr>ccompare1 := g_timer_next t1, g_timer_rescues := g_timer_rescues t1 + 1\<rparr>))"

definition timer_start :: "u32 \<Rightarrow> u32 \<Rightarrow> timer \<Rightarrow> timer" where
  "timer_start interval_cycles now t =
     (let t1 = t\<lparr>g_timer_interval := interval_cycles, g_ticks := 0, g_late := 0, g_last_delta := 0\<rparr>;
          t2 = t1\<lparr>g_timer_next := now + interval_cycles\<rparr>
      in t2\<lparr>ccompare1 := g_timer_next t2, timer_irq_enabled := True, intlevel := 0\<rparr>)"

text \<open>\<^verbatim>\<open>task_yield\<close> of task.c is the timer's other writer: it rescues a lost deadline, then pulls the
  comparator back to 64 cycles from now, unless it is due sooner. \<open>now\<close> and \<open>c2\<close> are its two reads of
  the counter.\<close>

definition task_yield :: "u32 \<Rightarrow> u32 \<Rightarrow> timer \<Rightarrow> timer" where
  "task_yield now c2 t =
     (let t1 = snd (timer_rescue now t);
          soon = c2 + 64
      in if sint (soon - ccompare1 t1) < 0 then t1\<lparr>ccompare1 := soon\<rparr> else t1)"

subsection \<open>The counter on the time line\<close>

text \<open>The signed difference of two counter values that are less than half a revolution apart is the
  difference of the times they were taken at.\<close>

lemma sint_of_int_u32: "- 2147483648 \<le> k \<Longrightarrow> k < 2147483648 \<Longrightarrow> sint (of_int k :: u32) = k"
  by (simp add: signed_of_int signed_take_bit_int_eq_self)

lemma sint_diff_times:
  assumes "x < y + 2147483648" "y \<le> x + 2147483648"
  shows "sint (of_nat x - of_nat y :: u32) = int x - int y"
proof -
  have eq: "of_nat x - of_nat y = (of_int (int x - int y) :: u32)" by simp
  show ?thesis unfolding eq by (rule sint_of_int_u32) (use assms in linarith)+
qed

lemma sint_small: "unat (w :: u32) < 2147483648 \<Longrightarrow> sint w = int (unat w)"
proof -
  assume a: "unat w < 2147483648"
  have "sint (of_int (int (unat w)) :: u32) = int (unat w)" by (rule sint_of_int_u32) (use a in linarith)+
  then show ?thesis by simp
qed

text \<open>A history of the clock: the timer, the time, the time it was started at and the time of the
  next deadline. Handler entries, yields and rescues happen at times that do not decrease, and no
  reader is delayed more than half a revolution of the counter past the deadline.\<close>

record clock =
  tmr :: timer
  time :: nat
  started :: nat
  deadline :: nat

abbreviation (input) HALF :: nat where "HALF \<equiv> 2147483648"

definition next_deadline :: "nat \<Rightarrow> nat \<Rightarrow> nat \<Rightarrow> clock \<Rightarrow> nat" where
  "next_deadline now c2 c3 k =
     (let i = unat (g_timer_interval (tmr k)); d = deadline k in
      if now < d then d else if d + i \<le> c2 \<or> c2 < d then c3 + i else d + i)"

definition clock_boot :: "clock \<Rightarrow> bool" where
  "clock_boot k \<longleftrightarrow> (\<exists>i t. 0 < i \<and> unat i < HALF \<and> tmr k = timer_start i (of_nat (time k)) t
      \<and> g_timer_rescues t = 0 \<and> started k = time k \<and> deadline k = time k + unat i)"

inductive clock_step :: "clock \<Rightarrow> clock \<Rightarrow> bool" where
  tick: "time k \<le> now \<Longrightarrow> now \<le> c2 \<Longrightarrow> c2 \<le> c3 \<Longrightarrow> c3 < deadline k + HALF \<Longrightarrow>
    clock_step k (k\<lparr>tmr := timer_isr (of_nat now) (of_nat c2) (of_nat c3) (tmr k), time := c3,
       deadline := next_deadline now c2 c3 k\<rparr>)"
| yield: "time k \<le> now \<Longrightarrow> now \<le> c2 \<Longrightarrow> now < deadline k + HALF \<Longrightarrow>
    clock_step k (k\<lparr>tmr := task_yield (of_nat now) (of_nat c2) (tmr k), time := c2,
       deadline := (if now < deadline k then deadline k else now + unat (g_timer_interval (tmr k)))\<rparr>)"
| rescue: "time k \<le> now \<Longrightarrow> now < deadline k + HALF \<Longrightarrow>
    clock_step k (k\<lparr>tmr := snd (timer_rescue (of_nat now) (tmr k)), time := now,
       deadline := (if now < deadline k then deadline k else now + unat (g_timer_interval (tmr k)))\<rparr>)"

definition clock_ok :: "clock \<Rightarrow> bool" where
  "clock_ok k \<longleftrightarrow>
     (let t = tmr k; i = unat (g_timer_interval t) in
      0 < i \<and> i < HALF \<and> g_timer_next t = of_nat (deadline k) \<and> started k \<le> time k
      \<and> deadline k \<le> time k + i
      \<and> started k + (unat (g_ticks t) + 1) * i \<le> deadline k)"

lemma late_test:
  assumes "d \<le> c2" "c2 < d + HALF" "0 < i" "i < HALF"
  shows "(sint (of_nat (d + i) - of_nat c2 :: u32) \<le> 0 \<or> int i < sint (of_nat (d + i) - of_nat c2 :: u32)) \<longleftrightarrow> d + i \<le> c2"
  using sint_diff_times [of "d + i" c2] assms by auto

lemma timer_isr_times:
  assumes ok: "clock_ok k" and t: "time k \<le> now" "now \<le> c2" "c2 \<le> c3" "c3 < deadline k + HALF"
  defines "t' \<equiv> timer_isr (of_nat now) (of_nat c2) (of_nat c3) (tmr k)"
  shows "g_timer_next t' = of_nat (next_deadline now c2 c3 k)"
    and "g_ticks t' = (if now < deadline k then g_ticks (tmr k) else g_ticks (tmr k) + 1)"
    and "g_timer_interval t' = g_timer_interval (tmr k)"
    and "ccompare1 t' = g_timer_next t'"
    and "g_late t' = (if \<not> now < deadline k \<and> deadline k + unat (g_timer_interval (tmr k)) \<le> c2
           then g_late (tmr k) + 1 else g_late (tmr k))"
    and "g_timer_rescues t' = g_timer_rescues (tmr k)"
proof -
  let ?i = "unat (g_timer_interval (tmr k))"
  from ok have i: "0 < ?i" "?i < HALF" and nx: "g_timer_next (tmr k) = of_nat (deadline k)"
    and d: "deadline k \<le> time k + ?i" by (auto simp: clock_ok_def Let_def)
  have early: "sint (of_nat now - of_nat (deadline k) :: u32) < 0 \<longleftrightarrow> now < deadline k"
    using sint_diff_times [of now "deadline k"] t d i by auto
  have si: "sint (g_timer_interval (tmr k)) = int ?i" using i by (intro sint_small)
  have late: "(sint (g_timer_next (tmr k) + g_timer_interval (tmr k) - of_nat c2) \<le> 0
      \<or> sint (g_timer_next (tmr k) + g_timer_interval (tmr k) - of_nat c2) > sint (g_timer_interval (tmr k)))
      \<longleftrightarrow> deadline k + ?i \<le> c2" if "\<not> now < deadline k"
    using late_test [of "deadline k" c2 ?i] that t i by (simp add: nx si)
  show "g_timer_next t' = of_nat (next_deadline now c2 c3 k)"
    and "g_ticks t' = (if now < deadline k then g_ticks (tmr k) else g_ticks (tmr k) + 1)"
    and "g_timer_interval t' = g_timer_interval (tmr k)"
    and "ccompare1 t' = g_timer_next t'"
    and "g_late t' = (if \<not> now < deadline k \<and> deadline k + ?i \<le> c2
           then g_late (tmr k) + 1 else g_late (tmr k))"
    and "g_timer_rescues t' = g_timer_rescues (tmr k)"
    using early late t by (auto simp: t'_def timer_isr_def Let_def next_deadline_def nx)
qed

lemma timer_rescue_times:
  assumes ok: "clock_ok k" and t: "time k \<le> now" "now < deadline k + HALF"
  shows "timer_rescue (of_nat now) (tmr k) =
    (if now < deadline k then (False, tmr k)
     else (True, (tmr k)\<lparr>g_timer_next := of_nat (now + unat (g_timer_interval (tmr k))),
        ccompare1 := of_nat (now + unat (g_timer_interval (tmr k))), g_timer_rescues := g_timer_rescues (tmr k) + 1\<rparr>))"
proof -
  from ok have i: "0 < unat (g_timer_interval (tmr k))" "unat (g_timer_interval (tmr k)) < HALF"
    and nx: "g_timer_next (tmr k) = of_nat (deadline k)"
    and d: "deadline k \<le> time k + unat (g_timer_interval (tmr k))" by (auto simp: clock_ok_def Let_def)
  have "0 < sint (of_nat (deadline k) - of_nat now :: u32) \<longleftrightarrow> now < deadline k"
    using sint_diff_times [of "deadline k" now] t d i by auto
  with i show ?thesis by (auto simp: timer_rescue_def Let_def nx)
qed

lemma deadline_advances:
  assumes "s + (n + 1) * i \<le> d" "d + i \<le> (d' :: nat)"
  shows "s + (n + 2) * i \<le> d'"
  using assms by (simp add: algebra_simps)

lemma clock_ok_advance:
  assumes ok: "clock_ok k" and iv: "g_timer_interval (tmr k') = g_timer_interval (tmr k)"
    and st: "started k' = started k" "time k \<le> time k'"
    and nx: "g_timer_next (tmr k') = of_nat (deadline k')"
    and d: "deadline k' \<le> time k' + unat (g_timer_interval (tmr k))"
    and tk: "unat (g_ticks (tmr k')) = unat (g_ticks (tmr k)) \<and> deadline k \<le> deadline k' \<or>
       unat (g_ticks (tmr k')) \<le> unat (g_ticks (tmr k)) + 1 \<and> deadline k + unat (g_timer_interval (tmr k)) \<le> deadline k'"
  shows "clock_ok k'"
proof -
  let ?i = "unat (g_timer_interval (tmr k))"
  from ok have a: "started k + (unat (g_ticks (tmr k)) + 1) * ?i \<le> deadline k" by (simp add: clock_ok_def Let_def)
  from tk have "started k + (unat (g_ticks (tmr k')) + 1) * ?i \<le> deadline k'"
  proof
    assume b: "unat (g_ticks (tmr k')) \<le> unat (g_ticks (tmr k)) + 1 \<and> deadline k + ?i \<le> deadline k'"
    then have "(unat (g_ticks (tmr k')) + 1) * ?i \<le> (unat (g_ticks (tmr k)) + 2) * ?i" by (intro mult_le_mono1) simp
    with deadline_advances [OF a] b show ?thesis by force
  qed (use a in simp)
  with ok iv st nx d show ?thesis by (auto simp: clock_ok_def Let_def)
qed

lemma clock_step_ok: "clock_step k k' \<Longrightarrow> clock_ok k \<Longrightarrow> clock_ok k'"
proof (induction rule: clock_step.induct)
  case (tick k now c2 c3)
  note e = timer_isr_times [OF tick.prems tick.hyps]
  have "deadline k \<le> time k + unat (g_timer_interval (tmr k))" using tick.prems by (simp add: clock_ok_def Let_def)
  with tick.hyps show ?case
    by (intro clock_ok_advance [OF tick.prems])
      (auto simp: e next_deadline_def Let_def unat_Suc_le)
next
  case (yield k now c2)
  have "deadline k \<le> time k + unat (g_timer_interval (tmr k))" using yield.prems by (simp add: clock_ok_def Let_def)
  with yield.hyps yield.prems show ?case
    by (intro clock_ok_advance [OF yield.prems])
      (auto simp: timer_rescue_times task_yield_def clock_ok_def Let_def)
next
  case (rescue k now)
  have "deadline k \<le> time k + unat (g_timer_interval (tmr k))" using rescue.prems by (simp add: clock_ok_def Let_def)
  with rescue.hyps rescue.prems show ?case
    by (intro clock_ok_advance [OF rescue.prems])
      (auto simp: timer_rescue_times clock_ok_def Let_def)
qed

interpretation clock_sys: invariant_system clock_boot clock_step clock_ok
proof
  fix k assume "clock_boot k"
  then show "clock_ok k" by (auto simp: clock_boot_def clock_ok_def timer_start_def Let_def word_less_nat_alt)
qed (rule clock_step_ok)

subsection \<open>Properties\<close>

definition timer_off :: timer where
  "timer_off = \<lparr>g_ticks = 7, g_last_delta = 0, g_late = 3, g_timer_interval = 0, g_timer_next = 0,
     g_timer_rescues = 0, ccompare1 = 0, timer_irq_enabled = False, intlevel = 15\<rparr>"

text \<open>A clock started 50 cycles before the counter wraps, with a deadline after the wrap.\<close>

definition clock_example :: clock where
  "clock_example = \<lparr>tmr = timer_start 100 (of_nat 4294967246) timer_off, time = 4294967246,
     started = 4294967246, deadline = 4294967346\<rparr>"

lemma clock_example_reaches: "reaches clock_boot clock_step clock_example"
proof (rule reaches_start)
  have "g_timer_rescues timer_off = 0" by (simp add: timer_off_def)
  then show "clock_boot clock_example"
    unfolding clock_boot_def by (intro exI [of _ "100 :: u32"] exI [of _ timer_off]) (simp add: clock_example_def)
qed

text \<open> The clock never runs fast: after any sequence of handler entries, yields and rescues, at
  most one tick has been counted per full interval of real time since the start, however many of
  the entries were caused by a yield pulling the comparator back, and across wrap-around of the
  cycle counter.\<close>

theorem ticks_bounded_by_time:
  assumes "reaches clock_boot clock_step k"
  shows "unat (g_ticks (tmr k)) * unat (g_timer_interval (tmr k)) \<le> time k - started k"
  using clock_sys.reaches_inv [OF assms] by (auto simp: clock_ok_def Let_def)

theorem ticks_bounded_by_time_witness:
  "\<exists>k. reaches clock_boot clock_step k \<and> g_ticks (tmr k) = 1 \<and> time k = 4294967350 \<and>
     unat (g_ticks (tmr k)) * unat (g_timer_interval (tmr k)) \<le> time k - started k"
proof -
  let ?k = "clock_example\<lparr>tmr := timer_isr (of_nat 4294967348) (of_nat 4294967349) (of_nat 4294967350) (tmr clock_example),
     time := 4294967350, deadline := next_deadline 4294967348 4294967349 4294967350 clock_example\<rparr>"
  have r: "reaches clock_boot clock_step ?k"
    by (rule reaches_step [where step = clock_step, OF clock_example_reaches], rule tick)
      (simp_all add: clock_example_def)
  have "g_ticks (tmr ?k) = 1"
    by (simp add: clock_example_def timer_isr_def timer_start_def timer_off_def Let_def)
  with r ticks_bounded_by_time [OF r] show ?thesis by (intro exI [of _ ?k]) simp
qed

text \<open>The handler always leaves a deadline in the future: entered at time \<open>now\<close>, read again at
  \<open>c2\<close> and \<open>c3\<close>, it arms the comparator for a time after its entry and no more than one interval after
  its last read; when it counts a tick, the time is also after the second read, so a delayed
  handler does not arm a comparator that has already matched.\<close>

theorem timer_isr_rearms:
  assumes "reaches clock_boot clock_step k" "time k \<le> now" "now \<le> c2" "c2 \<le> c3" "c3 < deadline k + HALF"
  shows "\<exists>d. ccompare1 (timer_isr (of_nat now) (of_nat c2) (of_nat c3) (tmr k)) = of_nat d
    \<and> now < d \<and> d \<le> c3 + unat (g_timer_interval (tmr k))
    \<and> (g_ticks (timer_isr (of_nat now) (of_nat c2) (of_nat c3) (tmr k)) \<noteq> g_ticks (tmr k) \<longrightarrow> c2 < d)"
proof -
  have ok: "clock_ok k" by (rule clock_sys.reaches_inv [OF assms(1)])
  have "now < next_deadline now c2 c3 k" "next_deadline now c2 c3 k \<le> c3 + unat (g_timer_interval (tmr k))"
    "\<not> now < deadline k \<longrightarrow> c2 < next_deadline now c2 c3 k"
    using ok assms(2-4) by (auto simp: next_deadline_def Let_def clock_ok_def)
  with timer_isr_times [OF ok assms(2-5)] show ?thesis by auto
qed

theorem timer_isr_rearms_witness:
  "\<exists>d. ccompare1 (timer_isr (of_nat 4294967300) (of_nat 4294967301) (of_nat 4294967302) (tmr clock_example)) = of_nat d
    \<and> 4294967300 < d \<and> d \<le> (4294967402 :: nat)"
proof -
  have i: "g_timer_interval (tmr clock_example) = 100" by (simp add: clock_example_def timer_start_def Let_def)
  from timer_isr_rearms [OF clock_example_reaches, of 4294967300 4294967301 4294967302] show ?thesis
    unfolding i by (auto simp: clock_example_def)
qed

end
