(* ===== verification/KTask.thy ===== *)
theory KTask
  imports KTimer
begin

text \<open>
  Tasks and the scheduler, \<^verbatim>\<open>kernel/task.c\<close>, with the liveness window of \<^verbatim>\<open>kernel/watchdog.c\<close> that
  every scheduling decision reports to. The state is the task table and the statics beside it; the
  saved register frames and stacks are in the byte memory. A guard found overwritten is the kernel
  panic the code raises there (\<open>Inl\<close>). The register-window and trap latches that \<^verbatim>\<open>task_schedule\<close>
  records for later inspection and never reads again are left out; the window masks it hands to the
  vector are kept.
\<close>

subsection \<open>Data\<close>

abbreviation (input) TASK_MAX :: nat where "TASK_MAX \<equiv> 13"
abbreviation (input) TASK_STACK_WORDS :: u32 where "TASK_STACK_WORDS \<equiv> 512"
abbreviation (input) TASK_FRAME_WORDS :: nat where "TASK_FRAME_WORDS \<equiv> 23"
abbreviation (input) TASK_FRAME_TOTAL :: u32 where "TASK_FRAME_TOTAL \<equiv> 160"
abbreviation (input) TASK_FRAME_IDX_SAR :: nat where "TASK_FRAME_IDX_SAR \<equiv> 15"
abbreviation (input) TASK_FRAME_IDX_EPC3 :: nat where "TASK_FRAME_IDX_EPC3 \<equiv> 16"
abbreviation (input) TASK_FRAME_IDX_EPS3 :: nat where "TASK_FRAME_IDX_EPS3 \<equiv> 17"
abbreviation (input) TASK_FRAME_IDX_WBASE :: nat where "TASK_FRAME_IDX_WBASE \<equiv> 21"
abbreviation (input) TASK_FRAME_IDX_WSTART :: nat where "TASK_FRAME_IDX_WSTART \<equiv> 22"
abbreviation (input) TASK_PRIO_NORMAL :: u8 where "TASK_PRIO_NORMAL \<equiv> 1"
abbreviation (input) TASK_PRIO_LEVELS :: int where "TASK_PRIO_LEVELS \<equiv> 4"
abbreviation (input) TASK_AGE_TICKS :: u32 where "TASK_AGE_TICKS \<equiv> 30"
abbreviation (input) TASK_AGE_MAX :: u32 where "TASK_AGE_MAX \<equiv> 4"
abbreviation (input) TASK_SLEEP_MAX :: u32 where "TASK_SLEEP_MAX \<equiv> 0x7FFFFFFF"
abbreviation (input) WAIT_BUCKETS :: u32 where "WAIT_BUCKETS \<equiv> 8"
abbreviation (input) BLOB_PIN_MAX_TICKS :: u32 where "BLOB_PIN_MAX_TICKS \<equiv> 200"
abbreviation (input) STACK_GUARD :: u32 where "STACK_GUARD \<equiv> 0x57ACC0DE"
abbreviation (input) STACK_FILL :: u32 where "STACK_FILL \<equiv> 0xEEEEEEEE"
abbreviation (input) LIVENESS_WINDOW_TICKS :: u32 where "LIVENESS_WINDOW_TICKS \<equiv> 100"

datatype task_state_t = TASK_UNUSED | TASK_READY | TASK_BLOCKED | TASK_SLEEPING

record task_t =
  sp :: u32
  tstate :: task_state_t
  prio :: u8
  base_prio :: u8
  wake_tick :: u32
  woken :: bool
  switches :: u32
  resumes :: u32
  waiting :: u32
  tname :: cstring
  stack_base :: u32
  stack_words :: u32

record wdog =
  wd_ticks :: u32
  wd_seen :: u32
  g_feeds :: u32
  g_starved :: u32

record sched =
  g_tasks :: "task_t list"
  g_current :: int
  g_idle_id :: int
  g_run_cycles :: "u32 list"
  g_slice_start :: u32
  g_max_wait :: u32
  g_wait_hist :: "u32 list"
  g_age_rescues :: u32
  g_blob_pin_ticks :: u32
  pin_last_seq :: u32
  g_sleep_clamped :: u32
  g_win_mask :: "u32 list"
  g_win_base :: "u32 list"
  g_win_union :: u32
  g_win_disowned :: bool
  g_disown_hits :: u32
  g_multiframe_count :: u32
  g_multiframe_worst :: u32
  g_multiframe_ws :: u32
  g_multiframe_task :: int
  g_term_addr :: "u32 list"
  g_term_val :: "u32 list"
  wd :: wdog
  tmem :: memory

datatype task_panic = Stack_guard_overwritten int

definition upd_task :: "nat \<Rightarrow> (task_t \<Rightarrow> task_t) \<Rightarrow> sched \<Rightarrow> sched" where
  "upd_task i f st = st\<lparr>g_tasks := (g_tasks st)[i := f (g_tasks st ! i)]\<rparr>"

text \<open>Word \<open>i\<close> of the array at \<open>a\<close>.\<close>

definition word_at :: "memory \<Rightarrow> u32 \<Rightarrow> nat \<Rightarrow> u32" where
  "word_at m a i = peek32 m (a + 4 * of_nat i)"

primrec fill_words :: "memory \<Rightarrow> u32 \<Rightarrow> nat \<Rightarrow> u32 \<Rightarrow> memory" where
  "fill_words m a 0 v = m"
| "fill_words m a (Suc i) v = poke32 (fill_words m a i v) (a + 4 * of_nat i) v"

subsection \<open>Watchdog liveness\<close>

definition watchdog_feed :: "wdog \<Rightarrow> wdog" where
  "watchdog_feed w = w\<lparr>g_feeds := g_feeds w + 1\<rparr>"

definition watchdog_liveness :: "bool \<Rightarrow> wdog \<Rightarrow> wdog" where
  "watchdog_liveness switched w =
     (let w1 = (if switched then w\<lparr>wd_seen := wd_seen w + 1\<rparr> else w);
          w2 = w1\<lparr>wd_ticks := wd_ticks w1 + 1\<rparr>
      in if wd_ticks w2 \<ge> LIVENESS_WINDOW_TICKS then
           let w3 = w2\<lparr>wd_ticks := 0\<rparr> in
           if wd_seen w3 \<noteq> 0 then watchdog_feed (w3\<lparr>wd_seen := 0\<rparr>)
           else w3\<lparr>g_starved := g_starved w3 + 1\<rparr>
         else w2)"

subsection \<open>Wait histogram\<close>

function wait_bucket_loop :: "u32 \<Rightarrow> u32 \<Rightarrow> u32 \<times> u32" where
  "wait_bucket_loop w b =
     (if w > 1 \<and> b < WAIT_BUCKETS - 1 then wait_bucket_loop (drop_bit 1 w) (b + 1) else (w, b))"
  by pat_completeness auto
termination
proof (relation "measure (\<lambda>(w, b). 7 - unat b)")
  fix w b :: u32 assume a: "1 < w \<and> b < 8 - 1"
  then have "unat b < 7" by (simp add: word_less_nat_alt)
  moreover from this have "unat (b + 1) = unat b + 1" by (simp add: unat_add_u32)
  ultimately show "((drop_bit 1 w, b + 1), w, b) \<in> measure (\<lambda>(w, b). 7 - unat b)" by simp
qed simp

definition wait_bucket :: "u32 \<Rightarrow> u32" where
  "wait_bucket w0 =
     (let (w, b) = wait_bucket_loop w0 0 in
      if w = 0 then 0 else if b + 1 < WAIT_BUCKETS then b + 1 else WAIT_BUCKETS - 1)"

definition task_wait_hist :: "u32 \<Rightarrow> sched \<Rightarrow> u32" where
  "task_wait_hist i st = (if i < WAIT_BUCKETS then g_wait_hist st ! unat i else 0)"

definition task_wait_hist_reset :: "sched \<Rightarrow> sched" where
  "task_wait_hist_reset st = st\<lparr>g_wait_hist := replicate 8 0, g_max_wait := 0\<rparr>"

subsection \<open>Creation\<close>

fun unused_slot :: "task_t list \<Rightarrow> nat \<Rightarrow> nat option" where
  "unused_slot [] i = None"
| "unused_slot (t # ts) i = (if tstate t \<noteq> TASK_UNUSED then unused_slot ts (Suc i) else Some i)"

text \<open>The first frame and the windowed-chain terminator, written at the top of the stack. \<open>ps\<close> and \<open>wb\<close>
  are the processor registers read there, \<open>chain_end\<close> the address of \<^verbatim>\<open>task_chain_end\<close>.\<close>

definition build_frame :: "u32 \<Rightarrow> u32 \<Rightarrow> u32 \<Rightarrow> u32 \<Rightarrow> memory \<Rightarrow> memory" where
  "build_frame frame entry ps wb m =
     (let m1 = fill_words m frame TASK_FRAME_WORDS 0;
          m2 = poke32 m1 (frame + 4 * of_nat TASK_FRAME_IDX_EPC3) entry;
          m3 = poke32 m2 (frame + 4 * of_nat TASK_FRAME_IDX_EPS3) (ps AND NOT 0xF);
          m4 = poke32 m3 (frame + 4 * of_nat TASK_FRAME_IDX_SAR) 0;
          m5 = poke32 m4 (frame + 4 * of_nat TASK_FRAME_IDX_WBASE) wb
      in poke32 m5 (frame + 4 * of_nat TASK_FRAME_IDX_WSTART) (push_bit (unat (wb AND 15)) 1))"

definition build_terminator :: "u32 \<Rightarrow> u32 \<Rightarrow> memory \<Rightarrow> memory" where
  "build_terminator tp chain_end m =
     (let m1 = poke32 m (tp - 16) (push_bit 30 1 OR (chain_end AND 0x3FFFFFFF));
          m2 = poke32 m1 (tp - 12) tp;
          m3 = poke32 m2 (tp - 8) 0
      in poke32 m3 (tp - 4) 0)"

definition task_create_with_stack ::
    "u32 \<Rightarrow> u32 \<Rightarrow> u32 \<Rightarrow> u32 \<Rightarrow> cstring \<Rightarrow> u32 \<Rightarrow> u32 \<Rightarrow> u32 \<Rightarrow> sched \<Rightarrow> int \<times> sched" where
  "task_create_with_stack g_stacks chain_end ps wb name entry stack_in words_in st =
     (case unused_slot (g_tasks st) 0 of
        None \<Rightarrow> (-1, st)
      | Some i \<Rightarrow>
          let stack = (if stack_in \<noteq> 0 then stack_in else g_stacks + of_nat i * (4 * TASK_STACK_WORDS));
              words = (if stack_in \<noteq> 0 then words_in else TASK_STACK_WORDS)
          in if words < of_nat TASK_FRAME_WORDS + 8 then (-1, st)
             else
               let m1 = fill_words (tmem st) stack (unat words) STACK_FILL;
                   m2 = poke32 m1 stack STACK_GUARD;
                   term_top = (stack + 4 * words) AND NOT 15;
                   tp = term_top - 16;
                   frame = tp - TASK_FRAME_TOTAL;
                   m3 = build_frame frame entry ps wb m2;
                   m4 = build_terminator term_top chain_end m3;
                   st1 = upd_task i (\<lambda>t. t\<lparr>sp := frame, tstate := TASK_READY, prio := TASK_PRIO_NORMAL,
                           base_prio := TASK_PRIO_NORMAL, wake_tick := 0, woken := False, switches := 0,
                           waiting := 0, tname := name, stack_base := stack, stack_words := words\<rparr>) st
               in (int i, st1\<lparr>tmem := m4, g_term_addr := (g_term_addr st)[i := term_top],
                     g_term_val := (g_term_val st)[i := peek32 m4 (term_top - 16)]\<rparr>))"

definition task_create :: "u32 \<Rightarrow> u32 \<Rightarrow> u32 \<Rightarrow> u32 \<Rightarrow> cstring \<Rightarrow> u32 \<Rightarrow> sched \<Rightarrow> int \<times> sched" where
  "task_create g_stacks chain_end ps wb name entry st =
     task_create_with_stack g_stacks chain_end ps wb name entry 0 0 st"

subsection \<open>Waking and selection\<close>

definition wake_task :: "u32 \<Rightarrow> task_t \<Rightarrow> task_t" where
  "wake_task now t =
     (if tstate t = TASK_SLEEPING \<and> sint (now - wake_tick t) \<ge> 0 then t\<lparr>tstate := TASK_READY\<rparr> else t)"

definition wake_sleepers :: "u32 \<Rightarrow> sched \<Rightarrow> sched" where
  "wake_sleepers now st = st\<lparr>g_tasks := map (wake_task now) (g_tasks st)\<rparr>"

fun select_probe_loop :: "task_t list \<Rightarrow> int \<Rightarrow> nat list \<Rightarrow> int" where
  "select_probe_loop ts current [] = current"
| "select_probe_loop ts current (i # is) =
     (let candidate = (current + int i) mod int TASK_MAX in
      if tstate (ts ! nat candidate) = TASK_READY then candidate else select_probe_loop ts current is)"

definition task_select_probe :: "int \<Rightarrow> sched \<Rightarrow> int" where
  "task_select_probe current st = select_probe_loop (g_tasks st) current [1..<Suc TASK_MAX]"

text \<open>Effective priority: the priority plus one level per \<open>TASK_AGE_TICKS\<close> decisions waited, capped.\<close>

definition credit :: "task_t \<Rightarrow> u32" where
  "credit t = (let c = waiting t div TASK_AGE_TICKS in if c > TASK_AGE_MAX then TASK_AGE_MAX else c)"

definition eff :: "task_t \<Rightarrow> int" where
  "eff t = int (unat (prio t)) + int (unat (credit t))"

definition select_step :: "task_t list \<Rightarrow> int \<Rightarrow> int \<Rightarrow> int \<times> int \<Rightarrow> nat \<Rightarrow> int \<times> int" where
  "select_step ts current idle nb i =
     (let (nxt, best) = nb; candidate = (current + int i) mod int TASK_MAX in
      if candidate = idle then (nxt, best)
      else if tstate (ts ! nat candidate) = TASK_READY then
        (if eff (ts ! nat candidate) > best then (candidate, eff (ts ! nat candidate)) else (nxt, best))
      else (nxt, best))"

definition select_next :: "sched \<Rightarrow> int" where
  "select_next st =
     (let (nxt, best) = foldl (select_step (g_tasks st) (g_current st) (g_idle_id st)) (-1, -1) [1..<Suc TASK_MAX] in
      if nxt < 0 \<and> g_idle_id st \<ge> 0 \<and> tstate (g_tasks st ! nat (g_idle_id st)) = TASK_READY
      then g_idle_id st else nxt)"

text \<open>The bookkeeping loop after the decision, in table order.\<close>

definition age_task :: "int \<Rightarrow> sched \<Rightarrow> nat \<Rightarrow> sched" where
  "age_task nxt st i =
     (let t = g_tasks st ! i in
      if tstate t \<noteq> TASK_READY then st
      else if int i = nxt then
        let b = unat (wait_bucket (waiting t)) in
        upd_task i (\<lambda>t. t\<lparr>waiting := 0\<rparr>)
          (st\<lparr>g_max_wait := (if waiting t > g_max_wait st then waiting t else g_max_wait st),
              g_wait_hist := (g_wait_hist st)[b := g_wait_hist st ! b + 1],
              g_age_rescues := (if waiting t \<ge> TASK_AGE_TICKS then g_age_rescues st + 1 else g_age_rescues st)\<rparr>)
      else upd_task i (\<lambda>t. t\<lparr>waiting := waiting t + 1\<rparr>) st)"

definition age_tasks :: "int \<Rightarrow> sched \<Rightarrow> sched" where
  "age_tasks nxt st = foldl (age_task nxt) st [0..<TASK_MAX]"

subsection \<open>Stacks\<close>

definition task_stack_intact :: "int \<Rightarrow> sched \<Rightarrow> bool" where
  "task_stack_intact i st =
     (if i < 0 \<or> i \<ge> int TASK_MAX \<or> stack_base (g_tasks st ! nat i) = 0 then True
      else peek32 (tmem st) (stack_base (g_tasks st ! nat i)) = STACK_GUARD)"

fun broken_loop :: "memory \<Rightarrow> task_t list \<Rightarrow> int \<Rightarrow> int" where
  "broken_loop m [] i = -1"
| "broken_loop m (t # ts) i =
     (if stack_base t \<noteq> 0 \<and> peek32 m (stack_base t) \<noteq> STACK_GUARD then i else broken_loop m ts (i + 1))"

definition task_stack_broken :: "sched \<Rightarrow> int" where
  "task_stack_broken st = broken_loop (tmem st) (g_tasks st) 0"

fun headroom_loop :: "memory \<Rightarrow> u32 \<Rightarrow> nat list \<Rightarrow> u32" where
  "headroom_loop m b [] = 0"
| "headroom_loop m b (i # is) = (if word_at m b i \<noteq> STACK_FILL then 0 else 1 + headroom_loop m b is)"

definition task_stack_headroom :: "int \<Rightarrow> sched \<Rightarrow> u32" where
  "task_stack_headroom i st =
     (if i < 0 \<or> i \<ge> int TASK_MAX \<or> stack_base (g_tasks st ! nat i) = 0 then 0
      else headroom_loop (tmem st) (stack_base (g_tasks st ! nat i)) [1..<unat (stack_words (g_tasks st ! nat i))])"

definition tightest_step :: "sched \<Rightarrow> int \<times> u32 \<Rightarrow> nat \<Rightarrow> int \<times> u32" where
  "tightest_step st wl i =
     (let (worst, least) = wl in
      if stack_base (g_tasks st ! i) = 0 then (worst, least)
      else let free_words = task_stack_headroom (int i) st in
           if free_words < least then (int i, free_words) else (worst, least))"

definition task_stack_tightest :: "sched \<Rightarrow> int" where
  "task_stack_tightest st = fst (foldl (tightest_step st) (-1, 0xFFFFFFFF) [0..<TASK_MAX])"

definition task_smash_guard :: "sched \<Rightarrow> sched" where
  "task_smash_guard st =
     (if g_current st \<ge> 0 \<and> stack_base (g_tasks st ! nat (g_current st)) \<noteq> 0
      then st\<lparr>tmem := poke32 (tmem st) (stack_base (g_tasks st ! nat (g_current st))) 0xDEADBEEF\<rparr> else st)"

subsection \<open>The scheduling decision\<close>

text \<open>\<^verbatim>\<open>blob_pinned_task\<close> as it is built: the pin is disabled.\<close>

definition blob_pinned_task :: int where
  "blob_pinned_task = -1"

fun bit_count_loop :: "nat \<Rightarrow> u32 \<Rightarrow> u32 \<Rightarrow> u32" where
  "bit_count_loop 0 m bits = bits"
| "bit_count_loop (Suc fuel) m bits = (if m = 0 then bits else bit_count_loop fuel (m AND (m - 1)) (bits + 1))"

text \<open>The outgoing task's half of the decision: its stack pointer and cycles, the disowned masks and
  its own window claim. A word has 32 bits, which bounds the counting loop.\<close>

definition save_outgoing :: "u32 \<Rightarrow> u32 \<Rightarrow> sched \<Rightarrow> sched" where
  "save_outgoing current_sp now st =
     (let c = nat (g_current st);
          st1 = upd_task c (\<lambda>t. t\<lparr>sp := current_sp\<rparr>) st;
          st2 = st1\<lparr>g_run_cycles := (g_run_cycles st1)[c := g_run_cycles st1 ! c + (now - g_slice_start st1)]\<rparr>;
          st3 = (if g_win_disowned st2
                 then st2\<lparr>g_win_mask := replicate TASK_MAX 0, g_win_union := 0, g_win_disowned := False,
                          g_disown_hits := g_disown_hits st2 + 1\<rparr>
                 else st2);
          ws = word_at (tmem st3) current_sp TASK_FRAME_IDX_WSTART;
          base = word_at (tmem st3) current_sp TASK_FRAME_IDX_WBASE AND 15;
          st4 = st3\<lparr>g_win_mask := (g_win_mask st3)[c := (if drop_bit (unat base) ws AND 1 \<noteq> 0 then push_bit (unat base) 1 else 0)],
                    g_win_base := (g_win_base st3)[c := base]\<rparr>;
          bits = bit_count_loop 33 ws 0
      in if bits > 1
         then st4\<lparr>g_multiframe_count := g_multiframe_count st4 + 1, g_multiframe_task := g_current st4,
                  g_multiframe_ws := ws,
                  g_multiframe_worst := (if bits > g_multiframe_worst st4 then bits else g_multiframe_worst st4)\<rparr>
         else st4)"

text \<open>The pin: with \<open>pinned\<close> the running task, it stays, and the watchdog is fed for a bounded number of
  ticks per pin.\<close>

definition apply_pin :: "int \<Rightarrow> u32 \<Rightarrow> int \<Rightarrow> sched \<Rightarrow> int \<times> sched" where
  "apply_pin pinned seq nxt st =
     (if pinned \<ge> 0 \<and> pinned = g_current st then
        let st1 = (if seq \<noteq> pin_last_seq st then st\<lparr>pin_last_seq := seq, g_blob_pin_ticks := 0\<rparr> else st);
            st2 = st1\<lparr>g_blob_pin_ticks := g_blob_pin_ticks st1 + 1\<rparr>
        in (g_current st,
            if g_blob_pin_ticks st2 < BLOB_PIN_MAX_TICKS then st2\<lparr>wd := watchdog_feed (wd st2)\<rparr> else st2)
      else (nxt, st\<lparr>g_blob_pin_ticks := 0\<rparr>))"

definition switch_to :: "int \<Rightarrow> u32 \<Rightarrow> sched \<Rightarrow> sched" where
  "switch_to nxt live st =
     (let st1 = st\<lparr>g_win_union := (if nxt = g_current st then live else 0)\<rparr>;
          st2 = (if nxt \<noteq> g_current st1 then upd_task (nat nxt) (\<lambda>t. t\<lparr>switches := switches t + 1\<rparr>) st1 else st1);
          st3 = upd_task (nat nxt) (\<lambda>t. t\<lparr>resumes := resumes t + 1\<rparr>) st2
      in st3\<lparr>g_current := nxt\<rparr>)"

text \<open>\<open>now\<close> is the cycle counter, \<open>ticks\<close> the clock, \<open>seq\<close> the pin sequence number, \<open>live\<close> the
  WINDOWSTART register.\<close>

definition task_schedule :: "u32 \<Rightarrow> u32 \<Rightarrow> u32 \<Rightarrow> u32 \<Rightarrow> u32 \<Rightarrow> sched \<Rightarrow> task_panic + (u32 \<times> sched)" where
  "task_schedule now ticks seq live current_sp st =
     (let st1 = (if g_current st \<ge> 0 then save_outgoing current_sp now st else st);
          st2 = wake_sleepers ticks (st1\<lparr>g_slice_start := now\<rparr>);
          nxt = select_next st2
      in if nxt < 0 then Inr (current_sp, st2)
         else
           let (nxt, st3) = apply_pin blob_pinned_task seq nxt (age_tasks nxt st2);
               st4 = st3\<lparr>wd := watchdog_liveness (nxt \<noteq> g_current st3) (wd st3)\<rparr>;
               broken = task_stack_broken st4
           in if broken \<ge> 0 then Inl (Stack_guard_overwritten broken)
              else let st5 = switch_to nxt live st4
                   in Inr (sp (g_tasks st5 ! nat nxt), st5))"

subsection \<open>Queries\<close>

definition task_exists :: "int \<Rightarrow> sched \<Rightarrow> bool" where
  "task_exists i st = (i \<ge> 0 \<and> i < int TASK_MAX \<and> tstate (g_tasks st ! nat i) \<noteq> TASK_UNUSED)"

definition task_state_of :: "int \<Rightarrow> sched \<Rightarrow> task_state_t" where
  "task_state_of i st = (if i \<ge> 0 \<and> i < int TASK_MAX then tstate (g_tasks st ! nat i) else TASK_UNUSED)"

definition task_priority :: "int \<Rightarrow> sched \<Rightarrow> int" where
  "task_priority i st = (if i \<ge> 0 \<and> i < int TASK_MAX then int (unat (prio (g_tasks st ! nat i))) else -1)"

definition task_cpu_cycles :: "u32 \<Rightarrow> sched \<Rightarrow> u32" where
  "task_cpu_cycles now st =
     (if g_current st \<ge> 0 then g_run_cycles st ! nat (g_current st) + (now - g_slice_start st) else now)"

subsection \<open>Blocking, priorities and sleeping\<close>

definition task_set_idle :: "int \<Rightarrow> sched \<Rightarrow> sched" where
  "task_set_idle i st = (if i \<ge> 0 \<and> i < int TASK_MAX then st\<lparr>g_idle_id := i\<rparr> else st)"

definition task_block :: "sched \<Rightarrow> sched" where
  "task_block st =
     (if g_current st < 0 then st else upd_task (nat (g_current st)) (\<lambda>t. t\<lparr>tstate := TASK_BLOCKED\<rparr>) st)"

definition task_unblock :: "int \<Rightarrow> sched \<Rightarrow> sched" where
  "task_unblock i st =
     (if i \<ge> 0 \<and> i < int TASK_MAX \<and> tstate (g_tasks st ! nat i) = TASK_BLOCKED
      then upd_task (nat i) (\<lambda>t. t\<lparr>tstate := TASK_READY\<rparr>) st else st)"

definition task_wake :: "int \<Rightarrow> sched \<Rightarrow> sched" where
  "task_wake i st =
     (if i < 0 \<or> i \<ge> int TASK_MAX then st
      else
        let st1 = (if tstate (g_tasks st ! nat i) \<noteq> TASK_UNUSED then upd_task (nat i) (\<lambda>t. t\<lparr>woken := True\<rparr>) st else st)
        in if tstate (g_tasks st1 ! nat i) = TASK_BLOCKED \<or> tstate (g_tasks st1 ! nat i) = TASK_SLEEPING
           then upd_task (nat i) (\<lambda>t. t\<lparr>tstate := TASK_READY\<rparr>) st1 else st1)"

definition task_set_priority :: "int \<Rightarrow> int \<Rightarrow> sched \<Rightarrow> sched" where
  "task_set_priority i p st =
     (if i < 0 \<or> i \<ge> int TASK_MAX then st
      else
        let p1 = (if p < 0 then 0 else p);
            p2 = (if p1 \<ge> TASK_PRIO_LEVELS then TASK_PRIO_LEVELS - 1 else p1)
        in upd_task (nat i) (\<lambda>t. t\<lparr>base_prio := of_int p2, prio := of_int p2\<rparr>) st)"

definition task_boost :: "int \<Rightarrow> int \<Rightarrow> sched \<Rightarrow> sched" where
  "task_boost i p st =
     (if i \<ge> 0 \<and> i < int TASK_MAX \<and> p > int (unat (prio (g_tasks st ! nat i)))
      then upd_task (nat i) (\<lambda>t. t\<lparr>prio := of_int p\<rparr>) st else st)"

definition task_unboost :: "int \<Rightarrow> sched \<Rightarrow> sched" where
  "task_unboost i st =
     (if i \<ge> 0 \<and> i < int TASK_MAX then upd_task (nat i) (\<lambda>t. t\<lparr>prio := base_prio t\<rparr>) st else st)"

definition task_arm_wake :: "sched \<Rightarrow> sched" where
  "task_arm_wake st =
     (if g_current st < 0 then st else upd_task (nat (g_current st)) (\<lambda>t. t\<lparr>woken := False\<rparr>) st)"

text \<open>\<^verbatim>\<open>task_sleep_armed\<close> computes its deadline once (\<open>sleep_deadline\<close>) and then loops: each round either
  returns (\<open>True\<close>) or parks the task and yields, to run again when it is next scheduled. Only the
  running task executes it; a negative \<open>g_current\<close> returns at once.\<close>

definition sleep_deadline :: "u32 \<Rightarrow> u32 \<Rightarrow> sched \<Rightarrow> u32 \<times> sched" where
  "sleep_deadline ticks now st =
     (let (n, st1) = (if ticks > TASK_SLEEP_MAX
                      then (TASK_SLEEP_MAX, st\<lparr>g_sleep_clamped := g_sleep_clamped st + 1\<rparr>) else (ticks, st))
      in (now + n, st1))"

definition sleep_round :: "u32 \<Rightarrow> u32 \<Rightarrow> sched \<Rightarrow> bool \<times> sched" where
  "sleep_round due now st =
     (let c = nat (g_current st) in
      if woken (g_tasks st ! c) then (True, upd_task c (\<lambda>t. t\<lparr>woken := False\<rparr>) st)
      else if sint (now - due) \<ge> 0 then (True, st)
      else (False, upd_task c (\<lambda>t. t\<lparr>wake_tick := due, tstate := TASK_SLEEPING\<rparr>) st))"

text \<open>The first round of \<^verbatim>\<open>task_sleep_armed\<close> and of \<^verbatim>\<open>task_sleep\<close>, with the deadline a later round is
  tested against.\<close>

definition task_sleep_armed :: "u32 \<Rightarrow> u32 \<Rightarrow> sched \<Rightarrow> bool \<times> u32 \<times> sched" where
  "task_sleep_armed ticks now st =
     (if g_current st < 0 then (True, 0, st)
      else let (due, st1) = sleep_deadline ticks now st;
               (returned, st2) = sleep_round due now st1
           in (returned, due, st2))"

definition task_sleep :: "u32 \<Rightarrow> u32 \<Rightarrow> sched \<Rightarrow> bool \<times> u32 \<times> sched" where
  "task_sleep ticks now st = task_sleep_armed ticks now (task_arm_wake st)"

end
