(* ===== verification/KSched.thy ===== *)
theory KSched
  imports KTask
begin

text \<open>
  Correctness of the scheduler of \<open>KTask\<close>: which task a decision picks, that ageing bounds how long a
  ready task can be passed over whatever the other tasks do, that sleeping is neither cut short nor
  lost across wrap-around of the tick counter, and what the creation of a task writes.
\<close>

subsection \<open>Selection\<close>

definition runnable :: "sched \<Rightarrow> nat \<Rightarrow> bool" where
  "runnable st t \<longleftrightarrow> t < TASK_MAX \<and> int t \<noteq> g_idle_id st \<and> tstate (g_tasks st ! t) = TASK_READY"

abbreviation task_eff :: "sched \<Rightarrow> nat \<Rightarrow> int" where
  "task_eff st t \<equiv> eff (g_tasks st ! t)"

definition candidate :: "sched \<Rightarrow> nat \<Rightarrow> nat" where
  "candidate st i = nat ((g_current st + int i) mod int TASK_MAX)"

text \<open>How far \<open>t\<close> is from the running task in the order of the scan, 1 to \<open>TASK_MAX\<close>.\<close>

definition scan_pos :: "sched \<Rightarrow> nat \<Rightarrow> nat" where
  "scan_pos st t = nat ((int t - g_current st - 1) mod int TASK_MAX) + 1"

lemma candidate_lt: "candidate st i < TASK_MAX"
  by (simp add: candidate_def nat_less_iff)

lemma int_candidate: "int (candidate st i) = (g_current st + int i) mod int TASK_MAX"
  by (simp add: candidate_def)

lemma candidate_scan_pos:
  assumes "t < TASK_MAX"
  shows "candidate st (scan_pos st t) = t" "1 \<le> scan_pos st t" "scan_pos st t \<le> TASK_MAX"
proof -
  have "(g_current st + (int t - g_current st - 1) mod 13 + 1) mod 13 = int t mod 13"
    using mod_add_right_eq [of "g_current st + 1" "int t - g_current st - 1" 13] by (simp add: algebra_simps)
  with assms show "candidate st (scan_pos st t) = t" by (simp add: candidate_def scan_pos_def ac_simps)
  show "1 \<le> scan_pos st t" by (simp add: scan_pos_def)
  have "(int t - g_current st - 1) mod 13 < 13" by simp
  then show "scan_pos st t \<le> TASK_MAX" by (simp add: scan_pos_def)
qed

lemma scan_pos_candidate: "1 \<le> i \<Longrightarrow> i \<le> TASK_MAX \<Longrightarrow> scan_pos st (candidate st i) = i"
proof -
  assume i: "1 \<le> i" "i \<le> TASK_MAX"
  have "((g_current st + int i) mod 13 - g_current st - 1) mod 13 = (int i - 1) mod 13"
    using mod_diff_left_eq [of "g_current st + int i" 13 "g_current st + 1"] by (simp add: algebra_simps)
  also have "\<dots> = int i - 1" using i by simp
  finally show ?thesis using i by (simp add: scan_pos_def int_candidate)
qed

lemma select_step_cand:
  "select_step (g_tasks st) (g_current st) (g_idle_id st) (nxt, best) i =
     (if runnable st (candidate st i) \<and> task_eff st (candidate st i) > best
      then (int (candidate st i), task_eff st (candidate st i)) else (nxt, best))"
  by (auto simp: select_step_def Let_def runnable_def candidate_lt int_candidate)
    (simp_all add: candidate_def)

text \<open>The scan keeps the first candidate of the best effective priority seen so far.\<close>

definition scanned :: "sched \<Rightarrow> nat list \<Rightarrow> int \<times> int \<Rightarrow> bool" where
  "scanned st is nb \<longleftrightarrow>
     (\<forall>i \<in> set is. runnable st (candidate st i) \<longrightarrow> task_eff st (candidate st i) \<le> snd nb) \<and>
     (nb = (-1, -1) \<or>
      (\<exists>pre i post. is = pre @ i # post \<and> runnable st (candidate st i) \<and> nb = (int (candidate st i), task_eff st (candidate st i))
         \<and> (\<forall>j \<in> set pre. runnable st (candidate st j) \<longrightarrow> task_eff st (candidate st j) < snd nb)))"

lemma eff_nonneg: "0 \<le> eff t"
  by (simp add: eff_def)

lemma scanned_snoc:
  assumes "scanned st is nb"
  shows "scanned st (is @ [i]) (select_step (g_tasks st) (g_current st) (g_idle_id st) nb i)"
proof -
  obtain nxt best where nb: "nb = (nxt, best)" by (cases nb)
  show ?thesis
  proof (cases "runnable st (candidate st i) \<and> task_eff st (candidate st i) > best")
    case True
    then have sel: "select_step (g_tasks st) (g_current st) (g_idle_id st) nb i
        = (int (candidate st i), task_eff st (candidate st i))" by (simp add: nb select_step_cand)
    have "\<forall>j \<in> set is. runnable st (candidate st j) \<longrightarrow> task_eff st (candidate st j) < task_eff st (candidate st i)"
      using assms True unfolding scanned_def nb by fastforce
    then show ?thesis
      unfolding scanned_def sel using True by (intro conjI disjI2 exI [of _ "is"] exI [of _ i] exI [of _ "[]"]) auto
  next
    case False
    then have sel: "select_step (g_tasks st) (g_current st) (g_idle_id st) nb i = nb"
      by (simp only: nb select_step_cand if_False)
    have all: "\<forall>j \<in> set (is @ [i]). runnable st (candidate st j) \<longrightarrow> task_eff st (candidate st j) \<le> snd nb"
      using assms False unfolding scanned_def nb by auto
    from assms consider "nb = (-1, -1)" | pre k post where "is = pre @ k # post"
      "runnable st (candidate st k)" "nb = (int (candidate st k), task_eff st (candidate st k))"
      "\<forall>j \<in> set pre. runnable st (candidate st j) \<longrightarrow> task_eff st (candidate st j) < snd nb"
      unfolding scanned_def by blast
    then show ?thesis
    proof cases
      case 1
      then show ?thesis using all unfolding scanned_def sel by blast
    next
      case (2 pre k post)
      then have "is @ [i] = pre @ k # (post @ [i])" by simp
      with 2 all show ?thesis unfolding scanned_def sel by blast
    qed
  qed
qed

lemma scanned_fold:
  "scanned st is (foldl (select_step (g_tasks st) (g_current st) (g_idle_id st)) (-1, -1) is)"
proof (induction "is" rule: rev_induct)
  case Nil
  show ?case by (simp add: scanned_def)
next
  case (snoc i "is")
  then show ?case using scanned_snoc by (simp only: foldl_append foldl.simps)
qed

lemma upt_prefix_less: "[1..<n] = pre @ i # post \<Longrightarrow> 1 \<le> j \<Longrightarrow> j < i \<Longrightarrow> j \<in> set pre"
proof -
  assume a: "[1..<n] = pre @ i # post" "1 \<le> j" "j < i"
  then have "i \<in> set [1..<n]" by simp
  with a(2,3) have "j \<in> set (pre @ i # post)" unfolding a(1) [symmetric] by auto
  moreover have "sorted (pre @ i # post)" unfolding a(1) [symmetric] by simp
  ultimately show ?thesis using a(3) by (auto simp: sorted_append)
qed

lemma select_next_runnable:
  assumes "runnable st u"
  obtains t where "select_next st = int t" "runnable st t"
    "\<And>v. runnable st v \<Longrightarrow> task_eff st v \<le> task_eff st t"
    "\<And>v. runnable st v \<Longrightarrow> task_eff st v = task_eff st t \<Longrightarrow> scan_pos st t \<le> scan_pos st v"
proof -
  let ?L = "[1..<Suc TASK_MAX]"
  define nb where "nb = foldl (select_step (g_tasks st) (g_current st) (g_idle_id st)) (-1, -1) ?L"
  have s: "scanned st ?L nb" unfolding nb_def by (rule scanned_fold)
  have inL: "scan_pos st v \<in> set ?L" "candidate st (scan_pos st v) = v" if "runnable st v" for v
    using candidate_scan_pos [of v st] that by (auto simp: runnable_def)
  have all: "task_eff st v \<le> snd nb" if "runnable st v" for v
    using s inL [OF that] that unfolding scanned_def by metis
  have "nb \<noteq> (-1, -1)" using all [OF assms] eff_nonneg [of "g_tasks st ! u"] by auto
  with s obtain pre i post where i: "?L = pre @ i # post" "runnable st (candidate st i)"
    "nb = (int (candidate st i), task_eff st (candidate st i))"
    and before: "\<And>j. j \<in> set pre \<Longrightarrow> runnable st (candidate st j) \<Longrightarrow> task_eff st (candidate st j) < snd nb"
    unfolding scanned_def by blast
  have iL: "1 \<le> i" "i \<le> TASK_MAX"
  proof -
    have "i \<in> set ?L" unfolding i(1) by simp
    then show "1 \<le> i" "i \<le> TASK_MAX" by auto
  qed
  show thesis
  proof (rule that [of "candidate st i"])
    show "select_next st = int (candidate st i)"
      using i(3) unfolding select_next_def nb_def [symmetric] by simp
    show "task_eff st v \<le> task_eff st (candidate st i)" if "runnable st v" for v
      using all [OF that] i(3) by simp
    show "scan_pos st (candidate st i) \<le> scan_pos st v"
      if v: "runnable st v" "task_eff st v = task_eff st (candidate st i)" for v
    proof (rule ccontr)
      assume "\<not> scan_pos st (candidate st i) \<le> scan_pos st v"
      then have "scan_pos st v < i" using scan_pos_candidate [OF iL] by simp
      with upt_prefix_less [OF i(1)] inL [OF v(1)] have "scan_pos st v \<in> set pre" by auto
      from before [OF this] inL(2) [OF v(1)] v i(3) show False by simp
    qed
  qed (rule i(2))
qed

lemma select_next_none:
  assumes "\<And>v. \<not> runnable st v"
  shows "select_next st = (if g_idle_id st \<ge> 0 \<and> tstate (g_tasks st ! nat (g_idle_id st)) = TASK_READY
     then g_idle_id st else -1)"
proof -
  have "foldl (select_step (g_tasks st) (g_current st) (g_idle_id st)) (-1, -1) [1..<Suc TASK_MAX] = (-1, -1)"
    using scanned_fold [of st "[1..<Suc TASK_MAX]"] assms unfolding scanned_def by blast
  then show ?thesis unfolding select_next_def by simp
qed

lemma select_next_ready:
  assumes "0 \<le> select_next st"
  shows "tstate (g_tasks st ! nat (select_next st)) = TASK_READY"
proof (cases "\<exists>u. runnable st u")
  case True
  then obtain u where "runnable st u" ..
  then obtain t where "select_next st = int t" "runnable st t" by (rule select_next_runnable)
  then show ?thesis by (simp add: runnable_def)
next
  case False
  with assms select_next_none [of st] show ?thesis by (auto split: if_splits)
qed

subsection \<open>Ageing\<close>

definition aged :: "int \<Rightarrow> nat \<Rightarrow> task_t \<Rightarrow> task_t" where
  "aged nxt i t = (if tstate t \<noteq> TASK_READY then t
     else if int i = nxt then t\<lparr>waiting := 0\<rparr> else t\<lparr>waiting := waiting t + 1\<rparr>)"

lemma length_upd_task [simp]: "length (g_tasks (upd_task i f st)) = length (g_tasks st)"
  by (simp add: upd_task_def)

lemma upd_task_nth [simp]:
  "i < length (g_tasks st) \<Longrightarrow>
   g_tasks (upd_task i f st) ! j = (if j = i then f (g_tasks st ! i) else g_tasks st ! j)"
  by (simp add: upd_task_def)

lemma upd_task_frame [simp]:
  "g_current (upd_task i f st) = g_current st" "g_idle_id (upd_task i f st) = g_idle_id st"
  "tmem (upd_task i f st) = tmem st" "wd (upd_task i f st) = wd st"
  by (simp_all add: upd_task_def)

lemma age_task_frame [simp]:
  "g_current (age_task n st i) = g_current st" "g_idle_id (age_task n st i) = g_idle_id st"
  "tmem (age_task n st i) = tmem st" "wd (age_task n st i) = wd st"
  "length (g_tasks (age_task n st i)) = length (g_tasks st)"
  by (simp_all add: age_task_def Let_def)

lemma age_task_nth:
  "i < length (g_tasks st) \<Longrightarrow>
   g_tasks (age_task n st i) ! j = (if j = i then aged n i (g_tasks st ! i) else g_tasks st ! j)"
  by (simp add: age_task_def aged_def Let_def)

lemma age_fold:
  fixes n :: int
  assumes "k \<le> length (g_tasks st)"
  defines "r \<equiv> foldl (age_task n) st [0..<k]"
  shows "length (g_tasks r) = length (g_tasks st) \<and> g_current r = g_current st \<and> g_idle_id r = g_idle_id st
     \<and> tmem r = tmem st \<and> wd r = wd st
     \<and> (\<forall>j. g_tasks r ! j = (if j < k then aged n j (g_tasks st ! j) else g_tasks st ! j))"
  using assms(1) unfolding r_def
proof (induction k)
  case (Suc k)
  then show ?case by (auto simp: age_task_nth less_Suc_eq)
qed simp

lemma age_tasks_frame:
  assumes "length (g_tasks st) = TASK_MAX"
  shows "length (g_tasks (age_tasks n st)) = TASK_MAX" "g_current (age_tasks n st) = g_current st"
    "g_idle_id (age_tasks n st) = g_idle_id st" "tmem (age_tasks n st) = tmem st" "wd (age_tasks n st) = wd st"
    "j < TASK_MAX \<Longrightarrow> g_tasks (age_tasks n st) ! j = aged n j (g_tasks st ! j)"
  using age_fold [of TASK_MAX st n] assms unfolding age_tasks_def by simp_all

lemma unat_credit: "unat (credit t) = min 4 (unat (waiting t) div 30)"
proof -
  have "unat (waiting t div 30) = unat (waiting t) div 30" by (simp add: unat_div)
  then show ?thesis by (simp add: credit_def Let_def word_less_nat_alt min_def)
qed

subsection \<open>The fairness invariant\<close>

text \<open>For a task that has waited \<open>w \<ge> 120\<close> decisions, ageing is at its cap. Every task that can still be
  preferred to it has itself waited at least 30 decisions, and being chosen resets that; so the number
  of tasks that have waited longer than \<open>w - 120\<close> falls by one at each further decision.\<close>

definition waited :: "sched \<Rightarrow> nat \<Rightarrow> nat" where
  "waited st t = unat (waiting (g_tasks st ! t))"

definition rivals :: "sched \<Rightarrow> nat \<Rightarrow> nat set" where
  "rivals st t = {i. i < TASK_MAX \<and> i \<noteq> t \<and> waited st i > waited st t - 120}"

definition fair :: "sched \<Rightarrow> nat \<Rightarrow> bool" where
  "fair st t \<longleftrightarrow> (waited st t \<ge> 120 \<longrightarrow> card (rivals st t) + (waited st t - 120) \<le> 12)"

definition sched_ok :: "sched \<Rightarrow> bool" where
  "sched_ok st \<longleftrightarrow> length (g_tasks st) = TASK_MAX
     \<and> -1 \<le> g_current st \<and> g_current st < int TASK_MAX \<and> g_idle_id st < int TASK_MAX
     \<and> (\<forall>t < TASK_MAX. prio (g_tasks st ! t) \<le> 3 \<and> base_prio (g_tasks st ! t) \<le> 3)
     \<and> (0 \<le> g_current st \<longrightarrow> waited st (nat (g_current st)) = 0)
     \<and> (\<forall>t < TASK_MAX. int t \<noteq> g_idle_id st \<longrightarrow>
          fair st t \<and> (tstate (g_tasks st ! t) \<noteq> TASK_READY \<longrightarrow> waited st t = 0))"

lemma finite_rivals [simp]: "finite (rivals st t)"
  by (simp add: rivals_def)

lemma card_rivals: "t < TASK_MAX \<Longrightarrow> card (rivals st t) \<le> 12"
proof -
  assume t: "t < TASK_MAX"
  have "rivals st t \<subseteq> {..<13} - {t}" by (auto simp: rivals_def)
  then have "card (rivals st t) \<le> card ({..<13} - {t})" by (intro card_mono) auto
  with t show ?thesis by simp
qed

lemma fair_bound: "fair st t \<Longrightarrow> waited st t \<le> 132"
  by (auto simp: fair_def)

lemma fair_small: "waited st t < 120 \<Longrightarrow> fair st t"
  by (simp add: fair_def)

text \<open>An operation outside a decision: no task's wait grows, and only the running task may stop being
  ready.\<close>

definition gentle_task :: "bool \<Rightarrow> task_t \<Rightarrow> task_t \<Rightarrow> bool" where
  "gentle_task running t t' \<longleftrightarrow> (waiting t' = waiting t \<or> waiting t' = 0 \<and> tstate t = TASK_UNUSED)
     \<and> (tstate t' = TASK_UNUSED \<longrightarrow> tstate t = TASK_UNUSED)
     \<and> (prio t \<le> 3 \<and> base_prio t \<le> 3 \<longrightarrow> prio t' \<le> 3 \<and> base_prio t' \<le> 3)
     \<and> (tstate t' \<noteq> TASK_READY \<longrightarrow> tstate t \<noteq> TASK_READY \<or> running)"

definition gentle :: "sched \<Rightarrow> sched \<Rightarrow> bool" where
  "gentle st st' \<longleftrightarrow> length (g_tasks st') = length (g_tasks st) \<and> g_current st' = g_current st \<and> g_idle_id st' = g_idle_id st
     \<and> (\<forall>i < TASK_MAX. gentle_task (int i = g_current st) (g_tasks st ! i) (g_tasks st' ! i))"

lemma gentle_task_refl [simp]: "gentle_task r t t"
  by (simp add: gentle_task_def)

lemma gentle_task_trans: "gentle_task r a b \<Longrightarrow> gentle_task r b c \<Longrightarrow> gentle_task r a c"
  unfolding gentle_task_def by (elim conjE) metis

lemma gentle_waited:
  "gentle st st' \<Longrightarrow> i < TASK_MAX \<Longrightarrow> waited st' i = waited st i \<or> waited st' i = 0"
  by (auto simp: gentle_def gentle_task_def waited_def)

lemma gentle_fair:
  assumes g: "gentle st st'" and t: "t < TASK_MAX" and f: "fair st t"
  shows "fair st' t"
  using gentle_waited [OF g t]
proof
  assume w: "waited st' t = waited st t"
  have "rivals st' t \<subseteq> rivals st t" using gentle_waited [OF g] w by (fastforce simp: rivals_def)
  then have "card (rivals st' t) \<le> card (rivals st t)" by (intro card_mono) auto
  with f w show ?thesis by (auto simp: fair_def)
qed (simp add: fair_def)

lemma gentle_ok: "gentle st st' \<Longrightarrow> sched_ok st \<Longrightarrow> sched_ok st'"
proof -
  assume g: "gentle st st'" and ok: "sched_ok st"
  have c: "g_current st' = g_current st" "g_idle_id st' = g_idle_id st" "length (g_tasks st') = length (g_tasks st)"
    using g by (auto simp: gentle_def)
  have p: "\<forall>t < TASK_MAX. prio (g_tasks st' ! t) \<le> 3 \<and> base_prio (g_tasks st' ! t) \<le> 3"
    using g ok by (simp add: gentle_def gentle_task_def sched_ok_def)
  have cur: "waited st' (nat (g_current st)) = 0" if "0 \<le> g_current st"
    using gentle_waited [OF g, of "nat (g_current st)"] ok that by (auto simp: sched_ok_def)
  have t: "fair st' t \<and> (tstate (g_tasks st' ! t) \<noteq> TASK_READY \<longrightarrow> waited st' t = 0)"
    if "t < TASK_MAX" "int t \<noteq> g_idle_id st" for t
  proof (intro conjI impI)
    show "fair st' t" using gentle_fair [OF g] ok that by (simp add: sched_ok_def)
    assume "tstate (g_tasks st' ! t) \<noteq> TASK_READY"
    with g that have "tstate (g_tasks st ! t) \<noteq> TASK_READY \<or> int t = g_current st"
      by (auto simp: gentle_def gentle_task_def)
    then have "waited st t = 0"
    proof
      assume "int t = g_current st"
      then show ?thesis using ok by (metis nat_int of_nat_0_le_iff sched_ok_def)
    qed (use ok that in \<open>simp add: sched_ok_def\<close>)
    then show "waited st' t = 0" using gentle_waited [OF g that(1)] by auto
  qed
  show ?thesis using ok c p cur t by (simp add: sched_ok_def)
qed

subsection \<open>Decisions\<close>

lemma gentle_trans: "gentle a b \<Longrightarrow> gentle b c \<Longrightarrow> gentle a c"
proof -
  assume g: "gentle a b" "gentle b c"
  have "gentle_task (int i = g_current a) (g_tasks a ! i) (g_tasks c ! i)" if "i < TASK_MAX" for i
    by (rule gentle_task_trans [where b = "g_tasks b ! i"]) (use g that in \<open>auto simp: gentle_def\<close>)
  with g show ?thesis by (simp add: gentle_def)
qed

lemma save_outgoing_frame:
  "g_current (save_outgoing csp now st) = g_current st" "g_idle_id (save_outgoing csp now st) = g_idle_id st"
  "g_tasks (save_outgoing csp now st) = g_tasks (upd_task (nat (g_current st)) (\<lambda>t. t\<lparr>sp := csp\<rparr>) st)"
  by (simp_all add: save_outgoing_def Let_def)

lemma gentle_save:
  "length (g_tasks st) = TASK_MAX \<Longrightarrow> g_current st < int TASK_MAX \<Longrightarrow> gentle st (save_outgoing csp now st)"
  by (auto simp: gentle_def gentle_task_def save_outgoing_frame)

lemma wake_task_frame [simp]:
  "waiting (wake_task now t) = waiting t" "prio (wake_task now t) = prio t" "base_prio (wake_task now t) = base_prio t"
  "stack_base (wake_task now t) = stack_base t"
  by (simp_all add: wake_task_def)

lemma gentle_wake_task: "gentle_task r t (wake_task now t)"
  by (auto simp: gentle_task_def wake_task_def)

lemma gentle_wake_sleepers: "length (g_tasks st) = TASK_MAX \<Longrightarrow> gentle st (wake_sleepers now st)"
  by (simp add: gentle_def wake_sleepers_def gentle_wake_task)

lemma gentle_slice: "gentle st (st\<lparr>g_slice_start := now\<rparr>)"
  by (simp add: gentle_def)

text \<open>The state a decision is taken in.\<close>

definition decision_state :: "u32 \<Rightarrow> u32 \<Rightarrow> u32 \<Rightarrow> sched \<Rightarrow> sched" where
  "decision_state now ticks csp st =
     wake_sleepers ticks ((if g_current st \<ge> 0 then save_outgoing csp now st else st)\<lparr>g_slice_start := now\<rparr>)"

lemma gentle_decision_state:
  "length (g_tasks st) = TASK_MAX \<Longrightarrow> g_current st < int TASK_MAX \<Longrightarrow> gentle st (decision_state now ticks csp st)"
  unfolding decision_state_def
  by (rule gentle_trans [OF gentle_trans [OF _ gentle_slice] gentle_wake_sleepers])
    (auto simp: gentle_save save_outgoing_frame gentle_def [of st st])

lemma switch_to_frame:
  "length (g_tasks st) = TASK_MAX \<Longrightarrow> n < TASK_MAX \<Longrightarrow> g_current (switch_to (int n) live st) = int n
     \<and> g_idle_id (switch_to (int n) live st) = g_idle_id st \<and> length (g_tasks (switch_to (int n) live st)) = TASK_MAX
     \<and> (\<forall>j. waiting (g_tasks (switch_to (int n) live st) ! j) = waiting (g_tasks st ! j)
          \<and> tstate (g_tasks (switch_to (int n) live st) ! j) = tstate (g_tasks st ! j)
          \<and> prio (g_tasks (switch_to (int n) live st) ! j) = prio (g_tasks st ! j)
          \<and> base_prio (g_tasks (switch_to (int n) live st) ! j) = base_prio (g_tasks st ! j))"
  by (auto simp: switch_to_def Let_def upd_task_def nth_list_update)

text \<open>What a decision does to the fields the next decision reads.\<close>

definition decided :: "nat \<Rightarrow> sched \<Rightarrow> sched \<Rightarrow> bool" where
  "decided n st st' \<longleftrightarrow> select_next st = int n \<and> n < TASK_MAX \<and> g_current st' = int n \<and> g_idle_id st' = g_idle_id st
     \<and> length (g_tasks st') = TASK_MAX
     \<and> (\<forall>j < TASK_MAX. tstate (g_tasks st' ! j) = tstate (g_tasks st ! j) \<and> prio (g_tasks st' ! j) = prio (g_tasks st ! j)
          \<and> base_prio (g_tasks st' ! j) = base_prio (g_tasks st ! j)
          \<and> waiting (g_tasks st' ! j) = waiting (aged (int n) j (g_tasks st ! j)))"

lemma aged_frame [simp]:
  "tstate (aged n j t) = tstate t" "prio (aged n j t) = prio t" "base_prio (aged n j t) = base_prio t"
  "stack_base (aged n j t) = stack_base t"
  by (simp_all add: aged_def)

lemma apply_pin_off: "apply_pin blob_pinned_task seq n st = (n, st\<lparr>g_blob_pin_ticks := 0\<rparr>)"
  by (simp add: apply_pin_def blob_pinned_task_def)

lemma select_next_range:
  assumes "0 \<le> select_next st" "g_idle_id st < int TASK_MAX"
  obtains n where "select_next st = int n" "n < TASK_MAX"
proof (cases "\<exists>u. runnable st u")
  case True
  then obtain u where "runnable st u" ..
  then obtain t where "select_next st = int t" "runnable st t" by (rule select_next_runnable)
  with that show thesis by (auto simp: runnable_def)
next
  case False
  with assms select_next_none [of st] that [of "nat (select_next st)"] show thesis by (auto split: if_splits)
qed

lemma task_schedule_eq:
  "task_schedule now ticks seq live csp st =
     (let d = decision_state now ticks csp st; n = select_next d in
      if n < 0 then Inr (csp, d)
      else let w = watchdog_liveness (n \<noteq> g_current (age_tasks n d)) (wd (age_tasks n d));
               s4 = (age_tasks n d)\<lparr>g_blob_pin_ticks := 0, wd := w\<rparr>
           in if 0 \<le> task_stack_broken s4 then Inl (Stack_guard_overwritten (task_stack_broken s4))
              else Inr (sp (g_tasks (switch_to n live s4) ! nat n), switch_to n live s4))"
  by (simp add: task_schedule_def decision_state_def Let_def apply_pin_off)

lemma task_schedule_Inr:
  assumes s: "task_schedule now ticks seq live csp st = Inr (r, st')" and ok: "sched_ok st"
  defines "d \<equiv> decision_state now ticks csp st"
  shows "select_next d < 0 \<and> st' = d \<or> (\<exists>n. decided n d st')"
proof (cases "select_next d < 0")
  case True
  then show ?thesis using s unfolding task_schedule_eq d_def by (auto simp: Let_def)
next
  case False
  have g: "gentle st d" using ok unfolding d_def by (intro gentle_decision_state) (auto simp: sched_ok_def)
  with ok have d: "length (g_tasks d) = TASK_MAX" "g_idle_id d < int TASK_MAX" by (auto simp: gentle_def sched_ok_def)
  with False obtain n where n: "select_next d = int n" "n < TASK_MAX" using select_next_range [of d] by auto
  define a where "a = age_tasks (int n) d"
  have a: "length (g_tasks a) = TASK_MAX" "g_idle_id a = g_idle_id d"
    "\<And>j. j < TASK_MAX \<Longrightarrow> g_tasks a ! j = aged (int n) j (g_tasks d ! j)"
    using age_tasks_frame [OF d(1), where n = "int n"] unfolding a_def by simp_all
  from s False n obtain w where "st' = switch_to (int n) live (a\<lparr>g_blob_pin_ticks := 0, wd := w\<rparr>)"
    unfolding task_schedule_eq d_def [symmetric] a_def by (auto simp: Let_def split: if_splits)
  with switch_to_frame [of "a\<lparr>g_blob_pin_ticks := 0, wd := w\<rparr>" n live] a n show ?thesis
    unfolding decided_def by auto
qed

lemma decided_waited:
  assumes "decided n st st'" "j < TASK_MAX"
  shows "waited st' j = (if tstate (g_tasks st ! j) \<noteq> TASK_READY then waited st j
      else if j = n then 0 else unat (waiting (g_tasks st ! j) + 1))"
  using assms by (auto simp: decided_def waited_def aged_def)

lemma decided_le: "decided n st st' \<Longrightarrow> j < TASK_MAX \<Longrightarrow> waited st' j \<le> waited st j + 1"
  using unat_Suc_le [of "waiting (g_tasks st ! j)"] decided_waited [of n st st' j] by (auto simp: waited_def)

lemma decided_fair:
  assumes ok: "sched_ok st" and d: "decided n st st'" and t: "t < TASK_MAX" "int t \<noteq> g_idle_id st"
  shows "fair st' t"
proof (cases "runnable st t \<and> t \<noteq> n \<and> waited st t \<ge> 120")
  case False
  have f: "fair st t" "tstate (g_tasks st ! t) \<noteq> TASK_READY \<Longrightarrow> waited st t = 0" using ok t by (auto simp: sched_ok_def)
  have "waited st' t \<le> 120" "waited st' t < 120 \<or> waited st t = 119"
    using False t f decided_waited [OF d t(1)] unat_Suc_le [of "waiting (g_tasks st ! t)"]
    by (auto simp: runnable_def waited_def)
  then show ?thesis using card_rivals [OF t(1), of st'] by (auto simp: fair_def)
next
  case True
  then have run: "runnable st t" and tn: "t \<noteq> n" and w: "waited st t \<ge> 120" by auto
  have f: "fair st t" using ok t by (simp add: sched_ok_def)
  from fair_bound [OF f] have w': "waited st' t = waited st t + 1"
    using run tn decided_waited [OF d t(1)] by (simp add: runnable_def waited_def unat_add_u32)
  from run obtain u where u: "select_next st = int u" "runnable st u"
    "\<And>v. runnable st v \<Longrightarrow> task_eff st v \<le> task_eff st u" by (rule select_next_runnable) blast
  with d have un: "u = n" by (simp add: decided_def)
  have u13: "u < TASK_MAX" using u(2) by (simp add: runnable_def)
  have "4 \<le> task_eff st t" using w by (simp add: eff_def unat_credit waited_def)
  with u(3) [OF run] have "4 \<le> task_eff st u" by simp
  moreover have "unat (prio (g_tasks st ! u)) \<le> 3" using ok u13 by (simp add: sched_ok_def word_le_nat_alt)
  ultimately have "1 \<le> unat (credit (g_tasks st ! u))" unfolding eff_def by linarith
  then have "1 \<le> unat (waiting (g_tasks st ! u)) div 30" by (simp add: unat_credit)
  then have u30: "30 \<le> waited st u" by (simp add: waited_def div_greater_zero_iff)
  have un0: "waited st' u = 0" using decided_waited [OF d u13] u(2) un by (simp add: runnable_def)
  have sub: "rivals st' t \<subseteq> rivals st t - {u}"
  proof
    fix i assume i: "i \<in> rivals st' t"
    then have "i \<noteq> u" using un0 by (auto simp: rivals_def)
    with i decided_le [OF d, of i] w w' show "i \<in> rivals st t - {u}" by (auto simp: rivals_def)
  qed
  have uin: "u \<in> rivals st t" using u30 fair_bound [OF f] tn un u13 by (auto simp: rivals_def)
  have "card (rivals st' t) \<le> card (rivals st t - {u})" using sub by (intro card_mono) auto
  also have "\<dots> = card (rivals st t) - 1" using uin by simp
  finally have "card (rivals st' t) + 1 \<le> card (rivals st t)" using uin card_gt_0_iff [of "rivals st t"] by auto
  with f w w' show ?thesis by (simp add: fair_def)
qed

lemma decided_ok: "decided n st st' \<Longrightarrow> sched_ok st \<Longrightarrow> sched_ok st'"
proof -
  assume d: "decided n st st'" and ok: "sched_ok st"
  have cur: "waited st' n = 0"
    using decided_waited [OF d, of n] select_next_ready [of st] d by (simp add: decided_def)
  have p: "\<forall>t < TASK_MAX. prio (g_tasks st' ! t) \<le> 3 \<and> base_prio (g_tasks st' ! t) \<le> 3"
    using d ok by (simp add: decided_def sched_ok_def)
  have t: "fair st' t \<and> (tstate (g_tasks st' ! t) \<noteq> TASK_READY \<longrightarrow> waited st' t = 0)"
    if "t < TASK_MAX" "int t \<noteq> g_idle_id st" for t
    using decided_fair [OF ok d that] decided_waited [OF d that(1)] d ok that by (simp add: decided_def sched_ok_def)
  show ?thesis using d ok cur p t by (simp add: decided_def sched_ok_def)
qed

subsection \<open>Histories of the table\<close>

text \<open>Everything that happens to the table between two decisions: the running task blocks, arms, sleeps
  or resumes a sleep; tasks and interrupt handlers unblock, wake, create and re-prioritise others;
  memory changes. \<open>task_boost\<close> has no caller in the kernel; it stores its argument unchecked, so a
  boost is to one of the four levels.\<close>

inductive sched_op :: "sched \<Rightarrow> sched \<Rightarrow> bool" where
  op_block: "sched_op st (task_block st)"
| op_unblock: "sched_op st (task_unblock i st)"
| op_wake: "sched_op st (task_wake i st)"
| op_set_priority: "sched_op st (task_set_priority i p st)"
| op_boost: "p < TASK_PRIO_LEVELS \<Longrightarrow> sched_op st (task_boost i p st)"
| op_unboost: "sched_op st (task_unboost i st)"
| op_arm: "sched_op st (task_arm_wake st)"
| op_sleep_armed: "sched_op st (snd (snd (task_sleep_armed n now st)))"
| op_sleep: "sched_op st (snd (snd (task_sleep n now st)))"
| op_sleep_round: "0 \<le> g_current st \<Longrightarrow> sched_op st (snd (sleep_round due now st))"
| op_create: "sched_op st (snd (task_create_with_stack stacks ce ps wb nm entry stk n st))"
| op_hist_reset: "sched_op st (task_wait_hist_reset st)"
| op_memory: "sched_op st (st\<lparr>tmem := m\<rparr>)"

inductive sched_step :: "sched \<Rightarrow> sched \<Rightarrow> bool" where
  step_op: "sched_op st st' \<Longrightarrow> sched_step st st'"
| step_decide: "task_schedule now ticks seq live csp st = Inr (r, st') \<Longrightarrow> sched_step st st'"

definition task_zero :: task_t where
  "task_zero = \<lparr>sp = 0, tstate = TASK_UNUSED, prio = 0, base_prio = 0, wake_tick = 0, woken = False,
     switches = 0, resumes = 0, waiting = 0, tname = [], stack_base = 0, stack_words = 0\<rparr>"

definition sched_boot :: "sched \<Rightarrow> bool" where
  "sched_boot st \<longleftrightarrow> g_tasks st = replicate TASK_MAX task_zero \<and> g_current st = -1 \<and> g_idle_id st < int TASK_MAX"

lemma gentle_upd:
  "sched_ok st \<Longrightarrow> i < TASK_MAX \<Longrightarrow> gentle_task (int i = g_current st) (g_tasks st ! i) (f (g_tasks st ! i)) \<Longrightarrow>
   gentle st (upd_task i f st)"
  by (simp add: gentle_def sched_ok_def)

lemma gentle_refl [simp]: "gentle st st"
  by (simp add: gentle_def)

lemma gentle_other:
  "g_tasks st' = g_tasks st \<Longrightarrow> g_current st' = g_current st \<Longrightarrow> g_idle_id st' = g_idle_id st \<Longrightarrow> gentle st st'"
  by (simp add: gentle_def)

lemma sched_ok_current: "sched_ok st \<Longrightarrow> 0 \<le> g_current st \<Longrightarrow> nat (g_current st) < TASK_MAX \<and> int (nat (g_current st)) = g_current st"
  by (auto simp: sched_ok_def)

lemma level_u8: "0 \<le> p \<Longrightarrow> p < 4 \<Longrightarrow> (of_int p :: u8) \<le> 3"
proof -
  assume "0 \<le> p" "p < (4 :: int)"
  then consider "p = 0" | "p = 1" | "p = 2" | "p = 3" by linarith
  then show ?thesis by cases simp_all
qed

lemma gentle_wake: "sched_ok st \<Longrightarrow> gentle st (task_wake i st)"
proof (cases "i < 0 \<or> i \<ge> int TASK_MAX")
  case False
  assume ok: "sched_ok st"
  from False have i: "nat i < TASK_MAX" by auto
  let ?a = "if tstate (g_tasks st ! nat i) \<noteq> TASK_UNUSED then upd_task (nat i) (\<lambda>t. t\<lparr>woken := True\<rparr>) st else st"
  have a: "gentle st ?a" using ok i by (auto intro!: gentle_upd simp: gentle_task_def)
  then have ok': "sched_ok ?a" using gentle_ok ok by blast
  show ?thesis unfolding task_wake_def Let_def using False a gentle_upd [OF ok' i, of "\<lambda>t. t\<lparr>tstate := TASK_READY\<rparr>"]
    by (auto intro!: gentle_trans [OF a] simp: gentle_task_def simp del: upd_task_nth)
qed (auto simp: task_wake_def)

lemma gentle_set_priority: "sched_ok st \<Longrightarrow> gentle st (task_set_priority i p st)"
  by (auto simp: task_set_priority_def Let_def gentle_task_def intro!: gentle_upd level_u8)

lemma gentle_boost: "sched_ok st \<Longrightarrow> p < 4 \<Longrightarrow> gentle st (task_boost i p st)"
  using order_le_less_trans [OF of_nat_0_le_iff, of "unat (prio (g_tasks st ! nat i))" p]
  by (auto simp: task_boost_def gentle_task_def intro!: gentle_upd level_u8)

lemma gentle_sleep_round: "sched_ok st \<Longrightarrow> 0 \<le> g_current st \<Longrightarrow> gentle st (snd (sleep_round due now st))"
  using sched_ok_current [of st] by (auto simp: sleep_round_def Let_def gentle_task_def intro!: gentle_upd)

lemma gentle_arm: "sched_ok st \<Longrightarrow> gentle st (task_arm_wake st)"
  using sched_ok_current [of st] by (auto simp: task_arm_wake_def gentle_task_def intro!: gentle_upd)

lemma gentle_sleep_armed: "sched_ok st \<Longrightarrow> gentle st (snd (snd (task_sleep_armed n now st)))"
proof (cases "g_current st < 0")
  case False
  assume ok: "sched_ok st"
  obtain due s1 where d: "sleep_deadline n now st = (due, s1)" by (cases "sleep_deadline n now st")
  then have g: "gentle st s1" by (auto simp: sleep_deadline_def Let_def intro!: gentle_other split: if_splits)
  have "gentle s1 (snd (sleep_round due now s1))"
    using gentle_sleep_round [OF gentle_ok [OF g ok]] g False by (simp add: gentle_def)
  from gentle_trans [OF g this] show ?thesis
    using False d by (auto simp: task_sleep_armed_def split: prod.split)
qed (simp add: task_sleep_armed_def)

lemma unused_slot_Some:
  "unused_slot ts k = Some i \<Longrightarrow> k \<le> i \<and> i < k + length ts \<and> tstate (ts ! (i - k)) = TASK_UNUSED"
  by (induction ts k rule: unused_slot.induct) (auto simp: nth_Cons' split: if_splits)

lemma gentle_upd_mem:
  "sched_ok st \<Longrightarrow> i < TASK_MAX \<Longrightarrow> gentle_task (int i = g_current st) (g_tasks st ! i) (f (g_tasks st ! i)) \<Longrightarrow>
   gentle st ((upd_task i f st)\<lparr>tmem := m, g_term_addr := a, g_term_val := v\<rparr>)"
  using gentle_upd [of st i f] by (simp add: gentle_def)

lemma gentle_create: "sched_ok st \<Longrightarrow> gentle st (snd (task_create_with_stack stacks ce ps wb nm entry stk n st))"
proof -
  assume ok: "sched_ok st"
  show ?thesis
  proof (cases "unused_slot (g_tasks st) 0")
    case None
    then show ?thesis by (simp add: task_create_with_stack_def)
  next
    case (Some i)
    with unused_slot_Some ok have i: "i < TASK_MAX" "tstate (g_tasks st ! i) = TASK_UNUSED"
      by (fastforce simp: sched_ok_def)+
    with Some ok show ?thesis
      by (auto simp: task_create_with_stack_def Let_def gentle_task_def intro!: gentle_upd_mem)
  qed
qed

lemma sched_op_gentle: "sched_op st st' \<Longrightarrow> sched_ok st \<Longrightarrow> gentle st st'"
proof (induction rule: sched_op.induct)
  case (op_block st)
  then show ?case using sched_ok_current [of st] by (auto simp: task_block_def gentle_task_def intro!: gentle_upd)
next
  case (op_sleep st n now)
  from gentle_trans [OF gentle_arm [OF op_sleep] gentle_sleep_armed [OF gentle_ok [OF gentle_arm [OF op_sleep] op_sleep]]]
  show ?case by (simp add: task_sleep_def)
next
  case (op_unblock st i)
  then show ?case by (auto simp: task_unblock_def gentle_task_def intro!: gentle_upd)
next
  case (op_unboost st i)
  then show ?case by (auto simp: task_unboost_def gentle_task_def intro!: gentle_upd)
qed (simp_all add: task_wait_hist_reset_def gentle_other gentle_wake gentle_set_priority gentle_boost
    gentle_arm gentle_sleep_armed gentle_sleep_round gentle_create)

lemma sched_step_ok: "sched_step st st' \<Longrightarrow> sched_ok st \<Longrightarrow> sched_ok st'"
proof (induction rule: sched_step.induct)
  case (step_op st st')
  then show ?case using gentle_ok sched_op_gentle by blast
next
  case (step_decide now ticks seq live csp st r st')
  have "gentle st (decision_state now ticks csp st)"
    using step_decide.prems by (intro gentle_decision_state) (auto simp: sched_ok_def)
  from gentle_ok [OF this step_decide.prems] task_schedule_Inr [OF step_decide] decided_ok show ?case by blast
qed

interpretation sched_sys: invariant_system sched_boot sched_step sched_ok
proof
  fix st assume b: "sched_boot st"
  then have "waited st t = 0" "prio (g_tasks st ! t) = 0" "base_prio (g_tasks st ! t) = 0" if "t < TASK_MAX" for t
    using that by (simp_all add: sched_boot_def waited_def task_zero_def)
  with b show "sched_ok st" by (auto simp: sched_boot_def sched_ok_def fair_small)
qed (rule sched_step_ok)

subsection \<open>Being passed over\<close>

text \<open>\<open>passed_over t st n st'\<close>: from \<open>st\<close> to \<open>st'\<close> task \<open>t\<close> stayed ready while \<open>n\<close> scheduling decisions were
  taken, with any operations in between, and none of the decisions chose it.\<close>

inductive passed_over :: "nat \<Rightarrow> sched \<Rightarrow> nat \<Rightarrow> sched \<Rightarrow> bool" for t st where
  over_start: "runnable st t \<Longrightarrow> passed_over t st 0 st"
| over_op: "passed_over t st n s1 \<Longrightarrow> sched_op s1 s2 \<Longrightarrow> runnable s2 t \<Longrightarrow> passed_over t st n s2"
| over_decide: "passed_over t st n s1 \<Longrightarrow> task_schedule now ticks seq live csp s1 = Inr (r, s2) \<Longrightarrow>
    g_current s2 \<noteq> int t \<Longrightarrow> passed_over t st (Suc n) s2"

lemma runnable_decision_state:
  assumes "sched_ok st" "runnable st t"
  shows "runnable (decision_state now ticks csp st) t" "waited (decision_state now ticks csp st) t = waited st t"
proof -
  have c: "0 \<le> g_current st \<Longrightarrow> nat (g_current st) < length (g_tasks st)" "t < length (g_tasks st)"
    using assms by (auto simp: sched_ok_def runnable_def)
  then have "tstate (g_tasks (decision_state now ticks csp st) ! t) = TASK_READY"
    "waiting (g_tasks (decision_state now ticks csp st) ! t) = waiting (g_tasks st ! t)"
    "g_idle_id (decision_state now ticks csp st) = g_idle_id st"
    using assms(2) by (auto simp: decision_state_def wake_sleepers_def save_outgoing_frame wake_task_def runnable_def)
  with assms(2) show "runnable (decision_state now ticks csp st) t" "waited (decision_state now ticks csp st) t = waited st t"
    by (simp_all add: runnable_def waited_def)
qed

lemma schedule_runnable:
  assumes ok: "sched_ok st" and run: "runnable st t" and s: "task_schedule now ticks seq live csp st = Inr (r, st')"
  obtains n where "decided n (decision_state now ticks csp st) st'"
proof -
  let ?d = "decision_state now ticks csp st"
  from runnable_decision_state [OF ok run] have "runnable ?d t" by blast
  then obtain u where "select_next ?d = int u" by (rule select_next_runnable)
  with task_schedule_Inr [OF s ok] that show thesis by auto
qed

lemma passed_over_inv:
  assumes "passed_over t st n st'" "sched_ok st"
  shows "sched_ok st' \<and> runnable st' t \<and> n \<le> waited st' t"
  using assms
proof (induction rule: passed_over.induct)
  case (over_op n s1 s2)
  then have ok: "sched_ok s1" and run: "runnable s1 t" and le: "n \<le> waited s1 t" by blast+
  from sched_op_gentle [OF over_op.hyps(2) ok] have g: "gentle s1 s2" .
  with run have "waited s2 t = waited s1 t" by (auto simp: gentle_def gentle_task_def runnable_def waited_def)
  with gentle_ok [OF g ok] over_op.hyps(3) le show ?case by simp
next
  case (over_decide n s1 now ticks seq live csp r s2)
  then have ok: "sched_ok s1" and run: "runnable s1 t" and le: "n \<le> waited s1 t" by blast+
  let ?d = "decision_state now ticks csp s1"
  note rd = runnable_decision_state [OF ok run, of now ticks csp]
  from schedule_runnable [OF ok run over_decide.hyps(2)] obtain k where d: "decided k ?d s2" .
  from rd(1) have t: "t < TASK_MAX" "tstate (g_tasks ?d ! t) = TASK_READY" "int t \<noteq> g_idle_id s1"
    using run by (auto simp: runnable_def)
  have "fair s1 t" using ok run by (simp add: sched_ok_def runnable_def)
  then have "waited ?d t + 1 < 4294967296" using fair_bound rd(2) by fastforce
  moreover have "t \<noteq> k" using d over_decide.hyps(3) by (auto simp: decided_def)
  ultimately have "waited s2 t = waited s1 t + 1"
    using decided_waited [OF d t(1)] t(2) rd(2) by (simp add: waited_def unat_add_u32)
  moreover have "runnable s2 t" using d rd(1) by (simp add: decided_def runnable_def)
  moreover have "sched_ok s2" using sched_step_ok [OF step_decide [OF over_decide.hyps(2)] ok] .
  ultimately show ?case using le by simp
qed simp_all

subsection \<open>Decisions return\<close>

lemma broken_loop_cong: "map stack_base ts = map stack_base ts' \<Longrightarrow> broken_loop m ts i = broken_loop m ts' i"
proof (induction m ts i arbitrary: ts' rule: broken_loop.induct)
  case (2 m t ts i)
  then show ?case by (cases ts') auto
qed simp

lemma upd_task_stack_base:
  assumes "\<And>t. stack_base (f t) = stack_base t"
  shows "map stack_base (g_tasks (upd_task i f st)) = map stack_base (g_tasks st)"
proof (cases "i < length (g_tasks st)")
  case True
  then show ?thesis by (intro nth_equalityI) (simp_all add: upd_task_def nth_list_update assms)
qed (simp add: upd_task_def list_update_beyond)

lemma decision_state_frame:
  assumes "sched_ok st"
  shows "map stack_base (g_tasks (decision_state now ticks csp st)) = map stack_base (g_tasks st)"
    "tmem (decision_state now ticks csp st) = tmem st" "length (g_tasks (decision_state now ticks csp st)) = TASK_MAX"
proof -
  have t: "tmem (save_outgoing csp now st) = tmem st" by (simp add: save_outgoing_def Let_def)
  show "map stack_base (g_tasks (decision_state now ticks csp st)) = map stack_base (g_tasks st)"
    by (simp add: decision_state_def wake_sleepers_def save_outgoing_frame comp_def upd_task_stack_base)
  show "tmem (decision_state now ticks csp st) = tmem st" by (simp add: decision_state_def wake_sleepers_def t)
  show "length (g_tasks (decision_state now ticks csp st)) = TASK_MAX"
    using assms by (simp add: decision_state_def wake_sleepers_def save_outgoing_frame sched_ok_def)
qed

lemma task_schedule_returns:
  assumes ok: "sched_ok st" and b: "task_stack_broken st = -1"
  obtains r st' where "task_schedule now ticks seq live csp st = Inr (r, st')"
proof -
  let ?d = "decision_state now ticks csp st"
  note d = decision_state_frame [OF ok, of now ticks csp]
  have "map stack_base (g_tasks (age_tasks n ?d)) = map stack_base (g_tasks ?d)" for n
    by (rule nth_equalityI) (simp_all add: age_tasks_frame [OF d(3)] d(3))
  then have "broken_loop (tmem st) (g_tasks (age_tasks n ?d)) 0 = broken_loop (tmem st) (g_tasks st) 0" for n
    by (intro broken_loop_cong) (simp only: d(1))
  with b have "task_stack_broken ((age_tasks n ?d)\<lparr>g_blob_pin_ticks := 0, wd := w\<rparr>) = -1" for n w
    by (simp add: task_stack_broken_def age_tasks_frame [OF d(3)] d(2))
  then have "\<exists>r st'. task_schedule now ticks seq live csp st = Inr (r, st')" by (simp add: task_schedule_eq Let_def)
  with that show thesis by blast
qed

subsection \<open>Example states\<close>

definition guard_mem :: memory where
  "guard_mem x = (if x AND 3 = 0 then 0xDE else if x AND 3 = 1 then 0xC0 else if x AND 3 = 2 then 0xAC else 0x57)"

definition sched_zero :: sched where
  "sched_zero = \<lparr>g_tasks = replicate 13 task_zero, g_current = -1, g_idle_id = -1, g_run_cycles = replicate 13 0,
     g_slice_start = 0, g_max_wait = 0, g_wait_hist = replicate 8 0, g_age_rescues = 0, g_blob_pin_ticks = 0,
     pin_last_seq = 0, g_sleep_clamped = 0, g_win_mask = replicate 13 0, g_win_base = replicate 13 0,
     g_win_union = 0, g_win_disowned = False, g_disown_hits = 0, g_multiframe_count = 0, g_multiframe_worst = 0,
     g_multiframe_ws = 0, g_multiframe_task = -1, g_term_addr = replicate 13 0, g_term_val = replicate 13 0,
     wd = \<lparr>wd_ticks = 0, wd_seen = 0, g_feeds = 0, g_starved = 0\<rparr>, tmem = guard_mem\<rparr>"

text \<open>Two tasks, one at the audio level and one at the lowest.\<close>

definition sched_duo :: sched where
  "sched_duo = task_set_priority 1 0 (task_set_priority 0 3
     ((snd (task_create_with_stack 0 0 0 0 [] 0x400 0x3000 64
       (snd (task_create_with_stack 0 0 0 0 [] 0x500 0x2000 64 sched_zero))))\<lparr>tmem := guard_mem\<rparr>))"

lemma sched_zero_reaches: "reaches sched_boot sched_step sched_zero"
  by (rule reaches_start) (simp add: sched_boot_def sched_zero_def)

lemma sched_duo_reaches: "reaches sched_boot sched_step sched_duo"
  unfolding sched_duo_def
  by (intro reaches_step [where step = sched_step, OF _ step_op [OF op_set_priority]]
      reaches_step [where step = sched_step, OF _ step_op [OF op_memory]]
      reaches_step [where step = sched_step, OF _ step_op [OF op_create]] sched_zero_reaches)

text \<open>What creation does to the table, its memory aside.\<close>

definition created_task :: "cstring \<Rightarrow> u32 \<Rightarrow> u32 \<Rightarrow> task_t \<Rightarrow> task_t" where
  "created_task nm stk n t = t\<lparr>sp := ((stk + 4 * n) AND NOT 15) - 16 - 160, tstate := TASK_READY, prio := 1,
     base_prio := 1, wake_tick := 0, woken := False, switches := 0, waiting := 0, tname := nm,
     stack_base := stk, stack_words := n\<rparr>"

lemma create_table:
  fixes stacks ce ps wb entry :: u32 and nm :: cstring
  assumes "unused_slot (g_tasks st) 0 = Some i" "stk \<noteq> 0" "31 \<le> n"
  defines "r \<equiv> task_create_with_stack stacks ce ps wb nm entry stk n st"
  shows "fst r = int i" "g_tasks (snd r) = (g_tasks st)[i := created_task nm stk n (g_tasks st ! i)]"
    "g_current (snd r) = g_current st" "g_idle_id (snd r) = g_idle_id st"
    "tmem (snd r) = build_terminator ((stk + 4 * n) AND NOT 15) ce
       (build_frame (((stk + 4 * n) AND NOT 15) - 16 - 160) entry ps wb
         (poke32 (fill_words (tmem st) stk (unat n) STACK_FILL) stk STACK_GUARD))"
proof -
  have "\<not> n < 31" using assms(3) by simp
  then show "fst r = int i" "g_tasks (snd r) = (g_tasks st)[i := created_task nm stk n (g_tasks st ! i)]"
    "g_current (snd r) = g_current st" "g_idle_id (snd r) = g_idle_id st"
    "tmem (snd r) = build_terminator ((stk + 4 * n) AND NOT 15) ce
       (build_frame (((stk + 4 * n) AND NOT 15) - 16 - 160) entry ps wb
         (poke32 (fill_words (tmem st) stk (unat n) STACK_FILL) stk STACK_GUARD))"
    by (simp_all add: r_def task_create_with_stack_def assms(1,2) Let_def upd_task_def created_task_def)
qed

lemma sched_duo_tasks:
  "g_tasks sched_duo = [(created_task [] 0x2000 64 task_zero)\<lparr>base_prio := 3, prio := 3\<rparr>,
     (created_task [] 0x3000 64 task_zero)\<lparr>base_prio := 0, prio := 0\<rparr>] @ replicate 11 task_zero"
  "g_current sched_duo = -1" "g_idle_id sched_duo = -1" "tmem sched_duo = guard_mem"
proof -
  let ?a = "snd (task_create_with_stack 0 0 0 0 [] 0x500 0x2000 64 sched_zero)"
  let ?b = "snd (task_create_with_stack 0 0 0 0 [] 0x400 0x3000 64 ?a)"
  have rep: "replicate 13 task_zero = task_zero # replicate 12 task_zero"
    "replicate 12 task_zero = task_zero # replicate 11 task_zero" by (simp_all add: numeral_eq_Suc)
  have z: "g_tasks sched_zero = replicate 13 task_zero" "unused_slot (g_tasks sched_zero) 0 = Some 0"
    "g_current sched_zero = -1" "g_idle_id sched_zero = -1"
    by (simp_all add: sched_zero_def task_zero_def numeral_eq_Suc)
  have a: "g_tasks ?a = created_task [] 0x2000 64 task_zero # replicate 12 task_zero"
    "g_current ?a = -1" "g_idle_id ?a = -1"
    using create_table(2-4) [OF z(2), of "0x2000" 64 0 0 0 0 "[]" "0x500"] by (simp_all add: z rep)
  have u: "unused_slot (g_tasks ?a) 0 = Some 1"
    unfolding a rep by (simp add: created_task_def task_zero_def)
  have b: "g_tasks ?b = [created_task [] 0x2000 64 task_zero, created_task [] 0x3000 64 task_zero] @ replicate 11 task_zero"
    "g_current ?b = -1" "g_idle_id ?b = -1"
    using create_table(2-4) [OF u, of "0x3000" 64 0 0 0 0 "[]" "0x400"] a by (simp_all add: rep)
  show "g_tasks sched_duo = [(created_task [] 0x2000 64 task_zero)\<lparr>base_prio := 3, prio := 3\<rparr>,
     (created_task [] 0x3000 64 task_zero)\<lparr>base_prio := 0, prio := 0\<rparr>] @ replicate 11 task_zero"
    "g_current sched_duo = -1" "g_idle_id sched_duo = -1" "tmem sched_duo = guard_mem"
    unfolding sched_duo_def by (simp_all add: task_set_priority_def Let_def upd_task_def b)
qed

text \<open>\<open>duo k\<close>: the audio-level task of the example runs, stays ready, and the other has been passed over
  \<open>k\<close> times.\<close>

definition duo :: "nat \<Rightarrow> sched \<Rightarrow> bool" where
  "duo k st \<longleftrightarrow> sched_ok st \<and> g_idle_id st = -1 \<and> task_stack_broken st = -1
     \<and> runnable st 0 \<and> prio (g_tasks st ! 0) = 3 \<and> waited st 0 = 0 \<and> (k = 0 \<or> g_current st = 0)
     \<and> runnable st 1 \<and> prio (g_tasks st ! 1) = 0 \<and> waited st 1 = k
     \<and> (\<forall>i. 2 \<le> i \<and> i < TASK_MAX \<longrightarrow> tstate (g_tasks st ! i) = TASK_UNUSED)"

lemma broken_step:
  assumes "task_schedule now ticks seq live csp st = Inr (r, st')" "task_stack_broken st = -1" "sched_ok st"
  shows "task_stack_broken st' = -1"
proof -
  let ?d = "decision_state now ticks csp st"
  note d = decision_state_frame [OF assms(3), of now ticks csp]
  have sw: "map stack_base (g_tasks (switch_to n live s)) = map stack_base (g_tasks s)" "tmem (switch_to n live s) = tmem s"
    for n s by (simp_all add: switch_to_def Let_def upd_task_stack_base)
  have ag: "map stack_base (g_tasks (age_tasks n ?d)) = map stack_base (g_tasks ?d)" for n
    by (rule nth_equalityI) (simp_all add: age_tasks_frame [OF d(3)] d(3))
  have "map stack_base (g_tasks st') = map stack_base (g_tasks st) \<and> tmem st' = tmem st"
    using assms(1) unfolding task_schedule_eq
    by (auto simp: Let_def sw age_tasks_frame [OF d(3)] ag decision_state_frame [OF assms(3)] split: if_splits)
  then show ?thesis using assms(2) broken_loop_cong [of "g_tasks st'" "g_tasks st"] by (simp add: task_stack_broken_def)
qed

lemma duo_step:
  assumes "duo k st" "k < 90"
  obtains r st' where "task_schedule 0 0 0 0 0 st = Inr (r, st')" "duo (Suc k) st'"
proof -
  from assms have ok: "sched_ok st" and b: "task_stack_broken st = -1" and run: "runnable st 0" "runnable st 1"
    by (auto simp: duo_def)
  obtain r st' where s: "task_schedule 0 0 0 0 0 st = Inr (r, st')" by (rule task_schedule_returns [OF ok b])
  let ?d = "decision_state 0 0 0 st"
  from schedule_runnable [OF ok run(1) s] obtain n where d: "decided n ?d st'" .
  have c: "0 \<le> g_current st \<Longrightarrow> nat (g_current st) < length (g_tasks st)" "length (g_tasks st) = 13"
    using ok by (auto simp: sched_ok_def)
  have t: "prio (g_tasks ?d ! i) = prio (g_tasks st ! i)" "waiting (g_tasks ?d ! i) = waiting (g_tasks st ! i)"
    "tstate (g_tasks st ! i) = TASK_UNUSED \<longrightarrow> tstate (g_tasks ?d ! i) = TASK_UNUSED" if "i < TASK_MAX" for i
    using c that by (auto simp: decision_state_def wake_sleepers_def save_outgoing_frame wake_task_def)
  have rd: "runnable ?d 0" "runnable ?d 1" using runnable_decision_state(1) [OF ok] run by auto
  obtain u where u: "select_next ?d = int u" "runnable ?d u" "\<And>v. runnable ?d v \<Longrightarrow> task_eff ?d v \<le> task_eff ?d u"
    using rd(1) by (rule select_next_runnable) blast
  have "unat (credit (g_tasks ?d ! 0)) = 0" "unat (credit (g_tasks ?d ! 1)) < 3"
    using assms t [of 0] t [of 1] by (simp_all add: unat_credit duo_def waited_def)
  moreover have "prio (g_tasks ?d ! 0) = 3" "prio (g_tasks ?d ! 1) = 0"
    using assms t [of 0] t [of 1] by (simp_all add: duo_def)
  ultimately have "task_eff ?d 1 < 3" "task_eff ?d 0 = 3" by (simp_all add: eff_def del: of_nat_unat)
  with u(3) [OF rd(1)] have "u \<noteq> 1" by auto
  moreover have "u < 2" using u(2) t(3) [of u] assms(1) by (force simp: runnable_def duo_def not_less)
  ultimately have n0: "n = 0" using u(1) d by (simp add: decided_def)
  have w: "waited st' 0 = 0" "waited st' 1 = Suc k"
    using decided_waited [OF d, of 0] decided_waited [OF d, of 1] rd n0 assms t [of 1]
    by (simp_all add: runnable_def duo_def waited_def unat_add_u32)
  have "duo (Suc k) st'"
    using sched_step_ok [OF step_decide [OF s] ok] broken_step [OF s b ok] d n0 w rd t assms(1)
    by (simp add: duo_def decided_def runnable_def decision_state_def save_outgoing_frame wake_sleepers_def)
  with s that show thesis by blast
qed

lemma duo_start: "duo 0 sched_duo"
proof -
  have "task_stack_broken sched_duo = -1"
    by (simp add: task_stack_broken_def sched_duo_tasks created_task_def task_zero_def numeral_eq_Suc
        del: of_nat_Suc) (simp add: peek32_def guard_mem_def)
  moreover have "tstate (g_tasks sched_duo ! i) = TASK_UNUSED" if "2 \<le> i" "i < 13" for i
    using that by (simp add: sched_duo_tasks nth_append task_zero_def)
  ultimately show ?thesis
    using sched_sys.reaches_inv [OF sched_duo_reaches]
    by (auto simp: duo_def runnable_def waited_def sched_duo_tasks created_task_def task_zero_def)
qed

lemma duo_reaches: "k \<le> 90 \<Longrightarrow> \<exists>st. passed_over 1 sched_duo k st \<and> reaches sched_boot sched_step st \<and> duo k st"
proof (induction k)
  case 0
  then show ?case using duo_start over_start sched_duo_reaches by (auto simp: duo_def)
next
  case (Suc k)
  then obtain st where st: "passed_over 1 sched_duo k st" "reaches sched_boot sched_step st" "duo k st" by auto
  with Suc.prems duo_step obtain r st' where s: "task_schedule 0 0 0 0 0 st = Inr (r, st')" "duo (Suc k) st'"
    by (metis Suc_le_lessD)
  have "g_current st' \<noteq> int 1" using s(2) by (simp add: duo_def)
  with over_decide [OF st(1) s(1)] reaches_step [where step = sched_step, OF st(2) step_decide [OF s(1)]] s(2)
  show ?case by blast
qed

subsection \<open>Sleeping\<close>

definition clamp_sleep :: "u32 \<Rightarrow> u32" where
  "clamp_sleep n = (if n > TASK_SLEEP_MAX then TASK_SLEEP_MAX else n)"

lemma task_sleep_parks:
  assumes "sched_ok st" "0 \<le> g_current st" "n \<noteq> 0"
  shows "\<exists>st'. task_sleep n now st = (False, now + clamp_sleep n, st')
    \<and> tstate (g_tasks st' ! nat (g_current st)) = TASK_SLEEPING
    \<and> wake_tick (g_tasks st' ! nat (g_current st)) = now + clamp_sleep n \<and> length (g_tasks st') = TASK_MAX"
proof -
  have c: "nat (g_current st) < length (g_tasks st)" "length (g_tasks st) = TASK_MAX" using assms by (auto simp: sched_ok_def)
  have "unat (clamp_sleep n) < 2147483648" "clamp_sleep n \<noteq> 0"
    using assms(3) by (auto simp: clamp_sleep_def word_less_nat_alt)
  then have "0 < unat (clamp_sleep n)" and "sint (of_nat 0 - of_nat (unat (clamp_sleep n)) :: u32) = int 0 - int (unat (clamp_sleep n))"
    by (simp add: unat_gt_0) (rule sint_diff_times, use \<open>unat (clamp_sleep n) < 2147483648\<close> in simp_all)
  moreover have e: "now - (now + clamp_sleep n) = of_nat 0 - of_nat (unat (clamp_sleep n))" by simp
  ultimately have "sint (now - (now + clamp_sleep n)) < 0" unfolding e by linarith
  with assms c show ?thesis
    by (auto simp: task_sleep_def task_sleep_armed_def task_arm_wake_def sleep_deadline_def sleep_round_def
        clamp_sleep_def Let_def split: if_splits)
qed

subsection \<open>The liveness window\<close>

lemma liveness_prefix:
  assumes "wd_ticks w = 0" "wd_seen w = 0" "length bs < 100"
  defines "r \<equiv> foldl (\<lambda>w b. watchdog_liveness b w) w bs"
  shows "wd_ticks r = of_nat (length bs) \<and> wd_seen r = of_nat (length (filter id bs))
    \<and> g_feeds r = g_feeds w \<and> g_starved r = g_starved w"
  using assms(3) unfolding r_def
proof (induction bs rule: rev_induct)
  case (snoc b bs)
  then have "unat (of_nat (length bs) + 1 :: u32) = Suc (length bs)"
    by (simp add: unat_word_ariths unat_of_nat)
  then have "\<not> (100 :: u32) \<le> of_nat (length bs) + 1" using snoc.prems by (simp add: word_le_nat_alt)
  with snoc show ?case by (simp add: watchdog_liveness_def Let_def add.commute)
qed (simp add: assms(1,2))

subsection \<open>The first frame\<close>

text \<open>Pokes at known offsets from a base, inside an object of \<open>n\<close> bytes.\<close>

lemma fill_words_within:
  assumes "unat k + 4 * c \<le> n" "n \<le> unat (x - base)"
  shows "fill_words m (base + k) c v x = m x"
  using assms(1)
proof (induction c)
  case (Suc c)
  have nl: "n < 4294967296" using assms(2) unat_lt_u32 [of "x - base"] by linarith
  then have c4: "unat (4 * of_nat c :: u32) = 4 * c" using Suc.prems by (simp add: unat_word_ariths unat_of_nat)
  then have "unat (k + 4 * of_nat c) = unat k + 4 * c" using Suc.prems nl by (simp add: unat_add_u32)
  then have "poke32 (fill_words m (base + k) c v) (base + (k + 4 * of_nat c)) v x = fill_words m (base + k) c v x"
    using Suc.prems assms(2) by (intro poke32_within [where n = n]) simp_all
  with Suc show ?case by (simp add: add.assoc)
qed simp

lemma peek_fill_other:
  assumes "4 \<le> unat (b - a)" "unat (b - a) + 4 * c \<le> 4294967296"
  shows "peek32 (fill_words m b c v) a = peek32 m a"
  using assms(2)
proof (induction c)
  case (Suc c)
  have c4: "unat (4 * of_nat c :: u32) = 4 * c" using Suc.prems by (simp add: unat_word_ariths unat_of_nat)
  have "b + 4 * of_nat c - a = (b - a) + 4 * of_nat c" by simp
  moreover have "unat ((b - a) + 4 * of_nat c) = unat (b - a) + 4 * c"
    using c4 Suc.prems by (intro trans [OF unat_add_u32]) simp_all
  ultimately have "unat (b + 4 * of_nat c - a) = unat (b - a) + 4 * c" by (simp only:)
  moreover have "unat (b - a) + 4 * c \<le> 4294967292" using Suc.prems by simp
  ultimately have "4 \<le> unat (b + 4 * of_nat c - a)" "unat (b + 4 * of_nat c - a) \<le> 4294967292"
    using assms(1) by linarith+
  from peek_poke32_other [OF this] Suc show ?case by simp
qed simp

lemma fill_words_first: "0 < c \<Longrightarrow> c \<le> 1000000 \<Longrightarrow> fill_words m a c 0 a = 0"
proof (induction c)
  case (Suc c)
  show ?case
  proof (cases "c = 0")
    case False
    have c4: "unat (4 * of_nat c :: u32) = 4 * c" using Suc.prems by (simp add: unat_word_ariths unat_of_nat)
    have "unat (0 - 4 * of_nat c :: u32) = 4294967296 - 4 * c"
      unfolding unat_sub_if' c4 using False by simp
    then have "poke32 (fill_words m a c 0) (a + 4 * of_nat c) 0 a = fill_words m a c 0 a"
      using Suc.prems by (intro poke32_outside) simp
    with Suc False show ?thesis by simp
  qed (simp add: poke32_def)
qed simp

lemma frame_offset:
  fixes n stk :: u32
  assumes "49 \<le> n" "unat stk + 4 * unat n < 4294967296"
  obtains k where "((stk + 4 * n) AND NOT 15) - 16 - 160 = stk + k" "(stk + 4 * n) AND NOT 15 = stk + k + 176"
    "4 \<le> unat k" "unat k + 176 \<le> 4 * unat n" "unat (stk + k) = unat stk + unat k" "16 dvd unat (stk + k)"
proof -
  let ?t = "(stk + 4 * n) AND - 16"
  have n48: "49 \<le> unat n" using assms(1) by (simp add: word_le_nat_alt)
  have n4: "unat (4 * n) = 4 * unat n" using assms(2) by (simp add: unat_word_ariths)
  have s: "unat (stk + 4 * n) = unat stk + 4 * unat n" using assms(2) n4 by (simp add: unat_add_u32)
  define t where "t = unat ?t"
  have t: "t = unat stk + 4 * unat n - (unat stk + 4 * unat n) mod 16" unfolding t_def by (simp add: unat_and_not_15 s)
  have t15: "t \<le> unat stk + 4 * unat n" "unat stk + 4 * unat n < t + 16" "16 dvd t"
    unfolding t by (simp_all add: dvd_minus_mod)
  let ?k = "?t - 176 - stk"
  have k1: "unat (?t - 176) = t - 176" using t15 n48 unfolding t_def by (simp add: unat_sub_u32)
  have k: "unat ?k = t - 176 - unat stk" using t15 n48 k1 by (simp add: unat_sub_u32)
  have sk: "stk + ?k = ?t - 176" by simp
  show thesis
  proof (rule that [of ?k])
    show "4 \<le> unat ?k" using k t15 n48 by linarith
    show "unat ?k + 176 \<le> 4 * unat n" using k t15 n48 by linarith
    show "unat (stk + ?k) = unat stk + unat ?k" unfolding sk k1 k using t15 n48 by linarith
    show "16 dvd unat (stk + ?k)" unfolding sk k1 using t15(3) by (intro dvd_diff_nat) simp_all
  qed simp_all
qed

lemma first_frame:
  fixes stk ce entry ps wb :: u32 and m :: memory
  assumes k: "4 \<le> unat k" "unat k + 176 \<le> n" "n < 4294967296"
  defines "m' \<equiv> build_terminator (stk + k + 176) ce (build_frame (stk + k) entry ps wb m)"
  shows "peek32 m' stk = peek32 m stk" "word_at m' (stk + k) TASK_FRAME_IDX_EPC3 = entry"
    "n \<le> unat (x - stk) \<Longrightarrow> m' x = m x"
proof -
  have off: "unat (k + j) = unat k + unat j" if "j < 176" for j
    using that k by (simp add: unat_add_u32 word_less_nat_alt)
  have pk: "peek32 (poke32 q (stk + k + j) v) stk = peek32 q stk" if "j < 172" for q v j
  proof (rule peek_poke32_other)
    have e: "stk + k + j - stk = k + j" by simp
    show "4 \<le> unat (stk + k + j - stk)" "unat (stk + k + j - stk) \<le> 4294967292"
      unfolding e using off [of j] that k by (simp_all add: word_less_nat_alt)
  qed
  have pw: "poke32 q (stk + k + j) v x = q x" if "j \<le> 172" "n \<le> unat (x - stk)" for q v j x
    using poke32_within [of "k + j" n x stk q v] that off [of j] k by (simp add: add.assoc word_le_nat_alt word_less_nat_alt)
  have t: "stk + k + 176 - 16 = stk + k + 160" "stk + k + 176 - 12 = stk + k + 164"
    "stk + k + 176 - 8 = stk + k + 168" "stk + k + 176 - 4 = stk + k + 172" by simp_all
  have pk172: "peek32 (poke32 q (stk + k + 172) v) stk = peek32 q stk" for q v
  proof (rule peek_poke32_other)
    have e: "stk + k + 172 - stk = k + 172" by simp
    show "4 \<le> unat (stk + k + 172 - stk)" "unat (stk + k + 172 - stk) \<le> 4294967292"
      unfolding e using off [of 172] k by simp_all
  qed
  have fl: "peek32 (fill_words q (stk + k) 23 v) stk = peek32 q stk" for q v
    using k by (intro peek_fill_other) simp_all
  have fw: "fill_words q (stk + k) 23 v x = q x" if "n \<le> unat (x - stk)" for q v x
    using k that by (intro fill_words_within [where n = n]) simp_all
  show "peek32 m' stk = peek32 m stk"
    unfolding m'_def build_terminator_def build_frame_def Let_def t by (simp add: pk pk172 fl)
  show "word_at m' (stk + k) TASK_FRAME_IDX_EPC3 = entry"
    unfolding m'_def build_terminator_def build_frame_def Let_def t word_at_def by (simp add: peek_poke32_other)
  show "m' x = m x" if "n \<le> unat (x - stk)"
    unfolding m'_def build_terminator_def build_frame_def Let_def t by (simp add: pw fw that)
qed

subsection \<open>Properties\<close>

text \<open>(C4) Bounded waiting: however the other tasks block, wake, are created, re-prioritised or spin at the
  highest priority, a task that stays ready is passed over by at most 132 consecutive scheduling
  decisions: 120 until its ageing credit is at the cap, and one for each other slot of the table.\<close>

theorem ready_task_bounded_wait:
  assumes "reaches sched_boot sched_step st" "passed_over t st n st'"
  shows "n \<le> 132"
proof -
  have "sched_ok st' \<and> runnable st' t \<and> n \<le> waited st' t"
    by (rule passed_over_inv [OF assms(2) sched_sys.reaches_inv [OF assms(1)]])
  then show ?thesis using fair_bound [of st' t] by (auto simp: sched_ok_def runnable_def)
qed

theorem ready_task_bounded_wait_witness:
  "\<exists>st'. passed_over 1 sched_duo 90 st' \<and> 90 \<le> (132 :: nat)"
proof -
  obtain st' where "passed_over 1 sched_duo 90 st'" using duo_reaches [of 90] by auto
  with ready_task_bounded_wait [OF sched_duo_reaches this] show ?thesis by blast
qed

text \<open> The decision: with every stack guard intact \<open>task_schedule\<close> returns. When some task other than the
  idle task is ready, it resumes a ready task whose effective priority is maximal, and among those
  of that priority the first one in rotation after the task that was running.\<close>

theorem task_schedule_picks:
  assumes "sched_ok st" "task_stack_broken st = -1"
    "runnable (decision_state now ticks csp st) u"
  shows "\<exists>r st' t. task_schedule now ticks seq live csp st = Inr (r, st') \<and> g_current st' = int t
    \<and> runnable (decision_state now ticks csp st) t
    \<and> (\<forall>v. runnable (decision_state now ticks csp st) v \<longrightarrow>
         task_eff (decision_state now ticks csp st) v < task_eff (decision_state now ticks csp st) t \<or>
         task_eff (decision_state now ticks csp st) v = task_eff (decision_state now ticks csp st) t
           \<and> scan_pos (decision_state now ticks csp st) t \<le> scan_pos (decision_state now ticks csp st) v)"
proof -
  let ?d = "decision_state now ticks csp st"
  obtain r st' where s: "task_schedule now ticks seq live csp st = Inr (r, st')"
    by (rule task_schedule_returns [OF assms(1,2)])
  from assms(3) obtain t where t: "select_next ?d = int t" "runnable ?d t"
    "\<And>v. runnable ?d v \<Longrightarrow> task_eff ?d v \<le> task_eff ?d t"
    "\<And>v. runnable ?d v \<Longrightarrow> task_eff ?d v = task_eff ?d t \<Longrightarrow> scan_pos ?d t \<le> scan_pos ?d v"
    by (rule select_next_runnable) blast
  with task_schedule_Inr [OF s assms(1)] have "g_current st' = int t" by (auto simp: decided_def)
  with s t show ?thesis by (metis order_le_less)
qed

theorem task_schedule_picks_witness:
  "\<exists>r st'. task_schedule 0 0 0 0 0 sched_duo = Inr (r, st') \<and> g_current st' = 0"
proof -
  have d: "sched_ok sched_duo" "task_stack_broken sched_duo = -1" "runnable sched_duo 0"
    using duo_start by (auto simp: duo_def)
  have e: "decision_state 0 0 0 sched_duo = sched_duo\<lparr>g_slice_start := 0\<rparr>"
    by (simp add: decision_state_def wake_sleepers_def wake_task_def sched_duo_tasks created_task_def task_zero_def)
  have run: "runnable (decision_state 0 0 0 sched_duo) 0" using d(3) by (simp add: e runnable_def)
  from task_schedule_picks [OF d(1,2) run] obtain r st' t where
    s: "task_schedule 0 0 0 0 0 sched_duo = Inr (r, st')" "g_current st' = int t"
    "runnable (decision_state 0 0 0 sched_duo) t"
    and m: "task_eff (decision_state 0 0 0 sched_duo) 0 \<le> task_eff (decision_state 0 0 0 sched_duo) t"
    using run by (metis order_refl order_less_imp_le)
  have "tstate (g_tasks sched_duo ! i) = TASK_UNUSED" if "2 \<le> i" "i < 13" for i
    using duo_start that by (simp add: duo_def)
  with s(3) have "t < 2" unfolding e by (cases "2 \<le> t") (auto simp: runnable_def)
  moreover have "t \<noteq> 1"
    using m by (auto simp: e eff_def credit_def sched_duo_tasks created_task_def task_zero_def)
  ultimately show ?thesis using s by auto
qed

text \<open> The documented worst case is not the worst case: a ready task at the lowest priority behind one
  permanently ready task at the audio level is passed over by 90 consecutive decisions, which at one
  decision per 10 ms tick is 900 ms.\<close>

theorem low_task_waits_90:
  "\<exists>st'. reaches sched_boot sched_step sched_duo \<and> passed_over 1 sched_duo 90 st'
     \<and> task_priority 1 st' = 0 \<and> task_priority 0 st' = 3"
proof -
  obtain st' where "passed_over 1 sched_duo 90 st'" "duo 90 st'" using duo_reaches [of 90] by auto
  with sched_duo_reaches show ?thesis by (auto simp: duo_def task_priority_def)
qed

text \<open>(C17) Sleeping is exact across wrap-around of the tick counter: \<open>task_sleep\<close> of a non-zero number of
  ticks parks the running task, and the scan for due sleepers at \<open>e\<close> ticks later makes it ready exactly
  when \<open>e\<close> is at least the requested number, clamped to \<open>TASK_SLEEP_MAX\<close>, for as long as the scan runs
  at least once in the half revolution after the deadline.\<close>

theorem task_sleep_exact:
  assumes "sched_ok st" "0 \<le> g_current st" "n \<noteq> 0" "e < unat (min n 0x7FFFFFFF) + 2 ^ 31"
  shows "\<exists>due st'. task_sleep n now st = (False, due, st') \<and>
    tstate (g_tasks (wake_sleepers (now + of_nat e) st') ! nat (g_current st)) =
      (if unat (min n 0x7FFFFFFF) \<le> e then TASK_READY else TASK_SLEEPING)"
proof -
  from task_sleep_parks [OF assms(1-3), of now] obtain st' where
    s: "task_sleep n now st = (False, now + clamp_sleep n, st')"
    "tstate (g_tasks st' ! nat (g_current st)) = TASK_SLEEPING"
    "wake_tick (g_tasks st' ! nat (g_current st)) = now + clamp_sleep n" "length (g_tasks st') = TASK_MAX" by blast
  have c: "clamp_sleep n = min n 0x7FFFFFFF" by (auto simp: clamp_sleep_def min_def)
  have m: "unat (clamp_sleep n) \<le> 2147483647" by (auto simp: clamp_sleep_def word_less_nat_alt)
  have eq: "now + of_nat e - (now + clamp_sleep n) = of_nat e - of_nat (unat (clamp_sleep n))" by simp
  have "sint (now + of_nat e - (now + clamp_sleep n)) = int e - int (unat (clamp_sleep n))"
    unfolding eq by (rule sint_diff_times) (use assms(4) m in \<open>simp_all add: c\<close>)
  then have "0 \<le> sint (now + of_nat e - (now + clamp_sleep n)) \<longleftrightarrow> unat (clamp_sleep n) \<le> e" by linarith
  moreover have "nat (g_current st) < length (g_tasks st')" using assms s(4) by (auto simp: sched_ok_def)
  ultimately show ?thesis using s by (simp add: wake_sleepers_def wake_task_def c)
qed

theorem task_sleep_exact_witness:
  "\<exists>st. 0 \<le> g_current st \<and> (\<exists>due st'. task_sleep 0xFFFFFFFF 5 st = (False, due, st') \<and>
     tstate (g_tasks (wake_sleepers 6 st') ! nat (g_current st)) = TASK_SLEEPING)"
proof -
  obtain st where "duo 1 st" using duo_reaches [of 1] by auto
  then have st: "sched_ok st" "0 \<le> g_current st" by (auto simp: duo_def)
  from task_sleep_exact [OF st, of "0xFFFFFFFF" 1 5] st show ?thesis by (auto simp: min_def)
qed

text \<open>The hang detector: over a window of 100 decisions the watchdog is fed exactly once if at least one
  of them resumed a different task, and not at all otherwise, and the next window starts afresh.\<close>

theorem liveness_window:
  assumes "wd_ticks w = 0" "wd_seen w = 0" "length bs = 100"
  shows "foldl (\<lambda>w b. watchdog_liveness b w) w bs =
    (if True \<in> set bs then w\<lparr>g_feeds := g_feeds w + 1\<rparr> else w\<lparr>g_starved := g_starved w + 1\<rparr>)"
proof -
  from assms(3) obtain cs b where bs: "bs = cs @ [b]" "length cs = 99"
    by (cases bs rule: rev_cases) auto
  define r where "r = foldl (\<lambda>w b. watchdog_liveness b w) w cs"
  have r: "wd_ticks r = 99" "wd_seen r = of_nat (length (filter id cs))" "g_feeds r = g_feeds w" "g_starved r = g_starved w"
    using liveness_prefix [OF assms(1,2), of cs] bs(2) unfolding r_def by simp_all
  have len: "length (filter id cs) \<le> 99" using length_filter_le [of id cs] bs(2) by simp
  have seen: "(wd_seen r + (if b then 1 else 0) = 0) \<longleftrightarrow> True \<notin> set bs"
  proof -
    have "unat (wd_seen r + (if b then 1 else 0)) = length (filter id cs) + (if b then 1 else 0)"
      using len by (simp add: r(2) unat_word_ariths unat_of_nat)
    then have "(wd_seen r + (if b then 1 else 0) = 0) \<longleftrightarrow> length (filter id cs) = 0 \<and> \<not> b"
      by (auto simp: u32_eq_0_iff)
    then show ?thesis unfolding bs by (auto simp: filter_empty_conv)
  qed
  have w: "w = r\<lparr>wd_ticks := 0, wd_seen := 0\<rparr>" using r assms(1,2) by simp
  have "foldl (\<lambda>w b. watchdog_liveness b w) w bs = watchdog_liveness b r" by (simp add: bs r_def)
  also have "\<dots> = (if True \<in> set bs then w\<lparr>g_feeds := g_feeds w + 1\<rparr> else w\<lparr>g_starved := g_starved w + 1\<rparr>)"
    using seen r(1) by (cases b) (auto simp: watchdog_liveness_def watchdog_feed_def Let_def w)
  finally show ?thesis .
qed

theorem liveness_window_witness:
  "g_starved (foldl (\<lambda>w b. watchdog_liveness b w) \<lparr>wd_ticks = 0, wd_seen = 0, g_feeds = 4, g_starved = 2\<rparr> (replicate 100 False)) = 3"
  using liveness_window [of "\<lparr>wd_ticks = 0, wd_seen = 0, g_feeds = 4, g_starved = 2\<rparr>" "replicate 100 False"] by simp

text \<open> Creating a task on a stack of at least 49 words writes nothing outside it, leaves the guard word
  intact, and puts a 16-byte aligned first frame inside it whose saved program counter is the entry
  point.\<close>

theorem task_create_inside:
  assumes "unused_slot (g_tasks st) 0 = Some i" "i < length (g_tasks st)" "i < 13" "stk \<noteq> 0" "49 \<le> n"
    "unat stk + 4 * unat n < 2 ^ 32"
  shows "\<exists>st'. task_create_with_stack stacks ce ps wb nm entry stk n st = (int i, st')
    \<and> tstate (g_tasks st' ! i) = TASK_READY \<and> task_stack_intact (int i) st'
    \<and> unat stk < unat (sp (g_tasks st' ! i)) \<and> unat (sp (g_tasks st' ! i)) + 160 \<le> unat stk + 4 * unat n
    \<and> 16 dvd unat (sp (g_tasks st' ! i))
    \<and> word_at (tmem st') (sp (g_tasks st' ! i)) TASK_FRAME_IDX_EPC3 = entry
    \<and> (\<forall>x. 4 * unat n \<le> unat (x - stk) \<longrightarrow> tmem st' x = tmem st x)"
proof -
  have n31: "31 \<le> n" using assms(5) by (rule order_trans [rotated]) simp
  have n4': "unat stk + 4 * unat n < 4294967296" and n4: "4 * unat n < 4294967296" using assms(6) by simp_all
  obtain k where k: "((stk + 4 * n) AND NOT 15) - 16 - 160 = stk + k" "(stk + 4 * n) AND NOT 15 = stk + k + 176"
    "4 \<le> unat k" "unat k + 176 \<le> 4 * unat n" "unat (stk + k) = unat stk + unat k" "16 dvd unat (stk + k)"
    by (rule frame_offset [OF assms(5) n4'])
  note c = create_table [OF assms(1,4) n31, of stacks ce ps wb nm entry, unfolded k(1) k(2)]
  note f = first_frame [OF k(3,4) n4, where stk = stk and ce = ce and entry = entry and ps = ps and wb = wb]
  let ?r = "task_create_with_stack stacks ce ps wb nm entry stk n st"
  have sp: "sp (g_tasks (snd ?r) ! i) = stk + k" "tstate (g_tasks (snd ?r) ! i) = TASK_READY"
    "stack_base (g_tasks (snd ?r) ! i) = stk"
    using assms(2) by (simp_all add: c(2) created_task_def k(1) [simplified])
  have out: "tmem (snd ?r) x = tmem st x" if x: "4 * unat n \<le> unat (x - stk)" for x
    using f(3) [OF x] fill_words_within [of 0 "unat n" "4 * unat n" x stk] poke32_within [of 0 "4 * unat n" x stk]
      x k(3,4) by (simp add: c(5))
  have "?r = (int i, snd ?r)" using c(1) by (metis prod.collapse)
  moreover have "task_stack_intact (int i) (snd ?r)"
    using sp(3) f(1) assms(3) by (simp add: task_stack_intact_def c(5))
  moreover have "word_at (tmem (snd ?r)) (stk + k) TASK_FRAME_IDX_EPC3 = entry" using f(2) by (simp add: c(5))
  ultimately show ?thesis using sp out k(3-6) by (intro exI [of _ "snd ?r"]) simp
qed

theorem task_create_inside_witness:
  "\<exists>st'. task_create_with_stack 0 0 0 0 [] 0x400 0x2000 64 sched_zero = (0, st') \<and> task_stack_intact 0 st'"
proof -
  have u: "unused_slot (g_tasks sched_zero) 0 = Some 0" "0 < length (g_tasks sched_zero)"
    by (simp_all add: sched_zero_def task_zero_def numeral_eq_Suc)
  from task_create_inside [OF u, of "0x2000" 64 0 0 0 0 "[]" "0x400"] show ?thesis by auto
qed

text \<open> The size check of \<open>task_create_with_stack\<close> is too weak for the frame it builds: it accepts a stack
  of 31 words, and the first frame then starts below the stack and is written over the memory in
  front of it, and over the guard.\<close>

theorem task_create_too_small:
  "\<exists>st'. task_create_with_stack 0 0 0 0 [] 0x400 0x2000 31 sched_zero = (0, st')
     \<and> sp (g_tasks st' ! 0) < 0x2000 \<and> tmem st' 0x1FC0 \<noteq> tmem sched_zero 0x1FC0"
proof -
  have u: "unused_slot (g_tasks sched_zero) 0 = Some 0"
    by (simp add: sched_zero_def task_zero_def numeral_eq_Suc)
  let ?r = "task_create_with_stack 0 0 0 0 [] 0x400 0x2000 31 sched_zero"
  note c = create_table [OF u, of "0x2000" 31 0 0 0 0 "[]" "0x400"]
  have "sp (g_tasks (snd ?r) ! 0) = 0x1FC0"
    using c(2) by (simp add: sched_zero_def created_task_def)
  moreover have "tmem (snd ?r) 0x1FC0 = 0"
    using c(5) by (simp add: build_terminator_def build_frame_def Let_def poke32_outside fill_words_first)
  moreover have "tmem sched_zero 0x1FC0 = 0xDE" by (simp add: sched_zero_def guard_mem_def)
  moreover have "?r = (0, snd ?r)" using c(1) by (simp add: prod_eq_iff)
  ultimately show ?thesis by (intro exI [of _ "snd ?r"]) simp
qed

end
