(* ===== verification/KMutex.thy ===== *)
theory KMutex
  imports KTask
begin

text \<open>
  The blocking mutex, \<^verbatim>\<open>kernel/mutex.c\<close>, over the task table of \<open>KTask\<close>. Each operation runs with
  interrupts masked, so one round of \<^verbatim>\<open>mutex_lock\<close>, up to the yield, is one step. The interleavings of
  any number of tasks, with spurious wake-ups, are the step relation \<open>lock_step\<close>; the theorems are mutual
  exclusion, no lost wake-up, and what a release hands over.
\<close>

subsection \<open>Data and operations\<close>

abbreviation (input) MUTEX_FREE :: int where "MUTEX_FREE \<equiv> -2"

record mutex_t =
  owner :: int
  depth :: u32
  waiters :: u32
  granted :: u32
  acquisitions :: u32
  contentions :: u32
  errors :: u32

definition mutex_init :: mutex_t where
  "mutex_init = \<lparr>owner = MUTEX_FREE, depth = 0, waiters = 0, granted = 0, acquisitions = 0, contentions = 0, errors = 0\<rparr>"

definition mutex_try_lock :: "sched \<Rightarrow> mutex_t \<Rightarrow> bool \<times> mutex_t" where
  "mutex_try_lock st m =
     (let me = g_current st in
      if owner m = MUTEX_FREE then (True, m\<lparr>owner := me, depth := 1, acquisitions := acquisitions m + 1\<rparr>)
      else if owner m = me then (True, m\<lparr>depth := depth m + 1\<rparr>)
      else (False, m))"

text \<open>One round of the loop of \<^verbatim>\<open>mutex_lock\<close>: \<open>True\<close> when it returns, \<open>False\<close> when it yields and will run
  another round.\<close>

definition mutex_lock_round :: "sched \<Rightarrow> mutex_t \<Rightarrow> bool \<times> mutex_t \<times> sched" where
  "mutex_lock_round st m =
     (let me = g_current st in
      if me \<ge> 0 \<and> granted m AND push_bit (nat me) 1 \<noteq> 0
      then (True, m\<lparr>granted := granted m AND NOT (push_bit (nat me) 1)\<rparr>, st)
      else if owner m = MUTEX_FREE
      then (True, m\<lparr>owner := me, depth := 1, acquisitions := acquisitions m + 1\<rparr>, st)
      else if owner m = me then (True, m\<lparr>depth := depth m + 1\<rparr>, st)
      else
        let m1 = m\<lparr>contentions := contentions m + 1\<rparr> in
        if me \<ge> 0 then (False, m1\<lparr>waiters := waiters m1 OR push_bit (nat me) 1\<rparr>, task_block st)
        else (False, m1, st))"

fun first_waiter :: "u32 \<Rightarrow> nat list \<Rightarrow> int" where
  "first_waiter w [] = -1"
| "first_waiter w (i # is) = (if w AND push_bit i 1 \<noteq> 0 then int i else first_waiter w is)"

definition mutex_unlock :: "sched \<Rightarrow> mutex_t \<Rightarrow> mutex_t \<times> sched" where
  "mutex_unlock st m =
     (if owner m \<noteq> g_current st then (m\<lparr>errors := errors m + 1\<rparr>, st)
      else if depth m > 1 then (m\<lparr>depth := depth m - 1\<rparr>, st)
      else if waiters m \<noteq> 0 then
        let nxt = first_waiter (waiters m) [0..<TASK_MAX] in
        (m\<lparr>waiters := waiters m AND NOT (push_bit (nat nxt) 1), granted := granted m OR push_bit (nat nxt) 1,
           owner := nxt, depth := 1, acquisitions := acquisitions m + 1\<rparr>,
         task_unblock nxt st)
      else (m\<lparr>depth := 0, owner := MUTEX_FREE\<rparr>, st))"

subsection \<open>Interleavings\<close>

text \<open>Where each task is: outside the lock, inside a call of \<^verbatim>\<open>mutex_lock\<close> that has not returned, or holding
  it with a number of acquisitions still to be released.\<close>

datatype phase = Outside | Waiting | Inside nat

record lock_sys =
  mtx :: mutex_t
  sch :: sched
  phases :: "nat \<Rightarrow> phase"

definition me :: "lock_sys \<Rightarrow> nat" where
  "me s = nat (g_current (sch s))"

fun nested :: "phase \<Rightarrow> phase" where
  "nested (Inside n) = Inside (Suc n)"
| "nested _ = Inside 1"

fun released :: "phase \<Rightarrow> phase" where
  "released (Inside (Suc (Suc n))) = Inside (Suc n)"
| "released (Inside _) = Outside"
| "released p = p"

text \<open>The running task starts or resumes a lock, tries a lock or releases; the scheduler dispatches a ready
  task; any task is woken, whatever it was waiting for; a task outside the lock blocks or sleeps on
  something else. The recursion count is a 32-bit word: a task does not nest \<open>2^32 - 1\<close> deep.\<close>

inductive lock_step :: "lock_sys \<Rightarrow> lock_sys \<Rightarrow> bool" where
  lock_returns: "mutex_lock_round (sch s) (mtx s) = (True, m, st) \<Longrightarrow> depth (mtx s) < 0xFFFFFFFF \<Longrightarrow>
    lock_step s \<lparr>mtx = m, sch = st, phases = (phases s)(me s := nested (phases s (me s)))\<rparr>"
| lock_blocks: "mutex_lock_round (sch s) (mtx s) = (False, m, st) \<Longrightarrow>
    lock_step s \<lparr>mtx = m, sch = st, phases = (phases s)(me s := Waiting)\<rparr>"
| try_returns: "mutex_try_lock (sch s) (mtx s) = (True, m) \<Longrightarrow> phases s (me s) \<noteq> Waiting \<Longrightarrow> depth (mtx s) < 0xFFFFFFFF \<Longrightarrow>
    lock_step s \<lparr>mtx = m, sch = sch s, phases = (phases s)(me s := nested (phases s (me s)))\<rparr>"
| try_fails: "mutex_try_lock (sch s) (mtx s) = (False, m) \<Longrightarrow> phases s (me s) \<noteq> Waiting \<Longrightarrow>
    lock_step s \<lparr>mtx = m, sch = sch s, phases = phases s\<rparr>"
| unlocks: "mutex_unlock (sch s) (mtx s) = (m, st) \<Longrightarrow> phases s (me s) \<noteq> Waiting \<Longrightarrow>
    lock_step s \<lparr>mtx = m, sch = st, phases = (phases s)(me s := released (phases s (me s)))\<rparr>"
| dispatch: "t < TASK_MAX \<Longrightarrow> tstate (g_tasks (sch s) ! t) = TASK_READY \<Longrightarrow>
    lock_step s (s\<lparr>sch := (sch s)\<lparr>g_current := int t\<rparr>\<rparr>)"
| woken: "lock_step s (s\<lparr>sch := task_wake i (sch s)\<rparr>)"
| sleeps: "phases s (me s) \<noteq> Waiting \<Longrightarrow>
    lock_step s (s\<lparr>sch := upd_task (me s) (\<lambda>t. t\<lparr>tstate := st\<rparr>) (sch s)\<rparr>)"

definition lock_boot :: "lock_sys \<Rightarrow> bool" where
  "lock_boot s \<longleftrightarrow> mtx s = mutex_init \<and> phases s = (\<lambda>_. Outside)
     \<and> length (g_tasks (sch s)) = TASK_MAX \<and> 0 \<le> g_current (sch s) \<and> g_current (sch s) < int TASK_MAX"

text \<open>The invariant, task by task: the phase of a task, and what the mutex and the task table say of it.\<close>

definition lock_view :: "lock_sys \<Rightarrow> nat \<Rightarrow> bool" where
  "lock_view s t \<longleftrightarrow>
     (case phases s t of
        Outside \<Rightarrow> owner (mtx s) \<noteq> int t \<and> \<not> bit (granted (mtx s)) t \<and> \<not> bit (waiters (mtx s)) t
      | Waiting \<Rightarrow> bit (granted (mtx s)) t \<noteq> bit (waiters (mtx s)) t \<and> bit (granted (mtx s)) t = (owner (mtx s) = int t)
           \<and> (bit (granted (mtx s)) t \<longrightarrow> tstate (g_tasks (sch s) ! t) \<noteq> TASK_BLOCKED \<and> depth (mtx s) = 1)
      | Inside n \<Rightarrow> 0 < n \<and> n < 2 ^ 32 \<and> owner (mtx s) = int t \<and> depth (mtx s) = of_nat n
           \<and> \<not> bit (granted (mtx s)) t \<and> \<not> bit (waiters (mtx s)) t)"

definition lock_ok :: "lock_sys \<Rightarrow> bool" where
  "lock_ok s \<longleftrightarrow> length (g_tasks (sch s)) = TASK_MAX \<and> 0 \<le> g_current (sch s) \<and> g_current (sch s) < int TASK_MAX
     \<and> (\<forall>t < TASK_MAX. lock_view s t)
     \<and> (\<forall>t. bit (waiters (mtx s)) t \<longrightarrow> t < TASK_MAX) \<and> (\<forall>t. bit (granted (mtx s)) t \<longrightarrow> t < TASK_MAX)
     \<and> (owner (mtx s) = MUTEX_FREE \<and> waiters (mtx s) = 0 \<and> granted (mtx s) = 0
        \<or> (0 \<le> owner (mtx s) \<and> owner (mtx s) < int TASK_MAX))"

lemma bit_mask_simps:
  "i < 32 \<Longrightarrow> bit ((w :: u32) OR 2 ^ i) j = (bit w j \<or> j = i)"
  "bit ((w :: u32) AND NOT (2 ^ i)) j = (bit w j \<and> j \<noteq> i)"
  by (auto simp: bit_simps dest: bit_imp_le_length)

lemmas mask_simps = bit_mask_simps and_exp_eq_0_iff_not_bit push_bit_of_1

lemma first_waiter_found:
  "j \<in> set is \<Longrightarrow> bit w j \<Longrightarrow> \<exists>i \<in> set is. first_waiter w is = int i \<and> bit w i"
  by (induction w "is" rule: first_waiter.induct) (auto simp: mask_simps)

lemma waiters_nonzero: "(w :: u32) \<noteq> 0 \<Longrightarrow> \<exists>j. bit w j"
  by (metis bit_eq_iff bit_0_eq bot_apply bot_bool_def)

lemma lock_okD:
  assumes "lock_ok s"
  shows "me s < TASK_MAX" "int (me s) = g_current (sch s)" "length (g_tasks (sch s)) = TASK_MAX"
    "t < TASK_MAX \<Longrightarrow> lock_view s t"
  using assms by (auto simp: lock_ok_def me_def)

text \<open>An operation of task \<open>t\<close> changes the view of \<open>t\<close> alone, as long as ownership does not move between two
  other tasks.\<close>

lemma lock_view_other:
  assumes "lock_view s u" "u \<noteq> t" "phases s' u = phases s u"
    "(owner (mtx s') = int u) = (owner (mtx s) = int u)"
    "bit (granted (mtx s')) u = bit (granted (mtx s)) u" "bit (waiters (mtx s')) u = bit (waiters (mtx s)) u"
    "tstate (g_tasks (sch s) ! u) \<noteq> TASK_BLOCKED \<Longrightarrow> tstate (g_tasks (sch s') ! u) \<noteq> TASK_BLOCKED"
    "owner (mtx s) = int u \<Longrightarrow> depth (mtx s') = depth (mtx s)"
  shows "lock_view s' u"
  using assms by (auto simp: lock_view_def split: phase.splits)

text \<open>How a round of the lock ends.\<close>

lemma lock_round_cases:
  assumes "lock_ok s" "mutex_lock_round (sch s) (mtx s) = (b, m, st)"
  obtains (granted) "b" "bit (granted (mtx s)) (me s)" "st = sch s"
      "m = (mtx s)\<lparr>granted := granted (mtx s) AND NOT (2 ^ me s)\<rparr>"
  | (free) "b" "owner (mtx s) = MUTEX_FREE" "st = sch s"
      "m = (mtx s)\<lparr>owner := int (me s), depth := 1, acquisitions := acquisitions (mtx s) + 1\<rparr>"
  | (mine) "b" "owner (mtx s) = int (me s)" "\<not> bit (granted (mtx s)) (me s)" "st = sch s"
      "m = (mtx s)\<lparr>depth := depth (mtx s) + 1\<rparr>"
  | (blocks) "\<not> b" "owner (mtx s) \<noteq> MUTEX_FREE" "owner (mtx s) \<noteq> int (me s)" "\<not> bit (granted (mtx s)) (me s)"
      "st = upd_task (me s) (\<lambda>t. t\<lparr>tstate := TASK_BLOCKED\<rparr>) (sch s)"
      "m = (mtx s)\<lparr>contentions := contentions (mtx s) + 1, waiters := waiters (mtx s) OR 2 ^ me s\<rparr>"
proof -
  have c: "g_current (sch s) = int (me s)" using lock_okD(2) [OF assms(1)] by simp
  show thesis
    using assms(2) granted free mine blocks unfolding mutex_lock_round_def Let_def c
    by (auto simp: mask_simps task_block_def c split: if_splits)
qed

lemma phase_me:
  assumes "lock_ok s"
  shows "bit (granted (mtx s)) (me s) \<Longrightarrow> phases s (me s) = Waiting"
    "owner (mtx s) = int (me s) \<Longrightarrow> \<not> bit (granted (mtx s)) (me s) \<Longrightarrow>
       \<exists>n. phases s (me s) = Inside n \<and> 0 < n \<and> n < 2 ^ 32 \<and> depth (mtx s) = of_nat n"
  using lock_okD(4) [OF assms lock_okD(1) [OF assms]] by (auto simp: lock_view_def split: phase.splits)

lemma lock_returns_ok:
  assumes ok: "lock_ok s" and r: "mutex_lock_round (sch s) (mtx s) = (True, m, st)" and d: "depth (mtx s) < 0xFFFFFFFF"
  shows "lock_ok \<lparr>mtx = m, sch = st, phases = (phases s)(me s := nested (phases s (me s)))\<rparr>" (is "lock_ok ?s")
proof -
  note m13 = lock_okD(1) [OF ok]
  have v: "lock_view s t" if "t < TASK_MAX" for t by (rule lock_okD(4) [OF ok that])
  from ok r show ?thesis
  proof (cases rule: lock_round_cases)
    case granted
    have p: "phases s (me s) = Waiting" by (rule phase_me(1) [OF ok granted(2)])
    then have "lock_view ?s (me s)" using v [OF m13] granted by (auto simp: lock_view_def mask_simps)
    moreover have "lock_view ?s u" if "u < TASK_MAX" "u \<noteq> me s" for u
      using that granted by (intro lock_view_other [OF v [OF that(1)] that(2)]) (simp_all add: mask_simps)
    ultimately show ?thesis using ok granted p v [OF m13]
      unfolding lock_ok_def by (auto simp: mask_simps lock_view_def)
  next
    case free
    have z: "waiters (mtx s) = 0" "granted (mtx s) = 0" using ok free(2) by (auto simp: lock_ok_def)
    have "phases s t = Outside" if "t < TASK_MAX" for t
      using v [OF that] z free(2) by (auto simp: lock_view_def split: phase.splits)
    then have "lock_view ?s t" if "t < TASK_MAX" for t using that m13 free z by (simp add: lock_view_def)
    with ok free m13 show ?thesis unfolding lock_ok_def by auto
  next
    case mine
    from phase_me(2) [OF ok mine(2,3)] obtain n where
      n: "phases s (me s) = Inside n" "0 < n" "n < 4294967296" "depth (mtx s) = of_nat n" by auto
    have "n < 4294967295" using d n(3,4) by (simp add: word_less_nat_alt unat_of_nat)
    then have "lock_view ?s (me s)" using v [OF m13] mine n by (simp add: lock_view_def add.commute)
    moreover have "lock_view ?s u" if "u < TASK_MAX" "u \<noteq> me s" for u
      using that mine by (intro lock_view_other [OF v [OF that(1)] that(2)]) simp_all
    ultimately show ?thesis using ok mine unfolding lock_ok_def by auto
  qed simp
qed

lemma lock_blocks_ok:
  assumes ok: "lock_ok s" and r: "mutex_lock_round (sch s) (mtx s) = (False, m, st)"
  shows "lock_ok \<lparr>mtx = m, sch = st, phases = (phases s)(me s := Waiting)\<rparr>" (is "lock_ok ?s")
proof -
  note m13 = lock_okD(1) [OF ok]
  from ok r show ?thesis
  proof (cases rule: lock_round_cases)
    case blocks
    have "lock_view ?s (me s)" using blocks m13 by (simp add: lock_view_def mask_simps)
    moreover have "lock_view ?s u" if "u < TASK_MAX" "u \<noteq> me s" for u
      using that blocks m13 lock_okD(3) [OF ok]
      by (intro lock_view_other [OF lock_okD(4) [OF ok that(1)] that(2)]) (simp_all add: mask_simps upd_task_def)
    ultimately show ?thesis
      using ok blocks m13 unfolding lock_ok_def by (auto simp: mask_simps upd_task_def)
  qed simp_all
qed

lemma try_is_round:
  assumes "lock_ok s" "phases s (me s) \<noteq> Waiting" "mutex_try_lock (sch s) (mtx s) = (True, m)"
  shows "mutex_lock_round (sch s) (mtx s) = (True, m, sch s)"
proof -
  have "\<not> bit (granted (mtx s)) (me s)" using phase_me(1) [OF assms(1)] assms(2) by auto
  with assms(3) lock_okD(2) [OF assms(1)] show ?thesis
    by (auto simp: mutex_try_lock_def mutex_lock_round_def Let_def mask_simps me_def split: if_splits)
qed

lemma lock_ok_tstate:
  assumes "lock_ok s" "length (g_tasks st) = TASK_MAX" "0 \<le> g_current st" "g_current st < int TASK_MAX"
    "\<And>u. u < TASK_MAX \<Longrightarrow> phases s u = Waiting \<Longrightarrow> tstate (g_tasks (sch s) ! u) \<noteq> TASK_BLOCKED \<Longrightarrow>
       tstate (g_tasks st ! u) \<noteq> TASK_BLOCKED"
  shows "lock_ok (s\<lparr>sch := st\<rparr>)"
proof -
  have "lock_view (s\<lparr>sch := st\<rparr>) u" if "u < TASK_MAX" for u
    using assms(5) [OF that] lock_okD(4) [OF assms(1) that] by (auto simp: lock_view_def split: phase.splits)
  with assms(1-4) show ?thesis unfolding lock_ok_def by simp
qed

lemma task_wake_tstate:
  "length (g_tasks st) = TASK_MAX \<Longrightarrow> tstate (g_tasks st ! u) \<noteq> TASK_BLOCKED \<Longrightarrow>
   tstate (g_tasks (task_wake i st) ! u) \<noteq> TASK_BLOCKED"
  by (auto simp: task_wake_def Let_def upd_task_def nth_list_update split: if_splits)

lemma task_wake_frame:
  "length (g_tasks (task_wake i st)) = length (g_tasks st)" "g_current (task_wake i st) = g_current st"
  by (simp_all add: task_wake_def Let_def upd_task_def)

lemma unlock_ok:
  assumes ok: "lock_ok s" and u: "mutex_unlock (sch s) (mtx s) = (m, st)" and nw: "phases s (me s) \<noteq> Waiting"
  shows "lock_ok \<lparr>mtx = m, sch = st, phases = (phases s)(me s := released (phases s (me s)))\<rparr>" (is "lock_ok ?s")
proof (cases "owner (mtx s) = int (me s)")
  case False
  then have "phases s (me s) = Outside"
    using lock_okD(4) [OF ok lock_okD(1) [OF ok]] nw by (auto simp: lock_view_def split: phase.splits)
  then have p: "(phases s)(me s := released (phases s (me s))) = phases s" by (simp add: fun_upd_idem)
  have m: "m = (mtx s)\<lparr>errors := errors (mtx s) + 1\<rparr>" "st = sch s"
    using u False lock_okD(2) [OF ok] by (auto simp: mutex_unlock_def)
  have "lock_view ?s v" if "v < TASK_MAX" for v
    unfolding p using m by (intro lock_view_other [OF lock_okD(4) [OF ok that] n_not_Suc_n]) simp_all
  then show ?thesis using ok m unfolding lock_ok_def by auto
next
  case True
  note m13 = lock_okD(1) [OF ok]
  have c: "g_current (sch s) = int (me s)" using lock_okD(2) [OF ok] by simp
  have ng: "\<not> bit (granted (mtx s)) (me s)" using phase_me(1) [OF ok] nw by auto
  from phase_me(2) [OF ok True ng] obtain n where
    n: "phases s (me s) = Inside n" "0 < n" "n < 4294967296" "depth (mtx s) = of_nat n" by auto
  have nb: "\<not> bit (waiters (mtx s)) (me s)"
    using lock_okD(4) [OF ok m13] n by (simp add: lock_view_def)
  have d: "depth (mtx s) > 1 \<longleftrightarrow> n > 1" using n by (simp add: word_less_nat_alt unat_of_nat)
  consider (nest) "n > 1" | (hand) "n = 1" "waiters (mtx s) \<noteq> 0" | (free) "n = 1" "waiters (mtx s) = 0"
    using n(2) by linarith
  then show ?thesis
  proof cases
    case nest
    then obtain k where k: "n = Suc (Suc k)" using less_imp_Suc_add [of 1 n] by auto
    have m: "m = (mtx s)\<lparr>depth := depth (mtx s) - 1\<rparr>" "st = sch s"
      using u nest d True c by (auto simp: mutex_unlock_def)
    have "lock_view ?s (me s)" using lock_okD(4) [OF ok m13] n k m by (simp add: lock_view_def)
    moreover have "lock_view ?s v" if "v < TASK_MAX" "v \<noteq> me s" for v
      using that m True by (intro lock_view_other [OF lock_okD(4) [OF ok that(1)] that(2)]) simp_all
    ultimately show ?thesis using ok m unfolding lock_ok_def by auto
  next
    case hand
    from waiters_nonzero [OF hand(2)] obtain j where "bit (waiters (mtx s)) j" ..
    moreover from this ok have "j \<in> set [0..<TASK_MAX]" by (simp add: lock_ok_def)
    ultimately obtain i where i: "i < TASK_MAX" "first_waiter (waiters (mtx s)) [0..<TASK_MAX] = int i"
      "bit (waiters (mtx s)) i" using first_waiter_found by fastforce
    have m: "m = (mtx s)\<lparr>waiters := waiters (mtx s) AND NOT (2 ^ i), granted := granted (mtx s) OR 2 ^ i,
        owner := int i, depth := 1, acquisitions := acquisitions (mtx s) + 1\<rparr>" "st = task_unblock (int i) (sch s)"
      using u hand d True c i(2) by (auto simp: mutex_unlock_def mask_simps Let_def)
    have im: "i \<noteq> me s" "i < 32" using i nb by auto
    have t: "tstate (g_tasks st ! i) \<noteq> TASK_BLOCKED" "length (g_tasks st) = TASK_MAX" "g_current st = g_current (sch s)"
      "\<And>v. v \<noteq> i \<Longrightarrow> g_tasks st ! v = g_tasks (sch s) ! v"
      using i lock_okD(3) [OF ok] by (auto simp: m(2) task_unblock_def upd_task_def)
    have "phases s i = Waiting" using lock_okD(4) [OF ok i(1)] i(3) by (auto simp: lock_view_def split: phase.splits)
    then have "lock_view ?s i" using im i m t by (simp add: lock_view_def mask_simps)
    moreover have "lock_view ?s (me s)" using lock_okD(4) [OF ok m13] n hand m im i(1) by (simp add: lock_view_def mask_simps)
    moreover have "lock_view ?s v" if "v < TASK_MAX" "v \<noteq> me s" "v \<noteq> i" for v
      using that m True t i by (intro lock_view_other [OF lock_okD(4) [OF ok that(1)] that(2)]) (simp_all add: mask_simps)
    ultimately have "\<forall>v < TASK_MAX. lock_view ?s v" by blast
    then show ?thesis using ok m i t im(2) unfolding lock_ok_def by (auto simp: mask_simps)
  next
    case free
    have m: "m = (mtx s)\<lparr>depth := 0, owner := MUTEX_FREE\<rparr>" "st = sch s"
      using u free d True c by (auto simp: mutex_unlock_def)
    have "\<not> bit (granted (mtx s)) v" for v
    proof
      assume b: "bit (granted (mtx s)) v"
      then have "v < TASK_MAX" using ok unfolding lock_ok_def by blast
      from lock_okD(4) [OF ok this] b have "owner (mtx s) = int v" by (auto simp: lock_view_def split: phase.splits)
      with True b ng show False by simp
    qed
    then have g: "granted (mtx s) = 0" using waiters_nonzero by blast
    have "lock_view ?s (me s)" using lock_okD(4) [OF ok m13] n free m by (simp add: lock_view_def)
    moreover have "lock_view ?s v" if "v < TASK_MAX" "v \<noteq> me s" for v
      using that m True by (intro lock_view_other [OF lock_okD(4) [OF ok that(1)] that(2)]) simp_all
    ultimately have "\<forall>v < TASK_MAX. lock_view ?s v" by blast
    then show ?thesis using ok m g free unfolding lock_ok_def by auto
  qed
qed

lemma lock_step_ok: "lock_step s s' \<Longrightarrow> lock_ok s \<Longrightarrow> lock_ok s'"
proof (induction rule: lock_step.induct)
  case (try_returns s m)
  from lock_returns_ok [OF try_returns.prems try_is_round [OF try_returns.prems try_returns.hyps(2,1)] try_returns.hyps(3)]
  show ?case .
next
  case (try_fails s m)
  then show ?case by (cases s) (auto simp: mutex_try_lock_def Let_def split: if_splits)
next
  case (dispatch t s)
  then show ?case by (intro lock_ok_tstate) (auto simp: lock_ok_def)
next
  case (woken s i)
  then show ?case
    by (intro lock_ok_tstate) (auto simp: lock_ok_def task_wake_frame task_wake_tstate)
next
  case (sleeps s st)
  show ?case
  proof (rule lock_ok_tstate [OF sleeps.prems])
    fix u assume "phases s u = Waiting" "tstate (g_tasks (sch s) ! u) \<noteq> TASK_BLOCKED"
    then show "tstate (g_tasks (upd_task (me s) (\<lambda>t. t\<lparr>tstate := st\<rparr>) (sch s)) ! u) \<noteq> TASK_BLOCKED"
      using sleeps.hyps by (cases "u = me s") (simp_all add: upd_task_def)
  qed (use sleeps.prems in \<open>simp_all add: lock_ok_def upd_task_def\<close>)
qed (auto intro: lock_returns_ok lock_blocks_ok unlock_ok)

interpretation lock_sys: invariant_system lock_boot lock_step lock_ok
proof
  fix s assume "lock_boot s"
  then show "lock_ok s" by (simp add: lock_boot_def lock_ok_def mutex_init_def lock_view_def)
qed (rule lock_step_ok)

subsection \<open>Properties\<close>

definition holds :: "lock_sys \<Rightarrow> nat \<Rightarrow> bool" where
  "holds s t \<longleftrightarrow> (\<exists>n. phases s t = Inside n)"

definition task_example :: "task_t" where
  "task_example = \<lparr>sp = 0, tstate = TASK_READY, prio = 1, base_prio = 1, wake_tick = 0, woken = False,
     switches = 0, resumes = 0, waiting = 0, tname = [], stack_base = 0, stack_words = 0\<rparr>"

definition lock_example :: "lock_sys" where
  "lock_example = \<lparr>mtx = mutex_init, sch = \<lparr>g_tasks = replicate 13 task_example, g_current = 0, g_idle_id = -1,
     g_run_cycles = [], g_slice_start = 0, g_max_wait = 0, g_wait_hist = [], g_age_rescues = 0, g_blob_pin_ticks = 0,
     pin_last_seq = 0, g_sleep_clamped = 0, g_win_mask = [], g_win_base = [], g_win_union = 0,
     g_win_disowned = False, g_disown_hits = 0, g_multiframe_count = 0, g_multiframe_worst = 0,
     g_multiframe_ws = 0, g_multiframe_task = -1, g_term_addr = [], g_term_val = [],
     wd = \<lparr>wd_ticks = 0, wd_seen = 0, g_feeds = 0, g_starved = 0\<rparr>, tmem = (\<lambda>_. 0)\<rparr>, phases = (\<lambda>_. Outside)\<rparr>"

lemma lock_example_reaches: "reaches lock_boot lock_step lock_example"
  by (rule reaches_start) (simp add: lock_boot_def lock_example_def)

text \<open>Task 0 takes the lock of the example; tasks 2 and 1 then ask for it, in that order.\<close>

definition lock_round_of :: "nat \<Rightarrow> lock_sys \<Rightarrow> lock_sys" where
  "lock_round_of t s0 =
     (let s = s0\<lparr>sch := (sch s0)\<lparr>g_current := int t\<rparr>\<rparr>; (b, m, st) = mutex_lock_round (sch s) (mtx s) in
      \<lparr>mtx = m, sch = st, phases = (phases s)(me s := if b then nested (phases s (me s)) else Waiting)\<rparr>)"

lemma lock_round_of_step:
  assumes "reaches lock_boot lock_step s" "t < TASK_MAX" "tstate (g_tasks (sch s) ! t) = TASK_READY"
    "depth (mtx s) < 0xFFFFFFFF"
  shows "reaches lock_boot lock_step (lock_round_of t s)"
proof -
  let ?s = "s\<lparr>sch := (sch s)\<lparr>g_current := int t\<rparr>\<rparr>"
  have r: "reaches lock_boot lock_step ?s"
    by (rule reaches_step [where step = lock_step, OF assms(1) dispatch [OF assms(2,3)]])
  obtain b m st where l: "mutex_lock_round (sch ?s) (mtx ?s) = (b, m, st)" by (cases "mutex_lock_round (sch ?s) (mtx ?s)")
  show ?thesis
  proof (cases b)
    case True
    with l have "mutex_lock_round (sch ?s) (mtx ?s) = (True, m, st)" by simp
    from reaches_step [where step = lock_step, OF r lock_returns [OF this]] assms(4) l True
    show ?thesis by (simp add: lock_round_of_def Let_def)
  next
    case False
    with l have "mutex_lock_round (sch ?s) (mtx ?s) = (False, m, st)" by simp
    from reaches_step [where step = lock_step, OF r lock_blocks [OF this]] l False
    show ?thesis by (simp add: lock_round_of_def Let_def)
  qed
qed

definition lock_queue :: lock_sys where
  "lock_queue = lock_round_of 1 (lock_round_of 2 (lock_round_of 0 lock_example))"

lemmas lock_eval = lock_round_of_def lock_example_def mutex_lock_round_def mutex_init_def task_example_def
  task_block_def upd_task_def me_def Let_def

lemma lock_queue_reaches: "reaches lock_boot lock_step lock_queue"
proof -
  have a: "reaches lock_boot lock_step (lock_round_of 0 lock_example)"
    by (rule lock_round_of_step [OF lock_example_reaches]) (simp_all add: lock_eval)
  have b: "reaches lock_boot lock_step (lock_round_of 2 (lock_round_of 0 lock_example))"
    by (rule lock_round_of_step [OF a]) (simp_all add: lock_eval)
  show ?thesis unfolding lock_queue_def by (rule lock_round_of_step [OF b]) (simp_all add: lock_eval)
qed

text \<open>(C5) Mutual exclusion: in every interleaving of locks, tries, releases, dispatches and wake-ups,
  spurious ones included, at most one task holds the mutex, the mutex names it as its owner, and its
  recursion count is the number of acquisitions it has not released.\<close>

theorem mutex_exclusion:
  assumes "reaches lock_boot lock_step s" "t < TASK_MAX" "phases s t = Inside n"
  shows "owner (mtx s) = int t \<and> 0 < n \<and> unat (depth (mtx s)) = n \<and> (\<forall>u < TASK_MAX. holds s u \<longrightarrow> u = t)"
proof -
  from lock_sys.reaches_inv [OF assms(1)] have v: "\<And>u. u < TASK_MAX \<Longrightarrow> lock_view s u" by (simp add: lock_ok_def)
  from v [OF assms(2)] assms(3) have o: "owner (mtx s) = int t" "0 < n" "n < 2 ^ 32" "depth (mtx s) = of_nat n"
    by (simp_all add: lock_view_def)
  moreover have "u = t" if "u < TASK_MAX" "holds s u" for u
    using v [OF that(1)] that(2) o(1) by (auto simp: holds_def lock_view_def)
  ultimately show ?thesis by (simp add: unat_of_nat)
qed

theorem mutex_exclusion_witness:
  "reaches lock_boot lock_step lock_queue \<and> phases lock_queue 0 = Inside 1 \<and> owner (mtx lock_queue) = 0"
proof -
  have p: "phases lock_queue 0 = Inside 1" by (simp add: lock_queue_def lock_eval)
  with mutex_exclusion [OF lock_queue_reaches, of 0 1] lock_queue_reaches show ?thesis by simp
qed

text \<open>(C6) No lost wake-up: a task inside a call of \<open>mutex_lock\<close> that has not returned is either on the wait
  list of a mutex that some task owns, or it has been handed the lock and is not blocked. A free
  mutex has no waiters.\<close>

theorem mutex_no_lost_wakeup:
  assumes "reaches lock_boot lock_step s" "t < TASK_MAX" "phases s t = Waiting"
  shows "(bit (waiters (mtx s)) t \<and> 0 \<le> owner (mtx s) \<and> owner (mtx s) \<noteq> int t) \<or>
    (bit (granted (mtx s)) t \<and> owner (mtx s) = int t \<and> tstate (g_tasks (sch s) ! t) \<noteq> TASK_BLOCKED)"
proof -
  from lock_sys.reaches_inv [OF assms(1)] have ok: "lock_ok s" .
  from lock_okD(4) [OF ok assms(2)] assms(3) have "bit (granted (mtx s)) t \<noteq> bit (waiters (mtx s)) t"
    "bit (granted (mtx s)) t = (owner (mtx s) = int t)"
    "bit (granted (mtx s)) t \<longrightarrow> tstate (g_tasks (sch s) ! t) \<noteq> TASK_BLOCKED" by (auto simp: lock_view_def)
  with ok show ?thesis by (auto simp: lock_ok_def)
qed

theorem mutex_no_lost_wakeup_witness:
  "reaches lock_boot lock_step lock_queue \<and> phases lock_queue 2 = Waiting \<and> bit (waiters (mtx lock_queue)) 2"
proof -
  have p: "phases lock_queue 2 = Waiting" "owner (mtx lock_queue) = 0"
    by (simp_all add: lock_queue_def lock_eval mask_simps)
  with mutex_no_lost_wakeup [OF lock_queue_reaches, of 2] lock_queue_reaches show ?thesis by auto
qed

text \<open> Release hands the lock over: when the holder releases its last acquisition and tasks are waiting,
  the waiter with the lowest id becomes the owner with a recursion count of 1 and is not blocked, so
  no other task can take the lock before it runs, and its own round returns without a new
  acquisition. The order is by task id, not by waiting time: in the witness task 2 asked first and
  task 1 is served.\<close>

theorem mutex_unlock_hands_over:
  assumes "reaches lock_boot lock_step s" "phases s (me s) = Inside 1" "waiters (mtx s) \<noteq> 0"
  shows "\<exists>m st t. mutex_unlock (sch s) (mtx s) = (m, st) \<and> t < TASK_MAX
    \<and> bit (waiters (mtx s)) t \<and> (\<forall>u < t. \<not> bit (waiters (mtx s)) u)
    \<and> owner m = int t \<and> depth m = 1 \<and> tstate (g_tasks st ! t) \<noteq> TASK_BLOCKED
    \<and> mutex_lock_round (st\<lparr>g_current := int t\<rparr>) m = (True, m\<lparr>granted := granted m AND NOT (push_bit t 1)\<rparr>, st\<lparr>g_current := int t\<rparr>)"
proof -
  have fw: "first_waiter w [k..<n] = int i \<Longrightarrow> k \<le> u \<Longrightarrow> u < i \<Longrightarrow> u < n \<Longrightarrow> \<not> bit w u" for w k n i u
  proof (induction "n - k" arbitrary: k)
    case (Suc d)
    then have "[k..<n] = k # [Suc k..<n]" by (simp add: upt_rec)
    with Suc.prems Suc.hyps(1) [of "Suc k"] Suc.hyps(2) show ?case
      by (cases "k = u") (auto simp: mask_simps split: if_splits)
  qed simp
  from lock_sys.reaches_inv [OF assms(1)] have ok: "lock_ok s" .
  from waiters_nonzero [OF assms(3)] obtain j where j: "bit (waiters (mtx s)) j" ..
  with ok have "j \<in> set [0..<TASK_MAX]" by (simp add: lock_ok_def)
  from first_waiter_found [OF this j] obtain i where i: "i < TASK_MAX"
    "first_waiter (waiters (mtx s)) [0..<TASK_MAX] = int i" "bit (waiters (mtx s)) i" by auto
  from lock_okD(4) [OF ok lock_okD(1) [OF ok]] assms(2) have
    o: "owner (mtx s) = int (me s)" "depth (mtx s) = 1" by (simp_all add: lock_view_def)
  have c: "g_current (sch s) = int (me s)" using lock_okD(2) [OF ok] by simp
  let ?m = "(mtx s)\<lparr>waiters := waiters (mtx s) AND NOT (2 ^ i), granted := granted (mtx s) OR 2 ^ i,
        owner := int i, depth := 1, acquisitions := acquisitions (mtx s) + 1\<rparr>"
  have u: "mutex_unlock (sch s) (mtx s) = (?m, task_unblock (int i) (sch s))"
    using o c i(2) assms(3) by (simp add: mutex_unlock_def mask_simps Let_def)
  have t: "tstate (g_tasks (task_unblock (int i) (sch s)) ! i) \<noteq> TASK_BLOCKED"
    using i(1) lock_okD(3) [OF ok] by (auto simp: task_unblock_def upd_task_def)
  have r: "mutex_lock_round (st\<lparr>g_current := int i\<rparr>) ?m =
      (True, ?m\<lparr>granted := granted ?m AND NOT (push_bit i 1)\<rparr>, st\<lparr>g_current := int i\<rparr>)" for st
    using i(1) by (simp add: mutex_lock_round_def mask_simps Let_def)
  show ?thesis using u t r i fw [OF i(2)] by (intro exI conjI) auto
qed

theorem mutex_unlock_hands_over_witness:
  "\<exists>m st. mutex_unlock (sch (lock_queue\<lparr>sch := (sch lock_queue)\<lparr>g_current := 0\<rparr>\<rparr>)) (mtx lock_queue) = (m, st) \<and> owner m = 1"
proof -
  let ?s = "lock_queue\<lparr>sch := (sch lock_queue)\<lparr>g_current := int 0\<rparr>\<rparr>"
  have r: "reaches lock_boot lock_step ?s"
    by (rule reaches_step [where step = lock_step, OF lock_queue_reaches dispatch]) (simp_all add: lock_queue_def lock_eval mask_simps)
  have p: "phases ?s (me ?s) = Inside 1" "waiters (mtx ?s) = 6"
    by (simp_all add: lock_queue_def lock_eval mask_simps)
  have w: "waiters (mtx ?s) \<noteq> 0" unfolding p(2) by simp
  obtain m st t where u: "mutex_unlock (sch ?s) (mtx ?s) = (m, st)" "bit (waiters (mtx ?s)) t"
    "\<forall>u < t. \<not> bit (waiters (mtx ?s)) u" "owner m = int t"
    using mutex_unlock_hands_over [OF r p(1) w] by blast
  have "bit (6 :: u32) 1" "\<not> bit (6 :: u32) 0" by (simp_all add: bit_numeral_rec)
  with u(2,3) have "t = 1" unfolding p(2) by (metis less_one linorder_neqE_nat)
  with u show ?thesis by auto
qed

end
