(* ===== verification/KIpc.thy ===== *)
theory KIpc
  imports Prelude
begin

text \<open>
  Inter-application messaging, \<^verbatim>\<open>kernel/ipc.c\<close>: one mailbox of \<open>IPC_MSG_MAX\<close> bytes per application slot,
  with the state column of the application table that \<^verbatim>\<open>ipc_send\<close> consults (\<^verbatim>\<open>app_state\<close>, app.c). The
  contract is \<open>mail\<close>, a map from slots to at most one message; the operations refine it.
\<close>

abbreviation (input) APP_SLOTS :: nat where "APP_SLOTS \<equiv> 4"
abbreviation (input) IPC_MSG_MAX :: u32 where "IPC_MSG_MAX \<equiv> 64"

subsection \<open>Data and operations\<close>

datatype app_state_t = APP_FREE | APP_RUNNING | APP_HALTED | APP_FAULTED | APP_KILLED

definition app_state :: "app_state_t list \<Rightarrow> int \<Rightarrow> app_state_t" where
  "app_state states i = (if i \<ge> 0 \<and> i < int APP_SLOTS then states ! nat i else APP_FREE)"

record mailbox_t =
  mdata :: "u8 list"
  mlen :: u32
  mfrom :: int

record ipc =
  g_box :: "mailbox_t list"
  g_sent :: u32
  g_delivered :: u32
  g_refused :: u32

definition upd_box :: "nat \<Rightarrow> (mailbox_t \<Rightarrow> mailbox_t) \<Rightarrow> ipc \<Rightarrow> ipc" where
  "upd_box i f st = st\<lparr>g_box := (g_box st)[i := f (g_box st ! i)]\<rparr>"

definition ipc_init :: "ipc \<Rightarrow> ipc" where
  "ipc_init st = st\<lparr>g_box := map (\<lambda>b. b\<lparr>mlen := 0, mfrom := -1\<rparr>) (g_box st), g_sent := 0, g_delivered := 0, g_refused := 0\<rparr>"

text \<open>\<open>src\<close> are the \<open>len\<close> bytes behind the data pointer, copied over the start of the mailbox.\<close>

definition ipc_send :: "app_state_t list \<Rightarrow> int \<Rightarrow> int \<Rightarrow> u8 list \<Rightarrow> u32 \<Rightarrow> ipc \<Rightarrow> int \<times> ipc" where
  "ipc_send states from dst src len st =
     (if dst < 0 \<or> dst \<ge> int APP_SLOTS \<or> len = 0 \<or> len > IPC_MSG_MAX
      then (-1, st\<lparr>g_refused := g_refused st + 1\<rparr>)
      else if app_state states dst \<noteq> APP_RUNNING then (-1, st\<lparr>g_refused := g_refused st + 1\<rparr>)
      else if mlen (g_box st ! nat dst) \<noteq> 0 then (-1, st\<lparr>g_refused := g_refused st + 1\<rparr>)
      else (0, (upd_box (nat dst) (\<lambda>b. b\<lparr>mdata := take (unat len) src @ drop (unat len) (mdata b),
                 mlen := len, mfrom := from\<rparr>) st)\<lparr>g_sent := g_sent st + 1\<rparr>))"

text \<open>Returns the count, the bytes written through \<open>out\<close> and the sender written through \<open>from\<close>.\<close>

definition ipc_recv :: "int \<Rightarrow> u32 \<Rightarrow> ipc \<Rightarrow> (u32 \<times> u8 list \<times> int option) \<times> ipc" where
  "ipc_recv i mx st =
     (if i < 0 \<or> i \<ge> int APP_SLOTS then ((0, [], None), st)
      else
        let b = g_box st ! nat i; len = mlen b in
        if len = 0 then ((0, [], None), st)
        else
          let n = (if len < mx then len else mx) in
          ((n, take (unat n) (mdata b), Some (mfrom b)),
           (upd_box (nat i) (\<lambda>b. b\<lparr>mlen := 0, mfrom := -1\<rparr>) st)\<lparr>g_delivered := g_delivered st + 1\<rparr>))"

definition ipc_clear :: "int \<Rightarrow> ipc \<Rightarrow> ipc" where
  "ipc_clear i st =
     (if i < 0 \<or> i \<ge> int APP_SLOTS then st else upd_box (nat i) (\<lambda>b. b\<lparr>mlen := 0, mfrom := -1\<rparr>) st)"

subsection \<open>Contract\<close>

type_synonym mail = "int \<Rightarrow> (int \<times> u8 list) option"

definition mail_of :: "ipc \<Rightarrow> mail" where
  "mail_of st i = (if 0 \<le> i \<and> i < int APP_SLOTS \<and> mlen (g_box st ! nat i) \<noteq> 0
     then Some (mfrom (g_box st ! nat i), take (unat (mlen (g_box st ! nat i))) (mdata (g_box st ! nat i))) else None)"

definition ipc_ok :: "ipc \<Rightarrow> bool" where
  "ipc_ok st \<longleftrightarrow> length (g_box st) = APP_SLOTS \<and> (\<forall>b \<in> set (g_box st). length (mdata b) = 64 \<and> mlen b \<le> IPC_MSG_MAX)"

definition send_spec :: "app_state_t list \<Rightarrow> int \<Rightarrow> int \<Rightarrow> u8 list \<Rightarrow> mail \<Rightarrow> bool \<times> mail" where
  "send_spec states from dst src m =
     (if 0 \<le> dst \<and> dst < int APP_SLOTS \<and> src \<noteq> [] \<and> length src \<le> 64 \<and> app_state states dst = APP_RUNNING \<and> m dst = None
      then (True, m(dst \<mapsto> (from, src))) else (False, m))"

definition recv_spec :: "int \<Rightarrow> nat \<Rightarrow> mail \<Rightarrow> (u8 list \<times> int option) \<times> mail" where
  "recv_spec i n m = (case m i of None \<Rightarrow> (([], None), m) | Some (from, bs) \<Rightarrow> ((take n bs, Some from), m(i := None)))"

lemma length_upd_box [simp]: "length (g_box (upd_box i f st)) = length (g_box st)"
  by (simp add: upd_box_def)

lemma upd_box_nth: "i < length (g_box st) \<Longrightarrow> g_box (upd_box i f st) ! j = (if j = i then f (g_box st ! i) else g_box st ! j)"
  by (simp add: upd_box_def)

lemma ipc_ok_upd:
  "ipc_ok st \<Longrightarrow> i < APP_SLOTS \<Longrightarrow> (\<And>b. length (mdata b) = 64 \<Longrightarrow> mlen b \<le> 64 \<Longrightarrow> length (mdata (f b)) = 64 \<and> mlen (f b) \<le> 64) \<Longrightarrow>
   ipc_ok (upd_box i f st)"
  using set_update_subset_insert [of "g_box st" i "f (g_box st ! i)"]
  by (auto simp: ipc_ok_def upd_box_def)

lemma mail_of_frame [simp]:
  "mail_of (st\<lparr>g_refused := k\<rparr>) = mail_of st" "mail_of (st\<lparr>g_sent := k\<rparr>) = mail_of st"
  "mail_of (st\<lparr>g_delivered := k\<rparr>) = mail_of st"
  "ipc_ok (st\<lparr>g_refused := k\<rparr>) = ipc_ok st" "ipc_ok (st\<lparr>g_sent := k\<rparr>) = ipc_ok st"
  "ipc_ok (st\<lparr>g_delivered := k\<rparr>) = ipc_ok st"
  by (auto simp: mail_of_def ipc_ok_def fun_eq_iff)

lemma mail_of_upd:
  assumes "ipc_ok st" "0 \<le> i" "i < int APP_SLOTS"
  shows "mail_of (upd_box (nat i) f st) = (mail_of st)(i := (let b = f (g_box st ! nat i) in
    if mlen b \<noteq> 0 then Some (mfrom b, take (unat (mlen b)) (mdata b)) else None))"
proof (rule ext)
  fix j
  have "nat i < length (g_box st)" using assms by (auto simp: ipc_ok_def)
  then show "mail_of (upd_box (nat i) f st) j = ((mail_of st)(i := (let b = f (g_box st ! nat i) in
    if mlen b \<noteq> 0 then Some (mfrom b, take (unat (mlen b)) (mdata b)) else None))) j"
    using assms by (auto simp: mail_of_def upd_box_nth Let_def nat_eq_iff)
qed

lemma ipc_send_refines:
  assumes "ipc_ok st" "length src = unat len"
  shows "(fst (ipc_send states from dst src len st) = 0, mail_of (snd (ipc_send states from dst src len st)))
      = send_spec states from dst src (mail_of st)
    \<and> ipc_ok (snd (ipc_send states from dst src len st))"
proof (cases "dst < 0 \<or> dst \<ge> int APP_SLOTS \<or> len = 0 \<or> len > IPC_MSG_MAX \<or> app_state states dst \<noteq> APP_RUNNING
    \<or> mlen (g_box st ! nat dst) \<noteq> 0")
  case True
  then have "send_spec states from dst src (mail_of st) = (False, mail_of st)"
    using assms by (auto simp: send_spec_def mail_of_def word_less_nat_alt)
  moreover have "ipc_send states from dst src len st = (-1, st\<lparr>g_refused := g_refused st + 1\<rparr>)"
    using True by (auto simp: ipc_send_def)
  ultimately show ?thesis using assms(1) by simp
next
  case False
  then have src: "src \<noteq> []" "length src \<le> 64"
    using assms(2) u32_eq_0_iff [of len] by (auto simp: word_less_nat_alt not_less)
  have d: "0 \<le> dst" "dst < int APP_SLOTS" using False by auto
  have len: "len \<le> 64" "unat len \<le> 64" using False by (auto simp: not_less word_le_nat_alt)
  have "ipc_ok (upd_box (nat dst) (\<lambda>b. b\<lparr>mdata := take (unat len) src @ drop (unat len) (mdata b),
                 mlen := len, mfrom := from\<rparr>) st)"
    using assms d len by (intro ipc_ok_upd) auto
  with False assms d src show ?thesis
    by (auto simp: ipc_send_def send_spec_def mail_of_upd Let_def mail_of_def)
qed

lemma ipc_recv_refines:
  assumes "ipc_ok st"
  shows "(case ipc_recv i mx st of ((n, bs, from), st') \<Rightarrow> ((bs, from), mail_of st') = recv_spec i (unat mx) (mail_of st)
      \<and> unat n = length bs \<and> ipc_ok st')"
proof (cases "mail_of st i")
  case None
  with assms show ?thesis
    by (auto simp: ipc_recv_def recv_spec_def mail_of_def Let_def split: if_splits)
next
  case (Some fb)
  then have i: "0 \<le> i" "i < int APP_SLOTS" "mlen (g_box st ! nat i) \<noteq> 0"
    and fb: "fb = (mfrom (g_box st ! nat i), take (unat (mlen (g_box st ! nat i))) (mdata (g_box st ! nat i)))"
    by (auto simp: mail_of_def split: if_splits)
  let ?b = "g_box st ! nat i" and ?n = "if mlen (g_box st ! nat i) < mx then mlen (g_box st ! nat i) else mx"
  have "?b \<in> set (g_box st)" using assms i by (auto simp: ipc_ok_def)
  then have b: "length (mdata ?b) = 64" "unat (mlen ?b) \<le> 64"
    using assms by (auto simp: ipc_ok_def word_le_nat_alt)
  have n: "unat ?n = min (unat mx) (unat (mlen ?b))" by (auto simp: word_less_nat_alt min_def)
  have ok: "ipc_ok (upd_box (nat i) (\<lambda>b. b\<lparr>mlen := 0, mfrom := -1\<rparr>) st)"
    using assms i by (intro ipc_ok_upd) auto
  have r: "ipc_recv i mx st = ((?n, take (unat ?n) (mdata ?b), Some (mfrom ?b)),
      (upd_box (nat i) (\<lambda>b. b\<lparr>mlen := 0, mfrom := -1\<rparr>) st)\<lparr>g_delivered := g_delivered st + 1\<rparr>)"
    using i by (simp add: ipc_recv_def Let_def)
  show ?thesis
    unfolding r using Some fb b n ok i assms by (simp add: recv_spec_def mail_of_upd min.commute)
qed

lemma ipc_clear_mail: "ipc_ok st \<Longrightarrow> ipc_ok (ipc_clear i st) \<and> mail_of (ipc_clear i st) = (mail_of st)(i := None)"
proof (cases "i < 0 \<or> i \<ge> int APP_SLOTS")
  case True
  then show "ipc_ok st \<Longrightarrow> ?thesis" by (auto simp: ipc_clear_def mail_of_def fun_eq_iff)
next
  case False
  assume ok: "ipc_ok st"
  have "ipc_ok (upd_box (nat i) (\<lambda>b. b\<lparr>mlen := 0, mfrom := -1\<rparr>) st)"
    using ok False by (intro ipc_ok_upd) auto
  then show ?thesis using False ok by (simp add: ipc_clear_def mail_of_upd)
qed

subsection \<open>Properties\<close>

definition ipc_example :: ipc where
  "ipc_example = \<lparr>g_box = replicate 4 \<lparr>mdata = replicate 64 0, mlen = 0, mfrom = -1\<rparr>, g_sent = 0, g_delivered = 0, g_refused = 0\<rparr>"

lemma ipc_example_ok: "ipc_ok ipc_example"
  by (simp add: ipc_ok_def ipc_example_def)

text \<open> Refinement: on well-formed mailboxes \<open>ipc_send\<close>, \<open>ipc_recv\<close> and \<open>ipc_clear\<close> implement the one-message
  mail contract: a send is accepted exactly when the destination exists, is running, has no pending
  message and the length is 1 to 64, and then holds exactly the sender and those bytes; every other
  mailbox is untouched; a receive returns at most \<open>mx\<close> bytes of the pending message, reports that
  number rather than the length of the message, and empties the mailbox.\<close>

theorem ipc_refines_mail:
  assumes "ipc_ok st"
  shows "(length src = unat len \<longrightarrow>
      (fst (ipc_send states from dst src len st) = 0, mail_of (snd (ipc_send states from dst src len st)))
        = send_spec states from dst src (mail_of st)
      \<and> ipc_ok (snd (ipc_send states from dst src len st)))
    \<and> (case ipc_recv i mx st of ((n, bs, frm), st') \<Rightarrow>
        ((bs, frm), mail_of st') = recv_spec i (unat mx) (mail_of st) \<and> unat n = length bs \<and> ipc_ok st')
    \<and> mail_of (ipc_clear i st) = (mail_of st)(i := None) \<and> ipc_ok (ipc_clear i st)"
proof (intro conjI impI)
  assume l: "length src = unat len"
  show "(fst (ipc_send states from dst src len st) = 0, mail_of (snd (ipc_send states from dst src len st)))
        = send_spec states from dst src (mail_of st)" "ipc_ok (snd (ipc_send states from dst src len st))"
    using ipc_send_refines [OF assms l] by blast+
next
  show "case ipc_recv i mx st of ((n, bs, frm), st') \<Rightarrow>
        ((bs, frm), mail_of st') = recv_spec i (unat mx) (mail_of st) \<and> unat n = length bs \<and> ipc_ok st'"
    by (rule ipc_recv_refines [OF assms])
  show "mail_of (ipc_clear i st) = (mail_of st)(i := None)" "ipc_ok (ipc_clear i st)"
    using ipc_clear_mail [OF assms] by blast+
qed

theorem ipc_refines_mail_witness:
  "fst (ipc_send [APP_RUNNING, APP_RUNNING, APP_FREE, APP_FREE] 0 1 [7, 8] 2 ipc_example) = 0
     \<and> mail_of (snd (ipc_send [APP_RUNNING, APP_RUNNING, APP_FREE, APP_FREE] 0 1 [7, 8] 2 ipc_example)) 1 = Some (0, [7, 8])"
proof -
  have "mail_of ipc_example = (\<lambda>_. None)" by (auto simp: mail_of_def ipc_example_def fun_eq_iff)
  with ipc_refines_mail [OF ipc_example_ok, of "[7, 8]" 2 "[APP_RUNNING, APP_RUNNING, APP_FREE, APP_FREE]" 0 1]
  show ?thesis by (simp add: send_spec_def app_state_def)
qed

text \<open>Round trip: what is sent is what is received, byte for byte and with the sender's identity, whatever
  else is sent to other slots in between.\<close>

theorem ipc_round_trip:
  assumes "ipc_ok st" "ipc_send states from dst src len st = (0, st1)" "length src = unat len"
    "length src2 = unat len2" "dst2 \<noteq> dst"
  shows "\<exists>st3. ipc_recv dst IPC_MSG_MAX (snd (ipc_send states from2 dst2 src2 len2 st1)) = ((len, src, Some from), st3)"
proof -
  have s1: "(True, mail_of st1) = send_spec states from dst src (mail_of st)" "ipc_ok st1"
    using ipc_send_refines [OF assms(1,3), of states "from" dst] assms(2) by auto
  then have m1: "mail_of st1 dst = Some (from, src)" "length src \<le> 64" by (auto simp: send_spec_def split: if_splits)
  let ?s2 = "snd (ipc_send states from2 dst2 src2 len2 st1)"
  have ok2: "ipc_ok ?s2" and "mail_of ?s2 = snd (send_spec states from2 dst2 src2 (mail_of st1))"
    using ipc_send_refines [OF s1(2) assms(4), of states from2 dst2] by (auto simp: prod_eq_iff)
  then have m2: "mail_of ?s2 dst = Some (from, src)" using m1 assms(5) by (simp add: send_spec_def)
  obtain n bs f st3 where r: "ipc_recv dst IPC_MSG_MAX ?s2 = ((n, bs, f), st3)" by (cases "ipc_recv dst 64 ?s2") auto
  from ipc_recv_refines [OF ok2, of dst 64] m1 m2 have "bs = src" "f = Some from" "unat n = length src"
    unfolding r by (auto simp: recv_spec_def)
  then have "n = len" using assms(3) by (simp add: word_unat_eq_iff)
  with r \<open>bs = src\<close> \<open>f = Some from\<close> show ?thesis by simp
qed

theorem ipc_round_trip_witness:
  "\<exists>st3. ipc_recv 1 IPC_MSG_MAX (snd (ipc_send [APP_RUNNING, APP_RUNNING, APP_FREE, APP_FREE] 1 0 [9] 1
     (snd (ipc_send [APP_RUNNING, APP_RUNNING, APP_FREE, APP_FREE] 0 1 [7, 8] 2 ipc_example)))) = ((2, [7, 8], Some 0), st3)"
proof -
  let ?S = "[APP_RUNNING, APP_RUNNING, APP_FREE, APP_FREE]"
  have "ipc_send ?S 0 1 [7, 8] 2 ipc_example = (0, snd (ipc_send ?S 0 1 [7, 8] 2 ipc_example))"
    by (simp add: ipc_send_def app_state_def ipc_example_def)
  from ipc_round_trip [OF ipc_example_ok this, of "[9]" 1 0 1] show ?thesis by simp
qed

end
