(* ===== verification/KStore.thy ===== *)
theory KStore
  imports Prelude
begin

text \<open>
  The persistent record, \<^verbatim>\<open>kernel/store.c\<close>. The flash sector holds at most one record: \<open>None\<close> is a sector
  that does not read back as one (erased, or cut off mid-write). The outcomes of the flash driver's
  operations are arguments, in the order of the calls; the save predicate is the optional answer of the
  registered function.
\<close>

subsection \<open>Data\<close>

abbreviation (input) STORE_MAGIC :: u32 where "STORE_MAGIC \<equiv> 0x59444F53"
abbreviation (input) STORE_VERSION :: u32 where "STORE_VERSION \<equiv> 4"
abbreviation (input) STORE_SLOT_BANKS :: u32 where "STORE_SLOT_BANKS \<equiv> 5"
abbreviation (input) STORE_SLOTS_PER_BANK :: u32 where "STORE_SLOTS_PER_BANK \<equiv> 4"
abbreviation (input) STORE_DEFER_MAX :: u32 where "STORE_DEFER_MAX \<equiv> 32"
abbreviation (input) STORE_FAULT_NONE :: u32 where "STORE_FAULT_NONE \<equiv> 0"

record store_t =
  s_magic :: u32
  s_version :: u32
  s_boots :: u32
  s_frames :: u32
  s_fault_kind :: u32
  s_fault_detail :: u32
  s_fault_epc :: u32
  s_fault_boot :: u32
  s_cal_x_min :: u32
  s_cal_x_max :: u32
  s_cal_y_min :: u32
  s_cal_y_max :: u32
  s_slots :: "u32 list list"
  s_checksum :: u32

record store =
  g_rec :: store_t
  g_dirty :: bool
  g_valid :: bool
  g_defer_run :: u32
  g_deferrals :: u32
  g_forced :: u32
  flash_data :: "store_t option"

subsection \<open>Operations\<close>

definition store_sum :: "store_t \<Rightarrow> u32" where
  "store_sum r = s_magic r + s_version r + s_boots r + s_frames r + s_fault_kind r + s_fault_detail r
     + s_fault_epc r + s_fault_boot r + s_cal_x_min r + s_cal_x_max r + s_cal_y_min r + s_cal_y_max r + 0x9E3779B9"

definition store_defaults :: "store_t \<Rightarrow> store_t" where
  "store_defaults r = r\<lparr>s_magic := STORE_MAGIC, s_version := STORE_VERSION, s_boots := 0, s_frames := 0,
     s_fault_kind := STORE_FAULT_NONE, s_fault_detail := 0, s_fault_epc := 0, s_fault_boot := 0,
     s_cal_x_min := 0, s_cal_x_max := 0, s_cal_y_min := 0, s_cal_y_max := 0, s_slots := replicate 5 (replicate 4 0)\<rparr>"

text \<open>\<open>read_ok\<close> is whether \<^verbatim>\<open>flash_read\<close> returned 0.\<close>

definition store_load :: "bool \<Rightarrow> store \<Rightarrow> int \<times> store" where
  "store_load read_ok st =
     (let st1 = st\<lparr>g_valid := False\<rparr>;
          defaults = (-1, st1\<lparr>g_rec := store_defaults (g_rec st1)\<rparr>)
      in if \<not> read_ok then defaults
         else case flash_data st1 of
           None \<Rightarrow> defaults
         | Some r \<Rightarrow>
             if s_magic r \<noteq> STORE_MAGIC \<or> s_version r \<noteq> STORE_VERSION then defaults
             else if s_checksum r \<noteq> store_sum r then defaults
             else (0, st1\<lparr>g_rec := r, g_valid := True\<rparr>))"

text \<open>\<open>erase_ok\<close> and \<open>write_ok\<close> are the outcomes of the two flash operations. A write that fails after the
  erase leaves a sector that holds no record.\<close>

definition store_save :: "bool \<Rightarrow> bool \<Rightarrow> store \<Rightarrow> int \<times> store" where
  "store_save erase_ok write_ok st =
     (let r = (g_rec st)\<lparr>s_checksum := store_sum (g_rec st)\<rparr>; st1 = st\<lparr>g_rec := r\<rparr> in
      if \<not> erase_ok then (-1, st1)
      else if write_ok then (0, st1\<lparr>flash_data := Some r, g_dirty := False\<rparr>)
      else (-1, st1\<lparr>flash_data := None\<rparr>))"

definition store_save_if_allowed :: "bool option \<Rightarrow> bool \<Rightarrow> bool \<Rightarrow> store \<Rightarrow> int \<times> store" where
  "store_save_if_allowed may_save erase_ok write_ok st =
     (if \<not> g_dirty st then (0, st)
      else if may_save = Some False then
        let st1 = st\<lparr>g_deferrals := g_deferrals st + 1, g_defer_run := g_defer_run st + 1\<rparr> in
        if g_defer_run st1 < STORE_DEFER_MAX then (1, st1)
        else store_save erase_ok write_ok (st1\<lparr>g_forced := g_forced st1 + 1, g_defer_run := 0\<rparr>)
      else store_save erase_ok write_ok (st\<lparr>g_defer_run := 0\<rparr>))"

definition store_slot_get :: "u32 \<Rightarrow> u32 \<Rightarrow> store \<Rightarrow> u32 option" where
  "store_slot_get bank slot st =
     (if bank \<ge> STORE_SLOT_BANKS \<or> slot \<ge> STORE_SLOTS_PER_BANK then None
      else Some (s_slots (g_rec st) ! unat bank ! unat slot))"

definition store_slot_set :: "u32 \<Rightarrow> u32 \<Rightarrow> u32 \<Rightarrow> store \<Rightarrow> bool \<times> store" where
  "store_slot_set bank slot value st =
     (if bank \<ge> STORE_SLOT_BANKS \<or> slot \<ge> STORE_SLOTS_PER_BANK then (False, st)
      else if s_slots (g_rec st) ! unat bank ! unat slot \<noteq> value then
        let row = s_slots (g_rec st) ! unat bank in
        (True, st\<lparr>g_rec := (g_rec st)\<lparr>s_slots := (s_slots (g_rec st))[unat bank := row[unat slot := value]]\<rparr>, g_dirty := True\<rparr>)
      else (True, st))"

definition store_set_frames :: "u32 \<Rightarrow> store \<Rightarrow> store" where
  "store_set_frames f st = st\<lparr>g_rec := (g_rec st)\<lparr>s_frames := f\<rparr>\<rparr>"

definition store_has_calibration :: "store \<Rightarrow> bool" where
  "store_has_calibration st = (s_cal_x_max (g_rec st) > s_cal_x_min (g_rec st))"

definition calib_persist :: "u32 \<Rightarrow> u32 \<Rightarrow> u32 \<Rightarrow> u32 \<Rightarrow> bool \<Rightarrow> bool \<Rightarrow> store \<Rightarrow> store" where
  "calib_persist xmin xmax ymin ymax erase_ok write_ok st =
     snd (store_save erase_ok write_ok (st\<lparr>g_rec := (g_rec st)\<lparr>s_cal_x_min := xmin, s_cal_x_max := xmax,
       s_cal_y_min := ymin, s_cal_y_max := ymax\<rparr>\<rparr>))"

definition store_record_fault :: "u32 \<Rightarrow> u32 \<Rightarrow> u32 \<Rightarrow> bool \<Rightarrow> bool \<Rightarrow> store \<Rightarrow> int \<times> store" where
  "store_record_fault kind detail epc erase_ok write_ok st =
     store_save erase_ok write_ok (st\<lparr>g_rec := (g_rec st)\<lparr>s_fault_kind := kind, s_fault_detail := detail,
       s_fault_epc := epc, s_fault_boot := s_boots (g_rec st)\<rparr>\<rparr>)"

definition store_count_boot :: "store \<Rightarrow> store" where
  "store_count_boot st = st\<lparr>g_rec := (g_rec st)\<lparr>s_boots := s_boots (g_rec st) + 1\<rparr>\<rparr>"

subsection \<open>Invariant\<close>

text \<open>The record in memory is always one that would be accepted from flash, with a full table of slots.\<close>

definition rec_ok :: "store_t \<Rightarrow> bool" where
  "rec_ok r \<longleftrightarrow> s_magic r = STORE_MAGIC \<and> s_version r = STORE_VERSION
     \<and> length (s_slots r) = 5 \<and> (\<forall>row \<in> set (s_slots r). length row = 4)"

definition store_ok :: "store \<Rightarrow> bool" where
  "store_ok st \<longleftrightarrow> rec_ok (g_rec st)"

inductive store_step :: "store \<Rightarrow> store \<Rightarrow> bool" where
  st_save: "store_step st (snd (store_save e w st))"
| st_allowed: "store_step st (snd (store_save_if_allowed p e w st))"
| st_slot: "store_step st (snd (store_slot_set b s v st))"
| st_frames: "store_step st (store_set_frames f st)"
| st_calib: "store_step st (calib_persist x1 x2 y1 y2 e w st)"
| st_fault: "store_step st (snd (store_record_fault k d p e w st))"
| st_boot: "store_step st (store_count_boot st)"

text \<open>A history starts with the load at boot. A record of the current version in flash has its table of slots
  whole, since the sector holds the bytes of the whole structure.\<close>

definition store_boot :: "store \<Rightarrow> bool" where
  "store_boot st \<longleftrightarrow> (\<exists>ok st0. st = snd (store_load ok st0) \<and>
     (\<forall>r. flash_data st0 = Some r \<longrightarrow> length (s_slots r) = 5 \<and> (\<forall>row \<in> set (s_slots r). length row = 4)))"

lemma store_save_rec: "store_ok st \<Longrightarrow> store_ok (snd (store_save e w st))"
  by (simp add: store_ok_def rec_ok_def store_save_def Let_def)

lemma bank_rows:
  "rec_ok r \<Longrightarrow> b < 5 \<Longrightarrow> length (s_slots r ! unat (b :: u32)) = 4"
proof -
  assume r: "rec_ok r" "b < 5"
  then have "unat b < length (s_slots r)" by (simp add: rec_ok_def word_less_nat_alt)
  then show ?thesis using r by (auto simp: rec_ok_def)
qed

lemma store_slot_set_ok: "store_ok st \<Longrightarrow> store_ok (snd (store_slot_set b s v st))"
  using set_update_subset_insert [of "s_slots (g_rec st)" "unat b" "(s_slots (g_rec st) ! unat b)[unat s := v]"]
    bank_rows [of "g_rec st" b]
  by (auto simp: store_ok_def rec_ok_def store_slot_set_def Let_def not_le)

lemma store_step_ok: "store_step st st' \<Longrightarrow> store_ok st \<Longrightarrow> store_ok st'"
proof (induction rule: store_step.induct)
  case (st_allowed st p e w)
  then have "store_ok (st\<lparr>g_deferrals := a, g_defer_run := b, g_forced := c\<rparr>)" for a b c by (simp add: store_ok_def)
  with st_allowed show ?case
    by (auto simp: store_save_if_allowed_def Let_def store_ok_def store_save_rec [unfolded store_ok_def])
next
  case (st_slot st b s v)
  then show ?case by (rule store_slot_set_ok)
qed (auto simp: store_save_rec store_set_frames_def calib_persist_def store_record_fault_def
    store_count_boot_def store_ok_def rec_ok_def store_save_def Let_def)

lemma store_load_ok:
  assumes "\<forall>r. flash_data st = Some r \<longrightarrow> length (s_slots r) = 5 \<and> (\<forall>row \<in> set (s_slots r). length row = 4)"
  shows "store_ok (snd (store_load ok st))"
proof (cases "flash_data st")
  case None
  then show ?thesis by (simp add: store_load_def store_ok_def rec_ok_def store_defaults_def Let_def)
next
  case (Some r)
  with assms have "length (s_slots r) = 5" "\<forall>row \<in> set (s_slots r). length row = 4" by blast+
  with Some show ?thesis by (simp add: store_load_def store_ok_def rec_ok_def store_defaults_def Let_def)
qed

interpretation store_sys: invariant_system store_boot store_step store_ok
proof
  fix st assume "store_boot st"
  then show "store_ok st" using store_load_ok by (auto simp: store_boot_def)
qed (rule store_step_ok)

subsection \<open>Properties\<close>

definition store_blank :: store where
  "store_blank = snd (store_load True \<lparr>g_rec = store_defaults \<lparr>s_magic = 0, s_version = 0, s_boots = 0, s_frames = 0,
     s_fault_kind = 0, s_fault_detail = 0, s_fault_epc = 0, s_fault_boot = 0, s_cal_x_min = 0, s_cal_x_max = 0,
     s_cal_y_min = 0, s_cal_y_max = 0, s_slots = [], s_checksum = 0\<rparr>, g_dirty = False, g_valid = False,
     g_defer_run = 0, g_deferrals = 0, g_forced = 0, flash_data = None\<rparr>)"

lemma store_blank_boot: "store_boot store_blank"
  unfolding store_boot_def store_blank_def by (intro exI conjI) (rule refl, simp)

lemma store_blank_reaches: "reaches store_boot store_step store_blank"
  by (rule reaches_start) (rule store_blank_boot)

lemma store_blank_fields:
  "s_slots (g_rec store_blank) = replicate 5 (replicate 4 0)" "s_boots (g_rec store_blank) = 0"
  "s_frames (g_rec store_blank) = 0" "g_defer_run store_blank = 0" "\<not> g_dirty store_blank"
  by (simp_all add: store_blank_def store_load_def store_defaults_def Let_def)

text \<open> Durability: in every reachable state a save whose flash operations succeed is found by the next load:
  it returns 0, the record is valid, and every field has the value it had when it was saved; a load
  that finds nothing valid gives the defaults.\<close>

theorem store_save_load:
  assumes "reaches store_boot store_step st"
  shows "\<exists>st1 st2. store_save True True st = (0, st1) \<and> \<not> g_dirty st1
    \<and> store_load True (st1\<lparr>g_rec := junk\<rparr>) = (0, st2) \<and> g_valid st2
    \<and> g_rec st2 = (g_rec st)\<lparr>s_checksum := store_sum (g_rec st)\<rparr>"
proof -
  have ok: "rec_ok (g_rec st)" using store_sys.reaches_inv [OF assms] by (simp add: store_ok_def)
  have "store_sum (r\<lparr>s_checksum := c\<rparr>) = store_sum r" for r c by (simp add: store_sum_def)
  with ok show ?thesis by (simp add: store_save_def store_load_def Let_def rec_ok_def)
qed

theorem store_save_load_witness:
  "\<exists>st1 st2. store_save True True (store_count_boot store_blank) = (0, st1) \<and> store_load True (st1\<lparr>g_rec := g_rec store_blank\<rparr>) = (0, st2)
     \<and> s_boots (g_rec st2) = 1"
proof -
  have "reaches store_boot store_step (store_count_boot store_blank)"
    by (rule reaches_step [where step = store_step, OF store_blank_reaches st_boot])
  from store_save_load [OF this, of "g_rec store_blank"] show ?thesis
    by (auto simp: store_count_boot_def store_blank_fields)
qed

text \<open>Slots are private to their bank.\<close>

lemma store_slot_get_set:
  assumes "store_ok st"
  shows "store_slot_get b' s' (snd (store_slot_set b s v st)) =
    (if (b', s') = (b, s) \<and> b < 5 \<and> s < 4 then Some v else store_slot_get b' s' st)
    \<and> (fst (store_slot_set b s v st) \<longleftrightarrow> b < 5 \<and> s < 4)"
proof (cases "b < 5 \<and> s < 4")
  case True
  then have i: "unat b < length (s_slots (g_rec st))" "unat s < length (s_slots (g_rec st) ! unat b)"
    using assms bank_rows [of "g_rec st" b] by (auto simp: store_ok_def rec_ok_def word_less_nat_alt)
  have ne: "\<not> 5 \<le> b" "\<not> 4 \<le> s" using True by auto
  show ?thesis
  proof (cases "b' < 5 \<and> s' < 4")
    case inr: True
    then have "\<not> 5 \<le> b'" "\<not> 4 \<le> s'" by auto
    with i ne True show ?thesis
      by (auto simp: store_slot_get_def store_slot_set_def Let_def nth_list_update word_unat_eq_iff)
  next
    case False
    then have "5 \<le> b' \<or> 4 \<le> s'" by auto
    with True show ?thesis by (auto simp: store_slot_get_def store_slot_set_def Let_def)
  qed
next
  case False
  then have "5 \<le> b \<or> 4 \<le> s" by auto
  with False show ?thesis by (auto simp: store_slot_set_def)
qed

definition attempt :: "bool option \<Rightarrow> store \<Rightarrow> store" where
  "attempt p st = snd (store_save_if_allowed p True True st)"

lemma attempt_cases:
  assumes "g_dirty st"
  shows "\<not> g_dirty (attempt p st) \<or>
    g_dirty (attempt p st) \<and> g_defer_run (attempt p st) = g_defer_run st + 1 \<and> g_defer_run (attempt p st) < 32"
  using assms by (auto simp: attempt_def store_save_if_allowed_def store_save_def Let_def)

lemma attempts_run:
  "(\<forall>k \<le> length ps. g_dirty (foldl (\<lambda>s p. attempt p s) st (take k ps))) \<Longrightarrow> g_defer_run st < 32 \<Longrightarrow>
   unat (g_defer_run (foldl (\<lambda>s p. attempt p s) st ps)) = unat (g_defer_run st) + length ps
     \<and> g_defer_run (foldl (\<lambda>s p. attempt p s) st ps) < 32"
proof (induction ps rule: rev_induct)
  case (snoc p ps)
  let ?f = "foldl (\<lambda>s p. attempt p s) st"
  have "\<forall>k \<le> length ps. g_dirty (?f (take k ps))"
  proof (intro allI impI)
    fix k assume "k \<le> length ps"
    with snoc.prems(1) show "g_dirty (?f (take k ps))" by (metis le_SucI length_append_singleton take_append take_all diff_is_0_eq take0 append_Nil2)
  qed
  with snoc have ih: "unat (g_defer_run (?f ps)) = unat (g_defer_run st) + length ps" "g_defer_run (?f ps) < 32" by blast+
  have d: "g_dirty (?f ps)" using snoc.prems(1) [rule_format, of "length ps"] by simp
  have d': "g_dirty (attempt p (?f ps))" using snoc.prems(1) [rule_format, of "Suc (length ps)"] by simp
  from attempt_cases [OF d, of p] d' have a: "g_defer_run (attempt p (?f ps)) = g_defer_run (?f ps) + 1"
    "g_defer_run (attempt p (?f ps)) < 32" by auto
  have "unat (g_defer_run (?f ps) + 1) = unat (g_defer_run (?f ps)) + 1"
    using ih(2) by (simp add: unat_add_u32 word_less_nat_alt)
  with a ih show ?case by simp
qed simp

text \<open> A dirty record is written within 32 periodic attempts, whatever the predicate answers: after any
  \<open>STORE_DEFER_MAX\<close> consecutive calls whose flash operations succeed, at least one has written it.\<close>

theorem store_deferral_bounded:
  assumes "g_defer_run st < STORE_DEFER_MAX" "length ps = 32"
  shows "\<exists>k \<le> 32. \<not> g_dirty (foldl (\<lambda>s p. snd (store_save_if_allowed p True True s)) st (take k ps))"
proof (rule ccontr)
  assume "\<not> ?thesis"
  then have "\<forall>k \<le> length ps. g_dirty (foldl (\<lambda>s p. attempt p s) st (take k ps))"
    using assms(2) by (auto simp: attempt_def [abs_def])
  from attempts_run [OF this assms(1)] assms(2) show False by (auto simp: word_less_nat_alt)
qed

theorem store_deferral_bounded_witness:
  "\<exists>k \<le> 32. \<not> g_dirty (foldl (\<lambda>s p. snd (store_save_if_allowed p True True s)) (snd (store_slot_set 0 0 5 store_blank))
      (take k (replicate 32 (Some False))))"
  by (rule store_deferral_bounded)
    (simp_all add: store_blank_fields store_slot_set_def Let_def)

text \<open>The checksum does not cover the slots: replacing the slots of a record in flash by anything else never
  changes whether the record is accepted.\<close>

theorem store_checksum_misses_slots:
  "fst (store_load True (st\<lparr>flash_data := Some (r\<lparr>s_slots := junk\<rparr>)\<rparr>)) = fst (store_load True (st\<lparr>flash_data := Some r\<rparr>))"
  by (simp add: store_load_def store_sum_def Let_def)

text \<open> The periodic save does not see the frame counter: after a save, a new frame count followed by the
  periodic save, with nothing registered to refuse it, leaves the old count in flash, so the next boot
  loads the old one.\<close>

theorem store_frames_not_saved:
  "\<exists>st. reaches store_boot store_step st \<and>
     (\<exists>st1. store_save_if_allowed None True True (store_set_frames 7 st) = (0, st1)
        \<and> s_frames (g_rec st1) = 7 \<and> s_frames (g_rec (snd (store_load True st1))) = 0)"
proof -
  let ?s = "snd (store_save True True store_blank)"
  have r: "reaches store_boot store_step ?s"
    by (rule reaches_step [where step = store_step, OF store_blank_reaches st_save])
  have a: "store_save_if_allowed None True True (store_set_frames 7 ?s) = (0, store_set_frames 7 ?s)"
    by (simp add: store_save_if_allowed_def store_set_frames_def store_save_def Let_def)
  have "s_frames (g_rec (snd (store_load True (store_set_frames 7 ?s)))) = 0"
    by (simp add: store_load_def store_set_frames_def store_save_def Let_def store_blank_fields store_defaults_def)
  with r a show ?thesis by (intro exI [of _ ?s] conjI exI) (simp_all add: store_set_frames_def)
qed

end
