(* ===== verification/KKeyq.thy ===== *)
theory KKeyq
  imports Prelude
begin

text \<open>
  The key queue of the terminal, \<^verbatim>\<open>kernel/term.c\<close>: a ring of \<open>KEYQ_MAX\<close> characters that drops the oldest when
  it is full. It is refined to a list: a push keeps the last 16 characters, a pop takes the first.
\<close>

abbreviation (input) KEYQ_MAX :: u32 where "KEYQ_MAX \<equiv> 16"

record keyq =
  g_keyq :: "u8 list"
  g_keyq_head :: u32
  g_keyq_count :: u32
  g_keyq_dropped :: u32
  g_keyq_total :: u32

definition keyq_push :: "u8 \<Rightarrow> keyq \<Rightarrow> keyq" where
  "keyq_push ch q =
     (let q1 = q\<lparr>g_keyq_total := g_keyq_total q + 1\<rparr>;
          q2 = (if g_keyq_count q1 = KEYQ_MAX
                then q1\<lparr>g_keyq_head := (g_keyq_head q1 + 1) mod KEYQ_MAX, g_keyq_count := g_keyq_count q1 - 1,
                        g_keyq_dropped := g_keyq_dropped q1 + 1\<rparr>
                else q1)
      in q2\<lparr>g_keyq := (g_keyq q2)[unat ((g_keyq_head q2 + g_keyq_count q2) mod KEYQ_MAX) := ch],
            g_keyq_count := g_keyq_count q2 + 1\<rparr>)"

definition term_key_pop :: "keyq \<Rightarrow> u32 option \<times> keyq" where
  "term_key_pop q =
     (if g_keyq_count q = 0 then (None, q)
      else (Some (ucast (g_keyq q ! unat (g_keyq_head q))),
            q\<lparr>g_keyq_head := (g_keyq_head q + 1) mod KEYQ_MAX, g_keyq_count := g_keyq_count q - 1\<rparr>))"

definition term_keys_pending :: "keyq \<Rightarrow> u32" where
  "term_keys_pending q = g_keyq_count q"

subsection \<open>The ring as a list\<close>

definition keyq_ok :: "keyq \<Rightarrow> bool" where
  "keyq_ok q \<longleftrightarrow> length (g_keyq q) = 16 \<and> unat (g_keyq_head q) < 16 \<and> unat (g_keyq_count q) \<le> 16"

definition keys :: "keyq \<Rightarrow> u8 list" where
  "keys q = map (\<lambda>i. g_keyq q ! ((unat (g_keyq_head q) + i) mod 16)) [0..<unat (g_keyq_count q)]"

lemma unat_mod_16: "unat (x mod 16 :: u32) = unat x mod 16"
  by (simp add: unat_mod)

lemma length_keys [simp]: "length (keys q) = unat (g_keyq_count q)"
  by (simp add: keys_def)

lemma keys_nth: "i < unat (g_keyq_count q) \<Longrightarrow> keys q ! i = g_keyq q ! ((unat (g_keyq_head q) + i) mod 16)"
  by (simp add: keys_def)

lemma keys_pop:
  assumes ok: "keyq_ok q" and c: "g_keyq_count q \<noteq> 0"
  defines "q' \<equiv> q\<lparr>g_keyq_head := (g_keyq_head q + 1) mod 16, g_keyq_count := g_keyq_count q - 1\<rparr>"
  shows "keys q = g_keyq q ! unat (g_keyq_head q) # keys q'" "keyq_ok q'"
proof -
  have u: "unat (g_keyq_count q - 1) = unat (g_keyq_count q) - 1" "0 < unat (g_keyq_count q)"
    using c unat_minus_one by (auto simp: unat_gt_0)
  have h: "unat ((g_keyq_head q + 1) mod 16) = (unat (g_keyq_head q) + 1) mod 16"
    using ok by (simp add: unat_mod_16 unat_add_u32 keyq_ok_def)
  show "keyq_ok q'" using ok u h by (auto simp: q'_def keyq_ok_def)
  show "keys q = g_keyq q ! unat (g_keyq_head q) # keys q'"
  proof (rule nth_equalityI)
    show "length (keys q) = length (g_keyq q ! unat (g_keyq_head q) # keys q')" using u by (simp add: q'_def)
  next
    fix i assume "i < length (keys q)"
    then have i: "i < unat (g_keyq_count q)" by simp
    have hm: "unat (g_keyq_head q) mod 16 = unat (g_keyq_head q)" using ok by (simp add: keyq_ok_def)
    show "keys q ! i = (g_keyq q ! unat (g_keyq_head q) # keys q') ! i"
    proof (cases i)
      case 0
      then show ?thesis using u hm by (simp add: keys_nth)
    next
      case (Suc j)
      have "keys q' ! j = g_keyq q ! ((unat (g_keyq_head q) + Suc j) mod 16)"
        using i u h Suc by (simp add: keys_nth q'_def mod_simps)
      then show ?thesis using i Suc by (simp add: keys_nth)
    qed
  qed
qed

lemma ring_positions_differ: "i < c \<Longrightarrow> c < 16 \<Longrightarrow> (h + i) mod 16 \<noteq> (h + c :: nat) mod 16"
proof
  assume i: "i < c" "c < 16" and "(h + i) mod 16 = (h + c) mod 16"
  then have "16 dvd (h + c) - (h + i)" by (metis add_le_cancel_left less_imp_le mod_eq_dvd_iff_nat)
  with i show False by (auto dest: dvd_imp_le)
qed

lemma keys_store:
  fixes ch :: u8
  assumes ok: "keyq_ok q" and c: "unat (g_keyq_count q) < 16"
  defines "q' \<equiv> q\<lparr>g_keyq := (g_keyq q)[unat ((g_keyq_head q + g_keyq_count q) mod 16) := ch], g_keyq_count := g_keyq_count q + 1\<rparr>"
  shows "keys q' = keys q @ [ch]" "keyq_ok q'"
proof -
  have u: "unat (g_keyq_count q + 1) = unat (g_keyq_count q) + 1" using c by (simp add: unat_add_u32)
  have p: "unat ((g_keyq_head q + g_keyq_count q) mod 16) = (unat (g_keyq_head q) + unat (g_keyq_count q)) mod 16"
    using ok c by (simp add: unat_mod_16 unat_add_u32 keyq_ok_def)
  show "keyq_ok q'" using ok u c by (simp add: q'_def keyq_ok_def)
  show "keys q' = keys q @ [ch]"
  proof (rule nth_equalityI)
    show "length (keys q') = length (keys q @ [ch])" using u by (simp add: q'_def)
  next
    fix i assume "i < length (keys q')"
    then have i: "i < unat (g_keyq_count q) + 1" using u by (simp add: q'_def)
    have n: "keys q' ! i = (g_keyq q)[(unat (g_keyq_head q) + unat (g_keyq_count q)) mod 16 := ch] ! ((unat (g_keyq_head q) + i) mod 16)"
      using i u p by (simp add: keys_nth q'_def)
    have ne: "(unat (g_keyq_head q) + i) mod 16 \<noteq> (unat (g_keyq_head q) + unat (g_keyq_count q)) mod 16"
      if "i < unat (g_keyq_count q)" by (rule ring_positions_differ [OF that c])
    show "keys q' ! i = (keys q @ [ch]) ! i"
      using n ne i ok by (cases "i < unat (g_keyq_count q)") (auto simp: keys_nth nth_append keyq_ok_def less_Suc_eq)
  qed
qed

subsection \<open>Properties\<close>

text \<open> The key queue is a bounded first-in first-out queue: a push appends and keeps the last 16 characters, a
  pop returns and removes the first, and both keep the ring well formed.\<close>

theorem keyq_refines_list:
  assumes "keyq_ok q"
  shows "keyq_ok (keyq_push ch q)
    \<and> keys (keyq_push ch q) = (if length (keys q) = 16 then tl (keys q) else keys q) @ [ch]
    \<and> (case term_key_pop q of (r, q') \<Rightarrow> keyq_ok q' \<and>
        (case keys q of [] \<Rightarrow> r = None \<and> q' = q | k # ks \<Rightarrow> r = Some (ucast k) \<and> keys q' = ks))"
proof -
  have t: "keys (q\<lparr>g_keyq_total := n\<rparr>) = keys q" "keyq_ok (q\<lparr>g_keyq_total := n\<rparr>) = keyq_ok q"
    "keys (q\<lparr>g_keyq_dropped := n\<rparr>) = keys q" "keyq_ok (q\<lparr>g_keyq_dropped := n\<rparr>) = keyq_ok q" for n q
    by (simp_all add: keys_def keyq_ok_def)
  have push: "keyq_ok (keyq_push ch q)
    \<and> keys (keyq_push ch q) = (if length (keys q) = 16 then tl (keys q) else keys q) @ [ch]"
  proof (cases "g_keyq_count q = 16")
    case True
    let ?q = "q\<lparr>g_keyq_head := (g_keyq_head q + 1) mod 16, g_keyq_count := g_keyq_count q - 1\<rparr>"
    have p: "keys q = g_keyq q ! unat (g_keyq_head q) # keys ?q" "keyq_ok ?q"
      using keys_pop [OF assms] True by simp_all
    let ?r = "?q\<lparr>g_keyq_total := g_keyq_total q + 1, g_keyq_dropped := g_keyq_dropped q + 1\<rparr>"
    have "keyq_ok ?r" "unat (g_keyq_count ?r) < 16" using p(2) True by (simp_all add: t)
    from keys_store [OF this, of ch] have "keys (keyq_push ch q) = keys ?q @ [ch]" "keyq_ok (keyq_push ch q)"
      using True by (simp_all add: keyq_push_def t keys_def keyq_ok_def)
    with p(1) True show ?thesis by simp
  next
    case False
    then have "unat (g_keyq_count q) < 16" "unat (g_keyq_count q) \<noteq> 16"
      using assms by (auto simp: keyq_ok_def word_unat_eq_iff)
    with keys_store [of "q\<lparr>g_keyq_total := g_keyq_total q + 1\<rparr>" ch] assms False show ?thesis
      by (simp add: keyq_push_def t)
  qed
  have pop: "case term_key_pop q of (r, q') \<Rightarrow> keyq_ok q' \<and>
        (case keys q of [] \<Rightarrow> r = None \<and> q' = q | k # ks \<Rightarrow> r = Some (ucast k) \<and> keys q' = ks)"
  proof (cases "g_keyq_count q = 0")
    case True
    then have "keys q = []" by (simp add: keys_def)
    with True assms show ?thesis by (simp add: term_key_pop_def)
  next
    case False
    from keys_pop [OF assms False] False show ?thesis by (simp add: term_key_pop_def)
  qed
  from push pop show ?thesis by blast
qed

definition keyq_example :: keyq where
  "keyq_example = \<lparr>g_keyq = replicate 16 0, g_keyq_head = 15, g_keyq_count = 0, g_keyq_dropped = 0, g_keyq_total = 0\<rparr>"

theorem keyq_refines_list_witness:
  "fst (term_key_pop (keyq_push 66 (keyq_push 65 keyq_example))) = Some 65"
proof -
  have ok: "keyq_ok keyq_example" by (simp add: keyq_ok_def keyq_example_def)
  have k0: "keys keyq_example = []" by (simp add: keys_def keyq_example_def)
  from keyq_refines_list [OF ok, of 65] k0 have a: "keyq_ok (keyq_push 65 keyq_example)" "keys (keyq_push 65 keyq_example) = [65]"
    by simp_all
  from keyq_refines_list [OF a(1), of 66] a(2) have b: "keyq_ok (keyq_push 66 (keyq_push 65 keyq_example))"
    "keys (keyq_push 66 (keyq_push 65 keyq_example)) = [65, 66]" by simp_all
  from keyq_refines_list [OF b(1), of 0] b(2) show ?thesis by (auto split: prod.splits)
qed

end
