(* ===== verification/KDevice.thy ===== *)
theory KDevice
  imports KStore KKeyq
begin

text \<open>
  The device table, \<^verbatim>\<open>kernel/device.c\<close>, with the network device of \<^verbatim>\<open>kernel/netdev.c\<close>: per-caller permissions,
  the eight drivers, name resolution and the four routes from a program to a driver. What the drivers
  ask of the hardware (ADC, I2C, SD card, flash) and of the HTTP client is the record \<open>hw\<close>, an argument
  of every operation; what they ask of the buzzer is a log. A refusal is \<open>None\<close> or \<open>False\<close>.
\<close>

subsection \<open>Data\<close>

abbreviation (input) DEVICE_NAME_MAX :: u32 where "DEVICE_NAME_MAX \<equiv> 16"
abbreviation (input) DEVICE_XFER_MAX :: u32 where "DEVICE_XFER_MAX \<equiv> 64"
abbreviation (input) DEVICE_CALLER_KERNEL :: u32 where "DEVICE_CALLER_KERNEL \<equiv> 4"
abbreviation (input) DEV_F_READ :: u32 where "DEV_F_READ \<equiv> 1"
abbreviation (input) DEV_F_WRITE :: u32 where "DEV_F_WRITE \<equiv> 2"
abbreviation (input) DEV_F_SLOW :: u32 where "DEV_F_SLOW \<equiv> 4"
abbreviation (input) DEV_F_CONSUME :: u32 where "DEV_F_CONSUME \<equiv> 8"
abbreviation (input) DEV_F_XFER :: u32 where "DEV_F_XFER \<equiv> 16"
abbreviation (input) DEV_PERM_ALL :: u32 where "DEV_PERM_ALL \<equiv> 0xFFFFFFFF"
abbreviation (input) DEV_PERM_NONE :: u32 where "DEV_PERM_NONE \<equiv> 0"
abbreviation (input) STORE_COMMIT_CHAN :: u32 where "STORE_COMMIT_CHAN \<equiv> 4"
abbreviation (input) I2C_ADDR_MIN :: u32 where "I2C_ADDR_MIN \<equiv> 8"
abbreviation (input) I2C_ADDR_MAX :: u32 where "I2C_ADDR_MAX \<equiv> 119"
abbreviation (input) SD_BLOCK_SIZE :: u32 where "SD_BLOCK_SIZE \<equiv> 512"
abbreviation (input) ADC_INVALID :: u32 where "ADC_INVALID \<equiv> 0xFFFFFFFF"
abbreviation (input) REQ_MAX :: u32 where "REQ_MAX \<equiv> 128"

record hw =
  adc_ldr :: u32
  i2c_probe_ok :: "u8 \<Rightarrow> bool"
  i2c_write_ok :: "u8 \<Rightarrow> u8 list \<Rightarrow> bool"
  i2c_read_bytes :: "u8 \<Rightarrow> nat \<Rightarrow> u8 list option"
  sd_card_type :: u32
  sd_block_at :: "u32 \<Rightarrow> u8 list option"
  flash_erase_ok :: bool
  flash_write_ok :: bool
  web_state :: u32
  web_code :: u32
  web_len :: u32
  web_dropped :: u32
  web_body :: "u8 list option"

record devs =
  d_reads :: u32
  d_writes :: u32
  d_refusals :: u32
  g_perms :: "u32 list"
  g_denials :: u32
  dstore :: store
  dkeys :: keyq
  beeps :: "(u32 \<times> u32) list"
  g_sd_block :: "u8 list"
  g_sd_off :: u32
  g_sd_lba :: u32
  g_sd_loaded :: bool
  g_echo :: "u8 list"
  g_echo_len :: u32
  g_req :: "u8 list"
  g_want :: bool
  g_busy :: bool

text \<open>\<open>copy_prefix src d\<close> is a loop \<^verbatim>\<open>d[i] = src[i]\<close> over the whole of \<open>src\<close>.\<close>

definition copy_prefix :: "u8 list \<Rightarrow> u8 list \<Rightarrow> u8 list" where
  "copy_prefix src d = src @ drop (length src) d"

type_synonym dread = "hw \<Rightarrow> u32 \<Rightarrow> u32 \<Rightarrow> devs \<Rightarrow> u32 option \<times> devs"
type_synonym dwrite = "hw \<Rightarrow> u32 \<Rightarrow> u32 \<Rightarrow> u32 \<Rightarrow> devs \<Rightarrow> bool \<times> devs"
type_synonym dout = "hw \<Rightarrow> u32 \<Rightarrow> u32 \<Rightarrow> u8 list \<Rightarrow> devs \<Rightarrow> bool \<times> devs"
type_synonym din = "hw \<Rightarrow> u32 \<Rightarrow> u32 \<Rightarrow> u32 \<Rightarrow> devs \<Rightarrow> u8 list option \<times> devs"

record device_t =
  dname :: cstring
  channels :: u32
  dflags :: u32
  dev_read :: "dread option"
  dev_write :: "dwrite option"
  dev_xfer_out :: "dout option"
  dev_xfer_in :: "din option"

subsection \<open>Permissions\<close>

definition device_grant :: "u32 \<Rightarrow> u32 \<Rightarrow> devs \<Rightarrow> devs" where
  "device_grant caller bits st =
     (if caller \<le> DEVICE_CALLER_KERNEL then st\<lparr>g_perms := (g_perms st)[unat caller := bits]\<rparr> else st)"

definition device_perms :: "u32 \<Rightarrow> devs \<Rightarrow> u32" where
  "device_perms caller st = (if caller \<le> DEVICE_CALLER_KERNEL then g_perms st ! unat caller else 0)"

definition permitted :: "u32 \<Rightarrow> u32 \<Rightarrow> devs \<Rightarrow> bool \<times> devs" where
  "permitted caller i st =
     (if caller > DEVICE_CALLER_KERNEL \<or> i \<ge> 32 then (False, st\<lparr>g_denials := g_denials st + 1\<rparr>)
      else if drop_bit (unat i) (g_perms st ! unat caller) AND 1 = 0 then (False, st\<lparr>g_denials := g_denials st + 1\<rparr>)
      else (True, st))"

subsection \<open>Drivers\<close>

definition light_read :: dread where
  "light_read h caller chan st =
     (if chan \<noteq> 0 then (None, st)
      else if adc_ldr h = ADC_INVALID then (None, st) else (Some (adc_ldr h), st))"

definition beep_write :: dwrite where
  "beep_write h caller chan value st =
     (if chan \<noteq> 0 then (False, st)
      else
        let hz0 = drop_bit 16 value; ticks0 = value AND 0xFFFF;
            hz1 = (if hz0 < 50 then 50 else hz0); hz = (if hz1 > 5000 then 5000 else hz1);
            t1 = (if ticks0 = 0 then 1 else ticks0); ticks = (if t1 > 100 then 100 else t1)
        in (True, st\<lparr>beeps := beeps st @ [(hz, ticks)]\<rparr>))"

definition store_dev_read :: dread where
  "store_dev_read h caller chan st =
     (if chan = STORE_COMMIT_CHAN then (Some (if g_dirty (dstore st) then 1 else 0), st)
      else (store_slot_get caller chan (dstore st), st))"

definition store_dev_write :: dwrite where
  "store_dev_write h caller chan value st =
     (if chan = STORE_COMMIT_CHAN then
        let (rc, s) = store_save (flash_erase_ok h) (flash_write_ok h) (dstore st) in (rc = 0, st\<lparr>dstore := s\<rparr>)
      else let (ok, s) = store_slot_set caller chan value (dstore st) in (ok, st\<lparr>dstore := s\<rparr>))"

definition i2c_dev_read :: dread where
  "i2c_dev_read h caller chan st =
     (if chan < I2C_ADDR_MIN \<or> chan > I2C_ADDR_MAX then (None, st)
      else (Some (if i2c_probe_ok h (ucast chan) then 1 else 0), st))"

definition i2c_xfer_out :: dout where
  "i2c_xfer_out h caller chan buf st =
     (if chan < I2C_ADDR_MIN \<or> chan > I2C_ADDR_MAX then (False, st) else (i2c_write_ok h (ucast chan) buf, st))"

definition i2c_xfer_in :: din where
  "i2c_xfer_in h caller chan len st =
     (if chan < I2C_ADDR_MIN \<or> chan > I2C_ADDR_MAX then (None, st) else (i2c_read_bytes h (ucast chan) (unat len), st))"

definition keys_read :: dread where
  "keys_read h caller chan st =
     (if chan = 1 then (Some (term_keys_pending (dkeys st)), st)
      else if chan \<noteq> 0 then (None, st)
      else let (r, q) = term_key_pop (dkeys st) in (r, st\<lparr>dkeys := q\<rparr>))"

definition sd_dev_read :: dread where
  "sd_dev_read h caller chan st =
     (if chan = 1 then (Some (sd_card_type h), st)
      else if chan \<noteq> 0 \<or> \<not> g_sd_loaded st then (None, st)
      else (Some (g_sd_off st), st))"

definition sd_dev_write :: dwrite where
  "sd_dev_write h caller chan lba st =
     (if chan = 2 then
        (if \<not> g_sd_loaded st \<or> lba \<ge> SD_BLOCK_SIZE then (False, st) else (True, st\<lparr>g_sd_off := lba\<rparr>))
      else if chan \<noteq> 0 then (False, st)
      else case sd_block_at h lba of
          None \<Rightarrow> (False, st\<lparr>g_sd_loaded := False\<rparr>)
        | Some blk \<Rightarrow> (True, st\<lparr>g_sd_block := blk, g_sd_lba := lba, g_sd_off := 0, g_sd_loaded := True\<rparr>))"

definition sd_xfer_in :: din where
  "sd_xfer_in h caller chan len st =
     (if chan \<noteq> 0 \<or> \<not> g_sd_loaded st \<or> len > SD_BLOCK_SIZE - g_sd_off st then (None, st)
      else (Some (take (unat len) (drop (unat (g_sd_off st)) (g_sd_block st))), st\<lparr>g_sd_off := g_sd_off st + len\<rparr>))"

definition echo_read :: dread where
  "echo_read h caller chan st = (if chan \<noteq> 0 then (None, st) else (Some (g_echo_len st), st))"

definition echo_xfer_out :: dout where
  "echo_xfer_out h caller chan buf st =
     (if chan \<noteq> 0 \<or> of_nat (length buf) > DEVICE_XFER_MAX then (False, st)
      else (True, st\<lparr>g_echo := copy_prefix buf (g_echo st), g_echo_len := of_nat (length buf)\<rparr>))"

definition echo_xfer_in :: din where
  "echo_xfer_in h caller chan len st =
     (if chan \<noteq> 0 \<or> len > g_echo_len st then (None, st) else (Some (take (unat len) (g_echo st)), st))"

text \<open>The network device. Web states: 0 idle, 4 done, 5 failed.\<close>

definition netdev_read :: dread where
  "netdev_read h caller chan st =
     (if chan = 0 then (Some (web_state h), st) else if chan = 1 then (Some (web_code h), st)
      else if chan = 2 then (Some (web_len h), st) else if chan = 3 then (Some (web_dropped h), st) else (None, st))"

definition netdev_xfer_out :: dout where
  "netdev_xfer_out h caller chan buf st =
     (if chan \<noteq> 0 \<or> buf = [] \<or> of_nat (length buf) \<ge> REQ_MAX then (False, st)
      else if g_want st \<or> (g_busy st \<and> web_state h \<noteq> 4 \<and> web_state h \<noteq> 5 \<and> web_state h \<noteq> 0) then (False, st)
      else (True, st\<lparr>g_req := buf, g_want := True\<rparr>))"

definition netdev_xfer_in :: din where
  "netdev_xfer_in h caller chan len st =
     (if len = 0 \<or> len > DEVICE_XFER_MAX then (None, st)
      else
        let off = chan * DEVICE_XFER_MAX; have_n = web_len h in
        if off \<ge> have_n then (None, st)
        else case web_body h of
            None \<Rightarrow> (None, st)
          | Some body \<Rightarrow>
              let n0 = have_n - off; n = (if n0 > len then len else n0) in
              (Some (take (unat n) (drop (unat off) body) @ replicate (unat len - unat n) 0), st))"

subsection \<open>The table\<close>

definition bytes_of :: "string \<Rightarrow> cstring" where
  "bytes_of s = map of_char s"

definition DEVICES :: "device_t list" where
  "DEVICES = [
     \<lparr>dname = bytes_of ''light'', channels = 1, dflags = DEV_F_READ OR DEV_F_SLOW,
       dev_read = Some light_read, dev_write = None, dev_xfer_out = None, dev_xfer_in = None\<rparr>,
     \<lparr>dname = bytes_of ''beep'', channels = 1, dflags = DEV_F_WRITE OR DEV_F_SLOW,
       dev_read = None, dev_write = Some beep_write, dev_xfer_out = None, dev_xfer_in = None\<rparr>,
     \<lparr>dname = bytes_of ''store'', channels = STORE_SLOTS_PER_BANK + 1, dflags = DEV_F_READ OR DEV_F_WRITE OR DEV_F_SLOW,
       dev_read = Some store_dev_read, dev_write = Some store_dev_write, dev_xfer_out = None, dev_xfer_in = None\<rparr>,
     \<lparr>dname = bytes_of ''i2c'', channels = 128, dflags = DEV_F_READ OR DEV_F_SLOW OR DEV_F_XFER,
       dev_read = Some i2c_dev_read, dev_write = None, dev_xfer_out = Some i2c_xfer_out, dev_xfer_in = Some i2c_xfer_in\<rparr>,
     \<lparr>dname = bytes_of ''keys'', channels = 2, dflags = DEV_F_READ OR DEV_F_CONSUME,
       dev_read = Some keys_read, dev_write = None, dev_xfer_out = None, dev_xfer_in = None\<rparr>,
     \<lparr>dname = bytes_of ''echo'', channels = 1, dflags = DEV_F_READ OR DEV_F_XFER,
       dev_read = Some echo_read, dev_write = None, dev_xfer_out = Some echo_xfer_out, dev_xfer_in = Some echo_xfer_in\<rparr>,
     \<lparr>dname = bytes_of ''sd'', channels = 3, dflags = DEV_F_READ OR DEV_F_WRITE OR DEV_F_XFER OR DEV_F_SLOW,
       dev_read = Some sd_dev_read, dev_write = Some sd_dev_write, dev_xfer_out = None, dev_xfer_in = Some sd_xfer_in\<rparr>,
     \<lparr>dname = bytes_of ''net'', channels = 4, dflags = DEV_F_READ OR DEV_F_XFER OR DEV_F_SLOW,
       dev_read = Some netdev_read, dev_write = None, dev_xfer_out = Some netdev_xfer_out, dev_xfer_in = Some netdev_xfer_in\<rparr>]"

definition device_count :: nat where
  "device_count = length DEVICES"

definition find_device :: "u32 \<Rightarrow> device_t option" where
  "find_device i = (if unat i < length DEVICES then Some (DEVICES ! unat i) else None)"

definition device_init :: "devs \<Rightarrow> devs" where
  "device_init st = st\<lparr>d_reads := 0, d_writes := 0, d_refusals := 0, g_denials := 0,
     g_perms := replicate 4 DEV_PERM_NONE @ [DEV_PERM_ALL]\<rparr>"

text \<open>The comparison loop of two C strings.\<close>

fun cstr_same :: "cstring \<Rightarrow> cstring \<Rightarrow> bool" where
  "cstr_same [] [] = True"
| "cstr_same (a # as) (b # bs) = (a = b \<and> cstr_same as bs)"
| "cstr_same _ _ = False"

fun name_id :: "cstring \<Rightarrow> device_t list \<Rightarrow> nat \<Rightarrow> nat option" where
  "name_id want [] i = None"
| "name_id want (d # ds) i = (if cstr_same want (dname d) then Some i else name_id want ds (Suc i))"

fun perms_loop :: "cstring list \<Rightarrow> nat \<Rightarrow> u32 \<Rightarrow> u32 \<times> nat option" where
  "perms_loop [] i bits = (bits, None)"
| "perms_loop (w # ws) i bits =
     (case name_id w DEVICES 0 of
        None \<Rightarrow> (0, Some i)
      | Some d \<Rightarrow> perms_loop ws (Suc i) (bits OR push_bit d 1))"

definition device_perms_from_names :: "cstring list option \<Rightarrow> u32 \<times> nat option" where
  "device_perms_from_names names = (case names of None \<Rightarrow> (0, None) | Some ns \<Rightarrow> perms_loop ns 0 0)"

definition device_name :: "u32 \<Rightarrow> cstring option" where
  "device_name i = map_option dname (find_device i)"

definition device_info :: "u32 \<Rightarrow> devs \<Rightarrow> (u32 \<times> u32) option \<times> devs" where
  "device_info i st =
     (case find_device i of
        None \<Rightarrow> (None, st\<lparr>d_refusals := d_refusals st + 1\<rparr>)
      | Some d \<Rightarrow> (Some (channels d, dflags d), st))"

definition device_is_slow :: "u32 \<Rightarrow> bool" where
  "device_is_slow i = (case find_device i of None \<Rightarrow> False | Some d \<Rightarrow> dflags d AND DEV_F_SLOW \<noteq> 0)"

definition refuse :: "devs \<Rightarrow> devs" where
  "refuse st = st\<lparr>d_refusals := d_refusals st + 1\<rparr>"

definition device_read :: "hw \<Rightarrow> u32 \<Rightarrow> u32 \<Rightarrow> u32 \<Rightarrow> devs \<Rightarrow> u32 option \<times> devs" where
  "device_read h caller i chan st =
     (case permitted caller i st of
        (False, st1) \<Rightarrow> (None, st1)
      | (True, st1) \<Rightarrow>
          (case Option.bind (find_device i) (\<lambda>d. map_option (Pair d) (dev_read d)) of
             None \<Rightarrow> (None, refuse st1)
           | Some (d, f) \<Rightarrow>
               if chan \<ge> channels d then (None, refuse st1)
               else case f h caller chan st1 of
                   (None, st2) \<Rightarrow> (None, refuse st2)
                 | (Some v, st2) \<Rightarrow> (Some v, st2\<lparr>d_reads := d_reads st2 + 1\<rparr>)))"

definition device_xfer_out :: "hw \<Rightarrow> u32 \<Rightarrow> u32 \<Rightarrow> u32 \<Rightarrow> u8 list \<Rightarrow> devs \<Rightarrow> bool \<times> devs" where
  "device_xfer_out h caller i chan buf st =
     (case permitted caller i st of
        (False, st1) \<Rightarrow> (False, st1)
      | (True, st1) \<Rightarrow>
          (case Option.bind (find_device i) (\<lambda>d. map_option (Pair d) (dev_xfer_out d)) of
             None \<Rightarrow> (False, refuse st1)
           | Some (d, f) \<Rightarrow>
               if chan \<ge> channels d \<or> buf = [] \<or> of_nat (length buf) > DEVICE_XFER_MAX then (False, refuse st1)
               else case f h caller chan buf st1 of
                   (False, st2) \<Rightarrow> (False, refuse st2)
                 | (True, st2) \<Rightarrow> (True, st2\<lparr>d_writes := d_writes st2 + 1\<rparr>)))"

definition device_xfer_in :: "hw \<Rightarrow> u32 \<Rightarrow> u32 \<Rightarrow> u32 \<Rightarrow> u32 \<Rightarrow> devs \<Rightarrow> u8 list option \<times> devs" where
  "device_xfer_in h caller i chan len st =
     (case permitted caller i st of
        (False, st1) \<Rightarrow> (None, st1)
      | (True, st1) \<Rightarrow>
          (case Option.bind (find_device i) (\<lambda>d. map_option (Pair d) (dev_xfer_in d)) of
             None \<Rightarrow> (None, refuse st1)
           | Some (d, f) \<Rightarrow>
               if chan \<ge> channels d \<or> len = 0 \<or> len > DEVICE_XFER_MAX then (None, refuse st1)
               else case f h caller chan len st1 of
                   (None, st2) \<Rightarrow> (None, refuse st2)
                 | (Some bs, st2) \<Rightarrow> (Some bs, st2\<lparr>d_reads := d_reads st2 + 1\<rparr>)))"

definition device_write :: "hw \<Rightarrow> u32 \<Rightarrow> u32 \<Rightarrow> u32 \<Rightarrow> u32 \<Rightarrow> devs \<Rightarrow> bool \<times> devs" where
  "device_write h caller i chan value st =
     (case permitted caller i st of
        (False, st1) \<Rightarrow> (False, st1)
      | (True, st1) \<Rightarrow>
          (case Option.bind (find_device i) (\<lambda>d. map_option (Pair d) (dev_write d)) of
             None \<Rightarrow> (False, refuse st1)
           | Some (d, f) \<Rightarrow>
               if chan \<ge> channels d then (False, refuse st1)
               else case f h caller chan value st1 of
                   (False, st2) \<Rightarrow> (False, refuse st2)
                 | (True, st2) \<Rightarrow> (True, st2\<lparr>d_writes := d_writes st2 + 1\<rparr>)))"

subsection \<open>Guarded routes\<close>

definition allowed :: "devs \<Rightarrow> u32 \<Rightarrow> u32 \<Rightarrow> bool" where
  "allowed st caller i \<longleftrightarrow> caller \<le> DEVICE_CALLER_KERNEL \<and> i < 32 \<and> bit (g_perms st ! unat caller) (unat i)"

definition deny :: "devs \<Rightarrow> devs" where
  "deny st = st\<lparr>g_denials := g_denials st + 1\<rparr>"

lemma drop_bit_test: "(drop_bit n (w :: u32) AND 1 = 0) \<longleftrightarrow> \<not> bit w n"
  by (simp add: and_one_eq bit_iff_odd_drop_bit even_iff_mod_2_eq_zero)

lemma permitted_eq: "permitted caller i st = (if allowed st caller i then (True, st) else (False, deny st))"
  by (auto simp: permitted_def allowed_def deny_def drop_bit_test not_le not_less)

text \<open>The contract of a route from a program to a driver: a caller that is not allowed gets the refusal value and
  leaves everything but the denial counter alone, and no call changes a permission.\<close>

locale guarded_route =
  fixes route :: "u32 \<Rightarrow> u32 \<Rightarrow> 'a \<Rightarrow> devs \<Rightarrow> 'r \<times> devs"
    and refusal :: 'r
  assumes denied: "\<not> allowed st caller i \<Longrightarrow> route caller i x st = (refusal, deny st)"
    and keeps_perms: "g_perms (snd (route caller i x st)) = g_perms st"
begin

text \<open>A caller with an empty bitmap changes nothing, over any sequence of requests.\<close>

lemma no_grant_no_effect:
  assumes "g_perms st ! unat caller = 0 \<or> caller > DEVICE_CALLER_KERNEL"
  shows "foldl (\<lambda>s (i, x). snd (route caller i x s)) st reqs = st\<lparr>g_denials := g_denials st + of_nat (length reqs)\<rparr>"
proof (induction reqs rule: rev_induct)
  case (snoc r reqs)
  obtain i x where r: "r = (i, x)" by (cases r)
  have "\<not> allowed (st\<lparr>g_denials := k\<rparr>) caller i" for k using assms by (auto simp: allowed_def)
  then show ?case using snoc r by (simp add: denied deny_def add.commute add.left_commute)
qed simp

end

lemma driver_frame:
  "g_perms (snd (light_read h c n st)) = g_perms st" "g_perms (snd (store_dev_read h c n st)) = g_perms st"
  "g_perms (snd (i2c_dev_read h c n st)) = g_perms st" "g_perms (snd (keys_read h c n st)) = g_perms st"
  "g_perms (snd (echo_read h c n st)) = g_perms st" "g_perms (snd (sd_dev_read h c n st)) = g_perms st"
  "g_perms (snd (netdev_read h c n st)) = g_perms st" "g_perms (snd (beep_write h c n v st)) = g_perms st"
  "g_perms (snd (store_dev_write h c n v st)) = g_perms st" "g_perms (snd (sd_dev_write h c n v st)) = g_perms st"
  "g_perms (snd (i2c_xfer_out h c n b st)) = g_perms st" "g_perms (snd (echo_xfer_out h c n b st)) = g_perms st"
  "g_perms (snd (netdev_xfer_out h c n b st)) = g_perms st" "g_perms (snd (i2c_xfer_in h c n v st)) = g_perms st"
  "g_perms (snd (echo_xfer_in h c n v st)) = g_perms st" "g_perms (snd (sd_xfer_in h c n v st)) = g_perms st"
  "g_perms (snd (netdev_xfer_in h c n v st)) = g_perms st"
  by (simp_all add: light_read_def store_dev_read_def i2c_dev_read_def keys_read_def echo_read_def sd_dev_read_def
      netdev_read_def beep_write_def store_dev_write_def sd_dev_write_def i2c_xfer_out_def echo_xfer_out_def
      netdev_xfer_out_def i2c_xfer_in_def echo_xfer_in_def sd_xfer_in_def netdev_xfer_in_def Let_def
      split: prod.split option.split)

lemma table_frame:
  assumes "d \<in> set DEVICES"
  shows "dev_read d = Some f \<Longrightarrow> g_perms (snd (f h c n st)) = g_perms st"
    "dev_write d = Some w \<Longrightarrow> g_perms (snd (w h c n v st)) = g_perms st"
    "dev_xfer_out d = Some o' \<Longrightarrow> g_perms (snd (o' h c n b st)) = g_perms st"
    "dev_xfer_in d = Some i' \<Longrightarrow> g_perms (snd (i' h c n v st)) = g_perms st"
  using assms by (auto simp: DEVICES_def driver_frame)

lemma find_device_in: "find_device i = Some d \<Longrightarrow> d \<in> set DEVICES"
  by (auto simp: find_device_def split: if_splits)

lemma route_frame:
  assumes "find_device i = Some d"
  shows "dev_read d = Some f \<Longrightarrow> f h c n st = (r1, st') \<Longrightarrow> g_perms st' = g_perms st"
    "dev_write d = Some w \<Longrightarrow> w h c n v st = (r2, st') \<Longrightarrow> g_perms st' = g_perms st"
    "dev_xfer_out d = Some o' \<Longrightarrow> o' h c n b st = (r3, st') \<Longrightarrow> g_perms st' = g_perms st"
    "dev_xfer_in d = Some i' \<Longrightarrow> i' h c n v st = (r4, st') \<Longrightarrow> g_perms st' = g_perms st"
  using table_frame [OF find_device_in [OF assms]] by (metis snd_conv)+

lemmas route_simps = permitted_eq deny_def refuse_def bind_eq_Some_conv

interpretation rd: guarded_route "\<lambda>c i chan. device_read h c i chan" None for h
  by unfold_locales (auto simp: device_read_def route_simps dest: route_frame(1) split: option.split prod.split)

interpretation wr: guarded_route "\<lambda>c i (chan, v). device_write h c i chan v" False for h
  by unfold_locales (auto simp: device_write_def route_simps dest: route_frame(2) split: option.split prod.split bool.split)

interpretation xo: guarded_route "\<lambda>c i (chan, buf). device_xfer_out h c i chan buf" False for h
  by unfold_locales (auto simp: device_xfer_out_def route_simps dest: route_frame(3) split: option.split prod.split bool.split)

interpretation xi: guarded_route "\<lambda>c i (chan, len). device_xfer_in h c i chan len" None for h
  by unfold_locales (auto simp: device_xfer_in_def route_simps dest: route_frame(4) split: option.split prod.split)

subsection \<open>Names\<close>

lemma cstr_same_eq: "cstr_same a b = (a = b)"
  by (induction a b rule: cstr_same.induct) auto

lemma name_id_Some: "name_id w ds k = Some i \<Longrightarrow> k \<le> i \<and> i < k + length ds \<and> dname (ds ! (i - k)) = w"
  by (induction w ds k rule: name_id.induct) (auto simp: cstr_same_eq nth_Cons' split: if_splits)

lemma name_id_None: "name_id w ds k = None \<longleftrightarrow> w \<notin> dname ` set ds"
  by (induction w ds k rule: name_id.induct) (auto simp: cstr_same_eq)

lemma device_names_distinct: "distinct (map dname DEVICES)"
  by (simp add: DEVICES_def bytes_of_def)

lemma device_count_8: "length DEVICES = 8"
  by (simp add: DEVICES_def)

lemma name_id_bit:
  assumes "name_id w DEVICES 0 = Some d"
  shows "d < 8" "i < 8 \<Longrightarrow> (dname (DEVICES ! i) = w) = (i = d)"
proof -
  have d: "d < length DEVICES" "dname (DEVICES ! d) = w" using name_id_Some [OF assms] by auto
  then show "d < 8" by (simp add: device_count_8)
  show "(dname (DEVICES ! i) = w) = (i = d)" if "i < 8"
    using nth_eq_iff_index_eq [OF device_names_distinct, of i d] d that by (auto simp: device_count_8)
qed

lemma perms_loop_spec:
  "case perms_loop ws k bits of
     (r, None) \<Rightarrow> set ws \<subseteq> dname ` set DEVICES \<and> (\<forall>i. bit r i \<longleftrightarrow> bit bits i \<or> i < 8 \<and> dname (DEVICES ! i) \<in> set ws)
   | (r, Some j) \<Rightarrow> r = 0 \<and> k \<le> j \<and> j < k + length ws \<and> ws ! (j - k) \<notin> dname ` set DEVICES
        \<and> (\<forall>m < j - k. ws ! m \<in> dname ` set DEVICES)"
proof (induction ws k bits rule: perms_loop.induct)
  case (2 w ws i bits)
  show ?case
  proof (cases "name_id w DEVICES 0")
    case None
    moreover from this have "w \<notin> dname ` set DEVICES" by (simp add: name_id_None)
    ultimately show ?thesis by simp
  next
    case (Some d)
    have w: "w \<in> dname ` set DEVICES" using Some name_id_None [of w DEVICES 0] by auto
    have b: "bit (bits OR push_bit d 1) j \<longleftrightarrow> bit bits j \<or> j = d" for j
      using name_id_bit(1) [OF Some] by (auto simp: bit_simps)
    obtain r u where r: "perms_loop ws (Suc i) (bits OR push_bit d 1) = (r, u)" by fastforce
    note ih = "2.IH" [OF Some, unfolded r]
    show ?thesis
    proof (cases u)
      case None
      then show ?thesis using ih r Some w b name_id_bit [OF Some] by auto
    next
      case u: (Some j)
      have "(w # ws) ! m \<in> dname ` set DEVICES" if "m < j - i" for m
        using ih u w that by (cases m) auto
      moreover have "(w # ws) ! (j - i) = ws ! (j - Suc i)" "Suc i \<le> j" using ih u by (auto simp: nth_Cons')
      ultimately show ?thesis using ih r Some u by auto
    qed
  qed
qed simp

subsection \<open>Properties\<close>

text \<open>Any request a program can make of a device.\<close>

datatype dev_req = Rd u32 | Wr u32 u32 | Out u32 "u8 list" | In u32 u32

fun device_call :: "hw \<Rightarrow> u32 \<Rightarrow> u32 \<Rightarrow> dev_req \<Rightarrow> devs \<Rightarrow> unit \<times> devs" where
  "device_call h c i (Rd chan) st = ((), snd (device_read h c i chan st))"
| "device_call h c i (Wr chan v) st = ((), snd (device_write h c i chan v st))"
| "device_call h c i (Out chan buf) st = ((), snd (device_xfer_out h c i chan buf st))"
| "device_call h c i (In chan len) st = ((), snd (device_xfer_in h c i chan len st))"

interpretation dv: guarded_route "device_call h" "()" for h
proof
  fix st c i x assume "\<not> allowed st c i"
  then show "device_call h c i x st = ((), deny st)"
    using rd.denied [of st c i h] wr.denied [of st c i h] xo.denied [of st c i h] xi.denied [of st c i h]
    by (cases x) auto
next
  fix c i x st show "g_perms (snd (device_call h c i x st)) = g_perms st"
    using rd.keeps_perms [of h c i] wr.keeps_perms [of h c i] xo.keeps_perms [of h c i] xi.keeps_perms [of h c i]
    by (cases x) fastforce+
qed

text \<open>(C9) Containment of devices: a caller with no grant, and any caller id beyond the table, reaches no driver:
  over any sequence of reads, writes and transfers to any devices, with any hardware behind them, the
  whole device state, the store, the key queue and the drivers' buffers included, stays as it was
  except that each request counts one denial. No request by anyone changes a permission.\<close>

theorem device_no_grant_no_effect:
  assumes "g_perms st ! unat caller = DEV_PERM_NONE \<or> caller > DEVICE_CALLER_KERNEL"
  shows "foldl (\<lambda>s (i, x). snd (device_call h caller i x s)) st reqs = st\<lparr>g_denials := g_denials st + of_nat (length reqs)\<rparr>
    \<and> g_perms (snd (device_call h c' i' x' st)) = g_perms st"
  using dv.no_grant_no_effect [OF assms] dv.keeps_perms by blast

definition hw_example :: hw where
  "hw_example = \<lparr>adc_ldr = 100, i2c_probe_ok = (\<lambda>_. True), i2c_write_ok = (\<lambda>_ _. True), i2c_read_bytes = (\<lambda>_ n. Some (replicate n 1)),
     sd_card_type = 2, sd_block_at = (\<lambda>_. Some (replicate 512 0)), flash_erase_ok = True, flash_write_ok = True,
     web_state = 4, web_code = 200, web_len = 1024, web_dropped = 0, web_body = Some (replicate 1024 65)\<rparr>"

definition devs_example :: devs where
  "devs_example = device_init \<lparr>d_reads = 0, d_writes = 0, d_refusals = 0, g_perms = [], g_denials = 0, dstore = store_blank,
     dkeys = keyq_example, beeps = [], g_sd_block = replicate 512 0, g_sd_off = 512, g_sd_lba = 0, g_sd_loaded = False,
     g_echo = replicate 64 0, g_echo_len = 0, g_req = [], g_want = False, g_busy = False\<rparr>"

theorem device_no_grant_no_effect_witness:
  "foldl (\<lambda>s (i, x). snd (device_call hw_example 1 i x s)) devs_example [(5, Out 0 [1]), (2, Wr 0 9)]
     = devs_example\<lparr>g_denials := 2\<rparr>"
proof -
  have a: "g_perms devs_example ! unat 1 = DEV_PERM_NONE \<or> 1 > DEVICE_CALLER_KERNEL"
    by (simp add: devs_example_def device_init_def nth_append)
  have "g_denials devs_example = 0" by (simp add: devs_example_def device_init_def)
  with device_no_grant_no_effect [OF a, of hw_example "[(5, Out 0 [1]), (2, Wr 0 9)]" 0 0 "Rd 0"] show ?thesis by simp
qed

lemma find_store: "find_device 2 = Some (DEVICES ! 2)" "dev_read (DEVICES ! 2) = Some store_dev_read"
  "dev_write (DEVICES ! 2) = Some store_dev_write" "channels (DEVICES ! 2) = 5"
  by (simp_all add: find_device_def DEVICES_def)

lemma store_read_eq:
  "fst (device_read h b 2 chan st) = (if allowed st b 2 \<and> chan < 4 then store_slot_get b chan (dstore st)
     else if allowed st b 2 \<and> chan = 4 then Some (if g_dirty (dstore st) then 1 else 0) else None)"
proof -
  have "chan \<ge> 5 \<longleftrightarrow> \<not> chan < 4 \<and> chan \<noteq> 4" by (auto simp: word_le_nat_alt word_less_nat_alt word_unat_eq_iff)
  then show ?thesis
    by (auto simp: device_read_def permitted_eq find_store store_dev_read_def refuse_def split: option.split prod.split)
qed

lemma store_write_state:
  "dstore (snd (device_write h a 2 chan v st)) \<in>
     {dstore st, snd (store_slot_set a chan v (dstore st)), snd (store_save (flash_erase_ok h) (flash_write_ok h) (dstore st))}"
  by (auto simp: device_write_def permitted_eq find_store store_dev_write_def refuse_def deny_def
      split: option.split prod.split bool.split)

text \<open> Persistence is private: whatever one caller writes to the \<open>store\<close> device, on any channel, no other
  caller's read of its own slots changes, whether or not it reached the flash.\<close>

theorem store_device_private:
  assumes "store_ok (dstore st)" "a \<noteq> b" "chan < STORE_SLOTS_PER_BANK"
  shows "fst (device_read h b 2 chan (snd (device_write h' a 2 chan' v st))) = fst (device_read h b 2 chan st)"
proof -
  let ?s = "snd (device_write h' a 2 chan' v st)"
  have p: "g_perms ?s = g_perms st" using wr.keeps_perms [of h' a 2 "(chan', v)" st] by simp
  then have al: "allowed ?s b 2 = allowed st b 2" by (simp add: allowed_def)
  have "store_slot_get b chan (snd (store_save e w (dstore st))) = store_slot_get b chan (dstore st)" for e w
    by (simp add: store_slot_get_def store_save_def Let_def)
  moreover have "store_slot_get b chan (snd (store_slot_set a chan' v (dstore st))) = store_slot_get b chan (dstore st)"
    using store_slot_get_set [OF assms(1), of b chan a chan' v] assms(2) by simp
  ultimately have "store_slot_get b chan (dstore ?s) = store_slot_get b chan (dstore st)"
    using store_write_state [of h' a chan' v st] by auto
  with al assms(3) show ?thesis by (simp add: store_read_eq)
qed

theorem store_device_private_witness:
  "fst (device_read hw_example 4 2 0 (snd (device_write hw_example 0 2 0 99 (device_grant 0 4 devs_example)))) = Some 0"
proof -
  have ok: "store_ok (dstore (device_grant 0 4 devs_example))"
    using store_sys.start_inv [OF store_blank_boot] by (simp add: device_grant_def devs_example_def device_init_def)
  have r: "fst (device_read hw_example 4 2 0 (device_grant 0 4 devs_example)) = Some 0"
    by (simp add: store_read_eq allowed_def device_grant_def devs_example_def device_init_def store_slot_get_def store_blank_fields
        nth_append bit_numeral_rec)
  have "(0 :: u32) \<noteq> 4" by simp
  from store_device_private [OF ok this, of 0 hw_example hw_example 0 99] r show ?thesis by simp
qed

text \<open> Resolving a manifest: the bitmap of a list of names all in the table has exactly the bits of the
  devices named; if some name is not in the table the result is no permission at all and the index of
  the first unknown name.\<close>

theorem perms_from_names_exact:
  "case device_perms_from_names (Some ns) of
     (bits, None) \<Rightarrow> set ns \<subseteq> dname ` set DEVICES \<and> (\<forall>i. bit bits i \<longleftrightarrow> i < 8 \<and> dname (DEVICES ! i) \<in> set ns)
   | (bits, Some k) \<Rightarrow> bits = 0 \<and> k < length ns \<and> ns ! k \<notin> dname ` set DEVICES
        \<and> (\<forall>j < k. ns ! j \<in> dname ` set DEVICES)"
  using perms_loop_spec [of ns 0 0]
  by (auto simp: device_perms_from_names_def split: prod.splits option.splits)

theorem perms_from_names_exact_witness:
  "fst (device_perms_from_names (Some [bytes_of ''beep'', bytes_of ''store''])) = 6
     \<and> device_perms_from_names (Some [bytes_of ''beep'', bytes_of ''nope'']) = (0, Some 1)"
proof -
  have a: "device_perms_from_names (Some [bytes_of ''beep'', bytes_of ''store'']) = (6, None)" by code_simp
  have b: "device_perms_from_names (Some [bytes_of ''beep'', bytes_of ''nope'']) = (0, Some 1)" by code_simp
  show ?thesis using a b perms_from_names_exact [of "[bytes_of ''beep'', bytes_of ''store'']"] by simp
qed

text \<open> The body of a fetch is out of reach past its fourth block: the table gives the network device four
  channels, so a transfer of block 4 or later is refused before the driver is asked, for every caller
  and however much of the body the driver holds.\<close>

theorem net_body_unreachable:
  assumes "4 \<le> chan"
  shows "fst (device_xfer_in h caller 7 chan len st) = None"
proof -
  have "find_device 7 = Some (DEVICES ! 7)" "channels (DEVICES ! 7) = 4" "dev_xfer_in (DEVICES ! 7) = Some netdev_xfer_in"
    by (simp_all add: find_device_def DEVICES_def)
  with assms show ?thesis by (auto simp: device_xfer_in_def permitted_eq split: prod.split)
qed

theorem net_body_unreachable_witness:
  "fst (device_xfer_in hw_example 4 7 4 64 devs_example) = None
     \<and> fst (netdev_xfer_in hw_example 4 4 64 devs_example) = Some (replicate 64 65)"
  using net_body_unreachable [of 4 hw_example 4 64 devs_example]
  by (simp add: netdev_xfer_in_def hw_example_def Let_def)

end
