(* ===== verification/Vm.thy ===== *)
theory Vm
  imports KArena KIpc KDevice
begin

text \<open>
  The bytecode machine, first part: the machine and kernel state, the arena bounds check, the
  validated-argument harness of \<^verbatim>\<open>kernel/vmarg.c\<close>, loads and stores, and event delivery (\<^verbatim>\<open>kernel/vm.c\<close>). A
  program's memory is the range of kernel memory at \<open>vbase\<close> of length \<open>vsize\<close>; every access goes through
  \<open>vm_in_bounds\<close>, which is interpreted as a \<open>range_guard\<close>.
\<close>

subsection \<open>Data\<close>

abbreviation (input) VM_REGS :: nat where "VM_REGS \<equiv> 16"
abbreviation (input) VM_CALL_DEPTH :: u32 where "VM_CALL_DEPTH \<equiv> 32"
abbreviation (input) VM_INSN_BYTES :: u32 where "VM_INSN_BYTES \<equiv> 4"
abbreviation (input) VM_EVT_TICK :: nat where "VM_EVT_TICK \<equiv> 0"
abbreviation (input) VM_EVT_KEY :: nat where "VM_EVT_KEY \<equiv> 1"
abbreviation (input) VM_EVT_COUNT :: u32 where "VM_EVT_COUNT \<equiv> 2"
abbreviation (input) VM_STR_MAX :: u32 where "VM_STR_MAX \<equiv> 48"
abbreviation (input) DISP_W :: u32 where "DISP_W \<equiv> 240"
abbreviation (input) DISP_H :: u32 where "DISP_H \<equiv> 320"

datatype vm_fault_t = VM_FAULT_NONE | VM_FAULT_OPCODE | VM_FAULT_REG | VM_FAULT_BOUNDS | VM_FAULT_ALIGN
  | VM_FAULT_DIV0 | VM_FAULT_PC | VM_FAULT_CALL_DEPTH | VM_FAULT_RET | VM_FAULT_SYSCALL | VM_FAULT_STRING

datatype vm_run_t = VM_RUN_HALTED | VM_RUN_FAULTED | VM_RUN_QUANTUM

record vm_t =
  reg :: "u32 list"
  pc :: u32
  call :: "u32 list"
  call_sp :: u32
  vx :: u32
  vy :: u32
  vw :: u32
  vh :: u32
  arena :: int
  app_id :: int
  vbase :: u32
  vsize :: u32
  vfault :: vm_fault_t
  fault_pc :: u32
  fault_detail :: u32
  yield_now :: bool
  evt_handler :: "u32 list"
  evt_param :: "u32 list"
  evt_due :: "u32 list"
  evt_arg :: "u32 list"
  evt_pending :: u32
  in_handler :: bool
  handler_sp :: u32
  saved_reg :: "u32 list"
  evt_delivered :: u32
  evt_dropped :: u32
  executed :: u32
  exit_status :: u32

text \<open>Calls of the display driver that reach the panel: a filled rectangle, a text of 6 by 8 pixel cells at a
  scale, an image with its pixel bytes and row stride.\<close>

datatype panel_op =
    Fill u32 u32 u32 u32 u16
  | Text u32 u32 cstring u16 u16 u32
  | Blit u32 u32 u32 u32 "u8 list" u32

record touch_t =
  tdown :: bool
  tx :: u32
  ty :: u32

text \<open>The kernel state the services touch: memory, the serial output, the panel and whether another task holds
  it, the clock, the latest touch, the mailboxes, the devices, the static transfer buffer, the state column of the application table,
  and the counters of vm.c and vmarg.c.\<close>

record kern =
  kmem :: memory
  uart :: "u8 list"
  panel :: "panel_op list"
  panel_busy :: bool
  kticks :: u32
  ktouch :: touch_t
  kipc :: ipc
  kdev :: devs
  bounce :: "u8 list"
  app_states :: "app_state_t list"
  g_vp_escapes :: u32
  g_vp_max_y :: u32
  g_vp_calls :: u32
  g_touch_given :: u32
  g_touch_withheld :: u32
  g_blits :: u32
  g_draw_skipped :: u32
  g_ipc_bad_buffer :: u32
  vmarg_checks :: u32
  vmarg_rejects :: u32

definition set_reg :: "nat \<Rightarrow> u32 \<Rightarrow> vm_t \<Rightarrow> vm_t" where
  "set_reg i v vm = vm\<lparr>reg := (reg vm)[i := v]\<rparr>"

abbreviation R :: "vm_t \<Rightarrow> nat \<Rightarrow> u32" where
  "R vm i \<equiv> reg vm ! i"

subsection \<open>Bounds, faults and initialisation\<close>

definition vm_in_bounds :: "vm_t \<Rightarrow> u32 \<Rightarrow> u32 \<Rightarrow> bool" where
  "vm_in_bounds vm off len = (if off > vsize vm then False else len \<le> vsize vm - off)"

definition vm_raise :: "vm_fault_t \<Rightarrow> u32 \<Rightarrow> vm_t \<Rightarrow> vm_t" where
  "vm_raise code detail vm = vm\<lparr>vfault := code, fault_pc := pc vm, fault_detail := detail\<rparr>"

text \<open>\<open>bounds\<close> is the answer of \<^verbatim>\<open>arena_bounds\<close>.\<close>

definition vm_init :: "(u32 \<times> u32) option \<Rightarrow> int \<Rightarrow> vm_t \<Rightarrow> int \<times> vm_t" where
  "vm_init bounds arena_id vm =
     (case bounds of
        None \<Rightarrow> (-1, vm)
      | Some (base, sz) \<Rightarrow>
          (0, vm\<lparr>reg := (replicate VM_REGS 0)[15 := sz AND NOT 3], pc := 0, call_sp := 0, arena := arena_id,
                vbase := base, vsize := sz, vfault := VM_FAULT_NONE, fault_pc := 0, fault_detail := 0,
                executed := 0, exit_status := 0, yield_now := False,
                vx := 0, vy := 0, vw := DISP_W, vh := DISP_H, app_id := -1\<rparr>))"

definition vm_set_app_id :: "int \<Rightarrow> vm_t \<Rightarrow> vm_t" where
  "vm_set_app_id i vm = vm\<lparr>app_id := i\<rparr>"

definition vm_set_viewport :: "u32 \<Rightarrow> u32 \<Rightarrow> u32 \<Rightarrow> u32 \<Rightarrow> vm_t \<Rightarrow> vm_t" where
  "vm_set_viewport x y w h vm = vm\<lparr>vx := x, vy := y, vw := w, vh := h\<rparr>"

definition vm_fault_name :: "vm_fault_t \<Rightarrow> cstring" where
  "vm_fault_name f = bytes_of (case f of
     VM_FAULT_NONE \<Rightarrow> ''none'' | VM_FAULT_OPCODE \<Rightarrow> ''bad opcode'' | VM_FAULT_REG \<Rightarrow> ''bad register''
   | VM_FAULT_BOUNDS \<Rightarrow> ''out of bounds'' | VM_FAULT_ALIGN \<Rightarrow> ''misaligned'' | VM_FAULT_DIV0 \<Rightarrow> ''divide by zero''
   | VM_FAULT_PC \<Rightarrow> ''bad pc'' | VM_FAULT_CALL_DEPTH \<Rightarrow> ''call depth'' | VM_FAULT_RET \<Rightarrow> ''return underflow''
   | VM_FAULT_SYSCALL \<Rightarrow> ''bad syscall'' | VM_FAULT_STRING \<Rightarrow> ''unterminated string'')"

subsection \<open>Events\<close>

definition vm_event_poll :: "vm_t \<Rightarrow> kern \<Rightarrow> vm_t \<times> kern" where
  "vm_event_poll vm k =
     (if evt_handler vm ! VM_EVT_TICK = 0 \<and> evt_handler vm ! VM_EVT_KEY = 0 then (vm, k)
      else
        let now = kticks k;
            vm1 = (if evt_handler vm ! VM_EVT_TICK \<noteq> 0 \<and> sint (now - evt_due vm ! VM_EVT_TICK) \<ge> 0 then
                     let a = vm\<lparr>evt_due := (evt_due vm)[VM_EVT_TICK := now + evt_param vm ! VM_EVT_TICK]\<rparr>;
                         b = (if evt_pending a AND 1 \<noteq> 0 then a\<lparr>evt_dropped := evt_dropped a + 1\<rparr> else a)
                     in b\<lparr>evt_arg := (evt_arg b)[VM_EVT_TICK := now], evt_pending := evt_pending b OR 1\<rparr>
                   else vm)
        in if evt_handler vm1 ! VM_EVT_KEY \<noteq> 0 \<and> evt_pending vm1 AND 2 = 0 then
             case term_key_pop (dkeys (kdev k)) of
               (None, q) \<Rightarrow> (vm1, k)
             | (Some ch, q) \<Rightarrow>
                 (vm1\<lparr>evt_arg := (evt_arg vm1)[VM_EVT_KEY := ch], evt_pending := evt_pending vm1 OR 2\<rparr>,
                  k\<lparr>kdev := (kdev k)\<lparr>dkeys := q\<rparr>\<rparr>)
           else (vm1, k))"

text \<open>The lowest pending event id, \<open>VM_EVT_COUNT\<close> when there is none.\<close>

definition pending_id :: "vm_t \<Rightarrow> nat" where
  "pending_id vm = (if evt_pending vm AND 1 \<noteq> 0 then 0 else if evt_pending vm AND 2 \<noteq> 0 then 1 else 2)"

definition vm_event_dispatch :: "vm_t \<Rightarrow> bool \<times> vm_t" where
  "vm_event_dispatch vm =
     (if evt_pending vm = 0 then (False, vm)
      else if in_handler vm then (False, vm)
      else if call_sp vm \<ge> VM_CALL_DEPTH then (False, vm)
      else
        let i = pending_id vm in
        if i = 2 \<or> evt_handler vm ! i = 0 then (False, vm\<lparr>evt_pending := 0\<rparr>)
        else
          let vm1 = vm\<lparr>saved_reg := reg vm, handler_sp := call_sp vm,
                call := (call vm)[unat (call_sp vm) := pc vm], call_sp := call_sp vm + 1, pc := evt_handler vm ! i\<rparr>
          in (True, (set_reg 0 (evt_arg vm ! i) vm1)\<lparr>in_handler := True,
                evt_pending := evt_pending vm1 AND NOT (push_bit i 1), evt_delivered := evt_delivered vm1 + 1\<rparr>))"

subsection \<open>Loads and stores\<close>

definition load_u32 :: "u32 \<Rightarrow> vm_t \<Rightarrow> kern \<Rightarrow> bool \<times> u32 \<times> vm_t" where
  "load_u32 off vm k =
     (if \<not> vm_in_bounds vm off 4 then (False, 0, vm_raise VM_FAULT_BOUNDS off vm)
      else if off AND 3 \<noteq> 0 then (False, 0, vm_raise VM_FAULT_ALIGN off vm)
      else (True, peek32 (kmem k) (vbase vm + off), vm))"

definition load_u8 :: "u32 \<Rightarrow> vm_t \<Rightarrow> kern \<Rightarrow> bool \<times> u32 \<times> vm_t" where
  "load_u8 off vm k =
     (if \<not> vm_in_bounds vm off 1 then (False, 0, vm_raise VM_FAULT_BOUNDS off vm)
      else (True, ucast (kmem k (vbase vm + off)), vm))"

definition store_u32 :: "u32 \<Rightarrow> u32 \<Rightarrow> vm_t \<Rightarrow> kern \<Rightarrow> bool \<times> vm_t \<times> kern" where
  "store_u32 off v vm k =
     (if \<not> vm_in_bounds vm off 4 then (False, vm_raise VM_FAULT_BOUNDS off vm, k)
      else if off AND 3 \<noteq> 0 then (False, vm_raise VM_FAULT_ALIGN off vm, k)
      else (True, vm, k\<lparr>kmem := poke32 (kmem k) (vbase vm + off) v\<rparr>))"

definition store_u8 :: "u32 \<Rightarrow> u32 \<Rightarrow> vm_t \<Rightarrow> kern \<Rightarrow> bool \<times> vm_t \<times> kern" where
  "store_u8 off v vm k =
     (if \<not> vm_in_bounds vm off 1 then (False, vm_raise VM_FAULT_BOUNDS off vm, k)
      else (True, vm, k\<lparr>kmem := (kmem k)(vbase vm + off := ucast v)\<rparr>))"

subsection \<open>The argument harness\<close>

definition arg_checked :: "kern \<Rightarrow> kern" where
  "arg_checked k = k\<lparr>vmarg_checks := vmarg_checks k + 1\<rparr>"

definition arg_reject :: "vm_fault_t \<Rightarrow> u32 \<Rightarrow> vm_t \<Rightarrow> kern \<Rightarrow> vm_t \<times> kern" where
  "arg_reject code detail vm k = (vm_raise code detail vm, k\<lparr>vmarg_rejects := vmarg_rejects k + 1\<rparr>)"

text \<open>A span is \<open>Some (ptr, len)\<close>.\<close>

definition vmarg_span :: "u32 \<Rightarrow> u32 \<Rightarrow> u32 \<Rightarrow> vm_t \<Rightarrow> kern \<Rightarrow> (u32 \<times> u32) option \<times> vm_t \<times> kern" where
  "vmarg_span off len align vm k0 =
     (let k = arg_checked k0 in
      if align > 1 \<and> off AND (align - 1) \<noteq> 0 then (None, arg_reject VM_FAULT_ALIGN off vm k)
      else if \<not> vm_in_bounds vm off len then (None, arg_reject VM_FAULT_BOUNDS off vm k)
      else (Some (vbase vm + off, len), vm, k))"

definition vmarg_items ::
    "u32 \<Rightarrow> u32 \<Rightarrow> u32 \<Rightarrow> u32 \<Rightarrow> u32 \<Rightarrow> vm_t \<Rightarrow> kern \<Rightarrow> (u32 \<times> u32) option \<times> vm_t \<times> kern" where
  "vmarg_items off count elem max_items align vm k0 =
     (let k = arg_checked k0 in
      if count = 0 \<or> elem = 0 then (Some (vbase vm, 0), vm, k)
      else if count > max_items then (None, arg_reject VM_FAULT_BOUNDS count vm k)
      else if count > 0xFFFFFFFF div elem then (None, arg_reject VM_FAULT_BOUNDS count vm k)
      else vmarg_span off (count * elem) align vm k)"

text \<open>The copy loop: \<open>n\<close> the index, \<open>left\<close> the iterations left. The result is the string copied, without its
  terminator, or \<open>None\<close> with the offset that was out of bounds.\<close>

fun string_loop :: "vm_t \<Rightarrow> memory \<Rightarrow> u32 \<Rightarrow> nat \<Rightarrow> u32 + cstring" where
  "string_loop vm m off 0 = Inr []"
| "string_loop vm m off (Suc left) =
     (if \<not> vm_in_bounds vm off 1 then Inl off
      else let ch = m (vbase vm + off) in
           if ch = 0 then Inr []
           else case string_loop vm m (off + 1) left of Inl e \<Rightarrow> Inl e | Inr s \<Rightarrow> Inr (ch # s))"

definition vmarg_string :: "u32 \<Rightarrow> u32 \<Rightarrow> vm_t \<Rightarrow> kern \<Rightarrow> cstring option \<times> vm_t \<times> kern" where
  "vmarg_string off mx vm k0 =
     (let k = arg_checked k0 in
      if mx = 0 then (Some [], vm, k)
      else case string_loop vm (kmem k) off (unat (mx - 1)) of
          Inl e \<Rightarrow> (None, arg_reject VM_FAULT_BOUNDS e vm k)
        | Inr s \<Rightarrow> (Some s, vm, k))"

definition vmarg_u32 :: "u32 \<Rightarrow> vm_t \<Rightarrow> kern \<Rightarrow> u32 option \<times> vm_t \<times> kern" where
  "vmarg_u32 off vm k =
     (case vmarg_span off 4 4 vm k of
        (None, vm1, k1) \<Rightarrow> (None, vm1, k1)
      | (Some (p, l), vm1, k1) \<Rightarrow> (Some (peek32 (kmem k1) p), vm1, k1))"

definition vmarg_store :: "u32 \<Rightarrow> u8 list \<Rightarrow> vm_t \<Rightarrow> kern \<Rightarrow> bool \<times> vm_t \<times> kern" where
  "vmarg_store off src vm k0 =
     (let k = arg_checked k0; len = of_nat (length src) in
      if len = 0 then (True, vm, k)
      else if \<not> vm_in_bounds vm off len then (False, arg_reject VM_FAULT_BOUNDS off vm k)
      else (True, vm, k\<lparr>kmem := store_bytes (kmem k) (vbase vm + off) src\<rparr>))"

subsection \<open>The bounds check\<close>

definition vm_limit :: "vm_t \<Rightarrow> nat" where
  "vm_limit vm = unat (vsize vm)"

interpretation vmb: range_guard vm_in_bounds vm_limit
  by unfold_locales (auto simp: vm_in_bounds_def vm_limit_def word_less_nat_alt word_le_nat_alt unat_sub_u32)

lemma in_bounds_outside:
  assumes "vm_in_bounds vm off len" "unat (vsize vm) \<le> unat (x - vbase vm)"
  shows "unat len \<le> unat (x - (vbase vm + off))"
proof -
  have o: "unat off + unat len \<le> unat (vsize vm)" using assms(1) by (simp add: vmb.guard_iff vm_limit_def)
  have e: "x - (vbase vm + off) = (x - vbase vm) - off" by (simp add: algebra_simps)
  have "unat ((x - vbase vm) - off) = unat (x - vbase vm) - unat off"
    using o assms(2) by (intro unat_sub_u32) linarith
  then show ?thesis unfolding e using o assms(2) by linarith
qed

end
