(* ===== verification/VmSys.thy ===== *)
theory VmSys
  imports Vm
begin

text \<open>
  The services of the bytecode machine: the viewport clipping of \<^verbatim>\<open>vp_fill\<close> and \<^verbatim>\<open>vp_text\<close> and the cases of
  \<^verbatim>\<open>do_syscall\<close> in \<^verbatim>\<open>kernel/vm.c\<close>, one definition for each. A service returns whether it ends the
  program's run (the C function's non-zero result), the machine and the kernel state. The relation
  \<open>confined\<close> says what a program may have changed; every service is shown to stay inside it.
\<close>

subsection \<open>Drawing\<close>

definition vp_fill :: "u32 \<Rightarrow> u32 \<Rightarrow> u32 \<Rightarrow> u32 \<Rightarrow> u16 \<Rightarrow> vm_t \<Rightarrow> kern \<Rightarrow> kern" where
  "vp_fill x y w0 h0 colour vm k =
     (if x \<ge> vw vm \<or> y \<ge> vh vm then k
      else
        let w = (if w0 > vw vm - x then vw vm - x else w0);
            h = (if h0 > vh vm - y then vh vm - y else h0)
        in
        if w = 0 \<or> h = 0 then k
        else
          let ax = vx vm + x; ay = vy vm + y in
          if ax < vx vm \<or> ay < vy vm \<or> ax + w > vx vm + vw vm \<or> ay + h > vy vm + vh vm then
            k\<lparr>g_vp_escapes := g_vp_escapes k + 1\<rparr>
          else
            let k1 = k\<lparr>g_vp_calls := g_vp_calls k + 1\<rparr>;
                k2 = (if ay + h > g_vp_max_y k1 then k1\<lparr>g_vp_max_y := ay + h\<rparr> else k1)
            in if panel_busy k2 then k2\<lparr>g_draw_skipped := g_draw_skipped k2 + 1\<rparr>
               else k2\<lparr>panel := panel k2 @ [Fill ax ay w h colour]\<rparr>)"

text \<open>The loop that copies the characters that fit: \<open>i\<close> the characters taken so far.\<close>

fun fit_loop :: "cstring \<Rightarrow> u32 \<Rightarrow> u32 \<Rightarrow> cstring" where
  "fit_loop [] room i = []"
| "fit_loop (c # s) room i = (if i < room \<and> i < VM_STR_MAX - 1 then c # fit_loop s room (i + 1) else [])"

definition vp_text :: "u32 \<Rightarrow> u32 \<Rightarrow> cstring \<Rightarrow> u16 \<Rightarrow> u16 \<Rightarrow> u32 \<Rightarrow> vm_t \<Rightarrow> kern \<Rightarrow> kern" where
  "vp_text x y s fg bg scale0 vm k =
     (let scale = (if scale0 = 0 \<or> scale0 > 4 then 1 else scale0) in
      if x \<ge> vw vm \<or> y \<ge> vh vm then k
      else if 8 * scale > vh vm - y then k
      else
        let room = (vw vm - x) div (6 * scale); buf = fit_loop s room 0 in
        if buf = [] then k
        else if panel_busy k then k\<lparr>g_draw_skipped := g_draw_skipped k + 1\<rparr>
        else k\<lparr>panel := panel k @ [Text (vx vm + x) (vy vm + y) buf fg bg scale]\<rparr>)"

subsection \<open>Serial output\<close>

definition uart_putc :: "u8 \<Rightarrow> kern \<Rightarrow> kern" where
  "uart_putc c k = k\<lparr>uart := uart k @ [c]\<rparr>"

text \<open>The digits of \<open>value\<close>, least significant first, at most \<open>left\<close> of them.\<close>

fun dec_digits :: "nat \<Rightarrow> u32 \<Rightarrow> u8 list" where
  "dec_digits 0 v = []"
| "dec_digits (Suc left) v = (if v > 0 then ucast (48 + v mod 10) # dec_digits left (v div 10) else [])"

definition uart_put_dec :: "u32 \<Rightarrow> kern \<Rightarrow> kern" where
  "uart_put_dec v k = (if v = 0 then uart_putc 48 k else k\<lparr>uart := uart k @ rev (dec_digits 11 v)\<rparr>)"

text \<open>\<open>sys_puts_loop left n\<close>: the character loop of PUTS at index \<open>n\<close> with \<open>left\<close> iterations to go.\<close>

fun sys_puts_loop :: "nat \<Rightarrow> u32 \<Rightarrow> u32 \<Rightarrow> vm_t \<Rightarrow> kern \<Rightarrow> bool \<times> vm_t \<times> kern" where
  "sys_puts_loop 0 off n vm k = (True, vm_raise VM_FAULT_STRING off vm, k)"
| "sys_puts_loop (Suc left) off n vm k =
     (case load_u8 (off + n) vm k of
        (False, ch, vm1) \<Rightarrow> (True, vm1, k)
      | (True, ch, vm1) \<Rightarrow> if ch = 0 then (False, vm1, k) else sys_puts_loop left off (n + 1) vm1 (uart_putc (ucast ch) k))"

definition sys_puts :: "vm_t \<Rightarrow> kern \<Rightarrow> bool \<times> vm_t \<times> kern" where
  "sys_puts vm k = sys_puts_loop (unat (vsize vm)) (R vm 0) 0 vm k"

subsection \<open>Devices\<close>

definition device_caller :: "vm_t \<Rightarrow> u32" where
  "device_caller vm = (if app_id vm \<ge> 0 \<and> app_id vm < int APP_SLOTS then of_int (app_id vm) else DEVICE_CALLER_KERNEL + 1)"

definition set_yield :: "u32 \<Rightarrow> vm_t \<Rightarrow> vm_t" where
  "set_yield i vm = (if device_is_slow i then vm\<lparr>yield_now := True\<rparr> else vm)"

definition dev_op_info :: "vm_t \<Rightarrow> kern \<Rightarrow> bool \<times> vm_t \<times> kern" where
  "dev_op_info vm k =
     (let (r, d) = device_info (R vm 1) (kdev k);
          (ok, chans, flags) = (case r of None \<Rightarrow> (0, 0, 0) | Some (c, f) \<Rightarrow> (1, c, f))
      in (False, set_reg 2 flags (set_reg 1 chans (set_reg 0 ok vm)), k\<lparr>kdev := d\<rparr>))"

definition dev_op_name :: "vm_t \<Rightarrow> kern \<Rightarrow> bool \<times> vm_t \<times> kern" where
  "dev_op_name vm k =
     (case device_name (R vm 1) of
        None \<Rightarrow> (False, set_reg 0 0 vm, k)
      | Some nm \<Rightarrow>
          let n0 = of_nat (length nm) + 1;
              mx = (if R vm 3 > DEVICE_NAME_MAX then DEVICE_NAME_MAX else R vm 3);
              n = (if n0 > mx then mx else n0)
          in
          if n = 0 then (False, set_reg 0 0 vm, k)
          else case vmarg_store (R vm 2) (take (unat n - 1) nm @ [0]) vm k of
              (False, vm1, k1) \<Rightarrow> (True, vm1, k1)
            | (True, vm1, k1) \<Rightarrow> (False, set_reg 0 1 vm1, k1))"

definition dev_op_find :: "vm_t \<Rightarrow> kern \<Rightarrow> bool \<times> vm_t \<times> kern" where
  "dev_op_find vm k =
     (case vmarg_string (R vm 1) DEVICE_NAME_MAX vm k of
        (None, vm1, k1) \<Rightarrow> (True, vm1, k1)
      | (Some want, vm1, k1) \<Rightarrow>
          (case name_id want DEVICES 0 of
             None \<Rightarrow> (False, set_reg 0 0 vm1, k1)
           | Some i \<Rightarrow> (False, set_reg 1 (of_nat i) (set_reg 0 1 vm1), k1)))"

definition dev_op_read :: "hw \<Rightarrow> vm_t \<Rightarrow> kern \<Rightarrow> bool \<times> vm_t \<times> kern" where
  "dev_op_read h vm k =
     (let i = R vm 1; (r, d) = device_read h (device_caller vm) i (R vm 2) (kdev k);
          (ok, v) = (case r of None \<Rightarrow> (0, 0) | Some v \<Rightarrow> (1, v))
      in (False, set_yield i (set_reg 1 v (set_reg 0 ok vm)), k\<lparr>kdev := d\<rparr>))"

definition dev_op_write :: "hw \<Rightarrow> vm_t \<Rightarrow> kern \<Rightarrow> bool \<times> vm_t \<times> kern" where
  "dev_op_write h vm k =
     (let i = R vm 1; (ok, d) = device_write h (device_caller vm) i (R vm 2) (R vm 3) (kdev k)
      in (False, set_yield i (set_reg 0 (if ok then 1 else 0) vm), k\<lparr>kdev := d\<rparr>))"

definition dev_op_xfer_out :: "hw \<Rightarrow> vm_t \<Rightarrow> kern \<Rightarrow> bool \<times> vm_t \<times> kern" where
  "dev_op_xfer_out h vm k =
     (let i = R vm 1; chan = R vm 2; off = R vm 3; len = R vm 4 in
      if len = 0 \<or> len > DEVICE_XFER_MAX then (False, set_reg 0 0 vm, k)
      else case vmarg_span off len 1 vm k of
          (None, vm1, k1) \<Rightarrow> (True, vm1, k1)
        | (Some (ptr, _), vm1, k1) \<Rightarrow>
            let src = load_bytes (kmem k1) ptr (unat len);
                (ok, d) = device_xfer_out h (device_caller vm1) i chan src (kdev k1)
            in (False, set_yield i (set_reg 0 (if ok then 1 else 0) vm1),
                k1\<lparr>bounce := copy_prefix src (bounce k1), kdev := d\<rparr>))"

definition dev_op_xfer_in :: "hw \<Rightarrow> vm_t \<Rightarrow> kern \<Rightarrow> bool \<times> vm_t \<times> kern" where
  "dev_op_xfer_in h vm k =
     (let i = R vm 1; chan = R vm 2; off = R vm 3; len = R vm 4 in
      if len = 0 \<or> len > DEVICE_XFER_MAX then (False, set_reg 0 0 vm, k)
      else case vmarg_span off len 1 vm k of
          (None, vm1, k1) \<Rightarrow> (True, vm1, k1)
        | (Some _, vm1, k1) \<Rightarrow>
            (case device_xfer_in h (device_caller vm1) i chan len (kdev k1) of
               (None, d) \<Rightarrow> (False, set_reg 0 0 vm1, k1\<lparr>kdev := d\<rparr>)
             | (Some bs, d) \<Rightarrow>
                 let k2 = k1\<lparr>bounce := copy_prefix bs (bounce k1), kdev := d\<rparr> in
                 (case vmarg_store off (take (unat len) (bounce k2)) vm1 k2 of
                    (False, vm2, k3) \<Rightarrow> (True, vm2, k3)
                  | (True, vm2, k3) \<Rightarrow> (False, set_yield i (set_reg 0 1 vm2), k3))))"

definition sys_device :: "hw \<Rightarrow> vm_t \<Rightarrow> kern \<Rightarrow> bool \<times> vm_t \<times> kern" where
  "sys_device h vm k =
     (let op = R vm 0 in
      if op = 0 then (False, set_reg 0 (of_nat device_count) vm, k)
      else if op = 4 then dev_op_info vm k
      else if op = 1 then dev_op_name vm k
      else if op = 7 then dev_op_find vm k
      else if op = 2 then dev_op_read h vm k
      else if op = 3 then dev_op_write h vm k
      else if op = 5 then dev_op_xfer_out h vm k
      else if op = 6 then dev_op_xfer_in h vm k
      else (False, set_reg 0 0 vm, k))"

subsection \<open>Events, touch, images and messages\<close>

definition sys_event :: "vm_t \<Rightarrow> kern \<Rightarrow> bool \<times> vm_t \<times> kern" where
  "sys_event vm k =
     (let i = R vm 0; offset = R vm 1; param = R vm 2 in
      if i \<ge> VM_EVT_COUNT then (False, set_reg 0 0 vm, k)
      else if offset = 0 then
        (False, set_reg 0 1 (vm\<lparr>evt_handler := (evt_handler vm)[unat i := 0],
                                evt_pending := evt_pending vm AND NOT (push_bit (unat i) 1)\<rparr>), k)
      else if \<not> vm_in_bounds vm offset VM_INSN_BYTES then (True, vm_raise VM_FAULT_BOUNDS offset vm, k)
      else if offset mod VM_INSN_BYTES \<noteq> 0 then (True, vm_raise VM_FAULT_ALIGN offset vm, k)
      else
        let vm1 = vm\<lparr>evt_handler := (evt_handler vm)[unat i := offset], evt_param := (evt_param vm)[unat i := param]\<rparr>;
            vm2 = (if unat i = VM_EVT_TICK then
                     let p = (if evt_param vm1 ! unat i = 0 then 1 else evt_param vm1 ! unat i) in
                     vm1\<lparr>evt_param := (evt_param vm1)[unat i := p], evt_due := (evt_due vm1)[unat i := kticks k + p]\<rparr>
                   else vm1)
        in (False, set_reg 0 1 vm2, k))"

definition sys_fill :: "vm_t \<Rightarrow> kern \<Rightarrow> bool \<times> vm_t \<times> kern" where
  "sys_fill vm k = (False, vm\<lparr>yield_now := True\<rparr>, vp_fill (R vm 0) (R vm 1) (R vm 2) (R vm 3) (ucast (R vm 4)) vm k)"

definition sys_text :: "vm_t \<Rightarrow> kern \<Rightarrow> bool \<times> vm_t \<times> kern" where
  "sys_text vm k =
     (case vmarg_string (R vm 0) VM_STR_MAX vm k of
        (None, vm1, k1) \<Rightarrow> (True, vm1, k1)
      | (Some s, vm1, k1) \<Rightarrow>
          (False, vm1\<lparr>yield_now := True\<rparr>,
           vp_text (R vm1 1) (R vm1 2) s (ucast (R vm1 3)) (ucast (R vm1 4)) (R vm1 5) vm1 k1))"

definition sys_touch :: "vm_t \<Rightarrow> kern \<Rightarrow> bool \<times> vm_t \<times> kern" where
  "sys_touch vm k =
     (let t = ktouch k; dx = tx t - vx vm; dy = ty t - vy vm;
          inside = (tdown t \<and> tx t \<ge> vx vm \<and> ty t \<ge> vy vm \<and> dx < vw vm \<and> dy < vh vm);
          k1 = (if tdown t \<and> \<not> inside then k\<lparr>g_touch_withheld := g_touch_withheld k + 1\<rparr> else k);
          k2 = (if inside then k1\<lparr>g_touch_given := g_touch_given k1 + 1\<rparr> else k1)
      in (False, set_reg 2 (if inside then dy else 0) (set_reg 1 (if inside then dx else 0)
            (set_reg 0 (if inside then 1 else 0) vm)), k2))"

definition sys_blit :: "vm_t \<Rightarrow> kern \<Rightarrow> bool \<times> vm_t \<times> kern" where
  "sys_blit vm k =
     (let off = R vm 0; x = R vm 1; y = R vm 2; w = R vm 3; h = R vm 4 in
      if w = 0 \<or> h = 0 \<or> w > DISP_W \<or> h > DISP_H then (False, set_reg 0 0 vm, k)
      else case vmarg_items off (w * h) 2 (DISP_W * DISP_H) 2 vm k of
          (None, vm1, k1) \<Rightarrow> (True, vm1, k1)
        | (Some (ptr, len), vm1, k1) \<Rightarrow>
            if x \<ge> vw vm1 \<or> y \<ge> vh vm1 then (False, set_reg 0 0 vm1, k1)
            else
              let cw = (if w > vw vm1 - x then vw vm1 - x else w);
                  ch = (if h > vh vm1 - y then vh vm1 - y else h)
              in if panel_busy k1 then (False, set_reg 0 0 vm1, k1\<lparr>g_draw_skipped := g_draw_skipped k1 + 1\<rparr>)
                 else (False, (set_reg 0 1 vm1)\<lparr>yield_now := True\<rparr>,
                   k1\<lparr>panel := panel k1 @ [Blit (vx vm1 + x) (vy vm1 + y) cw ch (load_bytes (kmem k1) ptr (unat len)) w],
                      g_blits := g_blits k1 + 1\<rparr>))"

definition sys_send :: "vm_t \<Rightarrow> kern \<Rightarrow> bool \<times> vm_t \<times> kern" where
  "sys_send vm k =
     (let dst = R vm 0; off = R vm 1; len = R vm 2 in
      if len = 0 \<or> len > IPC_MSG_MAX \<or> \<not> vm_in_bounds vm off len then
        (False, set_reg 0 0 vm, k\<lparr>g_ipc_bad_buffer := g_ipc_bad_buffer k + 1\<rparr>)
      else
        let (ok, b) = ipc_send (app_states k) (app_id vm) (sint dst) (load_bytes (kmem k) (vbase vm + off) (unat len)) len (kipc k)
        in (False, set_reg 0 (if ok = 0 then 1 else 0) vm, k\<lparr>kipc := b\<rparr>))"

definition sys_recv :: "vm_t \<Rightarrow> kern \<Rightarrow> bool \<times> vm_t \<times> kern" where
  "sys_recv vm k =
     (let off = R vm 0; mx = R vm 1 in
      if mx = 0 \<or> mx > IPC_MSG_MAX \<or> \<not> vm_in_bounds vm off mx then
        (False, set_reg 1 0 (set_reg 0 0 vm), k\<lparr>g_ipc_bad_buffer := g_ipc_bad_buffer k + 1\<rparr>)
      else
        let ((n, bs, from), b) = ipc_recv (app_id vm) mx (kipc k);
            f = (case from of None \<Rightarrow> -1 | Some s \<Rightarrow> s)
        in (False, set_reg 1 (if n > 0 then of_int f else 0) (set_reg 0 n vm),
            k\<lparr>kipc := b, kmem := store_bytes (kmem k) (vbase vm + off) bs\<rparr>))"

definition do_syscall :: "hw \<Rightarrow> u32 \<Rightarrow> vm_t \<Rightarrow> kern \<Rightarrow> bool \<times> vm_t \<times> kern" where
  "do_syscall h num vm k =
     (if num = 0 then (True, vm\<lparr>exit_status := R vm 0\<rparr>, k)
      else if num = 1 then (False, vm, uart_putc (ucast (R vm 0 AND 0xFF)) k)
      else if num = 2 then sys_puts vm k
      else if num = 12 then sys_device h vm k
      else if num = 13 then sys_event vm k
      else if num = 3 then (False, vm, uart_put_dec (R vm 0) k)
      else if num = 4 then (False, set_reg 0 (kticks k) vm, k)
      else if num = 5 then sys_fill vm k
      else if num = 6 then sys_text vm k
      else if num = 8 then sys_touch vm k
      else if num = 9 then sys_blit vm k
      else if num = 10 then sys_send vm k
      else if num = 11 then sys_recv vm k
      else if num = 7 then (False, set_reg 0 (push_bit 16 (vw vm) OR (vh vm AND 0xFFFF)) vm, k)
      else (True, vm_raise VM_FAULT_SYSCALL num vm, k))"

subsection \<open>Containment\<close>

text \<open>What the kernel gives a program and the program must not change: its memory, its viewport and its names.\<close>

definition vm_id :: "vm_t \<Rightarrow> u32 \<times> u32 \<times> u32 \<times> u32 \<times> u32 \<times> u32 \<times> int \<times> int" where
  "vm_id vm = (vbase vm, vsize vm, vx vm, vy vm, vw vm, vh vm, arena vm, app_id vm)"

definition vm_wf :: "vm_t \<Rightarrow> bool" where
  "vm_wf vm \<longleftrightarrow> length (reg vm) = 16 \<and> length (call vm) = 32 \<and> call_sp vm \<le> 32 \<and> length (saved_reg vm) = 16
     \<and> length (evt_handler vm) = 2 \<and> length (evt_param vm) = 2 \<and> length (evt_due vm) = 2 \<and> length (evt_arg vm) = 2"

text \<open>A viewport that lies on the panel.\<close>

definition view_ok :: "vm_t \<Rightarrow> bool" where
  "view_ok vm \<longleftrightarrow> unat (vx vm) + unat (vw vm) \<le> 240 \<and> unat (vy vm) + unat (vh vm) \<le> 320"

definition rect_in :: "vm_t \<Rightarrow> u32 \<Rightarrow> u32 \<Rightarrow> nat \<Rightarrow> nat \<Rightarrow> bool" where
  "rect_in vm x y w h \<longleftrightarrow> unat (vx vm) \<le> unat x \<and> unat x + w \<le> unat (vx vm) + unat (vw vm)
     \<and> unat (vy vm) \<le> unat y \<and> unat y + h \<le> unat (vy vm) + unat (vh vm)"

text \<open>A panel operation touches no pixel outside the viewport; a character cell is 6 by 8 at scale 1.\<close>

definition in_view :: "vm_t \<Rightarrow> panel_op \<Rightarrow> bool" where
  "in_view vm op = (case op of
     Fill x y w h col \<Rightarrow> rect_in vm x y (unat w) (unat h)
   | Text x y s fg bg sc \<Rightarrow> rect_in vm x y (6 * unat sc * length s) (8 * unat sc)
   | Blit x y w h bs stride \<Rightarrow> rect_in vm x y (unat w) (unat h))"

text \<open>Mail of other applications is never consumed or replaced, and new mail carries the sender's own id.\<close>

definition mail_frame :: "int \<Rightarrow> ipc \<Rightarrow> ipc \<Rightarrow> bool" where
  "mail_frame me b b' \<longleftrightarrow> (ipc_ok b \<longrightarrow> ipc_ok b' \<and>
     (\<forall>i. i \<noteq> me \<longrightarrow> mail_of b' i = mail_of b i \<or> mail_of b i = None \<and> (\<exists>bs. mail_of b' i = Some (me, bs))))"

definition kconf :: "vm_t \<Rightarrow> kern \<Rightarrow> kern \<Rightarrow> bool" where
  "kconf vm k k' \<longleftrightarrow>
     (\<forall>x. unat (vsize vm) \<le> unat (x - vbase vm) \<longrightarrow> kmem k' x = kmem k x)
     \<and> app_states k' = app_states k \<and> g_perms (kdev k') = g_perms (kdev k)
     \<and> kticks k' = kticks k \<and> ktouch k' = ktouch k \<and> panel_busy k' = panel_busy k
     \<and> (\<exists>ops. panel k' = panel k @ ops \<and> (view_ok vm \<longrightarrow> list_all (in_view vm) ops))
     \<and> (view_ok vm \<longrightarrow> g_vp_escapes k' = g_vp_escapes k)
     \<and> mail_frame (app_id vm) (kipc k) (kipc k')"

definition confined :: "vm_t \<Rightarrow> kern \<Rightarrow> vm_t \<times> kern \<Rightarrow> bool" where
  "confined vm k p \<longleftrightarrow> vm_id (fst p) = vm_id vm \<and> kconf vm k (snd p) \<and> (vm_wf vm \<longrightarrow> vm_wf (fst p))"

lemma mail_frame_refl [simp]: "mail_frame me b b"
  by (simp add: mail_frame_def)

lemma mail_frame_trans: "mail_frame me a b \<Longrightarrow> mail_frame me b c \<Longrightarrow> mail_frame me a c"
  unfolding mail_frame_def by (metis option.distinct(1))

lemma kconf_refl [simp]: "kconf vm k k"
  by (simp add: kconf_def)

lemma kconf_trans:
  assumes "kconf vm a b" "kconf vm b c"
  shows "kconf vm a c"
proof -
  obtain p where p: "panel b = panel a @ p" "view_ok vm \<Longrightarrow> list_all (in_view vm) p"
    using assms(1) by (auto simp: kconf_def)
  obtain q where q: "panel c = panel b @ q" "view_ok vm \<Longrightarrow> list_all (in_view vm) q"
    using assms(2) by (auto simp: kconf_def)
  have "panel c = panel a @ (p @ q)" "view_ok vm \<Longrightarrow> list_all (in_view vm) (p @ q)"
    using p q by auto
  then have "\<exists>ops. panel c = panel a @ ops \<and> (view_ok vm \<longrightarrow> list_all (in_view vm) ops)" by blast
  moreover have "mail_frame (app_id vm) (kipc a) (kipc c)"
    using assms by (auto simp: kconf_def intro: mail_frame_trans)
  ultimately show ?thesis using assms unfolding kconf_def by simp
qed

lemma view_ok_id: "vm_id vm' = vm_id vm \<Longrightarrow> view_ok vm' = view_ok vm"
  by (simp add: vm_id_def view_ok_def)

lemma kconf_id:
  assumes "vm_id vm' = vm_id vm"
  shows "kconf vm' = kconf vm"
proof -
  have "in_view vm' = in_view vm"
    using assms by (auto simp: fun_eq_iff in_view_def rect_in_def vm_id_def split: panel_op.split)
  then show ?thesis using assms view_ok_id [OF assms] by (intro ext) (simp add: kconf_def vm_id_def)
qed

lemma confined_refl [simp]: "confined vm k (vm, k)"
  by (simp add: confined_def)

lemma confined_trans: "confined vm k (vm1, k1) \<Longrightarrow> confined vm1 k1 p \<Longrightarrow> confined vm k p"
  using kconf_id [of vm1 vm] by (auto simp: confined_def intro: kconf_trans)

text \<open>Updates that leave the relation alone.\<close>

lemma vm_id_simps [simp]:
  "vm_id (set_reg i v vm) = vm_id vm" "vm_id (vm_raise c d vm) = vm_id vm" "vm_id (vm\<lparr>yield_now := y\<rparr>) = vm_id vm"
  "vm_id (set_yield d' vm) = vm_id vm" "vm_id (vm\<lparr>exit_status := e\<rparr>) = vm_id vm" "vm_id (vm\<lparr>executed := n\<rparr>) = vm_id vm"
  "vm_id (vm\<lparr>evt_handler := a\<rparr>) = vm_id vm" "vm_id (vm\<lparr>evt_param := a\<rparr>) = vm_id vm" "vm_id (vm\<lparr>evt_due := a\<rparr>) = vm_id vm"
  "vm_id (vm\<lparr>evt_pending := n\<rparr>) = vm_id vm" "vm_id (vm\<lparr>evt_arg := a\<rparr>) = vm_id vm" "vm_id (vm\<lparr>evt_dropped := n\<rparr>) = vm_id vm"
  "vm_id (vm\<lparr>pc := n\<rparr>) = vm_id vm" "vm_id (vm\<lparr>call := a\<rparr>) = vm_id vm" "vm_id (vm\<lparr>call_sp := n\<rparr>) = vm_id vm"
  "vm_id (vm\<lparr>reg := a\<rparr>) = vm_id vm" "vm_id (vm\<lparr>in_handler := y\<rparr>) = vm_id vm" "vm_id (vm\<lparr>saved_reg := a\<rparr>) = vm_id vm"
  "vm_id (vm\<lparr>handler_sp := n\<rparr>) = vm_id vm" "vm_id (vm\<lparr>evt_delivered := n\<rparr>) = vm_id vm"
  by (simp_all add: vm_id_def set_reg_def vm_raise_def set_yield_def)

lemma vm_wf_simps [simp]:
  "vm_wf (set_reg i v vm) = vm_wf vm" "vm_wf (vm_raise c d vm) = vm_wf vm" "vm_wf (vm\<lparr>yield_now := y\<rparr>) = vm_wf vm"
  "vm_wf (set_yield d' vm) = vm_wf vm" "vm_wf (vm\<lparr>exit_status := e\<rparr>) = vm_wf vm" "vm_wf (vm\<lparr>executed := n\<rparr>) = vm_wf vm"
  "vm_wf (vm\<lparr>evt_pending := n\<rparr>) = vm_wf vm" "vm_wf (vm\<lparr>evt_dropped := n\<rparr>) = vm_wf vm" "vm_wf (vm\<lparr>pc := n\<rparr>) = vm_wf vm"
  "vm_wf (vm\<lparr>in_handler := y\<rparr>) = vm_wf vm" "vm_wf (vm\<lparr>handler_sp := n\<rparr>) = vm_wf vm"
  "vm_wf (vm\<lparr>evt_delivered := n\<rparr>) = vm_wf vm"
  by (simp_all add: vm_wf_def set_reg_def vm_raise_def set_yield_def)

lemma kconf_simps [simp]:
  "kconf vm k (k'\<lparr>uart := a\<rparr>) = kconf vm k k'" "kconf vm k (k'\<lparr>bounce := a\<rparr>) = kconf vm k k'"
  "kconf vm k (k'\<lparr>g_vp_max_y := n\<rparr>) = kconf vm k k'" "kconf vm k (k'\<lparr>g_vp_calls := n\<rparr>) = kconf vm k k'"
  "kconf vm k (k'\<lparr>g_touch_given := n\<rparr>) = kconf vm k k'" "kconf vm k (k'\<lparr>g_touch_withheld := n\<rparr>) = kconf vm k k'"
  "kconf vm k (k'\<lparr>g_blits := n\<rparr>) = kconf vm k k'" "kconf vm k (k'\<lparr>g_draw_skipped := n\<rparr>) = kconf vm k k'"
  "kconf vm k (k'\<lparr>g_ipc_bad_buffer := n\<rparr>) = kconf vm k k'" "kconf vm k (k'\<lparr>vmarg_checks := n\<rparr>) = kconf vm k k'"
  "kconf vm k (k'\<lparr>vmarg_rejects := n\<rparr>) = kconf vm k k'"
  by (simp_all add: kconf_def)

lemma kconf_uart [simp]:
  "kconf vm k (uart_putc c k') = kconf vm k k'" "kconf vm k (uart_put_dec n k') = kconf vm k k'"
  by (simp_all add: uart_putc_def uart_put_dec_def)

text \<open>Updates that need an argument: memory inside the arena, devices, mail and the panel.\<close>

lemma kconf_store:
  assumes "kconf vm k k'" "vm_in_bounds vm off len" "length bs \<le> unat len"
  shows "kconf vm k (k'\<lparr>kmem := store_bytes (kmem k') (vbase vm + off) bs\<rparr>)"
proof -
  have l: "length bs \<le> 4294967296" using assms(3) unat_le_u32 [of len] by linarith
  have "store_bytes (kmem k') (vbase vm + off) bs x = kmem k' x" if "unat (vsize vm) \<le> unat (x - vbase vm)" for x
  proof -
    have "\<not> unat (x - (vbase vm + off)) < length bs"
      using in_bounds_outside [OF assms(2) that] assms(3) by linarith
    then show ?thesis by (simp add: store_bytes_apply [OF l])
  qed
  then show ?thesis using assms(1) by (simp add: kconf_def)
qed

lemma kconf_kdev: "kconf vm k k' \<Longrightarrow> g_perms d = g_perms (kdev k') \<Longrightarrow> kconf vm k (k'\<lparr>kdev := d\<rparr>)"
  by (simp add: kconf_def)

lemma kconf_panel:
  assumes "kconf vm k k'" "p = panel k'" "view_ok vm \<Longrightarrow> in_view vm op"
  shows "kconf vm k (k'\<lparr>panel := p @ [op]\<rparr>)"
  unfolding assms(2)
proof -
  have "kconf vm k' (k'\<lparr>panel := panel k' @ [op]\<rparr>)" using assms(3) by (simp add: kconf_def)
  then show "kconf vm k (k'\<lparr>panel := panel k' @ [op]\<rparr>)" by (rule kconf_trans [OF assms(1)])
qed

lemma mail_frame_send:
  "length src = unat len \<Longrightarrow> mail_frame me b (snd (ipc_send states me dst src len b))"
  using ipc_send_refines [of b src len states me dst] by (auto simp: mail_frame_def send_spec_def split: if_splits)

lemma mail_frame_recv: "mail_frame me b (snd (ipc_recv me mx b))"
  using ipc_recv_refines [of b me mx] by (auto simp: mail_frame_def recv_spec_def split: option.splits)

lemma vmarg_store_confined:
  assumes "kconf vm k k'" "length src < 4294967296"
  shows "vmarg_store off src vm k' = (ok, vm1, k1) \<Longrightarrow> vm_id vm1 = vm_id vm \<and> vm_wf vm1 = vm_wf vm \<and> kconf vm k k1"
  using assms kconf_store [of vm k "arg_checked k'" off "of_nat (length src)" src]
  by (auto simp: vmarg_store_def arg_checked_def arg_reject_def Let_def unat_of_nat_u32 split: if_splits)

lemma vmarg_span_confined:
  "vmarg_span off len al vm k = (r, vm1, k1) \<Longrightarrow>
     vm_id vm1 = vm_id vm \<and> vm_wf vm1 = vm_wf vm \<and> kconf vm k k1 \<and> kmem k1 = kmem k \<and> (r \<noteq> None \<longrightarrow> vm1 = vm)"
  by (auto simp: vmarg_span_def arg_checked_def arg_reject_def Let_def split: if_splits)

lemma vmarg_items_confined:
  "vmarg_items off n e mx al vm k = (r, vm1, k1) \<Longrightarrow>
     vm_id vm1 = vm_id vm \<and> vm_wf vm1 = vm_wf vm \<and> kconf vm k k1 \<and> (r \<noteq> None \<longrightarrow> vm1 = vm)"
  using vmarg_span_confined [of off "n * e" al vm "arg_checked k" r vm1 k1]
  by (auto simp: vmarg_items_def arg_checked_def arg_reject_def Let_def kconf_def split: if_splits)

lemma vmarg_string_confined:
  "vmarg_string off mx vm k = (r, vm1, k1) \<Longrightarrow>
     vm_id vm1 = vm_id vm \<and> vm_wf vm1 = vm_wf vm \<and> kconf vm k k1 \<and> (r \<noteq> None \<longrightarrow> vm1 = vm)"
  by (auto simp: vmarg_string_def arg_checked_def arg_reject_def Let_def split: if_splits sum.splits)

lemma load_u8_confined: "load_u8 off vm k = (ok, v, vm1) \<Longrightarrow> vm_id vm1 = vm_id vm \<and> vm_wf vm1 = vm_wf vm"
  by (auto simp: load_u8_def split: if_splits)

text \<open>Clipping.\<close>

lemma view_offset:
  assumes "view_ok vm" "x < vw vm" "y < vh vm"
  shows "unat (vx vm + x) = unat (vx vm) + unat x" "unat (vy vm + y) = unat (vy vm) + unat y"
    "unat (vw vm - x) = unat (vw vm) - unat x" "unat (vh vm - y) = unat (vh vm) - unat y"
  using assms by (auto simp: view_ok_def word_less_nat_alt intro!: unat_add_u32 unat_sub_u32)

lemma rect_in_clip:
  assumes "view_ok vm" "x < vw vm" "y < vh vm" "w \<le> unat (vw vm - x)" "h \<le> unat (vh vm - y)"
  shows "rect_in vm (vx vm + x) (vy vm + y) w h"
  using assms view_offset [OF assms(1-3)] by (auto simp: rect_in_def word_less_nat_alt)

lemma fit_loop_length: "i \<le> room \<Longrightarrow> length (fit_loop s room i) \<le> unat room - unat i"
proof (induction s room i rule: fit_loop.induct)
  case (2 c s room i)
  show ?case
  proof (cases "i < room \<and> i < VM_STR_MAX - 1")
    case True
    have i: "unat (i + 1) = unat i + 1" using True unat_add_u32 [of i 1] by (simp add: word_less_nat_alt)
    have "i + 1 \<le> room" using True i by (simp add: word_le_nat_alt word_less_nat_alt)
    with "2.IH" [OF True] True i show ?thesis by (simp add: word_less_nat_alt) linarith
  qed auto
qed simp

lemma text_fits:
  assumes "1 \<le> sc" "sc \<le> 4"
  shows "6 * unat sc * length (fit_loop s ((w :: u32) div (6 * sc)) 0) \<le> unat w"
proof -
  have sc: "unat (6 * sc) = 6 * unat sc"
    using assms by (simp add: unat_word_ariths word_le_nat_alt)
  have "length (fit_loop s (w div (6 * sc)) 0) \<le> unat w div (6 * unat sc)"
    using fit_loop_length [of 0 "w div (6 * sc)" s] by (simp add: unat_div sc)
  then have "6 * unat sc * length (fit_loop s (w div (6 * sc)) 0) \<le> 6 * unat sc * (unat w div (6 * unat sc))"
    by (rule mult_le_mono2)
  also have "\<dots> \<le> unat w" by simp
  finally show ?thesis .
qed

lemma vp_fill_confined: "kconf vm k (vp_fill x y w h col vm k)"
proof (cases "x \<ge> vw vm \<or> y \<ge> vh vm")
  case False
  define w' where "w' = (if w > vw vm - x then vw vm - x else w)"
  define h' where "h' = (if h > vh vm - y then vh vm - y else h)"
  have le: "w' \<le> vw vm - x" "h' \<le> vh vm - y" by (auto simp: w'_def h'_def)
  have xy: "x < vw vm" "y < vh vm" using False by auto
  have rect: "in_view vm (Fill (vx vm + x) (vy vm + y) w' h' col)" if "view_ok vm"
    using rect_in_clip [OF that xy, of "unat w'" "unat h'"] le by (simp add: in_view_def word_le_nat_alt)
  have ok: "\<not> (vx vm + x < vx vm \<or> vy vm + y < vy vm \<or> vx vm + x + w' > vx vm + vw vm \<or> vy vm + y + h' > vy vm + vh vm)"
    if "view_ok vm"
  proof -
    note o = view_offset [OF that xy]
    have l: "unat w' \<le> unat (vw vm) - unat x" "unat h' \<le> unat (vh vm) - unat y" using le o by (simp_all add: word_le_nat_alt)
    have v: "unat (vx vm) + unat (vw vm) \<le> 240" "unat (vy vm) + unat (vh vm) \<le> 320"
      "unat x < unat (vw vm)" "unat y < unat (vh vm)" using that xy by (auto simp: view_ok_def word_less_nat_alt)
    have s: "unat (vx vm + x + w') = unat (vx vm) + unat x + unat w'" "unat (vy vm + y + h') = unat (vy vm) + unat y + unat h'"
      "unat (vx vm + vw vm) = unat (vx vm) + unat (vw vm)" "unat (vy vm + vh vm) = unat (vy vm) + unat (vh vm)"
      using o l v by (subst unat_add_u32; linarith)+
    show ?thesis using l v by (simp add: word_less_nat_alt s o) linarith
  qed
  show ?thesis
  proof (cases "view_ok vm")
    case True
    with ok rect False show ?thesis
      by (auto simp: vp_fill_def Let_def w'_def [symmetric] h'_def [symmetric] intro!: kconf_panel)
  next
    case v: False
    have e: "kconf vm k (k'\<lparr>g_vp_escapes := n\<rparr>)" if "kconf vm k k'" for k' n using that v by (simp add: kconf_def)
    from v False show ?thesis
      by (auto simp: vp_fill_def Let_def intro!: kconf_panel e)
  qed
qed (simp add: vp_fill_def)

lemma vp_text_confined: "kconf vm k (vp_text x y s fg bg sc vm k)"
proof (cases "x \<ge> vw vm \<or> y \<ge> vh vm")
  case False
  define sc' where "sc' = (if sc = 0 \<or> sc > 4 then 1 else sc)"
  have sc: "1 \<le> sc'" "sc' \<le> 4" by (auto simp: sc'_def word_le_nat_alt word_less_nat_alt unat_gt_0 Suc_le_eq)
  let ?buf = "fit_loop s ((vw vm - x) div (6 * sc')) 0"
  have "unat (8 * sc') = 8 * unat sc'" using sc by (simp add: unat_word_ariths word_le_nat_alt)
  then have rect: "in_view vm (Text (vx vm + x) (vy vm + y) ?buf fg bg sc')" if "view_ok vm" "8 * sc' \<le> vh vm - y"
    using rect_in_clip [OF that(1), of x y "6 * unat sc' * length ?buf" "8 * unat sc'"] False that(2)
      text_fits [OF sc, of s "vw vm - x"] by (auto simp: in_view_def word_le_nat_alt word_less_nat_alt)
  show ?thesis using False rect
    by (auto simp: vp_text_def Let_def sc'_def [symmetric] not_less intro!: kconf_panel)
qed (auto simp: vp_text_def Let_def)

lemma sys_puts_loop_confined: "kconf vm0 k0 k \<Longrightarrow> vm_id (fst (snd (sys_puts_loop left off n vm k))) = vm_id vm
    \<and> vm_wf (fst (snd (sys_puts_loop left off n vm k))) = vm_wf vm \<and> kconf vm0 k0 (snd (snd (sys_puts_loop left off n vm k)))"
proof (induction left off n vm k rule: sys_puts_loop.induct)
  case (2 left off n vm k)
  obtain ok ch vm1 where l: "load_u8 (off + n) vm k = (ok, ch, vm1)" by (rule prod_cases3)
  show ?case using 2 l load_u8_confined [OF l] by (cases ok) auto
qed simp

lemma confined_simp: "confined vm k (vm', k') \<longleftrightarrow> vm_id vm' = vm_id vm \<and> kconf vm k k' \<and> (vm_wf vm \<longrightarrow> vm_wf vm')"
  by (simp add: confined_def)

lemma sys_puts_confined: "confined vm k (snd (sys_puts vm k))"
  using sys_puts_loop_confined [OF kconf_refl] by (simp add: sys_puts_def confined_def)

lemma device_info_perms: "g_perms (snd (device_info i st)) = g_perms st"
  by (simp add: device_info_def split: option.split)

lemma dev_op_info_confined: "confined vm k (snd (dev_op_info vm k))"
  using device_info_perms [of "R vm 1" "kdev k"]
  by (auto simp: dev_op_info_def confined_simp split: prod.splits option.splits intro!: kconf_kdev)

lemma dev_op_name_confined: "confined vm k (snd (dev_op_name vm k))"
proof (cases "device_name (R vm 1)")
  case (Some nm)
  let ?mx = "if R vm 3 > DEVICE_NAME_MAX then DEVICE_NAME_MAX else R vm 3"
  define n where "n = (if of_nat (length nm) + 1 > ?mx then ?mx else of_nat (length nm) + 1)"
  obtain ok vm1 k1 where st: "vmarg_store (R vm 2) (take (unat n - 1) nm @ [0]) vm k = (ok, vm1, k1)"
    by (rule prod_cases3)
  have "unat n - 1 < 4294967295" using unat_le_u32 [of n] by linarith
  then have "length (take (unat n - 1) nm @ [0]) < 4294967296" by (simp add: min_less_iff_disj)
  from vmarg_store_confined [OF kconf_refl this st] Some st show ?thesis
    by (cases ok) (auto simp: dev_op_name_def Let_def n_def [symmetric] confined_simp)
qed (simp add: dev_op_name_def confined_simp)

lemma dev_op_find_confined: "confined vm k (snd (dev_op_find vm k))"
  by (auto simp: dev_op_find_def confined_simp split: option.split prod.split dest!: vmarg_string_confined)

lemma dev_op_read_confined: "confined vm k (snd (dev_op_read h vm k))"
  using rd.keeps_perms [of h "device_caller vm" "R vm 1" "R vm 2" "kdev k"]
  by (auto simp: dev_op_read_def Let_def confined_simp split: prod.split option.split intro!: kconf_kdev)

lemma dev_op_write_confined: "confined vm k (snd (dev_op_write h vm k))"
  using wr.keeps_perms [of h "device_caller vm" "R vm 1" "(R vm 2, R vm 3)" "kdev k"]
  by (auto simp: dev_op_write_def Let_def confined_simp split: prod.split intro!: kconf_kdev)

lemma dev_op_xfer_out_confined: "confined vm k (snd (dev_op_xfer_out h vm k))"
proof -
  have p: "g_perms d = g_perms st" if "device_xfer_out h c i chan src st = (ok, d)" for c i chan src st ok d
    using xo.keeps_perms [of h c i "(chan, src)" st] that by simp
  show ?thesis unfolding dev_op_xfer_out_def Let_def
    by (auto simp: confined_simp split: option.split prod.split intro!: kconf_kdev dest!: vmarg_span_confined dest: p)
qed

lemma dev_op_xfer_in_confined: "confined vm k (snd (dev_op_xfer_in h vm k))"
proof (cases "R vm 4 = 0 \<or> R vm 4 > DEVICE_XFER_MAX")
  case False
  obtain r vm1 k1 where sp: "vmarg_span (R vm 3) (R vm 4) 1 vm k = (r, vm1, k1)" by (rule prod_cases3)
  note c1 = vmarg_span_confined [OF sp]
  obtain q d where x: "device_xfer_in h (device_caller vm1) (R vm 1) (R vm 2) (R vm 4) (kdev k1) = (q, d)" by (rule prod.exhaust)
  have p: "g_perms d = g_perms (kdev k1)"
    using xi.keeps_perms [of h "device_caller vm1" "R vm 1" "(R vm 2, R vm 4)" "kdev k1"] x by simp
  let ?b = "\<lambda>bs. copy_prefix bs (bounce k1)"
  let ?k = "\<lambda>bs. k1\<lparr>bounce := ?b bs, kdev := d\<rparr>"
  have c2: "kconf vm k (?k bs)" for bs using c1 p by (auto intro!: kconf_kdev)
  have len: "length (take (unat (R vm 4)) bs) < 4294967296" for bs :: "u8 list"
    using unat_lt_u32 [of "R vm 4"] by (simp add: min_less_iff_disj del: unat_lt_u32)
  have main: "confined vm k (vm2, k3)"
    if "r = Some s" "vmarg_store (R vm 3) (take (unat (R vm 4)) (?b bs)) vm1 (?k bs) = (ok, vm2, k3)" for s bs ok vm2 k3
    using vmarg_store_confined [OF c2 len] c1 that by (auto simp: confined_simp)
  note e = dev_op_xfer_in_def Let_def sp x prod.case option.case
  show ?thesis
  proof (cases r)
    case None
    with False c1 show ?thesis by (simp add: dev_op_xfer_in_def Let_def sp confined_simp)
  next
    case r: (Some s)
    show ?thesis
    proof (cases q)
      case None
      from False c1 p r show ?thesis unfolding e r None by (cases s) (auto simp: confined_simp intro!: kconf_kdev)
    next
      case q: (Some bs)
      obtain ok vm2 k3 where st: "vmarg_store (R vm 3) (take (unat (R vm 4)) (?b bs)) vm1 (?k bs) = (ok, vm2, k3)"
        by (rule prod_cases3)
      from main [OF r st] False st show ?thesis unfolding e r q by (cases ok) (auto simp: confined_simp)
    qed
  qed
qed (simp add: dev_op_xfer_in_def Let_def confined_simp)

lemma sys_device_confined: "confined vm k (snd (sys_device h vm k))"
  using dev_op_info_confined [of vm k] dev_op_name_confined [of vm k] dev_op_find_confined [of vm k]
    dev_op_read_confined [of vm k h] dev_op_write_confined [of vm k h] dev_op_xfer_out_confined [of vm k h]
    dev_op_xfer_in_confined [of vm k h]
  by (simp add: sys_device_def Let_def confined_simp)

lemma sys_event_confined: "confined vm k (snd (sys_event vm k))"
  by (auto simp: sys_event_def Let_def confined_simp) (auto simp: vm_wf_def)

lemma sys_fill_confined: "confined vm k (snd (sys_fill vm k))"
  by (simp add: sys_fill_def confined_simp vp_fill_confined)

lemma sys_text_confined: "confined vm k (snd (sys_text vm k))"
  by (auto simp: sys_text_def confined_simp split: prod.split option.split dest!: vmarg_string_confined
      intro: kconf_trans vp_text_confined)

lemma sys_touch_confined: "confined vm k (snd (sys_touch vm k))"
  by (simp add: sys_touch_def Let_def confined_simp)

lemma sys_blit_confined: "confined vm k (snd (sys_blit vm k))"
proof -
  have r: "in_view vm (Blit (vx vm + x) (vy vm + y) w h bs st)"
    if "view_ok vm" "x < vw vm" "y < vh vm" "w \<le> vw vm - x" "h \<le> vh vm - y" for x y w h bs st
    using rect_in_clip [OF that(1-3)] that(4,5) by (simp add: in_view_def word_le_nat_alt)
  show ?thesis
    by (auto simp: sys_blit_def Let_def confined_simp not_le not_less split: prod.split option.split
        dest!: vmarg_items_confined intro!: kconf_panel r)
qed

lemma sys_send_confined: "confined vm k (snd (sys_send vm k))"
proof -
  have "kconf vm k (k\<lparr>kipc := snd (ipc_send s (app_id vm) d (load_bytes m a (unat n)) n (kipc k))\<rparr>)" for s d m a n
    using mail_frame_send [of "load_bytes m a (unat n)" n "app_id vm" "kipc k" s d] by (simp add: kconf_def)
  then show ?thesis by (simp add: sys_send_def Let_def confined_simp split_beta)
qed

lemma sys_recv_confined: "confined vm k (snd (sys_recv vm k))"
proof -
  have b: "length bs \<le> unat mx" if "ipc_recv me mx b = ((n, bs, f), b')" for me mx b n bs f b'
    using that by (auto simp: ipc_recv_def Let_def word_less_nat_alt min_def split: if_splits)
  have m: "mail_frame me b b'" if "ipc_recv me mx b = ((n, bs, f), b')" for me mx b n bs f b'
    using mail_frame_recv [of me b mx] that by simp
  have "kconf vm k (k\<lparr>kipc := b', kmem := store_bytes (kmem k) (vbase vm + off) bs\<rparr>)"
    if "ipc_recv (app_id vm) mx (kipc k) = ((n, bs, f), b')" "vm_in_bounds vm off mx" for off mx n bs f b'
  proof -
    have "kconf vm k (k\<lparr>kipc := b'\<rparr>)" using m [OF that(1)] by (simp add: kconf_def)
    from kconf_store [OF this that(2) b [OF that(1)]] show ?thesis by simp
  qed
  then show ?thesis by (auto simp: sys_recv_def Let_def confined_simp split: prod.split)
qed

lemma do_syscall_confined: "confined vm k (snd (do_syscall h num vm k))"
  using sys_puts_confined [of vm k] sys_device_confined [of vm k h] sys_event_confined [of vm k] sys_fill_confined [of vm k]
    sys_text_confined [of vm k] sys_touch_confined [of vm k] sys_blit_confined [of vm k] sys_send_confined [of vm k]
    sys_recv_confined [of vm k]
  by (simp add: do_syscall_def confined_simp)

subsection \<open>Control state\<close>

text \<open>The part of the machine that no service touches: program counter, call stack and handler state. A service that
  lets the program continue leaves the fault alone as well.\<close>

definition vm_ctl :: "vm_t \<Rightarrow> u32 \<times> u32 \<times> u32 list \<times> u32 \<times> bool \<times> u32 \<times> u32 list" where
  "vm_ctl vm = (pc vm, executed vm, call vm, call_sp vm, in_handler vm, handler_sp vm, saved_reg vm)"

definition calm :: "vm_t \<Rightarrow> bool \<times> vm_t \<times> 'k \<Rightarrow> bool" where
  "calm vm r \<longleftrightarrow> vm_ctl (fst (snd r)) = vm_ctl vm \<and> (\<not> fst r \<longrightarrow> vfault (fst (snd r)) = vfault vm)"

lemma calm_simp: "calm vm (s, vm', k) \<longleftrightarrow> vm_ctl vm' = vm_ctl vm \<and> (\<not> s \<longrightarrow> vfault vm' = vfault vm)"
  by (simp add: calm_def)

lemma vm_ctl_simps [simp]:
  "vm_ctl (set_reg i v vm) = vm_ctl vm" "vm_ctl (vm_raise c d vm) = vm_ctl vm" "vm_ctl (vm\<lparr>yield_now := y\<rparr>) = vm_ctl vm"
  "vm_ctl (set_yield d' vm) = vm_ctl vm" "vm_ctl (vm\<lparr>exit_status := e\<rparr>) = vm_ctl vm"
  "vm_ctl (vm\<lparr>evt_handler := a\<rparr>) = vm_ctl vm" "vm_ctl (vm\<lparr>evt_param := a\<rparr>) = vm_ctl vm" "vm_ctl (vm\<lparr>evt_due := a\<rparr>) = vm_ctl vm"
  "vm_ctl (vm\<lparr>evt_pending := n\<rparr>) = vm_ctl vm" "vm_ctl (vm\<lparr>evt_arg := a\<rparr>) = vm_ctl vm" "vm_ctl (vm\<lparr>evt_dropped := n\<rparr>) = vm_ctl vm"
  "vfault (set_reg i v vm) = vfault vm" "vfault (set_yield d' vm) = vfault vm"
  by (simp_all add: vm_ctl_def set_reg_def vm_raise_def set_yield_def)

lemma arg_calm:
  "vmarg_store off src vm k = (ok, vm1, k1) \<Longrightarrow> vm_ctl vm1 = vm_ctl vm \<and> (ok \<longrightarrow> vm1 = vm)"
  "vmarg_span off len al vm k = (r, vm1, k1) \<Longrightarrow> vm_ctl vm1 = vm_ctl vm \<and> (r \<noteq> None \<longrightarrow> vm1 = vm)"
  "vmarg_string off mx vm k = (q, vm1, k1) \<Longrightarrow> vm_ctl vm1 = vm_ctl vm \<and> (q \<noteq> None \<longrightarrow> vm1 = vm)"
  "vmarg_items off n e mx al vm k = (r, vm1, k1) \<Longrightarrow> vm_ctl vm1 = vm_ctl vm \<and> (r \<noteq> None \<longrightarrow> vm1 = vm)"
  by (auto simp: vmarg_store_def vmarg_span_def vmarg_string_def vmarg_items_def arg_reject_def Let_def
      split: if_splits sum.splits)

lemma sys_puts_loop_calm: "calm vm (sys_puts_loop left off n vm k)"
proof (induction left off n vm k rule: sys_puts_loop.induct)
  case (2 left off n vm k)
  show ?case using 2 by (auto simp: load_u8_def calm_simp)
qed (simp add: calm_simp)

lemma dev_op_calm:
  "calm vm (dev_op_info vm k)" "calm vm (dev_op_name vm k)" "calm vm (dev_op_find vm k)" "calm vm (dev_op_read h vm k)"
  "calm vm (dev_op_write h vm k)" "calm vm (dev_op_xfer_out h vm k)"
  by (auto simp: dev_op_info_def dev_op_name_def dev_op_find_def dev_op_read_def dev_op_write_def dev_op_xfer_out_def
      Let_def calm_simp split: option.split prod.split bool.split dest!: arg_calm)

lemma dev_op_xfer_in_calm: "calm vm (dev_op_xfer_in h vm k)"
  by (auto simp: dev_op_xfer_in_def Let_def calm_simp split: option.split prod.split bool.split dest!: arg_calm)

lemma service_calm:
  "calm vm (sys_device h vm k)" "calm vm (sys_event vm k)" "calm vm (sys_fill vm k)" "calm vm (sys_text vm k)"
  "calm vm (sys_touch vm k)" "calm vm (sys_blit vm k)" "calm vm (sys_send vm k)" "calm vm (sys_recv vm k)"
  "calm vm (sys_puts vm k)"
  subgoal by (simp add: sys_device_def Let_def dev_op_calm dev_op_xfer_in_calm calm_simp)
  subgoal by (simp add: sys_event_def Let_def calm_simp)
  subgoal by (simp add: sys_fill_def calm_simp)
  subgoal by (auto simp: sys_text_def calm_simp split: option.split prod.split dest!: arg_calm)
  subgoal by (simp add: sys_touch_def Let_def calm_simp)
  subgoal by (auto simp: sys_blit_def Let_def calm_simp split: option.split prod.split dest!: arg_calm)
  subgoal by (simp add: sys_send_def Let_def calm_simp split: prod.split)
  subgoal by (simp add: sys_recv_def Let_def calm_simp split: prod.split)
  subgoal by (simp add: sys_puts_def sys_puts_loop_calm)
  done

lemma do_syscall_calm: "calm vm (do_syscall h num vm k)"
  by (simp add: do_syscall_def service_calm calm_simp)

end
