(* ===== verification/VmRun.thy ===== *)
theory VmRun
  imports VmSys
begin

text \<open>
  The interpreter, \<^verbatim>\<open>vm_run\<close> of \<^verbatim>\<open>kernel/vm.c\<close>: decoding, the register operations, control flow, the step and
  the loop, with the theorems on what a program can do: memory and panel containment, bounded runs,
  transparency of event handlers, and what a reused machine inherits.
\<close>

subsection \<open>The interpreter\<close>

abbreviation (input) VM_OP_HALT :: u8 where "VM_OP_HALT \<equiv> 0x00"
abbreviation (input) VM_OP_NOP :: u8 where "VM_OP_NOP \<equiv> 0x01"
abbreviation (input) VM_OP_DIV :: u8 where "VM_OP_DIV \<equiv> 0x13"
abbreviation (input) VM_OP_MOD :: u8 where "VM_OP_MOD \<equiv> 0x14"
abbreviation (input) VM_OP_JMP :: u8 where "VM_OP_JMP \<equiv> 0x30"
abbreviation (input) VM_OP_BRZ :: u8 where "VM_OP_BRZ \<equiv> 0x31"
abbreviation (input) VM_OP_BRNZ :: u8 where "VM_OP_BRNZ \<equiv> 0x32"
abbreviation (input) VM_OP_CALL :: u8 where "VM_OP_CALL \<equiv> 0x33"
abbreviation (input) VM_OP_RET :: u8 where "VM_OP_RET \<equiv> 0x34"
abbreviation (input) VM_OP_LDW :: u8 where "VM_OP_LDW \<equiv> 0x40"
abbreviation (input) VM_OP_LDB :: u8 where "VM_OP_LDB \<equiv> 0x41"
abbreviation (input) VM_OP_STW :: u8 where "VM_OP_STW \<equiv> 0x42"
abbreviation (input) VM_OP_STB :: u8 where "VM_OP_STB \<equiv> 0x43"
abbreviation (input) VM_OP_SYS :: u8 where "VM_OP_SYS \<equiv> 0x50"

definition sar :: "u32 \<Rightarrow> u32 \<Rightarrow> u32" where
  "sar v n = drop_bit (unat n) v OR (if v AND 0x80000000 \<noteq> 0 \<and> n \<noteq> 0 then push_bit (unat (32 - n)) 0xFFFFFFFF else 0)"

text \<open>The operations whose only effect is to write \<open>r[a]\<close>: the value written from the old \<open>r[a]\<close>, \<open>r[b]\<close>, \<open>r[c]\<close>
  and the immediate; \<open>None\<close> for every other opcode.\<close>

definition alu :: "u8 \<Rightarrow> u32 \<Rightarrow> u32 \<Rightarrow> u32 \<Rightarrow> u32 \<Rightarrow> u32 option" where
  "alu op ra rb rc imm =
     (if op = 0x02 then Some rb
      else if op = 0x03 then Some imm
      else if op = 0x04 then Some ((ra AND 0xFFFF) OR push_bit 16 imm)
      else if op = 0x10 then Some (rb + rc)
      else if op = 0x11 then Some (rb - rc)
      else if op = 0x12 then Some (rb * rc)
      else if op = VM_OP_DIV then Some (rb div rc)
      else if op = VM_OP_MOD then Some (rb mod rc)
      else if op = 0x15 then Some (rb AND rc)
      else if op = 0x16 then Some (rb OR rc)
      else if op = 0x17 then Some (rb XOR rc)
      else if op = 0x18 then Some (push_bit (unat (rc AND 31)) rb)
      else if op = 0x19 then Some (drop_bit (unat (rc AND 31)) rb)
      else if op = 0x1A then Some (sar rb (rc AND 31))
      else if op = 0x1B then Some (NOT rb)
      else if op = 0x1C then Some (- rb)
      else if op = 0x1D then Some (ra + scast (ucast imm :: u16))
      else if op = 0x20 then Some (if rb = rc then 1 else 0)
      else if op = 0x21 then Some (if rb \<noteq> rc then 1 else 0)
      else if op = 0x22 then Some (if sint rb < sint rc then 1 else 0)
      else if op = 0x23 then Some (if rb < rc then 1 else 0)
      else if op = 0x24 then Some (if sint rb \<le> sint rc then 1 else 0)
      else if op = 0x25 then Some (if rb \<le> rc then 1 else 0)
      else None)"

definition imm_form :: "u8 \<Rightarrow> bool" where
  "imm_form op \<longleftrightarrow> op = 0x03 \<or> op = 0x04 \<or> op = 0x1D \<or> op = VM_OP_JMP \<or> op = VM_OP_BRZ \<or> op = VM_OP_BRNZ
     \<or> op = VM_OP_CALL \<or> op = VM_OP_SYS"

definition off_form :: "u8 \<Rightarrow> bool" where
  "off_form op \<longleftrightarrow> op = VM_OP_LDW \<or> op = VM_OP_LDB \<or> op = VM_OP_STW \<or> op = VM_OP_STB"

text \<open>An instruction that completes: the last two lines of the loop body.\<close>

definition advance :: "u32 \<Rightarrow> vm_t \<Rightarrow> vm_t" where
  "advance nx vm = vm\<lparr>pc := nx, executed := executed vm + 1\<rparr>"

type_synonym step_result = "vm_run_t option \<times> vm_t \<times> kern"

definition op_call :: "u32 \<Rightarrow> u32 \<Rightarrow> vm_t \<Rightarrow> kern \<Rightarrow> step_result" where
  "op_call nx target vm k =
     (if call_sp vm \<ge> VM_CALL_DEPTH then (Some VM_RUN_FAULTED, vm_raise VM_FAULT_CALL_DEPTH (call_sp vm) vm, k)
      else (None, advance target (vm\<lparr>call := (call vm)[unat (call_sp vm) := nx], call_sp := call_sp vm + 1\<rparr>), k))"

definition op_ret :: "vm_t \<Rightarrow> kern \<Rightarrow> step_result" where
  "op_ret vm k =
     (if call_sp vm = 0 then (Some VM_RUN_FAULTED, vm_raise VM_FAULT_RET 0 vm, k)
      else
        let sp = call_sp vm - 1; nx = call vm ! unat sp; vm1 = vm\<lparr>call_sp := sp\<rparr>;
            vm2 = (if in_handler vm1 \<and> call_sp vm1 = handler_sp vm1
                   then vm1\<lparr>reg := saved_reg vm1, in_handler := False\<rparr> else vm1)
        in (None, advance nx vm2, k))"

definition op_load :: "u32 \<Rightarrow> nat \<Rightarrow> bool \<times> u32 \<times> vm_t \<Rightarrow> kern \<Rightarrow> step_result" where
  "op_load nx a r k =
     (case r of (ok, v, vm) \<Rightarrow>
        let vm1 = set_reg a v vm in
        if \<not> ok then (Some VM_RUN_FAULTED, vm1, k) else (None, advance nx vm1, k))"

definition op_store :: "u32 \<Rightarrow> bool \<times> vm_t \<times> kern \<Rightarrow> step_result" where
  "op_store nx r =
     (case r of (ok, vm, k) \<Rightarrow> if \<not> ok then (Some VM_RUN_FAULTED, vm, k) else (None, advance nx vm, k))"

definition op_sys :: "u32 \<Rightarrow> bool \<times> vm_t \<times> kern \<Rightarrow> step_result" where
  "op_sys nx r =
     (case r of (stop, vm, k) \<Rightarrow>
        if stop then (Some (if vfault vm = VM_FAULT_NONE then VM_RUN_HALTED else VM_RUN_FAULTED), vm\<lparr>executed := executed vm + 1\<rparr>, k)
        else if yield_now vm then (Some VM_RUN_QUANTUM, advance nx (vm\<lparr>yield_now := False\<rparr>), k)
        else (None, advance nx vm, k))"

definition exec_op :: "hw \<Rightarrow> u8 \<Rightarrow> nat \<Rightarrow> nat \<Rightarrow> nat \<Rightarrow> u32 \<Rightarrow> u32 \<Rightarrow> vm_t \<Rightarrow> kern \<Rightarrow> step_result" where
  "exec_op h op a b c imm nx vm k =
     (let target = nx + scast (ucast imm :: u16) * VM_INSN_BYTES; ea = R vm b + of_nat c in
      if op = VM_OP_HALT then (Some VM_RUN_HALTED, vm\<lparr>executed := executed vm + 1\<rparr>, k)
      else if op = VM_OP_NOP then (None, advance nx vm, k)
      else if (op = VM_OP_DIV \<or> op = VM_OP_MOD) \<and> R vm c = 0 then (Some VM_RUN_FAULTED, vm_raise VM_FAULT_DIV0 0 vm, k)
      else if op = VM_OP_JMP then (None, advance target vm, k)
      else if op = VM_OP_BRZ then (None, advance (if R vm a = 0 then target else nx) vm, k)
      else if op = VM_OP_BRNZ then (None, advance (if R vm a \<noteq> 0 then target else nx) vm, k)
      else if op = VM_OP_CALL then op_call nx target vm k
      else if op = VM_OP_RET then op_ret vm k
      else if op = VM_OP_LDW then op_load nx a (load_u32 ea vm k) k
      else if op = VM_OP_LDB then op_load nx a (load_u8 ea vm k) k
      else if op = VM_OP_STW then op_store nx (store_u32 ea (R vm a) vm k)
      else if op = VM_OP_STB then op_store nx (store_u8 ea (R vm a) vm k)
      else if op = VM_OP_SYS then op_sys nx (do_syscall h imm vm k)
      else case alu op (R vm a) (R vm b) (R vm c) imm of
          Some v \<Rightarrow> (None, advance nx (set_reg a v vm), k)
        | None \<Rightarrow> (Some VM_RUN_FAULTED, vm_raise VM_FAULT_OPCODE (ucast op) vm, k))"

definition vm_step :: "hw \<Rightarrow> vm_t \<Rightarrow> kern \<Rightarrow> step_result" where
  "vm_step h vm k =
     (if \<not> vm_in_bounds vm (pc vm) VM_INSN_BYTES \<or> pc vm AND 3 \<noteq> 0
      then (Some VM_RUN_FAULTED, vm_raise VM_FAULT_PC (pc vm) vm, k)
      else
        let ins = vbase vm + pc vm; op = kmem k ins; a = kmem k (ins + 1); b = kmem k (ins + 2); c = kmem k (ins + 3);
            imm = (ucast b :: u32) OR push_bit 8 (ucast c); nx = pc vm + VM_INSN_BYTES;
            checked = (op \<noteq> VM_OP_HALT \<and> op \<noteq> VM_OP_NOP \<and> op \<noteq> VM_OP_RET)
        in
        if checked \<and> unat a \<ge> VM_REGS then (Some VM_RUN_FAULTED, vm_raise VM_FAULT_REG (ucast a) vm, k)
        else if checked \<and> \<not> imm_form op \<and> unat b \<ge> VM_REGS then (Some VM_RUN_FAULTED, vm_raise VM_FAULT_REG (ucast b) vm, k)
        else if checked \<and> \<not> imm_form op \<and> \<not> off_form op \<and> unat c \<ge> VM_REGS
        then (Some VM_RUN_FAULTED, vm_raise VM_FAULT_REG (ucast c) vm, k)
        else exec_op h op (unat a) (unat b) (unat c) imm nx vm k)"

fun run_loop :: "hw \<Rightarrow> nat \<Rightarrow> vm_t \<Rightarrow> kern \<Rightarrow> vm_run_t \<times> vm_t \<times> kern" where
  "run_loop h 0 vm k = (VM_RUN_QUANTUM, vm, k)"
| "run_loop h (Suc q) vm k =
     (case vm_step h vm k of
        (Some r, vm1, k1) \<Rightarrow> (r, vm1, k1)
      | (None, vm1, k1) \<Rightarrow> run_loop h q vm1 k1)"

definition vm_run :: "hw \<Rightarrow> u32 \<Rightarrow> vm_t \<Rightarrow> kern \<Rightarrow> vm_run_t \<times> vm_t \<times> kern" where
  "vm_run h quantum vm k =
     (if vfault vm \<noteq> VM_FAULT_NONE then (VM_RUN_FAULTED, vm, k) else run_loop h (unat quantum) vm k)"

subsection \<open>Containment of a run\<close>

lemma advance_simps [simp]: "vm_id (advance n vm) = vm_id vm" "vm_wf (advance n vm) = vm_wf vm"
  "vfault (advance n vm) = vfault vm" "executed (advance n vm) = executed vm + 1"
  by (simp_all add: advance_def)

lemma op_call_confined: "confined vm k (snd (op_call nx t vm k))"
proof -
  have "call_sp vm + 1 \<le> 32" if "call_sp vm < 32"
    using that unat_add_u32 [of "call_sp vm" 1] by (simp add: word_le_nat_alt word_less_nat_alt)
  then show ?thesis by (auto simp: op_call_def confined_simp not_le) (auto simp: vm_wf_def)
qed

lemma op_ret_confined: "confined vm k (snd (op_ret vm k))"
proof -
  have "call_sp vm - 1 \<le> 32" if "call_sp vm \<noteq> 0" "call_sp vm \<le> 32"
    using that unat_minus_one [of "call_sp vm"] by (simp add: word_le_nat_alt)
  then show ?thesis by (auto simp: op_ret_def Let_def confined_simp) (auto simp: vm_wf_def)
qed

lemma op_load_confined:
  "confined vm k (snd (op_load nx a (load_u32 off vm k) k))" "confined vm k (snd (op_load nx a (load_u8 off vm k) k))"
  by (auto simp: op_load_def load_u32_def load_u8_def Let_def confined_simp)

lemma op_store_confined:
  "confined vm k (snd (op_store nx (store_u32 off v vm k)))" "confined vm k (snd (op_store nx (store_u8 off v vm k)))"
proof -
  show "confined vm k (snd (op_store nx (store_u32 off v vm k)))"
    using kconf_store [OF kconf_refl, of vm off 4 "[ucast v, ucast (drop_bit 8 v), ucast (drop_bit 16 v), ucast (drop_bit 24 v)]" k]
    by (auto simp: op_store_def store_u32_def confined_simp poke32_def simp del: store_bytes.simps(2))
  show "confined vm k (snd (op_store nx (store_u8 off v vm k)))"
    using kconf_store [OF kconf_refl, of vm off 1 "[ucast v]" k]
    by (auto simp: op_store_def store_u8_def confined_simp)
qed

lemma op_sys_confined: "confined vm k (snd r) \<Longrightarrow> confined vm k (snd (op_sys nx r))"
  by (cases r) (auto simp: op_sys_def confined_simp)

lemma exec_op_confined: "confined vm k (snd (exec_op h op a b c imm nx vm k))"
  using op_call_confined [of vm k nx] op_ret_confined [of vm k] op_load_confined [of vm k nx a] op_store_confined [of vm k nx]
    op_sys_confined [OF do_syscall_confined [of vm k h imm]]
  by (simp add: exec_op_def Let_def confined_simp split: option.split)

lemma vm_step_confined: "confined vm k (snd (vm_step h vm k))"
  using exec_op_confined [of vm k h] by (simp add: vm_step_def Let_def confined_simp)

lemma run_loop_confined: "confined vm k (snd (run_loop h q vm k))"
proof (induction h q vm k rule: run_loop.induct)
  case (2 h q vm k)
  obtain r vm1 k1 where s: "vm_step h vm k = (r, vm1, k1)" by (rule prod_cases3)
  with vm_step_confined [of vm k h] have "confined vm k (vm1, k1)" by simp
  with 2 s show ?case by (cases r) (auto intro: confined_trans)
qed simp

lemma vm_run_confined: "confined vm k (snd (vm_run h q vm k))"
  by (simp add: vm_run_def run_loop_confined)

subsection \<open>Faults and progress\<close>

text \<open>What one step does to the fault and the instruction count.\<close>

definition step_sound :: "vm_t \<Rightarrow> step_result \<Rightarrow> bool" where
  "step_sound vm r \<longleftrightarrow> (case r of (res, vm', k') \<Rightarrow>
     (executed vm' = executed vm + 1 \<or> res = Some VM_RUN_FAULTED \<and> executed vm' = executed vm)
     \<and> (vfault vm = VM_FAULT_NONE \<longrightarrow> (vfault vm' \<noteq> VM_FAULT_NONE \<longleftrightarrow> res = Some VM_RUN_FAULTED)))"

lemma raise_simps [simp]:
  "executed (vm_raise c d vm) = executed vm" "vfault (vm_raise c d vm) = c" "executed (set_reg i v vm) = executed vm"
  by (simp_all add: vm_raise_def set_reg_def)

lemma calm_executed: "calm vm (s, vm', k) \<Longrightarrow> executed vm' = executed vm"
  by (simp add: calm_def vm_ctl_def)

lemma op_sys_sound: "calm vm r \<Longrightarrow> step_sound vm (op_sys nx r)"
  by (cases r) (auto simp: op_sys_def step_sound_def calm_simp dest: calm_executed [of vm True] calm_executed [of vm False]
      simp: vm_ctl_def)

lemma exec_op_sound: "step_sound vm (exec_op h op a b c imm nx vm k)"
  using op_sys_sound [OF do_syscall_calm [of vm h imm k], of nx]
  by (simp add: exec_op_def Let_def step_sound_def op_call_def op_ret_def op_load_def op_store_def load_u32_def load_u8_def
      store_u32_def store_u8_def split: option.split)

lemma vm_step_sound: "step_sound vm (vm_step h vm k)"
  using exec_op_sound [of vm h] by (simp add: vm_step_def Let_def step_sound_def split: option.split)

lemma run_loop_sound:
  "run_loop h q vm k = (r, vm', k') \<Longrightarrow> q < 4294967296 \<Longrightarrow> vfault vm = VM_FAULT_NONE \<Longrightarrow>
   unat (executed vm' - executed vm) \<le> q \<and> (vfault vm' \<noteq> VM_FAULT_NONE \<longleftrightarrow> r = VM_RUN_FAULTED)"
proof (induction h q vm k rule: run_loop.induct)
  case (2 h q vm k)
  obtain s vm1 k1 where st: "vm_step h vm k = (s, vm1, k1)" by (rule prod_cases3)
  note snd1 = vm_step_sound [of vm h k, unfolded st step_sound_def prod.case]
  show ?case
  proof (cases s)
    case (Some r')
    with 2 st snd1 show ?thesis by auto
  next
    case None
    with 2 st snd1 have e: "executed vm1 = executed vm + 1" "vfault vm1 = VM_FAULT_NONE" by auto
    have ih: "unat (executed vm' - executed vm1) \<le> q" "vfault vm' \<noteq> VM_FAULT_NONE \<longleftrightarrow> r = VM_RUN_FAULTED"
      using 2 st None e by auto
    have d: "executed vm' - executed vm = (executed vm' - executed vm1) + 1" using e by simp
    have "unat (executed vm' - executed vm) \<le> unat (executed vm' - executed vm1) + 1"
      unfolding d using unat_Suc_le [of "executed vm' - executed vm1"] by simp
    with ih show ?thesis by simp
  qed
qed auto

subsection \<open>Event handlers\<close>

text \<open>\<open>handling vm0 vm\<close>: \<open>vm\<close> is inside the handler that interrupted \<open>vm0\<close>. \<open>resumed vm0 vm\<close>: the interrupted code is
  back where it was.\<close>

definition handling :: "vm_t \<Rightarrow> vm_t \<Rightarrow> bool" where
  "handling vm0 vm \<longleftrightarrow> in_handler vm \<and> saved_reg vm = reg vm0 \<and> handler_sp vm = call_sp vm0 \<and> call_sp vm0 < call_sp vm
     \<and> take (Suc (unat (call_sp vm0))) (call vm) = take (unat (call_sp vm0)) (call vm0) @ [pc vm0] \<and> vm_wf vm"

definition resumed :: "vm_t \<Rightarrow> vm_t \<Rightarrow> bool" where
  "resumed vm0 vm \<longleftrightarrow> reg vm = reg vm0 \<and> pc vm = pc vm0 \<and> call_sp vm = call_sp vm0
     \<and> take (unat (call_sp vm0)) (call vm) = take (unat (call_sp vm0)) (call vm0)"

text \<open>The machine while a handler runs: any steps, over any kernel state, and any polls and dispatches of the host.\<close>

inductive handler_run :: "vm_t \<Rightarrow> vm_t \<Rightarrow> bool" for vm0 :: vm_t where
  handler_start: "handler_run vm0 vm0"
| handler_exec: "handler_run vm0 vm \<Longrightarrow> in_handler vm \<Longrightarrow> vm_step h vm k = (r, vm', k') \<Longrightarrow> handler_run vm0 vm'"
| handler_poll: "handler_run vm0 vm \<Longrightarrow> in_handler vm \<Longrightarrow> vm_event_poll vm k = (vm', k') \<Longrightarrow> handler_run vm0 vm'"
| handler_dispatch: "handler_run vm0 vm \<Longrightarrow> in_handler vm \<Longrightarrow> vm_event_dispatch vm = (d, vm') \<Longrightarrow> handler_run vm0 vm'"

lemma handling_ctl: "handling vm0 vm \<Longrightarrow> vm_ctl vm' = vm_ctl vm \<Longrightarrow> vm_wf vm' \<Longrightarrow> handling vm0 vm'"
  by (simp add: handling_def vm_ctl_def)

lemma handling_advance [simp]: "handling vm0 (advance n vm) = handling vm0 vm"
  "handling vm0 (vm\<lparr>executed := m\<rparr>) = handling vm0 vm" "handling vm0 (vm\<lparr>yield_now := y\<rparr>) = handling vm0 vm"
  "handling vm0 (set_reg i v vm) = handling vm0 vm" "handling vm0 (vm_raise c d vm) = handling vm0 vm"
  by (simp_all add: handling_def advance_def set_reg_def vm_raise_def vm_wf_def)

lemma handling_call:
  assumes "handling vm0 vm"
  shows "handling vm0 (fst (snd (op_call nx t vm k)))"
proof (cases "call_sp vm \<ge> VM_CALL_DEPTH")
  case False
  let ?i = "unat (call_sp vm)"
  have wf: "vm_wf (fst (snd (op_call nx t vm k)))"
    using op_call_confined [of vm k nx t] assms by (simp add: confined_def handling_def)
  have lt: "unat (call_sp vm0) < ?i" using assms by (simp add: handling_def word_less_nat_alt)
  have "unat (call_sp vm + 1) = ?i + 1" using False unat_add_u32 [of "call_sp vm" 1] by (simp add: word_le_nat_alt)
  then have "call_sp vm0 < call_sp vm + 1" using lt by (simp add: word_less_nat_alt)
  moreover have "take (Suc (unat (call_sp vm0))) ((call vm)[?i := nx]) = take (Suc (unat (call_sp vm0))) (call vm)"
    using lt by (intro take_update_cancel) simp
  ultimately show ?thesis using assms False wf by (simp add: op_call_def handling_def advance_def)
qed (use assms in \<open>simp add: op_call_def\<close>)

lemma handling_ret:
  assumes "handling vm0 vm"
  shows "handling vm0 (fst (snd (op_ret vm k))) \<or> \<not> in_handler (fst (snd (op_ret vm k))) \<and> resumed vm0 (fst (snd (op_ret vm k)))"
proof -
  let ?n = "unat (call_sp vm0)"
  have lt: "call_sp vm0 < call_sp vm" and t: "take (Suc ?n) (call vm) = take ?n (call vm0) @ [pc vm0]"
    and l: "length (call vm) = 32" "unat (call_sp vm) \<le> 32"
    using assms by (auto simp: handling_def vm_wf_def word_le_nat_alt)
  have nz: "call_sp vm \<noteq> 0" using lt by (metis word_not_simps(1))
  have m: "unat (call_sp vm - 1) = unat (call_sp vm) - 1" using nz by (rule unat_minus_one)
  have n: "?n < 32" "?n < unat (call_sp vm)" using lt l by (simp_all add: word_less_nat_alt)
  then have "take ?n (call vm) @ [call vm ! ?n] = take ?n (call vm0) @ [pc vm0]"
    using t l by (simp add: take_Suc_conv_app_nth)
  then have tk: "take ?n (call vm) = take ?n (call vm0)" "call vm ! ?n = pc vm0" by simp_all
  show ?thesis
  proof (cases "call_sp vm - 1 = call_sp vm0")
    case True
    then show ?thesis using assms nz tk by (simp add: op_ret_def Let_def handling_def resumed_def advance_def)
  next
    case False
    then have "unat (call_sp vm - 1) \<noteq> ?n" by (metis unsigned_word_eqI)
    then have "call_sp vm0 < call_sp vm - 1" using n m by (simp add: word_less_nat_alt)
    moreover have "vm_wf (fst (snd (op_ret vm k)))"
      using op_ret_confined [of vm k] assms by (simp add: confined_def handling_def)
    ultimately show ?thesis using assms nz False by (simp add: op_ret_def Let_def handling_def advance_def)
  qed
qed

lemma handling_sys:
  assumes "handling vm0 vm"
  shows "handling vm0 (fst (snd (op_sys nx (do_syscall h n vm k))))"
proof -
  obtain s vm1 k1 where d: "do_syscall h n vm k = (s, vm1, k1)" by (rule prod_cases3)
  have "vm_ctl vm1 = vm_ctl vm" using do_syscall_calm [of vm h n k] d by (simp add: calm_def)
  moreover have "vm_wf vm1" using do_syscall_confined [of vm k h n] d assms by (simp add: confined_def handling_def)
  ultimately have "handling vm0 vm1" using assms by (blast intro: handling_ctl)
  then show ?thesis by (simp add: d op_sys_def)
qed

lemma handling_step:
  assumes "handling vm0 vm" "vm_step h vm k = (r, vm', k')"
  shows "handling vm0 vm' \<or> \<not> in_handler vm' \<and> resumed vm0 vm'"
proof -
  let ?P = "\<lambda>p. handling vm0 (fst (snd p)) \<or> \<not> in_handler (fst (snd p)) \<and> resumed vm0 (fst (snd p))"
  have "?P (exec_op h op a b c imm nx vm k)" for op a b c imm nx
    using assms(1) handling_call [OF assms(1), of nx _ k] handling_ret [OF assms(1), of k] handling_sys [OF assms(1), of nx h imm k]
    by (simp add: exec_op_def Let_def op_load_def op_store_def load_u32_def load_u8_def store_u32_def store_u8_def split: option.split)
  then have "?P (vm_step h vm k)" using assms(1) by (simp add: vm_step_def Let_def)
  then show ?thesis using assms(2) by simp
qed

lemma handling_poll: "handling vm0 vm \<Longrightarrow> vm_event_poll vm k = (vm', k') \<Longrightarrow> handling vm0 vm'"
  by (auto simp: vm_event_poll_def Let_def handling_def vm_wf_def split: if_splits prod.splits option.splits)

lemma handling_dispatch: "handling vm0 vm \<Longrightarrow> vm_event_dispatch vm = (d, vm') \<Longrightarrow> vm' = vm"
  by (auto simp: vm_event_dispatch_def handling_def split: if_splits)

lemma handling_start:
  assumes "vm_event_dispatch vm0 = (True, vm1)" "vm_wf vm0"
  shows "handling vm0 vm1"
proof -
  let ?n = "unat (call_sp vm0)"
  have c: "call_sp vm0 < 32" using assms(1) by (auto simp: vm_event_dispatch_def split: if_splits)
  then have n: "?n < 32" by (simp add: word_less_nat_alt)
  have u: "unat (call_sp vm0 + 1) = ?n + 1" using n unat_add_u32 [of "call_sp vm0" 1] by simp
  have lt: "call_sp vm0 < call_sp vm0 + 1" "call_sp vm0 + 1 \<le> 32" using u n by (simp_all add: word_less_nat_alt word_le_nat_alt)
  have l: "length (call vm0) = 32" using assms(2) by (simp add: vm_wf_def)
  have t: "take (Suc ?n) ((call vm0)[?n := pc vm0]) = take ?n (call vm0) @ [pc vm0]"
    using n l by (simp add: take_Suc_conv_app_nth)
  show ?thesis using assms lt t
    by (auto simp: vm_event_dispatch_def Let_def handling_def vm_wf_def set_reg_def split: if_splits)
qed

lemma handler_run_handling:
  assumes "handling vm0 vm1"
  shows "handler_run vm1 vm \<Longrightarrow> handling vm0 vm \<or> \<not> in_handler vm \<and> resumed vm0 vm"
proof (induction rule: handler_run.induct)
  case handler_start
  then show ?case using assms by simp
next
  case (handler_exec vm h k r vm' k')
  then show ?case using handling_step by blast
next
  case (handler_poll vm k vm' k')
  then show ?case using handling_poll by blast
next
  case (handler_dispatch vm d vm')
  then show ?case using handling_dispatch by blast
qed

subsection \<open>Arithmetic shift\<close>

lemma sar_signed_drop_bit:
  assumes "n < 32"
  shows "sar v n = signed_drop_bit (unat n) v"
proof (rule bit_word_eqI)
  fix i assume i: "i < LENGTH(32)"
  have n: "unat n < 32" using assms by (simp add: word_less_nat_alt)
  have s: "v AND 0x80000000 \<noteq> 0 \<longleftrightarrow> bit v 31"
    using bit_iff_and_push_bit_not_eq_0 [of v 31] by simp
  have ones: "(0xFFFFFFFF :: u32) = -1" by simp
  have d: "unat (32 - n) = 32 - unat n" using assms unat_sub_u32 [of n 32] by (simp add: word_less_nat_alt)
  have nz: "n \<noteq> 0 \<longleftrightarrow> unat n \<noteq> 0" by (simp add: unat_eq_0)
  show "bit (sar v n) i = bit (signed_drop_bit (unat n) v) i"
    using i n unfolding sar_def ones
    by (auto simp: bit_simps s d nz bit_signed_drop_bit_iff not_less dest: bit_imp_le_length)
qed

subsection \<open>Properties\<close>

text \<open>A machine over 64 bytes at \<^verbatim>\<open>0x1000\<close>, and a kernel state around it; the program is
  \<^verbatim>\<open>call +1; halt; ret\<close>.\<close>

definition vm_example :: vm_t where
  "vm_example = \<lparr>reg = replicate 16 0, pc = 0, call = replicate 32 0, call_sp = 0, vx = 0, vy = 224, vw = 180, vh = 14, arena = 0,
     app_id = 0, vbase = 0x1000, vsize = 64, vfault = VM_FAULT_NONE, fault_pc = 0, fault_detail = 0, yield_now = False,
     evt_handler = [8, 0], evt_param = [1, 0], evt_due = [0, 0], evt_arg = [7, 0], evt_pending = 1, in_handler = False,
     handler_sp = 0, saved_reg = replicate 16 0, evt_delivered = 0, evt_dropped = 0, executed = 0, exit_status = 0\<rparr>"

definition kern_example :: kern where
  "kern_example = \<lparr>kmem = store_bytes (\<lambda>_. 0xAA) 0x1000 [0x33, 0, 1, 0, 0, 0, 0, 0, 0x34, 0, 0, 0], uart = [], panel = [],
     panel_busy = False, kticks = 100, ktouch = \<lparr>tdown = False, tx = 0, ty = 0\<rparr>, kipc = ipc_example, kdev = devs_example,
     bounce = replicate 64 0, app_states = replicate 4 APP_RUNNING, g_vp_escapes = 0, g_vp_max_y = 0, g_vp_calls = 0,
     g_touch_given = 0, g_touch_withheld = 0, g_blits = 0, g_draw_skipped = 0, g_ipc_bad_buffer = 0, vmarg_checks = 0,
     vmarg_rejects = 0\<rparr>"

text \<open>(C2) Memory and authority containment: whatever bytes a program consists of and whatever it asks the kernel for, a run of
  any number of instructions changes no byte of memory outside its own arena, neither its arena, viewport
  nor identity, no application state and no device permission.\<close>

theorem vm_run_contained:
  assumes "vm_run h q vm k = (r, vm', k')"
  shows "(\<forall>x. unat (vsize vm) \<le> unat (x - vbase vm) \<longrightarrow> kmem k' x = kmem k x)
    \<and> vbase vm' = vbase vm \<and> vsize vm' = vsize vm \<and> app_id vm' = app_id vm
    \<and> (vx vm', vy vm', vw vm', vh vm') = (vx vm, vy vm, vw vm, vh vm)
    \<and> app_states k' = app_states k \<and> g_perms (kdev k') = g_perms (kdev k)"
  using vm_run_confined [of vm k h q] assms by (simp add: confined_def kconf_def vm_id_def)

theorem vm_run_contained_witness:
  "kmem (snd (snd (vm_run hw_example 100 vm_example kern_example))) 0x1040 = 0xAA"
proof -
  obtain r vm' k' where e: "vm_run hw_example 100 vm_example kern_example = (r, vm', k')" by (rule prod_cases3)
  have "kmem kern_example 0x1040 = 0xAA" by (simp add: kern_example_def)
  with vm_run_contained [OF e] show ?thesis unfolding e by (simp add: vm_example_def)
qed

text \<open>(C7) Drawing containment: for a viewport that lies on the panel, every fill, text and image a run puts on the panel lies inside
  the viewport, pixel for pixel, and the escape counter of the clipping code never moves.\<close>

theorem vm_run_draws_inside:
  assumes "vm_run h q vm k = (r, vm', k')" "view_ok vm"
  shows "\<exists>ops. panel k' = panel k @ ops \<and> list_all (in_view vm) ops \<and> g_vp_escapes k' = g_vp_escapes k"
  using vm_run_confined [of vm k h q] assms by (auto simp: confined_def kconf_def)

text \<open>The program \<^verbatim>\<open>ldi r2, 5; ldi r3, 200; sys FILL\<close>, whose fill is taller than the viewport.\<close>

definition kern_draws :: kern where
  "kern_draws = kern_example\<lparr>kmem := store_bytes (\<lambda>_. 0xAA) 0x1000 [0x03, 2, 5, 0, 0x03, 3, 200, 0, 0x50, 0, 5, 0]\<rparr>"

theorem vm_run_draws_inside_witness:
  "panel (snd (snd (vm_run hw_example 100 vm_example kern_draws))) = [Fill 0 224 5 14 0]
     \<and> list_all (in_view vm_example) [Fill 0 224 5 14 0]"
proof -
  obtain r vm' k' where e: "vm_run hw_example 100 vm_example kern_draws = (r, vm', k')" by (rule prod_cases3)
  have p: "panel (snd (snd (vm_run hw_example 100 vm_example kern_draws))) = [Fill 0 224 5 14 0]" by code_simp
  have "view_ok vm_example" by (simp add: view_ok_def vm_example_def)
  from vm_run_draws_inside [OF e this] p show ?thesis unfolding e by (auto simp: kern_draws_def kern_example_def)
qed

text \<open>(C15) Mail: a run never consumes or replaces the mail of another application, and mail that appears in another mailbox
  during it carries the runner's own id as the sender.\<close>

theorem vm_run_mail:
  assumes "vm_run h q vm k = (r, vm', k')" "ipc_ok (kipc k)" "i \<noteq> app_id vm"
  shows "ipc_ok (kipc k') \<and> (mail_of (kipc k') i = mail_of (kipc k) i
    \<or> mail_of (kipc k) i = None \<and> (\<exists>bs. mail_of (kipc k') i = Some (app_id vm, bs)))"
  using vm_run_confined [of vm k h q] assms by (auto simp: confined_def kconf_def mail_frame_def)

theorem vm_run_mail_witness:
  "ipc_ok (kipc (snd (snd (vm_run hw_example 100 vm_example kern_example))))"
proof -
  obtain r vm' k' where e: "vm_run hw_example 100 vm_example kern_example = (r, vm', k')" by (rule prod_cases3)
  have "ipc_ok (kipc kern_example)" "(1 :: int) \<noteq> app_id vm_example"
    using ipc_example_ok by (simp_all add: kern_example_def vm_example_def)
  from vm_run_mail [OF e this] show ?thesis by (simp add: e)
qed

text \<open>(C14) Runs are bounded and faults are never silent: \<^verbatim>\<open>vm_run\<close> returns after at most \<open>q\<close> instructions, says that
  the program faulted exactly when a fault is recorded, and keeps the machine well formed (register file, call
  stack and its pointer, handler tables).\<close>

theorem vm_run_bounded:
  assumes "vm_run h q vm k = (r, vm', k')" "vm_wf vm"
  shows "vm_wf vm' \<and> unat (executed vm' - executed vm) \<le> unat q \<and> (r = VM_RUN_FAULTED \<longleftrightarrow> vfault vm' \<noteq> VM_FAULT_NONE)"
proof (cases "vfault vm = VM_FAULT_NONE")
  case True
  with assms(1) have "run_loop h (unat q) vm k = (r, vm', k')" by (simp add: vm_run_def)
  from run_loop_sound [OF this _ True] vm_run_confined [of vm k h q] assms show ?thesis by (simp add: confined_def)
qed (use assms in \<open>auto simp: vm_run_def\<close>)

theorem vm_run_bounded_witness:
  "unat (executed (fst (snd (vm_run hw_example 100 vm_example kern_example)))) \<le> 100"
proof -
  obtain r vm' k' where e: "vm_run hw_example 100 vm_example kern_example = (r, vm', k')" by (rule prod_cases3)
  have "vm_wf vm_example" "executed vm_example = 0" by (simp_all add: vm_wf_def vm_example_def)
  with vm_run_bounded [OF e] show ?thesis by (simp add: e)
qed

text \<open>(C10) Event handlers are transparent: once a dispatch has injected the call of a handler, and whatever the handler executes
  (calls of its own, services, any memory contents) and whatever the host polls or dispatches meanwhile,
  the first moment the machine is out of the handler it has the registers, the program counter and the call
  stack of the interrupted code.\<close>

theorem handler_transparent:
  assumes "vm_event_dispatch vm0 = (True, vm1)" "vm_wf vm0" "handler_run vm1 vm" "\<not> in_handler vm"
  shows "reg vm = reg vm0 \<and> pc vm = pc vm0 \<and> call_sp vm = call_sp vm0
    \<and> take (unat (call_sp vm0)) (call vm) = take (unat (call_sp vm0)) (call vm0)"
  using handler_run_handling [OF handling_start [OF assms(1,2)] assms(3)] assms(4)
  by (auto simp: handling_def resumed_def)

theorem handler_transparent_witness:
  "\<exists>vm1 vm2. vm_event_dispatch vm_example = (True, vm1) \<and> R vm1 0 = 7 \<and> pc vm1 = 8 \<and> handler_run vm1 vm2
     \<and> \<not> in_handler vm2 \<and> R vm2 0 = 0 \<and> pc vm2 = 0"
proof -
  let ?vm1 = "snd (vm_event_dispatch vm_example)" and ?s = "vm_step hw_example (snd (vm_event_dispatch vm_example)) kern_example"
  have d: "vm_event_dispatch vm_example = (True, ?vm1)" by code_simp
  have v: "R ?vm1 0 = 7" "pc ?vm1 = 8" "in_handler ?vm1" by code_simp+
  have o: "\<not> in_handler (fst (snd ?s))" by code_simp
  have wf: "vm_wf vm_example" by (simp add: vm_wf_def vm_example_def)
  have r: "handler_run ?vm1 (fst (snd ?s))"
    by (rule handler_exec [OF handler_start v(3), of hw_example kern_example "fst ?s" _ "snd (snd ?s)"]) simp
  from handler_transparent [OF d wf r o] have "R (fst (snd ?s)) 0 = 0" "pc (fst (snd ?s)) = 0"
    by (simp_all add: vm_example_def)
  with d v r o show ?thesis by blast
qed

text \<open> A reused machine inherits event state: \<^verbatim>\<open>vm_init\<close> resets neither the handlers, nor the pending events, nor the
  handler state. If the previous program of the slot stopped inside a handler injected at depth 0, the first call of
  the next program returns with the dead program's saved registers instead of its own.\<close>

theorem vm_init_stale_handler:
  assumes "vm_init (Some (base, sz)) a vm = (0, vm1)" "in_handler vm" "handler_sp vm = 0" "length (call vm) = 32"
  shows "evt_handler vm1 = evt_handler vm \<and> evt_pending vm1 = evt_pending vm
    \<and> (\<exists>vm2 vm3. op_call nx t vm1 k = (None, vm2, k) \<and> op_ret vm2 k = (None, vm3, k) \<and> pc vm3 = nx \<and> reg vm3 = saved_reg vm)"
  using assms by (auto simp: vm_init_def op_call_def op_ret_def advance_def Let_def)

theorem vm_init_stale_handler_witness:
  "\<exists>vm3. op_ret (fst (snd (op_call 4 8 (snd (vm_init (Some (0x2000, 64)) 1 (vm_example\<lparr>in_handler := True, saved_reg := replicate 16 99\<rparr>)))
       kern_example))) kern_example = (None, vm3, kern_example) \<and> reg vm3 = replicate 16 99"
proof -
  let ?vm = "vm_example\<lparr>in_handler := True, saved_reg := replicate 16 99\<rparr>"
  have "vm_init (Some (0x2000, 64)) 1 ?vm = (0, snd (vm_init (Some (0x2000, 64)) 1 ?vm))" by (simp add: vm_init_def)
  from vm_init_stale_handler [OF this, of 4 8 kern_example] show ?thesis by (auto simp: vm_example_def)
qed

text \<open> The interpreter's bounds check agrees with the kernel's: for a machine bound to an arena of a well-formed table,
  \<^verbatim>\<open>vm_in_bounds\<close> accepts an offset and a length exactly when \<^verbatim>\<open>arena_contains\<close> accepts the kernel address range
  they stand for, for all 2^64 pairs, wrapping ones included.\<close>

theorem vm_bounds_agree:
  assumes "arena_ok st" "vm_init (arena_bounds i st) i vm = (0, vm1)"
  shows "vm_in_bounds vm1 off len \<longleftrightarrow> arena_contains i (vbase vm1 + off) len st"
proof -
  obtain base sz where b: "arena_bounds i st = Some (base, sz)" using assms(2) by (cases "arena_bounds i st") (auto simp: vm_init_def)
  then have vm1: "vbase vm1 = base" "vsize vm1 = sz" using assms(2) by (auto simp: vm_init_def)
  have top: "unat base + unat sz < 4294967296"
    using assms(1) b arena_okD [OF assms(1), of "nat i"] backed_range [of "aheap st" "g_arenas st ! nat i"]
    by (auto simp: arena_bounds_def nat_less_iff split: if_splits)
  have lt: "unat base < 4294967296" "unat off < 4294967296" by (rule unat_lt_u32)+
  show ?thesis
  proof (cases "unat base + unat off < 4294967296")
    case True
    then have "unat (base + off) = unat base + unat off" by (rule unat_add_u32)
    then show ?thesis by (auto simp: arena_contains_bounds vmb.guard_iff vm_limit_def vm1 b)
  next
    case False
    have "unat (base + off) = (unat base + unat off - 4294967296) mod 4294967296"
      unfolding unat_add_mod_u32 using False by (intro le_mod_geq) linarith
    also have "\<dots> = unat base + unat off - 4294967296" using lt by (intro mod_less) linarith
    finally have "\<not> unat base \<le> unat (base + off)" "\<not> unat off + unat len \<le> unat sz" using False lt top by linarith+
    then show ?thesis by (simp add: arena_contains_bounds vmb.guard_iff vm_limit_def vm1 b)
  qed
qed

theorem vm_bounds_agree_witness:
  "\<exists>st vm1. arena_ok st \<and> vm_init (arena_bounds 0 st) 0 vm_example = (0, vm1) \<and> vsize vm1 = 30
     \<and> arena_contains 0 (vbase vm1 + 26) 4 st \<and> \<not> arena_contains 0 (vbase vm1 + 27) 4 st"
proof -
  obtain i st where c: "arena_create 30 arena_example = Some (i, st)" and ok: "arena_ok st"
    using arena_create_ok [OF arena_example_ok] by blast
  have "map_option (\<lambda>(i, st). arena_bounds 0 st) (arena_create 30 arena_example) = Some (Some (0x1010, 30))" by code_simp
  with c have b: "arena_bounds 0 st = Some (0x1010, 30)" by simp
  let ?vm = "snd (vm_init (arena_bounds 0 st) 0 vm_example)"
  have i: "vm_init (arena_bounds 0 st) 0 vm_example = (0, ?vm)" "vbase ?vm = 0x1010" "vsize ?vm = 30"
    using b by (simp_all add: vm_init_def)
  have "vm_in_bounds ?vm 26 4" "\<not> vm_in_bounds ?vm 27 4" by (simp_all add: vm_in_bounds_def i(3) word_le_nat_alt word_less_nat_alt)
  with vm_bounds_agree [OF ok i(1), of 26 4] vm_bounds_agree [OF ok i(1), of 27 4] ok i show ?thesis by blast
qed

end
