(* ===== verification/KApp.thy ===== *)
theory KApp
  imports VmRun
begin

text \<open>
  The application host, \<^verbatim>\<open>kernel/app.c\<close>: four slots, each with a bytecode machine, an arena, a viewport and a device
  grant. The host state is the application table, the arena table and the kernel state of the services; the
  memory is the one of the kernel state, which \<open>arena_create\<close> zeroes through. \<open>host_ok\<close> is the invariant of
  the table, \<open>host_step\<close> what the kernel does between and around slices of the programs.
\<close>

subsection \<open>Data\<close>

abbreviation (input) APP_VIEW_Y0 :: u32 where "APP_VIEW_Y0 \<equiv> 224"
abbreviation (input) APP_VIEW_PITCH :: u32 where "APP_VIEW_PITCH \<equiv> 16"
abbreviation (input) APP_VIEW_H :: u32 where "APP_VIEW_H \<equiv> 14"
abbreviation (input) APP_VIEW_W :: u32 where "APP_VIEW_W \<equiv> DISP_W - (44 + 16)"
abbreviation (input) APP_FULL_Y0 :: u32 where "APP_FULL_Y0 \<equiv> 22"
abbreviation (input) DESK_H :: u32 where "DESK_H \<equiv> 224"

record app_t =
  astate :: app_state_t
  aname :: "cstring option"
  aarena :: int
  apbase :: u32
  abytes :: u32
  publish_off :: u32
  avm :: vm_t

record host =
  g_apps :: "app_t list"
  g_views_suspended :: bool
  g_focused :: int
  harena :: arenas
  hk :: kern

definition upd_app :: "nat \<Rightarrow> (app_t \<Rightarrow> app_t) \<Rightarrow> host \<Rightarrow> host" where
  "upd_app i f st = st\<lparr>g_apps := (g_apps st)[i := f (g_apps st ! i)]\<rparr>"

definition upd_kern :: "(kern \<Rightarrow> kern) \<Rightarrow> host \<Rightarrow> host" where
  "upd_kern f st = st\<lparr>hk := f (hk st)\<rparr>"

abbreviation running :: "host \<Rightarrow> nat \<Rightarrow> bool" where
  "running st i \<equiv> astate (g_apps st ! i) = APP_RUNNING"

subsection \<open>Image identity\<close>

definition fnv_byte :: "u32 \<Rightarrow> u8 \<Rightarrow> u32" where
  "fnv_byte h b = (h XOR ucast b) * 16777619"

text \<open>A \<open>None\<close> among the permissions is a null pointer, which the loop skips.\<close>

definition fnv_perm :: "u32 \<Rightarrow> cstring option \<Rightarrow> u32" where
  "fnv_perm h p = (case p of None \<Rightarrow> h | Some s \<Rightarrow> (foldl fnv_byte h s XOR 0) * 16777619)"

definition app_image_id :: "u8 list \<Rightarrow> cstring option list \<Rightarrow> u32" where
  "app_image_id img perms = foldl fnv_perm (foldl fnv_byte 2166136261 img) perms"

subsection \<open>Viewports\<close>

definition apply_view :: "nat \<Rightarrow> host \<Rightarrow> host" where
  "apply_view i st =
     (if \<not> running st i then st
      else if int i = g_focused st then
        upd_app i (\<lambda>a. a\<lparr>avm := vm_set_viewport 0 APP_FULL_Y0 DISP_W (DESK_H - APP_FULL_Y0) (avm a)\<rparr>) st
      else if g_views_suspended st then upd_app i (\<lambda>a. a\<lparr>avm := vm_set_viewport 0 0 0 0 (avm a)\<rparr>) st
      else upd_app i (\<lambda>a. a\<lparr>avm := vm_set_viewport 0 (APP_VIEW_Y0 + of_nat i * APP_VIEW_PITCH) APP_VIEW_W APP_VIEW_H (avm a)\<rparr>) st)"

definition app_views_suspend :: "bool \<Rightarrow> host \<Rightarrow> host" where
  "app_views_suspend on st = fold apply_view [0..<APP_SLOTS] (st\<lparr>g_views_suspended := on\<rparr>)"

definition app_view_focus :: "int \<Rightarrow> host \<Rightarrow> host" where
  "app_view_focus i0 st =
     (let i = (if i0 \<ge> 0 \<and> (i0 \<ge> int APP_SLOTS \<or> \<not> running st (nat i0)) then -1 else i0);
          was = g_focused st;
          st1 = st\<lparr>g_focused := i\<rparr>;
          st2 = (if was \<ge> 0 \<and> was < int APP_SLOTS then apply_view (nat was) st1 else st1)
      in if i \<ge> 0 then apply_view (nat i) st2 else st2)"

subsection \<open>Starting and stopping\<close>

definition retire :: "nat \<Rightarrow> app_state_t \<Rightarrow> host \<Rightarrow> host" where
  "retire i why st =
     (let st1 = (if g_focused st = int i then st\<lparr>g_focused := -1\<rparr> else st);
          a = g_apps st1 ! i;
          st2 = (if aarena a \<ge> 0 then upd_app i (\<lambda>a. a\<lparr>aarena := -1\<rparr>) (st1\<lparr>harena := arena_destroy (aarena a) (harena st1)\<rparr>)
                 else st1);
          vm = avm a;
          st3 = upd_kern (\<lambda>k. k\<lparr>panel := panel k @ [Fill (vx vm) (vy vm) (vw vm) (vh vm) 0],
                                kipc := ipc_clear (int i) (kipc k), kdev := device_grant (of_nat i) DEV_PERM_NONE (kdev k)\<rparr>) st2
      in upd_app i (\<lambda>a. a\<lparr>apbase := 0, astate := why\<rparr>) st3)"

fun start_slot :: "app_t list \<Rightarrow> nat \<Rightarrow> nat option" where
  "start_slot [] i = None"
| "start_slot (a # as) i = (if astate a = APP_RUNNING then start_slot as (Suc i) else Some i)"

text \<open>The arena table sees the kernel's memory. \<open>None\<close> is a heap walk that does not end, which a well-formed heap
  excludes.\<close>

definition arena_view :: "host \<Rightarrow> arenas" where
  "arena_view st = (harena st)\<lparr>amem := kmem (hk st)\<rparr>"

definition app_start :: "cstring option \<Rightarrow> u8 list \<Rightarrow> u32 \<Rightarrow> u32 \<Rightarrow> u32 \<Rightarrow> host \<Rightarrow> (int \<times> host) option" where
  "app_start name img len arena_bytes publish st =
     (if len > arena_bytes then Some (-1, st)
      else case start_slot (g_apps st) 0 of
          None \<Rightarrow> Some (-1, st)
        | Some i \<Rightarrow>
            (case arena_create arena_bytes (arena_view st) of
               None \<Rightarrow> None
             | Some (ar, ha) \<Rightarrow>
                 let st1 = st\<lparr>harena := ha, hk := (hk st)\<lparr>kmem := amem ha\<rparr>\<rparr> in
                 if ar < 0 then Some (-1, st1)
                 else case arena_bounds ar ha of
                     None \<Rightarrow> Some (-1, st1\<lparr>harena := arena_destroy ar ha\<rparr>)
                   | Some (base, _) \<Rightarrow>
                       let st2 = upd_kern (\<lambda>k. k\<lparr>kmem := store_bytes (kmem k) base (take (unat len) img)\<rparr>) st1;
                           (rc, vm) = vm_init (arena_bounds ar ha) ar (avm (g_apps st2 ! i))
                       in if rc \<noteq> 0 then Some (-1, st2\<lparr>harena := arena_destroy ar ha\<rparr>)
                          else Some (int i, apply_view i (upd_app i (\<lambda>a. a\<lparr>astate := APP_RUNNING, aname := name, aarena := ar,
                                 apbase := base, abytes := arena_bytes, publish_off := publish, avm := vm_set_app_id (int i) vm\<rparr>)
                                 (upd_kern (\<lambda>k. k\<lparr>kipc := ipc_clear (int i) (kipc k)\<rparr>) st2)))))"

definition app_kill :: "int \<Rightarrow> host \<Rightarrow> host" where
  "app_kill i st = (if i < 0 \<or> i \<ge> int APP_SLOTS \<or> \<not> running st (nat i) then st else retire (nat i) APP_KILLED st)"

subsection \<open>Running\<close>

fun uart_puts :: "cstring \<Rightarrow> kern \<Rightarrow> kern" where
  "uart_puts [] k = k"
| "uart_puts (c # s) k = uart_puts s (uart_putc c (if c = 10 then uart_putc 13 k else k))"

text \<open>The lines the host prints when a program stops; bytes 10 and 39 are newline and apostrophe. A null name prints
  nothing here.\<close>

definition report_head :: "nat \<Rightarrow> app_t \<Rightarrow> kern \<Rightarrow> kern" where
  "report_head i a k =
     uart_puts (case aname a of None \<Rightarrow> [] | Some n \<Rightarrow> n)
       (uart_puts [32, 39] (uart_put_dec (of_nat i) (uart_puts (10 # bytes_of ''  [app '') k)))"

definition report_fault :: "nat \<Rightarrow> app_t \<Rightarrow> kern \<Rightarrow> kern" where
  "report_fault i a k0 =
     (let k1 = uart_puts (39 # bytes_of '' TERMINATED] '') (report_head i a k0);
          k2 = uart_puts (bytes_of '' at offset '') (uart_puts (vm_fault_name (vfault (avm a))) k1);
          k3 = uart_puts (bytes_of '' of '') (uart_put_dec (fault_detail (avm a)) k2);
          k4 = uart_puts (bytes_of '' B arena, pc='') (uart_put_dec (abytes a) k3);
          k5 = uart_puts (bytes_of '', after '') (uart_put_dec (fault_pc (avm a)) k4)
      in uart_puts (bytes_of '' instructions'' @ [10]) (uart_put_dec (executed (avm a)) k5))"

definition report_finish :: "nat \<Rightarrow> app_t \<Rightarrow> kern \<Rightarrow> kern" where
  "report_finish i a k0 =
     (let k1 = uart_puts (39 # bytes_of '' finished] status='') (report_head i a k0);
          k2 = uart_puts (bytes_of '' after '') (uart_put_dec (exit_status (avm a)) k1)
      in uart_puts (bytes_of '' instructions'' @ [10]) (uart_put_dec (executed (avm a)) k2))"

text \<open>The services see the current states of all applications.\<close>

definition kern_view :: "host \<Rightarrow> kern" where
  "kern_view st = (hk st)\<lparr>app_states := map astate (g_apps st)\<rparr>"

text \<open>One iteration of the loop of \<^verbatim>\<open>app_tick\<close>.\<close>

definition app_slice :: "hw \<Rightarrow> u32 \<Rightarrow> nat \<Rightarrow> host \<Rightarrow> host" where
  "app_slice h quantum i st =
     (if \<not> running st i then st
      else
        let (vm1, k1) = vm_event_poll (avm (g_apps st ! i)) (kern_view st);
            (_, vm2) = vm_event_dispatch vm1;
            (r, vm3, k3) = vm_run h quantum vm2 k1;
            st1 = (upd_app i (\<lambda>a. a\<lparr>avm := vm3\<rparr>) st)\<lparr>hk := k3\<rparr>;
            a = g_apps st1 ! i
        in case r of
            VM_RUN_QUANTUM \<Rightarrow> st1
          | VM_RUN_FAULTED \<Rightarrow> retire i APP_FAULTED (upd_kern (report_fault i a) st1)
          | VM_RUN_HALTED \<Rightarrow> retire i APP_HALTED (upd_kern (report_finish i a) st1))"

definition app_tick :: "hw \<Rightarrow> u32 \<Rightarrow> host \<Rightarrow> host" where
  "app_tick h quantum st = fold (app_slice h quantum) [0..<APP_SLOTS] st"

subsection \<open>Queries\<close>

abbreviation (input) slot_id :: "int \<Rightarrow> bool" where "slot_id i \<equiv> i \<ge> 0 \<and> i < int APP_SLOTS"

definition app_state_name :: "int \<Rightarrow> host \<Rightarrow> cstring" where
  "app_state_name i st = (case app_state (map astate (g_apps st)) i of
     APP_RUNNING \<Rightarrow> bytes_of ''running'' | APP_HALTED \<Rightarrow> bytes_of ''halted'' | APP_FAULTED \<Rightarrow> bytes_of ''faulted''
   | APP_KILLED \<Rightarrow> bytes_of ''killed'' | APP_FREE \<Rightarrow> bytes_of ''-'')"

definition app_name :: "int \<Rightarrow> host \<Rightarrow> cstring" where
  "app_name i st = (if \<not> slot_id i then bytes_of ''-'' else case aname (g_apps st ! nat i) of None \<Rightarrow> bytes_of ''-'' | Some n \<Rightarrow> n)"

definition app_instructions :: "int \<Rightarrow> host \<Rightarrow> u32" where
  "app_instructions i st = (if slot_id i then executed (avm (g_apps st ! nat i)) else 0)"

definition app_published :: "int \<Rightarrow> host \<Rightarrow> u32" where
  "app_published i st =
     (if \<not> slot_id i \<or> \<not> running st (nat i) \<or> apbase (g_apps st ! nat i) = 0 then 0
      else peek32 (kmem (hk st)) (apbase (g_apps st ! nat i) + publish_off (g_apps st ! nat i)))"

definition app_arena_bytes :: "int \<Rightarrow> host \<Rightarrow> u32" where
  "app_arena_bytes i st = (if slot_id i then abytes (g_apps st ! nat i) else 0)"

definition app_arena_base :: "int \<Rightarrow> host \<Rightarrow> u32" where
  "app_arena_base i st = (if slot_id i then apbase (g_apps st ! nat i) else 0)"

definition app_fault :: "int \<Rightarrow> host \<Rightarrow> vm_fault_t" where
  "app_fault i st = (if slot_id i then vfault (avm (g_apps st ! nat i)) else VM_FAULT_NONE)"

definition app_fault_detail :: "int \<Rightarrow> host \<Rightarrow> u32" where
  "app_fault_detail i st = (if slot_id i then fault_detail (avm (g_apps st ! nat i)) else 0)"

definition app_live_count :: "host \<Rightarrow> nat" where
  "app_live_count st = length (filter (\<lambda>a. astate a = APP_RUNNING) (g_apps st))"

subsection \<open>The invariant\<close>

text \<open>The viewport the policy gives a running application.\<close>

definition view_of :: "host \<Rightarrow> nat \<Rightarrow> u32 \<times> u32 \<times> u32 \<times> u32" where
  "view_of st i =
     (if int i = g_focused st then (0, APP_FULL_Y0, DISP_W, DESK_H - APP_FULL_Y0)
      else if g_views_suspended st then (0, 0, 0, 0)
      else (0, APP_VIEW_Y0 + of_nat i * APP_VIEW_PITCH, APP_VIEW_W, APP_VIEW_H))"

definition viewport :: "vm_t \<Rightarrow> u32 \<times> u32 \<times> u32 \<times> u32" where
  "viewport vm = (vx vm, vy vm, vw vm, vh vm)"

text \<open>A running application owns a live arena that is the memory of its machine, and has its own id.\<close>

definition owns :: "host \<Rightarrow> nat \<Rightarrow> app_t \<Rightarrow> bool" where
  "owns st i a \<longleftrightarrow> 0 \<le> aarena a \<and> arena_bounds (aarena a) (harena st) = Some (vbase (avm a), vsize (avm a))
     \<and> apbase a = vbase (avm a) \<and> app_id (avm a) = int i"

definition host_core :: "host \<Rightarrow> bool" where
  "host_core st \<longleftrightarrow> length (g_apps st) = APP_SLOTS \<and> arena_ok (harena st) \<and> ipc_ok (kipc (hk st))
     \<and> (\<forall>a \<in> set (g_apps st). vm_wf (avm a))
     \<and> (\<forall>i < APP_SLOTS. running st i \<longrightarrow> owns st i (g_apps st ! i))
     \<and> (\<forall>i < APP_SLOTS. \<forall>j < APP_SLOTS. i \<noteq> j \<longrightarrow> running st i \<longrightarrow> running st j \<longrightarrow>
          aarena (g_apps st ! i) \<noteq> aarena (g_apps st ! j))
     \<and> (g_focused st \<ge> 0 \<longrightarrow> g_focused st < int APP_SLOTS \<and> running st (nat (g_focused st)))"

definition view_right :: "host \<Rightarrow> nat \<Rightarrow> bool" where
  "view_right st i \<longleftrightarrow> (running st i \<longrightarrow> viewport (avm (g_apps st ! i)) = view_of st i)"

definition host_ok :: "host \<Rightarrow> bool" where
  "host_ok st \<longleftrightarrow> host_core st \<and> (\<forall>i < APP_SLOTS. view_right st i)"

lemma upd_app_simps [simp]:
  "harena (upd_app i f st) = harena st" "hk (upd_app i f st) = hk st" "g_focused (upd_app i f st) = g_focused st"
  "g_views_suspended (upd_app i f st) = g_views_suspended st" "length (g_apps (upd_app i f st)) = length (g_apps st)"
  by (simp_all add: upd_app_def)

lemma upd_app_nth: "i < length (g_apps st) \<Longrightarrow> g_apps (upd_app i f st) ! j = (if j = i then f (g_apps st ! i) else g_apps st ! j)"
  by (simp add: upd_app_def)

lemma upd_kern_simps [simp]:
  "g_apps (upd_kern f st) = g_apps st" "harena (upd_kern f st) = harena st" "hk (upd_kern f st) = f (hk st)"
  "g_focused (upd_kern f st) = g_focused st" "g_views_suspended (upd_kern f st) = g_views_suspended st"
  by (simp_all add: upd_kern_def)

lemma view_of_cong: "g_focused st' = g_focused st \<Longrightarrow> g_views_suspended st' = g_views_suspended st \<Longrightarrow> view_of st' = view_of st"
  by (simp add: fun_eq_iff view_of_def)

lemma owns_cong: "harena st' = harena st \<Longrightarrow> owns st' = owns st"
  by (simp add: fun_eq_iff owns_def)

lemma host_coreD:
  assumes "host_core st" "i < APP_SLOTS"
  shows "i < length (g_apps st)" "vm_wf (avm (g_apps st ! i))" "arena_ok (harena st)"
    "running st i \<Longrightarrow> owns st i (g_apps st ! i)"
    "running st i \<Longrightarrow> j < APP_SLOTS \<Longrightarrow> running st j \<Longrightarrow> i \<noteq> j \<Longrightarrow> aarena (g_apps st ! i) \<noteq> aarena (g_apps st ! j)"
  using assms by (auto simp: host_core_def)

lemma host_core_kern: "host_core st \<Longrightarrow> ipc_ok (kipc k) \<Longrightarrow> host_core (st\<lparr>hk := k\<rparr>)"
  by (simp add: host_core_def owns_def)

lemma view_right_kern [simp]: "view_right (st\<lparr>hk := k\<rparr>) i = view_right st i" "view_right (upd_kern f st) i = view_right st i"
  by (simp_all add: view_right_def view_of_def upd_kern_def)

text \<open>Replacing one record of the table.\<close>

lemma host_core_upd_app:
  assumes "host_core st" "i < APP_SLOTS" "vm_wf (avm (f (g_apps st ! i)))" "astate (f (g_apps st ! i)) = astate (g_apps st ! i)"
    "running st i \<Longrightarrow> owns st i (f (g_apps st ! i)) \<and> aarena (f (g_apps st ! i)) = aarena (g_apps st ! i)"
  shows "host_core (upd_app i f st)"
proof -
  have l: "i < length (g_apps st)" "length (g_apps st) = APP_SLOTS" using assms(1,2) by (auto simp: host_core_def)
  note n = upd_app_nth [OF l(1)]
  have o: "owns (upd_app i f st) = owns st" by (rule owns_cong) simp
  have w: "\<forall>a \<in> set (g_apps (upd_app i f st)). vm_wf (avm a)"
    using assms(1,3) set_update_subset_insert [of "g_apps st" i "f (g_apps st ! i)"] by (auto simp: host_core_def upd_app_def)
  have r: "running (upd_app i f st) j = running st j" for j by (simp add: n assms(4))
  have a: "running st j \<Longrightarrow> aarena (g_apps (upd_app i f st) ! j) = aarena (g_apps st ! j)" for j using assms(5) by (auto simp: n)
  have s: "\<forall>j < APP_SLOTS. running st j \<longrightarrow> owns st j (g_apps (upd_app i f st) ! j)"
    using assms(1,5) by (auto simp: host_core_def n)
  have d: "\<forall>x < APP_SLOTS. \<forall>y < APP_SLOTS. x \<noteq> y \<longrightarrow> running st x \<longrightarrow> running st y \<longrightarrow>
          aarena (g_apps (upd_app i f st) ! x) \<noteq> aarena (g_apps (upd_app i f st) ! y)"
    using host_coreD(5) [OF assms(1)] a by auto
  show ?thesis unfolding host_core_def o r using l w s d assms(1) by (simp add: host_core_def)
qed

subsection \<open>Viewports follow the policy\<close>

lemma apply_view_frame [simp]:
  "harena (apply_view i st) = harena st" "hk (apply_view i st) = hk st" "g_focused (apply_view i st) = g_focused st"
  "g_views_suspended (apply_view i st) = g_views_suspended st" "length (g_apps (apply_view i st)) = length (g_apps st)"
  "view_of (apply_view i st) = view_of st"
  by (simp_all add: apply_view_def view_of_def fun_eq_iff)

text \<open>The record of slot \<open>i\<close> gets the viewport of the policy; everything else stays.\<close>

lemma apply_view_eq:
  "apply_view i st = (if running st i then upd_app i (\<lambda>a. a\<lparr>avm := (case view_of st i of (x, y, w, h) \<Rightarrow> vm_set_viewport x y w h (avm a))\<rparr>) st
     else st)"
  by (simp add: apply_view_def view_of_def)

lemma set_viewport_simps [simp]:
  "viewport (vm_set_viewport x y w h vm) = (x, y, w, h)" "vm_wf (vm_set_viewport x y w h vm) = vm_wf vm"
  "vbase (vm_set_viewport x y w h vm) = vbase vm" "vsize (vm_set_viewport x y w h vm) = vsize vm"
  "app_id (vm_set_viewport x y w h vm) = app_id vm"
  by (simp_all add: vm_set_viewport_def viewport_def vm_wf_def)

lemma apply_view_core:
  assumes "host_core st" "i < APP_SLOTS"
  shows "host_core (apply_view i st)"
proof (cases "running st i")
  case True
  show ?thesis unfolding apply_view_eq
    using True host_coreD [OF assms] by (auto intro!: host_core_upd_app assms simp: owns_def split: prod.split)
qed (simp add: apply_view_eq assms)

lemma apply_view_right:
  assumes "i < length (g_apps st)"
  shows "view_right (apply_view i st) j = (if j = i then True else view_right st j)"
    "running (apply_view i st) j = running st j"
  using assms by (auto simp: view_right_def) (auto simp: apply_view_eq upd_app_nth split: prod.split if_splits)

lemma app_views_suspend_ok:
  assumes "host_ok st"
  shows "host_ok (app_views_suspend on st)"
proof -
  let ?s = "st\<lparr>g_views_suspended := on\<rparr>"
  have c: "host_core ?s" using assms by (simp add: host_ok_def host_core_def owns_def)
  have l: "length (g_apps ?s) = 4" using c by (simp add: host_core_def)
  have e: "app_views_suspend on st = apply_view 3 (apply_view 2 (apply_view 1 (apply_view 0 ?s)))"
    by (simp add: app_views_suspend_def upt_rec numeral_eq_Suc)
  have "host_core (app_views_suspend on st)" unfolding e by (intro apply_view_core c) simp_all
  moreover have "view_right (app_views_suspend on st) i" if "i < 4" for i
  proof -
    have "i = 0 \<or> i = 1 \<or> i = 2 \<or> i = 3" using that by auto
    then show ?thesis unfolding e using l by (auto simp: apply_view_right)
  qed
  ultimately show ?thesis by (simp add: host_ok_def)
qed

lemma app_view_focus_ok:
  assumes "host_ok st"
  shows "host_ok (app_view_focus i0 st)"
proof -
  define i where "i = (if i0 \<ge> 0 \<and> (i0 \<ge> int APP_SLOTS \<or> \<not> running st (nat i0)) then -1 else i0)"
  let ?s = "st\<lparr>g_focused := i\<rparr>"
  have i: "i \<ge> 0 \<Longrightarrow> i < 4 \<and> running st (nat i)" by (auto simp: i_def split: if_splits)
  have c: "host_core ?s" using assms i by (simp add: host_ok_def host_core_def owns_def)
  have l: "length (g_apps ?s) = 4" using c by (simp add: host_core_def)
  have f: "g_focused st \<ge> 0 \<Longrightarrow> g_focused st < 4" using assms by (simp add: host_ok_def host_core_def)
  define s2 where "s2 = (if g_focused st \<ge> 0 then apply_view (nat (g_focused st)) ?s else ?s)"
  have e: "app_view_focus i0 st = (if i \<ge> 0 then apply_view (nat i) s2 else s2)"
    using f by (simp add: app_view_focus_def Let_def s2_def i_def)
  have c2: "host_core s2" unfolding s2_def using c f by (auto intro!: apply_view_core)
  have l2: "length (g_apps s2) = 4" using c2 by (simp add: host_core_def)
  have r: "view_right s2 j" if "j < 4" "int j \<noteq> i" for j
  proof (cases "int j = g_focused st")
    case True
    then show ?thesis using f l by (auto simp: s2_def apply_view_right)
  next
    case False
    have "view_right st j" using assms that(1) by (simp add: host_ok_def)
    then have "view_right ?s j" using False that(2) by (auto simp: view_right_def view_of_def)
    then show ?thesis using f l by (auto simp: s2_def apply_view_right)
  qed
  have "host_core (app_view_focus i0 st)" unfolding e using c2 i by (auto intro!: apply_view_core)
  moreover have "view_right (app_view_focus i0 st) j" if "j < 4" for j
    unfolding e using r [OF that] l2 i by (auto simp: apply_view_right)
  ultimately show ?thesis by (simp add: host_ok_def)
qed

subsection \<open>Stopping an application\<close>

lemma arena_destroy_slots:
  assumes "live_slot st i"
  shows "g_arenas (arena_destroy i st) = (g_arenas st)[nat i := \<lparr>abase = 0, alen = 0\<rparr>]"
  using assms unfolding live_slot_def by (simp add: arena_destroy_def Let_def)

lemma arena_destroy_bounds:
  assumes "arena_ok st" "live_slot st i"
  shows "arena_bounds j (arena_destroy i st) = (if j = i then None else arena_bounds j st)"
proof -
  have l: "nat i < length (g_arenas st)" and i: "0 \<le> i" using assms by (auto simp: live_slot_def arena_ok_def)
  show ?thesis
  proof (cases "j = i \<or> j < 0")
    case True
    then show ?thesis using l i unfolding arena_bounds_def arena_destroy_slots [OF assms(2)] by auto
  next
    case False
    then have "nat i \<noteq> nat j" using i by auto
    then show ?thesis using False unfolding arena_bounds_def arena_destroy_slots [OF assms(2)] by simp
  qed
qed

lemma bounds_live: "arena_bounds i st = Some b \<Longrightarrow> live_slot st i"
  by (auto simp: arena_bounds_def live_slot_def split: if_splits)

lemma uart_frame [simp]:
  "kmem (uart_putc c k) = kmem k" "kipc (uart_putc c k) = kipc k" "kdev (uart_putc c k) = kdev k" "panel (uart_putc c k) = panel k"
  "kmem (uart_put_dec n k) = kmem k" "kipc (uart_put_dec n k) = kipc k" "kdev (uart_put_dec n k) = kdev k"
  "panel (uart_put_dec n k) = panel k"
  by (simp_all add: uart_putc_def uart_put_dec_def)

lemma uart_puts_frame [simp]:
  "kmem (uart_puts s k) = kmem k" "kipc (uart_puts s k) = kipc k" "kdev (uart_puts s k) = kdev k" "panel (uart_puts s k) = panel k"
  by (induction s k rule: uart_puts.induct) simp_all

lemma report_frame [simp]:
  "kmem (report_fault i a k) = kmem k" "kipc (report_fault i a k) = kipc k" "kdev (report_fault i a k) = kdev k"
  "panel (report_fault i a k) = panel k"
  "kmem (report_finish i a k) = kmem k" "kipc (report_finish i a k) = kipc k" "kdev (report_finish i a k) = kdev k"
  "panel (report_finish i a k) = panel k"
  by (simp_all only: report_fault_def report_finish_def report_head_def Let_def uart_puts_frame uart_frame)

text \<open>What \<open>retire\<close> leaves behind, for an application that owned its arena.\<close>

lemma retire_fields:
  assumes "owns st i (g_apps st ! i)" "i < length (g_apps st)"
  defines "a \<equiv> g_apps st ! i"
  shows "g_apps (retire i why st) = (g_apps st)[i := a\<lparr>aarena := -1, apbase := 0, astate := why\<rparr>]"
    "harena (retire i why st) = arena_destroy (aarena a) (harena st)"
    "g_focused (retire i why st) = (if g_focused st = int i then -1 else g_focused st)"
    "g_views_suspended (retire i why st) = g_views_suspended st"
    "kmem (hk (retire i why st)) = kmem (hk st)" "kipc (hk (retire i why st)) = ipc_clear (int i) (kipc (hk st))"
    "kdev (hk (retire i why st)) = device_grant (of_nat i) DEV_PERM_NONE (kdev (hk st))"
    "panel (hk (retire i why st)) = panel (hk st) @ [Fill (vx (avm a)) (vy (avm a)) (vw (avm a)) (vh (avm a)) 0]"
  using assms by (auto simp: retire_def Let_def owns_def upd_app_def upd_kern_def)

lemma retire_ok:
  assumes "host_ok st" "i < APP_SLOTS" "running st i" "why \<noteq> APP_RUNNING"
  shows "host_ok (retire i why st)"
proof -
  have c: "host_core st" using assms(1) by (simp add: host_ok_def)
  note D = host_coreD [OF c]
  let ?s = "retire i why st" and ?a = "g_apps st ! i"
  have own: "owns st i ?a" using D(4) assms by blast
  note F = retire_fields [OF own D(1) [OF assms(2)], of why]
  have live: "live_slot (harena st) (aarena ?a)" using own by (auto simp: owns_def intro: bounds_live)
  note B = arena_destroy_bounds [OF D(3) [OF assms(2)] live]
  have r: "running ?s j \<longleftrightarrow> j \<noteq> i \<and> running st j" for j using assms(4) D(1) [OF assms(2)] by (auto simp: F(1) nth_list_update)
  have n: "g_apps ?s ! j = g_apps st ! j" if "j \<noteq> i" for j using that by (simp add: F(1))
  have o: "owns ?s j (g_apps ?s ! j)" if "j < APP_SLOTS" "running ?s j" for j
  proof -
    have j: "j \<noteq> i" "running st j" using that r by auto
    have "owns st j (g_apps st ! j)" using D(4) [OF that(1) j(2)] .
    then show ?thesis using D(5) [OF that(1) j(2) assms(2,3) j(1)] j by (simp add: owns_def n F(2) B)
  qed
  have v: "view_right ?s j" if "j < APP_SLOTS" for j
  proof -
    have "view_right st j" using assms(1) that by (simp add: host_ok_def)
    then show ?thesis using n by (auto simp: view_right_def r view_of_def F(3,4))
  qed
  have w: "\<forall>a \<in> set (g_apps ?s). vm_wf (avm a)"
    using c D(2) [OF assms(2)] set_update_subset_insert [of "g_apps st" i] by (fastforce simp: F(1) host_core_def)
  have f: "g_focused ?s \<ge> 0 \<longrightarrow> g_focused ?s < int APP_SLOTS \<and> running ?s (nat (g_focused ?s))"
    using c unfolding r by (auto simp: F(3) host_core_def)
  have d: "\<forall>x < APP_SLOTS. \<forall>y < APP_SLOTS. x \<noteq> y \<longrightarrow> running ?s x \<longrightarrow> running ?s y \<longrightarrow> aarena (g_apps ?s ! x) \<noteq> aarena (g_apps ?s ! y)"
    using D(5) r n by simp
  have "arena_ok (harena ?s)" using arena_destroy_ok D(3) [OF assms(2)] by (simp add: F(2))
  moreover have "ipc_ok (kipc (hk ?s))" using ipc_clear_mail [of "kipc (hk st)" "int i"] c by (simp add: F(6) host_core_def)
  moreover have "length (g_apps ?s) = APP_SLOTS" using c by (simp add: F(1) host_core_def)
  ultimately have "host_core ?s" unfolding host_core_def using o w f d by blast
  with v show ?thesis by (simp add: host_ok_def)
qed

lemma app_kill_ok: "host_ok st \<Longrightarrow> host_ok (app_kill i st)"
  by (auto simp: app_kill_def intro!: retire_ok)

subsection \<open>A slice\<close>

lemma vm_event_poll_confined: "confined vm k (vm_event_poll vm k)"
proof -
  have "kconf vm k (k\<lparr>kdev := (kdev k)\<lparr>dkeys := q\<rparr>\<rparr>)" for q by (rule kconf_kdev) simp_all
  moreover have "vm_wf vm \<Longrightarrow> vm_wf (vm\<lparr>evt_due := (evt_due vm)[n := x]\<rparr>)" "vm_wf vm \<Longrightarrow> vm_wf (vm\<lparr>evt_arg := (evt_arg vm)[n := x]\<rparr>)"
    for vm n x by (simp_all add: vm_wf_def)
  ultimately show ?thesis
    by (auto simp: vm_event_poll_def Let_def confined_simp vm_wf_def split: prod.split option.split)
qed

lemma vm_event_dispatch_confined:
  assumes "vm_event_dispatch vm = (d, vm')"
  shows "vm_id vm' = vm_id vm" "vm_wf vm \<Longrightarrow> vm_wf vm'"
proof -
  show "vm_id vm' = vm_id vm" using assms by (auto simp: vm_event_dispatch_def Let_def split: if_splits)
  assume wf: "vm_wf vm"
  show "vm_wf vm'"
  proof (cases d)
    case True
    with handling_start [of vm vm'] assms wf show ?thesis by (simp add: handling_def)
  next
    case False
    with assms wf show ?thesis by (auto simp: vm_event_dispatch_def Let_def split: if_splits)
  qed
qed

lemma ipc_ok_confined: "confined vm k (vm', k') \<Longrightarrow> ipc_ok (kipc k) \<Longrightarrow> ipc_ok (kipc k')"
  by (simp add: confined_simp kconf_def mail_frame_def)

text \<open>A slice is a confined run of the machine of the slot, after which the application may be retired.\<close>

lemma app_slice_cases:
  assumes "running st i"
  obtains vm k where "confined (avm (g_apps st ! i)) (kern_view st) (vm, k)"
    "app_slice h q i st = (upd_app i (\<lambda>a. a\<lparr>avm := vm\<rparr>) st)\<lparr>hk := k\<rparr> \<or>
     (\<exists>f why. why \<noteq> APP_RUNNING \<and> (\<forall>k. kmem (f k) = kmem k \<and> kipc (f k) = kipc k \<and> kdev (f k) = kdev k \<and> panel (f k) = panel k)
        \<and> app_slice h q i st = retire i why (upd_kern f ((upd_app i (\<lambda>a. a\<lparr>avm := vm\<rparr>) st)\<lparr>hk := k\<rparr>)))"
proof -
  let ?vm = "avm (g_apps st ! i)" and ?k = "kern_view st"
  obtain vm1 k1 where p: "vm_event_poll ?vm ?k = (vm1, k1)" by (rule prod.exhaust)
  obtain d vm2 where e: "vm_event_dispatch vm1 = (d, vm2)" by (rule prod.exhaust)
  obtain r vm3 k3 where r: "vm_run h q vm2 k1 = (r, vm3, k3)" by (rule prod_cases3)
  have "confined ?vm ?k (vm1, k1)" using vm_event_poll_confined [of ?vm ?k] p by simp
  moreover have "confined vm1 k1 (vm2, k1)" using vm_event_dispatch_confined [OF e] by (simp add: confined_simp)
  moreover have "confined vm2 k1 (vm3, k3)" using vm_run_confined [of vm2 k1 h q] r by simp
  ultimately have c: "confined ?vm ?k (vm3, k3)" by (blast intro: confined_trans)
  let ?st1 = "(upd_app i (\<lambda>a. a\<lparr>avm := vm3\<rparr>) st)\<lparr>hk := k3\<rparr>"
  have s: "app_slice h q i st = (case r of VM_RUN_QUANTUM \<Rightarrow> ?st1
      | VM_RUN_FAULTED \<Rightarrow> retire i APP_FAULTED (upd_kern (report_fault i (g_apps ?st1 ! i)) ?st1)
      | VM_RUN_HALTED \<Rightarrow> retire i APP_HALTED (upd_kern (report_finish i (g_apps ?st1 ! i)) ?st1))"
    using assms by (simp add: app_slice_def p e r Let_def split: vm_run_t.split)
  show thesis
  proof (cases r)
    case VM_RUN_HALTED
    with s show thesis by (intro that [OF c] disjI2 exI [of _ "report_finish i (g_apps ?st1 ! i)"] exI [of _ APP_HALTED]) simp
  next
    case VM_RUN_FAULTED
    with s show thesis by (intro that [OF c] disjI2 exI [of _ "report_fault i (g_apps ?st1 ! i)"] exI [of _ APP_FAULTED]) simp
  next
    case VM_RUN_QUANTUM
    with s show thesis by (intro that [OF c] disjI1) simp
  qed
qed

text \<open>The table after the run of slot \<open>i\<close>.\<close>

lemma run_ok:
  assumes "host_ok st" "i < APP_SLOTS" "running st i" "confined (avm (g_apps st ! i)) (kern_view st) (vm, k)"
  defines "st1 \<equiv> (upd_app i (\<lambda>a. a\<lparr>avm := vm\<rparr>) st)\<lparr>hk := k\<rparr>"
  shows "host_ok st1" "running st1 j = running st j"
proof -
  let ?s = "upd_app i (\<lambda>a. a\<lparr>avm := vm\<rparr>) st"
  have c: "host_core st" using assms(1) by (simp add: host_ok_def)
  note D = host_coreD [OF c assms(2)]
  have id: "vm_id vm = vm_id (avm (g_apps st ! i))" "vm_wf vm" using assms(4) D(2) by (simp_all add: confined_simp)
  have "ipc_ok (kipc k)" using ipc_ok_confined [OF assms(4)] c by (simp add: host_core_def kern_view_def)
  moreover have "host_core ?s"
    using id D(4) by (intro host_core_upd_app c assms(2)) (auto simp: owns_def vm_id_def)
  ultimately have core: "host_core st1" unfolding st1_def by (blast intro: host_core_kern)
  have "view_right ?s j" if "view_right st j" for j
    using that id(1) by (auto simp: view_right_def upd_app_nth [OF D(1)] view_of_def viewport_def vm_id_def)
  with core assms(1) show "host_ok st1" by (simp add: host_ok_def st1_def)
  show "running st1 j = running st j" by (simp add: st1_def upd_app_nth [OF D(1)])
qed

lemma upd_kern_ok: "host_ok st \<Longrightarrow> (\<And>k. kipc (f k) = kipc k) \<Longrightarrow> host_ok (upd_kern f st)"
  using host_core_kern [of st "f (hk st)"] by (auto simp: host_ok_def upd_kern_def host_core_def)

lemma app_slice_ok:
  assumes "host_ok st" "i < APP_SLOTS"
  shows "host_ok (app_slice h q i st)"
proof (cases "running st i")
  case True
  from True show ?thesis
  proof (rule app_slice_cases [where h = h and q = q])
    fix vm k
    assume c: "confined (avm (g_apps st ! i)) (kern_view st) (vm, k)"
    note ok = run_ok [OF assms True c]
    assume "app_slice h q i st = (upd_app i (\<lambda>a. a\<lparr>avm := vm\<rparr>) st)\<lparr>hk := k\<rparr> \<or>
     (\<exists>f why. why \<noteq> APP_RUNNING \<and> (\<forall>k. kmem (f k) = kmem k \<and> kipc (f k) = kipc k \<and> kdev (f k) = kdev k \<and> panel (f k) = panel k)
        \<and> app_slice h q i st = retire i why (upd_kern f ((upd_app i (\<lambda>a. a\<lparr>avm := vm\<rparr>) st)\<lparr>hk := k\<rparr>)))"
    then show ?thesis
    proof (elim disjE exE conjE)
      fix f why assume f: "why \<noteq> APP_RUNNING" "\<forall>k. kmem (f k) = kmem k \<and> kipc (f k) = kipc k \<and> kdev (f k) = kdev k \<and> panel (f k) = panel k"
        and e: "app_slice h q i st = retire i why (upd_kern f ((upd_app i (\<lambda>a. a\<lparr>avm := vm\<rparr>) st)\<lparr>hk := k\<rparr>))"
      have "host_ok (upd_kern f ((upd_app i (\<lambda>a. a\<lparr>avm := vm\<rparr>) st)\<lparr>hk := k\<rparr>))" using f(2) by (intro upd_kern_ok ok(1)) simp
      then show ?thesis unfolding e using ok(2) True f(1) assms(2) by (intro retire_ok) simp_all
    qed (simp add: ok)
  qed
qed (simp add: app_slice_def assms)

lemma app_tick_ok: "host_ok st \<Longrightarrow> host_ok (app_tick h q st)"
  by (simp add: app_tick_def upt_rec numeral_eq_Suc app_slice_ok)

subsection \<open>Starting an application\<close>

lemma start_slot_Some: "start_slot as k = Some i \<Longrightarrow> k \<le> i \<and> i < k + length as \<and> astate (as ! (i - k)) \<noteq> APP_RUNNING"
  by (induction as k rule: start_slot.induct) (auto simp: nth_Cons' split: if_splits)

lemma arena_view_simps [simp]:
  "arena_ok (arena_view st) = arena_ok (harena st)" "arena_bounds i (arena_view st) = arena_bounds i (harena st)"
  "live_slot (arena_view st) i = live_slot (harena st) i" "amem (arena_view st) = kmem (hk st)"
  "g_arenas (arena_view st) = g_arenas (harena st)"
  by (simp_all add: arena_view_def arena_ok_def arena_bounds_def live_slot_def)

lemma host_core_arena:
  assumes "host_core st" "arena_ok ha" "\<And>i. i < APP_SLOTS \<Longrightarrow> running st i \<Longrightarrow> arena_bounds (aarena (g_apps st ! i)) ha = arena_bounds (aarena (g_apps st ! i)) (harena st)"
  shows "host_core (st\<lparr>harena := ha\<rparr>)"
  using assms by (simp add: host_core_def owns_def)

lemma view_right_arena [simp]: "view_right (st\<lparr>harena := ha\<rparr>) i = view_right st i"
  by (simp add: view_right_def view_of_def)

text \<open>Filling slot \<open>i\<close>, which no application runs in, with an application whose arena is fresh.\<close>

lemma host_core_fill:
  assumes "host_core st" "i < APP_SLOTS" "\<not> running st i" "astate a = APP_RUNNING" "owns st i a" "vm_wf (avm a)"
    "\<And>j. j < APP_SLOTS \<Longrightarrow> running st j \<Longrightarrow> aarena (g_apps st ! j) \<noteq> aarena a"
  shows "host_core (upd_app i (\<lambda>_. a) st)"
proof -
  have l: "i < length (g_apps st)" "length (g_apps st) = APP_SLOTS" using assms(1,2) by (auto simp: host_core_def)
  note n = upd_app_nth [OF l(1)]
  have o: "owns (upd_app i (\<lambda>_. a) st) = owns st" by (rule owns_cong) simp
  have w: "\<forall>a \<in> set (g_apps (upd_app i (\<lambda>_. a) st)). vm_wf (avm a)"
    using assms(1,6) set_update_subset_insert [of "g_apps st" i a] by (auto simp: host_core_def upd_app_def)
  have s: "\<forall>j < APP_SLOTS. running (upd_app i (\<lambda>_. a) st) j \<longrightarrow> owns st j (g_apps (upd_app i (\<lambda>_. a) st) ! j)"
    using assms by (auto simp: host_core_def n)
  have d: "\<forall>x < APP_SLOTS. \<forall>y < APP_SLOTS. x \<noteq> y \<longrightarrow> running (upd_app i (\<lambda>_. a) st) x \<longrightarrow> running (upd_app i (\<lambda>_. a) st) y \<longrightarrow>
          aarena (g_apps (upd_app i (\<lambda>_. a) st) ! x) \<noteq> aarena (g_apps (upd_app i (\<lambda>_. a) st) ! y)"
    using host_coreD(5) [OF assms(1)] assms(7) by (auto simp: n) metis
  have f: "g_focused st \<ge> 0 \<longrightarrow> g_focused st < int APP_SLOTS \<and> running (upd_app i (\<lambda>_. a) st) (nat (g_focused st))"
    using assms(1,4) by (auto simp: host_core_def n)
  show ?thesis unfolding host_core_def o using l w s d f assms(1) by (simp add: host_core_def)
qed

lemma vm_init_ok:
  "vm_init (Some (base, sz)) ar vm = (rc, vm') \<Longrightarrow>
   rc = 0 \<and> vbase vm' = base \<and> vsize vm' = sz \<and> (vm_wf vm \<longrightarrow> vm_wf vm') \<and> vfault vm' = VM_FAULT_NONE"
  by (auto simp: vm_init_def vm_wf_def)

lemma set_app_id_simps [simp]:
  "vbase (vm_set_app_id i vm) = vbase vm" "vsize (vm_set_app_id i vm) = vsize vm" "app_id (vm_set_app_id i vm) = i"
  "vm_wf (vm_set_app_id i vm) = vm_wf vm"
  by (simp_all add: vm_set_app_id_def vm_wf_def)

text \<open>The state after a successful start in slot \<open>i\<close>, up to the viewport.\<close>

definition filled :: "nat \<Rightarrow> app_t \<Rightarrow> arenas \<Rightarrow> memory \<Rightarrow> host \<Rightarrow> host" where
  "filled i a ha m st = upd_app i (\<lambda>_. a) (st\<lparr>harena := ha, hk := (hk st)\<lparr>kmem := m, kipc := ipc_clear (int i) (kipc (hk st))\<rparr>\<rparr>)"

lemma filled_ok:
  assumes "host_ok st" "i < APP_SLOTS" "\<not> running st i" "arena_ok ha" "slot_created ar n (arena_view st) ha"
    "arena_bounds ar ha = Some (vbase (avm a), n)" "vsize (avm a) = n" "astate a = APP_RUNNING" "aarena a = ar" "apbase a = vbase (avm a)"
    "app_id (avm a) = int i" "vm_wf (avm a)"
  shows "host_ok (apply_view i (filled i a ha m st))"
proof -
  have c: "host_core st" using assms(1) by (simp add: host_ok_def)
  have ar: "0 \<le> ar" using assms(6) by (auto simp: arena_bounds_def split: if_splits)
  have nl: "\<not> live_slot (harena st) ar" and b: "\<And>j. j \<noteq> ar \<Longrightarrow> arena_bounds j ha = arena_bounds j (harena st)"
    using assms(5) by (auto simp: slot_created_def)
  have ne: "aarena (g_apps st ! j) \<noteq> ar" if "j < APP_SLOTS" "running st j" for j
    using host_coreD(4) [OF c that] nl bounds_live by (auto simp: owns_def)
  let ?s = "st\<lparr>harena := ha, hk := (hk st)\<lparr>kmem := m, kipc := ipc_clear (int i) (kipc (hk st))\<rparr>\<rparr>"
  have "host_core (st\<lparr>harena := ha\<rparr>)" using ne b by (intro host_core_arena c assms(4)) auto
  moreover have "ipc_ok (ipc_clear (int i) (kipc (hk st)))" using ipc_clear_mail c by (simp add: host_core_def)
  ultimately have cs: "host_core ?s" using host_core_kern [of "st\<lparr>harena := ha\<rparr>" "(hk st)\<lparr>kmem := m, kipc := ipc_clear (int i) (kipc (hk st))\<rparr>"]
    by simp
  have "owns ?s i a" using assms(6-11) ar by (simp add: owns_def)
  then have f: "host_core (filled i a ha m st)" unfolding filled_def
    using assms(2,3,8,9,12) ne by (intro host_core_fill cs) auto
  have l: "i < length (g_apps st)" using host_coreD(1) [OF c assms(2)] .
  have v: "view_right (filled i a ha m st) j" if "j < APP_SLOTS" "j \<noteq> i" for j
    using assms(1) that by (auto simp: host_ok_def view_right_def filled_def upd_app_nth l view_of_def)
  have l': "i < length (g_apps (filled i a ha m st))" using l by (simp add: filled_def)
  show ?thesis using v apply_view_core [OF f assms(2)] by (simp add: host_ok_def apply_view_right [OF l'])
qed

text \<open>The memory of a started program: its image, then zeroes.\<close>

definition loaded :: "u32 \<Rightarrow> u32 \<Rightarrow> u8 list \<Rightarrow> memory \<Rightarrow> memory \<Rightarrow> bool" where
  "loaded base n img m m' \<longleftrightarrow> (\<forall>x. m' x = (if unat (x - base) < length img then img ! unat (x - base)
     else if unat (x - base) < unat n then 0 else m x))"

text \<open>A machine about to execute the first instruction of application \<open>i\<close>, its stack at the top of \<open>n\<close> bytes.\<close>

definition fresh_vm :: "nat \<Rightarrow> u32 \<Rightarrow> vm_t \<Rightarrow> bool" where
  "fresh_vm i n vm \<longleftrightarrow> reg vm = (replicate VM_REGS 0)[15 := n AND NOT 3] \<and> pc vm = 0 \<and> call_sp vm = 0 \<and> vsize vm = n \<and> app_id vm = int i
     \<and> vfault vm = VM_FAULT_NONE \<and> executed vm = 0 \<and> exit_status vm = 0 \<and> \<not> yield_now vm"

text \<open>Apart from memory and grants, the only things that differ are slot \<open>i\<close>, its mailbox and the arena it holds now.\<close>

definition only_slot :: "nat \<Rightarrow> host \<Rightarrow> host \<Rightarrow> bool" where
  "only_slot i st st' \<longleftrightarrow> (\<forall>j < APP_SLOTS. j \<noteq> i \<longrightarrow> g_apps st' ! j = g_apps st ! j)
     \<and> g_focused st' = g_focused st \<and> g_views_suspended st' = g_views_suspended st
     \<and> (\<forall>j. j \<noteq> aarena (g_apps st' ! i) \<longrightarrow> arena_bounds j (harena st') = arena_bounds j (harena st))
     \<and> mail_of (kipc (hk st')) = (mail_of (kipc (hk st)))(int i := None)
     \<and> hk st' = (hk st)\<lparr>kmem := kmem (hk st'), kdev := kdev (hk st'), kipc := (kipc (hk st))\<lparr>g_box := g_box (kipc (hk st'))\<rparr>\<rparr>"

text \<open>Slot \<open>i\<close>, the first that is free, runs the program; its arena is a new one.\<close>

definition started :: "nat \<Rightarrow> cstring option \<Rightarrow> u8 list \<Rightarrow> u32 \<Rightarrow> u32 \<Rightarrow> host \<Rightarrow> host \<Rightarrow> bool" where
  "started i name img n pub st st' \<longleftrightarrow> i < APP_SLOTS \<and> \<not> running st i \<and> (\<forall>j < i. running st j) \<and> running st' i
     \<and> aname (g_apps st' ! i) = name \<and> abytes (g_apps st' ! i) = n \<and> publish_off (g_apps st' ! i) = pub
     \<and> fresh_vm i n (avm (g_apps st' ! i)) \<and> apbase (g_apps st' ! i) = vbase (avm (g_apps st' ! i))
     \<and> arena_bounds (aarena (g_apps st' ! i)) (harena st') = Some (vbase (avm (g_apps st' ! i)), n)
     \<and> \<not> live_slot (harena st) (aarena (g_apps st' ! i))
     \<and> loaded (vbase (avm (g_apps st' ! i))) n img (kmem (hk st)) (kmem (hk st')) \<and> only_slot i st st'"

lemma start_slot_first: "start_slot as k = Some i \<Longrightarrow> j < i - k \<Longrightarrow> astate (as ! j) = APP_RUNNING"
  by (induction as k arbitrary: j rule: start_slot.induct) (auto simp: nth_Cons' split: if_splits)

lemma start_slot_None: "start_slot as k = None \<longleftrightarrow> (\<forall>a \<in> set as. astate a = APP_RUNNING)"
  by (induction as k rule: start_slot.induct) auto

lemma created_loaded:
  assumes "arena_ok ha" "slot_created ar n (arena_view st) ha" "arena_bounds ar ha = Some (base, n)" "length img \<le> unat n"
  shows "loaded base n img (kmem (hk st)) (store_bytes (amem ha) base img)"
proof -
  have l: "length img \<le> 4294967296" using assms(4) unat_le_u32 [of n] by linarith
  have lv: "live_slot ha ar" using assms(3) by (rule bounds_live)
  then have b: "abase (g_arenas ha ! nat ar) = base" "alen (g_arenas ha ! nat ar) = n"
    using assms(3) by (auto simp: arena_bounds_def split: if_splits)
  have "amem ha x = (if unat (x - base) < unat n then 0 else kmem (hk st) x)" for x
    using assms(2) contains_byte [OF assms(1) lv, of x] unfolding b by (simp add: slot_created_def)
  then show ?thesis by (simp add: loaded_def store_bytes_apply [OF l])
qed

lemma app_start_outcome:
  assumes "host_ok st" "length img = unat len"
  shows "\<exists>r st'. app_start name img len n pub st = Some (r, st') \<and> host_ok st'
    \<and> (r < 0 \<longleftrightarrow> n < len \<or> (\<forall>j < APP_SLOTS. running st j) \<or> (\<exists>ar ha. arena_create n (arena_view st) = Some (ar, ha) \<and> ar < 0))
    \<and> (if r < 0 then g_apps st' = g_apps st \<and> hk st' = hk st \<and> g_focused st' = g_focused st \<and> g_views_suspended st' = g_views_suspended st
         \<and> (\<forall>j. arena_bounds j (harena st') = arena_bounds j (harena st))
       else started (nat r) name img n pub st st' \<and> kdev (hk st') = kdev (hk st))"
proof -
  have c: "host_core st" and ok: "arena_ok (arena_view st)" using assms(1) by (auto simp: host_ok_def host_core_def)
  obtain ar ha where cr: "arena_create n (arena_view st) = Some (ar, ha)" and oka: "arena_ok ha"
    and out: "if ar < 0 then g_arenas ha = g_arenas (arena_view st) \<and> amem ha = amem (arena_view st)
      else slot_created ar n (arena_view st) ha"
    using arena_create_outcome [OF ok, of n] by blast
  show ?thesis
  proof (cases "len > n \<or> start_slot (g_apps st) 0 = None")
    case True
    have "length (g_apps st) = APP_SLOTS" using c by (simp add: host_core_def)
    then have "n < len \<or> (\<forall>j < APP_SLOTS. running st j)" using True by (auto simp: start_slot_None)
    moreover have "app_start name img len n pub st = Some (-1, st)"
      using True by (cases "start_slot (g_apps st) 0") (auto simp: app_start_def)
    ultimately show ?thesis using assms(1) by auto
  next
    case False
    then obtain i where i: "start_slot (g_apps st) 0 = Some i" and len: "\<not> len > n" by auto
    have il: "i < APP_SLOTS" "i < length (g_apps st)" "\<not> running st i" using start_slot_Some [OF i] c by (auto simp: host_core_def)
    show ?thesis
    proof (cases "ar < 0")
      case True
      then have g: "g_arenas ha = g_arenas (harena st)" "amem ha = kmem (hk st)" using out by simp_all
      have "host_core (st\<lparr>harena := ha\<rparr>)" by (intro host_core_arena c oka) (simp add: arena_bounds_def g)
      then have "host_ok (st\<lparr>harena := ha, hk := (hk st)\<lparr>kmem := amem ha\<rparr>\<rparr>)"
        using assms(1) by (auto simp: host_ok_def host_core_def owns_def view_right_def view_of_def)
      moreover have "app_start name img len n pub st = Some (-1, st\<lparr>harena := ha, hk := (hk st)\<lparr>kmem := amem ha\<rparr>\<rparr>)"
        using True False i cr by (simp add: app_start_def)
      ultimately show ?thesis using True cr g by (auto simp: arena_bounds_def)
    next
      case pos: False
      then have sc: "slot_created ar n (arena_view st) ha" using out by simp
      then obtain base where b: "arena_bounds ar ha = Some (base, n)" by (auto simp: slot_created_def)
      obtain rc vm where vi: "vm_init (Some (base, n)) ar (avm (g_apps st ! i)) = (rc, vm)" by (rule prod.exhaust)
      note V = vm_init_ok [OF vi]
      define a where "a = (g_apps st ! i)\<lparr>astate := APP_RUNNING, aname := name, aarena := ar, apbase := base, abytes := n,
          publish_off := pub, avm := vm_set_app_id (int i) vm\<rparr>"
      let ?m = "store_bytes (amem ha) base img" and ?s = "apply_view i (filled i a ha (store_bytes (amem ha) base img) st)"
      have tk: "take (unat len) img = img" using assms(2) by simp
      have e: "app_start name img len n pub st = Some (int i, ?s)"
        using len i cr pos b vi V tk
        by (simp add: app_start_def a_def filled_def upd_app_def upd_kern_def Let_def)
      have h: "host_ok ?s"
        using V host_coreD(2) [OF c il(1)] b by (intro filled_ok [OF assms(1) il(1,3) oka sc]) (simp_all add: a_def)
      have l': "i < length (g_apps (filled i a ha ?m st))" using il by (simp add: filled_def)
      have run: "running (filled i a ha ?m st) i" using il by (simp add: filled_def upd_app_nth a_def)
      have gi: "g_apps ?s ! j = (if j = i then a\<lparr>avm := (case view_of (filled i a ha ?m st) i of (x, y, w, h) \<Rightarrow> vm_set_viewport x y w h (avm a))\<rparr>
          else g_apps st ! j)" for j
        using run l' il by (simp add: apply_view_eq upd_app_nth) (simp add: filled_def upd_app_nth)
      have ld: "loaded base n img (kmem (hk st)) ?m"
        using assms(2) len by (intro created_loaded [OF oka sc b]) (simp add: word_less_nat_alt)
      have ml: "mail_of (ipc_clear (int i) (kipc (hk st))) = (mail_of (kipc (hk st)))(int i := None)"
        using ipc_clear_mail [of "kipc (hk st)" "int i"] c by (simp add: host_core_def)
      have fv: "fresh_vm i n (avm (g_apps ?s ! i))"
        unfolding gi using vi by (auto simp: a_def fresh_vm_def vm_init_def vm_set_viewport_def vm_set_app_id_def split: prod.split)
      have ai: "running ?s i" "aname (g_apps ?s ! i) = name" "abytes (g_apps ?s ! i) = n" "publish_off (g_apps ?s ! i) = pub"
        "aarena (g_apps ?s ! i) = ar" "vbase (avm (g_apps ?s ! i)) = base" "apbase (g_apps ?s ! i) = base"
        unfolding gi using V by (simp_all add: a_def vm_set_viewport_def vm_set_app_id_def split: prod.split)
      have hs: "hk ?s = (hk st)\<lparr>kmem := ?m, kipc := ipc_clear (int i) (kipc (hk st))\<rparr>" "harena ?s = ha" "g_focused ?s = g_focused st"
        "g_views_suspended ?s = g_views_suspended st" by (simp_all add: filled_def)
      have hm: "kmem (hk (filled i a ha ?m st)) = ?m" "kdev (hk (filled i a ha ?m st)) = kdev (hk st)" by (simp_all add: filled_def)
      have "ipc_clear (int i) k = k\<lparr>g_box := g_box (ipc_clear (int i) k)\<rparr>" for k by (simp add: ipc_clear_def upd_box_def)
      then have "only_slot i st ?s" unfolding only_slot_def ai hs using ml sc by (simp add: gi slot_created_def)
      moreover have "\<forall>j < i. running st j" using start_slot_first [OF i] by simp
      moreover have "\<not> live_slot (harena st) ar" using sc by (simp add: slot_created_def)
      ultimately have "started i name img n pub st ?s" unfolding started_def ai hs(2) using il ld b fv ai(1) by (simp add: hm)
      moreover have "\<exists>j < APP_SLOTS. \<not> running st j" using il by blast
      ultimately show ?thesis using e h len cr pos by (auto simp: hm)
    qed
  qed
qed

subsection \<open>The host as a state machine\<close>

definition host_boot :: "host \<Rightarrow> bool" where
  "host_boot st \<longleftrightarrow> arena_boot (harena st) \<and> g_focused st = -1 \<and> \<not> g_views_suspended st \<and> ipc_ok (kipc (hk st))
     \<and> length (g_apps st) = APP_SLOTS \<and> (\<forall>a \<in> set (g_apps st). astate a = APP_FREE \<and> vm_wf (avm a))"

text \<open>\<open>host_kernel\<close> is anything the rest of the kernel does to the state of the services (time, keys, grants, memory);
  \<open>host_arena\<close> is any use of the heap and of other arenas by others that leaves the arenas of the running
  applications in place.\<close>

inductive host_step :: "host \<Rightarrow> host \<Rightarrow> bool" where
  host_start: "app_start name img len n pub st = Some (r, st') \<Longrightarrow> length img = unat len \<Longrightarrow> host_step st st'"
| host_kill: "host_step st (app_kill i st)"
| host_tick: "host_step st (app_tick h q st)"
| host_slice: "i < APP_SLOTS \<Longrightarrow> host_step st (app_slice h q i st)"
| host_focus: "host_step st (app_view_focus i0 st)"
| host_suspend: "host_step st (app_views_suspend on st)"
| host_kernel: "ipc_ok (kipc k) \<Longrightarrow> host_step st (st\<lparr>hk := k\<rparr>)"
| host_arena: "arena_step (harena st) ha \<Longrightarrow>
    (\<And>i. i < APP_SLOTS \<Longrightarrow> running st i \<Longrightarrow> arena_bounds (aarena (g_apps st ! i)) ha = arena_bounds (aarena (g_apps st ! i)) (harena st)) \<Longrightarrow>
    host_step st (st\<lparr>harena := ha\<rparr>)"

lemma host_step_ok: "host_step st st' \<Longrightarrow> host_ok st \<Longrightarrow> host_ok st'"
proof (induction rule: host_step.induct)
  case (host_start name img len n pub st r st')
  then show ?case using app_start_outcome [of st img len name n pub] by auto
next
  case (host_kernel k st)
  then show ?case by (simp add: host_ok_def host_core_kern)
next
  case (host_arena st ha)
  then have "arena_ok (harena st)" by (simp add: host_ok_def host_core_def)
  with host_arena have "host_core (st\<lparr>harena := ha\<rparr>)"
    by (intro host_core_arena) (auto simp: host_ok_def intro: arena_step_ok)
  with host_arena show ?case by (simp add: host_ok_def)
qed (simp_all add: app_kill_ok app_tick_ok app_slice_ok app_view_focus_ok app_views_suspend_ok)

interpretation host_sys: invariant_system host_boot host_step host_ok
proof
  fix st assume b: "host_boot st"
  then have "arena_ok (harena st)" by (intro arena_sys.start_inv) (simp add: host_boot_def)
  moreover have "\<not> running st i" if "i < APP_SLOTS" for i using b that by (auto simp: host_boot_def)
  ultimately show "host_ok st" using b by (simp add: host_ok_def host_core_def host_boot_def view_right_def)
qed (rule host_step_ok)

subsection \<open>Properties\<close>

definition host_example :: host where
  "host_example = \<lparr>g_apps = replicate 4 \<lparr>astate = APP_FREE, aname = None, aarena = 0, apbase = 0, abytes = 0, publish_off = 0,
     avm = vm_example\<rparr>, g_views_suspended = False, g_focused = -1, harena = arena_example, hk = kern_example\<rparr>"

lemma host_example_reaches: "reaches host_boot host_step host_example"
  using arena_example_reaches ipc_example_ok
  by (intro reaches_start) (auto simp: host_boot_def host_example_def kern_example_def vm_example_def vm_wf_def arena_boot_def
      arena_example_def heap_example_boot)

lemma slice_outside:
  assumes "host_ok st" "i < APP_SLOTS" "running st i \<Longrightarrow> unat (vsize (avm (g_apps st ! i))) \<le> unat (x - vbase (avm (g_apps st ! i)))"
  shows "kmem (hk (app_slice h q i st)) x = kmem (hk st) x"
    "j \<noteq> i \<Longrightarrow> g_apps (app_slice h q i st) ! j = g_apps st ! j"
    "j \<noteq> i \<Longrightarrow> j < APP_SLOTS \<Longrightarrow> g_perms (kdev (hk (app_slice h q i st))) ! j = g_perms (kdev (hk st)) ! j"
proof -
  have "kmem (hk (app_slice h q i st)) x = kmem (hk st) x \<and> (j \<noteq> i \<longrightarrow> g_apps (app_slice h q i st) ! j = g_apps st ! j
    \<and> (j < APP_SLOTS \<longrightarrow> g_perms (kdev (hk (app_slice h q i st))) ! j = g_perms (kdev (hk st)) ! j))"
  proof (cases "running st i")
    case True
    have c: "host_core st" using assms(1) by (simp add: host_ok_def)
    have l: "i < length (g_apps st)" using host_coreD(1) [OF c assms(2)] .
    from True show ?thesis
    proof (rule app_slice_cases [where h = h and q = q])
      fix vm k
      assume cf: "confined (avm (g_apps st ! i)) (kern_view st) (vm, k)"
      let ?s = "(upd_app i (\<lambda>a. a\<lparr>avm := vm\<rparr>) st)\<lparr>hk := k\<rparr>"
      have m: "kmem k x = kmem (hk st) x" "g_perms (kdev k) = g_perms (kdev (hk st))"
        using cf assms(3) [OF True] by (auto simp: confined_simp kconf_def kern_view_def)
      have own: "owns ?s i (g_apps ?s ! i)"
        using run_ok [OF assms(1,2) True cf] host_coreD(4) [of ?s i] assms(2) True by (simp add: host_ok_def)
      have ij: "unat (of_nat i :: u32) = i" using assms(2) by (simp add: unat_of_nat)
      assume "app_slice h q i st = ?s \<or>
       (\<exists>f why. why \<noteq> APP_RUNNING \<and> (\<forall>k. kmem (f k) = kmem k \<and> kipc (f k) = kipc k \<and> kdev (f k) = kdev k \<and> panel (f k) = panel k)
          \<and> app_slice h q i st = retire i why (upd_kern f ?s))"
      then show ?thesis
      proof (elim disjE exE conjE)
        fix f why assume f: "\<forall>k. kmem (f k) = kmem k \<and> kipc (f k) = kipc k \<and> kdev (f k) = kdev k \<and> panel (f k) = panel k"
          and e: "app_slice h q i st = retire i why (upd_kern f ?s)"
        have "owns (upd_kern f ?s) i (g_apps (upd_kern f ?s) ! i)" using own by (simp add: owns_def)
        note F = retire_fields [OF this, of why]
        show ?thesis unfolding e using m f l ij by (simp add: F upd_app_nth device_grant_def)
      qed (use m l in \<open>simp add: upd_app_nth\<close>)
    qed
  qed (simp add: app_slice_def)
  then show "kmem (hk (app_slice h q i st)) x = kmem (hk st) x" "j \<noteq> i \<Longrightarrow> g_apps (app_slice h q i st) ! j = g_apps st ! j"
    "j \<noteq> i \<Longrightarrow> j < APP_SLOTS \<Longrightarrow> g_perms (kdev (hk (app_slice h q i st))) ! j = g_perms (kdev (hk st)) ! j" by auto
qed

text \<open>Two one-instruction programs, started one after the other.\<close>

definition two_apps :: "(int \<times> int \<times> host) option" where
  "two_apps = Option.bind (app_start None [0x34, 0, 0, 0] 4 32 0 host_example)
     (\<lambda>(i, s). map_option (\<lambda>(j, s'). (i, j, s')) (app_start None [0x34, 0, 0, 0] 4 32 0 s))"

lemma two_apps_reaches:
  "\<exists>i j st. two_apps = Some (i, j, st) \<and> reaches host_boot host_step st \<and> running st 0 \<and> running st 1"
proof -
  have e: "map_option (\<lambda>(i, j, s). (i, j, running s 0, running s 1)) two_apps = Some (0, 1, True, True)" by code_simp
  then obtain s1 st where s1: "app_start None [0x34, 0, 0, 0] 4 32 0 host_example = Some (0, s1)"
    and st: "app_start None [0x34, 0, 0, 0] 4 32 0 s1 = Some (1, st)" and r: "running st 0" "running st 1"
    by (auto simp: two_apps_def bind_eq_Some_conv)
  have "host_step host_example s1" "host_step s1 st" using s1 st by (auto intro!: host_start)
  then have "reaches host_boot host_step st"
    using host_example_reaches by (blast intro: reaches_step [where step = host_step])
  with r s1 st show ?thesis by (auto simp: two_apps_def)
qed

text \<open>(C1) Isolation of applications: in every state the system can reach, while one application has its slice (events,
  services, faults and termination included) no byte of another running application's arena changes, nor does its
  slot of the table (machine, viewport, state), nor its device grant.\<close>

theorem app_isolation:
  assumes "reaches host_boot host_step st" "i < APP_SLOTS" "j < APP_SLOTS" "i \<noteq> j" "running st j"
    "arena_contains (aarena (g_apps st ! j)) x 1 (harena st)"
  shows "kmem (hk (app_slice h q i st)) x = kmem (hk st) x \<and> g_apps (app_slice h q i st) ! j = g_apps st ! j
    \<and> g_perms (kdev (hk (app_slice h q i st))) ! j = g_perms (kdev (hk st)) ! j"
proof -
  have ok: "host_ok st" using assms(1) by (rule host_sys.reaches_inv)
  then have c: "host_core st" by (simp add: host_ok_def)
  note D = host_coreD [OF c]
  have "unat (vsize (avm (g_apps st ! i))) \<le> unat (x - vbase (avm (g_apps st ! i)))" if "running st i"
  proof (rule ccontr)
    let ?a = "g_apps st ! i"
    assume "\<not> ?thesis"
    moreover have o: "arena_bounds (aarena ?a) (harena st) = Some (vbase (avm ?a), vsize (avm ?a))"
      using D(4) [OF assms(2) that] by (simp add: owns_def)
    ultimately have "arena_contains (aarena ?a) x 1 (harena st)"
      using contains_byte [OF D(3) [OF assms(2)] bounds_live [OF o], of x] o by (auto simp: arena_bounds_def split: if_splits)
    from arena_disjoint [OF D(3) [OF assms(2)] this assms(6)] D(5) [OF assms(2) that assms(3,5,4)] show False by simp
  qed
  note S = slice_outside [OF ok assms(2) this]
  from S(1) S(2,3) [OF _ assms(4) [symmetric]] assms(3) show ?thesis by blast
qed

theorem app_isolation_witness:
  "\<exists>st x. reaches host_boot host_step st \<and> running st 0 \<and> arena_contains (aarena (g_apps st ! 1)) x 1 (harena st)
     \<and> kmem (hk (app_slice hw_example 50 0 st)) x = kmem (hk st) x"
proof -
  obtain i j st where st: "two_apps = Some (i, j, st)" "reaches host_boot host_step st" "running st 0" "running st 1"
    using two_apps_reaches by blast
  have "map_option (\<lambda>(i, j, s). arena_contains (aarena (g_apps s ! 1)) (vbase (avm (g_apps s ! 1))) 1 (harena s)) two_apps = Some True"
    by code_simp
  then have x: "arena_contains (aarena (g_apps st ! 1)) (vbase (avm (g_apps st ! 1))) 1 (harena st)" unfolding st(1) by simp
  have "(0 :: nat) < APP_SLOTS" "(1 :: nat) < APP_SLOTS" "(0 :: nat) \<noteq> 1" by simp_all
  from app_isolation [OF st(2) this st(4) x, of hw_example 50] st x show ?thesis by blast
qed

text \<open> Stopping revokes everything: after a kill the slot is stopped and its arena is no longer live, its mail is gone,
  its device grant is empty, no other slot has changed, and the next tick does not run it.\<close>

theorem app_kill_revokes:
  assumes "reaches host_boot host_step st" "i < APP_SLOTS" "running st i" "length (g_perms (kdev (hk st))) = 5"
  shows "let st' = app_kill (int i) st in astate (g_apps st' ! i) = APP_KILLED
    \<and> arena_bounds (aarena (g_apps st ! i)) (harena st') = None \<and> mail_of (kipc (hk st')) (int i) = None
    \<and> g_perms (kdev (hk st')) ! i = DEV_PERM_NONE \<and> (\<forall>j < APP_SLOTS. j \<noteq> i \<longrightarrow> g_apps st' ! j = g_apps st ! j)
    \<and> app_slice h q i st' = st'"
proof -
  have ok: "host_ok st" using assms(1) by (rule host_sys.reaches_inv)
  then have c: "host_core st" by (simp add: host_ok_def)
  note D = host_coreD [OF c assms(2)]
  have own: "owns st i (g_apps st ! i)" using D(4) assms(3) by blast
  note F = retire_fields [OF own D(1), of APP_KILLED]
  have e: "app_kill (int i) st = retire i APP_KILLED st" using assms(2,3) by (simp add: app_kill_def)
  have live: "live_slot (harena st) (aarena (g_apps st ! i))" using own by (auto simp: owns_def intro: bounds_live)
  have ij: "unat (of_nat i :: u32) = i" using assms(2) by (simp add: unat_of_nat)
  have le: "(of_nat i :: u32) \<le> 4" using ij assms(2) by (simp add: word_le_nat_alt)
  have "mail_of (ipc_clear (int i) (kipc (hk st))) (int i) = None"
    using ipc_clear_mail [of "kipc (hk st)" "int i"] c by (simp add: host_core_def)
  moreover have "\<not> running (retire i APP_KILLED st) i" using D(1) by (simp add: F)
  ultimately show ?thesis unfolding e Let_def
    using D(1) assms(2,4) ij le arena_destroy_bounds [OF D(3) live]
    by (simp add: F device_grant_def app_slice_def)
qed

theorem app_kill_revokes_witness:
  "\<exists>st. running st 1 \<and> astate (g_apps (app_kill 1 st) ! 1) = APP_KILLED \<and> g_perms (kdev (hk (app_kill 1 st))) ! 1 = DEV_PERM_NONE"
proof -
  obtain i j st where st: "two_apps = Some (i, j, st)" "reaches host_boot host_step st" "running st 1"
    using two_apps_reaches by blast
  have "map_option (\<lambda>(i, j, s). length (g_perms (kdev (hk s)))) two_apps = Some 5" by code_simp
  then have l: "length (g_perms (kdev (hk st))) = 5" unfolding st(1) by simp
  have "(1 :: nat) < APP_SLOTS" by simp
  from app_kill_revokes [OF st(2) this st(3) l, of hw_example 0] st(3) show ?thesis by (auto simp: Let_def)
qed

definition pixel_in :: "vm_t \<Rightarrow> nat \<Rightarrow> nat \<Rightarrow> bool" where
  "pixel_in vm x y \<longleftrightarrow> unat (vx vm) \<le> x \<and> x < unat (vx vm) + unat (vw vm) \<and> unat (vy vm) \<le> y \<and> y < unat (vy vm) + unat (vh vm)"

lemma strip_y: "i < 4 \<Longrightarrow> unat (224 + of_nat i * 16 :: u32) = 224 + i * 16"
  by (simp add: unat_word_ariths unat_of_nat)

lemma view_pixel:
  assumes "host_ok st" "i < APP_SLOTS" "running st i" "pixel_in (avm (g_apps st ! i)) x y"
  shows "if g_focused st = int i then x < 240 \<and> 22 \<le> y \<and> y < 224 else x < 180 \<and> 224 + i * 16 \<le> y \<and> y < 238 + i * 16"
proof -
  have "viewport (avm (g_apps st ! i)) = view_of st i" using assms(1-3) by (simp add: host_ok_def view_right_def)
  with assms(2,4) strip_y [OF assms(2)] show ?thesis
    by (auto simp: viewport_def view_of_def pixel_in_def split: if_splits)
qed

text \<open>(C12) The panel is partitioned: in every reachable state no pixel belongs to the viewports of two running applications, and
  no viewport contains a pixel of the kernel's top rows or of the column of names and close buttons beside
  the strips, so no program can paint over the control that stops it.\<close>

theorem app_views_disjoint:
  assumes "reaches host_boot host_step st" "i < APP_SLOTS" "running st i" "pixel_in (avm (g_apps st ! i)) x y"
  shows "22 \<le> y \<and> (224 \<le> y \<longrightarrow> x < 180) \<and> y < 286
    \<and> (\<forall>j < APP_SLOTS. running st j \<longrightarrow> pixel_in (avm (g_apps st ! j)) x y \<longrightarrow> j = i)"
proof -
  have ok: "host_ok st" using assms(1) by (rule host_sys.reaches_inv)
  note P = view_pixel [OF ok assms(2-4)]
  have "j = i" if j: "j < APP_SLOTS" "running st j" "pixel_in (avm (g_apps st ! j)) x y" for j
  proof (cases "g_focused st = int i \<or> g_focused st = int j")
    case True
    then show ?thesis using P view_pixel [OF ok j] by (auto split: if_splits)
  next
    case False
    with P view_pixel [OF ok j] have "i * 16 < j * 16 + 14" "j * 16 < i * 16 + 14" by auto
    then show ?thesis by linarith
  qed
  moreover have "22 \<le> y \<and> (224 \<le> y \<longrightarrow> x < 180) \<and> y < 286" using P assms(2) by (auto split: if_splits)
  ultimately show ?thesis by blast
qed

theorem app_views_disjoint_witness:
  "\<exists>st. reaches host_boot host_step st \<and> running st 0 \<and> running st 1 \<and> pixel_in (avm (g_apps st ! 1)) 10 245
     \<and> \<not> pixel_in (avm (g_apps st ! 0)) 10 245"
proof -
  obtain i j st where st: "two_apps = Some (i, j, st)" "reaches host_boot host_step st" "running st 0" "running st 1"
    using two_apps_reaches by blast
  have "map_option (\<lambda>(i, j, s). pixel_in (avm (g_apps s ! 1)) 10 245) two_apps = Some True" by code_simp
  then have p: "pixel_in (avm (g_apps st ! 1)) 10 245" unfolding st(1) by simp
  from app_views_disjoint [OF st(2) _ st(4) p] st p show ?thesis by fastforce
qed



text \<open>The image identity is the FNV-1a hash of one byte string, the image followed by the names, each with its terminator.
  The boundary between the two is not part of it: bytes moved from the end of the image to the manifest as a name
  leave the identity unchanged.\<close>

theorem app_image_id_stream:
  "app_image_id img perms = foldl fnv_byte 2166136261 (img @ concat (map (\<lambda>p. case p of None \<Rightarrow> [] | Some s \<Rightarrow> s @ [0]) perms))
    \<and> app_image_id (img @ name @ [0]) perms = app_image_id img (Some name # perms)"
proof -
  have "foldl fnv_perm h ps = foldl fnv_byte h (concat (map (\<lambda>p. case p of None \<Rightarrow> [] | Some s \<Rightarrow> s @ [0]) ps))" for h ps
    by (induction ps arbitrary: h) (auto simp: fnv_perm_def fnv_byte_def split: option.split)
  then show ?thesis by (simp add: app_image_id_def fnv_perm_def fnv_byte_def)
qed

end
