(* ===== verification/KFat.thy ===== *)
theory KFat
  imports Prelude
begin

text \<open>
  The read-only FAT16/FAT32 file system, \<^verbatim>\<open>kernel/fat.c\<close>: mounting, cluster chains, directories with long names,
  paths, seeking and reading. The SD driver is the parameter \<open>card\<close>: whether it initialises, what a
  single-block and what a multi-block read return (\<open>None\<close> for an error). Directory walks and the read loop
  are partial functions: \<open>None\<close> is a loop that never ends. The mutex around the public entry points is the
  component of \<^verbatim>\<open>mutex.c\<close>. The contract of a file is the byte function \<open>file_byte\<close> of its cluster chain.
\<close>

subsection \<open>Data\<close>

abbreviation (input) FAT_NAME_MAX :: u32 where "FAT_NAME_MAX \<equiv> 64"
abbreviation (input) FAT_ATTR_DIR :: u8 where "FAT_ATTR_DIR \<equiv> 0x10"
abbreviation (input) NO_LBA :: u32 where "NO_LBA \<equiv> 0xFFFFFFFF"

datatype fat_err_t = FAT_OK | FAT_ERR_SD | FAT_ERR_NOFS | FAT_ERR_TYPE | FAT_ERR_NOENT | FAT_ERR_NOTDIR | FAT_ERR_ISDIR
  | FAT_ERR_CHAIN | FAT_ERR_MOUNT

record card =
  sd_init_ok :: bool
  sd_read_block :: "u32 \<Rightarrow> u8 list option"
  sd_read_blocks :: "u32 \<Rightarrow> u32 \<Rightarrow> u8 list option"

record fat =
  g_mounted :: bool
  g_fat32 :: bool
  g_part_lba :: u32
  g_spc :: u32
  g_fat_lba :: u32
  g_fat_sectors :: u32
  g_root_lba :: u32
  g_root_sectors :: u32
  g_root_cluster :: u32
  g_data_lba :: u32
  g_clusters :: u32
  g_sec :: "u8 list"
  g_sec_lba :: u32
  g_fatsec :: "u8 list"
  g_fatsec_lba :: u32
  g_blocks_read :: u32
  g_read_hops :: u32

record fat_dirent_t =
  ename :: cstring
  esize :: u32
  ecluster :: u32
  eattr :: u8
  etruncated :: bool

record fat_dir_t =
  dcluster :: u32
  dsector :: u32
  dentry :: u32
  ddone :: bool
  dlfn :: "u8 list"
  lfn_sum :: u8
  lfn_valid :: u8

record fat_file_t =
  ffirst :: u32
  fsize :: u32
  fpos :: u32
  fcluster :: u32

subsection \<open>Blocks\<close>

definition le16 :: "u8 list \<Rightarrow> nat \<Rightarrow> u32" where
  "le16 b o' = ucast (b ! o') OR push_bit 8 (ucast (b ! (o' + 1)))"

definition le32 :: "u8 list \<Rightarrow> nat \<Rightarrow> u32" where
  "le32 b o' = ucast (b ! o') OR push_bit 8 (ucast (b ! (o' + 1))) OR push_bit 16 (ucast (b ! (o' + 2)))
     OR push_bit 24 (ucast (b ! (o' + 3)))"

definition read_block :: "card \<Rightarrow> u32 \<Rightarrow> fat \<Rightarrow> u8 list option \<times> fat" where
  "read_block c lba st = (sd_read_block c lba, st\<lparr>g_blocks_read := g_blocks_read st + 1\<rparr>)"

definition load_sec :: "card \<Rightarrow> u32 \<Rightarrow> fat \<Rightarrow> fat_err_t \<times> fat" where
  "load_sec c lba st =
     (if g_sec_lba st = lba then (FAT_OK, st)
      else case read_block c lba (st\<lparr>g_sec_lba := NO_LBA\<rparr>) of
          (None, st1) \<Rightarrow> (FAT_ERR_SD, st1)
        | (Some b, st1) \<Rightarrow> (FAT_OK, st1\<lparr>g_sec := b, g_sec_lba := lba\<rparr>))"

definition fat_strerror :: "fat_err_t \<Rightarrow> string" where
  "fat_strerror rc = (case rc of
     FAT_OK \<Rightarrow> ''ok'' | FAT_ERR_SD \<Rightarrow> ''SD read failed'' | FAT_ERR_NOFS \<Rightarrow> ''no FAT boot sector''
   | FAT_ERR_TYPE \<Rightarrow> ''FAT12/exFAT/odd geometry - refused'' | FAT_ERR_NOENT \<Rightarrow> ''not found''
   | FAT_ERR_NOTDIR \<Rightarrow> ''not a directory'' | FAT_ERR_ISDIR \<Rightarrow> ''is a directory''
   | FAT_ERR_CHAIN \<Rightarrow> ''cluster chain broken'' | FAT_ERR_MOUNT \<Rightarrow> ''not mounted'')"

subsection \<open>Mounting\<close>

definition looks_like_bpb :: "u8 list \<Rightarrow> bool" where
  "looks_like_bpb b \<longleftrightarrow>
     (let bps = le16 b 11; spc = (ucast (b ! 13) :: u32) in
      (b ! 0 = 0xEB \<or> b ! 0 = 0xE9) \<and> bps = 512 \<and> spc \<noteq> 0 \<and> spc AND (spc - 1) = 0 \<and> le16 b 14 \<noteq> 0 \<and> b ! 16 \<noteq> 0)"

text \<open>The partition scan: the start of the first entry of a FAT type.\<close>

fun find_partition :: "u8 list \<Rightarrow> nat list \<Rightarrow> u32 option" where
  "find_partition b [] = None"
| "find_partition b (i # is) =
     (let pe = 446 + 16 * i; t = b ! (pe + 4) in
      if t = 0x04 \<or> t = 0x06 \<or> t = 0x0E \<or> t = 0x0B \<or> t = 0x0C then Some (le32 b (pe + 8)) else find_partition b is)"

definition mount_geometry :: "fat \<Rightarrow> fat_err_t \<times> fat" where
  "mount_geometry st =
     (let b = g_sec st;
          reserved = le16 b 14; nfats = ucast (b ! 16); root_ents = le16 b 17;
          total = (if le16 b 19 \<noteq> 0 then le16 b 19 else le32 b 32);
          fatsz = (if le16 b 22 \<noteq> 0 then le16 b 22 else le32 b 36);
          fat_lba = g_part_lba st + reserved;
          root_lba = fat_lba + nfats * fatsz;
          root_sectors = (root_ents * 32 + 511) div 512;
          spc = ucast (b ! 13);
          data_sectors = total - (reserved + nfats * fatsz + root_sectors);
          clusters = data_sectors div spc;
          st1 = st\<lparr>g_spc := spc, g_fat_sectors := fatsz, g_fat_lba := fat_lba, g_root_lba := root_lba,
                   g_root_sectors := root_sectors, g_data_lba := root_lba + root_sectors, g_clusters := clusters\<rparr>
      in
      if clusters < 4085 then (FAT_ERR_TYPE, st1)
      else
        let st2 = st1\<lparr>g_fat32 := (clusters \<ge> 65525)\<rparr> in
        if g_fat32 st2 then
          if root_sectors \<noteq> 0 then (FAT_ERR_TYPE, st2)
          else (FAT_OK, st2\<lparr>g_root_cluster := le32 b 44, g_mounted := True\<rparr>)
        else
          if root_sectors = 0 then (FAT_ERR_TYPE, st2)
          else (FAT_OK, st2\<lparr>g_root_cluster := 0, g_mounted := True\<rparr>))"

definition mount_impl :: "card \<Rightarrow> fat \<Rightarrow> fat_err_t \<times> fat" where
  "mount_impl c st0 =
     (let st = st0\<lparr>g_mounted := False, g_fatsec_lba := NO_LBA, g_sec_lba := NO_LBA\<rparr> in
      if \<not> sd_init_ok c then (FAT_ERR_SD, st)
      else case read_block c 0 st of
          (None, st1) \<Rightarrow> (FAT_ERR_SD, st1)
        | (Some b, st1) \<Rightarrow>
            let st2 = st1\<lparr>g_sec := b\<rparr> in
            if b ! 510 \<noteq> 0x55 \<or> b ! 511 \<noteq> 0xAA then (FAT_ERR_NOFS, st2)
            else
              let st3 = st2\<lparr>g_part_lba := 0\<rparr> in
              if looks_like_bpb b then mount_geometry st3
              else case find_partition b [0, 1, 2, 3] of
                  None \<Rightarrow> (FAT_ERR_NOFS, st3)
                | Some lba \<Rightarrow>
                    (case read_block c lba (st3\<lparr>g_part_lba := lba\<rparr>) of
                       (None, st4) \<Rightarrow> (FAT_ERR_SD, st4)
                     | (Some b2, st4) \<Rightarrow>
                         if \<not> looks_like_bpb b2 then (FAT_ERR_NOFS, st4\<lparr>g_sec := b2\<rparr>)
                         else mount_geometry (st4\<lparr>g_sec := b2\<rparr>)))"

subsection \<open>Chains\<close>

definition clus_lba :: "fat \<Rightarrow> u32 \<Rightarrow> u32" where
  "clus_lba st c = g_data_lba st + (c - 2) * g_spc st"

definition is_eoc :: "fat \<Rightarrow> u32 \<Rightarrow> bool" where
  "is_eoc st v = (if g_fat32 st then v \<ge> 0x0FFFFFF8 else v \<ge> 0xFFF8)"

definition fat_next :: "card \<Rightarrow> u32 \<Rightarrow> fat \<Rightarrow> u32 \<times> fat" where
  "fat_next c cl st =
     (let off0 = cl * (if g_fat32 st then 4 else 2); lba = g_fat_lba st + off0 div 512; off = unat (off0 mod 512);
          entry = (\<lambda>s. if g_fat32 s then le32 (g_fatsec s) off AND 0x0FFFFFFF else le16 (g_fatsec s) off)
      in
      if g_fatsec_lba st \<noteq> lba then
        case read_block c lba (st\<lparr>g_fatsec_lba := NO_LBA\<rparr>) of
          (None, st1) \<Rightarrow> (0, st1)
        | (Some b, st1) \<Rightarrow> let st2 = st1\<lparr>g_fatsec := b, g_fatsec_lba := lba\<rparr> in (entry st2, st2)
      else (entry st, st))"

definition valid_cluster :: "fat \<Rightarrow> u32 \<Rightarrow> bool" where
  "valid_cluster st c \<longleftrightarrow> c \<ge> 2 \<and> c < g_clusters st + 2"

subsection \<open>Directories\<close>

definition sfn_checksum :: "u8 list \<Rightarrow> u8" where
  "sfn_checksum n = foldl (\<lambda>s x. (if s AND 1 \<noteq> 0 then 0x80 else 0) + drop_bit 1 s + x) 0 (take 11 n)"

definition dir_start :: "u32 \<Rightarrow> fat_dir_t \<Rightarrow> fat_dir_t" where
  "dir_start cl d = d\<lparr>dcluster := cl, dsector := 0, dentry := 0, ddone := False, lfn_valid := 0\<rparr>"

definition dir_lba :: "card \<Rightarrow> fat_dir_t \<Rightarrow> fat \<Rightarrow> u32 option \<times> fat_dir_t \<times> fat" where
  "dir_lba c d st =
     (if dcluster d = 0 then
        (if dsector d \<ge> g_root_sectors st then (None, d, st) else (Some (g_root_lba st + dsector d), d, st))
      else if dsector d \<ge> g_spc st then
        (case fat_next c (dcluster d) st of (n, st1) \<Rightarrow>
           if is_eoc st1 n \<or> \<not> valid_cluster st1 n then (None, d, st1)
           else let d1 = d\<lparr>dcluster := n, dsector := 0\<rparr> in (Some (clus_lba st1 (dcluster d1) + dsector d1), d1, st1))
      else (Some (clus_lba st (dcluster d) + dsector d), d, st))"

definition lfn_put :: "u32 \<Rightarrow> u32 \<Rightarrow> fat_dir_t \<Rightarrow> fat_dir_t" where
  "lfn_put pos ch d =
     (if ch = 0 \<or> ch = 0xFFFF then d
      else if pos \<ge> FAT_NAME_MAX - 1 then d\<lparr>lfn_valid := 2\<rparr>
      else d\<lparr>dlfn := (dlfn d)[unat pos := (if ch < 0x80 then ucast ch else 63)]\<rparr>)"

definition lfn_at :: "nat list" where
  "lfn_at = [1, 3, 5, 7, 9, 14, 16, 18, 20, 22, 24, 28, 30]"

text \<open>An entry that holds a fragment of a long name.\<close>

definition lfn_entry :: "u8 list \<Rightarrow> fat_dir_t \<Rightarrow> fat_dir_t" where
  "lfn_entry ent d0 =
     (let ord = (ucast (ent ! 0) :: u32) AND 0x3F;
          first = (ent ! 0 AND 0x40 \<noteq> 0)
      in
      if \<not> first \<and> (lfn_valid d0 = 0 \<or> ent ! 13 \<noteq> lfn_sum d0) then d0\<lparr>lfn_valid := 0\<rparr>
      else
        let d = (if first then d0\<lparr>dlfn := map (\<lambda>_. 0) (dlfn d0), lfn_valid := 1, lfn_sum := ent ! 13\<rparr> else d0) in
        if ord = 0 then d\<lparr>lfn_valid := 0\<rparr>
        else fold (\<lambda>i. lfn_put ((ord - 1) * 13 + of_nat i) (le16 ent (lfn_at ! i))) [0..<13] d)"

definition short_name :: "u8 list \<Rightarrow> cstring" where
  "short_name ent =
     (let stem = takeWhile (\<lambda>x. x \<noteq> 32) (take 8 ent);
          stem' = (case stem of [] \<Rightarrow> [] | x # xs \<Rightarrow> (if x = 0x05 then 0xE5 else x) # xs)
      in if ent ! 8 \<noteq> 32 then stem' @ [46] @ takeWhile (\<lambda>x. x \<noteq> 32) (take 3 (drop 8 ent)) else stem')"

definition long_name :: "u8 list \<Rightarrow> cstring" where
  "long_name lfn = takeWhile (\<lambda>x. x \<noteq> 0) (take 63 lfn)"

definition dir_entry :: "fat \<Rightarrow> u8 list \<Rightarrow> fat_dir_t \<Rightarrow> fat_dirent_t" where
  "dir_entry st ent d =
     (let cl = push_bit 16 (le16 ent 20) OR le16 ent 26;
          long = (lfn_valid d \<noteq> 0 \<and> sfn_checksum ent = lfn_sum d)
      in \<lparr>ename = (if long then long_name (dlfn d) else takeWhile (\<lambda>x. x \<noteq> 0) (short_name ent)), esize = le32 ent 28,
          ecluster = (if g_fat32 st then cl else cl AND 0xFFFF), eattr = ent ! 11,
          etruncated = (long \<and> lfn_valid d = 2)\<rparr>)"

datatype dir_result = DirErr fat_err_t | DirEnd | DirEntry fat_dirent_t

text \<open>One iteration of the loop of \<^verbatim>\<open>dir_next_impl\<close>: \<open>None\<close> continues.\<close>

definition dir_step :: "card \<Rightarrow> fat_dir_t \<Rightarrow> fat \<Rightarrow> dir_result option \<times> fat_dir_t \<times> fat" where
  "dir_step c d0 st0 =
     (case dir_lba c d0 st0 of
        (None, d, st) \<Rightarrow> (Some DirEnd, d\<lparr>ddone := True\<rparr>, st)
      | (Some lba, d, st) \<Rightarrow>
          (case load_sec c lba st of (rc, st1) \<Rightarrow>
             if rc \<noteq> FAT_OK then (Some (DirErr FAT_ERR_SD), d, st1)
             else
               let ent = take 32 (drop (unat (dentry d) * 32) (g_sec st1));
                   d1 = (if dentry d + 1 = 16 then d\<lparr>dentry := 0, dsector := dsector d + 1\<rparr> else d\<lparr>dentry := dentry d + 1\<rparr>)
               in
               if ent ! 0 = 0x00 then (Some DirEnd, d1\<lparr>ddone := True\<rparr>, st1)
               else if ent ! 0 = 0xE5 then (None, d1\<lparr>lfn_valid := 0\<rparr>, st1)
               else if ent ! 11 AND 0x3F = 0x0F then (None, lfn_entry ent d1, st1)
               else if ent ! 11 AND 0x08 \<noteq> 0 then (None, d1\<lparr>lfn_valid := 0\<rparr>, st1)
               else (Some (DirEntry (dir_entry st1 ent d1)), d1\<lparr>lfn_valid := 0\<rparr>, st1)))"

partial_function (option) dir_next_loop :: "card \<Rightarrow> fat_dir_t \<Rightarrow> fat \<Rightarrow> (dir_result \<times> fat_dir_t \<times> fat) option" where
  "dir_next_loop c d st =
     (if ddone d then Some (DirEnd, d, st)
      else case dir_step c d st of
          (Some r, d1, st1) \<Rightarrow> Some (r, d1, st1)
        | (None, d1, st1) \<Rightarrow> dir_next_loop c d1 st1)"

definition dir_next_impl :: "card \<Rightarrow> fat_dir_t \<Rightarrow> fat \<Rightarrow> (dir_result \<times> fat_dir_t \<times> fat) option" where
  "dir_next_impl c d st = (if \<not> g_mounted st then Some (DirErr FAT_ERR_MOUNT, d, st) else dir_next_loop c d st)"

subsection \<open>Paths\<close>

definition upper :: "u8 \<Rightarrow> u8" where
  "upper x = (if x \<ge> 97 \<and> x \<le> 122 then x - 32 else x)"

text \<open>The comparison loop over the component, \<open>a\<close> the name without its terminator: the rest of \<open>a\<close>, \<open>None\<close> on a mismatch.\<close>

fun eq_loop :: "cstring \<Rightarrow> cstring \<Rightarrow> cstring option" where
  "eq_loop a [] = Some a"
| "eq_loop [] (y # ys) = None"
| "eq_loop (x # xs) (y # ys) = (if upper x \<noteq> upper y \<or> upper x = 0 then None else eq_loop xs ys)"

definition name_eq :: "cstring \<Rightarrow> cstring \<Rightarrow> bool" where
  "name_eq a b =
     (let prefix = (b \<noteq> [] \<and> last b = 42); b' = (if prefix then butlast b else b)
      in case eq_loop a b' of None \<Rightarrow> False | Some rest \<Rightarrow> prefix \<or> rest = [])"

text \<open>The search of one directory.\<close>

partial_function (option) find_loop ::
    "card \<Rightarrow> cstring \<Rightarrow> fat_dir_t \<Rightarrow> fat \<Rightarrow> ((fat_err_t + fat_dirent_t option) \<times> fat) option" where
  "find_loop c want d st =
     (case dir_next_impl c d st of
        None \<Rightarrow> None
      | Some (DirErr rc, d1, st1) \<Rightarrow> Some (Inl rc, st1)
      | Some (DirEnd, d1, st1) \<Rightarrow> Some (Inr None, st1)
      | Some (DirEntry e, d1, st1) \<Rightarrow> if name_eq (ename e) want then Some (Inr (Some e), st1) else find_loop c want d1 st1)"

definition dir_blank :: fat_dir_t where
  "dir_blank = \<lparr>dcluster = 0, dsector = 0, dentry = 0, ddone = False, dlfn = replicate 64 0, lfn_sum = 0, lfn_valid = 0\<rparr>"

text \<open>A path is walked component by component; \<open>split_path\<close> is what the pointer loops over the slashes yield.\<close>

fun split_path :: "cstring \<Rightarrow> cstring \<Rightarrow> cstring list" where
  "split_path cur [] = (if cur = [] then [] else [cur])"
| "split_path cur (x # xs) = (if x = 47 then (if cur = [] then split_path [] xs else cur # split_path [] xs)
     else split_path (cur @ [x]) xs)"

fun lookup_loop :: "card \<Rightarrow> cstring list \<Rightarrow> fat_dirent_t \<Rightarrow> fat \<Rightarrow> ((fat_err_t + fat_dirent_t) \<times> fat) option" where
  "lookup_loop c [] e st = Some (Inr e, st)"
| "lookup_loop c (p # ps) e st =
     (if eattr e AND FAT_ATTR_DIR = 0 then Some (Inl FAT_ERR_NOTDIR, st)
      else case find_loop c p (dir_start (ecluster e) dir_blank) st of
          None \<Rightarrow> None
        | Some (Inl rc, st1) \<Rightarrow> Some (Inl rc, st1)
        | Some (Inr None, st1) \<Rightarrow> Some (Inl FAT_ERR_NOENT, st1)
        | Some (Inr (Some e1), st1) \<Rightarrow> lookup_loop c ps e1 st1)"

definition lookup :: "card \<Rightarrow> cstring \<Rightarrow> fat \<Rightarrow> ((fat_err_t + fat_dirent_t) \<times> fat) option" where
  "lookup c path st =
     (if \<not> g_mounted st then Some (Inl FAT_ERR_MOUNT, st)
      else lookup_loop c (split_path [] path)
        \<lparr>ename = [47], esize = 0, ecluster = g_root_cluster st, eattr = FAT_ATTR_DIR, etruncated = False\<rparr> st)"

definition dir_open_impl :: "card \<Rightarrow> cstring \<Rightarrow> fat_dir_t \<Rightarrow> fat \<Rightarrow> (fat_err_t \<times> fat_dir_t \<times> fat) option" where
  "dir_open_impl c path d st =
     (case lookup c path st of
        None \<Rightarrow> None
      | Some (Inl rc, st1) \<Rightarrow> Some (rc, d, st1)
      | Some (Inr e, st1) \<Rightarrow>
          if eattr e AND FAT_ATTR_DIR = 0 then Some (FAT_ERR_NOTDIR, d, st1)
          else Some (FAT_OK, dir_start (if ecluster e \<noteq> 0 then ecluster e else g_root_cluster st1) d, st1))"

definition open_impl :: "card \<Rightarrow> cstring \<Rightarrow> fat_file_t \<Rightarrow> fat \<Rightarrow> (fat_err_t \<times> fat_file_t \<times> fat) option" where
  "open_impl c path f st =
     (case lookup c path st of
        None \<Rightarrow> None
      | Some (Inl rc, st1) \<Rightarrow> Some (rc, f, st1)
      | Some (Inr e, st1) \<Rightarrow>
          if eattr e AND FAT_ATTR_DIR \<noteq> 0 then Some (FAT_ERR_ISDIR, f, st1)
          else Some (FAT_OK, \<lparr>ffirst = ecluster e, fsize = esize e, fpos = 0, fcluster = ecluster e\<rparr>, st1))"

subsection \<open>Seeking and reading\<close>

text \<open>The hop loop of a seek; \<open>None\<close> is a broken chain.\<close>

fun seek_loop :: "card \<Rightarrow> nat \<Rightarrow> u32 \<Rightarrow> fat \<Rightarrow> u32 option \<times> fat" where
  "seek_loop c 0 cl st = (Some cl, st)"
| "seek_loop c (Suc n) cl st =
     (case fat_next c cl st of (cl1, st1) \<Rightarrow>
        if \<not> valid_cluster st1 cl1 then (None, st1) else seek_loop c n cl1 st1)"

definition seek_impl :: "card \<Rightarrow> u32 \<Rightarrow> fat_file_t \<Rightarrow> fat \<Rightarrow> fat_err_t \<times> fat_file_t \<times> fat" where
  "seek_impl c pos0 f st =
     (let pos = (if pos0 > fsize f then fsize f else pos0);
          cbytes = g_spc st * 512;
          hops = (if pos \<noteq> 0 then (pos - 1) div cbytes else 0);
          here = (if fpos f \<noteq> 0 then (fpos f - 1) div cbytes else 0);
          (cl, n) = (if fcluster f \<ge> 2 \<and> hops \<ge> here then (fcluster f, hops - here) else (ffirst f, hops))
      in case seek_loop c (unat n) cl st of
          (None, st1) \<Rightarrow> (FAT_ERR_CHAIN, f, st1)
        | (Some cl1, st1) \<Rightarrow> (FAT_OK, f\<lparr>fcluster := cl1, fpos := pos\<rparr>, st1))"

text \<open>An early return of the read loop: the count so far, or the error when there is none.\<close>

definition read_stop :: "u8 list \<Rightarrow> fat_err_t \<Rightarrow> fat_err_t + u8 list" where
  "read_stop out err = (if out \<noteq> [] then Inr out else Inl err)"

text \<open>One iteration of the loop of \<^verbatim>\<open>read_impl\<close>: \<open>out\<close> are the bytes delivered so far, \<open>got\<close> their number.\<close>

definition read_step ::
    "card \<Rightarrow> u32 \<Rightarrow> u8 list \<Rightarrow> fat_file_t \<Rightarrow> fat \<Rightarrow> (fat_err_t + u8 list) option \<times> u8 list \<times> fat_file_t \<times> fat" where
  "read_step c n out f0 st0 =
     (let cbytes = g_spc st0 * 512; got = of_nat (length out);
          (hop_ok, f, st) =
            (if fpos f0 \<noteq> 0 \<and> fpos f0 mod cbytes = 0 \<and> fcluster f0 \<noteq> 0 then
               case fat_next c (fcluster f0) st0 of (nx, st1) \<Rightarrow>
                 if \<not> valid_cluster st1 nx then (False, f0, st1)
                 else (True, f0\<lparr>fcluster := nx\<rparr>, st1\<lparr>g_read_hops := g_read_hops st1 + 1\<rparr>)
             else (True, f0, st0))
      in
      if \<not> hop_ok then (Some (read_stop out FAT_ERR_CHAIN), out, f, st)
      else if \<not> valid_cluster st (fcluster f) then (Some (read_stop out FAT_ERR_CHAIN), out, f, st)
      else
        let in_c = fpos f mod cbytes; lba = clus_lba st (fcluster f) + in_c div 512; off = in_c mod 512;
            k = (if 512 - off > n - got then n - got else 512 - off)
        in
        if off = 0 \<and> k = 512 then
          let run0 = (n - got) div 512; left = (cbytes - in_c) div 512; run = (if run0 > left then left else run0);
              st1 = st\<lparr>g_blocks_read := g_blocks_read st + run\<rparr>
          in case sd_read_blocks c lba run of
              None \<Rightarrow> (Some (read_stop out FAT_ERR_SD), out, f, st1)
            | Some bs \<Rightarrow> (None, out @ bs, f\<lparr>fpos := fpos f + run * 512\<rparr>, st1)
        else
          case load_sec c lba st of (rc, st1) \<Rightarrow>
            if rc \<noteq> FAT_OK then (Some (read_stop out FAT_ERR_SD), out, f, st1)
            else (None, out @ take (unat k) (drop (unat off) (g_sec st1)), f\<lparr>fpos := fpos f + k\<rparr>, st1))"

partial_function (option) read_loop ::
    "card \<Rightarrow> u32 \<Rightarrow> u8 list \<Rightarrow> fat_file_t \<Rightarrow> fat \<Rightarrow> ((fat_err_t + u8 list) \<times> fat_file_t \<times> fat) option" where
  "read_loop c n out f st =
     (if of_nat (length out) < n then
        case read_step c n out f st of
          (Some r, out1, f1, st1) \<Rightarrow> Some (r, f1, st1)
        | (None, out1, f1, st1) \<Rightarrow> read_loop c n out1 f1 st1
      else Some (Inr out, f, st))"

definition read_impl :: "card \<Rightarrow> u32 \<Rightarrow> fat_file_t \<Rightarrow> fat \<Rightarrow> ((fat_err_t + u8 list) \<times> fat_file_t \<times> fat) option" where
  "read_impl c n f st =
     (if \<not> g_mounted st then Some (Inl FAT_ERR_MOUNT, f, st)
      else read_loop c (if n > fsize f - fpos f then fsize f - fpos f else n) [] f st)"

subsection \<open>Checksum of a file\<close>

definition crc_bit :: "u32 \<Rightarrow> u32" where
  "crc_bit crc = drop_bit 1 crc XOR (0xEDB88320 AND (0 - (crc AND 1)))"

definition crc32_update :: "u32 \<Rightarrow> u8 list \<Rightarrow> u32" where
  "crc32_update crc p = NOT (foldl (\<lambda>crc x. (crc_bit ^^ 8) (crc XOR ucast x)) (NOT crc) p)"

subsection \<open>A sound volume\<close>

text \<open>The card answers every read, and a multi-block read is the blocks one after the other.\<close>

definition card_ok :: "card \<Rightarrow> bool" where
  "card_ok c \<longleftrightarrow> (\<forall>lba. \<exists>b. sd_read_block c lba = Some b \<and> length b = 512)
     \<and> (\<forall>lba run. \<exists>bs. sd_read_blocks c lba run = Some bs \<and> length bs = unat run * 512
          \<and> (\<forall>r < unat run * 512. bs ! r = the (sd_read_block c (lba + of_nat (r div 512))) ! (r mod 512)))"

text \<open>The cached sectors are what the card holds.\<close>

definition cache_ok :: "card \<Rightarrow> fat \<Rightarrow> bool" where
  "cache_ok c st \<longleftrightarrow> (g_sec_lba st \<noteq> NO_LBA \<longrightarrow> sd_read_block c (g_sec_lba st) = Some (g_sec st))
     \<and> (g_fatsec_lba st \<noteq> NO_LBA \<longrightarrow> sd_read_block c (g_fatsec_lba st) = Some (g_fatsec st))"

text \<open>The part of the state that mounting fixes.\<close>

definition geom :: "fat \<Rightarrow> bool \<times> bool \<times> u32 \<times> u32 \<times> u32 \<times> u32 \<times> u32 \<times> u32 \<times> u32" where
  "geom st = (g_mounted st, g_fat32 st, g_spc st, g_fat_lba st, g_data_lba st, g_clusters st, g_root_lba st, g_root_sectors st, g_root_cluster st)"

text \<open>The volume lies below the last block number, which is the mark of an empty cache.\<close>

definition geom_ok :: "fat \<Rightarrow> bool" where
  "geom_ok st \<longleftrightarrow> g_mounted st \<and> 1 \<le> unat (g_spc st) \<and> unat (g_spc st) \<le> 128 \<and> unat (g_clusters st) + 2 < 2 ^ 28
     \<and> unat (g_data_lba st) + unat (g_clusters st) * unat (g_spc st) < 4294967295
     \<and> unat (g_fat_lba st) + (unat (g_clusters st) + 2) * 4 div 512 < 4294967295"

definition fat_entry :: "card \<Rightarrow> fat \<Rightarrow> u32 \<Rightarrow> u32" where
  "fat_entry c st cl =
     (let off = cl * (if g_fat32 st then 4 else 2); b = the (sd_read_block c (g_fat_lba st + off div 512)); o' = unat (off mod 512)
      in if g_fat32 st then le32 b o' AND 0x0FFFFFFF else le16 b o')"

definition cluster_bytes :: "fat \<Rightarrow> nat" where
  "cluster_bytes st = unat (g_spc st) * 512"

lemma card_okD:
  assumes "card_ok c"
  shows "\<exists>b. sd_read_block c lba = Some b \<and> length b = 512"
    "\<exists>bs. sd_read_blocks c lba run = Some bs \<and> length bs = unat run * 512
       \<and> (\<forall>r < unat run * 512. bs ! r = the (sd_read_block c (lba + of_nat (r div 512))) ! (r mod 512))"
  using assms unfolding card_ok_def by blast+

lemma geom_eqD:
  assumes "geom st' = geom st"
  shows "valid_cluster st' = valid_cluster st" "fat_entry c st' = fat_entry c st" "clus_lba st' = clus_lba st"
    "cluster_bytes st' = cluster_bytes st" "geom_ok st' = geom_ok st" "g_spc st' = g_spc st"
  using assms by (simp_all add: geom_def fun_eq_iff valid_cluster_def fat_entry_def clus_lba_def cluster_bytes_def geom_ok_def)

lemma valid_cluster_nat:
  assumes "geom_ok st"
  shows "valid_cluster st cl \<longleftrightarrow> 2 \<le> unat cl \<and> unat cl < unat (g_clusters st) + 2"
proof -
  have "unat (g_clusters st + 2) = unat (g_clusters st) + 2"
    using assms unat_add_u32 [of "g_clusters st" 2] by (simp add: geom_ok_def)
  then show ?thesis by (simp add: valid_cluster_def word_le_nat_alt word_less_nat_alt)
qed

lemma fat_sector_below:
  assumes "geom_ok st" "valid_cluster st cl"
  shows "g_fat_lba st + cl * (if g_fat32 st then 4 else 2) div 512 \<noteq> NO_LBA"
proof -
  let ?m = "if g_fat32 st then 4 else 2 :: nat"
  have cl: "unat cl < unat (g_clusters st) + 2" "unat (g_clusters st) + 2 < 2 ^ 28"
    using assms valid_cluster_nat [OF assms(1)] by (auto simp: geom_ok_def)
  have m: "unat (cl * (if g_fat32 st then 4 else 2)) = unat cl * ?m"
    using cl by (simp add: unat_word_ariths)
  have "unat cl * ?m div 512 \<le> (unat (g_clusters st) + 2) * 4 div 512" using cl by (intro div_le_mono) simp
  then have "unat (g_fat_lba st) + unat cl * ?m div 512 < 4294967295" using assms(1) by (simp add: geom_ok_def)
  then have "unat (g_fat_lba st + cl * (if g_fat32 st then 4 else 2) div 512) < 4294967295"
    by (subst unat_add_u32) (simp_all add: unat_div m)
  then show ?thesis by auto
qed

lemma fat_next_ok:
  assumes "card_ok c" "cache_ok c st" "geom_ok st" "valid_cluster st cl" "fat_next c cl st = (nx, st')"
  shows "nx = fat_entry c st cl" "geom st' = geom st" "cache_ok c st'"
proof -
  let ?lba = "g_fat_lba st + cl * (if g_fat32 st then 4 else 2) div 512"
  obtain b where b: "sd_read_block c ?lba = Some b" using card_okD(1) [OF assms(1)] by blast
  note nl = fat_sector_below [OF assms(3,4)]
  show "nx = fat_entry c st cl" "geom st' = geom st" "cache_ok c st'"
    using assms(2,5) b nl
    by (auto simp: fat_next_def fat_entry_def read_block_def Let_def geom_def cache_ok_def split: if_splits)
qed

lemma load_sec_ok:
  assumes "card_ok c" "cache_ok c st" "lba \<noteq> NO_LBA"
  shows "\<exists>st'. load_sec c lba st = (FAT_OK, st') \<and> geom st' = geom st \<and> cache_ok c st' \<and> g_sec st' = the (sd_read_block c lba)"
proof -
  obtain b where b: "sd_read_block c lba = Some b" using card_okD(1) [OF assms(1)] by blast
  show ?thesis
  proof (cases "g_sec_lba st = lba")
    case True
    with assms b show ?thesis by (auto simp: load_sec_def cache_ok_def)
  next
    case False
    with assms b show ?thesis by (simp add: load_sec_def read_block_def geom_def cache_ok_def)
  qed
qed

subsection \<open>The bytes of a file\<close>

text \<open>\<open>ls\<close> is the cluster chain of a file: valid clusters, each the successor of the one before in the table.\<close>

definition chain_ok :: "card \<Rightarrow> fat \<Rightarrow> u32 list \<Rightarrow> bool" where
  "chain_ok c st ls \<longleftrightarrow> (\<forall>cl \<in> set ls. valid_cluster st cl) \<and> (\<forall>i. Suc i < length ls \<longrightarrow> fat_entry c st (ls ! i) = ls ! Suc i)"

text \<open>Byte \<open>p\<close> of the file: sector \<open>q\<close> of it is sector \<open>q mod g_spc\<close> of cluster \<open>q div g_spc\<close> of the chain.\<close>

definition file_byte :: "card \<Rightarrow> fat \<Rightarrow> u32 list \<Rightarrow> nat \<Rightarrow> u8" where
  "file_byte c st ls p =
     (let q = p div 512; spc = unat (g_spc st)
      in the (sd_read_block c (clus_lba st (ls ! (q div spc)) + of_nat (q mod spc))) ! (p mod 512))"

definition at_pos :: "fat \<Rightarrow> u32 list \<Rightarrow> fat_file_t \<Rightarrow> bool" where
  "at_pos st ls f \<longleftrightarrow> unat (fsize f) \<le> length ls * cluster_bytes st \<and> ls \<noteq> [] \<and> ffirst f = ls ! 0
     \<and> fcluster f = ls ! (if fpos f = 0 then 0 else (unat (fpos f) - 1) div cluster_bytes st)"

definition file_ok :: "card \<Rightarrow> fat \<Rightarrow> u32 list \<Rightarrow> fat_file_t \<Rightarrow> bool" where
  "file_ok c st ls f \<longleftrightarrow> geom_ok st \<and> chain_ok c st ls \<and> at_pos st ls f \<and> fpos f \<le> fsize f"

lemma geom_eq_file:
  assumes "geom st' = geom st"
  shows "chain_ok c st' = chain_ok c st" "file_byte c st' = file_byte c st" "at_pos st' = at_pos st" "file_ok c st' = file_ok c st"
  using geom_eqD [OF assms] by (simp_all add: fun_eq_iff chain_ok_def file_byte_def at_pos_def file_ok_def)

lemma cbytes_nat:
  assumes "geom_ok st"
  shows "unat (g_spc st * 512) = cluster_bytes st" "0 < cluster_bytes st" "cluster_bytes st \<le> 65536"
  using assms by (auto simp: geom_ok_def cluster_bytes_def unat_word_ariths)

lemma sector_of:
  assumes "0 < (s :: nat)"
  shows "p mod (s * 512) div 512 = p div 512 mod s" "p mod (s * 512) mod 512 = p mod 512" "p div (s * 512) = p div 512 div s"
proof -
  have m: "p mod (512 * s) = 512 * (p div 512 mod s) + p mod 512" by (rule mod_mult2_eq)
  show "p mod (s * 512) div 512 = p div 512 mod s" "p mod (s * 512) mod 512 = p mod 512"
    using m by (simp_all add: mult.commute)
  show "p div (s * 512) = p div 512 div s" using div_mult2_eq [of p 512 s] by (simp add: mult.commute)
qed

lemma pred_div:
  assumes "0 < p" "0 < (cb :: nat)"
  shows "(p - 1) div cb = (if p mod cb = 0 then p div cb - 1 else p div cb)"
proof -
  obtain q where p: "p = Suc q" using assms(1) by (cases p) auto
  show ?thesis unfolding p using div_Suc [of q cb] by (auto simp: mod_eq_0_iff_dvd)
qed

text \<open>Within one sector, and within one run of sectors of a cluster.\<close>

lemma file_byte_sector:
  assumes "p mod 512 + i < 512"
  shows "file_byte c st ls (p + i) = the (sd_read_block c (clus_lba st (ls ! (p div 512 div unat (g_spc st)))
    + of_nat (p div 512 mod unat (g_spc st)))) ! (p mod 512 + i)"
proof -
  have "p + i = 512 * (p div 512) + (p mod 512 + i)" by simp
  then have "(p + i) div 512 = p div 512" "(p + i) mod 512 = p mod 512 + i"
    using assms by (metis add_0_right div_less div_mult_self4 mult.commute zero_neq_numeral, metis assms mod_less mod_mult_self4 mult.commute)
  then show ?thesis by (simp add: file_byte_def Let_def)
qed

lemma file_byte_run:
  assumes "p mod 512 = 0" "p div 512 mod unat (g_spc st) + r div 512 < unat (g_spc st)"
  shows "file_byte c st ls (p + r) = the (sd_read_block c (clus_lba st (ls ! (p div 512 div unat (g_spc st)))
    + of_nat (p div 512 mod unat (g_spc st)) + of_nat (r div 512))) ! (r mod 512)"
proof -
  let ?s = "unat (g_spc st)" and ?q = "p div 512"
  have d: "(p + r) div 512 = ?q + r div 512" "(p + r) mod 512 = r mod 512"
    using assms(1) by (simp_all add: div_add1_eq mod_add_left_eq [symmetric])
  have "?q + r div 512 = ?s * (?q div ?s) + (?q mod ?s + r div 512)" by simp
  then have "(?q + r div 512) div ?s = ?q div ?s" "(?q + r div 512) mod ?s = ?q mod ?s + r div 512"
    using assms(2) by (metis add_0_right div_less div_mult_self4 gr_implies_not0 mult.commute less_nat_zero_code,
        metis assms(2) mod_less mod_mult_self4 mult.commute)
  then show ?thesis by (simp add: file_byte_def Let_def d add.assoc)
qed

subsection \<open>Reading a file\<close>

lemma chain_next:
  assumes "file_ok c st ls f" "fpos f < fsize f"
  defines "cb \<equiv> cluster_bytes st"
  shows "unat (fpos f) div cb < length ls" "valid_cluster st (ls ! (unat (fpos f) div cb))"
    "fcluster f = (if fpos f \<noteq> 0 \<and> unat (fpos f) mod cb = 0 then ls ! (unat (fpos f) div cb - 1) else ls ! (unat (fpos f) div cb))"
    "fpos f \<noteq> 0 \<Longrightarrow> unat (fpos f) mod cb = 0 \<Longrightarrow> fat_entry c st (fcluster f) = ls ! (unat (fpos f) div cb) \<and> valid_cluster st (fcluster f)"
proof -
  let ?p = "unat (fpos f)"
  have ok: "geom_ok st" "chain_ok c st ls" "at_pos st ls f" using assms(1) by (auto simp: file_ok_def)
  have cb: "0 < cb" using cbytes_nat [OF ok(1)] by (simp add: cb_def)
  have "?p < length ls * cb" using assms(2) ok(3) by (auto simp: at_pos_def cb_def word_less_nat_alt)
  then show l: "?p div cb < length ls" using cb by (simp add: less_mult_imp_div_less)
  then show "valid_cluster st (ls ! (?p div cb))" using ok(2) by (simp add: chain_ok_def)
  have p0: "fpos f \<noteq> 0 \<longleftrightarrow> 0 < ?p" by (simp add: unat_gt_0)
  show fc: "fcluster f = (if fpos f \<noteq> 0 \<and> ?p mod cb = 0 then ls ! (?p div cb - 1) else ls ! (?p div cb))"
    using ok(3) pred_div [OF _ cb, of ?p] by (auto simp: at_pos_def cb_def [symmetric] p0)
  assume z: "fpos f \<noteq> 0" "?p mod cb = 0"
  have "0 < ?p div cb" using z p0 cb by (metis div_greater_zero_iff mod_less not_le_imp_less less_numeral_extra(3))
  then have "Suc (?p div cb - 1) = ?p div cb" by simp
  then show "fat_entry c st (fcluster f) = ls ! (?p div cb) \<and> valid_cluster st (fcluster f)"
    using ok(2) l z fc by (auto simp: chain_ok_def)
qed

lemma data_lba_below:
  assumes "geom_ok st" "valid_cluster st cl" "s < unat (g_spc st)"
  shows "clus_lba st cl + of_nat s \<noteq> NO_LBA"
proof -
  let ?n = "unat (g_clusters st)" and ?s = "unat (g_spc st)"
  have cl: "2 \<le> unat cl" "unat cl < ?n + 2" using assms(2) valid_cluster_nat [OF assms(1)] by auto
  have spc: "?s \<le> 128" and dl: "unat (g_data_lba st) + ?n * ?s < 4294967295" using assms(1) by (auto simp: geom_ok_def)
  have c2: "unat (cl - 2) = unat cl - 2" using cl by (intro unat_sub_u32 [of 2 cl, simplified]) simp
  have "Suc (unat cl - 2) * ?s \<le> ?n * ?s" using cl by (intro mult_le_mono1) simp
  then have k: "(unat cl - 2) * ?s + s < ?n * ?s" using assms(3) by simp
  have m: "unat ((cl - 2) * g_spc st) = (unat cl - 2) * ?s"
    using k dl by (simp add: unat_word_ariths c2)
  have "unat (clus_lba st cl) = unat (g_data_lba st) + (unat cl - 2) * ?s"
    unfolding clus_lba_def using k dl by (subst unat_add_u32) (simp_all add: m)
  moreover have "unat (of_nat s :: u32) = s" using assms(3) spc by (simp add: unat_of_nat)
  ultimately have "unat (clus_lba st cl + of_nat s) = unat (g_data_lba st) + (unat cl - 2) * ?s + s"
    using k dl by (subst unat_add_u32) simp_all
  then have "unat (clus_lba st cl + of_nat s) < 4294967295" using k dl by simp
  then show ?thesis by auto
qed

text \<open>The part of an iteration before the transfer: the cluster that holds the position is current.\<close>

lemma hop_ok:
  assumes "card_ok c" "cache_ok c st" "file_ok c st ls f" "fpos f < fsize f"
  shows "\<exists>st'. (if fpos f \<noteq> 0 \<and> fpos f mod (g_spc st * 512) = 0 \<and> fcluster f \<noteq> 0 then
               case fat_next c (fcluster f) st of (nx, st1) \<Rightarrow>
                 if \<not> valid_cluster st1 nx then (False, f, st1)
                 else (True, f\<lparr>fcluster := nx\<rparr>, st1\<lparr>g_read_hops := g_read_hops st1 + 1\<rparr>)
             else (True, f, st)) = (True, f\<lparr>fcluster := ls ! (unat (fpos f) div cluster_bytes st)\<rparr>, st')
     \<and> geom st' = geom st \<and> cache_ok c st'"
proof -
  let ?cb = "cluster_bytes st"
  have g: "geom_ok st" using assms(3) by (simp add: file_ok_def)
  note N = chain_next [OF assms(3,4)]
  have z: "fpos f mod (g_spc st * 512) = 0 \<longleftrightarrow> unat (fpos f) mod ?cb = 0"
    by (simp add: u32_eq_0_iff unat_mod cbytes_nat(1) [OF g])
  show ?thesis
  proof (cases "fpos f \<noteq> 0 \<and> unat (fpos f) mod ?cb = 0")
    case True
    obtain nx st1 where e: "fat_next c (fcluster f) st = (nx, st1)" by (rule prod.exhaust)
    have n4: "fat_entry c st (fcluster f) = ls ! (unat (fpos f) div ?cb)" "valid_cluster st (fcluster f)"
      using N(4) [OF conjunct1 [OF True] conjunct2 [OF True]] by simp_all
    note v = n4(2)
    then have nz: "fcluster f \<noteq> 0" by (auto simp: valid_cluster_def)
    note F = fat_next_ok [OF assms(1,2) g v e]
    have "nx = ls ! (unat (fpos f) div ?cb)" using F(1) n4(1) by simp
    moreover have "valid_cluster st1 nx" using N(2) geom_eqD(1) [OF F(2)] calculation by simp
    moreover have "geom (st1\<lparr>g_read_hops := g_read_hops st1 + 1\<rparr>) = geom st" using F(2) by (simp add: geom_def)
    moreover have "cache_ok c (st1\<lparr>g_read_hops := g_read_hops st1 + 1\<rparr>)" using F(3) by (simp add: cache_ok_def)
    ultimately show ?thesis using True z nz e by auto
  next
    case False
    then have "f\<lparr>fcluster := ls ! (unat (fpos f) div ?cb)\<rparr> = f" using N(3) by auto
    with False z assms(2) show ?thesis by auto
  qed
qed

lemma at_pos_advance:
  assumes "file_ok c st ls f" "0 < k" "unat (fpos f) mod cluster_bytes st + k \<le> cluster_bytes st" "unat (fpos f) + k \<le> unat (fsize f)"
  shows "file_ok c st ls (f\<lparr>fcluster := ls ! (unat (fpos f) div cluster_bytes st), fpos := fpos f + of_nat k\<rparr>)"
    "unat (fpos f + of_nat k) = unat (fpos f) + k"
proof -
  let ?p = "unat (fpos f)" and ?cb = "cluster_bytes st"
  have fs: "unat (fsize f) < 4294967296" by (rule unat_lt_u32)
  have k: "unat (of_nat k :: u32) = k" using assms(4) fs by (intro unat_of_nat_u32) linarith
  have "?p + unat (of_nat k :: u32) < 4294967296" unfolding k using assms(4) fs by linarith
  then show u: "unat (fpos f + of_nat k) = ?p + k" using unat_add_u32 [of "fpos f" "of_nat k"] k by simp
  have "?p + k - 1 = ?cb * (?p div ?cb) + (?p mod ?cb + k - 1)" using assms(2) by simp
  moreover have "?p mod ?cb + k - 1 < ?cb" using assms(2,3) by simp
  ultimately have d: "(?p + k - 1) div ?cb = ?p div ?cb" by (metis add_0_right div_less div_mult_self4 mult.commute not_less0)
  have nz: "fpos f + of_nat k \<noteq> 0" using u assms(2) by (metis add_is_0 not_gr_zero unat_0)
  show "file_ok c st ls (f\<lparr>fcluster := ls ! (?p div ?cb), fpos := fpos f + of_nat k\<rparr>)"
    using assms(1,4) nz u d by (auto simp: file_ok_def at_pos_def word_le_nat_alt)
qed

lemma read_step_ok:
  assumes "card_ok c" "cache_ok c st" "file_ok c st ls f" "length out < unat n"
    "unat (fpos f) + (unat n - length out) \<le> unat (fsize f)"
  shows "\<exists>k f' st'. 0 < k \<and> length out + k \<le> unat n \<and> unat (fpos f') = unat (fpos f) + k \<and> fsize f' = fsize f
    \<and> read_step c n out f st = (None, out @ map (file_byte c st ls) [unat (fpos f)..<unat (fpos f) + k], f', st')
    \<and> geom st' = geom st \<and> cache_ok c st' \<and> file_ok c st ls f'"
proof -
  let ?p = "unat (fpos f)" and ?cb = "cluster_bytes st" and ?s = "unat (g_spc st)"
  define g where "g = length out"
  have geo: "geom_ok st" using assms(3) by (simp add: file_ok_def)
  note C = cbytes_nat [OF geo]
  have s: "0 < ?s" "?cb = ?s * 512" using geo by (auto simp: geom_ok_def cluster_bytes_def)
  note S = sector_of [OF s(1), of ?p, folded s(2)]
  have lt: "fpos f < fsize f" using assms(4,5) by (simp add: word_less_nat_alt)
  obtain st1 where hop: "(if fpos f \<noteq> 0 \<and> fpos f mod (g_spc st * 512) = 0 \<and> fcluster f \<noteq> 0 then
               case fat_next c (fcluster f) st of (nx, st1) \<Rightarrow>
                 if \<not> valid_cluster st1 nx then (False, f, st1)
                 else (True, f\<lparr>fcluster := nx\<rparr>, st1\<lparr>g_read_hops := g_read_hops st1 + 1\<rparr>)
             else (True, f, st)) = (True, f\<lparr>fcluster := ls ! (?p div ?cb)\<rparr>, st1)"
    and g1: "geom st1 = geom st" "cache_ok c st1"
    using hop_ok [OF assms(1-3) lt] by blast
  let ?cl = "ls ! (?p div ?cb)"
  have v: "valid_cluster st1 ?cl" using chain_next(2) [OF assms(3) lt] geom_eqD(1) [OF g1(1)] by simp
  have gn: "unat (of_nat g :: u32) = g" "unat (n - of_nat g) = unat n - g"
  proof -
    have "unat n < 4294967296" by (rule unat_lt_u32)
    then show a: "unat (of_nat g :: u32) = g" using assms(4) unfolding g_def by (intro unat_of_nat_u32) linarith
    show "unat (n - of_nat g) = unat n - g" using assms(4) a by (subst unat_sub_u32) (simp_all add: g_def)
  qed
  let ?in = "fpos f mod (g_spc st * 512)"
  have ic: "unat ?in = ?p mod ?cb" by (simp add: unat_mod C)
  have off: "unat (?in mod 512) = ?p mod 512" by (simp add: unat_mod ic S C)
  have sec: "?in div 512 = of_nat (?p div 512 mod ?s)"
  proof -
    have "unat (?in div 512) = ?p div 512 mod ?s" by (simp add: unat_div ic S)
    then show ?thesis by (metis of_nat_unat_u32)
  qed
  let ?lba = "clus_lba st ?cl + of_nat (?p div 512 mod ?s)"
  have lba: "clus_lba st1 ?cl + ?in div 512 = ?lba" using geom_eqD(3) [OF g1(1)] sec by simp
  have o5: "unat (512 - ?in mod 512) = 512 - ?p mod 512" by (subst unat_sub_u32) (simp_all add: off)
  define k where "k = (if 512 - ?in mod 512 > n - of_nat g then n - of_nat g else 512 - ?in mod 512)"
  have uk: "unat k = min (512 - ?p mod 512) (unat n - g)" by (simp add: k_def word_less_nat_alt gn o5 min_def)
  have rs: "read_step c n out f st =
      (if ?in mod 512 = 0 \<and> k = 512 then
        let run0 = (n - of_nat g) div 512; left = (g_spc st * 512 - ?in) div 512; run = (if run0 > left then left else run0);
            st2 = st1\<lparr>g_blocks_read := g_blocks_read st1 + run\<rparr>
        in case sd_read_blocks c ?lba run of
            None \<Rightarrow> (Some (read_stop out FAT_ERR_SD), out, f\<lparr>fcluster := ?cl\<rparr>, st2)
          | Some bs \<Rightarrow> (None, out @ bs, f\<lparr>fcluster := ?cl, fpos := fpos f + run * 512\<rparr>, st2)
      else
        case load_sec c ?lba st1 of (rc, st2) \<Rightarrow>
          if rc \<noteq> FAT_OK then (Some (read_stop out FAT_ERR_SD), out, f\<lparr>fcluster := ?cl\<rparr>, st2)
          else (None, out @ take (unat k) (drop (unat (?in mod 512)) (g_sec st2)), f\<lparr>fcluster := ?cl, fpos := fpos f + k\<rparr>, st2))"
    unfolding read_step_def Let_def hop prod.case g_def [symmetric] k_def
    using v by (simp add: lba cong: if_cong prod.case_cong option.case_cong)
  show ?thesis
  proof (cases "?in mod 512 = 0 \<and> k = 512")
    case True
    then have p0: "?p mod 512 = 0" and n5: "512 \<le> unat n - g" using off uk by auto
    have lf: "unat ((g_spc st * 512 - ?in) div 512) = ?s - ?p div 512 mod ?s"
    proof -
      have "?p mod ?cb = 512 * (?p div 512 mod ?s)" using mod_mult2_eq [of ?p 512 ?s] p0 s by (simp add: mult.commute)
      moreover have "?p mod ?cb < ?cb" using C by simp
      ultimately have "unat (g_spc st * 512 - ?in) = 512 * (?s - ?p div 512 mod ?s)"
        by (subst unat_sub_u32) (simp_all add: C ic s(2) diff_mult_distrib2)
      then show ?thesis by (simp add: unat_div)
    qed
    define run where "run = (if (n - of_nat g) div 512 > (g_spc st * 512 - ?in) div 512 then (g_spc st * 512 - ?in) div 512 else (n - of_nat g) div 512)"
    have ur: "unat run = min (?s - ?p div 512 mod ?s) ((unat n - g) div 512)"
    proof -
      have "unat ((n - of_nat g) div 512) = (unat n - g) div 512" by (simp add: unat_div gn)
      then show ?thesis by (simp add: run_def word_less_nat_alt lf min_def)
    qed
    obtain bs where bs: "sd_read_blocks c ?lba run = Some bs" "length bs = unat run * 512"
      "\<forall>r < unat run * 512. bs ! r = the (sd_read_block c (?lba + of_nat (r div 512))) ! (r mod 512)"
      using card_okD(2) [OF assms(1)] by blast
    have sm: "?p div 512 mod ?s < ?s" using s by simp
    have r0: "0 < unat run" using ur n5 sm by simp
    have rn: "g + unat run * 512 \<le> unat n" using ur n5 by (simp add: min_def) linarith
    have rc: "?p mod ?cb + unat run * 512 \<le> ?cb"
    proof -
      have "?p div 512 mod ?s + unat run \<le> ?s" using ur sm by linarith
      then have "(?p div 512 mod ?s + unat run) * 512 \<le> ?s * 512" by (rule mult_le_mono1)
      moreover have "?p mod ?cb = (?p div 512 mod ?s) * 512" using mod_mult2_eq [of ?p 512 ?s] p0 s by (simp add: mult.commute)
      ultimately show ?thesis using s(2) by (simp only: add_mult_distrib)
    qed
    have out: "bs = map (file_byte c st ls) [?p..<?p + unat run * 512]"
    proof (rule nth_equalityI)
      fix r assume "r < length bs"
      then have r: "r < unat run * 512" using bs(2) by simp
      then have "r div 512 < unat run" by (simp add: less_mult_imp_div_less)
      then have "?p div 512 mod ?s + r div 512 < ?s" using ur sm by linarith
      from file_byte_run [OF p0 this, of c ls] show "bs ! r = map (file_byte c st ls) [?p..<?p + unat run * 512] ! r"
        using r bs(3) by (simp add: S(3))
    qed (use bs in simp)
    have w: "run * 512 = of_nat (unat run * 512)" by simp
    have "?p + unat run * 512 \<le> unat (fsize f)" using rn assms(5) by (simp add: g_def)
    note A = at_pos_advance [OF assms(3) _ rc this]
    have "read_step c n out f st = (None, out @ map (file_byte c st ls) [?p..<?p + unat run * 512],
        f\<lparr>fcluster := ?cl, fpos := fpos f + of_nat (unat run * 512)\<rparr>, st1\<lparr>g_blocks_read := g_blocks_read st1 + run\<rparr>)"
      unfolding rs Let_def run_def [symmetric] w [symmetric] using True bs(1) out by simp
    moreover have "geom (st1\<lparr>g_blocks_read := g_blocks_read st1 + run\<rparr>) = geom st" "cache_ok c (st1\<lparr>g_blocks_read := g_blocks_read st1 + run\<rparr>)"
      using g1 by (simp_all add: geom_def cache_ok_def)
    ultimately show ?thesis using A r0 rn g_def
      by (intro exI [of _ "unat run * 512"] exI [of _ "f\<lparr>fcluster := ?cl, fpos := fpos f + of_nat (unat run * 512)\<rparr>"] exI) simp
  next
    case False
    have nl: "?lba \<noteq> NO_LBA"
      using data_lba_below [OF geo chain_next(2) [OF assms(3) lt]] s by simp
    obtain st2 where ld: "load_sec c ?lba st1 = (FAT_OK, st2)" "geom st2 = geom st1" "cache_ok c st2" "g_sec st2 = the (sd_read_block c ?lba)"
      using load_sec_ok [OF assms(1) g1(2) nl] by blast
    have l5: "length (the (sd_read_block c ?lba)) = 512" using card_okD(1) [OF assms(1), of ?lba] by auto
    have k0: "0 < unat k" "g + unat k \<le> unat n" "?p mod 512 + unat k \<le> 512" using uk assms(4) by (auto simp: g_def)
    have rc: "?p mod ?cb + unat k \<le> ?cb"
    proof -
      have "?p mod ?cb = 512 * (?p div 512 mod ?s) + ?p mod 512" using mod_mult2_eq [of ?p 512 ?s] s by (simp add: mult.commute)
      moreover have "Suc (?p div 512 mod ?s) * 512 \<le> ?s * 512" using s by (intro mult_le_mono1) (simp add: Suc_le_eq)
      ultimately show ?thesis using k0 s by simp
    qed
    have out: "take (unat k) (drop (unat (?in mod 512)) (g_sec st2)) = map (file_byte c st ls) [?p..<?p + unat k]"
    proof (rule nth_equalityI)
      fix i assume "i < length (take (unat k) (drop (unat (?in mod 512)) (g_sec st2)))"
      then have i: "i < unat k" by simp
      then have "?p mod 512 + i < 512" using k0 by simp
      from file_byte_sector [OF this, of c st ls] show "take (unat k) (drop (unat (?in mod 512)) (g_sec st2)) ! i = map (file_byte c st ls) [?p..<?p + unat k] ! i"
        using i k0 l5 by (simp add: off ld(4) S(3))
    qed (use k0 l5 in \<open>simp add: off ld(4)\<close>)
    have "?p + unat k \<le> unat (fsize f)" using k0 assms(5) by (simp add: g_def)
    note A = at_pos_advance [OF assms(3) k0(1) rc this]
    have "read_step c n out f st = (None, out @ map (file_byte c st ls) [?p..<?p + unat k],
        f\<lparr>fcluster := ?cl, fpos := fpos f + of_nat (unat k)\<rparr>, st2)"
      unfolding rs if_not_P [OF False] using ld(1) out by simp
    then show ?thesis using A k0 g_def ld(2,3) g1(1)
      by (intro exI [of _ "unat k"] exI [of _ "f\<lparr>fcluster := ?cl, fpos := fpos f + of_nat (unat k)\<rparr>"] exI) simp
  qed
qed

lemma map_upt_append: "a \<le> b \<Longrightarrow> b \<le> d \<Longrightarrow> map h [a..<b] @ map h [b..<d] = map h [a..<d]"
  by (metis le_add_diff_inverse map_append upt_add_eq_append)

lemma read_loop_ok:
  assumes "card_ok c" "cache_ok c st" "file_ok c st ls f" "length out \<le> unat n"
    "unat (fpos f) + (unat n - length out) \<le> unat (fsize f)"
  shows "\<exists>f' st'. read_loop c n out f st = Some (Inr (out @ map (file_byte c st ls) [unat (fpos f)..<unat (fpos f) + (unat n - length out)]), f', st')
    \<and> unat (fpos f') = unat (fpos f) + (unat n - length out) \<and> fsize f' = fsize f \<and> geom st' = geom st \<and> cache_ok c st' \<and> file_ok c st ls f'"
  using assms
proof (induction "unat n - length out" arbitrary: out f st rule: less_induct)
  case less
  let ?p = "unat (fpos f)"
  have nb: "unat n < 4294967296" by (rule unat_lt_u32)
  have u: "unat (of_nat (length out) :: u32) = length out" using less.prems(4) nb by (intro unat_of_nat_u32) linarith
  have c: "of_nat (length out) < n \<longleftrightarrow> length out < unat n" by (simp add: word_less_nat_alt u)
  show ?case
  proof (cases "length out < unat n")
    case False
    then show ?thesis using less.prems c by (subst read_loop.simps) simp
  next
    case True
    obtain k f1 st1 where s: "0 < k" "length out + k \<le> unat n" "unat (fpos f1) = ?p + k" "fsize f1 = fsize f"
      "read_step c n out f st = (None, out @ map (file_byte c st ls) [?p..<?p + k], f1, st1)"
      "geom st1 = geom st" "cache_ok c st1" "file_ok c st ls f1"
      using read_step_ok [OF less.prems(1-3) True less.prems(5)] by blast
    let ?out = "out @ map (file_byte c st ls) [?p..<?p + k]"
    note G = geom_eq_file [OF s(6)]
    have len: "length ?out = length out + k" by simp
    have ih: "\<exists>f' st'. read_loop c n ?out f1 st1 = Some (Inr (?out @ map (file_byte c st1 ls) [unat (fpos f1)..<unat (fpos f1) + (unat n - length ?out)]), f', st')
      \<and> unat (fpos f') = unat (fpos f1) + (unat n - length ?out) \<and> fsize f' = fsize f1 \<and> geom st' = geom st1 \<and> cache_ok c st' \<and> file_ok c st1 ls f'"
      using s less.prems(5) True G by (intro less.hyps less.prems(1) s(7)) (auto simp: len)
    have app: "?out @ map (file_byte c st ls) [?p + k..<?p + (unat n - length out)] = out @ map (file_byte c st ls) [?p..<?p + (unat n - length out)]"
      using s(2) by (simp add: map_upt_append)
    have e: "?p + k + (unat n - (length out + k)) = ?p + (unat n - length out)" using s(2) by simp
    have "read_loop c n out f st = read_loop c n ?out f1 st1" using True c s(5) by (subst read_loop.simps) simp
    then show ?thesis using ih unfolding len s(3,4,6) G e app by simp
  qed
qed

lemma read_impl_ok:
  assumes "card_ok c" "cache_ok c st" "file_ok c st ls f"
  shows "\<exists>f' st'. read_impl c n f st = Some (Inr (map (file_byte c st ls) [unat (fpos f)..<min (unat (fpos f) + unat n) (unat (fsize f))]), f', st')
    \<and> unat (fpos f') = min (unat (fpos f) + unat n) (unat (fsize f)) \<and> fsize f' = fsize f \<and> geom st' = geom st \<and> cache_ok c st' \<and> file_ok c st ls f'"
proof -
  let ?p = "unat (fpos f)" and ?z = "unat (fsize f)"
  define m where "m = (if n > fsize f - fpos f then fsize f - fpos f else n)"
  have le: "?p \<le> ?z" and mt: "g_mounted st" using assms(3) by (auto simp: file_ok_def geom_ok_def word_le_nat_alt)
  have d: "unat (fsize f - fpos f) = ?z - ?p" using le by (rule unat_sub_u32)
  have m: "unat m = min (unat n) (?z - ?p)" by (simp add: m_def word_less_nat_alt d min_def)
  have e: "?p + unat m = min (?p + unat n) ?z" using m le by (auto simp: min_def)
  have "?p + (unat m - length ([] :: u8 list)) \<le> ?z" using e by simp
  from read_loop_ok [OF assms _ this] show ?thesis using mt e by (simp add: read_impl_def m_def [symmetric])
qed

lemma seek_loop_ok:
  assumes "card_ok c" "cache_ok c st" "geom_ok st" "chain_ok c st ls" "i + n < length ls"
  shows "\<exists>st'. seek_loop c n (ls ! i) st = (Some (ls ! (i + n)), st') \<and> geom st' = geom st \<and> cache_ok c st'"
  using assms
proof (induction n arbitrary: i st)
  case (Suc n)
  obtain cl st1 where e: "fat_next c (ls ! i) st = (cl, st1)" by (rule prod.exhaust)
  have v: "valid_cluster st (ls ! i)" "valid_cluster st (ls ! Suc i)" "fat_entry c st (ls ! i) = ls ! Suc i"
    using Suc.prems(4,5) by (auto simp: chain_ok_def)
  note F = fat_next_ok [OF Suc.prems(1,2,3) v(1) e]
  note G = geom_eqD [OF F(2)]
  have "\<exists>st'. seek_loop c n (ls ! Suc i) st1 = (Some (ls ! (Suc i + n)), st') \<and> geom st' = geom st1 \<and> cache_ok c st'"
    using Suc.prems(3-5) G geom_eq_file(1) [OF F(2)] by (intro Suc.IH Suc.prems(1) F(3)) auto
  then show ?case using e F v G by auto
qed auto

lemma pos_index:
  assumes "geom_ok st"
  shows "unat (if p \<noteq> 0 then (p - 1) div (g_spc st * 512) else 0) = (if p = 0 then 0 else (unat p - 1) div cluster_bytes st)"
  by (simp add: unat_div cbytes_nat(1) [OF assms] unat_minus_one)

lemma seek_impl_ok:
  assumes "card_ok c" "cache_ok c st" "file_ok c st ls f"
  shows "\<exists>f' st'. seek_impl c pos f st = (FAT_OK, f', st') \<and> unat (fpos f') = min (unat pos) (unat (fsize f)) \<and> fsize f' = fsize f
    \<and> geom st' = geom st \<and> cache_ok c st' \<and> file_ok c st ls f'"
proof -
  let ?cb = "cluster_bytes st"
  let ?ix = "\<lambda>p :: u32. if p = 0 then 0 else (unat p - 1) div ?cb"
  define q where "q = (if pos > fsize f then fsize f else pos)"
  define hops where "hops = (if q \<noteq> 0 then (q - 1) div (g_spc st * 512) else 0)"
  define here where "here = (if fpos f \<noteq> 0 then (fpos f - 1) div (g_spc st * 512) else 0)"
  have ok: "geom_ok st" "chain_ok c st ls" "at_pos st ls f" "fpos f \<le> fsize f" using assms(3) by (auto simp: file_ok_def)
  note C = cbytes_nat [OF ok(1)]
  have q: "unat q = min (unat pos) (unat (fsize f))" by (simp add: q_def word_less_nat_alt min_def)
  have uh: "unat hops = ?ix q" "unat here = ?ix (fpos f)" unfolding hops_def here_def by (rule pos_index [OF ok(1)])+
  have lt: "?ix p < length ls" if "unat p \<le> unat (fsize f)" for p
  proof (cases "p = 0")
    case False
    then have "0 < unat p" by (simp add: unat_gt_0)
    moreover have "unat (fsize f) \<le> length ls * ?cb" using ok(3) by (simp add: at_pos_def)
    ultimately have "unat p - 1 < length ls * ?cb" using that by linarith
    then show ?thesis using False by (simp add: less_mult_imp_div_less)
  qed (use ok in \<open>simp add: at_pos_def\<close>)
  define start where "start = (if fcluster f \<ge> 2 \<and> hops \<ge> here then (fcluster f, hops - here) else (ffirst f, hops))"
  have "\<exists>i n. start = (ls ! i, n) \<and> i + unat n = ?ix q"
  proof (cases "fcluster f \<ge> 2 \<and> hops \<ge> here")
    case True
    then have "unat (hops - here) = ?ix q - ?ix (fpos f)" "?ix (fpos f) \<le> ?ix q"
      using unat_sub_u32 [of here hops] uh by (auto simp: word_le_nat_alt)
    then show ?thesis using True ok(3) by (intro exI [of _ "?ix (fpos f)"] exI [of _ "hops - here"]) (simp add: start_def at_pos_def)
  next
    case False
    then have "start = (ls ! 0, hops)" using ok(3) unfolding start_def at_pos_def by auto
    then show ?thesis using uh by (intro exI [of _ 0] exI [of _ hops]) simp
  qed
  then obtain i n where st: "start = (ls ! i, n)" and i: "i + unat n = ?ix q" by blast
  have "i + unat n < length ls" unfolding i using q by (intro lt) simp
  from seek_loop_ok [OF assms(1,2) ok(1,2) this] obtain st' where
    sl: "seek_loop c (unat n) (ls ! i) st = (Some (ls ! ?ix q), st')" "geom st' = geom st" "cache_ok c st'" unfolding i by blast
  have "seek_impl c pos f st = (FAT_OK, f\<lparr>fcluster := ls ! ?ix q, fpos := q\<rparr>, st')"
    unfolding seek_impl_def Let_def q_def [symmetric] hops_def [symmetric] here_def [symmetric] start_def [symmetric] st prod.case sl(1)
    by simp
  moreover have "file_ok c st ls (f\<lparr>fcluster := ls ! ?ix q, fpos := q\<rparr>)"
    using ok q by (auto simp: file_ok_def at_pos_def word_le_nat_alt)
  ultimately show ?thesis using sl q by auto
qed

subsection \<open>Directory walks\<close>

text \<open>The position of the iterator within its cluster, in entries.\<close>

definition dir_pos :: "fat_dir_t \<Rightarrow> nat" where
  "dir_pos d = unat (dsector d) * 16 + unat (dentry d)"

definition dir_ok :: "card \<Rightarrow> fat \<Rightarrow> fat_dir_t \<Rightarrow> bool" where
  "dir_ok c st d \<longleftrightarrow> card_ok c \<and> cache_ok c st \<and> geom_ok st \<and> valid_cluster st (dcluster d) \<and> dentry d < 16
     \<and> dir_pos d \<le> unat (g_spc st) * 16"

text \<open>The iterator after the entry under it has been taken.\<close>

definition dir_advance :: "fat_dir_t \<Rightarrow> fat_dir_t" where
  "dir_advance d = (if dentry d + 1 = 16 then d\<lparr>dentry := 0, dsector := dsector d + 1\<rparr> else d\<lparr>dentry := dentry d + 1\<rparr>)"

lemma lfn_put_keeps [simp]:
  "dcluster (lfn_put p ch d) = dcluster d" "dsector (lfn_put p ch d) = dsector d" "dentry (lfn_put p ch d) = dentry d"
  "ddone (lfn_put p ch d) = ddone d"
  by (simp_all add: lfn_put_def)

lemma fold_lfn_put_keeps [simp]:
  "dcluster (fold (\<lambda>i. lfn_put (f i) (g i)) is d) = dcluster d" "dsector (fold (\<lambda>i. lfn_put (f i) (g i)) is d) = dsector d"
  "dentry (fold (\<lambda>i. lfn_put (f i) (g i)) is d) = dentry d" "ddone (fold (\<lambda>i. lfn_put (f i) (g i)) is d) = ddone d"
  by (induction "is" arbitrary: d) simp_all

lemma lfn_entry_keeps [simp]:
  "dcluster (lfn_entry ent d) = dcluster d" "dsector (lfn_entry ent d) = dsector d" "dentry (lfn_entry ent d) = dentry d"
  "ddone (lfn_entry ent d) = ddone d"
  by (simp_all add: lfn_entry_def Let_def)

lemma dir_advance_fields [simp]:
  "dcluster (dir_advance d) = dcluster d" "ddone (dir_advance d) = ddone d"
  by (simp_all add: dir_advance_def)

lemma dir_advance_pos:
  assumes "dentry d < 16" "unat (dsector d) + 1 < 4294967296"
  shows "dir_pos (dir_advance d) = Suc (dir_pos d)" "dentry (dir_advance d) < 16"
proof -
  have e: "unat (dentry d) < 16" using assms(1) by (simp add: word_less_nat_alt)
  have e1: "unat (dentry d + 1) = unat (dentry d) + 1" using e unat_add_u32 [of "dentry d" 1] by simp
  have s1: "unat (dsector d + 1) = unat (dsector d) + 1" using assms(2) unat_add_u32 [of "dsector d" 1] by simp
  have eq: "dentry d + 1 = 16 \<longleftrightarrow> unat (dentry d) = 15" using e1 by (auto simp: word_unat_eq_iff)
  show "dir_pos (dir_advance d) = Suc (dir_pos d)" using eq e1 s1 by (simp add: dir_pos_def dir_advance_def)
  show "dentry (dir_advance d) < 16" using eq e e1 by (auto simp: dir_advance_def word_less_nat_alt)
qed

text \<open>One step over a loaded sector: when it continues, the iterator has advanced by one entry.\<close>

lemma dir_step_advance:
  assumes "dir_lba c d0 st0 = (Some lba, d, st)" "load_sec c lba st = (FAT_OK, st1)" "dir_step c d0 st0 = (None, d', st')"
  shows "dcluster d' = dcluster d" "dsector d' = dsector (dir_advance d)" "dentry d' = dentry (dir_advance d)" "ddone d' = ddone d" "st' = st1"
proof -
  note step = assms(3) [unfolded dir_step_def assms(1,2) Let_def prod.case option.case, folded dir_advance_def]
  show "dcluster d' = dcluster d" "dsector d' = dsector (dir_advance d)" "dentry d' = dentry (dir_advance d)" "ddone d' = ddone d" "st' = st1"
    using step by (auto split: if_splits)
qed

lemma load_sec_geom: "geom (snd (load_sec c lba st)) = geom st"
  by (simp add: load_sec_def read_block_def geom_def split: option.split)

text \<open>An iteration that continues in the fixed root directory moves on by one entry.\<close>

lemma root_step:
  assumes "dcluster d = 0" "dentry d < 16" "dir_step c d st = (None, d', st')"
  shows "dcluster d' = 0" "dentry d' < 16" "dir_pos d' = Suc (dir_pos d)" "dir_pos d < unat (g_root_sectors st) * 16"
    "g_root_sectors st' = g_root_sectors st" "ddone d' = ddone d"
proof -
  have s: "unat (dsector d) < unat (g_root_sectors st)"
    using assms(1,3) by (auto simp: dir_step_def dir_lba_def word_le_nat_alt split: if_splits)
  have lba: "dir_lba c d st = (Some (g_root_lba st + dsector d), d, st)"
    using assms(1) s by (simp add: dir_lba_def word_le_nat_alt)
  obtain rc st1 where l: "load_sec c (g_root_lba st + dsector d) st = (rc, st1)" by (rule prod.exhaust)
  then have rc: "rc = FAT_OK" using assms(3) lba by (auto simp: dir_step_def split: if_splits)
  note A = dir_step_advance [OF lba l [unfolded rc] assms(3)]
  show "dcluster d' = 0" "ddone d' = ddone d" using A assms(1) by simp_all
  show "g_root_sectors st' = g_root_sectors st"
    using load_sec_geom [of c "g_root_lba st + dsector d" st] l A(5) by (simp add: geom_def)
  have "unat (dsector d) + 1 < 4294967296" using s unat_lt_u32 [of "g_root_sectors st"] by linarith
  note P = dir_advance_pos [OF assms(2) this]
  show "dentry d' < 16" "dir_pos d' = Suc (dir_pos d)" using P A by (simp_all add: dir_pos_def)
  show "dir_pos d < unat (g_root_sectors st) * 16" using s assms(2) by (simp add: dir_pos_def word_less_nat_alt)
qed

lemma dir_next_loop_step:
  "\<not> ddone d \<Longrightarrow> dir_step c d st = (None, d1, st1) \<Longrightarrow> dir_next_loop c d st = dir_next_loop c d1 st1"
  "ddone d \<Longrightarrow> dir_next_loop c d st = Some (DirEnd, d, st)"
  "\<not> ddone d \<Longrightarrow> dir_step c d st = (Some r, d1, st1) \<Longrightarrow> dir_next_loop c d st = Some (r, d1, st1)"
  by (subst dir_next_loop.simps, simp)+

text \<open>A measure that every continuing iteration lowers, under an invariant it keeps, makes the walk return.\<close>

lemma dir_walk_returns:
  assumes "\<And>i d st d' st'. I i d st \<Longrightarrow> dir_step c d st = (None, d', st') \<Longrightarrow> \<exists>j. I j d' st' \<and> m j d' st' < (m i d st :: nat)"
    and "I i d st"
  shows "\<exists>r. dir_next_loop c d st = Some r"
  using assms(2)
proof (induction "m i d st" arbitrary: i d st rule: less_induct)
  case less
  obtain r d1 st1 where s: "dir_step c d st = (r, d1, st1)" by (rule prod_cases3)
  show ?case
  proof (cases "ddone d \<or> r \<noteq> None")
    case True
    then show ?thesis using s dir_next_loop_step(2,3) by (cases r) blast+
  next
    case False
    then have e: "dir_step c d st = (None, d1, st1)" using s by simp
    with assms(1) [OF less.prems e] less.hyps have "\<exists>r. dir_next_loop c d1 st1 = Some r" by blast
    then show ?thesis using dir_next_loop_step(1) [OF _ e] False by simp
  qed
qed

lemma root_walk_returns:
  assumes "dcluster d = 0" "dentry d < 16"
  shows "\<exists>r. dir_next_loop c d st = Some r"
proof (rule dir_walk_returns [where I = "\<lambda>_ :: unit. \<lambda>d st. dcluster d = 0 \<and> dentry d < 16"
        and m = "\<lambda>_ d st. unat (g_root_sectors st) * 16 - dir_pos d"])
  fix d st d' st'
  assume "dcluster d = 0 \<and> dentry d < 16" "dir_step c d st = (None, d', st')"
  with root_step [of d c st d' st'] show "\<exists>_ :: unit. (dcluster d' = 0 \<and> dentry d' < 16)
    \<and> unat (g_root_sectors st') * 16 - dir_pos d' < unat (g_root_sectors st) * 16 - dir_pos d" by auto
qed (use assms in simp)

lemma is_eoc_geom: "geom st' = geom st \<Longrightarrow> is_eoc st' = is_eoc st"
  by (simp add: geom_def is_eoc_def fun_eq_iff)

lemma dir_ok_sector:
  assumes "dir_ok c st d"
  shows "unat (dsector d) \<le> unat (g_spc st)" "unat (g_spc st) \<le> 128" "1 \<le> unat (g_spc st)" "dcluster d \<noteq> 0"
    "dsector d = g_spc st \<Longrightarrow> dir_pos d = unat (g_spc st) * 16 \<and> dentry d = 0"
    "dsector d \<noteq> g_spc st \<Longrightarrow> unat (dsector d) < unat (g_spc st)"
proof -
  have p: "unat (dsector d) * 16 + unat (dentry d) \<le> unat (g_spc st) * 16" using assms by (simp add: dir_ok_def dir_pos_def)
  then show le: "unat (dsector d) \<le> unat (g_spc st)" by linarith
  show "unat (g_spc st) \<le> 128" "1 \<le> unat (g_spc st)" using assms by (auto simp: dir_ok_def geom_ok_def)
  show "dcluster d \<noteq> 0" using assms valid_cluster_nat [of st "dcluster d"] by (auto simp: dir_ok_def)
  show "dsector d = g_spc st \<Longrightarrow> dir_pos d = unat (g_spc st) * 16 \<and> dentry d = 0"
    using p by (simp add: dir_pos_def unat_eq_zero)
  show "dsector d \<noteq> g_spc st \<Longrightarrow> unat (dsector d) < unat (g_spc st)" using le by (simp add: word_unat_eq_iff)
qed

text \<open>The block of the iterator: within its cluster, or after a hop to the next one.\<close>

lemma dir_lba_cluster:
  assumes "dir_ok c st d"
  shows "dsector d \<noteq> g_spc st \<Longrightarrow> dir_lba c d st = (Some (clus_lba st (dcluster d) + dsector d), d, st)"
    and "dsector d = g_spc st \<Longrightarrow> \<exists>st1. geom st1 = geom st \<and> cache_ok c st1 \<and> dir_lba c d st =
      (let n = fat_entry c st (dcluster d) in
       if is_eoc st n \<or> \<not> valid_cluster st n then (None, d, st1)
       else (Some (clus_lba st n), d\<lparr>dcluster := n, dsector := 0\<rparr>, st1))"
proof -
  note S = dir_ok_sector [OF assms]
  show "dsector d \<noteq> g_spc st \<Longrightarrow> dir_lba c d st = (Some (clus_lba st (dcluster d) + dsector d), d, st)"
    using S(4,6) by (simp add: dir_lba_def word_le_nat_alt)
  assume e: "dsector d = g_spc st"
  obtain n st1 where f: "fat_next c (dcluster d) st = (n, st1)" by (rule prod.exhaust)
  from assms have "card_ok c" "cache_ok c st" "geom_ok st" "valid_cluster st (dcluster d)" by (auto simp: dir_ok_def)
  note F = fat_next_ok [OF this f]
  show "\<exists>st1. geom st1 = geom st \<and> cache_ok c st1 \<and> dir_lba c d st =
      (let n = fat_entry c st (dcluster d) in
       if is_eoc st n \<or> \<not> valid_cluster st n then (None, d, st1)
       else (Some (clus_lba st n), d\<lparr>dcluster := n, dsector := 0\<rparr>, st1))"
    using F e S(4) f geom_eqD(1,3) [OF F(2)] is_eoc_geom [OF F(2)] by (intro exI [of _ st1]) (simp add: dir_lba_def Let_def)
qed

text \<open>A continuing iteration takes one entry of the cluster, or hops to the next cluster of the chain and takes its first.\<close>

lemma clus_step:
  assumes "dir_ok c st d" "dir_step c d st = (None, d', st')"
  shows "geom st' = geom st \<and> ddone d' = ddone d \<and> dir_ok c st' d' \<and>
    (dcluster d' = dcluster d \<and> dir_pos d' = Suc (dir_pos d) \<and> dir_pos d < unat (g_spc st) * 16
     \<or> dcluster d' = fat_entry c st (dcluster d) \<and> dir_pos d = unat (g_spc st) * 16 \<and> dir_pos d' = 1
         \<and> valid_cluster st (dcluster d') \<and> \<not> is_eoc st (dcluster d'))"
proof -
  note S = dir_ok_sector [OF assms(1)]
  have ok: "card_ok c" "cache_ok c st" "geom_ok st" "valid_cluster st (dcluster d)" "dentry d < 16"
    using assms(1) by (auto simp: dir_ok_def)
  have adv: ?thesis if lba: "dir_lba c d st = (Some (clus_lba st (dcluster d1) + dsector d1), d1, st1)"
    and g: "geom st1 = geom st" "cache_ok c st1" and d1: "ddone d1 = ddone d" "dentry d1 < 16" "valid_cluster st (dcluster d1)"
      "unat (dsector d1) < unat (g_spc st)"
    and alt: "dcluster d1 = dcluster d \<and> dir_pos d1 = dir_pos d
     \<or> dcluster d1 = fat_entry c st (dcluster d) \<and> dir_pos d = unat (g_spc st) * 16 \<and> dir_pos d1 = 0 \<and> \<not> is_eoc st (dcluster d1)"
    for d1 st1
  proof -
    have nl: "clus_lba st (dcluster d1) + dsector d1 \<noteq> NO_LBA" using data_lba_below [OF ok(3) d1(3,4)] by simp
    obtain st2 where l: "load_sec c (clus_lba st (dcluster d1) + dsector d1) st1 = (FAT_OK, st2)" "geom st2 = geom st1" "cache_ok c st2"
      using load_sec_ok [OF ok(1) g(2) nl] by blast
    note A = dir_step_advance [OF lba l(1) assms(2)]
    have "unat (dsector d1) + 1 < 4294967296" using d1(4) S(2) by linarith
    note P = dir_advance_pos [OF d1(2) this]
    have g': "geom st' = geom st" using A(5) l(2) g(1) by simp
    have lt: "dir_pos d1 < unat (g_spc st) * 16" using d1(2,4) by (simp add: dir_pos_def word_less_nat_alt)
    have p': "dir_pos d' = Suc (dir_pos d1)" using P(1) A by (simp add: dir_pos_def)
    have "dir_ok c st' d'"
      using ok(1,3) l(3) A d1(3) P p' lt geom_eqD(1,5,6) [OF g'] by (simp add: dir_ok_def)
    then show ?thesis using g' A p' d1 lt alt by auto
  qed
  show ?thesis
  proof (cases "dsector d = g_spc st")
    case False
    with S(6) show ?thesis by (intro adv [OF dir_lba_cluster(1) [OF assms(1)]]) (use ok in auto)
  next
    case True
    let ?n = "fat_entry c st (dcluster d)"
    from dir_lba_cluster(2) [OF assms(1) True] obtain st1 where s1: "geom st1 = geom st" "cache_ok c st1" "dir_lba c d st =
      (if is_eoc st ?n \<or> \<not> valid_cluster st ?n then (None, d, st1) else (Some (clus_lba st ?n), d\<lparr>dcluster := ?n, dsector := 0\<rparr>, st1))"
      by (auto simp: Let_def)
    have v: "valid_cluster st ?n" "\<not> is_eoc st ?n" using s1(3) assms(2) by (auto simp: dir_step_def split: if_splits)
    with s1 S(3,5) True show ?thesis
      by (intro adv [of "d\<lparr>dcluster := ?n, dsector := 0\<rparr>" st1]) (use ok in \<open>auto simp: dir_pos_def\<close>)
  qed
qed

lemma chain_walk_returns:
  assumes "dir_ok c st d" "chain_ok c st ls" "i < length ls" "dcluster d = ls ! i"
    and fin: "is_eoc st (fat_entry c st (last ls)) \<or> \<not> valid_cluster st (fat_entry c st (last ls))"
  shows "\<exists>r. dir_next_loop c d st = Some r"
proof -
  define M where "M = unat (g_spc st) * 16"
  define N where "N = Suc M"
  define I where "I i d st' \<longleftrightarrow> geom st' = geom st \<and> dir_ok c st' d \<and> i < length ls \<and> dcluster d = ls ! i" for i d st'
  have step: "\<exists>j. I j d1 st1 \<and> (length ls - j) * N - dir_pos d1 < (length ls - i) * N - dir_pos d"
    if "I i d st'" and e: "dir_step c d st' = (None, d1, st1)" for i d st' d1 st1
  proof -
    have g: "geom st' = geom st" "dir_ok c st' d" "i < length ls" "dcluster d = ls ! i" using that(1) by (auto simp: I_def)
    note E = geom_eqD [OF g(1)] is_eoc_geom [OF g(1)]
    from clus_step [OF g(2) e] consider
      "geom st1 = geom st" "dir_ok c st1 d1" "dcluster d1 = ls ! i" "dir_pos d1 = Suc (dir_pos d)" "dir_pos d < M"
    | "geom st1 = geom st" "dir_ok c st1 d1" "dcluster d1 = fat_entry c st (ls ! i)" "dir_pos d = M" "dir_pos d1 = 1"
        "valid_cluster st (dcluster d1)" "\<not> is_eoc st (dcluster d1)"
      using g(1,4) E by (auto simp: M_def)
    then show ?thesis
    proof cases
      case 1
      moreover have "N \<le> (length ls - i) * N" using g(3) by (cases "length ls - i") auto
      ultimately show ?thesis using g by (intro exI [of _ i]) (auto simp: I_def N_def)
    next
      case 2
      have "Suc i \<noteq> length ls" using 2 fin g(3) last_conv_nth [of ls] by (cases "ls = []") (auto dest: arg_cong [where f = "\<lambda>n. n - 1"])
      then have i: "Suc i < length ls" using g(3) by simp
      then have nx: "fat_entry c st (ls ! i) = ls ! Suc i" using assms(2) by (simp add: chain_ok_def)
      have "length ls - i = Suc (length ls - Suc i)" using i by simp
      then have "(length ls - i) * N = N + (length ls - Suc i) * N" by simp
      then have "(length ls - Suc i) * N - dir_pos d1 < (length ls - i) * N - dir_pos d" using 2(4,5) by (simp add: N_def)
      then show ?thesis using 2 nx i by (intro exI [of _ "Suc i"]) (auto simp: I_def)
    qed
  qed
  have "I i d st" using assms by (simp add: I_def)
  from dir_walk_returns [of I c "\<lambda>j d _. (length ls - j) * N - dir_pos d", OF step this] show ?thesis by simp
qed

text \<open>A directory whose chain never leaves \<open>S\<close> and holds nothing but deleted entries.\<close>

definition all_deleted :: "card \<Rightarrow> fat \<Rightarrow> u32 set \<Rightarrow> bool" where
  "all_deleted c st S \<longleftrightarrow> (\<forall>cl \<in> S. valid_cluster st cl \<and> fat_entry c st cl \<in> S \<and> \<not> is_eoc st cl
     \<and> (\<forall>s < unat (g_spc st). \<forall>k < 16. the (sd_read_block c (clus_lba st cl + of_nat s)) ! (k * 32) = 0xE5))"

lemma deleted_step:
  assumes "dir_ok c st d" "all_deleted c st S" "dcluster d \<in> S"
  shows "\<exists>d' st'. dir_step c d st = (None, d', st') \<and> dcluster d' \<in> S"
proof -
  have ok: "card_ok c" "cache_ok c st" "geom_ok st" "dentry d < 16" using assms(1) by (auto simp: dir_ok_def)
  have go: "\<exists>d' st'. dir_step c d st = (None, d', st') \<and> dcluster d' \<in> S"
    if lba: "dir_lba c d st = (Some (clus_lba st (dcluster d1) + dsector d1), d1, st1)" and g: "geom st1 = geom st" "cache_ok c st1"
      and d1: "dcluster d1 \<in> S" "unat (dsector d1) < unat (g_spc st)" "dentry d1 = dentry d" for d1 st1
  proof -
    let ?lba = "clus_lba st (dcluster d1) + dsector d1"
    have v: "valid_cluster st (dcluster d1)" using assms(2) d1(1) by (simp add: all_deleted_def)
    have nl: "?lba \<noteq> NO_LBA" using data_lba_below [OF ok(3) v d1(2)] by simp
    obtain st2 where l: "load_sec c ?lba st1 = (FAT_OK, st2)" "g_sec st2 = the (sd_read_block c ?lba)"
      using load_sec_ok [OF ok(1) g(2) nl] by blast
    have len: "length (g_sec st2) = 512" using l(2) card_okD(1) [OF ok(1), of ?lba] by auto
    have k: "unat (dentry d) < 16" using ok(4) by (simp add: word_less_nat_alt)
    have "the (sd_read_block c (clus_lba st (dcluster d1) + of_nat (unat (dsector d1)))) ! (unat (dentry d) * 32) = 0xE5"
      using assms(2) d1(1,2) k unfolding all_deleted_def by blast
    then have "take 32 (drop (unat (dentry d1) * 32) (g_sec st2)) ! 0 = 0xE5" using l(2) d1(3) len k by simp
    then show ?thesis unfolding dir_step_def lba l(1) Let_def prod.case option.case using d1(1) by simp
  qed
  show ?thesis
  proof (cases "dsector d = g_spc st")
    case False
    then show ?thesis by (intro go [OF dir_lba_cluster(1) [OF assms(1)]]) (use assms(3) ok dir_ok_sector(6) [OF assms(1)] in auto)
  next
    case True
    let ?n = "fat_entry c st (dcluster d)"
    have n: "?n \<in> S" "valid_cluster st ?n" "\<not> is_eoc st ?n" using assms(2,3) by (auto simp: all_deleted_def)
    from dir_lba_cluster(2) [OF assms(1) True] n obtain st1 where "geom st1 = geom st" "cache_ok c st1"
      "dir_lba c d st = (Some (clus_lba st ?n), d\<lparr>dcluster := ?n, dsector := 0\<rparr>, st1)" by (auto simp: Let_def)
    then show ?thesis using n dir_ok_sector(3) [OF assms(1)]
      by (intro go [of "d\<lparr>dcluster := ?n, dsector := 0\<rparr>" st1]) simp_all
  qed
qed

lemma all_deleted_geom: "geom st' = geom st \<Longrightarrow> all_deleted c st' S = all_deleted c st S"
  using geom_eqD [of st' st] is_eoc_geom [of st' st] by (simp add: all_deleted_def)

lemma deleted_loop:
  assumes "dir_next_loop c d st = Some r"
  shows "dir_ok c st d \<longrightarrow> all_deleted c st S \<longrightarrow> dcluster d \<in> S \<longrightarrow> ddone d"
proof (rule dir_next_loop.raw_induct [OF _ assms], goal_cases)
  case (1 loop c d st r)
  show ?case
  proof (intro impI, rule ccontr)
    assume a: "dir_ok c st d" "all_deleted c st S" "dcluster d \<in> S" "\<not> ddone d"
    from deleted_step [OF a(1,2,3)] obtain d' st' where s: "dir_step c d st = (None, d', st')" "dcluster d' \<in> S" by blast
    note C = clus_step [OF a(1) s(1)]
    have "loop c d' st' = Some r" using 1(2) a(4) s(1) by simp
    then have "ddone d'" using 1(1) C s(2) a(2) all_deleted_geom [of st' st c S] by blast
    then show False using C a(4) by simp
  qed
qed

subsection \<open>A failed read at a cluster boundary\<close>

lemma fat_next_blocks: "fat_next (c\<lparr>sd_read_blocks := rb\<rparr>) cl st = fat_next c cl st"
  by (simp add: fat_next_def read_block_def Let_def)

lemma read_loop_step:
  "of_nat (length out) < n \<Longrightarrow> read_step c n out f st = (Some r, out1, f1, st1) \<Longrightarrow> read_loop c n out f st = Some (r, f1, st1)"
  "of_nat (length out) < n \<Longrightarrow> read_step c n out f st = (None, out1, f1, st1) \<Longrightarrow> read_loop c n out f st = read_loop c n out1 f1 st1"
  "\<not> of_nat (length out) < n \<Longrightarrow> read_loop c n out f st = Some (Inr out, f, st)"
  by (subst read_loop.simps, simp)+

lemma boundary_step:
  assumes "card_ok c" "cache_ok c st" "geom_ok st" "valid_cluster st (fcluster f)" "valid_cluster st (fat_entry c st (fcluster f))"
    and "fpos f \<noteq> 0" "fpos f mod (g_spc st * 512) = 0"
  shows "\<exists>st1. geom st1 = geom st \<and> cache_ok c st1 \<and> (\<forall>rb. read_step (c\<lparr>sd_read_blocks := rb\<rparr>) 512 [] f st =
    (case rb (clus_lba st (fat_entry c st (fcluster f))) 1 of
       None \<Rightarrow> (Some (Inl FAT_ERR_SD), [], f\<lparr>fcluster := fat_entry c st (fcluster f)\<rparr>, st1)
     | Some bs \<Rightarrow> (None, bs, f\<lparr>fcluster := fat_entry c st (fcluster f), fpos := fpos f + 512\<rparr>, st1)))"
proof -
  obtain nx st0 where n: "fat_next c (fcluster f) st = (nx, st0)" by (rule prod.exhaust)
  note F = fat_next_ok [OF assms(1-4) n]
  have n': "fat_next (c\<lparr>sd_read_blocks := rb\<rparr>) (fcluster f) st = (fat_entry c st (fcluster f), st0)" for rb
    using n F(1) by (simp add: fat_next_blocks)
  have fc: "fcluster f \<noteq> 0" using assms(4) valid_cluster_nat [OF assms(3)] by auto
  define st1 where "st1 = st0\<lparr>g_read_hops := g_read_hops st0 + 1, g_blocks_read := g_blocks_read st0 + 1\<rparr>"
  have g: "geom st1 = geom st" "cache_ok c st1" using F(2,3) by (simp_all add: st1_def geom_def cache_ok_def)
  have left: "(1 :: u32) \<le> (g_spc st * 512) div 512"
    using cbytes_nat [OF assms(3)] assms(3) by (simp add: word_le_nat_alt unat_div cluster_bytes_def geom_ok_def)
  have v: "valid_cluster st0 = valid_cluster st" "clus_lba st0 = clus_lba st" using geom_eqD [OF F(2)] by auto
  have v': "valid_cluster (st0\<lparr>g_read_hops := h\<rparr>) = valid_cluster st" "clus_lba (st0\<lparr>g_read_hops := h\<rparr>) = clus_lba st" for h
    using v by (simp_all add: fun_eq_iff valid_cluster_def clus_lba_def)
  have "read_step (c\<lparr>sd_read_blocks := rb\<rparr>) 512 [] f st =
    (case rb (clus_lba st (fat_entry c st (fcluster f))) 1 of
       None \<Rightarrow> (Some (Inl FAT_ERR_SD), [], f\<lparr>fcluster := fat_entry c st (fcluster f)\<rparr>, st1)
     | Some bs \<Rightarrow> (None, bs, f\<lparr>fcluster := fat_entry c st (fcluster f), fpos := fpos f + 512\<rparr>, st1))" for rb
    using assms(5-7) fc left v v' by (simp add: read_step_def n' Let_def read_stop_def st1_def not_le [symmetric] split: option.split)
  with g show ?thesis by blast
qed

text \<open>
  Retrying a failed read loses a cluster: when the card fails the first whole-sector read after a cluster boundary,
  \<^verbatim>\<open>read_impl\<close> reports \<open>FAT_ERR_SD\<close> with the position unchanged, but the file already names the next cluster; the
  same call again follows the chain once more and delivers the block of the cluster after it, at the same position.
\<close>

theorem fat_retry_skips:
  assumes "card_ok c" "cache_ok c st" "geom_ok st" "valid_cluster st (fcluster f)" "fpos f \<noteq> 0" "fpos f mod (g_spc st * 512) = 0"
    and "valid_cluster st (fat_entry c st (fcluster f))"
    and "valid_cluster st (fat_entry c st (fat_entry c st (fcluster f)))" and "512 \<le> fsize f - fpos f"
  shows "\<exists>f1 st1 f2 st2. read_impl (c\<lparr>sd_read_blocks := \<lambda>_ _. None\<rparr>) 512 f st = Some (Inl FAT_ERR_SD, f1, st1)
    \<and> fpos f1 = fpos f
    \<and> read_impl c 512 f1 st1 =
        Some (Inr (the (sd_read_blocks c (clus_lba st (fat_entry c st (fat_entry c st (fcluster f)))) 1)), f2, st2)"
proof -
  let ?n = "fat_entry c st (fcluster f)"
  have m: "g_mounted st" using assms(3) by (simp add: geom_ok_def)
  from boundary_step [OF assms(1-4,7,5,6)] obtain st1 where g: "geom st1 = geom st" "cache_ok c st1"
    and s: "read_step (c\<lparr>sd_read_blocks := \<lambda>_ _. None\<rparr>) 512 [] f st = (Some (Inl FAT_ERR_SD), [], f\<lparr>fcluster := ?n\<rparr>, st1)"
    by fastforce
  have r1: "read_impl (c\<lparr>sd_read_blocks := \<lambda>_ _. None\<rparr>) 512 f st = Some (Inl FAT_ERR_SD, f\<lparr>fcluster := ?n\<rparr>, st1)"
    using m read_loop_step(1) [OF _ s] assms(9) by (simp add: read_impl_def not_less [symmetric])
  note E = geom_eqD [OF g(1)]
  let ?f = "f\<lparr>fcluster := ?n\<rparr>"
  have "geom_ok st1" "valid_cluster st1 (fcluster ?f)" "valid_cluster st1 (fat_entry c st1 (fcluster ?f))"
    "fpos ?f \<noteq> 0" "fpos ?f mod (g_spc st1 * 512) = 0" using assms E by simp_all
  from boundary_step [OF assms(1) g(2) this] obtain st2 where
    s2: "\<And>rb. read_step (c\<lparr>sd_read_blocks := rb\<rparr>) 512 [] ?f st1 =
      (case rb (clus_lba st1 (fat_entry c st1 (fcluster ?f))) 1 of
         None \<Rightarrow> (Some (Inl FAT_ERR_SD), [], ?f\<lparr>fcluster := fat_entry c st1 (fcluster ?f)\<rparr>, st2)
       | Some bs \<Rightarrow> (None, bs, ?f\<lparr>fcluster := fat_entry c st1 (fcluster ?f), fpos := fpos ?f + 512\<rparr>, st2))" by blast
  obtain bs where b: "sd_read_blocks c (clus_lba st (fat_entry c st ?n)) 1 = Some bs" "length bs = 512"
    using card_okD(2) [OF assms(1), of "clus_lba st (fat_entry c st ?n)" 1] by auto
  have s2: "read_step c 512 [] (f\<lparr>fcluster := ?n\<rparr>) st1 = (None, bs, f\<lparr>fcluster := fat_entry c st ?n, fpos := fpos f + 512\<rparr>, st2)"
    using s2 [of "sd_read_blocks c"] b(1) E by simp
  have "g_mounted st1" using m g(1) by (simp add: geom_def)
  then have "read_impl c 512 (f\<lparr>fcluster := ?n\<rparr>) st1 = Some (Inr bs, f\<lparr>fcluster := fat_entry c st ?n, fpos := fpos f + 512\<rparr>, st2)"
    using read_loop_step(2) [OF _ s2] read_loop_step(3) [of bs 512] b assms(9) by (simp add: read_impl_def not_less [symmetric])
  with r1 b(1) show ?thesis by auto
qed

subsection \<open>A small volume\<close>

text \<open>A card with the table \<open>t\<close> in block 1 and \<open>b lba\<close> throughout every other block, and a FAT16 volume on it.\<close>

definition demo_block :: "u8 list \<Rightarrow> (u32 \<Rightarrow> u8) \<Rightarrow> u32 \<Rightarrow> u8 list" where
  "demo_block t b lba = (if lba = 1 then t else replicate 512 (b lba))"

definition demo_card :: "u8 list \<Rightarrow> (u32 \<Rightarrow> u8) \<Rightarrow> card" where
  "demo_card t b = \<lparr>sd_init_ok = True, sd_read_block = \<lambda>lba. Some (demo_block t b lba),
     sd_read_blocks = \<lambda>lba n. Some (concat (map (\<lambda>i. demo_block t b (lba + of_nat i)) [0..<unat n]))\<rparr>"

definition demo_table :: "u8 list \<Rightarrow> u8 list" where
  "demo_table es = [0, 0, 0, 0] @ es @ replicate (508 - length es) 0"

definition demo_vol :: fat where
  "demo_vol = \<lparr>g_mounted = True, g_fat32 = False, g_part_lba = 0, g_spc = 1, g_fat_lba = 1, g_fat_sectors = 1, g_root_lba = 2,
     g_root_sectors = 1, g_root_cluster = 0, g_data_lba = 3, g_clusters = 100, g_sec = [], g_sec_lba = NO_LBA, g_fatsec = [],
     g_fatsec_lba = NO_LBA, g_blocks_read = 0, g_read_hops = 0\<rparr>"

lemma nth_concat_blocks:
  assumes "\<And>x. x \<in> set xs \<Longrightarrow> length (f x) = 512" "r < length xs * 512"
  shows "concat (map f xs) ! r = f (xs ! (r div 512)) ! (r mod 512)"
  using assms
proof (induction xs arbitrary: r)
  case (Cons x xs)
  show ?case
  proof (cases "r < 512")
    case True
    then show ?thesis using Cons.prems by (simp add: nth_append)
  next
    case False
    then obtain q where q: "r = q + 512" using le_Suc_ex [of 512 r] by (auto simp: add.commute)
    then have "concat (map f xs) ! q = f (xs ! (q div 512)) ! (q mod 512)" using Cons by simp
    moreover have "(q + 512) div 512 = Suc (q div 512)" by simp
    ultimately show ?thesis using Cons.prems q by (simp add: nth_append del: div_add_self2)
  qed
qed simp

lemma demo_card_ok:
  assumes "length t = 512"
  shows "card_ok (demo_card t b)"
proof -
  have l: "length (demo_block t b lba) = 512" for lba using assms by (simp add: demo_block_def)
  have "length (concat (map (\<lambda>i. demo_block t b (lba + of_nat i)) [0..<n])) = n * 512" for lba n
    by (simp add: length_concat comp_def l sum_list_triv)
  moreover have "concat (map (\<lambda>i. demo_block t b (lba + of_nat i)) [0..<n]) ! r = demo_block t b (lba + of_nat (r div 512)) ! (r mod 512)"
    if "r < n * 512" for lba n r
  proof -
    have "r div 512 < n" using that by (simp add: div_less_iff_less_mult)
    then show ?thesis using that nth_concat_blocks [of "[0..<n]" "\<lambda>i. demo_block t b (lba + of_nat i)" r] l by simp
  qed
  ultimately show ?thesis by (auto simp: card_ok_def demo_card_def l)
qed

lemma demo_vol_ok: "geom_ok demo_vol" "cache_ok c demo_vol" "valid_cluster demo_vol cl \<longleftrightarrow> 2 \<le> cl \<and> cl < 102"
  by (simp_all add: geom_ok_def cache_ok_def demo_vol_def valid_cluster_def)

lemma demo_entry:
  "unat cl < 256 \<Longrightarrow> fat_entry (demo_card t b) demo_vol cl = le16 t (2 * unat cl)"
proof -
  assume a: "unat cl < 256"
  have m: "unat (cl * 2) = unat cl * 2" using a by (simp add: unat_word_ariths)
  then have "cl * 2 div 512 = 0" "unat (cl * 2 mod 512) = 2 * unat cl" using a by (simp_all add: word_unat_eq_iff unat_div unat_mod)
  then show ?thesis by (simp add: fat_entry_def demo_vol_def demo_card_def demo_block_def)
qed

lemmas demo_simps = demo_card_ok demo_vol_ok demo_entry demo_table_def le16_def

theorem fat_retry_skips_witness:
  "\<exists>f1 st1 f2 st2. read_impl (demo_card (demo_table [3, 0, 4, 0, 255, 255]) ucast\<lparr>sd_read_blocks := \<lambda>_ _. None\<rparr>) 512
      \<lparr>ffirst = 2, fsize = 1400, fpos = 512, fcluster = 2\<rparr> demo_vol = Some (Inl FAT_ERR_SD, f1, st1) \<and> fpos f1 = 512
    \<and> read_impl (demo_card (demo_table [3, 0, 4, 0, 255, 255]) ucast) 512 f1 st1 = Some (Inr (replicate 512 5), f2, st2)"
proof -
  let ?c = "demo_card (demo_table [3, 0, 4, 0, 255, 255]) ucast"
  have e: "fat_entry ?c demo_vol 2 = 3" "fat_entry ?c demo_vol 3 = 4" by (simp_all add: demo_simps)
  have "the (sd_read_blocks ?c (clus_lba demo_vol 4) 1) = replicate 512 5"
    by (simp add: demo_card_def demo_block_def demo_vol_def clus_lba_def)
  moreover have "geom_ok demo_vol" "cache_ok ?c demo_vol" "card_ok ?c" by (simp_all add: demo_simps)
  moreover have "g_spc demo_vol = 1" by (simp add: demo_vol_def)
  ultimately show ?thesis
    using fat_retry_skips [of ?c demo_vol "\<lparr>ffirst = 2, fsize = 1400, fpos = 512, fcluster = 2\<rparr>"] e by (simp add: demo_vol_ok)
qed

subsection \<open>Properties of files and directories\<close>

text \<open>
  Seeking and reading deliver the file (C16): on a card that answers, for an open file whose chain covers its size, a seek
  to any position followed by a read of any length returns exactly the bytes of the file from that position (clamped to the
  size) to the end of the request or of the file, and leaves the file ready for the next call.
\<close>

theorem fat_seek_read:
  assumes "card_ok c" "cache_ok c st" "file_ok c st ls f"
  shows "\<exists>f1 st1 f2 st2. seek_impl c pos f st = (FAT_OK, f1, st1)
    \<and> read_impl c n f1 st1 = Some (Inr (map (file_byte c st ls)
        [min (unat pos) (unat (fsize f))..<min (unat pos + unat n) (unat (fsize f))]), f2, st2)
    \<and> cache_ok c st2 \<and> file_ok c st2 ls f2 \<and> unat (fpos f2) = min (unat pos + unat n) (unat (fsize f))"
proof -
  from seek_impl_ok [OF assms, of pos] obtain f1 st1 where s: "seek_impl c pos f st = (FAT_OK, f1, st1)"
    "unat (fpos f1) = min (unat pos) (unat (fsize f))" "fsize f1 = fsize f" "geom st1 = geom st" "cache_ok c st1" "file_ok c st ls f1"
    by blast
  note G = geom_eq_file [OF s(4)]
  have "file_ok c st1 ls f1" using s(6) G by simp
  from read_impl_ok [OF assms(1) s(5) this, of n] obtain f2 st2 where
    r: "read_impl c n f1 st1 = Some (Inr (map (file_byte c st1 ls) [unat (fpos f1)..<min (unat (fpos f1) + unat n) (unat (fsize f1))]), f2, st2)"
    "unat (fpos f2) = min (unat (fpos f1) + unat n) (unat (fsize f1))" "geom st2 = geom st1" "cache_ok c st2" "file_ok c st1 ls f2" by blast
  have m: "min (min (unat pos) (unat (fsize f)) + unat n) (unat (fsize f)) = min (unat pos + unat n) (unat (fsize f))" by simp
  show ?thesis using s r G geom_eq_file [OF r(3)] m by auto
qed

theorem fat_seek_read_witness:
  "\<exists>f1 st1 f2 st2. seek_impl (demo_card (demo_table [3, 0, 4, 0, 255, 255]) ucast) 1022 \<lparr>ffirst = 2, fsize = 1400, fpos = 0, fcluster = 2\<rparr> demo_vol
      = (FAT_OK, f1, st1)
    \<and> read_impl (demo_card (demo_table [3, 0, 4, 0, 255, 255]) ucast) 4 f1 st1 = Some (Inr [4, 4, 5, 5], f2, st2)"
proof -
  let ?c = "demo_card (demo_table [3, 0, 4, 0, 255, 255]) ucast" and ?f = "\<lparr>ffirst = 2, fsize = 1400, fpos = 0, fcluster = 2\<rparr> :: fat_file_t"
  have e: "fat_entry ?c demo_vol 2 = 3" "fat_entry ?c demo_vol 3 = 4" by (simp_all add: demo_simps)
  have ch: "chain_ok ?c demo_vol [2, 3, 4]"
    using e by (auto simp: chain_ok_def demo_vol_ok less_Suc_eq nth_Cons')
  have cb: "cluster_bytes demo_vol = 512" by (simp add: cluster_bytes_def demo_vol_def)
  have "file_ok ?c demo_vol [2, 3, 4] ?f" using ch cb by (simp add: file_ok_def at_pos_def demo_vol_ok)
  moreover have "cache_ok ?c demo_vol" "card_ok ?c" by (simp_all add: demo_simps)
  moreover have "map (file_byte ?c demo_vol [2, 3, 4]) [1022..<1026] = [4, 4, 5, 5]"
    by (simp add: upt_rec [of 1022] upt_rec [of 1023] upt_rec [of 1024] upt_rec [of 1025] file_byte_def demo_card_def demo_block_def demo_vol_def clus_lba_def)
  ultimately show ?thesis using fat_seek_read [of ?c demo_vol "[2, 3, 4]" ?f 1022 4] by simp blast
qed

text \<open>
  A directory walk returns: in the fixed root region of a FAT16 volume on any card, and in a directory whose cluster
  chain ends, \<^verbatim>\<open>dir_next_impl\<close> gives an entry, the end or an error after finitely many iterations, whatever the sectors hold.
\<close>

theorem fat_dir_returns:
  assumes "dcluster d = 0 \<and> dentry d < 16
    \<or> dir_ok c st d \<and> chain_ok c st ls \<and> dcluster d \<in> set ls
       \<and> (is_eoc st (fat_entry c st (last ls)) \<or> \<not> valid_cluster st (fat_entry c st (last ls)))"
  shows "\<exists>r. dir_next_impl c d st = Some r"
proof -
  have "\<exists>r. dir_next_loop c d st = Some r"
    using assms root_walk_returns chain_walk_returns by (metis in_set_conv_nth)
  then show ?thesis by (simp add: dir_next_impl_def)
qed

theorem fat_dir_returns_witness:
  "\<exists>r. dir_next_impl (demo_card (demo_table [3, 0, 255, 255]) (\<lambda>_. 0xE5)) (dir_start 2 dir_blank) demo_vol = Some r"
proof -
  let ?c = "demo_card (demo_table [3, 0, 255, 255]) (\<lambda>_. 0xE5)"
  have e: "fat_entry ?c demo_vol 2 = 3" "fat_entry ?c demo_vol 3 = 0xFFFF" by (simp_all add: demo_simps)
  have "chain_ok ?c demo_vol [2, 3]" using e by (auto simp: chain_ok_def demo_vol_ok less_Suc_eq nth_Cons')
  moreover have "dir_ok ?c demo_vol (dir_start 2 dir_blank)"
    by (simp add: dir_ok_def dir_start_def dir_blank_def dir_pos_def demo_vol_ok demo_card_ok demo_table_def)
  moreover have "is_eoc demo_vol 0xFFFF" by (simp add: is_eoc_def demo_vol_def)
  ultimately show ?thesis
    using fat_dir_returns [of "dir_start 2 dir_blank" ?c demo_vol "[2, 3]"] e by (simp add: dir_start_def)
qed

text \<open>
  A cyclic directory is walked forever: when the chain of a directory never leaves a set of clusters that holds only
  deleted entries, \<^verbatim>\<open>dir_next_impl\<close> does not return: no bound on the clusters visited breaks the loop.
\<close>

theorem fat_dir_hang:
  assumes "dir_ok c st d" "all_deleted c st S" "dcluster d \<in> S" "\<not> ddone d"
  shows "dir_next_impl c d st = None"
proof (cases "dir_next_loop c d st")
  case None
  then show ?thesis using assms(1) by (simp add: dir_next_impl_def dir_ok_def geom_ok_def)
next
  case (Some r)
  with deleted_loop [OF Some, of S] assms show ?thesis by blast
qed

theorem fat_dir_hang_witness:
  "dir_next_impl (demo_card (demo_table [3, 0, 2, 0]) (\<lambda>_. 0xE5)) (dir_start 2 dir_blank) demo_vol = None"
proof -
  let ?c = "demo_card (demo_table [3, 0, 2, 0]) (\<lambda>_. 0xE5)"
  have e: "fat_entry ?c demo_vol 2 = 3" "fat_entry ?c demo_vol 3 = 2" by (simp_all add: demo_simps)
  have "all_deleted ?c demo_vol {2, 3}"
    using e by (simp add: all_deleted_def demo_vol_ok) (auto simp: is_eoc_def demo_vol_def demo_card_def demo_block_def clus_lba_def)
  moreover have "dir_ok ?c demo_vol (dir_start 2 dir_blank)"
    by (simp add: dir_ok_def dir_start_def dir_blank_def dir_pos_def demo_vol_ok demo_card_ok demo_table_def)
  ultimately show ?thesis
    by (intro fat_dir_hang [of ?c demo_vol _ "{2, 3}"]) (simp_all add: dir_start_def dir_blank_def)
qed

subsection \<open>Long names\<close>

text \<open>
  How the format lays out a long name: the code units of \<open>name\<close>, then a zero, then \<open>0xFFFF\<close> as padding, thirteen to an entry;
  entry \<open>k\<close> of \<open>n\<close> (from 1) carries its number, the last one marked with \<open>0x40\<close>, and the checksum of the short name.
\<close>

definition lfn_unit :: "u32 list \<Rightarrow> nat \<Rightarrow> u32" where
  "lfn_unit name p = (if p < length name then name ! p else if p = length name then 0 else 0xFFFF)"

definition is_fragment :: "u32 list \<Rightarrow> u8 \<Rightarrow> nat \<Rightarrow> nat \<Rightarrow> u8 list \<Rightarrow> bool" where
  "is_fragment name cs n k ent \<longleftrightarrow> ent ! 0 = (of_nat k OR (if k = n then 0x40 else 0)) \<and> ent ! 13 = cs
     \<and> (\<forall>i < 13. le16 ent (lfn_at ! i) = lfn_unit name ((k - 1) * 13 + i))"

definition name_ok :: "u32 list \<Rightarrow> bool" where
  "name_ok name \<longleftrightarrow> (\<forall>ch \<in> set name. ch \<noteq> 0 \<and> ch < 0xFFFF)"

definition lfn_byte :: "u32 \<Rightarrow> u8" where
  "lfn_byte ch = (if ch < 0x80 then ucast ch else 63)"

text \<open>The buffer that holds the units of \<open>name\<close> from position \<open>lo\<close> on, and the mark of a name that did not fit.\<close>

definition lfn_from :: "u32 list \<Rightarrow> nat \<Rightarrow> nat \<Rightarrow> fat_dir_t \<Rightarrow> fat_dir_t \<Rightarrow> bool" where
  "lfn_from name lo hi d d' \<longleftrightarrow> length (dlfn d') = length (dlfn d) \<and> lfn_sum d' = lfn_sum d
     \<and> (\<forall>p < length (dlfn d). dlfn d' ! p = (if lo \<le> p \<and> p < hi \<and> p < length name \<and> p < 63 then lfn_byte (name ! p) else dlfn d ! p))
     \<and> lfn_valid d' = (if \<exists>p. lo \<le> p \<and> p < hi \<and> p < length name \<and> 63 \<le> p then 2 else lfn_valid d)"

lemma lfn_from_skip:
  "lfn_from name lo hi d d' \<Longrightarrow> \<not> hi < length name \<Longrightarrow> lfn_from name lo (Suc hi) d d'"
  unfolding lfn_from_def using less_Suc_eq by auto

lemma lfn_from_put:
  assumes "lfn_from name lo hi d d'" "hi < length name" "lo \<le> hi"
  shows "hi < 63 \<Longrightarrow> lfn_from name lo (Suc hi) d (d'\<lparr>dlfn := (dlfn d')[hi := lfn_byte (name ! hi)]\<rparr>)"
    "63 \<le> hi \<Longrightarrow> lfn_from name lo (Suc hi) d (d'\<lparr>lfn_valid := 2\<rparr>)"
proof -
  note D = assms(1) [unfolded lfn_from_def]
  show "lfn_from name lo (Suc hi) d (d'\<lparr>dlfn := (dlfn d')[hi := lfn_byte (name ! hi)]\<rparr>)" if "hi < 63"
  proof -
    have "(\<exists>p. lo \<le> p \<and> p < Suc hi \<and> p < length name \<and> 63 \<le> p) = (\<exists>p. lo \<le> p \<and> p < hi \<and> p < length name \<and> 63 \<le> p)"
      using that by (intro ex_cong1) (auto simp: less_Suc_eq)
    moreover have "(dlfn d')[hi := v] ! p = (if p = hi then v else dlfn d' ! p)" if "p < length (dlfn d)" for p v
      using that D by (cases "p = hi") simp_all
    ultimately show ?thesis unfolding lfn_from_def using D assms(2,3) that by (auto simp: less_Suc_eq)
  qed
  show "lfn_from name lo (Suc hi) d (d'\<lparr>lfn_valid := 2\<rparr>)" if "63 \<le> hi"
  proof -
    have "\<exists>p. lo \<le> p \<and> p < Suc hi \<and> p < length name \<and> 63 \<le> p" using that assms by auto
    then show ?thesis unfolding lfn_from_def using D that by (auto simp: less_Suc_eq)
  qed
qed

lemma lfn_run:
  assumes "name_ok name" "\<And>i. i < m \<Longrightarrow> ch i = lfn_unit name (lo + i)" "lo + m < 4294967296"
  shows "lfn_from name lo (lo + m) d (fold (\<lambda>i. lfn_put (of_nat lo + of_nat i) (ch i)) [0..<m] d)"
  using assms(2,3)
proof (induction m)
  case (Suc m)
  let ?d = "fold (\<lambda>i. lfn_put (of_nat lo + of_nat i) (ch i)) [0..<m] d"
  have IH: "lfn_from name lo (lo + m) d ?d" using Suc by simp
  have u: "unat (of_nat lo + of_nat m :: u32) = lo + m"
    using Suc.prems(2) unat_of_nat_u32 [of "lo + m"] by simp
  have c: "ch m = lfn_unit name (lo + m)" using Suc.prems(1) by simp
  have nz: "lo + m < length name \<Longrightarrow> name ! (lo + m) \<noteq> 0 \<and> name ! (lo + m) \<noteq> 0xFFFF"
    using assms(1) nth_mem [of "lo + m" name] unfolding name_ok_def by fastforce
  have ge: "FAT_NAME_MAX - 1 \<le> (of_nat lo + of_nat m :: u32) \<longleftrightarrow> 63 \<le> lo + m" by (simp add: word_le_nat_alt u)
  show ?case
  proof (cases "lo + m < length name")
    case False
    then have "lfn_put (of_nat lo + of_nat m) (ch m) ?d = ?d" by (simp add: lfn_put_def c lfn_unit_def)
    then show ?thesis using lfn_from_skip [OF IH] False by simp
  next
    case True
    then have "lfn_put (of_nat lo + of_nat m) (ch m) x = (if 63 \<le> lo + m then x\<lparr>lfn_valid := 2\<rparr>
        else x\<lparr>dlfn := (dlfn x)[lo + m := lfn_byte (name ! (lo + m))]\<rparr>)" for x
      using nz u ge by (auto simp: lfn_put_def c lfn_unit_def lfn_byte_def)
    then show ?thesis using lfn_from_put [OF IH True] by simp
  qed
qed (auto simp: lfn_from_def)

lemma fragment_ord:
  assumes "1 \<le> k" "k \<le> 20"
  shows "(ucast (of_nat k OR (if l then 0x40 else 0) :: u8) :: u32) AND 0x3F = of_nat k"
    "((of_nat k OR (if l then 0x40 else 0) :: u8) AND 0x40 \<noteq> 0) = l"
proof -
  have "k = 1 \<or> k = 2 \<or> k = 3 \<or> k = 4 \<or> k = 5 \<or> k = 6 \<or> k = 7 \<or> k = 8 \<or> k = 9 \<or> k = 10 \<or> k = 11 \<or> k = 12 \<or> k = 13 \<or> k = 14
    \<or> k = 15 \<or> k = 16 \<or> k = 17 \<or> k = 18 \<or> k = 19 \<or> k = 20" using assms by presburger
  then show "(ucast (of_nat k OR (if l then 0x40 else 0) :: u8) :: u32) AND 0x3F = of_nat k"
    "((of_nat k OR (if l then 0x40 else 0) :: u8) AND 0x40 \<noteq> 0) = l"
    by (cases l; elim disjE; simp)+
qed

lemma fragment_run:
  assumes "name_ok name" "is_fragment name cs n k ent" "1 \<le> k" "k \<le> 20"
    and "k \<noteq> n \<Longrightarrow> lfn_valid d \<noteq> 0 \<and> lfn_sum d = cs"
  shows "lfn_from name ((k - 1) * 13) (k * 13)
    (if k = n then d\<lparr>dlfn := map (\<lambda>_. 0) (dlfn d), lfn_valid := 1, lfn_sum := cs\<rparr> else d) (lfn_entry ent d)"
proof -
  have e: "ent ! 0 = (of_nat k OR (if k = n then 0x40 else 0))" "ent ! 13 = cs"
    "\<And>i. i < 13 \<Longrightarrow> le16 ent (lfn_at ! i) = lfn_unit name ((k - 1) * 13 + i)" using assms(2) by (auto simp: is_fragment_def)
  note O = fragment_ord [OF assms(3,4), of "k = n"]
  have k0: "(of_nat k :: u32) \<noteq> 0" using assms(3,4) by (simp add: word_unat_eq_iff unat_of_nat_u32)
  have b: "(of_nat k - 1) * 13 = (of_nat ((k - 1) * 13) :: u32)" using assms(3) by (simp add: of_nat_diff)
  have "(k - 1) * 13 + 13 < 4294967296" using assms(4) by simp
  from lfn_run [of name 13 "\<lambda>i. le16 ent (lfn_at ! i)", OF assms(1) e(3) this]
  have R: "lfn_from name ((k - 1) * 13) (k * 13) d' (fold (\<lambda>i. lfn_put (of_nat ((k - 1) * 13) + of_nat i) (le16 ent (lfn_at ! i))) [0..<13] d')" for d'
    using assms(3) by (simp add: algebra_simps)
  show ?thesis
    using R assms(5) unfolding lfn_entry_def Let_def e(1,2) O(1) b using O(2) k0 by (auto simp del: of_nat_mult)
qed

lemma lfn_from_trans:
  assumes "lfn_from name mid hi d d1" "lfn_from name lo mid d1 d2" "lo \<le> mid" "mid \<le> hi"
  shows "lfn_from name lo hi d d2"
proof -
  have "(\<exists>p. lo \<le> p \<and> p < hi \<and> p < length name \<and> 63 \<le> p) \<longleftrightarrow>
    (\<exists>p. mid \<le> p \<and> p < hi \<and> p < length name \<and> 63 \<le> p) \<or> (\<exists>p. lo \<le> p \<and> p < mid \<and> p < length name \<and> 63 \<le> p)"
    using assms(3,4) by (meson dual_order.trans less_le_trans not_le)
  then show ?thesis using assms unfolding lfn_from_def by auto
qed

lemma fragments_run:
  assumes "name_ok name" "n \<le> 20" "length es = n" "\<And>j. j < n \<Longrightarrow> is_fragment name cs n (n - j) (es ! j)" "1 \<le> j" "j \<le> n"
  shows "lfn_from name ((n - j) * 13) (n * 13) (d\<lparr>dlfn := map (\<lambda>_. 0) (dlfn d), lfn_valid := 1, lfn_sum := cs\<rparr>)
    (fold lfn_entry (take j es) d)"
  using assms(5,6)
proof (induction j rule: dec_induct)
  case base
  then have "take 1 es = [es ! 0]" using assms(3) by (cases es) auto
  moreover have "is_fragment name cs n n (es ! 0)" using assms(4) [of 0] base by simp
  note fragment_run [OF assms(1) this, of d]
  ultimately show ?case using base assms(2) by simp
next
  case (step j)
  let ?d0 = "d\<lparr>dlfn := map (\<lambda>_. 0) (dlfn d), lfn_valid := 1, lfn_sum := cs\<rparr>" and ?d1 = "fold lfn_entry (take j es) d"
  have IH: "lfn_from name ((n - j) * 13) (n * 13) ?d0 ?d1" using step by simp
  then have v: "lfn_valid ?d1 \<noteq> 0 \<and> lfn_sum ?d1 = cs" by (auto simp: lfn_from_def)
  have t: "take (Suc j) es = take j es @ [es ! j]" using step assms(3) by (simp add: take_Suc_conv_app_nth)
  have "lfn_from name ((n - j - 1) * 13) ((n - j) * 13) (if n - j = n then ?d1\<lparr>dlfn := map (\<lambda>_. 0) (dlfn ?d1), lfn_valid := 1, lfn_sum := cs\<rparr> else ?d1)
      (lfn_entry (es ! j) ?d1)"
    by (rule fragment_run [OF assms(1) assms(4)]) (use step assms(2) v in auto)
  moreover have "n - j \<noteq> n" using step by simp
  ultimately have "lfn_from name ((n - Suc j) * 13) ((n - j) * 13) ?d1 (lfn_entry (es ! j) ?d1)" by simp
  from lfn_from_trans [OF IH this] show ?case unfolding t by simp
qed

lemma lfn_byte_nonzero: "ch \<noteq> 0 \<Longrightarrow> lfn_byte ch \<noteq> 0"
proof -
  assume a: "ch \<noteq> 0"
  have "unat (ucast ch :: u8) = unat ch" if "ch < 0x80"
    using that by (simp add: unsigned_ucast_eq word_less_nat_alt take_bit_nat_def)
  with a show ?thesis by (auto simp: lfn_byte_def word_unat_eq_iff)
qed

text \<open>
  Long names round-trip: when the entries before a short entry are the fragments the format prescribes for a name, last
  first and with the checksum of that short entry, the entry that \<^verbatim>\<open>dir_next_impl\<close> reports carries the name, its code
  units above 0x7F replaced by a question mark, cut to 63 characters; the truncation flag is set exactly when it was cut.
\<close>

theorem fat_long_name:
  assumes "name_ok name" "1 \<le> n" "n \<le> 20" "length name \<le> n * 13" "length es = n"
    and "\<forall>j < n. is_fragment name (sfn_checksum ent) n (n - j) (es ! j)" and "length (dlfn d) = 64"
  shows "ename (dir_entry st ent (fold lfn_entry es d)) = map lfn_byte (take 63 name)
    \<and> etruncated (dir_entry st ent (fold lfn_entry es d)) = (63 < length name)"
proof -
  let ?d = "fold lfn_entry es d"
  have "lfn_from name 0 (n * 13) (d\<lparr>dlfn := map (\<lambda>_. 0) (dlfn d), lfn_valid := 1, lfn_sum := sfn_checksum ent\<rparr>) ?d"
    using fragments_run [OF assms(1,3,5), of "sfn_checksum ent" n d] assms(2,5,6) by simp
  then have f: "length (dlfn ?d) = 64" "lfn_sum ?d = sfn_checksum ent"
    "\<And>p. p < 64 \<Longrightarrow> dlfn ?d ! p = (if p < n * 13 \<and> p < length name \<and> p < 63 then lfn_byte (name ! p) else 0)"
    "lfn_valid ?d = (if \<exists>p. p < n * 13 \<and> p < length name \<and> 63 \<le> p then 2 else 1)"
    using assms(7) by (auto simp: lfn_from_def)
  have v: "lfn_valid ?d = (if 63 < length name then 2 else 1)"
  proof -
    have "(\<exists>p. p < n * 13 \<and> p < length name \<and> 63 \<le> p) \<longleftrightarrow> 63 < length name"
      using assms(4) by (meson le_less_trans less_le_trans order_refl)
    then show ?thesis using f(4) by simp
  qed
  let ?m = "map lfn_byte (take 63 name)"
  have "take 63 (dlfn ?d) = ?m @ replicate (63 - length ?m) 0"
    using f(1,3) assms(4) by (intro nth_equalityI) (auto simp: nth_append)
  moreover have "lfn_byte ch \<noteq> 0" if "ch \<in> set (take 63 name)" for ch
    using that assms(1) in_set_takeD [of ch 63 name] by (intro lfn_byte_nonzero) (auto simp: name_ok_def)
  ultimately have "long_name (dlfn ?d) = ?m"
    by (auto simp: long_name_def takeWhile_append takeWhile_replicate)
  then show ?thesis using f(2) v by (simp add: dir_entry_def Let_def)
qed

theorem fat_long_name_witness:
  "ename (dir_entry demo_vol ([65, 66, 32, 32, 32, 32, 32, 32, 84, 88, 84, 0x20] @ replicate 20 0)
     (fold lfn_entry [[0x41, 97, 0, 0xE9, 0, 0, 0] @ replicate 4 0xFF @ [0x0F, 0, 110] @ replicate 18 0xFF] dir_blank)) = [97, 63]"
proof -
  let ?ent = "[65, 66, 32, 32, 32, 32, 32, 32, 84, 88, 84, 0x20] @ replicate 20 0 :: u8 list"
    and ?e = "[0x41, 97, 0, 0xE9, 0, 0, 0] @ replicate 4 0xFF @ [0x0F, 0, 110] @ replicate 18 0xFF :: u8 list"
  have c: "sfn_checksum ?ent = 110" by code_simp
  have "is_fragment [97, 0xE9] 110 1 1 ?e"
    by code_simp
  then show ?thesis
    using fat_long_name [of "[97, 0xE9]" 1 "[?e]" ?ent dir_blank demo_vol] c by (simp add: name_ok_def dir_blank_def lfn_byte_def)
qed

subsection \<open>Mounting\<close>

text \<open>A cluster size: one bit set, within a byte.\<close>

definition spc_ok :: "u32 \<Rightarrow> bool" where
  "spc_ok s \<longleftrightarrow> s \<noteq> 0 \<and> s AND (s - 1) = 0 \<and> unat s < 256"

lemma spc_cases: "looks_like_bpb b \<Longrightarrow> spc_ok (ucast (b ! 13))"
  using unsigned_less [of "b ! 13", where ?'a = nat]
  by (simp add: looks_like_bpb_def spc_ok_def Let_def unsigned_ucast_eq take_bit_nat_def)

text \<open>What a successful mount leaves: a cluster size and a cluster count of the type it chose.\<close>

definition mount_ok :: "fat \<Rightarrow> bool" where
  "mount_ok st \<longleftrightarrow> spc_ok (g_spc st) \<and> 4085 \<le> g_clusters st \<and> g_fat32 st = (65525 \<le> g_clusters st)
     \<and> g_fat32 st = (g_root_sectors st = 0) \<and> (\<not> g_fat32 st \<longrightarrow> g_root_cluster st = 0)"

lemma mount_geometry_ok:
  assumes "mount_geometry st = (rc, st')" "looks_like_bpb (g_sec st)" "\<not> g_mounted st"
  shows "(rc = FAT_OK \<longleftrightarrow> g_mounted st')" "rc = FAT_OK \<Longrightarrow> mount_ok st'" "g_sec_lba st' = g_sec_lba st" "g_fatsec_lba st' = g_fatsec_lba st"
    "rc = FAT_OK \<or> rc = FAT_ERR_TYPE"
  using assms(1,3) spc_cases [OF assms(2)] unfolding mount_geometry_def Let_def mount_ok_def
  by (simp_all split: if_splits) (auto simp: not_less)

text \<open>
  Mounting refuses what it cannot read: the volume is mounted exactly when the result is \<open>FAT_OK\<close>, then with a
  cluster size that has one bit set and the FAT type that the cluster count prescribes; both block caches start empty.
\<close>

theorem fat_mount_sound:
  assumes "mount_impl c st0 = (rc, st)"
  shows "(rc = FAT_OK \<longleftrightarrow> g_mounted st) \<and> (rc = FAT_OK \<longrightarrow> mount_ok st) \<and> cache_ok c' st"
proof -
  define Q where "Q r s \<longleftrightarrow> (r = FAT_OK \<longleftrightarrow> g_mounted s) \<and> (r = FAT_OK \<longrightarrow> mount_ok s) \<and> cache_ok c' s" for r s
  have geo: "Q r s" if "mount_geometry st1 = (r, s)" "looks_like_bpb (g_sec st1)" "\<not> g_mounted st1"
    "g_sec_lba st1 = NO_LBA" "g_fatsec_lba st1 = NO_LBA" for st1 r s
    using mount_geometry_ok [OF that(1-3)] that(4,5) by (simp add: Q_def cache_ok_def)
  have err: "Q r s" if "r \<noteq> FAT_OK" "\<not> g_mounted s" "g_sec_lba s = NO_LBA" "g_fatsec_lba s = NO_LBA" for r s
    using that by (simp add: Q_def cache_ok_def)
  have "Q rc st"
    using assms unfolding mount_impl_def Let_def read_block_def
    by (auto split: if_splits option.splits simp del: find_partition.simps intro: geo err)
  then show ?thesis by (simp add: Q_def)
qed

end
