(* ===== verification/KOsi.thy ===== *)
theory KOsi
  imports KSched KArena
begin

text \<open>
  The operating-system services the radio library is given, \<^verbatim>\<open>kernel/wifi_osi_impl.c\<close>: semaphores and recursive mutexes,
  queues, event groups, timers and the allocator entry points, over the task table, the heap and the memory. The library
  itself is not in the repository: its callbacks are a parameter. A blocking call is a loop of rounds; between two
  rounds the caller sleeps on a mask of waiters, and whatever the rest of the system does meanwhile is the parameter
  \<open>env\<close>. The loops are partial functions, \<open>None\<close> a wait that never ends.
\<close>

subsection \<open>Data\<close>

abbreviation (input) OSI_SEM_MAX :: nat where "OSI_SEM_MAX \<equiv> 12"
abbreviation (input) OSI_QUEUE_MAX :: nat where "OSI_QUEUE_MAX \<equiv> 8"
abbreviation (input) OSI_EVT_MAX :: nat where "OSI_EVT_MAX \<equiv> 4"
abbreviation (input) OSI_TIMER_MAX :: nat where "OSI_TIMER_MAX \<equiv> 24"
abbreviation (input) OSI_QUEUE_BYTES :: u32 where "OSI_QUEUE_BYTES \<equiv> 4096"
abbreviation (input) OSI_MAX_DELAY :: u32 where "OSI_MAX_DELAY \<equiv> 0xFFFFFFFF"
abbreviation (input) OSI_SIZES :: u32 where "OSI_SIZES \<equiv> 40"

text \<open>The cap on a wait without limit, in ticks, as the header derives it from milliseconds.\<close>

definition OSI_FOREVER_CAP :: u32 where
  "OSI_FOREVER_CAP = 4000 * (80000000 div 1000) div 800000"

record osi_sem_t =
  sem_used :: bool
  sem_count :: u32
  sem_max :: u32
  sem_waiters :: u32
  sem_recursive :: bool
  sem_owner :: int
  sem_depth :: u32

record osi_queue_t =
  q_used :: bool
  q_item_size :: u32
  q_capacity :: u32
  q_head :: u32
  q_tail :: u32
  q_len :: u32
  q_waiters_recv :: u32
  q_waiters_send :: u32
  q_buf :: u32

record osi_evt_t =
  e_used :: bool
  e_bits :: u32
  e_waiters :: u32

record osi_timer_t =
  t_used :: bool
  t_armed :: bool
  t_periodic :: bool
  t_period_ticks :: u32
  t_due_tick :: u32
  t_fn :: u32
  t_arg :: u32
  t_owner :: u32

text \<open>The counters of the allocator entry points.\<close>

record alloc_stats =
  g_osi_alloc_calls :: u32
  g_osi_alloc_bytes :: u32
  g_osi_alloc_max :: u32
  g_osi_alloc_fails :: u32
  g_osi_fail_size :: u32
  g_osi_fail_free :: u32
  g_osi_fail_largest :: u32
  g_osi_fail_blocks :: u32
  g_osi_sizes :: "u32 list"
  g_osi_sizes_n :: u32
  g_osi_free_calls :: u32
  g_osi_heap_used :: u32
  g_osi_heap_hw :: u32
  g_osi_heap_largest :: u32
  g_osi_heap_minfree :: u32

text \<open>The statics of the file, the address of the timer pool, and the parts of the kernel the calls change: the tick
  counter, the task table, the heap and the memory.\<close>

record osi =
  g_sem :: "osi_sem_t list"
  g_queue :: "osi_queue_t list"
  g_evt :: "osi_evt_t list"
  g_timer :: "osi_timer_t list"
  g_timer_at :: u32
  g_timer_short :: u32
  g_sem_owner :: "u32 list"
  g_thread_sem :: "u32 list"
  g_osi_capped :: u32
  g_osi_capped_where :: u32
  g_service_task :: int
  g_time_us_hi_latch :: u32
  ostats :: alloc_stats
  oticks :: u32
  osched :: sched
  oheap :: heap
  omem :: memory

subsection \<open>Handles\<close>

definition H_MAKE :: "nat \<Rightarrow> u32" where
  "H_MAKE i = 0x05100000 OR of_nat i"

definition H_INDEX :: "u32 \<Rightarrow> nat" where
  "H_INDEX h = unat (h AND 0xFFF)"

definition H_OK :: "u32 \<Rightarrow> nat \<Rightarrow> bool" where
  "H_OK h n \<longleftrightarrow> h AND 0xFFF00000 = 0x05100000 \<and> H_INDEX h < n"

text \<open>The first unused slot of a pool.\<close>

fun first_unused :: "bool list \<Rightarrow> nat \<Rightarrow> nat option" where
  "first_unused [] i = None"
| "first_unused (u # us) i = (if \<not> u then Some i else first_unused us (Suc i))"

definition upd_sem :: "nat \<Rightarrow> (osi_sem_t \<Rightarrow> osi_sem_t) \<Rightarrow> osi \<Rightarrow> osi" where
  "upd_sem i f st = st\<lparr>g_sem := (g_sem st)[i := f (g_sem st ! i)]\<rparr>"

definition upd_queue :: "nat \<Rightarrow> (osi_queue_t \<Rightarrow> osi_queue_t) \<Rightarrow> osi \<Rightarrow> osi" where
  "upd_queue i f st = st\<lparr>g_queue := (g_queue st)[i := f (g_queue st ! i)]\<rparr>"

definition upd_evt :: "nat \<Rightarrow> (osi_evt_t \<Rightarrow> osi_evt_t) \<Rightarrow> osi \<Rightarrow> osi" where
  "upd_evt i f st = st\<lparr>g_evt := (g_evt st)[i := f (g_evt st ! i)]\<rparr>"

definition upd_timer :: "nat \<Rightarrow> (osi_timer_t \<Rightarrow> osi_timer_t) \<Rightarrow> osi \<Rightarrow> osi" where
  "upd_timer i f st = st\<lparr>g_timer := (g_timer st)[i := f (g_timer st ! i)]\<rparr>"

subsection \<open>Blocking\<close>

function wake_loop :: "int \<Rightarrow> u32 \<Rightarrow> sched \<Rightarrow> sched" where
  "wake_loop i m st =
     (if m = 0 then st else wake_loop (i + 1) (drop_bit 1 m) (if m AND 1 \<noteq> 0 then task_wake i st else st))"
  by auto
termination
  by (relation "measure (\<lambda>(i, m, st). unat m)") (auto simp: drop_bit_eq_div unat_div unat_gt_0 [symmetric] intro: div_less_dividend)

declare wake_loop.simps [simp del]

text \<open>A mask of waiters is given by how it is read (\<open>get\<close>) and rewritten (\<open>upd\<close>) in the state.\<close>

definition wake_all :: "(osi \<Rightarrow> u32) \<Rightarrow> ((u32 \<Rightarrow> u32) \<Rightarrow> osi \<Rightarrow> osi) \<Rightarrow> osi \<Rightarrow> osi" where
  "wake_all get upd st =
     (let m = get st; st1 = upd (\<lambda>_. 0) st in st1\<lparr>osched := wake_loop 0 m (osched st1)\<rparr>)"

text \<open>\<^verbatim>\<open>wait_on\<close> up to and after the sleep of one tick; a caller before the scheduler runs does not wait.\<close>

definition wait_enter :: "((u32 \<Rightarrow> u32) \<Rightarrow> osi \<Rightarrow> osi) \<Rightarrow> osi \<Rightarrow> osi" where
  "wait_enter upd st =
     (let me = g_current (osched st) in
      if me < 0 then st
      else let st1 = upd (\<lambda>m. m OR push_bit (nat me) 1) st
           in st1\<lparr>osched := snd (snd (task_sleep 1 (oticks st1) (osched st1)))\<rparr>)"

definition wait_leave :: "((u32 \<Rightarrow> u32) \<Rightarrow> osi \<Rightarrow> osi) \<Rightarrow> int \<Rightarrow> osi \<Rightarrow> osi" where
  "wait_leave upd me st = (if me < 0 then st else upd (\<lambda>m. m AND NOT (push_bit (nat me) 1)) st)"

text \<open>The loop of a blocking call: rounds that return a result or, with \<open>None\<close>, wait for a tick.\<close>

partial_function (option) wait_loop ::
    "(u32 \<Rightarrow> osi \<Rightarrow> u32 option \<times> osi) \<Rightarrow> ((u32 \<Rightarrow> u32) \<Rightarrow> osi \<Rightarrow> osi) \<Rightarrow> (u32 \<Rightarrow> osi \<Rightarrow> osi) \<Rightarrow> u32 \<Rightarrow> osi \<Rightarrow> (u32 \<times> osi) option" where
  "wait_loop round upd env spent st =
     (case round spent st of
        (Some r, st1) \<Rightarrow> Some (r, st1)
      | (None, st1) \<Rightarrow>
          wait_loop round upd env (spent + 1) (wait_leave upd (g_current (osched st1)) (env spent (wait_enter upd st1))))"

subsection \<open>Semaphores\<close>

definition osi_impl_sem_create :: "u32 \<Rightarrow> u32 \<Rightarrow> osi \<Rightarrow> u32 \<times> osi" where
  "osi_impl_sem_create mx init st =
     (case first_unused (map sem_used (g_sem st)) 0 of
        None \<Rightarrow> (0, st)
      | Some i \<Rightarrow> (H_MAKE i, upd_sem i (\<lambda>s. s\<lparr>sem_used := True, sem_count := init,
          sem_max := (if mx \<noteq> 0 then mx else 1), sem_waiters := 0\<rparr>) st))"

definition osi_impl_thread_sem_get :: "osi \<Rightarrow> u32 \<times> osi" where
  "osi_impl_thread_sem_get st =
     (let me = g_current (osched st) in
      if me < 0 \<or> me \<ge> int TASK_MAX then (0, st)
      else if g_thread_sem st ! nat me = 0 then
        (let (h, st1) = osi_impl_sem_create 1 0 st in (h, st1\<lparr>g_thread_sem := (g_thread_sem st1)[nat me := h]\<rparr>))
      else (g_thread_sem st ! nat me, st))"

definition osi_impl_sem_delete :: "u32 \<Rightarrow> osi \<Rightarrow> osi" where
  "osi_impl_sem_delete h st = (if H_OK h OSI_SEM_MAX then upd_sem (H_INDEX h) (\<lambda>s. s\<lparr>sem_used := False\<rparr>) st else st)"

abbreviation sem_mask :: "nat \<Rightarrow> (u32 \<Rightarrow> u32) \<Rightarrow> osi \<Rightarrow> osi" where
  "sem_mask i f \<equiv> upd_sem i (\<lambda>s. s\<lparr>sem_waiters := f (sem_waiters s)\<rparr>)"

definition sem_take_round :: "u32 \<Rightarrow> u32 \<Rightarrow> u32 \<Rightarrow> osi \<Rightarrow> u32 option \<times> osi" where
  "sem_take_round h ticks spent st =
     (let i = H_INDEX h; s = g_sem st ! i; me = g_current (osched st) in
      if sem_recursive s \<and> sem_depth s \<noteq> 0 \<and> sem_owner s = me
      then (Some 1, upd_sem i (\<lambda>s. s\<lparr>sem_depth := sem_depth s + 1\<rparr>) st)
      else if sem_count s \<noteq> 0 then
        let st1 = upd_sem i (\<lambda>s. s\<lparr>sem_count := sem_count s - 1\<rparr>) st;
            st2 = (if sem_recursive s then upd_sem i (\<lambda>s. s\<lparr>sem_owner := me, sem_depth := 1\<rparr>) st1 else st1)
        in (Some 1, st2\<lparr>g_sem_owner := (g_sem_owner st2)[i := of_int (me + 1)]\<rparr>)
      else if ticks \<noteq> OSI_MAX_DELAY \<and> spent \<ge> ticks then (Some 0, st)
      else (None, st))"

definition osi_impl_sem_take :: "(u32 \<Rightarrow> osi \<Rightarrow> osi) \<Rightarrow> u32 \<Rightarrow> u32 \<Rightarrow> osi \<Rightarrow> (u32 \<times> osi) option" where
  "osi_impl_sem_take env h ticks st =
     (if \<not> H_OK h OSI_SEM_MAX then Some (0, st)
      else wait_loop (sem_take_round h ticks) (sem_mask (H_INDEX h)) env 0 st)"

definition osi_impl_sem_give :: "u32 \<Rightarrow> osi \<Rightarrow> u32 \<times> osi" where
  "osi_impl_sem_give h st =
     (if \<not> H_OK h OSI_SEM_MAX then (0, st)
      else
        let i = H_INDEX h; s = g_sem st ! i; mine = (sem_recursive s \<and> sem_depth s \<noteq> 0 \<and> sem_owner s = g_current (osched st));
            st1 = (if mine then upd_sem i (\<lambda>s. s\<lparr>sem_depth := sem_depth s - 1\<rparr>) st else st)
        in
        if mine \<and> sem_depth (g_sem st1 ! i) \<noteq> 0 then (1, st1)
        else
          let st2 = (if mine then upd_sem i (\<lambda>s. s\<lparr>sem_owner := -1\<rparr>) st1 else st1);
              st3 = (if sem_count (g_sem st2 ! i) < sem_max (g_sem st2 ! i)
                     then upd_sem i (\<lambda>s. s\<lparr>sem_count := sem_count s + 1\<rparr>) st2 else st2)
          in (1, wake_all (\<lambda>st. sem_waiters (g_sem st ! i)) (sem_mask i) st3))"

definition osi_impl_recursive_mutex_create :: "osi \<Rightarrow> u32 \<times> osi" where
  "osi_impl_recursive_mutex_create st =
     (let (h, st1) = osi_impl_sem_create 1 1 st in
      if h \<noteq> 0 then (h, upd_sem (H_INDEX h) (\<lambda>s. s\<lparr>sem_recursive := True, sem_owner := -1, sem_depth := 0\<rparr>) st1) else (h, st1))"

subsection \<open>Queues\<close>

definition osi_impl_queue_create :: "u32 \<Rightarrow> u32 \<Rightarrow> osi \<Rightarrow> (u32 \<times> osi) option" where
  "osi_impl_queue_create len item_size st =
     (if item_size = 0 \<or> len = 0 \<or> len * item_size > OSI_QUEUE_BYTES then Some (0, st)
      else case heap_alloc (len * item_size) (oheap st) of
          None \<Rightarrow> None
        | Some (buf, h) \<Rightarrow>
            let st1 = st\<lparr>oheap := h\<rparr> in
            if buf = 0 then Some (0, st1)
            else case first_unused (map q_used (g_queue st1)) 0 of
                Some i \<Rightarrow> Some (H_MAKE i, upd_queue i (\<lambda>q. \<lparr>q_used = True, q_item_size = item_size, q_capacity = len,
                  q_head = 0, q_tail = 0, q_len = 0, q_waiters_recv = 0, q_waiters_send = 0, q_buf = buf\<rparr>) st1)
              | None \<Rightarrow> Some (0, st1\<lparr>oheap := heap_free buf (oheap st1)\<rparr>))"

definition osi_impl_queue_delete :: "u32 \<Rightarrow> osi \<Rightarrow> osi" where
  "osi_impl_queue_delete h st =
     (if \<not> H_OK h OSI_QUEUE_MAX then st
      else let i = H_INDEX h; buf = q_buf (g_queue st ! i);
               st1 = upd_queue i (\<lambda>q. q\<lparr>q_buf := 0, q_used := False\<rparr>) st
           in st1\<lparr>oheap := heap_free buf (oheap st1)\<rparr>)"

fun copy_n :: "u32 \<Rightarrow> u32 \<Rightarrow> nat \<Rightarrow> memory \<Rightarrow> memory" where
  "copy_n d s 0 m = m"
| "copy_n d s (Suc n) m = copy_n (d + 1) (s + 1) n (m(d := m s))"

abbreviation recv_mask :: "nat \<Rightarrow> (u32 \<Rightarrow> u32) \<Rightarrow> osi \<Rightarrow> osi" where
  "recv_mask i f \<equiv> upd_queue i (\<lambda>q. q\<lparr>q_waiters_recv := f (q_waiters_recv q)\<rparr>)"

abbreviation send_mask :: "nat \<Rightarrow> (u32 \<Rightarrow> u32) \<Rightarrow> osi \<Rightarrow> osi" where
  "send_mask i f \<equiv> upd_queue i (\<lambda>q. q\<lparr>q_waiters_send := f (q_waiters_send q)\<rparr>)"

definition queue_send_round :: "u32 \<Rightarrow> u32 \<Rightarrow> u32 \<Rightarrow> bool \<Rightarrow> u32 \<Rightarrow> osi \<Rightarrow> u32 option \<times> osi" where
  "queue_send_round h item ticks to_front spent st =
     (let i = H_INDEX h; q = g_queue st ! i in
      if q_len q < q_capacity q then
        let hd = (q_head q + q_capacity q - 1) mod q_capacity q;
            slot = (if to_front then hd else q_tail q);
            st1 = (if to_front then upd_queue i (\<lambda>q. q\<lparr>q_head := hd\<rparr>) st
                   else upd_queue i (\<lambda>q. q\<lparr>q_tail := (q_tail q + 1) mod q_capacity q\<rparr>) st);
            st2 = st1\<lparr>omem := copy_n (q_buf q + slot * q_item_size q) item (unat (q_item_size q)) (omem st1)\<rparr>;
            st3 = upd_queue i (\<lambda>q. q\<lparr>q_len := q_len q + 1\<rparr>) st2
        in (Some 1, wake_all (\<lambda>st. q_waiters_recv (g_queue st ! i)) (recv_mask i) st3)
      else if ticks \<noteq> OSI_MAX_DELAY \<and> spent \<ge> ticks then (Some 0, st)
      else (None, st))"

definition osi_impl_queue_send :: "(u32 \<Rightarrow> osi \<Rightarrow> osi) \<Rightarrow> u32 \<Rightarrow> u32 \<Rightarrow> u32 \<Rightarrow> bool \<Rightarrow> osi \<Rightarrow> (u32 \<times> osi) option" where
  "osi_impl_queue_send env h item ticks to_front st =
     (if \<not> H_OK h OSI_QUEUE_MAX \<or> item = 0 then Some (0, st)
      else wait_loop (queue_send_round h item ticks to_front) (send_mask (H_INDEX h)) env 0 st)"

definition osi_impl_queue_send_isr :: "(u32 \<Rightarrow> osi \<Rightarrow> osi) \<Rightarrow> u32 \<Rightarrow> u32 \<Rightarrow> osi \<Rightarrow> (u32 \<times> osi) option" where
  "osi_impl_queue_send_isr env h item st = osi_impl_queue_send env h item 0 False st"

definition osi_impl_wake_senders :: "u32 \<Rightarrow> osi \<Rightarrow> osi" where
  "osi_impl_wake_senders h st =
     (if \<not> H_OK h OSI_QUEUE_MAX then st
      else wake_all (\<lambda>st. q_waiters_send (g_queue st ! H_INDEX h)) (send_mask (H_INDEX h)) st)"

definition queue_recv_round :: "u32 \<Rightarrow> u32 \<Rightarrow> u32 \<Rightarrow> u32 \<Rightarrow> osi \<Rightarrow> u32 option \<times> osi" where
  "queue_recv_round h item ticks spent st =
     (let i = H_INDEX h; q = g_queue st ! i in
      if q_len q \<noteq> 0 then
        let st1 = st\<lparr>omem := copy_n item (q_buf q + q_head q * q_item_size q) (unat (q_item_size q)) (omem st)\<rparr>;
            st2 = upd_queue i (\<lambda>q. q\<lparr>q_head := (q_head q + 1) mod q_capacity q, q_len := q_len q - 1\<rparr>) st1
        in (Some 1, wake_all (\<lambda>st. q_waiters_send (g_queue st ! i)) (send_mask i) st2)
      else if ticks \<noteq> OSI_MAX_DELAY \<and> spent \<ge> ticks then (Some 0, st)
      else if ticks = OSI_MAX_DELAY \<and> spent \<ge> OSI_FOREVER_CAP
      then (Some 0, st\<lparr>g_osi_capped := g_osi_capped st + 1, g_osi_capped_where := 2\<rparr>)
      else (None, st))"

definition osi_impl_queue_recv :: "(u32 \<Rightarrow> osi \<Rightarrow> osi) \<Rightarrow> u32 \<Rightarrow> u32 \<Rightarrow> u32 \<Rightarrow> osi \<Rightarrow> (u32 \<times> osi) option" where
  "osi_impl_queue_recv env h item ticks st =
     (if \<not> H_OK h OSI_QUEUE_MAX \<or> item = 0 then Some (0, st)
      else wait_loop (queue_recv_round h item ticks) (recv_mask (H_INDEX h)) env 0 st)"

definition osi_impl_queue_waiting :: "u32 \<Rightarrow> osi \<Rightarrow> u32" where
  "osi_impl_queue_waiting h st = (if H_OK h OSI_QUEUE_MAX then q_len (g_queue st ! H_INDEX h) else 0)"

subsection \<open>Event groups\<close>

definition osi_impl_evt_create :: "osi \<Rightarrow> u32 \<times> osi" where
  "osi_impl_evt_create st =
     (case first_unused (map e_used (g_evt st)) 0 of
        None \<Rightarrow> (0, st)
      | Some i \<Rightarrow> (H_MAKE i, upd_evt i (\<lambda>e. \<lparr>e_used = True, e_bits = 0, e_waiters = 0\<rparr>) st))"

definition osi_impl_evt_delete :: "u32 \<Rightarrow> osi \<Rightarrow> osi" where
  "osi_impl_evt_delete h st = (if H_OK h OSI_EVT_MAX then upd_evt (H_INDEX h) (\<lambda>e. e\<lparr>e_used := False\<rparr>) st else st)"

abbreviation evt_mask :: "nat \<Rightarrow> (u32 \<Rightarrow> u32) \<Rightarrow> osi \<Rightarrow> osi" where
  "evt_mask i f \<equiv> upd_evt i (\<lambda>e. e\<lparr>e_waiters := f (e_waiters e)\<rparr>)"

definition osi_impl_evt_set :: "u32 \<Rightarrow> u32 \<Rightarrow> osi \<Rightarrow> u32 \<times> osi" where
  "osi_impl_evt_set h bits st =
     (if \<not> H_OK h OSI_EVT_MAX then (0, st)
      else let i = H_INDEX h; st1 = upd_evt i (\<lambda>e. e\<lparr>e_bits := e_bits e OR bits\<rparr>) st
           in (e_bits (g_evt st1 ! i), wake_all (\<lambda>st. e_waiters (g_evt st ! i)) (evt_mask i) st1))"

definition osi_impl_evt_clear :: "u32 \<Rightarrow> u32 \<Rightarrow> osi \<Rightarrow> u32 \<times> osi" where
  "osi_impl_evt_clear h bits st =
     (if \<not> H_OK h OSI_EVT_MAX then (0, st)
      else let i = H_INDEX h; st1 = upd_evt i (\<lambda>e. e\<lparr>e_bits := e_bits e AND NOT bits\<rparr>) st in (e_bits (g_evt st1 ! i), st1))"

definition evt_wait_round :: "u32 \<Rightarrow> u32 \<Rightarrow> bool \<Rightarrow> bool \<Rightarrow> u32 \<Rightarrow> u32 \<Rightarrow> osi \<Rightarrow> u32 option \<times> osi" where
  "evt_wait_round h bits clear all ticks spent st =
     (let i = H_INDEX h; e = g_evt st ! i; got = e_bits e AND bits in
      if (if all then got = bits else got \<noteq> 0)
      then (Some got, if clear then upd_evt i (\<lambda>e. e\<lparr>e_bits := e_bits e AND NOT bits\<rparr>) st else st)
      else if ticks \<noteq> OSI_MAX_DELAY \<and> spent \<ge> ticks then (Some (e_bits e), st)
      else (None, st))"

definition osi_impl_evt_wait :: "(u32 \<Rightarrow> osi \<Rightarrow> osi) \<Rightarrow> u32 \<Rightarrow> u32 \<Rightarrow> bool \<Rightarrow> bool \<Rightarrow> u32 \<Rightarrow> osi \<Rightarrow> (u32 \<times> osi) option" where
  "osi_impl_evt_wait env h bits clear all ticks st =
     (if \<not> H_OK h OSI_EVT_MAX then Some (0, st)
      else wait_loop (evt_wait_round h bits clear all ticks) (evt_mask (H_INDEX h)) env 0 st)"

subsection \<open>Timers\<close>

text \<open>The address of a slot of the pool; a slot is eight words.\<close>

definition timer_addr :: "osi \<Rightarrow> nat \<Rightarrow> u32" where
  "timer_addr st i = g_timer_at st + 32 * of_nat i"

definition osi_impl_timer_alloc :: "osi \<Rightarrow> u32 \<times> osi" where
  "osi_impl_timer_alloc st =
     (case first_unused (map t_used (g_timer st)) 0 of
        None \<Rightarrow> (0, st)
      | Some i \<Rightarrow> (timer_addr st i, upd_timer i (\<lambda>t. t\<lparr>t_used := True, t_armed := False, t_fn := 0\<rparr>) st))"

fun timer_scan :: "osi \<Rightarrow> u32 \<Rightarrow> nat list \<Rightarrow> nat option" where
  "timer_scan st p [] = None"
| "timer_scan st p (i # is) =
     (if t_used (g_timer st ! i) \<and> t_owner (g_timer st ! i) = p then Some i
      else if timer_addr st i = p then Some i else timer_scan st p is)"

definition timer_of :: "u32 \<Rightarrow> osi \<Rightarrow> nat option" where
  "timer_of p st = (if p = 0 then None else timer_scan st p [0..<OSI_TIMER_MAX])"

definition timer_bind :: "u32 \<Rightarrow> osi \<Rightarrow> nat option \<times> osi" where
  "timer_bind p st =
     (if p = 0 then (None, st)
      else case timer_of p st of
          Some i \<Rightarrow> (Some i, st)
        | None \<Rightarrow>
            (case first_unused (map t_used (g_timer st)) 0 of
               Some i \<Rightarrow> (Some i, upd_timer i (\<lambda>t. t\<lparr>t_used := True, t_armed := False, t_periodic := False, t_fn := 0,
                   t_arg := 0, t_owner := p\<rparr>) st)
             | None \<Rightarrow> (None, st\<lparr>g_timer_short := g_timer_short st + 1\<rparr>)))"

definition osi_impl_timer_setfn :: "u32 \<Rightarrow> u32 \<Rightarrow> u32 \<Rightarrow> osi \<Rightarrow> osi" where
  "osi_impl_timer_setfn p fn arg st =
     (case timer_bind p st of
        (None, st1) \<Rightarrow> st1
      | (Some i, st1) \<Rightarrow> upd_timer i (\<lambda>t. t\<lparr>t_fn := fn, t_arg := arg\<rparr>) st1)"

text \<open>\<open>mk\<close> is the creation of the service task, \<^verbatim>\<open>task_create("wifitmr", osi_service_task)\<close>.\<close>

definition osi_impl_service_start :: "(sched \<Rightarrow> int \<times> sched) \<Rightarrow> osi \<Rightarrow> int \<times> osi" where
  "osi_impl_service_start mk st =
     (if g_service_task st \<ge> 0 then (g_service_task st, st)
      else let (id, sc) = mk (osched st) in (id, st\<lparr>g_service_task := id, osched := sc\<rparr>))"

definition arm_ticks :: "(sched \<Rightarrow> int \<times> sched) \<Rightarrow> u32 \<Rightarrow> u32 \<Rightarrow> bool \<Rightarrow> osi \<Rightarrow> osi" where
  "arm_ticks mk p ticks0 periodic st0 =
     (case timer_bind p (snd (osi_impl_service_start mk st0)) of
        (None, st) \<Rightarrow> st
      | (Some i, st) \<Rightarrow>
          let ticks = (if ticks0 = 0 then 1 else ticks0)
          in upd_timer i (\<lambda>t. t\<lparr>t_period_ticks := ticks, t_due_tick := oticks st + ticks, t_periodic := periodic, t_armed := True\<rparr>) st)"

definition osi_impl_timer_arm :: "(sched \<Rightarrow> int \<times> sched) \<Rightarrow> u32 \<Rightarrow> u32 \<Rightarrow> bool \<Rightarrow> osi \<Rightarrow> osi" where
  "osi_impl_timer_arm mk p ms periodic st = arm_ticks mk p (ms div 10) periodic st"

definition osi_impl_timer_arm_us :: "(sched \<Rightarrow> int \<times> sched) \<Rightarrow> u32 \<Rightarrow> u32 \<Rightarrow> bool \<Rightarrow> osi \<Rightarrow> osi" where
  "osi_impl_timer_arm_us mk p us periodic st = arm_ticks mk p (us div 10000) periodic st"

definition osi_impl_timer_disarm :: "u32 \<Rightarrow> osi \<Rightarrow> osi" where
  "osi_impl_timer_disarm p st =
     (case timer_of p st of None \<Rightarrow> st | Some i \<Rightarrow> upd_timer i (\<lambda>t. t\<lparr>t_armed := False\<rparr>) st)"

definition osi_impl_timer_done :: "u32 \<Rightarrow> osi \<Rightarrow> osi" where
  "osi_impl_timer_done p st =
     (case timer_of p st of None \<Rightarrow> st | Some i \<Rightarrow> upd_timer i (\<lambda>t. t\<lparr>t_armed := False, t_used := False, t_fn := 0\<rparr>) st)"

text \<open>\<open>call\<close> is \<^verbatim>\<open>blob_call\<close>: the library's function with its argument, and what it does to the state.\<close>

definition service_step :: "(u32 \<Rightarrow> u32 \<Rightarrow> osi \<Rightarrow> osi) \<Rightarrow> u32 \<Rightarrow> nat \<Rightarrow> osi \<Rightarrow> osi" where
  "service_step call now i st =
     (let t = g_timer st ! i in
      if \<not> t_used t \<or> \<not> t_armed t \<or> t_fn t = 0 then st
      else if sint (now - t_due_tick t) \<ge> 0 then
        call (t_fn t) (t_arg t)
          (if t_periodic t then upd_timer i (\<lambda>t. t\<lparr>t_due_tick := now + t_period_ticks t\<rparr>) st
           else upd_timer i (\<lambda>t. t\<lparr>t_armed := False\<rparr>) st)
      else st)"

definition osi_impl_timer_service :: "(u32 \<Rightarrow> u32 \<Rightarrow> osi \<Rightarrow> osi) \<Rightarrow> osi \<Rightarrow> osi" where
  "osi_impl_timer_service call st = fold (service_step call (oticks st)) [0..<OSI_TIMER_MAX] st"

subsection \<open>Memory and time\<close>

text \<open>The heap walks of the report are those of the heap component; \<open>None\<close> is a walk that does not end.\<close>

definition note_failure :: "u32 \<Rightarrow> heap \<Rightarrow> alloc_stats \<Rightarrow> alloc_stats option" where
  "note_failure n h a =
     (let a1 = a\<lparr>g_osi_alloc_fails := g_osi_alloc_fails a + 1\<rparr> in
      if g_osi_fail_size a1 \<noteq> 0 then Some a1
      else case (heap_free_bytes h, heap_largest_free h, heap_blocks h) of
          (Some fb, Some lf, Some bl) \<Rightarrow> Some (a1\<lparr>g_osi_fail_size := (if n \<noteq> 0 then n else 1), g_osi_fail_free := fb,
             g_osi_fail_largest := lf, g_osi_fail_blocks := bl\<rparr>)
        | _ \<Rightarrow> None)"

definition osi_alloc_note :: "u32 \<Rightarrow> u32 \<Rightarrow> osi \<Rightarrow> osi option" where
  "osi_alloc_note n p st =
     (let a0 = ostats st; h = oheap st;
          a1 = (if g_osi_sizes_n a0 < OSI_SIZES then a0\<lparr>g_osi_sizes := (g_osi_sizes a0)[unat (g_osi_sizes_n a0) := n]\<rparr> else a0);
          a2 = a1\<lparr>g_osi_sizes_n := g_osi_sizes_n a1 + 1, g_osi_alloc_calls := g_osi_alloc_calls a1 + 1,
                  g_osi_alloc_bytes := g_osi_alloc_bytes a1 + n,
                  g_osi_alloc_max := (if n > g_osi_alloc_max a1 then n else g_osi_alloc_max a1)\<rparr>
      in case (if p = 0 then note_failure n h a2 else Some a2) of
          None \<Rightarrow> None
        | Some a3 \<Rightarrow>
            (case (heap_largest_free h, heap_free_bytes h) of
               (Some lf, Some f) \<Rightarrow>
                 let a4 = a3\<lparr>g_osi_heap_used := g_used h, g_osi_heap_hw := g_high_water h, g_osi_heap_largest := lf\<rparr>
                 in Some (st\<lparr>ostats := (if g_osi_heap_minfree a4 = 0 \<or> f < g_osi_heap_minfree a4
                                        then a4\<lparr>g_osi_heap_minfree := f\<rparr> else a4)\<rparr>)
             | _ \<Rightarrow> None))"

definition osi_impl_malloc :: "u32 \<Rightarrow> osi \<Rightarrow> (u32 \<times> osi) option" where
  "osi_impl_malloc n st =
     (case heap_alloc (if n \<noteq> 0 then n else 1) (oheap st) of
        None \<Rightarrow> None
      | Some (p, h) \<Rightarrow> (case osi_alloc_note n p (st\<lparr>oheap := h\<rparr>) of None \<Rightarrow> None | Some st1 \<Rightarrow> Some (p, st1)))"

definition osi_impl_free :: "u32 \<Rightarrow> osi \<Rightarrow> osi" where
  "osi_impl_free p st =
     st\<lparr>ostats := (ostats st)\<lparr>g_osi_free_calls := g_osi_free_calls (ostats st) + 1\<rparr>, oheap := heap_free p (oheap st)\<rparr>"

definition osi_impl_calloc :: "u32 \<Rightarrow> u32 \<Rightarrow> osi \<Rightarrow> (u32 \<times> osi) option" where
  "osi_impl_calloc count sz st =
     (let n = count * sz in
      case heap_alloc (if n \<noteq> 0 then n else 1) (oheap st) of
        None \<Rightarrow> None
      | Some (p, h) \<Rightarrow>
          (case osi_alloc_note n p (st\<lparr>oheap := h\<rparr>) of
             None \<Rightarrow> None
           | Some st1 \<Rightarrow> Some (p, if p \<noteq> 0 then st1\<lparr>omem := zero_bytes (omem st1) p (unat n)\<rparr> else st1)))"

definition osi_impl_free_heap :: "osi \<Rightarrow> u32 option" where
  "osi_impl_free_heap st = heap_free_bytes (oheap st)"

definition osi_impl_ms_to_tick :: "u32 \<Rightarrow> u32" where
  "osi_impl_ms_to_tick ms = (if ms div 10 \<noteq> 0 then ms div 10 else 1)"

text \<open>The clock in microseconds: the tick counter for the whole ticks, the cycle counter since the tick was first seen
  for the rest, capped so that it does not run into the next tick. \<open>cc\<close> is the cycle counter, read before the
  critical section, \<open>t\<close> the tick counter, read inside it.\<close>

abbreviation (input) OSI_CYCLES_PER_US :: u32 where "OSI_CYCLES_PER_US \<equiv> 80"
abbreviation (input) OSI_US_PER_TICK :: u32 where "OSI_US_PER_TICK \<equiv> 10000"

record time_anchor =
  s_tick :: u32
  s_cc :: u32
  s_have :: bool

definition osi_impl_time_us :: "u32 \<Rightarrow> u32 \<Rightarrow> time_anchor \<Rightarrow> 64 word \<times> time_anchor" where
  "osi_impl_time_us cc t a =
     (let a1 = (if \<not> s_have a \<or> t \<noteq> s_tick a then \<lparr>s_tick = t, s_cc = cc, s_have = True\<rparr> else a);
          sub0 = (cc - s_cc a1) div OSI_CYCLES_PER_US;
          sub = (if sub0 \<ge> OSI_US_PER_TICK then OSI_US_PER_TICK - 1 else sub0)
      in (ucast t * ucast OSI_US_PER_TICK + ucast sub, a1))"

text \<open>It is handed over in two halves of one reading \<open>v\<close>; the first call latches the upper one.\<close>

definition osi_impl_time_us_lo :: "64 word \<Rightarrow> osi \<Rightarrow> u32 \<times> osi" where
  "osi_impl_time_us_lo v st = (ucast v, st\<lparr>g_time_us_hi_latch := ucast (drop_bit 32 v)\<rparr>)"

definition osi_impl_time_us_hi :: "osi \<Rightarrow> u32" where
  "osi_impl_time_us_hi st = g_time_us_hi_latch st"

definition osi_impl_sems_used :: "osi \<Rightarrow> u32" where
  "osi_impl_sems_used st = foldl (\<lambda>n s. n + (if sem_used s then 1 else 0)) 0 (g_sem st)"

definition osi_impl_queues_used :: "osi \<Rightarrow> u32" where
  "osi_impl_queues_used st = foldl (\<lambda>n q. n + (if q_used q then 1 else 0)) 0 (g_queue st)"

definition osi_impl_timers_used :: "osi \<Rightarrow> u32" where
  "osi_impl_timers_used st = foldl (\<lambda>n t. n + (if t_used t then 1 else 0)) 0 (g_timer st)"

text \<open>The address fused into the chip, for the buffer at \<open>buf\<close>; \<open>r1\<close> and \<open>r2\<close> are its registers, the last octet tells the
  interfaces apart.\<close>

definition osi_impl_read_mac :: "u32 \<Rightarrow> u32 \<Rightarrow> u32 \<Rightarrow> u32 \<Rightarrow> u8 list option" where
  "osi_impl_read_mac buf r1 r2 type =
     (if buf = 0 then None
      else let mac = [ucast (drop_bit 8 r2), ucast r2, ucast (drop_bit 24 r1), ucast (drop_bit 16 r1), ucast (drop_bit 8 r1), ucast r1]
      in if type \<le> 3 then Some (mac[5 := mac ! 5 + ucast type]) else None)"

subsection \<open>Slots and masks\<close>

lemma first_unused_found:
  assumes "first_unused us k = Some i"
  shows "k \<le> i \<and> i < k + length us \<and> \<not> us ! (i - k)"
  using assms
proof (induction us arbitrary: k)
  case (Cons u us)
  show ?case
  proof (cases u)
    case True
    then have "Suc k \<le> i \<and> i < Suc k + length us \<and> \<not> us ! (i - Suc k)"
      using Cons.prems by (intro Cons.IH) simp
    moreover from this have "i - k = Suc (i - Suc k)" by (elim conjE) linarith
    ultimately show ?thesis by auto
  qed (use Cons in auto)
qed simp

lemma handle_ok:
  assumes "i < 24"
  shows "H_INDEX (H_MAKE i) = i" "H_OK (H_MAKE i) n \<longleftrightarrow> i < n" "H_MAKE i \<noteq> 0"
proof -
  define w :: u32 where "w = of_nat i"
  have u: "unat w = i" using assms by (simp add: w_def unat_of_nat)
  have "unat (w AND mask 12) = unat w" using assms u by (subst unat_and_mask) simp
  then have "w AND mask 12 = w" by (rule unsigned_word_eqI)
  then have m: "w AND 0xFFF = w" by (simp add: mask_numeral)
  then have "w AND 0xFFF00000 = (w AND 0xFFF) AND 0xFFF00000" by simp
  then have z: "w AND 0xFFF00000 = 0" by (simp add: and.assoc)
  have ix: "H_INDEX (H_MAKE i) = i"
    using u m by (simp add: H_INDEX_def H_MAKE_def bit.conj_disj_distrib2 w_def [symmetric])
  have top: "H_MAKE i AND 0xFFF00000 = 0x05100000"
    using z by (simp add: H_MAKE_def bit.conj_disj_distrib2 w_def [symmetric])
  from ix top show "H_INDEX (H_MAKE i) = i" "H_OK (H_MAKE i) n \<longleftrightarrow> i < n" "H_MAKE i \<noteq> 0" by (auto simp: H_OK_def)
qed

named_theorems osi_simps

lemma upd_simps [osi_simps]:
  "g_queue (upd_sem i f st) = g_queue st" "g_evt (upd_sem i f st) = g_evt st" "g_timer (upd_sem i f st) = g_timer st"
  "osched (upd_sem i f st) = osched st" "omem (upd_sem i f st) = omem st" "oticks (upd_sem i f st) = oticks st"
  "oheap (upd_sem i f st) = oheap st"
  "g_sem (upd_queue i g st) = g_sem st" "g_evt (upd_queue i g st) = g_evt st" "g_timer (upd_queue i g st) = g_timer st"
  "osched (upd_queue i g st) = osched st" "omem (upd_queue i g st) = omem st" "oticks (upd_queue i g st) = oticks st"
  "oheap (upd_queue i g st) = oheap st"
  "g_sem (upd_evt i e st) = g_sem st" "g_queue (upd_evt i e st) = g_queue st" "g_timer (upd_evt i e st) = g_timer st"
  "osched (upd_evt i e st) = osched st" "omem (upd_evt i e st) = omem st" "oticks (upd_evt i e st) = oticks st"
  "g_sem (upd_timer i t st) = g_sem st" "g_queue (upd_timer i t st) = g_queue st" "g_evt (upd_timer i t st) = g_evt st"
  "osched (upd_timer i t st) = osched st" "omem (upd_timer i t st) = omem st" "oticks (upd_timer i t st) = oticks st"
  "g_timer_at (upd_timer i t st) = g_timer_at st"
  by (simp_all add: upd_sem_def upd_queue_def upd_evt_def upd_timer_def)

lemma upd_nth [osi_simps]:
  "i < length (g_sem st) \<Longrightarrow> g_sem (upd_sem i f st) ! j = (if j = i then f (g_sem st ! i) else g_sem st ! j)"
  "i < length (g_queue st) \<Longrightarrow> g_queue (upd_queue i g st) ! j = (if j = i then g (g_queue st ! i) else g_queue st ! j)"
  "i < length (g_evt st) \<Longrightarrow> g_evt (upd_evt i e st) ! j = (if j = i then e (g_evt st ! i) else g_evt st ! j)"
  "i < length (g_timer st) \<Longrightarrow> g_timer (upd_timer i t st) ! j = (if j = i then t (g_timer st ! i) else g_timer st ! j)"
  "length (g_sem (upd_sem i f st)) = length (g_sem st)" "length (g_queue (upd_queue i g st)) = length (g_queue st)"
  "length (g_evt (upd_evt i e st)) = length (g_evt st)" "length (g_timer (upd_timer i t st)) = length (g_timer st)"
  by (auto simp: upd_sem_def upd_queue_def upd_evt_def upd_timer_def nth_list_update)

subsection \<open>Waiting\<close>

lemma wait_loop_first:
  "round spent st = (Some r, st1) \<Longrightarrow> wait_loop round upd env spent st = Some (r, st1)"
  by (subst wait_loop.simps) simp

text \<open>A loop whose rounds no longer wait from \<open>limit\<close> on returns, whatever happens while it sleeps.\<close>

lemma wait_loop_returns:
  assumes "\<And>spent st. limit \<le> spent \<Longrightarrow> fst (round spent st) \<noteq> None"
  shows "\<exists>r. wait_loop round upd env spent st = Some r"
proof (induction "unat limit - unat spent" arbitrary: spent st rule: less_induct)
  case less
  obtain r st1 where s: "round spent st = (r, st1)" by (rule prod.exhaust)
  show ?case
  proof (cases r)
    case (Some a)
    then show ?thesis using wait_loop_first s by blast
  next
    case None
    then have "\<not> limit \<le> spent" using assms [of spent st] s by auto
    then have lt: "unat spent < unat limit" by (simp add: word_le_nat_alt)
    then have "unat (spent + 1) = unat spent + 1" using unat_add_u32 [of spent 1] unat_lt_u32 [of limit] by simp
    then have "unat limit - unat (spent + 1) < unat limit - unat spent" using lt by simp
    from less [OF this] show ?thesis using s None by (subst wait_loop.simps) simp
  qed
qed

subsection \<open>Copying\<close>

definition apart :: "u32 \<Rightarrow> nat \<Rightarrow> u32 \<Rightarrow> nat \<Rightarrow> bool" where
  "apart a n b k \<longleftrightarrow> (\<forall>x. \<not> (unat (x - a) < n \<and> unat (x - b) < k))"

lemma copy_n_apart:
  assumes "apart d n s n" "n < 4294967296"
  shows "copy_n d s n m = store_bytes m d (load_bytes m s n)"
  using assms
proof (induction n arbitrary: d s m)
  case (Suc n)
  have out: "unat (x - (a + 1)) < n \<Longrightarrow> unat (x - a) < Suc n" for x a :: u32
    using unat_diff_Suc [of x a] by (cases "x = a") auto
  then have ap: "apart (d + 1) n (s + 1) n" using Suc.prems(1) unfolding apart_def by blast
  have nd: "\<not> unat (d - (s + 1)) < n" using out [of d s] Suc.prems(1) by (auto simp: apart_def)
  have "load_bytes (m(d := m s)) (s + 1) n = load_bytes m (s + 1) n"
  proof (rule nth_equalityI)
    fix i assume i: "i < length (load_bytes (m(d := m s)) (s + 1) n)"
    have "s + 1 + of_nat i \<noteq> d" using nd i Suc.prems(2) by (auto simp: unat_of_nat)
    then show "load_bytes (m(d := m s)) (s + 1) n ! i = load_bytes m (s + 1) n ! i" using i by (simp add: load_bytes_nth)
  qed simp
  then show ?case using Suc.IH [OF ap] Suc.prems(2) by simp
qed simp

lemma store_bytes_other:
  "length bs \<le> 4294967296 \<Longrightarrow> (\<And>i. i < n \<Longrightarrow> length bs \<le> unat (a + of_nat i - d)) \<Longrightarrow>
    load_bytes (store_bytes m d bs) a n = load_bytes m a n"
  by (rule nth_equalityI) (auto simp: load_bytes_nth store_bytes_apply not_less [symmetric])

subsection \<open>The ring of a queue as a list of items\<close>

definition cell :: "osi_queue_t \<Rightarrow> memory \<Rightarrow> nat \<Rightarrow> u8 list" where
  "cell q m j = load_bytes m (q_buf q + of_nat (j * unat (q_item_size q))) (unat (q_item_size q))"

definition ring_pos :: "osi_queue_t \<Rightarrow> nat \<Rightarrow> nat" where
  "ring_pos q k = (unat (q_head q) + k) mod unat (q_capacity q)"

definition q_items :: "osi_queue_t \<Rightarrow> memory \<Rightarrow> u8 list list" where
  "q_items q m = map (\<lambda>k. cell q m (ring_pos q k)) [0..<unat (q_len q)]"

definition q_bytes :: "osi_queue_t \<Rightarrow> nat" where
  "q_bytes q = unat (q_capacity q) * unat (q_item_size q)"

definition q_ok :: "osi_queue_t \<Rightarrow> bool" where
  "q_ok q \<longleftrightarrow> 0 < q_capacity q \<and> 0 < q_item_size q \<and> q_bytes q \<le> 4096 \<and> q_head q < q_capacity q \<and> q_len q \<le> q_capacity q
     \<and> unat (q_tail q) = ring_pos q (unat (q_len q))"

lemma q_ok_nat:
  assumes "q_ok q"
  shows "0 < unat (q_capacity q)" "0 < unat (q_item_size q)" "unat (q_capacity q) \<le> 4096" "unat (q_item_size q) \<le> 4096"
    "unat (q_head q) < unat (q_capacity q)" "unat (q_len q) \<le> unat (q_capacity q)"
proof -
  show p: "0 < unat (q_capacity q)" "0 < unat (q_item_size q)" using assms by (auto simp: q_ok_def word_less_nat_alt)
  have b: "unat (q_capacity q) * unat (q_item_size q) \<le> 4096" using assms by (simp add: q_ok_def q_bytes_def)
  show "unat (q_capacity q) \<le> 4096" using b p(2) by (metis le_trans mult_le_mono2 mult.right_neutral Suc_leI One_nat_def)
  show "unat (q_item_size q) \<le> 4096" using b p(1) by (metis le_trans mult_le_mono1 mult_1 Suc_leI One_nat_def)
  show "unat (q_head q) < unat (q_capacity q)" "unat (q_len q) \<le> unat (q_capacity q)"
    using assms by (auto simp: q_ok_def word_less_nat_alt word_le_nat_alt)
qed

lemma cell_offset:
  assumes "q_ok q" "j < unat (q_capacity q)" "r < unat (q_item_size q)"
  shows "j * unat (q_item_size q) + r < q_bytes q" "unat (of_nat (j * unat (q_item_size q)) + of_nat r :: u32) = j * unat (q_item_size q) + r"
proof -
  have "j * unat (q_item_size q) + r < Suc j * unat (q_item_size q)" using assms(3) by simp
  also have "\<dots> \<le> q_bytes q" unfolding q_bytes_def using assms(2) by (intro mult_le_mono1) simp
  finally show l: "j * unat (q_item_size q) + r < q_bytes q" .
  have b: "q_bytes q \<le> 4096" using assms(1) by (simp add: q_ok_def)
  have "unat (of_nat (j * unat (q_item_size q) + r) :: u32) = j * unat (q_item_size q) + r"
    using l b by (intro unat_of_nat_u32) simp
  then show "unat (of_nat (j * unat (q_item_size q)) + of_nat r :: u32) = j * unat (q_item_size q) + r" by simp
qed

lemma ring_pos_less: "q_ok q \<Longrightarrow> ring_pos q k < unat (q_capacity q)"
  using q_ok_nat(1) by (simp add: ring_pos_def)

lemma ring_inj:
  assumes "i < (c :: nat)" "j < c" "(h + i) mod c = (h + j) mod c"
  shows "i = j"
proof -
  have "c dvd (h + j) - (h + i)" "c dvd (h + i) - (h + j)"
    using assms(3) by (metis le_add_diff_inverse mod_eq_dvd_iff_nat nat_le_linear dvd_0_right diff_is_0_eq)+
  then show ?thesis using assms(1,2) by (cases "i \<le> j") (auto dest: dvd_imp_le)
qed

text \<open>Storing an item into cell \<open>i\<close> changes that cell alone.\<close>

lemma cell_store:
  assumes "q_ok q" "i < unat (q_capacity q)" "j < unat (q_capacity q)"
    and "apart (q_buf q) (q_bytes q) item (unat (q_item_size q))"
  shows "cell q (copy_n (q_buf q + of_nat (i * unat (q_item_size q))) item (unat (q_item_size q)) m) j =
    (if j = i then load_bytes m item (unat (q_item_size q)) else cell q m j)"
proof -
  let ?s = "unat (q_item_size q)" and ?d = "q_buf q + of_nat (i * unat (q_item_size q))"
  note N = q_ok_nat [OF assms(1)]
  have ap: "apart ?d ?s item ?s"
    unfolding apart_def
  proof (intro allI notI)
    fix x assume x: "unat (x - ?d) < ?s \<and> unat (x - item) < ?s"
    have "x - q_buf q = of_nat (i * ?s) + of_nat (unat (x - ?d))" by simp
    then have "unat (x - q_buf q) < q_bytes q" using cell_offset [OF assms(1,2) conjunct1 [OF x]] by simp
    then show False using x assms(4) by (auto simp: apart_def)
  qed
  have c: "copy_n ?d item ?s m = store_bytes m ?d (load_bytes m item ?s)" using copy_n_apart [OF ap] N(4) by simp
  show ?thesis
  proof (cases "j = i")
    case True
    then show ?thesis unfolding cell_def c using load_store_bytes [of "load_bytes m item ?s" m ?d] N(4) by simp
  next
    case False
    have "?s \<le> unat (q_buf q + of_nat (j * ?s) + of_nat r - ?d)" if r: "r < ?s" for r
    proof (rule ccontr)
      assume "\<not> ?thesis"
      then have k: "unat (q_buf q + of_nat (j * ?s) + of_nat r - ?d) < ?s" by simp
      let ?k = "unat (q_buf q + of_nat (j * ?s) + of_nat r - ?d)"
      have "of_nat (j * ?s) + of_nat r = (of_nat (i * ?s) + of_nat ?k :: u32)" by (simp del: of_nat_mult)
      then have e: "j * ?s + r = i * ?s + ?k"
        using cell_offset(2) [OF assms(1,3) r] cell_offset(2) [OF assms(1,2) k] by simp
      have "j = (j * ?s + r) div ?s" "i = (i * ?s + ?k) div ?s" using r k by simp_all
      with e False show False by simp
    qed
    then show ?thesis unfolding cell_def c using False N(4) by (simp add: store_bytes_other)
  qed
qed

text \<open>The abstract operations on the ring: add at the back, add at the front, take from the front.\<close>

definition q_put :: "bool \<Rightarrow> osi_queue_t \<Rightarrow> osi_queue_t" where
  "q_put front q =
     (if front then q\<lparr>q_head := (q_head q + q_capacity q - 1) mod q_capacity q, q_len := q_len q + 1\<rparr>
      else q\<lparr>q_tail := (q_tail q + 1) mod q_capacity q, q_len := q_len q + 1\<rparr>)"

definition put_slot :: "bool \<Rightarrow> osi_queue_t \<Rightarrow> u32" where
  "put_slot front q = (if front then (q_head q + q_capacity q - 1) mod q_capacity q else q_tail q)"

definition q_get :: "osi_queue_t \<Rightarrow> osi_queue_t" where
  "q_get q = q\<lparr>q_head := (q_head q + 1) mod q_capacity q, q_len := q_len q - 1\<rparr>"

lemma q_geometry [simp]:
  "q_capacity (q_put f q) = q_capacity q" "q_item_size (q_put f q) = q_item_size q" "q_buf (q_put f q) = q_buf q"
  "q_capacity (q_get q) = q_capacity q" "q_item_size (q_get q) = q_item_size q" "q_buf (q_get q) = q_buf q"
  "q_bytes (q_put f q) = q_bytes q" "q_bytes (q_get q) = q_bytes q"
  by (simp_all add: q_put_def q_get_def q_bytes_def)

lemma q_bytes_cong: "q_capacity q' = q_capacity q \<Longrightarrow> q_item_size q' = q_item_size q \<Longrightarrow> q_bytes q' = q_bytes q"
  by (simp add: q_bytes_def)

lemma cell_geometry [simp]: "cell (q_put f q) m j = cell q m j" "cell (q_get q) m j = cell q m j"
  by (simp_all add: cell_def)

lemma q_put_ok:
  assumes "q_ok q" "q_len q < q_capacity q"
  shows "q_ok (q_put front q)" "unat (q_len (q_put front q)) = Suc (unat (q_len q))"
    "unat (put_slot front q) < unat (q_capacity q)"
    "front \<Longrightarrow> unat (put_slot front q) = ring_pos (q_put front q) 0"
    "front \<Longrightarrow> ring_pos (q_put front q) (Suc k) = ring_pos q k"
    "\<not> front \<Longrightarrow> unat (put_slot front q) = ring_pos q (unat (q_len q))"
    "\<not> front \<Longrightarrow> ring_pos (q_put front q) k = ring_pos q k"
proof -
  let ?c = "unat (q_capacity q)" and ?h = "unat (q_head q)" and ?l = "unat (q_len q)"
  note N = q_ok_nat [OF assms(1)]
  have l: "?l < ?c" using assms(2) by (simp add: word_less_nat_alt)
  have len: "unat (q_len q + 1) = Suc ?l" using l N(3) by (simp add: unat_add_u32)
  have hc: "unat (q_head q + q_capacity q - 1) = ?h + ?c - 1"
    using N unat_sub_u32 [of 1 "q_head q + q_capacity q"] by (simp add: unat_add_u32)
  have hd: "unat ((q_head q + q_capacity q - 1) mod q_capacity q) = (?h + ?c - 1) mod ?c" by (simp add: unat_mod hc)
  have t: "unat (q_tail q) = (?h + ?l) mod ?c" using assms(1) by (simp add: q_ok_def ring_pos_def)
  have tl: "unat ((q_tail q + 1) mod q_capacity q) = (?h + Suc ?l) mod ?c"
  proof -
    have "unat (q_tail q) < ?c" using t N(1) by simp
    then have "unat (q_tail q + 1) = unat (q_tail q) + 1" using N(3) unat_add_u32 [of "q_tail q" 1] by simp
    then show ?thesis by (simp add: unat_mod t mod_simps)
  qed
  show L: "unat (q_len (q_put front q)) = Suc ?l" using len by (simp add: q_put_def)
  show "unat (put_slot front q) < ?c" using hd t N(1) by (simp add: put_slot_def)
  have P: "ring_pos (q_put True q) (Suc k) = ring_pos q k" for k
  proof -
    have "((?h + ?c - 1) mod ?c + Suc k) mod ?c = (?h + ?c - 1 + Suc k) mod ?c" by (rule mod_add_left_eq)
    also have "?h + ?c - 1 + Suc k = ?h + k + ?c" using N(1) by simp
    finally show ?thesis by (simp add: ring_pos_def q_put_def hd)
  qed
  show "front \<Longrightarrow> unat (put_slot front q) = ring_pos (q_put front q) 0"
    by (simp add: put_slot_def ring_pos_def q_put_def hd)
  show "front \<Longrightarrow> ring_pos (q_put front q) (Suc k) = ring_pos q k" using P by simp
  show "\<not> front \<Longrightarrow> unat (put_slot front q) = ring_pos q ?l" using t by (simp add: put_slot_def ring_pos_def)
  show "\<not> front \<Longrightarrow> ring_pos (q_put front q) k = ring_pos q k" by (simp add: ring_pos_def q_put_def)
  have g: "0 < q_capacity q" "0 < q_item_size q" "q_bytes q \<le> 4096" using assms(1) by (auto simp: q_ok_def)
  show "q_ok (q_put front q)"
  proof (cases front)
    case True
    have "unat (q_tail (q_put True q)) = ring_pos (q_put True q) (unat (q_len (q_put True q)))"
      using P [of ?l] t len by (simp add: q_put_def ring_pos_def)
    then show ?thesis using True g L l hd N(1) by (simp add: q_ok_def word_less_nat_alt word_le_nat_alt q_put_def q_bytes_def)
  next
    case False
    have "unat (q_tail (q_put False q)) = ring_pos (q_put False q) (unat (q_len (q_put False q)))"
      using tl len by (simp add: q_put_def ring_pos_def)
    then show ?thesis using False g L l N(5) by (simp add: q_ok_def word_less_nat_alt word_le_nat_alt q_put_def q_bytes_def)
  qed
qed

lemma q_items_put:
  fixes m :: memory and front :: bool
  assumes "q_ok q" "q_len q < q_capacity q" "apart (q_buf q) (q_bytes q) item (unat (q_item_size q))"
  defines "m' \<equiv> copy_n (q_buf q + put_slot front q * q_item_size q) item (unat (q_item_size q)) m"
  shows "q_items (q_put front q) m' =
    (if front then load_bytes m item (unat (q_item_size q)) # q_items q m else q_items q m @ [load_bytes m item (unat (q_item_size q))])"
proof -
  let ?x = "load_bytes m item (unat (q_item_size q))" and ?l = "unat (q_len q)" and ?c = "unat (q_capacity q)"
  note P = q_put_ok [OF assms(1,2)] and N = q_ok_nat [OF assms(1)]
  have l: "?l < ?c" using assms(2) by (simp add: word_less_nat_alt)
  have s: "put_slot front q * q_item_size q = of_nat (unat (put_slot front q) * unat (q_item_size q))" by simp
  have cell: "cell q m' j = (if j = unat (put_slot front q) then ?x else cell q m j)" if "j < ?c" for j
    unfolding m'_def s by (rule cell_store [OF assms(1) P(3) that assms(3)])
  have ne: "ring_pos q i \<noteq> ring_pos q j" if "i < ?c" "j < ?c" "i \<noteq> j" for i j
    using ring_inj [of i ?c j "unat (q_head q)"] that by (auto simp: ring_pos_def)
  show ?thesis
  proof (cases front)
    case True
    have e: "cell q m' (ring_pos (q_put True q) (Suc k)) = cell q m (ring_pos q k)" if "k < ?l" for k
    proof -
      have "ring_pos (q_put True q) (Suc k) \<noteq> ring_pos (q_put True q) 0"
        using ring_inj [of "Suc k" ?c 0 "unat (q_head (q_put True q))"] that l by (auto simp: ring_pos_def)
      then show ?thesis using cell [of "ring_pos q k"] P(4,5) True ring_pos_less [OF assms(1)] by simp
    qed
    have "ring_pos (q_put True q) 0 < ?c" using P(3) [of True] P(4) [of True] by simp
    then have "cell q m' (ring_pos (q_put True q) 0) = ?x" using cell P(4) True by simp
    then show ?thesis using e True P(2) by (simp add: q_items_def upt_conv_Cons map_Suc_upt [symmetric] del: upt_Suc)
  next
    case False
    have "cell q m' (ring_pos q k) = cell q m (ring_pos q k)" if "k < ?l" for k
      using cell [OF ring_pos_less [OF assms(1)], of k] ne [of k ?l] that l P(6) False by simp
    moreover have "cell q m' (ring_pos q ?l) = ?x" using cell [OF ring_pos_less [OF assms(1)]] P(6) False by simp
    ultimately show ?thesis using False P(2,7) by (simp add: q_items_def)
  qed
qed

lemma q_items_get:
  assumes "q_ok q" "q_len q \<noteq> 0"
  shows "q_items q m = cell q m (unat (q_head q)) # q_items (q_get q) m" "q_ok (q_get q)"
proof -
  let ?c = "unat (q_capacity q)" and ?h = "unat (q_head q)" and ?l = "unat (q_len q)"
  note N = q_ok_nat [OF assms(1)]
  have l: "0 < ?l" using assms(2) by (simp add: unat_gt_0)
  have len: "unat (q_len q - 1) = ?l - 1" using assms(2) by (rule unat_minus_one)
  have hd: "unat ((q_head q + 1) mod q_capacity q) = (?h + 1) mod ?c"
    using N by (simp add: unat_mod unat_add_u32)
  have P: "ring_pos (q_get q) k = ring_pos q (Suc k)" for k
    using hd by (simp add: ring_pos_def q_get_def mod_simps)
  have "q_items q m = map (\<lambda>k. cell q m (ring_pos q k)) (0 # map Suc [0..<?l - 1])"
    using l by (simp add: q_items_def upt_conv_Cons map_Suc_upt)
  moreover have "ring_pos q 0 = ?h" using N(5) by (simp add: ring_pos_def)
  ultimately show "q_items q m = cell q m ?h # q_items (q_get q) m"
    using P len by (simp add: q_items_def) (simp add: q_get_def)
  have "unat (q_tail q) = ring_pos q ?l" using assms(1) by (simp add: q_ok_def)
  then have "unat (q_tail (q_get q)) = ring_pos (q_get q) (unat (q_len (q_get q)))"
    using P l len by (simp add: q_get_def)
  then show "q_ok (q_get q)"
    using assms(1) len hd N by (simp add: q_ok_def word_less_nat_alt word_le_nat_alt q_bytes_def) (simp add: q_get_def word_le_nat_alt word_less_nat_alt)
qed

lemma q_view_masks [simp]:
  "q_ok (q\<lparr>q_waiters_recv := w\<rparr>) = q_ok q" "q_ok (q\<lparr>q_waiters_send := w\<rparr>) = q_ok q"
  "q_items (q\<lparr>q_waiters_recv := w\<rparr>) = q_items q" "q_items (q\<lparr>q_waiters_send := w\<rparr>) = q_items q"
  by (simp_all add: q_ok_def ring_pos_def q_bytes_def q_items_def cell_def fun_eq_iff)

lemma wake_all_queue:
  "omem (wake_all get (recv_mask i) st) = omem st" "omem (wake_all get (send_mask i) st) = omem st"
  "g_queue (wake_all get (recv_mask i) st) = (g_queue st)[i := (g_queue st ! i)\<lparr>q_waiters_recv := 0\<rparr>]"
  "g_queue (wake_all get (send_mask i) st) = (g_queue st)[i := (g_queue st ! i)\<lparr>q_waiters_send := 0\<rparr>]"
  by (simp_all add: wake_all_def Let_def upd_queue_def)

lemma queue_handle:
  assumes "H_OK h OSI_QUEUE_MAX" "length (g_queue st) = OSI_QUEUE_MAX"
  shows "H_INDEX h < length (g_queue st)"
  using assms by (simp add: H_OK_def)

lemma queue_send_ready:
  assumes "i = H_INDEX h" "i < length (g_queue st)" "q_len (g_queue st ! i) < q_capacity (g_queue st ! i)"
  shows "\<exists>st'. queue_send_round h item ticks front spent st = (Some 1, st')
    \<and> g_queue st' = (g_queue st)[i := (q_put front (g_queue st ! i))\<lparr>q_waiters_recv := 0\<rparr>]
    \<and> omem st' = copy_n (q_buf (g_queue st ! i) + put_slot front (g_queue st ! i) * q_item_size (g_queue st ! i)) item
        (unat (q_item_size (g_queue st ! i))) (omem st)"
  using assms unfolding queue_send_round_def Let_def
  by (cases front) (simp_all add: wake_all_queue osi_simps put_slot_def q_put_def upd_queue_def)

lemma queue_recv_ready:
  assumes "i = H_INDEX h" "i < length (g_queue st)" "q_len (g_queue st ! i) \<noteq> 0"
  shows "\<exists>st'. queue_recv_round h item ticks spent st = (Some 1, st')
    \<and> g_queue st' = (g_queue st)[i := (q_get (g_queue st ! i))\<lparr>q_waiters_send := 0\<rparr>]
    \<and> omem st' = copy_n item (q_buf (g_queue st ! i) + q_head (g_queue st ! i) * q_item_size (g_queue st ! i))
        (unat (q_item_size (g_queue st ! i))) (omem st)"
  using assms unfolding queue_recv_round_def Let_def
  by (simp add: wake_all_queue osi_simps q_get_def upd_queue_def)

lemma apart_sym: "apart a n b k \<Longrightarrow> apart b k a n"
  by (auto simp: apart_def)

lemma apart_cell:
  assumes "q_ok q" "j < unat (q_capacity q)" "apart (q_buf q) (q_bytes q) item (unat (q_item_size q))"
  shows "apart item (unat (q_item_size q)) (q_buf q + of_nat (j * unat (q_item_size q))) (unat (q_item_size q))"
  unfolding apart_def
proof (intro allI notI)
  fix x
  let ?d = "q_buf q + of_nat (j * unat (q_item_size q))"
  assume x: "unat (x - item) < unat (q_item_size q) \<and> unat (x - ?d) < unat (q_item_size q)"
  have "x - q_buf q = of_nat (j * unat (q_item_size q)) + of_nat (unat (x - ?d))" by simp
  then have "unat (x - q_buf q) < q_bytes q" using cell_offset [OF assms(1,2) conjunct2 [OF x]] by simp
  then show False using x assms(3) by (auto simp: apart_def)
qed

lemma load_store_apart:
  assumes "apart a n d (length bs)" "n \<le> 4294967296" "length bs \<le> 4294967296"
  shows "load_bytes (store_bytes m d bs) a n = load_bytes m a n"
proof (rule store_bytes_other [OF assms(3)])
  fix i assume i: "i < n"
  then have "unat (a + of_nat i - a) < n" using assms(2) by (simp add: unat_of_nat_u32)
  then show "length bs \<le> unat (a + of_nat i - d)" using assms(1) by (auto simp: apart_def not_less [symmetric])
qed

text \<open>Taking an item out: it arrives at the destination, and the cells are as before.\<close>

lemma recv_bytes:
  assumes "q_ok q" "apart (q_buf q) (q_bytes q) item (unat (q_item_size q))"
  defines "m' \<equiv> \<lambda>m. copy_n item (q_buf q + q_head q * q_item_size q) (unat (q_item_size q)) m"
  shows "load_bytes (m' m) item (unat (q_item_size q)) = cell q m (unat (q_head q))"
    "q_items (q_get q) (m' m) = q_items (q_get q) m"
proof -
  let ?s = "unat (q_item_size q)"
  note N = q_ok_nat [OF assms(1)]
  have w: "q_buf q + q_head q * q_item_size q = q_buf q + of_nat (unat (q_head q) * ?s)" by simp
  have ap: "apart item ?s (q_buf q + of_nat (j * ?s)) ?s" if "j < unat (q_capacity q)" for j
    by (rule apart_cell [OF assms(1) that assms(2)])
  have c: "m' m = store_bytes m item (cell q m (unat (q_head q)))"
    unfolding m'_def w cell_def by (rule copy_n_apart [OF ap [OF N(5)]]) (use N(4) in simp)
  have l: "length (cell q m (unat (q_head q))) = ?s" by (simp add: cell_def)
  show "load_bytes (m' m) item ?s = cell q m (unat (q_head q))"
    unfolding c using load_store_bytes [of "cell q m (unat (q_head q))" m item] l N(4) by simp
  have "cell q (m' m) j = cell q m j" if "j < unat (q_capacity q)" for j
    unfolding cell_def [of q _ j] c
    using load_store_apart [of _ ?s item "cell q m (unat (q_head q))" m] apart_sym [OF ap [OF that]] l N(4) by simp
  moreover have "ring_pos (q_get q) k < unat (q_capacity q)" for k using N(1) by (simp add: ring_pos_def)
  ultimately show "q_items (q_get q) (m' m) = q_items (q_get q) m" by (simp add: q_items_def)
qed

subsection \<open>Properties of queues and waits\<close>

definition queue_at :: "u32 \<Rightarrow> osi \<Rightarrow> osi_queue_t" where
  "queue_at h st = g_queue st ! H_INDEX h"

text \<open>The items a queue holds, oldest first.\<close>

definition contents :: "u32 \<Rightarrow> osi \<Rightarrow> u8 list list" where
  "contents h st = q_items (queue_at h st) (omem st)"

text \<open>
  A queue is a bounded sequence of items (C18). A send that finds room returns 1 at once and adds the caller's bytes at the
  end, or at the front for the urgent form; one that finds the queue full and may not wait returns 0 and changes nothing.
  A receive delivers the oldest item byte for byte and removes it; on an empty queue it returns 0 and changes nothing. Both
  keep the ring well formed. The caller's buffer does not overlap the storage of the queue.
\<close>

theorem osi_queue_refines:
  assumes "H_OK h OSI_QUEUE_MAX" "length (g_queue st) = OSI_QUEUE_MAX" "q_ok (queue_at h st)" "item \<noteq> 0"
    and "apart (q_buf (queue_at h st)) (q_bytes (queue_at h st)) item (unat (q_item_size (queue_at h st)))"
  shows "(if length (contents h st) < unat (q_capacity (queue_at h st))
      then \<exists>st'. osi_impl_queue_send env h item ticks front st = Some (1, st') \<and> q_ok (queue_at h st')
        \<and> contents h st' = (if front then load_bytes (omem st) item (unat (q_item_size (queue_at h st))) # contents h st
            else contents h st @ [load_bytes (omem st) item (unat (q_item_size (queue_at h st)))])
      else osi_impl_queue_send env h item 0 front st = Some (0, st))
    \<and> (case contents h st of
        [] \<Rightarrow> osi_impl_queue_recv env h item 0 st = Some (0, st)
      | x # xs \<Rightarrow> \<exists>st'. osi_impl_queue_recv env h item ticks st = Some (1, st') \<and> q_ok (queue_at h st') \<and> contents h st' = xs
          \<and> load_bytes (omem st') item (unat (q_item_size (queue_at h st))) = x)"
proof -
  let ?i = "H_INDEX h" and ?q = "queue_at h st"
  have i: "?i < length (g_queue st)" using assms(1,2) by (rule queue_handle)
  have len: "length (contents h st) = unat (q_len ?q)" by (simp add: contents_def q_items_def)
  have put: "\<exists>st'. osi_impl_queue_send env h item ticks front st = Some (1, st') \<and> q_ok (queue_at h st')
        \<and> contents h st' = (if front then load_bytes (omem st) item (unat (q_item_size ?q)) # contents h st
            else contents h st @ [load_bytes (omem st) item (unat (q_item_size ?q))])" if l: "q_len ?q < q_capacity ?q"
  proof -
    from queue_send_ready [OF refl i, of item ticks front 0] l obtain st' where
      s: "queue_send_round h item ticks front 0 st = (Some 1, st')" "g_queue st' = (g_queue st)[?i := (q_put front ?q)\<lparr>q_waiters_recv := 0\<rparr>]"
      "omem st' = copy_n (q_buf ?q + put_slot front ?q * q_item_size ?q) item (unat (q_item_size ?q)) (omem st)"
      unfolding queue_at_def by blast
    have "queue_at h st' = (q_put front ?q)\<lparr>q_waiters_recv := 0\<rparr>" using s(2) i by (simp add: queue_at_def)
    then show ?thesis using wait_loop_first [of "queue_send_round h item ticks front" 0 st, OF s(1)] assms(1,4) s(3)
        q_items_put [OF assms(3) l assms(5), of front "omem st"] q_put_ok(1) [OF assms(3) l]
      by (simp add: osi_impl_queue_send_def contents_def)
  qed
  have full: "osi_impl_queue_send env h item 0 front st = Some (0, st)" if "\<not> q_len ?q < q_capacity ?q"
    using that assms(1,4) wait_loop_first [of "queue_send_round h item 0 front" 0 st "0" st]
    by (simp add: osi_impl_queue_send_def queue_send_round_def Let_def queue_at_def)
  have empty: "osi_impl_queue_recv env h item 0 st = Some (0, st)" if "q_len ?q = 0"
    using that assms(1,4) wait_loop_first [of "queue_recv_round h item 0" 0 st "0" st]
    by (simp add: osi_impl_queue_recv_def queue_recv_round_def Let_def queue_at_def)
  have get: "\<exists>st'. osi_impl_queue_recv env h item ticks st = Some (1, st') \<and> q_ok (queue_at h st')
      \<and> contents h st' = q_items (q_get ?q) (omem st)
      \<and> load_bytes (omem st') item (unat (q_item_size ?q)) = cell ?q (omem st) (unat (q_head ?q))" if l: "q_len ?q \<noteq> 0"
  proof -
    from queue_recv_ready [OF refl i, of item ticks 0] l obtain st' where
      s: "queue_recv_round h item ticks 0 st = (Some 1, st')" "g_queue st' = (g_queue st)[?i := (q_get ?q)\<lparr>q_waiters_send := 0\<rparr>]"
      "omem st' = copy_n item (q_buf ?q + q_head ?q * q_item_size ?q) (unat (q_item_size ?q)) (omem st)"
      unfolding queue_at_def by blast
    have "queue_at h st' = (q_get ?q)\<lparr>q_waiters_send := 0\<rparr>" using s(2) i by (simp add: queue_at_def)
    then show ?thesis using wait_loop_first [of "queue_recv_round h item ticks" 0 st, OF s(1)] assms(1,4) s(3)
        recv_bytes [OF assms(3,5), of "omem st"] q_items_get(2) [OF assms(3) l]
      by (simp add: osi_impl_queue_recv_def contents_def)
  qed
  have e: "q_len ?q = 0 \<longleftrightarrow> contents h st = []" using len by (auto simp: unat_eq_zero [symmetric])
  have h: "q_len ?q \<noteq> 0 \<Longrightarrow> contents h st = cell ?q (omem st) (unat (q_head ?q)) # q_items (q_get ?q) (omem st)"
    using q_items_get(1) [OF assms(3)] by (simp add: contents_def)
  show ?thesis using put full empty get len e h by (cases "q_len ?q = 0") (simp_all add: word_less_nat_alt)
qed

text \<open>
  No call with a time limit waits forever (C19): whatever the rest of the system does while the caller sleeps, taking a
  semaphore, sending, receiving and waiting for events return when the number of ticks is not the mark of an endless wait;
  receiving returns even then, because of the cap of 400 ticks.
\<close>

theorem osi_timed_wait_returns:
  "(ticks \<noteq> OSI_MAX_DELAY \<longrightarrow> (\<exists>r. osi_impl_sem_take env h ticks st = Some r) \<and> (\<exists>r. osi_impl_queue_send env h item ticks front st = Some r)
      \<and> (\<exists>r. osi_impl_evt_wait env h bits clear all ticks st = Some r))
    \<and> (\<exists>r. osi_impl_queue_recv env h item ticks st = Some r)"
proof -
  have s: "ticks \<noteq> OSI_MAX_DELAY \<Longrightarrow> ticks \<le> n \<Longrightarrow> fst (sem_take_round h ticks n st) \<noteq> None" for n st
    by (simp add: sem_take_round_def Let_def)
  have q: "ticks \<noteq> OSI_MAX_DELAY \<Longrightarrow> ticks \<le> n \<Longrightarrow> fst (queue_send_round h item ticks front n st) \<noteq> None" for n st
    by (simp add: queue_send_round_def Let_def)
  have e: "ticks \<noteq> OSI_MAX_DELAY \<Longrightarrow> ticks \<le> n \<Longrightarrow> fst (evt_wait_round h bits clear all ticks n st) \<noteq> None" for n st
    by (simp add: evt_wait_round_def Let_def)
  have r: "(if ticks = OSI_MAX_DELAY then OSI_FOREVER_CAP else ticks) \<le> n \<Longrightarrow> fst (queue_recv_round h item ticks n st) \<noteq> None" for n st
    by (simp add: queue_recv_round_def Let_def split: if_splits)
  show ?thesis
    using wait_loop_returns [of ticks "sem_take_round h ticks", OF s] wait_loop_returns [of ticks "queue_send_round h item ticks front", OF q]
      wait_loop_returns [of ticks "evt_wait_round h bits clear all ticks", OF e] wait_loop_returns [OF r]
    unfolding osi_impl_sem_take_def osi_impl_queue_send_def osi_impl_evt_wait_def osi_impl_queue_recv_def by auto
qed

subsection \<open>Semaphores and mutexes\<close>

definition sem_at :: "u32 \<Rightarrow> osi \<Rightarrow> osi_sem_t" where
  "sem_at h st = g_sem st ! H_INDEX h"

lemma wake_all_sem:
  "g_sem (wake_all get (sem_mask i) st) = (g_sem st)[i := (g_sem st ! i)\<lparr>sem_waiters := 0\<rparr>]"
  by (simp add: wake_all_def Let_def upd_sem_def)

lemma wake_loop_current [simp]: "g_current (wake_loop i m st) = g_current st"
  by (induction i m st rule: wake_loop.induct) (subst wake_loop.simps, simp add: task_wake_def upd_task_def Let_def)

lemma wake_all_current: "g_current (osched (wake_all get (sem_mask i) st)) = g_current (osched st)"
  by (simp add: wake_all_def Let_def upd_sem_def)

lemma sem_take_now:
  assumes "H_OK h OSI_SEM_MAX" "sem_take_round h ticks 0 st = (Some r, st')"
  shows "osi_impl_sem_take env h ticks st = Some (r, st')"
  using wait_loop_first [of "sem_take_round h ticks" 0 st, OF assms(2)] assms(1) by (simp add: osi_impl_sem_take_def)

lemma sem_take_some:
  assumes "H_OK h OSI_SEM_MAX" "length (g_sem st) = OSI_SEM_MAX"
    and "sem_recursive (sem_at h st) \<and> sem_depth (sem_at h st) \<noteq> 0 \<and> sem_owner (sem_at h st) = g_current (osched st)"
  shows "\<exists>st'. osi_impl_sem_take env h ticks st = Some (1, st') \<and> osched st' = osched st \<and> length (g_sem st') = OSI_SEM_MAX
    \<and> sem_at h st' = (sem_at h st)\<lparr>sem_depth := sem_depth (sem_at h st) + 1\<rparr>"
  using assms sem_take_now [of h ticks st 1 "snd (sem_take_round h ticks 0 st)" env]
  by (intro exI [of _ "snd (sem_take_round h ticks 0 st)"]) (auto simp: sem_take_round_def sem_at_def Let_def H_OK_def osi_simps upd_sem_def)

lemma sem_take_count:
  assumes "H_OK h OSI_SEM_MAX" "length (g_sem st) = OSI_SEM_MAX" "sem_count (sem_at h st) \<noteq> 0"
    and "\<not> (sem_recursive (sem_at h st) \<and> sem_depth (sem_at h st) \<noteq> 0 \<and> sem_owner (sem_at h st) = g_current (osched st))"
  shows "\<exists>st'. osi_impl_sem_take env h ticks st = Some (1, st') \<and> osched st' = osched st \<and> length (g_sem st') = OSI_SEM_MAX
    \<and> sem_at h st' = (if sem_recursive (sem_at h st)
        then (sem_at h st)\<lparr>sem_count := sem_count (sem_at h st) - 1, sem_owner := g_current (osched st), sem_depth := 1\<rparr>
        else (sem_at h st)\<lparr>sem_count := sem_count (sem_at h st) - 1\<rparr>)"
  using assms sem_take_now [of h ticks st 1 "snd (sem_take_round h ticks 0 st)" env]
  by (intro exI [of _ "snd (sem_take_round h ticks 0 st)"]) (auto simp: sem_take_round_def sem_at_def Let_def H_OK_def osi_simps upd_sem_def)

lemma sem_take_none:
  assumes "H_OK h OSI_SEM_MAX" "sem_count (sem_at h st) = 0"
    and "\<not> (sem_recursive (sem_at h st) \<and> sem_depth (sem_at h st) \<noteq> 0 \<and> sem_owner (sem_at h st) = g_current (osched st))"
  shows "osi_impl_sem_take env h 0 st = Some (0, st)"
  using assms by (intro sem_take_now) (auto simp: sem_take_round_def sem_at_def Let_def)

text \<open>The count of a plain semaphore: a take without waiting succeeds exactly when the count is not zero and lowers it; a
  give raises it up to the limit.\<close>

theorem osi_sem_counts:
  assumes "H_OK h OSI_SEM_MAX" "length (g_sem st) = OSI_SEM_MAX" "\<not> sem_recursive (sem_at h st)"
  shows "(if sem_count (sem_at h st) = 0 then osi_impl_sem_take env h 0 st = Some (0, st)
      else \<exists>st'. osi_impl_sem_take env h 0 st = Some (1, st') \<and> sem_count (sem_at h st') = sem_count (sem_at h st) - 1)
    \<and> fst (osi_impl_sem_give h st) = 1 \<and> sem_waiters (sem_at h (snd (osi_impl_sem_give h st))) = 0
    \<and> sem_count (sem_at h (snd (osi_impl_sem_give h st))) =
        (if sem_count (sem_at h st) < sem_max (sem_at h st) then sem_count (sem_at h st) + 1 else sem_count (sem_at h st))"
proof -
  have i: "H_INDEX h < length (g_sem st)" using assms(1,2) by (simp add: H_OK_def)
  have "fst (osi_impl_sem_give h st) = 1 \<and> sem_waiters (sem_at h (snd (osi_impl_sem_give h st))) = 0
    \<and> sem_count (sem_at h (snd (osi_impl_sem_give h st))) =
        (if sem_count (sem_at h st) < sem_max (sem_at h st) then sem_count (sem_at h st) + 1 else sem_count (sem_at h st))"
    using assms i by (simp add: osi_impl_sem_give_def Let_def sem_at_def wake_all_sem osi_simps)
  then show ?thesis
    using sem_take_none [OF assms(1)] sem_take_count [OF assms(1,2), of env 0] assms(3)
    by (cases "sem_count (sem_at h st) = 0") fastforce+
qed

text \<open>
  A recursive mutex can be released by a task that does not hold it: \<^verbatim>\<open>osi_impl_sem_give\<close> compares the owner only to
  decide whether to lower the nesting depth; any other caller raises the count, and its next take succeeds while the
  owner is still inside.
\<close>

theorem osi_foreign_give:
  assumes "H_OK h OSI_SEM_MAX" "length (g_sem st) = OSI_SEM_MAX" "sem_recursive (sem_at h st)" "sem_max (sem_at h st) = 1"
    and "sem_count (sem_at h st) = 0" "sem_depth (sem_at h st) \<noteq> 0" "sem_owner (sem_at h st) \<noteq> g_current (osched st)"
  shows "osi_impl_sem_take env h 0 st = Some (0, st)
    \<and> (\<exists>st1 st2. osi_impl_sem_give h st = (1, st1) \<and> sem_owner (sem_at h st1) = sem_owner (sem_at h st)
        \<and> sem_depth (sem_at h st1) = sem_depth (sem_at h st)
        \<and> osi_impl_sem_take env h 0 st1 = Some (1, st2) \<and> sem_owner (sem_at h st2) = g_current (osched st))"
proof -
  have i: "H_INDEX h < length (g_sem st)" using assms(1,2) by (simp add: H_OK_def)
  obtain st1 where g: "osi_impl_sem_give h st = (1, st1)" "sem_at h st1 = (sem_at h st)\<lparr>sem_count := 1, sem_waiters := 0\<rparr>"
    "length (g_sem st1) = OSI_SEM_MAX" "g_current (osched st1) = g_current (osched st)"
    using assms i by (simp add: osi_impl_sem_give_def Let_def sem_at_def wake_all_sem wake_all_current osi_simps)
  from sem_take_count [OF assms(1) g(3), of env 0] g assms(3,7) obtain st2 where
    "osi_impl_sem_take env h 0 st1 = Some (1, st2)" "sem_owner (sem_at h st2) = g_current (osched st)" by auto
  then show ?thesis using g sem_take_none [OF assms(1,5)] assms(7) by auto
qed

text \<open>
  A semaphore created in a slot that held a recursive mutex is recursive: neither deleting nor creating clears the mark.
  The new binary semaphore is then taken twice in a row by one task without waiting, where a plain one gives 0.
\<close>

theorem osi_sem_stale_recursion:
  assumes "length (g_sem st) = OSI_SEM_MAX" "first_unused (map sem_used (g_sem st)) 0 = Some i"
  shows "\<exists>h st1 st2 st3 st4. osi_impl_recursive_mutex_create st = (h, st1)
    \<and> osi_impl_sem_create 1 1 (osi_impl_sem_delete h st1) = (h, st2)
    \<and> osi_impl_sem_take env h 0 st2 = Some (1, st3) \<and> osi_impl_sem_take env h 0 st3 = Some (1, st4)"
proof -
  have i: "i < OSI_SEM_MAX" using first_unused_found [OF assms(2)] assms(1) by simp
  note H = handle_ok [of i]
  define s where "s = (g_sem st ! i)\<lparr>sem_used := True, sem_count := 1, sem_max := 1, sem_waiters := 0, sem_recursive := True, sem_owner := -1, sem_depth := 0\<rparr>"
  have c: "osi_impl_recursive_mutex_create st = (H_MAKE i, st\<lparr>g_sem := (g_sem st)[i := s]\<rparr>)"
    using assms i H by (simp add: osi_impl_recursive_mutex_create_def osi_impl_sem_create_def upd_sem_def s_def)
  have d: "osi_impl_sem_delete (H_MAKE i) (st\<lparr>g_sem := (g_sem st)[i := s]\<rparr>) = st\<lparr>g_sem := (g_sem st)[i := s\<lparr>sem_used := False\<rparr>]\<rparr>"
    using assms(1) i H by (simp add: osi_impl_sem_delete_def upd_sem_def)
  have "map sem_used ((g_sem st)[i := s\<lparr>sem_used := False\<rparr>]) = map sem_used (g_sem st)"
    using first_unused_found [OF assms(2)] i assms(1) by (simp add: map_update list_update_same_conv)
  moreover have s0: "s\<lparr>sem_used := True, sem_count := 1, sem_max := 1, sem_waiters := 0\<rparr> = s"
    by (rule osi_sem_t.equality) (simp_all add: s_def)
  ultimately have e: "osi_impl_sem_create 1 1 (st\<lparr>g_sem := (g_sem st)[i := s\<lparr>sem_used := False\<rparr>]\<rparr>) = (H_MAKE i, st\<lparr>g_sem := (g_sem st)[i := s]\<rparr>)"
    using assms i s0 by (simp add: osi_impl_sem_create_def upd_sem_def)
  let ?st2 = "st\<lparr>g_sem := (g_sem st)[i := s]\<rparr>"
  have a: "H_OK (H_MAKE i) OSI_SEM_MAX" "length (g_sem ?st2) = OSI_SEM_MAX" "sem_at (H_MAKE i) ?st2 = s"
    using H i assms(1) by (simp_all add: sem_at_def)
  from sem_take_count [OF a(1,2), of env 0] a(3) obtain st3 where t: "osi_impl_sem_take env (H_MAKE i) 0 ?st2 = Some (1, st3)"
    "osched st3 = osched st" "length (g_sem st3) = OSI_SEM_MAX" "sem_at (H_MAKE i) st3 = s\<lparr>sem_count := 0, sem_owner := g_current (osched st), sem_depth := 1\<rparr>"
    by (auto simp: s_def)
  from sem_take_some [OF a(1) t(3), of env 0] t(2,4) obtain st4 where "osi_impl_sem_take env (H_MAKE i) 0 st3 = Some (1, st4)"
    by (auto simp: s_def)
  then show ?thesis using c d e t(1) by auto
qed

subsection \<open>The clock\<close>

lemma time_value:
  assumes "osi_impl_time_us cc t a = (v, a')"
  shows "unat v = unat t * 10000 + min 9999 (unat (cc - s_cc a') div 80)" "s_have a'" "s_tick a' = t"
    "s_have a \<Longrightarrow> s_tick a = t \<Longrightarrow> a' = a"
proof -
  let ?n = "unat (cc - s_cc a') div 80"
  define sub where "sub = (if (cc - s_cc a') div 80 \<ge> 10000 then 9999 else (cc - s_cc a') div 80)"
  have s: "unat sub = min 9999 ?n"
    by (simp add: sub_def word_le_nat_alt unat_div min_def)
  have v: "v = ucast t * 10000 + ucast sub" using assms by (auto simp: osi_impl_time_us_def Let_def sub_def split: if_splits)
  have "unat (ucast t * 10000 :: 64 word) = unat t * 10000"
    using unat_lt_u32 [of t] by (simp add: unat_word_ariths unsigned_ucast_eq take_bit_nat_def del: unat_lt_u32)
  then show "unat v = unat t * 10000 + min 9999 ?n"
    using s unat_lt_u32 [of t] unfolding v by (simp add: unat_word_ariths unsigned_ucast_eq take_bit_nat_def del: unat_lt_u32)
  show "s_have a'" "s_tick a' = t" "s_have a \<Longrightarrow> s_tick a = t \<Longrightarrow> a' = a"
    using assms by (auto simp: osi_impl_time_us_def Let_def split: if_splits)
qed

text \<open>
  The clock and its race. Readings made one after the other never go backwards: at a later tick, or at the same tick with
  the cycle counter further from the anchor. But the cycle counter is read before the critical section: a task preempted
  there while another one sets the anchor computes a negative offset, which wraps, is capped at the end of the tick,
  and the next reading in time order is earlier than the one just given.
\<close>

theorem osi_time_order:
  assumes "osi_impl_time_us cc1 t1 a = (v1, a1)" "osi_impl_time_us cc2 t2 a1 = (v2, a2)"
  shows "(unat t1 < unat t2 \<or> t1 = t2 \<and> cc1 - s_cc a1 \<le> cc2 - s_cc a1 \<longrightarrow> v1 \<le> v2)
    \<and> (t1 = t2 \<and> 0 < s_cc a1 - cc1 \<and> s_cc a1 - cc1 < 0x80000000 \<and> cc2 - s_cc a1 < 799920 \<longrightarrow> v2 < v1)"
proof (intro conjI impI)
  note V1 = time_value [OF assms(1)] and V2 = time_value [OF assms(2)]
  assume "unat t1 < unat t2 \<or> t1 = t2 \<and> cc1 - s_cc a1 \<le> cc2 - s_cc a1"
  then show "v1 \<le> v2"
  proof
    assume "unat t1 < unat t2"
    then have "unat t1 * 10000 + 9999 < unat t2 * 10000" by simp
    then show ?thesis using V1(1) V2(1) by (simp add: word_le_nat_alt)
  next
    assume e: "t1 = t2 \<and> cc1 - s_cc a1 \<le> cc2 - s_cc a1"
    then have "a2 = a1" using V1(2,3) V2(4) by simp
    moreover have "unat (cc1 - s_cc a1) div 80 \<le> unat (cc2 - s_cc a1) div 80" using e by (intro div_le_mono) (simp add: word_le_nat_alt)
    ultimately show ?thesis using V1(1) V2(1) e by (simp add: word_le_nat_alt)
  qed
next
  note V1 = time_value [OF assms(1)] and V2 = time_value [OF assms(2)]
  assume e: "t1 = t2 \<and> 0 < s_cc a1 - cc1 \<and> s_cc a1 - cc1 < 0x80000000 \<and> cc2 - s_cc a1 < 799920"
  then have "a2 = a1" using V1(2,3) V2(4) by simp
  have "cc1 - s_cc a1 = 0 - (s_cc a1 - cc1)" by simp
  then have "unat (cc1 - s_cc a1) = 4294967296 - unat (s_cc a1 - cc1)"
    using e unat_sub_if' [of 0 "s_cc a1 - cc1"] by (simp add: word_less_nat_alt)
  moreover have "unat (s_cc a1 - cc1) < 0x80000000" using e by (simp add: word_less_nat_alt)
  ultimately have "9999 \<le> unat (cc1 - s_cc a1) div 80" by simp
  moreover have "unat (cc2 - s_cc a1) div 80 < 9999" using e by (simp add: word_less_nat_alt div_less_iff_less_mult)
  ultimately show "v2 < v1" using V1(1) V2(1) e \<open>a2 = a1\<close> by (simp add: word_less_nat_alt)
qed

subsection \<open>Creating queues\<close>

text \<open>
  Creating a queue: when the product of length and item size does not exceed the cap, a handle that is returned names a
  well-formed empty queue whose storage is a live heap region that holds it; but the product is taken in 32 bits, so a
  length whose product wraps is accepted, and the ring is then larger than its region.
\<close>

theorem osi_queue_create_bounds:
  assumes "heap_ok (oheap st)" "length (g_queue st) = OSI_QUEUE_MAX" "osi_impl_queue_create len item_size st = Some (h, st')" "h \<noteq> 0"
  shows "\<exists>s. H_OK h OSI_QUEUE_MAX \<and> (unat (q_buf (queue_at h st')), s) \<in> heap_live (oheap st')
    \<and> unat (len * item_size) \<le> s \<and> q_bytes (queue_at h st') = unat len * unat item_size
    \<and> (unat len * unat item_size < 2 ^ 32 \<longrightarrow> q_ok (queue_at h st') \<and> contents h st' = [] \<and> q_bytes (queue_at h st') \<le> s)
    \<and> (2 ^ 32 \<le> unat len * unat item_size \<longrightarrow> s < q_bytes (queue_at h st'))"
proof -
  have c: "item_size \<noteq> 0" "len \<noteq> 0" "len * item_size \<le> OSI_QUEUE_BYTES"
    using assms(3,4) by (auto simp: osi_impl_queue_create_def not_less split: if_splits)
  from kheap.alloc_returns [OF assms(1), of "len * item_size"] obtain p hp where
    a: "heap_alloc (len * item_size) (oheap st) = Some (p, hp)" "heap_ok hp" by blast
  have p: "p \<noteq> 0" using assms(3,4) a(1) c by (auto simp: osi_impl_queue_create_def Let_def split: if_splits)
  from assms(3,4) a(1) p c obtain i where u: "first_unused (map q_used (g_queue st)) 0 = Some i"
    by (auto simp: osi_impl_queue_create_def Let_def split: option.splits if_splits)
  then have i: "i < OSI_QUEUE_MAX" using first_unused_found [OF u] assms(2) by simp
  note H = handle_ok [of i]
  let ?q = "\<lparr>q_used = True, q_item_size = item_size, q_capacity = len, q_head = 0, q_tail = 0, q_len = 0, q_waiters_recv = 0, q_waiters_send = 0, q_buf = p\<rparr>"
  have "osi_impl_queue_create len item_size st = Some (H_MAKE i, upd_queue i (\<lambda>q. ?q) (st\<lparr>oheap := hp\<rparr>))"
    using a(1) p c(1,2) leD [OF c(3)] u by (simp add: osi_impl_queue_create_def Let_def)
  then have st': "h = H_MAKE i" "oheap st' = hp" "queue_at h st' = ?q"
    using assms(2,3) i H by (simp_all add: queue_at_def osi_simps)
  from kheap.alloc_fresh [OF assms(1) a(1) p] obtain s where
    s: "unat (len * item_size) \<le> s" "heap_live hp = insert (unat p, s) (heap_live (oheap st))" by blast
  have r: "s < 2 ^ 32" using kheap.live_range [OF a(2), of "unat p" s] s(2) by auto
  have "q_ok ?q \<and> contents h st' = [] \<and> q_bytes ?q \<le> s" if "unat len * unat item_size < 2 ^ 32"
  proof -
    have m: "unat (len * item_size) = unat len * unat item_size" using that by (simp add: unat_word_ariths)
    then show ?thesis using c s(1) st'(3)
      by (simp add: q_ok_def q_bytes_def contents_def q_items_def ring_pos_def word_less_nat_alt word_le_nat_alt unat_gt_0)
  qed
  then show ?thesis using s st' r H i by (intro exI [of _ s]) (auto simp: q_bytes_def)
qed

subsection \<open>Timers\<close>

definition timer_due :: "osi \<Rightarrow> u32 \<Rightarrow> nat \<Rightarrow> bool" where
  "timer_due st now i \<longleftrightarrow> t_used (g_timer st ! i) \<and> t_armed (g_timer st ! i) \<and> t_fn (g_timer st ! i) \<noteq> 0
     \<and> sint (now - t_due_tick (g_timer st ! i)) \<ge> 0"

text \<open>What firing makes of a timer: the next period, or disarmed.\<close>

definition fired :: "u32 \<Rightarrow> osi_timer_t \<Rightarrow> osi_timer_t" where
  "fired now t = (if t_periodic t then t\<lparr>t_due_tick := now + t_period_ticks t\<rparr> else t\<lparr>t_armed := False\<rparr>)"

lemma service_step_eq:
  "service_step call now i st =
     (if timer_due st now i then call (t_fn (g_timer st ! i)) (t_arg (g_timer st ! i)) (upd_timer i (fired now) st) else st)"
  by (auto simp: service_step_def timer_due_def fired_def Let_def upd_timer_def)

lemma service_fold:
  assumes "\<And>f a s. g_timer (call f a s) = g_timer s" "distinct is" "\<And>i. i \<in> set is \<Longrightarrow> i < length (g_timer s) \<and> g_timer s ! i = g_timer st ! i"
  shows "fold (service_step call now) is s = fold (\<lambda>i s. call (t_fn (g_timer st ! i)) (t_arg (g_timer st ! i)) (upd_timer i (fired now) s))
      (filter (timer_due st now) is) s
    \<and> length (g_timer (fold (service_step call now) is s)) = length (g_timer s)
    \<and> (\<forall>j < length (g_timer s). g_timer (fold (service_step call now) is s) ! j =
        (if j \<in> set is \<and> timer_due st now j then fired now (g_timer st ! j) else g_timer s ! j))"
  using assms(2,3)
proof (induction "is" arbitrary: s)
  case (Cons i "is")
  have i: "i < length (g_timer s)" "g_timer s ! i = g_timer st ! i" using Cons.prems(2) by auto
  have d: "timer_due s now i = timer_due st now i" using i by (simp add: timer_due_def)
  let ?s = "service_step call now i s"
  have g: "g_timer ?s = (if timer_due st now i then (g_timer s)[i := fired now (g_timer st ! i)] else g_timer s)"
    using i d assms(1) by (simp add: service_step_eq upd_timer_def)
  have "j < length (g_timer ?s) \<and> g_timer ?s ! j = g_timer st ! j" if "j \<in> set is" for j
    using Cons.prems that g by (cases "j = i") auto
  from Cons.IH [OF _ this] Cons.prems(1) show ?case
    using g i d by (auto simp: service_step_eq nth_list_update)
qed simp

text \<open>
  The timer service calls exactly the timers that are used, armed, bound and due, each once, in the order of the pool; a
  periodic one is set to its period after the tick of the service, any other is disarmed, and the rest keep their state.
  The callbacks of the library are assumed to leave the pool alone.
\<close>

theorem osi_timer_service_exact:
  assumes "\<And>f a s. g_timer (call f a s) = g_timer s" "length (g_timer st) = OSI_TIMER_MAX"
  shows "osi_impl_timer_service call st =
      fold (\<lambda>i s. call (t_fn (g_timer st ! i)) (t_arg (g_timer st ! i)) (upd_timer i (fired (oticks st)) s))
        (filter (timer_due st (oticks st)) [0..<OSI_TIMER_MAX]) st
    \<and> (\<forall>j < OSI_TIMER_MAX. g_timer (osi_impl_timer_service call st) ! j =
        (if timer_due st (oticks st) j then fired (oticks st) (g_timer st ! j) else g_timer st ! j))"
  unfolding osi_impl_timer_service_def
proof (intro conjI allI impI, goal_cases)
  note F = service_fold [of call "[0..<OSI_TIMER_MAX]" st st "oticks st", OF assms(1)]
  case 1
  show ?case by (rule conjunct1 [OF F]) (use assms(2) in simp_all)
  case (2 j)
  with conjunct2 [OF conjunct2 [OF F]] show ?case using assms(2) by simp
qed

text \<open>A pool slot handed out by \<^verbatim>\<open>osi_impl_timer_alloc\<close> keeps the owner of its last use, so a library timer that was done
  before finds it again: the two then share one slot.\<close>

theorem osi_timer_alias:
  assumes "length (g_timer st) = OSI_TIMER_MAX" "p \<noteq> 0" "first_unused (map t_used (g_timer st)) 0 = Some i"
    and "\<And>j. j < i \<Longrightarrow> t_owner (g_timer st ! j) \<noteq> p" "t_owner (g_timer st ! i) = p" "\<And>j. j < OSI_TIMER_MAX \<Longrightarrow> timer_addr st j \<noteq> p"
  shows "timer_of p (snd (osi_impl_timer_alloc st)) = Some i"
proof -
  let ?st = "snd (osi_impl_timer_alloc st)"
  have i: "i < OSI_TIMER_MAX" using first_unused_found [OF assms(3)] assms(1) by simp
  have scan: "timer_scan st' p (xs @ i # ys) = Some i"
    if "\<And>j. j \<in> set xs \<Longrightarrow> t_owner (g_timer st' ! j) \<noteq> p \<and> timer_addr st' j \<noteq> p" "t_used (g_timer st' ! i)" "t_owner (g_timer st' ! i) = p"
    for st' xs ys using that by (induction xs) auto
  have "[0..<OSI_TIMER_MAX] = [0..<i] @ i # [Suc i..<OSI_TIMER_MAX]"
    using i upt_add_eq_append [of 0 i "OSI_TIMER_MAX - i"] upt_conv_Cons [of i OSI_TIMER_MAX] by simp
  moreover have "g_timer ?st = (g_timer st)[i := (g_timer st ! i)\<lparr>t_used := True, t_armed := False, t_fn := 0\<rparr>]" "timer_addr ?st = timer_addr st"
    using assms(3) by (simp_all add: osi_impl_timer_alloc_def upd_timer_def timer_addr_def fun_eq_iff)
  ultimately show "timer_of p ?st = Some i"
    using assms i unfolding timer_of_def by (simp del: upt_Suc) (rule scan, auto)
qed

subsection \<open>A small state\<close>

definition osi_demo :: "osi_sem_t \<Rightarrow> osi_queue_t \<Rightarrow> osi_timer_t \<Rightarrow> osi" where
  "osi_demo s q t = \<lparr>
     g_sem = s # replicate 11 \<lparr>sem_used = False, sem_count = 0, sem_max = 0, sem_waiters = 0, sem_recursive = False, sem_owner = 0, sem_depth = 0\<rparr>,
     g_queue = q # replicate 7 \<lparr>q_used = False, q_item_size = 0, q_capacity = 0, q_head = 0, q_tail = 0, q_len = 0, q_waiters_recv = 0,
       q_waiters_send = 0, q_buf = 0\<rparr>,
     g_evt = replicate 4 \<lparr>e_used = False, e_bits = 0, e_waiters = 0\<rparr>,
     g_timer = t # replicate 23 \<lparr>t_used = False, t_armed = False, t_periodic = False, t_period_ticks = 0, t_due_tick = 0, t_fn = 0, t_arg = 0, t_owner = 0\<rparr>,
     g_timer_at = 0x3000, g_timer_short = 0, g_sem_owner = replicate 12 0, g_thread_sem = replicate 13 0, g_osi_capped = 0, g_osi_capped_where = 0,
     g_service_task = 0, g_time_us_hi_latch = 0,
     ostats = \<lparr>g_osi_alloc_calls = 0, g_osi_alloc_bytes = 0, g_osi_alloc_max = 0, g_osi_alloc_fails = 0, g_osi_fail_size = 0, g_osi_fail_free = 0,
       g_osi_fail_largest = 0, g_osi_fail_blocks = 0, g_osi_sizes = replicate 40 0, g_osi_sizes_n = 0, g_osi_free_calls = 0, g_osi_heap_used = 0,
       g_osi_heap_hw = 0, g_osi_heap_largest = 0, g_osi_heap_minfree = 0\<rparr>,
     oticks = 100, osched = sched_zero, oheap = heap_example, omem = (\<lambda>a. ucast a)\<rparr>"

definition demo_sem :: osi_sem_t where
  "demo_sem = \<lparr>sem_used = True, sem_count = 0, sem_max = 1, sem_waiters = 0, sem_recursive = True, sem_owner = 3, sem_depth = 1\<rparr>"

definition demo_queue :: osi_queue_t where
  "demo_queue = \<lparr>q_used = True, q_item_size = 2, q_capacity = 2, q_head = 1, q_tail = 0, q_len = 1, q_waiters_recv = 0, q_waiters_send = 0, q_buf = 0x1000\<rparr>"

definition demo_timer :: osi_timer_t where
  "demo_timer = \<lparr>t_used = True, t_armed = True, t_periodic = True, t_period_ticks = 5, t_due_tick = 99, t_fn = 0x400, t_arg = 0, t_owner = 0x9000\<rparr>"

lemma demo_fields:
  "length (g_sem (osi_demo s q t)) = 12" "length (g_queue (osi_demo s q t)) = 8" "length (g_timer (osi_demo s q t)) = 24"
  "sem_at 0x05100000 (osi_demo s q t) = s" "queue_at 0x05100000 (osi_demo s q t) = q" "H_OK 0x05100000 12" "H_OK 0x05100000 8"
  "g_current (osched (osi_demo s q t)) = -1" "oheap (osi_demo s q t) = heap_example"
  by (simp_all add: osi_demo_def sem_at_def queue_at_def H_INDEX_def H_OK_def sched_zero_def)

lemma load_two: "load_bytes m a 2 = [m a, m (a + 1)]"
  unfolding numeral_2_eq_2 by simp

theorem osi_queue_refines_witness:
  "\<exists>st'. osi_impl_queue_send (\<lambda>_ st. st) 0x05100000 0x2003 0 True (osi_demo demo_sem demo_queue demo_timer) = Some (1, st')
    \<and> contents 0x05100000 st' = [[3, 4], [2, 3]]"
proof -
  let ?st = "osi_demo demo_sem demo_queue demo_timer"
  have q: "q_ok demo_queue" by (simp add: q_ok_def demo_queue_def q_bytes_def ring_pos_def)
  have "apart 0x1000 4 0x2003 2"
  proof (unfold apart_def, intro allI notI)
    fix x :: u32 assume x: "unat (x - 0x1000) < 4 \<and> unat (x - 0x2003) < 2"
    have "x - 0x1000 = (x - 0x2003) + 0x1003" by simp
    then show False using x unat_add_u32 [of "x - 0x2003" "0x1003"] by simp
  qed
  then have a: "apart (q_buf demo_queue) (q_bytes demo_queue) 0x2003 (unat (q_item_size demo_queue))" by (simp add: demo_queue_def q_bytes_def)
  have "omem ?st = (\<lambda>a. ucast a)" by (simp add: osi_demo_def)
  then have c: "contents 0x05100000 ?st = [[2, 3]]" "load_bytes (omem ?st) 0x2003 2 = [3, 4]"
    by (simp_all add: contents_def demo_fields q_items_def demo_queue_def cell_def ring_pos_def load_two)
  have n: "unat (q_item_size demo_queue) = 2" "unat (q_capacity demo_queue) = 2" "length [[2, 3 :: u8]] = 1" "(1 :: nat) < 2"
    by (simp_all add: demo_queue_def)
  have h: "H_OK 0x05100000 OSI_QUEUE_MAX" "length (g_queue ?st) = OSI_QUEUE_MAX" "q_ok (queue_at 0x05100000 ?st)" "(0x2003 :: u32) \<noteq> 0"
    "apart (q_buf (queue_at 0x05100000 ?st)) (q_bytes (queue_at 0x05100000 ?st)) 0x2003 (unat (q_item_size (queue_at 0x05100000 ?st)))"
    using q a by (simp_all only: demo_fields) simp_all
  from conjunct1 [OF osi_queue_refines [OF h, of "\<lambda>_ st. st" 0 True]] show ?thesis
    unfolding c demo_fields n by auto
qed

theorem osi_timed_wait_returns_witness:
  "\<exists>r. osi_impl_sem_take (\<lambda>_ st. st) 0x05100000 3 (osi_demo demo_sem demo_queue demo_timer) = Some r"
  using osi_timed_wait_returns [of 3 "\<lambda>_ st. st" "0x05100000"] by auto

theorem osi_foreign_give_witness:
  "\<exists>st1 st2. osi_impl_sem_give 0x05100000 (osi_demo demo_sem demo_queue demo_timer) = (1, st1) \<and> sem_owner (sem_at 0x05100000 st1) = 3
    \<and> osi_impl_sem_take (\<lambda>_ st. st) 0x05100000 0 st1 = Some (1, st2) \<and> sem_owner (sem_at 0x05100000 st2) = -1"
  using osi_foreign_give [of "0x05100000" "osi_demo demo_sem demo_queue demo_timer" "\<lambda>_ st. st"]
  by (auto simp: demo_fields demo_sem_def)

theorem osi_sem_stale_recursion_witness:
  "\<exists>st3. osi_impl_recursive_mutex_create (osi_demo demo_sem demo_queue demo_timer) = (0x05100001, st3)"
proof -
  let ?st = "osi_demo demo_sem demo_queue demo_timer"
  have "first_unused (map sem_used (g_sem ?st)) 0 = Some 1" by (simp add: osi_demo_def demo_sem_def numeral_eq_Suc)
  from osi_sem_stale_recursion [OF _ this, of "\<lambda>_ st. st"] obtain h st1 where e: "osi_impl_recursive_mutex_create ?st = (h, st1)"
    by (auto simp: demo_fields)
  then have "h = 0x05100001" using \<open>first_unused _ _ = _\<close>
    by (auto simp: osi_impl_recursive_mutex_create_def osi_impl_sem_create_def H_MAKE_def split: if_splits)
  with e show ?thesis by blast
qed

theorem osi_time_order_witness:
  "\<exists>v1 v2 a. fst (osi_impl_time_us 1000 7 \<lparr>s_tick = 7, s_cc = 2000, s_have = True\<rparr>) = v1
    \<and> fst (osi_impl_time_us 2160 7 \<lparr>s_tick = 7, s_cc = 2000, s_have = True\<rparr>) = v2 \<and> v2 < v1 \<and> a = v1"
proof -
  let ?a = "\<lparr>s_tick = 7, s_cc = 2000, s_have = True\<rparr>"
  have "snd (osi_impl_time_us 1000 7 ?a) = ?a" by (simp add: osi_impl_time_us_def)
  then have "osi_impl_time_us 1000 7 ?a = (fst (osi_impl_time_us 1000 7 ?a), ?a)" by (metis prod.collapse)
  from osi_time_order [OF this, of 2160 7 "fst (osi_impl_time_us 2160 7 ?a)" "snd (osi_impl_time_us 2160 7 ?a)"] show ?thesis by simp
qed

theorem osi_queue_create_bounds_witness:
  "\<exists>h st' s. osi_impl_queue_create 0x80000001 2 (osi_demo demo_sem demo_queue demo_timer) = Some (h, st') \<and> h = 0x05100001
    \<and> (unat (q_buf (queue_at h st')), s) \<in> heap_live (oheap st') \<and> s < q_bytes (queue_at h st')"
proof -
  let ?st = "osi_demo demo_sem demo_queue demo_timer"
  have "map_option (\<lambda>(h, st). h) (osi_impl_queue_create 0x80000001 2 ?st) = Some 0x05100001" by code_simp
  then obtain st' where c: "osi_impl_queue_create 0x80000001 2 ?st = Some (0x05100001, st')" by auto
  from osi_queue_create_bounds [OF _ _ c] heap_example_ok show ?thesis by (auto simp: demo_fields c)
qed

theorem osi_timer_service_exact_witness:
  "t_due_tick (g_timer (osi_impl_timer_service (\<lambda>_ _ st. st) (osi_demo demo_sem demo_queue demo_timer)) ! 0) = 105"
proof -
  let ?st = "osi_demo demo_sem demo_queue demo_timer"
  have "timer_due ?st 100 0" "fired 100 (g_timer ?st ! 0) = demo_timer\<lparr>t_due_tick := 105\<rparr>" "oticks ?st = 100"
    by (simp_all add: timer_due_def osi_demo_def demo_timer_def fired_def)
  moreover have "length (g_timer ?st) = 24" by (simp add: demo_fields)
  note conjunct2 [OF osi_timer_service_exact [of "\<lambda>_ _ st. st" ?st, OF refl this]]
  ultimately show ?thesis by simp
qed

end
