(* ===== verification/KIntr.thy ===== *)
theory KIntr
  imports Prelude
begin

text \<open>
  Interrupt routing and dispatch, \<^verbatim>\<open>kernel/intr.c\<close>, and the requests of the radio library for interrupts,
  \<^verbatim>\<open>kernel/wifi_osi_impl.c\<close>. Handlers and the tick are parameters: \<open>run\<close> is the call of the handler at an address,
  \<open>tick\<close> the tick handler; a handler is the address of a function, 0 for none.
\<close>

subsection \<open>Data\<close>

abbreviation (input) INTR_SRC_COUNT :: u32 where "INTR_SRC_COUNT \<equiv> 69"
abbreviation (input) INTR_LINE_TIMER1 :: u32 where "INTR_LINE_TIMER1 \<equiv> 15"
abbreviation (input) INTR_LINE_WIFI_MAC :: u32 where "INTR_LINE_WIFI_MAC \<equiv> 27"
abbreviation (input) INTR_LINE_WIFI_MAC_BLOB :: u32 where "INTR_LINE_WIFI_MAC_BLOB \<equiv> 0"
abbreviation (input) INTR_LEVEL1_MASK :: u32 where "INTR_LEVEL1_MASK \<equiv> 0x000637FF"

text \<open>The statics of the file, the enable register, the map registers of the interrupt matrix, and the library's table.\<close>

record intr =
  g_handler :: "u32 list"
  g_count :: "u32 list"
  g_spurious :: u32
  g_disabled :: u32
  g_bad_source :: u32
  g_l1_count :: u32
  g_l1_spurious :: u32
  intenable :: u32
  dport_map :: "u32 \<Rightarrow> u32"
  g_blob_isr :: "(u32 \<times> u32) list"
  g_blob_isr_calls :: "u32 list"
  g_blob_isr_nofn :: u32
  g_blob_in_isr :: u32
  g_blob_tick_guard :: u32
  g_blob_intr :: "u32 \<times> u32 \<times> u32"
  g_blob_intr_routed :: u32

definition xt_enable_interrupt :: "u32 \<Rightarrow> intr \<Rightarrow> intr" where
  "xt_enable_interrupt line st = st\<lparr>intenable := intenable st OR push_bit (unat line) 1\<rparr>"

definition xt_disable_interrupt :: "u32 \<Rightarrow> intr \<Rightarrow> intr" where
  "xt_disable_interrupt line st = st\<lparr>intenable := intenable st AND NOT (push_bit (unat line) 1)\<rparr>"

subsection \<open>Routing and dispatch\<close>

definition intr_install :: "u32 \<Rightarrow> u32 \<Rightarrow> intr \<Rightarrow> intr" where
  "intr_install line fn st = (if line < 32 then st\<lparr>g_handler := (g_handler st)[unat line := fn]\<rparr> else st)"

definition intr_route :: "u32 \<Rightarrow> u32 \<Rightarrow> u32 \<Rightarrow> intr \<Rightarrow> intr" where
  "intr_route source line fn st =
     (if line \<ge> 32 then st
      else if source \<ge> INTR_SRC_COUNT then st\<lparr>g_bad_source := g_bad_source st + 1\<rparr>
      else xt_enable_interrupt line (st\<lparr>g_handler := (g_handler st)[unat line := fn], dport_map := (dport_map st)(source := line)\<rparr>))"

text \<open>The number of leading zeros of a non-zero word.\<close>

definition clz :: "u32 \<Rightarrow> nat" where
  "clz w = length (takeWhile (\<lambda>i. \<not> bit w i) (rev [0..<32]))"

lemma clz_top:
  assumes "w \<noteq> 0"
  shows "clz w \<le> 31" "bit w (31 - clz w)" "31 - clz w < j \<Longrightarrow> \<not> bit w j"
proof -
  let ?l = "rev [0..<32] :: nat list"
  have ex: "\<exists>i < 32. bit w i"
  proof (rule ccontr)
    assume "\<not> ?thesis"
    then have "w = 0" by (intro bit_word_eqI) auto
    with assms show False by simp
  qed
  have nt: "clz w < length ?l"
  proof (rule ccontr)
    assume "\<not> ?thesis"
    then have "takeWhile (\<lambda>i. \<not> bit w i) ?l = ?l"
      using takeWhile_eq_take [of "\<lambda>i. \<not> bit w i" ?l] by (simp add: clz_def)
    then have "\<forall>i \<in> set ?l. \<not> bit w i" by (simp only: takeWhile_eq_all_conv)
    with ex show False by auto
  qed
  then show le: "clz w \<le> 31" by simp
  have nth: "?l ! k = 31 - k" if "k < 32" for k using that by (simp add: rev_nth)
  have "\<not> \<not> bit w (?l ! clz w)" using nth_length_takeWhile [of "\<lambda>i. \<not> bit w i" ?l] nt unfolding clz_def by simp
  then show b: "bit w (31 - clz w)" using nth nt by simp
  show "\<not> bit w j" if "31 - clz w < j"
  proof (cases "j < 32")
    case True
    then have k: "31 - j < clz w" using that by linarith
    then have "\<not> bit w (?l ! (31 - j))" unfolding clz_def using takeWhile_nth [of "31 - j" "\<lambda>i. \<not> bit w i" ?l]
      set_takeWhileD [of "takeWhile (\<lambda>i. \<not> bit w i) ?l ! (31 - j)" "\<lambda>i. \<not> bit w i" ?l] nth_mem by metis
    then show ?thesis using nth [of "31 - j"] True by simp
  qed (use bit_imp_le_length [of w j] in auto)
qed

lemma card_bits_clear:
  assumes "(w :: u32) \<noteq> 0"
  shows "card {i. bit (w AND NOT (push_bit (31 - clz w) 1)) i} < card {i. bit w i}"
proof (rule psubset_card_mono)
  have "{i. bit w i} \<subseteq> {..<32}" using bit_imp_le_length [of w] by auto
  then show "finite {i. bit w i}" by (rule finite_subset) simp
  have "\<not> bit (w AND NOT (push_bit (31 - clz w) 1)) (31 - clz w)" by (simp add: bit_simps)
  then show "{i. bit (w AND NOT (push_bit (31 - clz w) 1)) i} \<subset> {i. bit w i}"
    using clz_top(2) [OF assms] by (auto simp: bit_and_iff)
qed

text \<open>The common loop of the two dispatchers; \<open>served\<close> and \<open>stray\<close> are their counters.\<close>

function dispatch_loop :: "(u32 \<Rightarrow> intr \<Rightarrow> intr) \<Rightarrow> (intr \<Rightarrow> intr) \<Rightarrow> (intr \<Rightarrow> intr) \<Rightarrow> u32 \<Rightarrow> intr \<Rightarrow> intr" where
  "dispatch_loop run served stray pending st =
     (if pending = 0 then st
      else
        let line = 31 - clz pending; rest = pending AND NOT (push_bit line 1); fn = g_handler st ! line in
        if fn \<noteq> 0 then dispatch_loop run served stray rest (run fn (served (st\<lparr>g_count := (g_count st)[line := g_count st ! line + 1]\<rparr>)))
        else dispatch_loop run served stray rest (xt_disable_interrupt (of_nat line)
          (stray (st\<lparr>g_spurious := g_spurious st + 1, g_disabled := g_disabled st OR push_bit line 1\<rparr>))))"
  by auto
termination
  by (relation "measure (\<lambda>(run, served, stray, pending, st). card {i. bit pending i})")
    (use card_bits_clear in \<open>auto simp del: push_bit_of_1\<close>)

declare dispatch_loop.simps [simp del]

definition intr_dispatch :: "(u32 \<Rightarrow> intr \<Rightarrow> intr) \<Rightarrow> (intr \<Rightarrow> intr) \<Rightarrow> u32 \<Rightarrow> intr \<Rightarrow> intr" where
  "intr_dispatch run tick interrupt st =
     (let pending = interrupt AND intenable st in
      if pending AND push_bit 15 1 \<noteq> 0 then
        dispatch_loop run id id (pending AND NOT (push_bit 15 1)) (tick (st\<lparr>g_count := (g_count st)[15 := g_count st ! 15 + 1]\<rparr>))
      else dispatch_loop run id id pending st)"

definition intr_dispatch_level1 :: "(u32 \<Rightarrow> intr \<Rightarrow> intr) \<Rightarrow> u32 \<Rightarrow> intr \<Rightarrow> intr" where
  "intr_dispatch_level1 run interrupt st =
     dispatch_loop run (\<lambda>st. st\<lparr>g_l1_count := g_l1_count st + 1\<rparr>) (\<lambda>st. st\<lparr>g_l1_spurious := g_l1_spurious st + 1\<rparr>)
       (interrupt AND intenable st AND INTR_LEVEL1_MASK) st"

subsection \<open>The radio library's interrupts\<close>

definition blob_line_map :: "u32 \<Rightarrow> u32" where
  "blob_line_map num = (if num = INTR_LINE_WIFI_MAC_BLOB then INTR_LINE_WIFI_MAC else num)"

text \<open>\<open>call\<close> is \<^verbatim>\<open>rom_call4\<close> on the library's function and argument.\<close>

definition blob_isr_run :: "(u32 \<Rightarrow> u32 \<Rightarrow> intr \<Rightarrow> intr) \<Rightarrow> nat \<Rightarrow> intr \<Rightarrow> intr" where
  "blob_isr_run call line st =
     (let (fn, arg) = g_blob_isr st ! line in
      if fn = 0 then st\<lparr>g_blob_isr_nofn := g_blob_isr_nofn st + 1\<rparr>
      else
        let st1 = call fn arg (st\<lparr>g_blob_isr_calls := (g_blob_isr_calls st)[line := g_blob_isr_calls st ! line + 1],
                                  g_blob_in_isr := g_blob_in_isr st + 1\<rparr>)
        in st1\<lparr>g_blob_in_isr := g_blob_in_isr st1 - 1\<rparr>)"

definition osi_impl_set_isr :: "int \<Rightarrow> u32 \<Rightarrow> u32 \<Rightarrow> intr \<Rightarrow> intr" where
  "osi_impl_set_isr n f arg st =
     (if n < 0 \<or> n \<ge> 32 then st
      else st\<lparr>g_blob_isr := (g_blob_isr st)[unat (blob_line_map (of_int n)) := (f, arg)]\<rparr>)"

text \<open>\<open>tramp\<close> is the table of trampolines, one function per line.\<close>

definition osi_impl_set_intr :: "(u32 \<Rightarrow> u32) \<Rightarrow> u32 \<Rightarrow> u32 \<Rightarrow> u32 \<Rightarrow> intr \<Rightarrow> intr" where
  "osi_impl_set_intr tramp source num0 prio st =
     (if num0 \<ge> 32 then st
      else
        let num = blob_line_map num0 in
        if num = INTR_LINE_TIMER1 then st\<lparr>g_blob_tick_guard := g_blob_tick_guard st + 1\<rparr>
        else intr_route source num (tramp num)
          (st\<lparr>g_blob_intr := (source, num, prio), g_blob_intr_routed := g_blob_intr_routed st + 1\<rparr>))"

definition osi_impl_ints_on :: "u32 \<Rightarrow> intr \<Rightarrow> intr" where
  "osi_impl_ints_on msk st =
     fold (\<lambda>line st. if msk AND push_bit line 1 \<noteq> 0 then xt_enable_interrupt (blob_line_map (of_nat line)) st else st) [0..<32] st"

definition ints_off_step :: "u32 \<Rightarrow> nat \<Rightarrow> intr \<Rightarrow> intr" where
  "ints_off_step msk line st =
     (if msk AND push_bit line 1 \<noteq> 0 then
        let l = blob_line_map (of_nat line) in
        if l = INTR_LINE_TIMER1 then st\<lparr>g_blob_tick_guard := g_blob_tick_guard st + 1\<rparr> else xt_disable_interrupt l st
      else st)"

definition osi_impl_ints_off :: "u32 \<Rightarrow> intr \<Rightarrow> intr" where
  "osi_impl_ints_off msk st = fold (ints_off_step msk) [0..<32] st"

subsection \<open>Dispatch serves each pending line once\<close>

text \<open>What a call may not touch: the dispatcher's own tables.\<close>

definition same_tables :: "intr \<Rightarrow> intr \<Rightarrow> bool" where
  "same_tables st' st \<longleftrightarrow> g_handler st' = g_handler st \<and> g_count st' = g_count st \<and> g_disabled st' = g_disabled st
     \<and> intenable st' = intenable st"

text \<open>The result of serving the lines \<open>p\<close> marks: handled lines are counted, the others masked.\<close>

definition lines_served :: "u32 \<Rightarrow> intr \<Rightarrow> intr \<Rightarrow> bool" where
  "lines_served p st st' \<longleftrightarrow> g_handler st' = g_handler st \<and> length (g_count st') = length (g_count st) \<and>
     (\<forall>l < 32. g_count st' ! l = g_count st ! l + (if bit p l \<and> g_handler st ! l \<noteq> 0 then 1 else 0)
        \<and> bit (intenable st') l = (bit (intenable st) l \<and> \<not> (bit p l \<and> g_handler st ! l = 0))
        \<and> bit (g_disabled st') l = (bit (g_disabled st) l \<or> bit p l \<and> g_handler st ! l = 0))"

lemma bit_clear: "bit ((w :: u32) AND NOT (push_bit n 1)) l = (bit w l \<and> l \<noteq> n)"
  using bit_imp_le_length [of w l] by (auto simp: bit_simps)

lemma bit_set: "n < 32 \<Longrightarrow> bit ((w :: u32) OR push_bit n 1) l = (bit w l \<or> l = n)"
  by (auto simp: bit_simps)

lemma dispatch_loop_serves:
  assumes "\<And>fn st. same_tables (run fn st) st" "\<And>st. same_tables (served st) st" "\<And>st. same_tables (stray st) st"
  shows "length (g_count st) = 32 \<Longrightarrow> lines_served pending st (dispatch_loop run served stray pending st)"
  using assms
proof (induction run served stray pending st rule: dispatch_loop.induct)
  case (1 run served stray pending st)
  show ?case
  proof (cases "pending = 0")
    case True
    then show ?thesis by (subst dispatch_loop.simps) (simp add: lines_served_def)
  next
    case False
    define line where "line = 31 - clz pending"
    define rest where "rest = pending AND NOT (push_bit line 1)"
    define c where "c = run (g_handler st ! line) (served (st\<lparr>g_count := (g_count st)[line := g_count st ! line + 1]\<rparr>))"
    define u where "u = xt_disable_interrupt (of_nat line) (stray (st\<lparr>g_spurious := g_spurious st + 1, g_disabled := g_disabled st OR push_bit line 1\<rparr>))"
    note Z = clz_top [OF False, folded line_def]
    have line: "line < 32" by (simp add: line_def)
    then have ul: "unat (of_nat line :: u32) = line" by (simp add: unat_of_nat_u32)
    have br: "bit rest l = (bit pending l \<and> l \<noteq> line)" for l unfolding rest_def by (rule bit_clear)
    have C: "g_handler c = g_handler st" "g_count c = (g_count st)[line := g_count st ! line + 1]" "intenable c = intenable st" "g_disabled c = g_disabled st"
      using "1.prems"(2,3) by (auto simp: same_tables_def c_def)
    have U: "g_handler u = g_handler st" "g_count u = g_count st" "intenable u = intenable st AND NOT (push_bit line 1)"
      "g_disabled u = g_disabled st OR push_bit line 1"
      using "1.prems"(4) by (auto simp: same_tables_def u_def xt_disable_interrupt_def ul)
    have e: "dispatch_loop run served stray pending st = dispatch_loop run served stray rest (if g_handler st ! line \<noteq> 0 then c else u)"
      using False by (subst dispatch_loop.simps) (simp add: Let_def line_def rest_def c_def u_def)
    show ?thesis
    proof (cases "g_handler st ! line = 0")
      case True
      have "lines_served rest u (dispatch_loop run served stray rest u)"
        unfolding u_def by (rule "1.IH"(2) [OF False line_def rest_def refl]) (use True "1.prems" U(2) u_def in auto)
      then show ?thesis using e True U line Z(2) unfolding lines_served_def br
        by (auto simp: bit_set bit_clear simp del: push_bit_of_1)
    next
      case hd: False
      have "lines_served rest c (dispatch_loop run served stray rest c)"
        unfolding c_def by (rule "1.IH"(1) [OF False line_def rest_def refl hd]) (use "1.prems" C(2) c_def in auto)
      then show ?thesis using e hd C line Z(2) "1.prems"(1) unfolding lines_served_def br
        by (auto simp: nth_list_update)
    qed
  qed
qed

text \<open>
  Dispatch: one entry of the level-3 dispatcher serves every line that is pending and enabled exactly once: the tick and each
  line with a handler is counted once, a line without a handler is masked and recorded so that it cannot enter again, and
  every other line keeps its count and its enable bit. The handlers are assumed to leave the dispatcher's tables alone.
\<close>

theorem intr_dispatch_once:
  assumes "\<And>fn st. same_tables (run fn st) st" "\<And>st. same_tables (tick st) st" "length (g_count st) = 32" "l < 32"
  shows "g_count (intr_dispatch run tick interrupt st) ! l =
      g_count st ! l + (if bit interrupt l \<and> bit (intenable st) l \<and> (l = 15 \<or> g_handler st ! l \<noteq> 0) then 1 else 0)
    \<and> bit (intenable (intr_dispatch run tick interrupt st)) l =
      (bit (intenable st) l \<and> \<not> (bit interrupt l \<and> l \<noteq> 15 \<and> g_handler st ! l = 0))
    \<and> bit (g_disabled (intr_dispatch run tick interrupt st)) l =
      (bit (g_disabled st) l \<or> bit interrupt l \<and> bit (intenable st) l \<and> l \<noteq> 15 \<and> g_handler st ! l = 0)"
proof -
  let ?p = "interrupt AND intenable st"
  have idt: "same_tables (id st) st" for st by (simp add: same_tables_def)
  note S = dispatch_loop_serves [OF assms(1) idt idt]
  have key: "?p AND push_bit 15 1 \<noteq> 0 \<longleftrightarrow> bit ?p 15"
    using and_exp_eq_0_iff_not_bit [of ?p 15] by (simp add: push_bit_of_1)
  show ?thesis
  proof (cases "bit ?p 15")
    case True
    define st1 where "st1 = tick (st\<lparr>g_count := (g_count st)[15 := g_count st ! 15 + 1]\<rparr>)"
    have T: "g_handler st1 = g_handler st" "g_count st1 = (g_count st)[15 := g_count st ! 15 + 1]" "intenable st1 = intenable st"
      "g_disabled st1 = g_disabled st" using assms(2) by (auto simp: same_tables_def st1_def)
    have "intr_dispatch run tick interrupt st = dispatch_loop run id id (?p AND NOT (push_bit 15 1)) st1"
      using True unfolding intr_dispatch_def Let_def st1_def key by (simp only: if_True)
    moreover have "lines_served (?p AND NOT (push_bit 15 1)) st1 (dispatch_loop run id id (?p AND NOT (push_bit 15 1)) st1)"
      by (rule S) (use T(2) assms(3) in simp)
    ultimately show ?thesis using T True assms(3,4) unfolding lines_served_def bit_clear
      by (auto simp: bit_and_iff nth_list_update)
  next
    case False
    then have "intr_dispatch run tick interrupt st = dispatch_loop run id id ?p st"
      unfolding intr_dispatch_def Let_def key by (simp only: if_False)
    moreover have "lines_served ?p st (dispatch_loop run id id ?p st)" by (rule S [OF assms(3)])
    ultimately show ?thesis using False assms(4) unfolding lines_served_def by (auto simp: bit_and_iff)
  qed
qed

subsection \<open>The library cannot take the tick\<close>

text \<open>The requests the library can make.\<close>

datatype blob_request = Set_isr int u32 u32 | Set_intr u32 u32 u32 | Ints_on u32 | Ints_off u32

fun serve_request :: "(u32 \<Rightarrow> u32) \<Rightarrow> blob_request \<Rightarrow> intr \<Rightarrow> intr" where
  "serve_request tramp (Set_isr n f arg) st = osi_impl_set_isr n f arg st"
| "serve_request tramp (Set_intr source num prio) st = osi_impl_set_intr tramp source num prio st"
| "serve_request tramp (Ints_on m) st = osi_impl_ints_on m st"
| "serve_request tramp (Ints_off m) st = osi_impl_ints_off m st"

text \<open>What no request changes: the enable bit of the tick, its entry in the table, and the sources mapped to its line.\<close>

definition tick_kept :: "intr \<Rightarrow> intr \<Rightarrow> bool" where
  "tick_kept st st' \<longleftrightarrow> (bit (intenable st) 15 \<longrightarrow> bit (intenable st') 15) \<and> g_handler st' ! 15 = g_handler st ! 15
     \<and> (\<forall>src. dport_map st' src = INTR_LINE_TIMER1 \<longrightarrow> dport_map st src = INTR_LINE_TIMER1)"

lemma tick_kept_refl: "tick_kept st st"
  by (simp add: tick_kept_def)

lemma tick_kept_trans: "tick_kept st st1 \<Longrightarrow> tick_kept st1 st2 \<Longrightarrow> tick_kept st st2"
  by (auto simp: tick_kept_def)

lemma tick_kept_fold:
  "(\<And>x st. x \<in> set xs \<Longrightarrow> tick_kept st (f x st)) \<Longrightarrow> tick_kept st (fold f xs st)"
  by (induction xs arbitrary: st) (auto intro: tick_kept_refl tick_kept_trans)

lemma tick_kept_enable: "tick_kept st (xt_enable_interrupt l st)"
  by (simp add: tick_kept_def xt_enable_interrupt_def bit_or_iff)

lemma tick_kept_disable: "l \<noteq> INTR_LINE_TIMER1 \<Longrightarrow> tick_kept st (xt_disable_interrupt l st)"
  by (auto simp: tick_kept_def xt_disable_interrupt_def bit_clear word_unat_eq_iff simp del: push_bit_of_1)

lemma tick_kept_route: "l \<noteq> INTR_LINE_TIMER1 \<Longrightarrow> tick_kept st (intr_route source l fn st)"
  by (auto simp: tick_kept_def intr_route_def xt_enable_interrupt_def bit_or_iff nth_list_update word_unat_eq_iff)

lemma tick_kept_request: "tick_kept st (serve_request tramp r st)"
proof (cases r)
  case (Set_intr source num prio)
  have "tick_kept st (intr_route source (blob_line_map num) (tramp (blob_line_map num)) (st\<lparr>g_blob_intr := x, g_blob_intr_routed := y\<rparr>))"
    if "blob_line_map num \<noteq> INTR_LINE_TIMER1" for x y
    by (rule tick_kept_trans [OF _ tick_kept_route [OF that]]) (simp add: tick_kept_def)
  then show ?thesis using Set_intr tick_kept_refl by (simp add: osi_impl_set_intr_def Let_def tick_kept_def)
next
  case (Ints_on m)
  show ?thesis unfolding Ints_on serve_request.simps osi_impl_ints_on_def
    by (rule tick_kept_fold) (simp add: tick_kept_enable tick_kept_refl)
next
  case (Ints_off m)
  have "tick_kept st (ints_off_step m l st)" for l st
    using tick_kept_disable [of "blob_line_map (of_nat l)" st] tick_kept_refl by (simp add: ints_off_step_def Let_def) (simp add: tick_kept_def)
  then show ?thesis unfolding Ints_off serve_request.simps osi_impl_ints_off_def by (rule tick_kept_fold)
qed (simp add: osi_impl_set_isr_def tick_kept_def)

text \<open>
  The radio library cannot stop or take the tick (C20): over any sequence of its interrupt requests, with any lines, masks and
  sources, the enable bit of the tick's line stays set, its entry in the handler table is unchanged, and no
  peripheral source is routed to it.
\<close>

theorem blob_tick_safe:
  assumes "bit (intenable st) 15" "\<And>src. dport_map st src \<noteq> INTR_LINE_TIMER1"
  shows "bit (intenable (fold (serve_request tramp) rs st)) 15
    \<and> g_handler (fold (serve_request tramp) rs st) ! 15 = g_handler st ! 15
    \<and> dport_map (fold (serve_request tramp) rs st) src \<noteq> INTR_LINE_TIMER1"
  using tick_kept_fold [of rs "serve_request tramp" st, OF tick_kept_request] assms by (auto simp: tick_kept_def)

definition intr_demo :: intr where
  "intr_demo = \<lparr>g_handler = (replicate 32 0)[23 := 0x400], g_count = replicate 32 0, g_spurious = 0, g_disabled = 0, g_bad_source = 0,
     g_l1_count = 0, g_l1_spurious = 0, intenable = 0x00808100, dport_map = (\<lambda>_. 0), g_blob_isr = replicate 32 (0, 0),
     g_blob_isr_calls = replicate 32 0, g_blob_isr_nofn = 0, g_blob_in_isr = 0, g_blob_tick_guard = 0, g_blob_intr = (0, 0, 0),
     g_blob_intr_routed = 0\<rparr>"

theorem intr_dispatch_once_witness:
  "g_count (intr_dispatch (\<lambda>_ st. st) id 0x00008100 intr_demo) ! 15 = 1
    \<and> \<not> bit (intenable (intr_dispatch (\<lambda>_ st. st) id 0x00008100 intr_demo)) 8"
proof -
  have b: "bit (0x00008100 :: u32) 15" "bit (0x00008100 :: u32) 8" "bit (intenable intr_demo) 15" "bit (intenable intr_demo) 8"
    "g_count intr_demo ! 15 = 0" "g_handler intr_demo ! 8 = 0" "length (g_count intr_demo) = 32"
    by (simp_all add: intr_demo_def bit_numeral_rec)
  have k: "same_tables st st" "same_tables (id st) st" for st by (simp_all add: same_tables_def)
  show ?thesis using intr_dispatch_once [of "\<lambda>_ st. st" id intr_demo 15 "0x00008100", OF k]
      intr_dispatch_once [of "\<lambda>_ st. st" id intr_demo 8 "0x00008100", OF k] b by simp
qed

theorem blob_tick_safe_witness:
  "bit (intenable (fold (serve_request (\<lambda>_. 0x400)) [Ints_off 0xFFFFFFFF, Set_intr 3 15 0] intr_demo)) 15"
proof -
  have "bit (intenable intr_demo) 15" "\<And>src. dport_map intr_demo src \<noteq> INTR_LINE_TIMER1" by (simp_all add: intr_demo_def bit_numeral_rec)
  from blob_tick_safe [OF this, of "\<lambda>_. 0x400" "[Ints_off 0xFFFFFFFF, Set_intr 3 15 0]"] show ?thesis by simp
qed

end
