(* ===== verification/KHtml.thy ===== *)
theory KHtml
  imports Prelude
begin

text \<open>
  The HTML reader of the browser, \<^verbatim>\<open>kernel/html.c\<close>: one pass over an untrusted response that writes the text and the links.
  The position in the source is the rest of the source; the first \<open>g_len\<close> bytes of the text buffer are \<open>g_text\<close>
  and the first \<open>g_nlinks\<close> entries of the link table \<open>g_links\<close>. The offsets stay below the length of the source and of the
  buffers, so they are natural numbers.
\<close>

subsection \<open>Data\<close>

abbreviation (input) HTML_TEXT_MAX :: nat where "HTML_TEXT_MAX \<equiv> 1536"
abbreviation (input) HTML_LINKS_MAX :: nat where "HTML_LINKS_MAX \<equiv> 16"
abbreviation (input) HTML_HREF_MAX :: nat where "HTML_HREF_MAX \<equiv> 96"

record html_link_t =
  lstart :: nat
  lend :: nat
  href :: cstring

record html =
  g_text :: cstring
  g_dropped :: u32
  g_links :: "html_link_t list"
  g_links_dropped :: u32

definition html_text :: "html \<Rightarrow> cstring" where
  "html_text h = g_text h"

definition html_len :: "html \<Rightarrow> nat" where
  "html_len h = length (g_text h)"

definition html_link_count :: "html \<Rightarrow> nat" where
  "html_link_count h = length (g_links h)"

definition html_link :: "nat \<Rightarrow> html \<Rightarrow> html_link_t option" where
  "html_link i h = (if i < length (g_links h) then Some (g_links h ! i) else None)"

fun link_scan :: "nat \<Rightarrow> html_link_t list \<Rightarrow> nat \<Rightarrow> int" where
  "link_scan off [] i = -1"
| "link_scan off (l # ls) i = (if off \<ge> lstart l \<and> off < lend l then int i else link_scan off ls (Suc i))"

definition html_link_at :: "nat \<Rightarrow> html \<Rightarrow> int" where
  "html_link_at off h = link_scan off (g_links h) 0"

subsection \<open>Characters and output\<close>

text \<open>A literal as bytes.\<close>

definition lit :: "string \<Rightarrow> cstring" where
  "lit s = map of_char s"

definition lower :: "u8 \<Rightarrow> u8" where
  "lower c = (if c \<ge> 65 \<and> c \<le> 90 then c + 32 else c)"

definition space :: "u8 \<Rightarrow> bool" where
  "space c \<longleftrightarrow> c = 32 \<or> c = 9 \<or> c = 10 \<or> c = 13"

fun tag_is :: "cstring \<Rightarrow> cstring \<Rightarrow> bool" where
  "tag_is [] [] = True"
| "tag_is (s # ss) (w # ws) = (lower s = w \<and> tag_is ss ws)"
| "tag_is _ _ = False"

definition put_ch :: "u8 \<Rightarrow> html \<Rightarrow> html" where
  "put_ch c h =
     (if length (g_text h) + 1 < HTML_TEXT_MAX then h\<lparr>g_text := g_text h @ [c]\<rparr> else h\<lparr>g_dropped := g_dropped h + 1\<rparr>)"

definition put_space :: "html \<Rightarrow> html" where
  "put_space h =
     (if g_text h = [] then h
      else if last (g_text h) = 32 \<or> last (g_text h) = 10 then h
      else put_ch 32 h)"

text \<open>Dropping what a loop from the end drops.\<close>

definition trim_end :: "(u8 \<Rightarrow> bool) \<Rightarrow> cstring \<Rightarrow> cstring" where
  "trim_end p s = rev (dropWhile p (rev s))"

definition put_break :: "html \<Rightarrow> html" where
  "put_break h =
     (if g_text h = [] then h
      else
        let h1 = h\<lparr>g_text := trim_end (\<lambda>c. c = 32) (g_text h)\<rparr> in
        if g_text h1 \<noteq> [] \<and> last (g_text h1) \<noteq> 10 then put_ch 10 h1 else h1)"

definition BREAK_TAGS :: "cstring list" where
  "BREAK_TAGS = map lit [''p'', ''br'', ''div'', ''tr'', ''li'', ''h1'', ''h2'', ''h3'', ''h4'', ''h5'', ''h6'', ''ul'', ''ol'', ''table'',
     ''section'', ''article'', ''header'', ''footer'', ''nav'', ''blockquote'', ''pre'', ''hr'', ''form'', ''figure'', ''dd'', ''dt'', ''dl'', ''title'']"

definition is_break_tag :: "cstring \<Rightarrow> bool" where
  "is_break_tag n = list_ex (tag_is n) BREAK_TAGS"

definition ENTITIES :: "(cstring \<times> u8) list" where
  "ENTITIES = map (\<lambda>(n, c). (lit n, of_char c)) [(''amp'', CHR ''&''), (''lt'', CHR ''<''), (''gt'', CHR ''>''), (''quot'', CHR 0x22), (''apos'', CHR 0x27),
     (''nbsp'', CHR '' ''), (''#39'', CHR 0x27), (''#34'', CHR 0x22), (''#38'', CHR ''&''), (''#60'', CHR ''<''), (''#62'', CHR ''>''), (''#160'', CHR '' ''),
     (''mdash'', CHR ''-''), (''ndash'', CHR ''-''), (''hellip'', CHR ''.''), (''middot'', CHR ''.''), (''times'', CHR ''x''), (''copy'', CHR ''c''),
     (''reg'', CHR ''r''), (''deg'', CHR ''o'')]"

definition entity :: "cstring \<Rightarrow> html \<Rightarrow> bool \<times> html" where
  "entity n h = (case map_of ENTITIES n of Some c \<Rightarrow> (True, put_ch c h) | None \<Rightarrow> (False, h))"

subsection \<open>Scanning\<close>

text \<open>The search for the blank line between headers and body: what follows it.\<close>

fun blank_line :: "cstring \<Rightarrow> cstring option" where
  "blank_line [] = None"
| "blank_line (c # s) =
     (if c \<noteq> 10 then blank_line s
      else case dropWhile (\<lambda>x. x = 32 \<or> x = 13) s of
          x # r \<Rightarrow> if x = 10 then Some r else blank_line s
        | [] \<Rightarrow> blank_line s)"

definition skip_headers :: "cstring \<Rightarrow> cstring" where
  "skip_headers s = (case blank_line s of Some r \<Rightarrow> r | None \<Rightarrow> s)"

text \<open>The rest after the end of a comment; without one, nothing.\<close>

fun skip_comment :: "cstring \<Rightarrow> cstring" where
  "skip_comment (a # b # c # s) = (if a = 45 \<and> b = 45 \<and> c = 62 then s else skip_comment (b # c # s))"
| "skip_comment _ = []"

text \<open>The rest after the end of a script or style element \<open>what\<close>, whose body is not looked at.\<close>

fun skip_raw :: "cstring \<Rightarrow> cstring \<Rightarrow> cstring" where
  "skip_raw what [] = []"
| "skip_raw what (c # s) =
     (if c = 60 \<and> s \<noteq> [] \<and> hd s = 47 then
        let n = takeWhile (\<lambda>x. \<not> space x \<and> x \<noteq> 62) (tl s); r = dropWhile (\<lambda>x. \<not> space x \<and> x \<noteq> 62) (tl s)
        in if tag_is n what then tl (dropWhile (\<lambda>x. x \<noteq> 62) r) else skip_raw what s
      else skip_raw what s)"

text \<open>The value of the first \<^verbatim>\<open>href\<close> among the attributes.\<close>

fun find_href :: "cstring \<Rightarrow> cstring option" where
  "find_href [] = None"
| "find_href (c # s) =
     (if \<not> 4 < length (c # s) then None
      else if lower c \<noteq> 104 \<or> lower (s ! 0) \<noteq> 114 \<or> lower (s ! 1) \<noteq> 101 \<or> lower (s ! 2) \<noteq> 102 then find_href s
      else
        let v = dropWhile space (drop 3 s) in
        if v = [] \<or> hd v \<noteq> 61 then find_href s
        else
          let v1 = dropWhile space (tl v) in
          if v1 \<noteq> [] \<and> (hd v1 = 34 \<or> hd v1 = 39) then Some (takeWhile (\<lambda>x. x \<noteq> hd v1) (tl v1))
          else Some (takeWhile (\<lambda>x. \<not> space x) v1))"

definition open_anchor :: "cstring \<Rightarrow> int \<Rightarrow> html \<Rightarrow> int \<times> html" where
  "open_anchor attrs open_link h =
     (case find_href attrs of
        None \<Rightarrow> (open_link, h)
      | Some v \<Rightarrow>
          if length (g_links h) < HTML_LINKS_MAX then
            (int (length (g_links h)), h\<lparr>g_links := g_links h @ [\<lparr>lstart = length (g_text h), lend = length (g_text h), href = take (HTML_HREF_MAX - 1) v\<rparr>]\<rparr>)
          else (open_link, h\<lparr>g_links_dropped := g_links_dropped h + 1\<rparr>))"

definition set_end :: "int \<Rightarrow> html \<Rightarrow> html" where
  "set_end i h = h\<lparr>g_links := (g_links h)[nat i := (g_links h ! nat i)\<lparr>lend := length (g_text h)\<rparr>]\<rparr>"

definition close_anchor :: "int \<Rightarrow> html \<Rightarrow> int \<times> html" where
  "close_anchor open_link h =
     (if open_link \<ge> 0 then
        let h1 = set_end open_link h; l = g_links h1 ! nat open_link in
        (-1, if lend l = lstart l \<and> nat open_link + 1 = length (g_links h1) then h1\<lparr>g_links := butlast (g_links h1)\<rparr> else h1)
      else (open_link, h))"

subsection \<open>The pass\<close>

text \<open>A tag, \<open>s\<close> the source after its opening bracket: the rest, the open link and the output.\<close>

definition tag_step :: "cstring \<Rightarrow> int \<Rightarrow> html \<Rightarrow> cstring \<times> int \<times> html" where
  "tag_step s open_link h =
     (let closing = (s \<noteq> [] \<and> hd s = 47);
          s1 = (if closing then tl s else s);
          name_end = (\<lambda>x. \<not> space x \<and> x \<noteq> 62 \<and> x \<noteq> 47);
          n = takeWhile name_end s1; s2 = dropWhile name_end s1;
          attrs = takeWhile (\<lambda>x. x \<noteq> 62) s2; s3 = dropWhile (\<lambda>x. x \<noteq> 62) s2;
          rest = tl s3
      in
      if s3 = [] \<and> s1 = [] then ([], open_link, h)
      else if \<not> closing \<and> (tag_is n (lit ''script'') \<or> tag_is n (lit ''style'')) then
        (skip_raw (if tag_is n (lit ''script'') then lit ''script'' else lit ''style'') rest, open_link, put_break h)
      else if \<not> closing \<and> tag_is n (lit ''a'') then (case open_anchor attrs open_link h of (o1, h1) \<Rightarrow> (rest, o1, h1))
      else if closing \<and> tag_is n (lit ''a'') then (case close_anchor open_link h of (o1, h1) \<Rightarrow> (rest, o1, h1))
      else (rest, open_link, if is_break_tag n then put_break h else if n \<noteq> [] then put_space h else h))"

definition entity_step :: "cstring \<Rightarrow> html \<Rightarrow> cstring \<times> html" where
  "entity_step s h =
     (let n = takeWhile (\<lambda>x. x \<noteq> 59 \<and> \<not> space x) (take 11 s); r = drop (length n) s in
      if r \<noteq> [] \<and> hd r = 59 then
        (case entity n h of (True, h1) \<Rightarrow> (tl r, h1) | (False, h1) \<Rightarrow> (s, put_ch 38 h1))
      else (s, put_ch 38 h))"

text \<open>One iteration of the loop of \<^verbatim>\<open>html_render\<close>.\<close>

definition html_step :: "u8 \<Rightarrow> cstring \<Rightarrow> int \<Rightarrow> html \<Rightarrow> cstring \<times> int \<times> html" where
  "html_step c s open_link h =
     (if c = 60 \<and> 2 < length s \<and> s ! 0 = 33 then
        if s ! 1 = 45 \<and> s ! 2 = 45 then (skip_comment (drop 3 s), open_link, h)
        else (tl (dropWhile (\<lambda>x. x \<noteq> 62) s), open_link, h)
      else if c = 60 then tag_step s open_link h
      else if c = 38 then (case entity_step s h of (r, h1) \<Rightarrow> (r, open_link, h1))
      else (s, open_link, if space c then put_space h else put_ch c h))"

lemma skip_comment_length: "length (skip_comment s) \<le> length s"
  by (induction s rule: skip_comment.induct) auto

lemma dropWhile_length: "length (dropWhile p s) \<le> length s"
  by (rule length_dropWhile_le)

lemma tl_dropWhile_length: "length (tl (dropWhile p s)) \<le> length s"
  using length_dropWhile_le [of p s] by simp

lemma skip_raw_length: "length (skip_raw what s) \<le> length s"
proof (induction s)
  case (Cons c s)
  have "length (tl (dropWhile (\<lambda>x. x \<noteq> 62) (dropWhile (\<lambda>x. \<not> space x \<and> x \<noteq> 62) (tl s)))) \<le> length s"
    using tl_dropWhile_length [of "\<lambda>x. x \<noteq> 62" "dropWhile (\<lambda>x. \<not> space x \<and> x \<noteq> 62) (tl s)"]
      length_dropWhile_le [of "\<lambda>x. \<not> space x \<and> x \<noteq> 62" "tl s"] by simp
  then show ?case using Cons by (auto simp: Let_def)
qed simp

lemma tag_step_length: "length (fst (tag_step s o' h)) \<le> length s"
proof -
  define s1 where "s1 = (if s \<noteq> [] \<and> hd s = 47 then tl s else s)"
  define r where "r = tl (dropWhile (\<lambda>x. x \<noteq> 62) (dropWhile (\<lambda>x. \<not> space x \<and> x \<noteq> 62 \<and> x \<noteq> 47) s1))"
  have "length r \<le> length s1"
    unfolding r_def using tl_dropWhile_length length_dropWhile_le by (rule order_trans)
  then have r: "length r \<le> length s" by (auto simp: s1_def split: if_splits)
  have "length (skip_raw w r) \<le> length s" for w using skip_raw_length [of w r] r by simp
  then show ?thesis using r
    unfolding tag_step_def Let_def s1_def [symmetric] r_def [symmetric] by (simp split: prod.split)
qed

lemma entity_step_length: "length (fst (entity_step s h)) \<le> length s"
  by (simp add: entity_step_def Let_def split: prod.split bool.split)

lemma html_step_length: "length (fst (html_step c s o' h)) \<le> length s"
  using tag_step_length [of s o' h] entity_step_length [of s h] skip_comment_length [of "drop 3 s"] tl_dropWhile_length [of "\<lambda>x. x \<noteq> 62" s]
  by (auto simp: html_step_def split: prod.split)

function html_loop :: "cstring \<Rightarrow> int \<Rightarrow> html \<Rightarrow> int \<times> html" where
  "html_loop [] open_link h = (open_link, h)"
| "html_loop (c # s) open_link h = (case html_step c s open_link h of (r, o1, h1) \<Rightarrow> html_loop r o1 h1)"
  by pat_completeness auto
termination
  apply (relation "measure (\<lambda>(s, open_link, h). length s)")
  subgoal by simp
  subgoal for c s o' h using html_step_length [of c s o' h] by (metis case_prod_conv fst_conv in_measure le_imp_less_Suc length_Cons)
  done

definition html_init :: html where
  "html_init = \<lparr>g_text = [], g_dropped = 0, g_links = [], g_links_dropped = 0\<rparr>"

definition html_render :: "cstring \<Rightarrow> html" where
  "html_render src =
     (if src = [] then html_init
      else
        let (open_link, h) = html_loop (skip_headers src) (-1) html_init;
            h1 = (if open_link \<ge> 0 then set_end open_link h else h)
        in h1\<lparr>g_text := trim_end (\<lambda>c. c = 32 \<or> c = 10) (g_text h1)\<rparr>)"

subsection \<open>The buffers are never overrun\<close>

definition link_ok :: "html_link_t \<Rightarrow> bool" where
  "link_ok l \<longleftrightarrow> length (href l) < HTML_HREF_MAX \<and> lstart l < HTML_TEXT_MAX \<and> lend l < HTML_TEXT_MAX"

definition html_ok :: "html \<Rightarrow> bool" where
  "html_ok h \<longleftrightarrow> length (g_text h) < HTML_TEXT_MAX \<and> length (g_links h) \<le> HTML_LINKS_MAX \<and> list_all link_ok (g_links h)"

definition open_ok :: "int \<Rightarrow> html \<Rightarrow> bool" where
  "open_ok i h \<longleftrightarrow> i = -1 \<or> 0 \<le> i \<and> nat i < length (g_links h)"

lemma html_ok_put_ch: "html_ok h \<Longrightarrow> html_ok (put_ch c h)" "g_links (put_ch c h) = g_links h"
  by (auto simp: html_ok_def put_ch_def)

lemma html_ok_put_space: "html_ok h \<Longrightarrow> html_ok (put_space h)" "g_links (put_space h) = g_links h"
  by (auto simp: put_space_def html_ok_put_ch)

lemma trim_end_length: "length (trim_end p s) \<le> length s"
  using length_dropWhile_le [of p "rev s"] by (simp add: trim_end_def)

lemma html_ok_text: "html_ok h \<Longrightarrow> length t \<le> length (g_text h) \<Longrightarrow> html_ok (h\<lparr>g_text := t\<rparr>)"
  by (simp add: html_ok_def)

lemma html_ok_put_break: "html_ok h \<Longrightarrow> html_ok (put_break h)" "g_links (put_break h) = g_links h"
  using html_ok_text [of h "trim_end (\<lambda>c. c = 32) (g_text h)"] trim_end_length [of "\<lambda>c. c = 32" "g_text h"]
  by (auto simp: put_break_def Let_def html_ok_put_ch)

lemma html_ok_entity: "html_ok h \<Longrightarrow> html_ok (snd (entity n h))" "g_links (snd (entity n h)) = g_links h"
  by (auto simp: entity_def html_ok_put_ch split: option.split)

lemma html_ok_entity_step: "html_ok h \<Longrightarrow> html_ok (snd (entity_step s h))" "g_links (snd (entity_step s h)) = g_links h"
  using html_ok_entity [where h = h] by (auto simp: entity_step_def Let_def html_ok_put_ch entity_def split: option.split)

lemma html_ok_set_end:
  assumes "html_ok h" "open_ok i h"
  shows "html_ok (if i \<ge> 0 then set_end i h else h)" "length (g_links (set_end i h)) = length (g_links h)"
proof -
  show "length (g_links (set_end i h)) = length (g_links h)" by (simp add: set_end_def)
  have "html_ok (set_end i h)" if "0 \<le> i"
  proof -
    have "nat i < length (g_links h)" using assms(2) that by (auto simp: open_ok_def)
    then have "link_ok ((g_links h ! nat i)\<lparr>lend := length (g_text h)\<rparr>)"
      using assms(1) by (auto simp: html_ok_def link_ok_def list_all_length)
    then have "link_ok ((g_links h)[nat i := (g_links h ! nat i)\<lparr>lend := length (g_text h)\<rparr>] ! n)" if "n < length (g_links h)" for n
      using assms(1) that by (cases "n = nat i") (auto simp: html_ok_def list_all_length)
    then show ?thesis using assms(1) by (auto simp: html_ok_def set_end_def list_all_length)
  qed
  then show "html_ok (if i \<ge> 0 then set_end i h else h)" using assms(1) by simp
qed

lemma html_ok_close: 
  assumes "html_ok h" "open_ok i h" "close_anchor i h = (o1, h1)"
  shows "html_ok h1 \<and> open_ok o1 h1"
proof (cases "0 \<le> i")
  case True
  have "html_ok (set_end i h)" using html_ok_set_end(1) [OF assms(1,2)] True by simp
  moreover from this have "html_ok ((set_end i h)\<lparr>g_links := butlast (g_links (set_end i h))\<rparr>)"
    by (auto simp: html_ok_def list_all_iff dest: in_set_butlastD)
  ultimately show ?thesis using assms(3) True by (auto simp: close_anchor_def Let_def open_ok_def split: if_splits)
qed (use assms in \<open>auto simp: close_anchor_def\<close>)

lemma html_ok_open:
  assumes "html_ok h" "open_ok i h" "open_anchor attrs i h = (o1, h1)"
  shows "html_ok h1 \<and> open_ok o1 h1"
  using assms by (auto simp: open_anchor_def html_ok_def open_ok_def link_ok_def split: option.splits if_splits)

lemma html_ok_tag:
  assumes "html_ok h" "open_ok i h" "tag_step s i h = (r, o1, h1)"
  shows "html_ok h1 \<and> open_ok o1 h1"
  using assms html_ok_open [OF assms(1,2)] html_ok_close [OF assms(1,2)]
  by (auto simp: tag_step_def Let_def html_ok_put_break html_ok_put_space open_ok_def split: if_splits prod.splits)

lemma html_ok_step:
  assumes "html_ok h" "open_ok i h" "html_step c s i h = (r, o1, h1)"
  shows "html_ok h1 \<and> open_ok o1 h1"
  using assms html_ok_tag [OF assms(1,2)] html_ok_entity_step [where h = h and s = s]
  by (auto simp: html_step_def html_ok_put_space html_ok_put_ch open_ok_def split: if_splits prod.splits)

lemma html_ok_loop:
  "html_ok h \<Longrightarrow> open_ok i h \<Longrightarrow> html_ok (snd (html_loop s i h)) \<and> open_ok (fst (html_loop s i h)) (snd (html_loop s i h))"
proof (induction s i h rule: html_loop.induct)
  case (2 c s i h)
  obtain r o1 h1 where e: "html_step c s i h = (r, o1, h1)" by (rule prod_cases3)
  from html_ok_step [OF "2.prems" e] "2.IH" [OF e [symmetric] refl] show ?case by (simp add: e)
qed simp

text \<open>
  Rendering is total and stays in its buffers (C21): whatever the response holds, the text leaves room for its terminator, at most
  sixteen links are recorded, and every address fits its buffer with a terminator.
\<close>

theorem html_bounded:
  "length (g_text (html_render src)) < HTML_TEXT_MAX \<and> length (g_links (html_render src)) \<le> HTML_LINKS_MAX
    \<and> list_all (\<lambda>l. length (href l) < HTML_HREF_MAX) (g_links (html_render src))"
proof -
  obtain i h where l: "html_loop (skip_headers src) (-1) html_init = (i, h)" by (rule prod.exhaust)
  have "html_ok html_init" "open_ok (-1) html_init" by (simp_all add: html_ok_def html_init_def open_ok_def)
  from html_ok_loop [OF this, of "skip_headers src"] l have ok: "html_ok h" "open_ok i h" by simp_all
  define h1 where "h1 = (if i \<ge> 0 then set_end i h else h)"
  have "html_ok h1" unfolding h1_def by (rule html_ok_set_end(1) [OF ok])
  then have "html_ok (h1\<lparr>g_text := trim_end (\<lambda>c. c = 32 \<or> c = 10) (g_text h1)\<rparr>)"
    by (rule html_ok_text) (rule trim_end_length)
  then have "html_ok (html_render src)"
    by (cases "src = []") (simp_all add: html_render_def l Let_def h1_def [symmetric], simp add: html_ok_def html_init_def)
  then show ?thesis by (auto simp: html_ok_def link_ok_def list_all_iff)
qed

subsection \<open>Text without markup\<close>

text \<open>The reference: the words of a text, one space between them.\<close>

fun words_of :: "cstring \<Rightarrow> cstring \<Rightarrow> cstring list" where
  "words_of cur [] = (if cur = [] then [] else [cur])"
| "words_of cur (c # s) = (if space c then (if cur = [] then words_of [] s else cur # words_of [] s) else words_of (cur @ [c]) s)"

fun join_words :: "cstring list \<Rightarrow> cstring" where
  "join_words [] = []"
| "join_words [w] = w"
| "join_words (w # ws) = w @ [32] @ join_words ws"

lemma join_snoc: "join_words (ws @ [w]) = (if ws = [] then w else join_words ws @ [32] @ w)"
  by (induction ws rule: join_words.induct) auto

lemma join_last:
  assumes "ws \<noteq> []" "\<And>w. w \<in> set ws \<Longrightarrow> w \<noteq> [] \<and> \<not> space (last w)"
  shows "join_words ws \<noteq> [] \<and> \<not> space (last (join_words ws))"
  using assms by (cases ws rule: rev_cases) (auto simp: join_snoc)

lemma plain_loop:
  assumes "60 \<notin> set s" "38 \<notin> set s" "g_text h = join_words (ws @ [cur])" "\<And>w. w \<in> set ws \<Longrightarrow> w \<noteq> [] \<and> \<not> space (last w)"
    and "cur = [] \<or> \<not> space (last cur)" "length (g_text h) + length s < HTML_TEXT_MAX"
  shows "\<exists>cur' ws'. html_loop s i h = (i, h\<lparr>g_text := join_words (ws' @ [cur'])\<rparr>)
    \<and> ws @ words_of cur s = ws' @ words_of cur' [] \<and> (\<forall>w \<in> set ws'. w \<noteq> [] \<and> \<not> space (last w)) \<and> (cur' = [] \<or> \<not> space (last cur'))"
  using assms
proof (induction s arbitrary: h ws cur)
  case Nil
  then show ?case by (intro exI [of _ cur] exI [of _ ws]) auto
next
  case (Cons c s)
  have put: "put_ch x h = h\<lparr>g_text := g_text h @ [x]\<rparr>" for x using Cons.prems(6) by (simp add: put_ch_def)
  have step: "html_loop (c # s) i h = html_loop s i (if space c then put_space h else put_ch c h)"
    using Cons.prems(1,2) by (simp add: html_step_def)
  consider (ch) "\<not> space c" | (gap) "space c" "cur = []" | (word) "space c" "cur \<noteq> []" by blast
  then show ?case
  proof cases
    case ch
    let ?h = "h\<lparr>g_text := g_text h @ [c]\<rparr>"
    have t: "g_text ?h = join_words (ws @ [cur @ [c]])" using Cons.prems(3) by (simp add: join_snoc)
    from Cons.IH [OF _ _ t Cons.prems(4)] Cons.prems(1,2,6) ch obtain cur' ws' where
      "html_loop s i ?h = (i, ?h\<lparr>g_text := join_words (ws' @ [cur'])\<rparr>)" "ws @ words_of (cur @ [c]) s = ws' @ words_of cur' []"
      "\<forall>w \<in> set ws'. w \<noteq> [] \<and> \<not> space (last w)" "cur' = [] \<or> \<not> space (last cur')" by auto
    then show ?thesis using step put ch by (intro exI [of _ cur'] exI [of _ ws']) simp
  next
    case gap
    have "g_text h = [] \<or> last (g_text h) = 32" using Cons.prems(3) gap(2) by (simp add: join_snoc)
    then have "put_space h = h" by (auto simp: put_space_def)
    moreover from Cons.IH [OF _ _ Cons.prems(3,4)] Cons.prems(1,2,6) gap obtain cur' ws' where
      "html_loop s i h = (i, h\<lparr>g_text := join_words (ws' @ [cur'])\<rparr>)" "ws @ words_of cur s = ws' @ words_of cur' []"
      "\<forall>w \<in> set ws'. w \<noteq> [] \<and> \<not> space (last w)" "cur' = [] \<or> \<not> space (last cur')" by auto
    ultimately show ?thesis using step gap by (intro exI [of _ cur'] exI [of _ ws']) simp
  next
    case word
    let ?h = "h\<lparr>g_text := g_text h @ [32]\<rparr>"
    have l: "g_text h \<noteq> []" "\<not> space (last (g_text h))" using Cons.prems(3,5) word(2) by (simp_all add: join_snoc)
    then have p: "put_space h = ?h" using put by (auto simp: put_space_def space_def)
    have t: "g_text ?h = join_words ((ws @ [cur]) @ [[]])" using Cons.prems(3) join_snoc [of "ws @ [cur]" "[]"] by simp
    have w: "\<And>w. w \<in> set (ws @ [cur]) \<Longrightarrow> w \<noteq> [] \<and> \<not> space (last w)" using Cons.prems(4,5) word(2) by auto
    from Cons.IH [OF _ _ t w] Cons.prems(1,2,6) obtain cur' ws' where
      "html_loop s i ?h = (i, ?h\<lparr>g_text := join_words (ws' @ [cur'])\<rparr>)" "(ws @ [cur]) @ words_of [] s = ws' @ words_of cur' []"
      "\<forall>w \<in> set ws'. w \<noteq> [] \<and> \<not> space (last w)" "cur' = [] \<or> \<not> space (last cur')" by auto
    then show ?thesis using step p word by (intro exI [of _ cur'] exI [of _ ws']) simp
  qed
qed

lemma skip_headers_none: "10 \<notin> set s \<Longrightarrow> skip_headers s = s"
proof -
  assume "10 \<notin> set s"
  then have "blank_line s = None" by (induction s) auto
  then show ?thesis by (simp add: skip_headers_def)
qed

lemma trim_end_join:
  assumes "\<forall>w \<in> set ws. w \<noteq> [] \<and> \<not> space (last w)" "cur = [] \<or> \<not> space (last cur)"
  shows "trim_end (\<lambda>c. c = 32 \<or> c = 10) (join_words (ws @ [cur])) = join_words (ws @ words_of cur [])"
proof -
  have keep: "trim_end (\<lambda>c. c = 32 \<or> c = 10) t = t" if "t = [] \<or> \<not> space (last t)" for t
    using that by (cases t rule: rev_cases) (auto simp: trim_end_def space_def)
  show ?thesis
  proof (cases "cur = []")
    case False
    then show ?thesis using assms(2) keep [of "join_words (ws @ [cur])"] by (simp add: join_snoc)
  next
    case True
    show ?thesis
    proof (cases "ws = []")
      case False
      have "trim_end (\<lambda>c. c = 32 \<or> c = 10) (join_words ws @ [32]) = trim_end (\<lambda>c. c = 32 \<or> c = 10) (join_words ws)"
        by (simp add: trim_end_def)
      then show ?thesis using True False keep [of "join_words ws"] join_last [OF False] assms(1) by (simp add: join_snoc)
    qed (use True in \<open>simp add: trim_end_def\<close>)
  qed
qed

text \<open>
  Text without markup: a source with neither tags nor entities and no line feed, short enough for the buffer, is rendered as
  its words with exactly one space between them: no space at either end, no two in a row, nothing lost and no links.
\<close>

theorem html_plain_text:
  assumes "60 \<notin> set src" "38 \<notin> set src" "10 \<notin> set src" "length src < HTML_TEXT_MAX"
  shows "g_text (html_render src) = join_words (words_of [] src) \<and> g_links (html_render src) = [] \<and> g_dropped (html_render src) = 0"
proof (cases "src = []")
  case True
  then show ?thesis by (simp add: html_render_def html_init_def)
next
  case False
  have "g_text html_init = join_words ([] @ [[]])" "length (g_text html_init) + length src < HTML_TEXT_MAX"
    using assms(4) by (simp_all add: html_init_def)
  from plain_loop [OF assms(1,2) this(1) _ _ this(2), of "-1"] obtain cur ws where
    l: "html_loop src (-1) html_init = (-1, html_init\<lparr>g_text := join_words (ws @ [cur])\<rparr>)" "words_of [] src = ws @ words_of cur []"
    "\<forall>w \<in> set ws. w \<noteq> [] \<and> \<not> space (last w)" "cur = [] \<or> \<not> space (last cur)" by auto
  then show ?thesis using False trim_end_join [OF l(3,4)] skip_headers_none [OF assms(3)]
    by (simp add: html_render_def) (simp add: html_init_def)
qed

theorem html_plain_text_witness:
  "g_text (html_render (lit '' two  words'')) = lit ''two words''"
proof -
  have "60 \<notin> set (lit '' two  words'')" "38 \<notin> set (lit '' two  words'')" "10 \<notin> set (lit '' two  words'')"
    "length (lit '' two  words'') < HTML_TEXT_MAX" "join_words (words_of [] (lit '' two  words'')) = lit ''two words''" by code_simp+
  then show ?thesis using html_plain_text [of "lit '' two  words''"] by simp
qed

subsection \<open>Scripts and addresses\<close>

text \<open>A body that does not close an element.\<close>

fun no_close :: "cstring \<Rightarrow> bool" where
  "no_close (a # b # s) = (\<not> (a = 60 \<and> b = 47) \<and> no_close (b # s))"
| "no_close _ = True"

lemma skip_raw_body:
  assumes "no_close body" "tag_is n what" "\<not> list_ex (\<lambda>x. space x \<or> x = 62) n"
  shows "skip_raw what (body @ [60, 47] @ n @ [62] @ s) = s"
proof -
  have n: "takeWhile (\<lambda>x. \<not> space x \<and> x \<noteq> 62) (n @ 62 # s) = n" "dropWhile (\<lambda>x. \<not> space x \<and> x \<noteq> 62) (n @ 62 # s) = 62 # s"
    using assms(3) by (auto simp: list_ex_iff takeWhile_append dropWhile_append)
  show ?thesis
    using assms(1)
  proof (induction body)
    case Nil
    show ?case using assms(2) by (simp add: n)
  next
    case (Cons a body)
    have "no_close body" "\<not> (a = 60 \<and> hd (body @ [60, 47] @ n @ [62] @ s) = 47)"
      using Cons.prems by (cases body; simp)+
    with Cons.IH show ?case by auto
  qed
qed

text \<open>
  Scripts are not shown: the body of a script element, whatever it holds short of a closing tag, leaves no character and no
  link; the pass continues after the element with a line break.
\<close>

theorem html_script_hidden:
  assumes "no_close body"
  shows "html_loop (lit ''<script>'' @ body @ lit ''</script>'' @ s) i h = html_loop s i (put_break h)"
proof -
  have l: "lit ''<script>'' = 60 # lit ''script'' @ [62]" "lit ''</script>'' = [60, 47] @ lit ''script'' @ [62]"
    "\<not> list_ex (\<lambda>x. space x \<or> x = 62) (lit ''script'')" "tag_is (lit ''script'') (lit ''script'')" by code_simp+
  let ?s = "lit ''script'' @ [62] @ body @ [60, 47] @ lit ''script'' @ [62] @ s"
  have hd: "hd ?s = 115" "?s \<noteq> []" "?s ! 0 = 115" by (simp_all add: lit_def)
  have t: "takeWhile (\<lambda>x. \<not> space x \<and> x \<noteq> 62 \<and> x \<noteq> 47) ?s = lit ''script''"
    "dropWhile (\<lambda>x. \<not> space x \<and> x \<noteq> 62 \<and> x \<noteq> 47) ?s = [62] @ body @ [60, 47] @ lit ''script'' @ [62] @ s"
    by (simp_all add: lit_def space_def)
  have "tag_step ?s i h = (s, i, put_break h)"
    unfolding tag_step_def Let_def using hd t l(4) skip_raw_body [OF assms l(4,3)] by simp
  then have "html_step 60 ?s i h = (s, i, put_break h)" using hd(3) by (simp add: html_step_def)
  then show ?thesis unfolding l(1,2) by simp
qed

theorem html_script_hidden_witness:
  "html_loop (lit ''<script>'' @ lit ''if (a < b) x();'' @ lit ''</script>'' @ lit ''ok'') (-1) html_init = html_loop (lit ''ok'') (-1) html_init"
proof -
  have "no_close (lit ''if (a < b) x();'')" "put_break html_init = html_init" by code_simp+
  then show ?thesis using html_script_hidden [of "lit ''if (a < b) x();''" "lit ''ok''" "-1" html_init] by simp
qed

text \<open>
  A long address is cut and not counted: an anchor whose address does not fit is recorded with its first 95 characters, and
  neither the count of dropped text nor the count of dropped links shows it, so following the link asks for another page.
\<close>

theorem html_href_cut:
  assumes "find_href attrs = Some v" "HTML_HREF_MAX \<le> length v" "length (g_links h) < HTML_LINKS_MAX" "open_anchor attrs i h = (o1, h1)"
  shows "href (last (g_links h1)) = take 95 v \<and> href (last (g_links h1)) \<noteq> v
    \<and> g_dropped h1 = g_dropped h \<and> g_links_dropped h1 = g_links_dropped h"
proof -
  have "length (take 95 v) \<noteq> length v" using assms(2) by simp
  then have "take 95 v \<noteq> v" by metis
  then show ?thesis using assms by (auto simp: open_anchor_def)
qed

theorem html_href_cut_witness:
  "\<exists>v o1 h1. find_href (lit ''href='' @ replicate 120 97) = Some v \<and> open_anchor (lit ''href='' @ replicate 120 97) (-1) html_init = (o1, h1)
    \<and> href (last (g_links h1)) = replicate 95 97 \<and> g_dropped h1 = 0 \<and> g_links_dropped h1 = 0"
proof -
  let ?a = "lit ''href='' @ replicate 120 97"
  have v: "find_href ?a = Some (replicate 120 97)" by code_simp
  obtain o1 h1 where o: "open_anchor ?a (-1) html_init = (o1, h1)" by (rule prod.exhaust)
  have "g_links html_init = []" "g_dropped html_init = 0" "g_links_dropped html_init = 0" by (simp_all add: html_init_def)
  with html_href_cut [OF v _ _ o] v o show ?thesis by auto
qed

end
