(* ===== verification/KOut.thy ===== *)
theory KOut
  imports Prelude
begin

text \<open>
  Output as values. The serial port (uart.c) and the panel (display.c) are reached by calls whose effect is outside
  the kernel's memory; a component that prints or draws returns the calls it makes, in order. A string constant
  is the text of its literal, a string variable its bytes.
\<close>

datatype uart_call =
    Puts string
  | Puts_var cstring
  | Put_dec u32
  | Put_hex u32
  | Putc u8

datatype panel_call =
    Lock
  | Unlock
  | Clear u16
  | Fill_rect u32 u32 u32 u32 u16
  | Draw_text u32 u32 cstring u16 u16 u32
  | Draw_char u32 u32 u8 u16 u16 u32

text \<open>The size of the panel (\<^verbatim>\<open>DISP_W\<close>, \<^verbatim>\<open>DISP_H\<close>).\<close>

abbreviation PANEL_W :: u32 where "PANEL_W \<equiv> 240"
abbreviation PANEL_H :: u32 where "PANEL_H \<equiv> 320"

text \<open>The bytes of a literal.\<close>

definition chars :: "string \<Rightarrow> cstring" where
  "chars s = List.map (\<lambda>c. of_nat (of_char c)) s"

text \<open>The panel is a resource shared under a lock: \<open>locked d cs\<close> follows whether it is held through the calls and
  is \<open>None\<close> when something is drawn without it, or it is taken twice or released when not held.\<close>

fun panel_locked :: "bool \<Rightarrow> panel_call list \<Rightarrow> bool option" where
  "panel_locked held [] = Some held"
| "panel_locked held (Lock # cs) = (if held then None else panel_locked True cs)"
| "panel_locked held (Unlock # cs) = (if held then panel_locked False cs else None)"
| "panel_locked held (c # cs) = (if held then panel_locked held cs else None)"

lemma panel_locked_append:
  "panel_locked b (xs @ ys) = (case panel_locked b xs of None \<Rightarrow> None | Some c \<Rightarrow> panel_locked c ys)"
  by (induction b xs rule: panel_locked.induct) auto

end
