(* ===== verification/KTouch.thy ===== *)
theory KTouch
  imports KSched KStore KOut "HOL-Library.Signed_Division"
begin

text \<open>
  The touch panel (touch.c) and its calibration (calib.c): the bit-banged conversion, one sample with its
  debouncing and its mapping to the screen, the wait for the pen interrupt over the scheduler, and the four-target
  calibration with its fit. The controller behind the pins is the parameter \<open>miso\<close>: the level it drives after
  the bits clocked out to it so far.
\<close>

subsection \<open>State\<close>

abbreviation (input) CMD_Y :: u32 where "CMD_Y \<equiv> 0x93"
abbreviation (input) CMD_X :: u32 where "CMD_X \<equiv> 0xD3"
abbreviation (input) CMD_Z1 :: u32 where "CMD_Z1 \<equiv> 0xB3"
abbreviation (input) CMD_Z2 :: u32 where "CMD_Z2 \<equiv> 0xC3"
abbreviation (input) CMD_IDLE :: u32 where "CMD_IDLE \<equiv> 0x90"
abbreviation (input) Z_THRESHOLD :: u32 where "Z_THRESHOLD \<equiv> 300"
abbreviation (input) TOUCH_DOWN_SAMPLES :: u32 where "TOUCH_DOWN_SAMPLES \<equiv> 2"
abbreviation (input) TOUCH_LOG_MAX :: nat where "TOUCH_LOG_MAX \<equiv> 8"

record touch_state_t =
  ts_down :: bool
  ts_x :: u32
  ts_y :: u32
  ts_raw_x :: u32
  ts_raw_y :: u32
  ts_z :: u32
  ts_z1 :: u32
  ts_z2 :: u32
  ts_sx :: "u32 list"
  ts_sy :: "u32 list"

record touch_log_t =
  tl_raw_x :: u32
  tl_raw_y :: u32
  tl_x :: u32
  tl_y :: u32
  tl_z :: u32

record touch_window_t =
  tw_max :: u32
  tw_min :: u32
  tw_n :: u32
  tw_over :: u32
  tw_pen :: u32

text \<open>The statics of touch.c. \<open>g_win\<close> holds the window as it accumulates, \<open>g_span\<close> the extremes and the first reading
  of a drag, \<open>wire\<close> the bits clocked out, \<open>pin_reg\<close> the interrupt register of the pen's pin and \<open>pin_status\<close> its pending edge.\<close>

record span_t =
  rx_min :: u32
  rx_max :: u32
  ry_min :: u32
  ry_max :: u32
  rx_first :: u32
  ry_first :: u32
  first_set :: u32

record touch =
  g_cal_x_min :: u32
  g_cal_x_max :: u32
  g_cal_y_min :: u32
  g_cal_y_max :: u32
  g_down_run :: u32
  g_blips :: u32
  g_latest :: touch_state_t
  g_samples :: u32
  g_events :: u32
  g_irq_low :: u32
  g_max_z1 :: u32
  g_min_z2 :: u32
  g_max_z :: u32
  g_span :: span_t
  g_win :: touch_window_t
  g_irq_waiter :: int
  g_irq_fires :: u32
  g_irq_wakes :: u32
  g_irq_waits :: u32
  g_irq_flag :: bool
  g_irq_last_reg :: int
  g_irq_seen_by_isr :: int
  g_irq_armed_rb :: u32
  g_log :: "touch_log_t list"
  g_log_count :: nat
  g_was_down :: bool
  wire :: "bool list"
  pin_reg :: u32
  pin_status :: bool
  tsched :: sched

subsection \<open>Calibration and window\<close>

definition touch_set_calibration :: "u32 \<Rightarrow> u32 \<Rightarrow> u32 \<Rightarrow> u32 \<Rightarrow> touch \<Rightarrow> touch" where
  "touch_set_calibration xmin xmax ymin ymax st =
     (if xmax \<le> xmin + 100 \<or> ymax \<le> ymin + 100 then st
      else st\<lparr>g_cal_x_min := xmin, g_cal_x_max := xmax, g_cal_y_min := ymin, g_cal_y_max := ymax\<rparr>)"

definition touch_get_calibration :: "touch \<Rightarrow> u32 \<times> u32 \<times> u32 \<times> u32" where
  "touch_get_calibration st = (g_cal_x_min st, g_cal_x_max st, g_cal_y_min st, g_cal_y_max st)"

definition touch_window :: "touch \<Rightarrow> touch_window_t \<times> touch" where
  "touch_window st =
     (let w = g_win st in
      (w\<lparr>tw_min := if tw_min w = 0xFFFFFFFF then 0 else tw_min w\<rparr>,
       st\<lparr>g_win := \<lparr>tw_max = 0, tw_min = 0xFFFFFFFF, tw_n = 0, tw_over = 0, tw_pen = 0\<rparr>\<rparr>))"

subsection \<open>The bus\<close>

text \<open>Bits go out from the highest; MISO is sampled while the clock is high.\<close>

primrec xfer_bits :: "(bool list \<Rightarrow> bool) \<Rightarrow> u32 \<Rightarrow> nat \<Rightarrow> u32 \<Rightarrow> touch \<Rightarrow> u32 \<times> touch" where
  "xfer_bits miso out 0 rd st = (rd, st)"
| "xfer_bits miso out (Suc i) rd st =
     (let st1 = st\<lparr>wire := wire st @ [bit out i]\<rparr>
      in xfer_bits miso out i (push_bit 1 rd OR of_bool (miso (wire st1))) st1)"

definition convert :: "(bool list \<Rightarrow> bool) \<Rightarrow> u32 \<Rightarrow> touch \<Rightarrow> u32 \<times> touch" where
  "convert miso cmd st =
     (let (_, st1) = xfer_bits miso cmd 8 0 st;
          (v, st2) = xfer_bits miso 0 16 0 st1
      in (drop_bit 3 v AND 0xFFF, st2))"

primrec converts :: "(bool list \<Rightarrow> bool) \<Rightarrow> u32 \<Rightarrow> nat \<Rightarrow> touch \<Rightarrow> u32 list \<times> touch" where
  "converts miso cmd 0 st = ([], st)"
| "converts miso cmd (Suc n) st =
     (let (v, st1) = convert miso cmd st; (vs, st2) = converts miso cmd n st1 in (v # vs, st2))"

definition gpio_int_disable :: "touch \<Rightarrow> touch" where
  "gpio_int_disable st = st\<lparr>pin_reg := 0, pin_status := False\<rparr>"

definition gpio_int_enable :: "touch \<Rightarrow> touch" where
  "gpio_int_enable st = st\<lparr>pin_status := False, pin_reg := push_bit 7 2 OR push_bit 15 1\<rparr>"

subsection \<open>One sample\<close>

definition map_axis :: "u32 \<Rightarrow> u32 \<Rightarrow> u32 \<Rightarrow> u32 \<Rightarrow> u32" where
  "map_axis raw lo hi span =
     (if raw \<le> lo then 0 else if raw \<ge> hi then span - 1 else ((raw - lo) * span) div (hi - lo))"

definition map_point :: "touch \<Rightarrow> u32 \<Rightarrow> u32 \<Rightarrow> u32 \<times> u32" where
  "map_point st rx ry =
     ((PANEL_W - 1) - map_axis rx (g_cal_x_min st) (g_cal_x_max st) PANEL_W,
      map_axis ry (g_cal_y_min st) (g_cal_y_max st) PANEL_H)"

text \<open>The five readings of a burst: the first conversion is thrown away, then pressure, four per axis, and power down.\<close>

definition burst :: "(bool list \<Rightarrow> bool) \<Rightarrow> touch \<Rightarrow> (u32 \<times> u32 \<times> u32 list \<times> u32 list) \<times> touch" where
  "burst miso st =
     (let (_, s1) = convert miso CMD_Z1 st;
          (z1, s2) = convert miso CMD_Z1 s1;
          (z2, s3) = convert miso CMD_Z2 s2;
          (sx, s4) = converts miso CMD_X 4 s3;
          (sy, s5) = converts miso CMD_Y 4 s4;
          (_, s6) = convert miso CMD_IDLE s5
      in ((z1, z2, sx, sy), s6))"

definition pressure :: "u32 \<Rightarrow> u32 \<Rightarrow> u32" where
  "pressure z1 z2 = (if z1 \<noteq> 0 \<or> z2 \<noteq> 0 then (z1 + 4095) - z2 else 0)"

definition average3 :: "u32 list \<Rightarrow> u32" where
  "average3 s = (s ! 1 + s ! 2 + s ! 3) div 3"

definition note_extremes :: "u32 \<Rightarrow> u32 \<Rightarrow> u32 \<Rightarrow> bool \<Rightarrow> touch \<Rightarrow> touch" where
  "note_extremes z1 z2 z pen st =
     (let w = g_win st in
      st\<lparr>g_max_z1 := (if z1 > g_max_z1 st then z1 else g_max_z1 st),
         g_min_z2 := (if z2 < g_min_z2 st then z2 else g_min_z2 st),
         g_max_z := (if (z1 \<noteq> 0 \<or> z2 \<noteq> 0) \<and> z > g_max_z st then z else g_max_z st),
         g_win := \<lparr>tw_max = (if z > tw_max w then z else tw_max w),
                   tw_min = (if z < tw_min w then z else tw_min w),
                   tw_n = tw_n w + 1,
                   tw_over = (if z > Z_THRESHOLD then tw_over w + 1 else tw_over w),
                   tw_pen = (if pen then tw_pen w + 1 else tw_pen w)\<rparr>\<rparr>)"

definition debounce :: "bool \<Rightarrow> touch \<Rightarrow> touch" where
  "debounce raw_down st =
     (if raw_down then (if g_down_run st < 0xFFFF then st\<lparr>g_down_run := g_down_run st + 1\<rparr> else st)
      else st\<lparr>g_blips := (if g_down_run st > 0 \<and> g_down_run st < TOUCH_DOWN_SAMPLES then g_blips st + 1 else g_blips st),
              g_down_run := 0\<rparr>)"

definition note_span :: "u32 \<Rightarrow> u32 \<Rightarrow> span_t \<Rightarrow> span_t" where
  "note_span rx ry s =
     (let s1 = (if first_set s = 0 then s\<lparr>first_set := 1, rx_first := rx, ry_first := ry\<rparr> else s)
      in s1\<lparr>rx_min := (if rx < rx_min s1 then rx else rx_min s1), rx_max := (if rx > rx_max s1 then rx else rx_max s1),
            ry_min := (if ry < ry_min s1 then ry else ry_min s1), ry_max := (if ry > ry_max s1 then ry else ry_max s1)\<rparr>)"

definition press :: "u32 \<Rightarrow> u32 \<Rightarrow> u32 \<Rightarrow> touch \<Rightarrow> (u32 \<times> u32) \<times> touch" where
  "press rx ry z st =
     (let st1 = st\<lparr>g_events := g_events st + 1, g_span := note_span rx ry (g_span st)\<rparr>;
          (x, y) = map_point st1 rx ry;
          st2 = (if \<not> g_was_down st1 \<and> g_log_count st1 < TOUCH_LOG_MAX
                 then st1\<lparr>g_log := (g_log st1)[g_log_count st1 := \<lparr>tl_raw_x = rx, tl_raw_y = ry, tl_x = x, tl_y = y, tl_z = z\<rparr>],
                          g_log_count := g_log_count st1 + 1\<rparr>
                 else st1)
      in ((x, y), st2\<lparr>g_was_down := True\<rparr>))"

definition touch_read :: "(bool list \<Rightarrow> bool) \<Rightarrow> bool \<Rightarrow> touch \<Rightarrow> bool \<times> touch_state_t \<times> touch" where
  "touch_read miso pen st =
     (let st1 = st\<lparr>g_samples := g_samples st + 1, g_irq_low := (if pen then g_irq_low st + 1 else g_irq_low st)\<rparr>;
          ((z1, z2, sx, sy), st2) = burst miso (gpio_int_disable st1);
          z = pressure z1 z2;
          rx = average3 sx;
          ry = average3 sy;
          st3 = debounce (pen \<and> z > Z_THRESHOLD) (note_extremes z1 z2 z pen st2);
          down = (g_down_run st3 \<ge> TOUCH_DOWN_SAMPLES);
          ((x, y), st4) = (if down then press rx ry z st3 else ((0, 0), st3\<lparr>g_was_down := False\<rparr>));
          out = \<lparr>ts_down = down, ts_x = x, ts_y = y, ts_raw_x = rx, ts_raw_y = ry, ts_z = z, ts_z1 = z1, ts_z2 = z2,
                 ts_sx = sx, ts_sy = sy\<rparr>
      in (down, out, st4\<lparr>g_latest := out\<rparr>))"

definition touch_log_clear :: "touch \<Rightarrow> touch" where
  "touch_log_clear st = st\<lparr>g_log_count := 0, g_was_down := False\<rparr>"

definition touch_log_entry :: "nat \<Rightarrow> touch \<Rightarrow> touch_log_t option" where
  "touch_log_entry i st = (if i < g_log_count st then Some (g_log st ! i) else None)"

subsection \<open>The pen interrupt\<close>

definition touch_isr :: "touch \<Rightarrow> touch" where
  "touch_isr st =
     (let st1 = st\<lparr>pin_status := False, g_irq_fires := g_irq_fires st + 1\<rparr>;
          w = g_irq_waiter st1;
          st2 = st1\<lparr>g_irq_seen_by_isr := w\<rparr>
      in if w \<ge> 0 then st2\<lparr>g_irq_waiter := -1, g_irq_wakes := g_irq_wakes st2 + 1, tsched := task_wake w (tsched st2)\<rparr>
         else st2\<lparr>g_irq_flag := True\<rparr>)"

text \<open>\<^verbatim>\<open>touch_irq_wait\<close> in its parts: the first critical section, which either consumes a latched edge (\<open>True\<close>, the call
  returns) or registers the caller; the sleep; and the last critical section.\<close>

definition irq_register :: "touch \<Rightarrow> bool \<times> touch" where
  "irq_register st =
     (if g_irq_flag st then (True, st\<lparr>g_irq_flag := False\<rparr>)
      else let s1 = st\<lparr>tsched := task_arm_wake (tsched st)\<rparr>;
               s2 = s1\<lparr>g_irq_waiter := g_current (tsched s1), g_irq_last_reg := g_current (tsched s1), g_irq_waits := g_irq_waits s1 + 1\<rparr>;
               s3 = gpio_int_enable s2
           in (False, s3\<lparr>g_irq_armed_rb := pin_reg s3\<rparr>))"

definition irq_sleep :: "u32 \<Rightarrow> u32 \<Rightarrow> touch \<Rightarrow> bool \<times> u32 \<times> touch" where
  "irq_sleep ticks now st =
     (case task_sleep_armed ticks now (tsched st) of (returned, due, s) \<Rightarrow> (returned, due, st\<lparr>tsched := s\<rparr>))"

definition irq_leave :: "touch \<Rightarrow> touch" where
  "irq_leave st = (gpio_int_disable st)\<lparr>g_irq_waiter := -1\<rparr>"

subsection \<open>Calibration by tapping targets (calib.c)\<close>

abbreviation (input) INSET :: u32 where "INSET \<equiv> 30"
abbreviation (input) TARGETS :: nat where "TARGETS \<equiv> 4"
abbreviation (input) PAIR_TOLERANCE :: u32 where "PAIR_TOLERANCE \<equiv> 900"

definition TX :: "u32 list" where "TX = [INSET, PANEL_W - INSET, INSET, PANEL_W - INSET]"
definition TY :: "u32 list" where "TY = [INSET, INSET, PANEL_H - INSET, PANEL_H - INSET]"
definition PAIR_A :: "nat list" where "PAIR_A = [0, 1, 0, 2]"
definition PAIR_B :: "nat list" where "PAIR_B = [2, 3, 1, 3]"
definition PAIR_AXIS :: "string list" where "PAIR_AXIS = [''x'', ''x'', ''y'', ''y'']"

text \<open>The statics of calib.c, with the touch driver, the store, the serial output, the panel calls and the mark that the
  desktop must be redrawn.\<close>

record calib =
  g_raw_x :: "u32 list"
  g_raw_y :: "u32 list"
  g_step :: nat
  g_running :: bool
  c_was_down :: bool
  g_last_ok :: int
  g_taps_taken :: u32
  g_disagree :: int
  ctouch :: touch
  cstore :: store
  cuart :: "uart_call list"
  cpanel :: "panel_call list"
  g_dirty :: bool

definition say :: "uart_call list \<Rightarrow> calib \<Rightarrow> calib" where
  "say us st = st\<lparr>cuart := cuart st @ us\<rparr>"

definition draw :: "panel_call list \<Rightarrow> calib \<Rightarrow> calib" where
  "draw ps st = st\<lparr>cpanel := cpanel st @ ps\<rparr>"

definition draw_target :: "u32 \<Rightarrow> u32 \<Rightarrow> u16 \<Rightarrow> panel_call list" where
  "draw_target x y colour =
     [Fill_rect (x - 10) y 21 1 colour, Fill_rect x (y - 10) 1 21 colour, Fill_rect (x - 2) (y - 2) 5 5 colour]"

definition draw_screen :: "calib \<Rightarrow> calib" where
  "draw_screen st = draw
     ([Lock, Clear 0,
       Draw_text 20 (PANEL_H div 2 - 20) (chars ''TOUCH CALIBRATION'') 0xFFFF 0 1,
       Draw_text 20 (PANEL_H div 2 - 6) (chars ''tap the centre of each cross'') 0x8410 0 1,
       Draw_text 20 (PANEL_H div 2 + 8) ((49 + of_nat (g_step st)) # chars '' of 4'') 0x8410 0 1]
      @ draw_target (TX ! g_step st) (TY ! g_step st) 0x07FF @ [Unlock]) st"

definition calib_start :: "calib \<Rightarrow> calib" where
  "calib_start st = draw_screen (st\<lparr>g_step := 0, g_running := True, c_was_down := False\<rparr>)"

definition pair_differs :: "nat \<Rightarrow> calib \<Rightarrow> bool" where
  "pair_differs p st =
     (let v = (if p < 2 then g_raw_x st else g_raw_y st);
          a = v ! (PAIR_A ! p);
          b = v ! (PAIR_B ! p);
          d = (if a > b then a - b else b - a)
      in d > PAIR_TOLERANCE)"

fun disagree_loop :: "nat list \<Rightarrow> calib \<Rightarrow> int" where
  "disagree_loop [] st = -1"
| "disagree_loop (p # ps) st = (if pair_differs p st then int p else disagree_loop ps st)"

text \<open>Division of \<^verbatim>\<open>int32_t\<close>, which truncates towards zero.\<close>

definition int32_div :: "u32 \<Rightarrow> u32 \<Rightarrow> u32" where
  "int32_div a b = word_of_int (sint a sdiv sint b)"

text \<open>The fit of one axis from the raw readings at its two targets: \<open>lo\<close> and \<open>hi\<close>, the extent of the panel along it, and
  the distance \<open>inset\<close> of the low reading's target from the edge the low raw values lie at.\<close>

definition fit_axis :: "u32 \<Rightarrow> u32 \<Rightarrow> u32 \<Rightarrow> u32 \<Rightarrow> u32 \<times> u32" where
  "fit_axis lo hi extent inset =
     (let d_raw = hi - lo;
          d_screen = (extent - INSET) - INSET;
          span = int32_div (d_raw * extent) d_screen;
          amin = lo - int32_div (inset * span) extent
      in (amin, amin + span))"

definition disagree_report :: "int \<Rightarrow> uart_call list" where
  "disagree_report d =
     [Puts ''REJECTED - targets '', Put_dec (of_nat (PAIR_A ! nat d) + 1), Puts '' and '', Put_dec (of_nat (PAIR_B ! nat d) + 1),
      Puts '' share a screen '', Puts (PAIR_AXIS ! nat d), Puts '' but read far apart.\<newline>'',
      Puts ''             tap the cross that is SHOWING, one at a time.\<newline>'']"

definition finish :: "bool \<Rightarrow> bool \<Rightarrow> calib \<Rightarrow> calib" where
  "finish erase_ok write_ok st =
     (let left_raw = (g_raw_x st ! 0 + g_raw_x st ! 2) div 2;
          right_raw = (g_raw_x st ! 1 + g_raw_x st ! 3) div 2;
          top_raw = (g_raw_y st ! 0 + g_raw_y st ! 1) div 2;
          bottom_raw = (g_raw_y st ! 2 + g_raw_y st ! 3) div 2;
          dis = disagree_loop [0, 1, 2, 3] st;
          ok = (dis < 0);
          (xmin, xmax) = (if ok \<and> left_raw > right_raw + 100
             then fit_axis right_raw left_raw PANEL_W ((PANEL_W - 1) - (PANEL_W - INSET)) else (0, 0));
          (ok2, ymin, ymax) = (if bottom_raw > top_raw + 100 \<and> ok
             then (True, fit_axis top_raw bottom_raw PANEL_H INSET) else (False, 0, 0));
          st1 = say [Puts ''\<newline>  calibration: ''] (st\<lparr>g_disagree := dis, g_running := False, g_dirty := True\<rparr>)
      in if \<not> ok2 then
           say ((if dis \<ge> 0 then disagree_report dis
                 else [Puts ''REJECTED - readings too close together, nothing changed\<newline>''])
                @ [Puts ''             nothing changed; 'calshow' has the readings\<newline>'']) (st1\<lparr>g_last_ok := 0\<rparr>)
         else
           let t = touch_set_calibration xmin xmax ymin ymax (ctouch st1);
               (ax, bx, ay, by) = touch_get_calibration t;
               st2 = say [Puts ''x '', Put_dec ax, Puts ''..'', Put_dec bx, Puts ''   y '', Put_dec ay, Puts ''..'', Put_dec by,
                          Puts (if ax = xmin then ''   (installed)\<newline>'' else ''   (REFUSED, kept previous)\<newline>'')] (st1\<lparr>ctouch := t\<rparr>)
           in st2\<lparr>g_last_ok := (if ax = xmin then 1 else 0), cstore := calib_persist ax bx ay by erase_ok write_ok (cstore st2)\<rparr>)"

definition calib_touch :: "bool \<Rightarrow> bool \<Rightarrow> u32 \<Rightarrow> u32 \<Rightarrow> bool \<Rightarrow> calib \<Rightarrow> calib" where
  "calib_touch erase_ok write_ok raw_x raw_y down st =
     (if \<not> g_running st then st
      else if \<not> down then st\<lparr>c_was_down := False\<rparr>
      else if c_was_down st then st
      else
        let st1 = st\<lparr>c_was_down := True, g_raw_x := (g_raw_x st)[g_step st := raw_x], g_raw_y := (g_raw_y st)[g_step st := raw_y],
                     g_taps_taken := g_taps_taken st + 1\<rparr>;
            st2 = draw ([Lock] @ draw_target (TX ! g_step st1) (TY ! g_step st1) 0x07E0 @ [Unlock]) st1;
            st3 = st2\<lparr>g_step := g_step st2 + 1\<rparr>
        in if g_step st3 \<ge> TARGETS then finish erase_ok write_ok st3 else draw_screen st3)"

definition report_target :: "calib \<Rightarrow> nat \<Rightarrow> uart_call list" where
  "report_target st i =
     [Puts ''   target '', Put_dec (of_nat i + 1), Puts '' at '', Put_dec (TX ! i), Putc 44, Put_dec (TY ! i), Puts ''  raw '',
      Put_dec (g_raw_x st ! i), Putc 44, Put_dec (g_raw_y st ! i), Puts ''\<newline>'']"

definition calib_report :: "calib \<Rightarrow> calib" where
  "calib_report st =
     (let (ax, bx, ay, by) = touch_get_calibration (ctouch st) in
      say ([Puts ''   taps taken   : '', Put_dec (g_taps_taken st), Puts ''\<newline>   last run     : '',
            Puts (if g_last_ok st < 0 then ''never run\<newline>'' else if g_last_ok st \<noteq> 0 then ''installed\<newline>'' else ''rejected\<newline>'')]
         @ (if g_disagree st \<ge> 0 then [Puts ''   disagreement : targets '', Put_dec (of_nat (PAIR_A ! nat (g_disagree st)) + 1),
              Puts '' and '', Put_dec (of_nat (PAIR_B ! nat (g_disagree st)) + 1), Puts '' share a screen '',
              Puts (PAIR_AXIS ! nat (g_disagree st)), Puts ''\<newline>''] else [])
         @ concat (List.map (report_target st) [0..<TARGETS])
         @ [Puts ''   in use       : x '', Put_dec ax, Puts ''..'', Put_dec bx, Puts ''  y '', Put_dec ay, Puts ''..'', Put_dec by, Puts ''\<newline>'']) st)"

subsection \<open>A sample is on the screen\<close>

lemma unat_and_FFF: "unat (x AND 0xFFF :: u32) = unat x mod 4096"
  using unat_and_mask [of x 12] by (simp add: mask_numeral)

lemma convert_less: "unat (fst (convert miso c st)) \<le> 4095"
proof -
  have "unat (x AND 0xFFF :: u32) \<le> 4095" for x by (simp add: unat_and_FFF)
  then show ?thesis by (auto simp: convert_def Let_def split: prod.splits)
qed

lemma converts_spec: "length (fst (converts miso c n st)) = n \<and> (\<forall>v \<in> set (fst (converts miso c n st)). unat v \<le> 4095)"
proof (induction n arbitrary: st)
  case (Suc n)
  obtain v st1 where c: "convert miso c st = (v, st1)" by (rule prod.exhaust)
  with convert_less [of miso c st] have v: "unat v \<le> 4095" by simp
  obtain vs st2 where r: "converts miso c n st1 = (vs, st2)" by (rule prod.exhaust)
  with Suc.IH [of st1] v show ?case by (simp add: c r)
qed simp

lemma average3_le:
  assumes "length s = 4" "\<forall>v \<in> set s. unat v \<le> 4095"
  shows "unat (average3 s) \<le> 4095"
proof -
  have "unat (s ! i) \<le> 4095" if "i < 4" for i using that assms by simp
  from this [of 1] this [of 2] this [of 3] have e: "unat (s ! 1 + s ! 2 + s ! 3) \<le> 12285"
    by (simp add: unat_word_ariths)
  have "unat (average3 s) = unat (s ! 1 + s ! 2 + s ! 3) div 3" by (simp add: average3_def unat_div)
  then show ?thesis using e by linarith
qed

lemma map_axis_inside:
  assumes "unat raw \<le> 4095" "0 < span" "span \<le> 320"
  shows "map_axis raw lo hi span < span"
proof (cases "raw \<le> lo \<or> raw \<ge> hi")
  case True
  have "unat (span - 1) = unat span - 1" using assms(2) by (intro unat_minus_one) auto
  then have "span - 1 < span" using assms(2) by (simp add: word_less_nat_alt)
  with True assms show ?thesis by (auto simp: map_axis_def)
next
  case False
  then have l: "unat lo < unat raw" "unat raw < unat hi" by (simp_all add: word_le_nat_alt not_le)
  have d: "unat (raw - lo) = unat raw - unat lo" "unat (hi - lo) = unat hi - unat lo"
    using l by (simp_all add: unat_sub_u32)
  have s: "unat span \<le> 320" "0 < unat span" using assms(2,3) by (simp_all add: word_le_nat_alt word_less_nat_alt)
  have m: "(unat raw - unat lo) * unat span \<le> 4095 * 320" using l assms(1) s by (intro mult_le_mono) auto
  have "unat ((raw - lo) * span) = (unat raw - unat lo) * unat span"
    using m by (simp add: unat_word_ariths d)
  then have "unat (map_axis raw lo hi span) = ((unat raw - unat lo) * unat span) div (unat hi - unat lo)"
    using False by (simp add: map_axis_def unat_div d)
  also have "\<dots> < unat span"
    using l s by (simp add: div_less_iff_less_mult diff_less_mono mult.commute)
  finally show ?thesis by (simp add: word_less_nat_alt)
qed

lemma map_point_inside:
  assumes "unat rx \<le> 4095" "unat ry \<le> 4095"
  shows "fst (map_point st rx ry) < PANEL_W \<and> snd (map_point st rx ry) < PANEL_H"
proof -
  have "map_axis rx (g_cal_x_min st) (g_cal_x_max st) PANEL_W < PANEL_W" by (rule map_axis_inside [OF assms(1)]) simp_all
  then have "unat (map_axis rx (g_cal_x_min st) (g_cal_x_max st) PANEL_W) \<le> 239" by (simp add: word_less_nat_alt)
  then have "unat ((PANEL_W - 1) - map_axis rx (g_cal_x_min st) (g_cal_x_max st) PANEL_W) \<le> 239"
    by (subst unat_sub_u32) simp_all
  then have x: "fst (map_point st rx ry) < PANEL_W" by (simp add: map_point_def word_less_nat_alt)
  show ?thesis using x map_axis_inside [OF assms(2), of PANEL_H] by (simp add: map_point_def)
qed

text \<open>A burst changes nothing but the wire.\<close>

lemma xfer_bits_frame: "\<exists>w. snd (xfer_bits miso c n rd st) = st\<lparr>wire := w\<rparr>"
proof (induction n arbitrary: rd st)
  case 0
  show ?case by (intro exI [of _ "wire st"]) simp
next
  case (Suc n)
  from Suc.IH [of _ "st\<lparr>wire := wire st @ [bit c n]\<rparr>"] show ?case by (simp add: Let_def)
qed

lemma convert_frame: "\<exists>w. snd (convert miso c st) = st\<lparr>wire := w\<rparr>"
proof -
  obtain v s1 where 1: "xfer_bits miso c 8 0 st = (v, s1)" by (rule prod.exhaust)
  obtain u s2 where 2: "xfer_bits miso 0 16 0 s1 = (u, s2)" by (rule prod.exhaust)
  from xfer_bits_frame [of miso c 8 0 st] obtain w where s1: "s1 = st\<lparr>wire := w\<rparr>" by (auto simp: 1)
  from xfer_bits_frame [of miso 0 16 0 s1] obtain w' where "s2 = s1\<lparr>wire := w'\<rparr>" by (auto simp: 2)
  with s1 have s2: "s2 = st\<lparr>wire := w'\<rparr>" by simp
  have "snd (convert miso c st) = s2" by (simp add: convert_def 1 2)
  with s2 show ?thesis by blast
qed

lemma converts_frame: "\<exists>w. snd (converts miso c n st) = st\<lparr>wire := w\<rparr>"
proof (induction n arbitrary: st)
  case 0
  show ?case by (intro exI [of _ "wire st"]) simp
next
  case (Suc n)
  obtain v s1 where c: "convert miso c st = (v, s1)" by (rule prod.exhaust)
  obtain vs s2 where r: "converts miso c n s1 = (vs, s2)" by (rule prod.exhaust)
  from convert_frame [of miso c st] obtain w where "s1 = st\<lparr>wire := w\<rparr>" by (auto simp: c)
  moreover from Suc.IH [of s1] obtain w' where "s2 = s1\<lparr>wire := w'\<rparr>" by (auto simp: r)
  ultimately have "s2 = st\<lparr>wire := w'\<rparr>" by simp
  then show ?case by (auto simp: c r)
qed

lemma burst_spec:
  assumes "burst miso st = ((z1, z2, sx, sy), st')"
  shows "unat z1 \<le> 4095" "unat z2 \<le> 4095" "unat (average3 sx) \<le> 4095" "unat (average3 sy) \<le> 4095"
    and "\<exists>w. st' = st\<lparr>wire := w\<rparr>"
proof -
  obtain w s1 where 1: "convert miso CMD_Z1 st = (w, s1)" by (rule prod.exhaust)
  obtain w1 s2 where 2: "convert miso CMD_Z1 s1 = (w1, s2)" by (rule prod.exhaust)
  obtain w2 s3 where 3: "convert miso CMD_Z2 s2 = (w2, s3)" by (rule prod.exhaust)
  obtain ux s4 where 4: "converts miso CMD_X 4 s3 = (ux, s4)" by (rule prod.exhaust)
  obtain uy s5 where 5: "converts miso CMD_Y 4 s4 = (uy, s5)" by (rule prod.exhaust)
  have e: "z1 = w1" "z2 = w2" "sx = ux" "sy = uy"
    using assms by (simp_all add: burst_def 1 2 3 4 5 del: converts.simps split: prod.splits)
  show "unat z1 \<le> 4095" using convert_less [of miso CMD_Z1 s1] by (simp add: e 2)
  show "unat z2 \<le> 4095" using convert_less [of miso CMD_Z2 s2] by (simp add: e 3)
  show "unat (average3 sx) \<le> 4095" using converts_spec [of miso CMD_X 4 s3] by (intro average3_le) (simp_all add: e 4)
  show "unat (average3 sy) \<le> 4095" using converts_spec [of miso CMD_Y 4 s4] by (intro average3_le) (simp_all add: e 5)
  obtain v s6 where 6: "convert miso CMD_IDLE s5 = (v, s6)" by (rule prod.exhaust)
  have st': "st' = s6" using assms by (simp add: burst_def 1 2 3 4 5 6 del: converts.simps)
  from convert_frame [of miso CMD_Z1 st] obtain a1 where "s1 = st\<lparr>wire := a1\<rparr>" by (auto simp: 1)
  moreover from convert_frame [of miso CMD_Z1 s1] obtain a2 where "s2 = s1\<lparr>wire := a2\<rparr>" by (auto simp: 2)
  moreover from convert_frame [of miso CMD_Z2 s2] obtain a3 where "s3 = s2\<lparr>wire := a3\<rparr>" by (auto simp: 3)
  moreover from converts_frame [of miso CMD_X 4 s3] obtain a4 where "s4 = s3\<lparr>wire := a4\<rparr>" by (auto simp: 4)
  moreover from converts_frame [of miso CMD_Y 4 s4] obtain a5 where "s5 = s4\<lparr>wire := a5\<rparr>" by (auto simp: 5)
  moreover from convert_frame [of miso CMD_IDLE s5] obtain a6 where "s6 = s5\<lparr>wire := a6\<rparr>" by (auto simp: 6)
  ultimately have "st' = st\<lparr>wire := a6\<rparr>" by (simp add: st')
  then show "\<exists>w. st' = st\<lparr>wire := w\<rparr>" by blast
qed

lemma press_point: "fst (press rx ry z st) = map_point st rx ry"
  by (simp add: press_def Let_def map_point_def split: prod.splits)

lemma press_frame:
  "g_down_run (snd (press rx ry z st)) = g_down_run st" "g_blips (snd (press rx ry z st)) = g_blips st"
  by (simp_all add: press_def Let_def split: prod.splits)

text \<open>One sample in one line: what it reports and what it does to the run of qualifying samples.\<close>

lemma touch_read_spec:
  assumes "touch_read miso pen st = (d, out, st')"
  shows "d = ts_down out" "ts_down out \<longleftrightarrow> g_down_run st' \<ge> TOUCH_DOWN_SAMPLES"
    and "ts_x out < PANEL_W" "ts_y out < PANEL_H" "unat (ts_raw_x out) \<le> 4095" "unat (ts_raw_y out) \<le> 4095"
    and "g_down_run st' = (if pen \<and> ts_z out > Z_THRESHOLD
       then (if g_down_run st < 0xFFFF then g_down_run st + 1 else g_down_run st) else 0)"
    and "g_latest st' = out"
    and "ts_down out \<Longrightarrow> (ts_x out, ts_y out) = map_point st (ts_raw_x out) (ts_raw_y out)"
proof -
  obtain s1 where s1: "gpio_int_disable (st\<lparr>g_samples := g_samples st + 1, g_irq_low := (if pen then g_irq_low st + 1 else g_irq_low st)\<rparr>) = s1" by simp
  obtain z1 z2 sx sy s2 where b: "burst miso s1 = ((z1, z2, sx, sy), s2)" by (metis prod.exhaust)
  note B = burst_spec [OF b]
  from B(5) obtain w where s2: "s2 = s1\<lparr>wire := w\<rparr>" by blast
  obtain z where z: "pressure z1 z2 = z" by simp
  obtain s3 where s3: "debounce (pen \<and> z > Z_THRESHOLD) (note_extremes z1 z2 z pen s2) = s3" by simp
  obtain x y s5 where s4: "(if g_down_run s3 \<ge> TOUCH_DOWN_SAMPLES then press (average3 sx) (average3 sy) z s3
     else ((0, 0), s3\<lparr>g_was_down := False\<rparr>)) = ((x, y), s5)" by (metis prod.exhaust)
  have o: "out = \<lparr>ts_down = g_down_run s3 \<ge> TOUCH_DOWN_SAMPLES, ts_x = x, ts_y = y, ts_raw_x = average3 sx, ts_raw_y = average3 sy,
      ts_z = z, ts_z1 = z1, ts_z2 = z2, ts_sx = sx, ts_sy = sy\<rparr>"
    and d: "d = (g_down_run s3 \<ge> TOUCH_DOWN_SAMPLES)" and st': "st' = s5\<lparr>g_latest := out\<rparr>"
    using assms unfolding touch_read_def Let_def s1 b prod.case z s3 s4 by auto
  have run: "g_down_run s3 = (if pen \<and> z > Z_THRESHOLD then (if g_down_run st < 0xFFFF then g_down_run st + 1 else g_down_run st) else 0)"
    by (simp add: s3 [symmetric] debounce_def note_extremes_def Let_def s2 s1 [symmetric] gpio_int_disable_def)
  have cal: "map_point s3 = map_point st"
    by (rule ext)+ (simp add: map_point_def s3 [symmetric] debounce_def note_extremes_def Let_def s2 s1 [symmetric] gpio_int_disable_def)
  have r5: "g_down_run s5 = g_down_run s3"
    using s4 press_frame(1) [of "average3 sx" "average3 sy" z s3] by (auto split: if_splits)
  have xy: "(x, y) = (if g_down_run s3 \<ge> TOUCH_DOWN_SAMPLES then map_point st (average3 sx) (average3 sy) else (0, 0))"
    using s4 press_point [of "average3 sx" "average3 sy" z s3] by (auto simp: cal split: if_splits)
  show "d = ts_down out" "ts_down out \<longleftrightarrow> g_down_run st' \<ge> TOUCH_DOWN_SAMPLES" "g_latest st' = out"
    by (simp_all add: o d st' r5)
  show "unat (ts_raw_x out) \<le> 4095" "unat (ts_raw_y out) \<le> 4095" using B by (simp_all add: o)
  show "g_down_run st' = (if pen \<and> ts_z out > Z_THRESHOLD
       then (if g_down_run st < 0xFFFF then g_down_run st + 1 else g_down_run st) else 0)" by (simp add: st' r5 run o)
  have "x < PANEL_W \<and> y < PANEL_H"
    using xy map_point_inside [OF B(3,4), of st] by (cases "map_point st (average3 sx) (average3 sy)") (auto split: if_splits)
  then show "ts_x out < PANEL_W" "ts_y out < PANEL_H" by (simp_all add: o)
  show "ts_down out \<Longrightarrow> (ts_x out, ts_y out) = map_point st (ts_raw_x out) (ts_raw_y out)" using xy by (simp add: o)
qed

text \<open>
  A sample is always on the panel: whatever the bus delivers and whatever calibration is installed, the point reported is
  inside the screen, the raw readings have twelve bits, and a sample that is not a press reports the origin.
\<close>

theorem touch_on_screen:
  "ts_x (fst (snd (touch_read miso pen st))) < PANEL_W \<and> ts_y (fst (snd (touch_read miso pen st))) < PANEL_H
    \<and> unat (ts_raw_x (fst (snd (touch_read miso pen st)))) \<le> 4095 \<and> unat (ts_raw_y (fst (snd (touch_read miso pen st)))) \<le> 4095"
proof -
  obtain d r st' where "touch_read miso pen st = (d, r, st')" by (metis prod.exhaust)
  note r = this
  from touch_read_spec(3-6) [OF r] show ?thesis unfolding r by simp
qed

subsection \<open>Debouncing\<close>

text \<open>A run of samples: each has its own bus and level of the pen pin.\<close>

fun touch_samples :: "((bool list \<Rightarrow> bool) \<times> bool) list \<Rightarrow> touch \<Rightarrow> touch_state_t list" where
  "touch_samples [] st = []"
| "touch_samples ((miso, pen) # ins) st =
     (case touch_read miso pen st of (_, out, st') \<Rightarrow> out # touch_samples ins st')"

definition firm :: "((bool list \<Rightarrow> bool) \<times> bool) list \<Rightarrow> touch_state_t list \<Rightarrow> nat \<Rightarrow> bool" where
  "firm ins outs k \<longleftrightarrow> snd (ins ! k) \<and> ts_z (outs ! k) > Z_THRESHOLD"

lemma touch_samples_down:
  "k < length ins \<Longrightarrow> unat (g_down_run st) \<le> 0xFFFF \<Longrightarrow>
   ts_down (touch_samples ins st ! k) \<longleftrightarrow>
     firm ins (touch_samples ins st) k \<and> (if k = 0 then g_down_run st \<noteq> 0 else firm ins (touch_samples ins st) (k - 1))"
proof (induction ins st arbitrary: k rule: touch_samples.induct)
  case (2 miso pen ins st)
  obtain d r st' where r: "touch_read miso pen st = (d, r, st')" by (metis prod.exhaust)
  note S = touch_read_spec [OF r]
  let ?f = "pen \<and> ts_z r > Z_THRESHOLD"
  have run: "unat (g_down_run st') = (if ?f then min 0xFFFF (unat (g_down_run st) + 1) else 0)"
    using S(7) "2.prems"(2) by (auto simp: word_less_nat_alt unat_add_u32)
  have le: "unat (g_down_run st') \<le> 0xFFFF" and ne: "g_down_run st' \<noteq> 0 \<longleftrightarrow> ?f"
    using run by (auto simp: unat_eq_0 [symmetric])
  have two: "ts_down r \<longleftrightarrow> ?f \<and> g_down_run st \<noteq> 0"
    using S(2) run by (auto simp: word_le_nat_alt unat_eq_0 [symmetric] split: if_splits)
  show ?case
  proof (cases k)
    case 0
    then show ?thesis using two by (simp add: r firm_def)
  next
    case (Suc j)
    with "2.IH" [OF r [symmetric] refl, of j] "2.prems"(1) le ne show ?thesis
      by (cases j) (auto simp: r firm_def)
  qed
qed simp

text \<open>
  A press is two samples in a row: from rest, a sample reports a press exactly when it and the one before it both had the pen
  pin low and the pressure above the threshold; a single qualifying sample, and the first of any run, report none.
\<close>

theorem touch_debounced:
  assumes "g_down_run st = 0" "k < length ins"
  shows "ts_down (touch_samples ins st ! k) \<longleftrightarrow>
    0 < k \<and> firm ins (touch_samples ins st) k \<and> firm ins (touch_samples ins st) (k - 1)"
  using touch_samples_down [OF assms(2), of st] assms(1) by auto

subsection \<open>The pen interrupt loses no edge\<close>

lemma task_wake_current:
  "0 \<le> i \<Longrightarrow> i < int TASK_MAX \<Longrightarrow> nat i < length (g_tasks s) \<Longrightarrow> tstate (g_tasks s ! nat i) \<noteq> TASK_UNUSED \<Longrightarrow>
   woken (g_tasks (task_wake i s) ! nat i) \<and> g_current (task_wake i s) = g_current s \<and> length (g_tasks (task_wake i s)) = length (g_tasks s)"
  by (simp add: task_wake_def upd_task_def Let_def)

lemma touch_isr_idle:
  "g_irq_waiter st < 0 \<Longrightarrow> tsched ((touch_isr ^^ n) st) = tsched st \<and> g_irq_waiter ((touch_isr ^^ n) st) < 0"
  by (induction n) (simp_all add: touch_isr_def Let_def)

lemma sleep_armed_woken:
  assumes "0 \<le> g_current s" "nat (g_current s) < length (g_tasks s)" "woken (g_tasks s ! nat (g_current s))"
  shows "\<exists>due s2. task_sleep_armed ticks now s = (True, due, s2) \<and> \<not> woken (g_tasks s2 ! nat (g_current s))"
  using assms by (simp add: task_sleep_armed_def sleep_deadline_def sleep_round_def upd_task_def Let_def)

text \<open>
  No press is lost around the wait (C34): an edge that arrives at any point between the registration and the sleep makes the sleep
  return at once, further edges notwithstanding, and the wake-up is consumed; an edge that arrives when nobody waits
  makes the next wait return at once without registering.
\<close>

theorem touch_no_lost_edge:
  assumes "0 \<le> g_current (tsched st)" "g_current (tsched st) < int TASK_MAX" "length (g_tasks (tsched st)) = TASK_MAX"
    and "tstate (g_tasks (tsched st) ! nat (g_current (tsched st))) \<noteq> TASK_UNUSED"
  shows "(\<not> g_irq_flag st \<longrightarrow> (\<exists>s1 due s2. irq_register st = (False, s1) \<and> g_irq_waiter s1 = g_current (tsched st)
      \<and> irq_sleep ticks now ((touch_isr ^^ Suc n) s1) = (True, due, s2)
      \<and> \<not> woken (g_tasks (tsched s2) ! nat (g_current (tsched st)))))
    \<and> (g_irq_waiter st < 0 \<longrightarrow> (\<exists>s3. irq_register (touch_isr st) = (True, s3) \<and> tsched s3 = tsched st))"
proof (intro conjI impI)
  let ?c = "g_current (tsched st)"
  assume f: "\<not> g_irq_flag st"
  obtain s1 where r: "irq_register st = (False, s1)" "g_irq_waiter s1 = ?c" "tsched s1 = task_arm_wake (tsched st)"
    using f by (simp add: irq_register_def Let_def gpio_int_enable_def task_arm_wake_def upd_task_def)
  have q: "g_current (tsched s1) = ?c" "length (g_tasks (tsched s1)) = TASK_MAX" "tstate (g_tasks (tsched s1) ! nat ?c) \<noteq> TASK_UNUSED"
    using assms by (simp_all add: r(3) task_arm_wake_def upd_task_def)
  have i: "tsched (touch_isr s1) = task_wake ?c (tsched s1)" "g_irq_waiter (touch_isr s1) < 0"
    using assms(1) by (simp_all add: touch_isr_def Let_def r(2))
  have t: "tsched ((touch_isr ^^ Suc n) s1) = task_wake ?c (tsched s1)"
    using touch_isr_idle [OF i(2), of n] by (simp add: funpow_swap1 i(1))
  have c: "nat ?c < length (g_tasks (tsched s1))" using assms(1,2) q(2) by simp
  note w = task_wake_current [OF assms(1,2) c q(3)]
  have "\<exists>due s2. task_sleep_armed ticks now (task_wake ?c (tsched s1)) = (True, due, s2) \<and> \<not> woken (g_tasks s2 ! nat ?c)"
    using sleep_armed_woken [of "task_wake ?c (tsched s1)" ticks now] w q c assms(1) by simp
  then show "\<exists>s1 due s2. irq_register st = (False, s1) \<and> g_irq_waiter s1 = ?c
      \<and> irq_sleep ticks now ((touch_isr ^^ Suc n) s1) = (True, due, s2) \<and> \<not> woken (g_tasks (tsched s2) ! nat ?c)"
    using r(1,2) t by (auto simp: irq_sleep_def simp del: funpow.simps)
next
  assume "g_irq_waiter st < 0"
  then show "\<exists>s3. irq_register (touch_isr st) = (True, s3) \<and> tsched s3 = tsched st"
    by (simp add: touch_isr_def irq_register_def Let_def)
qed

subsection \<open>The fit\<close>

lemma sdiv_nat: "int a sdiv int b = int (a div b)"
  by (auto simp: signed_divide_int_def zdiv_int sgn_if)

lemma int32_div_unat:
  assumes "unat a < 2147483648" "unat b < 2147483648"
  shows "unat (int32_div a b) = unat a div unat b"
proof -
  have s: "sint x = int (unat x)" if "unat x < 2147483648" for x :: u32
  proof -
    have "int (unat x) < 2147483648" using that by linarith
    then have "uint x < 2147483648" by simp
    moreover have "0 \<le> uint x" by simp
    ultimately have "signed_take_bit 31 (uint x) = uint x" by (intro signed_take_bit_int_eq_self) (auto intro: order_trans [where y = 0])
    then show ?thesis by (simp add: sint_uint)
  qed
  have q: "unat a div unat b < 4294967296"
    using div_le_dividend [of "unat a" "unat b"] assms(1) by linarith
  have "sint a sdiv sint b = int (unat a div unat b)"
    by (simp only: s [OF assms(1)] s [OF assms(2)] sdiv_nat)
  then show ?thesis using q by (simp add: int32_div_def unat_of_nat)
qed

lemma fit_nat:
  fixes d E i s q :: nat
  assumes s: "s = d * E div (E - 60)" and q: "q = i * s div E" and "60 < E" "E \<le> s" "0 < i"
  shows "q * E div s \<in> {i - 1, i}" "(d + q) * E div s \<in> {E - 60 + i - 1, E - 60 + i}"
proof -
  obtain F where F: "E = F + 60" "0 < F" using assms(3) by (metis add.commute less_imp_add_positive)
  have 0: "0 < s" "0 < E" using assms by auto
  obtain j where j: "i = Suc j" using assms(5) by (cases i) auto
  have q1: "q * E \<le> i * s" by (simp add: q)
  have q2: "i * s < q * E + E" using 0 unfolding q by (metis mult.commute dividend_less_div_times add.commute)
  have d1: "F * s \<le> d * E" using F by (simp add: s)
  have d2: "d * E < F * s + F" using F unfolding s by (metis mult.commute dividend_less_div_times add.commute diff_add_inverse2)
  have "q * E div s < i + 1" using q1 0 by (simp add: div_less_iff_less_mult)
  moreover have "j \<le> q * E div s" using q2 assms(4) 0 by (simp add: less_eq_div_iff_mult_less_eq j)
  ultimately show "q * E div s \<in> {i - 1, i}" by (auto simp: j)
  have "(d + q) * E < (F + i + 1) * s" using q1 d2 assms(4) F by (simp add: algebra_simps)
  then have "(d + q) * E div s < F + i + 1" using 0 by (simp add: div_less_iff_less_mult)
  moreover have "F + j \<le> (d + q) * E div s"
    using q2 d1 assms(4) 0 by (simp add: less_eq_div_iff_mult_less_eq j algebra_simps)
  ultimately show "(d + q) * E div s \<in> {E - 60 + i - 1, E - 60 + i}" using F(1) j by auto
qed

text \<open>The raw range of an axis as the fit computes it, in natural numbers.\<close>

definition fit_span :: "nat \<Rightarrow> nat \<Rightarrow> nat" where
  "fit_span d extent = d * extent div (extent - 60)"

lemma fit_axis_unat:
  assumes "unat hi \<le> 4095" "unat lo < unat hi" "extent = 240 \<or> extent = 320" "unat inset \<le> 30"
    and q: "q = unat inset * fit_span (unat hi - unat lo) (unat extent) div unat extent"
  shows "snd (fit_axis lo hi extent inset) = fst (fit_axis lo hi extent inset) + of_nat (fit_span (unat hi - unat lo) (unat extent))"
    and "fst (fit_axis lo hi extent inset) = lo - of_nat q"
    and "fit_span (unat hi - unat lo) (unat extent) \<le> 5460" "q \<le> 5460"
proof -
  have d: "unat (hi - lo) = unat hi - unat lo" using assms(2) by (intro unat_sub_u32) simp
  have de: "unat hi - unat lo \<le> 4095" using assms(1) by simp
  have e: "unat extent = 240 \<or> unat extent = 320" "unat ((extent - INSET) - INSET) = unat extent - 60"
    using assms(3) by auto
  have p: "(unat hi - unat lo) * unat extent \<le> 4095 * 320" using de e(1) by (intro mult_le_mono) auto
  have m: "unat ((hi - lo) * extent) = (unat hi - unat lo) * unat extent"
    using p by (simp add: unat_word_ariths d)
  have sp: "unat (int32_div ((hi - lo) * extent) ((extent - INSET) - INSET)) = fit_span (unat hi - unat lo) (unat extent)"
    using p e by (subst int32_div_unat) (auto simp: m fit_span_def)
  show fs: "fit_span (unat hi - unat lo) (unat extent) \<le> 5460"
    using e(1) de by (auto simp: fit_span_def)
  let ?s = "int32_div ((hi - lo) * extent) ((extent - INSET) - INSET)"
  have i: "unat inset * unat ?s \<le> 30 * 5460" using fs sp assms(4) by (intro mult_le_mono) auto
  then have mi: "unat (inset * ?s) = unat inset * unat ?s" by (simp add: unat_word_ariths)
  have iq: "unat (int32_div (inset * ?s) extent) = q"
    using i e(1) by (subst int32_div_unat) (auto simp only: mi sp q)
  show q5: "q \<le> 5460"
    using div_le_mono [of "unat inset * unat ?s" "30 * 5460" "unat extent"] i e(1) unfolding q sp by (elim disjE) auto
  show "snd (fit_axis lo hi extent inset) = fst (fit_axis lo hi extent inset) + of_nat (fit_span (unat hi - unat lo) (unat extent))"
    by (simp add: fit_axis_def Let_def sp [symmetric])
  show "fst (fit_axis lo hi extent inset) = lo - of_nat q"
    by (simp add: fit_axis_def Let_def iq [symmetric])
qed

text \<open>A tap on the raw readings of a side after the fit, in natural numbers.\<close>

lemma map_axis_nat:
  assumes "unat amin < raw" "raw < unat amin + s" "unat amin + s < 4294967296" "raw \<le> 4095" "unat extent \<le> 320"
  shows "unat (map_axis (of_nat raw) amin (amin + of_nat s) extent) = (raw - unat amin) * unat extent div s"
proof -
  have r: "unat (of_nat raw :: u32) = raw" "unat (of_nat s :: u32) = s" using assms by (simp_all add: unat_of_nat)
  have h: "unat (amin + of_nat s) = unat amin + s" using assms(3) r by (subst unat_add_u32) simp_all
  have d: "unat (of_nat raw - amin) = raw - unat amin" using assms(1) r by (subst unat_sub_u32) simp_all
  have m: "(raw - unat amin) * unat extent \<le> 4095 * 320" using assms by (intro mult_le_mono) auto
  have "unat ((of_nat raw - amin) * extent) = (raw - unat amin) * unat extent" using m by (simp add: unat_word_ariths d)
  moreover have "\<not> of_nat raw \<le> amin" "\<not> amin + of_nat s \<le> of_nat raw" using assms r h by (simp_all add: word_le_nat_alt not_le)
  ultimately show ?thesis using r h by (simp add: map_axis_def unat_div)
qed

lemma fit_maps:
  assumes "unat hi \<le> 4095" "unat lo + 320 \<le> unat hi" "extent = 240 \<or> extent = 320" "unat inset \<le> 30" "0 < unat inset"
    and q: "unat inset * fit_span (unat hi - unat lo) (unat extent) div unat extent \<le> unat lo"
    and f: "fit_axis lo hi extent inset = (amin, amax)"
  shows "unat (map_axis lo amin amax extent) \<in> {unat inset - 1, unat inset}"
    and "unat (map_axis hi amin amax extent) \<in> {unat extent - 60 + unat inset - 1, unat extent - 60 + unat inset}"
    and "\<not> amax \<le> amin + 100"
proof -
  let ?d = "unat hi - unat lo"
  define s where "s = fit_span ?d (unat extent)"
  define p where "p = unat inset * s div unat extent"
  have e: "unat extent = 240 \<or> unat extent = 320" using assms(3) by auto
  have l: "unat lo < unat hi" using assms(2) by simp
  note F = fit_axis_unat [OF assms(1) l assms(3,4) refl]
  have am: "amin = lo - of_nat p" "amax = amin + of_nat s" "s \<le> 5460" "p \<le> 5460"
    using F f by (simp_all add: s_def p_def)
  have pl: "p \<le> unat lo" using q by (simp add: p_def s_def)
  have up: "unat (of_nat p :: u32) = p" using am(4) by (simp add: unat_of_nat)
  have ua: "unat amin = unat lo - p" using pl up by (simp add: am(1) unat_sub_u32)
  have se: "unat extent \<le> s" "?d < s"
    using e assms(2) by (auto simp: s_def fit_span_def less_eq_div_iff_mult_less_eq Suc_le_eq [symmetric])
  have "1 * unat extent \<le> unat inset * s" using assms(5) se(1) by (intro mult_le_mono) auto
  then have p1: "1 \<le> p" using e by (auto simp: p_def less_eq_div_iff_mult_less_eq)
  note N = fit_nat [of s ?d "unat extent" p "unat inset"]
  have pre: "s = ?d * unat extent div (unat extent - 60)" "p = unat inset * s div unat extent" "60 < unat extent" "0 < unat inset"
    using e assms(5) by (auto simp: s_def fit_span_def p_def)
  have ps: "p < s"
  proof -
    have "unat inset * s < unat extent * s" using e assms(4) se by (intro mult_strict_right_mono) auto
    then show ?thesis using e by (simp add: p_def div_less_iff_less_mult mult.commute)
  qed
  have "(?d + p) * unat extent div s < unat extent" using N(2) [OF pre(1,2,3) se(1) pre(4)] e assms(4,5) by auto
  then have "(?d + p) * unat extent < unat extent * s" using se by (subst (asm) div_less_iff_less_mult) auto
  then have ds: "?d + p < s" by (simp add: mult.commute)
  have "unat (map_axis (of_nat (unat lo)) amin (amin + of_nat s) extent) = p * unat extent div s"
    using map_axis_nat [of amin "unat lo" s extent] p1 ps pl am(3) assms(1,2) e ua by auto
  then show "unat (map_axis lo amin amax extent) \<in> {unat inset - 1, unat inset}"
    using N(1) [OF pre(1,2,3) se(1) pre(4)] am(2) by simp
  have "unat (map_axis (of_nat (unat hi)) amin (amin + of_nat s) extent) = (?d + p) * unat extent div s"
    using map_axis_nat [of amin "unat hi" s extent] p1 ds pl am(3) assms(1,2) e ua by auto
  then show "unat (map_axis hi amin amax extent) \<in> {unat extent - 60 + unat inset - 1, unat extent - 60 + unat inset}"
    using N(2) [OF pre(1,2,3) se(1) pre(4)] am(2) by simp
  show "\<not> amax \<le> amin + 100"
    using am(3) ua se(1) e assms(1,2) by (auto simp: am(2) word_le_nat_alt unat_word_ariths unat_of_nat)
qed

subsection \<open>A calibration run\<close>

text \<open>One target: the finger goes down with a reading and lifts.\<close>

definition calib_tap :: "bool \<Rightarrow> bool \<Rightarrow> u32 \<times> u32 \<Rightarrow> calib \<Rightarrow> calib" where
  "calib_tap e w r st = calib_touch e w 0 0 False (calib_touch e w (fst r) (snd r) True st)"

definition calib_run :: "bool \<Rightarrow> bool \<Rightarrow> u32 list \<Rightarrow> u32 list \<Rightarrow> calib \<Rightarrow> calib" where
  "calib_run e w xs ys st = fold (calib_tap e w) (zip xs ys) (calib_start st)"

definition pairs_agree :: "u32 list \<Rightarrow> u32 list \<Rightarrow> bool" where
  "pairs_agree xs ys \<longleftrightarrow> (\<forall>(a, b) \<in> {(xs ! 0, xs ! 2), (xs ! 1, xs ! 3), (ys ! 0, ys ! 1), (ys ! 2, ys ! 3)}.
     (if a > b then a - b else b - a) \<le> PAIR_TOLERANCE)"

definition mean2 :: "u32 \<Rightarrow> u32 \<Rightarrow> u32" where "mean2 a b = (a + b) div 2"

lemma pairs_agree_loop:
  "pairs_agree (g_raw_x st) (g_raw_y st) \<Longrightarrow> disagree_loop [0, 1, 2, 3] st = -1"
  by (simp add: pairs_agree_def pair_differs_def PAIR_A_def PAIR_B_def Let_def not_less)

lemma calib_run_finish:
  assumes "length xs = 4" "length ys = 4" "length (g_raw_x st) = 4" "length (g_raw_y st) = 4"
  shows "\<exists>st'. calib_run e w xs ys st = finish e w st' \<and> g_raw_x st' = xs \<and> g_raw_y st' = ys
    \<and> ctouch st' = ctouch st \<and> cstore st' = cstore st"
proof -
  obtain x0 x1 x2 x3 where x: "xs = [x0, x1, x2, x3]" using assms(1) by (auto simp: length_Suc_conv eval_nat_numeral)
  obtain y0 y1 y2 y3 where y: "ys = [y0, y1, y2, y3]" using assms(2) by (auto simp: length_Suc_conv eval_nat_numeral)
  obtain a0 a1 a2 a3 where a: "g_raw_x st = [a0, a1, a2, a3]" using assms(3) by (auto simp: length_Suc_conv eval_nat_numeral)
  obtain b0 b1 b2 b3 where b: "g_raw_y st = [b0, b1, b2, b3]" using assms(4) by (auto simp: length_Suc_conv eval_nat_numeral)
  have fin: "\<not> g_running (finish e w s)" for s
    by (simp add: finish_def Let_def say_def split: prod.splits)
  show ?thesis
    by (simp add: calib_run_def calib_tap_def calib_touch_def calib_start_def draw_screen_def draw_def x y a b Let_def fin)
      (intro exI conjI, rule refl, simp_all)
qed

lemma finish_installs:
  assumes "pairs_agree (g_raw_x st) (g_raw_y st)" "g_raw_x st = xs" "g_raw_y st = ys"
    and "mean2 (xs ! 0) (xs ! 2) > mean2 (xs ! 1) (xs ! 3) + 100" "mean2 (ys ! 2) (ys ! 3) > mean2 (ys ! 0) (ys ! 1) + 100"
    and "fit_axis (mean2 (xs ! 1) (xs ! 3)) (mean2 (xs ! 0) (xs ! 2)) 240 29 = (x1, x2)"
    and "fit_axis (mean2 (ys ! 0) (ys ! 1)) (mean2 (ys ! 2) (ys ! 3)) 320 30 = (y1, y2)"
    and "\<not> x2 \<le> x1 + 100" "\<not> y2 \<le> y1 + 100"
  shows "touch_get_calibration (ctouch (finish e w st)) = (x1, x2, y1, y2) \<and> g_last_ok (finish e w st) = 1
    \<and> cstore (finish e w st) = calib_persist x1 x2 y1 y2 e w (cstore st)"
proof -
  have l: "disagree_loop [0, 1, 2, 3] st = -1" by (rule pairs_agree_loop) (rule assms(1))
  show ?thesis
    using assms(2-) unfolding mean2_def
    by (simp add: finish_def Let_def l say_def touch_set_calibration_def touch_get_calibration_def del: disagree_loop.simps One_nat_def)
qed

text \<open>The readings of a run that a user can produce: twelve bits, partners that agree, sides at least 320 counts apart.\<close>

definition good_taps :: "u32 list \<Rightarrow> u32 list \<Rightarrow> bool" where
  "good_taps xs ys \<longleftrightarrow> length xs = 4 \<and> length ys = 4 \<and> (\<forall>v \<in> set (xs @ ys). unat v \<le> 4095) \<and> pairs_agree xs ys
     \<and> unat (mean2 (xs ! 1) (xs ! 3)) + 320 \<le> unat (mean2 (xs ! 0) (xs ! 2))
     \<and> unat (mean2 (ys ! 0) (ys ! 1)) + 320 \<le> unat (mean2 (ys ! 2) (ys ! 3))"

text \<open>How far below the low reading the fit extends an axis, to reach the edge of the panel.\<close>

definition overhang :: "nat \<Rightarrow> u32 \<Rightarrow> u32 \<Rightarrow> u32 \<Rightarrow> nat" where
  "overhang inset lo hi extent = inset * fit_span (unat hi - unat lo) (unat extent) div unat extent"

lemma mean2_le: "unat a \<le> 4095 \<Longrightarrow> unat b \<le> 4095 \<Longrightarrow> unat (mean2 a b) \<le> 4095"
  by (simp add: mean2_def unat_div unat_word_ariths)

lemma good_taps_means:
  assumes "good_taps xs ys"
  shows "unat (mean2 (xs ! 0) (xs ! 2)) \<le> 4095" "unat (mean2 (ys ! 2) (ys ! 3)) \<le> 4095"
    and "mean2 (xs ! 0) (xs ! 2) > mean2 (xs ! 1) (xs ! 3) + 100" "mean2 (ys ! 2) (ys ! 3) > mean2 (ys ! 0) (ys ! 1) + 100"
proof -
  have v: "unat (xs ! i) \<le> 4095" "unat (ys ! i) \<le> 4095" if "i < 4" for i
    using assms that by (simp_all add: good_taps_def)
  show x: "unat (mean2 (xs ! 0) (xs ! 2)) \<le> 4095" and y: "unat (mean2 (ys ! 2) (ys ! 3)) \<le> 4095"
    by (intro mean2_le v; simp)+
  show "mean2 (xs ! 0) (xs ! 2) > mean2 (xs ! 1) (xs ! 3) + 100" "mean2 (ys ! 2) (ys ! 3) > mean2 (ys ! 0) (ys ! 1) + 100"
    using assms x y by (simp_all add: good_taps_def word_less_nat_alt unat_add_u32)
qed

text \<open>
  Calibration works: after a run of four taps whose partners agree, with sides at least 320 counts apart and neither
  axis reaching below raw zero, the mapping takes the averaged reading of every target to within one pixel of its cross, and the
  range installed is the one written to the store.
\<close>

theorem calib_maps_targets:
  assumes "good_taps xs ys" "length (g_raw_x st) = 4" "length (g_raw_y st) = 4"
    and "overhang 29 (mean2 (xs ! 1) (xs ! 3)) (mean2 (xs ! 0) (xs ! 2)) 240 \<le> unat (mean2 (xs ! 1) (xs ! 3))"
    and "overhang 30 (mean2 (ys ! 0) (ys ! 1)) (mean2 (ys ! 2) (ys ! 3)) 320 \<le> unat (mean2 (ys ! 0) (ys ! 1))"
  shows "g_last_ok (calib_run e w xs ys st) = 1
    \<and> map_point (ctouch (calib_run e w xs ys st)) (mean2 (xs ! 0) (xs ! 2)) (mean2 (ys ! 0) (ys ! 1)) \<in> {30, 31} \<times> {29, 30}
    \<and> map_point (ctouch (calib_run e w xs ys st)) (mean2 (xs ! 1) (xs ! 3)) (mean2 (ys ! 2) (ys ! 3)) \<in> {210, 211} \<times> {289, 290}
    \<and> (case touch_get_calibration (ctouch (calib_run e w xs ys st)) of (x1, x2, y1, y2) \<Rightarrow>
        cstore (calib_run e w xs ys st) = calib_persist x1 x2 y1 y2 e w (cstore st))"
proof -
  let ?L = "mean2 (xs ! 0) (xs ! 2)" and ?R = "mean2 (xs ! 1) (xs ! 3)" and ?T = "mean2 (ys ! 0) (ys ! 1)" and ?B = "mean2 (ys ! 2) (ys ! 3)"
  note g = assms(1) [unfolded good_taps_def] and M = good_taps_means [OF assms(1)]
  obtain x1 x2 where fx: "fit_axis ?R ?L 240 29 = (x1, x2)" by (rule prod.exhaust)
  obtain y1 y2 where fy: "fit_axis ?T ?B 320 30 = (y1, y2)" by (rule prod.exhaust)
  have X: "unat (map_axis ?R x1 x2 240) \<in> {28, 29}" "unat (map_axis ?L x1 x2 240) \<in> {208, 209}" "\<not> x2 \<le> x1 + 100"
    using fit_maps [of ?L ?R 240 29 x1 x2] M(1) g assms(4) fx by (simp_all add: overhang_def)
  have Y: "unat (map_axis ?T y1 y2 320) \<in> {29, 30}" "unat (map_axis ?B y1 y2 320) \<in> {289, 290}" "\<not> y2 \<le> y1 + 100"
    using fit_maps [of ?B ?T 320 30 y1 y2] M(2) g assms(5) fy by (simp_all add: overhang_def)
  obtain st' where r: "calib_run e w xs ys st = finish e w st'" "g_raw_x st' = xs" "g_raw_y st' = ys" "cstore st' = cstore st"
    using calib_run_finish [of xs ys st e w] g assms(2,3) by blast
  have F: "touch_get_calibration (ctouch (finish e w st')) = (x1, x2, y1, y2) \<and> g_last_ok (finish e w st') = 1
    \<and> cstore (finish e w st') = calib_persist x1 x2 y1 y2 e w (cstore st')"
    by (rule finish_installs [OF _ r(2,3) M(3,4) fx fy X(3) Y(3)]) (use g r in simp)
  have c: "unat v \<in> {a, b} \<Longrightarrow> v \<in> {of_nat a, of_nat b}" for v :: u32 and a b
    by (metis insertE insertI1 insertI2 of_nat_unat_u32 singletonD)
  have "map_axis ?R x1 x2 240 \<in> {28, 29}" "map_axis ?L x1 x2 240 \<in> {208, 209}" "map_axis ?T y1 y2 320 \<in> {29, 30}" "map_axis ?B y1 y2 320 \<in> {289, 290}"
    using c [OF X(1)] c [OF X(2)] c [OF Y(1)] c [OF Y(2)] by simp_all
  then show ?thesis using F r by (auto simp: map_point_def touch_get_calibration_def)
qed

text \<open>
  A run that kills an axis: when the readings at the right-hand crosses are so low that the fitted range starts at most 100
  counts below raw zero, the start wraps, and the guard against inverted ranges, whose sum wraps as well, lets it through. The
  run reports success, the range is saved, and from then on every possible reading maps to the last column.
\<close>

theorem calib_axis_dead:
  assumes "good_taps xs ys" "length (g_raw_x st) = 4" "length (g_raw_y st) = 4"
    and "unat (mean2 (xs ! 1) (xs ! 3)) < overhang 29 (mean2 (xs ! 1) (xs ! 3)) (mean2 (xs ! 0) (xs ! 2)) 240"
    and "overhang 29 (mean2 (xs ! 1) (xs ! 3)) (mean2 (xs ! 0) (xs ! 2)) 240 \<le> unat (mean2 (xs ! 1) (xs ! 3)) + 100"
    and "overhang 30 (mean2 (ys ! 0) (ys ! 1)) (mean2 (ys ! 2) (ys ! 3)) 320 \<le> unat (mean2 (ys ! 0) (ys ! 1))"
  shows "g_last_ok (calib_run e w xs ys st) = 1
    \<and> (unat rx \<le> 4095 \<longrightarrow> fst (map_point (ctouch (calib_run e w xs ys st)) rx ry) = 239)
    \<and> (case touch_get_calibration (ctouch (calib_run e w xs ys st)) of (x1, x2, y1, y2) \<Rightarrow>
        cstore (calib_run e w xs ys st) = calib_persist x1 x2 y1 y2 e w (cstore st))"
proof -
  let ?L = "mean2 (xs ! 0) (xs ! 2)" and ?R = "mean2 (xs ! 1) (xs ! 3)" and ?T = "mean2 (ys ! 0) (ys ! 1)" and ?B = "mean2 (ys ! 2) (ys ! 3)"
  note g = assms(1) [unfolded good_taps_def] and M = good_taps_means [OF assms(1)]
  obtain x1 x2 where fx: "fit_axis ?R ?L 240 29 = (x1, x2)" by (rule prod.exhaust)
  obtain y1 y2 where fy: "fit_axis ?T ?B 320 30 = (y1, y2)" by (rule prod.exhaust)
  define s where "s = fit_span (unat ?L - unat ?R) 240"
  define q where "q = overhang 29 ?R ?L 240"
  have lt: "unat ?R < unat ?L" using g by simp
  have F: "x2 = x1 + of_nat s" "x1 = ?R - of_nat q" "s \<le> 5460" "q \<le> 5460"
    using fit_axis_unat [of ?L ?R 240 29 q] M(1) lt fx by (simp_all add: q_def overhang_def s_def)
  have "unat ?R + 320 \<le> unat ?L" using g by blast
  then have s240: "240 \<le> s" by (simp add: s_def fit_span_def less_eq_div_iff_mult_less_eq)
  have uq: "unat (of_nat q :: u32) = q" "unat (of_nat s :: u32) = s" using F by (simp_all add: unat_of_nat)
  have q100: "unat ?R < q" "q \<le> unat ?R + 100" using assms(4,5) by (simp_all add: q_def)
  have u1: "unat x1 = 4294967296 + unat ?R - q"
    using q100(1) by (simp add: F(2) unat_sub_if' uq)
  have wrap: "unat (x1 + v) = unat ?R + unat v - q" if "100 \<le> unat v" "unat v \<le> 5460" for v
  proof -
    have "unat x1 + unat v = 4294967296 + (unat ?R + unat v - q)" using u1 q100 that by linarith
    moreover have "unat ?R + unat v - q < 4294967296" using lt M(1) that by linarith
    ultimately show ?thesis by (simp only: unat_add_mod_u32 mod_add_self1 mod_less)
  qed
  have w1: "unat (x1 + 100) = unat ?R + 100 - q" using wrap [of 100] by simp
  have w2: "unat x2 = unat ?R + s - q" using wrap [of "of_nat s"] s240 F(3) by (simp add: F(1) uq)
  have nx: "\<not> x2 \<le> x1 + 100" using w1 w2 s240 q100 by (simp add: word_le_nat_alt)
  have ny: "\<not> y2 \<le> y1 + 100"
    using fit_maps(3) [of ?B ?T 320 30 y1 y2] M(2) g assms(6) fy by (simp add: overhang_def)
  obtain st' where r: "calib_run e w xs ys st = finish e w st'" "g_raw_x st' = xs" "g_raw_y st' = ys" "cstore st' = cstore st"
    using calib_run_finish [of xs ys st e w] g assms(2,3) by blast
  have I: "touch_get_calibration (ctouch (finish e w st')) = (x1, x2, y1, y2) \<and> g_last_ok (finish e w st') = 1
    \<and> cstore (finish e w st') = calib_persist x1 x2 y1 y2 e w (cstore st')"
    by (rule finish_installs [OF _ r(2,3) M(3,4) fx fy nx ny]) (use g r in simp)
  have "unat rx \<le> 4095 \<Longrightarrow> rx \<le> x1" using u1 q100 by (simp add: word_le_nat_alt)
  then show ?thesis using I r by (auto simp: map_point_def touch_get_calibration_def map_axis_def)
qed

subsection \<open>Witnesses\<close>

definition touch_rest :: touch where
  "touch_rest = \<lparr>g_cal_x_min = 380, g_cal_x_max = 3380, g_cal_y_min = 380, g_cal_y_max = 3520, g_down_run = 0, g_blips = 0,
     g_latest = \<lparr>ts_down = False, ts_x = 0, ts_y = 0, ts_raw_x = 0, ts_raw_y = 0, ts_z = 0, ts_z1 = 0, ts_z2 = 0, ts_sx = [], ts_sy = []\<rparr>,
     g_samples = 0, g_events = 0, g_irq_low = 0, g_max_z1 = 0, g_min_z2 = 0xFFFFFFFF, g_max_z = 0,
     g_span = \<lparr>rx_min = 0xFFFFFFFF, rx_max = 0, ry_min = 0xFFFFFFFF, ry_max = 0, rx_first = 0, ry_first = 0, first_set = 0\<rparr>,
     g_win = \<lparr>tw_max = 0, tw_min = 0xFFFFFFFF, tw_n = 0, tw_over = 0, tw_pen = 0\<rparr>,
     g_irq_waiter = -1, g_irq_fires = 0, g_irq_wakes = 0, g_irq_waits = 0, g_irq_flag = False, g_irq_last_reg = -2, g_irq_seen_by_isr = -2,
     g_irq_armed_rb = 0, g_log = replicate 8 \<lparr>tl_raw_x = 0, tl_raw_y = 0, tl_x = 0, tl_y = 0, tl_z = 0\<rparr>, g_log_count = 0, g_was_down = False, wire = [], pin_reg = 0, pin_status = False,
     tsched = sched_duo\<lparr>g_current := 0\<rparr>\<rparr>"

definition calib_rest :: calib where
  "calib_rest = \<lparr>g_raw_x = [0, 0, 0, 0], g_raw_y = [0, 0, 0, 0], g_step = 0, g_running = False, c_was_down = False, g_last_ok = -1,
     g_taps_taken = 0, g_disagree = -1, ctouch = touch_rest, cstore = store_blank, cuart = [], cpanel = [], g_dirty = False\<rparr>"

theorem touch_debounced_witness:
  "ts_down (touch_samples [(\<lambda>_. True, True), (\<lambda>_. True, False)] touch_rest ! 1) \<longleftrightarrow>
    0 < (1 :: nat) \<and> firm [(\<lambda>_. True, True), (\<lambda>_. True, False)] (touch_samples [(\<lambda>_. True, True), (\<lambda>_. True, False)] touch_rest) 1
      \<and> firm [(\<lambda>_. True, True), (\<lambda>_. True, False)] (touch_samples [(\<lambda>_. True, True), (\<lambda>_. True, False)] touch_rest) (1 - 1)"
  by (rule touch_debounced) (simp_all add: touch_rest_def)

lemma good_run: "good_taps [3000, 800, 3010, 790] [700, 710, 3200, 3210]"
  by code_simp

theorem calib_maps_targets_witness:
  "g_last_ok (calib_run True True [3000, 800, 3010, 790] [700, 710, 3200, 3210] calib_rest) = 1"
proof -
  have "overhang 29 (mean2 ([3000, 800, 3010, 790] ! 1) ([3000, 800, 3010, 790] ! 3)) (mean2 ([3000, 800, 3010, 790] ! 0) ([3000, 800, 3010, 790] ! 2)) 240
      \<le> unat (mean2 ([3000, 800, 3010, 790] ! 1) ([3000, 800, 3010, 790] ! 3))"
    "overhang 30 (mean2 ([700, 710, 3200, 3210] ! 0) ([700, 710, 3200, 3210] ! 1)) (mean2 ([700, 710, 3200, 3210] ! 2) ([700, 710, 3200, 3210] ! 3)) 320
      \<le> unat (mean2 ([700, 710, 3200, 3210] ! 0) ([700, 710, 3200, 3210] ! 1))"
    by (simp_all add: overhang_def mean2_def fit_span_def)
  note o = this
  have l: "length (g_raw_x calib_rest) = 4" "length (g_raw_y calib_rest) = 4" by (simp_all add: calib_rest_def)
  show ?thesis by (rule conjunct1 [OF calib_maps_targets [OF good_run l o]])
qed

theorem calib_axis_dead_witness:
  "g_last_ok (calib_run True True [3000, 400, 3000, 400] [700, 710, 3200, 3210] calib_rest) = 1"
proof -
  have g: "good_taps [3000, 400, 3000, 400] [700, 710, 3200, 3210]" by code_simp
  have "unat (mean2 ([3000, 400, 3000, 400] ! 1) ([3000, 400, 3000, 400] ! 3))
      < overhang 29 (mean2 ([3000, 400, 3000, 400] ! 1) ([3000, 400, 3000, 400] ! 3)) (mean2 ([3000, 400, 3000, 400] ! 0) ([3000, 400, 3000, 400] ! 2)) 240"
    "overhang 29 (mean2 ([3000, 400, 3000, 400] ! 1) ([3000, 400, 3000, 400] ! 3)) (mean2 ([3000, 400, 3000, 400] ! 0) ([3000, 400, 3000, 400] ! 2)) 240
      \<le> unat (mean2 ([3000, 400, 3000, 400] ! 1) ([3000, 400, 3000, 400] ! 3)) + 100"
    "overhang 30 (mean2 ([700, 710, 3200, 3210] ! 0) ([700, 710, 3200, 3210] ! 1)) (mean2 ([700, 710, 3200, 3210] ! 2) ([700, 710, 3200, 3210] ! 3)) 320
      \<le> unat (mean2 ([700, 710, 3200, 3210] ! 0) ([700, 710, 3200, 3210] ! 1))"
    by (simp_all add: overhang_def mean2_def fit_span_def)
  note o = this
  have l: "length (g_raw_x calib_rest) = 4" "length (g_raw_y calib_rest) = 4" by (simp_all add: calib_rest_def)
  show ?thesis by (rule conjunct1 [OF calib_axis_dead [OF g l o]])
qed

theorem touch_no_lost_edge_witness:
  "(\<exists>s1 due s2. irq_register touch_rest = (False, s1) \<and> g_irq_waiter s1 = g_current (tsched touch_rest)
      \<and> irq_sleep 50 1000 ((touch_isr ^^ Suc 2) s1) = (True, due, s2)
      \<and> \<not> woken (g_tasks (tsched s2) ! nat (g_current (tsched touch_rest))))"
  using touch_no_lost_edge [of touch_rest 50 1000 2]
  by (simp add: touch_rest_def sched_duo_tasks created_task_def)

end
