(* ===== verification/KFlash.thy ===== *)
theory KFlash
  imports Prelude
begin

text \<open>
  The flash driver (flash.c): one transaction of the SPI1 controller in user mode, the wait for the chip, and reading,
  erasing and programming. The controller's registers are a record; what is on the wire is \<open>bus\<close>, the byte
  streams sent so far. The chip is a parameter: what it answers, whether the controller finishes in time and when a
  wait has lasted too long, each as a function of those streams.
\<close>

subsection \<open>Registers and wire\<close>

record spi1 =
  r_user :: u32
  r_user1 :: u32
  r_user2 :: u32
  r_ctrl :: u32
  r_ctrl2 :: u32
  r_clock :: u32
  r_mosi_dlen :: u32
  r_miso_dlen :: u32
  r_w :: "u32 list"
  bus :: "u8 list list"

record wire_env =
  reply :: "u8 list list \<Rightarrow> nat \<Rightarrow> u8"
  stuck_before :: "u8 list list \<Rightarrow> bool"
  stuck_after :: "u8 list list \<Rightarrow> bool"
  late :: "u8 list list \<Rightarrow> u8 list list \<Rightarrow> bool"

abbreviation (input) FLASH_SECTOR :: u32 where "FLASH_SECTOR \<equiv> 4096"
abbreviation (input) FLASH_DATA_ADDR :: u32 where "FLASH_DATA_ADDR \<equiv> 0x200000"

definition USR_MISO :: u32 where "USR_MISO = push_bit 28 1"
definition USR_MOSI :: u32 where "USR_MOSI = push_bit 27 1"

definition CTRL_FREAD_MASK :: u32 where
  "CTRL_FREAD_MASK = push_bit 13 1 OR push_bit 14 1 OR push_bit 20 1 OR push_bit 23 1 OR push_bit 24 1"

definition CLK_DIV :: "u32 \<Rightarrow> u32 \<Rightarrow> u32" where
  "CLK_DIV pre n = push_bit 18 pre OR push_bit 12 n OR push_bit 6 ((n + 1) div 2 - 1) OR n"

definition FLASH_USER_CLOCK :: u32 where "FLASH_USER_CLOCK = CLK_DIV 0 9"

text \<open>Bytes in the data registers are little-endian: \<open>pack_word f n w\<close> holds bytes \<open>4 w\<close> to \<open>4 w + 3\<close> of the first \<open>n\<close>.\<close>

definition pack_word :: "(nat \<Rightarrow> u8) \<Rightarrow> nat \<Rightarrow> nat \<Rightarrow> u32" where
  "pack_word f n w = fold (\<lambda>b word. if 4 * w + b < n then word OR push_bit (8 * b) (ucast (f (4 * w + b))) else word) [0..<4] 0"

definition reg_byte :: "u32 list \<Rightarrow> nat \<Rightarrow> u8" where
  "reg_byte ws i = ucast (drop_bit (8 * (i mod 4)) (ws ! (i div 4)))"

definition fill_regs :: "(nat \<Rightarrow> u8) \<Rightarrow> nat \<Rightarrow> u32 list \<Rightarrow> u32 list" where
  "fill_regs f n ws = fold (\<lambda>w r. r[w := pack_word f n w]) [0..<(n + 3) div 4] ws"

text \<open>What the controller does when the user bit is set: it shifts out the bytes the length register names, and the answer of
  the chip, when one is asked for, is left in the data registers.\<close>

definition fire :: "wire_env \<Rightarrow> spi1 \<Rightarrow> spi1" where
  "fire env st =
     (let st1 = st\<lparr>bus := bus st @ [List.map (reg_byte (r_w st)) [0..<unat (r_mosi_dlen st + 1) div 8]]\<rparr>
      in if r_user st AND USR_MISO = 0 then st1
         else st1\<lparr>r_w := fill_regs (reply env (bus st1)) (unat (r_miso_dlen st + 1) div 8) (r_w st1)\<rparr>)"

subsection \<open>One transaction\<close>

definition restore :: "spi1 \<Rightarrow> spi1 \<Rightarrow> spi1" where
  "restore saved st = st\<lparr>r_user := r_user saved, r_user1 := r_user1 saved, r_user2 := r_user2 saved,
     r_ctrl := r_ctrl saved, r_ctrl2 := r_ctrl2 saved, r_clock := r_clock saved\<rparr>"

definition spi_header :: "u8 \<Rightarrow> bool \<Rightarrow> u32 \<Rightarrow> u8 list" where
  "spi_header cmd use_addr addr =
     cmd # (if use_addr then [ucast (drop_bit 16 addr), ucast (drop_bit 8 addr), ucast addr] else [])"

definition spi1_xfer :: "wire_env \<Rightarrow> u8 \<Rightarrow> bool \<Rightarrow> u32 \<Rightarrow> u8 list \<Rightarrow> nat \<Rightarrow> spi1 \<Rightarrow> u8 list option \<times> spi1" where
  "spi1_xfer env cmd use_addr addr tx rxlen st =
     (let data = spi_header cmd use_addr addr @ tx;
          total = length data;
          st1 = st\<lparr>r_clock := FLASH_USER_CLOCK, r_ctrl := r_ctrl st AND NOT CTRL_FREAD_MASK, r_ctrl2 := 0\<rparr>
      in if stuck_before env (bus st1) then (None, restore st st1)
         else
           let st2 = st1\<lparr>r_user2 := 0, r_user1 := 0, r_w := fill_regs (nth data) total (r_w st1),
                         r_mosi_dlen := of_nat total * 8 - 1,
                         r_miso_dlen := (if rxlen \<noteq> 0 then of_nat rxlen * 8 - 1 else 0),
                         r_user := USR_MOSI OR (if rxlen \<noteq> 0 then USR_MISO else 0)\<rparr>;
               st3 = fire env st2
           in if stuck_after env (bus st3) then (None, restore st st3)
              else (Some (List.map (reg_byte (r_w st3)) [0..<rxlen]), restore st st3))"

subsection \<open>Reading, erasing, programming\<close>

text \<open>\<open>None\<close> is a wait that never ends.\<close>

partial_function (option) ready_loop :: "wire_env \<Rightarrow> u8 list list \<Rightarrow> spi1 \<Rightarrow> (bool \<times> spi1) option" where
  "ready_loop env start st =
     (case spi1_xfer env 0x05 False 0 [] 1 st of
        (None, st1) \<Rightarrow> Some (False, st1)
      | (Some rx, st1) \<Rightarrow>
          if hd rx AND 1 = 0 then Some (True, st1)
          else if late env start (bus st1) then Some (False, st1)
          else ready_loop env start st1)"

definition flash_wait_ready :: "wire_env \<Rightarrow> spi1 \<Rightarrow> (bool \<times> spi1) option" where
  "flash_wait_ready env st = ready_loop env (bus st) st"

definition flash_read_id :: "wire_env \<Rightarrow> spi1 \<Rightarrow> u32 \<times> spi1" where
  "flash_read_id env st =
     (case spi1_xfer env 0x9F False 0 [] 3 st of
        (None, st1) \<Rightarrow> (0, st1)
      | (Some rx, st1) \<Rightarrow> (push_bit 16 (ucast (rx ! 0)) OR push_bit 8 (ucast (rx ! 1)) OR ucast (rx ! 2), st1))"

function flash_read :: "wire_env \<Rightarrow> u32 \<Rightarrow> nat \<Rightarrow> spi1 \<Rightarrow> u8 list option \<times> spi1" where
  "flash_read env addr n st =
     (if n = 0 then (Some [], st)
      else
        let chunk = (if n > 64 then 64 else n) in
        case spi1_xfer env 0x03 True addr [] chunk st of
          (None, st1) \<Rightarrow> (None, st1)
        | (Some rx, st1) \<Rightarrow>
            (case flash_read env (addr + of_nat chunk) (n - chunk) st1 of
               (None, st2) \<Rightarrow> (None, st2)
             | (Some out, st2) \<Rightarrow> (Some (rx @ out), st2)))"
  by pat_completeness auto
termination by (relation "measure (\<lambda>(env, addr, n, st). n)") auto

declare flash_read.simps [simp del]

text \<open>A command that changes the chip: write enable, the command itself, and the wait. All three share the pattern of
  \<^verbatim>\<open>flash_erase_sector\<close> and of one chunk of \<^verbatim>\<open>flash_write\<close>.\<close>

definition chip_command :: "wire_env \<Rightarrow> u8 \<Rightarrow> u32 \<Rightarrow> u8 list \<Rightarrow> spi1 \<Rightarrow> (bool \<times> spi1) option" where
  "chip_command env cmd addr tx st =
     (case spi1_xfer env 0x06 False 0 [] 0 st of
        (None, st1) \<Rightarrow> Some (False, st1)
      | (Some _, st1) \<Rightarrow>
          (case spi1_xfer env cmd True addr tx 0 st1 of
             (None, st2) \<Rightarrow> Some (False, st2)
           | (Some _, st2) \<Rightarrow> flash_wait_ready env st2))"

definition flash_erase_sector :: "wire_env \<Rightarrow> u32 \<Rightarrow> spi1 \<Rightarrow> (bool \<times> spi1) option" where
  "flash_erase_sector env addr st =
     (if addr < FLASH_DATA_ADDR then Some (False, st)
      else chip_command env 0x20 (addr AND NOT (FLASH_SECTOR - 1)) [] st)"

definition write_chunk :: "u32 \<Rightarrow> nat \<Rightarrow> nat" where
  "write_chunk addr n =
     (let page_left = 256 - unat (addr AND 255);
          c1 = (if n > page_left then page_left else n)
      in if c1 > 60 then 60 else c1)"

lemma write_chunk_pos: "0 < n \<Longrightarrow> 0 < write_chunk addr n"
proof -
  have "unat (addr AND 255) < 256" using unat_and_mask [of addr 8] by (simp add: mask_numeral)
  then show "0 < n \<Longrightarrow> 0 < write_chunk addr n" by (simp add: write_chunk_def Let_def)
qed

function write_loop :: "wire_env \<Rightarrow> u32 \<Rightarrow> u8 list \<Rightarrow> spi1 \<Rightarrow> (bool \<times> spi1) option" where
  "write_loop env addr data st =
     (if data = [] then Some (True, st)
      else
        let chunk = write_chunk addr (length data) in
        case chip_command env 0x02 addr (take chunk data) st of
          None \<Rightarrow> None
        | Some (False, st1) \<Rightarrow> Some (False, st1)
        | Some (True, st1) \<Rightarrow> write_loop env (addr + of_nat chunk) (drop chunk data) st1)"
  by pat_completeness auto
termination by (relation "measure (\<lambda>(env, addr, data, st). length data)") (auto simp: write_chunk_pos)

declare write_loop.simps [simp del]

definition flash_write :: "wire_env \<Rightarrow> u32 \<Rightarrow> u8 list \<Rightarrow> spi1 \<Rightarrow> (bool \<times> spi1) option" where
  "flash_write env addr data st = (if addr < FLASH_DATA_ADDR then Some (False, st) else write_loop env addr data st)"

subsection \<open>The data registers carry bytes faithfully\<close>

lemma pack_word_eq:
  "pack_word f n w =
     (if 4 * w < n then ucast (f (4 * w)) else 0) OR (if 4 * w + 1 < n then push_bit 8 (ucast (f (4 * w + 1))) else 0)
     OR (if 4 * w + 2 < n then push_bit 16 (ucast (f (4 * w + 2))) else 0) OR (if 4 * w + 3 < n then push_bit 24 (ucast (f (4 * w + 3))) else 0)"
proof -
  have u: "[0..<4 :: nat] = [0, 1, 2, 3]" by code_simp
  show ?thesis by (simp add: pack_word_def u or.assoc)
qed

lemma pack_word_byte:
  assumes "4 * w + k < n" "k < 4"
  shows "(ucast (drop_bit (8 * k) (pack_word f n w)) :: u8) = f (4 * w + k)"
proof (rule bit_word_eqI)
  fix j :: nat assume "j < LENGTH(8)"
  then have j: "j < 8" by simp
  consider "k = 0" | "k = 1" | "k = 2" | "k = 3" using assms(2) by linarith
  then show "bit (ucast (drop_bit (8 * k) (pack_word f n w)) :: u8) j = bit (f (4 * w + k)) j"
    using assms(1) j by cases (auto simp: pack_word_eq bit_simps dest: bit_imp_le_length)
qed

lemma fill_regs_nth:
  assumes "w < length ws"
  shows "fill_regs f n ws ! w = (if w < (n + 3) div 4 then pack_word f n w else ws ! w) \<and> length (fill_regs f n ws) = length ws"
proof -
  have "fold (\<lambda>w r. r[w := pack_word f n w]) [0..<m] ws ! w = (if w < m then pack_word f n w else ws ! w)
      \<and> length (fold (\<lambda>w r. r[w := pack_word f n w]) [0..<m] ws) = length ws" for m
  proof (induction m)
    case (Suc m)
    then show ?case using assms by (cases "m = w") auto
  qed simp
  then show ?thesis by (simp add: fill_regs_def)
qed

lemma reg_byte_fill:
  assumes "n \<le> 64" "length ws = 16" "i < n"
  shows "reg_byte (fill_regs f n ws) i = f i"
proof -
  have w: "i div 4 < 16" "i div 4 < (n + 3) div 4" using assms by auto
  have "fill_regs f n ws ! (i div 4) = pack_word f n (i div 4)" using fill_regs_nth [of "i div 4" ws f n] w assms(2) by simp
  then show ?thesis using pack_word_byte [of "i div 4" "i mod 4" n f] assms(3) by (simp add: reg_byte_def)
qed

lemma length_fill_regs [simp]: "length (fill_regs f n ws) = length ws"
proof -
  have "length (fold (\<lambda>w r. r[w := pack_word f n w]) xs ws) = length ws" for xs
    by (induction xs arbitrary: ws) simp_all
  then show ?thesis by (simp add: fill_regs_def)
qed

text \<open>What one transaction is: when it succeeds, exactly its bytes went out and the answer of the chip came back; a transaction
  that fails sent either nothing or exactly its bytes. Every way out leaves the controller as the cache left it.\<close>

definition same_ctl :: "spi1 \<Rightarrow> spi1 \<Rightarrow> bool" where
  "same_ctl a b \<longleftrightarrow> r_user a = r_user b \<and> r_user1 a = r_user1 b \<and> r_user2 a = r_user2 b \<and> r_ctrl a = r_ctrl b
     \<and> r_ctrl2 a = r_ctrl2 b \<and> r_clock a = r_clock b \<and> length (r_w a) = length (r_w b)"

lemma xfer_spec:
  assumes "length (spi_header cmd ua addr @ tx) \<le> 64" "rxlen \<le> 64" "length (r_w st) = 16" "spi1_xfer env cmd ua addr tx rxlen st = (res, st')"
  shows "same_ctl st' st" "res = None \<longrightarrow> bus st' = bus st \<or> bus st' = bus st @ [spi_header cmd ua addr @ tx]"
    "\<forall>rx. res = Some rx \<longrightarrow> bus st' = bus st @ [spi_header cmd ua addr @ tx] \<and> rx = List.map (reply env (bus st')) [0..<rxlen]"
proof -
  obtain d where d: "spi_header cmd ua addr @ tx = d" by simp
  have bits: "unat (of_nat n * 8 :: u32) div 8 = n" if "n \<le> 64" for n
  proof -
    have "(of_nat n * 8 :: u32) = of_nat (n * 8)" by simp
    moreover have "unat (of_nat (n * 8) :: u32) = n * 8" using that by (intro unat_of_nat_u32) simp
    ultimately show ?thesis by simp
  qed
  have ld: "length d \<le> 64" using assms(1) by (simp only: d)
  have out: "List.map (reg_byte (fill_regs (nth d) (length d) (r_w st))) [0..<length d] = d"
    using ld assms(3) by (intro nth_equalityI) (simp_all add: reg_byte_fill)
  have inp: "List.map (reg_byte (fill_regs f rxlen (fill_regs g m (r_w st)))) [0..<rxlen] = List.map f [0..<rxlen]" for f g m
    using assms(2,3) by (simp add: reg_byte_fill)
  have flags: "(USR_MOSI OR USR_MISO) AND USR_MISO \<noteq> 0" "USR_MOSI AND USR_MISO = 0" "USR_MISO \<noteq> 0"
    by (simp_all add: USR_MOSI_def USR_MISO_def)
  have "same_ctl st' st \<and> (res = None \<longrightarrow> bus st' = bus st \<or> bus st' = bus st @ [d])
    \<and> (\<forall>rx. res = Some rx \<longrightarrow> bus st' = bus st @ [d] \<and> rx = List.map (reply env (bus st')) [0..<rxlen])"
    using assms(4) unfolding spi1_xfer_def d Let_def
    by (auto simp: restore_def same_ctl_def fire_def Let_def bits [OF ld] bits [OF assms(2)] out inp flags simp del: map_eq_conv split: if_splits)
  then show "same_ctl st' st" "res = None \<longrightarrow> bus st' = bus st \<or> bus st' = bus st @ [spi_header cmd ua addr @ tx]"
    "\<forall>rx. res = Some rx \<longrightarrow> bus st' = bus st @ [spi_header cmd ua addr @ tx] \<and> rx = List.map (reply env (bus st')) [0..<rxlen]"
    unfolding d by blast+
qed

subsection \<open>A chip\<close>

text \<open>The part of a NOR chip's data sheet the driver relies on: write enable arms one command; a page program can only clear
  bits and wraps inside its page of 256 bytes; an erase sets a sector of 4096 bytes; the address has 24 bits.\<close>

record nor =
  armed :: bool
  cells :: memory

definition addr24 :: "u8 \<Rightarrow> u8 \<Rightarrow> u8 \<Rightarrow> u32" where
  "addr24 a2 a1 a0 = push_bit 16 (ucast a2) OR push_bit 8 (ucast a1) OR ucast a0"

fun page_program :: "u32 \<Rightarrow> u32 \<Rightarrow> u8 list \<Rightarrow> memory \<Rightarrow> memory" where
  "page_program page off [] m = m"
| "page_program page off (b # bs) m = page_program page ((off + 1) AND 255) bs (m(page + off := m (page + off) AND b))"

fun nor_step :: "u8 list \<Rightarrow> nor \<Rightarrow> nor" where
  "nor_step (c # a2 # a1 # a0 # data) n =
     (if c = 0x02 \<and> armed n then
        n\<lparr>armed := False, cells := page_program (addr24 a2 a1 a0 AND NOT 255) (addr24 a2 a1 a0 AND 255) data (cells n)\<rparr>
      else if c = 0x20 \<and> armed n then
        n\<lparr>armed := False, cells := (\<lambda>x. if x AND NOT 4095 = addr24 a2 a1 a0 AND NOT 4095 then 0xFF else cells n x)\<rparr>
      else n)"
| "nor_step [c] n = (if c = 0x06 then n\<lparr>armed := True\<rparr> else n)"
| "nor_step s n = n"

definition nor_run :: "u8 list list \<Rightarrow> nor \<Rightarrow> nor" where
  "nor_run ss n = fold nor_step ss n"

lemma nor_run_append [simp]: "nor_run (xs @ ys) n = nor_run ys (nor_run xs n)"
  by (simp add: nor_run_def)

lemma nor_run_simps [simp]: "nor_run [] n = n" "nor_run (s # ss) n = nor_run ss (nor_step s n)"
  by (simp_all add: nor_run_def)

lemma nor_polls: "set ss \<subseteq> {[5]} \<Longrightarrow> nor_run ss n = n"
  by (induction ss arbitrary: n) auto

lemma addr24_header: "addr24 (ucast (drop_bit 16 (a :: u32))) (ucast (drop_bit 8 a)) (ucast a) = a AND 0xFFFFFF"
proof (rule bit_word_eqI)
  fix n :: nat assume "n < LENGTH(32)"
  have m: "(0xFFFFFF :: u32) = mask 24" by (simp add: mask_numeral)
  show "bit (addr24 (ucast (drop_bit 16 a)) (ucast (drop_bit 8 a)) (ucast a)) n = bit (a AND 0xFFFFFF) n"
  proof -
    consider "n < 8" | "8 \<le> n" "n < 16" | "16 \<le> n" "n < 24" | "24 \<le> n" by linarith
    then show ?thesis unfolding m by cases (auto simp: addr24_def bit_simps)
  qed
qed

lemma nor_step_header:
  "nor_step (spi_header c True a @ data) n =
     (if c = 0x02 \<and> armed n then
        n\<lparr>armed := False, cells := page_program ((a AND 0xFFFFFF) AND NOT 255) ((a AND 0xFFFFFF) AND 255) data (cells n)\<rparr>
      else if c = 0x20 \<and> armed n then
        n\<lparr>armed := False, cells := (\<lambda>x. if x AND NOT 4095 = (a AND 0xFFFFFF) AND NOT 4095 then 0xFF else cells n x)\<rparr>
      else n)"
  by (simp only: spi_header_def if_True append_Cons append_Nil nor_step.simps addr24_header)

text \<open>Programming without a wrap: every byte is ANDed into its cell.\<close>

fun and_bytes :: "memory \<Rightarrow> u32 \<Rightarrow> u8 list \<Rightarrow> memory" where
  "and_bytes m a [] = m"
| "and_bytes m a (b # bs) = and_bytes (m(a := m a AND b)) (a + 1) bs"

lemma and_bytes_append: "and_bytes m a (xs @ ys) = and_bytes (and_bytes m a xs) (a + of_nat (length xs)) ys"
proof (induction xs arbitrary: m a)
  case (Cons x xs)
  show ?case by (simp only: append_Cons and_bytes.simps Cons.IH) (simp add: add.assoc del: fun_upd_apply)
qed simp

lemma and_bytes_apply:
  "length bs \<le> 4294967296 \<Longrightarrow> and_bytes m a bs x = (if unat (x - a) < length bs then m x AND bs ! unat (x - a) else m x)"
proof (induction bs arbitrary: m a)
  case (Cons b bs)
  show ?case
  proof (cases "x = a")
    case True
    have "unat (a - (a + 1)) = 4294967295" by (simp add: unsigned_minus_1_eq_mask mask_eq_exp_minus_1)
    with Cons True show ?thesis by simp
  next
    case False
    then have "0 < unat (x - a)" by (simp add: unat_gt_0)
    with Cons False unat_diff_Suc [OF False] show ?thesis by (auto simp: nth_Cons')
  qed
qed simp

lemma page_program_straight:
  "unat off + length bs \<le> 256 \<Longrightarrow> page_program page off bs m = and_bytes m (page + off) bs"
proof (induction bs arbitrary: off m)
  case (Cons b bs)
  show ?case
  proof (cases bs)
    case (Cons c cs)
    then have o: "unat (off + 1) = unat off + 1" "unat off + 1 < 256" using Cons.prems by (simp_all add: unat_add_u32)
    have "(off + 1) AND 255 = off + 1"
    proof (rule unsigned_word_eqI)
      show "unat ((off + 1) AND 255) = unat (off + 1)" using unat_and_mask [of "off + 1" 8] o by (simp add: mask_numeral)
    qed
    then show ?thesis using Cons.IH [of "off + 1"] Cons.prems o by (simp add: algebra_simps)
  qed simp
qed simp

subsection \<open>What the driver sends\<close>

lemma ready_loop_spec:
  assumes "ready_loop env start st = Some (ok, st')" "length (r_w st) = 16"
  shows "\<exists>ss. bus st' = bus st @ ss \<and> set ss \<subseteq> {[5]} \<and> same_ctl st' st"
proof -
  have "length (r_w st) = 16 \<longrightarrow> (\<exists>ss. bus (snd r) = bus st @ ss \<and> set ss \<subseteq> {[5]} \<and> same_ctl (snd r) st)"
    if "ready_loop env start st = Some r" for r
  proof (rule ready_loop.raw_induct [OF _ that], goal_cases)
    case (1 wl env start st r)
    show ?case
    proof
      assume w: "length (r_w st) = 16"
      obtain res st1 where x: "spi1_xfer env 5 False 0 [] 1 st = (res, st1)" by (rule prod.exhaust)
      have "length (spi_header 5 False 0 @ []) \<le> 64" "(1 :: nat) \<le> 64" by (simp_all add: spi_header_def)
      note X = xfer_spec [OF this w x]
      have h: "spi_header 5 False 0 @ [] = [5]" by (simp add: spi_header_def)
      have w1: "length (r_w st1) = 16" using X(1) w by (simp add: same_ctl_def)
      have one: "\<exists>ss. bus st1 = bus st @ ss \<and> set ss \<subseteq> {[5]}"
        using X(2,3) unfolding h by (cases res) (auto intro: exI [of _ "[]"] exI [of _ "[[5]]"])
      show "\<exists>ss. bus (snd r) = bus st @ ss \<and> set ss \<subseteq> {[5]} \<and> same_ctl (snd r) st"
      proof (cases "wl env start st1 = Some r")
        case True
        with 1(1) w1 obtain ss where "bus (snd r) = bus st1 @ ss" "set ss \<subseteq> {[5]}" "same_ctl (snd r) st1" by blast
        moreover from one obtain ss' where "bus st1 = bus st @ ss'" "set ss' \<subseteq> {[5]}" by blast
        ultimately show ?thesis using X(1) by (intro exI [of _ "ss' @ ss"]) (auto simp: same_ctl_def)
      next
        case False
        then have "snd r = st1" using 1(2) by (auto simp: x simp del: One_nat_def split: option.splits if_splits)
        with one X(1) show ?thesis by auto
      qed
    qed
  qed
  from this [OF assms(1)] assms(2) show ?thesis by simp
qed

lemma chip_command_spec:
  assumes "chip_command env cmd addr tx st = Some (ok, st')" "length tx \<le> 60" "length (r_w st) = 16"
  shows "\<exists>ss. bus st' = bus st @ ss \<and> set ss \<subseteq> {[5], [6], spi_header cmd True addr @ tx} \<and> same_ctl st' st
    \<and> (ok \<longrightarrow> (\<exists>polls. ss = [6] # (spi_header cmd True addr @ tx) # polls \<and> set polls \<subseteq> {[5]}))"
proof -
  obtain r1 s1 where x1: "spi1_xfer env 6 False 0 [] 0 st = (r1, s1)" by (rule prod.exhaust)
  have l1: "length (spi_header 6 False 0 @ []) \<le> 64" "(0 :: nat) \<le> 64" by (simp_all add: spi_header_def)
  have h1: "spi_header 6 False 0 @ [] = [6]" by (simp add: spi_header_def)
  note X1 = xfer_spec [OF l1 assms(3) x1, unfolded h1]
  show ?thesis
  proof (cases r1)
    case None
    then have "ok = False" "st' = s1" using assms(1) x1 by (auto simp: chip_command_def)
    then show ?thesis using X1 None by auto
  next
    case (Some a)
    obtain r2 s2 where x2: "spi1_xfer env cmd True addr tx 0 s1 = (r2, s2)" by (rule prod.exhaust)
    have w1: "length (r_w s1) = 16" using X1(1) assms(3) by (simp add: same_ctl_def)
    have l2: "length (spi_header cmd True addr @ tx) \<le> 64" using assms(2) by (simp add: spi_header_def)
    note X2 = xfer_spec [OF l2 l1(2) w1 x2]
    have b1: "bus s1 = bus st @ [[6]]" using X1(3) Some by blast
    show ?thesis
    proof (cases r2)
      case None
      then have e: "ok = False" "st' = s2" using assms(1) x1 x2 Some by (auto simp: chip_command_def)
      from X2(2) None have "bus s2 = bus s1 \<or> bus s2 = bus s1 @ [spi_header cmd True addr @ tx]" by blast
      then show ?thesis using X1(1) X2(1) b1 e by (auto simp: same_ctl_def)
    next
      case (Some a')
      have b2: "bus s2 = bus s1 @ [spi_header cmd True addr @ tx]" using X2(3) Some by blast
      have "ready_loop env (bus s2) s2 = Some (ok, st')"
        using assms(1) x1 x2 Some \<open>r1 = Some a\<close> by (simp add: chip_command_def flash_wait_ready_def)
      moreover have "length (r_w s2) = 16" using X2(1) w1 by (simp add: same_ctl_def)
      ultimately obtain ss where "bus st' = bus s2 @ ss" "set ss \<subseteq> {[5]}" "same_ctl st' s2" using ready_loop_spec by blast
      then show ?thesis using b1 b2 X1(1) X2(1)
        by (intro exI [of _ "[6] # (spi_header cmd True addr @ tx) # ss"]) (auto simp: same_ctl_def)
    qed
  qed
qed

lemma flash_write_data:
  assumes "write_loop env addr data st = Some (ok, st')" "length (r_w st) = 16" "unat addr + length data \<le> 16777216"
  shows "\<exists>ss. bus st' = bus st @ ss \<and> same_ctl st' st
    \<and> (\<forall>n x. x < addr \<longrightarrow> cells (nor_run ss n) x = cells n x)
    \<and> (ok \<longrightarrow> (\<forall>n. cells (nor_run ss n) = and_bytes (cells n) addr data))"
  using assms
proof (induction env addr data st rule: write_loop.induct)
  case (1 env addr data st)
  show ?case
  proof (cases "data = []")
    case True
    then show ?thesis using "1.prems" by (intro exI [of _ "[]"]) (simp add: write_loop.simps same_ctl_def)
  next
    case False
    define k where "k = write_chunk addr (length data)"
    define X where "X = spi_header 2 True addr @ take k data"
    have pl: "unat (addr AND 255) < 256" using unat_and_mask [of addr 8] by (simp add: mask_numeral)
    have k: "0 < k" "k \<le> 60" "k \<le> length data" "unat (addr AND 255) + k \<le> 256"
      using False write_chunk_pos [of "length data" addr] pl by (auto simp: k_def write_chunk_def Let_def)
    have eq: "(case chip_command env 2 addr (take k data) st of None \<Rightarrow> None | Some (False, st1) \<Rightarrow> Some (False, st1)
        | Some (True, st1) \<Rightarrow> write_loop env (addr + of_nat k) (drop k data) st1) = Some (ok, st')"
      using "1.prems"(1) False unfolding write_loop.simps [of env addr data st] Let_def k_def by simp
    obtain ok1 st1 where c: "chip_command env 2 addr (take k data) st = Some (ok1, st1)"
      using eq by (cases "chip_command env 2 addr (take k data) st") auto
    have rest: "ok1 \<Longrightarrow> write_loop env (addr + of_nat k) (drop k data) st1 = Some (ok, st')" "\<not> ok1 \<Longrightarrow> (ok, st') = (False, st1)"
      using eq by (auto simp: c)
    obtain ss where ss: "bus st1 = bus st @ ss" "set ss \<subseteq> {[5], [6], X}" "same_ctl st1 st"
      "ok1 \<longrightarrow> (\<exists>polls. ss = [6] # X # polls \<and> set polls \<subseteq> {[5]})"
      using chip_command_spec [OF c _ "1.prems"(2)] k(2) unfolding X_def by (metis length_take min.coboundedI2)
    have a24: "addr AND 0xFFFFFF = addr"
    proof (rule unsigned_word_eqI)
      have "unat addr < 16777216" using "1.prems"(3) False by (cases data) auto
      then show "unat (addr AND 0xFFFFFF) = unat addr" using unat_and_mask [of addr 24] by (simp add: mask_numeral)
    qed
    have page: "page_program (addr AND NOT 255) (addr AND 255) (take k data) m = and_bytes m addr (take k data)" for m
      using page_program_straight [of "addr AND 255" "take k data" "addr AND NOT 255" m] k(3,4) and_plus_and_not [of addr 255]
      by (simp add: add.commute)
    have X: "nor_step X n = (if armed n then n\<lparr>armed := False, cells := and_bytes (cells n) addr (take k data)\<rparr> else n)" for n
      unfolding X_def nor_step_header a24 page by simp
    have low: "x < addr \<Longrightarrow> cells (nor_step X n) x = cells n x" for n x
    proof -
      assume x: "x < addr"
      have u: "unat (x - addr) = unat x + 4294967296 - unat addr" using x by (simp add: unat_sub_if' word_less_nat_alt)
      have "unat addr \<le> 16777216" using "1.prems"(3) by linarith
      then have "\<not> unat (x - addr) < length (take k data)" unfolding u length_take using k(2) by linarith
      then show ?thesis using k(2) by (auto simp: X and_bytes_apply)
    qed
    have lows: "set ts \<subseteq> {[5], [6], X} \<Longrightarrow> x < addr \<Longrightarrow> cells (nor_run ts n) x = cells n x" for ts n x
      by (induction ts arbitrary: n) (auto simp: low)
    show ?thesis
    proof (cases ok1)
      case False
      then show ?thesis using rest(2) ss lows by auto
    next
      case True
      have w1: "length (r_w st1) = 16" using ss(3) "1.prems"(2) by (simp add: same_ctl_def)
      have ua: "unat (addr + of_nat k) = unat addr + k" using "1.prems"(3) k(3) by (simp add: unat_add_u32 unat_of_nat)
      then have le: "unat (addr + of_nat k) + length (drop k data) \<le> 16777216" using "1.prems"(3) k(3) by simp
      have t: "ok1 = True" using True by simp
      from "1.IH" [OF False refl, folded k_def, OF c refl t rest(1) [OF True] w1 le]
      obtain ts where ts: "bus st' = bus st1 @ ts" "same_ctl st' st1"
        "\<forall>n x. x < addr + of_nat k \<longrightarrow> cells (nor_run ts n) x = cells n x"
        "ok \<longrightarrow> (\<forall>n. cells (nor_run ts n) = and_bytes (cells n) (addr + of_nat k) (drop k data))" by auto
      from ss(4) True obtain polls where p: "ss = [6] # X # polls" "set polls \<subseteq> {[5]}" by blast
      have s: "cells (nor_run ss n) = and_bytes (cells n) addr (take k data)" for n
        using nor_polls [OF p(2)] by (simp add: p(1) X)
      have ab: "and_bytes m addr data = and_bytes (and_bytes m addr (take k data)) (addr + of_nat k) (drop k data)" for m
        using and_bytes_append [of m addr "take k data" "drop k data"] k(3) by simp
      have mono: "x < addr \<Longrightarrow> x < addr + of_nat k" for x using ua by (simp add: word_less_nat_alt)
      show ?thesis
      proof (intro exI [of _ "ss @ ts"] conjI allI impI)
        show "bus st' = bus st @ ss @ ts" "same_ctl st' st" using ss(1,3) ts(1,2) by (auto simp: same_ctl_def)
        show "cells (nor_run (ss @ ts) n) x = cells n x" if "x < addr" for n x
          using ts(3) mono [OF that] lows [OF ss(2) that] by simp
        show "cells (nor_run (ss @ ts) n) = and_bytes (cells n) addr data" if ok for n
          using ts(4) that by (simp add: s ab)
      qed
    qed
  qed
qed

lemma erase_data:
  assumes "flash_erase_sector env addr st = Some (ok, st')" "length (r_w st) = 16" "unat addr < 16777216"
  shows "\<exists>ss. bus st' = bus st @ ss \<and> same_ctl st' st
    \<and> (\<forall>n x. x AND NOT 4095 \<noteq> addr AND NOT 4095 \<longrightarrow> cells (nor_run ss n) x = cells n x)
    \<and> (addr < FLASH_DATA_ADDR \<longrightarrow> \<not> ok \<and> ss = [])
    \<and> (ok \<longrightarrow> (\<forall>n. cells (nor_run ss n) = (\<lambda>x. if x AND NOT 4095 = addr AND NOT 4095 then 0xFF else cells n x)))"
proof (cases "addr < FLASH_DATA_ADDR")
  case True
  then show ?thesis using assms(1) by (intro exI [of _ "[]"]) (simp add: flash_erase_sector_def same_ctl_def)
next
  case False
  let ?a = "addr AND NOT 4095"
  have c: "chip_command env 0x20 ?a [] st = Some (ok, st')" using assms(1) False by (simp add: flash_erase_sector_def)
  have "unat (addr AND NOT (mask 12)) \<le> unat addr" by (subst unat_and_not_mask) simp
  then have "unat ?a < 16777216" using assms(3) by (simp add: mask_numeral)
  then have a24: "?a AND 0xFFFFFF = ?a"
    by (intro unsigned_word_eqI) (use unat_and_mask [of ?a 24] in \<open>simp add: mask_numeral\<close>)
  define X where "X = spi_header 0x20 True ?a @ []"
  obtain ss where ss: "bus st' = bus st @ ss" "set ss \<subseteq> {[5], [6], X}" "same_ctl st' st"
    "ok \<longrightarrow> (\<exists>polls. ss = [6] # X # polls \<and> set polls \<subseteq> {[5]})"
    using chip_command_spec [OF c _ assms(2)] unfolding X_def by (metis list.size(3) zero_le)
  have X: "nor_step X n = (if armed n then n\<lparr>armed := False, cells := (\<lambda>x. if x AND NOT 4095 = ?a then 0xFF else cells n x)\<rparr> else n)" for n
    unfolding X_def nor_step_header a24 by (simp add: and.assoc)
  have "set ts \<subseteq> {[5], [6], X} \<Longrightarrow> x AND NOT 4095 \<noteq> ?a \<Longrightarrow> cells (nor_run ts n) x = cells n x" for ts n x
    by (induction ts arbitrary: n) (auto simp: X)
  moreover have "cells (nor_run ss n) = (\<lambda>x. if x AND NOT 4095 = ?a then 0xFF else cells n x)" if ok for n
    using ss(4) that nor_polls by (auto simp: X)
  ultimately show ?thesis using ss(1,2,3) False by blast
qed

subsection \<open>Theorems\<close>

text \<open>
  Programming (C30): whatever the chip answers on the way, a write that reports success has sent the chip exactly the
  page programs that AND the caller's bytes into the range asked for, no byte missed and none wrapped inside its page, and
  nothing else.
\<close>

theorem flash_write_programs:
  assumes "flash_write env addr data st = Some (True, st')" "length (r_w st) = 16" "unat addr + length data \<le> 16777216"
  shows "\<exists>ss. bus st' = bus st @ ss \<and> (\<forall>n x. cells (nor_run ss n) x =
    (if unat (x - addr) < length data then cells n x AND data ! unat (x - addr) else cells n x))"
proof -
  have w: "write_loop env addr data st = Some (True, st')" using assms(1) by (simp add: flash_write_def split: if_splits)
  have l: "length data \<le> 4294967296" using assms(3) by simp
  from flash_write_data [OF w assms(2,3)] show ?thesis by (auto simp: and_bytes_apply [OF l])
qed

text \<open>Erases and writes in any order, whether each of them succeeds or not. The wire carries 24 bits of an address; \<open>in_chip\<close> are the ranges
  it can name.\<close>

datatype flash_op = Op_erase u32 | Op_write u32 "u8 list"

fun flash_apply :: "wire_env \<Rightarrow> flash_op \<Rightarrow> spi1 \<Rightarrow> (bool \<times> spi1) option" where
  "flash_apply env (Op_erase a) st = flash_erase_sector env a st"
| "flash_apply env (Op_write a data) st = flash_write env a data st"

fun flash_ops :: "wire_env \<Rightarrow> flash_op list \<Rightarrow> spi1 \<Rightarrow> spi1 option" where
  "flash_ops env [] st = Some st"
| "flash_ops env (p # ps) st = (case flash_apply env p st of None \<Rightarrow> None | Some (_, st1) \<Rightarrow> flash_ops env ps st1)"

fun in_chip :: "flash_op \<Rightarrow> bool" where
  "in_chip (Op_erase a) = (unat a < 16777216)"
| "in_chip (Op_write a data) = (unat a + length data \<le> 16777216)"

lemma low_sector:
  assumes "x < FLASH_DATA_ADDR" "FLASH_DATA_ADDR \<le> a"
  shows "x AND NOT 4095 \<noteq> a AND NOT 4095"
proof
  assume eq: "x AND NOT 4095 = a AND NOT 4095"
  have s: "drop_bit 21 (v AND NOT 4095) = drop_bit 21 v" for v :: u32
  proof -
    have m: "(4095 :: u32) = mask 12" by (simp add: mask_numeral)
    show ?thesis unfolding m by (intro bit_word_eqI) (auto simp: bit_simps dest: bit_imp_le_length)
  qed
  have "drop_bit 21 x = drop_bit 21 a" using eq s by metis
  moreover have "unat x < 2097152" "2097152 \<le> unat a" using assms by (simp_all add: word_less_nat_alt word_le_nat_alt)
  then have "unat (drop_bit 21 x) = 0" "0 < unat (drop_bit 21 a)"
    by (simp_all add: drop_bit_eq_div unat_div div_greater_zero_iff)
  ultimately show False by simp
qed

lemma flash_apply_low:
  assumes "flash_apply env p st = Some (ok, st')" "length (r_w st) = 16" "in_chip p" "x < FLASH_DATA_ADDR"
  shows "\<exists>ss. bus st' = bus st @ ss \<and> length (r_w st') = 16 \<and> (\<forall>n. cells (nor_run ss n) x = cells n x)"
proof (cases p)
  case (Op_erase a)
  then obtain ss where e: "bus st' = bus st @ ss" "same_ctl st' st" "\<forall>n x. x AND NOT 4095 \<noteq> a AND NOT 4095 \<longrightarrow> cells (nor_run ss n) x = cells n x"
    "a < FLASH_DATA_ADDR \<longrightarrow> ss = []" using erase_data [of env a st ok st'] assms(1-3) by auto
  have "cells (nor_run ss n) x = cells n x" for n
    using e(3,4) low_sector [OF assms(4), of a] by (cases "a < FLASH_DATA_ADDR") (auto simp: not_less)
  then show ?thesis using e(1,2) assms(2) by (auto simp: same_ctl_def)
next
  case (Op_write b data)
  show ?thesis
  proof (cases "b < FLASH_DATA_ADDR")
    case True
    then have "st' = st" using assms(1) Op_write by (simp add: flash_write_def)
    then show ?thesis using assms(2) by (intro exI [of _ "[]"]) simp
  next
    case False
    then have w: "write_loop env b data st = Some (ok, st')" using assms(1) Op_write by (simp add: flash_write_def)
    have "unat b + length data \<le> 16777216" "x < b" using assms(3,4) Op_write False by simp_all
    with flash_write_data [OF w assms(2)] show ?thesis using assms(2) by (auto simp: same_ctl_def)
  qed
qed

text \<open>
  The kernel image is out of reach (C32): no sequence of erases and writes, successful or not, whose ranges lie in the 16 MB a 24-bit address names
  changes a byte below the data region. For a range past them see \<open>flash_guard_wraps\<close>.
\<close>

theorem flash_low_protected:
  assumes "flash_ops env ops st = Some st'" "length (r_w st) = 16" "\<forall>p \<in> set ops. in_chip p" "x < FLASH_DATA_ADDR"
  shows "\<exists>ss. bus st' = bus st @ ss \<and> (\<forall>n. cells (nor_run ss n) x = cells n x)"
  using assms(1-3)
proof (induction ops arbitrary: st)
  case (Cons p ps)
  obtain ok st1 where p: "flash_apply env p st = Some (ok, st1)" "flash_ops env ps st1 = Some st'"
    using Cons.prems(1) by (auto split: option.splits)
  have "in_chip p" using Cons.prems(3) by simp
  from flash_apply_low [OF p(1) Cons.prems(2) this assms(4)]
  obtain ss where s: "bus st1 = bus st @ ss" "length (r_w st1) = 16" "\<forall>n. cells (nor_run ss n) x = cells n x" by blast
  obtain ts where "bus st' = bus st1 @ ts" "\<forall>n. cells (nor_run ts n) x = cells n x"
    using Cons.IH [OF p(2) s(2)] Cons.prems(3) by auto
  then show ?case using s by (intro exI [of _ "ss @ ts"]) simp
qed simp

text \<open>Reading takes its bytes from the answers; the data registers hold a whole answer of at most 64 bytes.\<close>

lemma flash_read_spec:
  assumes "flash_read env addr n st = (res, st')" "length (r_w st) = 16"
  shows "same_ctl st' st \<and> (\<forall>out. res = Some out \<longrightarrow> length out = n \<and>
    (\<forall>mem. unat addr + n \<le> 16777216 \<longrightarrow> (\<forall>h a i. unat a + i < 16777216 \<longrightarrow> reply env (h @ [spi_header 0x03 True a]) i = mem (a + of_nat i)) \<longrightarrow>
       out = load_bytes mem addr n))"
  using assms
proof (induction env addr n st arbitrary: res st' rule: flash_read.induct)
  case (1 env addr n st)
  show ?case
  proof (cases "n = 0")
    case True
    then show ?thesis using "1.prems" by (auto simp: flash_read.simps same_ctl_def)
  next
    case False
    define k where "k = (if n > 64 then 64 else n)"
    have k: "0 < k" "k \<le> 64" "k \<le> n" using False by (auto simp: k_def)
    obtain r1 st1 where x: "spi1_xfer env 0x03 True addr [] k st = (r1, st1)" by (rule prod.exhaust)
    have "length (spi_header 0x03 True addr @ []) \<le> 64" by (simp add: spi_header_def)
    note X = xfer_spec [OF this k(2) "1.prems"(2) x, simplified append_Nil2]
    have w1: "length (r_w st1) = 16" using X(1) "1.prems"(2) by (simp add: same_ctl_def)
    have eq: "(case r1 of None \<Rightarrow> (None, st1) | Some rx \<Rightarrow>
         (case flash_read env (addr + of_nat k) (n - k) st1 of (None, st2) \<Rightarrow> (None, st2) | (Some out, st2) \<Rightarrow> (Some (rx @ out), st2))) = (res, st')"
      using "1.prems"(1) False unfolding flash_read.simps [of env addr n st] Let_def k_def [symmetric] x prod.case by simp
    show ?thesis
    proof (cases r1)
      case None
      then show ?thesis using eq X(1) by auto
    next
      case (Some rx)
      obtain r2 st2 where r: "flash_read env (addr + of_nat k) (n - k) st1 = (r2, st2)" by (rule prod.exhaust)
      from "1.IH" [OF False refl, folded k_def, OF x [symmetric] Some r w1]
      have ih: "same_ctl st2 st1" "\<And>out. r2 = Some out \<Longrightarrow> length out = n - k"
        "\<And>out mem. r2 = Some out \<Longrightarrow> unat (addr + of_nat k) + (n - k) \<le> 16777216 \<Longrightarrow> (\<forall>h a i. unat a + i < 16777216 \<longrightarrow> reply env (h @ [spi_header 0x03 True a]) i = mem (a + of_nat i)) \<Longrightarrow>
           out = load_bytes mem (addr + of_nat k) (n - k)" by blast+
      have rx: "rx = List.map (reply env (bus st @ [spi_header 0x03 True addr])) [0..<k]" using X(3) Some by auto
      have st': "st' = st2" "res = map_option (\<lambda>out. rx @ out) r2" using eq Some r by (auto split: option.splits)
      have split: "load_bytes mem addr n = load_bytes mem addr k @ load_bytes mem (addr + of_nat k) (n - k)" for mem
        using k(3) by (intro nth_equalityI) (auto simp: nth_append load_bytes_nth of_nat_diff)
      have "rx = load_bytes mem addr k" if "unat addr + n \<le> 16777216"
          "\<forall>h a i. unat a + i < 16777216 \<longrightarrow> reply env (h @ [spi_header 0x03 True a]) i = mem (a + of_nat i)" for mem
        using that k(3) by (intro nth_equalityI) (simp_all add: rx load_bytes_nth)
      moreover have "unat (addr + of_nat k) + (n - k) \<le> 16777216" if "unat addr + n \<le> 16777216"
        using that k(3) by (subst unat_add_u32) (simp_all add: unat_of_nat)
      ultimately show ?thesis using ih st' split X(1) k(3) rx by (auto simp: same_ctl_def)
    qed
  qed
qed

lemma write_ctl:
  assumes "write_loop env addr data st = Some (ok, st')" "length (r_w st) = 16"
  shows "same_ctl st' st"
  using assms
proof (induction env addr data st rule: write_loop.induct)
  case (1 env addr data st)
  show ?case
  proof (cases "data = []")
    case True
    then show ?thesis using "1.prems" by (simp add: write_loop.simps same_ctl_def)
  next
    case False
    define k where "k = write_chunk addr (length data)"
    have k: "length (take k data) \<le> 60" by (simp add: k_def write_chunk_def Let_def)
    have eq: "(case chip_command env 2 addr (take k data) st of None \<Rightarrow> None | Some (False, st1) \<Rightarrow> Some (False, st1)
        | Some (True, st1) \<Rightarrow> write_loop env (addr + of_nat k) (drop k data) st1) = Some (ok, st')"
      using "1.prems"(1) False unfolding write_loop.simps [of env addr data st] Let_def k_def by simp
    obtain ok1 st1 where c: "chip_command env 2 addr (take k data) st = Some (ok1, st1)"
      using eq by (cases "chip_command env 2 addr (take k data) st") auto
    have s1: "same_ctl st1 st" using chip_command_spec [OF c k "1.prems"(2)] by blast
    then have w1: "length (r_w st1) = 16" using "1.prems"(2) by (simp add: same_ctl_def)
    show ?thesis
    proof (cases ok1)
      case True
      then have t: "ok1 = True" by simp
      have r: "write_loop env (addr + of_nat k) (drop k data) st1 = Some (ok, st')" using eq t by (simp add: c)
      from "1.IH" [OF False refl, folded k_def, OF c refl t r w1] s1 show ?thesis by (simp add: same_ctl_def)
    next
      case False
      then show ?thesis using eq s1 by (simp add: c)
    qed
  qed
qed

text \<open>
  The bus goes back to the cache: every driver call, on every way out, leaves the six controller registers the
  instruction cache depends on as it found them.
\<close>

theorem flash_regs_restored:
  assumes "length (r_w st) = 16"
  shows "same_ctl (snd (flash_read env a n st)) st \<and> same_ctl (snd (flash_read_id env st)) st
    \<and> (\<forall>ok st'. flash_erase_sector env a st = Some (ok, st') \<longrightarrow> same_ctl st' st)
    \<and> (\<forall>ok st'. flash_write env a data st = Some (ok, st') \<longrightarrow> same_ctl st' st)"
proof (intro conjI allI impI)
  show "same_ctl (snd (flash_read env a n st)) st"
    using flash_read_spec [OF _ assms, of env a n] by (cases "flash_read env a n st") auto
  obtain r s where x: "spi1_xfer env 0x9F False 0 [] 3 st = (r, s)" by (rule prod.exhaust)
  have "length (spi_header 0x9F False 0 @ []) \<le> 64" "(3 :: nat) \<le> 64" by (simp_all add: spi_header_def)
  from xfer_spec(1) [OF this assms x] show "same_ctl (snd (flash_read_id env st)) st"
    by (simp add: flash_read_id_def x split: option.splits)
next
  fix ok st' assume "flash_erase_sector env a st = Some (ok, st')"
  then consider "st' = st" | "chip_command env 0x20 (a AND NOT 4095) [] st = Some (ok, st')"
    unfolding flash_erase_sector_def by (auto split: if_splits)
  then have "same_ctl st' st"
  proof cases
    case 2
    from chip_command_spec [OF this _ assms] show ?thesis by auto
  qed (simp add: same_ctl_def)
  then show "same_ctl st' st" by (auto simp: same_ctl_def)
next
  fix ok st' assume "flash_write env a data st = Some (ok, st')"
  then show "same_ctl st' st"
    using write_ctl [of env a data st ok st'] assms by (auto simp: flash_write_def same_ctl_def split: if_splits)
qed

text \<open>
  Save and load (C31): after an erase and a write that both report success, reading the range back, from a chip that answers a
  read with its cells, returns the bytes that were written, when the range does not leave the erased sector.
\<close>

theorem flash_roundtrip:
  assumes "flash_erase_sector env addr st = Some (True, st1)" "flash_write env addr data st1 = Some (True, st2)"
    and "flash_read env addr (length data) st2 = (Some out, st3)" "length (r_w st) = 16"
    and "unat (addr AND 4095) + length data \<le> 4096" "unat addr + length data \<le> 16777216" "unat addr < 16777216"
    and "\<And>h a i. unat a + i < 16777216 \<Longrightarrow> reply env (h @ [spi_header 0x03 True a]) i = cells (nor_run (bus st2) n) (a + of_nat i)"
  shows "out = data"
proof -
  obtain ss where e: "bus st1 = bus st @ ss" "same_ctl st1 st"
    "cells (nor_run ss m) = (\<lambda>x. if x AND NOT 4095 = addr AND NOT 4095 then 0xFF else cells m x)" for m
    using erase_data [OF assms(1,4,7)] by blast
  have w1: "length (r_w st1) = 16" using e(2) assms(4) by (simp add: same_ctl_def)
  have l: "length data \<le> 4096" using assms(5) by simp
  obtain ts where t: "bus st2 = bus st1 @ ts" "\<And>m x. cells (nor_run ts m) x =
      (if unat (x - addr) < length data then cells m x AND data ! unat (x - addr) else cells m x)"
    using flash_write_programs [OF assms(2) w1 assms(6)] by blast
  have w2: "length (r_w st2) = 16"
    using write_ctl [of env addr data st1 True st2] assms(2) w1 by (simp add: flash_write_def same_ctl_def split: if_splits)
  have out: "out = load_bytes (cells (nor_run (bus st2) n)) addr (length data)"
    using flash_read_spec [OF assms(3) w2] assms(6,8) by blast
  have "cells (nor_run (bus st2) n) (addr + of_nat i) = data ! i" if i: "i < length data" for i
  proof -
    have ui: "unat (of_nat i :: u32) = i" using i l by (simp add: unat_of_nat)
    have sector: "(addr + of_nat i) AND NOT 4095 = addr AND NOT 4095"
    proof -
      define q where "q = (addr AND 4095) + of_nat i"
      have q: "unat q = unat (addr AND 4095) + i" using i assms(5) ui by (simp add: q_def unat_add_u32)
      then have "unat (q AND 4095) = unat q"
        using unat_and_mask [of q 12] assms(5) i by (simp add: mask_numeral)
      then have qq: "q AND 4095 = q" by (rule unsigned_word_eqI)
      then have "(addr AND NOT 4095) AND q = 0" by (metis (no_types, opaque_lifting) and.assoc and.commute bit.conj_cancel_right and_zero_eq)
      then have "(addr AND NOT 4095) + q = (addr AND NOT 4095) OR q"
        by (rule disjunctive_add_eq_or)
      moreover have "q AND NOT 4095 = 0" using qq by (metis (no_types, opaque_lifting) and.assoc and.commute bit.conj_cancel_right and_zero_eq)
      ultimately have "((addr AND NOT 4095) + q) AND NOT 4095 = addr AND NOT 4095"
        by (simp only: bit.conj_disj_distrib2 and.assoc and.idem or.right_neutral)
      moreover have "(addr AND NOT 4095) + q = addr + of_nat i"
        using and_plus_and_not [of addr 4095] by (simp add: q_def algebra_simps)
      ultimately show ?thesis by simp
    qed
    have ff: "0xFF AND b = b" for b :: u8
    proof -
      have "(0xFF :: u8) = mask 8" by (simp add: mask_numeral)
      then show ?thesis by (auto simp: bit_eq_iff bit_simps dest: bit_imp_le_length)
    qed
    show ?thesis using sector i by (simp add: t e(1,3) ui ff)
  qed
  then show ?thesis by (simp add: out list_eq_iff_nth_eq load_bytes_nth)
qed

text \<open>The guard has no upper end: the address of an erase past 16 MB loses its top byte on the wire, so the sector
  that holds the boot loader is erased.\<close>

lemma flash_guard_wraps:
  assumes "flash_erase_sector env 0x1000000 st = Some (True, st')" "length (r_w st) = 16" "unat x < 4096"
  shows "\<exists>ss. bus st' = bus st @ ss \<and> cells (nor_run ss n) x = 0xFF"
proof -
  let ?X = "spi_header 0x20 True 0x1000000 @ []"
  have c: "chip_command env 0x20 0x1000000 [] st = Some (True, st')" using assms(1) by (simp add: flash_erase_sector_def)
  obtain polls where p: "bus st' = bus st @ [6] # ?X # polls" "set polls \<subseteq> {[5]}"
    using chip_command_spec [OF c _ assms(2)] by auto
  have m: "x AND NOT (mask 12) = 0"
    using unat_and_not_mask [of x 12] assms(3) by (simp add: unat_eq_0 [symmetric])
  then have "x AND NOT 4095 = 0" by (simp add: mask_numeral)
  then have "cells (nor_step ?X (nor_step [6] n)) x = 0xFF" unfolding nor_step_header by simp
  then show ?thesis using p nor_polls [OF p(2)] by (intro exI [of _ "[6] # ?X # polls"]) simp
qed

subsection \<open>The calls return\<close>

lemma ready_loop_returns:
  assumes "\<And>h. length h \<ge> N \<Longrightarrow> late env start h" "length (r_w st) = 16"
  shows "\<exists>r. ready_loop env start st = Some r"
  using assms(2)
proof (induction "N - length (bus st)" arbitrary: st rule: less_induct)
  case less
  obtain res st1 where x: "spi1_xfer env 5 False 0 [] 1 st = (res, st1)" by (rule prod.exhaust)
  have "length (spi_header 5 False 0 @ []) \<le> 64" "(1 :: nat) \<le> 64" by (simp_all add: spi_header_def)
  note X = xfer_spec [OF this less.prems x]
  show ?case
  proof (cases res)
    case None
    then show ?thesis by (subst ready_loop.simps) (simp add: x ex_bool_eq del: One_nat_def)
  next
    case (Some rx)
    have b: "length (bus st1) = Suc (length (bus st))" using X(3) Some by auto
    have w: "length (r_w st1) = 16" using X(1) less.prems by (simp add: same_ctl_def)
    show ?thesis
    proof (cases "late env start (bus st1)")
      case True
      then show ?thesis by (subst ready_loop.simps) (simp add: x Some ex_bool_eq del: One_nat_def)
    next
      case False
      then have "length (bus st1) < N" using assms(1) [of "bus st1"] by (cases "N \<le> length (bus st1)") auto
      then have "\<exists>r. ready_loop env start st1 = Some r" using b w by (intro less.hyps) auto
      then show ?thesis by (subst ready_loop.simps) (auto simp: x Some simp del: One_nat_def)
    qed
  qed
qed

lemma chip_command_returns:
  assumes "\<And>start h. length h \<ge> length start + N \<Longrightarrow> late env start h" "length tx \<le> 60" "length (r_w st) = 16"
  shows "\<exists>ok st'. chip_command env cmd addr tx st = Some (ok, st')"
proof -
  obtain r1 s1 where x1: "spi1_xfer env 6 False 0 [] 0 st = (r1, s1)" by (rule prod.exhaust)
  obtain r2 s2 where x2: "spi1_xfer env cmd True addr tx 0 s1 = (r2, s2)" by (rule prod.exhaust)
  have l: "length (spi_header 6 False 0 @ []) \<le> 64" "(0 :: nat) \<le> 64" "length (spi_header cmd True addr @ tx) \<le> 64"
    using assms(2) by (simp_all add: spi_header_def)
  have w1: "length (r_w s1) = 16" using xfer_spec(1) [OF l(1,2) assms(3) x1] assms(3) by (simp add: same_ctl_def)
  have w2: "length (r_w s2) = 16" using xfer_spec(1) [OF l(3,2) w1 x2] w1 by (simp add: same_ctl_def)
  from ready_loop_returns [of "length (bus s2) + N" env "bus s2" s2] assms(1) w2
  obtain ok st' where "ready_loop env (bus s2) s2 = Some (ok, st')" by auto
  then show ?thesis using x1 x2 by (simp add: chip_command_def flash_wait_ready_def ex_bool_eq split: option.splits)
qed

text \<open>
  No flash call hangs: when the cycle counter declares a wait late after some number of polls, erasing and writing return,
  with success or with a failure, whatever the chip answers and however long the data.
\<close>

theorem flash_calls_return:
  assumes "\<And>start h. length h \<ge> length start + N \<Longrightarrow> late env start h" "length (r_w st) = 16"
  shows "(\<exists>ok st'. flash_erase_sector env addr st = Some (ok, st')) \<and> (\<exists>ok st'. flash_write env addr data st = Some (ok, st'))"
proof -
  have "\<exists>ok st'. write_loop env addr data st = Some (ok, st')" if "length (r_w st) = 16" for addr data st
    using that
  proof (induction "length data" arbitrary: addr data st rule: less_induct)
    case less
    show ?case
    proof (cases "data = []")
      case False
      let ?k = "write_chunk addr (length data)"
      have k: "length (take ?k data) \<le> 60" by (simp add: write_chunk_def Let_def)
      obtain ok1 st1 where c: "chip_command env 2 addr (take ?k data) st = Some (ok1, st1)"
        using chip_command_returns [OF assms(1) k less.prems] by blast
      have "same_ctl st1 st" using chip_command_spec [OF c k less.prems] by blast
      then have "length (r_w st1) = 16" using less.prems by (simp add: same_ctl_def)
      moreover have "length (drop ?k data) < length data" using False write_chunk_pos [of "length data" addr] by simp
      ultimately have "\<exists>ok st'. write_loop env (addr + of_nat ?k) (drop ?k data) st1 = Some (ok, st')" by (intro less.hyps)
      then show ?thesis using False unfolding write_loop.simps [of env addr data st] Let_def by (cases ok1) (simp_all add: c ex_bool_eq)
    qed (simp add: write_loop.simps ex_bool_eq)
  qed
  moreover have "\<exists>ok st'. chip_command env 0x20 a [] st = Some (ok, st')" for a
    using chip_command_returns [OF assms(1) _ assms(2)] by simp
  ultimately show ?thesis using assms(2) by (simp add: flash_erase_sector_def flash_write_def ex_bool_eq)
qed

subsection \<open>Witnesses\<close>

text \<open>A chip that is never busy and answers a read from cells that hold two bytes after the erase and the write.\<close>

definition flash_image :: memory where
  "flash_image = (\<lambda>_. 0xFF)(0x200000 := 0xAB, 0x200001 := 0xCD)"

definition flash_wire :: wire_env where
  "flash_wire = \<lparr>reply = (\<lambda>h i. case last h of c # a2 # a1 # a0 # _ \<Rightarrow> flash_image (addr24 a2 a1 a0 + of_nat i) | _ \<Rightarrow> 0),
     stuck_before = (\<lambda>_. False), stuck_after = (\<lambda>_. False), late = (\<lambda>start h. length h \<ge> length start + 3)\<rparr>"

definition spi_rest :: spi1 where
  "spi_rest = \<lparr>r_user = 1, r_user1 = 2, r_user2 = 3, r_ctrl = 4, r_ctrl2 = 5, r_clock = 6, r_mosi_dlen = 0, r_miso_dlen = 0,
     r_w = replicate 16 0, bus = []\<rparr>"

theorem flash_calls_return_witness:
  "(\<exists>ok st'. flash_erase_sector flash_wire 0x200000 spi_rest = Some (ok, st')) \<and> (\<exists>ok st'. flash_write flash_wire 0x200000 [1, 2] spi_rest = Some (ok, st'))"
  by (rule flash_calls_return [where N = 3]) (simp_all add: flash_wire_def spi_rest_def)

theorem flash_regs_restored_witness:
  "same_ctl (snd (flash_read flash_wire 0x200000 2 spi_rest)) spi_rest"
  by (rule conjunct1 [OF flash_regs_restored]) (simp add: spi_rest_def)

text \<open>A chip that is never stuck and never busy accepts every call.\<close>

definition quiet :: "wire_env \<Rightarrow> bool" where
  "quiet env \<longleftrightarrow> (\<forall>h. \<not> stuck_before env h \<and> \<not> stuck_after env h \<and> reply env (h @ [[5]]) 0 AND 1 = 0)"

lemma quiet_xfer: "quiet env \<Longrightarrow> \<exists>rx st'. spi1_xfer env cmd ua addr tx n st = (Some rx, st')"
  by (simp add: quiet_def spi1_xfer_def Let_def)

lemma quiet_command:
  assumes "quiet env" "length (r_w st) = 16" "length tx \<le> 60"
  shows "\<exists>st'. chip_command env cmd addr tx st = Some (True, st')"
proof -
  obtain rx1 s1 where x1: "spi1_xfer env 6 False 0 [] 0 st = (Some rx1, s1)" using quiet_xfer [OF assms(1)] by blast
  obtain rx2 s2 where x2: "spi1_xfer env cmd True addr tx 0 s1 = (Some rx2, s2)" using quiet_xfer [OF assms(1)] by blast
  obtain rx3 s3 where x3: "spi1_xfer env 5 False 0 [] 1 s2 = (Some rx3, s3)" using quiet_xfer [OF assms(1)] by blast
  have l: "length (spi_header 6 False 0 @ []) \<le> 64" "(0 :: nat) \<le> 64" "length (spi_header cmd True addr @ tx) \<le> 64"
    "length (spi_header 5 False 0 @ []) \<le> 64" "(1 :: nat) \<le> 64"
    using assms(3) by (simp_all add: spi_header_def)
  have w1: "length (r_w s1) = 16" using xfer_spec(1) [OF l(1,2) assms(2) x1] assms(2) by (simp add: same_ctl_def)
  have w2: "length (r_w s2) = 16" using xfer_spec(1) [OF l(3,2) w1 x2] w1 by (simp add: same_ctl_def)
  have "spi_header 5 False 0 @ [] = [5]" by (simp add: spi_header_def)
  with xfer_spec(3) [OF l(4,5) w2 x3] have "rx3 = [reply env (bus s2 @ [[5]]) 0]" by auto
  then have "hd rx3 AND 1 = 0" using assms(1) by (simp add: quiet_def)
  then have "ready_loop env (bus s2) s2 = Some (True, s3)" by (subst ready_loop.simps) (simp add: x3 del: One_nat_def)
  then show ?thesis using x1 x2 by (simp add: chip_command_def flash_wait_ready_def)
qed

lemma quiet_write:
  assumes "quiet env" "length (r_w st) = 16"
  shows "\<exists>st'. write_loop env addr data st = Some (True, st')"
  using assms(2)
proof (induction "length data" arbitrary: addr data st rule: less_induct)
  case less
  show ?case
  proof (cases "data = []")
    case False
    let ?k = "write_chunk addr (length data)"
    have k: "length (take ?k data) \<le> 60" by (simp add: write_chunk_def Let_def)
    obtain st1 where c: "chip_command env 2 addr (take ?k data) st = Some (True, st1)"
      using quiet_command [OF assms(1) less.prems k] by blast
    have "same_ctl st1 st" using chip_command_spec [OF c k less.prems] by blast
    then have "length (r_w st1) = 16" using less.prems by (simp add: same_ctl_def)
    moreover have "length (drop ?k data) < length data" using False write_chunk_pos [of "length data" addr] by simp
    ultimately have "\<exists>st'. write_loop env (addr + of_nat ?k) (drop ?k data) st1 = Some (True, st')" by (intro less.hyps)
    then show ?thesis using False unfolding write_loop.simps [of env addr data st] Let_def by (simp add: c)
  qed (simp add: write_loop.simps)
qed

lemma quiet_read:
  assumes "quiet env" shows "\<exists>out st'. flash_read env addr n st = (Some out, st')"
proof (induction n arbitrary: addr st rule: less_induct)
  case (less n)
  show ?case
  proof (cases "n = 0")
    case False
    let ?k = "if n > 64 then 64 else n"
    obtain rx s1 where x: "spi1_xfer env 3 True addr [] ?k st = (Some rx, s1)" using quiet_xfer [OF assms] by blast
    obtain out s2 where r: "flash_read env (addr + of_nat ?k) (n - ?k) s1 = (Some out, s2)"
      using less.IH [of "n - ?k" "addr + of_nat ?k" s1] False by auto
    show ?thesis using False r unfolding flash_read.simps [of env addr n st] Let_def x by simp
  qed (simp add: flash_read.simps)
qed

lemma wire_quiet: "quiet flash_wire"
  by (simp add: quiet_def flash_wire_def)

lemma wire_honest: "unat a + i < 16777216 \<Longrightarrow> reply flash_wire (h @ [spi_header 0x03 True a]) i = flash_image (a + of_nat i)"
proof -
  assume "unat a + i < 16777216"
  then have "a AND 0xFFFFFF = a"
    by (intro unsigned_word_eqI) (use unat_and_mask [of a 24] in \<open>simp add: mask_numeral\<close>)
  then show ?thesis by (simp add: flash_wire_def spi_header_def addr24_header)
qed

lemma spi_rest_regs: "length (r_w spi_rest) = 16" by (simp add: spi_rest_def)

theorem flash_write_programs_witness:
  "\<exists>st' ss. flash_write flash_wire 0x2000F0 (replicate 40 7) spi_rest = Some (True, st') \<and> bus st' = bus spi_rest @ ss
    \<and> (\<forall>n x. cells (nor_run ss n) x =
      (if unat (x - 0x2000F0) < length (replicate 40 (7 :: u8)) then cells n x AND replicate 40 7 ! unat (x - 0x2000F0) else cells n x))"
proof -
  obtain st' where w: "flash_write flash_wire 0x2000F0 (replicate 40 7) spi_rest = Some (True, st')"
    using quiet_write [OF wire_quiet spi_rest_regs] by (auto simp: flash_write_def)
  from flash_write_programs [OF w spi_rest_regs] w show ?thesis by auto
qed

lemma flash_demo:
  "\<exists>st1 st2 st3 out. flash_erase_sector flash_wire 0x200000 spi_rest = Some (True, st1)
    \<and> flash_write flash_wire 0x200000 [0xAB, 0xCD] st1 = Some (True, st2) \<and> flash_read flash_wire 0x200000 2 st2 = (Some out, st3)"
proof -
  obtain st1 where e: "flash_erase_sector flash_wire 0x200000 spi_rest = Some (True, st1)"
    using quiet_command [OF wire_quiet spi_rest_regs, of "[]"] by (auto simp: flash_erase_sector_def)
  have "length (r_w st1) = 16" using erase_data [OF e spi_rest_regs] spi_rest_regs by (auto simp: same_ctl_def)
  from quiet_write [OF wire_quiet this] obtain st2 where "flash_write flash_wire 0x200000 [0xAB, 0xCD] st1 = Some (True, st2)"
    by (auto simp: flash_write_def)
  with e quiet_read [OF wire_quiet] show ?thesis by blast
qed

theorem flash_low_protected_witness:
  "\<exists>st2 ss. flash_ops flash_wire [Op_erase 0x200000, Op_write 0x200000 [0xAB, 0xCD], Op_erase 0x1000] spi_rest = Some st2 \<and> bus st2 = bus spi_rest @ ss
    \<and> (\<forall>n. cells (nor_run ss n) 0x1FFFFF = cells n 0x1FFFFF)"
proof -
  obtain st1 st2 where d: "flash_erase_sector flash_wire 0x200000 spi_rest = Some (True, st1)"
    "flash_write flash_wire 0x200000 [0xAB, 0xCD] st1 = Some (True, st2)" using flash_demo by blast
  then have o: "flash_ops flash_wire [Op_erase 0x200000, Op_write 0x200000 [0xAB, 0xCD], Op_erase 0x1000] spi_rest = Some st2"
    by (simp add: flash_erase_sector_def [of _ "0x1000"])
  from flash_low_protected [OF o spi_rest_regs, of "0x1FFFFF"] o show ?thesis by auto
qed

theorem flash_roundtrip_witness:
  "\<exists>st2 st3. flash_read flash_wire 0x200000 2 st2 = (Some [0xAB, 0xCD], st3)"
proof -
  obtain st1 st2 st3 out where d: "flash_erase_sector flash_wire 0x200000 spi_rest = Some (True, st1)"
    "flash_write flash_wire 0x200000 [0xAB, 0xCD] st1 = Some (True, st2)" "flash_read flash_wire 0x200000 2 st2 = (Some out, st3)"
    using flash_demo by blast
  define n0 :: nor where "n0 = \<lparr>armed = False, cells = (\<lambda>_. 0xFF)\<rparr>"
  obtain ss where e: "bus st1 = ss" "same_ctl st1 spi_rest"
    "\<And>m. cells (nor_run ss m) = (\<lambda>x. if x AND NOT 4095 = 0x200000 AND NOT 4095 then 0xFF else cells m x)"
    using erase_data [OF d(1) spi_rest_regs] by (auto simp: spi_rest_def)
  have w1: "length (r_w st1) = 16" using e(2) spi_rest_regs by (simp add: same_ctl_def)
  obtain ts where t: "bus st2 = bus st1 @ ts" "\<And>m x. cells (nor_run ts m) x =
      (if unat (x - 0x200000) < 2 then cells m x AND [0xAB, 0xCD] ! unat (x - 0x200000) else cells m x)"
  proof -
    have "length [0xAB, 0xCD :: u8] = 2" "unat (0x200000 :: u32) + length [0xAB, 0xCD :: u8] \<le> 16777216" by simp_all
    with flash_write_programs [OF d(2) w1] that show thesis by metis
  qed
  have "cells (nor_run (bus st2) n0) = flash_image"
  proof
    fix x :: u32
    have "unat (x - 0x200000) < 2 \<longleftrightarrow> x = 0x200000 \<or> x = 0x200001"
    proof -
      have two: "unat v < 2 \<longleftrightarrow> v = 0 \<or> v = 1" for v :: u32
      proof
        assume "unat v < 2"
        then have "unat v = 0 \<or> unat v = 1" by (simp add: less_2_cases_iff)
        then show "v = 0 \<or> v = 1"
        proof
          assume "unat v = 1"
          then have "unat v = unat (1 :: u32)" by simp
          then have "v = 1" by (rule unsigned_word_eqI)
          then show ?thesis ..
        qed (simp add: unat_eq_0)
      qed auto
      have "unat (x - 0x200000) < 2 \<longleftrightarrow> x - 0x200000 = 0 \<or> x - 0x200000 = 1" by (rule two)
      then show ?thesis by (simp add: diff_eq_eq)
    qed
    then show "cells (nor_run (bus st2) n0) x = flash_image x"
      by (auto simp: t e n0_def flash_image_def)
  qed
  then have "\<And>h a i. unat a + i < 16777216 \<Longrightarrow> reply flash_wire (h @ [spi_header 0x03 True a]) i = cells (nor_run (bus st2) n0) (a + of_nat i)"
    by (simp add: wire_honest)
  note honest = this
  have r: "flash_read flash_wire 0x200000 (length [0xAB, 0xCD :: u8]) st2 = (Some out, st3)" using d(3) by (simp add: numeral_2_eq_2)
  have "out = [0xAB, 0xCD]" by (rule flash_roundtrip [OF d(1,2) r spi_rest_regs _ _ _ honest]) simp_all
  with d(3) show ?thesis by blast
qed

end
