(* ===== verification/KCred.thy ===== *)
theory KCred
  imports KOut
begin

text \<open>
  What the radio remembers in flash: credentials (wificred.c), pairwise keys (pmkcache.c) and preferences (wifiprefs.c). Each is
  one record of a sector, read once and written whole, with a checksum. The first two are tables of slots keyed by the
  name of a network; the locale \<open>keyed_slots\<close> states what such a table promises as an association list that drops
  its oldest entry, and both files interpret it. The flash driver is a parameter: whether a read, an erase and a write
  succeed, and what a sector holds after one that did not.
\<close>

subsection \<open>Strings in buffers\<close>

definition char_at :: "cstring \<Rightarrow> nat \<Rightarrow> u8" where
  "char_at s i = (if i < length s then s ! i else 0)"

text \<open>\<^verbatim>\<open>same\<close> advances while both strings agree and go on, at most 32 places, and compares where it stops.\<close>

definition same :: "u8 list \<Rightarrow> cstring \<Rightarrow> bool" where
  "same a b = (let i = length (takeWhile (\<lambda>j. a ! j \<noteq> 0 \<and> a ! j = char_at b j) [0..<32]) in a ! i = char_at b i)"

text \<open>The copy loop \<^verbatim>\<open>for (; k < lim && s[k]; k++) buf[k] = s[k]; buf[k] = 0\<close>, which leaves the bytes after the terminator.\<close>

definition put_text :: "u8 list \<Rightarrow> cstring \<Rightarrow> nat \<Rightarrow> u8 list" where
  "put_text buf s lim = (let t = take lim (takeWhile (\<lambda>c. c \<noteq> 0) s) in t @ 0 # drop (Suc (length t)) buf)"

definition get_text :: "u8 list \<Rightarrow> nat \<Rightarrow> cstring" where
  "get_text buf lim = takeWhile (\<lambda>c. c \<noteq> 0) (take lim buf)"

text \<open>A caller's string has no terminator inside; a name has 1 to 32 characters. A buffer holds a name when it has its size and
  a terminator within the first 33 bytes.\<close>

definition net_name :: "cstring \<Rightarrow> bool" where
  "net_name s \<longleftrightarrow> s \<noteq> [] \<and> length s \<le> 32 \<and> 0 \<notin> set s"

definition named :: "u8 list \<Rightarrow> bool" where
  "named buf \<longleftrightarrow> length buf = 36 \<and> 0 \<in> set (take 33 buf)"

lemma takeWhile_nonzero: "0 \<notin> set s \<Longrightarrow> takeWhile (\<lambda>c. c \<noteq> (0 :: u8)) s = s"
  by (simp add: takeWhile_eq_all_conv) (metis)

lemma put_text_eq: "0 \<notin> set s \<Longrightarrow> put_text buf s lim = take lim s @ 0 # drop (Suc (min lim (length s))) buf"
  by (simp add: put_text_def takeWhile_nonzero Let_def min.commute)

lemma get_text_stop:
  assumes "0 \<notin> set t" shows "get_text (t @ 0 # r) n = take n t"
proof -
  have tn: "0 \<notin> set (take n t)" using assms by (auto dest: in_set_takeD)
  show ?thesis
  proof (cases "n \<le> length t")
    case False
    then show ?thesis using takeWhile_nonzero [OF assms] assms
      by (cases "n - length t") (simp_all add: get_text_def takeWhile_append)
  qed (simp add: get_text_def takeWhile_nonzero [OF tn])
qed

lemma get_put_text: "0 \<notin> set s \<Longrightarrow> get_text (put_text buf s lim) n = take n (take lim s)"
  using get_text_stop [of "take lim s"] by (auto simp: put_text_eq dest: in_set_takeD)

lemma length_put_text: "0 \<notin> set s \<Longrightarrow> lim < length buf \<Longrightarrow> length (put_text buf s lim) = length buf"
  by (simp add: put_text_eq)

lemma stop_index:
  fixes n :: nat and P :: "nat \<Rightarrow> bool"
  defines "i \<equiv> length (takeWhile P [0..<n])"
  shows "i \<le> n" "j < i \<Longrightarrow> P j" "i < n \<Longrightarrow> \<not> P i"
proof -
  show n: "i \<le> n" using length_takeWhile_le [of P "[0..<n]"] by (simp add: i_def)
  show "P j" if "j < i"
  proof -
    have "takeWhile P [0..<n] ! j = j" using that n takeWhile_nth [of j P "[0..<n]"] by (simp add: i_def)
    then show ?thesis using that nth_mem [of j "takeWhile P [0..<n]"] by (metis i_def set_takeWhileD)
  qed
  show "\<not> P i" if "i < n" using that nth_length_takeWhile [of P "[0..<n]"] by (simp add: i_def)
qed

text \<open>\<^verbatim>\<open>same\<close> compares names: with a buffer that holds a name it decides equality with the caller's string.\<close>

lemma same_name:
  assumes "named a" "0 \<notin> set b"
  shows "same a b \<longleftrightarrow> get_text a 36 = b"
proof -
  define P where "P = (\<lambda>j. a ! j \<noteq> 0 \<and> a ! j = char_at b j)"
  define i where "i = length (takeWhile P [0..<32])"
  note I = stop_index [where P = P and n = 32, folded i_def]
  define t where "t = takeWhile (\<lambda>c. c \<noteq> 0) a"
  have la: "length a = 36" using assms(1) by (simp add: named_def)
  have t: "get_text a 36 = t" using la by (simp add: t_def get_text_def)
  have nz: "\<And>j. j < length t \<Longrightarrow> a ! j \<noteq> 0 \<and> a ! j = t ! j"
  proof -
    fix j assume j: "j < length t"
    then have "t ! j = a ! j" by (simp add: t_def takeWhile_nth)
    moreover have "t ! j \<in> set t" using j by (rule nth_mem)
    ultimately have "t ! j = a ! j" "t ! j \<in> set t" by simp_all
    then show "a ! j \<noteq> 0 \<and> a ! j = t ! j" unfolding t_def by (auto dest: set_takeWhileD)
  qed
  obtain z where z: "z < 33" "a ! z = 0" using assms(1) by (auto simp: named_def in_set_conv_nth)
  have lt: "length t \<le> 32" using z nz [of z] by (cases "z < length t") auto
  have at: "a ! length t = 0" using nth_length_takeWhile [of "\<lambda>c. c \<noteq> 0" a] lt la by (simp add: t_def)
  have sd: "same a b \<longleftrightarrow> a ! i = char_at b i" by (simp add: same_def Let_def i_def P_def)
  have nb: "\<And>j. j < length b \<Longrightarrow> b ! j \<noteq> 0" using assms(2) by (metis nth_mem)
  show ?thesis unfolding t
  proof
    assume "same a b"
    then have eq: "a ! i = char_at b i" by (simp add: sd)
    have ai: "a ! i = 0"
    proof (cases "i < 32")
      case True
      then show ?thesis using I(3) eq by (auto simp: P_def)
    next
      case False
      then have "i = 32" using I(1) by simp
      moreover have "length t = 32"
      proof (rule ccontr)
        assume "length t \<noteq> 32"
        then have "length t < i" using lt \<open>i = 32\<close> by simp
        from I(2) [OF this] at show False by (simp add: P_def)
      qed
      ultimately show ?thesis using at by simp
    qed
    have it: "i = length t"
      using I(2) [of "length t"] nz [of i] ai at by (cases i "length t" rule: linorder_cases) (auto simp: P_def)
    have ib: "i = length b"
    proof (cases i "length b" rule: linorder_cases)
      case less
      then show ?thesis using eq ai nb [of i] by (simp add: char_at_def)
    next
      case greater
      then show ?thesis using I(2) [of "length b"] by (simp add: P_def char_at_def)
    qed
    show "t = b"
      using it ib I(2) nz by (intro nth_equalityI) (auto simp: P_def char_at_def)
  next
    assume tb: "t = b"
    have "i = length t"
    proof (cases i "length t" rule: linorder_cases)
      case less
      have "P i" using nz [OF less] less unfolding P_def char_at_def tb [symmetric] by auto
      then show ?thesis using I(3) less lt by simp
    next
      case greater
      then show ?thesis using I(2) [OF greater] at by (simp add: P_def)
    qed
    then show "same a b" unfolding sd using at tb by (simp add: char_at_def)
  qed
qed

subsection \<open>Tables of slots\<close>

text \<open>The first of \<open>count\<close> entries that matches, or \<open>none\<close>; the place of a new entry, which drops the oldest when the table is
  full; and closing the gap an entry leaves, with its slot cleared.\<close>

definition find_slot :: "('e \<Rightarrow> bool) \<Rightarrow> nat \<Rightarrow> nat \<Rightarrow> 'e list \<Rightarrow> nat" where
  "find_slot p none count es = (let i = length (takeWhile (\<lambda>e. \<not> p e) (take count es)) in if i < count then i else none)"

definition place_slot :: "nat \<Rightarrow> nat \<Rightarrow> nat \<Rightarrow> 'e list \<Rightarrow> nat \<times> nat \<times> 'e list" where
  "place_slot slots at count es =
     (if at \<ge> slots then (slots - 1, slots, tl es @ [last es])
      else if at = count then (at, count + 1, es)
      else (at, count, es))"

definition close_gap :: "nat \<Rightarrow> nat \<Rightarrow> 'e \<Rightarrow> 'e list \<Rightarrow> 'e list" where
  "close_gap at count blank es = take at es @ drop (Suc at) (take count es) @ blank # drop count es"

text \<open>What a table promises, on association lists.\<close>

definition assoc_put :: "nat \<Rightarrow> 'k \<Rightarrow> 'v \<Rightarrow> ('k \<times> 'v) list \<Rightarrow> ('k \<times> 'v) list" where
  "assoc_put slots k v xs =
     (if k \<in> fst ` set xs then List.map (\<lambda>(a, b). if a = k then (k, v) else (a, b)) xs
      else (if length xs < slots then xs else tl xs) @ [(k, v)])"

definition assoc_forget :: "'k \<Rightarrow> ('k \<times> 'v) list \<Rightarrow> ('k \<times> 'v) list" where
  "assoc_forget k xs = filter (\<lambda>(a, _). a \<noteq> k) xs"

lemma find_slot_spec:
  assumes "count \<le> length es"
  shows "(find_slot p none count es < count \<and> p (es ! find_slot p none count es) \<and> (\<forall>j < find_slot p none count es. \<not> p (es ! j)))
    \<or> (find_slot p none count es = none \<and> (\<forall>j < count. \<not> p (es ! j)))"
proof -
  define w where "w = takeWhile (\<lambda>e. \<not> p e) (take count es)"
  have l: "length (take count es) = count" using assms by simp
  have wl: "length w \<le> count" using length_takeWhile_le [of "\<lambda>e. \<not> p e" "take count es"] l by (simp add: w_def)
  have before: "\<not> p (es ! j)" if "j < length w" for j
  proof -
    have "w ! j = es ! j" using that wl assms takeWhile_nth [of j "\<lambda>e. \<not> p e" "take count es"] by (simp add: w_def)
    moreover have "w ! j \<in> set w" using that by simp
    ultimately show ?thesis by (metis w_def set_takeWhileD)
  qed
  show ?thesis
  proof (cases "length w < count")
    case True
    then have "p (es ! length w)" using nth_length_takeWhile [of "\<lambda>e. \<not> p e" "take count es"] l by (simp add: w_def)
    then show ?thesis using True before by (simp add: find_slot_def w_def [symmetric])
  next
    case False
    then have "length w = count" using wl by simp
    then show ?thesis using before by (simp add: find_slot_def w_def [symmetric])
  qed
qed

lemma map_update_key:
  assumes "distinct (List.map f xs)" "i < length xs" "f (xs ! i) = k"
  shows "List.map (\<lambda>(a, b). if a = k then (k, v) else (a, b)) (List.map (\<lambda>e. (f e, g e)) xs) = (List.map (\<lambda>e. (f e, g e)) xs)[i := (k, v)]"
proof (rule nth_equalityI)
  fix j assume "j < length (List.map (\<lambda>(a, b). if a = k then (k, v) else (a, b)) (List.map (\<lambda>e. (f e, g e)) xs))"
  then have j: "j < length xs" by simp
  have "f (xs ! j) = k \<longleftrightarrow> j = i"
    using assms j nth_eq_iff_index_eq [of "List.map f xs" j i] by auto
  then show "List.map (\<lambda>(a, b). if a = k then (k, v) else (a, b)) (List.map (\<lambda>e. (f e, g e)) xs) ! j = (List.map (\<lambda>e. (f e, g e)) xs)[i := (k, v)] ! j"
    using j by (simp add: nth_list_update)
qed simp

lemma filter_drop_key:
  assumes "distinct (List.map f xs)" "i < length xs" "f (xs ! i) = k"
  shows "filter (\<lambda>(a, _). a \<noteq> k) (List.map (\<lambda>e. (f e, g e)) xs) = List.map (\<lambda>e. (f e, g e)) (take i xs @ drop (Suc i) xs)"
proof -
  have x: "xs = take i xs @ xs ! i # drop (Suc i) xs" using assms(2) by (rule id_take_nth_drop)
  have d: "distinct (List.map f (take i xs) @ f (xs ! i) # List.map f (drop (Suc i) xs))"
    using assms(1) by (subst (asm) x) simp
  have k: "\<forall>e \<in> set (take i xs @ drop (Suc i) xs). f e \<noteq> k" using d assms(3) by (auto simp: image_iff)
  have "filter (\<lambda>(a, _). a \<noteq> k) (List.map (\<lambda>e. (f e, g e)) ys) = List.map (\<lambda>e. (f e, g e)) ys" if "\<forall>e \<in> set ys. f e \<noteq> k" for ys
    using that by (induction ys) auto
  then show ?thesis using k assms(3) by (subst x) simp
qed

locale keyed_slots =
  fixes key :: "'e \<Rightarrow> cstring"
    and val :: "'e \<Rightarrow> 'v"
    and wr :: "'e \<Rightarrow> cstring \<Rightarrow> 'w \<Rightarrow> 'e"
    and norm :: "'w \<Rightarrow> 'v"
    and match :: "'e \<Rightarrow> cstring \<Rightarrow> bool"
    and good :: "'e \<Rightarrow> bool"
    and shape :: "'e \<Rightarrow> bool"
    and wok :: "'w \<Rightarrow> bool"
    and slots :: nat
  assumes good_shape: "good e \<Longrightarrow> shape e"
    and write_good: "shape e \<Longrightarrow> net_name s \<Longrightarrow> wok v \<Longrightarrow> good (wr e s v)"
    and write_key: "shape e \<Longrightarrow> net_name s \<Longrightarrow> wok v \<Longrightarrow> key (wr e s v) = s"
    and write_val: "shape e \<Longrightarrow> net_name s \<Longrightarrow> wok v \<Longrightarrow> val (wr e s v) = norm v"
    and match_key: "good e \<Longrightarrow> 0 \<notin> set s \<Longrightarrow> match e s \<longleftrightarrow> key e = s"
    and slots_pos: "0 < slots"
begin

definition view :: "nat \<Rightarrow> 'e list \<Rightarrow> (cstring \<times> 'v) list" where
  "view count es = List.map (\<lambda>e. (key e, val e)) (take count es)"

definition table_ok :: "nat \<Rightarrow> 'e list \<Rightarrow> bool" where
  "table_ok count es \<longleftrightarrow> length es = slots \<and> count \<le> slots \<and> (\<forall>e \<in> set es. shape e) \<and> (\<forall>e \<in> set (take count es). good e)
     \<and> distinct (List.map key (take count es))"

lemma found:
  assumes "table_ok count es" "0 \<notin> set s"
  shows "(find_slot (\<lambda>e. match e s) none count es < count \<and> key (es ! find_slot (\<lambda>e. match e s) none count es) = s)
    \<or> (find_slot (\<lambda>e. match e s) none count es = none \<and> s \<notin> fst ` set (view count es))"
proof -
  have l: "count \<le> length es" using assms(1) by (simp add: table_ok_def)
  have m: "match (es ! j) s \<longleftrightarrow> key (es ! j) = s" if "j < count" for j
  proof -
    have "es ! j \<in> set (take count es)" using that l by (metis in_set_conv_nth length_take min.absorb2 nth_take)
    then show ?thesis using assms match_key by (simp add: table_ok_def)
  qed
  have s: "s \<in> fst ` set (view count es) \<longleftrightarrow> (\<exists>j < count. key (es ! j) = s)"
    using l by (force simp: view_def in_set_conv_nth image_iff)
  show ?thesis
    using find_slot_spec [OF l, of "\<lambda>e. match e s" none] m s by metis
qed

lemma table_put:
  assumes "table_ok count es" "net_name s" "wok v"
    and "place_slot slots (find_slot (\<lambda>e. match e s) count count es) count es = (at, count', es')"
  shows "view count' (es'[at := wr (es' ! at) s v]) = assoc_put slots s (norm v) (view count es)"
    and "table_ok count' (es'[at := wr (es' ! at) s v])"
proof -
  have T: "length es = slots" "count \<le> slots" "\<And>e. e \<in> set es \<Longrightarrow> shape e" "\<And>e. e \<in> set (take count es) \<Longrightarrow> good e"
    "distinct (List.map key (take count es))" using assms(1) by (auto simp: table_ok_def)
  have s0: "0 \<notin> set s" using assms(2) by (simp add: net_name_def)
  let ?at = "find_slot (\<lambda>e. match e s) count count es"
  have W: "good (wr e s v)" "key (wr e s v) = s" "val (wr e s v) = norm v" "shape (wr e s v)" if "shape e" for e
    using write_good write_key write_val good_shape that assms(2,3) by blast+
  have R: "view count' (es'[at := wr (es' ! at) s v]) = assoc_put slots s (norm v) (view count es)
    \<and> table_ok count' (es'[at := wr (es' ! at) s v])"
  proof (cases "s \<in> fst ` set (view count es)")
    case True
    with found [OF assms(1) s0, of count] have f: "?at < count" "key (es ! ?at) = s" by auto
    then have e: "at = ?at" "count' = count" "es' = es" using assms(4) T(2) by (auto simp: place_slot_def)
    have sh: "shape (es ! ?at)" using T(1,2,3) f(1) by simp
    have tk: "take count (es[?at := e']) = (take count es)[?at := e']" for e' by (simp add: take_update_swap)
    have u: "view count (es[?at := wr (es ! ?at) s v]) = assoc_put slots s (norm v) (view count es)"
      using True f T(1,2,5) map_update_key [of key "take count es" ?at s "norm v" val]
      by (simp add: view_def assoc_put_def tk map_update W [OF sh])
    have kd: "List.map key ((take count es)[?at := wr (es ! ?at) s v]) = List.map key (take count es)"
      using f T(1,2) by (simp add: map_update W [OF sh] list_update_same_conv)
    have "table_ok count (es[?at := wr (es ! ?at) s v])"
      using T W [OF sh] kd set_update_subset_insert [of es ?at "wr (es ! ?at) s v"]
        set_update_subset_insert [of "take count es" ?at "wr (es ! ?at) s v"]
      by (auto simp: table_ok_def tk)
    then show ?thesis using u by (simp add: e)
  next
    case False
    have nk: "s \<notin> key ` set (take count es)" using False by (auto simp: view_def image_image)
    have "es ! ?at \<in> set (take count es)" if "?at < count"
      using that T(1,2) nth_mem [of ?at "take count es"] by simp
    then have na: "?at = count" using found [OF assms(1) s0, of count] nk by (metis imageI)
    show ?thesis
    proof (cases "count = slots")
      case True
      then have e: "at = slots - 1" "count' = slots" "es' = tl es @ [last es]" using assms(4) na by (auto simp: place_slot_def)
      have ne: "es \<noteq> []" using T(1) slots_pos by auto
      have lt: "length (tl es) = slots - 1" using T(1) by simp
      have sh: "shape (last es)" using T(3) ne by simp
      have es: "es'[at := wr (es' ! at) s v] = tl es @ [wr (last es) s v]"
        using lt by (simp add: e nth_append list_update_append)
      have lv: "length (view slots es) = slots" using T(1) by (simp add: view_def)
      have v: "view slots (tl es @ [wr (last es) s v]) = tl (view slots es) @ [(s, norm v)]"
        using T(1) lt slots_pos by (simp add: view_def W [OF sh] map_tl)
      have "distinct (List.map key (tl es))" using T(1,5) True by (simp add: map_tl distinct_tl)
      moreover have "s \<notin> key ` set (tl es)" using nk True T(1) ne by (auto dest: list.set_sel(2))
      ultimately have "table_ok slots (tl es @ [wr (last es) s v])"
        using T True ne lt slots_pos W [OF sh] by (auto simp: table_ok_def dest: list.set_sel(2))
      then show ?thesis using v False True lv by (simp add: es e(2) assoc_put_def)
    next
      case nf: False
      then have e: "at = count" "count' = count + 1" "es' = es" using assms(4) na T(2) by (auto simp: place_slot_def)
      have c: "count < length es" using nf T(1,2) by simp
      have sh: "shape (es ! count)" using T(3) c by simp
      have tk: "take (count + 1) (es[count := e']) = take count es @ [e']" for e'
        using c by (simp add: take_Suc_conv_app_nth)
      have lv: "length (view count es) < slots" using nf T(1,2) by (simp add: view_def)
      have v: "view (count + 1) (es[count := wr (es ! count) s v]) = view count es @ [(s, norm v)]"
        by (simp only: view_def tk) (simp add: W [OF sh])
      have "table_ok (count + 1) (es[count := wr (es ! count) s v])"
        using T nf c nk W [OF sh] set_update_subset_insert [of es count "wr (es ! count) s v"] tk
        by (auto simp: table_ok_def)
      then show ?thesis using v False lv by (simp add: e assoc_put_def)
    qed
  qed
  then show "view count' (es'[at := wr (es' ! at) s v]) = assoc_put slots s (norm v) (view count es)"
    "table_ok count' (es'[at := wr (es' ! at) s v])" by simp_all
qed

lemma table_forget:
  assumes "table_ok count es" "at < count" "shape blank"
  shows "view (count - 1) (close_gap at count blank es) = assoc_forget (key (es ! at)) (view count es)"
    and "table_ok (count - 1) (close_gap at count blank es)"
proof -
  have T: "length es = slots" "count \<le> slots" "\<And>e. e \<in> set es \<Longrightarrow> shape e" "\<And>e. e \<in> set (take count es) \<Longrightarrow> good e"
    "distinct (List.map key (take count es))" using assms(1) by (auto simp: table_ok_def)
  have tk: "take (count - 1) (close_gap at count blank es) = take at (take count es) @ drop (Suc at) (take count es)"
    using T(1,2) assms(2) by (cases "at = count - 1") (auto simp: close_gap_def min_def)
  show "view (count - 1) (close_gap at count blank es) = assoc_forget (key (es ! at)) (view count es)"
    using filter_drop_key [OF T(5), of at "key (es ! at)" val] T(1,2) assms(2)
    by (simp add: view_def assoc_forget_def tk [simplified] min_def)
  have len: "length (close_gap at count blank es) = slots" using T(1,2) assms(2) by (simp add: close_gap_def)
  have sub: "set (close_gap at count blank es) \<subseteq> insert blank (set es)"
    by (auto simp: close_gap_def dest: in_set_takeD in_set_dropD)
  have sub2: "set (take at (take count es) @ drop (Suc at) (take count es)) \<subseteq> set (take count es)"
    by (auto simp del: take_take dest: in_set_takeD in_set_dropD)
  have "distinct (List.map key (take at (take count es) @ drop (Suc at) (take count es)))"
  proof -
    have "List.map key (take at (take count es) @ drop (Suc at) (take count es))
        = take at (List.map key (take count es)) @ drop (Suc at) (List.map key (take count es))"
      by (simp add: take_map drop_map)
    moreover have "distinct (take n ys @ drop (Suc n) ys)" if "distinct ys" for ys :: "cstring list" and n
      using that set_take_disj_set_drop_if_distinct [of ys n "Suc n"] by simp
    ultimately show ?thesis using T(5) by metis
  qed
  then show "table_ok (count - 1) (close_gap at count blank es)"
    unfolding table_ok_def tk using len sub sub2 T(2,3,4) assms(3) by (auto 0 3)
qed

end

subsection \<open>A record in a sector\<close>

text \<open>The record as the three files keep it: what is in memory, whether it was read, and what the sector holds. \<open>outcome\<close> says
  which flash operations succeed, and \<open>torn\<close> what a failed erase or write leaves.\<close>

record 'r kept =
  k_rec :: 'r
  k_loaded :: bool
  k_sector :: 'r
  k_said :: "uart_call list"

record 'r outcome =
  read_ok :: bool
  erase_ok :: bool
  write_ok :: bool
  torn :: 'r

definition sum_words :: "u32 list \<Rightarrow> u32" where
  "sum_words ws = fold (\<lambda>i s. s + (ws ! i XOR (of_nat i * 2654435761))) [0..<length ws] 0"

fun rec_words :: "u8 list \<Rightarrow> u32 list" where
  "rec_words (a # b # c # d # bs) = (ucast a OR push_bit 8 (ucast b) OR push_bit 16 (ucast c) OR push_bit 24 (ucast d)) # rec_words bs"
| "rec_words bs = []"

definition load_rec :: "('r \<Rightarrow> bool) \<Rightarrow> 'r \<Rightarrow> 'r outcome \<Rightarrow> 'r kept \<Rightarrow> 'r kept" where
  "load_rec valid zero fl st =
     (if k_loaded st then st
      else let st1 = st\<lparr>k_loaded := True\<rparr> in
        if \<not> read_ok fl then st1\<lparr>k_rec := zero\<rparr>
        else if valid (k_sector st1) then st1\<lparr>k_rec := k_sector st1\<rparr> else st1\<lparr>k_rec := zero\<rparr>)"

definition save_rec :: "'r outcome \<Rightarrow> 'r kept \<Rightarrow> int \<times> 'r kept" where
  "save_rec fl st =
     (if \<not> erase_ok fl then (-1, st\<lparr>k_sector := torn fl\<rparr>)
      else if \<not> write_ok fl then (-1, st\<lparr>k_sector := torn fl\<rparr>)
      else (0, st\<lparr>k_sector := k_rec st\<rparr>))"

subsection \<open>Credentials (wificred.c)\<close>

abbreviation (input) WIFICRED_SLOTS :: nat where "WIFICRED_SLOTS \<equiv> 8"

record cred_t =
  ssid :: "u8 list"
  pass :: "u8 list"

record cred_rec =
  c_magic :: u32
  c_version :: u32
  c_count :: u32
  c_e :: "cred_t list"
  c_checksum :: u32

definition cred_sum :: "cred_rec \<Rightarrow> u32" where
  "cred_sum r = sum_words ([c_magic r, c_version r, c_count r] @ concat (List.map (\<lambda>e. rec_words (ssid e @ pass e)) (c_e r)))"

definition cred_blank :: cred_t where
  "cred_blank = \<lparr>ssid = replicate 36 0, pass = replicate 68 0\<rparr>"

definition cred_zero :: cred_rec where
  "cred_zero = \<lparr>c_magic = 0x7774616E, c_version = 1, c_count = 0, c_e = replicate WIFICRED_SLOTS cred_blank, c_checksum = 0\<rparr>"

definition cred_valid :: "cred_rec \<Rightarrow> bool" where
  "cred_valid r \<longleftrightarrow> \<not> (c_magic r \<noteq> 0x7774616E \<or> c_version r \<noteq> 1 \<or> unat (c_count r) > WIFICRED_SLOTS \<or> c_checksum r \<noteq> cred_sum r)"

definition cred_load :: "cred_rec outcome \<Rightarrow> cred_rec kept \<Rightarrow> cred_rec kept" where
  "cred_load fl st = load_rec cred_valid cred_zero fl st"

definition cred_find :: "cstring \<Rightarrow> nat \<Rightarrow> cred_rec \<Rightarrow> nat" where
  "cred_find s none r = find_slot (\<lambda>e. same (ssid e) s) none (unat (c_count r)) (c_e r)"

definition wificred_get :: "cred_rec outcome \<Rightarrow> cstring option \<Rightarrow> nat \<Rightarrow> cred_rec kept \<Rightarrow> cstring option \<times> cred_rec kept" where
  "wificred_get fl s mx st =
     (case s of None \<Rightarrow> (None, st)
      | Some name \<Rightarrow>
          if mx = 0 then (None, st)
          else let st1 = cred_load fl st; r = k_rec st1; i = cred_find name (unat (c_count r)) r
               in if i < unat (c_count r) then (Some (get_text (pass (c_e r ! i)) (min (mx - 1) 63)), st1) else (None, st1))"

definition wificred_has :: "cred_rec outcome \<Rightarrow> cstring option \<Rightarrow> cred_rec kept \<Rightarrow> bool \<times> cred_rec kept" where
  "wificred_has fl s st =
     (case s of None \<Rightarrow> (False, st)
      | Some name \<Rightarrow> let st1 = cred_load fl st; r = k_rec st1
          in (cred_find name (unat (c_count r)) r < unat (c_count r), st1))"

definition wificred_count :: "cred_rec outcome \<Rightarrow> cred_rec kept \<Rightarrow> u32 \<times> cred_rec kept" where
  "wificred_count fl st = (let st1 = cred_load fl st in (c_count (k_rec st1), st1))"

definition wificred_forget :: "cred_rec outcome \<Rightarrow> cstring option \<Rightarrow> cred_rec kept \<Rightarrow> int \<times> cred_rec kept" where
  "wificred_forget fl s st =
     (case s of None \<Rightarrow> (-1, st)
      | Some name \<Rightarrow>
          let st1 = cred_load fl st; r = k_rec st1; n = unat (c_count r); at = cred_find name WIFICRED_SLOTS r
          in if at \<ge> n then (-1, st1)
             else
               let r1 = r\<lparr>c_e := close_gap at n cred_blank (c_e r), c_count := c_count r - 1\<rparr>;
                   r2 = r1\<lparr>c_checksum := cred_sum r1\<rparr>;
                   (rc, st2) = save_rec fl (st1\<lparr>k_rec := r2\<rparr>)
               in if rc \<noteq> 0 then (-1, st2)
                  else (0, st2\<lparr>k_said := k_said st2 @ [Puts ''   wificred  forgot '', Puts_var name, Puts ''\<newline>'']\<rparr>))"

definition cred_write :: "cred_t \<Rightarrow> cstring \<Rightarrow> cstring \<Rightarrow> cred_t" where
  "cred_write e s p = e\<lparr>ssid := put_text (ssid e) s 32, pass := put_text (pass e) p 63\<rparr>"

definition wificred_put :: "cred_rec outcome \<Rightarrow> cstring option \<Rightarrow> cstring option \<Rightarrow> cred_rec kept \<Rightarrow> int \<times> cred_rec kept" where
  "wificred_put fl s p st =
     (case (s, p) of
        (Some name, Some pw) \<Rightarrow>
          if char_at name 0 = 0 then (-1, st)
          else
            let st1 = cred_load fl st; r = k_rec st1; n = unat (c_count r);
                (at, n', es) = place_slot WIFICRED_SLOTS (cred_find name n r) n (c_e r);
                r1 = r\<lparr>c_count := of_nat n', c_e := es[at := cred_write (es ! at) name pw], c_magic := 0x7774616E, c_version := 1\<rparr>;
                r2 = r1\<lparr>c_checksum := cred_sum r1\<rparr>;
                (rc, st2) = save_rec fl (st1\<lparr>k_rec := r2\<rparr>)
            in if rc \<noteq> 0 then (-1, st2)
               else (0, st2\<lparr>k_said := k_said st2 @ [Puts ''   wificred  saved '', Puts_var name, Puts ''\<newline>'']\<rparr>)
      | _ \<Rightarrow> (-1, st))"

subsection \<open>Pairwise keys (pmkcache.c)\<close>

abbreviation (input) PMK_SLOTS :: nat where "PMK_SLOTS \<equiv> 8"
abbreviation (input) PMK_LEN :: nat where "PMK_LEN \<equiv> 32"

record pmk_entry =
  p_ssid :: "u8 list"
  p_pmk :: "u8 list"

record pmk_rec =
  p_magic :: u32
  p_version :: u32
  p_count :: u32
  p_e :: "pmk_entry list"
  p_checksum :: u32

definition pmk_sum :: "pmk_rec \<Rightarrow> u32" where
  "pmk_sum r = sum_words ([p_magic r, p_version r, p_count r] @ concat (List.map (\<lambda>e. rec_words (p_ssid e @ p_pmk e)) (p_e r)))"

definition pmk_blank :: pmk_entry where
  "pmk_blank = \<lparr>p_ssid = replicate 36 0, p_pmk = replicate PMK_LEN 0\<rparr>"

definition pmk_zero :: pmk_rec where
  "pmk_zero = \<lparr>p_magic = 0x6B6D7061, p_version = 1, p_count = 0, p_e = replicate PMK_SLOTS pmk_blank, p_checksum = 0\<rparr>"

definition pmk_valid :: "pmk_rec \<Rightarrow> bool" where
  "pmk_valid r \<longleftrightarrow> \<not> (p_magic r \<noteq> 0x6B6D7061 \<or> p_version r \<noteq> 1 \<or> unat (p_count r) > PMK_SLOTS \<or> p_checksum r \<noteq> pmk_sum r)"

definition pmk_load :: "pmk_rec outcome \<Rightarrow> pmk_rec kept \<Rightarrow> pmk_rec kept" where
  "pmk_load fl st = load_rec pmk_valid pmk_zero fl st"

definition pmk_find :: "cstring \<Rightarrow> pmk_rec \<Rightarrow> nat" where
  "pmk_find s r = find_slot (\<lambda>e. same (p_ssid e) s) (unat (p_count r)) (unat (p_count r)) (p_e r)"

definition pmkcache_get :: "pmk_rec outcome \<Rightarrow> cstring option \<Rightarrow> pmk_rec kept \<Rightarrow> u8 list option \<times> pmk_rec kept" where
  "pmkcache_get fl s st =
     (case s of None \<Rightarrow> (None, st)
      | Some name \<Rightarrow> let st1 = pmk_load fl st; r = k_rec st1; i = pmk_find name r
          in if i < unat (p_count r) then (Some (take PMK_LEN (p_pmk (p_e r ! i))), st1) else (None, st1))"

definition pmk_write_back :: "pmk_rec outcome \<Rightarrow> pmk_rec kept \<Rightarrow> int \<times> pmk_rec kept" where
  "pmk_write_back fl st =
     (let r1 = (k_rec st)\<lparr>p_magic := 0x6B6D7061, p_version := 1\<rparr>
      in save_rec fl (st\<lparr>k_rec := r1\<lparr>p_checksum := pmk_sum r1\<rparr>\<rparr>))"

definition pmk_write :: "pmk_entry \<Rightarrow> cstring \<Rightarrow> u8 list \<Rightarrow> pmk_entry" where
  "pmk_write e s k = e\<lparr>p_ssid := put_text (p_ssid e) s 32, p_pmk := take PMK_LEN k @ drop PMK_LEN (p_pmk e)\<rparr>"

definition pmkcache_put :: "pmk_rec outcome \<Rightarrow> cstring option \<Rightarrow> u8 list option \<Rightarrow> pmk_rec kept \<Rightarrow> int \<times> pmk_rec kept" where
  "pmkcache_put fl s k st =
     (case (s, k) of
        (Some name, Some pmk) \<Rightarrow>
          if char_at name 0 = 0 then (-1, st)
          else
            let st1 = pmk_load fl st; r = k_rec st1; n = unat (p_count r);
                (at, n', es) = place_slot PMK_SLOTS (pmk_find name r) n (p_e r);
                (rc, st2) = pmk_write_back fl (st1\<lparr>k_rec := r\<lparr>p_count := of_nat n', p_e := es[at := pmk_write (es ! at) name pmk]\<rparr>\<rparr>)
            in if rc \<noteq> 0 then (-1, st2)
               else (0, st2\<lparr>k_said := k_said st2 @ [Puts ''   pmkcache  stored for '', Puts_var name, Puts ''\<newline>'']\<rparr>)
      | _ \<Rightarrow> (-1, st))"

definition pmkcache_forget :: "pmk_rec outcome \<Rightarrow> cstring option \<Rightarrow> pmk_rec kept \<Rightarrow> pmk_rec kept" where
  "pmkcache_forget fl s st =
     (case s of None \<Rightarrow> st
      | Some name \<Rightarrow>
          let st1 = pmk_load fl st; r = k_rec st1; n = unat (p_count r); at = pmk_find name r
          in if at < n then snd (pmk_write_back fl (st1\<lparr>k_rec := r\<lparr>p_e := close_gap at n pmk_blank (p_e r), p_count := p_count r - 1\<rparr>\<rparr>))
             else st1)"

subsection \<open>Preferences (wifiprefs.c)\<close>

record pref_rec =
  f_magic :: u32
  f_version :: u32
  f_enabled :: u32
  f_chosen :: u32
  f_ssid :: "u8 list"
  f_checksum :: u32

definition pref_sum :: "pref_rec \<Rightarrow> u32" where
  "pref_sum r = sum_words ([f_magic r, f_version r, f_enabled r, f_chosen r] @ rec_words (f_ssid r))"

definition pref_defaults :: pref_rec where
  "pref_defaults = \<lparr>f_magic = 0x66727077, f_version = 2, f_enabled = 1, f_chosen = 0, f_ssid = replicate 36 0, f_checksum = 0\<rparr>"

definition pref_valid :: "pref_rec \<Rightarrow> bool" where
  "pref_valid r \<longleftrightarrow> \<not> (f_magic r \<noteq> 0x66727077 \<or> f_version r \<noteq> 2 \<or> f_checksum r \<noteq> pref_sum r)"

definition pref_load :: "pref_rec outcome \<Rightarrow> pref_rec kept \<Rightarrow> pref_rec kept" where
  "pref_load fl st = load_rec pref_valid pref_defaults fl st"

definition pref_save :: "pref_rec outcome \<Rightarrow> pref_rec kept \<Rightarrow> pref_rec kept" where
  "pref_save fl st =
     (let r1 = (k_rec st)\<lparr>f_magic := 0x66727077, f_version := 2\<rparr>
      in snd (save_rec fl (st\<lparr>k_rec := r1\<lparr>f_checksum := pref_sum r1\<rparr>\<rparr>)))"

definition wifiprefs_enabled :: "pref_rec outcome \<Rightarrow> pref_rec kept \<Rightarrow> bool \<times> pref_rec kept" where
  "wifiprefs_enabled fl st = (let st1 = pref_load fl st in (f_enabled (k_rec st1) \<noteq> 0, st1))"

definition wifiprefs_chosen :: "pref_rec outcome \<Rightarrow> pref_rec kept \<Rightarrow> bool \<times> pref_rec kept" where
  "wifiprefs_chosen fl st = (let st1 = pref_load fl st in (f_chosen (k_rec st1) \<noteq> 0, st1))"

definition wifiprefs_network :: "pref_rec outcome \<Rightarrow> pref_rec kept \<Rightarrow> cstring \<times> pref_rec kept" where
  "wifiprefs_network fl st = (let st1 = pref_load fl st in (get_text (f_ssid (k_rec st1)) 36, st1))"

definition wifiprefs_set_chosen :: "pref_rec outcome \<Rightarrow> pref_rec kept \<Rightarrow> pref_rec kept" where
  "wifiprefs_set_chosen fl st =
     (let st1 = pref_load fl st in
      if f_chosen (k_rec st1) \<noteq> 0 then st1
      else let st2 = pref_save fl (st1\<lparr>k_rec := (k_rec st1)\<lparr>f_chosen := 1\<rparr>\<rparr>)
           in st2\<lparr>k_said := k_said st2 @ [Puts ''   wifiprefs user choice recorded\<newline>'']\<rparr>)"

definition wifiprefs_set_enabled :: "pref_rec outcome \<Rightarrow> bool \<Rightarrow> pref_rec kept \<Rightarrow> pref_rec kept" where
  "wifiprefs_set_enabled fl on st =
     (let st1 = pref_load fl st; want = (if on then 1 else 0) in
      if f_enabled (k_rec st1) = want then st1
      else let st2 = pref_save fl (st1\<lparr>k_rec := (k_rec st1)\<lparr>f_enabled := want\<rparr>\<rparr>)
           in st2\<lparr>k_said := k_said st2 @ [Puts (if on then ''   wifiprefs enabled\<newline>'' else ''   wifiprefs disabled\<newline>'')]\<rparr>)"

definition wifiprefs_set_network :: "pref_rec outcome \<Rightarrow> cstring option \<Rightarrow> pref_rec kept \<Rightarrow> pref_rec kept" where
  "wifiprefs_set_network fl s st =
     (case s of None \<Rightarrow> st
      | Some name \<Rightarrow>
          let st1 = pref_load fl st in
          if same (f_ssid (k_rec st1)) name then st1
          else let st2 = pref_save fl (st1\<lparr>k_rec := (k_rec st1)\<lparr>f_ssid := put_text (f_ssid (k_rec st1)) name 32, f_chosen := 1\<rparr>\<rparr>)
               in st2\<lparr>k_said := k_said st2 @ [Puts ''   wifiprefs network '', Puts_var (get_text (f_ssid (k_rec st2)) 36), Puts ''\<newline>'']\<rparr>)"

subsection \<open>The tables implement their contract\<close>

definition cred_shape :: "cred_t \<Rightarrow> bool" where "cred_shape e \<longleftrightarrow> length (ssid e) = 36 \<and> length (pass e) = 68"
definition cred_good :: "cred_t \<Rightarrow> bool" where "cred_good e \<longleftrightarrow> cred_shape e \<and> named (ssid e)"
definition pmk_shape :: "pmk_entry \<Rightarrow> bool" where "pmk_shape e \<longleftrightarrow> length (p_ssid e) = 36 \<and> length (p_pmk e) = PMK_LEN"
definition pmk_good :: "pmk_entry \<Rightarrow> bool" where "pmk_good e \<longleftrightarrow> pmk_shape e \<and> named (p_ssid e)"

lemma named_put_text: "length buf = 36 \<Longrightarrow> 0 \<notin> set s \<Longrightarrow> named (put_text buf s 32)"
  by (simp add: named_def length_put_text) (simp add: put_text_eq take_Cons' min_def)

interpretation cred_table: keyed_slots "\<lambda>e. get_text (ssid e) 36" "\<lambda>e. get_text (pass e) 63" cred_write "take 63"
    "\<lambda>e s. same (ssid e) s" cred_good cred_shape "\<lambda>p. 0 \<notin> set p" WIFICRED_SLOTS
  by unfold_locales
    (auto simp: cred_good_def cred_shape_def cred_write_def net_name_def length_put_text named_put_text get_put_text same_name)

interpretation pmk_table: keyed_slots "\<lambda>e. get_text (p_ssid e) 36" "\<lambda>e. take PMK_LEN (p_pmk e)" pmk_write "take PMK_LEN"
    "\<lambda>e s. same (p_ssid e) s" pmk_good pmk_shape "\<lambda>k. length k = PMK_LEN" PMK_SLOTS
  by unfold_locales
    (auto simp: pmk_good_def pmk_shape_def pmk_write_def net_name_def length_put_text named_put_text get_put_text same_name)

definition cred_view :: "cred_rec \<Rightarrow> (cstring \<times> cstring) list" where
  "cred_view r = List.map (\<lambda>e. (get_text (ssid e) 36, get_text (pass e) 63)) (take (unat (c_count r)) (c_e r))"

definition pmk_view :: "pmk_rec \<Rightarrow> (cstring \<times> u8 list) list" where
  "pmk_view r = List.map (\<lambda>e. (get_text (p_ssid e) 36, take PMK_LEN (p_pmk e))) (take (unat (p_count r)) (p_e r))"

definition cred_ok :: "cred_rec \<Rightarrow> bool" where
  "cred_ok r \<longleftrightarrow> cred_table.table_ok (unat (c_count r)) (c_e r) \<and> c_magic r = 0x7774616E \<and> c_version r = 1"

definition pmk_ok :: "pmk_rec \<Rightarrow> bool" where
  "pmk_ok r \<longleftrightarrow> pmk_table.table_ok (unat (p_count r)) (p_e r)"

lemmas cred_view_table = cred_view_def [folded cred_table.view_def]
lemmas pmk_view_table = pmk_view_def [folded pmk_table.view_def]

lemma get_text_min: "get_text buf (min a b) = take a (get_text buf b)"
proof -
  have "takeWhile P (take n xs) = take n (takeWhile P xs)" for P :: "u8 \<Rightarrow> bool" and n xs
    by (induction xs arbitrary: n) (auto simp: take_Cons')
  then show ?thesis by (simp add: get_text_def)
qed

lemma place_count: "place_slot 8 at n es = (i, n', es') \<Longrightarrow> n \<le> 8 \<Longrightarrow> at \<le> n \<Longrightarrow> n' \<le> 8"
  by (auto simp: place_slot_def split: if_splits)

lemma find_slot_le: "find_slot p n n es \<le> n"
  by (simp add: find_slot_def Let_def)

lemma cred_put_rec:
  assumes "cred_ok (k_rec (cred_load fl st))" "net_name s" "0 \<notin> set p" "wificred_put fl (Some s) (Some p) st = (rc, st')"
  shows "cred_view (k_rec st') = assoc_put WIFICRED_SLOTS s (take 63 p) (cred_view (k_rec (cred_load fl st)))"
    and "cred_ok (k_rec st')" "cred_valid (k_rec st')" "rc = 0 \<Longrightarrow> k_sector st' = k_rec st'"
proof -
  define r where "r = k_rec (cred_load fl st)"
  define n where "n = unat (c_count r)"
  obtain at n' es where pl: "place_slot WIFICRED_SLOTS (cred_find s n r) n (c_e r) = (at, n', es)" by (metis prod.exhaust)
  define r2 where "r2 = (let r1 = r\<lparr>c_count := of_nat n', c_e := es[at := cred_write (es ! at) s p], c_magic := 0x7774616E, c_version := 1\<rparr>
     in r1\<lparr>c_checksum := cred_sum r1\<rparr>)"
  have t: "cred_table.table_ok n (c_e r)" using assms(1) by (simp add: cred_ok_def r_def n_def)
  have "n \<le> 8" using t by (simp add: cred_table.table_ok_def)
  then have n8: "n' \<le> 8" using place_count [OF pl] find_slot_le by (auto simp: cred_find_def n_def)
  then have n': "n' \<le> 8" "unat (of_nat n' :: u32) = n'" by (simp_all add: unat_of_nat)
  have c0: "char_at s 0 \<noteq> 0" using assms(2) by (cases s) (auto simp: net_name_def char_at_def)
  have st': "k_rec st' = r2 \<and> (rc = 0 \<longrightarrow> k_sector st' = r2)"
    using assms(4) pl c0 by (auto simp: wificred_put_def Let_def r_def [symmetric] n_def [symmetric] r2_def save_rec_def split: if_splits)
  note P = cred_table.table_put [OF t assms(2,3), of at n' es] pl [unfolded cred_find_def n_def [symmetric]]
  have rr: "c_e r2 = es[at := cred_write (es ! at) s p]" "unat (c_count r2) = n'"
    by (simp_all add: r2_def Let_def n')
  show "cred_view (k_rec st') = assoc_put WIFICRED_SLOTS s (take 63 p) (cred_view (k_rec (cred_load fl st)))"
    using P by (simp add: st' cred_view_table rr r_def [symmetric] n_def [symmetric])
  show "cred_ok (k_rec st')" using P by (simp add: st' cred_ok_def rr) (simp add: r2_def Let_def)
  show "cred_valid (k_rec st')" using n' by (simp add: st' cred_valid_def rr(2)) (simp add: r2_def Let_def cred_sum_def)
  show "rc = 0 \<Longrightarrow> k_sector st' = k_rec st'" using st' by simp
qed

lemma cred_forget_rec:
  assumes "cred_ok (k_rec (cred_load fl st))" "0 \<notin> set s" "wificred_forget fl (Some s) st = (rc, st')"
    and "s \<in> fst ` set (cred_view (k_rec (cred_load fl st)))"
  shows "cred_view (k_rec st') = assoc_forget s (cred_view (k_rec (cred_load fl st)))"
    and "cred_ok (k_rec st')" "cred_valid (k_rec st')" "rc = 0 \<Longrightarrow> k_sector st' = k_rec st'"
    and "\<exists>at < unat (c_count (k_rec (cred_load fl st))). c_e (k_rec st') = close_gap at (unat (c_count (k_rec (cred_load fl st)))) cred_blank (c_e (k_rec (cred_load fl st)))
      \<and> get_text (ssid (c_e (k_rec (cred_load fl st)) ! at)) 36 = s"
proof -
  define r where "r = k_rec (cred_load fl st)"
  define n where "n = unat (c_count r)"
  define at where "at = cred_find s WIFICRED_SLOTS r"
  define r2 where "r2 = (let r1 = r\<lparr>c_e := close_gap at n cred_blank (c_e r), c_count := c_count r - 1\<rparr> in r1\<lparr>c_checksum := cred_sum r1\<rparr>)"
  have ok: "cred_ok r" using assms(1) by (simp add: r_def)
  then have t: "cred_table.table_ok n (c_e r)" by (simp add: cred_ok_def n_def)
  have n8: "n \<le> 8" using t by (simp add: cred_table.table_ok_def)
  have v: "cred_view r = cred_table.view n (c_e r)" by (simp add: cred_view_table n_def)
  have f: "at < n" "get_text (ssid (c_e r ! at)) 36 = s"
    using cred_table.found [OF t assms(2), of WIFICRED_SLOTS] assms(4) by (auto simp: at_def cred_find_def n_def [symmetric] r_def [symmetric] v)
  have "c_count r \<noteq> 0" using f(1) by (auto simp: n_def)
  then have c1: "unat (c_count r - 1) = n - 1" by (simp add: n_def unat_minus_one)
  have st': "k_rec st' = r2 \<and> (rc = 0 \<longrightarrow> k_sector st' = r2)"
    using assms(3) f(1)
    by (auto simp: wificred_forget_def Let_def r_def [symmetric] n_def [symmetric] at_def [symmetric] r2_def save_rec_def split: if_splits)
  have bl: "cred_shape cred_blank" by (simp add: cred_shape_def cred_blank_def)
  note F = cred_table.table_forget [OF t f(1) bl]
  have rr: "c_e r2 = close_gap at n cred_blank (c_e r)" "unat (c_count r2) = n - 1" by (simp_all add: r2_def Let_def c1)
  show "cred_view (k_rec st') = assoc_forget s (cred_view (k_rec (cred_load fl st)))"
    using F(1) by (simp add: st' cred_view_table rr r_def [symmetric] n_def [symmetric] f(2))
  show "cred_ok (k_rec st')" using F(2) ok by (simp add: st' cred_ok_def rr) (simp add: r2_def Let_def)
  show "cred_valid (k_rec st')" using n8 ok by (simp add: st' cred_valid_def rr(2)) (simp add: r2_def Let_def cred_sum_def cred_ok_def)
  show "rc = 0 \<Longrightarrow> k_sector st' = k_rec st'" using st' by simp
  show "\<exists>at < unat (c_count (k_rec (cred_load fl st))). c_e (k_rec st') = close_gap at (unat (c_count (k_rec (cred_load fl st)))) cred_blank (c_e (k_rec (cred_load fl st)))
      \<and> get_text (ssid (c_e (k_rec (cred_load fl st)) ! at)) 36 = s"
    using f by (intro exI [of _ at]) (simp add: st' rr r_def [symmetric] n_def [symmetric])
qed

lemma map_of_view:
  assumes "distinct (List.map f xs)" "i < length xs" "f (xs ! i) = k"
  shows "map_of (List.map (\<lambda>e. (f e, g e)) xs) k = Some (g (xs ! i))"
proof (rule map_of_is_SomeI)
  show "distinct (List.map fst (List.map (\<lambda>e. (f e, g e)) xs))" using assms(1) by (simp add: comp_def)
  have "xs ! i \<in> set xs" using assms(2) by simp
  then show "(k, g (xs ! i)) \<in> set (List.map (\<lambda>e. (f e, g e)) xs)" using assms(3) by force
qed

lemma cred_get_rec:
  assumes "cred_ok (k_rec (cred_load fl st))" "0 \<notin> set s" "0 < mx"
  shows "fst (wificred_get fl (Some s) mx st) = map_option (take (mx - 1)) (map_of (cred_view (k_rec (cred_load fl st))) s)"
proof -
  define r where "r = k_rec (cred_load fl st)"
  define n where "n = unat (c_count r)"
  have t: "cred_table.table_ok n (c_e r)" using assms(1) by (simp add: cred_ok_def r_def n_def)
  have v: "cred_view r = cred_table.view n (c_e r)" by (simp add: cred_view_table n_def)
  let ?at = "cred_find s n r"
  have at: "?at = find_slot (\<lambda>e. same (ssid e) s) n n (c_e r)" by (simp add: cred_find_def n_def)
  have len: "n \<le> length (c_e r)" "distinct (List.map (\<lambda>e. get_text (ssid e) 36) (take n (c_e r)))" using t by (auto simp: cred_table.table_ok_def)
  have g: "fst (wificred_get fl (Some s) mx st) = (if ?at < n then Some (get_text (pass (c_e r ! ?at)) (min (mx - 1) 63)) else None)"
    using assms(3) by (simp add: wificred_get_def Let_def r_def [symmetric] n_def [symmetric])
  show ?thesis
  proof (cases "s \<in> fst ` set (cred_view r)")
    case True
    with cred_table.found [OF t assms(2), of n] v at have f: "?at < n" "get_text (ssid (c_e r ! ?at)) 36 = s" by auto
    have "map_of (cred_view r) s = Some (get_text (pass (c_e r ! ?at)) 63)"
      unfolding v cred_table.view_def using map_of_view [OF len(2), of ?at s "\<lambda>e. get_text (pass e) 63"] f len(1) by simp
    then show ?thesis using g f by (simp add: r_def [symmetric] get_text_min)
  next
    case False
    have nf: "\<not> ?at < n"
    proof
      assume a: "?at < n"
      then have "get_text (ssid (c_e r ! ?at)) 36 = s" using cred_table.found [OF t assms(2), of n] at by auto
      then show False using False a len(1) by (force simp: v cred_table.view_def in_set_conv_nth image_iff)
    qed
    then show ?thesis using g False by (simp add: r_def [symmetric] map_of_eq_None_iff [THEN iffD2])
  qed
qed

text \<open>
  Saved networks are a bounded map (C33): storing a network replaces its password or appends it, dropping the oldest when eight
  are known; forgetting one removes it and no other; looking one up returns its password, cut to the caller's
  buffer, and nothing for a name not stored. All three hold whether or not the flash accepts the write.
\<close>

theorem wificred_refines:
  assumes "cred_ok (k_rec (cred_load fl st))" "net_name s" "0 \<notin> set p" "0 < mx"
  shows "cred_view (k_rec (snd (wificred_put fl (Some s) (Some p) st))) = assoc_put WIFICRED_SLOTS s (take 63 p) (cred_view (k_rec (cred_load fl st)))
    \<and> cred_ok (k_rec (snd (wificred_put fl (Some s) (Some p) st)))
    \<and> (s \<in> fst ` set (cred_view (k_rec (cred_load fl st))) \<longrightarrow>
        cred_view (k_rec (snd (wificred_forget fl (Some s) st))) = assoc_forget s (cred_view (k_rec (cred_load fl st)))
        \<and> cred_ok (k_rec (snd (wificred_forget fl (Some s) st))))
    \<and> fst (wificred_get fl (Some s) mx st) = map_option (take (mx - 1)) (map_of (cred_view (k_rec (cred_load fl st))) s)"
proof -
  have s0: "0 \<notin> set s" using assms(2) by (simp add: net_name_def)
  obtain rc st1 where p: "wificred_put fl (Some s) (Some p) st = (rc, st1)" by (rule prod.exhaust)
  obtain rc' st2 where f: "wificred_forget fl (Some s) st = (rc', st2)" by (rule prod.exhaust)
  show ?thesis
    using cred_put_rec(1,2) [OF assms(1-3) p] cred_forget_rec(1,2) [OF assms(1) s0 f] cred_get_rec [OF assms(1) s0 assms(4)] by (simp add: p f)
qed

text \<open>
  What was saved is what the next boot reads: when a store or a removal reports success, a kernel that starts with the
  same flash loads exactly the record this one has.
\<close>

theorem wificred_boot:
  assumes "cred_ok (k_rec (cred_load fl st))" "net_name s" "0 \<notin> set p" "read_ok fl'" "\<not> k_loaded boot"
  shows "(wificred_put fl (Some s) (Some p) st = (0, st') \<and> k_sector boot = k_sector st' \<longrightarrow> k_rec (cred_load fl' boot) = k_rec st')
    \<and> (wificred_forget fl (Some s) st = (0, st') \<and> k_sector boot = k_sector st'
        \<and> s \<in> fst ` set (cred_view (k_rec (cred_load fl st))) \<longrightarrow> k_rec (cred_load fl' boot) = k_rec st')"
proof -
  have s0: "0 \<notin> set s" using assms(2) by (simp add: net_name_def)
  have l: "cred_valid (k_sector boot) \<Longrightarrow> k_rec (cred_load fl' boot) = k_sector boot"
    using assms(4,5) by (simp add: cred_load_def load_rec_def Let_def)
  show ?thesis
    using cred_put_rec(3,4) [OF assms(1-3), of 0 st'] cred_forget_rec(3,4) [OF assms(1) s0, of 0 st'] l by auto
qed

lemma put_full_entries:
  assumes "cred_ok (k_rec (cred_load fl st))" "net_name s" "c_count (k_rec (cred_load fl st)) = 8"
    and "s \<notin> fst ` set (cred_view (k_rec (cred_load fl st)))" "wificred_put fl (Some s) (Some p) st = (0, st')"
  shows "c_e (k_rec st') = tl (c_e (k_rec (cred_load fl st))) @ [cred_write (last (c_e (k_rec (cred_load fl st)))) s p]" "k_loaded st'"
proof -
  define r where "r = k_rec (cred_load fl st)"
  have s0: "0 \<notin> set s" using assms(2) by (simp add: net_name_def)
  have c0: "char_at s 0 \<noteq> 0" using assms(2) by (cases s) (auto simp: net_name_def char_at_def)
  have n: "unat (c_count r) = 8" using assms(3) by (simp add: r_def)
  have t: "cred_table.table_ok 8 (c_e r)" using assms(1) n by (simp add: cred_ok_def r_def)
  have v: "cred_view r = cred_table.view 8 (c_e r)" by (simp add: cred_view_table n)
  have le: "length (c_e r) = 8" using t by (simp add: cred_table.table_ok_def)
  have "find_slot (\<lambda>e. same (ssid e) s) 8 8 (c_e r) = 8"
    using cred_table.found [OF t s0, of 8] assms(4) le by (force simp: r_def [symmetric] v cred_table.view_def in_set_conv_nth image_iff)
  then have pl: "place_slot WIFICRED_SLOTS (cred_find s 8 r) 8 (c_e r) = (7, 8, tl (c_e r) @ [last (c_e r)])"
    by (simp add: cred_find_def n place_slot_def)
  have "(tl (c_e r) @ [last (c_e r)])[7 := cred_write ((tl (c_e r) @ [last (c_e r)]) ! 7) s p] = tl (c_e r) @ [cred_write (last (c_e r)) s p]"
    using le by (simp add: nth_append list_update_append)
  then show "c_e (k_rec st') = tl (c_e (k_rec (cred_load fl st))) @ [cred_write (last (c_e (k_rec (cred_load fl st)))) s p]"
    using assms(5) pl c0 by (auto simp: wificred_put_def Let_def r_def [symmetric] n save_rec_def split: if_splits)
  show "k_loaded st'"
    using assms(5) pl c0
    by (auto simp: wificred_put_def Let_def r_def [symmetric] n save_rec_def split: if_splits) (auto simp: cred_load_def load_rec_def Let_def split: if_splits)
qed

text \<open>
  A forgotten passphrase can stay in flash: in a full table a new network takes over the bytes of the last entry, which the
  shift has just copied one place down, and writes over only as many as it needs. Forgetting that last network afterwards
  reports success and removes its entry, but the end of its passphrase remains in the sector, behind the terminator of the
  new one.
\<close>

theorem wificred_forget_leaves:
  assumes "cred_ok (k_rec (cred_load fl st))" "c_count (k_rec (cred_load fl st)) = 8"
    and "net_name s" "0 \<notin> set p" "length p \<le> 63" "s \<notin> fst ` set (cred_view (k_rec (cred_load fl st)))"
    and "k = get_text (ssid (last (c_e (k_rec (cred_load fl st))))) 36"
    and "wificred_put fl (Some s) (Some p) st = (0, st1)" "wificred_forget fl2 (Some k) st1 = (0, st2)"
  shows "k \<notin> fst ` set (cred_view (k_sector st2))
    \<and> (\<exists>e \<in> set (c_e (k_sector st2)). drop (Suc (length p)) (pass e) = drop (Suc (length p)) (pass (last (c_e (k_rec (cred_load fl st))))))"
proof -
  define r where "r = k_rec (cred_load fl st)"
  let ?w = "cred_write (last (c_e r)) s p"
  have n: "unat (c_count r) = 8" using assms(2) by (simp add: r_def)
  have t: "cred_table.table_ok 8 (c_e r)" using assms(1) n by (simp add: cred_ok_def r_def)
  have le: "length (c_e r) = 8" "c_e r \<noteq> []" using t by (auto simp: cred_table.table_ok_def)
  have sh: "cred_shape (last (c_e r))" using t le(2) by (simp add: cred_table.table_ok_def)
  have E: "c_e (k_rec st1) = tl (c_e r) @ [?w]" "k_loaded st1"
    using put_full_entries [OF assms(1,3,2,6,8)] by (simp_all add: r_def)
  have ld: "cred_load fl2 st1 = st1" using E(2) by (simp add: cred_load_def load_rec_def)
  have V: "cred_view (k_rec st1) = assoc_put WIFICRED_SLOTS s (take 63 p) (cred_view r)" "cred_ok (k_rec st1)"
    using cred_put_rec(1,2) [OF assms(1,3,4,8)] by (simp_all add: r_def)
  have last_in: "last (c_e r) \<in> set (tl (c_e r))"
  proof -
    have "length (tl (c_e r)) = 7" using le(1) by simp
    then have ne: "tl (c_e r) \<noteq> []" by (metis list.size(3) zero_neq_numeral)
    then show ?thesis using last_in_set [OF ne] last_tl [of "c_e r"] by simp
  qed
  have lv: "k \<in> fst ` set (cred_view r)" "k \<noteq> s"
  proof -
    have vw: "cred_view r = List.map (\<lambda>e. (get_text (ssid e) 36, get_text (pass e) 63)) (c_e r)" using le n by (simp add: cred_view_def)
    have "k = get_text (ssid (last (c_e r))) 36" using assms(7) by (simp add: r_def)
    then show "k \<in> fst ` set (cred_view r)" using last_in_set [OF le(2)] by (simp add: vw image_image)
    with assms(6) show "k \<noteq> s" by (auto simp: r_def)
  qed
  have lk: "length (cred_view r) = 8" using le by (simp add: cred_view_def n)
  have k0: "0 \<notin> set k" by (auto simp: assms(7) get_text_def dest: set_takeWhileD)
  have kin: "k \<in> fst ` set (cred_view (k_rec (cred_load fl2 st1)))"
  proof -
    have "length (c_e (k_rec st1)) = 8" "unat (c_count (k_rec st1)) = 8"
    proof -
      show l8: "length (c_e (k_rec st1)) = 8" using le by (simp add: E(1))
      have "length (cred_view (k_rec st1)) = 8"
        using lk assms(6) by (simp add: V(1) assoc_put_def r_def)
      then show "unat (c_count (k_rec st1)) = 8"
        using V(2) l8 by (simp add: cred_view_def cred_ok_def cred_table.table_ok_def min_def split: if_splits)
    qed
    then have vw: "cred_view (k_rec st1) = List.map (\<lambda>e. (get_text (ssid e) 36, get_text (pass e) 63)) (tl (c_e r) @ [?w])"
      by (simp add: cred_view_def E(1))
    have "k = get_text (ssid (last (c_e r))) 36" using assms(7) by (simp add: r_def)
    then show ?thesis using last_in by (simp add: ld vw image_image)
  qed
  have ok2: "cred_ok (k_rec (cred_load fl2 st1))" using V(2) by (simp add: ld)
  note F = cred_forget_rec [OF ok2 k0 assms(9) kin]
  have sec: "k_sector st2 = k_rec st2" using F(4) by simp
  obtain at where at: "at < unat (c_count (k_rec st1))" "c_e (k_rec st2) = close_gap at (unat (c_count (k_rec st1))) cred_blank (c_e (k_rec st1))"
    "get_text (ssid (c_e (k_rec st1) ! at)) 36 = k" using F(5) by (auto simp: ld)
  have key: "get_text (ssid ?w) 36 = s" using cred_table.write_key [OF sh assms(3,4)] .
  have l1: "length (c_e (k_rec st1)) = 8" "unat (c_count (k_rec st1)) \<le> 8"
    using V(2) by (auto simp: cred_ok_def cred_table.table_ok_def)
  have last1: "c_e (k_rec st1) ! 7 = ?w" using le by (simp add: E(1) nth_append)
  have "at \<noteq> 7" using at(3) key lv(2) last1 by auto
  have "?w \<in> set (c_e (k_rec st2))"
  proof -
    have "c_e (k_rec st1) = take at (c_e (k_rec st1)) @ c_e (k_rec st1) ! at # drop (Suc at) (c_e (k_rec st1))"
      using at(1) l1 by (intro id_take_nth_drop) simp
    moreover have "?w \<noteq> c_e (k_rec st1) ! at" using at(3) key lv(2) by auto
    moreover have "?w \<in> set (c_e (k_rec st1))" by (simp add: E(1))
    ultimately have "?w \<in> set (take at (c_e (k_rec st1)) @ drop (Suc at) (c_e (k_rec st1)))" by (metis Un_iff set_ConsD set_append)
    moreover have "set (take at es @ drop (Suc at) es) \<subseteq> set (close_gap at m b es)" for m and b :: cred_t and es
    proof -
      have "set (drop (Suc at) es) \<subseteq> set (drop (Suc at) (take m es)) \<union> set (drop m es)"
      proof
        fix x assume "x \<in> set (drop (Suc at) es)"
        then obtain j where j: "j < length es - Suc at" "x = es ! (Suc at + j)" by (auto simp: in_set_conv_nth)
        show "x \<in> set (drop (Suc at) (take m es)) \<union> set (drop m es)"
        proof (cases "Suc at + j < m")
          case True
          then have "drop (Suc at) (take m es) ! j = x" "j < length (drop (Suc at) (take m es))" using j by simp_all
          then show ?thesis using nth_mem by blast
        next
          case False
          then have "drop m es ! (Suc at + j - m) = x" "Suc at + j - m < length (drop m es)" using j by simp_all
          then show ?thesis using nth_mem by blast
        qed
      qed
      then show ?thesis by (auto simp: close_gap_def)
    qed
    ultimately show ?thesis unfolding at(2) by (rule subsetD [rotated])
  qed
  moreover have "drop (Suc (length p)) (pass ?w) = drop (Suc (length p)) (pass (last (c_e r)))"
    using assms(4,5) by (simp add: cred_write_def put_text_eq)
  moreover have "k \<notin> fst ` set (cred_view (k_rec st2))" by (auto simp: F(1) assoc_forget_def)
  ultimately show ?thesis by (auto simp: sec r_def)
qed

text \<open>
  Saved keys are a bounded map: the cache of pairwise keys replaces, appends and drops as the table of credentials does;
  a key is returned whole; forgetting a network removes its key and no other.
\<close>

theorem pmkcache_refines:
  assumes "pmk_ok (k_rec (pmk_load fl st))" "net_name s" "length k = PMK_LEN"
  shows "pmk_view (k_rec (snd (pmkcache_put fl (Some s) (Some k) st))) = assoc_put PMK_SLOTS s k (pmk_view (k_rec (pmk_load fl st)))
    \<and> pmk_ok (k_rec (snd (pmkcache_put fl (Some s) (Some k) st)))
    \<and> pmk_view (k_rec (pmkcache_forget fl (Some s) st)) = assoc_forget s (pmk_view (k_rec (pmk_load fl st)))
    \<and> fst (pmkcache_get fl (Some s) st) = map_of (pmk_view (k_rec (pmk_load fl st))) s"
proof -
  define r where "r = k_rec (pmk_load fl st)"
  define n where "n = unat (p_count r)"
  let ?at = "pmk_find s r"
  have t: "pmk_table.table_ok n (p_e r)" using assms(1) by (simp add: pmk_ok_def r_def n_def)
  have n8: "n \<le> 8" "length (p_e r) = 8" using t by (auto simp: pmk_table.table_ok_def)
  have s0: "0 \<notin> set s" using assms(2) by (simp add: net_name_def)
  have c0: "char_at s 0 \<noteq> 0" using assms(2) by (cases s) (auto simp: net_name_def char_at_def)
  have v: "pmk_view r = pmk_table.view n (p_e r)" by (simp add: pmk_view_table n_def)
  have at: "?at = find_slot (\<lambda>e. same (p_ssid e) s) n n (p_e r)" by (simp add: pmk_find_def n_def)
  have in_view: "s \<in> fst ` set (pmk_view r)" if "?at < n"
  proof -
    have "get_text (p_ssid (p_e r ! ?at)) 36 = s" using pmk_table.found [OF t s0, of n] at that by auto
    moreover have "p_e r ! ?at \<in> set (take n (p_e r))" using that n8 nth_mem [of ?at "take n (p_e r)"] by simp
    ultimately show ?thesis by (force simp: v pmk_table.view_def)
  qed
  obtain i n' es where pl: "place_slot PMK_SLOTS ?at n (p_e r) = (i, n', es)" by (metis prod.exhaust)
  have n': "n' \<le> 8" using place_count [OF pl n8(1)] find_slot_le [of "\<lambda>e. same (p_ssid e) s" n] unfolding at by blast
  then have un: "unat (of_nat n' :: u32) = n'" by (simp add: unat_of_nat)
  note P = pmk_table.table_put [OF t assms(2,3) pl [unfolded at]]
  have put: "p_e (k_rec (snd (pmkcache_put fl (Some s) (Some k) st))) = es[i := pmk_write (es ! i) s k]"
    "unat (p_count (k_rec (snd (pmkcache_put fl (Some s) (Some k) st)))) = n'"
    using pl c0 un by (simp_all add: pmkcache_put_def Let_def r_def [symmetric] n_def [symmetric] pmk_write_back_def save_rec_def)
  have fg: "pmk_view (k_rec (pmkcache_forget fl (Some s) st)) = assoc_forget s (pmk_view r)"
  proof (cases "?at < n")
    case True
    then have key: "get_text (p_ssid (p_e r ! ?at)) 36 = s" using pmk_table.found [OF t s0, of n] at by auto
    have "p_count r \<noteq> 0" using True by (auto simp: n_def)
    then have c1: "unat (p_count r - 1) = n - 1" by (simp add: n_def unat_minus_one)
    have bl: "pmk_shape pmk_blank" by (simp add: pmk_shape_def pmk_blank_def)
    have e: "p_e (k_rec (pmkcache_forget fl (Some s) st)) = close_gap ?at n pmk_blank (p_e r)"
      "unat (p_count (k_rec (pmkcache_forget fl (Some s) st))) = n - 1"
      using True c1 by (simp_all add: pmkcache_forget_def Let_def r_def [symmetric] n_def [symmetric] pmk_write_back_def save_rec_def)
    show ?thesis using pmk_table.table_forget(1) [OF t True bl] by (simp add: pmk_view_table e n_def [symmetric] key)
  next
    case False
    then have "k_rec (pmkcache_forget fl (Some s) st) = r"
      by (simp add: pmkcache_forget_def Let_def r_def n_def)
    moreover have "s \<notin> fst ` set (pmk_view r)" using pmk_table.found [OF t s0, of n] at False v by auto
    ultimately show ?thesis by (force simp: assoc_forget_def intro!: filter_True [symmetric])
  qed
  have get: "fst (pmkcache_get fl (Some s) st) = map_of (pmk_view r) s"
  proof (cases "?at < n")
    case True
    then have key: "get_text (p_ssid (p_e r ! ?at)) 36 = s" using pmk_table.found [OF t s0, of n] at by auto
    have d: "distinct (List.map (\<lambda>e. get_text (p_ssid e) 36) (take n (p_e r)))" using t by (simp add: pmk_table.table_ok_def)
    have "map_of (pmk_view r) s = Some (take PMK_LEN (p_pmk (p_e r ! ?at)))"
      unfolding v pmk_table.view_def using map_of_view [OF d, of ?at s "\<lambda>e. take PMK_LEN (p_pmk e)"] True key n8 by simp
    then show ?thesis using True by (simp add: pmkcache_get_def Let_def r_def [symmetric] n_def [symmetric])
  next
    case False
    then have "s \<notin> fst ` set (pmk_view r)" using pmk_table.found [OF t s0, of n] at v by auto
    then show ?thesis using False by (simp add: pmkcache_get_def Let_def r_def [symmetric] n_def [symmetric] map_of_eq_None_iff [THEN iffD2])
  qed
  have k: "take PMK_LEN k = k" using assms(3) by simp
  show ?thesis
    using P fg get by (simp add: pmk_view_table put pmk_ok_def k r_def [symmetric] n_def [symmetric])
qed

text \<open>
  Preferences survive a restart and spare the flash: setting what is already set leaves the sector and the record alone;
  setting something new, when the flash accepts it, is what the next boot reads.
\<close>

theorem wifiprefs_settle:
  assumes "k_loaded st" "named (f_ssid (k_rec st))" "net_name s" "read_ok fl'" "\<not> k_loaded boot"
  shows "wifiprefs_set_network fl (Some s) (wifiprefs_set_network fl (Some s) st) = wifiprefs_set_network fl (Some s) st
    \<and> wifiprefs_set_enabled fl on (wifiprefs_set_enabled fl on st) = wifiprefs_set_enabled fl on st
    \<and> fst (wifiprefs_network fl (wifiprefs_set_network fl (Some s) st)) = s
    \<and> (erase_ok fl \<and> write_ok fl \<and> get_text (f_ssid (k_rec st)) 36 \<noteq> s
        \<and> k_sector boot = k_sector (wifiprefs_set_network fl (Some s) st) \<longrightarrow>
        fst (wifiprefs_network fl' boot) = s \<and> fst (wifiprefs_chosen fl' boot))"
proof -
  have s: "0 \<notin> set s" "length s \<le> 32" using assms(3) by (auto simp: net_name_def)
  have la: "length (f_ssid (k_rec st)) = 36" using assms(2) by (simp add: named_def)
  define b where "b = put_text (f_ssid (k_rec st)) s 32"
  have nb: "named b" using named_put_text [OF la s(1)] by (simp add: b_def)
  have gb: "get_text b 36 = s" using get_put_text [OF s(1)] s(2) by (simp add: b_def)
  have sb: "same b s" using same_name [OF nb s(1)] gb by simp
  have sm: "same (f_ssid (k_rec st)) s \<longleftrightarrow> get_text (f_ssid (k_rec st)) 36 = s" by (rule same_name [OF assms(2) s(1)])
  define st1 where "st1 = wifiprefs_set_network fl (Some s) st"
  have ld: "pref_load fl x = x" if "k_loaded x" for x fl using that by (simp add: pref_load_def load_rec_def)
  have n1: "k_loaded st1 \<and> same (f_ssid (k_rec st1)) s \<and> get_text (f_ssid (k_rec st1)) 36 = s"
    using assms(1) sm sb gb
    by (auto simp: st1_def wifiprefs_set_network_def ld Let_def pref_save_def save_rec_def b_def [symmetric])
  have e1: "k_loaded (wifiprefs_set_enabled fl on st) \<and> f_enabled (k_rec (wifiprefs_set_enabled fl on st)) = (if on then 1 else 0)"
    using assms(1) by (auto simp: wifiprefs_set_enabled_def ld Let_def pref_save_def save_rec_def)
  have boot: "fst (wifiprefs_network fl' boot) = s \<and> fst (wifiprefs_chosen fl' boot)"
    if "erase_ok fl" "write_ok fl" "get_text (f_ssid (k_rec st)) 36 \<noteq> s" "k_sector boot = k_sector st1"
  proof -
    have "k_sector st1 = k_rec st1 \<and> pref_valid (k_rec st1) \<and> f_chosen (k_rec st1) = 1"
      using that(1-3) assms(1) sm
      by (auto simp: st1_def wifiprefs_set_network_def ld Let_def pref_save_def save_rec_def pref_valid_def pref_sum_def)
    then have "k_rec (pref_load fl' boot) = k_rec st1 \<and> f_chosen (k_rec st1) = 1"
      using that(4) assms(4,5) by (simp add: pref_load_def load_rec_def Let_def)
    then show ?thesis using n1 by (simp add: wifiprefs_network_def wifiprefs_chosen_def Let_def)
  qed
  have "wifiprefs_set_network fl (Some s) st1 = st1" using n1 by (simp add: wifiprefs_set_network_def ld Let_def)
  moreover have "wifiprefs_set_enabled fl on (wifiprefs_set_enabled fl on st) = wifiprefs_set_enabled fl on st"
    using e1 by (subst wifiprefs_set_enabled_def) (simp add: ld Let_def)
  moreover have "fst (wifiprefs_network fl st1) = s" using n1 by (simp add: wifiprefs_network_def ld Let_def)
  ultimately show ?thesis using boot by (simp add: st1_def [symmetric])
qed

subsection \<open>Witnesses\<close>

definition works :: "'r \<Rightarrow> 'r outcome" where
  "works r = \<lparr>read_ok = True, erase_ok = True, write_ok = True, torn = r\<rparr>"

text \<open>A fresh board: nothing read yet, and a sector that holds no valid record.\<close>

definition fresh :: "'r \<Rightarrow> 'r kept" where
  "fresh r = \<lparr>k_rec = r, k_loaded = False, k_sector = r, k_said = []\<rparr>"

definition cred_erased :: cred_rec where "cred_erased = cred_zero\<lparr>c_magic := 0xFFFFFFFF\<rparr>"
definition pmk_erased :: pmk_rec where "pmk_erased = pmk_zero\<lparr>p_magic := 0xFFFFFFFF\<rparr>"

lemma cred_fresh: "k_rec (cred_load (works cred_erased) (fresh cred_erased)) = cred_zero"
  by (simp add: cred_load_def load_rec_def works_def fresh_def cred_erased_def cred_valid_def)

lemma cred_zero_ok: "cred_ok cred_zero"
  by (simp add: cred_ok_def cred_table.table_ok_def cred_zero_def cred_blank_def cred_shape_def)

lemma net_names: "net_name [104, 111, 109, 101]" "net_name [110]"
  by (simp_all add: net_name_def)

lemma works_put: "net_name s \<Longrightarrow> \<exists>st'. wificred_put (works x) (Some s) (Some p) st = (0, st')"
proof -
  assume "net_name s"
  then have c: "char_at s 0 \<noteq> 0" by (cases s) (auto simp: net_name_def char_at_def)
  let ?r = "k_rec (cred_load (works x) st)"
  obtain at n' es where "place_slot WIFICRED_SLOTS (cred_find s (unat (c_count ?r)) ?r) (unat (c_count ?r)) (c_e ?r) = (at, n', es)"
    by (metis prod.exhaust)
  then show ?thesis using c by (simp add: wificred_put_def Let_def save_rec_def) (simp add: works_def)
qed

theorem wificred_refines_witness:
  "cred_view (k_rec (snd (wificred_put (works cred_erased) (Some [104, 111, 109, 101]) (Some [112, 119]) (fresh cred_erased)))) = [([104, 111, 109, 101], [112, 119])]"
proof -
  have "cred_ok (k_rec (cred_load (works cred_erased) (fresh cred_erased)))" by (simp add: cred_fresh cred_zero_ok)
  from wificred_refines [OF this net_names(1), of "[112, 119]" 64] show ?thesis
    by (simp add: cred_fresh cred_view_def cred_zero_def assoc_put_def)
qed

theorem wificred_boot_witness:
  "k_rec (cred_load (works cred_erased) (fresh cred_erased)\<lparr>k_said := []\<rparr>) = cred_zero
    \<and> (\<exists>st'. wificred_put (works cred_erased) (Some [104, 111, 109, 101]) (Some [112, 119]) (fresh cred_erased) = (0, st')
      \<and> k_rec (cred_load (works cred_erased) (fresh cred_erased\<lparr>k_sector := k_sector st'\<rparr>)) = k_rec st')"
proof -
  have ok: "cred_ok (k_rec (cred_load (works cred_erased) (fresh cred_erased)))" by (simp add: cred_fresh cred_zero_ok)
  obtain st' where p: "wificred_put (works cred_erased) (Some [104, 111, 109, 101]) (Some [112, 119]) (fresh cred_erased) = (0, st')"
    using works_put [OF net_names(1)] by blast
  have "k_rec (cred_load (works cred_erased) (fresh cred_erased\<lparr>k_sector := k_sector st'\<rparr>)) = k_rec st'"
    using wificred_boot [OF ok net_names(1), of "[112, 119]" "works cred_erased" "fresh cred_erased\<lparr>k_sector := k_sector st'\<rparr>" st'] p
    by (simp add: works_def fresh_def)
  with p show ?thesis by (auto simp: cred_fresh)
qed

text \<open>Eight networks with long passphrases.\<close>

definition cred_entry :: "u8 \<Rightarrow> cred_t" where
  "cred_entry c = \<lparr>ssid = put_text (replicate 36 0) [c] 32, pass = put_text (replicate 68 0) [c, 115, 101, 99, 114, 101, 116] 63\<rparr>"

definition cred_full :: "cred_rec kept" where
  "cred_full = \<lparr>k_rec = cred_zero\<lparr>c_count := 8, c_e := List.map cred_entry [49, 50, 51, 52, 53, 54, 55, 56]\<rparr>, k_loaded = True,
     k_sector = cred_zero, k_said = []\<rparr>"

lemma cred_entry_key: "c \<noteq> 0 \<Longrightarrow> get_text (ssid (cred_entry c)) 36 = [c] \<and> cred_good (cred_entry c)"
  by (simp add: cred_entry_def get_put_text cred_good_def cred_shape_def named_put_text length_put_text)

lemma cred_full_ok: "cred_ok (k_rec cred_full)"
proof -
  have e: "cred_good (cred_entry c)" "get_text (ssid (cred_entry c)) 36 = [c]" if "c \<noteq> 0" for c using cred_entry_key [OF that] by simp_all
  then have "cred_shape (cred_entry c)" if "c \<noteq> 0" for c using that by (simp add: cred_good_def)
  with e show ?thesis by (simp add: cred_ok_def cred_table.table_ok_def cred_full_def cred_zero_def)
qed

theorem wificred_forget_leaves_witness:
  "\<exists>st1 st2. wificred_put (works cred_erased) (Some [110]) (Some [112, 119]) cred_full = (0, st1)
    \<and> wificred_forget (works cred_erased) (Some [56]) st1 = (0, st2)
    \<and> [56] \<notin> fst ` set (cred_view (k_sector st2))
    \<and> (\<exists>e \<in> set (c_e (k_sector st2)). drop 3 (pass e) = drop 3 (pass (cred_entry 56)))"
proof -
  have ld: "cred_load fl cred_full = cred_full" for fl by (simp add: cred_load_def load_rec_def cred_full_def)
  have ok: "cred_ok (k_rec (cred_load (works cred_erased) cred_full))" by (simp add: ld cred_full_ok)
  have c: "c_count (k_rec (cred_load (works cred_erased) cred_full)) = 8" by (simp add: ld) (simp add: cred_full_def)
  have view: "fst ` set (cred_view (k_rec cred_full)) = {[49], [50], [51], [52], [53], [54], [55], [56]}"
    using cred_entry_key by (simp add: cred_view_def cred_full_def)
  have l: "last (c_e (k_rec (cred_load (works cred_erased) cred_full))) = cred_entry 56" by (simp add: ld) (simp add: cred_full_def)
  obtain st1 where p: "wificred_put (works cred_erased) (Some [110]) (Some [112, 119]) cred_full = (0, st1)"
    using works_put [OF net_names(2)] by blast
  have n: "[110] \<notin> fst ` set (cred_view (k_rec (cred_load (works cred_erased) cred_full)))" by (simp add: ld view)
  note R = cred_put_rec [OF ok net_names(2) _ p]
  have l1: "k_loaded st1" using put_full_entries(2) [OF ok net_names(2) c n p] .
  have ld1: "cred_load (works cred_erased) st1 = st1" using l1 by (simp add: cred_load_def load_rec_def)
  have E: "c_e (k_rec st1) = tl (c_e (k_rec cred_full)) @ [cred_write (cred_entry 56) [110] [112, 119]]"
    using put_full_entries(1) [OF ok net_names(2) c n p] l by (simp add: ld)
  have "cred_ok (k_rec st1)" using R(2) by simp
  have k: "[56] = get_text (ssid (last (c_e (k_rec (cred_load (works cred_erased) cred_full))))) 36"
    unfolding l using cred_entry_key [of 56] by simp
  obtain rc st2 where f: "wificred_forget (works cred_erased) (Some [56]) st1 = (rc, st2)" by (rule prod.exhaust)
  have "cred_table.table_ok (unat (c_count (k_rec st1))) (c_e (k_rec st1))" using R(2) by (simp add: cred_ok_def)
  moreover have "[56] \<in> fst ` set (cred_table.view (unat (c_count (k_rec st1))) (c_e (k_rec st1)))"
  proof -
    have v: "cred_view (k_rec st1) = assoc_put WIFICRED_SLOTS [110] [112, 119] (cred_view (k_rec cred_full))" using R(1) by (simp add: ld)
    have "cred_view (k_rec cred_full) = List.map (\<lambda>e. (get_text (ssid e) 36, get_text (pass e) 63)) (List.map cred_entry [49, 50, 51, 52, 53, 54, 55, 56])"
      by (simp add: cred_view_def cred_full_def)
    then have "[56] \<in> fst ` set (cred_view (k_rec st1))"
      unfolding v using cred_entry_key by (simp add: assoc_put_def)
    then show ?thesis by (simp add: cred_view_table)
  qed
  ultimately have "cred_find [56] WIFICRED_SLOTS (k_rec st1) < unat (c_count (k_rec st1))"
    using cred_table.found [of "unat (c_count (k_rec st1))" "c_e (k_rec st1)" "[56]" WIFICRED_SLOTS] by (auto simp: cred_find_def)
  then have rc: "rc = 0" using f by (auto simp: wificred_forget_def Let_def ld1 ld1 [unfolded works_def] save_rec_def works_def split: if_splits prod.splits)
  have "drop (Suc (length [112, 119 :: u8])) = drop 3" by (simp add: numeral_3_eq_3)
  with wificred_forget_leaves [OF ok c net_names(2) _ _ n k p f [unfolded rc]] show ?thesis
    using p f rc l by (simp add: numeral_3_eq_3)
qed

theorem pmkcache_refines_witness:
  "pmk_view (k_rec (snd (pmkcache_put (works pmk_erased) (Some [110]) (Some (replicate 32 7)) (fresh pmk_erased)))) = [([110], replicate 32 7)]"
proof -
  have l: "k_rec (pmk_load (works pmk_erased) (fresh pmk_erased)) = pmk_zero"
    by (simp add: pmk_load_def load_rec_def works_def fresh_def pmk_erased_def pmk_valid_def)
  have "pmk_ok (k_rec (pmk_load (works pmk_erased) (fresh pmk_erased)))"
    unfolding l by (simp add: pmk_ok_def pmk_table.table_ok_def pmk_zero_def pmk_blank_def pmk_shape_def)
  from pmkcache_refines [OF this net_names(2), of "replicate 32 7"] show ?thesis
    unfolding l by (simp add: pmk_view_def pmk_zero_def assoc_put_def)
qed

theorem wifiprefs_settle_witness:
  "fst (wifiprefs_network (works pref_defaults) (wifiprefs_set_network (works pref_defaults) (Some [110]) ((fresh pref_defaults)\<lparr>k_loaded := True\<rparr>))) = [110]"
proof -
  have "k_loaded ((fresh pref_defaults)\<lparr>k_loaded := True\<rparr>)" "named (f_ssid (k_rec ((fresh pref_defaults)\<lparr>k_loaded := True\<rparr>)))"
    "read_ok (works pref_defaults)" "\<not> k_loaded (fresh pref_defaults)"
    by (simp_all add: fresh_def works_def named_def pref_defaults_def)
  from wifiprefs_settle [OF this(1,2) net_names(2) this(3,4)] show ?thesis by blast
qed

end
