(* ===== verification/KKeyboard.thy ===== *)
theory KKeyboard
  imports KOut
begin

text \<open>
  The multi-tap keyboard, \<^verbatim>\<open>kernel/keyboard.c\<close>: twelve keys, a field of its own, the key that is live (whose character the
  next tap on it replaces) and the event of the last press, which the applications apply to their own text. The screen is
  the list of calls made so far; the tick counter is an argument.
\<close>

subsection \<open>Keys\<close>

abbreviation SPEC_Y :: u32 where "SPEC_Y \<equiv> 288"
abbreviation KB_ROWS :: u32 where "KB_ROWS \<equiv> 4"
abbreviation KB_COLS :: u32 where "KB_COLS \<equiv> 3"
abbreviation KB_KEY_H :: u32 where "KB_KEY_H \<equiv> 42"
abbreviation KB_KEY_W :: u32 where "KB_KEY_W \<equiv> 80"
abbreviation KB_TOP :: u32 where "KB_TOP \<equiv> 120"
abbreviation (input) KB_TEXT_MAX :: u32 where "KB_TEXT_MAX \<equiv> 64"
abbreviation (input) CYCLE_TICKS :: u32 where "CYCLE_TICKS \<equiv> 80"
abbreviation (input) KB_BG :: u16 where "KB_BG \<equiv> 0"
abbreviation (input) KB_FACE :: u16 where "KB_FACE \<equiv> 0x2104"
abbreviation (input) KB_FG :: u16 where "KB_FG \<equiv> 0xFFFF"
abbreviation (input) KB_LIVE :: u16 where "KB_LIVE \<equiv> 0x001F"

definition KEYS :: "cstring list list" where
  "KEYS = List.map (List.map chars)
     [[''./,-1'', ''abc2'', ''def3''], [''ghi4'', ''jkl5'', ''mno6''], [''pqrs7'', ''tuv8'', ''wxyz9''], [''<'', '' 0'', ''>'']]"

definition FACES :: "cstring list list" where
  "FACES = List.map (List.map chars)
     [[''1 ./,-'', ''2 abc'', ''3 def''], [''4 ghi'', ''5 jkl'', ''6 mno''], [''7 pqrs'', ''8 tuv'', ''9 wxyz''], [''del'', ''space'', '''']]"

datatype kb_action = KB_ACT_NONE | KB_ACT_APPEND | KB_ACT_REPLACE | KB_ACT_SETTLE | KB_ACT_BACKSPACE | KB_ACT_SUBMIT
datatype kb_result = KB_NONE | KB_EDIT | KB_SUBMIT

record kb_event_t =
  action :: kb_action
  ch :: u8

record keyboard =
  kb_text :: "u8 list"
  kb_len :: u32
  kb_submit :: cstring
  kb_ev :: kb_event_t
  kb_settled :: u8
  live_row :: int
  live_col :: int
  live_index :: u32
  live_tick :: u32
  panel :: "panel_call list"

text \<open>The reading of a C string out of its buffer.\<close>

definition c_text :: "u8 list \<Rightarrow> cstring" where
  "c_text buf = takeWhile (\<lambda>c. c \<noteq> 0) buf"

definition paint :: "panel_call list \<Rightarrow> keyboard \<Rightarrow> keyboard" where
  "paint cs k = k\<lparr>panel := panel k @ cs\<rparr>"

definition keyboard_settled :: "keyboard \<Rightarrow> u8 \<times> keyboard" where
  "keyboard_settled k = (kb_settled k, k\<lparr>kb_settled := 0\<rparr>)"

definition emit :: "kb_action \<Rightarrow> u8 \<Rightarrow> keyboard \<Rightarrow> keyboard" where
  "emit a c k = k\<lparr>kb_ev := \<lparr>action = a, ch = c\<rparr>\<rparr>"

definition keyboard_event :: "keyboard \<Rightarrow> kb_event_t" where
  "keyboard_event k = kb_ev k"

definition keyboard_text :: "keyboard \<Rightarrow> cstring" where
  "keyboard_text k = c_text (kb_text k)"

definition keyboard_len :: "keyboard \<Rightarrow> u32" where
  "keyboard_len k = kb_len k"

subsection \<open>Drawing\<close>

definition face :: "u32 \<Rightarrow> u32 \<Rightarrow> keyboard \<Rightarrow> cstring" where
  "face r c k = (if r = KB_ROWS - 1 \<and> c = KB_COLS - 1 then kb_submit k else FACES ! unat r ! unat c)"

definition draw_key :: "u32 \<Rightarrow> u32 \<Rightarrow> bool \<Rightarrow> keyboard \<Rightarrow> keyboard" where
  "draw_key r c live k =
     (let x = c * KB_KEY_W;
          y = KB_TOP + r * KB_KEY_H;
          bg = (if live then KB_LIVE else KB_FACE);
          l = face r c k;
          n = of_nat (length l);
          tx = x + (KB_KEY_W - n * 6) div 2
      in paint [Fill_rect (x + 1) (y + 1) (KB_KEY_W - 2) (KB_KEY_H - 2) bg, Draw_text tx (y + (KB_KEY_H - 8) div 2) l KB_FG bg 1] k)"

definition keyboard_draw :: "keyboard \<Rightarrow> keyboard" where
  "keyboard_draw k =
     fold (\<lambda>(r, c) k. draw_key (of_nat r) (of_nat c) (live_row k = int r \<and> live_col k = int c) k)
       (List.product [0..<4] [0..<3]) (paint [Fill_rect 0 KB_TOP PANEL_W (SPEC_Y - KB_TOP) KB_BG] k)"

subsection \<open>Operations\<close>

definition keyboard_reset :: "cstring option \<Rightarrow> keyboard \<Rightarrow> keyboard" where
  "keyboard_reset label k =
     k\<lparr>kb_submit := (case label of Some l \<Rightarrow> l | None \<Rightarrow> chars ''ok''), kb_text := replicate 64 0, kb_len := 0,
       live_row := -1, live_col := -1\<rparr>"

definition end_cycle :: "bool \<Rightarrow> keyboard \<Rightarrow> keyboard" where
  "end_cycle deliver k =
     (if live_row k < 0 then k
      else let r = of_int (live_row k); c = of_int (live_col k);
               k1 = k\<lparr>live_row := -1, live_col := -1\<rparr>;
               k2 = (if deliver \<and> kb_len k1 \<noteq> 0 then k1\<lparr>kb_settled := kb_text k1 ! unat (kb_len k1 - 1)\<rparr> else k1)
           in draw_key r c False k2)"

definition settle :: "keyboard \<Rightarrow> keyboard" where
  "settle k = end_cycle True k"

definition keyboard_tick :: "u32 \<Rightarrow> keyboard \<Rightarrow> bool \<times> keyboard" where
  "keyboard_tick ticks k =
     (if live_row k < 0 then (False, k)
      else if ticks - live_tick k < CYCLE_TICKS then (False, k)
      else (True, settle k))"

definition set_char :: "u32 \<Rightarrow> u8 \<Rightarrow> keyboard \<Rightarrow> keyboard" where
  "set_char i c k = k\<lparr>kb_text := (kb_text k)[unat i := c]\<rparr>"

definition keyboard_touch :: "u32 \<Rightarrow> u32 \<Rightarrow> u32 \<Rightarrow> keyboard \<Rightarrow> kb_result \<times> keyboard" where
  "keyboard_touch ticks x y k0 =
     (let k = emit KB_ACT_NONE 0 k0 in
      if y < KB_TOP \<or> y \<ge> SPEC_Y \<or> x \<ge> PANEL_W then (KB_NONE, k)
      else let r = (y - KB_TOP) div KB_KEY_H; c = x div KB_KEY_W in
        if r \<ge> KB_ROWS \<or> c \<ge> KB_COLS then (KB_NONE, k)
        else let keys = KEYS ! unat r ! unat c in
          if keys = chars ''<'' then
            let k1 = end_cycle False k;
                k2 = (if kb_len k1 \<noteq> 0 then set_char (kb_len k1 - 1) 0 (k1\<lparr>kb_len := kb_len k1 - 1\<rparr>) else k1)
            in (KB_EDIT, emit KB_ACT_BACKSPACE 0 k2)
          else if keys = chars ''>'' then (KB_SUBMIT, emit KB_ACT_SUBMIT 0 (settle k))
          else if live_row k = int (unat r) \<and> live_col k = int (unat c) then
            let n = of_nat (length keys);
                k1 = k\<lparr>live_index := (live_index k + 1) mod n\<rparr>;
                s = keys ! unat (live_index k1);
                k2 = (if kb_len k1 \<noteq> 0 then set_char (kb_len k1 - 1) s k1 else k1)
            in (KB_EDIT, (emit KB_ACT_REPLACE s k2)\<lparr>live_tick := ticks\<rparr>)
          else
            let k1 = settle k in
              if kb_len k1 + 1 \<ge> KB_TEXT_MAX then (KB_NONE, k1)
              else let k2 = set_char (kb_len k1) (keys ! 0) (k1\<lparr>live_index := 0, kb_len := kb_len k1 + 1\<rparr>);
                       k3 = set_char (kb_len k2) 0 k2;
                       k4 = (emit KB_ACT_APPEND (keys ! 0) k3)\<lparr>live_row := int (unat r), live_col := int (unat c)\<rparr>
                   in (KB_EDIT, (draw_key r c True k4)\<lparr>live_tick := ticks\<rparr>))"

subsection \<open>Text in a buffer\<close>

text \<open>A text field kept as a buffer of \<open>n\<close> bytes and a length, terminated and without a terminator inside; the keyboard, the command
  line and the note are such fields.\<close>

definition cbuf :: "nat \<Rightarrow> u8 list \<Rightarrow> u32 \<Rightarrow> bool" where
  "cbuf n buf len \<longleftrightarrow> length buf = n \<and> unat len < n \<and> (\<forall>i < unat len. buf ! i \<noteq> 0) \<and> buf ! unat len = 0"

definition cstr :: "u8 list \<Rightarrow> u32 \<Rightarrow> cstring" where
  "cstr buf len = take (unat len) buf"

lemma c_text_take:
  assumes "n < length buf" "\<And>i. i < n \<Longrightarrow> buf ! i \<noteq> 0" "buf ! n = 0"
  shows "c_text buf = take n buf"
  unfolding c_text_def using assms by (intro takeWhile_eq_take_P_nth) auto

lemma cbuf_text: "cbuf n buf len \<Longrightarrow> c_text buf = cstr buf len"
  unfolding cstr_def by (rule c_text_take) (auto simp: cbuf_def)

lemma length_cstr: "cbuf n buf len \<Longrightarrow> length (cstr buf len) = unat len"
  by (simp add: cbuf_def cstr_def)

lemma cstr_nonzero: "cbuf n buf len \<Longrightarrow> 0 \<notin> set (cstr buf len)"
  by (auto simp: cbuf_def cstr_def in_set_conv_nth)

lemma cbuf_nil: "0 < n \<Longrightarrow> length buf = n \<Longrightarrow> cbuf n (buf[0 := 0]) 0 \<and> cstr (buf[0 := 0]) 0 = []"
  by (simp add: cbuf_def cstr_def)

lemma cbuf_delete:
  assumes "cbuf n buf len" "len \<noteq> 0"
  shows "cbuf n (buf[unat (len - 1) := 0]) (len - 1)" "cstr (buf[unat (len - 1) := 0]) (len - 1) = butlast (cstr buf len)"
proof -
  have u: "unat (len - 1) = unat len - 1" "0 < unat len" using assms(2) by (simp_all add: unat_minus_one unat_gt_0)
  show "cbuf n (buf[unat (len - 1) := 0]) (len - 1)" using assms(1) u by (auto simp: cbuf_def nth_list_update)
  show "cstr (buf[unat (len - 1) := 0]) (len - 1) = butlast (cstr buf len)" using assms(1) u by (simp add: cbuf_def cstr_def butlast_take)
qed

lemma take_update_last: "0 < n \<Longrightarrow> n \<le> length xs \<Longrightarrow> take n (xs[n - 1 := x]) = butlast (take n xs) @ [x]"
  by (rule nth_equalityI) (auto simp: nth_append nth_butlast nth_list_update)

lemma cbuf_replace:
  assumes "cbuf n buf len" "len \<noteq> 0" "c \<noteq> 0"
  shows "cbuf n (buf[unat (len - 1) := c]) len" "cstr (buf[unat (len - 1) := c]) len = butlast (cstr buf len) @ [c]"
proof -
  have u: "unat (len - 1) = unat len - 1" "0 < unat len" using assms(2) by (simp_all add: unat_minus_one unat_gt_0)
  show "cbuf n (buf[unat (len - 1) := c]) len" using assms(1,3) u by (auto simp: cbuf_def nth_list_update split: if_splits)
  show "cstr (buf[unat (len - 1) := c]) len = butlast (cstr buf len) @ [c]"
    using assms(1) u take_update_last [of "unat len" buf c] by (simp add: cstr_def cbuf_def)
qed

lemma cbuf_append:
  assumes "cbuf n buf len" "unat len + 1 < n" "n \<le> 4294967296" "c \<noteq> 0"
  shows "cbuf n (buf[unat len := c, unat (len + 1) := 0]) (len + 1)" "cstr (buf[unat len := c, unat (len + 1) := 0]) (len + 1) = cstr buf len @ [c]"
proof -
  have u: "unat (len + 1) = Suc (unat len)" using assms(2,3) by (simp add: unat_add_u32)
  show "cbuf n (buf[unat len := c, unat (len + 1) := 0]) (len + 1)"
    using assms u by (auto simp: cbuf_def nth_list_update less_Suc_eq)
  show "cstr (buf[unat len := c, unat (len + 1) := 0]) (len + 1) = cstr buf len @ [c]"
    using assms(1,2) u by (simp add: cstr_def cbuf_def take_Suc_conv_app_nth)
qed

subsection \<open>Well-formed keyboards\<close>

definition letters :: "nat \<Rightarrow> nat \<Rightarrow> bool" where
  "letters r c \<longleftrightarrow> r < 4 \<and> c < 3 \<and> KEYS ! r ! c \<noteq> chars ''<'' \<and> KEYS ! r ! c \<noteq> chars ''>''"

definition live_key :: "keyboard \<Rightarrow> (nat \<times> nat \<times> nat) option" where
  "live_key k = (if live_row k < 0 then None else Some (nat (live_row k), nat (live_col k), unat (live_index k)))"

definition kb_ok :: "keyboard \<Rightarrow> bool" where
  "kb_ok k \<longleftrightarrow> cbuf 64 (kb_text k) (kb_len k)
     \<and> (live_row k = -1 \<and> live_col k = -1
        \<or> 0 \<le> live_row k \<and> 0 \<le> live_col k \<and> letters (nat (live_row k)) (nat (live_col k))
          \<and> unat (live_index k) < length (KEYS ! nat (live_row k) ! nat (live_col k)))"

definition kb_str :: "keyboard \<Rightarrow> cstring" where
  "kb_str k = cstr (kb_text k) (kb_len k)"

lemma less_4: "(r :: nat) < 4 \<longleftrightarrow> r = 0 \<or> r = 1 \<or> r = 2 \<or> r = 3"
  by auto

lemma less_3: "(r :: nat) < 3 \<longleftrightarrow> r = 0 \<or> r = 1 \<or> r = 2"
  by auto

lemma KEYS_chars:
  assumes "r < 4" "c < 3"
  shows "KEYS ! r ! c \<noteq> [] \<and> length (KEYS ! r ! c) \<le> 5 \<and> 0 \<notin> set (KEYS ! r ! c)"
  using assms unfolding less_4 less_3 KEYS_def chars_def by (elim disjE) simp_all

lemma KEYS_letter: "letters r c \<Longrightarrow> KEYS ! r ! c \<noteq> [] \<and> length (KEYS ! r ! c) \<le> 5 \<and> (\<forall>i < length (KEYS ! r ! c). KEYS ! r ! c ! i \<noteq> 0)"
  using KEYS_chars [of r c] by (metis letters_def nth_mem)

lemma keyboard_text_str: "kb_ok k \<Longrightarrow> keyboard_text k = kb_str k"
  using cbuf_text [of 64 "kb_text k" "kb_len k"] by (simp add: keyboard_text_def kb_str_def kb_ok_def)

lemma draw_key_simps [simp]:
  "kb_text (draw_key r c b k) = kb_text k" "kb_len (draw_key r c b k) = kb_len k" "kb_ev (draw_key r c b k) = kb_ev k"
  "kb_settled (draw_key r c b k) = kb_settled k" "live_row (draw_key r c b k) = live_row k" "live_col (draw_key r c b k) = live_col k"
  "live_index (draw_key r c b k) = live_index k" "live_tick (draw_key r c b k) = live_tick k" "kb_submit (draw_key r c b k) = kb_submit k"
  by (simp_all add: draw_key_def paint_def Let_def)

lemma end_cycle_simps [simp]:
  "kb_text (end_cycle d k) = kb_text k" "kb_len (end_cycle d k) = kb_len k" "kb_ev (end_cycle d k) = kb_ev k"
  "live_row (end_cycle d k) = (if live_row k < 0 then live_row k else -1)"
  "live_col (end_cycle d k) = (if live_row k < 0 then live_col k else -1)"
  "live_index (end_cycle d k) = live_index k"
  by (simp_all add: end_cycle_def Let_def)

lemma end_cycle_settled:
  "kb_settled (end_cycle d k) =
    (if live_row k \<ge> 0 \<and> d \<and> kb_len k \<noteq> 0 then kb_text k ! unat (kb_len k - 1) else kb_settled k)"
  by (simp add: end_cycle_def Let_def)

lemma end_cycle_ok: "kb_ok k \<Longrightarrow> kb_ok (end_cycle d k)"
  by (auto simp: kb_ok_def)

lemma end_cycle_str [simp]: "kb_str (end_cycle d k) = kb_str k"
  by (simp add: kb_str_def)

lemma end_cycle_dead: "kb_ok k \<Longrightarrow> live_key (end_cycle d k) = None"
  by (auto simp: live_key_def kb_ok_def)

lemma length_kb_str: "kb_ok k \<Longrightarrow> length (kb_str k) = unat (kb_len k)"
  using length_cstr [of 64 "kb_text k" "kb_len k"] by (simp add: kb_ok_def kb_str_def)

subsection \<open>An editor\<close>

text \<open>What a press is meant to do, on a text and the key that is live with its place in the cycle.\<close>

type_synonym editor = "cstring \<times> (nat \<times> nat \<times> nat) option"

definition key_at :: "u32 \<Rightarrow> u32 \<Rightarrow> (nat \<times> nat) option" where
  "key_at x y = (if y < KB_TOP \<or> y \<ge> SPEC_Y \<or> x \<ge> PANEL_W then None else Some ((unat y - 120) div 42, unat x div 80))"

definition new_key :: "nat \<times> nat \<Rightarrow> editor \<Rightarrow> kb_event_t \<times> editor" where
  "new_key rc e =
     (case (rc, e) of ((r, c), (s, _)) \<Rightarrow>
       if length s < 63 then (\<lparr>action = KB_ACT_APPEND, ch = KEYS ! r ! c ! 0\<rparr>, (s @ [KEYS ! r ! c ! 0], Some (r, c, 0)))
       else (\<lparr>action = KB_ACT_NONE, ch = 0\<rparr>, (s, None)))"

definition key_press :: "nat \<times> nat \<Rightarrow> editor \<Rightarrow> kb_event_t \<times> editor" where
  "key_press rc e =
     (case (rc, e) of ((r, c), (s, live)) \<Rightarrow>
       if KEYS ! r ! c = chars ''<'' then (\<lparr>action = KB_ACT_BACKSPACE, ch = 0\<rparr>, (butlast s, None))
       else if KEYS ! r ! c = chars ''>'' then (\<lparr>action = KB_ACT_SUBMIT, ch = 0\<rparr>, (s, None))
       else case live of
         None \<Rightarrow> new_key rc e
       | Some (r', c', i) \<Rightarrow>
           if (r', c') = (r, c) then
             let i' = Suc i mod length (KEYS ! r ! c); s' = KEYS ! r ! c ! i'
             in (\<lparr>action = KB_ACT_REPLACE, ch = s'\<rparr>, (if s = [] then [] else butlast s @ [s'], Some (r, c, i')))
           else new_key rc e)"

definition tap :: "u32 \<Rightarrow> u32 \<Rightarrow> editor \<Rightarrow> kb_event_t \<times> editor" where
  "tap x y e = (case key_at x y of None \<Rightarrow> (\<lparr>action = KB_ACT_NONE, ch = 0\<rparr>, e) | Some rc \<Rightarrow> key_press rc e)"

lemma key_at_words:
  assumes "key_at x y = Some (r, c)"
  shows "r < 4" "c < 3" "unat ((y - KB_TOP) div KB_KEY_H) = r" "unat (x div KB_KEY_W) = c"
    "\<not> (y - KB_TOP) div KB_KEY_H \<ge> KB_ROWS" "\<not> x div KB_KEY_W \<ge> KB_COLS" "\<not> (y < KB_TOP \<or> y \<ge> SPEC_Y \<or> x \<ge> PANEL_W)"
proof -
  have b: "\<not> (y < KB_TOP \<or> y \<ge> SPEC_Y \<or> x \<ge> PANEL_W)" and r: "r = (unat y - 120) div 42" and c: "c = unat x div 80"
    using assms by (auto simp: key_at_def split: if_splits)
  have u: "120 \<le> unat y" "unat y < 288" "unat x < 240" using b by (simp_all add: word_le_nat_alt word_less_nat_alt)
  have y: "unat (y - KB_TOP) = unat y - 120" using u by (simp add: unat_sub_u32)
  show R: "r < 4" "c < 3" using u r c by (simp_all add: less_mult_imp_div_less)
  show E: "unat ((y - KB_TOP) div KB_KEY_H) = r" "unat (x div KB_KEY_W) = c" using y r c by (simp_all add: unat_div)
  show "\<not> (y - KB_TOP) div KB_KEY_H \<ge> KB_ROWS" "\<not> x div KB_KEY_W \<ge> KB_COLS" using R E by (simp_all add: word_le_nat_alt)
  show "\<not> (y < KB_TOP \<or> y \<ge> SPEC_Y \<or> x \<ge> PANEL_W)" by (rule b)
qed

lemma key_letter: "key_at x y = Some (r, c) \<Longrightarrow> KEYS ! r ! c \<noteq> chars ''<'' \<Longrightarrow> KEYS ! r ! c \<noteq> chars ''>'' \<Longrightarrow> letters r c"
  using key_at_words by (simp add: letters_def)

lemma touch_outside:
  assumes "key_at x y = None"
  shows "keyboard_touch t x y k = (KB_NONE, emit KB_ACT_NONE 0 k)"
proof -
  have c: "y < KB_TOP \<or> y \<ge> SPEC_Y \<or> x \<ge> PANEL_W" using assms by (simp only: key_at_def split: if_splits) simp_all
  show ?thesis unfolding keyboard_touch_def Let_def by (simp only: c if_True)
qed

lemma touch_on_key:
  assumes "key_at x y = Some (r, c)"
  shows "keyboard_touch t x y k0 =
    (let k = emit KB_ACT_NONE 0 k0; keys = KEYS ! r ! c in
     if keys = chars ''<'' then
       let k1 = end_cycle False k;
           k2 = (if kb_len k1 \<noteq> 0 then set_char (kb_len k1 - 1) 0 (k1\<lparr>kb_len := kb_len k1 - 1\<rparr>) else k1)
       in (KB_EDIT, emit KB_ACT_BACKSPACE 0 k2)
     else if keys = chars ''>'' then (KB_SUBMIT, emit KB_ACT_SUBMIT 0 (settle k))
     else if live_row k = int r \<and> live_col k = int c then
       let n = of_nat (length keys);
           k1 = k\<lparr>live_index := (live_index k + 1) mod n\<rparr>;
           s = keys ! unat (live_index k1);
           k2 = (if kb_len k1 \<noteq> 0 then set_char (kb_len k1 - 1) s k1 else k1)
       in (KB_EDIT, (emit KB_ACT_REPLACE s k2)\<lparr>live_tick := t\<rparr>)
     else
       let k1 = settle k in
         if kb_len k1 + 1 \<ge> KB_TEXT_MAX then (KB_NONE, k1)
         else let k2 = set_char (kb_len k1) (keys ! 0) (k1\<lparr>live_index := 0, kb_len := kb_len k1 + 1\<rparr>);
                  k3 = set_char (kb_len k2) 0 k2;
                  k4 = (emit KB_ACT_APPEND (keys ! 0) k3)\<lparr>live_row := int r, live_col := int c\<rparr>
              in (KB_EDIT, (draw_key (of_nat r) (of_nat c) True k4)\<lparr>live_tick := t\<rparr>))"
proof -
  note W = key_at_words [OF assms]
  have o: "(y - KB_TOP) div KB_KEY_H = of_nat r" "x div KB_KEY_W = of_nat c" using W(3,4) by (metis of_nat_unat_u32)+
  show ?thesis unfolding keyboard_touch_def Let_def using W by (simp only: if_False W(3,4) disj.left_neutral o [symmetric])
qed

lemma press_delete:
  assumes "kb_ok k" "kb_len k \<noteq> 0"
  defines "k' \<equiv> set_char (kb_len k - 1) 0 (k\<lparr>kb_len := kb_len k - 1\<rparr>)"
  shows "kb_ok k'" "kb_str k' = butlast (kb_str k)" "live_key k' = live_key k"
  using cbuf_delete [of 64 "kb_text k" "kb_len k"] assms by (simp_all add: kb_ok_def kb_str_def live_key_def set_char_def)

lemma press_replace:
  assumes "kb_ok k" "kb_len k \<noteq> 0" "c \<noteq> 0"
  defines "k' \<equiv> set_char (kb_len k - 1) c k"
  shows "kb_ok k'" "kb_str k' = butlast (kb_str k) @ [c]"
  using cbuf_replace [of 64 "kb_text k" "kb_len k" c] assms by (simp_all add: kb_ok_def kb_str_def set_char_def)

lemma press_append:
  assumes "kb_ok k" "unat (kb_len k) < 63" "c \<noteq> 0"
  defines "k' \<equiv> set_char (kb_len k + 1) 0 (set_char (kb_len k) c (k\<lparr>kb_len := kb_len k + 1\<rparr>))"
  shows "kb_ok k'" "kb_str k' = kb_str k @ [c]"
  using cbuf_append [of 64 "kb_text k" "kb_len k" c] assms by (simp_all add: kb_ok_def kb_str_def set_char_def)

lemma emit_simps [simp]:
  "kb_text (emit a c k) = kb_text k" "kb_len (emit a c k) = kb_len k" "kb_ev (emit a c k) = \<lparr>action = a, ch = c\<rparr>"
  "kb_settled (emit a c k) = kb_settled k" "live_row (emit a c k) = live_row k" "live_col (emit a c k) = live_col k"
  "live_index (emit a c k) = live_index k" "live_tick (emit a c k) = live_tick k" "kb_submit (emit a c k) = kb_submit k"
  "kb_ok (emit a c k) = kb_ok k" "kb_str (emit a c k) = kb_str k" "live_key (emit a c k) = live_key k"
  by (simp_all add: emit_def kb_ok_def kb_str_def live_key_def)

lemma set_char_simps [simp]:
  "kb_len (set_char i c k) = kb_len k" "kb_settled (set_char i c k) = kb_settled k" "live_row (set_char i c k) = live_row k"
  "live_col (set_char i c k) = live_col k" "live_index (set_char i c k) = live_index k" "kb_ev (set_char i c k) = kb_ev k"
  by (simp_all add: set_char_def)

text \<open>The character the end of a cycle delivers.\<close>

definition delivered :: "nat \<times> nat \<Rightarrow> keyboard \<Rightarrow> u8" where
  "delivered rc k =
     (case live_key k of
        None \<Rightarrow> kb_settled k
      | Some (r, c, _) \<Rightarrow> if (r, c) = rc \<or> KEYS ! fst rc ! snd rc = chars ''<'' \<or> kb_str k = [] then kb_settled k else last (kb_str k))"

lemma end_cycle_last:
  assumes "kb_ok k" "live_key k = Some l"
  shows "kb_settled (end_cycle True k) = (if kb_str k = [] then kb_settled k else last (kb_str k))"
proof -
  have l: "live_row k \<ge> 0" using assms(2) by (simp add: live_key_def split: if_splits)
  have n: "length (kb_str k) = unat (kb_len k)" by (rule length_kb_str [OF assms(1)])
  show ?thesis
  proof (cases "kb_len k = 0")
    case True
    then show ?thesis using n l by (simp add: end_cycle_settled)
  next
    case False
    then have "0 < unat (kb_len k)" "unat (kb_len k - 1) = unat (kb_len k) - 1" by (simp_all add: unat_gt_0 unat_minus_one)
    then show ?thesis using n l False assms(1) by (auto simp: end_cycle_settled last_conv_nth kb_str_def kb_ok_def cstr_def)
  qed
qed

lemma settled_end_cycle:
  "kb_ok k \<Longrightarrow> kb_settled (end_cycle True k) =
    (case live_key k of None \<Rightarrow> kb_settled k | Some _ \<Rightarrow> if kb_str k = [] then kb_settled k else last (kb_str k))"
  using end_cycle_last [of k] by (auto simp: end_cycle_settled live_key_def split: option.splits if_splits)

text \<open>Each kind of press.\<close>

lemma touch_delete:
  assumes "kb_ok k" "key_at x y = Some (r, c)" "KEYS ! r ! c = chars ''<''" "keyboard_touch t x y k = (res, k')"
  shows "kb_ok k' \<and> res = KB_EDIT \<and> kb_ev k' = \<lparr>action = KB_ACT_BACKSPACE, ch = 0\<rparr> \<and> kb_str k' = butlast (kb_str k) \<and> live_key k' = None
    \<and> kb_settled k' = kb_settled k"
proof -
  let ?k1 = "end_cycle False (emit KB_ACT_NONE 0 k)"
  have o: "kb_ok ?k1" "live_key ?k1 = None" "kb_str ?k1 = kb_str k" "kb_settled ?k1 = kb_settled k" "kb_len ?k1 = kb_len k"
    using end_cycle_ok [of "emit KB_ACT_NONE 0 k"] end_cycle_dead [of "emit KB_ACT_NONE 0 k" False] assms(1) by (simp_all add: end_cycle_settled)
  show ?thesis
  proof (cases "kb_len k = 0")
    case True
    then have "kb_str k = []" by (simp add: kb_str_def cstr_def)
    then show ?thesis using assms(4) o True unfolding touch_on_key [OF assms(2)] assms(3) by (auto simp: Let_def)
  next
    case False
    then show ?thesis using assms(4) o press_delete [OF o(1)] unfolding touch_on_key [OF assms(2)] assms(3) by (auto simp: Let_def)
  qed
qed

lemma chars_differ: "chars ''>'' \<noteq> chars ''<''"
  by (simp add: chars_def)

lemma touch_submit:
  assumes "kb_ok k" "key_at x y = Some (r, c)" "KEYS ! r ! c = chars ''>''" "keyboard_touch t x y k = (res, k')"
  shows "kb_ok k' \<and> res = KB_SUBMIT \<and> kb_ev k' = \<lparr>action = KB_ACT_SUBMIT, ch = 0\<rparr> \<and> kb_str k' = kb_str k \<and> live_key k' = None
    \<and> kb_settled k' = kb_settled (end_cycle True k)"
proof -
  have "kb_settled (end_cycle True (emit KB_ACT_NONE 0 k)) = kb_settled (end_cycle True k)" by (simp add: end_cycle_settled)
  then show ?thesis
    using assms(4) end_cycle_ok [of "emit KB_ACT_NONE 0 k"] end_cycle_dead [of "emit KB_ACT_NONE 0 k" True] assms(1) chars_differ
    unfolding touch_on_key [OF assms(2)] assms(3) by (auto simp: Let_def settle_def)
qed

lemma live_key_iff: "kb_ok k \<Longrightarrow> live_row k = int r \<and> live_col k = int c \<longleftrightarrow> (\<exists>i. live_key k = Some (r, c, i))"
  by (auto simp: live_key_def kb_ok_def)

lemma next_index:
  assumes "unat (i :: u32) < n" "n \<le> 5"
  shows "unat ((i + 1) mod of_nat n) = Suc (unat i) mod n"
proof -
  have "unat (of_nat n :: u32) = n" "unat (i + 1) = Suc (unat i)" using assms by (simp_all add: unat_of_nat_u32 unat_add_u32)
  then show ?thesis by (simp add: unat_mod)
qed

lemma touch_again:
  assumes "kb_ok k" "key_at x y = Some (r, c)" "letters r c" "live_key k = Some (r, c, i)" "keyboard_touch t x y k = (res, k')"
  defines "i' \<equiv> Suc i mod length (KEYS ! r ! c)"
  shows "kb_ok k' \<and> res = KB_EDIT \<and> kb_ev k' = \<lparr>action = KB_ACT_REPLACE, ch = KEYS ! r ! c ! i'\<rparr>
    \<and> kb_str k' = (if kb_str k = [] then [] else butlast (kb_str k) @ [KEYS ! r ! c ! i']) \<and> live_key k' = Some (r, c, i')
    \<and> kb_settled k' = kb_settled k"
proof -
  let ?K = "KEYS ! r ! c"
  have K: "?K \<noteq> []" "length ?K \<le> 5" "\<And>j. j < length ?K \<Longrightarrow> ?K ! j \<noteq> 0" using KEYS_letter [OF assms(3)] by auto
  have lv: "live_row k = int r" "live_col k = int c" and i: "i = unat (live_index k)"
    using assms(1,4) by (auto simp: live_key_def kb_ok_def split: if_splits)
  have il: "unat (live_index k) < length ?K" using assms(1) lv by (simp add: kb_ok_def)
  define j where "j = (live_index k + 1) mod of_nat (length ?K)"
  have j: "unat j = i'" using next_index [OF il K(2)] by (simp add: j_def i'_def i)
  have j': "i' < length ?K" using K(1) by (simp add: i'_def)
  have nz: "?K ! i' \<noteq> 0" by (rule K(3) [OF j'])
  define k1 where "k1 = (emit KB_ACT_NONE 0 k)\<lparr>live_index := j\<rparr>"
  have o1: "kb_ok k1" "kb_str k1 = kb_str k" "live_key k1 = Some (r, c, i')" "kb_settled k1 = kb_settled k" "kb_len k1 = kb_len k"
    using assms(1) lv j j' by (auto simp: k1_def kb_ok_def kb_str_def live_key_def)
  define k2 where "k2 = (if kb_len k1 \<noteq> 0 then set_char (kb_len k1 - 1) (?K ! i') k1 else k1)"
  have l2: "live_key k2 = live_key k1" by (simp add: k2_def live_key_def)
  have o2: "kb_ok k2 \<and> kb_str k2 = (if kb_str k = [] then [] else butlast (kb_str k) @ [?K ! i'])"
  proof (cases "kb_len k1 = 0")
    case True
    then show ?thesis using o1 by (simp add: k2_def kb_str_def cstr_def)
  next
    case False
    then have "kb_str k1 \<noteq> []" using length_kb_str [OF o1(1)] by (auto simp: unat_eq_0)
    then show ?thesis using press_replace [OF o1(1) False nz] False o1(2) by (simp add: k2_def)
  qed
  have e: "(res, k') = (KB_EDIT, (emit KB_ACT_REPLACE (?K ! i') k2)\<lparr>live_tick := t\<rparr>)"
    using assms(5) lv assms(3) j unfolding touch_on_key [OF assms(2)]
    by (auto simp: Let_def letters_def k2_def k1_def j_def emit_def split: if_splits)
  have t: "kb_ok (K\<lparr>live_tick := t\<rparr>) = kb_ok K" "kb_str (K\<lparr>live_tick := t\<rparr>) = kb_str K" "live_key (K\<lparr>live_tick := t\<rparr>) = live_key K" for K
    by (simp_all add: kb_ok_def kb_str_def live_key_def)
  show ?thesis using e o1 o2 l2 by (simp add: t) (simp add: k2_def)
qed

lemma touch_new:
  assumes "kb_ok k" "key_at x y = Some (r, c)" "letters r c" "\<And>i. live_key k \<noteq> Some (r, c, i)" "keyboard_touch t x y k = (res, k')"
  shows "kb_ok k' \<and> (kb_ev k', kb_str k', live_key k') = new_key (r, c) (kb_str k, live_key k)
    \<and> res = (if length (kb_str k) < 63 then KB_EDIT else KB_NONE) \<and> kb_settled k' = kb_settled (end_cycle True k)"
proof -
  let ?K = "KEYS ! r ! c"
  have K: "?K \<noteq> []" "?K ! 0 \<noteq> 0" using KEYS_letter [OF assms(3)] by auto
  have nl: "\<not> (live_row k = int r \<and> live_col k = int c)" using live_key_iff [OF assms(1)] assms(4) by blast
  define k1 where "k1 = end_cycle True (emit KB_ACT_NONE 0 k)"
  have o1: "kb_ok k1" "kb_str k1 = kb_str k" "live_key k1 = None" "kb_settled k1 = kb_settled (end_cycle True k)" "kb_ev k1 = \<lparr>action = KB_ACT_NONE, ch = 0\<rparr>"
    using end_cycle_ok [of "emit KB_ACT_NONE 0 k"] end_cycle_dead [of "emit KB_ACT_NONE 0 k" True] assms(1) by (simp_all add: k1_def end_cycle_settled)
  have n: "length (kb_str k) = unat (kb_len k1)" using length_kb_str [OF o1(1)] o1(2) by simp
  have le: "unat (kb_len k1) \<le> 63" using o1(1) by (simp add: kb_ok_def cbuf_def)
  have full: "kb_len k1 + 1 \<ge> KB_TEXT_MAX \<longleftrightarrow> unat (kb_len k1) = 63" using le by (auto simp: word_le_nat_alt unat_add_u32)
  have e: "(res, k') = (if kb_len k1 + 1 \<ge> KB_TEXT_MAX then (KB_NONE, k1)
      else let k2 = set_char (kb_len k1) (?K ! 0) (k1\<lparr>live_index := 0, kb_len := kb_len k1 + 1\<rparr>);
               k3 = set_char (kb_len k2) 0 k2;
               k4 = (emit KB_ACT_APPEND (?K ! 0) k3)\<lparr>live_row := int r, live_col := int c\<rparr>
           in (KB_EDIT, (draw_key (of_nat r) (of_nat c) True k4)\<lparr>live_tick := t\<rparr>))"
    using assms(5) assms(3) unfolding touch_on_key [OF assms(2)] by (auto simp: if_not_P [OF nl] Let_def letters_def settle_def k1_def split: if_splits)
  show ?thesis
  proof (cases "unat (kb_len k1) = 63")
    case True
    then show ?thesis using e full o1 n by (simp add: new_key_def)
  next
    case False
    then have lt: "unat (kb_len k1) < 63" using le by simp
    define k2 where "k2 = k1\<lparr>live_index := 0\<rparr>"
    have o2: "kb_ok k2" "kb_str k2 = kb_str k1" "kb_len k2 = kb_len k1"
      using o1(1,3) by (auto simp: k2_def kb_ok_def kb_str_def live_key_def split: if_splits)
    define k3 where "k3 = set_char (kb_len k2 + 1) 0 (set_char (kb_len k2) (?K ! 0) (k2\<lparr>kb_len := kb_len k2 + 1\<rparr>))"
    note A = press_append [OF o2(1) lt [folded o2(3)] K(2), folded k3_def]
    define F where "F = (draw_key (of_nat r) (of_nat c) True ((emit KB_ACT_APPEND (?K ! 0) k3)\<lparr>live_row := int r, live_col := int c\<rparr>))\<lparr>live_tick := t\<rparr>"
    have i0: "unat (live_index k3) = 0" unfolding k3_def k2_def set_char_simps by simp
    then have "kb_ok F" using A(1) assms(3) K(1) by (simp add: F_def kb_ok_def)
    moreover have "kb_str F = kb_str k @ [?K ! 0]" using A(2) o1(2) o2(2) by (simp add: F_def kb_str_def)
    moreover have "live_key F = Some (r, c, 0)" by (simp add: F_def live_key_def i0)
    moreover have "kb_ev F = \<lparr>action = KB_ACT_APPEND, ch = ?K ! 0\<rparr>" by (simp add: F_def)
    moreover have "kb_settled F = kb_settled k1" by (simp add: F_def k3_def k2_def)
    moreover have "(res, k') = (KB_EDIT, F)" using e full False by (simp add: Let_def F_def k3_def k2_def set_char_def emit_def)
    ultimately show ?thesis using o1(4) n lt by (simp add: new_key_def)
  qed
qed

subsection \<open>Theorems\<close>

text \<open>
  The keyboard is the editor (C36): a press anywhere on the panel, on any well-formed keyboard, yields the event, the text and the live
  key the editor prescribes, delivers the character whose cycle it ends, and leaves the keyboard well formed with the text readable as
  a string.
\<close>

theorem keyboard_edits:
  assumes "kb_ok k" "keyboard_touch t x y k = (res, k')"
  shows "kb_ok k' \<and> (keyboard_event k', keyboard_text k', live_key k') = tap x y (keyboard_text k, live_key k)
    \<and> res = (case action (keyboard_event k') of KB_ACT_NONE \<Rightarrow> KB_NONE | KB_ACT_SUBMIT \<Rightarrow> KB_SUBMIT | _ \<Rightarrow> KB_EDIT)
    \<and> kb_settled k' = (case key_at x y of None \<Rightarrow> kb_settled k | Some rc \<Rightarrow> delivered rc k)"
proof -
  have "kb_ok k' \<and> (kb_ev k', kb_str k', live_key k') = tap x y (kb_str k, live_key k)
    \<and> res = (case action (kb_ev k') of KB_ACT_NONE \<Rightarrow> KB_NONE | KB_ACT_SUBMIT \<Rightarrow> KB_SUBMIT | _ \<Rightarrow> KB_EDIT)
    \<and> kb_settled k' = (case key_at x y of None \<Rightarrow> kb_settled k | Some rc \<Rightarrow> delivered rc k)"
  proof (cases "key_at x y")
    case None
    then show ?thesis using assms touch_outside [OF None, of t k] by (auto simp: tap_def)
  next
    case (Some rc)
    obtain r c where rc: "rc = (r, c)" by (rule prod.exhaust)
    note key = Some [unfolded rc]
    have S: "kb_settled (end_cycle True k) = delivered (r, c) k" if "\<And>i. live_key k \<noteq> Some (r, c, i)" "KEYS ! r ! c \<noteq> chars ''<''"
      using settled_end_cycle [OF assms(1)] that by (auto simp: delivered_def split: option.splits)
    consider "KEYS ! r ! c = chars ''<''" | "KEYS ! r ! c = chars ''>''" | i where "letters r c" "live_key k = Some (r, c, i)"
      | "letters r c" "\<And>i. live_key k \<noteq> Some (r, c, i)" using key_letter [OF key] by blast
    then show ?thesis
    proof cases
      case 1
      then show ?thesis using touch_delete [OF assms(1) key 1 assms(2)] by (auto simp: tap_def key rc key_press_def delivered_def split: option.splits)
    next
      case 2
      have "live_key k \<noteq> Some (r, c, i)" for i
        using assms(1) 2 by (auto simp: live_key_def kb_ok_def letters_def)
      then show ?thesis using touch_submit [OF assms(1) key 2 assms(2)] S 2 chars_differ by (auto simp: tap_def key rc key_press_def)
    next
      case 3
      then show ?thesis using touch_again [OF assms(1) key 3 assms(2)] by (simp add: tap_def key rc key_press_def letters_def Let_def delivered_def)
    next
      case 4
      then have "key_press (r, c) (kb_str k, live_key k) = new_key (r, c) (kb_str k, live_key k)"
        by (auto simp: key_press_def letters_def split: option.splits)
      then show ?thesis using touch_new [OF assms(1) key 4 assms(2)] S 4 by (auto simp: tap_def key rc new_key_def letters_def)
    qed
  qed
  then show ?thesis using assms(1) by (simp add: keyboard_text_str keyboard_event_def)
qed

lemma keyboard_reset_ok: "kb_ok (keyboard_reset l k)" "keyboard_text (keyboard_reset l k) = []" "live_key (keyboard_reset l k) = None"
  by (simp_all add: keyboard_reset_def kb_ok_def cbuf_def keyboard_text_def c_text_def live_key_def)

lemma keyboard_tick_ok: "kb_ok k \<Longrightarrow> kb_ok (snd (keyboard_tick t k)) \<and> keyboard_text (snd (keyboard_tick t k)) = keyboard_text k"
  by (simp add: keyboard_tick_def settle_def end_cycle_ok keyboard_text_def)

lemma keyboard_touch_ok: "kb_ok k \<Longrightarrow> kb_ok (snd (keyboard_touch t x y k))"
  by (metis keyboard_edits prod.collapse)

text \<open>A series of presses, each with its time and place.\<close>

definition touches :: "(u32 \<times> u32 \<times> u32) list \<Rightarrow> keyboard \<Rightarrow> keyboard" where
  "touches ps k = fold (\<lambda>(t, x, y) k. snd (keyboard_touch t x y k)) ps k"

lemma touches_again:
  assumes "kb_ok k" "letters r c" "live_key k = Some (r, c, i)" "keyboard_text k \<noteq> []" "i < length (KEYS ! r ! c)"
    "\<forall>(t, x, y) \<in> set ps. key_at x y = Some (r, c)"
  shows "kb_ok (touches ps k)
    \<and> keyboard_text (touches ps k) = (if ps = [] then keyboard_text k
        else butlast (keyboard_text k) @ [KEYS ! r ! c ! ((i + length ps) mod length (KEYS ! r ! c))])
    \<and> live_key (touches ps k) = Some (r, c, (i + length ps) mod length (KEYS ! r ! c))"
  using assms
proof (induction ps arbitrary: k i)
  case (Cons p ps)
  obtain t x y where p: "p = (t, x, y)" by (metis prod.exhaust)
  define k1 where "k1 = snd (keyboard_touch t x y k)"
  let ?K = "KEYS ! r ! c" and ?i = "Suc i mod length (KEYS ! r ! c)"
  have K: "?K \<noteq> []" using KEYS_letter [OF Cons.prems(2)] by simp
  have at: "key_at x y = Some (r, c)" using Cons.prems(6) by (simp add: p)
  obtain res where "keyboard_touch t x y k = (res, k1)" by (metis k1_def prod.collapse)
  from keyboard_edits [OF Cons.prems(1) this]
  have k1: "kb_ok k1" "(keyboard_event k1, keyboard_text k1, live_key k1) = key_press (r, c) (keyboard_text k, live_key k)"
    by (simp_all add: tap_def at)
  have "keyboard_text k1 = butlast (keyboard_text k) @ [?K ! ?i]" "live_key k1 = Some (r, c, ?i)"
    using k1(2) Cons.prems(2-4) by (simp_all add: key_press_def letters_def Let_def)
  moreover have "?i < length ?K" using K by simp
  moreover have "touches (p # ps) k = touches ps k1" by (simp add: touches_def p k1_def)
  ultimately show ?case
    using Cons.IH [OF k1(1) Cons.prems(2), of ?i] Cons.prems(6) by (simp add: mod_simps)
qed (simp add: touches_def)

text \<open>
  Multi-tap: a run of presses anywhere on one letter key, on a keyboard with room whose live key is another, adds one
  character, the one the number of presses reaches in the cycle of the key; and when the settle time has passed since the last, it is
  delivered and the next press starts a new character.
\<close>

theorem keyboard_multi_tap:
  assumes "kb_ok k" "letters r c" "\<And>i. live_key k \<noteq> Some (r, c, i)" "length (keyboard_text k) < 63"
    and "ps \<noteq> []" "\<forall>(t, x, y) \<in> set ps. key_at x y = Some (r, c)"
  defines "k' \<equiv> touches ps k" and "s \<equiv> KEYS ! r ! c ! ((length ps - 1) mod length (KEYS ! r ! c))"
  shows "keyboard_text k' = keyboard_text k @ [s] \<and> (t - live_tick k' \<ge> 80 \<longrightarrow>
      fst (keyboard_tick t k') \<and> fst (keyboard_settled (snd (keyboard_tick t k'))) = s \<and> live_key (snd (keyboard_tick t k')) = None)"
proof (intro conjI impI)
  let ?K = "KEYS ! r ! c"
  have K: "?K \<noteq> []" using KEYS_letter [OF assms(2)] by simp
  obtain t0 x y qs where ps: "ps = (t0, x, y) # qs" using assms(5) by (metis prod.exhaust neq_Nil_conv)
  define k1 where "k1 = snd (keyboard_touch t0 x y k)"
  have at: "key_at x y = Some (r, c)" using assms(6) by (simp add: ps)
  obtain res where "keyboard_touch t0 x y k = (res, k1)" by (metis k1_def prod.collapse)
  from keyboard_edits [OF assms(1) this]
  have k1: "kb_ok k1" "(keyboard_event k1, keyboard_text k1, live_key k1) = key_press (r, c) (keyboard_text k, live_key k)"
    by (simp_all add: tap_def at)
  have "key_press (r, c) (keyboard_text k, live_key k) = new_key (r, c) (keyboard_text k, live_key k)"
    using assms(2,3) by (auto simp: key_press_def letters_def split: option.splits)
  then have n: "keyboard_text k1 = keyboard_text k @ [?K ! 0]" "live_key k1 = Some (r, c, 0)"
    using k1(2) assms(4) by (simp_all add: new_key_def)
  have q: "\<forall>(t, x, y) \<in> set qs. key_at x y = Some (r, c)" using assms(6) by (simp add: ps)
  have k': "k' = touches qs k1" by (simp add: k'_def touches_def ps k1_def)
  have R: "kb_ok k' \<and> keyboard_text k' = keyboard_text k @ [s] \<and> (\<exists>i. live_key k' = Some (r, c, i))"
    using touches_again [OF k1(1) assms(2) n(2) _ _ q] n K by (cases qs) (simp_all add: k' s_def ps touches_def)
  then show "keyboard_text k' = keyboard_text k @ [s]" by blast
  have T: "fst (keyboard_tick t k') \<and> fst (keyboard_settled (snd (keyboard_tick t k'))) = s \<and> live_key (snd (keyboard_tick t k')) = None"
    if t: "t - live_tick k' \<ge> 80"
  proof -
  have lv: "\<not> live_row k' < 0" using R by (auto simp: live_key_def split: if_splits)
  have "keyboard_tick t k' = (True, end_cycle True k')" using t lv by (simp add: keyboard_tick_def settle_def not_less)
  moreover have "kb_settled (end_cycle True k') = s"
    using R settled_end_cycle [of k'] by (auto simp: keyboard_text_str)
  ultimately show ?thesis using end_cycle_dead [of k' True] R by (simp add: keyboard_settled_def)
  qed
  assume "t - live_tick k' \<ge> 80"
  then show "fst (keyboard_tick t k')" "fst (keyboard_settled (snd (keyboard_tick t k'))) = s" "live_key (snd (keyboard_tick t k')) = None"
    using T by simp_all
qed

lemma press_char:
  assumes "r < 4" "c < 3" "key_press (r, c) (s, live) = (ev, e)" "action ev \<in> {KB_ACT_APPEND, KB_ACT_REPLACE}"
  shows "ch ev \<noteq> 0"
proof -
  have K: "KEYS ! r ! c \<noteq> []" "\<And>i. i < length (KEYS ! r ! c) \<Longrightarrow> KEYS ! r ! c ! i \<noteq> 0"
    using KEYS_chars [OF assms(1,2)] by (metis nth_mem)+
  then have "KEYS ! r ! c ! 0 \<noteq> 0" "KEYS ! r ! c ! (Suc n mod length (KEYS ! r ! c)) \<noteq> 0" for n by simp_all
  then show ?thesis
    using assms(3,4) by (auto simp: key_press_def new_key_def Let_def split: prod.splits if_splits option.splits)
qed

lemma tap_char:
  assumes "tap x y e = (ev, e')" "action ev \<in> {KB_ACT_APPEND, KB_ACT_REPLACE}"
  shows "ch ev \<noteq> 0"
proof (cases "key_at x y")
  case None
  then show ?thesis using assms by (auto simp: tap_def)
next
  case (Some rc)
  obtain r c s live where e: "rc = (r, c)" "e = (s, live)" by (metis prod.exhaust)
  have "key_press (r, c) (s, live) = (ev, e')" using assms(1) Some by (simp add: tap_def e)
  from press_char [OF key_at_words(1,2) [OF Some [unfolded e]] this assms(2)] show ?thesis .
qed

text \<open>The limit of the module's own field: presses add to it only up to 63 characters, and only the delete key takes any away.\<close>

lemma press_length:
  assumes "key_press rc (s, live) = (ev, (s', live'))"
  shows "length s' = (case action ev of KB_ACT_APPEND \<Rightarrow> Suc (length s) | KB_ACT_BACKSPACE \<Rightarrow> length s - 1 | _ \<Rightarrow> length s)"
    "action ev = KB_ACT_APPEND \<Longrightarrow> length s < 63"
  using assms by (auto simp: key_press_def new_key_def Let_def split: prod.splits if_splits option.splits)

subsection \<open>Witnesses\<close>

text \<open>The keyboard at boot.\<close>

definition keyboard_boot :: keyboard where
  "keyboard_boot = \<lparr>kb_text = replicate 64 0, kb_len = 0, kb_submit = chars ''ok'', kb_ev = \<lparr>action = KB_ACT_NONE, ch = 0\<rparr>,
     kb_settled = 0, live_row = -1, live_col = -1, live_index = 0, live_tick = 0, panel = []\<rparr>"

lemma keyboard_boot_ok: "kb_ok keyboard_boot" "keyboard_text keyboard_boot = []" "live_key keyboard_boot = None"
  by (simp_all add: keyboard_boot_def kb_ok_def cbuf_def keyboard_text_def c_text_def live_key_def)

lemma key_abc: "key_at 100 130 = Some (0, 1)" "letters 0 1" "KEYS ! 0 ! Suc 0 = [97, 98, 99, 50]"
  by (simp_all add: key_at_def letters_def KEYS_def chars_def)

theorem keyboard_edits_witness:
  "keyboard_text (snd (keyboard_touch 5 100 130 keyboard_boot)) = [97]"
proof -
  obtain res k' where t: "keyboard_touch 5 100 130 keyboard_boot = (res, k')" by (rule prod.exhaust)
  from keyboard_edits [OF keyboard_boot_ok(1) t] show ?thesis
    using key_abc by (simp add: t tap_def keyboard_boot_ok key_press_def new_key_def letters_def)
qed

theorem keyboard_multi_tap_witness:
  "keyboard_text (touches [(5, 100, 130), (30, 90, 140), (60, 159, 161)] keyboard_boot) = [99]"
proof -
  have k: "\<forall>(t, x, y) \<in> set [(5 :: u32, 100 :: u32, 130 :: u32), (30, 90, 140), (60, 159, 161)]. key_at x y = Some (0, 1)"
    by (simp add: key_at_def)
  show ?thesis
    using keyboard_multi_tap [OF keyboard_boot_ok(1) key_abc(2) _ _ _ k] by (simp add: keyboard_boot_ok key_abc)
qed

end
