(* ===== verification/KTerm.thy ===== *)
theory KTerm
  imports KKeyboard KKeyq
begin

text \<open>
  The shell on the panel, \<^verbatim>\<open>kernel/term.c\<close>: a command line edited by the events of the keyboard, an output pane that is a ring of
  fixed lines with a scroll position, and the queue of settled characters of \<^verbatim>\<open>KKeyq\<close>. The shell is a parameter: the
  characters a command prints while the output is captured, and the keys it injects. What the pane should hold is
  stated on the unbounded list of lines printed.
\<close>

subsection \<open>State\<close>

abbreviation (input) HDR_H :: u32 where "HDR_H \<equiv> 22"
abbreviation (input) INPUT_H :: u32 where "INPUT_H \<equiv> 11"
abbreviation (input) INPUT_Y :: u32 where "INPUT_Y \<equiv> 109"
abbreviation (input) OUT_Y :: u32 where "OUT_Y \<equiv> 22"
abbreviation (input) OUT_H :: u32 where "OUT_H \<equiv> 87"
abbreviation (input) CHAR_W :: u32 where "CHAR_W \<equiv> 6"
abbreviation (input) LINE_H :: u32 where "LINE_H \<equiv> 9"
abbreviation (input) TERM_COLS :: u32 where "TERM_COLS \<equiv> 39"
abbreviation (input) TERM_ROWS :: u32 where "TERM_ROWS \<equiv> 9"
abbreviation (input) INPUT_MAX :: u32 where "INPUT_MAX \<equiv> 40"
abbreviation (input) HIST_ROWS :: u32 where "HIST_ROWS \<equiv> 48"
abbreviation (input) TRM_BG :: u16 where "TRM_BG \<equiv> 0"
abbreviation (input) TRM_FG :: u16 where "TRM_FG \<equiv> 0x07E0"
abbreviation (input) TRM_DIM :: u16 where "TRM_DIM \<equiv> 0x03E0"
abbreviation (input) TRM_KEY :: u16 where "TRM_KEY \<equiv> 0x2124"

record terminal =
  g_input :: "u8 list"
  g_inlen :: u32
  g_out :: "u8 list list"
  g_row :: u32
  g_col :: u32
  g_filled :: u32
  g_scroll :: u32
  g_commands :: u32
  g_kb_drawn :: bool
  g_out_dirty :: bool
  g_in_dirty :: bool
  g_was_down :: bool
  t_kb :: keyboard
  t_keyq :: keyq

definition term_commands :: "terminal \<Rightarrow> u32" where
  "term_commands t = g_commands t"

definition term_paint :: "panel_call list \<Rightarrow> terminal \<Rightarrow> terminal" where
  "term_paint cs t = t\<lparr>t_kb := paint cs (t_kb t)\<rparr>"

subsection \<open>The output pane\<close>

definition out_newline :: "terminal \<Rightarrow> terminal" where
  "out_newline t =
     (let t1 = t\<lparr>g_row := (g_row t + 1) mod HIST_ROWS, g_col := 0\<rparr>;
          t2 = t1\<lparr>g_out := (g_out t1)[unat (g_row t1) := replicate 40 0]\<rparr>
      in if g_filled t2 < HIST_ROWS then t2\<lparr>g_filled := g_filled t2 + 1\<rparr> else t2)"

definition max_scroll :: "terminal \<Rightarrow> u32" where
  "max_scroll t = (if g_filled t > TERM_ROWS then g_filled t - TERM_ROWS else 0)"

definition put_cell :: "u32 \<Rightarrow> u32 \<Rightarrow> u8 \<Rightarrow> terminal \<Rightarrow> terminal" where
  "put_cell r c x t = t\<lparr>g_out := (g_out t)[unat r := (g_out t ! unat r)[unat c := x]]\<rparr>"

definition capture :: "u8 \<Rightarrow> terminal \<Rightarrow> terminal" where
  "capture c t =
     (if c = 13 then t
      else if c = 10 then out_newline t
      else let t1 = (if g_col t \<ge> TERM_COLS then out_newline t else t);
               t2 = (put_cell (g_row t1) (g_col t1) c t1)\<lparr>g_col := g_col t1 + 1\<rparr>
           in put_cell (g_row t2) (g_col t2) 0 t2)"

definition out_puts :: "cstring \<Rightarrow> terminal \<Rightarrow> terminal" where
  "out_puts s t = fold capture s t"

definition term_open :: "terminal \<Rightarrow> terminal" where
  "term_open t =
     (let t1 = t\<lparr>g_kb_drawn := False, g_out_dirty := True, g_in_dirty := True, g_was_down := False,
                 t_kb := keyboard_reset (Some (chars ''run'')) (t_kb t)\<rparr>
      in if g_commands t1 = 0
         then fold (\<lambda>s u. out_newline (out_puts (chars s) u))
                [''nat-os shell'', ''type a command, then run'', ''try: help  mem  ps  adc  i2c''] t1
         else t1)"

subsection \<open>Drawing\<close>

definition term_header :: "panel_call list" where
  "term_header =
     Fill_rect 0 0 PANEL_W HDR_H TRM_DIM # Draw_text 4 7 (chars ''shell'') TRM_BG TRM_DIM 1 #
     concat (List.map (\<lambda>i. [Fill_rect (PANEL_W - 17 + i) (6 + i) 2 2 TRM_BG,
                           Fill_rect (PANEL_W - 17 + (9 - i)) (6 + i) 2 2 TRM_BG]) (List.map of_nat [0..<10]))"

definition draw_line :: "u32 \<Rightarrow> terminal \<Rightarrow> panel_call list" where
  "draw_line i t =
     (let back = (TERM_ROWS - 1 - i) + g_scroll t in
      if back \<ge> g_filled t then []
      else let src = (g_row t + HIST_ROWS - back) mod HIST_ROWS in
        if g_out t ! unat src ! 0 \<noteq> 0
        then [Draw_text 2 (OUT_Y + i * LINE_H) (c_text (g_out t ! unat src)) TRM_FG TRM_BG 1] else [])"

definition scrollbar :: "terminal \<Rightarrow> panel_call list" where
  "scrollbar t =
     (let span = max_scroll t in
      if span = 0 then []
      else let thumb0 = (TERM_ROWS * OUT_H) div g_filled t;
               thumb_h = (if thumb0 < 6 then 6 else thumb0);
               travel = OUT_H - thumb_h;
               thumb_y = OUT_Y + travel - (g_scroll t * travel) div span
           in [Fill_rect (PANEL_W - 3) OUT_Y 2 OUT_H TRM_KEY, Fill_rect (PANEL_W - 3) thumb_y 2 thumb_h TRM_FG])"

definition draw_output :: "terminal \<Rightarrow> terminal" where
  "draw_output t =
     (let t1 = (if g_scroll t > max_scroll t then t\<lparr>g_scroll := max_scroll t\<rparr> else t)
      in term_paint (Fill_rect 0 OUT_Y PANEL_W OUT_H TRM_BG # concat (List.map (\<lambda>i. draw_line (of_nat i) t1) [0..<9]) @ scrollbar t1) t1)"

definition draw_input :: "terminal \<Rightarrow> terminal" where
  "draw_input t =
     term_paint ([Fill_rect 0 INPUT_Y PANEL_W INPUT_H TRM_BG, Draw_text 2 (INPUT_Y + 2) (chars ''>'') TRM_DIM TRM_BG 1]
       @ (if g_inlen t \<noteq> 0 then [Draw_text (2 + CHAR_W + 2) (INPUT_Y + 2) (c_text (g_input t)) TRM_FG TRM_BG 1] else [])
       @ [Fill_rect (2 + CHAR_W + 2 + g_inlen t * CHAR_W) (INPUT_Y + 2) (CHAR_W - 1) 8 TRM_DIM]) t"

subsection \<open>The key queue and commands\<close>

definition term_keys_dropped :: "terminal \<Rightarrow> u32" where
  "term_keys_dropped t = g_keyq_dropped (t_keyq t)"

definition term_keys_queued :: "terminal \<Rightarrow> u32" where
  "term_keys_queued t = g_keyq_total (t_keyq t)"

definition term_key_inject :: "u32 \<Rightarrow> terminal \<Rightarrow> terminal" where
  "term_key_inject c t = t\<lparr>t_keyq := keyq_push (ucast c) (t_keyq t)\<rparr>"

definition drain_settled :: "terminal \<Rightarrow> terminal" where
  "drain_settled t =
     (case keyboard_settled (t_kb t) of (c, k) \<Rightarrow>
       let t1 = t\<lparr>t_kb := k\<rparr> in if c \<noteq> 0 then t1\<lparr>t_keyq := keyq_push c (t_keyq t1)\<rparr> else t1)"

type_synonym shell = "cstring \<Rightarrow> cstring \<times> u8 list"

definition submit :: "shell \<Rightarrow> terminal \<Rightarrow> terminal" where
  "submit sh t =
     (if g_inlen t = 0 then t
      else let t1 = out_newline (out_puts (c_text (g_input t)) (out_puts (chars ''> '') (t\<lparr>g_scroll := 0\<rparr>)));
               t2 = fold capture (fst (sh (c_text (g_input t)))) t1;
               t3 = t2\<lparr>t_keyq := fold keyq_push (snd (sh (c_text (g_input t)))) (t_keyq t2)\<rparr>
           in t3\<lparr>g_commands := g_commands t3 + 1, g_inlen := 0, g_input := (g_input t3)[0 := 0], g_out_dirty := True, g_in_dirty := True\<rparr>)"

definition term_frame :: "u32 \<Rightarrow> terminal \<Rightarrow> terminal" where
  "term_frame ticks t =
     (let t1 = (if g_kb_drawn t then t
                else let u = term_paint (Fill_rect 0 0 PANEL_W SPEC_Y TRM_BG # term_header) t
                     in u\<lparr>t_kb := keyboard_draw (t_kb u), g_kb_drawn := True, g_out_dirty := True, g_in_dirty := True\<rparr>);
          t2 = (case keyboard_tick ticks (t_kb t1) of (e, k) \<Rightarrow>
                 let u = t1\<lparr>t_kb := k\<rparr> in if e then (drain_settled u)\<lparr>g_in_dirty := True\<rparr> else u);
          t3 = (if g_out_dirty t2 then (draw_output t2)\<lparr>g_out_dirty := False\<rparr> else t2)
      in if g_in_dirty t3 then (draw_input t3)\<lparr>g_in_dirty := False\<rparr> else t3)"

definition scroll_touch :: "u32 \<Rightarrow> terminal \<Rightarrow> terminal" where
  "scroll_touch y t =
     (let step = TERM_ROWS div 2;
          t1 = (if y < OUT_Y + OUT_H div 2
                then let u = t\<lparr>g_scroll := g_scroll t + step\<rparr> in if g_scroll u > max_scroll u then u\<lparr>g_scroll := max_scroll u\<rparr> else u
                else t\<lparr>g_scroll := (if g_scroll t > step then g_scroll t - step else 0)\<rparr>)
      in t1\<lparr>g_out_dirty := True\<rparr>)"

definition term_apply :: "shell \<Rightarrow> kb_event_t \<Rightarrow> terminal \<Rightarrow> terminal" where
  "term_apply sh ev t =
     (case action ev of
        KB_ACT_APPEND \<Rightarrow>
          if g_inlen t + 1 \<ge> INPUT_MAX then t
          else let t1 = t\<lparr>g_input := (g_input t)[unat (g_inlen t) := ch ev], g_inlen := g_inlen t + 1\<rparr>
               in t1\<lparr>g_input := (g_input t1)[unat (g_inlen t1) := 0], g_in_dirty := True\<rparr>
      | KB_ACT_REPLACE \<Rightarrow>
          (if g_inlen t \<noteq> 0 then t\<lparr>g_input := (g_input t)[unat (g_inlen t - 1) := ch ev]\<rparr> else t)\<lparr>g_in_dirty := True\<rparr>
      | KB_ACT_BACKSPACE \<Rightarrow>
          (if g_inlen t \<noteq> 0 then t\<lparr>g_inlen := g_inlen t - 1, g_input := (g_input t)[unat (g_inlen t - 1) := 0]\<rparr> else t)\<lparr>g_in_dirty := True\<rparr>
      | KB_ACT_SUBMIT \<Rightarrow> submit sh t
      | _ \<Rightarrow> t\<lparr>g_in_dirty := True\<rparr>)"

definition term_touch :: "shell \<Rightarrow> u32 \<Rightarrow> u32 \<Rightarrow> u32 \<Rightarrow> bool \<Rightarrow> terminal \<Rightarrow> terminal" where
  "term_touch sh ticks x y down t =
     (if \<not> down then t\<lparr>g_was_down := False\<rparr>
      else if g_was_down t then t
      else let t1 = t\<lparr>g_was_down := True\<rparr> in
        if y \<ge> OUT_Y \<and> y < INPUT_Y then scroll_touch y t1
        else if y < KB_TOP \<or> y \<ge> SPEC_Y \<or> x \<ge> PANEL_W then t1
        else case keyboard_touch ticks x y (t_kb t1) of (res, k) \<Rightarrow>
          let t2 = t1\<lparr>t_kb := k\<rparr> in
            if res = KB_NONE then t2 else term_apply sh (keyboard_event k) (drain_settled t2))"

subsection \<open>The pane as a list of lines\<close>

text \<open>Every line ever printed, the last one still open: what a terminal of 39 columns with unlimited memory would hold.\<close>

definition tty_put :: "u8 \<Rightarrow> cstring list \<Rightarrow> cstring list" where
  "tty_put c ls =
     (if c = 13 then ls
      else if c = 10 then ls @ [[]]
      else if length (last ls) \<ge> 39 then ls @ [[c]]
      else butlast ls @ [last ls @ [c]])"

definition pad :: "cstring \<Rightarrow> u8 list" where
  "pad l = l @ replicate (40 - length l) 0"

definition displays :: "terminal \<Rightarrow> cstring list \<Rightarrow> bool" where
  "displays t ls \<longleftrightarrow> ls \<noteq> [] \<and> (\<forall>l \<in> set ls. length l \<le> 39) \<and> unat (g_col t) = length (last ls) \<and> unat (g_filled t) = min 48 (length ls)
     \<and> unat (g_row t) < 48 \<and> length (g_out t) = 48
     \<and> (\<forall>b < min 48 (length ls). g_out t ! ((unat (g_row t) + 48 - b) mod 48) = pad (ls ! (length ls - 1 - b)))"

lemma out_newline_simps [simp]:
  "g_input (out_newline t) = g_input t" "g_inlen (out_newline t) = g_inlen t" "g_scroll (out_newline t) = g_scroll t"
  "g_commands (out_newline t) = g_commands t" "g_was_down (out_newline t) = g_was_down t" "t_kb (out_newline t) = t_kb t" "t_keyq (out_newline t) = t_keyq t"
  by (simp_all add: out_newline_def Let_def)

lemma put_cell_simps [simp]:
  "g_input (put_cell r c x t) = g_input t" "g_inlen (put_cell r c x t) = g_inlen t" "g_scroll (put_cell r c x t) = g_scroll t"
  "g_commands (put_cell r c x t) = g_commands t" "g_was_down (put_cell r c x t) = g_was_down t" "t_kb (put_cell r c x t) = t_kb t"
  "t_keyq (put_cell r c x t) = t_keyq t" "g_row (put_cell r c x t) = g_row t" "g_col (put_cell r c x t) = g_col t" "g_filled (put_cell r c x t) = g_filled t"
  by (simp_all add: put_cell_def)

lemma capture_simps [simp]:
  "g_input (capture c t) = g_input t" "g_inlen (capture c t) = g_inlen t" "g_scroll (capture c t) = g_scroll t"
  "g_commands (capture c t) = g_commands t" "g_was_down (capture c t) = g_was_down t" "t_kb (capture c t) = t_kb t" "t_keyq (capture c t) = t_keyq t"
  by (simp_all add: capture_def Let_def)

lemma captures_simps [simp]:
  "g_input (fold capture s t) = g_input t" "g_inlen (fold capture s t) = g_inlen t" "g_scroll (fold capture s t) = g_scroll t"
  "g_commands (fold capture s t) = g_commands t" "g_was_down (fold capture s t) = g_was_down t" "t_kb (fold capture s t) = t_kb t"
  "t_keyq (fold capture s t) = t_keyq t"
  by (induction s arbitrary: t; simp)+

lemma ring_back:
  assumes "r < (48 :: nat)" "b < 48"
  shows "((r + 1) mod 48 + 48 - b) mod 48 = (if b = 0 then (r + 1) mod 48 else (r + 48 - (b - 1)) mod 48)"
    "0 < b \<Longrightarrow> (r + 48 - (b - 1)) mod 48 \<noteq> (r + 1) mod 48"
  using assms by (auto simp: mod_if split: if_splits)

lemma newline_displays:
  assumes "displays t ls" shows "displays (out_newline t) (ls @ [[]])"
proof -
  have r: "unat (g_row t) < 48" using assms by (simp add: displays_def)
  have row: "unat ((g_row t + 1) mod 48) = (unat (g_row t) + 1) mod 48"
    using r by (simp add: unat_mod unat_add_u32)
  have n: "unat (g_filled t) = min 48 (length ls)" using assms by (simp add: displays_def)
  have fl: "unat (g_filled (out_newline t)) = min 48 (Suc (length ls))"
    using n by (auto simp: out_newline_def Let_def word_less_nat_alt unat_add_u32)
  have L: "length (g_out t) = 48" and C: "\<And>b. b < min 48 (length ls) \<Longrightarrow> g_out t ! ((unat (g_row t) + 48 - b) mod 48) = pad (ls ! (length ls - 1 - b))"
    using assms by (simp_all add: displays_def)
  have o: "g_out (out_newline t) = (g_out t)[(unat (g_row t) + 1) mod 48 := replicate 40 0]" "g_col (out_newline t) = 0"
    "unat (g_row (out_newline t)) = (unat (g_row t) + 1) mod 48"
    by (simp_all add: out_newline_def Let_def row)
  have "g_out (out_newline t) ! ((unat (g_row (out_newline t)) + 48 - b) mod 48) = pad ((ls @ [[]]) ! (length (ls @ [[]]) - 1 - b))"
    if b: "b < min 48 (length (ls @ [[]]))" for b
  proof (cases "b = 0")
    case True
    then show ?thesis using L r by (simp add: o pad_def)
  next
    case False
    have b48: "b < 48" using b by simp
    have "(ls @ [[]]) ! (length (ls @ [[]]) - 1 - b) = ls ! (length ls - 1 - (b - 1))"
      using b False by (auto simp: nth_append)
    moreover have "b - 1 < min 48 (length ls)" using b False by auto
    ultimately show ?thesis
      using ring_back [OF r b48] False C [of "b - 1"] unfolding o by (simp add: nth_list_update_neq)
  qed
  then show ?thesis using assms fl L o by (auto simp: displays_def)
qed

lemma put_displays:
  fixes c :: u8
  assumes "displays t ls" "length (last ls) < 39"
  defines "t2 \<equiv> (put_cell (g_row t) (g_col t) c t)\<lparr>g_col := g_col t + 1\<rparr>"
  shows "displays (put_cell (g_row t2) (g_col t2) 0 t2) (butlast ls @ [last ls @ [c]])"
proof -
  have S: "ls \<noteq> []" "\<And>l. l \<in> set ls \<Longrightarrow> length l \<le> 39" "unat (g_col t) = length (last ls)" "unat (g_filled t) = min 48 (length ls)"
     "unat (g_row t) < 48" "length (g_out t) = 48"
     "\<And>b. b < min 48 (length ls) \<Longrightarrow> g_out t ! ((unat (g_row t) + 48 - b) mod 48) = pad (ls ! (length ls - 1 - b))"
    using assms(1) by (simp_all add: displays_def)
  have u: "unat (g_col t + 1) = Suc (length (last ls))" using assms(2) S(3) by (simp add: unat_add_u32)
  have len: "length (butlast ls @ [last ls @ [c]]) = length ls" using S(1) by simp
  have cur: "g_out t ! unat (g_row t) = pad (last ls)" using S(7) [of 0] S(1,5) by (simp add: last_conv_nth)
  define new where "new = ((g_out t ! unat (g_row t))[unat (g_col t) := c])[unat (g_col t + 1) := 0]"
  have new: "new = pad (last ls @ [c])"
    using assms(2) unfolding new_def cur u S(3) pad_def
    by (intro nth_equalityI) (auto simp: nth_append nth_list_update nth_Cons')
  have o: "g_out (put_cell (g_row t2) (g_col t2) 0 t2) = (g_out t)[unat (g_row t) := new]"
    using S(5,6) by (simp add: t2_def put_cell_def new_def)
  have "(g_out t)[unat (g_row t) := new] ! ((unat (g_row t) + 48 - b) mod 48) = pad ((butlast ls @ [last ls @ [c]]) ! (length ls - 1 - b))"
    if b: "b < min 48 (length ls)" for b
  proof (cases "b = 0")
    case True
    then show ?thesis using S(1,5,6) new by (simp add: nth_append)
  next
    case False
    have "(unat (g_row t) + 48 - b) mod 48 \<noteq> unat (g_row t)" using b False S(5) by (auto simp: mod_if split: if_splits)
    moreover have "(butlast ls @ [last ls @ [c]]) ! (length ls - 1 - b) = ls ! (length ls - 1 - b)"
    proof -
      have "length ls - 1 - b < length (butlast ls)" using b False by auto
      then show ?thesis by (simp add: nth_append nth_butlast)
    qed
    ultimately show ?thesis using S(7) [OF b] by simp
  qed
  then show ?thesis unfolding displays_def o len using S assms(2) u by (auto simp: t2_def dest: in_set_butlastD)
qed

lemma capture_displays: "displays t ls \<Longrightarrow> displays (capture c t) (tty_put c ls)"
proof -
  assume s: "displays t ls"
  have full: "g_col t \<ge> TERM_COLS \<longleftrightarrow> length (last ls) \<ge> 39" using s by (simp add: displays_def word_le_nat_alt)
  show ?thesis
  proof (cases "c = 13 \<or> c = 10")
    case True
    then show ?thesis using s newline_displays [OF s] by (auto simp: capture_def tty_put_def)
  next
    case False
    show ?thesis
    proof (cases "length (last ls) \<ge> 39")
      case True
      then show ?thesis using put_displays [OF newline_displays [OF s], of c] False full by (simp add: capture_def tty_put_def Let_def)
    next
      case not_full: False
      then show ?thesis using put_displays [OF s, of c] False full by (simp add: capture_def tty_put_def Let_def)
    qed
  qed
qed

lemma captures_displays: "displays t ls \<Longrightarrow> displays (fold capture s t) (fold tty_put s ls)"
  by (induction s arbitrary: t ls) (simp_all add: capture_displays)

subsection \<open>Invariant\<close>

definition cmd_line :: "terminal \<Rightarrow> cstring" where
  "cmd_line t = cstr (g_input t) (g_inlen t)"

definition term_ok :: "terminal \<Rightarrow> bool" where
  "term_ok t \<longleftrightarrow> cbuf 40 (g_input t) (g_inlen t) \<and> (\<exists>ls. displays t ls) \<and> g_scroll t \<le> max_scroll t \<and> kb_ok (t_kb t) \<and> keyq_ok (t_keyq t)"

lemma keyq_push_ok: "keyq_ok q \<Longrightarrow> keyq_ok (keyq_push c q)"
  using keyq_refines_list by blast

lemma keyq_pushes_ok: "keyq_ok q \<Longrightarrow> keyq_ok (fold keyq_push cs q)"
  by (induction cs arbitrary: q) (simp_all add: keyq_push_ok)

text \<open>What the fields outside a component leave alone.\<close>

lemma drain_settled_simps [simp]:
  "g_input (drain_settled t) = g_input t" "g_inlen (drain_settled t) = g_inlen t" "displays (drain_settled t) ls = displays t ls"
  "g_scroll (drain_settled t) = g_scroll t" "max_scroll (drain_settled t) = max_scroll t" "g_was_down (drain_settled t) = g_was_down t"
  "g_commands (drain_settled t) = g_commands t"
  "kb_text (t_kb (drain_settled t)) = kb_text (t_kb t)" "kb_len (t_kb (drain_settled t)) = kb_len (t_kb t)"
  "kb_ok (t_kb (drain_settled t)) = kb_ok (t_kb t)"
  by (simp_all add: drain_settled_def keyboard_settled_def Let_def displays_def max_scroll_def kb_ok_def)

lemma drain_settled_ok: "term_ok t \<Longrightarrow> term_ok (drain_settled t)"
  by (simp add: term_ok_def) (simp add: drain_settled_def keyboard_settled_def Let_def keyq_push_ok)

lemma displays_cong:
  "g_out t' = g_out t \<Longrightarrow> g_row t' = g_row t \<Longrightarrow> g_col t' = g_col t \<Longrightarrow> g_filled t' = g_filled t \<Longrightarrow> displays t' ls = displays t ls"
  by (simp add: displays_def)

lemma max_scroll_mono: "displays t ls \<Longrightarrow> displays t' (ls @ xs) \<Longrightarrow> max_scroll t \<le> max_scroll t'"
proof -
  assume "displays t ls" "displays t' (ls @ xs)"
  then have "unat (g_filled t) \<le> unat (g_filled t')" by (simp add: displays_def)
  moreover have "unat (max_scroll u) = unat (g_filled u) - 9" for u
    by (auto simp: max_scroll_def word_less_nat_alt unat_sub_u32)
  ultimately show ?thesis by (simp add: word_le_nat_alt)
qed

text \<open>The command line through the event of a press.\<close>

definition edit_line :: "kb_event_t \<Rightarrow> cstring \<Rightarrow> cstring" where
  "edit_line ev l =
     (case action ev of
        KB_ACT_APPEND \<Rightarrow> if length l < 39 then l @ [ch ev] else l
      | KB_ACT_REPLACE \<Rightarrow> if l = [] then [] else butlast l @ [ch ev]
      | KB_ACT_BACKSPACE \<Rightarrow> butlast l
      | KB_ACT_SUBMIT \<Rightarrow> []
      | _ \<Rightarrow> l)"

text \<open>What the pane holds after a command line and its output.\<close>

definition run_lines :: "shell \<Rightarrow> cstring \<Rightarrow> cstring list \<Rightarrow> cstring list" where
  "run_lines sh l ls = (if l = [] then ls else fold tty_put (fst (sh l)) (fold tty_put (chars ''> '' @ l) ls @ [[]]))"

lemma edit_text:
  assumes "cbuf 40 (g_input t) (g_inlen t)" "action ev \<noteq> KB_ACT_SUBMIT" "action ev \<in> {KB_ACT_APPEND, KB_ACT_REPLACE} \<Longrightarrow> ch ev \<noteq> 0"
  shows "cbuf 40 (g_input (term_apply sh ev t)) (g_inlen (term_apply sh ev t)) \<and> cmd_line (term_apply sh ev t) = edit_line ev (cmd_line t)"
proof (cases "action ev")
  case KB_ACT_APPEND
  have n: "length (cmd_line t) = unat (g_inlen t)" using length_cstr [OF assms(1)] by (simp add: cmd_line_def)
  have lt: "unat (g_inlen t) < 40" using assms(1) by (simp add: cbuf_def)
  have full: "g_inlen t + 1 \<ge> INPUT_MAX \<longleftrightarrow> \<not> unat (g_inlen t) < 39" using lt by (auto simp: word_le_nat_alt unat_add_u32)
  show ?thesis
    using cbuf_append [OF assms(1), of "ch ev"] assms(1,3) n full KB_ACT_APPEND
    by (simp add: edit_line_def term_apply_def Let_def cmd_line_def)
next
  case KB_ACT_REPLACE
  then show ?thesis
    using cbuf_replace [OF assms(1), of "ch ev"] assms(1,3) length_cstr [OF assms(1)]
    by (cases "g_inlen t = 0") (auto simp: edit_line_def term_apply_def Let_def cmd_line_def cstr_def unat_eq_0)
next
  case KB_ACT_BACKSPACE
  then show ?thesis
    using cbuf_delete [OF assms(1)] assms(1)
    by (cases "g_inlen t = 0") (auto simp: edit_line_def term_apply_def Let_def cmd_line_def cstr_def)
qed (use assms in \<open>simp_all add: edit_line_def term_apply_def cmd_line_def\<close>)

lemma submit_spec:
  assumes "term_ok t" "displays t ls"
  shows "term_ok (submit sh t) \<and> cmd_line (submit sh t) = [] \<and> displays (submit sh t) (run_lines sh (cmd_line t) ls)
    \<and> t_kb (submit sh t) = t_kb t \<and> g_commands (submit sh t) = (if cmd_line t = [] then g_commands t else g_commands t + 1)
    \<and> g_was_down (submit sh t) = g_was_down t"
proof -
  have cb: "cbuf 40 (g_input t) (g_inlen t)" and l: "c_text (g_input t) = cmd_line t" and n: "length (cmd_line t) = unat (g_inlen t)"
    using assms(1) cbuf_text [of 40 "g_input t" "g_inlen t"] length_cstr [of 40 "g_input t" "g_inlen t"] by (simp_all add: term_ok_def cmd_line_def)
  show ?thesis
  proof (cases "g_inlen t = 0")
    case True
    then show ?thesis using assms n by (simp add: submit_def run_lines_def)
  next
    case False
    then have ne: "cmd_line t \<noteq> []" using n by (auto simp: unat_eq_0)
    define t0 where "t0 = t\<lparr>g_scroll := 0\<rparr>"
    define t2 where "t2 = fold capture (fst (sh (cmd_line t))) (out_newline (fold capture (cmd_line t) (fold capture (chars ''> '') t0)))"
    have d0: "displays t0 ls" using assms(2) by (simp add: t0_def displays_def)
    have d2: "displays t2 (run_lines sh (cmd_line t) ls)"
      using captures_displays [OF newline_displays [OF captures_displays [OF captures_displays [OF d0]]]] ne
      by (simp add: t2_def run_lines_def)
    define t3 where "t3 = t2\<lparr>t_keyq := fold keyq_push (snd (sh (cmd_line t))) (t_keyq t2), g_commands := g_commands t2 + 1, g_inlen := 0,
        g_input := (g_input t2)[0 := 0], g_out_dirty := True, g_in_dirty := True\<rparr>"
    have s: "submit sh t = t3"
      using False by (simp add: submit_def l out_puts_def t0_def t2_def t3_def Let_def)
    have f: "g_input t3 = (g_input t)[0 := 0]" "g_inlen t3 = 0" "g_scroll t3 = 0" "t_kb t3 = t_kb t" "g_commands t3 = g_commands t + 1"
      "g_was_down t3 = g_was_down t" "t_keyq t3 = fold keyq_push (snd (sh (cmd_line t))) (t_keyq t)"
      by (simp_all add: t3_def t2_def t0_def)
    have d3: "displays t3 (run_lines sh (cmd_line t) ls)" using d2 by (simp add: t3_def displays_def)
    have b: "cbuf 40 ((g_input t)[0 := 0]) 0 \<and> cstr ((g_input t)[0 := 0]) 0 = []" using cbuf_nil [of 40 "g_input t"] cb by (simp add: cbuf_def)
    have q: "keyq_ok (fold keyq_push (snd (sh (cmd_line t))) (t_keyq t))" using assms(1) by (simp add: term_ok_def keyq_pushes_ok)
    have k: "kb_ok (t_kb t)" using assms(1) by (simp add: term_ok_def)
    have "term_ok t3" unfolding term_ok_def f using b q k d3 by simp blast
    then show ?thesis using d3 b ne by (simp add: s f cmd_line_def)
  qed
qed

subsection \<open>Presses\<close>

lemma apply_event_fields:
  assumes "action ev \<noteq> KB_ACT_SUBMIT"
  shows "displays (term_apply sh ev t) ls = displays t ls" "g_scroll (term_apply sh ev t) = g_scroll t"
    "max_scroll (term_apply sh ev t) = max_scroll t" "t_kb (term_apply sh ev t) = t_kb t" "t_keyq (term_apply sh ev t) = t_keyq t"
    "g_commands (term_apply sh ev t) = g_commands t" "g_was_down (term_apply sh ev t) = g_was_down t"
  using assms by (cases "action ev"; simp add: term_apply_def Let_def displays_def max_scroll_def)+

lemma apply_event_ok:
  assumes "term_ok t" "displays t ls" "action ev \<in> {KB_ACT_APPEND, KB_ACT_REPLACE} \<Longrightarrow> ch ev \<noteq> 0"
  shows "term_ok (term_apply sh ev t) \<and> cmd_line (term_apply sh ev t) = edit_line ev (cmd_line t)
    \<and> displays (term_apply sh ev t) (if action ev = KB_ACT_SUBMIT then run_lines sh (cmd_line t) ls else ls)
    \<and> t_kb (term_apply sh ev t) = t_kb t \<and> g_was_down (term_apply sh ev t) = g_was_down t
    \<and> g_commands (term_apply sh ev t) = g_commands t + (if action ev = KB_ACT_SUBMIT \<and> cmd_line t \<noteq> [] then 1 else 0)"
proof (cases "action ev = KB_ACT_SUBMIT")
  case True
  then have "term_apply sh ev t = submit sh t" by (simp add: term_apply_def)
  then show ?thesis using submit_spec [OF assms(1,2)] True by (simp add: edit_line_def)
next
  case False
  have "cbuf 40 (g_input t) (g_inlen t)" using assms(1) by (simp add: term_ok_def)
  from edit_text [OF this False assms(3)] show ?thesis
    using assms(1,2) False by (simp add: term_ok_def apply_event_fields)
qed

definition on_keys :: "u32 \<Rightarrow> u32 \<Rightarrow> bool" where
  "on_keys x y \<longleftrightarrow> key_at x y \<noteq> None"

lemma on_keys_words: "on_keys x y \<longleftrightarrow> \<not> (y < KB_TOP \<or> y \<ge> SPEC_Y \<or> x \<ge> PANEL_W)"
  by (simp add: on_keys_def key_at_def)

lemma drain_settled_kb: "keyboard_text (t_kb (drain_settled t)) = keyboard_text (t_kb t)" "live_key (t_kb (drain_settled t)) = live_key (t_kb t)"
  by (simp_all add: drain_settled_def keyboard_settled_def Let_def keyboard_text_def live_key_def)

lemma touch_key:
  fixes sh :: shell and ticks :: u32
  assumes "term_ok t" "displays t ls" "\<not> g_was_down t" "on_keys x y" "tap x y (keyboard_text (t_kb t), live_key (t_kb t)) = (ev, e')"
  defines "t' \<equiv> term_touch sh ticks x y True t"
  shows "term_ok t' \<and> cmd_line t' = edit_line ev (cmd_line t)
    \<and> displays t' (if action ev = KB_ACT_SUBMIT then run_lines sh (cmd_line t) ls else ls)
    \<and> (keyboard_text (t_kb t'), live_key (t_kb t')) = e' \<and> g_was_down t'
    \<and> g_commands t' = g_commands t + (if action ev = KB_ACT_SUBMIT \<and> cmd_line t \<noteq> [] then 1 else 0)"
proof -
  obtain res k where k: "keyboard_touch ticks x y (t_kb t) = (res, k)" by (rule prod.exhaust)
  have "kb_ok (t_kb t)" using assms(1) by (simp add: term_ok_def)
  note K = keyboard_edits [OF this k]
  have ev: "keyboard_event k = ev" "(keyboard_text k, live_key k) = e'" using K assms(5) by simp_all
  define u where "u = t\<lparr>g_was_down := True, t_kb := k\<rparr>"
  have nk: "\<not> (y < KB_TOP \<or> y \<ge> SPEC_Y \<or> x \<ge> PANEL_W)" using assms(4) by (simp add: on_keys_words)
  then have np: "\<not> (y \<ge> OUT_Y \<and> y < INPUT_Y)" by (auto simp: word_less_nat_alt word_le_nat_alt)
  have f: "displays u L = displays t L" "max_scroll u = max_scroll t" for L by (simp_all add: u_def displays_def max_scroll_def)
  have "term_ok u" using assms(1) K unfolding term_ok_def f by (simp add: u_def)
  then have u: "term_ok u" "displays u ls" "cmd_line u = cmd_line t" "g_commands u = g_commands t"
    using assms(2) f by (simp_all add: u_def cmd_line_def)
  have t': "t' = (if res = KB_NONE then u else term_apply sh ev (drain_settled u))"
    using assms(3) unfolding t'_def term_touch_def Let_def if_not_P [OF np] if_not_P [OF nk] by (simp add: k u_def ev(1))
  have none: "res = KB_NONE \<Longrightarrow> action ev = KB_ACT_NONE" using K ev(1) by (auto split: kb_action.splits)
  show ?thesis
  proof (cases "res = KB_NONE")
    case True
    then have "t' = u" "action ev = KB_ACT_NONE" using t' none by simp_all
    then show ?thesis using u ev(2) by (simp add: edit_line_def) (simp add: u_def)
  next
    case False
    have d: "term_ok (drain_settled u)" "displays (drain_settled u) ls" using u drain_settled_ok by simp_all
    have "cmd_line (drain_settled u) = cmd_line t" using u(3) by (simp add: cmd_line_def)
    moreover have "(keyboard_text (t_kb (drain_settled u)), live_key (t_kb (drain_settled u))) = e'"
      using ev(2) by (simp add: drain_settled_kb) (simp add: u_def)
    moreover have "g_was_down (drain_settled u)" by simp (simp add: u_def)
    moreover have "t' = term_apply sh ev (drain_settled u)" using t' False by simp
    ultimately show ?thesis
      using apply_event_ok [OF d, of ev sh] tap_char [OF assms(5)] u(4) by (cases "action ev = KB_ACT_SUBMIT") simp_all
  qed
qed

subsection \<open>Events\<close>

datatype term_event = Open | Frame u32 | Press u32 u32 u32 | Release | Inject u32 | Pop

fun term_step :: "shell \<Rightarrow> term_event \<Rightarrow> terminal \<Rightarrow> terminal" where
  "term_step sh Open t = term_open t"
| "term_step sh (Frame ticks) t = term_frame ticks t"
| "term_step sh (Press ticks x y) t = term_touch sh ticks x y True t"
| "term_step sh Release t = term_touch sh 0 0 0 False t"
| "term_step sh (Inject c) t = term_key_inject c t"
| "term_step sh Pop t = t\<lparr>t_keyq := snd (term_key_pop (t_keyq t))\<rparr>"

text \<open>What a step without a press on a key keeps: the line, the lines shown and the keyboard's text.\<close>

definition keeps :: "terminal \<Rightarrow> terminal \<Rightarrow> bool" where
  "keeps t t' \<longleftrightarrow> term_ok t' \<and> cmd_line t' = cmd_line t \<and> (\<forall>ls. displays t ls \<longrightarrow> displays t' ls)
     \<and> keyboard_text (t_kb t') = keyboard_text (t_kb t)"

lemma keeps_refl: "term_ok t \<Longrightarrow> keeps t t"
  by (simp add: keeps_def)

lemma keeps_trans: "keeps t u \<Longrightarrow> keeps u v \<Longrightarrow> keeps t v"
  by (simp add: keeps_def)

lemma paint_keeps: "kb_ok (paint cs k) = kb_ok k" "keyboard_text (paint cs k) = keyboard_text k" "live_key (paint cs k) = live_key k"
  by (simp_all add: paint_def kb_ok_def keyboard_text_def live_key_def)

lemma keyboard_draw_panel: "\<exists>cs. keyboard_draw k = paint cs k"
proof -
  have "\<exists>cs. fold (\<lambda>(r, c) k. draw_key (of_nat r) (of_nat c) (live_row k = int r \<and> live_col k = int c) k) rcs k = paint cs k" for rcs k
  proof (induction rcs arbitrary: k)
    case (Cons rc rcs)
    obtain r c where rc: "rc = (r, c)" by (rule prod.exhaust)
    obtain cs where "draw_key (of_nat r) (of_nat c) (live_row k = int r \<and> live_col k = int c) k = paint cs k"
      by (auto simp: draw_key_def Let_def)
    then show ?case using Cons.IH [of "paint cs k"] by (auto simp: rc paint_def)
  qed (auto intro!: exI [of _ "[]"] simp: paint_def)
  then obtain cs where "keyboard_draw k = paint cs (paint [Fill_rect 0 KB_TOP PANEL_W (SPEC_Y - KB_TOP) KB_BG] k)"
    unfolding keyboard_draw_def by blast
  then show ?thesis by (auto simp: paint_def)
qed

lemma plain_keeps:
  assumes "term_ok t" "g_input t' = g_input t" "g_inlen t' = g_inlen t" "g_out t' = g_out t" "g_row t' = g_row t" "g_col t' = g_col t"
    "g_filled t' = g_filled t" "g_scroll t' \<le> max_scroll t" "kb_ok (t_kb t')" "keyboard_text (t_kb t') = keyboard_text (t_kb t)" "keyq_ok (t_keyq t')"
  shows "keeps t t'"
proof -
  have d: "displays t' ls = displays t ls" for ls using assms(4-7) by (rule displays_cong)
  have "max_scroll t' = max_scroll t" using assms(7) by (simp add: max_scroll_def)
  then show ?thesis using assms(1-3,8-11) unfolding keeps_def term_ok_def d by (simp add: cmd_line_def)
qed

lemma term_ok_simps:
  "term_ok t \<Longrightarrow> kb_ok (t_kb t) \<and> keyq_ok (t_keyq t) \<and> g_scroll t \<le> max_scroll t"
  by (simp add: term_ok_def)

lemma draw_keeps: "term_ok t \<Longrightarrow> keeps t (term_paint cs t)"
  by (rule plain_keeps) (simp_all add: term_paint_def paint_keeps term_ok_simps)

lemma flag_keeps:
  assumes "term_ok t"
  shows "keeps t (t\<lparr>g_out_dirty := a\<rparr>)" "keeps t (t\<lparr>g_in_dirty := b\<rparr>)" "keeps t (t\<lparr>g_was_down := c\<rparr>)" "keeps t (t\<lparr>g_kb_drawn := d\<rparr>)"
  using assms by (intro plain_keeps; simp add: term_ok_simps)+

lemma drain_keeps: "term_ok t \<Longrightarrow> keeps t (drain_settled t)"
  using drain_settled_ok [of t] by (simp add: keeps_def cmd_line_def drain_settled_kb)

lemma scroll_keeps: "term_ok t \<Longrightarrow> s \<le> max_scroll t \<Longrightarrow> keeps t (t\<lparr>g_scroll := s\<rparr>)"
  by (rule plain_keeps) (simp_all add: term_ok_simps)

lemma keeps_then: "keeps t u \<Longrightarrow> (term_ok u \<Longrightarrow> keeps u v) \<Longrightarrow> keeps t v"
  by (simp add: keeps_def)

lemma draw_output_keeps: "term_ok t \<Longrightarrow> keeps t (draw_output t)"
  unfolding draw_output_def using term_ok_simps [of t] draw_keeps [of t] by (auto simp: Let_def not_less)

lemma term_frame_keeps:
  assumes "term_ok t" shows "keeps t (term_frame ticks t)"
proof -
  define t1 where "t1 = (if g_kb_drawn t then t
      else let u = term_paint (Fill_rect 0 0 PANEL_W SPEC_Y TRM_BG # term_header) t
           in u\<lparr>t_kb := keyboard_draw (t_kb u), g_kb_drawn := True, g_out_dirty := True, g_in_dirty := True\<rparr>)"
  define t2 where "t2 = (case keyboard_tick ticks (t_kb t1) of (e, k) \<Rightarrow>
      let u = t1\<lparr>t_kb := k\<rparr> in if e then (drain_settled u)\<lparr>g_in_dirty := True\<rparr> else u)"
  define t3 where "t3 = (if g_out_dirty t2 then (draw_output t2)\<lparr>g_out_dirty := False\<rparr> else t2)"
  have f: "term_frame ticks t = (if g_in_dirty t3 then (draw_input t3)\<lparr>g_in_dirty := False\<rparr> else t3)"
    by (simp add: term_frame_def t1_def t2_def t3_def Let_def)
  have k1: "keeps t t1"
  proof (cases "g_kb_drawn t")
    case False
    define u where "u = term_paint (Fill_rect 0 0 PANEL_W SPEC_Y TRM_BG # term_header) t"
    have u: "keeps t u" unfolding u_def by (rule draw_keeps [OF assms])
    obtain cs where cs: "keyboard_draw (t_kb u) = paint cs (t_kb u)" using keyboard_draw_panel by blast
    have "keeps u (u\<lparr>t_kb := paint cs (t_kb u), g_kb_drawn := True, g_out_dirty := True, g_in_dirty := True\<rparr>)"
      using u by (intro plain_keeps) (simp_all add: keeps_def paint_keeps term_ok_simps)
    then show ?thesis using u False cs keeps_trans by (simp add: t1_def u_def [symmetric] Let_def)
  qed (simp add: t1_def keeps_refl [OF assms])
  then have o1: "term_ok t1" by (simp add: keeps_def)
  have k2: "keeps t1 t2"
  proof -
    obtain e k where ek: "keyboard_tick ticks (t_kb t1) = (e, k)" by (rule prod.exhaust)
    define u where "u = t1\<lparr>t_kb := k\<rparr>"
    have "kb_ok k \<and> keyboard_text k = keyboard_text (t_kb t1)" using keyboard_tick_ok [of "t_kb t1" ticks] ek term_ok_simps [OF o1] by simp
    then have u: "keeps t1 u" using o1 by (intro plain_keeps) (simp_all add: u_def term_ok_simps)
    have "keeps t1 ((drain_settled u)\<lparr>g_in_dirty := True\<rparr>)"
      by (rule keeps_then [OF keeps_then [OF u drain_keeps] flag_keeps(2)])
    then show ?thesis using u by (simp add: t2_def ek Let_def u_def [symmetric])
  qed
  then have o2: "term_ok t2" by (simp add: keeps_def)
  have k3: "keeps t2 t3"
    unfolding t3_def using keeps_then [OF draw_output_keeps [OF o2] flag_keeps(1)] keeps_refl [OF o2] by simp
  then have o3: "term_ok t3" by (simp add: keeps_def)
  have "keeps t3 (term_frame ticks t)"
    unfolding f draw_input_def using keeps_then [OF draw_keeps [OF o3] flag_keeps(2)] keeps_refl [OF o3] by simp
  then show ?thesis using k1 k2 k3 keeps_trans by blast
qed

lemma touch_off_keys:
  assumes "term_ok t" "\<not> (down \<and> \<not> g_was_down t \<and> on_keys x y)"
  shows "keeps t (term_touch sh ticks x y down t)"
proof -
  define t1 where "t1 = t\<lparr>g_was_down := True\<rparr>"
  have k1: "keeps t t1" unfolding t1_def by (rule flag_keeps(3) [OF assms(1)])
  have s: "keeps t1 (scroll_touch y t1)" if o: "term_ok t1"
  proof -
    have "keeps t1 (t1\<lparr>g_scroll := s, g_out_dirty := True\<rparr>)" if "s \<le> max_scroll t1" for s
      using keeps_then [OF scroll_keeps [OF o that] flag_keeps(1)] by simp
    moreover have "g_scroll t1 - 4 \<le> max_scroll t1" if "g_scroll t1 > 4"
    proof -
      have "g_scroll t1 - 4 \<le> g_scroll t1" using that by (simp add: word_le_nat_alt word_less_nat_alt unat_sub_u32)
      then show ?thesis using term_ok_simps [OF o] by (auto intro: order_trans)
    qed
    moreover have "max_scroll (t1\<lparr>g_scroll := z\<rparr>) = max_scroll t1" for z by (simp add: max_scroll_def)
    ultimately show ?thesis by (auto simp: scroll_touch_def Let_def not_less)
  qed
  show ?thesis
    using assms(2) flag_keeps(3) [OF assms(1)] keeps_refl [OF assms(1)] k1 keeps_then [OF k1 s]
    by (auto simp: term_touch_def t1_def [symmetric] Let_def on_keys_words not_less not_le)
qed

lemma keyq_pop_ok: "keyq_ok q \<Longrightarrow> keyq_ok (snd (term_key_pop q))"
  using keyq_refines_list [of q] by (cases "term_key_pop q") simp

lemma queue_keeps: "term_ok t \<Longrightarrow> keyq_ok q \<Longrightarrow> keeps t (t\<lparr>t_keyq := q\<rparr>)"
  by (rule plain_keeps) (simp_all add: term_ok_simps)

lemma tty_puts_length: "length ls \<le> length (fold tty_put s ls)"
proof (induction s arbitrary: ls)
  case (Cons c s)
  have "length ls \<le> length (tty_put c ls)" by (auto simp: tty_put_def)
  also have "\<dots> \<le> length (fold tty_put s (tty_put c ls))" by (rule Cons.IH)
  finally show ?case by simp
qed simp

lemma term_open_spec:
  assumes "term_ok t"
  shows "term_ok (term_open t) \<and> cmd_line (term_open t) = cmd_line t \<and> keyboard_text (t_kb (term_open t)) = [] \<and> live_key (t_kb (term_open t)) = None"
proof -
  define t1 where "t1 = t\<lparr>g_kb_drawn := False, g_out_dirty := True, g_in_dirty := True, g_was_down := False,
      t_kb := keyboard_reset (Some (chars ''run'')) (t_kb t)\<rparr>"
  have d: "displays t1 = displays t" "max_scroll t1 = max_scroll t" by (intro ext, simp_all add: t1_def displays_def max_scroll_def)
  have t1: "term_ok t1" using assms unfolding term_ok_def d by (simp add: t1_def keyboard_reset_ok)
  have f: "keyboard_text (t_kb t1) = []" "live_key (t_kb t1) = None" "cmd_line t1 = cmd_line t"
    by (simp_all add: t1_def keyboard_reset_ok cmd_line_def)
  define P where "P = (\<lambda>u. term_ok u \<and> t_kb u = t_kb t1 \<and> cmd_line u = cmd_line t1 \<and> g_scroll u = g_scroll t1)"
  have step: "P (out_newline (out_puts s u))" if u: "P u" for s u
  proof -
    obtain ls where ls: "displays u ls" using u by (auto simp: P_def term_ok_def)
    have d: "displays (out_newline (out_puts s u)) (fold tty_put s ls @ [[]])"
      unfolding out_puts_def by (intro newline_displays captures_displays ls)
    have "unat (g_filled u) = min 48 (length ls)" "unat (g_filled (out_newline (out_puts s u))) = min 48 (length (fold tty_put s ls @ [[]]))"
      using ls d unfolding displays_def by blast+
    then have "unat (g_filled u) \<le> unat (g_filled (out_newline (out_puts s u)))" using tty_puts_length [of ls s] by simp
    then have "max_scroll u \<le> max_scroll (out_newline (out_puts s u))"
      by (auto simp: max_scroll_def word_le_nat_alt word_less_nat_alt unat_sub_u32)
    then show ?thesis using u d unfolding P_def term_ok_def by (auto simp: out_puts_def cmd_line_def intro: order_trans)
  qed
  have A: "P (fold (\<lambda>s u. out_newline (out_puts (chars s) u)) xs u)" if "P u" for xs u
    using that step by (induction xs arbitrary: u) simp_all
  have T: "P t1" using t1 by (simp add: P_def)
  have "P (term_open t)" unfolding term_open_def t1_def [symmetric] Let_def
    using T A [OF T] by (cases "g_commands t1 = 0") (simp_all only: if_True if_False simp_thms)
  then show ?thesis using f by (simp add: P_def)
qed

lemma term_step_ok: "term_ok t \<Longrightarrow> term_ok (term_step sh e t)"
proof (cases e)
  case (Press ticks x y)
  assume o: "term_ok t"
  show ?thesis
  proof (cases "\<not> g_was_down t \<and> on_keys x y")
    case True
    obtain ls where "displays t ls" using o by (auto simp: term_ok_def)
    from touch_key [OF o this, of x y _ _ sh ticks] True show ?thesis by (metis Press prod.exhaust term_step.simps(3))
  next
    case False
    then show ?thesis using touch_off_keys [OF o, of True x y sh ticks] by (simp add: Press keeps_def)
  qed
next
  case Release
  assume o: "term_ok t"
  show ?thesis using touch_off_keys [OF o, of False 0 0 sh 0] by (simp add: Release keeps_def)
next
  case (Inject c)
  assume o: "term_ok t"
  show ?thesis using queue_keeps [OF o keyq_push_ok] term_ok_simps [OF o] by (simp add: Inject term_key_inject_def keeps_def)
next
  case Pop
  assume o: "term_ok t"
  show ?thesis using queue_keeps [OF o keyq_pop_ok] term_ok_simps [OF o] by (simp add: Pop keeps_def)
qed (use term_open_spec term_frame_keeps in \<open>auto simp: keeps_def\<close>)

subsection \<open>Theorems\<close>

text \<open>The terminal at boot.\<close>

definition term_boot :: "terminal" where
  "term_boot = \<lparr>g_input = replicate 40 0, g_inlen = 0, g_out = replicate 48 (replicate 40 0), g_row = 0, g_col = 0, g_filled = 1,
     g_scroll = 0, g_commands = 0, g_kb_drawn = False, g_out_dirty = True, g_in_dirty = True, g_was_down = False,
     t_kb = keyboard_boot, t_keyq = \<lparr>g_keyq = replicate 16 0, g_keyq_head = 0, g_keyq_count = 0, g_keyq_dropped = 0, g_keyq_total = 0\<rparr>\<rparr>"

lemma term_boot_displays: "displays term_boot [[]]"
  by (simp add: displays_def term_boot_def pad_def)

lemma term_boot_ok: "term_ok term_boot"
proof -
  have "cbuf 40 (replicate 40 0) 0" by (simp add: cbuf_def)
  moreover have "keyq_ok (t_keyq term_boot)" by (simp add: term_boot_def keyq_ok_def)
  ultimately show ?thesis using term_boot_displays keyboard_boot_ok(1) unfolding term_ok_def by (auto simp: term_boot_def max_scroll_def)
qed

lemma term_steps_ok: "term_ok t \<Longrightarrow> term_ok (fold (term_step sh) es t)"
  by (induction es arbitrary: t) (simp_all add: term_step_ok)

interpretation term_sys: invariant_system "\<lambda>t. t = term_boot" "\<lambda>t t'. \<exists>sh e. t' = term_step sh e t" term_ok
  by unfold_locales (auto intro: term_boot_ok term_step_ok)

text \<open>
  The terminal keeps its shape (C35): through any sequence of openings, frames, presses, releases, injected keys and reads of the key
  queue, with any shell, every buffer keeps its size, both text fields stay terminated strings, every row of the ring is a
  padded line of the text printed, and the scroll position stays within the history.
\<close>

theorem term_shape:
  "term_ok (fold (term_step sh) es term_boot)"
  by (rule term_steps_ok [OF term_boot_ok])

text \<open>
  A press is one edit: when the finger was up, a press on the keypad changes the command line by the event the editor of the
  keyboard prescribes; the submit key, on a line that is not empty, runs exactly that line once, shows the line and what
  the shell printed, wrapped at 39 columns, and empties the line; and while the finger stays down nothing more happens.
\<close>

theorem term_press_edits:
  fixes sh :: shell and ticks :: u32
  assumes "term_ok t" "displays t ls" "\<not> g_was_down t" "on_keys x y" "tap x y (keyboard_text (t_kb t), live_key (t_kb t)) = (ev, e')"
  defines "t' \<equiv> term_touch sh ticks x y True t"
  shows "cmd_line t' = edit_line ev (cmd_line t) \<and> (keyboard_text (t_kb t'), live_key (t_kb t')) = e'
    \<and> displays t' (if action ev = KB_ACT_SUBMIT then run_lines sh (cmd_line t) ls else ls)
    \<and> term_commands t' = term_commands t + (if action ev = KB_ACT_SUBMIT \<and> cmd_line t \<noteq> [] then 1 else 0)
    \<and> term_touch sh ticks' x' y' True t' = t'"
proof -
  note K = touch_key [OF assms(1-5), of sh ticks, folded t'_def]
  have "term_touch sh ticks' x' y' True t' = t'" using K by (simp add: term_touch_def)
  then show ?thesis using K by (simp add: term_commands_def)
qed

text \<open>The lines a pane of nine rows shows when it is scrolled back by \<open>s\<close>.\<close>

definition pane :: "cstring list \<Rightarrow> nat \<Rightarrow> panel_call list" where
  "pane ls s = concat (List.map (\<lambda>i. let back = 8 - i + s in
      if back \<ge> min 48 (length ls) \<or> c_text (ls ! (length ls - 1 - back)) = [] then []
      else [Draw_text 2 (OUT_Y + of_nat i * LINE_H) (c_text (ls ! (length ls - 1 - back))) TRM_FG TRM_BG 1]) [0..<9])"

lemma c_text_pad: "c_text (pad l) = c_text l"
proof -
  have z: "takeWhile (\<lambda>c. c \<noteq> (0 :: u8)) (replicate n 0) = []" for n by (cases n) simp_all
  show ?thesis
    by (cases "\<forall>x \<in> set l. x \<noteq> 0") (auto simp: c_text_def pad_def takeWhile_append z takeWhile_eq_all_conv [THEN iffD2])
qed

lemma ring_src:
  assumes "unat (r :: u32) < 48" "unat b < 48"
  shows "unat ((r + HIST_ROWS - b) mod HIST_ROWS) = (unat r + 48 - unat b) mod 48"
proof -
  have "unat (r + HIST_ROWS) = unat r + 48" using assms(1) by (simp add: unat_add_u32)
  then have "unat (r + HIST_ROWS - b) = unat r + 48 - unat b" using assms(2) by (simp add: unat_sub_u32)
  then show ?thesis by (simp add: unat_mod)
qed

lemma pad_start: "length l \<le> 39 \<Longrightarrow> pad l ! 0 \<noteq> 0 \<longleftrightarrow> c_text l \<noteq> []"
  by (cases l) (auto simp: pad_def c_text_def)

lemma draw_line_row:
  assumes "displays t ls" "i < 9" "unat (g_scroll t) \<le> 39"
  defines "back \<equiv> 8 - i + unat (g_scroll t)"
  shows "draw_line (of_nat i) t = (if back \<ge> min 48 (length ls) \<or> c_text (ls ! (length ls - 1 - back)) = [] then []
      else [Draw_text 2 (OUT_Y + of_nat i * LINE_H) (c_text (ls ! (length ls - 1 - back))) TRM_FG TRM_BG 1])"
proof -
  have i: "unat (of_nat i :: u32) = i" using assms(2) by (simp add: unat_of_nat_u32)
  then have b0: "unat (TERM_ROWS - 1 - of_nat i) = 8 - i" using assms(2) by (simp add: unat_sub_u32)
  have b: "unat (TERM_ROWS - 1 - of_nat i + g_scroll t) = back" using b0 assms(3) by (simp add: back_def unat_add_u32)
  have n: "unat (g_filled t) = min 48 (length ls)" and r: "unat (g_row t) < 48" using assms(1) by (simp_all add: displays_def)
  have ge: "g_filled t \<le> TERM_ROWS - 1 - of_nat i + g_scroll t \<longleftrightarrow> back \<ge> min 48 (length ls)" by (simp only: word_le_nat_alt b n)
  show ?thesis
  proof (cases "back \<ge> min 48 (length ls)")
    case True
    then show ?thesis using ge by (simp add: draw_line_def Let_def)
  next
    case False
    have "back < 48" using False by simp
    then have "unat ((g_row t + HIST_ROWS - (TERM_ROWS - 1 - of_nat i + g_scroll t)) mod HIST_ROWS) = (unat (g_row t) + 48 - back) mod 48"
      using ring_src [OF r, of "TERM_ROWS - 1 - of_nat i + g_scroll t"] by (simp only: b)
    moreover have "g_out t ! ((unat (g_row t) + 48 - back) mod 48) = pad (ls ! (length ls - 1 - back))"
      using assms(1) False unfolding displays_def not_le by blast
    moreover have "length (ls ! (length ls - 1 - back)) \<le> 39" using assms(1) False by (auto simp: displays_def)
    ultimately show ?thesis
      using False ge by (auto simp: draw_line_def Let_def c_text_pad pad_start)
  qed
qed

text \<open>
  The pane is the history: a redraw paints the nine lines of the printed history that end as many lines back as the scroll
  position says, each where its row is, whether the ring has wrapped or not, and the scroll bar beside them.
\<close>

theorem term_pane_history:
  assumes "term_ok t" "displays t ls"
  shows "draw_output t = term_paint (Fill_rect 0 OUT_Y PANEL_W OUT_H TRM_BG # pane ls (unat (g_scroll t)) @ scrollbar t) t"
proof -
  have m: "g_scroll t \<le> max_scroll t" using assms(1) by (simp add: term_ok_def)
  have "unat (g_filled t) \<le> 48" using assms(2) by (simp add: displays_def)
  then have "unat (max_scroll t) \<le> 39" by (auto simp: max_scroll_def word_less_nat_alt unat_sub_u32)
  then have s: "unat (g_scroll t) \<le> 39" using m by (simp add: word_le_nat_alt)
  have "draw_line (of_nat i) t = (let back = 8 - i + unat (g_scroll t) in
      if back \<ge> min 48 (length ls) \<or> c_text (ls ! (length ls - 1 - back)) = [] then []
      else [Draw_text 2 (OUT_Y + of_nat i * LINE_H) (c_text (ls ! (length ls - 1 - back))) TRM_FG TRM_BG 1])" if "i \<in> set [0..<9]" for i
    using draw_line_row [OF assms(2) _ s, of i] that unfolding Let_def by (simp only: set_upt atLeastLessThan_iff)
  then have "List.map (\<lambda>i. draw_line (of_nat i) t) [0..<9] = List.map (\<lambda>i. let back = 8 - i + unat (g_scroll t) in
      if back \<ge> min 48 (length ls) \<or> c_text (ls ! (length ls - 1 - back)) = [] then []
      else [Draw_text 2 (OUT_Y + of_nat i * LINE_H) (c_text (ls ! (length ls - 1 - back))) TRM_FG TRM_BG 1]) [0..<9]"
    by (intro map_cong refl) blast
  then show ?thesis using m unfolding draw_output_def pane_def Let_def by (simp only: not_less [symmetric] if_False)
qed

subsection \<open>Where the line stops\<close>

text \<open>Presses on the delete key, and the characters a series of events adds to the command line.\<close>

fun deletes :: "term_event \<Rightarrow> bool" where
  "deletes (Press ticks x y) = (case key_at x y of Some (r, c) \<Rightarrow> KEYS ! r ! c = chars ''<'' | None \<Rightarrow> False)"
| "deletes _ = False"

fun accepted :: "shell \<Rightarrow> term_event list \<Rightarrow> terminal \<Rightarrow> nat" where
  "accepted sh [] t = 0"
| "accepted sh (e # es) t =
     (if length (cmd_line (term_step sh e t)) > length (cmd_line t) then 1 else 0) + accepted sh es (term_step sh e t)"

lemma edit_line_length:
  "length (edit_line ev l) > length l \<Longrightarrow> action ev = KB_ACT_APPEND"
  by (auto simp: edit_line_def split: kb_action.splits if_splits)

lemma step_budget:
  assumes "term_ok t" "e \<noteq> Open" "\<not> deletes e"
  shows "(if length (cmd_line (term_step sh e t)) > length (cmd_line t) then 1 else 0) + length (keyboard_text (t_kb t))
    \<le> length (keyboard_text (t_kb (term_step sh e t)))"
proof -
  have kept: ?thesis if "keeps t (term_step sh e t)" using that by (simp add: keeps_def)
  show ?thesis
  proof (cases e)
    case (Press ticks x y)
    show ?thesis
    proof (cases "\<not> g_was_down t \<and> on_keys x y")
      case True
      obtain ls where ls: "displays t ls" using assms(1) by (auto simp: term_ok_def)
      obtain r c where rc: "key_at x y = Some (r, c)" using True by (auto simp: on_keys_def)
      obtain ev s' live' where p: "key_press (r, c) (keyboard_text (t_kb t), live_key (t_kb t)) = (ev, (s', live'))" by (metis prod.exhaust)
      then have tp: "tap x y (keyboard_text (t_kb t), live_key (t_kb t)) = (ev, (s', live'))" by (simp add: tap_def rc)
      have nd: "action ev \<noteq> KB_ACT_BACKSPACE"
        using p assms(3) Press rc by (auto simp: key_press_def new_key_def Let_def split: if_splits option.splits)
      have "keyboard_text (t_kb (term_step sh e t)) = s'" "cmd_line (term_step sh e t) = edit_line ev (cmd_line t)"
        using touch_key [OF assms(1) ls _ _ tp, of sh ticks] True by (simp_all add: Press)
      then show ?thesis using press_length(1) [OF p] nd edit_line_length [of "cmd_line t" ev] by (auto split: kb_action.splits)
    next
      case False
      then show ?thesis using kept touch_off_keys [OF assms(1), of True x y sh ticks] Press by simp
    qed
  next
    case Release
    then show ?thesis using kept touch_off_keys [OF assms(1), of False 0 0 sh 0] by simp
  next
    case (Inject c)
    then show ?thesis using kept queue_keeps [OF assms(1) keyq_push_ok] term_ok_simps [OF assms(1)] by (simp add: term_key_inject_def)
  next
    case Pop
    then show ?thesis using kept queue_keeps [OF assms(1) keyq_pop_ok] term_ok_simps [OF assms(1)] by simp
  qed (use assms kept term_frame_keeps [OF assms(1)] in simp_all)
qed

lemma accepted_budget:
  "term_ok t \<Longrightarrow> \<forall>e \<in> set es. e \<noteq> Open \<and> \<not> deletes e \<Longrightarrow> accepted sh es t + length (keyboard_text (t_kb t)) \<le> 63"
proof (induction es arbitrary: t)
  case Nil
  then have "cbuf 64 (kb_text (t_kb t)) (kb_len (t_kb t))" using term_ok_simps by (auto simp: kb_ok_def)
  then show ?case using length_cstr [of 64 "kb_text (t_kb t)" "kb_len (t_kb t)"] by (simp add: keyboard_text_def cbuf_text) (simp add: cbuf_def)
next
  case (Cons e es)
  have "accepted sh es (term_step sh e t) + length (keyboard_text (t_kb (term_step sh e t))) \<le> 63"
    using Cons.IH [OF term_step_ok [OF Cons.prems(1)]] Cons.prems(2) by simp
  then show ?case using step_budget [OF Cons.prems(1), of e sh] Cons.prems(2) by (simp split: if_splits)
qed

text \<open>
  The terminal goes deaf: from the moment it is opened the command line takes at most 63 characters over all commands
  together, as long as nothing is deleted: the keyboard counts every character in its own field of 64 bytes, which
  submitting a command does not empty.
\<close>

theorem term_input_budget:
  assumes "term_ok t" "\<forall>e \<in> set es. e \<noteq> Open \<and> \<not> deletes e"
  shows "accepted sh es (term_open t) \<le> 63"
  using accepted_budget [of "term_open t" es sh] term_open_spec [OF assms(1)] assms(2) by simp

text \<open>
  A full line is overwritten: when the line is full, the first press of a letter key is refused, as it should be, but the
  keyboard has the key live, and the second press replaces the last character of the line.
\<close>

theorem term_full_overwrites:
  assumes "term_ok t" "length (cmd_line t) = 39" "\<not> g_was_down t" "length (keyboard_text (t_kb t)) < 63"
    and "key_at x y = Some (r, c)" "letters r c" "\<And>i. live_key (t_kb t) \<noteq> Some (r, c, i)"
  shows "cmd_line (term_step sh (Press t1 x y) t) = cmd_line t
    \<and> cmd_line (fold (term_step sh) [Press t1 x y, Release, Press t2 x y] t) = butlast (cmd_line t) @ [KEYS ! r ! c ! (1 mod length (KEYS ! r ! c))]"
proof -
  obtain ls where ls: "displays t ls" using assms(1) by (auto simp: term_ok_def)
  have ok: "on_keys x y" using assms(5) by (simp add: on_keys_def)
  define K where "K = KEYS ! r ! c"
  have p: "key_press (r, c) (keyboard_text (t_kb t), live_key (t_kb t)) = new_key (r, c) (keyboard_text (t_kb t), live_key (t_kb t))"
    using assms(6,7) by (auto simp: key_press_def letters_def split: option.splits)
  have tp: "tap x y (keyboard_text (t_kb t), live_key (t_kb t)) =
      (\<lparr>action = KB_ACT_APPEND, ch = K ! 0\<rparr>, (keyboard_text (t_kb t) @ [K ! 0], Some (r, c, 0)))"
    using p assms(4) by (simp add: tap_def assms(5) new_key_def K_def)
  define u where "u = term_step sh (Press t1 x y) t"
  have u: "term_ok u" "cmd_line u = cmd_line t" "displays u ls" "live_key (t_kb u) = Some (r, c, 0)" "keyboard_text (t_kb u) = keyboard_text (t_kb t) @ [K ! 0]"
    using touch_key [OF assms(1) ls assms(3) ok tp, of sh t1] assms(2) by (simp_all add: u_def edit_line_def)
  define v where "v = term_step sh Release u"
  have v: "term_ok v" "cmd_line v = cmd_line t" "displays v ls" "t_kb v = t_kb u" "\<not> g_was_down v"
    using touch_off_keys [OF u(1), of False 0 0 sh 0] u(2,3) by (simp_all add: v_def keeps_def term_touch_def)
  have "\<exists>s'. tap x y (keyboard_text (t_kb v), live_key (t_kb v)) =
      (\<lparr>action = KB_ACT_REPLACE, ch = K ! (1 mod length K)\<rparr>, (s', Some (r, c, 1 mod length K)))"
    using assms(6) by (simp add: tap_def assms(5) v(4) u(4,5) key_press_def letters_def Let_def K_def)
  then obtain s' where tp2: "tap x y (keyboard_text (t_kb v), live_key (t_kb v)) =
      (\<lparr>action = KB_ACT_REPLACE, ch = K ! (1 mod length K)\<rparr>, (s', Some (r, c, 1 mod length K)))" by blast
  have "cmd_line t \<noteq> []" using assms(2) by auto
  then have "cmd_line (term_step sh (Press t2 x y) v) = butlast (cmd_line t) @ [K ! (1 mod length K)]"
    using touch_key [OF v(1,3,5) ok tp2, of sh t2] v(2) by (simp add: edit_line_def)
  then show ?thesis using u(2) by (simp add: u_def v_def K_def)
qed

subsection \<open>Witnesses\<close>

text \<open>A shell that answers every command with its own text.\<close>

definition echo_shell :: shell where
  "echo_shell l = (l, [])"

lemma tap_abc: "on_keys 100 130" "tap 100 130 ([], None) = (\<lparr>action = KB_ACT_APPEND, ch = 97\<rparr>, ([97], Some (0, 1, 0)))"
  using key_abc by (simp_all add: on_keys_def tap_def key_press_def new_key_def letters_def)

lemma term_boot_fields:
  "\<not> g_was_down term_boot" "keyboard_text (t_kb term_boot) = []" "live_key (t_kb term_boot) = None" "cmd_line term_boot = []"
  using keyboard_boot_ok by (simp_all add: term_boot_def cmd_line_def cstr_def)

theorem term_press_edits_witness:
  "cmd_line (term_touch echo_shell 7 100 130 True term_boot) = [97]"
proof -
  have "tap 100 130 (keyboard_text (t_kb term_boot), live_key (t_kb term_boot)) = (\<lparr>action = KB_ACT_APPEND, ch = 97\<rparr>, ([97], Some (0, 1, 0)))"
    using tap_abc(2) by (simp add: term_boot_fields)
  from term_press_edits [OF term_boot_ok term_boot_displays term_boot_fields(1) tap_abc(1) this, of echo_shell 7] show ?thesis
    by (simp add: edit_line_def term_boot_fields)
qed

theorem term_pane_history_witness:
  "draw_output (capture 104 term_boot) =
    term_paint (Fill_rect 0 OUT_Y PANEL_W OUT_H TRM_BG # pane [[104]] (unat (g_scroll (capture 104 term_boot))) @ scrollbar (capture 104 term_boot)) (capture 104 term_boot)"
proof -
  have d: "displays (capture 104 term_boot) [[104]]" using capture_displays [OF term_boot_displays, of 104] by (simp add: tty_put_def)
  have "term_ok (capture 104 term_boot)"
    using term_boot_ok d unfolding term_ok_def capture_simps by (auto simp: term_boot_def capture_def put_cell_def)
  from term_pane_history [OF this d] show ?thesis .
qed

theorem term_input_budget_witness:
  "accepted echo_shell [Press 1 100 130, Release, Press 5 20 130, Release, Press 9 220 270] (term_open term_boot) \<le> 63"
  by (rule term_input_budget [OF term_boot_ok]) (simp add: key_at_def KEYS_def chars_def)

definition term_full :: "terminal" where
  "term_full = term_boot\<lparr>g_input := replicate 39 65 @ [0], g_inlen := 39\<rparr>"

theorem term_full_overwrites_witness:
  "cmd_line (fold (term_step echo_shell) [Press 1 100 130, Release, Press 2 100 130] term_full) = replicate 38 65 @ [98]"
proof -
  have l: "cmd_line term_full = replicate 39 65" by (simp add: term_full_def cmd_line_def cstr_def)
  have k: "t_kb term_full = t_kb term_boot" "g_was_down term_full = g_was_down term_boot" by (simp_all add: term_full_def)
  have d: "displays term_full = displays term_boot" "max_scroll term_full = max_scroll term_boot"
    by (intro ext, simp_all add: term_full_def displays_def max_scroll_def)
  have "cbuf 40 (g_input term_full) (g_inlen term_full)"
    unfolding cbuf_def by (auto simp: term_full_def nth_append)
  moreover have b: "butlast (replicate 39 (65 :: u8)) = replicate 38 65" by (simp add: eval_nat_numeral)
  ultimately have "term_ok term_full" using term_boot_ok unfolding term_ok_def d by (simp add: term_full_def)
  from term_full_overwrites [OF this _ _ _ key_abc(1,2), of echo_shell 1 2] show ?thesis
    unfolding l k using term_boot_fields b by (simp add: key_abc del: fold_simps)
qed

end
