(* ===== verification/KNotes.thy ===== *)
theory KNotes
  imports KKeyboard KCred
begin

text \<open>
  The note pad, \<^verbatim>\<open>kernel/notes.c\<close>, and the messages it saves, \<^verbatim>\<open>kernel/messages.c\<close>: a document of 255 characters edited by the events
  of the keyboard, and a record of eight messages of 160 characters in one sector of the flash. Whether the flash obeys is
  a parameter, as in \<^verbatim>\<open>KCred\<close>.
\<close>

subsection \<open>Messages (messages.c)\<close>

abbreviation (input) MSG_MAX :: u32 where "MSG_MAX \<equiv> 8"
abbreviation (input) MSG_LEN :: nat where "MSG_LEN \<equiv> 160"
abbreviation (input) MSG_MAGIC :: u32 where "MSG_MAGIC \<equiv> 0x4753454D"
abbreviation (input) MSG_VERSION :: u32 where "MSG_VERSION \<equiv> 1"

record msg_store_t =
  m_magic :: u32
  m_version :: u32
  m_count :: u32
  m_text :: "u8 list list"
  m_checksum :: u32

text \<open>The record in memory and what its sector holds.\<close>

record messages =
  g_store :: msg_store_t
  m_sector :: msg_store_t

definition msg_checksum :: "msg_store_t \<Rightarrow> u32" where
  "msg_checksum st =
     fold (\<lambda>m sum. fold (\<lambda>i sum. sum + ucast (m_text st ! m ! i) * (of_nat i + 1)) [0..<161] sum) [0..<8]
       (m_magic st + m_version st + m_count st + 0x5BD1E995)"

definition msg_reset :: "msg_store_t \<Rightarrow> msg_store_t" where
  "msg_reset st = st\<lparr>m_magic := MSG_MAGIC, m_version := MSG_VERSION, m_count := 0, m_text := replicate 8 (replicate 161 0)\<rparr>"

definition msg_valid :: "msg_store_t \<Rightarrow> bool" where
  "msg_valid st \<longleftrightarrow> m_magic st = MSG_MAGIC \<and> m_version st = MSG_VERSION \<and> m_count st \<le> MSG_MAX \<and> m_checksum st = msg_checksum st"

definition msg_load :: "msg_store_t outcome \<Rightarrow> messages \<Rightarrow> int \<times> messages" where
  "msg_load fl ms =
     (if \<not> read_ok fl then (-1, ms\<lparr>g_store := msg_reset (g_store ms)\<rparr>)
      else if \<not> msg_valid (m_sector ms) then (-1, ms\<lparr>g_store := msg_reset (g_store ms)\<rparr>)
      else (0, ms\<lparr>g_store := m_sector ms\<rparr>))"

definition msg_commit :: "msg_store_t outcome \<Rightarrow> messages \<Rightarrow> int \<times> messages" where
  "msg_commit fl ms =
     (let st = g_store ms; ms1 = ms\<lparr>g_store := st\<lparr>m_checksum := msg_checksum st\<rparr>\<rparr> in
      if \<not> erase_ok fl then (-1, ms1\<lparr>m_sector := torn fl\<rparr>)
      else if \<not> write_ok fl then (-1, ms1\<lparr>m_sector := torn fl\<rparr>)
      else (0, ms1\<lparr>m_sector := g_store ms1\<rparr>))"

definition slide :: "msg_store_t \<Rightarrow> msg_store_t" where
  "slide st = st\<lparr>m_text := tl (m_text st) @ [last (m_text st)], m_count := MSG_MAX - 1\<rparr>"

definition msg_save :: "msg_store_t outcome \<Rightarrow> cstring option \<Rightarrow> messages \<Rightarrow> int \<times> messages" where
  "msg_save fl text ms =
     (case text of None \<Rightarrow> (-1, ms)
      | Some s \<Rightarrow>
          if char_at s 0 = 0 then (-1, ms)
          else let st = g_store ms;
                   st1 = (if m_count st \<ge> MSG_MAX then slide st else st);
                   slot = unat (m_count st1);
                   st2 = st1\<lparr>m_text := (m_text st1)[slot := put_text (m_text st1 ! slot) s MSG_LEN], m_count := m_count st1 + 1\<rparr>
               in case msg_commit fl (ms\<lparr>g_store := st2\<rparr>) of (rc, ms3) \<Rightarrow>
                 if rc \<noteq> 0 then (-1, ms3\<lparr>g_store := (g_store ms3)\<lparr>m_count := m_count (g_store ms3) - 1\<rparr>\<rparr>)
                 else (0, ms3))"

definition msg_clear :: "msg_store_t outcome \<Rightarrow> messages \<Rightarrow> int \<times> messages" where
  "msg_clear fl ms = msg_commit fl (ms\<lparr>g_store := msg_reset (g_store ms)\<rparr>)"

definition msg_count :: "messages \<Rightarrow> u32" where
  "msg_count ms = m_count (g_store ms)"

definition msg_get :: "u32 \<Rightarrow> messages \<Rightarrow> cstring option" where
  "msg_get i ms = (if i < m_count (g_store ms) then Some (c_text (m_text (g_store ms) ! unat i)) else None)"

subsection \<open>The note pad (notes.c)\<close>

abbreviation (input) NOTES_MAX :: u32 where "NOTES_MAX \<equiv> 256"
abbreviation (input) HDR_H :: u32 where "HDR_H \<equiv> 22"
abbreviation (input) TEXT_X :: u32 where "TEXT_X \<equiv> 3"
abbreviation (input) TEXT_Y :: u32 where "TEXT_Y \<equiv> 25"
abbreviation (input) LINE_H :: u32 where "LINE_H \<equiv> 9"
abbreviation (input) COLS :: nat where "COLS \<equiv> 38"
abbreviation (input) LCD_BG :: u16 where "LCD_BG \<equiv> 0xAE54"
abbreviation (input) LCD_FG :: u16 where "LCD_FG \<equiv> 0x1922"

datatype note_view = VIEW_COMPOSE | VIEW_INBOX

record note_pad =
  g_text :: "u8 list"
  g_len :: u32
  g_keys :: u32
  g_kb_drawn :: bool
  g_text_dirty :: bool
  g_view :: note_view
  g_read_index :: u32
  g_flash_msg :: "string option"
  g_flash_tick :: u32
  g_was_down :: bool
  n_kb :: keyboard
  n_msgs :: messages

definition notes_paint :: "panel_call list \<Rightarrow> note_pad \<Rightarrow> note_pad" where
  "notes_paint cs n = n\<lparr>n_kb := paint cs (n_kb n)\<rparr>"

definition notes_length :: "note_pad \<Rightarrow> u32" where
  "notes_length n = g_len n"

definition notes_keys :: "note_pad \<Rightarrow> u32" where
  "notes_keys n = g_keys n"

definition notes_open :: "note_pad \<Rightarrow> note_pad" where
  "notes_open n =
     n\<lparr>g_kb_drawn := False, g_text_dirty := True, g_was_down := False, g_view := VIEW_COMPOSE, g_flash_msg := None,
       n_kb := keyboard_reset (Some (chars ''save'')) (n_kb n)\<rparr>"

definition flash_note :: "u32 \<Rightarrow> string \<Rightarrow> note_pad \<Rightarrow> note_pad" where
  "flash_note ticks m n = n\<lparr>g_flash_msg := Some m, g_flash_tick := ticks, g_text_dirty := True\<rparr>"

definition digit :: "u32 \<Rightarrow> u8" where
  "digit v = ucast (48 + v mod 10)"

definition notes_header :: "note_pad \<Rightarrow> panel_call list" where
  "notes_header n =
     (let c = msg_count (n_msgs n);
          word = (case g_flash_msg n of Some m \<Rightarrow> m | None \<Rightarrow> if g_view n = VIEW_COMPOSE then ''WRITE'' else ''INBOX'')
      in [Fill_rect 0 0 PANEL_W HDR_H LCD_FG, Draw_text 3 7 (chars word) LCD_BG LCD_FG 1,
          Draw_text (PANEL_W - 52) 7 [digit (c div 10), digit c] LCD_BG LCD_FG 1, Draw_text (PANEL_W - 64) 7 (chars ''@'') LCD_BG LCD_FG 1]
         @ concat (List.map (\<lambda>i. [Fill_rect (PANEL_W - 17 + i) (6 + i) 2 2 LCD_BG, Fill_rect (PANEL_W - 17 + (9 - i)) (6 + i) 2 2 LCD_BG])
             (List.map of_nat [0..<10])))"

definition line_fits :: "u32 \<Rightarrow> bool" where
  "line_fits line \<longleftrightarrow> TEXT_Y + (line + 1) * LINE_H < KB_TOP"

definition flush_line :: "cstring \<Rightarrow> u32 \<Rightarrow> panel_call list" where
  "flush_line buf line = (if line_fits line then [Draw_text TEXT_X (TEXT_Y + line * LINE_H) buf LCD_FG LCD_BG 1] else [])"

text \<open>The wrapping loop: the rest of the text, the characters of the current line and its number.\<close>

fun note_lines :: "bool \<Rightarrow> cstring \<Rightarrow> cstring \<Rightarrow> u32 \<Rightarrow> panel_call list" where
  "note_lines compose [] buf line =
     flush_line buf line @
     (if compose \<and> line_fits line then [Fill_rect (TEXT_X + of_nat (length buf) * 6) (TEXT_Y + line * LINE_H + 8) 5 1 LCD_FG] else [])"
| "note_lines compose (c # cs) buf line =
     (if length buf < COLS then note_lines compose cs (buf @ [c]) line
      else flush_line buf line @ note_lines compose cs [c] (line + 1))"

definition draw_text :: "note_pad \<Rightarrow> panel_call list" where
  "draw_text n =
     Fill_rect 0 HDR_H PANEL_W (KB_TOP - HDR_H) LCD_BG # notes_header n @
     (case g_view n of
        VIEW_COMPOSE \<Rightarrow> note_lines True (take (unat (g_len n)) (g_text n)) [] 0
      | VIEW_INBOX \<Rightarrow>
          (case msg_get (g_read_index n) (n_msgs n) of
             None \<Rightarrow> [Draw_text TEXT_X TEXT_Y (chars ''no messages yet'') LCD_FG LCD_BG 1]
           | Some src \<Rightarrow> note_lines False src [] 0
               @ [Draw_text (PANEL_W - 26) (KB_TOP - 10) [digit (g_read_index n + 1), 47, digit (msg_count (n_msgs n))] LCD_FG LCD_BG 1]))"

definition notes_frame :: "u32 \<Rightarrow> note_pad \<Rightarrow> note_pad" where
  "notes_frame ticks n =
     (let n1 = (if g_kb_drawn n then n
                else let u = notes_paint [Lock] n; v = u\<lparr>n_kb := keyboard_draw (n_kb u)\<rparr> in (notes_paint [Unlock] v)\<lparr>g_kb_drawn := True\<rparr>);
          n2 = (if g_flash_msg n1 \<noteq> None \<and> ticks - g_flash_tick n1 > 200 then n1\<lparr>g_flash_msg := None, g_text_dirty := True\<rparr> else n1);
          n3 = (case keyboard_tick ticks (n_kb n2) of (e, k) \<Rightarrow>
                 let u = n2\<lparr>n_kb := k\<rparr> in if e then u\<lparr>g_text_dirty := True\<rparr> else u)
      in if g_text_dirty n3 then (notes_paint (Lock # draw_text n3 @ [Unlock]) n3)\<lparr>g_text_dirty := False\<rparr> else n3)"

definition page_touch :: "u32 \<Rightarrow> note_pad \<Rightarrow> note_pad" where
  "page_touch x n =
     (let c = msg_count (n_msgs n) in
      if c = 0 then n
      else n\<lparr>g_read_index := (if x < PANEL_W div 2 then (if g_read_index n = 0 then c - 1 else g_read_index n - 1)
                              else (g_read_index n + 1) mod c), g_text_dirty := True\<rparr>)"

definition notes_apply :: "msg_store_t outcome \<Rightarrow> u32 \<Rightarrow> kb_event_t \<Rightarrow> note_pad \<Rightarrow> note_pad" where
  "notes_apply fl ticks ev n =
     (case action ev of
        KB_ACT_APPEND \<Rightarrow>
          if g_len n + 1 \<ge> NOTES_MAX then n
          else let n1 = n\<lparr>g_text := (g_text n)[unat (g_len n) := ch ev], g_len := g_len n + 1\<rparr>
               in n1\<lparr>g_text := (g_text n1)[unat (g_len n1) := 0], g_text_dirty := True\<rparr>
      | KB_ACT_REPLACE \<Rightarrow>
          if g_len n \<noteq> 0 then n\<lparr>g_text := (g_text n)[unat (g_len n - 1) := ch ev], g_text_dirty := True\<rparr> else n
      | KB_ACT_BACKSPACE \<Rightarrow>
          if g_len n \<noteq> 0 then n\<lparr>g_len := g_len n - 1, g_text := (g_text n)[unat (g_len n - 1) := 0], g_text_dirty := True\<rparr> else n
      | KB_ACT_SUBMIT \<Rightarrow>
          if g_len n = 0 then flash_note ticks ''empty'' n
          else (case msg_save fl (Some (c_text (g_text n))) (n_msgs n) of (rc, ms) \<Rightarrow>
            let n1 = n\<lparr>n_msgs := ms\<rparr> in
            (if rc = 0 then flash_note ticks ''saved'' (n1\<lparr>g_len := 0, g_text := (g_text n1)[0 := 0]\<rparr>)
             else flash_note ticks ''save failed'' n1)\<lparr>g_text_dirty := True\<rparr>)
      | _ \<Rightarrow> n)"

definition notes_touch :: "msg_store_t outcome \<Rightarrow> u32 \<Rightarrow> u32 \<Rightarrow> u32 \<Rightarrow> bool \<Rightarrow> note_pad \<Rightarrow> note_pad" where
  "notes_touch fl ticks x y down n =
     (if \<not> down then n\<lparr>g_was_down := False\<rparr>
      else if g_was_down n then n
      else let n1 = n\<lparr>g_was_down := True\<rparr> in
        if y < HDR_H then
          let n2 = n1\<lparr>n_kb := keyboard_reset (Some (chars ''save'')) (n_kb n1),
                      g_view := (if g_view n1 = VIEW_COMPOSE then VIEW_INBOX else VIEW_COMPOSE)\<rparr>;
              n3 = (if g_view n2 = VIEW_INBOX \<and> msg_count (n_msgs n2) \<noteq> 0 then n2\<lparr>g_read_index := msg_count (n_msgs n2) - 1\<rparr> else n2)
          in n3\<lparr>g_text_dirty := True\<rparr>
        else if g_view n1 = VIEW_INBOX \<and> y < KB_TOP then page_touch x n1
        else if y < KB_TOP \<or> y \<ge> SPEC_Y \<or> x \<ge> PANEL_W then n1
        else case keyboard_touch ticks x y (n_kb n1) of (res, k) \<Rightarrow>
          let n2 = n1\<lparr>n_kb := k\<rparr> in
            if res = KB_NONE then n2
            else let ev = keyboard_event k; n3 = n2\<lparr>g_keys := g_keys n2 + 1\<rparr> in
              if g_view n3 = VIEW_INBOX \<and> (action ev = KB_ACT_APPEND \<or> action ev = KB_ACT_REPLACE) then n3
              else notes_apply fl ticks ev n3)"

subsection \<open>The messages as a list\<close>

definition msgs_of :: "msg_store_t \<Rightarrow> cstring list" where
  "msgs_of st = List.map c_text (take (unat (m_count st)) (m_text st))"

definition msgs_ok :: "msg_store_t \<Rightarrow> bool" where
  "msgs_ok st \<longleftrightarrow> m_magic st = MSG_MAGIC \<and> m_version st = MSG_VERSION \<and> length (m_text st) = 8 \<and> (\<forall>t \<in> set (m_text st). length t = 161)
     \<and> unat (m_count st) \<le> 8"

text \<open>What saving does to the list: the oldest goes when there are eight, and a message has at most 160 characters.\<close>

definition make_room :: "cstring list \<Rightarrow> cstring list" where
  "make_room ms = (if length ms < 8 then ms else tl ms)"

lemma length_msgs_of: "msgs_ok st \<Longrightarrow> length (msgs_of st) = unat (m_count st)"
  by (simp add: msgs_ok_def msgs_of_def)

lemma c_text_put:
  assumes "0 \<notin> set s" shows "c_text (put_text buf s n) = take n s"
proof -
  have z: "\<forall>c \<in> set (take n s). c \<noteq> 0" using assms by (auto dest: in_set_takeD)
  then show ?thesis unfolding c_text_def put_text_eq [OF assms] by (subst takeWhile_append2) simp_all
qed

lemma checksum_skips [simp]: "msg_checksum (st\<lparr>m_checksum := c\<rparr>) = msg_checksum st"
  by (simp add: msg_checksum_def)

lemma slide_spec:
  assumes "msgs_ok st" "m_count st \<ge> MSG_MAX"
  shows "msgs_ok (slide st)" "msgs_of (slide st) = tl (msgs_of st)" "unat (m_count (slide st)) = 7"
proof -
  have n: "unat (m_count st) = 8" and l: "length (m_text st) = 8" using assms by (simp_all add: msgs_ok_def word_le_nat_alt)
  obtain t ts where t: "m_text st = t # ts" using l by (cases "m_text st") simp_all
  have lt: "length ts = 7" using l t by simp
  have f: "m_text (slide st) = ts @ [last (t # ts)]" "m_magic (slide st) = m_magic st" "m_version (slide st) = m_version st" "m_count (slide st) = 7"
    by (simp_all add: slide_def t)
  have "last (t # ts) \<in> set (m_text st)" unfolding t by (rule last_in_set) simp
  then have "\<forall>u \<in> set (ts @ [last (t # ts)]). length u = 161" using assms(1) t by (auto simp: msgs_ok_def)
  then show "msgs_ok (slide st)" using assms(1) lt unfolding msgs_ok_def f by simp
  show "msgs_of (slide st) = tl (msgs_of st)" using n lt unfolding msgs_of_def f by (simp add: t)
  show "unat (m_count (slide st)) = 7" by (simp add: slide_def)
qed

lemma store_spec:
  assumes "msgs_ok st" "unat (m_count st) < 8" "0 \<notin> set s"
  defines "st' \<equiv> st\<lparr>m_text := (m_text st)[unat (m_count st) := put_text (m_text st ! unat (m_count st)) s MSG_LEN], m_count := m_count st + 1\<rparr>"
  shows "msgs_ok st'" "msgs_of st' = msgs_of st @ [take MSG_LEN s]" "msgs_ok (st'\<lparr>m_count := m_count st\<rparr>)"
    "msgs_of (st'\<lparr>m_count := m_count st\<rparr>) = msgs_of st"
proof -
  let ?n = "unat (m_count st)" and ?b = "put_text (m_text st ! unat (m_count st)) s MSG_LEN"
  have l: "length (m_text st) = 8" "?n < length (m_text st)" using assms(1,2) by (simp_all add: msgs_ok_def)
  have u: "unat (m_count st + 1) = Suc ?n" using assms(2) by (simp add: unat_add_u32)
  have "length (m_text st ! ?n) = 161" using assms(1) nth_mem [OF l(2)] by (simp add: msgs_ok_def)
  then have "length ?b = 161" using length_put_text [OF assms(3), of MSG_LEN] by simp
  then have b: "\<forall>t \<in> set ((m_text st)[?n := ?b]). length t = 161"
    using assms(1) set_update_subset_insert [of "m_text st" ?n ?b] by (auto simp: msgs_ok_def)
  show "msgs_ok st'" "msgs_ok (st'\<lparr>m_count := m_count st\<rparr>)" using assms(1,2) u b by (simp_all add: st'_def msgs_ok_def)
  show "msgs_of st' = msgs_of st @ [take MSG_LEN s]"
    using l u c_text_put [OF assms(3)] by (simp add: st'_def msgs_of_def take_Suc_conv_app_nth)
  show "msgs_of (st'\<lparr>m_count := m_count st\<rparr>) = msgs_of st" by (simp add: st'_def msgs_of_def)
qed

lemma msgs_checksum_fields: "msgs_ok (st\<lparr>m_checksum := c\<rparr>) = msgs_ok st" "msgs_of (st\<lparr>m_checksum := c\<rparr>) = msgs_of st"
  by (simp_all add: msgs_ok_def msgs_of_def)

text \<open>
  Saved messages: a save that the flash accepts appends the first 160 characters of the text, drops the oldest of eight, and is what
  the next start loads; a save that the flash refuses reports so, adds nothing, and has dropped the oldest of eight all the same.
\<close>

theorem msg_save_refines:
  assumes "msgs_ok (g_store ms)" "s \<noteq> []" "0 \<notin> set s" "msg_save fl (Some s) ms = (rc, ms')"
  shows "msgs_ok (g_store ms') \<and> (rc = 0 \<longleftrightarrow> erase_ok fl \<and> write_ok fl)
    \<and> (rc = 0 \<longrightarrow> msgs_of (g_store ms') = make_room (msgs_of (g_store ms)) @ [take MSG_LEN s]
        \<and> (read_ok fl' \<longrightarrow> msg_load fl' (ms'\<lparr>g_store := any\<rparr>) = (0, ms')))
    \<and> (rc \<noteq> 0 \<longrightarrow> msgs_of (g_store ms') = make_room (msgs_of (g_store ms)))"
proof -
  define st where "st = g_store ms"
  define st1 where "st1 = (if m_count st \<ge> MSG_MAX then slide st else st)"
  have ok: "msgs_ok st" using assms(1) by (simp add: st_def)
  have n: "length (msgs_of st) = unat (m_count st)" by (rule length_msgs_of [OF ok])
  have st1: "msgs_ok st1" "msgs_of st1 = make_room (msgs_of st)" "unat (m_count st1) < 8"
    using slide_spec [OF ok] ok n by (auto simp: st1_def make_room_def word_le_nat_alt)
  define st2 where "st2 = st1\<lparr>m_text := (m_text st1)[unat (m_count st1) := put_text (m_text st1 ! unat (m_count st1)) s MSG_LEN], m_count := m_count st1 + 1\<rparr>"
  note S = store_spec [OF st1(1,3) assms(3), folded st2_def]
  define st3 where "st3 = st2\<lparr>m_checksum := msg_checksum st2\<rparr>"
  have c0: "char_at s 0 \<noteq> 0" using assms(2,3) by (cases s) (auto simp: char_at_def)
  have save: "msg_save fl (Some s) ms = (case msg_commit fl (ms\<lparr>g_store := st2\<rparr>) of (rc, ms3) \<Rightarrow>
      if rc \<noteq> 0 then (-1, ms3\<lparr>g_store := (g_store ms3)\<lparr>m_count := m_count (g_store ms3) - 1\<rparr>\<rparr>) else (0, ms3))"
    using c0 by (simp add: msg_save_def Let_def st2_def st1_def st_def)
  have commit: "msg_commit fl (ms\<lparr>g_store := st2\<rparr>) =
      (if erase_ok fl \<and> write_ok fl then (0, ms\<lparr>g_store := st3, m_sector := st3\<rparr>) else (-1, ms\<lparr>g_store := st3, m_sector := torn fl\<rparr>))"
    by (simp add: msg_commit_def Let_def st3_def)
  show ?thesis
  proof (cases "erase_ok fl \<and> write_ok fl")
    case True
    then have r: "rc = 0" "ms' = ms\<lparr>g_store := st3, m_sector := st3\<rparr>" using assms(4) save commit by auto
    have "msg_valid st3" using S(1) by (simp add: msg_valid_def st3_def msgs_ok_def word_le_nat_alt)
    then have "read_ok fl' \<longrightarrow> msg_load fl' (ms'\<lparr>g_store := any\<rparr>) = (0, ms')" by (simp add: msg_load_def r)
    then show ?thesis using S(1,2) st1(2) True by (simp add: r st3_def msgs_checksum_fields st_def)
  next
    case False
    then have r: "rc = -1" "ms' = ms\<lparr>g_store := st3\<lparr>m_count := m_count st3 - 1\<rparr>, m_sector := torn fl\<rparr>"
      using assms(4) save commit by auto
    have "st3\<lparr>m_count := m_count st3 - 1\<rparr> = (st2\<lparr>m_count := m_count st1\<rparr>)\<lparr>m_checksum := msg_checksum st2\<rparr>"
      by (simp add: st3_def st2_def)
    then show ?thesis using S(3,4) st1(2) False by (simp add: r msgs_checksum_fields st_def)
  qed
qed

subsection \<open>The note\<close>

definition note_text :: "note_pad \<Rightarrow> cstring" where
  "note_text n = cstr (g_text n) (g_len n)"

definition notes_ok :: "note_pad \<Rightarrow> bool" where
  "notes_ok n \<longleftrightarrow> cbuf 256 (g_text n) (g_len n) \<and> kb_ok (n_kb n) \<and> msgs_ok (g_store (n_msgs n))"

text \<open>The texts among the calls of a drawing.\<close>

fun drawn :: "panel_call list \<Rightarrow> cstring list" where
  "drawn [] = []"
| "drawn (Draw_text x y s f b k # cs) = s # drawn cs"
| "drawn (_ # cs) = drawn cs"

lemma drawn_append: "drawn (xs @ ys) = drawn xs @ drawn ys"
  by (induction xs rule: drawn.induct) simp_all

lemma line_fits_10: "unat line < 10 \<Longrightarrow> line_fits line"
proof -
  assume l: "unat line < 10"
  then have "unat (line + 1) = unat line + 1" by (simp add: unat_add_u32)
  moreover have "unat ((line + 1) * 9) = unat (line + 1) * 9" using l calculation by (simp add: unat_word_ariths)
  ultimately have "unat (25 + (line + 1) * 9) = 25 + (unat line + 1) * 9" using l by (simp only: unat_add_mod_u32) simp
  then show ?thesis using l by (simp add: line_fits_def word_less_nat_alt)
qed

lemma lines_text_all:
  "unat line < 10 \<Longrightarrow> unat line * 38 + length buf + length s \<le> 380 \<Longrightarrow> length buf \<le> 38 \<Longrightarrow>
   concat (drawn (note_lines compose s buf line)) = buf @ s \<and> (\<forall>l \<in> set (drawn (note_lines compose s buf line)). length l \<le> 38)"
proof (induction compose s buf line rule: note_lines.induct)
  case (1 compose buf line)
  then show ?case using line_fits_10 [of line] by (simp add: flush_line_def drawn_append)
next
  case (2 compose c cs buf line)
  show ?case
  proof (cases "length buf < COLS")
    case True
    then show ?thesis using 2 by simp
  next
    case False
    then have lt: "unat line < 9" and b: "length buf = 38" using "2.prems" by auto
    then have u: "unat (line + 1) = Suc (unat line)" by (simp add: unat_add_u32)
    have "concat (drawn (note_lines compose cs [c] (line + 1))) = [c] @ cs \<and> (\<forall>l \<in> set (drawn (note_lines compose cs [c] (line + 1))). length l \<le> 38)"
      using "2.IH"(2) [OF False] "2.prems" lt b u by simp
    then show ?thesis using False line_fits_10 [of line] lt b by (simp add: flush_line_def drawn_append)
  qed
qed

text \<open>
  The whole note is on the screen: the lines drawn for a note, joined, are the note, whatever its length, and no line is wider than
  the pane.
\<close>

theorem notes_draw_whole:
  assumes "notes_ok n"
  shows "concat (drawn (note_lines compose (note_text n) [] 0)) = note_text n \<and> (\<forall>l \<in> set (drawn (note_lines compose (note_text n) [] 0)). length l \<le> 38)"
proof -
  have "length (note_text n) \<le> 255" using assms length_cstr [of 256 "g_text n" "g_len n"] by (simp add: notes_ok_def note_text_def cbuf_def)
  then show ?thesis using lines_text_all [of 0 "[]" "note_text n" compose] by simp
qed

text \<open>The note through the event of a press.\<close>

definition edit_note :: "kb_event_t \<Rightarrow> cstring \<Rightarrow> cstring" where
  "edit_note ev s =
     (case action ev of
        KB_ACT_APPEND \<Rightarrow> if length s < 255 then s @ [ch ev] else s
      | KB_ACT_REPLACE \<Rightarrow> if s = [] then [] else butlast s @ [ch ev]
      | KB_ACT_BACKSPACE \<Rightarrow> butlast s
      | _ \<Rightarrow> s)"

lemma note_edit:
  assumes "cbuf 256 (g_text n) (g_len n)" "action ev \<noteq> KB_ACT_SUBMIT" "action ev \<in> {KB_ACT_APPEND, KB_ACT_REPLACE} \<Longrightarrow> ch ev \<noteq> 0"
  shows "cbuf 256 (g_text (notes_apply fl t ev n)) (g_len (notes_apply fl t ev n)) \<and> note_text (notes_apply fl t ev n) = edit_note ev (note_text n)
    \<and> n_kb (notes_apply fl t ev n) = n_kb n \<and> n_msgs (notes_apply fl t ev n) = n_msgs n"
proof (cases "action ev")
  case KB_ACT_APPEND
  have n: "length (note_text n) = unat (g_len n)" using length_cstr [OF assms(1)] by (simp add: note_text_def)
  have lt: "unat (g_len n) < 256" using assms(1) by (simp add: cbuf_def)
  have full: "g_len n + 1 \<ge> NOTES_MAX \<longleftrightarrow> \<not> unat (g_len n) < 255" using lt by (auto simp: word_le_nat_alt unat_add_u32)
  show ?thesis
    using cbuf_append [OF assms(1), of "ch ev"] assms(1,3) n full KB_ACT_APPEND
    by (simp add: notes_apply_def edit_note_def Let_def note_text_def)
next
  case KB_ACT_REPLACE
  then show ?thesis
    using cbuf_replace [OF assms(1), of "ch ev"] assms(1,3) length_cstr [OF assms(1)]
    by (cases "g_len n = 0") (auto simp: notes_apply_def edit_note_def note_text_def cstr_def unat_eq_0)
next
  case KB_ACT_BACKSPACE
  then show ?thesis
    using cbuf_delete [OF assms(1)] assms(1)
    by (cases "g_len n = 0") (auto simp: notes_apply_def edit_note_def note_text_def cstr_def)
qed (use assms in \<open>simp_all add: notes_apply_def edit_note_def note_text_def\<close>)

lemma notes_touch_keys:
  assumes "notes_ok n" "\<not> g_was_down n" "key_at x y = Some rc" "tap x y (keyboard_text (n_kb n), live_key (n_kb n)) = (ev, e')"
  shows "\<exists>k. kb_ok k \<and> (keyboard_text k, live_key k) = e' \<and> notes_touch fl ticks x y True n =
    (let n2 = n\<lparr>g_was_down := True, n_kb := k\<rparr> in
     if action ev = KB_ACT_NONE then n2
     else let n3 = n2\<lparr>g_keys := g_keys n + 1\<rparr> in
       if g_view n = VIEW_INBOX \<and> (action ev = KB_ACT_APPEND \<or> action ev = KB_ACT_REPLACE) then n3 else notes_apply fl ticks ev n3)"
proof -
  obtain r c where rc: "rc = (r, c)" by (rule prod.exhaust)
  have nk: "\<not> (y < KB_TOP \<or> y \<ge> SPEC_Y \<or> x \<ge> PANEL_W)" by (rule key_at_words(7) [OF assms(3) [unfolded rc]])
  then have np: "\<not> y < HDR_H" "\<not> y < KB_TOP" by (auto simp: word_less_nat_alt word_le_nat_alt)
  obtain res k where k: "keyboard_touch ticks x y (n_kb n) = (res, k)" by (rule prod.exhaust)
  have "kb_ok (n_kb n)" using assms(1) by (simp add: notes_ok_def)
  note K = keyboard_edits [OF this k]
  have ev: "keyboard_event k = ev" "(keyboard_text k, live_key k) = e'" using K assms(4) by simp_all
  have res: "res = KB_NONE \<longleftrightarrow> action ev = KB_ACT_NONE" using K ev(1) by (auto split: kb_action.splits)
  have "notes_touch fl ticks x y True n =
    (let n2 = n\<lparr>g_was_down := True, n_kb := k\<rparr> in
     if action ev = KB_ACT_NONE then n2
     else let n3 = n2\<lparr>g_keys := g_keys n + 1\<rparr> in
       if g_view n = VIEW_INBOX \<and> (action ev = KB_ACT_APPEND \<or> action ev = KB_ACT_REPLACE) then n3 else notes_apply fl ticks ev n3)"
    using assms(2) np unfolding notes_touch_def Let_def if_not_P [OF nk] by (auto simp: k ev(1) res)
  then show ?thesis using K ev(2) by blast
qed

text \<open>
  Writing a note: with the note in view and the finger up before, a press on the keypad changes the note by the event the editor of
  the keyboard prescribes, within 255 characters, and leaves the saved messages alone.
\<close>

theorem notes_press_edits:
  assumes "notes_ok n" "\<not> g_was_down n" "g_view n = VIEW_COMPOSE" "key_at x y = Some rc"
    and "tap x y (keyboard_text (n_kb n), live_key (n_kb n)) = (ev, e')" "action ev \<noteq> KB_ACT_SUBMIT"
  shows "notes_ok (notes_touch fl ticks x y True n) \<and> note_text (notes_touch fl ticks x y True n) = edit_note ev (note_text n)
    \<and> (keyboard_text (n_kb (notes_touch fl ticks x y True n)), live_key (n_kb (notes_touch fl ticks x y True n))) = e'
    \<and> n_msgs (notes_touch fl ticks x y True n) = n_msgs n"
proof -
  obtain k where k: "kb_ok k" "(keyboard_text k, live_key k) = e'" and t: "notes_touch fl ticks x y True n =
      (let n2 = n\<lparr>g_was_down := True, n_kb := k\<rparr> in
       if action ev = KB_ACT_NONE then n2
       else let n3 = n2\<lparr>g_keys := g_keys n + 1\<rparr> in
         if g_view n = VIEW_INBOX \<and> (action ev = KB_ACT_APPEND \<or> action ev = KB_ACT_REPLACE) then n3 else notes_apply fl ticks ev n3)"
    using notes_touch_keys [OF assms(1,2,4,5)] by blast
  define n3 where "n3 = n\<lparr>g_was_down := True, n_kb := k, g_keys := g_keys n + 1\<rparr>"
  have cb: "cbuf 256 (g_text n3) (g_len n3)" using assms(1) by (simp add: n3_def notes_ok_def)
  have same: "note_text n3 = note_text n" "n_kb n3 = k" "n_msgs n3 = n_msgs n" by (simp_all add: n3_def note_text_def)
  show ?thesis
  proof (cases "action ev = KB_ACT_NONE")
    case True
    then show ?thesis using t assms(1) k by (simp add: notes_ok_def note_text_def edit_note_def)
  next
    case False
    then have "notes_touch fl ticks x y True n = notes_apply fl ticks ev n3" using t assms(3) by (simp add: n3_def Let_def)
    then show ?thesis
      using note_edit [OF cb assms(6) tap_char [OF assms(5)]] k assms(1) same by (simp add: notes_ok_def)
  qed
qed

text \<open>
  Saving a note: in either view the save key stores a note that is not empty. When the flash accepts, the message is the note cut to
  its first 160 characters, the whole note is discarded and the header says it was saved; when the flash refuses, the note
  stays and the header says so, but of eight messages the oldest is gone.
\<close>

theorem notes_save_cuts:
  assumes "notes_ok n" "\<not> g_was_down n" "key_at x y = Some rc"
    and "tap x y (keyboard_text (n_kb n), live_key (n_kb n)) = (ev, e')" "action ev = KB_ACT_SUBMIT" "note_text n \<noteq> []"
  shows "case notes_touch fl ticks x y True n of n' \<Rightarrow> notes_ok n' \<and>
    (if erase_ok fl \<and> write_ok fl
     then msgs_of (g_store (n_msgs n')) = make_room (msgs_of (g_store (n_msgs n))) @ [take MSG_LEN (note_text n)]
       \<and> note_text n' = [] \<and> g_flash_msg n' = Some ''saved''
     else msgs_of (g_store (n_msgs n')) = make_room (msgs_of (g_store (n_msgs n)))
       \<and> note_text n' = note_text n \<and> g_flash_msg n' = Some ''save failed'')"
proof -
  obtain k where k: "kb_ok k" "(keyboard_text k, live_key k) = e'" and t: "notes_touch fl ticks x y True n =
      notes_apply fl ticks ev (n\<lparr>g_was_down := True, n_kb := k, g_keys := g_keys n + 1\<rparr>)"
    using notes_touch_keys [OF assms(1-4), of fl ticks] assms(5) by (auto simp: Let_def)
  define n3 where "n3 = n\<lparr>g_was_down := True, n_kb := k, g_keys := g_keys n + 1\<rparr>"
  have cb: "cbuf 256 (g_text n) (g_len n)" using assms(1) by (simp add: notes_ok_def)
  have tx: "c_text (g_text n) = note_text n" using cbuf_text [OF cb] by (simp add: note_text_def)
  have ne: "g_len n \<noteq> 0" using assms(6) by (auto simp: note_text_def cstr_def)
  obtain rc' ms' where s: "msg_save fl (Some (note_text n)) (n_msgs n) = (rc', ms')" by (rule prod.exhaust)
  have nz: "0 \<notin> set (note_text n)" using cstr_nonzero [OF cb] by (simp add: note_text_def)
  have mo: "msgs_ok (g_store (n_msgs n))" using assms(1) by (simp add: notes_ok_def)
  note S = msg_save_refines [OF mo assms(6) nz s]
  have nil: "cbuf 256 ((g_text n)[0 := 0]) 0 \<and> cstr ((g_text n)[0 := 0]) 0 = []" using cbuf_nil [of 256 "g_text n"] cb by (simp add: cbuf_def)
  have e: "notes_touch fl ticks x y True n =
      (if rc' = 0 then flash_note ticks ''saved'' (n3\<lparr>n_msgs := ms', g_len := 0, g_text := (g_text n)[0 := 0]\<rparr>)
       else flash_note ticks ''save failed'' (n3\<lparr>n_msgs := ms'\<rparr>))"
    unfolding t n3_def [symmetric] using assms(5) ne by (simp add: notes_apply_def n3_def tx s Let_def flash_note_def)
  show ?thesis
    using S k cb nil by (cases "rc' = 0") (auto simp: e n3_def flash_note_def notes_ok_def note_text_def)
qed

subsection \<open>Witnesses\<close>

definition msg_blank :: msg_store_t where
  "msg_blank = \<lparr>m_magic = MSG_MAGIC, m_version = MSG_VERSION, m_count = 0, m_text = replicate 8 (replicate 161 0), m_checksum = 0\<rparr>"

definition no_messages :: messages where
  "no_messages = \<lparr>g_store = msg_blank, m_sector = msg_blank\<rparr>"

lemma no_messages_ok: "msgs_ok (g_store no_messages)" "msgs_of (g_store no_messages) = []"
  by (simp_all add: no_messages_def msg_blank_def msgs_ok_def msgs_of_def)

text \<open>A note pad holding a note of 200 characters.\<close>

definition long_note :: note_pad where
  "long_note = \<lparr>g_text = replicate 200 97 @ replicate 56 0, g_len = 200, g_keys = 0, g_kb_drawn = False, g_text_dirty = True, g_view = VIEW_COMPOSE,
     g_read_index = 0, g_flash_msg = None, g_flash_tick = 0, g_was_down = False, n_kb = keyboard_boot, n_msgs = no_messages\<rparr>"

lemma long_note_ok: "notes_ok long_note" "note_text long_note = replicate 200 97"
proof -
  have "cbuf 256 (g_text long_note) (g_len long_note)" unfolding cbuf_def by (auto simp: long_note_def nth_append)
  then show "notes_ok long_note" using keyboard_boot_ok no_messages_ok by (simp add: notes_ok_def) (simp add: long_note_def)
  show "note_text long_note = replicate 200 97" by (simp add: note_text_def long_note_def cstr_def)
qed

lemma long_note_keys: "\<not> g_was_down long_note" "keyboard_text (n_kb long_note) = []" "live_key (n_kb long_note) = None" "g_view long_note = VIEW_COMPOSE"
  "msgs_of (g_store (n_msgs long_note)) = []"
  using keyboard_boot_ok no_messages_ok by (simp_all add: long_note_def)

theorem msg_save_refines_witness:
  "\<exists>ms'. msg_save (works msg_blank) (Some [104, 105]) no_messages = (0, ms') \<and> msgs_of (g_store ms') = [[104, 105]]"
proof -
  obtain rc ms' where s: "msg_save (works msg_blank) (Some [104, 105]) no_messages = (rc, ms')" by (rule prod.exhaust)
  have w: "erase_ok (works msg_blank)" "write_ok (works msg_blank)" by (simp_all add: works_def)
  from msg_save_refines [OF no_messages_ok(1) _ _ s, of undefined undefined] show ?thesis
    by (auto simp: s w no_messages_ok make_room_def)
qed

theorem notes_draw_whole_witness:
  "concat (drawn (note_lines True (replicate 200 97) [] 0)) = replicate 200 97"
  using notes_draw_whole [OF long_note_ok(1), of True] unfolding long_note_ok by blast

theorem notes_press_edits_witness:
  "note_text (notes_touch (works msg_blank) 3 100 130 True long_note) = replicate 200 97 @ [97]"
proof -
  have "tap 100 130 (keyboard_text (n_kb long_note), live_key (n_kb long_note)) = (\<lparr>action = KB_ACT_APPEND, ch = 97\<rparr>, ([97], Some (0, 1, 0)))"
    using key_abc by (simp add: long_note_keys tap_def key_press_def new_key_def letters_def)
  from notes_press_edits [OF long_note_ok(1) long_note_keys(1,4) key_abc(1) this] show ?thesis
    by (simp add: long_note_ok edit_note_def)
qed

theorem notes_save_cuts_witness:
  "msgs_of (g_store (n_msgs (notes_touch (works msg_blank) 3 220 270 True long_note))) = [replicate 160 97]
    \<and> note_text (notes_touch (works msg_blank) 3 220 270 True long_note) = []"
proof -
  have k: "key_at 220 270 = Some (3, 2)" "KEYS ! 3 ! 2 = chars ''>''" by (simp_all add: key_at_def KEYS_def)
  have "tap 220 270 (keyboard_text (n_kb long_note), live_key (n_kb long_note)) = (\<lparr>action = KB_ACT_SUBMIT, ch = 0\<rparr>, ([], None))"
    using chars_differ by (simp add: long_note_keys tap_def k key_press_def)
  from notes_save_cuts [OF long_note_ok(1) long_note_keys(1) k(1) this, of "works msg_blank" 3] show ?thesis
    by (simp add: long_note_ok long_note_keys make_room_def works_def Let_def)
qed

end
