(* ===== verification/KDesk.thy ===== *)
theory KDesk
  imports KApp KOut
begin

text \<open>
  The launcher, \<^verbatim>\<open>kernel/desktop.c\<close>, with the launching of programs of \<^verbatim>\<open>kernel/shell.c\<close> and the routing of touch samples of
  \<^verbatim>\<open>kernel/kmain.c\<close>, over the application host of \<^verbatim>\<open>KApp\<close>. Views that other files draw are calls in \<open>opened\<close>, the panel is the list of
  calls made. The program table and the tick counter are arguments; launching is an option because the heap walk
  of \<^verbatim>\<open>app_start\<close> is.
\<close>

subsection \<open>Launching a program (shell.c)\<close>

record shell_program_t =
  p_name :: cstring
  p_img :: "u8 list"
  p_arena_bytes :: u32
  p_publish_off :: u32
  p_image_id :: u32
  p_perm_names :: "cstring list"

abbreviation (input) LAUNCH_EXPLAINED :: int where "LAUNCH_EXPLAINED \<equiv> -2"

definition uart_put_hex :: "u32 \<Rightarrow> kern \<Rightarrow> kern" where
  "uart_put_hex v k =
     fold (\<lambda>i k. uart_putc (bytes_of ''0123456789abcdef'' ! unat (drop_bit (28 - 4 * i) v AND 0xF)) k) [0..<8] (uart_puts (bytes_of ''0x'') k)"

definition launch_entry :: "shell_program_t \<Rightarrow> host \<Rightarrow> (int \<times> host) option" where
  "launch_entry p st =
     (let have = app_image_id (p_img p) (List.map Some (p_perm_names p)) in
      if have \<noteq> p_image_id p then
        Some (LAUNCH_EXPLAINED, upd_kern (\<lambda>k. uart_puts (bytes_of '')'' @ [10]) (uart_put_hex (p_image_id p)
          (uart_puts (bytes_of '', expected '') (uart_put_hex have (uart_puts (bytes_of '' does not match the manifest it was built with (id '')
            (uart_puts (p_name p) (uart_puts (bytes_of ''   launch    refused: '') k))))))) st)
      else case device_perms_from_names (Some (p_perm_names p)) of
          (_, Some u) \<Rightarrow> Some (-1, upd_kern (\<lambda>k. uart_puts [10] (uart_puts (p_perm_names p ! u)
            (uart_puts (bytes_of '' wants a device this board has no name for: '')
              (uart_puts (p_name p) (uart_puts (bytes_of ''   launch    refused: '') k))))) st)
        | (bits, None) \<Rightarrow>
            (case app_start (Some (p_name p)) (p_img p) (of_nat (length (p_img p))) (p_arena_bytes p) (p_publish_off p) st of
               None \<Rightarrow> None
             | Some (i, st1) \<Rightarrow>
                 Some (i, if i \<ge> 0 then upd_kern (\<lambda>k. k\<lparr>kdev := device_grant (of_int i) bits (kdev k)\<rparr>) st1 else st1)))"

fun shell_launch :: "shell_program_t list \<Rightarrow> cstring \<Rightarrow> host \<Rightarrow> (int \<times> host) option" where
  "shell_launch [] n st = Some (-1, st)"
| "shell_launch (p # ps) n st = (if p_name p = n then launch_entry p st else shell_launch ps n st)"

subsection \<open>Layout and icons\<close>

abbreviation (input) GRID_COLS :: u32 where "GRID_COLS \<equiv> 3"
abbreviation (input) GRID_ROWS :: u32 where "GRID_ROWS \<equiv> 3"
abbreviation (input) STATUS_H :: u32 where "STATUS_H \<equiv> 14"
abbreviation (input) GRID_H :: u32 where "GRID_H \<equiv> 210"
abbreviation (input) CELL_W :: u32 where "CELL_W \<equiv> 80"
abbreviation (input) CELL_H :: u32 where "CELL_H \<equiv> 70"
abbreviation (input) MSG_TICKS :: u32 where "MSG_TICKS \<equiv> 200"
abbreviation (input) DOUBLE_TAP_TICKS :: u32 where "DOUBLE_TAP_TICKS \<equiv> 60"
abbreviation (input) TAP_MIN_TICKS :: u32 where "TAP_MIN_TICKS \<equiv> 2"
abbreviation (input) GLYPH_PX :: u32 where "GLYPH_PX \<equiv> 4"
abbreviation (input) BAND_END :: u32 where "BAND_END \<equiv> 288"
abbreviation (input) APP_NAME_W :: u32 where "APP_NAME_W \<equiv> 44"
abbreviation (input) APP_CLOSE_W :: u32 where "APP_CLOSE_W \<equiv> 16"
abbreviation (input) APP_CHROME_W :: u32 where "APP_CHROME_W \<equiv> 60"
abbreviation (input) CHROME_X :: u32 where "CHROME_X \<equiv> 180"
abbreviation (input) CLOSE_X :: u32 where "CLOSE_X \<equiv> 224"
abbreviation (input) COLOR_BLACK :: u16 where "COLOR_BLACK \<equiv> 0"
abbreviation (input) COLOR_WHITE :: u16 where "COLOR_WHITE \<equiv> 0xFFFF"
abbreviation (input) COLOR_RED :: u16 where "COLOR_RED \<equiv> 0xF800"
abbreviation (input) COLOR_GREEN :: u16 where "COLOR_GREEN \<equiv> 0x07E0"
abbreviation (input) COLOR_YELLOW :: u16 where "COLOR_YELLOW \<equiv> 0xFFE0"
abbreviation (input) COLOR_CYAN :: u16 where "COLOR_CYAN \<equiv> 0x07FF"
abbreviation (input) COLOR_MAGENTA :: u16 where "COLOR_MAGENTA \<equiv> 0xF81F"
abbreviation (input) COLOR_GREY :: u16 where "COLOR_GREY \<equiv> 0x8410"

definition GLYPHS :: "u8 list list" where
  "GLYPHS =
     [[0x00, 0x40, 0x60, 0x70, 0x60, 0x40, 0x0E, 0x00], [0x00, 0x66, 0x66, 0x00, 0x00, 0x66, 0x66, 0x00],
      [0x03, 0x07, 0x0E, 0x1C, 0x38, 0x70, 0xE0, 0xC0], [0x18, 0x18, 0x18, 0x3C, 0x7E, 0x7E, 0x3C, 0x18],
      [0x7E, 0x42, 0x7A, 0x42, 0x7A, 0x42, 0x7E, 0x00], [0x1F, 0x11, 0x11, 0x11, 0x33, 0x77, 0x66, 0x00],
      [0xFF, 0x81, 0x91, 0x99, 0x99, 0x91, 0x81, 0xFF], [0xFF, 0x91, 0x91, 0xFF, 0x19, 0x19, 0xFF, 0x00],
      [0x18, 0x3C, 0x7E, 0xFF, 0xFF, 0x7E, 0x3C, 0x18]]"

datatype desk_action = DESK_ACTION_NONE | DESK_ACTION_3D | DESK_ACTION_NOTES | DESK_ACTION_TERM | DESK_ACTION_WIFI | DESK_ACTION_WEB
  | DESK_ACTION_MUSIC | DESK_ACTION_VIDEO

record desk_icon_t =
  label :: cstring
  prog :: "cstring option"
  colour :: u16
  action :: desk_action

definition ICONS :: "desk_icon_t list" where
  "ICONS =
     [\<lparr>label = bytes_of ''shell'', prog = None, colour = COLOR_CYAN, action = DESK_ACTION_TERM\<rparr>,
      \<lparr>label = bytes_of ''wifi'', prog = None, colour = COLOR_GREEN, action = DESK_ACTION_WIFI\<rparr>,
      \<lparr>label = bytes_of ''web'', prog = None, colour = COLOR_YELLOW, action = DESK_ACTION_WEB\<rparr>,
      \<lparr>label = bytes_of ''paint'', prog = Some (bytes_of ''paint''), colour = COLOR_MAGENTA, action = DESK_ACTION_NONE\<rparr>,
      \<lparr>label = bytes_of ''notes'', prog = None, colour = COLOR_WHITE, action = DESK_ACTION_NOTES\<rparr>,
      \<lparr>label = bytes_of ''music'', prog = None, colour = COLOR_CYAN, action = DESK_ACTION_MUSIC\<rparr>,
      \<lparr>label = bytes_of ''video'', prog = None, colour = COLOR_GREEN, action = DESK_ACTION_VIDEO\<rparr>,
      \<lparr>label = bytes_of ''rogue'', prog = Some (bytes_of ''gfxrogue''), colour = COLOR_YELLOW, action = DESK_ACTION_NONE\<rparr>,
      \<lparr>label = bytes_of ''3D view'', prog = None, colour = COLOR_RED, action = DESK_ACTION_3D\<rparr>]"

subsection \<open>State\<close>

datatype desk_mode = MODE_LAUNCHER | MODE_3D | MODE_NOTES | MODE_TERM | MODE_WIFI | MODE_WEB | MODE_APP | MODE_MUSIC | MODE_VIDEO

datatype view_call = Raycast_open | Notes_open | Term_open | Wifiapp_open | Browser_open | Vidlist_open | Vidlist_close | Player_open

record desk =
  g_mode :: desk_mode
  g_app_bar :: bool
  g_sel :: int
  g_cx :: u32
  g_cy :: u32
  g_dirty :: bool
  g_was_down :: bool
  g_press_tick :: u32
  g_last_tap_tick :: u32
  g_last_tap_sel :: int
  g_taps :: u32
  g_opens :: u32
  g_closes :: u32
  g_first :: "u32 \<times> u32 \<times> int"
  g_last :: "u32 \<times> u32 \<times> int"
  g_samples :: u32
  g_msg_sel :: int
  g_msg_ok :: bool
  g_msg_tick :: u32
  dhost :: host
  dpanel :: "panel_call list"
  opened :: "view_call list"

definition desk_paint :: "panel_call list \<Rightarrow> desk \<Rightarrow> desk" where
  "desk_paint cs d = d\<lparr>dpanel := dpanel d @ cs\<rparr>"

definition enter :: "view_call \<Rightarrow> desk \<Rightarrow> desk" where
  "enter c d = d\<lparr>opened := opened d @ [c]\<rparr>"

definition on_host :: "(host \<Rightarrow> host) \<Rightarrow> desk \<Rightarrow> desk" where
  "on_host f d = d\<lparr>dhost := f (dhost d)\<rparr>"

abbreviation desktop_active :: "desk \<Rightarrow> bool" where "desktop_active d \<equiv> g_mode d = MODE_LAUNCHER"

text \<open>The views that take the band below the launcher for a keyboard or a list.\<close>

definition takes_band :: "desk \<Rightarrow> bool" where
  "takes_band d \<longleftrightarrow> g_mode d \<in> {MODE_TERM, MODE_NOTES, MODE_WIFI, MODE_WEB, MODE_MUSIC, MODE_VIDEO}"

text \<open>Opening a view from the shell, as its icon does.\<close>

definition open_view :: "desk_mode \<Rightarrow> view_call \<Rightarrow> desk \<Rightarrow> desk" where
  "open_view m c d = enter c (on_host (app_views_suspend True) (d\<lparr>g_mode := m\<rparr>))"

definition desktop_open_wifi :: "desk \<Rightarrow> desk" where "desktop_open_wifi d = open_view MODE_WIFI Wifiapp_open d"
definition desktop_open_web :: "desk \<Rightarrow> desk" where "desktop_open_web d = open_view MODE_WEB Browser_open d"
definition desktop_open_video :: "desk \<Rightarrow> desk" where "desktop_open_video d = open_view MODE_VIDEO Vidlist_open d"
definition desktop_open_music :: "desk \<Rightarrow> desk" where "desktop_open_music d = open_view MODE_MUSIC Player_open d"

definition desktop_invalidate :: "desk \<Rightarrow> desk" where
  "desktop_invalidate d = d\<lparr>g_dirty := True\<rparr>"

definition desktop_set_active :: "bool \<Rightarrow> desk \<Rightarrow> desk" where
  "desktop_set_active on d =
     (let d1 = (if on then d else enter Raycast_open d) in d1\<lparr>g_mode := (if on then MODE_LAUNCHER else MODE_3D), g_dirty := True\<rparr>)"

definition desktop_init :: "desk \<Rightarrow> desk" where
  "desktop_init d = d\<lparr>g_cx := CELL_W div 2, g_cy := CELL_H div 2, g_dirty := True\<rparr>"

definition cell_x :: "nat \<Rightarrow> u32" where "cell_x i = of_nat (i mod 3) * CELL_W"
definition cell_y :: "nat \<Rightarrow> u32" where "cell_y i = of_nat (i div 3) * CELL_H"

definition cell_at :: "u32 \<Rightarrow> u32 \<Rightarrow> int" where
  "cell_at x y =
     (if y \<ge> GRID_H \<or> x \<ge> PANEL_W then -1
      else let c = x div CELL_W; r = y div CELL_H in
        if c \<ge> GRID_COLS \<or> r \<ge> GRID_ROWS then -1 else int (unat (r * GRID_COLS + c)))"

subsection \<open>Drawing\<close>

text \<open>The runs of set pixels of a row, as start and length; one rectangle each.\<close>

function row_runs :: "bool list \<Rightarrow> nat \<Rightarrow> (nat \<times> nat) list" where
  "row_runs [] c = []"
| "row_runs (False # bs) c = row_runs bs (Suc c)"
| "row_runs (True # bs) c = (let n = Suc (length (takeWhile id bs)) in (c, n) # row_runs (drop (n - 1) bs) (c + n))"
  by pat_completeness auto
termination by (relation "measure (length \<circ> fst)") (auto simp: less_Suc_eq_le)

definition glyph_row :: "u8 \<Rightarrow> bool list" where
  "glyph_row b = List.map (\<lambda>c. b AND drop_bit c 0x80 \<noteq> 0) [0..<8]"

definition draw_glyph :: "u8 list \<Rightarrow> u32 \<Rightarrow> u32 \<Rightarrow> u16 \<Rightarrow> panel_call list" where
  "draw_glyph g x y fg =
     concat (List.map (\<lambda>r. List.map (\<lambda>(c, n). Fill_rect (x + of_nat c * GLYPH_PX) (y + of_nat r * GLYPH_PX) (of_nat n * GLYPH_PX) GLYPH_PX fg)
       (row_runs (glyph_row (g ! r)) 0)) [0..<8])"

fun cursor_rows :: "nat list \<Rightarrow> u32 \<Rightarrow> u32 \<Rightarrow> panel_call list" where
  "cursor_rows [] x y = []"
| "cursor_rows (i # is) x y =
     (let w0 = 8 - of_nat i; w = (if x + w0 > PANEL_W then PANEL_W - x else w0) in
      if y + of_nat i \<ge> GRID_H then []
      else Fill_rect x (y + of_nat i) (w + 1) 1 COLOR_BLACK # Fill_rect x (y + of_nat i) w 1 COLOR_WHITE # cursor_rows is x y)"

definition draw_cursor :: "u32 \<Rightarrow> u32 \<Rightarrow> panel_call list" where
  "draw_cursor x y = cursor_rows [0..<8] x y"

definition app_runs :: "cstring \<Rightarrow> host \<Rightarrow> bool" where
  "app_runs n h = list_ex (\<lambda>i. running h i \<and> app_name (int i) h = n) [0..<APP_SLOTS]"

definition draw_icon :: "nat \<Rightarrow> desk \<Rightarrow> panel_call list" where
  "draw_icon i d =
     (let x = cell_x i; y = cell_y i; ic = ICONS ! i;
          gw = 8 * GLYPH_PX;
          ix = x + (CELL_W - gw) div 2;
          iy = y + 9;
          sel = (int i = g_sel d);
          bg = (if sel then COLOR_GREY else COLOR_BLACK);
          run = (case prog ic of None \<Rightarrow> False | Some n \<Rightarrow> app_runs n (dhost d));
          lx = x + 4;
          ly = y + 9 + gw + 7
      in (if sel then [Fill_rect (x + 1) (y + 1) (CELL_W - 2) (CELL_H - 2) COLOR_GREY] else [])
         @ draw_glyph (GLYPHS ! i) ix iy (colour ic)
         @ Draw_text lx ly (label ic) COLOR_WHITE bg 1
         # (if run then [Fill_rect lx (ly + 9) (CELL_W - 8) 1 (colour ic)] else []))"

definition draw_close :: "u32 \<Rightarrow> u32 \<Rightarrow> u32 \<Rightarrow> u32 \<Rightarrow> u16 \<Rightarrow> panel_call list" where
  "draw_close x y w h fg =
     Fill_rect x y w h COLOR_BLACK #
     (let n = (if w < h then w else h) - 6 in
      concat (List.map (\<lambda>i. [Fill_rect (x + 3 + i) (y + 3 + i) 2 2 fg, Fill_rect (x + 3 + (n - 1 - i)) (y + 3 + i) 2 2 fg])
        (List.map of_nat [0..<unat n])))"

definition band_clear :: "desk \<Rightarrow> desk" where
  "band_clear d = desk_paint [Fill_rect 0 APP_VIEW_Y0 PANEL_W (BAND_END - APP_VIEW_Y0) COLOR_BLACK] d"

definition draw_strip :: "nat \<Rightarrow> host \<Rightarrow> panel_call list" where
  "draw_strip i h =
     (let y = APP_VIEW_Y0 + of_nat i * APP_VIEW_PITCH in
      if running h i then
        Fill_rect CHROME_X y APP_NAME_W APP_VIEW_H COLOR_BLACK #
        Draw_text (CHROME_X + 1) (y + 9) (app_name (int i) h) COLOR_GREY COLOR_BLACK 1 #
        draw_close CLOSE_X y APP_CLOSE_W APP_VIEW_H COLOR_RED
      else [Fill_rect CHROME_X y APP_CHROME_W APP_VIEW_H COLOR_BLACK])"

text \<open>The argument says whether the 3D view draws into its framebuffer.\<close>

definition desktop_chrome :: "bool \<Rightarrow> desk \<Rightarrow> desk" where
  "desktop_chrome framebuffer d =
     (if takes_band d then d
      else if g_mode d = MODE_APP \<and> g_focused (dhost d) < 0 then
        on_host (app_views_suspend False) (d\<lparr>g_mode := MODE_LAUNCHER, g_dirty := True\<rparr>)
      else
        let d1 = (if g_mode d = MODE_APP \<and> g_app_bar d then
              (let f = g_focused (dhost d) in
               desk_paint (Fill_rect 0 0 PANEL_W APP_FULL_Y0 COLOR_BLACK
                 # (if f \<ge> 0 then [Draw_text 4 7 (app_name f (dhost d)) COLOR_WHITE COLOR_BLACK 1] else [])
                 @ draw_close (PANEL_W - 22) 0 22 22 COLOR_RED) (d\<lparr>g_app_bar := False\<rparr>))
              else d);
            d2 = desk_paint (concat (List.map (\<lambda>i. draw_strip i (dhost d1)) [0..<APP_SLOTS])) d1
        in if g_mode d2 = MODE_3D \<and> \<not> framebuffer then desk_paint (draw_close (PANEL_W - 20) 2 18 18 COLOR_WHITE) d2 else d2)"

definition desktop_frame :: "u32 \<Rightarrow> desk \<Rightarrow> desk" where
  "desktop_frame now d =
     (if \<not> desktop_active d then d
      else let d1 = (if g_msg_sel d \<ge> 0 \<and> now - g_msg_tick d > MSG_TICKS then d\<lparr>g_msg_sel := -1, g_dirty := True\<rparr> else d) in
        if \<not> g_dirty d1 then d1
        else desk_paint (Lock # Fill_rect 0 0 PANEL_W DESK_H COLOR_BLACK # concat (List.map (\<lambda>i. draw_icon i d1) [0..<9])
          @ (if g_msg_sel d1 \<ge> 0
             then [Fill_rect 0 GRID_H PANEL_W STATUS_H COLOR_BLACK,
                   Draw_text 3 (GRID_H + 3) (if g_msg_ok d1 then bytes_of ''started'' else bytes_of ''no slot:'')
                     (if g_msg_ok d1 then COLOR_GREEN else COLOR_RED) COLOR_BLACK 1,
                   Draw_text 54 (GRID_H + 3) (label (ICONS ! nat (g_msg_sel d1))) COLOR_WHITE COLOR_BLACK 1]
             else [])
          @ draw_cursor (g_cx d1) (g_cy d1) @ [Unlock]) (d1\<lparr>g_dirty := False\<rparr>))"

text \<open>The close button of a view with a framebuffer is part of its frame: the writes, as an index and a colour.\<close>

definition overlay_at :: "nat \<Rightarrow> nat \<Rightarrow> (nat \<times> u16) list" where
  "overlay_at w bx =
     (let bw = 18; bh = 18; n = bw - 6 in
      concat (List.map (\<lambda>r. List.map (\<lambda>c. ((2 + r) * w + bx + c, COLOR_BLACK)) [0..<bw]) [0..<bh])
      @ concat (List.map (\<lambda>i. concat (List.map (\<lambda>dy. let l = (2 + 3 + i + dy) * w + bx in
          [(l + (3 + i), COLOR_WHITE), (l + (3 + i + 1), COLOR_WHITE), (l + (3 + (n - 1 - i)), COLOR_WHITE), (l + (3 + (n - 1 - i) + 1), COLOR_WHITE)])
        [0..<2])) [0..<n]))"

definition overlay_writes :: "nat \<Rightarrow> nat \<Rightarrow> (nat \<times> u16) list" where
  "overlay_writes w h = (let bw = 18; bh = 18 in if w < bw + 2 \<or> h < bh + 2 then [] else overlay_at w (w - bw - 2))"

definition desktop_overlay_into :: "u16 list \<Rightarrow> nat \<Rightarrow> nat \<Rightarrow> desk \<Rightarrow> u16 list" where
  "desktop_overlay_into fb w h d = (if desktop_active d then fb else fold (\<lambda>(i, c) fb. fb[i := c]) (overlay_writes w h) fb)"

subsection \<open>Touch\<close>

text \<open>The strips from the top: the first running one whose row the touch is in.\<close>

fun strip_hit :: "u32 \<Rightarrow> host \<Rightarrow> nat list \<Rightarrow> nat option" where
  "strip_hit y h [] = None"
| "strip_hit y h (i # is) =
     (let top = APP_VIEW_Y0 + of_nat i * APP_VIEW_PITCH in
      if y \<ge> top \<and> y < top + APP_VIEW_H \<and> running h i then Some i else strip_hit y h is)"

definition desktop_chrome_touch :: "u32 \<Rightarrow> u32 \<Rightarrow> desk \<Rightarrow> bool \<times> desk" where
  "desktop_chrome_touch x y d =
     (if \<not> desktop_active d \<and> x \<ge> PANEL_W - 22 \<and> y < 22 then
        let d1 = (if g_mode d = MODE_VIDEO then enter Vidlist_close d else d);
            d2 = (on_host (app_view_focus (-1)) (d1\<lparr>g_mode := MODE_LAUNCHER\<rparr>))\<lparr>g_app_bar := False\<rparr>
        in (True, (band_clear (on_host (app_views_suspend False) d2))\<lparr>g_dirty := True\<rparr>)
      else if takes_band d then (False, d)
      else if x < CLOSE_X then (False, d)
      else case strip_hit y (dhost d) [0..<APP_SLOTS] of
          None \<Rightarrow> (False, d)
        | Some i \<Rightarrow> (True, (on_host (app_kill (int i)) d)\<lparr>g_closes := g_closes d + 1, g_dirty := True\<rparr>))"

definition open_selected :: "shell_program_t list \<Rightarrow> u32 \<Rightarrow> desk \<Rightarrow> desk option" where
  "open_selected progs now d0 =
     (let ic = ICONS ! nat (g_sel d0);
          d = d0\<lparr>g_opens := g_opens d0 + 1, g_msg_sel := g_sel d0, g_msg_tick := now\<rparr>
      in case action ic of
          DESK_ACTION_TERM \<Rightarrow> let d1 = open_view MODE_TERM Term_open d in Some (d1\<lparr>g_opens := g_opens d1 + 1\<rparr>)
        | DESK_ACTION_WEB \<Rightarrow> Some (open_view MODE_WEB Browser_open d)
        | DESK_ACTION_VIDEO \<Rightarrow> Some (open_view MODE_VIDEO Vidlist_open d)
        | DESK_ACTION_MUSIC \<Rightarrow> Some (open_view MODE_MUSIC Player_open d)
        | DESK_ACTION_WIFI \<Rightarrow> Some (open_view MODE_WIFI Wifiapp_open d)
        | DESK_ACTION_NOTES \<Rightarrow> Some ((open_view MODE_NOTES Notes_open d)\<lparr>g_msg_ok := True, g_msg_sel := -1\<rparr>)
        | DESK_ACTION_3D \<Rightarrow> Some ((enter Raycast_open d)\<lparr>g_mode := MODE_3D, g_msg_ok := True, g_msg_sel := -1\<rparr>)
        | DESK_ACTION_NONE \<Rightarrow>
            (case shell_launch progs (case prog ic of Some n \<Rightarrow> n | None \<Rightarrow> []) (dhost d) of
               None \<Rightarrow> None
             | Some (sid, h) \<Rightarrow>
                 let d1 = d\<lparr>dhost := h, g_msg_ok := sid \<ge> 0\<rparr>;
                     d2 = (if sid \<ge> 0
                           then desk_paint [Fill_rect 0 0 PANEL_W DESK_H COLOR_BLACK]
                                  ((on_host (app_view_focus sid) d1)\<lparr>g_mode := MODE_APP, g_app_bar := True, g_msg_sel := -1\<rparr>)
                           else d1)
                 in Some (d2\<lparr>g_dirty := True\<rparr>)))"

definition press_sample :: "u32 \<Rightarrow> u32 \<Rightarrow> u32 \<Rightarrow> desk \<Rightarrow> desk" where
  "press_sample now x y d =
     (let d1 = (if g_was_down d then d
                else let first = cell_at x y; u = d\<lparr>g_press_tick := now\<rparr> in
                  if first \<ge> 0
                  then u\<lparr>g_cx := (if x < PANEL_W - 8 then x else PANEL_W - 8), g_cy := (if y < GRID_H - 8 then y else GRID_H - 8),
                         g_sel := first, g_dirty := True\<rparr>
                  else u);
          d2 = d1\<lparr>g_was_down := True\<rparr>;
          d3 = (if g_samples d2 = 0 then d2\<lparr>g_first := (x, y, cell_at x y)\<rparr> else d2)
      in d3\<lparr>g_last := (x, y, cell_at x y), g_samples := g_samples d3 + 1\<rparr>)"

definition desktop_touch :: "shell_program_t list \<Rightarrow> u32 \<Rightarrow> u32 \<Rightarrow> u32 \<Rightarrow> bool \<Rightarrow> desk \<Rightarrow> desk option" where
  "desktop_touch progs now x y down d =
     (if \<not> desktop_active d then
        Some (if down \<and> x < 36 \<and> y < 18
              then (band_clear (on_host (app_views_suspend False) (d\<lparr>g_mode := MODE_LAUNCHER\<rparr>)))\<lparr>g_dirty := True\<rparr>
              else d)
      else if down then Some (press_sample now x y d)
      else if \<not> g_was_down d then Some d
      else let d1 = d\<lparr>g_was_down := False, g_samples := 0\<rparr> in
        if now - g_press_tick d1 < TAP_MIN_TICKS then Some d1
        else let d2 = d1\<lparr>g_taps := g_taps d1 + 1\<rparr> in
          if g_last_tap_sel d2 = g_sel d2 \<and> now - g_last_tap_tick d2 < DOUBLE_TAP_TICKS
          then map_option (\<lambda>e. e\<lparr>g_last_tap_sel := -1, g_last_tap_tick := 0\<rparr>) (open_selected progs now d2)
          else Some (d2\<lparr>g_last_tap_sel := g_sel d2, g_last_tap_tick := now\<rparr>))"

text \<open>A touch sample on its way (kmain.c): the close buttons first, then the view that owns the region; the views of other files leave the
  launcher's state alone.\<close>

definition route_touch :: "shell_program_t list \<Rightarrow> u32 \<Rightarrow> u32 \<Rightarrow> u32 \<Rightarrow> bool \<Rightarrow> desk \<Rightarrow> desk option" where
  "route_touch progs now x y down d =
     (case if down then desktop_chrome_touch x y d else (False, d) of
        (True, d1) \<Rightarrow> Some d1
      | (False, d1) \<Rightarrow> if takes_band d1 then Some d1 else desktop_touch progs now x y down d1)"

subsection \<open>What launching does\<close>

lemma retire_frame [simp]:
  "g_views_suspended (retire i why st) = g_views_suspended st" "length (g_apps (retire i why st)) = length (g_apps st)"
  "g_focused (retire i why st) = (if g_focused st = int i then -1 else g_focused st)"
  by (auto simp: retire_def Let_def upd_kern_def)

lemma app_start_frame:
  "app_start name img len n pub st = Some (r, st') \<Longrightarrow>
     kdev (hk st') = kdev (hk st) \<and> g_focused st' = g_focused st \<and> g_views_suspended st' = g_views_suspended st"
  by (auto simp: app_start_def Let_def upd_kern_def split: option.splits prod.splits if_splits)

lemma uart_put_hex_frame [simp]:
  "kmem (uart_put_hex v k) = kmem k" "kipc (uart_put_hex v k) = kipc k" "kdev (uart_put_hex v k) = kdev k"
proof -
  have "kmem (fold (\<lambda>i k. uart_putc (f i) k) is k) = kmem k \<and> kipc (fold (\<lambda>i k. uart_putc (f i) k) is k) = kipc k
      \<and> kdev (fold (\<lambda>i k. uart_putc (f i) k) is k) = kdev k" for f :: "nat \<Rightarrow> u8" and "is" k
    by (induction "is" arbitrary: k) simp_all
  then show "kmem (uart_put_hex v k) = kmem k" "kipc (uart_put_hex v k) = kipc k" "kdev (uart_put_hex v k) = kdev k"
    by (simp_all add: uart_put_hex_def)
qed

lemma upd_kern_view [simp]:
  "g_focused (upd_kern f st) = g_focused st" "g_views_suspended (upd_kern f st) = g_views_suspended st" "g_apps (upd_kern f st) = g_apps st"
  by (simp_all add: upd_kern_def)

text \<open>What a program may reach after its launch: exactly the devices its manifest names.\<close>

definition granted :: "cstring list \<Rightarrow> nat \<Rightarrow> u32 list \<Rightarrow> u32 list \<Rightarrow> bool" where
  "granted names i g g' \<longleftrightarrow> length g' = length g \<and> (\<forall>j < length g. \<forall>d. bit (g' ! j) d \<longleftrightarrow>
     (if j = i then d < 8 \<and> dname (DEVICES ! d) \<in> set names else bit (g ! j) d))"

lemma grant_manifest:
  assumes "device_perms_from_names (Some ns) = (bits, None)" "i < APP_SLOTS" "length (g_perms k) = 5"
  shows "granted ns i (g_perms k) (g_perms (device_grant (of_nat i) bits k))"
proof -
  have "unat (of_nat i :: u32) = i" using assms(2) by (simp add: unat_of_nat)
  then have "(of_nat i :: u32) \<le> 4" "unat (of_nat i :: u32) = i" using assms(2) by (simp_all add: word_le_nat_alt)
  moreover have "bit bits d \<longleftrightarrow> d < 8 \<and> dname (DEVICES ! d) \<in> set ns" for d
    using perms_loop_spec [of ns 0 0] assms(1) by (auto simp: device_perms_from_names_def)
  ultimately show ?thesis using assms(2,3) by (auto simp: granted_def device_grant_def nth_list_update)
qed

lemma started_kdev:
  assumes "started i name img n pub st st'"
  shows "started i name img n pub st (upd_kern (\<lambda>k. k\<lparr>kdev := f (kdev k)\<rparr>) st')"
proof -
  obtain m dv bx where h: "hk st' = (hk st)\<lparr>kmem := m, kdev := dv, kipc := (kipc (hk st))\<lparr>g_box := bx\<rparr>\<rparr>"
    using assms unfolding started_def only_slot_def by blast
  show ?thesis using assms by (simp add: started_def only_slot_def upd_kern_def h)
qed

lemma launch_entry_outcome:
  assumes "host_ok st" "length (p_img p) < 2 ^ 32" "length (g_perms (kdev (hk st))) = 5"
  shows "\<exists>id st'. launch_entry p st = Some (id, st') \<and> host_ok st' \<and> length (g_perms (kdev (hk st'))) = 5
    \<and> g_focused st' = g_focused st \<and> g_views_suspended st' = g_views_suspended st
    \<and> (if id < 0 then g_apps st' = g_apps st \<and> kmem (hk st') = kmem (hk st) \<and> kdev (hk st') = kdev (hk st)
       else app_image_id (p_img p) (List.map Some (p_perm_names p)) = p_image_id p
         \<and> set (p_perm_names p) \<subseteq> dname ` set DEVICES
         \<and> started (nat id) (Some (p_name p)) (p_img p) (p_arena_bytes p) (p_publish_off p) st st'
         \<and> granted (p_perm_names p) (nat id) (g_perms (kdev (hk st))) (g_perms (kdev (hk st'))))"
proof -
  consider (drift) "app_image_id (p_img p) (List.map Some (p_perm_names p)) \<noteq> p_image_id p"
    | (unknown) u b where "app_image_id (p_img p) (List.map Some (p_perm_names p)) = p_image_id p"
        "device_perms_from_names (Some (p_perm_names p)) = (b, Some u)"
    | (go) b where "app_image_id (p_img p) (List.map Some (p_perm_names p)) = p_image_id p"
        "device_perms_from_names (Some (p_perm_names p)) = (b, None)"
    by (metis option.exhaust surj_pair)
  then show ?thesis
  proof cases
    case drift
    then show ?thesis using assms by (simp add: launch_entry_def upd_kern_ok)
  next
    case unknown
    then show ?thesis using assms by (simp add: launch_entry_def upd_kern_ok)
  next
    case go
    have l: "length (p_img p) = unat (of_nat (length (p_img p)) :: u32)" using assms(2) by (simp add: unat_of_nat)
    obtain r st1 where s: "app_start (Some (p_name p)) (p_img p) (of_nat (length (p_img p))) (p_arena_bytes p) (p_publish_off p) st = Some (r, st1)"
      and ok: "host_ok st1" and out: "if r < 0 then g_apps st1 = g_apps st \<and> hk st1 = hk st
        else started (nat r) (Some (p_name p)) (p_img p) (p_arena_bytes p) (p_publish_off p) st st1"
      using app_start_outcome [OF assms(1) l, of "Some (p_name p)" "p_arena_bytes p" "p_publish_off p"] by metis
    note F = app_start_frame [OF s]
    show ?thesis
    proof (cases "r < 0")
      case True
      then show ?thesis using go s ok out F assms(3) by (simp add: launch_entry_def)
    next
      case False
      let ?g = "\<lambda>k. k\<lparr>kdev := device_grant (of_int r) b (kdev k)\<rparr>"
      have e: "launch_entry p st = Some (r, upd_kern ?g st1)" using go s False by (simp add: launch_entry_def)
      have st: "started (nat r) (Some (p_name p)) (p_img p) (p_arena_bytes p) (p_publish_off p) st st1" using out False by simp
      then have n: "nat r < APP_SLOTS" by (simp add: started_def)
      have "set (p_perm_names p) \<subseteq> dname ` set DEVICES"
        using perms_loop_spec [of "p_perm_names p" 0 0] go(2) by (auto simp: device_perms_from_names_def)
      moreover have "started (nat r) (Some (p_name p)) (p_img p) (p_arena_bytes p) (p_publish_off p) st (upd_kern ?g st1)"
        by (rule started_kdev [OF st])
      moreover have "granted (p_perm_names p) (nat r) (g_perms (kdev (hk st))) (g_perms (device_grant (of_int r) b (kdev (hk st))))"
        using grant_manifest [OF go(2) n, of "kdev (hk st)"] assms(3) False by simp
      moreover have "host_ok (upd_kern ?g st1)" by (intro upd_kern_ok ok) simp
      moreover have "kdev (hk (upd_kern ?g st1)) = device_grant (of_int r) b (kdev (hk st))" using F by (simp add: upd_kern_def)
      moreover have "length (g_perms (device_grant (of_int r) b (kdev (hk st)))) = 5" using assms(3) by (simp add: device_grant_def)
      ultimately show ?thesis unfolding e using False F go(1) by simp
    qed
  qed
qed

subsection \<open>The launcher as a state machine\<close>

text \<open>The strips are suspended while a view has the band. The converse fails after \<^verbatim>\<open>desktop_set_active\<close>.\<close>

definition desk_ok :: "desk \<Rightarrow> bool" where
  "desk_ok d \<longleftrightarrow> host_ok (dhost d) \<and> length (g_perms (kdev (hk (dhost d)))) = 5 \<and> 0 \<le> g_sel d \<and> g_sel d < 9
     \<and> (takes_band d \<longrightarrow> g_views_suspended (dhost d))"

definition progs_ok :: "shell_program_t list \<Rightarrow> bool" where
  "progs_ok progs \<longleftrightarrow> (\<forall>p \<in> set progs. length (p_img p) < 2 ^ 32)"

definition desk_boot :: "desk \<Rightarrow> bool" where
  "desk_boot d \<longleftrightarrow> host_boot (dhost d) \<and> length (g_perms (kdev (hk (dhost d)))) = 5 \<and> g_mode d = MODE_LAUNCHER \<and> g_sel d = 0"

text \<open>Everything that reaches the launcher: touch samples in any mode, frames and chrome, the calls of the shell (a view opened at any time, the 3D
  view on or off, a launch, a stop), a repaint asked for, a tick of the host, and what the rest of the kernel does to the host
  (\<open>host_step\<close>), which neither suspends the strips nor moves the focus nor resizes the permission bank.\<close>

inductive desk_step :: "shell_program_t list \<Rightarrow> desk \<Rightarrow> desk \<Rightarrow> bool" for progs :: "shell_program_t list" where
  desk_touch: "route_touch progs now x y down d = Some d' \<Longrightarrow> desk_step progs d d'"
| desk_frame: "desk_step progs d (desktop_frame now d)"
| desk_chrome: "desk_step progs d (desktop_chrome fb d)"
| desk_tick: "desk_step progs d (on_host (app_tick h q) d)"
| desk_kill: "desk_step progs d (on_host (app_kill i) d)"
| desk_run: "shell_launch progs n (dhost d) = Some (r, h) \<Longrightarrow> desk_step progs d (d\<lparr>dhost := h\<rparr>)"
| desk_open_wifi: "desk_step progs d (desktop_open_wifi d)"
| desk_open_web: "desk_step progs d (desktop_open_web d)"
| desk_open_video: "desk_step progs d (desktop_open_video d)"
| desk_open_music: "desk_step progs d (desktop_open_music d)"
| desk_set_active: "desk_step progs d (desktop_set_active on d)"
| desk_invalidate: "desk_step progs d (desktop_invalidate d)"
| desk_init: "desk_step progs d (desktop_init d)"
| desk_host: "host_step (dhost d) h \<Longrightarrow> g_focused h = g_focused (dhost d) \<Longrightarrow> g_views_suspended h = g_views_suspended (dhost d) \<Longrightarrow>
    length (g_perms (kdev (hk h))) = 5 \<Longrightarrow> desk_step progs d (d\<lparr>dhost := h\<rparr>)"

lemma desk_simps [simp]:
  "dhost (desk_paint cs d) = dhost d" "g_mode (desk_paint cs d) = g_mode d" "g_sel (desk_paint cs d) = g_sel d"
  "dhost (enter c d) = dhost d" "g_mode (enter c d) = g_mode d" "g_sel (enter c d) = g_sel d"
  "dhost (on_host f d) = f (dhost d)" "g_mode (on_host f d) = g_mode d" "g_sel (on_host f d) = g_sel d"
  "dhost (band_clear d) = dhost d" "g_mode (band_clear d) = g_mode d" "g_sel (band_clear d) = g_sel d"
  "g_opens (desk_paint cs d) = g_opens d" "g_opens (enter c d) = g_opens d" "g_opens (on_host f d) = g_opens d"
  "dhost (open_view m c d) = app_views_suspend True (dhost d)" "g_mode (open_view m c d) = m" "g_sel (open_view m c d) = g_sel d"
  by (simp_all add: desk_paint_def enter_def on_host_def band_clear_def open_view_def)

lemma suspend_frame [simp]:
  "hk (app_views_suspend on st) = hk st" "g_focused (app_views_suspend on st) = g_focused st" "g_views_suspended (app_views_suspend on st) = on"
  by (simp_all add: app_views_suspend_def upt_rec numeral_eq_Suc)

lemma focus_frame [simp]:
  "hk (app_view_focus i st) = hk st" "g_views_suspended (app_view_focus i st) = g_views_suspended st"
  by (simp_all add: app_view_focus_def Let_def)

lemma focus_none [simp]: "g_focused (app_view_focus (-1) st) = -1"
  by (simp add: app_view_focus_def Let_def)

lemma kill_frame:
  "g_views_suspended (app_kill i st) = g_views_suspended st" "g_focused (app_kill i st) = g_focused st \<or> g_focused (app_kill i st) = -1"
  by (auto simp: app_kill_def)

text \<open>A mode that does not take the band or the focus is well formed with both given back.\<close>

lemma desk_okI:
  "host_ok (dhost d) \<Longrightarrow> length (g_perms (kdev (hk (dhost d)))) = 5 \<Longrightarrow> 0 \<le> g_sel d \<Longrightarrow> g_sel d < 9 \<Longrightarrow>
   (takes_band d \<Longrightarrow> g_views_suspended (dhost d)) \<Longrightarrow> desk_ok d"
  by (simp add: desk_ok_def)

lemma desk_ok_cong:
  "desk_ok d \<Longrightarrow> dhost d' = dhost d \<Longrightarrow> g_mode d' = g_mode d \<Longrightarrow> 0 \<le> g_sel d' \<Longrightarrow> g_sel d' < 9 \<Longrightarrow> desk_ok d'"
  by (simp add: desk_ok_def takes_band_def)

lemma device_grant_length [simp]: "length (g_perms (device_grant i b k)) = length (g_perms k)"
  by (simp add: device_grant_def)

lemma retire_perms: "length (g_perms (kdev (hk (retire i why st)))) = length (g_perms (kdev (hk st)))"
  by (simp add: retire_def Let_def)

lemma kill_perms: "length (g_perms (kdev (hk (app_kill i st)))) = length (g_perms (kdev (hk st)))"
  by (simp add: app_kill_def retire_perms)

lemma desk_ok_kill:
  assumes "desk_ok d"
  shows "desk_ok (on_host (app_kill i) d)"
  using assms by (auto simp: desk_ok_def takes_band_def app_kill_ok kill_perms kill_frame(1))

lemma cell_at_range: "cell_at x y \<ge> 0 \<Longrightarrow> cell_at x y < 9"
proof (cases "y \<ge> GRID_H \<or> x \<ge> PANEL_W")
  case False
  then have "unat x < 240" "unat y < 210" by (simp_all add: word_le_nat_alt not_le word_less_nat_alt)
  then have b: "unat (x div CELL_W) < 3" "unat (y div CELL_H) < 3" by (simp_all add: unat_div)
  then have "unat (y div CELL_H * 3 + x div CELL_W) = unat (y div CELL_H) * 3 + unat (x div CELL_W)"
    by (simp add: unat_word_ariths)
  with b have "unat (y div CELL_H * 3 + x div CELL_W) < 9" by linarith
  moreover have "cell_at x y = int (unat (y div CELL_H * 3 + x div CELL_W)) \<or> cell_at x y = -1" by (simp add: cell_at_def Let_def)
  ultimately show ?thesis by linarith
qed (simp add: cell_at_def)

lemma press_sample_frame:
  "dhost (press_sample now x y d) = dhost d" "g_mode (press_sample now x y d) = g_mode d" "g_opens (press_sample now x y d) = g_opens d"
  "g_taps (press_sample now x y d) = g_taps d" "g_was_down (press_sample now x y d)"
  "g_press_tick (press_sample now x y d) = (if g_was_down d then g_press_tick d else now)"
  "g_last_tap_sel (press_sample now x y d) = g_last_tap_sel d" "g_last_tap_tick (press_sample now x y d) = g_last_tap_tick d"
  "g_sel (press_sample now x y d) = (if \<not> g_was_down d \<and> cell_at x y \<ge> 0 then cell_at x y else g_sel d)"
  by (simp_all add: press_sample_def Let_def)

lemma focus_range:
  "g_focused (app_view_focus i st) = i \<or> g_focused (app_view_focus i st) = -1"
  by (simp add: app_view_focus_def Let_def)

lemma open_view_ok:
  assumes "desk_ok d"
  shows "desk_ok (open_view m c d)"
  using assms by (simp add: desk_ok_def app_views_suspend_ok)

lemma launch_ok:
  assumes "progs_ok progs" "host_ok st" "length (g_perms (kdev (hk st))) = 5"
  shows "\<exists>r h. shell_launch progs n st = Some (r, h) \<and> host_ok h \<and> length (g_perms (kdev (hk h))) = 5 \<and> g_focused h = g_focused st
    \<and> g_views_suspended h = g_views_suspended st"
  using assms(1)
proof (induction progs)
  case (Cons p ps)
  show ?case
  proof (cases "p_name p = n")
    case True
    have "length (p_img p) < 2 ^ 32" using Cons.prems by (simp add: progs_ok_def)
    from launch_entry_outcome [OF assms(2) this assms(3)] True show ?thesis by auto
  next
    case False
    with Cons show ?thesis by (simp add: progs_ok_def)
  qed
qed (simp add: assms)

lemma open_selected_ok:
  assumes "progs_ok progs" "desk_ok d" "desktop_active d" "open_selected progs now d = Some d'"
  shows "desk_ok d'"
proof -
  define d1 where "d1 = d\<lparr>g_opens := g_opens d + 1, g_msg_sel := g_sel d, g_msg_tick := now\<rparr>"
  have ok: "desk_ok d1" and m: "g_mode d1 = MODE_LAUNCHER"
    using assms(2,3) by (auto simp: d1_def desk_ok_def takes_band_def)
  note O = open_view_ok [OF ok]
  have C: "desk_ok e \<Longrightarrow> desk_ok (e\<lparr>g_opens := n\<rparr>)" "desk_ok e \<Longrightarrow> desk_ok (e\<lparr>g_msg_ok := b, g_msg_sel := k\<rparr>)" for e n b k
    by (auto simp: desk_ok_def takes_band_def)
  have three: "desk_ok ((enter c d1)\<lparr>g_mode := MODE_3D, g_msg_ok := b, g_msg_sel := k\<rparr>)" for c b k
    using ok by (simp add: desk_ok_def takes_band_def)
  obtain n where n: "n = (case prog (ICONS ! nat (g_sel d)) of Some n \<Rightarrow> n | None \<Rightarrow> [])" by simp
  show ?thesis
  proof (cases "action (ICONS ! nat (g_sel d)) = DESK_ACTION_NONE")
    case False
    then show ?thesis using assms(4) O C three
      by (cases "action (ICONS ! nat (g_sel d))") (auto simp: open_selected_def Let_def simp flip: d1_def)
  next
    case True
    obtain r h where l: "shell_launch progs n (dhost d) = Some (r, h)" and h: "host_ok h" "length (g_perms (kdev (hk h))) = 5"
        "g_focused h = g_focused (dhost d)" "g_views_suspended h = g_views_suspended (dhost d)"
      using launch_ok [OF assms(1), of "dhost d" n] assms(2) by (auto simp: desk_ok_def)
    have e: "dhost d' = (if r \<ge> 0 then app_view_focus r h else h)" "g_mode d' = (if r \<ge> 0 then MODE_APP else MODE_LAUNCHER)"
        "g_sel d' = g_sel d"
      using assms(4) True l m by (auto simp: open_selected_def Let_def n d1_def)
    have "0 \<le> g_sel d \<and> g_sel d < 9" using assms(2) by (simp add: desk_ok_def)
    then show ?thesis using h by (intro desk_okI) (auto simp: e takes_band_def app_view_focus_ok split: if_splits)
  qed
qed

lemma desktop_touch_ok:
  assumes "progs_ok progs" "desk_ok d" "desktop_active d" "desktop_touch progs now x y down d = Some d'"
  shows "desk_ok d'"
proof (cases down)
  case True
  have "0 \<le> g_sel (press_sample now x y d) \<and> g_sel (press_sample now x y d) < 9"
    using assms(2) cell_at_range [of x y] by (simp add: press_sample_frame desk_ok_def)
  moreover have "d' = press_sample now x y d" using True assms(3,4) by (simp add: desktop_touch_def)
  ultimately show ?thesis using desk_ok_cong [OF assms(2)] by (simp add: press_sample_frame)
next
  case False
  define d2 where "d2 = d\<lparr>g_was_down := False, g_samples := 0, g_taps := g_taps d + 1\<rparr>"
  have c: "desk_ok (d\<lparr>g_was_down := b, g_samples := n\<rparr>)" "desk_ok (d2\<lparr>g_last_tap_sel := k, g_last_tap_tick := t\<rparr>)" for b n k t
    using assms(2) by (auto simp: d2_def desk_ok_def takes_band_def)
  have d2: "desk_ok d2" "desktop_active d2" using assms(2,3) by (auto simp: d2_def desk_ok_def takes_band_def)
  have o: "desk_ok (e\<lparr>g_last_tap_sel := k, g_last_tap_tick := t\<rparr>)" if "open_selected progs now d2 = Some e" for e k t
    using open_selected_ok [OF assms(1) d2 that] by (simp add: desk_ok_def takes_band_def)
  show ?thesis using assms(4) False assms(2,3) c o
    by (auto simp: desktop_touch_def Let_def simp flip: d2_def split: if_splits)
qed

text \<open>Back to the launcher: the focus and the band are given back.\<close>

lemma close_view_ok:
  assumes "desk_ok d" "dhost e = dhost d" "g_sel e = g_sel d"
  shows "desk_ok ((band_clear (on_host (app_views_suspend False) ((on_host (app_view_focus (-1)) (e\<lparr>g_mode := MODE_LAUNCHER\<rparr>))\<lparr>g_app_bar := b\<rparr>)))\<lparr>g_dirty := c\<rparr>)"
  using assms by (auto simp: desk_ok_def takes_band_def app_views_suspend_ok app_view_focus_ok)

lemma chrome_touch_ok:
  assumes "desk_ok d"
  shows "desk_ok (snd (desktop_chrome_touch x y d))"
proof -
  have "desk_ok ((on_host (app_kill i) d)\<lparr>g_closes := n, g_dirty := b\<rparr>)" for i n b
    using desk_ok_kill [OF assms, of i] by (simp add: desk_ok_def takes_band_def)
  then show ?thesis using assms
    by (auto simp: desktop_chrome_touch_def Let_def intro!: close_view_ok [OF assms] split: option.split)
qed

lemma chrome_touch_mode:
  "desktop_chrome_touch x y d = (False, d') \<Longrightarrow> d' = d"
  by (auto simp: desktop_chrome_touch_def Let_def split: if_splits option.splits)

lemma route_touch_ok:
  assumes "progs_ok progs" "desk_ok d" "route_touch progs now x y down d = Some d'"
  shows "desk_ok d'"
proof (cases "if down then desktop_chrome_touch x y d else (False, d)")
  case (Pair used d1)
  show ?thesis
  proof (cases used)
    case True
    then have "d1 = snd (desktop_chrome_touch x y d)" "d' = d1" using Pair assms(3) by (auto simp: route_touch_def split: if_splits)
    then show ?thesis using chrome_touch_ok [OF assms(2)] by simp
  next
    case False
    then have e: "d1 = d" using Pair chrome_touch_mode by (auto split: if_splits)
    then have t: "d' = d \<or> \<not> takes_band d \<and> desktop_touch progs now x y down d = Some d'"
      using Pair False assms(3) by (auto simp: route_touch_def split: if_splits)
    show ?thesis
    proof (cases "desktop_active d")
      case True
      then show ?thesis using t assms(1,2) desktop_touch_ok by blast
    next
      case inactive: False
      have "desk_ok ((band_clear (on_host (app_views_suspend False) (d\<lparr>g_mode := MODE_LAUNCHER\<rparr>)))\<lparr>g_dirty := True\<rparr>)"
        using assms(2) by (auto simp: desk_ok_def takes_band_def app_views_suspend_ok)
      then show ?thesis using t inactive assms(2) by (auto simp: desktop_touch_def split: if_splits)
    qed
  qed
qed

lemma desktop_frame_ok: "desk_ok d \<Longrightarrow> desk_ok (desktop_frame now d)"
  by (auto simp: desktop_frame_def Let_def desk_ok_def takes_band_def)

lemma desktop_chrome_ok: "desk_ok d \<Longrightarrow> desk_ok (desktop_chrome fb d)"
  by (auto simp: desktop_chrome_def Let_def desk_ok_def takes_band_def app_views_suspend_ok)

text \<open>A tick of the host only ever drops the focus and keeps the rest of what the launcher relies on.\<close>

definition yields :: "host \<Rightarrow> host \<Rightarrow> bool" where
  "yields st st' \<longleftrightarrow> g_views_suspended st' = g_views_suspended st \<and> (g_focused st' = g_focused st \<or> g_focused st' = -1)
     \<and> length (g_perms (kdev (hk st'))) = length (g_perms (kdev (hk st)))"

lemma app_slice_yields: "length (g_perms (kdev (hk st))) = 5 \<Longrightarrow> yields st (app_slice h q i st)"
proof (cases "running st i")
  case True
  from True show ?thesis
  proof (rule app_slice_cases [where h = h and q = q])
    fix vm k
    assume c: "confined (avm (g_apps st ! i)) (kern_view st) (vm, k)"
      and r: "app_slice h q i st = (upd_app i (\<lambda>a. a\<lparr>avm := vm\<rparr>) st)\<lparr>hk := k\<rparr> \<or>
       (\<exists>f why. why \<noteq> APP_RUNNING \<and> (\<forall>k. kmem (f k) = kmem k \<and> kipc (f k) = kipc k \<and> kdev (f k) = kdev k \<and> panel (f k) = panel k)
          \<and> app_slice h q i st = retire i why (upd_kern f ((upd_app i (\<lambda>a. a\<lparr>avm := vm\<rparr>) st)\<lparr>hk := k\<rparr>)))"
    have g: "g_perms (kdev k) = g_perms (kdev (hk st))" using c by (simp add: confined_simp kern_view_def kconf_def)
    from r show ?thesis
    proof (elim disjE exE conjE)
      fix f why assume "\<forall>k. kmem (f k) = kmem k \<and> kipc (f k) = kipc k \<and> kdev (f k) = kdev k \<and> panel (f k) = panel k"
        and e: "app_slice h q i st = retire i why (upd_kern f ((upd_app i (\<lambda>a. a\<lparr>avm := vm\<rparr>) st)\<lparr>hk := k\<rparr>))"
      then show ?thesis using g unfolding e by (simp add: yields_def retire_perms)
    qed (simp add: yields_def g)
  qed
qed (simp add: app_slice_def yields_def)

lemma app_tick_yields:
  assumes "length (g_perms (kdev (hk st))) = 5"
  shows "yields st (app_tick h q st)"
proof -
  have "yields st (fold (app_slice h q) is st)" for "is"
    using assms
  proof (induction "is" arbitrary: st)
    case (Cons i js)
    from app_slice_yields [OF Cons.prems, of h q i] Cons.IH [of "app_slice h q i st"] Cons.prems show ?case by (auto simp: yields_def)
  qed (simp add: yields_def)
  then show ?thesis by (simp add: app_tick_def)
qed

lemma desk_step_ok: "desk_step progs d d' \<Longrightarrow> progs_ok progs \<Longrightarrow> desk_ok d \<Longrightarrow> desk_ok d'"
proof (induction rule: desk_step.induct)
  case (desk_touch now x y down d d')
  then show ?case using route_touch_ok by blast
next
  case (desk_tick d h q)
  then have "yields (dhost d) (app_tick h q (dhost d))" by (intro app_tick_yields) (simp add: desk_ok_def)
  with desk_tick show ?case by (auto simp: desk_ok_def takes_band_def app_tick_ok yields_def)
next
  case (desk_run n d r h)
  then show ?case using launch_ok [of progs "dhost d" n] by (auto simp: desk_ok_def takes_band_def)
next
  case (desk_host d h)
  then show ?case using host_step_ok [of "dhost d" h] by (auto simp: desk_ok_def takes_band_def)
next
  case (desk_set_active d on)
  then show ?case by (simp add: desktop_set_active_def desk_ok_def takes_band_def Let_def)
next
  case (desk_invalidate d)
  then show ?case by (simp add: desktop_invalidate_def desk_ok_def takes_band_def)
next
  case (desk_init d)
  then show ?case by (simp add: desktop_init_def desk_ok_def takes_band_def)
qed (simp_all add: desktop_frame_ok desktop_chrome_ok desk_ok_kill open_view_ok desktop_open_wifi_def desktop_open_web_def desktop_open_video_def
      desktop_open_music_def)

lemma desk_boot_ok: "desk_boot d \<Longrightarrow> desk_ok d"
  using host_sys.start_inv [of "dhost d"] by (auto simp: desk_boot_def desk_ok_def takes_band_def host_boot_def)

text \<open>The machine with the programs the shell registers; an image of 4 GB or more does not fit the board.\<close>

interpretation desk_sys: invariant_system desk_boot "\<lambda>d d'. progs_ok progs \<and> desk_step progs d d'" desk_ok
  for progs
  by unfold_locales (auto intro: desk_boot_ok desk_step_ok)

subsection \<open>Properties\<close>

text \<open>
  Launching grants the manifest (C37): \<^verbatim>\<open>launch_entry\<close> returns; a program is started only when the identity of its image and manifest is the one
  it was built with and the board knows every device named; then its slot may use exactly those devices and the grants of
  the others are as before. A refusal changes no slot, no byte and no grant.
\<close>

theorem launch_grants:
  assumes "host_ok st" "length (p_img p) < 2 ^ 32" "length (g_perms (kdev (hk st))) = 5"
  shows "\<exists>id st'. launch_entry p st = Some (id, st') \<and> host_ok st'
    \<and> (if id < 0 then g_apps st' = g_apps st \<and> kmem (hk st') = kmem (hk st) \<and> kdev (hk st') = kdev (hk st)
       else app_image_id (p_img p) (List.map Some (p_perm_names p)) = p_image_id p
         \<and> set (p_perm_names p) \<subseteq> dname ` set DEVICES
         \<and> started (nat id) (Some (p_name p)) (p_img p) (p_arena_bytes p) (p_publish_off p) st st'
         \<and> granted (p_perm_names p) (nat id) (g_perms (kdev (hk st))) (g_perms (kdev (hk st'))))"
  using launch_entry_outcome [OF assms] by blast

text \<open>
  Who owns the screen (C38): in every state the launcher reaches, whatever is touched, opened, launched or stopped in whatever mode, a
  program draws above the strips only with the focus and below row 22, and in a strip only without the focus, while no view has the band, inside
  its own strip and left of the name and the button. \<open>desk_focus_left\<close> below says when the focus outlives the application view.
\<close>

theorem desk_region_owner:
  assumes "reaches desk_boot (\<lambda>d d'. progs_ok progs \<and> desk_step progs d d') d" "i < APP_SLOTS" "running (dhost d) i"
    and "pixel_in (avm (g_apps (dhost d) ! i)) x y"
  shows "if y < 224 then g_focused (dhost d) = int i \<and> 22 \<le> y
    else g_focused (dhost d) \<noteq> int i \<and> \<not> takes_band d \<and> x < 180 \<and> 224 + 16 * i \<le> y \<and> y < 238 + 16 * i"
proof -
  have ok: "desk_ok d" using assms(1) by (rule desk_sys.reaches_inv)
  then have h: "host_ok (dhost d)" by (simp add: desk_ok_def)
  note P = view_pixel [OF h assms(2-4)]
  have v: "viewport (avm (g_apps (dhost d) ! i)) = view_of (dhost d) i" using h assms(2,3) by (simp add: host_ok_def view_right_def)
  show ?thesis
  proof (cases "g_focused (dhost d) = int i")
    case True
    with P show ?thesis by auto
  next
    case False
    have "\<not> g_views_suspended (dhost d)"
    proof
      assume "g_views_suspended (dhost d)"
      with v False have "vw (avm (g_apps (dhost d) ! i)) = 0" by (simp add: view_of_def viewport_def)
      with assms(4) show False by (auto simp: pixel_in_def)
    qed
    with P False ok show ?thesis by (auto simp: desk_ok_def split: if_splits)
  qed
qed

text \<open>The focus belongs to the application view. It is left behind by exactly three things, all while a program has the screen: the press in the top
  left corner, a view opened from the shell, and the 3D view switched from the shell.\<close>

definition focus_ok :: "desk \<Rightarrow> bool" where
  "focus_ok d \<longleftrightarrow> (g_focused (dhost d) \<ge> 0 \<longrightarrow> g_mode d = MODE_APP)"

lemma desktop_frame_same: "dhost (desktop_frame now d) = dhost d" "g_mode (desktop_frame now d) = g_mode d"
  by (simp_all add: desktop_frame_def Let_def)

lemma focus_of_frame: "focus_ok d \<Longrightarrow> focus_ok (desktop_frame now d)"
  by (simp add: focus_ok_def desktop_frame_same)

lemma focus_chrome: "focus_ok d \<Longrightarrow> focus_ok (desktop_chrome fb d)"
  by (auto simp: desktop_chrome_def focus_ok_def Let_def)

lemma focus_kill: "focus_ok d \<Longrightarrow> g_mode d' = g_mode d \<Longrightarrow> dhost d' = app_kill i (dhost d) \<Longrightarrow> focus_ok d'"
  using kill_frame(2) [of i "dhost d"] by (elim disjE) (simp_all add: focus_ok_def)

lemma focus_chrome_touch: "focus_ok d \<Longrightarrow> focus_ok (snd (desktop_chrome_touch x y d))"
proof -
  assume f: "focus_ok d"
  have "focus_ok ((on_host (app_kill i) d)\<lparr>g_closes := n, g_dirty := b\<rparr>)" for i n b by (rule focus_kill [OF f]) simp_all
  then show ?thesis using f by (simp add: desktop_chrome_touch_def Let_def split: option.split) (simp add: focus_ok_def)
qed

lemma focus_launcher:
  assumes "progs_ok progs" "desk_ok d" "focus_ok d" "desktop_active d" "open_selected progs now d = Some d'"
  shows "focus_ok d'"
proof (cases "action (ICONS ! nat (g_sel d)) = DESK_ACTION_NONE")
  case True
  obtain n where n: "n = (case prog (ICONS ! nat (g_sel d)) of Some n \<Rightarrow> n | None \<Rightarrow> [])" by simp
  have "g_focused (dhost d) < 0" using assms(3,4) by (auto simp: focus_ok_def)
  moreover obtain r h where "shell_launch progs n (dhost d) = Some (r, h)" "g_focused h = g_focused (dhost d)"
    using launch_ok [OF assms(1), of "dhost d" n] assms(2) by (auto simp: desk_ok_def)
  ultimately show ?thesis using assms(5) True by (auto simp: open_selected_def Let_def focus_ok_def simp flip: n)
next
  case False
  then show ?thesis using assms(3-5)
    by (cases "action (ICONS ! nat (g_sel d))") (auto simp: open_selected_def Let_def focus_ok_def)
qed

lemma focus_touch:
  assumes "progs_ok progs" "desk_ok d" "focus_ok d" "route_touch progs now x y down d = Some d'" "\<not> (g_mode d = MODE_APP \<and> down \<and> x < 36 \<and> y < 18)"
  shows "focus_ok d'"
proof (cases "if down then desktop_chrome_touch x y d else (False, d)")
  case (Pair used d1)
  show ?thesis
  proof (cases used)
    case True
    then have "d1 = snd (desktop_chrome_touch x y d)" "d' = d1" using Pair assms(4) by (auto simp: route_touch_def split: if_splits)
    then show ?thesis using focus_chrome_touch [OF assms(3)] by simp
  next
    case False
    then have "d1 = d" using Pair chrome_touch_mode by (auto split: if_splits)
    then have t: "d' = d \<or> desktop_touch progs now x y down d = Some d'" using Pair False assms(4) by (auto simp: route_touch_def split: if_splits)
    define d2 where "d2 = d\<lparr>g_was_down := False, g_samples := 0, g_taps := g_taps d + 1\<rparr>"
    have "desk_ok d2" "focus_ok d2" "g_mode d2 = g_mode d" using assms(2,3) by (auto simp: d2_def desk_ok_def takes_band_def focus_ok_def)
    then have "focus_ok e" if "open_selected progs now d2 = Some e" "desktop_active d" for e
      using focus_launcher [OF assms(1), of d2 now e] that by simp
    then show ?thesis using t assms(3,5)
      by (auto simp: desktop_touch_def focus_ok_def Let_def press_sample_frame simp flip: d2_def split: if_splits) (auto simp: d2_def)
  qed
qed

lemma desk_focus_left:
  assumes "desk_step progs d d'" "progs_ok progs" "desk_ok d" "focus_ok d" "\<not> focus_ok d'"
  shows "g_mode d = MODE_APP \<and> ((\<exists>now x y. x < 36 \<and> y < 18 \<and> route_touch progs now x y True d = Some d')
    \<or> d' \<in> {desktop_open_wifi d, desktop_open_web d, desktop_open_video d, desktop_open_music d} \<or> (\<exists>on. d' = desktop_set_active on d))"
  using assms
proof (induction rule: desk_step.induct)
  case (desk_touch now x y down d d')
  then show ?case using focus_touch [of progs d now x y down d'] by (cases down) auto
next
  case (desk_tick d h q)
  then have "yields (dhost d) (app_tick h q (dhost d))" by (intro app_tick_yields) (simp add: desk_ok_def)
  with desk_tick show ?case by (auto simp: focus_ok_def yields_def)
next
  case (desk_run n d r h)
  then show ?case using launch_ok [of progs "dhost d" n] by (auto simp: desk_ok_def focus_ok_def)
next
  case (desk_kill d i)
  then show ?case using focus_kill [of d "on_host (app_kill i) d" i] by simp
next
  case (desk_set_active d on)
  then show ?case by (auto simp: focus_ok_def desktop_set_active_def Let_def)
next
  case (desk_frame d now)
  then show ?case using focus_of_frame by blast
next
  case (desk_chrome d fb)
  then show ?case using focus_chrome by blast
qed (simp_all add: focus_ok_def desktop_open_wifi_def desktop_open_web_def desktop_open_video_def desktop_open_music_def
    desktop_invalidate_def desktop_init_def)

text \<open>
  The corner leaves the focus behind (C39): a press in the top left corner while a program has the screen shows the launcher, but the program
  keeps the focus and with it the whole region below row 22, over the launcher and over any view opened after it.
\<close>

theorem desk_corner_keeps_focus:
  assumes "host_ok (dhost d)" "g_mode d = MODE_APP" "i < APP_SLOTS" "g_focused (dhost d) = int i" "x < 36" "y < 18"
  shows "\<exists>d'. route_touch progs now x y True d = Some d' \<and> desktop_active d' \<and> running (dhost d') i
    \<and> viewport (avm (g_apps (dhost d') ! i)) = (0, 22, 240, 202)
    \<and> viewport (avm (g_apps (dhost (open_view m c d')) ! i)) = (0, 22, 240, 202)"
proof -
  let ?h = "app_views_suspend False (dhost d)"
  define d' where "d' = (band_clear (on_host (app_views_suspend False) (d\<lparr>g_mode := MODE_LAUNCHER\<rparr>)))\<lparr>g_dirty := True\<rparr>"
  have x: "\<not> x \<ge> PANEL_W - 22" "x < CLOSE_X" using assms(5) by (auto simp: word_le_nat_alt word_less_nat_alt)
  have "desktop_chrome_touch x y d = (False, d)" using assms(2) x by (simp add: desktop_chrome_touch_def takes_band_def)
  then have r: "route_touch progs now x y True d = Some d'"
    using assms(2,5,6) by (simp add: route_touch_def takes_band_def desktop_touch_def d'_def)
  have h: "host_ok ?h" "host_ok (app_views_suspend True ?h)" using assms(1) by (simp_all add: app_views_suspend_ok)
  have run: "running st i" "viewport (avm (g_apps st ! i)) = (0, 22, 240, 202)" if "host_ok st" "g_focused st = int i" for st
  proof -
    show r: "running st i" using that by (auto simp: host_ok_def host_core_def)
    have "view_right st i" using that(1) assms(3) by (simp add: host_ok_def)
    then show "viewport (avm (g_apps st ! i)) = (0, 22, 240, 202)" using r that(2) by (simp add: view_right_def view_of_def)
  qed
  have "dhost d' = ?h" "dhost (open_view m c d') = app_views_suspend True ?h" "g_mode d' = MODE_LAUNCHER" by (simp_all add: d'_def)
  then show ?thesis using r run [OF h(1)] run [OF h(2)] assms(4) by simp
qed

text \<open>One tap: a press and its release.\<close>

definition desk_tap :: "shell_program_t list \<Rightarrow> u32 \<Rightarrow> u32 \<Rightarrow> u32 \<times> u32 \<Rightarrow> desk \<Rightarrow> desk option" where
  "desk_tap progs t t' p d = Option.bind (desktop_touch progs t (fst p) (snd p) True d) (desktop_touch progs t' (fst p) (snd p) False)"

definition cell_of :: "u32 \<times> u32 \<Rightarrow> int \<Rightarrow> int" where
  "cell_of p sel = (if cell_at (fst p) (snd p) \<ge> 0 then cell_at (fst p) (snd p) else sel)"

lemma desk_tap_eq:
  assumes "desktop_active d" "\<not> g_was_down d" "t' - t \<ge> 2"
  obtains e where "dhost e = dhost d" "g_sel e = cell_of p (g_sel d)" "g_opens e = g_opens d" "desktop_active e" "\<not> g_was_down e"
    "desk_tap progs t t' p d = (if g_last_tap_sel d = cell_of p (g_sel d) \<and> t' - g_last_tap_tick d < 60
       then map_option (\<lambda>e. e\<lparr>g_last_tap_sel := -1, g_last_tap_tick := 0\<rparr>) (open_selected progs t' e)
       else Some (e\<lparr>g_last_tap_sel := cell_of p (g_sel d), g_last_tap_tick := t'\<rparr>))"
proof -
  have t: "\<not> t' - t < 2" using assms(3) by (simp add: not_less)
  define d1 where "d1 = press_sample t (fst p) (snd p) d"
  define e where "e = d1\<lparr>g_was_down := False, g_samples := 0, g_taps := g_taps d1 + 1\<rparr>"
  have f: "g_sel d1 = cell_of p (g_sel d)" "g_press_tick d1 = t" "g_last_tap_sel d1 = g_last_tap_sel d"
      "g_last_tap_tick d1 = g_last_tap_tick d" "g_was_down d1" "desktop_active d1" "dhost d1 = dhost d" "g_opens d1 = g_opens d"
    using assms(1,2) by (simp_all add: d1_def press_sample_frame cell_of_def)
  have "desktop_touch progs t (fst p) (snd p) True d = Some d1" using assms(1) by (simp add: desktop_touch_def d1_def)
  then have "desk_tap progs t t' p d = desktop_touch progs t' (fst p) (snd p) False d1" by (simp add: desk_tap_def)
  also have "\<dots> = (if g_last_tap_sel d = cell_of p (g_sel d) \<and> t' - g_last_tap_tick d < 60
       then map_option (\<lambda>e. e\<lparr>g_last_tap_sel := -1, g_last_tap_tick := 0\<rparr>) (open_selected progs t' e)
       else Some (e\<lparr>g_last_tap_sel := cell_of p (g_sel d), g_last_tap_tick := t'\<rparr>))"
    using f t by (simp add: desktop_touch_def Let_def e_def)
  finally show thesis using f by (intro that [of e]) (simp_all add: e_def)
qed


text \<open>A tap outside the grid selects nothing but still counts: in time it completes a double tap on the icon selected before.\<close>

lemma desk_tap_outside:
  assumes "desktop_active d" "\<not> g_was_down d" "t' - t \<ge> 2" "cell_at (fst p) (snd p) < 0" "g_last_tap_sel d = g_sel d" "t' - g_last_tap_tick d < 60"
  obtains e where "g_sel e = g_sel d" "dhost e = dhost d" "desk_tap progs t t' p d
    = map_option (\<lambda>e. e\<lparr>g_last_tap_sel := -1, g_last_tap_tick := 0\<rparr>) (open_selected progs t' e)"
  using desk_tap_eq [OF assms(1-3), of p progs] assms(4-6) that by (metis cell_of_def not_le)

text \<open>
  The close column: outside the views that take the band, a press of the column beside the strips stops exactly the running program
  whose strip the row is in; any other press that is not on the corner of an open view changes nothing here.
\<close>

theorem desk_close_exact:
  assumes "\<not> takes_band d" "\<not> (\<not> desktop_active d \<and> x \<ge> 218 \<and> y < 22)"
  shows "if x \<ge> 224 \<and> (\<exists>i < 4. running (dhost d) i \<and> 224 + 16 * i \<le> unat y \<and> unat y < 238 + 16 * i)
    then \<exists>i < 4. running (dhost d) i \<and> 224 + 16 * i \<le> unat y \<and> unat y < 238 + 16 * i
      \<and> desktop_chrome_touch x y d = (True, d\<lparr>dhost := app_kill (int i) (dhost d), g_closes := g_closes d + 1, g_dirty := True\<rparr>)
    else desktop_chrome_touch x y d = (False, d)"
proof -
  have u: "unat (APP_VIEW_Y0 + of_nat i * APP_VIEW_PITCH) = 224 + 16 * i"
      "unat (APP_VIEW_Y0 + of_nat i * APP_VIEW_PITCH + APP_VIEW_H) = 238 + 16 * i" if "i < 4" for i
    using that by (simp_all add: unat_word_ariths unat_of_nat)
  have hit: "case strip_hit y (dhost d) is of None \<Rightarrow> \<forall>i \<in> set is. \<not> (running (dhost d) i \<and> 224 + 16 * i \<le> unat y \<and> unat y < 238 + 16 * i)
      | Some i \<Rightarrow> i \<in> set is \<and> running (dhost d) i \<and> 224 + 16 * i \<le> unat y \<and> unat y < 238 + 16 * i" if "set is \<subseteq> {..<4}" for "is"
    using that
  proof (induction "is")
    case (Cons i js)
    then show ?case using u [of i] by (auto simp: Let_def word_le_nat_alt word_less_nat_alt not_le not_less split: option.splits)
  qed simp
  have c: "desktop_chrome_touch x y d = (if x < 224 then (False, d) else case strip_hit y (dhost d) [0..<APP_SLOTS] of None \<Rightarrow> (False, d)
      | Some i \<Rightarrow> (True, (on_host (app_kill (int i)) d)\<lparr>g_closes := g_closes d + 1, g_dirty := True\<rparr>))"
    using assms by (auto simp: desktop_chrome_touch_def)
  have "set [0..<APP_SLOTS] \<subseteq> {..<4}" by auto
  note H = hit [OF this]
  show ?thesis
  proof (cases "strip_hit y (dhost d) [0..<APP_SLOTS]")
    case None
    then show ?thesis using H by (auto simp: c not_le not_less)
  next
    case (Some i)
    then have i: "i < 4" "running (dhost d) i" "224 + 16 * i \<le> unat y" "unat y < 238 + 16 * i" using H by auto
    then show ?thesis using Some by (auto simp: c on_host_def not_le not_less intro!: exI [of _ i])
  qed
qed

definition in_button :: "nat \<Rightarrow> nat \<Rightarrow> nat \<Rightarrow> bool" where
  "in_button w bx k \<longleftrightarrow> (\<exists>r j. k = r * w + bx + j \<and> r < 20 \<and> j < 18)"

lemma overlay_at_rows: "(k, c) \<in> set (overlay_at w bx) \<Longrightarrow> in_button w bx k"
proof -
  have box: "in_button w bx ((2 + r) * w + bx + c)" if "r < 18" "c < 18" for r c
    using that unfolding in_button_def by (intro exI [of _ "2 + r"] exI [of _ c]) simp
  have stroke: "in_button w bx ((2 + 3 + i + y) * w + bx + e)" if "i < 18 - 6" "y < 2" "e < 18" for i y e
    using that unfolding in_button_def by (intro exI [of _ "2 + 3 + i + y"] exI [of _ e]) simp
  assume "(k, c) \<in> set (overlay_at w bx)"
  then show ?thesis
    by (auto simp only: overlay_at_def Let_def set_append set_concat set_map set_upt atLeastLessThan_iff UN_iff Un_iff image_iff
          list.set insert_iff empty_iff prod.inject intro!: box stroke) simp_all
qed

lemma overlay_writes_rows:
  assumes "(k, c) \<in> set (overlay_writes w h)"
  obtains r j where "k = r * w + (w - 20 + j)" "r < 20" "j < 18" "20 \<le> w" "20 \<le> h"
proof -
  have w: "20 \<le> w" "20 \<le> h" "(k, c) \<in> set (overlay_at w (w - 20))" using assms by (auto simp: overlay_writes_def Let_def split: if_splits)
  obtain r j where "k = r * w + (w - 20) + j" "r < 20" "j < 18" using overlay_at_rows [OF w(3)] unfolding in_button_def by blast
  then show thesis using w by (intro that [of r j]) (simp_all only: add.assoc)
qed

text \<open>
  The close button of a framebuffer: every write of the button, on a framebuffer of any size, is inside it, and on one as wide as the
  panel it is inside the area whose touch closes the view.
\<close>

theorem desk_overlay_inside:
  assumes "(k, c) \<in> set (overlay_writes w h)"
  shows "k < w * h \<and> k div w < 22 \<and> w - 22 \<le> k mod w"
proof -
  obtain r j where k: "k = r * w + (w - 20 + j)" and b: "r < 20" "j < 18" "20 \<le> w" "20 \<le> h"
    by (rule overlay_writes_rows [OF assms])
  have j: "w - 20 + j < w" using b by simp
  have "k < Suc r * w" using k j by simp
  also have "\<dots> \<le> h * w" using b by (intro mult_le_mono1) simp
  finally have "k < w * h" by (simp add: mult.commute)
  moreover have "k div w = r" "k mod w = w - 20 + j" using k j by simp_all
  ultimately show ?thesis using b by simp
qed

subsection \<open>Witnesses\<close>

text \<open>A program of one instruction whose manifest names the speaker.\<close>

definition demo_prog :: shell_program_t where
  "demo_prog = \<lparr>p_name = bytes_of ''paint'', p_img = [0x34, 0, 0, 0], p_arena_bytes = 32, p_publish_off = 0,
     p_image_id = app_image_id [0x34, 0, 0, 0] [Some (bytes_of ''beep'')], p_perm_names = [bytes_of ''beep'']\<rparr>"

definition desk_example :: desk where
  "desk_example = \<lparr>g_mode = MODE_LAUNCHER, g_app_bar = False, g_sel = 0, g_cx = 40, g_cy = 35, g_dirty = True, g_was_down = False,
     g_press_tick = 0, g_last_tap_tick = 0, g_last_tap_sel = -1, g_taps = 0, g_opens = 0, g_closes = 0, g_first = (0, 0, -1),
     g_last = (0, 0, -1), g_samples = 0, g_msg_sel = -1, g_msg_ok = False, g_msg_tick = 0, dhost = host_example, dpanel = [], opened = []\<rparr>"

lemma host_example_boot: "host_boot host_example"
  using arena_example_reaches ipc_example_ok
  by (auto simp: host_boot_def host_example_def kern_example_def vm_example_def vm_wf_def arena_boot_def arena_example_def heap_example_boot)

lemma perms_example: "length (g_perms (kdev (hk host_example))) = 5"
  by (simp add: host_example_def kern_example_def devs_example_def device_init_def)

lemma desk_example_boot: "desk_boot desk_example"
  using host_example_boot perms_example by (simp add: desk_boot_def desk_example_def)

lemma demo_launch:
  obtains h where "launch_entry demo_prog host_example = Some (0, h)" "running h 0" "viewport (avm (g_apps h ! 0)) = (0, 224, 180, 14)"
    "g_focused h = -1"
proof -
  have "map_option (\<lambda>(i, h). (i, running h 0, viewport (avm (g_apps h ! 0)), g_focused h))
      (app_start (Some (bytes_of ''paint'')) [0x34, 0, 0, 0] 4 32 0 host_example) = Some (0, True, (0, 224, 180, 14), -1)" by code_simp
  then obtain h where h: "app_start (Some (bytes_of ''paint'')) [0x34, 0, 0, 0] 4 32 0 host_example = Some (0, h)" "running h 0"
      "viewport (avm (g_apps h ! 0)) = (0, 224, 180, 14)" "g_focused h = -1" by auto
  have "device_perms_from_names (Some [bytes_of ''beep'']) = (2, None)" by code_simp
  then have "launch_entry demo_prog host_example = Some (0, upd_kern (\<lambda>k. k\<lparr>kdev := device_grant 0 2 (kdev k)\<rparr>) h)"
    using h(1) by (simp add: launch_entry_def demo_prog_def)
  then show thesis by (rule that) (simp_all add: h)
qed

theorem launch_grants_witness:
  "\<exists>h. launch_entry demo_prog host_example = Some (0, h)
     \<and> granted [bytes_of ''beep''] 0 (g_perms (kdev (hk host_example))) (g_perms (kdev (hk h)))"
proof -
  obtain h where h: "launch_entry demo_prog host_example = Some (0, h)" by (rule demo_launch)
  have "host_ok host_example" using host_example_boot by (rule host_sys.start_inv)
  from launch_grants [OF this _ perms_example, of demo_prog] h show ?thesis by (auto simp: demo_prog_def)
qed

lemma demo_reaches:
  obtains h where "reaches desk_boot (\<lambda>d d'. progs_ok [demo_prog] \<and> desk_step [demo_prog] d d') (desk_example\<lparr>dhost := h\<rparr>)"
    "running h 0" "viewport (avm (g_apps h ! 0)) = (0, 224, 180, 14)" "host_ok h"
proof -
  obtain h where h: "launch_entry demo_prog host_example = Some (0, h)" "running h 0" "viewport (avm (g_apps h ! 0)) = (0, 224, 180, 14)"
    by (rule demo_launch)
  have "shell_launch [demo_prog] (p_name demo_prog) (dhost desk_example) = Some (0, h)" using h(1) by (simp add: desk_example_def)
  then have "desk_step [demo_prog] desk_example (desk_example\<lparr>dhost := h\<rparr>)" by (rule desk_run)
  moreover have "progs_ok [demo_prog]" by (simp add: progs_ok_def demo_prog_def)
  ultimately have r: "reaches desk_boot (\<lambda>d d'. progs_ok [demo_prog] \<and> desk_step [demo_prog] d d') (desk_example\<lparr>dhost := h\<rparr>)"
    using desk_example_boot by (blast intro: reaches_start reaches_step [where s = desk_example])
  then have "desk_ok (desk_example\<lparr>dhost := h\<rparr>)" by (rule desk_sys.reaches_inv)
  then show thesis using that r h by (simp add: desk_ok_def)
qed

theorem desk_region_owner_witness:
  "\<exists>d. reaches desk_boot (\<lambda>d d'. progs_ok [demo_prog] \<and> desk_step [demo_prog] d d') d \<and> pixel_in (avm (g_apps (dhost d) ! 0)) 10 230
     \<and> \<not> takes_band d"
proof -
  obtain h where h: "reaches desk_boot (\<lambda>d d'. progs_ok [demo_prog] \<and> desk_step [demo_prog] d d') (desk_example\<lparr>dhost := h\<rparr>)"
    "running h 0" "viewport (avm (g_apps h ! 0)) = (0, 224, 180, 14)" by (rule demo_reaches)
  have p: "pixel_in (avm (g_apps (dhost (desk_example\<lparr>dhost := h\<rparr>)) ! 0)) 10 230" using h(3) by (simp add: pixel_in_def viewport_def)
  from desk_region_owner [OF h(1) _ _ p] h(2) have "\<not> takes_band (desk_example\<lparr>dhost := h\<rparr>)" by simp
  with h(1) p show ?thesis by blast
qed

theorem desk_corner_keeps_focus_witness:
  "\<exists>d d'. g_mode d = MODE_APP \<and> route_touch [] 0 5 5 True d = Some d' \<and> desktop_active d'
     \<and> viewport (avm (g_apps (dhost (open_view MODE_WIFI Wifiapp_open d')) ! 0)) = (0, 22, 240, 202)"
proof -
  obtain h where h: "running h 0" "host_ok h" by (rule demo_reaches)
  define d where "d = desk_example\<lparr>dhost := app_view_focus 0 h, g_mode := MODE_APP\<rparr>"
  have "host_ok (dhost d)" "g_mode d = MODE_APP" "g_focused (dhost d) = int 0"
    using h(1) app_view_focus_ok [OF h(2)] by (simp add: d_def, simp add: d_def, simp add: d_def app_view_focus_def Let_def)
  from desk_corner_keeps_focus [OF this(1,2) _ this(3), of 5 5 "[]" 0 MODE_WIFI Wifiapp_open] this(2) show ?thesis by auto
qed


theorem desk_close_exact_witness:
  "\<exists>d. fst (desktop_chrome_touch 230 230 d) \<and> \<not> running (dhost (snd (desktop_chrome_touch 230 230 d))) 0"
proof -
  obtain h where h: "running h 0" "host_ok h" by (rule demo_reaches)
  let ?d = "desk_example\<lparr>dhost := h\<rparr>"
  have "\<not> takes_band ?d" "\<not> (\<not> desktop_active ?d \<and> (230 :: u32) \<ge> 218 \<and> (230 :: u32) < 22)" by (simp_all add: takes_band_def desk_example_def)
  from desk_close_exact [OF this] have
    "\<exists>i < 4. running h i \<and> 224 + 16 * i \<le> 230 \<and> 230 < 238 + 16 * i \<and>
       desktop_chrome_touch 230 230 ?d = (True, ?d\<lparr>dhost := app_kill (int i) h, g_closes := g_closes ?d + 1, g_dirty := True\<rparr>)"
    using h(1) by (auto split: if_splits)
  then obtain i where i: "i < 4" "224 + 16 * i \<le> 230" "desktop_chrome_touch 230 230 ?d =
      (True, ?d\<lparr>dhost := app_kill (int i) h, g_closes := g_closes ?d + 1, g_dirty := True\<rparr>)" by blast
  then have e: "i = 0" by simp
  have c: "host_core h" using h(2) by (simp add: host_ok_def)
  have "owns h 0 (g_apps h ! 0)" "0 < length (g_apps h)" using host_coreD [OF c, of 0] h(1) by simp_all
  note F = retire_fields(1) [OF this, of APP_KILLED]
  have "\<not> running (app_kill 0 h) 0" using h(1) \<open>0 < length (g_apps h)\<close> by (simp add: app_kill_def F)
  then show ?thesis using i(3) e by (intro exI [of _ ?d]) simp
qed

theorem desk_overlay_inside_witness:
  "(2 * 160 + 140, COLOR_BLACK) \<in> set (overlay_writes 160 112) \<and> 2 * 160 + 140 < (160 * 112 :: nat)"
proof -
  have m: "(2 * 160 + 140, COLOR_BLACK) \<in> set (overlay_writes 160 112)"
    by (simp add: overlay_writes_def overlay_at_def Let_def) (rule bexI [of _ 0], rule image_eqI [of _ _ 0], simp_all)
  with desk_overlay_inside [OF m] show ?thesis by simp
qed

end
