(* ===== verification/KSpi3.thy ===== *)
theory KSpi3
  imports Prelude
begin

text \<open>
  The second SPI controller, \<^verbatim>\<open>kernel/spi3.c\<close>, as the card driver uses it: transfers through its registers and by DMA, and the bookkeeping that
  decides between them. The wire is a history of clock edges with the level sent on each; what the card drives on an edge, whether a
  register transfer ends in time and what the DMA engine leaves in its buffer are the record \<open>spi_hw\<close>, a parameter. Time between
  edges is not part of the history, nor are the register values that put a transfer on the wire.
\<close>

subsection \<open>The wire\<close>

datatype spi_event = Sck bool | Cs bool | Pins_gpio | Spi_reset | Spi_clock u32 | Spi_pins | Wait_us u32

text \<open>\<open>miso\<close> is the level read after an edge. \<open>engine\<close> is what a DMA transfer leaves in its buffer for the bytes on the wire, \<open>None\<close> when it
  does not finish; \<open>shifts\<close> says whether a register transfer finishes; \<open>in_dram\<close> where the linker put the descriptors and \<open>stage_at\<close>
  where it put the two staging buffers of the card driver.\<close>

record spi_hw =
  miso :: "spi_event list \<Rightarrow> bool"
  shifts :: "spi_event list \<Rightarrow> bool"
  engine :: "spi_event list \<Rightarrow> u8 list \<Rightarrow> u8 list option"
  in_dram :: bool
  stage_at :: "nat \<Rightarrow> u32"

record spi3 =
  wire :: "spi_event list"
  g_transfers :: u32
  g_timeouts :: u32
  g_wreg_xfers :: u32
  g_wreg_at_init :: u32
  g_dma_poisoned :: u32
  g_dma_ok :: bool
  g_dma_allowed :: bool
  g_dma_reachable :: bool
  g_dma_refused :: u32
  g_dma_timeouts :: u32
  g_dma_transfers :: u32
  g_inflight :: "u8 list option option"
  g_clk_reg :: u32

abbreviation (input) SPI3_XFER_MAX :: nat where "SPI3_XFER_MAX \<equiv> 64"
abbreviation (input) SPI3_DMA_MAX :: nat where "SPI3_DMA_MAX \<equiv> 520"
abbreviation (input) DRAM_LO :: u32 where "DRAM_LO \<equiv> 0x3FFAE000"
abbreviation (input) DRAM_HI :: u32 where "DRAM_HI \<equiv> 0x40000000"

definition put_event :: "spi_event \<Rightarrow> 'a spi3_scheme \<Rightarrow> 'a spi3_scheme" where
  "put_event v st = st\<lparr>wire := wire st @ [v]\<rparr>"

text \<open>Bits from the highest, each sent on a rising edge and answered after it.\<close>

fun clock_bits :: "spi_hw \<Rightarrow> u8 \<Rightarrow> nat list \<Rightarrow> u8 \<Rightarrow> spi_event list \<Rightarrow> u8 \<times> spi_event list" where
  "clock_bits e out [] i h = (i, h)"
| "clock_bits e out (k # ks) i h =
     (let h1 = h @ [Sck (bit out k)] in clock_bits e out ks (push_bit 1 i OR of_bool (miso e h1)) h1)"

definition clock_byte :: "spi_hw \<Rightarrow> u8 \<Rightarrow> spi_event list \<Rightarrow> u8 \<times> spi_event list" where
  "clock_byte e out h = clock_bits e out [7, 6, 5, 4, 3, 2, 1, 0] 0 h"

fun clock_bytes :: "spi_hw \<Rightarrow> u8 list \<Rightarrow> spi_event list \<Rightarrow> u8 list \<times> spi_event list" where
  "clock_bytes e [] h = ([], h)"
| "clock_bytes e (b # bs) h =
     (case clock_byte e b h of (i, h1) \<Rightarrow> case clock_bytes e bs h1 of (is, h2) \<Rightarrow> (i # is, h2))"

definition ones :: "nat \<Rightarrow> u8 list" where
  "ones n = replicate n 0xFF"

subsection \<open>Set-up\<close>

definition spi3_init :: "'a spi3_scheme \<Rightarrow> 'a spi3_scheme" where
  "spi3_init st = put_event (Spi_clock 0x000274E7) (put_event Spi_reset st)"

definition spi3_set_div :: "u32 \<Rightarrow> 'a spi3_scheme \<Rightarrow> 'a spi3_scheme" where
  "spi3_set_div div0 st =
     (let d = (if div0 < 2 then 2 else if div0 > 64 then 64 else div0);
          n = d - 1; h = d div 2 - 1;
          w = push_bit 12 n OR push_bit 6 h OR n
      in put_event (Spi_clock w) (st\<lparr>g_clk_reg := w\<rparr>))"

definition spi3_route :: "'a spi3_scheme \<Rightarrow> 'a spi3_scheme" where
  "spi3_route st = put_event Spi_pins st"

definition spi3_reattach :: "'a spi3_scheme \<Rightarrow> 'a spi3_scheme" where
  "spi3_reattach st = spi3_route (put_event (Spi_clock (g_clk_reg st)) (spi3_init st))"

abbreviation spi3_dma_enabled :: "'a spi3_scheme \<Rightarrow> bool" where "spi3_dma_enabled st \<equiv> g_dma_ok st"

definition spi3_dma_force_fifo :: "bool \<Rightarrow> 'a spi3_scheme \<Rightarrow> 'a spi3_scheme" where
  "spi3_dma_force_fifo on st = st\<lparr>g_dma_allowed := \<not> on, g_dma_ok := \<not> on \<and> g_dma_reachable st\<rparr>"

definition spi3_dma_init :: "spi_hw \<Rightarrow> 'a spi3_scheme \<Rightarrow> 'a spi3_scheme" where
  "spi3_dma_init e st =
     (if \<not> in_dram e then st\<lparr>g_dma_reachable := False, g_dma_ok := False\<rparr>
      else st\<lparr>g_dma_reachable := True, g_wreg_at_init := g_wreg_xfers st, g_dma_allowed := True, g_dma_ok := True\<rparr>)"

subsection \<open>Transfers through the registers\<close>

definition spi3_xfer :: "spi_hw \<Rightarrow> u8 list \<Rightarrow> 'a spi3_scheme \<Rightarrow> u8 list option \<times> 'a spi3_scheme" where
  "spi3_xfer e tx st =
     (if tx = [] \<or> length tx > SPI3_XFER_MAX then (None, st)
      else case clock_bytes e tx (wire st) of (rx, h) \<Rightarrow>
        if shifts e (wire st)
        then (Some rx, st\<lparr>wire := h, g_transfers := g_transfers st + 1, g_wreg_xfers := g_wreg_xfers st + 1\<rparr>)
        else (None, st\<lparr>wire := h, g_timeouts := g_timeouts st + 1\<rparr>))"

definition spi3_read :: "spi_hw \<Rightarrow> nat \<Rightarrow> 'a spi3_scheme \<Rightarrow> u8 list option \<times> 'a spi3_scheme" where
  "spi3_read e n st =
     (if n = 0 \<or> n > SPI3_XFER_MAX then (None, st)
      else case clock_bytes e (ones n) (wire st) of (rx, h) \<Rightarrow>
        if shifts e (wire st)
        then (Some rx, st\<lparr>wire := h, g_transfers := g_transfers st + 1, g_wreg_xfers := g_wreg_xfers st + 1\<rparr>)
        else (None, st\<lparr>wire := h, g_timeouts := g_timeouts st + 1\<rparr>))"

subsection \<open>Transfers by DMA\<close>

text \<open>Starting puts the bytes on the wire; the result waits in \<open>g_inflight\<close> for its collection. A transfer needs the engine enabled and no
  register transfer since it was armed. Buffers it cannot write directly are staged, which the result does not show.\<close>

definition dma_begin :: "spi_hw \<Rightarrow> u8 list \<Rightarrow> 'a spi3_scheme \<Rightarrow> bool \<times> 'a spi3_scheme" where
  "dma_begin e tx st =
     (if \<not> g_dma_ok st \<or> tx = [] \<or> length tx > SPI3_DMA_MAX then (False, st\<lparr>g_dma_refused := g_dma_refused st + 1\<rparr>)
      else if g_wreg_xfers st \<noteq> g_wreg_at_init st then
        (False, st\<lparr>g_dma_poisoned := g_dma_poisoned st + 1, g_dma_ok := False, g_dma_allowed := False\<rparr>)
      else case clock_bytes e tx (wire st) of (rx, h) \<Rightarrow> (True, st\<lparr>wire := h, g_inflight := Some (engine e (wire st) rx)\<rparr>))"

definition collect_dma :: "'a spi3_scheme \<Rightarrow> u8 list option \<times> 'a spi3_scheme" where
  "collect_dma st =
     (case g_inflight st of
        None \<Rightarrow> (None, st)
      | Some None \<Rightarrow> (None, st\<lparr>g_inflight := None, g_dma_timeouts := g_dma_timeouts st + 1, g_dma_ok := False\<rparr>)
      | Some (Some rx) \<Rightarrow> (Some rx, st\<lparr>g_inflight := None, g_dma_transfers := g_dma_transfers st + 1\<rparr>))"

definition spi3_xfer_dma :: "spi_hw \<Rightarrow> u8 list \<Rightarrow> 'a spi3_scheme \<Rightarrow> u8 list option \<times> 'a spi3_scheme" where
  "spi3_xfer_dma e tx st = (case dma_begin e tx st of (ok, st1) \<Rightarrow> if ok then collect_dma st1 else (None, st1))"

definition spi3_read_dma :: "spi_hw \<Rightarrow> nat \<Rightarrow> 'a spi3_scheme \<Rightarrow> u8 list option \<times> 'a spi3_scheme" where
  "spi3_read_dma e n st = spi3_xfer_dma e (ones n) st"

text \<open>A buffer the engine can write: on a word boundary, whole words long, in data memory. The first argument is its address; null is refused.\<close>

definition dma_usable :: "u32 \<Rightarrow> u32 \<Rightarrow> bool" where
  "dma_usable p n \<longleftrightarrow> p AND 3 = 0 \<and> n AND 3 = 0 \<and> p \<ge> DRAM_LO \<and> p + n \<le> DRAM_HI"

definition spi3_read_dma_start :: "spi_hw \<Rightarrow> u32 \<Rightarrow> nat \<Rightarrow> 'a spi3_scheme \<Rightarrow> bool \<times> 'a spi3_scheme" where
  "spi3_read_dma_start e rx n st =
     (if g_inflight st \<noteq> None \<or> rx = 0 \<or> \<not> dma_usable rx (of_nat n) then (False, st) else dma_begin e (ones n) st)"

definition spi3_read_dma_collect :: "'a spi3_scheme \<Rightarrow> bool \<times> 'a spi3_scheme" where
  "spi3_read_dma_collect st = (case collect_dma st of (r, st1) \<Rightarrow> (r \<noteq> None, st1))"

subsection \<open>Streams\<close>

text \<open>A card \<open>answers\<close> a list of bytes after a history when clocking ones from there on delivers them.\<close>

definition answers :: "spi_hw \<Rightarrow> spi_event list \<Rightarrow> u8 list \<Rightarrow> bool" where
  "answers e h bs \<longleftrightarrow> fst (clock_bytes e (ones (length bs)) h) = bs"

definition after_ones :: "nat \<Rightarrow> spi_event list \<Rightarrow> spi_event list" where
  "after_ones n h = h @ replicate (8 * n) (Sck True)"

lemma clock_bits_wire: "snd (clock_bits e out ks i h) = h @ List.map (\<lambda>k. Sck (bit out k)) ks"
  by (induction ks arbitrary: i h) (simp_all add: Let_def)

lemma clock_byte_ones: "snd (clock_byte e 0xFF h) = h @ replicate 8 (Sck True)"
proof -
  have "List.map (\<lambda>k. Sck (bit (0xFF :: u8) k)) [7, 6, 5, 4, 3, 2, 1, 0] = replicate 8 (Sck True)" by code_simp
  then show ?thesis by (simp only: clock_byte_def clock_bits_wire)
qed

lemma clock_bytes_ones: "snd (clock_bytes e (ones n) h) = after_ones n h"
proof (induction n arbitrary: h)
  case (Suc n)
  have "snd (clock_bytes e (ones (Suc n)) h) = snd (clock_bytes e (ones n) (snd (clock_byte e 0xFF h)))"
    by (simp add: ones_def split: prod.split)
  also have "\<dots> = after_ones (Suc n) h" by (simp add: Suc.IH clock_byte_ones after_ones_def flip: replicate_add)
  finally show ?case .
qed (simp add: ones_def after_ones_def)

lemma length_clock_bytes [simp]: "length (fst (clock_bytes e bs h)) = length bs"
  by (induction bs arbitrary: h) (simp_all split: prod.split, metis fst_conv)

lemma clock_bytes_append:
  "clock_bytes e (as @ bs) h = (case clock_bytes e as h of (is, h1) \<Rightarrow> case clock_bytes e bs h1 of (js, h2) \<Rightarrow> (is @ js, h2))"
  by (induction as arbitrary: h) (simp_all split: prod.split)

lemma after_ones_add [simp]: "after_ones m (after_ones n h) = after_ones (n + m) h"
  by (simp add: after_ones_def flip: replicate_add)

lemma after_ones_0 [simp]: "after_ones 0 h = h"
  by (simp add: after_ones_def)

lemma answers_Nil [simp]: "answers e h []"
  by (simp add: answers_def ones_def)

lemma answers_append: "answers e h (xs @ ys) \<longleftrightarrow> answers e h xs \<and> answers e (after_ones (length xs) h) ys"
proof -
  have "clock_bytes e (ones (length (xs @ ys))) h = (case clock_bytes e (ones (length xs)) h of (is, h1) \<Rightarrow>
      case clock_bytes e (ones (length ys)) h1 of (js, h2) \<Rightarrow> (is @ js, h2))"
    by (simp add: ones_def replicate_add clock_bytes_append)
  then have "fst (clock_bytes e (ones (length (xs @ ys))) h)
      = fst (clock_bytes e (ones (length xs)) h) @ fst (clock_bytes e (ones (length ys)) (after_ones (length xs) h))"
    using clock_bytes_ones [of e "length xs" h] by (auto split: prod.splits)
  moreover have "length (fst (clock_bytes e (ones (length xs)) h)) = length xs" by (simp add: ones_def)
  ultimately show ?thesis by (simp add: answers_def)
qed

lemma answers_clock: "answers e h xs \<Longrightarrow> clock_bytes e (ones (length xs)) h = (xs, after_ones (length xs) h)"
  by (metis answers_def clock_bytes_ones prod.collapse)

subsection \<open>Transfers that finish\<close>

definition healthy :: "spi_hw \<Rightarrow> bool" where
  "healthy e \<longleftrightarrow> (\<forall>h. shifts e h) \<and> (\<forall>h bs. 4 \<le> length bs \<longrightarrow> engine e h bs = Some bs)
     \<and> (\<forall>k < 2. stage_at e k AND 3 = 0 \<and> DRAM_LO \<le> stage_at e k \<and> stage_at e k \<le> DRAM_HI - 520)"

lemma dma_usable_stage:
  assumes "healthy e" "k < 2" "n mod 4 = 0" "n \<le> 520"
  shows "stage_at e k \<noteq> 0 \<and> dma_usable (stage_at e k) (of_nat n)"
proof -
  have h: "stage_at e k AND 3 = 0" "DRAM_LO \<le> stage_at e k" "stage_at e k \<le> DRAM_HI - 520" using assms(1,2) by (simp_all add: healthy_def)
  have u: "unat (of_nat n :: u32) = n" using assms(4) by (simp add: unat_of_nat)
  have "unat (stage_at e k) \<le> 0x3FFFFDF8" using h(3) by (simp add: word_le_nat_alt)
  then have "unat (stage_at e k + of_nat n) = unat (stage_at e k) + n" using assms(4) u by (simp add: unat_word_ariths)
  then have "stage_at e k + of_nat n \<le> DRAM_HI" using \<open>unat (stage_at e k) \<le> 0x3FFFFDF8\<close> assms(4) by (simp add: word_le_nat_alt)
  moreover have "(of_nat n :: u32) AND 3 = 0"
  proof -
    have "unat ((of_nat n :: u32) AND mask 2) = n mod 4" unfolding unat_and_mask u by simp
    then show ?thesis using assms(3) by (simp add: mask_numeral unat_eq_0)
  qed
  moreover have "stage_at e k \<noteq> 0" using h(2) by auto
  ultimately show ?thesis using h by (simp add: dma_usable_def)
qed

text \<open>What keeps the DMA path usable: nothing in flight and no register transfer since it was armed.\<close>

definition spi_link_ok :: "'a spi3_scheme \<Rightarrow> bool" where
  "spi_link_ok st \<longleftrightarrow> g_inflight st = None \<and> (g_dma_ok st \<longrightarrow> g_wreg_xfers st = g_wreg_at_init st)"

lemma spi3_read_answers:
  assumes "healthy e" "answers e (wire st) xs" "xs \<noteq> []" "length xs \<le> 64"
  shows "spi3_read e (length xs) st = (Some xs, st\<lparr>wire := after_ones (length xs) (wire st), g_transfers := g_transfers st + 1,
    g_wreg_xfers := g_wreg_xfers st + 1\<rparr>)"
  using assms(1,3,4) answers_clock [OF assms(2)] by (simp add: spi3_read_def healthy_def)

lemma dma_begin_answers:
  assumes "healthy e" "answers e (wire st) xs" "4 \<le> length xs" "length xs \<le> 520" "spi_link_ok st" "g_dma_ok st"
  shows "dma_begin e (ones (length xs)) st = (True, st\<lparr>wire := after_ones (length xs) (wire st), g_inflight := Some (Some xs)\<rparr>)"
proof -
  have "ones (length xs) \<noteq> []" "length (ones (length xs)) = length xs" "xs \<noteq> []" using assms(3) by (auto simp: ones_def)
  then show ?thesis using assms answers_clock [OF assms(2)] by (simp add: dma_begin_def healthy_def spi_link_ok_def)
qed

lemma spi3_read_dma_answers:
  assumes "healthy e" "answers e (wire st) xs" "4 \<le> length xs" "length xs \<le> 520" "spi_link_ok st" "g_dma_ok st"
  shows "spi3_read_dma e (length xs) st = (Some xs, st\<lparr>wire := after_ones (length xs) (wire st), g_inflight := None,
    g_dma_transfers := g_dma_transfers st + 1\<rparr>)"
  by (simp add: spi3_read_dma_def spi3_xfer_dma_def dma_begin_answers [OF assms] collect_dma_def)

end
