(* ===== verification/KBytes.thy ===== *)
theory KBytes
  imports Prelude
begin

text \<open>
  Buffers as lists of bytes: overwriting a run of bytes in place, and reading one.
\<close>

definition put_at :: "nat \<Rightarrow> u8 list \<Rightarrow> u8 list \<Rightarrow> u8 list" where
  "put_at i bs xs = take i xs @ bs @ drop (i + length bs) xs"

lemma length_put_at [simp]: "i + length bs \<le> length xs \<Longrightarrow> length (put_at i bs xs) = length xs"
  by (simp add: put_at_def)

lemma put_at_nth: "i + length bs \<le> length xs \<Longrightarrow> k < length xs \<Longrightarrow>
    put_at i bs xs ! k = (if i \<le> k \<and> k < i + length bs then bs ! (k - i) else xs ! k)"
  by (auto simp: put_at_def nth_append min_def)

lemma put_at_swap:
  assumes "i + length as \<le> j" "j + length bs \<le> length xs"
  shows "put_at j bs (put_at i as xs) = put_at i as (put_at j bs xs)"
  using assms by (intro nth_equalityI) (auto simp: put_at_nth)

lemma put_at_join:
  assumes "i + length as + length bs \<le> length xs"
  shows "put_at (i + length as) bs (put_at i as xs) = put_at i (as @ bs) xs"
  using assms by (intro nth_equalityI) (auto simp: put_at_nth nth_append)

lemma put_at_front: "length bs \<le> length xs \<Longrightarrow> put_at 0 bs xs = bs @ drop (length bs) xs"
  by (simp add: put_at_def)

lemma take_drop_put_at:
  assumes "i + length bs \<le> length xs" "a + n \<le> length xs" "a + n \<le> i \<or> i + length bs \<le> a"
  shows "take n (drop a (put_at i bs xs)) = take n (drop a xs)"
  using assms by (intro nth_equalityI) (auto simp: put_at_nth)

lemma take_drop_put_same: "i + length bs \<le> length xs \<Longrightarrow> take (length bs) (drop i (put_at i bs xs)) = bs"
  by (simp add: put_at_def)

end
