(* ===== verification/KSd.thy ===== *)
theory KSd
  imports KSpi3 KBytes
begin

text \<open>
  The card driver, \<^verbatim>\<open>kernel/sd.c\<close>, over the SPI controller of \<^verbatim>\<open>KSpi3\<close>: identification, commands, single and multiple block reads with their
  batches, the bytes a DMA transfer reads past a block, the copy out of the staging buffer and the retry. The cycle counters the shell
  prints are not modelled.
\<close>

subsection \<open>State\<close>

datatype sd_err_t = SD_OK | SD_ERR_IDLE | SD_ERR_IFCOND | SD_ERR_READY | SD_ERR_OCR | SD_ERR_BLOCKLEN | SD_ERR_READ | SD_ERR_TOKEN

datatype sd_type_t = SD_TYPE_NONE | SD_TYPE_SDSC | SD_TYPE_SDHC

text \<open>\<open>g_pend\<close> holds the first \<^verbatim>\<open>g_pend_n\<close> bytes of the array.\<close>

record sd = spi3 +
  g_half_us :: u32
  g_div_wanted :: u32
  g_hw :: bool
  g_token_polls :: u32
  g_blocks :: u32
  g_type :: sd_type_t
  g_last_r1 :: u32
  g_attempts :: u32
  g_pend :: "u8 list"
  g_pend_token :: bool
  g_buf :: "u8 list"
  g_stage :: "u8 list list"
  g_multi_bursts :: u32
  g_multi_blocks :: u32
  g_dma_retries :: u32

abbreviation (input) SD_BLOCK_SIZE :: nat where "SD_BLOCK_SIZE \<equiv> 512"
abbreviation (input) CMD0_GO_IDLE :: u8 where "CMD0_GO_IDLE \<equiv> 0"
abbreviation (input) CMD8_SEND_IF_COND :: u8 where "CMD8_SEND_IF_COND \<equiv> 8"
abbreviation (input) CMD12_STOP :: u8 where "CMD12_STOP \<equiv> 12"
abbreviation (input) CMD16_SET_BLOCKLEN :: u8 where "CMD16_SET_BLOCKLEN \<equiv> 16"
abbreviation (input) CMD17_READ_SINGLE :: u8 where "CMD17_READ_SINGLE \<equiv> 17"
abbreviation (input) CMD18_READ_MULTI :: u8 where "CMD18_READ_MULTI \<equiv> 18"
abbreviation (input) CMD55_APP_CMD :: u8 where "CMD55_APP_CMD \<equiv> 55"
abbreviation (input) CMD58_READ_OCR :: u8 where "CMD58_READ_OCR \<equiv> 58"
abbreviation (input) ACMD41_SEND_OP_COND :: u8 where "ACMD41_SEND_OP_COND \<equiv> 41"
abbreviation (input) R1_IDLE :: u8 where "R1_IDLE \<equiv> 1"
abbreviation (input) DATA_TOKEN :: u8 where "DATA_TOKEN \<equiv> 0xFE"
abbreviation (input) IDLE_BYTE :: u8 where "IDLE_BYTE \<equiv> 0xFF"

subsection \<open>Bytes and commands\<close>

definition sd_xfer :: "spi_hw \<Rightarrow> u8 \<Rightarrow> sd \<Rightarrow> u8 \<times> sd" where
  "sd_xfer e out st =
     (if g_hw st then
        let st1 = (if spi3_dma_enabled st then spi3_dma_force_fifo True st else st) in
        case spi3_xfer e [out] st1 of (Some i, st2) \<Rightarrow> (i ! 0, st2) | (None, st2) \<Rightarrow> (0, st2)
      else case clock_byte e out (wire st) of (i, h) \<Rightarrow> (i, st\<lparr>wire := h\<rparr>))"

definition sd_rx :: "spi_hw \<Rightarrow> sd \<Rightarrow> u8 \<times> sd" where
  "sd_rx e st = sd_xfer e 0xFF st"

definition crc_for :: "u8 \<Rightarrow> u32 \<Rightarrow> u8" where
  "crc_for cmd arg = (if cmd = CMD0_GO_IDLE then 0x95 else if cmd = CMD8_SEND_IF_COND \<and> arg = 0x1AA then 0x87 else 0x01)"

definition command_bytes :: "u8 \<Rightarrow> u32 \<Rightarrow> u8 list" where
  "command_bytes cmd arg = [0x40 OR cmd, ucast (drop_bit 24 arg), ucast (drop_bit 16 arg), ucast (drop_bit 8 arg), ucast arg, crc_for cmd arg]"

definition first_r1 :: "u8 list \<Rightarrow> u8 option" where
  "first_r1 bs = find (\<lambda>b. b AND 0x80 = 0) bs"

fun idle_looks :: "spi_hw \<Rightarrow> nat \<Rightarrow> sd \<Rightarrow> bool \<times> sd" where
  "idle_looks e 0 st = (True, st)"
| "idle_looks e (Suc t) st =
     (case spi3_read_dma e 16 st of
        (None, st1) \<Rightarrow> (False, st1)
      | (Some b, st1) \<Rightarrow> if IDLE_BYTE \<in> set b then (True, st1) else idle_looks e t st1)"

fun r1_batches :: "spi_hw \<Rightarrow> nat \<Rightarrow> sd \<Rightarrow> u8 \<times> sd" where
  "r1_batches e 0 st = (0xFF, st\<lparr>g_last_r1 := 0xFF\<rparr>)"
| "r1_batches e (Suc t) st =
     (case spi3_read_dma e 16 st of
        (None, st1) \<Rightarrow> (0xFF, st1)
      | (Some b, st1) \<Rightarrow> case first_r1 b of Some r \<Rightarrow> (r, st1\<lparr>g_last_r1 := ucast r\<rparr>) | None \<Rightarrow> r1_batches e t st1)"

definition sd_command_hw :: "spi_hw \<Rightarrow> u8 \<Rightarrow> u32 \<Rightarrow> sd \<Rightarrow> u8 \<times> sd" where
  "sd_command_hw e cmd arg st =
     (case idle_looks e 4 (st\<lparr>g_pend_token := False, g_pend := []\<rparr>) of
        (False, st1) \<Rightarrow> (0xFF, st1)
      | (True, st1) \<Rightarrow>
          (case spi3_xfer_dma e (command_bytes cmd arg @ [0xFF, 0xFF]) st1 of
             (None, st2) \<Rightarrow> (0xFF, st2)
           | (Some b, st2) \<Rightarrow>
               case first_r1 (drop 6 b) of Some r \<Rightarrow> (r, st2\<lparr>g_last_r1 := ucast r\<rparr>) | None \<Rightarrow> r1_batches e 2 st2))"

fun rx_until_idle :: "spi_hw \<Rightarrow> nat \<Rightarrow> sd \<Rightarrow> sd" where
  "rx_until_idle e 0 st = st"
| "rx_until_idle e (Suc n) st = (case sd_rx e st of (b, st1) \<Rightarrow> if b = IDLE_BYTE then st1 else rx_until_idle e n st1)"

fun xfer_all :: "spi_hw \<Rightarrow> u8 list \<Rightarrow> sd \<Rightarrow> sd" where
  "xfer_all e [] st = st"
| "xfer_all e (b # bs) st = xfer_all e bs (snd (sd_xfer e b st))"

fun rx_r1 :: "spi_hw \<Rightarrow> nat \<Rightarrow> u8 \<Rightarrow> sd \<Rightarrow> u8 \<times> sd" where
  "rx_r1 e 0 r st = (r, st)"
| "rx_r1 e (Suc n) r st = (case sd_rx e st of (b, st1) \<Rightarrow> if b AND 0x80 = 0 then (b, st1) else rx_r1 e n b st1)"

definition sd_command :: "spi_hw \<Rightarrow> u8 \<Rightarrow> u32 \<Rightarrow> sd \<Rightarrow> u8 \<times> sd" where
  "sd_command e cmd arg st =
     (if g_hw st \<and> spi3_dma_enabled st then sd_command_hw e cmd arg st
      else case rx_r1 e 16 0xFF (xfer_all e (command_bytes cmd arg) (rx_until_idle e 10 st)) of
          (r, st1) \<Rightarrow> (r, st1\<lparr>g_last_r1 := ucast r\<rparr>))"

definition cs_low :: "sd \<Rightarrow> sd" where
  "cs_low st = put_event (Cs False) st"

definition cs_high :: "spi_hw \<Rightarrow> sd \<Rightarrow> sd" where
  "cs_high e st =
     (let st1 = put_event (Cs True) st in
      if g_hw st1 \<and> spi3_dma_enabled st1 then snd (spi3_read_dma e 4 st1) else snd (sd_rx e st1))"

subsection \<open>Identification\<close>

fun go_idle_tries :: "spi_hw \<Rightarrow> nat \<Rightarrow> u8 \<Rightarrow> sd \<Rightarrow> u8 \<times> sd" where
  "go_idle_tries e 0 r st = (r, st)"
| "go_idle_tries e (Suc n) r st =
     (case sd_command e CMD0_GO_IDLE 0 st of (r1, st1) \<Rightarrow> if r1 = R1_IDLE then (r1, st1) else go_idle_tries e n r1 st1)"

fun op_cond_tries :: "spi_hw \<Rightarrow> nat \<Rightarrow> sd \<Rightarrow> bool \<times> sd" where
  "op_cond_tries e 0 st = (False, st)"
| "op_cond_tries e (Suc n) st =
     (case sd_command e ACMD41_SEND_OP_COND 0x40000000 (snd (sd_command e CMD55_APP_CMD 0 st)) of
        (r, st1) \<Rightarrow> if r = 0 then (True, st1) else op_cond_tries e n (put_event (Wait_us 1000) st1))"

fun rx_word :: "spi_hw \<Rightarrow> nat \<Rightarrow> u32 \<Rightarrow> sd \<Rightarrow> u32 \<times> sd" where
  "rx_word e 0 w st = (w, st)"
| "rx_word e (Suc n) w st = (case sd_rx e st of (b, st1) \<Rightarrow> rx_word e n (push_bit 8 w OR ucast b) st1)"

fun rx_times :: "spi_hw \<Rightarrow> nat \<Rightarrow> sd \<Rightarrow> sd" where
  "rx_times e 0 st = st"
| "rx_times e (Suc n) st = rx_times e n (snd (sd_rx e st))"

definition sd_finish :: "spi_hw \<Rightarrow> sd \<Rightarrow> sd" where
  "sd_finish e st =
     (let st1 = (cs_high e st)\<lparr>g_half_us := 0\<rparr> in
      if g_div_wanted st1 \<noteq> 0
      then (spi3_dma_init e (spi3_route (spi3_set_div (g_div_wanted st1) (spi3_init st1))))\<lparr>g_hw := True\<rparr>
      else st1)"

definition sd_init :: "spi_hw \<Rightarrow> sd \<Rightarrow> sd_err_t \<times> sd" where
  "sd_init e st =
     (let st0 = put_event Pins_gpio (st\<lparr>g_attempts := g_attempts st + 1, g_type := SD_TYPE_NONE, g_half_us := 2, g_hw := False\<rparr>) in
      case go_idle_tries e 8 0xFF (cs_low (rx_times e 10 st0)) of (r, st1) \<Rightarrow>
      if r \<noteq> R1_IDLE then (SD_ERR_IDLE, cs_high e st1)
      else case sd_command e CMD8_SEND_IF_COND 0x1AA st1 of (r, st2) \<Rightarrow>
      if r AND 4 \<noteq> 0 then (SD_ERR_IFCOND, cs_high e st2)
      else case rx_word e 4 0 st2 of (ifcond, st3) \<Rightarrow>
      if ifcond AND 0xFFF \<noteq> 0x1AA then (SD_ERR_IFCOND, cs_high e st3)
      else case op_cond_tries e 2000 st3 of (ready, st4) \<Rightarrow>
      if \<not> ready then (SD_ERR_READY, cs_high e st4)
      else case sd_command e CMD58_READ_OCR 0 st4 of (r, st5) \<Rightarrow>
      if r \<noteq> 0 then (SD_ERR_OCR, cs_high e st5)
      else case rx_word e 4 0 st5 of (ocr, st6) \<Rightarrow>
        let st7 = st6\<lparr>g_type := (if ocr AND 0x40000000 \<noteq> 0 then SD_TYPE_SDHC else SD_TYPE_SDSC)\<rparr> in
        if g_type st7 = SD_TYPE_SDSC then
          (case sd_command e CMD16_SET_BLOCKLEN 512 st7 of (r, st8) \<Rightarrow>
             if r \<noteq> 0 then (SD_ERR_BLOCKLEN, cs_high e st8) else (SD_OK, sd_finish e st8))
        else (SD_OK, sd_finish e st7))"

definition sd_set_speed :: "u32 \<Rightarrow> sd \<Rightarrow> sd" where
  "sd_set_speed d st = st\<lparr>g_div_wanted := (if d \<noteq> 0 \<and> d < 4 then 4 else d)\<rparr>"

definition sd_speed :: "sd \<Rightarrow> u32" where
  "sd_speed st = (if g_hw st then g_div_wanted st else 0)"

subsection \<open>Copying out of the staging buffer\<close>

text \<open>The words of an aligned buffer, low byte first.\<close>

definition le_word :: "u8 \<Rightarrow> u8 \<Rightarrow> u8 \<Rightarrow> u8 \<Rightarrow> u32" where
  "le_word a b c d = ucast a OR push_bit 8 (ucast b) OR push_bit 16 (ucast c) OR push_bit 24 (ucast d)"

definition stage_word :: "u8 list \<Rightarrow> nat \<Rightarrow> u32" where
  "stage_word m i = le_word (m ! (4 * i)) (m ! (4 * i + 1)) (m ! (4 * i + 2)) (m ! (4 * i + 3))"

definition word_out :: "u32 \<Rightarrow> u8 list" where
  "word_out w = [ucast w, ucast (drop_bit 8 w), ucast (drop_bit 16 w), ucast (drop_bit 24 w)]"

fun shift_words :: "u8 list \<Rightarrow> nat \<Rightarrow> nat \<Rightarrow> u32 \<Rightarrow> nat \<Rightarrow> u8 list" where
  "shift_words m s sh prev 0 = []"
| "shift_words m s sh prev (Suc k) =
     (let nx = stage_word m (s + 1) in word_out (drop_bit sh prev OR push_bit (32 - sh) nx) @ shift_words m (s + 1) sh nx k)"

text \<open>\<open>n\<close> bytes of the aligned buffer \<open>m\<close> from \<open>so\<close> on, as they reach the address \<open>da\<close>.\<close>

definition copy_out :: "u32 \<Rightarrow> u8 list \<Rightarrow> nat \<Rightarrow> nat \<Rightarrow> u8 list" where
  "copy_out da m so n =
     (let h0 = unat ((4 - (da AND 3)) AND 3);
          head = (if h0 > n then n else h0);
          src = so + head; left = n - head;
          s = src div 4; sh = src mod 4 * 8; words = left div 4
      in take head (drop so m)
         @ (if sh = 0 then concat (List.map (\<lambda>i. word_out (stage_word m (s + i))) [0..<words])
            else shift_words m s sh (stage_word m s) words)
         @ take (left - words * 4) (drop (src + words * 4) m))"

subsection \<open>Tokens and data\<close>

fun token_batches :: "spi_hw \<Rightarrow> nat \<Rightarrow> nat \<Rightarrow> u8 list \<Rightarrow> sd \<Rightarrow> u8 \<times> nat \<times> u8 list \<times> sd" where
  "token_batches e 0 p dst st = (0xFF, 0, dst, st)"
| "token_batches e (Suc i) p dst st =
     (case if spi3_dma_enabled st then spi3_read_dma e 16 st else spi3_read e 16 st of
        (None, st1) \<Rightarrow> (0xFF, 0, dst, st1)
      | (Some b, st1) \<Rightarrow>
          let st2 = st1\<lparr>g_token_polls := g_token_polls st1 + 16\<rparr>;
              k = length (takeWhile (\<lambda>x. x = IDLE_BYTE) b)
          in if k < length b then (b ! k, length b - (k + 1), put_at p (drop (k + 1) b) dst, st2) else token_batches e i p dst st2)"

definition token_wait_hw :: "spi_hw \<Rightarrow> nat \<Rightarrow> u8 list \<Rightarrow> sd \<Rightarrow> u8 \<times> nat \<times> u8 list \<times> sd" where
  "token_wait_hw e p dst st =
     (if g_pend_token st then
        (DATA_TOKEN, length (g_pend st), put_at p (g_pend st) dst, st\<lparr>g_pend_token := False, g_pend := []\<rparr>)
      else token_batches e 300 p dst st)"

text \<open>The bytes a transfer read past the checksum: what follows a data token is kept.\<close>

fun overshoot :: "u8 list \<Rightarrow> bool \<times> u8 list" where
  "overshoot [] = (False, [])"
| "overshoot (b # bs) = (if b = DATA_TOKEN then (True, bs) else overshoot bs)"

definition keep_overshoot :: "u8 list \<Rightarrow> sd \<Rightarrow> sd" where
  "keep_overshoot bs st = st\<lparr>g_pend_token := fst (overshoot bs), g_pend := snd (overshoot bs)\<rparr>"

definition round_word :: "nat \<Rightarrow> nat" where
  "round_word t = (t + 3) div 4 * 4"

function fifo_read :: "spi_hw \<Rightarrow> nat \<Rightarrow> nat \<Rightarrow> u8 list \<Rightarrow> sd \<Rightarrow> bool \<times> u8 list \<times> sd" where
  "fifo_read e p have dst st =
     (if have < SD_BLOCK_SIZE then
        (case spi3_read e (if SD_BLOCK_SIZE - have > SPI3_XFER_MAX then SPI3_XFER_MAX else SD_BLOCK_SIZE - have) st of
           (None, st1) \<Rightarrow> (False, dst, st1)
         | (Some b, st1) \<Rightarrow>
             fifo_read e p (have + (if SD_BLOCK_SIZE - have > SPI3_XFER_MAX then SPI3_XFER_MAX else SD_BLOCK_SIZE - have))
               (put_at (p + have) b dst) st1)
      else case spi3_read e 2 st of (r, st1) \<Rightarrow> (r \<noteq> None, dst, st1))"
  by pat_completeness auto
termination by (relation "measure (\<lambda>(e, p, have, dst, st). 512 - have)") auto

definition data_read_hw :: "spi_hw \<Rightarrow> u32 \<Rightarrow> nat \<Rightarrow> nat \<Rightarrow> u8 list \<Rightarrow> sd \<Rightarrow> bool \<times> u8 list \<times> sd" where
  "data_read_hw e da p have dst st =
     (if spi3_dma_enabled st then
        let rest = SD_BLOCK_SIZE - have; n = round_word (rest + 2) in
        case spi3_read_dma e n st of
          (None, st1) \<Rightarrow> (False, dst, st1)
        | (Some b, st1) \<Rightarrow>
            let st2 = st1\<lparr>g_buf := put_at 0 b (g_buf st1)\<rparr> in
            (True, put_at (p + have) (copy_out (da + of_nat (p + have)) (g_buf st2) 0 rest) dst,
             keep_overshoot (take (n - (rest + 2)) (drop (rest + 2) (g_buf st2))) st2)
      else fifo_read e p have dst st)"

subsection \<open>Reading blocks\<close>

fun idle_run :: "nat \<Rightarrow> u8 list \<Rightarrow> nat" where
  "idle_run i [] = i"
| "idle_run i (b # bs) = (let j = (if b = IDLE_BYTE then i + 1 else 0) in if j \<ge> 4 then j else idle_run j bs)"

fun stop_batches :: "spi_hw \<Rightarrow> nat \<Rightarrow> nat \<Rightarrow> sd \<Rightarrow> sd" where
  "stop_batches e 0 idle st = st"
| "stop_batches e (Suc i) idle st =
     (if idle \<ge> 4 then st
      else case spi3_read_dma e 16 st of (None, st1) \<Rightarrow> st1 | (Some b, st1) \<Rightarrow> stop_batches e i (idle_run idle b) st1)"

definition multi_stop :: "spi_hw \<Rightarrow> sd \<Rightarrow> sd" where
  "multi_stop e st =
     (let st1 = snd (sd_command e CMD12_STOP 0 st);
          st2 = (if g_hw st1 \<and> spi3_dma_enabled st1 then stop_batches e 64 0 st1 else rx_until_idle e 1000 st1)
      in cs_high e st2)"

definition block_addr :: "u32 \<Rightarrow> sd \<Rightarrow> u32" where
  "block_addr lba st = (if g_type st = SD_TYPE_SDHC then lba else lba * 512)"

fun rx_token :: "spi_hw \<Rightarrow> nat \<Rightarrow> u8 \<Rightarrow> sd \<Rightarrow> u8 \<times> sd" where
  "rx_token e 0 t st = (t, st)"
| "rx_token e (Suc n) t st =
     (case sd_rx e st of (b, st1) \<Rightarrow>
        let st2 = st1\<lparr>g_token_polls := g_token_polls st1 + 1\<rparr> in if b \<noteq> IDLE_BYTE then (b, st2) else rx_token e n b st2)"

fun rx_data :: "spi_hw \<Rightarrow> nat \<Rightarrow> sd \<Rightarrow> u8 list \<times> sd" where
  "rx_data e 0 st = ([], st)"
| "rx_data e (Suc n) st = (case sd_rx e st of (b, st1) \<Rightarrow> case rx_data e n st1 of (bs, st2) \<Rightarrow> (b # bs, st2))"

definition read_block_once :: "spi_hw \<Rightarrow> u32 \<Rightarrow> u32 \<Rightarrow> nat \<Rightarrow> u8 list \<Rightarrow> sd \<Rightarrow> sd_err_t \<times> u8 list \<times> sd" where
  "read_block_once e lba da p dst st =
     (if g_type st = SD_TYPE_NONE then (SD_ERR_IDLE, dst, st)
      else case sd_command e CMD17_READ_SINGLE (block_addr lba st) (cs_low st) of (r, st1) \<Rightarrow>
      if r \<noteq> 0 then (SD_ERR_READ, dst, cs_high e st1)
      else case (if g_hw st1 then token_wait_hw e p dst st1 else case rx_token e 4000 0xFF st1 of (t, s) \<Rightarrow> (t, 0, dst, s)) of
        (token, have, dst1, st2) \<Rightarrow>
      if token \<noteq> DATA_TOKEN then (SD_ERR_TOKEN, dst1, cs_high e st2)
      else case (if g_hw st2 then data_read_hw e da p have dst1 st2
                 else case rx_data e SD_BLOCK_SIZE st2 of (bs, s) \<Rightarrow> (True, put_at p bs dst1, rx_times e 2 s)) of
        (ok, dst2, st3) \<Rightarrow>
      if \<not> ok then (SD_ERR_TOKEN, dst2, cs_high e st3)
      else (SD_OK, dst2, cs_high e (st3\<lparr>g_blocks := g_blocks st3 + 1\<rparr>)))"

definition retried :: "sd_err_t \<Rightarrow> bool \<Rightarrow> sd \<Rightarrow> bool" where
  "retried rc dma_before st \<longleftrightarrow> rc \<noteq> SD_OK \<and> dma_before \<and> \<not> spi3_dma_enabled st"

definition read_block_at :: "spi_hw \<Rightarrow> u32 \<Rightarrow> u32 \<Rightarrow> nat \<Rightarrow> u8 list \<Rightarrow> sd \<Rightarrow> sd_err_t \<times> u8 list \<times> sd" where
  "read_block_at e lba da p dst st =
     (case read_block_once e lba da p dst st of (rc, dst1, st1) \<Rightarrow>
      if retried rc (spi3_dma_enabled st) st1
      then read_block_once e lba da p dst1 (st1\<lparr>g_dma_retries := g_dma_retries st1 + 1\<rparr>)
      else (rc, dst1, st1))"

definition sd_read_block :: "spi_hw \<Rightarrow> u32 \<Rightarrow> u32 \<Rightarrow> u8 list \<Rightarrow> sd \<Rightarrow> sd_err_t \<times> u8 list \<times> sd" where
  "sd_read_block e lba da dst st = read_block_at e lba da 0 dst st"

fun singles :: "spi_hw \<Rightarrow> u32 \<Rightarrow> u32 \<Rightarrow> nat \<Rightarrow> nat \<Rightarrow> u8 list \<Rightarrow> sd \<Rightarrow> sd_err_t \<times> u8 list \<times> sd" where
  "singles e lba da i 0 dst st = (SD_OK, dst, st)"
| "singles e lba da i (Suc k) dst st =
     (case read_block_at e (lba + of_nat i) da (i * SD_BLOCK_SIZE) dst st of (rc, dst1, st1) \<Rightarrow>
      if rc \<noteq> SD_OK then (rc, dst1, st1) else singles e lba da (Suc i) k dst1 st1)"

text \<open>The pending copy: where to, from which staging buffer, how many bytes. The engine owns a staging buffer from the start of its
  transfer, so the model lets the bytes land at once, before the previous block is copied.\<close>

definition flush_copy :: "u32 \<Rightarrow> (nat \<times> nat \<times> nat) option \<Rightarrow> u8 list \<Rightarrow> sd \<Rightarrow> u8 list" where
  "flush_copy da pc dst st =
     (case pc of None \<Rightarrow> dst | Some (q, k, n) \<Rightarrow> put_at q (copy_out (da + of_nat q) (g_stage st ! k) 0 n) dst)"

definition land :: "nat \<Rightarrow> sd \<Rightarrow> sd" where
  "land k st = (case g_inflight st of Some (Some b) \<Rightarrow> st\<lparr>g_stage := (g_stage st)[k := put_at 0 b (g_stage st ! k)]\<rparr> | _ \<Rightarrow> st)"

definition multi_data :: "spi_hw \<Rightarrow> u32 \<Rightarrow> nat \<Rightarrow> nat \<Rightarrow> (nat \<times> nat \<times> nat) option \<Rightarrow> u8 list \<Rightarrow> sd
    \<Rightarrow> bool \<times> (nat \<times> nat \<times> nat) option \<times> u8 list \<times> sd" where
  "multi_data e da b have pc dst st =
     (let p = b * SD_BLOCK_SIZE; rest = SD_BLOCK_SIZE - have; n = round_word (rest + 2) in
      case spi3_read_dma_start e (stage_at e (b mod 2)) n st of (ok, st1) \<Rightarrow>
      if \<not> ok then (False, pc, dst, st1)
      else let st2 = land (b mod 2) st1; dst1 = flush_copy da pc dst st2 in
        case spi3_read_dma_collect st2 of (ok, st3) \<Rightarrow>
        if \<not> ok then (False, None, dst1, st3)
        else (True, Some (p + have, b mod 2, rest), dst1,
              keep_overshoot (take (n - (rest + 2)) (drop (rest + 2) (g_stage st3 ! (b mod 2)))) st3))"

fun multi_loop :: "spi_hw \<Rightarrow> u32 \<Rightarrow> nat \<Rightarrow> nat \<Rightarrow> (nat \<times> nat \<times> nat) option \<Rightarrow> u8 list \<Rightarrow> sd \<Rightarrow> sd_err_t \<times> u8 list \<times> sd" where
  "multi_loop e da b 0 pc dst st = (SD_OK, flush_copy da pc dst st, multi_stop e st)"
| "multi_loop e da b (Suc k) pc dst st =
     (case token_wait_hw e (b * SD_BLOCK_SIZE) dst st of (token, have, dst1, st1) \<Rightarrow>
      if token \<noteq> DATA_TOKEN then (SD_ERR_TOKEN, dst1, multi_stop e st1)
      else case (if spi3_dma_enabled st1 then multi_data e da b have pc dst1 st1
                 else case data_read_hw e da (b * SD_BLOCK_SIZE) have dst1 st1 of (ok, d, s) \<Rightarrow> (ok, pc, d, s)) of
        (ok, pc2, dst2, st2) \<Rightarrow>
      if \<not> ok then (SD_ERR_TOKEN, dst2, multi_stop e st2)
      else multi_loop e da (Suc b) k pc2 dst2 (st2\<lparr>g_blocks := g_blocks st2 + 1, g_multi_blocks := g_multi_blocks st2 + 1\<rparr>))"

definition read_blocks_once :: "spi_hw \<Rightarrow> u32 \<Rightarrow> nat \<Rightarrow> u32 \<Rightarrow> u8 list \<Rightarrow> sd \<Rightarrow> sd_err_t \<times> u8 list \<times> sd" where
  "read_blocks_once e lba count da dst st =
     (if count = 0 then (SD_OK, dst, st)
      else if count < 3 \<or> \<not> g_hw st then singles e lba da 0 count dst st
      else if g_type st = SD_TYPE_NONE then (SD_ERR_IDLE, dst, st)
      else case sd_command e CMD18_READ_MULTI (block_addr lba st) (cs_low st) of (r, st1) \<Rightarrow>
      if r \<noteq> 0 then (SD_ERR_READ, dst, multi_stop e st1)
      else multi_loop e da 0 count None dst (st1\<lparr>g_multi_bursts := g_multi_bursts st1 + 1\<rparr>))"

definition sd_read_blocks :: "spi_hw \<Rightarrow> u32 \<Rightarrow> nat \<Rightarrow> u32 \<Rightarrow> u8 list \<Rightarrow> sd \<Rightarrow> sd_err_t \<times> u8 list \<times> sd" where
  "sd_read_blocks e lba count da dst st =
     (case read_blocks_once e lba count da dst st of (rc, dst1, st1) \<Rightarrow>
      if retried rc (spi3_dma_enabled st) st1
      then read_blocks_once e lba count da dst1 (st1\<lparr>g_dma_retries := g_dma_retries st1 + 1\<rparr>)
      else (rc, dst1, st1))"

subsection \<open>The word copy is a byte copy\<close>

lemma byte_ends: "\<not> bit (x :: u8) (8 + n)" "\<not> bit x (16 + n)" "\<not> bit x (24 + n)"
  by (auto dest!: bit_imp_le_length)

lemma le_word_bytes: "word_out (le_word a b c d) = [a, b, c, d]"
  by (auto simp: word_out_def le_word_def bit_simps byte_ends intro!: bit_eqI)

lemma le_word_shifted:
  "word_out (drop_bit 8 (le_word a b c d) OR push_bit 24 (le_word a' b' c' d')) = [b, c, d, a']"
  "word_out (drop_bit 16 (le_word a b c d) OR push_bit 16 (le_word a' b' c' d')) = [c, d, a', b']"
  "word_out (drop_bit 24 (le_word a b c d) OR push_bit 8 (le_word a' b' c' d')) = [d, a', b', c']"
  by (auto simp: word_out_def le_word_def bit_simps byte_ends intro!: bit_eqI)

lemma four_from: "i + 4 \<le> length m \<Longrightarrow> take 4 (drop i m) = [m ! i, m ! (i + 1), m ! (i + 2), m ! (i + 3)]"
  by (rule nth_equalityI) (auto simp: less_Suc_eq numeral_eq_Suc)

lemma take_drop_split: "i + a + b \<le> length m \<Longrightarrow> take (a + b) (drop i m) = take a (drop i m) @ take b (drop (i + a) m)"
  by (simp add: take_add add.commute)

lemma aligned_words:
  "4 * (s + k) \<le> length m \<Longrightarrow> concat (List.map (\<lambda>i. word_out (stage_word m (s + i))) [0..<k]) = take (4 * k) (drop (4 * s) m)"
proof (induction k)
  case (Suc k)
  have "take (4 * k + 4) (drop (4 * s) m) = take (4 * k) (drop (4 * s) m) @ take 4 (drop (4 * s + 4 * k) m)"
    using Suc.prems by (intro take_drop_split) simp
  then show ?case using Suc four_from [of "4 * s + 4 * k" m] by (simp add: stage_word_def le_word_bytes algebra_simps)
qed simp

lemma shifted_words:
  assumes "sh \<in> {8, 16, 24}" "4 * (s + k + 1) \<le> length m"
  shows "shift_words m s sh (stage_word m s) k = take (4 * k) (drop (4 * s + sh div 8) m)"
  using assms(2)
proof (induction k arbitrary: s)
  case (Suc k)
  let ?j = "4 * s + sh div 8"
  have j: "?j + 4 + 4 * k \<le> length m" using assms(1) Suc.prems by auto
  obtain q where q: "4 * s = q" by simp
  have q4: "4 * (s + 1) = q + 4" using q by simp
  from assms(1) consider "sh = 8" | "sh = 16" | "sh = 24" by auto
  then have "word_out (drop_bit sh (stage_word m s) OR push_bit (32 - sh) (stage_word m (s + 1)))
      = [m ! (q + sh div 8), m ! (q + sh div 8 + 1), m ! (q + sh div 8 + 2), m ! (q + sh div 8 + 3)]"
  proof cases
    case 1
    have "32 - 8 = (24 :: nat)" "8 div 8 = (1 :: nat)" "q + 1 + 1 = q + 2" "q + 1 + 2 = q + 3" "q + 1 + 3 = q + 4" by simp_all
    then show ?thesis by (simp only: 1 stage_word_def q q4 le_word_shifted)
  next
    case 2
    have "32 - 16 = (16 :: nat)" "16 div 8 = (2 :: nat)" "q + 2 + 1 = q + 3" "q + 2 + 2 = q + 4" "q + 2 + 3 = q + 4 + 1" by simp_all
    then show ?thesis by (simp only: 2 stage_word_def q q4 le_word_shifted)
  next
    case 3
    have "32 - 24 = (8 :: nat)" "24 div 8 = (3 :: nat)" "q + 3 + 1 = q + 4" "q + 3 + 2 = q + 4 + 1" "q + 3 + 3 = q + 4 + 2" by simp_all
    then show ?thesis by (simp only: 3 stage_word_def q q4 le_word_shifted)
  qed
  then have "word_out (drop_bit sh (stage_word m s) OR push_bit (32 - sh) (stage_word m (s + 1))) = [m ! ?j, m ! (?j + 1), m ! (?j + 2), m ! (?j + 3)]"
    by (simp only: q)
  also have "\<dots> = take 4 (drop ?j m)" using j by (simp only: four_from)
  finally have w: "word_out (drop_bit sh (stage_word m s) OR push_bit (32 - sh) (stage_word m (s + 1))) = take 4 (drop ?j m)" .
  have "shift_words m s sh (stage_word m s) (Suc k) = take 4 (drop ?j m) @ take (4 * k) (drop (?j + 4) m)"
    using w Suc.IH [of "s + 1"] Suc.prems by (simp add: Let_def add.commute add.left_commute)
  also have "\<dots> = take (4 + 4 * k) (drop ?j m)" using j by (simp only: take_drop_split)
  finally show ?case by simp
qed simp

lemma copy_out_bytes:
  assumes "so + n + 4 \<le> length m"
  shows "copy_out da m so n = take n (drop so m)"
proof -
  define h0 where "h0 = unat ((4 - (da AND 3)) AND 3)"
  define head where "head = (if h0 > n then n else h0)"
  define src where "src = so + head"
  define left where "left = n - head"
  define words where "words = left div 4"
  have hd: "head \<le> n" "so + n = src + left" by (auto simp: head_def src_def left_def)
  have w: "4 * words \<le> left" by (simp add: words_def)
  have p: "src + 4 * words + (left - 4 * words) \<le> length m" "4 * words + (left - 4 * words) = left"
    using w assms hd(2) by linarith+
  have q: "so + head + left \<le> length m" "head + left = n"
    using assms hd(1) by (auto simp: left_def)
  have sm: "src = 4 * (src div 4) + src mod 4" by simp
  have bnd: "4 * (src div 4 + words + 1) \<le> length m" using assms hd(2) w(1) by simp
  have "(if src mod 4 * 8 = 0 then concat (List.map (\<lambda>i. word_out (stage_word m (src div 4 + i))) [0..<words])
      else shift_words m (src div 4) (src mod 4 * 8) (stage_word m (src div 4)) words) = take (4 * words) (drop src m)"
  proof (cases "src mod 4 = 0")
    case True
    then show ?thesis using aligned_words [of "src div 4" words m] bnd sm by simp
  next
    case False
    moreover have "src mod 4 < 4" by simp
    ultimately have "src mod 4 = 1 \<or> src mod 4 = 2 \<or> src mod 4 = 3" by linarith
    then have "src mod 4 * 8 \<in> {8, 16, 24}" by auto
    from shifted_words [OF this bnd] False sm show ?thesis by simp
  qed
  then have "copy_out da m so n = take head (drop so m) @ take (4 * words) (drop src m) @ take (left - 4 * words) (drop (src + 4 * words) m)"
    unfolding copy_out_def Let_def h0_def [symmetric] head_def [symmetric] src_def [symmetric] left_def [symmetric] words_def [symmetric]
    by (simp only: mult.commute [of words 4])
  also have "\<dots> = take head (drop so m) @ take left (drop src m)"
    using take_drop_split [OF p(1)] unfolding p(2) by (rule arg_cong [OF sym])
  also have "\<dots> = take n (drop so m)"
    using take_drop_split [OF q(1)] unfolding q(2) src_def [symmetric] by (rule sym)
  finally show ?thesis .
qed

text \<open>
  The word copy (C23): whatever the alignment of the destination, copying out of the staging buffer with aligned word accesses and
  shifts delivers the bytes a byte loop would, as long as a word of slack follows them in the buffer.
\<close>

theorem copy_out_exact: "so + n + 4 \<le> length m \<Longrightarrow> copy_out da m so n = take n (drop so m)"
  by (rule copy_out_bytes)

lemma copy_out_exact_witness: "copy_out 0x3FFB0002 [1, 2, 3, 4, 5, 6, 7, 8, 9, 10, 11, 12, 13, 14, 15, 16] 1 10 = [2, 3, 4, 5, 6, 7, 8, 9, 10, 11]"
  by (simp add: copy_out_exact)

end
