(* ===== verification/KSdRead.thy ===== *)
theory KSdRead
  imports KSd
begin

text \<open>
  Reads of the card driver on a bus that works: when the card answers with its blocks, the bytes that reach the caller are the blocks, whichever path carries
  them. Also what the driver does when the token comes too early.
\<close>

subsection \<open>What a card sends\<close>

text \<open>Blocks, each with the idle bytes before its token and its two checksum bytes.\<close>

fun sd_stream :: "(nat \<times> u8 list \<times> u8 list) list \<Rightarrow> u8 list" where
  "sd_stream [] = []"
| "sd_stream ((g, b, c) # bs) = replicate g IDLE_BYTE @ DATA_TOKEN # b @ c @ sd_stream bs"

definition stream_ok :: "(nat \<times> u8 list \<times> u8 list) list \<Rightarrow> bool" where
  "stream_ok bs \<longleftrightarrow> (\<forall>(g, b, c) \<in> set bs. g < 4800 \<and> length b = SD_BLOCK_SIZE \<and> length c = 2)"

abbreviation block_of :: "nat \<times> u8 list \<times> u8 list \<Rightarrow> u8 list" where "block_of x \<equiv> fst (snd x)"

text \<open>What a read of the bus leaves alone.\<close>

definition bus_calm :: "sd \<Rightarrow> sd \<Rightarrow> bool" where
  "bus_calm st st' \<longleftrightarrow> g_dma_ok st' = g_dma_ok st \<and> g_hw st' = g_hw st \<and> g_stage st' = g_stage st \<and> g_buf st' = g_buf st
     \<and> g_pend st' = g_pend st \<and> g_pend_token st' = g_pend_token st \<and> (spi_link_ok st \<longrightarrow> spi_link_ok st')"

lemma bus_calm_refl [simp]: "bus_calm st st"
  by (simp add: bus_calm_def)

lemma bus_calm_trans: "bus_calm a b \<Longrightarrow> bus_calm b c \<Longrightarrow> bus_calm a c"
  by (simp add: bus_calm_def)

text \<open>A short read by the path in use.\<close>

lemma hw_read_answers:
  assumes "healthy e" "answers e (wire st) xs" "4 \<le> length xs" "length xs \<le> 64" "spi_link_ok st"
  obtains st' where "(if spi3_dma_enabled st then spi3_read_dma e (length xs) st else spi3_read e (length xs) st) = (Some xs, st')"
    "wire st' = after_ones (length xs) (wire st)" "bus_calm st st'"
proof (cases "spi3_dma_enabled st")
  case True
  have "length xs \<le> 520" using assms(4) by simp
  note R = spi3_read_dma_answers [OF assms(1-3) this assms(5) True]
  show thesis using True assms(5)
    by (intro that [of "st\<lparr>wire := after_ones (length xs) (wire st), g_inflight := None, g_dma_transfers := g_dma_transfers st + 1\<rparr>"])
      (simp_all add: R bus_calm_def spi_link_ok_def)
next
  case False
  have nonempty: "xs \<noteq> []" using assms(3) by auto
  show thesis using False assms(5)
    by (intro that [of "st\<lparr>wire := after_ones (length xs) (wire st), g_transfers := g_transfers st + 1, g_wreg_xfers := g_wreg_xfers st + 1\<rparr>"])
      (simp_all add: spi3_read_answers [OF assms(1,2) _ assms(4)] nonempty bus_calm_def spi_link_ok_def)
qed

lemma takeWhile_idle: "takeWhile (\<lambda>x. x = IDLE_BYTE) (replicate g IDLE_BYTE @ DATA_TOKEN # xs) = replicate g IDLE_BYTE"
  by (induction g) simp_all

text \<open>The wait finds the token behind any gap shorter than its limit and keeps the bytes of the batch behind it.\<close>

lemma token_batches_find:
  assumes "healthy e" "spi_link_ok st" "g < 16 * i" "15 \<le> length b"
    and "answers e (wire st) (replicate g IDLE_BYTE @ DATA_TOKEN # b @ rest)"
  shows "\<exists>st'. token_batches e i p dst st = (DATA_TOKEN, 15 - g mod 16, put_at p (take (15 - g mod 16) b) dst, st')
    \<and> bus_calm st st' \<and> answers e (wire st') (drop (15 - g mod 16) b @ rest)"
  using assms(2,3,5)
proof (induction i arbitrary: g st)
  case (Suc i)
  show ?case
  proof (cases "g < 16")
    case True
    let ?x = "replicate g IDLE_BYTE @ DATA_TOKEN # take (15 - g) b"
    have split: "replicate g IDLE_BYTE @ DATA_TOKEN # b @ rest = ?x @ drop (15 - g) b @ rest" by simp
    have len: "length ?x = 16" using True assms(4) by simp
    have ans: "answers e (wire st) ?x" "answers e (after_ones 16 (wire st)) (drop (15 - g) b @ rest)"
      using Suc.prems(3) len unfolding split answers_append by simp_all
    obtain st1 where st1: "(if spi3_dma_enabled st then spi3_read_dma e 16 st else spi3_read e 16 st) = (Some ?x, st1)"
        "wire st1 = after_ones 16 (wire st)" "bus_calm st st1"
      using hw_read_answers [OF assms(1) ans(1) _ _ Suc.prems(1)] unfolding len by auto
    have "takeWhile (\<lambda>x. x = IDLE_BYTE) ?x = replicate g IDLE_BYTE" by (rule takeWhile_idle)
    moreover have "?x ! g = DATA_TOKEN" "drop (g + 1) ?x = take (15 - g) b" by (simp_all add: nth_append)
    moreover have "bus_calm st (st1\<lparr>g_token_polls := g_token_polls st1 + 16\<rparr>)" using st1(3) by (simp add: bus_calm_def spi_link_ok_def)
    ultimately show ?thesis using st1 ans(2) True len by (simp add: Let_def)
  next
    case False
    define x where "x = replicate 16 IDLE_BYTE"
    have x: "length x = 16" "x \<noteq> []" "takeWhile (\<lambda>x. x = IDLE_BYTE) x = x" by (simp_all add: x_def)
    have "replicate g IDLE_BYTE = x @ replicate (g - 16) IDLE_BYTE" using False unfolding x_def by (simp flip: replicate_add)
    then have ans: "answers e (wire st) x" "answers e (after_ones 16 (wire st)) (replicate (g - 16) IDLE_BYTE @ DATA_TOKEN # b @ rest)"
      using Suc.prems(3) x(1) by (simp_all add: answers_append)
    have "length x \<le> 64" using x(1) by simp
    then obtain st1 where st1: "(if spi3_dma_enabled st then spi3_read_dma e 16 st else spi3_read e 16 st) = (Some x, st1)"
        "wire st1 = after_ones 16 (wire st)" "bus_calm st st1"
      using hw_read_answers [OF assms(1) ans(1) _ _ Suc.prems(1)] unfolding x(1) by auto
    define st2 where "st2 = st1\<lparr>g_token_polls := g_token_polls st1 + 16\<rparr>"
    have st2: "bus_calm st st2" "wire st2 = after_ones 16 (wire st)" "spi_link_ok st2"
      using st1(2,3) Suc.prems(1) by (simp_all add: st2_def bus_calm_def spi_link_ok_def)
    have k: "length (takeWhile (\<lambda>x. x = IDLE_BYTE) x) = 16" unfolding x(3) by (rule x(1))
    have "token_batches e (Suc i) p dst st = token_batches e i p dst st2"
      using st1(1) x(1) k by (simp add: Let_def st2_def)
    moreover have "g - 16 < 16 * i" "(g - 16) mod 16 = g mod 16" using Suc.prems(2) False by (auto simp: le_mod_geq)
    ultimately show ?thesis using Suc.IH [OF st2(3), of "g - 16"] ans(2) st2(1,2) by (auto intro: bus_calm_trans)
  qed
qed simp

subsection \<open>One block of a stream\<close>

text \<open>Between blocks the driver is in step with the card: either the token is still to come, or a transfer has read it already and \<open>g_pend\<close> is
  the part of the block behind it.\<close>

definition in_step :: "spi_hw \<Rightarrow> sd \<Rightarrow> u8 list \<Rightarrow> u8 list \<Rightarrow> bool" where
  "in_step e st b rest \<longleftrightarrow>
     (if g_pend_token st
      then length (g_pend st) \<le> 15 \<and> g_pend st = take (length (g_pend st)) b \<and> answers e (wire st) (drop (length (g_pend st)) b @ rest)
      else \<exists>g < 4800. answers e (wire st) (replicate g IDLE_BYTE @ DATA_TOKEN # b @ rest))"

lemma token_wait_step:
  assumes "healthy e" "spi_link_ok st" "in_step e st b rest" "length b = SD_BLOCK_SIZE"
  shows "\<exists>have st'. token_wait_hw e p dst st = (DATA_TOKEN, have, put_at p (take have b) dst, st') \<and> have \<le> 15
    \<and> answers e (wire st') (drop have b @ rest) \<and> \<not> g_pend_token st' \<and> spi_link_ok st' \<and> g_dma_ok st' = g_dma_ok st
    \<and> g_hw st' = g_hw st \<and> g_stage st' = g_stage st \<and> g_buf st' = g_buf st"
proof (cases "g_pend_token st")
  case True
  with assms show ?thesis by (simp add: token_wait_hw_def in_step_def spi_link_ok_def)
next
  case False
  then obtain g where g: "g < 16 * 300" "answers e (wire st) (replicate g IDLE_BYTE @ DATA_TOKEN # b @ rest)"
    using assms(3) by (auto simp: in_step_def)
  have "15 \<le> length b" using assms(4) by simp
  from token_batches_find [OF assms(1,2) g(1) this g(2), of p dst] False assms(2) show ?thesis
    by (auto simp: token_wait_hw_def bus_calm_def)
qed

lemma overshoot_idle: "overshoot (replicate k IDLE_BYTE) = (False, [])"
  by (induction k) simp_all

lemma overshoot_token: "overshoot (replicate g IDLE_BYTE @ DATA_TOKEN # xs) = (True, xs)"
  by (induction g) simp_all

text \<open>What the rounding reads past the checksum keeps the driver in step with the next block.\<close>

lemma overshoot_step:
  assumes "answers e (wire st) (drop k (replicate g IDLE_BYTE @ DATA_TOKEN # b @ rest))" "k \<le> 3" "g < 4800" "16 \<le> length b"
  shows "in_step e (keep_overshoot (take k (replicate g IDLE_BYTE @ DATA_TOKEN # b @ rest)) st) b rest"
proof (cases "k \<le> g")
  case True
  then have "take k (replicate g IDLE_BYTE @ DATA_TOKEN # b @ rest) = replicate k IDLE_BYTE"
    "drop k (replicate g IDLE_BYTE @ DATA_TOKEN # b @ rest) = replicate (g - k) IDLE_BYTE @ DATA_TOKEN # b @ rest" by simp_all
  then show ?thesis using assms True by (auto simp: in_step_def keep_overshoot_def overshoot_idle intro!: exI [of _ "g - k"])
next
  case False
  define j where "j = k - g - 1"
  have k: "k = Suc (g + j)" "j \<le> 15" "j \<le> length b" using False assms(2,4) by (simp_all add: j_def)
  have "take k (replicate g IDLE_BYTE @ DATA_TOKEN # b @ rest) = replicate g IDLE_BYTE @ DATA_TOKEN # take j b"
    "drop k (replicate g IDLE_BYTE @ DATA_TOKEN # b @ rest) = drop j b @ rest" using k by simp_all
  then show ?thesis using assms k by (simp add: in_step_def keep_overshoot_def overshoot_token)
qed

lemma round_word_bounds: "t \<le> round_word t" "round_word t \<le> t + 3" "round_word t mod 4 = 0"
proof -
  have "(t + 3) div 4 * 4 + (t + 3) mod 4 = t + 3" by simp
  moreover have "(t + 3) mod 4 < 4" by simp
  ultimately show "t \<le> round_word t" "round_word t \<le> t + 3" unfolding round_word_def by linarith+
qed (simp add: round_word_def)

text \<open>The remainder of a block with its checksum, rounded to whole words, as a slice of the stream.\<close>

lemma remainder_slice:
  assumes "length b = SD_BLOCK_SIZE" "length c = 2" "have \<le> 15" "3 \<le> length rest"
  defines "n \<equiv> round_word (SD_BLOCK_SIZE - have + 2)" and "k \<equiv> round_word (SD_BLOCK_SIZE - have + 2) - (SD_BLOCK_SIZE - have + 2)"
  shows "drop have b @ c @ rest = (drop have b @ c @ take k rest) @ drop k rest" "length (drop have b @ c @ take k rest) = n" "k \<le> 3"
    "0 < n" "n \<le> 520" "n mod 4 = 0" "n - (SD_BLOCK_SIZE - have + 2) = k"
  using assms(1-4) round_word_bounds [of "SD_BLOCK_SIZE - have + 2"] by (auto simp: n_def k_def)

definition bufs_ok :: "sd \<Rightarrow> bool" where
  "bufs_ok st \<longleftrightarrow> length (g_buf st) = 520 \<and> length (g_stage st) = 2 \<and> (\<forall>b \<in> set (g_stage st). length b = 520)"

definition next_step :: "spi_hw \<Rightarrow> sd \<Rightarrow> (nat \<times> u8 list \<times> u8 list) list \<Rightarrow> u8 list \<Rightarrow> bool" where
  "next_step e st bs tail = (case bs of [] \<Rightarrow> True | (g, b, c) # bs' \<Rightarrow> in_step e st b (c @ sd_stream bs' @ tail))"

lemma next_step_overshoot:
  assumes "answers e (wire st) (drop k (sd_stream bs @ tail))" "k \<le> 3" "stream_ok bs"
  shows "next_step e (keep_overshoot (take k (sd_stream bs @ tail)) st) bs tail"
proof (cases bs)
  case (Cons x bs')
  obtain g b c where x: "x = (g, b, c)" by (cases x)
  have "g < 4800" "16 \<le> length b" using assms(3) by (simp_all add: Cons x stream_ok_def)
  moreover have "sd_stream bs @ tail = replicate g IDLE_BYTE @ DATA_TOKEN # b @ c @ sd_stream bs' @ tail" by (simp add: Cons x)
  ultimately show ?thesis using overshoot_step [OF _ assms(2), of e st g b "c @ sd_stream bs' @ tail"] assms(1)
    by (simp only:) (simp add: Cons x next_step_def)
qed (simp add: next_step_def)

lemma next_step_plain:
  assumes "answers e (wire st) (sd_stream bs @ tail)" "\<not> g_pend_token st" "stream_ok bs"
  shows "next_step e st bs tail"
  using assms by (auto simp: next_step_def in_step_def stream_ok_def split: list.split)

declare fifo_read.simps [simp del]

lemma fifo_read_step:
  assumes "healthy e" "length b = SD_BLOCK_SIZE" "length c = 2" "p + SD_BLOCK_SIZE \<le> length dst" "have \<le> SD_BLOCK_SIZE"
    and "spi_link_ok st" "\<not> g_dma_ok st" "answers e (wire st) (drop have b @ c @ rest)"
  shows "\<exists>st'. fifo_read e p have dst st = (True, put_at (p + have) (drop have b) dst, st') \<and> bus_calm st st' \<and> answers e (wire st') rest"
  using assms(4-8)
proof (induction "512 - have" arbitrary: "have" dst st rule: less_induct)
  case less
  have R: "\<exists>st1. spi3_read e (length xs) st = (Some xs, st1) \<and> wire st1 = after_ones (length xs) (wire st) \<and> bus_calm st st1"
    if "answers e (wire st) xs" "xs \<noteq> []" "length xs \<le> 64" for xs
    using less.prems(3,4) by (simp add: spi3_read_answers [OF assms(1) that] bus_calm_def spi_link_ok_def)
  show ?case
  proof (cases "have < SD_BLOCK_SIZE")
    case True
    define n where "n = (if SD_BLOCK_SIZE - have > SPI3_XFER_MAX then SPI3_XFER_MAX else SD_BLOCK_SIZE - have)"
    define xs where "xs = take n (drop have b)"
    have n: "0 < n" "n \<le> 64" "have + n \<le> 512" "length xs = n" using True assms(2) by (auto simp: n_def xs_def)
    have d: "drop have b = xs @ drop (have + n) b" unfolding xs_def by (metis append_take_drop_id drop_drop add.commute)
    have "answers e (wire st) xs" and a: "answers e (after_ones n (wire st)) (drop (have + n) b @ c @ rest)"
      using less.prems(5) n(4) by (simp_all add: d answers_append)
    from R [OF this(1)] n obtain st1 where st1: "spi3_read e n st = (Some xs, st1)" "wire st1 = after_ones n (wire st)" "bus_calm st st1" by auto
    have "p + SD_BLOCK_SIZE \<le> length (put_at (p + have) xs dst)" using less.prems(1) n by simp
    moreover have "spi_link_ok st1" "\<not> g_dma_ok st1" using st1(3) less.prems(3,4) by (simp_all add: bus_calm_def)
    moreover have "512 - (have + n) < 512 - have" "have + n \<le> SD_BLOCK_SIZE" using n True by simp_all
    moreover have "answers e (wire st1) (drop (have + n) b @ c @ rest)" using a st1(2) by simp
    ultimately have "\<exists>st'. fifo_read e p (have + n) (put_at (p + have) xs dst) st1
        = (True, put_at (p + (have + n)) (drop (have + n) b) (put_at (p + have) xs dst), st') \<and> bus_calm st1 st' \<and> answers e (wire st') rest"
      by (intro less.hyps)
    then obtain st' where st': "fifo_read e p (have + n) (put_at (p + have) xs dst) st1
        = (True, put_at (p + (have + n)) (drop (have + n) b) (put_at (p + have) xs dst), st')" "bus_calm st1 st'" "answers e (wire st') rest"
      by blast
    have "fifo_read e p have dst st = fifo_read e p (have + n) (put_at (p + have) xs dst) st1"
      using True st1(1) by (simp add: fifo_read.simps [of e p "have"] flip: n_def)
    moreover have "put_at (p + (have + n)) (drop (have + n) b) (put_at (p + have) xs dst) = put_at (p + have) (drop have b) dst"
      using put_at_join [of "p + have" xs "drop (have + n) b" dst] less.prems(1) n d assms(2) by (simp add: add.assoc)
    ultimately show ?thesis using st' st1(3) bus_calm_trans by auto
  next
    case False
    then have h: "have = 512" using less.prems(2) by simp
    have "answers e (wire st) c" and a: "answers e (after_ones 2 (wire st)) rest"
      using less.prems(5) assms(2,3) by (simp_all add: h answers_append)
    have "c \<noteq> []" "length c \<le> 64" using assms(3) by auto
    from R [OF \<open>answers e (wire st) c\<close> this] obtain st1 where
      "spi3_read e 2 st = (Some c, st1)" "wire st1 = after_ones 2 (wire st)" "bus_calm st st1" unfolding assms(3) by blast
    then show ?thesis using a assms(2) by (simp add: h fifo_read.simps [of e p 512] put_at_def)
  qed
qed

text \<open>The staged remainder of a block by DMA.\<close>

lemma staged_copy:
  assumes "length m = 520" "length b = SD_BLOCK_SIZE" "have \<le> SD_BLOCK_SIZE" "length xs \<le> 520" "take (SD_BLOCK_SIZE - have) xs = drop have b"
  shows "copy_out da (put_at 0 xs m) 0 (SD_BLOCK_SIZE - have) = drop have b"
proof -
  have l: "length (put_at 0 xs m) = 520" using assms(1,4) by simp
  have "SD_BLOCK_SIZE - have \<le> length xs" using arg_cong [OF assms(5), of length] assms(2) by simp
  then show ?thesis using copy_out_bytes [of 0 "SD_BLOCK_SIZE - have" "put_at 0 xs m" da] l assms by (simp add: put_at_front)
qed

lemma data_read_step:
  assumes "healthy e" "spi_link_ok st" "bufs_ok st" "\<not> g_pend_token st" "length b = SD_BLOCK_SIZE" "length c = 2" "have \<le> 15" "3 \<le> length tail"
    and "stream_ok bs" "p + SD_BLOCK_SIZE \<le> length dst" "answers e (wire st) (drop have b @ c @ sd_stream bs @ tail)"
  shows "\<exists>st'. data_read_hw e da p have dst st = (True, put_at (p + have) (drop have b) dst, st') \<and> next_step e st' bs tail
    \<and> spi_link_ok st' \<and> bufs_ok st' \<and> g_dma_ok st' = g_dma_ok st \<and> g_hw st' = g_hw st \<and> g_stage st' = g_stage st"
proof (cases "spi3_dma_enabled st")
  case True
  define n where "n = round_word (SD_BLOCK_SIZE - have + 2)"
  define k where "k = n - (SD_BLOCK_SIZE - have + 2)"
  define rest where "rest = sd_stream bs @ tail"
  define xs where "xs = drop have b @ c @ take k rest"
  have len: "3 \<le> length rest" using assms(8) by (simp add: rest_def)
  note S = remainder_slice [OF assms(5,6,7) len, folded n_def, folded k_def, folded xs_def]
  have ans: "answers e (wire st) xs" "answers e (after_ones n (wire st)) (drop k rest)"
    using assms(11) unfolding rest_def [symmetric] S(1) answers_append by (simp_all add: S(2))
  have "4 \<le> length xs" "length xs \<le> 520" using S(2,4-6) by (auto simp: dvd_imp_le mod_eq_0_iff_dvd)
  note R = spi3_read_dma_answers [OF assms(1) ans(1) this assms(2) True, unfolded S(2)]
  define st1 where "st1 = st\<lparr>wire := after_ones n (wire st), g_inflight := None, g_dma_transfers := g_dma_transfers st + 1\<rparr>"
  define st2 where "st2 = st1\<lparr>g_buf := put_at 0 xs (g_buf st1)\<rparr>"
  have buf: "length (g_buf st1) = 520" using assms(3) by (simp add: bufs_ok_def st1_def)
  have copy: "copy_out da' (g_buf st2) 0 (SD_BLOCK_SIZE - have) = drop have b" for da'
    using staged_copy [OF buf assms(5), of "have" xs] assms(5,7) S(2,5) by (simp add: st2_def xs_def)
  have over: "take (n - (SD_BLOCK_SIZE - have + 2)) (drop (SD_BLOCK_SIZE - have + 2) (g_buf st2)) = take k rest"
  proof -
    have "length (drop have b @ c) = SD_BLOCK_SIZE - have + 2" using assms(5,6) by simp
    moreover have "g_buf st2 = (drop have b @ c) @ take k rest @ drop n (g_buf st1)"
      using buf S(2,5) by (simp add: st2_def put_at_front) (simp add: xs_def)
    moreover have "length (take k rest) = k" using len S(3) by simp
    ultimately have "take k (drop (SD_BLOCK_SIZE - have + 2) (g_buf st2)) = take k rest" by (metis append_eq_conv_conj)
    then show ?thesis by (simp only: k_def [symmetric])
  qed
  have e: "data_read_hw e da p have dst st = (True, put_at (p + have) (drop have b) dst, keep_overshoot (take k rest) st2)"
  proof -
    have "spi3_read_dma e (round_word (SD_BLOCK_SIZE - have + 2)) st = (Some xs, st1)" using R by (simp only: n_def [symmetric] st1_def)
    then have "data_read_hw e da p have dst st =
        (True, put_at (p + have) (copy_out (da + of_nat (p + have)) (g_buf st2) 0 (SD_BLOCK_SIZE - have)) dst,
         keep_overshoot (take (n - (SD_BLOCK_SIZE - have + 2)) (drop (SD_BLOCK_SIZE - have + 2) (g_buf st2))) st2)"
      using True by (simp add: data_read_hw_def Let_def n_def st2_def)
    then show ?thesis by (simp only: over copy)
  qed
  have "answers e (wire st2) (drop k rest)" using ans(2) by (simp add: st2_def st1_def)
  then have "next_step e (keep_overshoot (take k rest) st2) bs tail"
    unfolding rest_def using S(3) assms(9) by (intro next_step_overshoot) (simp_all add: rest_def)
  moreover have "spi_link_ok (keep_overshoot (take k rest) st2)" "bufs_ok (keep_overshoot (take k rest) st2)"
    using assms(2,3) buf S(2,5) by (simp_all add: keep_overshoot_def st2_def st1_def spi_link_ok_def bufs_ok_def)
  ultimately show ?thesis unfolding e by (auto simp: keep_overshoot_def st2_def st1_def)
next
  case False
  have "have \<le> SD_BLOCK_SIZE" using assms(7) by simp
  from fifo_read_step [OF assms(1,5,6,10) this assms(2) False assms(11)] obtain st' where
    st': "fifo_read e p have dst st = (True, put_at (p + have) (drop have b) dst, st')" "bus_calm st st'" "answers e (wire st') (sd_stream bs @ tail)"
    by auto
  have "next_step e st' bs tail" using st'(2) assms(4) by (intro next_step_plain st'(3) assms(9)) (simp add: bus_calm_def)
  then show ?thesis using False st' assms(2,3) by (simp add: data_read_hw_def bus_calm_def bufs_ok_def)
qed


subsection \<open>A block of a burst, by DMA into a staging buffer\<close>

text \<open>A copy that is still due lies before the block in hand and in the other staging buffer.\<close>

definition due_ok :: "nat \<Rightarrow> (nat \<times> nat \<times> nat) option \<Rightarrow> sd \<Rightarrow> bool" where
  "due_ok i pc st \<longleftrightarrow> (case pc of None \<Rightarrow> True
     | Some (q, k, n) \<Rightarrow> g_dma_ok st \<and> k < 2 \<and> k \<noteq> i mod 2 \<and> n \<le> SD_BLOCK_SIZE \<and> q + n \<le> i * SD_BLOCK_SIZE)"

lemma stage_length: "bufs_ok st \<Longrightarrow> k < 2 \<Longrightarrow> length (g_stage st ! k) = 520"
  unfolding bufs_ok_def by (metis nth_mem)

lemma stage_copy:
  assumes "bufs_ok st" "k < 2" "n \<le> SD_BLOCK_SIZE"
  shows "copy_out da (g_stage st ! k) 0 n = take n (g_stage st ! k)"
  using copy_out_bytes [of 0 n "g_stage st ! k" da] stage_length [OF assms(1,2)] assms(3) by simp

lemma flush_put:
  assumes "due_ok i pc st" "bufs_ok st" "i * SD_BLOCK_SIZE + length bs \<le> length dst"
  shows "flush_copy da pc (put_at (i * SD_BLOCK_SIZE) bs dst) st = put_at (i * SD_BLOCK_SIZE) bs (flush_copy da pc dst st)"
    "length (flush_copy da pc dst st) = length dst"
proof -
  show "flush_copy da pc (put_at (i * SD_BLOCK_SIZE) bs dst) st = put_at (i * SD_BLOCK_SIZE) bs (flush_copy da pc dst st)"
    using assms stage_length [OF assms(2)]
    by (auto simp: flush_copy_def due_ok_def stage_copy put_at_swap split: option.split)
  show "length (flush_copy da pc dst st) = length dst"
    using assms stage_length [OF assms(2)]
    by (auto simp: flush_copy_def due_ok_def stage_copy split: option.split)
qed

lemma flush_same: "g_stage st' = g_stage st \<Longrightarrow> flush_copy da pc dst st' = flush_copy da pc dst st"
  by (cases pc) (auto simp: flush_copy_def)

lemma multi_data_step:
  assumes "healthy e" "spi_link_ok st" "bufs_ok st" "g_dma_ok st" "length b = SD_BLOCK_SIZE" "length c = 2" "have \<le> 15" "3 \<le> length tail"
    and "stream_ok bs" "due_ok i pc st" "answers e (wire st) (drop have b @ c @ sd_stream bs @ tail)"
  shows "\<exists>st'. multi_data e da i have pc dst st = (True, Some (i * SD_BLOCK_SIZE + have, i mod 2, SD_BLOCK_SIZE - have), flush_copy da pc dst st, st')
    \<and> (\<forall>da'. copy_out da' (g_stage st' ! (i mod 2)) 0 (SD_BLOCK_SIZE - have) = drop have b)
    \<and> next_step e st' bs tail \<and> spi_link_ok st' \<and> bufs_ok st' \<and> g_dma_ok st' \<and> g_hw st' = g_hw st"
proof -
  define n where "n = round_word (SD_BLOCK_SIZE - have + 2)"
  define k where "k = n - (SD_BLOCK_SIZE - have + 2)"
  define rest where "rest = sd_stream bs @ tail"
  define xs where "xs = drop have b @ c @ take k rest"
  have len: "3 \<le> length rest" using assms(8) by (simp add: rest_def)
  note S = remainder_slice [OF assms(5,6,7) len, folded n_def, folded k_def, folded xs_def]
  have ans: "answers e (wire st) xs" "answers e (after_ones n (wire st)) (drop k rest)"
    using assms(11) unfolding rest_def [symmetric] S(1) answers_append by (simp_all add: S(2))
  have "4 \<le> length xs" "length xs \<le> 520" using S(2,4-6) by (auto simp: dvd_imp_le mod_eq_0_iff_dvd)
  note R = dma_begin_answers [OF assms(1) ans(1) this assms(2,4), unfolded S(2)]
  have U: "stage_at e (i mod 2) \<noteq> 0 \<and> dma_usable (stage_at e (i mod 2)) (of_nat n)"
    using S(5,6) by (intro dma_usable_stage [OF assms(1)]) simp_all
  define m where "m = put_at 0 xs (g_stage st ! (i mod 2))"
  have m: "length (g_stage st ! (i mod 2)) = 520" "length m = 520" "i mod 2 < length (g_stage st)"
    using stage_length [OF assms(3), of "i mod 2"] assms(3) S(2,5) by (simp_all add: m_def bufs_ok_def)
  define st1 where "st1 = st\<lparr>wire := after_ones n (wire st), g_inflight := Some (Some xs), g_stage := (g_stage st)[i mod 2 := m]\<rparr>"
  define st2 where "st2 = st1\<lparr>g_inflight := None, g_dma_transfers := g_dma_transfers st1 + 1\<rparr>"
  have copy: "copy_out da' m 0 (SD_BLOCK_SIZE - have) = drop have b" for da'
    using staged_copy [OF m(1) assms(5), of "have" xs] assms(5,7) S(2,5) by (simp add: m_def xs_def)
  have stage: "g_stage st2 ! (i mod 2) = m" using m(3) by (simp add: st2_def st1_def)
  have over: "take k (drop (SD_BLOCK_SIZE - have + 2) m) = take k rest"
  proof -
    have "length (drop have b @ c) = SD_BLOCK_SIZE - have + 2" using assms(5,6) by simp
    moreover have "m = (drop have b @ c) @ take k rest @ drop n (g_stage st ! (i mod 2))"
      using m(1) S(2,5) by (simp add: m_def put_at_front) (simp add: xs_def)
    moreover have "length (take k rest) = k" using len S(3) by simp
    ultimately show ?thesis by (metis append_eq_conv_conj)
  qed
  have flush: "flush_copy da pc dst st1 = flush_copy da pc dst st"
    using assms(10) by (auto simp: flush_copy_def st1_def due_ok_def split: option.split)
  have e: "multi_data e da i have pc dst st = (True, Some (i * SD_BLOCK_SIZE + have, i mod 2, SD_BLOCK_SIZE - have),
      flush_copy da pc dst st, keep_overshoot (take k rest) st2)"
  proof -
    have "spi3_read_dma_start e (stage_at e (i mod 2)) n st = (True, st\<lparr>wire := after_ones n (wire st), g_inflight := Some (Some xs)\<rparr>)"
      using R U assms(2) by (simp add: spi3_read_dma_start_def spi_link_ok_def)
    moreover have "land (i mod 2) (st\<lparr>wire := after_ones n (wire st), g_inflight := Some (Some xs)\<rparr>) = st1"
      by (simp add: land_def st1_def m_def)
    moreover have "spi3_read_dma_collect st1 = (True, st2)"
      by (simp add: spi3_read_dma_collect_def collect_dma_def st1_def st2_def)
    ultimately have "multi_data e da i have pc dst st = (True, Some (i * SD_BLOCK_SIZE + have, i mod 2, SD_BLOCK_SIZE - have),
        flush_copy da pc dst st1, keep_overshoot (take (n - (SD_BLOCK_SIZE - have + 2)) (drop (SD_BLOCK_SIZE - have + 2) (g_stage st2 ! (i mod 2)))) st2)"
      unfolding multi_data_def Let_def n_def [symmetric] by simp
    then show ?thesis by (simp only: stage flush k_def [symmetric] over)
  qed
  have "answers e (wire st2) (drop k rest)" using ans(2) by (simp add: st2_def st1_def)
  then have "next_step e (keep_overshoot (take k rest) st2) bs tail"
    unfolding rest_def using S(3) assms(9) by (intro next_step_overshoot) (simp_all add: rest_def)
  moreover have "spi_link_ok (keep_overshoot (take k rest) st2)" using assms(2) by (simp add: keep_overshoot_def st2_def st1_def spi_link_ok_def)
  moreover have "bufs_ok (keep_overshoot (take k rest) st2)"
    using assms(3) m(2) by (auto simp: keep_overshoot_def st2_def st1_def bufs_ok_def dest: set_update_subset_insert [THEN subsetD])
  moreover have "g_stage (keep_overshoot (take k rest) st2) ! (i mod 2) = m" "g_dma_ok (keep_overshoot (take k rest) st2)"
    "g_hw (keep_overshoot (take k rest) st2) = g_hw st"
    using stage assms(4) by (simp_all add: keep_overshoot_def st2_def st1_def)
  ultimately show ?thesis unfolding e by (simp add: copy)
qed

subsection \<open>The whole burst\<close>

lemma sd_blocks_length:
  "stream_ok bs \<Longrightarrow> length (concat (List.map block_of bs)) = length bs * SD_BLOCK_SIZE"
  by (induction bs) (auto simp: stream_ok_def)

lemma next_step_cong:
  "wire st' = wire st \<Longrightarrow> g_pend_token st' = g_pend_token st \<Longrightarrow> g_pend st' = g_pend st \<Longrightarrow> next_step e st' bs tail = next_step e st bs tail"
  by (cases bs) (auto simp: next_step_def in_step_def)

theorem multi_loop_stream:
  assumes "healthy e" "3 \<le> length tail"
  shows "next_step e st bs tail \<Longrightarrow> spi_link_ok st \<Longrightarrow> bufs_ok st \<Longrightarrow> stream_ok bs \<Longrightarrow> due_ok i pc st
    \<Longrightarrow> (i + length bs) * SD_BLOCK_SIZE \<le> length dst
    \<Longrightarrow> \<exists>st'. multi_loop e da i (length bs) pc dst st
      = (SD_OK, put_at (i * SD_BLOCK_SIZE) (concat (List.map block_of bs)) (flush_copy da pc dst st), multi_stop e st')"
proof (induction bs arbitrary: i pc dst st)
  case Nil
  then show ?case by (auto simp: put_at_def)
next
  case (Cons x bs)
  obtain g b c where x: "x = (g, b, c)" by (cases x)
  have b: "length b = SD_BLOCK_SIZE" "length c = 2" "stream_ok bs" using Cons.prems(4) by (auto simp: x stream_ok_def)
  let ?p = "i * SD_BLOCK_SIZE"
  have len: "?p + SD_BLOCK_SIZE + length bs * SD_BLOCK_SIZE \<le> length dst" using Cons.prems(6) by simp
  have fl: "length (flush_copy da pc dst st) = length dst"
    using flush_put(2) [OF Cons.prems(5,3), of "[]" dst] len by simp
  from token_wait_step [OF assms(1) Cons.prems(2) _ b(1), of "c @ sd_stream bs @ tail" ?p dst] Cons.prems(1)
  obtain "have" st1 where w: "token_wait_hw e ?p dst st = (DATA_TOKEN, have, put_at ?p (take have b) dst, st1)" "have \<le> 15"
      "answers e (wire st1) (drop have b @ c @ sd_stream bs @ tail)" "\<not> g_pend_token st1" "spi_link_ok st1"
      and keep: "g_dma_ok st1 = g_dma_ok st" "g_stage st1 = g_stage st" "g_buf st1 = g_buf st"
    by (auto simp: x next_step_def)
  have bufs: "bufs_ok st1" using Cons.prems(3) keep by (simp add: bufs_ok_def)
  have due: "due_ok i pc st1" using Cons.prems(5) keep by (cases pc) (auto simp: due_ok_def)
  have f1: "flush_copy da pc (put_at ?p (take have b) dst) st1 = put_at ?p (take have b) (flush_copy da pc dst st)"
    using flush_put(1) [OF Cons.prems(5,3), of "take have b" dst da] len b(1) w(2) by (simp add: flush_same [OF keep(2)])
  have join: "put_at (?p + have) (drop have b) (put_at ?p (take have b) D) = put_at ?p b D" if "length D = length dst" for D
    using put_at_join [of ?p "take have b" "drop have b" D] that len b(1) w(2) by simp
  have all: "put_at (Suc i * SD_BLOCK_SIZE) (concat (List.map block_of bs)) (put_at ?p b D) = put_at ?p (concat (List.map block_of (x # bs))) D"
    if "length D = length dst" for D
    using put_at_join [of ?p b "concat (List.map block_of bs)" D] that len b(1) sd_blocks_length [OF b(3)] by (simp add: x add.commute)
  show ?case
  proof (cases "g_dma_ok st1")
    case True
    let ?d = "put_at ?p (take have b) (flush_copy da pc dst st)"
    from multi_data_step [OF assms(1) w(5) bufs True b(1,2) w(2) assms(2) b(3) due w(3), of da "put_at ?p (take have b) dst"]
    obtain st2 where st2: "multi_data e da i have pc (put_at ?p (take have b) dst) st1
          = (True, Some (?p + have, i mod 2, SD_BLOCK_SIZE - have), ?d, st2)"
        "\<And>da'. copy_out da' (g_stage st2 ! (i mod 2)) 0 (SD_BLOCK_SIZE - have) = drop have b"
        "next_step e st2 bs tail" "spi_link_ok st2" "bufs_ok st2" "g_dma_ok st2"
      unfolding f1 by blast
    define st3 where "st3 = st2\<lparr>g_blocks := g_blocks st2 + 1, g_multi_blocks := g_multi_blocks st2 + 1\<rparr>"
    have "next_step e st3 bs tail = next_step e st2 bs tail" by (rule next_step_cong) (simp_all add: st3_def)
    then have st3: "next_step e st3 bs tail" "spi_link_ok st3" "bufs_ok st3" "due_ok (Suc i) (Some (?p + have, i mod 2, SD_BLOCK_SIZE - have)) st3"
      using st2(3-6) w(2) by (simp_all, simp_all add: st3_def spi_link_ok_def bufs_ok_def due_ok_def mod_Suc)
    have "(Suc i + length bs) * SD_BLOCK_SIZE \<le> length ?d" using len fl b(1) w(2) by simp
    from Cons.IH [OF st3(1-2) st3(3) b(3) st3(4) this] obtain st' where st': "multi_loop e da (Suc i) (length bs)
        (Some (?p + have, i mod 2, SD_BLOCK_SIZE - have)) ?d st3 = (SD_OK, put_at (Suc i * SD_BLOCK_SIZE) (concat (List.map block_of bs))
          (flush_copy da (Some (?p + have, i mod 2, SD_BLOCK_SIZE - have)) ?d st3), multi_stop e st')" by blast
    have "g_stage st3 = g_stage st2" by (simp add: st3_def)
    then have fl3: "flush_copy da (Some (?p + have, i mod 2, SD_BLOCK_SIZE - have)) ?d st3 = put_at ?p b (flush_copy da pc dst st)"
      by (simp add: flush_copy_def [of da "Some (i * SD_BLOCK_SIZE + have, i mod 2, SD_BLOCK_SIZE - have)"] st2(2) join fl)
    have "multi_loop e da i (length (x # bs)) pc dst st
        = multi_loop e da (Suc i) (length bs) (Some (?p + have, i mod 2, SD_BLOCK_SIZE - have)) ?d st3"
      using w(1) True st2(1) by (simp add: st3_def)
    then show ?thesis by (intro exI [of _ st']) (simp only: st' fl3 all [OF fl])
  next
    case False
    have pc: "pc = None" using due False by (auto simp: due_ok_def split: option.splits)
    have "?p + SD_BLOCK_SIZE \<le> length (put_at ?p (take have b) dst)" using len b(1) w(2) by simp
    from data_read_step [OF assms(1) w(5) bufs w(4) b(1,2) w(2) assms(2) b(3) this w(3), of da] obtain st2 where
      st2: "data_read_hw e da ?p have (put_at ?p (take have b) dst) st1 = (True, put_at ?p b dst, st2)"
        "next_step e st2 bs tail" "spi_link_ok st2" "bufs_ok st2" by (auto simp: join)
    define st3 where "st3 = st2\<lparr>g_blocks := g_blocks st2 + 1, g_multi_blocks := g_multi_blocks st2 + 1\<rparr>"
    have "next_step e st3 bs tail = next_step e st2 bs tail" by (rule next_step_cong) (simp_all add: st3_def)
    then have st3: "next_step e st3 bs tail" "spi_link_ok st3" "bufs_ok st3" "due_ok (Suc i) pc st3"
      using st2(2-4) by (simp_all, simp_all add: st3_def spi_link_ok_def bufs_ok_def due_ok_def pc)
    have "(Suc i + length bs) * SD_BLOCK_SIZE \<le> length (put_at ?p b dst)" using len b(1) by simp
    from Cons.IH [OF st3(1-2) st3(3) b(3) st3(4) this] obtain st' where st': "multi_loop e da (Suc i) (length bs) pc (put_at ?p b dst) st3
        = (SD_OK, put_at (Suc i * SD_BLOCK_SIZE) (concat (List.map block_of bs)) (put_at ?p b dst), multi_stop e st')"
      by (auto simp: pc flush_copy_def)
    have "multi_loop e da i (length (x # bs)) pc dst st = multi_loop e da (Suc i) (length bs) pc (put_at ?p b dst) st3"
      using w(1) False st2(1) by (simp add: st3_def)
    moreover have "flush_copy da pc dst st = dst" by (simp add: pc flush_copy_def)
    ultimately show ?thesis by (intro exI [of _ st']) (simp only: st' all [OF refl])
  qed
qed

subsection \<open>What a command leaves alone\<close>

lemma spi3_xfer_dma_calm: "healthy e \<Longrightarrow> 4 \<le> length tx \<Longrightarrow> spi_link_ok st \<Longrightarrow> bus_calm st (snd (spi3_xfer_dma e tx st))"
proof -
  assume h: "healthy e" "4 \<le> length tx" "spi_link_ok st"
  obtain rx w where c: "clock_bytes e tx (wire st) = (rx, w)" by fastforce
  then have "engine e (wire st) rx = Some rx" using h(1,2) length_clock_bytes [of e tx "wire st"] by (simp add: healthy_def)
  then show ?thesis using h(3) c by (auto simp: spi3_xfer_dma_def dma_begin_def collect_dma_def spi_link_ok_def bus_calm_def)
qed

lemma spi3_read_dma_calm: "healthy e \<Longrightarrow> 4 \<le> n \<Longrightarrow> spi_link_ok st \<Longrightarrow> bus_calm st (snd (spi3_read_dma e n st))"
  unfolding spi3_read_dma_def by (rule spi3_xfer_dma_calm) (simp_all add: ones_def)

lemma bus_calm_link: "bus_calm st st' \<Longrightarrow> spi_link_ok st \<Longrightarrow> spi_link_ok st'"
  by (simp add: bus_calm_def)

lemma idle_looks_calm: "healthy e \<Longrightarrow> spi_link_ok st \<Longrightarrow> bus_calm st (snd (idle_looks e t st))"
proof (induction t arbitrary: st)
  case (Suc t)
  obtain r st1 where r: "spi3_read_dma e 16 st = (r, st1)" by fastforce
  then have c: "bus_calm st st1" using spi3_read_dma_calm [OF Suc.prems(1) _ Suc.prems(2), of 16] by simp
  show ?case using r c Suc.IH [OF Suc.prems(1) bus_calm_link [OF c Suc.prems(2)]] by (auto split: option.split intro: bus_calm_trans)
qed simp

lemma bus_calm_r1 [simp]: "bus_calm st (st'\<lparr>g_last_r1 := r\<rparr>) \<longleftrightarrow> bus_calm st st'"
  by (simp add: bus_calm_def spi_link_ok_def)

lemma r1_batches_calm: "healthy e \<Longrightarrow> spi_link_ok st \<Longrightarrow> bus_calm st (snd (r1_batches e t st))"
proof (induction t arbitrary: st)
  case (Suc t)
  obtain r st1 where r: "spi3_read_dma e 16 st = (r, st1)" by fastforce
  then have c: "bus_calm st st1" using spi3_read_dma_calm [OF Suc.prems(1) _ Suc.prems(2), of 16] by simp
  show ?case using r c Suc.IH [OF Suc.prems(1) bus_calm_link [OF c Suc.prems(2)]] by (auto split: option.split intro: bus_calm_trans)
qed simp

lemma sd_command_hw_calm:
  assumes "healthy e" "spi_link_ok st"
  shows "bus_calm (st\<lparr>g_pend_token := False, g_pend := []\<rparr>) (snd (sd_command_hw e cmd arg st))"
proof -
  let ?s = "st\<lparr>g_pend_token := False, g_pend := []\<rparr>"
  obtain ok st1 where 1: "idle_looks e 4 ?s = (ok, st1)" by fastforce
  obtain r st2 where 2: "spi3_xfer_dma e (command_bytes cmd arg @ [0xFF, 0xFF]) st1 = (r, st2)" by fastforce
  have l: "spi_link_ok ?s" using assms(2) by (simp add: spi_link_ok_def)
  have c1: "bus_calm ?s st1" using idle_looks_calm [OF assms(1) l, of 4] 1 by simp
  have c2: "bus_calm st1 st2" using spi3_xfer_dma_calm [OF assms(1) _ bus_calm_link [OF c1 l], of "command_bytes cmd arg @ [0xFF, 0xFF]"] 2 by (simp add: command_bytes_def)
  have c3: "bus_calm st2 (snd (r1_batches e 2 st2))" using r1_batches_calm [OF assms(1)] bus_calm_link [OF c2] bus_calm_link [OF c1 l] by blast
  show ?thesis using 1 2 c1 c2 c3 by (cases ok; cases r) (auto simp: sd_command_hw_def split: option.split intro: bus_calm_trans)
qed

lemma sd_xfer_calm: "g_hw st \<Longrightarrow> \<not> g_dma_ok st \<Longrightarrow> bus_calm st (snd (sd_xfer e b st))"
  by (auto simp: sd_xfer_def spi3_xfer_def bus_calm_def spi_link_ok_def split: prod.split)

lemma bus_calm_regs: "bus_calm st st' \<Longrightarrow> g_hw st \<Longrightarrow> \<not> g_dma_ok st \<Longrightarrow> g_hw st' \<and> \<not> g_dma_ok st'"
  by (simp add: bus_calm_def)

lemma rx_until_idle_calm: "g_hw st \<Longrightarrow> \<not> g_dma_ok st \<Longrightarrow> bus_calm st (rx_until_idle e n st)"
proof (induction n arbitrary: st)
  case (Suc n)
  obtain b st1 where r: "sd_rx e st = (b, st1)" by fastforce
  then have c: "bus_calm st st1" using sd_xfer_calm [OF Suc.prems, of e "0xFF"] by (simp add: sd_rx_def)
  show ?case using r c Suc.IH [of st1] bus_calm_regs [OF c Suc.prems] by (auto intro: bus_calm_trans)
qed simp

lemma xfer_all_calm: "g_hw st \<Longrightarrow> \<not> g_dma_ok st \<Longrightarrow> bus_calm st (xfer_all e bs st)"
proof (induction bs arbitrary: st)
  case (Cons b bs)
  have c: "bus_calm st (snd (sd_xfer e b st))" using sd_xfer_calm [OF Cons.prems] .
  show ?case using c Cons.IH [of "snd (sd_xfer e b st)"] bus_calm_regs [OF c Cons.prems] by (auto intro: bus_calm_trans)
qed simp

lemma rx_r1_calm: "g_hw st \<Longrightarrow> \<not> g_dma_ok st \<Longrightarrow> bus_calm st (snd (rx_r1 e n r st))"
proof (induction n arbitrary: r st)
  case (Suc n)
  obtain b st1 where x: "sd_rx e st = (b, st1)" by fastforce
  then have c: "bus_calm st st1" using sd_xfer_calm [OF Suc.prems, of e "0xFF"] by (simp add: sd_rx_def)
  show ?case using x c Suc.IH [of st1 b] bus_calm_regs [OF c Suc.prems] by (auto intro: bus_calm_trans)
qed simp

lemma sd_command_calm:
  assumes "healthy e" "spi_link_ok st" "g_hw st" "\<not> g_pend_token st"
  obtains st' r where "sd_command e cmd arg st = (r, st')" "spi_link_ok st'" "g_dma_ok st' = g_dma_ok st" "g_hw st'"
    "\<not> g_pend_token st'" "g_stage st' = g_stage st" "g_buf st' = g_buf st"
proof -
  let ?s = "sd_command e cmd arg st"
  have "spi_link_ok (snd ?s) \<and> g_dma_ok (snd ?s) = g_dma_ok st \<and> g_hw (snd ?s) \<and> \<not> g_pend_token (snd ?s) \<and> g_stage (snd ?s) = g_stage st
      \<and> g_buf (snd ?s) = g_buf st"
  proof (cases "g_dma_ok st")
    case True
    then have "?s = sd_command_hw e cmd arg st" using assms(3) by (simp add: sd_command_def)
    then show ?thesis using sd_command_hw_calm [OF assms(1,2), of cmd arg] assms(2,3) by (simp add: bus_calm_def spi_link_ok_def)
  next
    case False
    let ?a = "rx_until_idle e 10 st" and ?b = "xfer_all e (command_bytes cmd arg) (rx_until_idle e 10 st)"
    have a: "bus_calm st ?a" by (rule rx_until_idle_calm [OF assms(3) False])
    have b: "bus_calm ?a ?b" using xfer_all_calm bus_calm_regs [OF a assms(3) False] by blast
    have "bus_calm ?b (snd (rx_r1 e 16 0xFF ?b))" using rx_r1_calm bus_calm_regs [OF bus_calm_trans [OF a b] assms(3) False] by blast
    then have "bus_calm st (snd (rx_r1 e 16 0xFF ?b))" using a b bus_calm_trans by blast
    moreover have "snd ?s = (snd (rx_r1 e 16 0xFF ?b))\<lparr>g_last_r1 := g_last_r1 (snd ?s)\<rparr>"
      using False by (simp add: sd_command_def split: prod.split)
    ultimately have "bus_calm st (snd ?s)" by (metis bus_calm_r1)
    then show ?thesis using assms by (simp add: bus_calm_def)
  qed
  then show thesis using that [of "fst ?s" "snd ?s"] by auto
qed

subsection \<open>Reading blocks\<close>

text \<open>
  Reading several blocks (C22): on a bus that works, when the card accepts the command and then sends its blocks, each after fewer than 4800 idle bytes, the driver returns
  them in order in the caller's buffer, at any address, by DMA or through the registers, although transfers read past each block.
\<close>

theorem sd_read_blocks_stream:
  assumes "healthy e" "spi_link_ok st" "bufs_ok st" "g_hw st" "\<not> g_pend_token st" "g_type st \<noteq> SD_TYPE_NONE"
    and "sd_command e CMD18_READ_MULTI (block_addr lba st) (cs_low st) = (0, st1)"
    and "answers e (wire st1) (sd_stream bs @ tail)" "3 \<le> length tail" "stream_ok bs"
    and "3 \<le> length bs" "length bs * SD_BLOCK_SIZE \<le> length dst"
  shows "\<exists>st'. sd_read_blocks e lba (length bs) da dst st
    = (SD_OK, concat (List.map block_of bs) @ drop (length bs * SD_BLOCK_SIZE) dst, st')"
proof -
  define st2 where "st2 = st1\<lparr>g_multi_bursts := g_multi_bursts st1 + 1\<rparr>"
  have c: "spi_link_ok (cs_low st)" "g_hw (cs_low st)" "\<not> g_pend_token (cs_low st)" "g_stage (cs_low st) = g_stage st" "g_buf (cs_low st) = g_buf st"
    using assms(2,4,5) by (simp_all add: cs_low_def put_event_def spi_link_ok_def)
  have k: "spi_link_ok st1" "\<not> g_pend_token st1" "g_stage st1 = g_stage st" "g_buf st1 = g_buf st"
    using sd_command_calm [OF assms(1) c(1-3), of CMD18_READ_MULTI "block_addr lba st"] assms(7) c(4,5) by (metis prod.inject)+
  have "next_step e st2 bs tail" using assms(8,10) k(2) by (intro next_step_plain) (simp_all add: st2_def)
  moreover have "spi_link_ok st2" "bufs_ok st2" "due_ok 0 None st2"
    using k assms(3) by (simp_all add: st2_def spi_link_ok_def bufs_ok_def due_ok_def)
  moreover have "(0 + length bs) * SD_BLOCK_SIZE \<le> length dst" using assms(12) by simp
  ultimately obtain st' where "multi_loop e da 0 (length bs) None dst st2
      = (SD_OK, put_at (0 * SD_BLOCK_SIZE) (concat (List.map block_of bs)) (flush_copy da None dst st2), multi_stop e st')"
    using multi_loop_stream [OF assms(1,9), of st2 bs 0 None dst da] assms(10) by blast
  moreover have "length bs \<noteq> 0" "\<not> length bs < 3" using assms(11) by linarith+
  ultimately have "read_blocks_once e lba (length bs) da dst st
      = (SD_OK, put_at 0 (concat (List.map block_of bs)) dst, multi_stop e st')"
    using assms(4,6,7) by (simp add: read_blocks_once_def st2_def flush_copy_def)
  then show ?thesis using assms(12) by (simp add: sd_read_blocks_def retried_def put_at_front sd_blocks_length [OF assms(10)])
qed

text \<open>The same for one block.\<close>

theorem sd_read_block_stream:
  assumes "healthy e" "spi_link_ok st" "bufs_ok st" "g_hw st" "\<not> g_pend_token st" "g_type st \<noteq> SD_TYPE_NONE"
    and "sd_command e CMD17_READ_SINGLE (block_addr lba st) (cs_low st) = (0, st1)"
    and "answers e (wire st1) (sd_stream [(g, b, c)] @ tail)" "3 \<le> length tail" "stream_ok [(g, b, c)]" "SD_BLOCK_SIZE \<le> length dst"
  shows "\<exists>st'. sd_read_block e lba da dst st = (SD_OK, b @ drop SD_BLOCK_SIZE dst, st')"
proof -
  have c: "spi_link_ok (cs_low st)" "g_hw (cs_low st)" "\<not> g_pend_token (cs_low st)" "g_stage (cs_low st) = g_stage st" "g_buf (cs_low st) = g_buf st"
    using assms(2,4,5) by (simp_all add: cs_low_def put_event_def spi_link_ok_def)
  have k: "spi_link_ok st1" "\<not> g_pend_token st1" "g_stage st1 = g_stage st" "g_buf st1 = g_buf st" "g_hw st1"
    using sd_command_calm [OF assms(1) c(1-3), of CMD17_READ_SINGLE "block_addr lba st"] assms(7) c(4,5) by (metis prod.inject)+
  have l: "length b = SD_BLOCK_SIZE" "length c = 2" using assms(10) by (simp_all add: stream_ok_def)
  have "next_step e st1 [(g, b, c)] tail" using assms(8,10) k(2) by (intro next_step_plain)
  then have "in_step e st1 b (c @ tail)" by (simp add: next_step_def)
  from token_wait_step [OF assms(1) k(1) this l(1), of 0 dst] obtain "have" st2 where
    w: "token_wait_hw e 0 dst st1 = (DATA_TOKEN, have, put_at 0 (take have b) dst, st2)" "have \<le> 15"
      "answers e (wire st2) (drop have b @ c @ sd_stream [] @ tail)" "\<not> g_pend_token st2" "spi_link_ok st2" "g_hw st2"
      "g_stage st2 = g_stage st" "g_buf st2 = g_buf st" using k by auto
  have "bufs_ok st2" "stream_ok []" "0 + SD_BLOCK_SIZE \<le> length (put_at 0 (take have b) dst)"
    using assms(3,11) w(2,7,8) l by (simp_all add: bufs_ok_def stream_ok_def)
  from data_read_step [OF assms(1) w(5) this(1) w(4) l w(2) assms(9) this(2,3) w(3), of da] obtain st3 where
    st3: "data_read_hw e da 0 have (put_at 0 (take have b) dst) st2 = (True, put_at (0 + have) (drop have b) (put_at 0 (take have b) dst), st3)"
    by blast
  have "put_at (0 + have) (drop have b) (put_at 0 (take have b) dst) = b @ drop SD_BLOCK_SIZE dst"
    using put_at_join [of 0 "take have b" "drop have b" dst] assms(11) l w(2) by (simp add: put_at_front)
  then show ?thesis using assms(6,7) k(5) w(1,6) st3
    by (simp add: sd_read_block_def read_block_at_def read_block_once_def retried_def)
qed

subsection \<open>An empty slot\<close>

definition slot_empty :: "spi_hw \<Rightarrow> bool" where
  "slot_empty e \<longleftrightarrow> (\<forall>h. miso e h)"

lemma empty_byte: "slot_empty e \<Longrightarrow> fst (clock_byte e b h) = 0xFF"
proof -
  assume e: "slot_empty e"
  then have "fst (clock_byte e b h) = push_bit 1 (push_bit 1 (push_bit 1 (push_bit 1 (push_bit 1 (push_bit 1 (push_bit 1 (push_bit 1 0 OR 1) OR 1) OR 1) OR 1)
    OR 1) OR 1) OR 1) OR (1 :: u8)"
    by (simp only: clock_byte_def clock_bits.simps Let_def fst_conv slot_empty_def of_bool_eq simp_thms)
  also have "\<dots> = 0xFF" by code_simp
  finally show ?thesis .
qed

definition slow_none :: "sd \<Rightarrow> bool" where
  "slow_none st \<longleftrightarrow> \<not> g_hw st \<and> g_type st = SD_TYPE_NONE"

lemma empty_xfer: "slot_empty e \<Longrightarrow> slow_none st \<Longrightarrow> fst (sd_xfer e b st) = 0xFF \<and> slow_none (snd (sd_xfer e b st))"
  using empty_byte [of e b "wire st"] by (auto simp: sd_xfer_def slow_none_def split: prod.split)

lemma empty_rx_until_idle: "slot_empty e \<Longrightarrow> slow_none st \<Longrightarrow> slow_none (rx_until_idle e n st)"
  using empty_xfer [of e st "0xFF"] by (cases n) (auto simp: sd_rx_def split: prod.split)

lemma empty_xfer_all: "slot_empty e \<Longrightarrow> slow_none st \<Longrightarrow> slow_none (xfer_all e bs st)"
  by (induction bs arbitrary: st) (simp_all add: empty_xfer)

lemma empty_rx_r1: "slot_empty e \<Longrightarrow> slow_none st \<Longrightarrow> fst (rx_r1 e n 0xFF st) = 0xFF \<and> slow_none (snd (rx_r1 e n 0xFF st))"
proof (induction n arbitrary: st)
  case (Suc n)
  obtain b st1 where x: "sd_rx e st = (b, st1)" by fastforce
  then have b: "b = 0xFF" "slow_none st1" using empty_xfer [OF Suc.prems, of "0xFF"] by (simp_all add: sd_rx_def)
  show ?case using Suc.IH [OF Suc.prems(1) b(2)] by (simp add: x b(1))
qed simp

lemma empty_command:
  assumes "slot_empty e" "slow_none st"
  shows "fst (sd_command e cmd arg st) = 0xFF \<and> slow_none (snd (sd_command e cmd arg st))"
proof -
  have "\<not> g_hw st" using assms(2) by (simp add: slow_none_def)
  moreover note empty_rx_r1 [OF assms(1) empty_xfer_all [OF assms(1) empty_rx_until_idle [OF assms]], of 16 "command_bytes cmd arg" 10]
  ultimately show ?thesis by (auto simp: sd_command_def slow_none_def split: prod.split)
qed

lemma empty_go_idle: "slot_empty e \<Longrightarrow> slow_none st \<Longrightarrow> fst (go_idle_tries e n 0xFF st) = 0xFF \<and> slow_none (snd (go_idle_tries e n 0xFF st))"
proof (induction n arbitrary: st)
  case (Suc n)
  obtain b st1 where x: "sd_command e CMD0_GO_IDLE 0 st = (b, st1)" by fastforce
  then have b: "b = 0xFF" "slow_none st1" using empty_command [OF Suc.prems, of CMD0_GO_IDLE 0] by simp_all
  show ?case using Suc.IH [OF Suc.prems(1) b(2)] by (simp add: x b(1))
qed simp

lemma empty_rx_times: "slot_empty e \<Longrightarrow> slow_none st \<Longrightarrow> slow_none (rx_times e n st)"
  by (induction n arbitrary: st) (simp_all add: empty_xfer sd_rx_def)

text \<open>
  An empty slot (C24): the line stays high, the identification gives up after its bounded tries with \<open>SD_ERR_IDLE\<close>, and reads then fail at once
  without a byte in the caller's buffer.
\<close>

theorem sd_empty_slot:
  assumes "slot_empty e"
  shows "\<exists>st'. sd_init e st = (SD_ERR_IDLE, st') \<and> sd_speed st' = 0 \<and> sd_read_block e lba da dst st' = (SD_ERR_IDLE, dst, st')
    \<and> (count \<noteq> 0 \<longrightarrow> sd_read_blocks e lba count da dst st' = (SD_ERR_IDLE, dst, st'))"
proof -
  define s0 where "s0 = put_event Pins_gpio (st\<lparr>g_attempts := g_attempts st + 1, g_type := SD_TYPE_NONE, g_half_us := 2, g_hw := False\<rparr>)"
  obtain r st1 where 1: "go_idle_tries e 8 0xFF (cs_low (rx_times e 10 s0)) = (r, st1)" by fastforce
  have "slow_none s0" by (simp add: s0_def slow_none_def put_event_def)
  then have "slow_none (cs_low (rx_times e 10 s0))"
    using empty_rx_times [OF assms, of s0 10] by (simp add: cs_low_def put_event_def slow_none_def)
  from empty_go_idle [OF assms this, of 8] have r: "r = 0xFF" "slow_none st1" by (simp_all add: 1)
  have i: "sd_init e st = (SD_ERR_IDLE, cs_high e st1)" using 1 r(1) by (simp add: sd_init_def s0_def)
  have n: "slow_none (cs_high e st1)"
    using r(2) empty_xfer [OF assms, of "put_event (Cs True) st1" "0xFF"]
    by (auto simp: cs_high_def put_event_def slow_none_def sd_rx_def Let_def)
  have f: "read_block_at e l a p d (cs_high e st1) = (SD_ERR_IDLE, d, cs_high e st1)" for l a p d
    using n by (simp add: read_block_at_def read_block_once_def slow_none_def retried_def)
  have "count \<noteq> 0 \<longrightarrow> sd_read_blocks e lba count da dst (cs_high e st1) = (SD_ERR_IDLE, dst, cs_high e st1)"
    using n f by (cases count) (simp_all add: sd_read_blocks_def read_blocks_once_def slow_none_def retried_def)
  then show ?thesis using i n f by (simp add: sd_speed_def slow_none_def sd_read_block_def)
qed

subsection \<open>A card that plays back bytes\<close>

definition edges :: "spi_event list \<Rightarrow> nat" where
  "edges h = length (filter (\<lambda>v. case v of Sck _ \<Rightarrow> True | _ \<Rightarrow> False) h)"

definition played :: "u8 list \<Rightarrow> spi_hw" where
  "played m = \<lparr>miso = (\<lambda>h. bit (m ! ((edges h - 1) div 8)) (7 - (edges h - 1) mod 8)), shifts = (\<lambda>_. True), engine = (\<lambda>_ bs. Some bs), in_dram = True, stage_at = (\<lambda>k. 0x3FFB0000 + 520 * of_nat k)\<rparr>"

lemma edges_append [simp]: "edges (h @ [Sck b]) = edges h + 1"
  by (simp add: edges_def)

lemma healthy_played: "healthy (played m)"
  by (auto simp: healthy_def played_def less_2_cases_iff)

lemma byte_bits:
  fixes x :: u8
  shows "push_bit 1 (push_bit 1 (push_bit 1 (push_bit 1 (push_bit 1 (push_bit 1 (push_bit 1 (push_bit 1 0 OR of_bool (bit x 7)) OR of_bool (bit x 6))
    OR of_bool (bit x 5)) OR of_bool (bit x 4)) OR of_bool (bit x 3)) OR of_bool (bit x 2)) OR of_bool (bit x 1)) OR of_bool (bit x 0) = x" (is "?l = x")
proof (rule bit_eqI)
  fix n assume "possible_bit TYPE(8 word) n"
  then have "n = 0 \<or> n = 1 \<or> n = 2 \<or> n = 3 \<or> n = 4 \<or> n = 5 \<or> n = 6 \<or> n = 7" by (simp add: less_Suc_eq numeral_eq_Suc)
  then show "bit ?l n \<longleftrightarrow> bit x n"
    by (elim disjE; simp only: bit_or_iff bit_push_bit_iff bit_of_bool_iff bit_0_eq; simp)
qed

lemma played_byte:
  assumes "edges h = 8 * p"
  shows "fst (clock_byte (played m) out h) = m ! p" "edges (snd (clock_byte (played m) out h)) = 8 * (p + 1)"
proof -
  have d: "(8 * p + k) div 8 = p" "(8 * p + k) mod 8 = k" if "k < 8" for k using that by simp_all
  have d0: "8 * p div 8 = p" "8 * p mod 8 = 0" by simp_all
  have m: "7 - 0 = (7 :: nat)" "7 - 1 = (6 :: nat)" "7 - 2 = (5 :: nat)" "7 - 3 = (4 :: nat)" "7 - 4 = (3 :: nat)" "7 - 5 = (2 :: nat)"
    "7 - 6 = (1 :: nat)" "7 - 7 = (0 :: nat)" by simp_all
  have n: "8 * p + 1 + 1 + 1 + 1 + 1 + 1 + 1 + 1 - 1 = 8 * p + 7" "8 * p + 1 + 1 + 1 + 1 + 1 + 1 + 1 - 1 = 8 * p + 6"
    "8 * p + 1 + 1 + 1 + 1 + 1 + 1 - 1 = 8 * p + 5" "8 * p + 1 + 1 + 1 + 1 + 1 - 1 = 8 * p + 4" "8 * p + 1 + 1 + 1 + 1 - 1 = 8 * p + 3"
    "8 * p + 1 + 1 + 1 - 1 = 8 * p + 2" "8 * p + 1 + 1 - 1 = 8 * p + 1" "8 * p + 1 - 1 = 8 * p" by simp_all
  have "fst (clock_byte (played m) out h) = push_bit 1 (push_bit 1 (push_bit 1 (push_bit 1 (push_bit 1 (push_bit 1 (push_bit 1 (push_bit 1 0 OR of_bool (bit (m ! p) 7))
    OR of_bool (bit (m ! p) 6)) OR of_bool (bit (m ! p) 5)) OR of_bool (bit (m ! p) 4)) OR of_bool (bit (m ! p) 3)) OR of_bool (bit (m ! p) 2))
    OR of_bool (bit (m ! p) 1)) OR of_bool (bit (m ! p) 0)"
    by (simp only: clock_byte_def clock_bits.simps Let_def fst_conv played_def spi_hw.simps edges_append assms n)
      (simp only: d0 d(1) [of 1] d(1) [of 2] d(1) [of 3] d(1) [of 4] d(1) [of 5] d(1) [of 6] d(1) [of 7] d(2) [of 1] d(2) [of 2]
        d(2) [of 3] d(2) [of 4] d(2) [of 5] d(2) [of 6] d(2) [of 7] m)
  then show "fst (clock_byte (played m) out h) = m ! p" by (simp only: byte_bits)
  show "edges (snd (clock_byte (played m) out h)) = 8 * (p + 1)"
    using assms by (simp add: clock_byte_def Let_def del: append_assoc)
qed

lemma played_bytes:
  assumes "edges h = 8 * p" "p + length tx \<le> length m"
  shows "fst (clock_bytes (played m) tx h) = take (length tx) (drop p m) \<and> edges (snd (clock_bytes (played m) tx h)) = 8 * (p + length tx)"
  using assms
proof (induction tx arbitrary: h p)
  case (Cons b bs)
  obtain i h1 where 1: "clock_byte (played m) b h = (i, h1)" by fastforce
  have i: "i = m ! p" "edges h1 = 8 * (p + 1)" using played_byte [OF Cons.prems(1), of m b] 1 by simp_all
  have "p < length m" using Cons.prems(2) by simp
  then have "drop p m = m ! p # drop (p + 1) m" by (simp add: Cons_nth_drop_Suc)
  moreover obtain rx h2 where 2: "clock_bytes (played m) bs h1 = (rx, h2)" by fastforce
  moreover have "rx = take (length bs) (drop (p + 1) m) \<and> edges h2 = 8 * (p + 1 + length bs)"
    using Cons.IH [OF i(2)] Cons.prems(2) 2 by simp
  ultimately show ?case using 1 i(1) by simp
qed simp

lemma played_answers: "edges h = 8 * p \<Longrightarrow> p + length xs \<le> length m \<Longrightarrow> take (length xs) (drop p m) = xs \<Longrightarrow> answers (played m) h xs"
  using played_bytes [of h p "ones (length xs)" m] by (simp add: answers_def ones_def)

lemma played_dma:
  assumes "spi_link_ok st" "g_dma_ok st" "tx \<noteq> []" "length tx \<le> 520" "edges (wire st) = 8 * p" "p + length tx \<le> length m"
  obtains st' where "spi3_xfer_dma (played m) tx st = (Some (take (length tx) (drop p m)), st')" "edges (wire st') = 8 * (p + length tx)"
    "spi_link_ok st'" "g_dma_ok st'"
proof -
  obtain rx h where 1: "clock_bytes (played m) tx (wire st) = (rx, h)" by fastforce
  then have "rx = take (length tx) (drop p m)" "edges h = 8 * (p + length tx)" using played_bytes [OF assms(5,6)] by simp_all
  then show thesis using 1 assms(1-4)
    by (intro that [of "st\<lparr>wire := h, g_inflight := None, g_dma_transfers := g_dma_transfers st + 1\<rparr>"])
      (simp_all add: spi3_xfer_dma_def dma_begin_def collect_dma_def played_def spi_link_ok_def)
qed

lemma played_command:
  assumes "spi_link_ok st" "g_dma_ok st" "g_hw st" "edges (wire st) = 8 * p" "p + 24 \<le> length m" "take 24 (drop p m) = replicate 23 0xFF @ [0]"
  obtains st1 where "sd_command (played m) cmd arg st = (0, st1)" "edges (wire st1) = 8 * (p + 24)"
proof -
  let ?s = "st\<lparr>g_pend_token := False, g_pend := []\<rparr>"
  have s: "spi_link_ok ?s" "g_dma_ok ?s" "edges (wire ?s) = 8 * p" using assms(1,2,4) by (simp_all add: spi_link_ok_def)
  have "take 16 (take 24 (drop p m)) = take 16 (drop p m)" by simp
  then have t16: "take 16 (drop p m) = replicate 16 0xFF" unfolding assms(6) by simp
  have "drop 16 (take 24 (drop p m)) = take 8 (drop (p + 16) m)" by (simp add: drop_take add.commute)
  then have t8: "take 8 (drop (p + 16) m) = replicate 7 0xFF @ [0]" unfolding assms(6) by simp
  have os: "ones 16 \<noteq> []" "length (ones 16) = 16" "length (ones 16) \<le> 520" "p + length (ones 16) \<le> length m"
    using assms(5) by (simp_all add: ones_def)
  obtain st1 where st1: "spi3_xfer_dma (played m) (ones 16) ?s = (Some (take (length (ones 16)) (drop p m)), st1)"
    "edges (wire st1) = 8 * (p + length (ones 16))" "spi_link_ok st1" "g_dma_ok st1"
    by (rule played_dma [OF s(1,2) os(1,3) s(3) os(4)])
  note st1 = st1 [unfolded os(2) t16]
  have four: "(4 :: nat) = Suc 3" by simp
  have i: "idle_looks (played m) 4 ?s = (True, st1)"
    unfolding four idle_looks.simps spi3_read_dma_def st1(1) by simp
  let ?c = "command_bytes cmd arg @ [0xFF, 0xFF]"
  have cs: "?c \<noteq> []" "length ?c = 8" "length ?c \<le> 520" "p + 16 + length ?c \<le> length m" using assms(5) by (simp_all add: command_bytes_def)
  obtain st2 where st2: "spi3_xfer_dma (played m) ?c st1 = (Some (take (length ?c) (drop (p + 16) m)), st2)" "edges (wire st2) = 8 * (p + 16 + length ?c)"
    by (rule played_dma [OF st1(3,4) cs(1,3) st1(2) cs(4)])
  note st2 = st2 [unfolded cs(2) t8]
  have "first_r1 (drop 6 (replicate 7 0xFF @ [0])) = Some (0 :: u8)" by code_simp
  then have "sd_command (played m) cmd arg st = (0, st2\<lparr>g_last_r1 := 0\<rparr>)"
    using assms(2,3) i st2(1) by (simp add: sd_command_def sd_command_hw_def)
  then show thesis using st2(2) by (intro that [of "st2\<lparr>g_last_r1 := 0\<rparr>"]) simp_all
qed

definition ready_sd :: sd where
  "ready_sd = \<lparr>wire = [], g_transfers = 0, g_timeouts = 0, g_wreg_xfers = 0, g_wreg_at_init = 0, g_dma_poisoned = 0, g_dma_ok = True,
     g_dma_allowed = True, g_dma_reachable = True, g_dma_refused = 0, g_dma_timeouts = 0, g_dma_transfers = 0, g_inflight = None, g_clk_reg = 0,
     g_half_us = 0, g_div_wanted = 4, g_hw = True, g_token_polls = 0, g_blocks = 0, g_type = SD_TYPE_SDHC, g_last_r1 = 0, g_attempts = 1,
     g_pend = [], g_pend_token = False, g_buf = replicate 520 0, g_stage = replicate 2 (replicate 520 0), g_multi_bursts = 0,
     g_multi_blocks = 0, g_dma_retries = 0\<rparr>"

lemma ready_sd: "spi_link_ok ready_sd" "bufs_ok ready_sd" "g_hw ready_sd" "\<not> g_pend_token ready_sd" "g_type ready_sd \<noteq> SD_TYPE_NONE"
  "spi_link_ok (cs_low ready_sd)" "g_dma_ok (cs_low ready_sd)" "g_hw (cs_low ready_sd)" "edges (wire (cs_low ready_sd)) = 8 * 0"
  by (simp_all add: ready_sd_def spi_link_ok_def bufs_ok_def cs_low_def put_event_def edges_def numeral_eq_Suc)

definition three_blocks :: "(nat \<times> u8 list \<times> u8 list) list" where
  "three_blocks = [(2, replicate 512 1, [7, 7]), (0, replicate 512 0xFE, [7, 7]), (5, replicate 512 3, [7, 7])]"

lemma sd_read_blocks_stream_witness:
  "\<exists>e st'. sd_read_blocks e 9 3 0x3FFB0001 (replicate 2000 0) ready_sd
    = (SD_OK, replicate 512 1 @ replicate 512 0xFE @ replicate 512 3 @ replicate 464 0, st')"
proof -
  let ?m = "(replicate 23 0xFF @ [0]) @ sd_stream three_blocks @ replicate 3 0xFF"
  have s: "stream_ok three_blocks" "length three_blocks = 3" by (simp_all add: three_blocks_def stream_ok_def)
  have l: "length (sd_stream three_blocks) = 1552" by (simp add: three_blocks_def)
  have "length (replicate 23 0xFF @ [0 :: u8]) = 24" by simp
  then have m: "0 + 24 \<le> length ?m" "take 24 (drop 0 ?m) = replicate 23 0xFF @ [0]" "drop (0 + 24) ?m = sd_stream three_blocks @ replicate 3 0xFF"
    by simp_all
  obtain st1 where c: "sd_command (played ?m) CMD18_READ_MULTI (block_addr 9 ready_sd) (cs_low ready_sd) = (0, st1)" "edges (wire st1) = 8 * (0 + 24)"
    using played_command [OF ready_sd(6-9) m(1,2)] .
  have "answers (played ?m) (wire st1) (sd_stream three_blocks @ replicate 3 0xFF)"
    by (rule played_answers [OF c(2)]) (simp_all only: m(3), simp_all add: l)
  from sd_read_blocks_stream [OF healthy_played ready_sd(1-5) c(1) this _ s(1), of "replicate 2000 0" "0x3FFB0001", unfolded s(2)]
  show ?thesis by (auto simp: three_blocks_def)
qed

lemma sd_read_block_stream_witness:
  "\<exists>e st'. sd_read_block e 9 0x3FFB0001 (replicate 600 0) ready_sd = (SD_OK, replicate 512 0xFE @ replicate 88 0, st')"
proof -
  let ?b = "[(2, replicate 512 0xFE, [7, 7])]"
  let ?m = "(replicate 23 0xFF @ [0]) @ sd_stream ?b @ replicate 3 0xFF"
  have s: "stream_ok ?b" by (simp add: stream_ok_def)
  have l: "length (sd_stream ?b) = 517" by simp
  have "length (replicate 23 0xFF @ [0 :: u8]) = 24" by simp
  then have m: "0 + 24 \<le> length ?m" "take 24 (drop 0 ?m) = replicate 23 0xFF @ [0]" "drop (0 + 24) ?m = sd_stream ?b @ replicate 3 0xFF"
    by (simp_all del: sd_stream.simps)
  obtain st1 where c: "sd_command (played ?m) CMD17_READ_SINGLE (block_addr 9 ready_sd) (cs_low ready_sd) = (0, st1)" "edges (wire st1) = 8 * (0 + 24)"
    using played_command [OF ready_sd(6-9) m(1,2)] .
  have "answers (played ?m) (wire st1) (sd_stream ?b @ replicate 3 0xFF)"
    by (rule played_answers [OF c(2)]) (simp_all only: m(3), simp_all add: l del: sd_stream.simps)
  from sd_read_block_stream [OF healthy_played ready_sd(1-5) c(1) this _ s, of "replicate 600 0" "0x3FFB0001"]
  show ?thesis by auto
qed

lemma sd_empty_slot_witness:
  "\<exists>st'. sd_init ((played [])\<lparr>miso := \<lambda>_. True\<rparr>) ready_sd = (SD_ERR_IDLE, st') \<and> sd_read_blocks ((played [])\<lparr>miso := \<lambda>_. True\<rparr>) 0 2 0 [5] st' = (SD_ERR_IDLE, [5], st')"
  using sd_empty_slot [of "(played [])\<lparr>miso := \<lambda>_. True\<rparr>" ready_sd 0 0 "[5]" 2] by (auto simp: slot_empty_def)

end
