(* ===== verification/KNet.thy ===== *)
theory KNet
  imports KBytes KOut "HOL-Library.Sublist"
begin

text \<open>
  The receive ring and the service loop of \<^verbatim>\<open>kernel/net.c\<close>, and its own ARP, ICMP echo and DHCP handlers. Which stack owns the frames is
  the constant \<^verbatim>\<open>g_use_lwip\<close>, here an argument, so that both paths are modelled. Calls into the other stack, frames given to the radio and
  prints are the history \<open>net_log\<close>. The slots lie one behind another in memory from \<open>g_q\<close> on, with the memory behind them.
\<close>

subsection \<open>State\<close>

datatype net_call =
    Netif_start u32 "u8 list"
  | Netif_input "u8 list"
  | Netif_tick
  | Netif_report
  | Netif_stats
  | Netdev_service
  | Tcpsrv_report
  | Wpa_report
  | Net_tx u32 "u8 list"
  | Net_print uart_call

record net =
  g_q :: "nat \<Rightarrow> u8"
  g_qlen :: "u16 list"
  g_head :: u32
  g_tail :: u32
  g_net_dropped :: u32
  g_net_truncated :: u32
  g_mac :: "u8 list"
  g_ip :: "u8 list"
  g_srv :: "u8 list"
  g_have_ip :: bool
  g_tx_fn :: u32
  net_out :: "u8 list"
  g_net_arp_req :: u32
  g_net_arp_rep :: u32
  g_net_icmp_req :: u32
  g_net_icmp_rep :: u32
  g_net_dhcp_offer :: u32
  g_net_dhcp_ack :: u32
  g_net_frames :: u32
  g_net_polling :: bool
  g_net_handover :: bool
  net_ticks :: u32
  net_log :: "net_call list"

abbreviation (input) NET_SLOTS :: u32 where "NET_SLOTS \<equiv> 3"
abbreviation (input) NET_MAX :: nat where "NET_MAX \<equiv> 1600"

definition net_do :: "net_call \<Rightarrow> net \<Rightarrow> net" where
  "net_do c st = st\<lparr>net_log := net_log st @ [c]\<rparr>"

definition net_prints :: "uart_call list \<Rightarrow> net \<Rightarrow> net" where
  "net_prints cs st = st\<lparr>net_log := net_log st @ List.map Net_print cs\<rparr>"

subsection \<open>Helpers\<close>

definition be16w :: "u32 \<Rightarrow> u8 list" where
  "be16w v = [ucast (drop_bit 8 v), ucast v]"

definition be16r :: "u8 \<Rightarrow> u8 \<Rightarrow> u32" where
  "be16r a b = push_bit 8 (ucast a) OR ucast b"

fun ck_sum :: "u8 list \<Rightarrow> u32 \<Rightarrow> u32" where
  "ck_sum (a # b # bs) s = ck_sum bs (s + be16r a b)"
| "ck_sum [a] s = s + push_bit 8 (ucast a)"
| "ck_sum [] s = s"

function ck_fold :: "u32 \<Rightarrow> u32" where
  "ck_fold s = (if drop_bit 16 s \<noteq> 0 then ck_fold ((s AND 0xFFFF) + drop_bit 16 s) else s)"
  by pat_completeness auto

definition cksum :: "u8 list \<Rightarrow> u32" where
  "cksum bs = NOT (ck_fold (ck_sum bs 0)) AND 0xFFFF"

lemma unat_high_half: "unat (drop_bit 16 (s :: u32)) = unat s div 65536"
  by (simp add: unat_drop_bit_eq drop_bit_eq_div [of 16 "unat s"])

lemma fold_less:
  fixes s :: u32
  shows "unat ((s AND 0xFFFF) + drop_bit 16 s) = unat s mod 65536 + unat s div 65536"
proof -
  have a: "unat (s AND 0xFFFF) = unat s mod 65536" using unat_and_mask [of s 16] by (simp add: mask_eq_exp_minus_1)
  note b = unat_high_half [of s]
  have "65536 * (unat s div 65536) + unat s mod 65536 = unat s" "unat s < 4294967296" by simp_all
  then have "unat (s AND 0xFFFF) + unat (drop_bit 16 s) < 4294967296" unfolding a b by linarith
  then show ?thesis using a b by (simp only: unat_add_u32)
qed

termination ck_fold
proof (relation "measure unat")
  fix s :: u32
  assume "drop_bit 16 s \<noteq> 0"
  then have "unat s div 65536 \<noteq> 0" using u32_eq_0_iff [of "drop_bit 16 s"] by (simp only: unat_high_half) simp
  moreover have "65536 * (unat s div 65536) + unat s mod 65536 = unat s" by simp
  ultimately have "unat s mod 65536 + unat s div 65536 < unat s" by linarith
  then show "((s AND 0xFFFF) + drop_bit 16 s, s) \<in> measure unat" by (simp only: in_measure fold_less)
qed simp

definition net_send :: "u32 \<Rightarrow> net \<Rightarrow> net" where
  "net_send len st = (if g_tx_fn st = 0 then st else net_do (Net_tx (g_tx_fn st) (take (unat len) (net_out st))) st)"

subsection \<open>The ring\<close>

definition net_rx_enqueue :: "u8 list \<Rightarrow> net \<Rightarrow> net" where
  "net_rx_enqueue f st =
     (let nxt = (g_head st + 1) mod NET_SLOTS in
      if nxt = g_tail st then st\<lparr>g_net_dropped := g_net_dropped st + 1\<rparr>
      else
        let st1 = (if length f > NET_MAX then st\<lparr>g_net_truncated := g_net_truncated st + 1\<rparr> else st);
            n = (if length f < NET_MAX then length f else NET_MAX);
            base = unat (g_head st) * NET_MAX
        in st1\<lparr>g_q := (\<lambda>a. if base \<le> a \<and> a < base + n then f ! (a - base) else g_q st1 a),
               g_qlen := (g_qlen st1)[unat (g_head st) := of_nat n], g_head := nxt\<rparr>)"

text \<open>The bytes from a slot on, and a run of them.\<close>

definition slot_mem :: "net \<Rightarrow> u32 \<Rightarrow> nat \<Rightarrow> u8" where
  "slot_mem st s = (\<lambda>i. g_q st (unat s * NET_MAX + i))"

definition bytes_from :: "(nat \<Rightarrow> u8) \<Rightarrow> nat \<Rightarrow> nat \<Rightarrow> u8 list" where
  "bytes_from m i n = List.map m [i..<i + n]"

definition ip_is :: "(nat \<Rightarrow> u8) \<Rightarrow> nat \<Rightarrow> u8 list \<Rightarrow> bool" where
  "ip_is m i q \<longleftrightarrow> bytes_from m i 4 = q"

subsection \<open>ARP, ICMP and DHCP\<close>

definition arp_reply :: "(nat \<Rightarrow> u8) \<Rightarrow> net \<Rightarrow> net" where
  "arp_reply f st =
     (let o1 = put_at 0 (bytes_from f 6 6) (net_out st);
          o2 = put_at 6 (g_mac st) o1;
          o3 = put_at 12 (be16w 0x0806) o2;
          o4 = put_at 14 (be16w 1 @ be16w 0x0800 @ [6, 4] @ be16w 2) o3;
          o5 = put_at 22 (g_mac st) o4;
          o6 = put_at 28 (g_ip st) o5;
          o7 = put_at 32 (bytes_from f 22 6) o6;
          o8 = put_at 38 (bytes_from f 28 4) o7
      in net_send 42 (st\<lparr>net_out := o8, g_net_arp_rep := g_net_arp_rep st + 1\<rparr>))"

text \<open>The checksum of the \<open>n\<close> bytes at \<open>i\<close> goes to \<open>at\<close>, taken with that field cleared.\<close>

definition put_cksum :: "nat \<Rightarrow> nat \<Rightarrow> nat \<Rightarrow> u8 list \<Rightarrow> u8 list" where
  "put_cksum at i n buf =
     (let b1 = put_at at (be16w 0) buf in put_at at (be16w (cksum (take n (drop i b1)))) b1)"

definition icmp_reply :: "(nat \<Rightarrow> u8) \<Rightarrow> u32 \<Rightarrow> net \<Rightarrow> net" where
  "icmp_reply f len st =
     (if len > 512 then st
      else
        let o1 = put_at 0 (bytes_from f 0 (unat len)) (net_out st);
            o2 = put_at 0 (bytes_from f 6 6) o1;
            o3 = put_at 6 (g_mac st) o2;
            o4 = put_at 26 (g_ip st @ bytes_from f 26 4) o3;
            o5 = put_cksum 24 14 20 o4;
            o6 = put_at 34 [0] o5;
            o7 = put_cksum 36 34 (unat (len - 34)) o6
        in net_send len (st\<lparr>net_out := o7, g_net_icmp_rep := g_net_icmp_rep st + 1\<rparr>))"

function dhcp_scan :: "(nat \<Rightarrow> u8) \<Rightarrow> nat \<Rightarrow> u8 \<Rightarrow> nat \<Rightarrow> nat \<Rightarrow> u8 list" where
  "dhcp_scan f len want outn i =
     (if i + 1 < len then
        let code = f i in
        if code = 255 then []
        else if code = 0 then dhcp_scan f len want outn (i + 1)
        else let l = unat (f (i + 1)) in
          if code = want then bytes_from f (i + 2) (if l < outn then l else outn)
          else dhcp_scan f len want outn (i + 2 + l)
      else [])"
  by pat_completeness auto
termination by (relation "measure (\<lambda>(f, len, want, outn, i). len - i)") auto

definition dhcp_opt :: "(nat \<Rightarrow> u8) \<Rightarrow> u32 \<Rightarrow> u8 \<Rightarrow> nat \<Rightarrow> u8 list" where
  "dhcp_opt f len want outn = dhcp_scan f (unat len) want outn 282"

definition dhcp_request :: "(nat \<Rightarrow> u8) \<Rightarrow> u8 list \<Rightarrow> u8 list \<Rightarrow> net \<Rightarrow> net" where
  "dhcp_request f yi sid st =
     (let o1 = put_at 0 (replicate 6 0xFF) (replicate 512 0);
          o2 = put_at 6 (g_mac st) o1;
          o3 = put_at 12 (be16w 0x0800) o2;
          o4 = put_at 42 [1, 1, 6] o3;
          o5 = put_at 46 (bytes_from f 46 4) o4;
          o6 = put_at 52 (be16w 0x8000) o5;
          o7 = put_at 70 (g_mac st) o6;
          o8 = put_at 278 [99, 130, 83, 99] o7;
          o9 = put_at 282 ([53, 1, 3, 50, 4] @ yi @ [54, 4] @ sid @ [255]) o8;
          bl = 256; udl = 8 + bl; ipl = 20 + udl;
          o10 = put_at 34 (be16w 68 @ be16w 67 @ be16w udl @ be16w 0) o9;
          o11 = put_at 14 [0x45] o10;
          o12 = put_at 16 (be16w ipl) o11;
          o13 = put_at 22 [64, 17] o12;
          o14 = put_at 30 (replicate 4 0xFF) o13;
          o15 = put_cksum 24 14 20 o14
      in net_send (14 + ipl) (st\<lparr>net_out := o15\<rparr>))"

definition dotted :: "u8 list \<Rightarrow> uart_call list" where
  "dotted a = [Put_dec (ucast (a ! 0)), Putc 46, Put_dec (ucast (a ! 1)), Putc 46, Put_dec (ucast (a ! 2)), Putc 46, Put_dec (ucast (a ! 3))]"

definition net_handle :: "(nat \<Rightarrow> u8) \<Rightarrow> u32 \<Rightarrow> net \<Rightarrow> net" where
  "net_handle f len st0 =
     (if len < 14 then st0
      else
        let et = be16r (f 12) (f 13); st = st0\<lparr>g_net_frames := g_net_frames st0 + 1\<rparr> in
        if et = 0x0806 \<and> len \<ge> 42 then
          (if be16r (f 20) (f 21) = 1 \<and> g_have_ip st \<and> ip_is f 38 (g_ip st)
           then arp_reply f (st\<lparr>g_net_arp_req := g_net_arp_req st + 1\<rparr>) else st)
        else if et \<noteq> 0x0800 \<or> len < 34 then st
        else if f 23 = 1 \<and> g_have_ip st \<and> ip_is f 30 (g_ip st) \<and> f 34 = 8
        then icmp_reply f len (st\<lparr>g_net_icmp_req := g_net_icmp_req st + 1\<rparr>)
        else if f 23 = 17 \<and> be16r (f 34) (f 35) = 67 then
          (case dhcp_opt f len 53 4 of
             [] \<Rightarrow> st
           | t # _ \<Rightarrow>
               if t = 2 then
                 let yi = bytes_from f 58 4; s = dhcp_opt f len 54 4;
                     sid = (if length s < 4 then bytes_from f 26 4 else s)
                 in dhcp_request f yi sid (st\<lparr>g_net_dhcp_offer := g_net_dhcp_offer st + 1\<rparr>)
               else if t = 5 then
                 let st1 = st\<lparr>g_ip := bytes_from f 58 4, g_srv := bytes_from f 26 4, g_have_ip := True,
                     g_net_dhcp_ack := g_net_dhcp_ack st + 1\<rparr>
                 in net_prints ([Puts ''   net       DHCP ACK -- address ''] @ dotted (g_ip st1) @
                      [Puts (''\<newline>   net       ping it from another machine on this network\<newline>'')]) st1
               else st)
        else st)"

definition net_set_tx :: "bool \<Rightarrow> u32 \<Rightarrow> u8 list \<Rightarrow> net \<Rightarrow> net" where
  "net_set_tx lwip tx mac st =
     (let st1 = st\<lparr>g_tx_fn := tx, g_mac := mac\<rparr> in
      if lwip then net_do (Netif_start tx mac) st1
      else if \<not> g_have_ip st1 then
        net_prints [Puts (''   net       static address 10.224.203.200 (DHCP may replace it)\<newline>'')]
          (st1\<lparr>g_ip := [10, 224, 203, 200], g_have_ip := True\<rparr>)
      else st1)"

subsection \<open>Service\<close>

definition net_take :: "bool \<Rightarrow> net \<Rightarrow> net" where
  "net_take lwip st =
     (let len = g_qlen st ! unat (g_tail st);
          st1 = (if lwip then net_do (Netif_input (bytes_from (slot_mem st (g_tail st)) 0 (unat len))) st
                 else net_handle (slot_mem st (g_tail st)) (ucast len) st)
      in st1\<lparr>g_tail := (g_tail st1 + 1) mod NET_SLOTS\<rparr>)"

fun net_drain :: "bool \<Rightarrow> nat \<Rightarrow> net \<Rightarrow> net" where
  "net_drain lwip 0 st = st"
| "net_drain lwip (Suc k) st = (if g_tail st \<noteq> g_head st then net_drain lwip k (net_take lwip st) else st)"

definition net_after :: "bool \<Rightarrow> net \<Rightarrow> net" where
  "net_after lwip st = (if lwip then net_do Netdev_service (net_do Netif_report (net_do Netif_tick st)) else st)"

definition net_service_once :: "bool \<Rightarrow> net \<Rightarrow> net" where
  "net_service_once lwip st = net_after lwip (net_drain lwip 16 st)"

definition net_service_task_step :: "bool \<Rightarrow> net \<Rightarrow> net" where
  "net_service_task_step lwip st = (if g_net_handover st \<and> \<not> g_net_polling st then net_service_once lwip st else st)"

definition live_line :: "bool \<Rightarrow> u32 \<Rightarrow> net \<Rightarrow> net" where
  "live_line lwip el st =
     (if lwip then
        net_prints [Puts (''\<newline>'')] (net_do Wpa_report (net_do Tcpsrv_report (net_do Netif_stats
          (net_prints [Puts ''   lwip      +'', Put_dec (el div 100), Puts ''s  ''] st))))
      else net_prints
        [Puts ''   net       +'', Put_dec (el div 100), Puts ''s frames '', Put_dec (g_net_frames st), Puts '' arp '', Put_dec (g_net_arp_req st),
         Puts '' icmp '', Put_dec (g_net_icmp_req st), Puts '' dhcp '', Put_dec (g_net_dhcp_offer st), Puts ''/'', Put_dec (g_net_dhcp_ack st),
         Puts '' drop '', Put_dec (g_net_dropped st), Puts ''/'', Put_dec (g_net_truncated st),
         Puts (if g_have_ip st then '' [IP]\<newline>'' else '' [no IP]\<newline>'')] st)"

definition poll_round :: "bool \<Rightarrow> u32 \<Rightarrow> u32 \<Rightarrow> net \<Rightarrow> u32 \<times> net" where
  "poll_round lwip t0 shown st =
     (let st1 = net_after lwip (net_drain lwip 16 st); el = net_ticks st1 - t0 in
      if el - shown \<ge> 1000 then (el, live_line lwip el st1) else (shown, st1))"

text \<open>\<open>sleep\<close> is what the rest of the system does to the ring and the clock while the caller sleeps its two ticks.\<close>

partial_function (option) poll_loop :: "(net \<Rightarrow> net) \<Rightarrow> bool \<Rightarrow> u32 \<Rightarrow> u32 \<Rightarrow> u32 \<Rightarrow> net \<Rightarrow> net option" where
  "poll_loop sleep lwip t0 ticks shown st =
     (if net_ticks st - t0 < ticks
      then case poll_round lwip t0 shown st of (l, st1) \<Rightarrow> poll_loop sleep lwip t0 ticks l (sleep st1)
      else Some st)"

definition net_poll_for :: "(net \<Rightarrow> net) \<Rightarrow> bool \<Rightarrow> u32 \<Rightarrow> net \<Rightarrow> net option" where
  "net_poll_for sleep lwip ticks st =
     (case poll_loop sleep lwip (net_ticks st) ticks 0 (st\<lparr>g_net_polling := True\<rparr>) of
        None \<Rightarrow> None
      | Some st1 \<Rightarrow> Some (net_prints [Puts (''   net       handover -- the stack stays up now\<newline>'')]
          (st1\<lparr>g_net_polling := False, g_net_handover := True\<rparr>)))"

definition net_report :: "bool \<Rightarrow> net \<Rightarrow> net" where
  "net_report lwip st =
     (let st1 = net_prints [Puts ''   net       frames '', Put_dec (g_net_frames st), Puts ''  dropped '', Put_dec (g_net_dropped st)] st in
      if lwip then net_do Netif_stats
        (net_prints [Puts (''  (lwIP owns the stack; the hand-written parser's dhcp/arp/icmp counters are inactive)\<newline>'')] st1)
      else net_prints
        [Puts ''  dhcp offer/ack '', Put_dec (g_net_dhcp_offer st), Puts ''/'', Put_dec (g_net_dhcp_ack st), Puts ''  arp '',
         Put_dec (g_net_arp_req st), Puts ''->'', Put_dec (g_net_arp_rep st), Puts ''  icmp '', Put_dec (g_net_icmp_req st), Puts ''->'',
         Put_dec (g_net_icmp_rep st), Puts (if g_have_ip st then ''  [have IP]\<newline>'' else ''  [no IP]\<newline>'')] st1)"

declare ck_fold.simps [simp del] dhcp_scan.simps [simp del]

subsection \<open>The ring is a bounded queue\<close>

definition ring_ok :: "net \<Rightarrow> bool" where
  "ring_ok st \<longleftrightarrow> g_head st \<in> {0, 1, 2} \<and> g_tail st \<in> {0, 1, 2} \<and> length (g_qlen st) = 3 \<and> (\<forall>l \<in> set (g_qlen st). unat l \<le> NET_MAX)"

definition slot_frame :: "net \<Rightarrow> u32 \<Rightarrow> u8 list" where
  "slot_frame st s = bytes_from (slot_mem st s) 0 (unat (g_qlen st ! unat s))"

definition pending :: "net \<Rightarrow> u8 list list" where
  "pending st =
     (if g_tail st = g_head st then []
      else if (g_tail st + 1) mod NET_SLOTS = g_head st then [slot_frame st (g_tail st)]
      else [slot_frame st (g_tail st), slot_frame st ((g_tail st + 1) mod NET_SLOTS)])"

lemma ring_cases:
  assumes "ring_ok st"
  obtains "g_head st = 0" "g_tail st = 0" | "g_head st = 0" "g_tail st = 1" | "g_head st = 0" "g_tail st = 2"
    | "g_head st = 1" "g_tail st = 0" | "g_head st = 1" "g_tail st = 1" | "g_head st = 1" "g_tail st = 2"
    | "g_head st = 2" "g_tail st = 0" | "g_head st = 2" "g_tail st = 1" | "g_head st = 2" "g_tail st = 2"
  using assms by (auto simp: ring_ok_def)

lemma mod3: "(0 :: u32) mod 3 = 0" "(1 :: u32) mod 3 = 1" "(2 :: u32) mod 3 = 2" "(3 :: u32) mod 3 = 0"
  by code_simp+

text \<open>Writing one slot leaves the frames of the others alone and makes its own the frame, cut to the slot.\<close>

lemma slot_frame_other:
  assumes "s \<noteq> h" "s \<in> {0, 1, 2}" "h \<in> {0, 1, 2}" "n \<le> NET_MAX" "unat (g_qlen st ! unat s) \<le> NET_MAX"
    "g_q st' = (\<lambda>a. if unat h * NET_MAX \<le> a \<and> a < unat h * NET_MAX + n then f ! (a - unat h * NET_MAX) else g_q st a)"
    "g_qlen st' = (g_qlen st)[unat h := l]"
  shows "slot_frame st' s = slot_frame st s"
proof -
  have "unat s \<noteq> unat h" using assms(1) by (simp add: word_unat_eq_iff)
  then have "unat s * 1600 + 1600 \<le> unat h * 1600 \<or> unat h * 1600 + 1600 \<le> unat s * 1600" using assms(2,3) by auto
  then have m: "slot_mem st' s i = slot_mem st s i" if "i < 1600" for i using that assms(4,6) by (auto simp: slot_mem_def)
  have "g_qlen st' ! unat s = g_qlen st ! unat s" using assms(7) \<open>unat s \<noteq> unat h\<close> by simp
  then show ?thesis using m assms(5) by (auto simp: slot_frame_def bytes_from_def)
qed

lemma slot_len: "n \<le> NET_MAX \<Longrightarrow> unat (of_nat n :: u16) = n"
  by (simp add: unat_of_nat)

lemma slot_frame_same:
  assumes "h \<in> {0, 1, 2}" "n \<le> NET_MAX" "n \<le> length f" "length (g_qlen st) = 3"
    "g_q st' = (\<lambda>a. if unat h * NET_MAX \<le> a \<and> a < unat h * NET_MAX + n then f ! (a - unat h * NET_MAX) else g_q st a)"
    "g_qlen st' = (g_qlen st)[unat h := of_nat n]"
  shows "slot_frame st' h = take n f"
proof -
  have h: "unat h < 3" using assms(1) by auto
  have "unat (of_nat n :: u16) = n" using assms(2) by (rule slot_len)
  then have "unat (g_qlen st' ! unat h) = n" using assms(4,6) h by simp
  then show ?thesis using assms(3,5) by (intro nth_equalityI) (auto simp: slot_frame_def bytes_from_def slot_mem_def)
qed

lemma ring_qlen: "ring_ok st \<Longrightarrow> s \<in> {0, 1, 2} \<Longrightarrow> unat (g_qlen st ! unat s) \<le> NET_MAX"
  by (auto simp: ring_ok_def)

lemma enqueue_accepts:
  assumes "ring_ok st" "(g_head st + 1) mod NET_SLOTS \<noteq> g_tail st"
  shows "pending (net_rx_enqueue f st) = pending st @ [take NET_MAX f] \<and> ring_ok (net_rx_enqueue f st) \<and> length (pending st) < 2
    \<and> net_log (net_rx_enqueue f st) = net_log st \<and> g_net_dropped (net_rx_enqueue f st) = g_net_dropped st"
proof -
  let ?n = "if length f < NET_MAX then length f else NET_MAX"
  let ?st = "net_rx_enqueue f st"
  have q: "g_q ?st = (\<lambda>a. if unat (g_head st) * NET_MAX \<le> a \<and> a < unat (g_head st) * NET_MAX + ?n then f ! (a - unat (g_head st) * NET_MAX) else g_q st a)"
    "g_qlen ?st = (g_qlen st)[unat (g_head st) := of_nat ?n]" "g_head ?st = (g_head st + 1) mod 3" "g_tail ?st = g_tail st"
    "net_log ?st = net_log st" "g_net_dropped ?st = g_net_dropped st"
    using assms(2) by (auto simp: net_rx_enqueue_def Let_def fun_eq_iff)
  have r: "g_head st \<in> {0, 1, 2}" "length (g_qlen st) = 3" "g_tail st \<in> {0, 1, 2}" using assms(1) by (simp_all add: ring_ok_def)
  have n: "?n \<le> NET_MAX" "?n \<le> length f" by simp_all
  have same: "slot_frame ?st (g_head st) = take NET_MAX f"
    using slot_frame_same [OF r(1) n r(2) q(1,2)] by (auto split: if_splits)
  have other: "slot_frame ?st s = slot_frame st s" if "s \<noteq> g_head st" "s \<in> {0, 1, 2}" for s
    by (rule slot_frame_other [OF that(1,2) r(1) n(1) ring_qlen [OF assms(1) that(2)] q(1,2)])
  have len: "unat (of_nat ?n :: u16) \<le> NET_MAX" using slot_len [OF n(1)] n(1) by simp
  have "set (g_qlen ?st) \<subseteq> insert (of_nat ?n) (set (g_qlen st))" unfolding q(2) by (rule set_update_subset_insert)
  then have "\<forall>l \<in> set (g_qlen ?st). unat l \<le> NET_MAX" using assms(1) len unfolding ring_ok_def by blast
  moreover have "(g_head st + 1) mod 3 \<in> {0, 1, 2}" using r(1) by (auto simp: mod3)
  ultimately have ok: "ring_ok ?st" using q r by (simp add: ring_ok_def)
  have "pending ?st = pending st @ [take NET_MAX f] \<and> length (pending st) < 2"
    unfolding pending_def q(3,4)
    by (rule ring_cases [OF assms(1)])
      (use assms(2) same other [of 0] other [of 1] other [of 2] in \<open>simp_all add: mod3\<close>)
  then show ?thesis using ok q(5,6) by blast
qed

lemma enqueue_drops:
  assumes "ring_ok st" "(g_head st + 1) mod NET_SLOTS = g_tail st"
  shows "net_rx_enqueue f st = st\<lparr>g_net_dropped := g_net_dropped st + 1\<rparr>" "length (pending st) = 2"
proof -
  show "net_rx_enqueue f st = st\<lparr>g_net_dropped := g_net_dropped st + 1\<rparr>" using assms(2) by (simp add: net_rx_enqueue_def)
  from assms(1) show "length (pending st) = 2"
    by (rule ring_cases) (use assms(2) in \<open>simp_all add: pending_def mod3\<close>)
qed

lemma slot_frame_cong: "g_q st' = g_q st \<Longrightarrow> g_qlen st' = g_qlen st \<Longrightarrow> slot_frame st' s = slot_frame st s"
  by (simp add: slot_frame_def slot_mem_def)

lemma take_oldest:
  assumes "ring_ok st" "pending st \<noteq> []"
  shows "pending (net_take True st) = tl (pending st) \<and> ring_ok (net_take True st)
    \<and> net_log (net_take True st) = net_log st @ [Netif_input (hd (pending st))] \<and> g_net_dropped (net_take True st) = g_net_dropped st"
proof -
  let ?st = "net_take True st"
  have k: "g_q ?st = g_q st" "g_qlen ?st = g_qlen st" "g_head ?st = g_head st" "g_tail ?st = (g_tail st + 1) mod 3"
    "net_log ?st = net_log st @ [Netif_input (slot_frame st (g_tail st))]" "g_net_dropped ?st = g_net_dropped st"
    by (simp_all add: net_take_def Let_def net_do_def slot_frame_def)
  note f = slot_frame_cong [OF k(1,2)]
  from assms(1) show ?thesis
    by (rule ring_cases) (use assms k f in \<open>auto simp: pending_def ring_ok_def mod3\<close>)
qed

lemma pending_empty: "pending st = [] \<longleftrightarrow> g_tail st = g_head st"
  by (simp add: pending_def)

text \<open>The ring over a history: frames arrive from the radio and are taken one at a time, in any order.\<close>

datatype ring_event = Arrive "u8 list" | Take

definition ring_step :: "ring_event \<Rightarrow> net \<Rightarrow> net" where
  "ring_step v st = (case v of Arrive f \<Rightarrow> net_rx_enqueue f st | Take \<Rightarrow> if g_tail st \<noteq> g_head st then net_take True st else st)"

text \<open>The bounded queue it implements: what it has delivered, what it holds and how many it turned away.\<close>

fun queue_step :: "ring_event \<Rightarrow> u8 list list \<times> u8 list list \<times> u32 \<Rightarrow> u8 list list \<times> u8 list list \<times> u32" where
  "queue_step (Arrive f) (ds, qs, n) = (if length qs < 2 then (ds, qs @ [take NET_MAX f], n) else (ds, qs, n + 1))"
| "queue_step Take (ds, qs, n) = (case qs of [] \<Rightarrow> (ds, qs, n) | q # qs' \<Rightarrow> (ds @ [q], qs', n))"

fun inputs :: "net_call list \<Rightarrow> u8 list list" where
  "inputs [] = []"
| "inputs (Netif_input f # cs) = f # inputs cs"
| "inputs (_ # cs) = inputs cs"

lemma inputs_append [simp]: "inputs (xs @ ys) = inputs xs @ inputs ys"
  by (induction xs rule: inputs.induct) simp_all

definition ring_view :: "net \<Rightarrow> u8 list list \<times> u8 list list \<times> u32" where
  "ring_view st = (inputs (net_log st), pending st, g_net_dropped st)"

lemma ring_step_refines:
  assumes "ring_ok st"
  shows "ring_ok (ring_step v st) \<and> ring_view (ring_step v st) = queue_step v (ring_view st)"
proof (cases v)
  case (Arrive f)
  show ?thesis
  proof (cases "(g_head st + 1) mod NET_SLOTS = g_tail st")
    case True
    have "pending (st\<lparr>g_net_dropped := n\<rparr>) = pending st" for n by (simp add: pending_def slot_frame_def slot_mem_def)
    then show ?thesis using enqueue_drops [OF assms True] assms Arrive by (simp add: ring_step_def ring_view_def ring_ok_def)
  next
    case False
    then show ?thesis using enqueue_accepts [OF assms False, of f] Arrive by (simp add: ring_step_def ring_view_def)
  qed
next
  case Take
  show ?thesis
  proof (cases "pending st")
    case Nil
    then show ?thesis using assms Take pending_empty [of st] by (simp add: ring_step_def ring_view_def)
  next
    case (Cons q qs)
    then show ?thesis using take_oldest [OF assms] Take pending_empty [of st] by (auto simp: ring_step_def ring_view_def)
  qed
qed

text \<open>As it is written the ring holds two of its three slots: it is a queue of two frames that turns the newest away when it is full.\<close>

lemma ring_is_queue_of_two:
  "ring_ok st \<Longrightarrow> ring_ok (fold ring_step vs st) \<and> ring_view (fold ring_step vs st) = fold queue_step vs (ring_view st)"
  by (induction vs arbitrary: st) (simp_all add: ring_step_refines)

text \<open>The frames that arrive in a history, cut to the size of a slot.\<close>

fun arrivals :: "ring_event list \<Rightarrow> u8 list list" where
  "arrivals [] = []"
| "arrivals (Arrive f # vs) = take NET_MAX f # arrivals vs"
| "arrivals (Take # vs) = arrivals vs"

lemma queue_accounts:
  "fold queue_step vs (ds, qs, n) = (ds', qs', n') \<Longrightarrow>
     \<exists>kept. subseq kept (arrivals vs) \<and> ds' @ qs' = ds @ qs @ kept \<and> n' = n + of_nat (length (arrivals vs) - length kept)"
proof (induction vs arbitrary: ds qs n)
  case (Cons v vs)
  obtain d q m where m: "queue_step v (ds, qs, n) = (d, q, m)" by (metis prod_cases3)
  then obtain kept where k: "subseq kept (arrivals vs)" "ds' @ qs' = d @ q @ kept" "n' = m + of_nat (length (arrivals vs) - length kept)"
    using Cons.IH [of d q m] Cons.prems by auto
  have len: "length kept \<le> length (arrivals vs)" using k(1) by (rule list_emb_length)
  show ?case
  proof (cases v)
    case (Arrive f)
    show ?thesis
    proof (cases "length qs < 2")
      case True
      then show ?thesis using m k Arrive by (intro exI [of _ "take NET_MAX f # kept"]) auto
    next
      case False
      then show ?thesis using m k Arrive len by (intro exI [of _ kept]) (auto simp: Suc_diff_le)
    qed
  next
    case Take
    then show ?thesis using m k by (intro exI [of _ kept]) (auto split: list.splits)
  qed
qed simp

text \<open>
  The receive ring (C25): over any interleaving of arrivals and takes, what has been delivered and what still waits are what was there
  before and then a selection of the frames that arrived, in the order they came, each once and cut to 1600 bytes; the drop counter has
  grown by exactly the number of frames left out. A frame that finds at most one other waiting is never left out, and taking delivers
  the oldest.
\<close>

theorem net_ring_accounts:
  assumes "ring_ok st"
  shows "let st' = fold ring_step vs st in
    (\<exists>kept. subseq kept (arrivals vs)
      \<and> inputs (net_log st') @ pending st' = inputs (net_log st) @ pending st @ kept
      \<and> g_net_dropped st' = g_net_dropped st + of_nat (length (arrivals vs) - length kept))
    \<and> (length (pending st') \<le> 1 \<longrightarrow> pending (net_rx_enqueue f st') = pending st' @ [take NET_MAX f])
    \<and> (pending st' \<noteq> [] \<longrightarrow> inputs (net_log (net_take True st')) = inputs (net_log st') @ [hd (pending st')]
        \<and> pending (net_take True st') = tl (pending st'))"
proof -
  let ?s = "fold ring_step vs st"
  have r: "ring_ok ?s" "fold queue_step vs (inputs (net_log st), pending st, g_net_dropped st) = (inputs (net_log ?s), pending ?s, g_net_dropped ?s)"
    using ring_is_queue_of_two [OF assms, of vs] by (simp_all add: ring_view_def)
  have "pending (net_rx_enqueue f ?s) = pending ?s @ [take NET_MAX f]" if "length (pending ?s) \<le> 1"
    using that enqueue_drops(2) [OF r(1)] enqueue_accepts [OF r(1)] by fastforce
  moreover have "pending ?s \<noteq> [] \<Longrightarrow> inputs (net_log (net_take True ?s)) = inputs (net_log ?s) @ [hd (pending ?s)] \<and> pending (net_take True ?s) = tl (pending ?s)"
    using take_oldest [OF r(1)] by simp
  ultimately show ?thesis using queue_accounts [OF r(2)] by (simp add: Let_def)
qed

text \<open>One service empties the ring and then runs the timers.\<close>

lemma drain_all:
  assumes "ring_ok st" "length (pending st) \<le> k"
  shows "pending (net_drain True k st) = [] \<and> ring_ok (net_drain True k st)
    \<and> net_log (net_drain True k st) = net_log st @ List.map Netif_input (pending st)"
  using assms
proof (induction k arbitrary: st)
  case (Suc k)
  show ?case
  proof (cases "pending st")
    case Nil
    then show ?thesis using Suc.prems pending_empty [of st] by simp
  next
    case (Cons q qs)
    then have t: "pending (net_take True st) = qs" "ring_ok (net_take True st)" "net_log (net_take True st) = net_log st @ [Netif_input q]"
      using take_oldest [OF Suc.prems(1)] by simp_all
    then show ?thesis using Suc.IH [OF t(2)] Suc.prems(2) Cons pending_empty [of st] by simp
  qed
qed simp

lemma pending_short: "length (pending st) \<le> 2"
  by (simp add: pending_def)

theorem net_service_drains:
  assumes "ring_ok st"
  shows "pending (net_service_once True st) = []"
    "net_log (net_service_once True st) = net_log st @ List.map Netif_input (pending st) @ [Netif_tick, Netif_report, Netdev_service]"
proof -
  note d = drain_all [OF assms, of 16]
  have p: "pending (st\<lparr>net_log := l\<rparr>) = pending st" for st l by (simp add: pending_def slot_frame_def slot_mem_def)
  show "pending (net_service_once True st) = []"
    "net_log (net_service_once True st) = net_log st @ List.map Netif_input (pending st) @ [Netif_tick, Netif_report, Netdev_service]"
    using d pending_short [of st] by (simp_all add: net_service_once_def net_after_def net_do_def p)
qed

subsection \<open>The checksum\<close>

text \<open>The sum of the big endian 16-bit words, the last byte alone the high half of a word.\<close>

fun wsum :: "u8 list \<Rightarrow> nat" where
  "wsum (a # b # bs) = 256 * unat a + unat b + wsum bs"
| "wsum [a] = 256 * unat a"
| "wsum [] = 0"

lemma unat_byte_le: "unat (b :: u8) \<le> 255"
proof -
  have "unat b < 2 ^ LENGTH(8)" by (rule unsigned_less)
  then show ?thesis by simp
qed

lemma unat_be16r: "unat (be16r a b) = 256 * unat a + unat b"
proof -
  have "be16r a b = push_bit 8 (ucast a) + ucast b"
    unfolding be16r_def by (rule disjunctive_add [symmetric]) (auto simp: bit_simps dest: bit_imp_le_length)
  also have "\<dots> = of_nat (256 * unat a + unat b)" by (simp add: push_bit_eq_mult)
  finally have "unat (be16r a b) = unat (of_nat (256 * unat a + unat b) :: u32)" by (rule arg_cong)
  then show ?thesis using unat_byte_le [of a] unat_byte_le [of b] by (simp only: unat_of_nat_u32)
qed

lemma unat_high_byte: "unat (push_bit 8 (ucast (a :: u8)) :: u32) = 256 * unat a"
  using unat_be16r [of a 0] by (simp add: be16r_def)

lemma wsum_bound: "wsum bs \<le> 65535 * length bs"
proof (induction bs rule: wsum.induct)
  case (1 a b bs)
  then show ?case using unat_byte_le [of a] unat_byte_le [of b] by simp
next
  case (2 a)
  then show ?case using unat_byte_le [of a] by simp
qed simp

lemma unat_ck_sum: "unat s + wsum bs < 4294967296 \<Longrightarrow> unat (ck_sum bs s) = unat s + wsum bs"
proof (induction bs s rule: ck_sum.induct)
  case (1 a b bs s)
  have "unat (s + be16r a b) = unat s + (256 * unat a + unat b)" using "1.prems" unat_be16r [of a b] by (simp add: unat_add_u32)
  then show ?case using 1 by simp
next
  case (2 a s)
  then show ?case by (simp add: unat_add_u32 unat_high_byte)
qed simp

lemma ck_fold_props: "unat (ck_fold s) < 65536 \<and> unat (ck_fold s) mod 65535 = unat s mod 65535 \<and> (ck_fold s = 0 \<longleftrightarrow> s = 0)"
proof (induction s rule: ck_fold.induct)
  case (1 s)
  have sp: "65536 * (unat s div 65536) + unat s mod 65536 = unat s" by simp
  show ?case
  proof (cases "drop_bit 16 s = 0")
    case True
    then have "unat s div 65536 = 0" using u32_eq_0_iff [of "drop_bit 16 s"] by (simp only: unat_high_half)
    then have "unat s < 65536" by (simp add: div_eq_0_iff)
    then show ?thesis using True by (simp add: ck_fold.simps [of s])
  next
    case False
    let ?t = "(s AND 0xFFFF) + drop_bit 16 s"
    have t: "unat ?t = unat s mod 65536 + unat s div 65536" by (rule fold_less)
    have "(65536 * (unat s div 65536) + unat s mod 65536) mod 65535 = (unat s mod 65536 + unat s div 65536) mod 65535"
      using mod_mult_self1 [of "unat s mod 65536 + unat s div 65536" "unat s div 65536" 65535] by (simp add: algebra_simps)
    then have m: "unat ?t mod 65535 = unat s mod 65535" unfolding t sp by simp
    have "?t = 0 \<longleftrightarrow> s = 0" unfolding u32_eq_0_iff t using sp by auto
    then show ?thesis using 1 [OF False] False m by (simp add: ck_fold.simps [of s])
  qed
qed

lemma unat_cksum:
  assumes "length bs \<le> 512"
  shows "unat (cksum bs) = 65535 - unat (ck_fold (ck_sum bs 0))" "unat (ck_sum bs 0) = wsum bs"
proof -
  have "wsum bs < 4294967296" using wsum_bound [of bs] assms by linarith
  then show "unat (ck_sum bs 0) = wsum bs" using unat_ck_sum [of 0 bs] by simp
  have f: "unat (ck_fold (ck_sum bs 0)) < 65536" using ck_fold_props by blast
  have "NOT x AND 0xFFFF = 0xFFFF - (x :: u32)" if "unat x < 65536" for x
  proof -
    have x: "x AND 0xFFFF = x"
      using that unat_and_mask [of x 16] by (intro word_unat_eq_iff [THEN iffD2]) (simp add: mask_eq_exp_minus_1)
    have "(NOT x AND 0xFFFF) + (x AND 0xFFFF) = 0xFFFF" using and_plus_and_not [of "0xFFFF" x] by (simp only: and.commute add.commute)
    then show ?thesis unfolding x by (simp add: eq_diff_eq)
  qed
  from this [OF f] show "unat (cksum bs) = 65535 - unat (ck_fold (ck_sum bs 0))"
    unfolding cksum_def using f by (simp add: unat_sub_u32)
qed

text \<open>The Internet checksum: the complement of the ones' complement sum.\<close>

lemma cksum_zero: "length bs \<le> 512 \<Longrightarrow> cksum bs = 0 \<longleftrightarrow> 0 < wsum bs \<and> wsum bs mod 65535 = 0"
proof -
  assume l: "length bs \<le> 512"
  let ?f = "unat (ck_fold (ck_sum bs 0))"
  note c = unat_cksum [OF l]
  have f: "?f < 65536" "?f mod 65535 = wsum bs mod 65535" "?f = 0 \<longleftrightarrow> wsum bs = 0"
    using ck_fold_props [of "ck_sum bs 0"] u32_eq_0_iff [of "ck_sum bs 0"] u32_eq_0_iff [of "ck_fold (ck_sum bs 0)"] by (simp_all only: c(2) simp_thms)
  have "cksum bs = 0 \<longleftrightarrow> ?f = 65535" unfolding u32_eq_0_iff c(1) using f(1) by linarith
  also have "\<dots> \<longleftrightarrow> 0 < ?f \<and> ?f mod 65535 = 0" using f(1) by (auto simp: mod_eq_0_iff_dvd elim!: dvdE)
  finally show ?thesis using f(2,3) by auto
qed

lemma be16_roundtrip: "be16r (ucast (drop_bit 8 v)) (ucast v) = v AND 0xFFFF"
proof -
  have m: "(0xFFFF :: u32) = mask 16" by (simp add: mask_eq_exp_minus_1)
  show ?thesis unfolding be16r_def m by (rule bit_eqI) (auto simp: bit_simps)
qed

lemma wsum_append: "even (length p) \<Longrightarrow> wsum (p @ q) = wsum p + wsum q"
  by (induction p rule: wsum.induct) simp_all

lemma wsum_put:
  assumes "even j" "j + 2 \<le> length xs"
  shows "wsum (put_at j [a, b] xs) = wsum (take j xs) + wsum (drop (j + 2) xs) + 256 * unat a + unat b"
  using assms by (simp add: put_at_def wsum_append)

lemma slice_put:
  assumes "i \<le> at" "at + length bs \<le> i + n" "i + n \<le> length buf"
  shows "take n (drop i (put_at at bs buf)) = put_at (at - i) bs (take n (drop i buf))"
  using assms by (intro nth_equalityI) (auto simp: put_at_nth add.commute [of i])

text \<open>A range with its checksum in place sums to the complement of zero, which is how a receiver checks it.\<close>

lemma put_cksum_verifies:
  assumes "i \<le> at" "even (at - i)" "at + 2 \<le> i + n" "i + n \<le> length buf" "n \<le> 512"
  shows "cksum (take n (drop i (put_cksum at i n buf))) = 0" "length (put_cksum at i n buf) = length buf"
proof -
  define xs where "xs = take n (drop i buf)"
  define c where "c = cksum (put_at (at - i) [0, 0] xs)"
  have l: "length xs = n" "at - i + 2 \<le> length xs" using assms by (simp_all add: xs_def)
  have zero: "be16w 0 = [0, 0]" by (simp add: be16w_def)
  have b1: "take n (drop i (put_at at (be16w 0) buf)) = put_at (at - i) [0, 0] xs"
    using slice_put [OF assms(1), of "[0, 0]" n buf] assms(3,4) by (simp add: zero xs_def)
  have len1: "length (put_at at (be16w 0) buf) = length buf" using assms by (simp add: zero)
  have b2: "take n (drop i (put_cksum at i n buf)) = put_at (at - i) (be16w c) (put_at (at - i) [0, 0] xs)"
    unfolding put_cksum_def Let_def b1 c_def using slice_put [OF assms(1), of "be16w (cksum (put_at (at - i) [0, 0] xs))" n "put_at at (be16w 0) buf"] assms(3,4)
    by (simp add: len1 b1) (simp add: be16w_def)
  also have "\<dots> = put_at (at - i) (be16w c) xs"
    using l by (intro nth_equalityI) (auto simp: put_at_nth be16w_def)
  finally have slice: "take n (drop i (put_cksum at i n buf)) = put_at (at - i) (be16w c) xs" .
  define W where "W = wsum (take (at - i) xs) + wsum (drop (at - i + 2) xs)"
  let ?z = "put_at (at - i) [0, 0] xs"
  have lz: "length ?z \<le> 512" using l assms(5) by simp
  have wz: "wsum ?z = W" using wsum_put [OF assms(2) l(2), of 0 0] by (simp add: W_def)
  have fold: "unat (ck_fold (ck_sum ?z 0)) < 65536" "unat (ck_fold (ck_sum ?z 0)) mod 65535 = W mod 65535"
    using ck_fold_props [of "ck_sum ?z 0"] by (simp_all add: unat_cksum(2) [OF lz] wz)
  have c: "unat c = 65535 - unat (ck_fold (ck_sum ?z 0))" unfolding c_def by (rule unat_cksum(1) [OF lz])
  have "256 * unat (ucast (drop_bit 8 c) :: u8) + unat (ucast c :: u8) = unat (c AND 0xFFFF)"
    by (simp only: be16_roundtrip [symmetric] unat_be16r)
  also have "\<dots> = unat c" using unat_and_mask [of c 16] c by (simp add: mask_eq_exp_minus_1)
  finally have w: "wsum (put_at (at - i) (be16w c) xs) = W + unat c"
    using wsum_put [OF assms(2) l(2)] by (simp add: be16w_def W_def)
  have "length (put_at (at - i) (be16w c) xs) \<le> 512" using l assms(5) by (simp add: be16w_def)
  moreover have "0 < W + unat c \<and> (W + unat c) mod 65535 = 0"
  proof -
    let ?f = "unat (ck_fold (ck_sum ?z 0))"
    have "W + unat c + ?f = W + 65535" using c fold(1) by linarith
    then have "(W + unat c + ?f) mod 65535 = W mod 65535" by (simp only: mod_add_self2)
    then have "(W + unat c + ?f) mod 65535 = ?f mod 65535" using fold(2) by simp
    then have "65535 dvd W + unat c" by (metis add_diff_cancel_right' le_add2 mod_eq_dvd_iff_nat)
    moreover have "0 < W + unat c"
      using c fold ck_fold_props [of "ck_sum ?z 0"] u32_eq_0_iff [of "ck_sum ?z 0"] by (cases "W = 0") (auto simp: unat_cksum(2) [OF lz] wz)
    ultimately show ?thesis by simp
  qed
  ultimately show "cksum (take n (drop i (put_cksum at i n buf))) = 0" unfolding slice by (simp add: cksum_zero w)
  show "length (put_cksum at i n buf) = length buf" using assms by (simp add: put_cksum_def Let_def be16w_def)
qed

subsection \<open>The handlers\<close>

text \<open>A station with an address and a way out.\<close>

definition station :: "net \<Rightarrow> bool" where
  "station st \<longleftrightarrow> length (g_mac st) = 6 \<and> length (g_ip st) = 4 \<and> length (net_out st) = 512 \<and> g_tx_fn st \<noteq> 0"

lemma length_bytes_from [simp]: "length (bytes_from f i n) = n"
  by (simp add: bytes_from_def)

lemma slice_bytes_from: "a + k \<le> n \<Longrightarrow> take k (drop a (bytes_from f i n)) = bytes_from f (i + a) k"
  by (intro nth_equalityI) (simp_all add: bytes_from_def add.assoc)

lemma length_be16w [simp]: "length (be16w v) = 2"
  by (simp add: be16w_def)

lemma put_cksum_other:
  assumes "at + 2 \<le> length buf" "a + k \<le> length buf" "a + k \<le> at \<or> at + 2 \<le> a"
  shows "take k (drop a (put_cksum at i n buf)) = take k (drop a buf)"
  using assms by (simp add: put_cksum_def Let_def take_drop_put_at)

lemma length_put_cksum [simp]: "at + 2 \<le> length buf \<Longrightarrow> length (put_cksum at i n buf) = length buf"
  by (simp add: put_cksum_def Let_def)

lemma slice_take: "a + k \<le> l \<Longrightarrow> take k (drop a (take l xs)) = take k (drop a xs)"
  by (simp add: drop_take min_def)

lemma slice_put_whole: "at + length bs \<le> length xs \<Longrightarrow> k = length bs \<Longrightarrow> take k (drop at (put_at at bs xs)) = bs"
  by (simp add: take_drop_put_same)

text \<open>
  Ping (C26): an echo request for the station's address that fits the buffer is answered by one frame of its length, with the addresses turned round, the type
  of a reply, everything behind the checksum as it came and both checksums right.
\<close>

theorem net_answers_ping:
  assumes "station st" "g_have_ip st" "38 \<le> len" "len \<le> 512"
    and "be16r (f 12) (f 13) = 0x0800" "f 23 = 1" "f 34 = 8" "bytes_from f 30 4 = g_ip st"
  shows "\<exists>r. net_log (net_handle f len st) = net_log st @ [Net_tx (g_tx_fn st) r] \<and> length r = unat len
    \<and> take 6 r = bytes_from f 6 6 \<and> take 6 (drop 6 r) = g_mac st \<and> take 4 (drop 26 r) = g_ip st \<and> take 4 (drop 30 r) = bytes_from f 26 4
    \<and> cksum (take 20 (drop 14 r)) = 0 \<and> cksum (drop 34 r) = 0 \<and> take 1 (drop 34 r) = [0] \<and> drop 38 r = bytes_from f 38 (unat len - 38)"
proof -
  define L where "L = unat len"
  have L: "38 \<le> L" "L \<le> 512" "unat (len - 34) = L - 34" using assms(3,4) by (simp_all add: L_def word_le_nat_alt unat_sub_u32)
  have len: "length (g_mac st) = 6" "length (g_ip st) = 4" "length (net_out st) = 512" "g_tx_fn st \<noteq> 0" using assms(1) by (simp_all add: station_def)
  define o1 where "o1 = put_at 0 (bytes_from f 0 L) (net_out st)"
  define o2 where "o2 = put_at 0 (bytes_from f 6 6) o1"
  define o3 where "o3 = put_at 6 (g_mac st) o2"
  define o4 where "o4 = put_at 26 (g_ip st @ bytes_from f 26 4) o3"
  define o5 where "o5 = put_cksum 24 14 20 o4"
  define o6 where "o6 = put_at 34 [0] o5"
  define o7 where "o7 = put_cksum 36 34 (L - 34) o6"
  have l: "length o1 = 512" "length o2 = 512" "length o3 = 512" "length o4 = 512" "length o5 = 512" "length o6 = 512" "length o7 = 512"
    using len L by (simp_all add: o1_def o2_def o3_def o4_def o5_def o6_def o7_def)
  have "net_log (net_handle f len st) = net_log st @ [Net_tx (g_tx_fn st) (take L o7)]"
    using assms(2-8) len(4) unfolding L_def o7_def o6_def o5_def o4_def o3_def o2_def o1_def L(3) [unfolded L_def, symmetric]
    by (simp add: net_handle_def Let_def ip_is_def icmp_reply_def net_send_def net_do_def word_le_nat_alt word_less_nat_alt)
  moreover have "take 6 (take L o7) = bytes_from f 6 6 \<and> take 6 (drop 6 (take L o7)) = g_mac st \<and> take 4 (drop 26 (take L o7)) = g_ip st
    \<and> take 4 (drop 30 (take L o7)) = bytes_from f 26 4 \<and> cksum (take 20 (drop 14 (take L o7))) = 0 \<and> cksum (drop 34 (take L o7)) = 0
    \<and> take 1 (drop 34 (take L o7)) = [0] \<and> drop 38 (take L o7) = bytes_from f 38 (L - 38)"
  proof -
    have s7: "take k (drop a o7) = take k (drop a o6)" if "a + k \<le> 36 \<or> 38 \<le> a" "a + k \<le> 512" for a k
      unfolding o7_def using that l by (intro put_cksum_other) auto
    have s6: "take k (drop a o6) = take k (drop a o5)" if "a + k \<le> 34 \<or> 35 \<le> a" "a + k \<le> 512" for a k
      unfolding o6_def using that l by (intro take_drop_put_at) auto
    have s5: "take k (drop a o5) = take k (drop a o4)" if "a + k \<le> 24 \<or> 26 \<le> a" "a + k \<le> 512" for a k
      unfolding o5_def using that l by (intro put_cksum_other) auto
    have s4: "take k (drop a o4) = take k (drop a o3)" if "a + k \<le> 26 \<or> 34 \<le> a" "a + k \<le> 512" for a k
      unfolding o4_def using that l len by (intro take_drop_put_at) auto
    have s3: "take k (drop a o3) = take k (drop a o2)" if "a + k \<le> 6 \<or> 12 \<le> a" "a + k \<le> 512" for a k
      unfolding o3_def using that l len by (intro take_drop_put_at) auto
    have s2: "take k (drop a o2) = take k (drop a o1)" if "6 \<le> a" "a + k \<le> 512" for a k
      unfolding o2_def using that l by (intro take_drop_put_at) auto
    have "take 6 (drop 0 o2) = bytes_from f 6 6" unfolding o2_def by (rule slice_put_whole) (simp_all add: l)
    then have a: "take 6 (drop 0 o7) = bytes_from f 6 6"
      using s7 [of 0 6] s6 [of 0 6] s5 [of 0 6] s4 [of 0 6] s3 [of 0 6] by simp
    have "take 6 (drop 6 o3) = g_mac st" unfolding o3_def by (rule slice_put_whole) (simp_all add: l len)
    then have b: "take 6 (drop 6 o7) = g_mac st" using s7 [of 6 6] s6 [of 6 6] s5 [of 6 6] s4 [of 6 6] by simp
    have w: "take 8 (drop 26 o4) = g_ip st @ bytes_from f 26 4" unfolding o4_def by (rule slice_put_whole) (simp_all add: l len)
    have "take 4 (drop 26 o4) = g_ip st" "take 4 (drop 30 o4) = bytes_from f 26 4"
      using arg_cong [OF w, of "take 4"] arg_cong [OF w, of "drop 4"] len by (simp_all add: drop_take)
    then have c: "take 4 (drop 26 o7) = g_ip st" "take 4 (drop 30 o7) = bytes_from f 26 4"
      using s7 [of 26 4] s6 [of 26 4] s5 [of 26 4] s7 [of 30 4] s6 [of 30 4] s5 [of 30 4] by simp_all
    have "cksum (take 20 (drop 14 o5)) = 0" unfolding o5_def by (rule put_cksum_verifies) (simp_all add: l)
    then have d: "cksum (take 20 (drop 14 o7)) = 0" using s7 [of 14 20] s6 [of 14 20] by simp
    have e: "cksum (take (L - 34) (drop 34 o7)) = 0" unfolding o7_def by (rule put_cksum_verifies) (use L in \<open>simp_all add: l\<close>)
    have "take 1 (drop 34 o6) = [0]" unfolding o6_def by (rule slice_put_whole) (simp_all add: l)
    then have g: "take 1 (drop 34 o7) = [0]" using s7 [of 34 1] by simp
    have "take L (drop 0 o1) = bytes_from f 0 L" unfolding o1_def by (rule slice_put_whole) (use L in \<open>simp_all add: len\<close>)
    then have "take (L - 38) (drop 38 o1) = bytes_from f 38 (L - 38)"
      using slice_take [of 38 "L - 38" L o1] slice_bytes_from [of 38 "L - 38" L f 0] L by simp
    then have h: "take (L - 38) (drop 38 o7) = bytes_from f 38 (L - 38)"
      using s7 [of 38 "L - 38"] s6 [of 38 "L - 38"] s5 [of 38 "L - 38"] s4 [of 38 "L - 38"] s3 [of 38 "L - 38"] s2 [of 38 "L - 38"] L by simp
    show ?thesis using a b c d e g h L by (simp add: slice_take drop_take [of 34] drop_take [of 38])
  qed
  ultimately show ?thesis using l(7) L by (intro exI [of _ "take L o7"]) (simp add: L_def)
qed

text \<open>The address request: its options carry the address offered and the server, where the option scan finds them, and its header verifies.\<close>

lemma dhcp_scan_step:
  "i + 1 < len \<Longrightarrow> f i \<noteq> 255 \<Longrightarrow> f i \<noteq> 0 \<Longrightarrow> f i = want \<Longrightarrow> unat (f (i + 1)) \<le> outn
    \<Longrightarrow> dhcp_scan f len want outn i = bytes_from f (i + 2) (unat (f (i + 1)))"
  "i + 1 < len \<Longrightarrow> f i \<noteq> 255 \<Longrightarrow> f i \<noteq> 0 \<Longrightarrow> f i \<noteq> want \<Longrightarrow> dhcp_scan f len want outn i = dhcp_scan f len want outn (i + 2 + unat (f (i + 1)))"
  by (simp_all add: dhcp_scan.simps [of f len want outn i] Let_def)

lemma request_options:
  assumes "bytes_from f 282 16 = [53, 1, 3, 50, 4] @ yi @ [54, 4] @ sid @ [255]" "length yi = 4" "length sid = 4" "298 \<le> unat len"
  shows "dhcp_opt f len 53 4 = [3]" "dhcp_opt f len 50 4 = yi" "dhcp_opt f len 54 4 = sid"
proof -
  have sl: "bytes_from f (282 + a) k = take k (drop a ([53, 1, 3, 50, 4] @ yi @ [54, 4] @ sid @ [255]))" if "a + k \<le> 16" for a k
    unfolding assms(1) [symmetric] using slice_bytes_from [OF that, of f 282] by simp
  have p: "bytes_from f 282 5 = [53, 1, 3, 50, 4]" "bytes_from f 287 4 = yi" "bytes_from f 291 2 = [54, 4]" "bytes_from f 293 4 = sid"
    using sl [of 0 5] sl [of 5 4] sl [of 9 2] sl [of 11 4] assms(2,3) by simp_all
  have u: "[282..<287] = [282, 283, 284, 285, 286]" "[291..<293] = [291, 292 :: nat]" by code_simp+
  have v: "f 282 = 53" "f 283 = 1" "f 284 = 3" "f 285 = 50" "f 286 = 4" "f 291 = 54" "f 292 = 4"
    using p(1,3) by (simp_all add: bytes_from_def u)
  have "bytes_from f 284 1 = [3]" using v(3) by (simp add: bytes_from_def)
  then show "dhcp_opt f len 53 4 = [3]" using assms(4) by (simp add: dhcp_opt_def dhcp_scan_step v)
  have skip: "dhcp_scan f (unat len) w 4 282 = dhcp_scan f (unat len) w 4 285" if "w \<noteq> 53" for w
    using dhcp_scan_step(2) [of 282 "unat len" f w 4] assms(4) that v by simp
  show "dhcp_opt f len 50 4 = yi" using skip [of 50] dhcp_scan_step(1) [of 285 "unat len" f 50 4] assms(4) v p(2) by (simp add: dhcp_opt_def)
  have "dhcp_scan f (unat len) 54 4 285 = dhcp_scan f (unat len) 54 4 291"
    using dhcp_scan_step(2) [of 285 "unat len" f 54 4] assms(4) v by simp
  then show "dhcp_opt f len 54 4 = sid" using skip [of 54] dhcp_scan_step(1) [of 291 "unat len" f 54 4] assms(4) v p(4) by (simp add: dhcp_opt_def)
qed

lemma dhcp_request_roundtrip:
  assumes "station st" "length yi = 4" "length sid = 4"
  shows "\<exists>r. net_log (dhcp_request f yi sid st) = net_log st @ [Net_tx (g_tx_fn st) r] \<and> length r = 298 \<and> cksum (take 20 (drop 14 r)) = 0
    \<and> dhcp_opt (\<lambda>i. r ! i) 298 53 4 = [3] \<and> dhcp_opt (\<lambda>i. r ! i) 298 50 4 = yi \<and> dhcp_opt (\<lambda>i. r ! i) 298 54 4 = sid"
proof -
  have len: "length (g_mac st) = 6" "g_tx_fn st \<noteq> 0" using assms(1) by (simp_all add: station_def)
  let ?opts = "[53, 1, 3, 50, 4] @ yi @ [54, 4] @ sid @ [255]"
  define o9 where "o9 = put_at 282 ?opts (put_at 278 [99, 130, 83, 99] (put_at 70 (g_mac st) (put_at 52 (be16w 0x8000) (put_at 46 (bytes_from f 46 4)
    (put_at 42 [1, 1, 6] (put_at 12 (be16w 0x0800) (put_at 6 (g_mac st) (put_at 0 (replicate 6 0xFF) (replicate 512 0)))))))))"
  define o14 where "o14 = put_at 30 (replicate 4 0xFF) (put_at 22 [64, 17] (put_at 16 (be16w 284) (put_at 14 [0x45]
    (put_at 34 (be16w 68 @ be16w 67 @ be16w 264 @ be16w 0) o9))))"
  define o15 where "o15 = put_cksum 24 14 20 o14"
  have l: "length o9 = 512" "length o14 = 512" "length o15 = 512" using len assms(2,3) by (simp_all add: o9_def o14_def o15_def)
  have "net_log (dhcp_request f yi sid st) = net_log st @ [Net_tx (g_tx_fn st) (take 298 o15)]"
    using len(2) unfolding o15_def o14_def o9_def by (simp add: dhcp_request_def Let_def net_send_def net_do_def)
  moreover have "cksum (take 20 (drop 14 (take 298 o15))) = 0"
  proof -
    have "cksum (take 20 (drop 14 o15)) = 0" unfolding o15_def by (rule put_cksum_verifies) (simp_all add: l)
    then show ?thesis by (simp only: slice_take)
  qed
  moreover have "bytes_from (\<lambda>i. take 298 o15 ! i) 282 16 = ?opts"
  proof -
    have "take 16 (drop 282 o9) = ?opts" unfolding o9_def by (rule slice_put_whole) (use len assms(2,3) in simp_all)
    moreover have "take 16 (drop 282 o15) = take 16 (drop 282 o14)" unfolding o15_def by (rule put_cksum_other) (simp_all add: l)
    moreover have "take 16 (drop 282 o14) = take 16 (drop 282 o9)" unfolding o14_def by (simp add: take_drop_put_at l)
    moreover have "bytes_from (\<lambda>i. take 298 o15 ! i) 282 16 = take 16 (drop 282 o15)"
      using l(3) by (intro nth_equalityI) (simp_all add: bytes_from_def del: upt_rec_numeral)
    ultimately show ?thesis by simp
  qed
  ultimately show ?thesis using request_options [OF _ assms(2,3), of "\<lambda>i. take 298 o15 ! i" 298] l(3)
    by (intro exI [of _ "take 298 o15"]) simp
qed

subsection \<open>The poll loop ends\<close>

text \<open>Every sleep moves the clock on, by less than half its range, and nothing else moves it.\<close>

definition clock_moves :: "(net \<Rightarrow> net) \<Rightarrow> bool" where
  "clock_moves sleep \<longleftrightarrow> (\<forall>st. 0 < net_ticks (sleep st) - net_ticks st \<and> net_ticks (sleep st) - net_ticks st < 0x80000000)"

lemma ticks_calls [simp]: "net_ticks (net_do c st) = net_ticks st" "net_ticks (net_prints cs st) = net_ticks st"
  "net_ticks (net_send n st) = net_ticks st"
  by (simp_all add: net_do_def net_prints_def net_send_def)

lemma ticks_handle [simp]: "net_ticks (net_handle f len st) = net_ticks st"
  by (simp add: net_handle_def arp_reply_def icmp_reply_def dhcp_request_def Let_def split: list.split)

lemma ticks_drain [simp]: "net_ticks (net_drain lwip k st) = net_ticks st"
  by (induction k arbitrary: st) (simp_all add: net_take_def Let_def)

lemma ticks_round: "net_ticks (snd (poll_round lwip t0 shown st)) = net_ticks st"
  by (simp add: poll_round_def Let_def net_after_def live_line_def)

text \<open>
  Whatever arrives while it sleeps, as long as the clock moves on, \<^verbatim>\<open>net_poll_for\<close> returns after at least the ticks asked for and hands the ring to the net
  task.
\<close>

theorem net_poll_returns:
  assumes "clock_moves sleep" "ticks \<le> 0x80000000"
  shows "\<exists>st'. net_poll_for sleep lwip ticks st = Some st' \<and> ticks \<le> net_ticks st' - net_ticks st \<and> \<not> g_net_polling st' \<and> g_net_handover st'"
proof -
  let ?t0 = "net_ticks st"
  have "\<exists>st'. poll_loop sleep lwip ?t0 ticks shown s = Some st' \<and> ticks \<le> net_ticks st' - ?t0" for shown s
  proof (induction "unat (0xFFFFFFFF - (net_ticks s - ?t0))" arbitrary: shown s rule: less_induct)
    case less
    show ?case
    proof (cases "net_ticks s - ?t0 < ticks")
      case True
      obtain l s1 where r: "poll_round lwip ?t0 shown s = (l, s1)" by fastforce
      have "net_ticks s1 = net_ticks s" using ticks_round [of lwip ?t0 shown s] r by simp
      then have m: "0 < net_ticks (sleep s1) - net_ticks s" "net_ticks (sleep s1) - net_ticks s < 0x80000000"
        using assms(1) unfolding clock_moves_def by metis+
      have e: "net_ticks (sleep s1) - ?t0 = (net_ticks s - ?t0) + (net_ticks (sleep s1) - net_ticks s)" by simp
      have "unat (net_ticks s - ?t0) < 2147483648" using True assms(2) by (simp add: word_less_nat_alt word_le_nat_alt)
      then have u: "unat (net_ticks (sleep s1) - ?t0) = unat (net_ticks s - ?t0) + unat (net_ticks (sleep s1) - net_ticks s)"
        unfolding e using m(2) by (intro unat_add_u32) (simp add: word_less_nat_alt)
      have "0 < unat (net_ticks (sleep s1) - net_ticks s)" using m(1) by (simp add: word_less_nat_alt)
      then have "unat (net_ticks s - ?t0) < unat (net_ticks (sleep s1) - ?t0)" using u by simp
      moreover have "unat (0xFFFFFFFF - x) = 4294967295 - unat x" for x :: u32
        by (subst unat_sub_u32) (simp_all add: unat_le_u32)
      ultimately have "unat (0xFFFFFFFF - (net_ticks (sleep s1) - ?t0)) < unat (0xFFFFFFFF - (net_ticks s - ?t0))"
        using unat_le_u32 [of "net_ticks (sleep s1) - ?t0"] by simp
      from less.hyps [OF this, of l] show ?thesis using True r by (simp add: poll_loop.simps [of sleep lwip ?t0 ticks shown s])
    next
      case False
      then show ?thesis by (simp add: poll_loop.simps [of sleep lwip ?t0 ticks shown s])
    qed
  qed
  then obtain s where "poll_loop sleep lwip ?t0 ticks 0 (st\<lparr>g_net_polling := True\<rparr>) = Some s" "ticks \<le> net_ticks s - ?t0" by blast
  then show ?thesis by (simp add: net_poll_for_def net_prints_def)
qed

subsection \<open>Instances\<close>

definition boot_net :: net where
  "boot_net = \<lparr>g_q = (\<lambda>_. 0), g_qlen = [0, 0, 0], g_head = 0, g_tail = 0, g_net_dropped = 0, g_net_truncated = 0, g_mac = [2, 0, 0, 0, 0, 1],
     g_ip = [10, 0, 0, 1], g_srv = [0, 0, 0, 0], g_have_ip = True, g_tx_fn = 1, net_out = replicate 512 0, g_net_arp_req = 0, g_net_arp_rep = 0,
     g_net_icmp_req = 0, g_net_icmp_rep = 0, g_net_dhcp_offer = 0, g_net_dhcp_ack = 0, g_net_frames = 0, g_net_polling = False,
     g_net_handover = False, net_ticks = 0xFFFFFFFA, net_log = []\<rparr>"

definition demo_events :: "ring_event list" where
  "demo_events = [Arrive [1], Arrive [2], Arrive [3], Take, Arrive [4], Take]"

lemma net_ring_accounts_witness:
  "\<exists>kept. subseq kept [[1], [2], [3], [4]] \<and> inputs (net_log (fold ring_step demo_events boot_net)) @ pending (fold ring_step demo_events boot_net) = kept
     \<and> g_net_dropped (fold ring_step demo_events boot_net) = of_nat (4 - length kept)"
proof -
  have "ring_ok boot_net" by (simp add: boot_net_def ring_ok_def)
  note R = net_ring_accounts [OF this, of demo_events, unfolded Let_def]
  have "arrivals demo_events = [[1], [2], [3], [4]]" by (simp add: demo_events_def)
  moreover have "pending boot_net = []" "g_net_dropped boot_net = 0" "inputs (net_log boot_net) = []"
    by (simp_all add: boot_net_def pending_def)
  ultimately obtain kept where "subseq kept [[1], [2], [3], [4 :: u8]]"
      "inputs (net_log (fold ring_step demo_events boot_net)) @ pending (fold ring_step demo_events boot_net) = kept"
      "g_net_dropped (fold ring_step demo_events boot_net) = of_nat (length [[1], [2], [3], [4 :: u8]] - length kept)"
    using R by (metis append_Nil add_0)
  moreover have "length [[1], [2], [3], [4 :: u8]] = 4" by simp
  ultimately show ?thesis by metis
qed

definition ping_frame :: "nat \<Rightarrow> u8" where
  "ping_frame i = (if i = 12 then 8 else if i = 23 then 1 else if i = 26 then 10 else if i = 29 then 2 else if i = 30 then 10 else if i = 33 then 1
     else if i = 34 then 8 else 0)"

lemma net_answers_ping_witness:
  "\<exists>r. net_log (net_handle ping_frame 42 boot_net) = [Net_tx 1 r] \<and> take 4 (drop 30 r) = [10, 0, 0, 2] \<and> cksum (drop 34 r) = 0"
proof -
  have "station boot_net" "g_have_ip boot_net" "(38 :: u32) \<le> 42" "(42 :: u32) \<le> 512" by (simp_all add: boot_net_def station_def)
  moreover have "be16r (ping_frame 12) (ping_frame 13) = 0x0800" "ping_frame 23 = 1" "ping_frame 34 = 8" by (simp_all add: ping_frame_def be16r_def)
  moreover have "bytes_from ping_frame 30 4 = g_ip boot_net" "bytes_from ping_frame 26 4 = [10, 0, 0, 2]"
    by (simp_all add: boot_net_def ping_frame_def bytes_from_def)
  moreover have "net_log boot_net = []" "g_tx_fn boot_net = 1" by (simp_all add: boot_net_def)
  ultimately show ?thesis using net_answers_ping [of boot_net 42 ping_frame] by auto
qed

lemma net_poll_returns_witness:
  "\<exists>st'. net_poll_for (\<lambda>st. st\<lparr>net_ticks := net_ticks st + 2\<rparr>) True 10 boot_net = Some st' \<and> 10 \<le> net_ticks st' - net_ticks boot_net \<and> g_net_handover st'"
proof -
  have "clock_moves (\<lambda>st. st\<lparr>net_ticks := net_ticks st + 2\<rparr>)" by (simp add: clock_moves_def)
  then show ?thesis using net_poll_returns [of "\<lambda>st. st\<lparr>net_ticks := net_ticks st + 2\<rparr>" 10 True boot_net] by auto
qed

text \<open>The option scan checks the two bytes of an option's head against the frame's length, not its value: in a full slot the value is read from the memory
  behind the slot.\<close>

definition long_options :: "u8 \<Rightarrow> nat \<Rightarrow> u8" where
  "long_options v i = (if i \<in> {282, 539, 796, 1053, 1310, 1567} then 1 else if i \<in> {283, 540, 797, 1054, 1311} then 255 else if i = 1568 then 29
     else if i = 1598 then 53 else if i = 1599 then 1 else if i = 1600 then v else 0)"

lemma dhcp_opt_overrun:
  "\<forall>i < 1600. long_options v i = long_options w i" "dhcp_opt (long_options v) 1600 53 4 = [v]"
proof -
  show "\<forall>i < 1600. long_options v i = long_options w i" by (simp add: long_options_def)
  have s: "dhcp_scan (long_options v) 1600 53 4 i = dhcp_scan (long_options v) 1600 53 4 (i + 257)" if "i \<in> {282, 539, 796, 1053, 1310}" for i
  proof -
    have "long_options v i = 1" "long_options v (i + 1) = 255" using that by (auto simp: long_options_def)
    then show ?thesis using that by (subst dhcp_scan_step(2)) auto
  qed
  have "dhcp_opt (long_options v) 1600 53 4 = dhcp_scan (long_options v) 1600 53 4 1567"
    using s [of 282] s [of 539] s [of 796] s [of 1053] s [of 1310] by (simp add: dhcp_opt_def)
  also have "\<dots> = dhcp_scan (long_options v) 1600 53 4 1598"
    by (rule dhcp_scan_step(2) [THEN trans]) (simp_all add: long_options_def)
  also have "\<dots> = bytes_from (long_options v) 1600 1"
    by (rule dhcp_scan_step(1) [THEN trans]) (simp_all add: long_options_def)
  also have "\<dots> = [v]" by (simp add: bytes_from_def long_options_def)
  finally show "dhcp_opt (long_options v) 1600 53 4 = [v]" .
qed

end
