(* ===== verification/KWeb.thy ===== *)
theory KWeb
  imports KOut
begin

text \<open>
  Fetching a page, \<^verbatim>\<open>kernel/webfetch.c\<close>: name resolution over UDP, the request over TCP and the collection of the answer, driven by the
  callbacks of the vendored stack and by \<^verbatim>\<open>webfetch_service\<close>. The calls into the stack are the history \<open>w_log\<close>; what the stack answers to them is
  the record \<open>stack\<close>, a parameter. As its documentation says, \<^verbatim>\<open>tcp_abort\<close> calls the error callback. The clock is an argument, \<open>now\<close>. Strings are without
  their terminator; \<open>g_body\<close> is the part of the buffer below \<^verbatim>\<open>g_len\<close>.
\<close>

subsection \<open>State\<close>

datatype web_state = WEB_IDLE | WEB_RESOLVING | WEB_CONNECTING | WEB_REQUESTING | WEB_DONE | WEB_FAILED

datatype web_call =
    Wlog string
  | Wlogv string u32
  | Udp_new
  | Udp_bind
  | Udp_remove
  | Pbuf_alloc nat
  | Udp_sendto u32 "u8 list"
  | Tcp_new
  | Tcp_connect "u8 list"
  | Tcp_write "u8 list"
  | Tcp_output
  | Tcp_recved nat
  | Tcp_close
  | Tcp_abort

record stack =
  wifi_ip :: "web_call list \<Rightarrow> u32"
  wifi_gw :: "web_call list \<Rightarrow> u32"
  udp_ok :: "web_call list \<Rightarrow> bool"
  bind_ok :: "web_call list \<Rightarrow> bool"
  pbuf_ok :: "web_call list \<Rightarrow> bool"
  tcp_ok :: "web_call list \<Rightarrow> bool"
  connect_ok :: "web_call list \<Rightarrow> bool"
  write_ok :: "web_call list \<Rightarrow> bool"

record web =
  w_state :: web_state
  g_host :: cstring
  g_path :: cstring
  g_body :: "u8 list"
  w_dropped :: u32
  g_code :: u32
  g_status :: string
  g_addr :: "u8 list"
  g_dns :: bool
  g_tcp :: bool
  w_t0 :: u32
  g_tries :: u32
  g_id :: u16
  g_dns_srv :: u32
  w_log :: "web_call list"

abbreviation (input) WEB_HOST_MAX :: nat where "WEB_HOST_MAX \<equiv> 64"
abbreviation (input) WEB_BODY_MAX :: nat where "WEB_BODY_MAX \<equiv> 2048"

text \<open>Error values of the stack.\<close>

abbreviation (input) ERR_OK :: int where "ERR_OK \<equiv> 0"
abbreviation (input) ERR_MEM :: int where "ERR_MEM \<equiv> - 1"
abbreviation (input) ERR_ABRT :: int where "ERR_ABRT \<equiv> - 13"

definition web_do :: "web_call \<Rightarrow> web \<Rightarrow> web" where
  "web_do c st = st\<lparr>w_log := w_log st @ [c]\<rparr>"

subsection \<open>Closing\<close>

definition on_err :: "int \<Rightarrow> web \<Rightarrow> web" where
  "on_err err st =
     (let st1 = (web_do (Wlogv ''tcp error'' (of_int err)) st)\<lparr>g_tcp := False\<rparr> in
      if w_state st1 = WEB_CONNECTING \<or> w_state st1 = WEB_REQUESTING
      then st1\<lparr>g_status := ''connection failed'', w_state := WEB_FAILED\<rparr> else st1)"

text \<open>Aborting an open connection, with the callback it makes.\<close>

definition tcp_drop :: "web \<Rightarrow> web" where
  "tcp_drop st = (if g_tcp st then (on_err ERR_ABRT (web_do Tcp_abort st))\<lparr>g_tcp := False\<rparr> else st)"

definition dns_drop :: "web \<Rightarrow> web" where
  "dns_drop st = (if g_dns st then (web_do Udp_remove st)\<lparr>g_dns := False\<rparr> else st)"

definition web_fail :: "string \<Rightarrow> web \<Rightarrow> web" where
  "web_fail why st = tcp_drop (dns_drop (st\<lparr>g_status := why, w_state := WEB_FAILED\<rparr>))"

subsection \<open>The answer\<close>

definition clean :: "u8 \<Rightarrow> u8" where
  "clean c = (if c = 10 \<or> 32 \<le> c \<and> c < 127 then c else 32)"

fun digits :: "u8 list \<Rightarrow> u32 \<Rightarrow> u32" where
  "digits [] v = v"
| "digits (c # cs) v = (if 48 \<le> c \<and> c \<le> 57 then digits cs (v * 10 + ucast (c - 48)) else v)"

definition parse_code :: "u8 list \<Rightarrow> u32" where
  "parse_code b = digits (dropWhile (\<lambda>c. c = 32) (dropWhile (\<lambda>c. c \<noteq> 32) b)) 0"

definition take_pbuf :: "u8 list \<Rightarrow> web \<Rightarrow> web" where
  "take_pbuf q st =
     (let room = WEB_BODY_MAX - 1 - length (g_body st) in
      st\<lparr>g_body := g_body st @ List.map clean (take room q), w_dropped := w_dropped st + of_nat (length q - room)\<rparr>)"

definition on_recv :: "u8 list list option \<Rightarrow> int \<Rightarrow> web \<Rightarrow> int \<times> web" where
  "on_recv p err st0 =
     (let st = web_do (Wlogv ''recv cb, bytes'' (case p of None \<Rightarrow> 0 | Some qs \<Rightarrow> of_nat (length (concat qs)))) st0 in
      if err \<noteq> ERR_OK then (err, web_fail ''recv error'' st)
      else case p of
        None \<Rightarrow>
          let st1 = web_do (Wlogv ''peer closed, have'' (of_nat (length (g_body st)))) st;
              st2 = (if w_state st1 = WEB_REQUESTING
                     then st1\<lparr>w_state := WEB_DONE, g_status := (if w_dropped st1 \<noteq> 0 then ''done (truncated)'' else ''done'')\<rparr> else st1)
          in (ERR_OK, (web_do Tcp_close st2)\<lparr>g_tcp := False\<rparr>)
      | Some qs \<Rightarrow>
          let st1 = fold take_pbuf qs st;
              st2 = (if g_code st1 = 0 \<and> length (g_body st1) > 12 \<and> g_body st1 ! 0 = 72
                     then st1\<lparr>g_code := parse_code (g_body st1)\<rparr> else st1)
          in (ERR_OK, web_do (Tcp_recved (length (concat qs))) st2))"

definition webfetch_inject :: "u8 list \<Rightarrow> web \<Rightarrow> web" where
  "webfetch_inject r st =
     (let b = take (WEB_BODY_MAX - 1) r; d = of_nat (length r - length b) :: u32
      in st\<lparr>g_body := b, w_dropped := d,
            g_code := (if length b > 12 \<and> b ! 0 = 72 then parse_code b else 0), w_state := WEB_DONE,
            g_status := (if d \<noteq> 0 then ''injected (truncated)'' else ''injected'')\<rparr>)"

subsection \<open>The request\<close>

definition crlf :: "u8 list" where "crlf = [13, 10]"

definition request :: "web \<Rightarrow> u8 list" where
  "request st =
     (let r1 = chars ''GET ''; r2 = r1 @ take (180 - length r1) (g_path st);
          r3 = r2 @ chars '' HTTP/1.0'' @ crlf @ chars ''Host: '';
          r4 = r3 @ take (240 - length r3) (g_host st)
      in r4 @ crlf @ chars ''User-Agent: nat-os'' @ crlf @ chars ''Connection: close'' @ crlf @ crlf)"

definition on_connected :: "stack \<Rightarrow> u32 \<Rightarrow> int \<Rightarrow> web \<Rightarrow> int \<times> web" where
  "on_connected e now err st =
     (if err \<noteq> ERR_OK then (err, web_fail ''connect refused'' st)
      else let st1 = web_do (Tcp_write (request st)) st in
        if \<not> write_ok e (w_log st) then (ERR_MEM, web_fail ''write failed'' st1)
        else (ERR_OK, (web_do (Wlog ''request sent'') (web_do Tcp_output st1))
          \<lparr>w_state := WEB_REQUESTING, g_status := ''waiting for reply'', w_t0 := now\<rparr>))"

definition http_go :: "stack \<Rightarrow> u32 \<Rightarrow> web \<Rightarrow> web" where
  "http_go e now st =
     (if \<not> tcp_ok e (w_log st) then web_fail ''no tcp pcb'' ((web_do Tcp_new st)\<lparr>g_tcp := False\<rparr>)
      else
        let st1 = (web_do Tcp_new st)\<lparr>g_tcp := True, w_state := WEB_CONNECTING, g_status := ''connecting'', w_t0 := now\<rparr>;
            st2 = web_do (Tcp_connect (g_addr st1)) st1
        in if connect_ok e (w_log st1) then st2 else web_fail ''connect failed'' st2)"

subsection \<open>Names\<close>

function dns_labels :: "cstring \<Rightarrow> u8 list" where
  "dns_labels h =
     (if h = [] then []
      else let l = takeWhile (\<lambda>c. c \<noteq> 46) h; r = dropWhile (\<lambda>c. c \<noteq> 46) h
           in of_nat (length l) # l @ dns_labels (drop 1 r))"
  by pat_completeness auto
termination
proof (relation "measure length")
  fix h :: cstring and l r
  assume "h \<noteq> []" "r = dropWhile (\<lambda>c. c \<noteq> 46) h"
  then show "(drop 1 r, h) \<in> measure length"
    using length_dropWhile_le [of "\<lambda>c. c \<noteq> 46" h] by (cases h; cases r) (auto split: if_splits)
qed simp

declare dns_labels.simps [simp del]

definition dns_query :: "web \<Rightarrow> u8 list" where
  "dns_query st =
     [ucast (drop_bit 8 (g_id st)), ucast (g_id st), 1, 0, 0, 1, 0, 0, 0, 0, 0, 0] @ dns_labels (g_host st) @ [0, 0, 1, 0, 1]"

definition dns_send :: "stack \<Rightarrow> u32 \<Rightarrow> web \<Rightarrow> web" where
  "dns_send e now st =
     (let q = dns_query st; st1 = web_do (Pbuf_alloc (length q)) st in
      if \<not> pbuf_ok e (w_log st) then web_fail ''out of buffers'' st1
      else
        let gw = wifi_gw e (w_log st1);
            st2 = web_do (Wlogv ''  gw byte0'' (gw AND 0xFF)) (web_do (Wlogv ''dns query to gw, try'' (g_tries st1 + 1)) (st1\<lparr>g_dns_srv := gw\<rparr>))
        in (web_do (Udp_sendto gw q) st2)\<lparr>w_t0 := now, g_tries := g_tries st2 + 1\<rparr>)"

text \<open>Positions in an answer. Each read is behind a comparison with the length.\<close>

function skip_question :: "u8 list \<Rightarrow> nat \<Rightarrow> nat" where
  "skip_question b i =
     (if i < length b \<and> b ! i \<noteq> 0
      then if b ! i AND 0xC0 = 0xC0 then i + 2 else skip_question b (i + unat (b ! i) + 1)
      else i)"
  by pat_completeness auto
termination by (relation "measure (\<lambda>(b, i). length b - i)") auto

declare skip_question.simps [simp del]

fun skip_questions :: "u8 list \<Rightarrow> nat \<Rightarrow> nat \<Rightarrow> nat" where
  "skip_questions b 0 i = i"
| "skip_questions b (Suc q) i =
     (if i < length b
      then let j = skip_question b i; k = (if j < length b \<and> b ! j = 0 then j + 1 else j) in skip_questions b q (k + 4)
      else i)"

function skip_labels :: "u8 list \<Rightarrow> nat \<Rightarrow> nat" where
  "skip_labels b i = (if i < length b \<and> b ! i \<noteq> 0 then skip_labels b (i + unat (b ! i) + 1) else i)"
  by pat_completeness auto
termination by (relation "measure (\<lambda>(b, i). length b - i)") auto

declare skip_labels.simps [simp del]

definition be16 :: "u8 list \<Rightarrow> nat \<Rightarrow> nat" where
  "be16 b i = 256 * unat (b ! i) + unat (b ! (i + 1))"

fun find_address :: "u8 list \<Rightarrow> nat \<Rightarrow> nat \<Rightarrow> u8 list option" where
  "find_address b 0 i = None"
| "find_address b (Suc a) i =
     (if i + 12 \<le> length b then
        let j = (if b ! i AND 0xC0 = 0xC0 then i + 2
                 else let k = skip_labels b i in if k < length b then k + 1 else k)
        in if j + 10 > length b then None
           else let rdl = be16 b (j + 8); d = j + 10
             in if be16 b j = 1 \<and> rdl = 4 \<and> d + 4 \<le> length b then Some (take 4 (drop d b)) else find_address b a (d + rdl)
      else None)"

definition on_dns :: "stack \<Rightarrow> u32 \<Rightarrow> u8 list \<Rightarrow> web \<Rightarrow> web" where
  "on_dns e now p st0 =
     (let b = take 512 p; st = web_do (Wlogv ''dns reply, bytes'' (of_nat (length b))) st0 in
      if w_state st \<noteq> WEB_RESOLVING \<or> length b < 12 then st
      else if be16 b 0 \<noteq> unat (g_id st) then st
      else if b ! 3 AND 0x0F \<noteq> 0 then web_fail ''host not found'' st
      else if be16 b 6 = 0 then web_fail ''no address'' st
      else case find_address b (be16 b 6) (skip_questions b (be16 b 4) 12) of
        None \<Rightarrow> web_fail ''no A record'' st
      | Some a \<Rightarrow> http_go e now ((web_do Udp_remove (web_do (Wlog ''resolved -- connecting'') (st\<lparr>g_addr := a\<rparr>)))\<lparr>g_dns := False\<rparr>))"

subsection \<open>Start and service\<close>

definition webfetch_start :: "stack \<Rightarrow> u32 \<Rightarrow> cstring option \<Rightarrow> cstring option \<Rightarrow> web \<Rightarrow> bool \<times> web" where
  "webfetch_start e now host path st =
     (if host = None \<or> host = Some [] then (False, st)
      else if wifi_ip e (w_log st) = 0 then
        (False, (web_do (Wlog ''no IP -- run the wifi app first'') st)\<lparr>g_status := ''no network'', w_state := WEB_FAILED\<rparr>)
      else
        let st1 = tcp_drop (dns_drop st);
            st2 = st1\<lparr>g_host := take (WEB_HOST_MAX - 1) (the host),
                g_path := (if path \<noteq> None \<and> path \<noteq> Some [] then take (WEB_HOST_MAX - 1) (the path) else [47]),
                g_body := [], g_code := 0, g_tries := 0, w_dropped := 0, g_id := ucast (now AND 0xFFFF) OR 1\<rparr>;
            st3 = web_do Udp_new st2
        in if \<not> udp_ok e (w_log st2) then (False, web_fail ''no udp pcb'' (st3\<lparr>g_dns := False\<rparr>))
           else
             let st4 = web_do Udp_bind (st3\<lparr>g_dns := True\<rparr>) in
             if \<not> bind_ok e (w_log st3) then (False, web_fail ''bind failed'' st4)
             else (True, dns_send e now (st4\<lparr>w_state := WEB_RESOLVING, g_status := ''resolving''\<rparr>)))"

definition webfetch_service :: "stack \<Rightarrow> u32 \<Rightarrow> web \<Rightarrow> web" where
  "webfetch_service e now st =
     (if w_state st \<notin> {WEB_RESOLVING, WEB_CONNECTING, WEB_REQUESTING} then st
      else
        let el = now - w_t0 st in
        if w_state st = WEB_RESOLVING \<and> el > 200 then
          (if g_tries st < 3 then dns_send e now st
           else web_fail ''dns timeout'' (web_do (Wlog ''dns timeout -- no reply'') st))
        else if w_state st = WEB_CONNECTING \<and> el > 800 then web_fail ''connect timeout'' (web_do (Wlog ''connect timeout'') st)
        else if w_state st = WEB_REQUESTING \<and> el > 1200 then
          let st1 = web_do (Wlogv ''reply timeout, have'' (of_nat (length (g_body st)))) st;
              st2 = (if g_body st1 \<noteq> []
                     then st1\<lparr>w_state := WEB_DONE,
                       g_status := (if w_dropped st1 \<noteq> 0 then ''done (timed out, truncated)'' else ''done (timed out)'')\<rparr>
                     else web_fail ''no reply'' st1)
          in tcp_drop st2
        else st)"

subsection \<open>The body\<close>

lemma fold_take_pbuf:
  "length (g_body st) < WEB_BODY_MAX \<Longrightarrow>
    fold take_pbuf qs st = st\<lparr>g_body := take (WEB_BODY_MAX - 1) (g_body st @ List.map clean (concat qs)),
      w_dropped := w_dropped st + of_nat (length (g_body st) + length (concat qs) - (WEB_BODY_MAX - 1))\<rparr>"
proof (induction qs arbitrary: st)
  case (Cons q qs)
  let ?b = "g_body st" and ?M = "WEB_BODY_MAX - 1"
  let ?st = "take_pbuf q st"
  have b: "g_body ?st = take ?M (?b @ List.map clean q)" "length (g_body ?st) < WEB_BODY_MAX"
    using Cons.prems by (simp_all add: take_pbuf_def Let_def take_map)
  have d: "w_dropped ?st = w_dropped st + of_nat (length ?b + length q - ?M)"
    using Cons.prems by (simp add: take_pbuf_def Let_def add.commute [of "length (g_body st)" "length q"])
  have len: "length (g_body ?st) + length (concat qs) - ?M + (length ?b + length q - ?M) = length ?b + length (concat (q # qs)) - ?M"
    using b(1) Cons.prems by simp
  have "take ?M (g_body ?st @ List.map clean (concat qs)) = take ?M (?b @ List.map clean (concat (q # qs)))"
    unfolding b(1) using Cons.prems by (cases "length ?b + length q \<le> ?M") (simp_all)
  moreover have "w_dropped ?st + of_nat (length (g_body ?st) + length (concat qs) - ?M) = w_dropped st + of_nat (length ?b + length (concat (q # qs)) - ?M)"
    unfolding d len [symmetric] by (simp only: of_nat_add add.assoc add.commute [of "of_nat (length ?b + length q - ?M)"])
  moreover have "?st\<lparr>g_body := x, w_dropped := y\<rparr> = st\<lparr>g_body := x, w_dropped := y\<rparr>" for x y by (simp add: take_pbuf_def Let_def)
  ultimately show ?case using Cons.IH [OF b(2)] by simp
qed simp

lemma body_recv:
  assumes "length (g_body st) < WEB_BODY_MAX"
  shows "g_body (snd (on_recv (Some qs) ERR_OK st)) = take (WEB_BODY_MAX - 1) (g_body st @ List.map clean (concat qs))"
    "w_dropped (snd (on_recv (Some qs) ERR_OK st)) = w_dropped st + of_nat (length (g_body st) + length (concat qs) - (WEB_BODY_MAX - 1))"
  using assms by (simp_all add: on_recv_def Let_def web_do_def fold_take_pbuf)

text \<open>The segments of an answer, one callback each.\<close>

fun recv_all :: "u8 list list list \<Rightarrow> web \<Rightarrow> web" where
  "recv_all [] st = st"
| "recv_all (qs # segs) st = recv_all segs (snd (on_recv (Some qs) ERR_OK st))"

lemma recv_all_body:
  "length (g_body s) < WEB_BODY_MAX \<Longrightarrow>
    g_body (recv_all segs s) = take (WEB_BODY_MAX - 1) (g_body s @ List.map clean (concat (concat segs)))
    \<and> w_dropped (recv_all segs s) = w_dropped s + of_nat (length (g_body s) + length (concat (concat segs)) - (WEB_BODY_MAX - 1))"
proof (induction segs arbitrary: s)
  case (Cons qs segs)
  let ?s = "snd (on_recv (Some qs) ERR_OK s)" and ?M = "WEB_BODY_MAX - 1"
  note b = body_recv [OF Cons.prems, of qs]
  have l: "length (g_body ?s) < WEB_BODY_MAX" using b(1) by simp
  have "length (g_body ?s) + length (concat (concat segs)) - ?M + (length (g_body s) + length (concat qs) - ?M)
      = length (g_body s) + length (concat (concat (qs # segs))) - ?M"
    using b(1) Cons.prems by simp
  then have "w_dropped ?s + of_nat (length (g_body ?s) + length (concat (concat segs)) - ?M)
      = w_dropped s + of_nat (length (g_body s) + length (concat (concat (qs # segs))) - ?M)"
    unfolding b(2) by (metis (no_types) add.assoc add.commute of_nat_add)
  moreover have "take ?M (g_body ?s @ List.map clean (concat (concat segs))) = take ?M (g_body s @ List.map clean (concat (concat (qs # segs))))"
    unfolding b(1) using Cons.prems by (cases "length (g_body s) + length (concat qs) \<le> ?M") (simp_all)
  ultimately show ?case using Cons.IH [OF l] by simp
qed simp

text \<open>
  The body (C29): however the answer is cut into segments and buffers, the body is the first 2047 bytes of what was sent, unprintable ones blanked, and what did
  not fit is counted.
\<close>

theorem web_body_segments:
  assumes "g_body st = []" "w_dropped st = 0"
  shows "g_body (recv_all segs st) = take (WEB_BODY_MAX - 1) (List.map clean (concat (concat segs)))
    \<and> w_dropped (recv_all segs st) = of_nat (length (concat (concat segs)) - (WEB_BODY_MAX - 1))"
  using recv_all_body [of st segs] assms by simp

subsection \<open>A question and its answer\<close>

text \<open>Names as labels; none may be empty.\<close>

function host_ok :: "cstring \<Rightarrow> bool" where
  "host_ok h =
     (if h = [] then True
      else if takeWhile (\<lambda>c. c \<noteq> 46) h = [] \<or> length (takeWhile (\<lambda>c. c \<noteq> 46) h) \<ge> 64 then False
      else host_ok (drop 1 (dropWhile (\<lambda>c. c \<noteq> 46) h)))"
  by pat_completeness auto
termination
proof (relation "measure length")
  fix h :: cstring
  assume "h \<noteq> []"
  then show "(drop 1 (dropWhile (\<lambda>c. c \<noteq> 46) h), h) \<in> measure length"
    using length_dropWhile_le [of "\<lambda>c. c \<noteq> 46" h] by (cases h; cases "dropWhile (\<lambda>c. c \<noteq> 46) h") (auto split: if_splits)
qed simp

declare host_ok.simps [simp del]

lemma label_byte: "0 < n \<Longrightarrow> n < 64 \<Longrightarrow> (of_nat n :: u8) \<noteq> 0 \<and> (of_nat n :: u8) AND 0xC0 \<noteq> 0xC0 \<and> unat (of_nat n :: u8) = n"
proof -
  assume n: "0 < n" "n < 64"
  have u: "unat (of_nat n :: u8) = n" using n(2) by (simp add: unat_of_nat)
  have "list_all (\<lambda>n. (of_nat n :: u8) AND 0xC0 = 0) [0..<64]" by code_simp
  then have "(of_nat n :: u8) AND 0xC0 = 0" using n(2) by (simp only: list_all_iff set_upt) simp
  then show ?thesis using u n(1) by auto
qed

lemma dns_labels_Nil [simp]: "dns_labels [] = []"
  by (simp add: dns_labels.simps)

text \<open>The walk over a name in a message stops at its end.\<close>

lemma skip_name:
  "host_ok h \<Longrightarrow> skip_question (pre @ dns_labels h @ 0 # rest) (length pre) = length pre + length (dns_labels h)
    \<and> skip_labels (pre @ dns_labels h @ 0 # rest) (length pre) = length pre + length (dns_labels h)"
proof (induction h arbitrary: pre rule: dns_labels.induct)
  case (1 h)
  show ?case
  proof (cases "h = []")
    case True
    then show ?thesis by (simp add: skip_question.simps [of _ "length pre"] skip_labels.simps [of _ "length pre"])
  next
    case False
    define l where "l = takeWhile (\<lambda>c. c \<noteq> 46) h"
    define r where "r = drop 1 (dropWhile (\<lambda>c. c \<noteq> 46) h)"
    have h: "l \<noteq> []" "length l < 64" "host_ok r" using "1.prems" False unfolding l_def r_def by (simp_all add: host_ok.simps [of h] split: if_splits)
    have e: "dns_labels h = (of_nat (length l) # l) @ dns_labels r" using False by (simp add: dns_labels.simps [of h] Let_def l_def r_def)
    let ?b = "pre @ dns_labels h @ 0 # rest"
    have n: "(of_nat (length l) :: u8) \<noteq> 0" "(of_nat (length l) :: u8) AND 0xC0 \<noteq> 0xC0" "unat (of_nat (length l) :: u8) = length l"
      using label_byte [of "length l"] h(1,2) by simp_all
    have at: "length pre < length ?b" "?b ! length pre = of_nat (length l)" by (simp_all add: e)
    have b: "?b = (pre @ of_nat (length l) # l) @ dns_labels r @ 0 # rest" by (simp add: e)
    have "length pre + length l + 1 = length (pre @ of_nat (length l) # l)" by simp
    moreover have "skip_question ?b (length (pre @ of_nat (length l) # l)) = length (pre @ of_nat (length l) # l) + length (dns_labels r)
        \<and> skip_labels ?b (length (pre @ of_nat (length l) # l)) = length (pre @ of_nat (length l) # l) + length (dns_labels r)"
      unfolding b using "1.IH" [OF False refl refl, of "pre @ of_nat (length l) # l"] h(3) unfolding r_def by blast
    moreover have "skip_question ?b (length pre) = skip_question ?b (length pre + length l + 1)"
      by (subst skip_question.simps) (use at n in \<open>simp del: nth_append_length\<close>)
    moreover have "skip_labels ?b (length pre) = skip_labels ?b (length pre + length l + 1)"
      by (subst skip_labels.simps) (use at n in \<open>simp del: nth_append_length\<close>)
    ultimately show ?thesis by (simp only: e) simp
  qed
qed

text \<open>A record of an answer: its name, a pointer into the message or labels, then type, class, lifetime, data.\<close>

datatype rname = Pointer nat | Labels cstring

definition be2 :: "nat \<Rightarrow> u8 list" where
  "be2 n = [of_nat (n div 256), of_nat (n mod 256)]"

fun rname_bytes :: "rname \<Rightarrow> u8 list" where
  "rname_bytes (Pointer p) = be2 (192 * 256 + p)"
| "rname_bytes (Labels h) = dns_labels h @ [0]"

fun rname_ok :: "rname \<Rightarrow> bool" where
  "rname_ok (Pointer p) = (p < 16384)"
| "rname_ok (Labels h) = host_ok h"

definition rr :: "rname \<times> nat \<times> u8 list \<times> u8 list \<Rightarrow> u8 list" where
  "rr x = (case x of (nm, ty, ttl, rdata) \<Rightarrow> rname_bytes nm @ be2 ty @ [0, 1] @ ttl @ be2 (length rdata) @ rdata)"

definition rr_ok :: "rname \<times> nat \<times> u8 list \<times> u8 list \<Rightarrow> bool" where
  "rr_ok x \<longleftrightarrow> (case x of (nm, ty, ttl, rdata) \<Rightarrow> rname_ok nm \<and> ty < 65536 \<and> length ttl = 4 \<and> length rdata < 65536)"

definition has_address :: "rname \<times> nat \<times> u8 list \<times> u8 list \<Rightarrow> bool" where
  "has_address x \<longleftrightarrow> (case x of (nm, ty, ttl, rdata) \<Rightarrow> ty = 1 \<and> length rdata = 4)"

lemma be16_be2: "n < 65536 \<Longrightarrow> be16 (pre @ be2 n @ post) (length pre) = n"
proof -
  assume n: "n < 65536"
  have "unat (of_nat (n div 256) :: u8) = n div 256" "unat (of_nat (n mod 256) :: u8) = n mod 256"
    using n by (simp_all add: unat_of_nat less_mult_imp_div_less)
  then show ?thesis by (simp add: be16_def be2_def nth_append)
qed

lemma be16_at: "n < 65536 \<Longrightarrow> b = pre @ be2 n @ post \<Longrightarrow> i = length pre \<Longrightarrow> be16 b i = n"
  using be16_be2 by blast

lemma pointer_byte: "p < 16384 \<Longrightarrow> (of_nat ((192 * 256 + p) div 256) :: u8) AND 0xC0 = 0xC0"
proof -
  assume "p < 16384"
  then have "p div 256 < 64" "(192 * 256 + p) div 256 = 192 + p div 256" by (simp_all add: less_mult_imp_div_less)
  moreover have "list_all (\<lambda>n. (of_nat (192 + n) :: u8) AND 0xC0 = 0xC0) [0..<64]" by code_simp
  ultimately show ?thesis by (simp only: list_all_iff set_upt) simp
qed

lemma labels_byte: "host_ok h \<Longrightarrow> (dns_labels h @ [0]) ! 0 AND 0xC0 \<noteq> 0xC0"
proof (cases "h = []")
  case False
  assume "host_ok h"
  with False have "0 < length (takeWhile (\<lambda>c. c \<noteq> 46) h)" "length (takeWhile (\<lambda>c. c \<noteq> 46) h) < 64"
    by (simp_all add: host_ok.simps [of h] split: if_splits)
  from label_byte [OF this] False show ?thesis by (simp add: dns_labels.simps [of h] Let_def)
qed simp

text \<open>The step over the name of a record.\<close>

lemma name_end:
  assumes "rname_ok nm" "b = pre @ rname_bytes nm @ rest" "rest \<noteq> []"
  shows "(if b ! length pre AND 0xC0 = 0xC0 then length pre + 2
     else let k = skip_labels b (length pre) in if k < length b then k + 1 else k) = length (pre @ rname_bytes nm)"
proof (cases nm)
  case (Pointer p)
  then have "b ! length pre = of_nat ((192 * 256 + p) div 256)" by (simp add: assms(2) be2_def)
  then show ?thesis using pointer_byte [of p] Pointer assms(1) by (simp add: be2_def)
next
  case (Labels h)
  then have h: "host_ok h" and b: "b = pre @ dns_labels h @ 0 # rest" using assms(1,2) by simp_all
  have "b ! length pre = (dns_labels h @ [0]) ! 0" by (cases "dns_labels h") (simp_all add: b)
  moreover have "skip_labels b (length pre) = length pre + length (dns_labels h)" using skip_name [OF h, of pre rest] b by simp
  moreover have "length pre + length (dns_labels h) < length b" by (simp add: b)
  ultimately show ?thesis using labels_byte [OF h] Labels by (simp add: Let_def)
qed

lemma find_address_step:
  assumes "rr_ok (nm, ty, ttl, rdata)" "b = pre @ rr (nm, ty, ttl, rdata) @ post" "length pre + 12 \<le> length b"
  shows "find_address b (Suc a) (length pre)
    = (if has_address (nm, ty, ttl, rdata) then Some rdata else find_address b a (length (pre @ rr (nm, ty, ttl, rdata))))"
proof -
  have r: "rname_ok nm" "ty < 65536" "length ttl = 4" "length rdata < 65536" using assms(1) by (simp_all add: rr_ok_def)
  define p where "p = pre @ rname_bytes nm"
  have b: "b = p @ be2 ty @ [0, 1] @ ttl @ be2 (length rdata) @ rdata @ post" using assms(2) by (simp add: rr_def p_def)
  have l: "length (be2 n) = 2" for n by (simp add: be2_def)
  have len: "length b = length p + 10 + length rdata + length post" using r(3) by (simp add: b l)
  have ne: "be2 ty @ [0, 1] @ ttl @ be2 (length rdata) @ rdata @ post \<noteq> []" by simp
  have "b = pre @ rname_bytes nm @ be2 ty @ [0, 1] @ ttl @ be2 (length rdata) @ rdata @ post" by (simp add: b p_def)
  note E = name_end [OF r(1) this ne, folded p_def]
  have ty: "be16 b (length p) = ty"
    by (rule be16_at [OF r(2), of b p "[0, 1] @ ttl @ be2 (length rdata) @ rdata @ post"]) (simp_all add: b)
  have rl: "be16 b (length p + 8) = length rdata"
    by (rule be16_at [OF r(4), of b "p @ be2 ty @ [0, 1] @ ttl" "rdata @ post"]) (simp_all add: b l r(3))
  have d: "take (length rdata) (drop (length p + 10) b) = rdata" using r(3) by (simp add: b l)
  have e: "length (pre @ rr (nm, ty, ttl, rdata)) = length p + 10 + length rdata" using r(3) by (simp add: rr_def l p_def)
  have "find_address b (Suc a) (length pre) = (if length p + 10 > length b then None else if be16 b (length p) = 1 \<and> be16 b (length p + 8) = 4
        \<and> length p + 10 + 4 \<le> length b then Some (take 4 (drop (length p + 10) b))
      else find_address b a (length p + 10 + be16 b (length p + 8)))"
    using assms(3) by (simp only: find_address.simps E if_True) (simp only: Let_def)
  also have "\<dots> = (if ty = 1 \<and> length rdata = 4 then Some rdata else find_address b a (length p + 10 + length rdata))"
    unfolding ty rl using d len by auto
  finally show ?thesis unfolding e by (simp add: has_address_def)
qed

lemma find_address_record:
  "\<forall>x \<in> set others. rr_ok x \<and> \<not> has_address x \<Longrightarrow> rr_ok (nm, 1, ttl, a) \<Longrightarrow> length a = 4 \<Longrightarrow> length others < n
    \<Longrightarrow> find_address (pre @ concat (List.map rr others) @ rr (nm, 1, ttl, a) @ post) n (length pre) = Some a"
proof (induction others arbitrary: pre n)
  case Nil
  then obtain k where "n = Suc k" by (cases n) auto
  moreover have "12 \<le> length (rr (nm, 1, ttl, a))" using Nil.prems by (simp add: rr_def rr_ok_def be2_def)
  ultimately show ?case using find_address_step [of nm 1 ttl a _ pre post k] Nil by (simp add: has_address_def)
next
  case (Cons x others)
  obtain to' ty ttl' rd where x: "x = (to', ty, ttl', rd)" by (cases x)
  obtain k where k: "n = Suc k" using Cons.prems by (cases n) auto
  let ?b = "pre @ concat (List.map rr (x # others)) @ rr (nm, 1, ttl, a) @ post"
  have b: "?b = pre @ rr (to', ty, ttl', rd) @ concat (List.map rr others) @ rr (nm, 1, ttl, a) @ post" by (simp add: x)
  have "12 \<le> length (rr (nm, 1, ttl, a))" using Cons.prems by (simp add: rr_def rr_ok_def be2_def)
  then have l: "length pre + 12 \<le> length ?b" by simp
  have "rr_ok (to', ty, ttl', rd)" "\<not> has_address (to', ty, ttl', rd)" using Cons.prems(1) by (simp_all add: x)
  then have "find_address ?b n (length pre) = find_address ?b k (length (pre @ rr x))"
    unfolding k using find_address_step [OF _ b l, of k] by (simp add: x)
  also have "\<dots> = Some a" using Cons.IH [where pre = "pre @ rr x" and n = k] Cons.prems k by simp
  finally show ?case .
qed

text \<open>What a name server sends back for a question, up to the first address: a header with the flags and the counts, the question again, records
  without an address, and one with it. Its record count may include more.\<close>

definition dns_reply :: "web \<Rightarrow> u8 \<times> u8 \<Rightarrow> nat \<Rightarrow> u8 list \<Rightarrow> (rname \<times> nat \<times> u8 list \<times> u8 list) list \<Rightarrow> rname \<Rightarrow> u8 list \<Rightarrow> u8 list \<Rightarrow> u8 list" where
  "dns_reply st flags n counts others nm ttl a =
     [ucast (drop_bit 8 (g_id st)), ucast (g_id st), fst flags, snd flags, 0, 1] @ be2 n @ counts
       @ dns_labels (g_host st) @ [0, 0, 1, 0, 1] @ concat (List.map rr others) @ rr (nm, 1, ttl, a)"

lemma id_bytes: "256 * unat (ucast (drop_bit 8 (x :: u16)) :: u8) + unat (ucast x :: u8) = unat x"
proof -
  have "unat (ucast (drop_bit 8 x) :: u8) = unat x div 256 mod 256" "unat (ucast x :: u8) = unat x mod 256"
    by (simp_all add: unsigned_ucast_eq take_bit_eq_mod unat_drop_bit_eq drop_bit_eq_div [of 8 "unat x"])
  moreover have "unat x < 65536" using unsigned_less [of x] by simp
  ultimately show ?thesis by simp
qed

text \<open>
  Resolution (C28): a reply to the question without an error code is decoded to the first address in it, and the fetch goes on to connect to that
  address. The records before it and after it, their number and the flags are arbitrary; each name up to the address is a pointer or plain labels, and
  the address ends inside the 512 bytes the driver keeps. Names that end in a pointer after labels are the subject of \<open>dns_mixed_name\<close> below.
\<close>

theorem web_resolves:
  assumes "w_state st = WEB_RESOLVING" "host_ok (g_host st)" "snd flags AND 0x0F = 0" "length counts = 4" "length others < n" "n < 65536"
    and "\<forall>x \<in> set others. rr_ok x \<and> \<not> has_address x" "rr_ok (nm, 1, ttl, a)" "length a = 4"
    and "length (dns_reply st flags n counts others nm ttl a) \<le> 512" "\<forall>h. tcp_ok e h \<and> connect_ok e h"
  shows "\<exists>st'. on_dns e now (dns_reply st flags n counts others nm ttl a @ post) st = st' \<and> w_state st' = WEB_CONNECTING \<and> g_addr st' = a
    \<and> g_tcp st' \<and> \<not> g_dns st' \<and> last (w_log st') = Tcp_connect a"
proof -
  define b where "b = take 512 (dns_reply st flags n counts others nm ttl a @ post)"
  define tl where "tl = take (512 - length (dns_reply st flags n counts others nm ttl a)) post"
  let ?i = "[ucast (drop_bit 8 (g_id st)), ucast (g_id st), fst flags, snd flags, 0, 1]"
  let ?h = "?i @ be2 n @ counts"
  let ?rs = "concat (List.map rr others) @ rr (nm, 1, ttl, a) @ tl"
  have lh: "length ?h = 12" using assms(4) by (simp add: be2_def)
  have b: "b = ?h @ dns_labels (g_host st) @ 0 # ([0, 1, 0, 1] @ ?rs)" using assms(10) by (simp add: b_def tl_def) (simp add: dns_reply_def)
  have hd: "be16 b 0 = unat (g_id st)" "b ! 3 = snd flags" "be16 b 4 = 1" unfolding b using id_bytes [of "g_id st"] by (simp_all add: be16_def)
  have an: "be16 b 6 = n" unfolding b by (rule be16_at [OF assms(6), of _ ?i]) simp_all
  let ?k = "12 + length (dns_labels (g_host st))"
  have "skip_question b 12 = ?k" using skip_name [OF assms(2), of ?h "[0, 1, 0, 1] @ ?rs"] unfolding b lh by blast
  moreover have "b = (?h @ dns_labels (g_host st)) @ 0 # ([0, 1, 0, 1] @ ?rs)" "length (?h @ dns_labels (g_host st)) = ?k"
    using lh by (simp_all add: b)
  then have "?k < length b" "b ! ?k = 0" by (simp, metis nth_append_length)
  ultimately have sq: "skip_questions b 1 12 = ?k + 5"
    by (simp add: numeral_eq_Suc Let_def)
  let ?pre = "?h @ dns_labels (g_host st) @ 0 # [0, 1, 0, 1]"
  have k5: "length ?pre = ?k + 5" using lh by simp
  have bp: "?pre @ concat (List.map rr others) @ rr (nm, 1, ttl, a) @ tl = b" unfolding b by (simp only: append_assoc append_Cons append_Nil)
  from find_address_record [OF assms(7-9,5), where pre = ?pre and post = tl]
  have fa: "find_address b n (?k + 5) = Some a" unfolding bp k5 .
  have t: "\<not> length b < 12" unfolding b length_append [of ?h] lh by simp
  have f: "find_address b (be16 b 6) (skip_questions b (be16 b 4) 12) = Some a" by (simp only: an hd(3) sq fa)
  have "be16 b 6 \<noteq> 0" using an assms(5) by linarith
  then show ?thesis
    using assms(1,3,11) by (simp add: on_dns_def t hd(1,2) f http_go_def web_do_def del: length_take take_append flip: b_def)
qed

subsection \<open>Every fetch ends\<close>

text \<open>The clock in ticks since boot, the time of the last service, the fetch. Callbacks come at any time for what is open; the service runs at least every \<open>d\<close> ticks.\<close>

inductive fetch_step :: "stack \<Rightarrow> nat \<Rightarrow> nat \<times> nat \<times> web \<Rightarrow> nat \<times> nat \<times> web \<Rightarrow> bool" for e d where
  fetch_service: "t \<le> t' \<Longrightarrow> t' \<le> s + d \<Longrightarrow> fetch_step e d (t, s, st) (t', t', webfetch_service e (of_nat t') st)"
| fetch_dns: "t \<le> t' \<Longrightarrow> t' \<le> s + d \<Longrightarrow> g_dns st \<Longrightarrow> fetch_step e d (t, s, st) (t', s, on_dns e (of_nat t') p st)"
| fetch_connected: "t \<le> t' \<Longrightarrow> t' \<le> s + d \<Longrightarrow> g_tcp st \<Longrightarrow> w_state st = WEB_CONNECTING
    \<Longrightarrow> fetch_step e d (t, s, st) (t', s, snd (on_connected e (of_nat t') err st))"
| fetch_recv: "t \<le> t' \<Longrightarrow> t' \<le> s + d \<Longrightarrow> g_tcp st \<Longrightarrow> w_state st = WEB_REQUESTING \<Longrightarrow> fetch_step e d (t, s, st) (t', s, snd (on_recv q err st))"
| fetch_err: "t \<le> t' \<Longrightarrow> t' \<le> s + d \<Longrightarrow> g_tcp st \<Longrightarrow> fetch_step e d (t, s, st) (t', s, on_err err st)"

abbreviation web_busy :: "web \<Rightarrow> bool" where
  "web_busy st \<equiv> w_state st \<in> {WEB_RESOLVING, WEB_CONNECTING, WEB_REQUESTING}"

text \<open>What is open in each state.\<close>

definition open_ok :: "web \<Rightarrow> bool" where
  "open_ok st \<longleftrightarrow> g_dns st = (w_state st = WEB_RESOLVING) \<and> g_tcp st = (w_state st = WEB_CONNECTING \<or> w_state st = WEB_REQUESTING)"

definition fetch_ok :: "nat \<Rightarrow> nat \<Rightarrow> nat \<times> nat \<times> web \<Rightarrow> bool" where
  "fetch_ok d t0 c = (case c of (t, s, st) \<Rightarrow> s \<le> t \<and> t \<le> s + d \<and> open_ok st \<and>
     (web_busy st \<longrightarrow> (\<exists>b. w_t0 st = of_nat b \<and> b \<le> t \<and>
       (w_state st = WEB_RESOLVING \<longrightarrow> 1 \<le> unat (g_tries st) \<and> unat (g_tries st) \<le> 3 \<and> b \<le> t0 + (unat (g_tries st) - 1) * (200 + d) \<and> s \<le> b + 200) \<and>
       (w_state st = WEB_CONNECTING \<longrightarrow> b \<le> t0 + 3 * (200 + d) \<and> s \<le> b + 800) \<and>
       (w_state st = WEB_REQUESTING \<longrightarrow> b \<le> t0 + 3 * (200 + d) + (800 + d) \<and> s \<le> b + 1200))))"

lemma web_do_fields [simp]:
  "w_state (web_do c st) = w_state st" "g_dns (web_do c st) = g_dns st" "g_tcp (web_do c st) = g_tcp st" "w_t0 (web_do c st) = w_t0 st"
  "g_tries (web_do c st) = g_tries st" "g_body (web_do c st) = g_body st" "g_id (web_do c st) = g_id st" "w_dropped (web_do c st) = w_dropped st"
  by (simp_all add: web_do_def)

lemma web_fail_closed [simp]:
  "w_state (web_fail why st) = WEB_FAILED" "open_ok (web_fail why st)" "\<not> g_dns (web_fail why st)" "\<not> g_tcp (web_fail why st)"
  by (simp_all add: web_fail_def tcp_drop_def dns_drop_def on_err_def Let_def open_ok_def)

lemma fetch_ok_over: "\<not> web_busy st' \<Longrightarrow> open_ok st' \<Longrightarrow> s \<le> t' \<Longrightarrow> t' \<le> s + d \<Longrightarrow> fetch_ok d t0 (t', s, st')"
  by (simp add: fetch_ok_def)

lemma elapsed: "b \<le> t' \<Longrightarrow> t' - b < 4294967296 \<Longrightarrow> n < 4294967296 \<Longrightarrow> (of_nat t' - of_nat b > (of_nat n :: u32)) \<longleftrightarrow> t' - b > n"
proof -
  assume a: "b \<le> t'" "t' - b < 4294967296" "n < 4294967296"
  have "of_nat t' - of_nat b = (of_nat (t' - b) :: u32)" using a(1) by (simp add: of_nat_diff)
  then show ?thesis unfolding word_less_nat_alt using unat_of_nat_u32 [OF a(2)] unat_of_nat_u32 [OF a(3)] by (simp only:)
qed

lemma dns_send_cases:
  "\<not> web_busy (dns_send e now st) \<and> open_ok (dns_send e now st) \<or>
    w_state (dns_send e now st) = w_state st \<and> w_t0 (dns_send e now st) = now \<and> g_tries (dns_send e now st) = g_tries st + 1
    \<and> open_ok (dns_send e now st) = open_ok st"
  by (simp add: dns_send_def Let_def) (simp add: open_ok_def)

lemma http_go_cases:
  "\<not> g_dns st \<Longrightarrow> \<not> web_busy (http_go e now st) \<and> open_ok (http_go e now st) \<or>
    w_state (http_go e now st) = WEB_CONNECTING \<and> w_t0 (http_go e now st) = now \<and> open_ok (http_go e now st)"
  by (simp add: http_go_def Let_def) (simp add: open_ok_def)

lemma on_dns_cases:
  assumes "open_ok st"
  shows "w_state (on_dns e now p st) = w_state st \<and> w_t0 (on_dns e now p st) = w_t0 st \<and> g_tries (on_dns e now p st) = g_tries st \<and> open_ok (on_dns e now p st)
    \<or> \<not> web_busy (on_dns e now p st) \<and> open_ok (on_dns e now p st)
    \<or> w_state st = WEB_RESOLVING \<and> w_state (on_dns e now p st) = WEB_CONNECTING \<and> w_t0 (on_dns e now p st) = now \<and> open_ok (on_dns e now p st)"
proof -
  have "open_ok (web_do c st)" for c using assms by (simp add: open_ok_def)
  moreover have "\<not> g_dns (st'\<lparr>g_dns := False\<rparr>)" for st' by simp
  note http_go_cases [OF this]
  ultimately show ?thesis by (auto simp: on_dns_def Let_def split: option.split)
qed

lemma on_connected_cases:
  "open_ok st \<Longrightarrow> w_state st = WEB_CONNECTING \<Longrightarrow>
    \<not> web_busy (snd (on_connected e now err st)) \<and> open_ok (snd (on_connected e now err st)) \<or>
    w_state (snd (on_connected e now err st)) = WEB_REQUESTING \<and> w_t0 (snd (on_connected e now err st)) = now \<and> open_ok (snd (on_connected e now err st))"
  by (simp add: on_connected_def Let_def) (simp add: open_ok_def)

lemma fold_take_pbuf_fields:
  "w_state (fold take_pbuf qs st) = w_state st \<and> w_t0 (fold take_pbuf qs st) = w_t0 st \<and> g_tries (fold take_pbuf qs st) = g_tries st
    \<and> g_dns (fold take_pbuf qs st) = g_dns st \<and> g_tcp (fold take_pbuf qs st) = g_tcp st"
  by (induction qs arbitrary: st) (simp_all add: take_pbuf_def Let_def)

lemma on_recv_cases:
  assumes "open_ok st" "w_state st = WEB_REQUESTING"
  shows "\<not> web_busy (snd (on_recv q err st)) \<and> open_ok (snd (on_recv q err st)) \<or>
    w_state (snd (on_recv q err st)) = w_state st \<and> w_t0 (snd (on_recv q err st)) = w_t0 st \<and> open_ok (snd (on_recv q err st))"
  using assms fold_take_pbuf_fields by (auto simp: on_recv_def Let_def open_ok_def split: option.split)

lemma on_err_cases: "open_ok st \<Longrightarrow> g_tcp st \<Longrightarrow> \<not> web_busy (on_err err st) \<and> open_ok (on_err err st)"
  by (auto simp: on_err_def Let_def open_ok_def)

lemma tcp_drop_done: "\<not> web_busy st \<Longrightarrow> \<not> g_dns st \<Longrightarrow> \<not> web_busy (tcp_drop st) \<and> open_ok (tcp_drop st)"
  by (auto simp: tcp_drop_def on_err_def Let_def open_ok_def)

lemma service_cases:
  assumes "open_ok st" and st': "st' = webfetch_service e now st" and el: "el = now - w_t0 st"
  shows "st' = st \<and> (w_state st = WEB_RESOLVING \<longrightarrow> \<not> 200 < el) \<and> (w_state st = WEB_CONNECTING \<longrightarrow> \<not> 800 < el) \<and> (w_state st = WEB_REQUESTING \<longrightarrow> \<not> 1200 < el)
    \<or> \<not> web_busy st' \<and> open_ok st'
    \<or> w_state st = WEB_RESOLVING \<and> 200 < el \<and> g_tries st < 3 \<and> w_state st' = WEB_RESOLVING \<and> w_t0 st' = now \<and> g_tries st' = g_tries st + 1 \<and> open_ok st'"
proof -
  consider "\<not> web_busy st" | "w_state st = WEB_RESOLVING" | "w_state st = WEB_CONNECTING" | "w_state st = WEB_REQUESTING" by auto
  then show ?thesis
  proof cases
    case 1
    then show ?thesis using assms(1) by (simp add: st' webfetch_service_def)
  next
    case 2
    then show ?thesis using assms(1) dns_send_cases [of e now st] by (simp add: st' el webfetch_service_def Let_def)
  next
    case 3
    then show ?thesis by (simp add: st' el webfetch_service_def Let_def)
  next
    case 4
    have "\<not> web_busy (tcp_drop x) \<and> open_ok (tcp_drop x)"
      if "x = (if b then (web_do c st)\<lparr>w_state := WEB_DONE, g_status := u\<rparr> else web_fail v (web_do c st))" for x b c u v
    proof -
      have "\<not> g_dns x" "\<not> web_busy x" using that 4 assms(1) web_fail_closed(2) [of v "web_do c st"] by (simp_all add: open_ok_def)
      then show ?thesis by (intro tcp_drop_done)
    qed
    then show ?thesis using 4 unfolding st' el webfetch_service_def Let_def by (simp split del: if_split) (simp split: if_split)
  qed
qed

definition fetch_boot :: "stack \<Rightarrow> nat \<Rightarrow> nat \<times> nat \<times> web \<Rightarrow> bool" where
  "fetch_boot e t0 c \<longleftrightarrow> (\<exists>host path st0 st. webfetch_start e (of_nat t0) host path st0 = (True, st) \<and> c = (t0, t0, st))"

lemma start_cases:
  assumes "webfetch_start e now host path st0 = (True, st)"
  shows "open_ok st \<and> (web_busy st \<longrightarrow> w_state st = WEB_RESOLVING \<and> w_t0 st = now \<and> g_tries st = 1)"
proof -
  define st1 where "st1 = tcp_drop (dns_drop st0)"
  have t: "\<not> g_tcp st1" by (simp add: st1_def tcp_drop_def)
  obtain x where x: "st = dns_send e now x" "w_state x = WEB_RESOLVING" "g_tries x = 0" "g_dns x" "g_tcp x = g_tcp st1"
    using assms by (auto simp: webfetch_start_def Let_def st1_def split: if_splits)
  have "open_ok x" using x t by (simp add: open_ok_def)
  then show ?thesis using dns_send_cases [of e now x] x by auto
qed

lemma fetch_ok_start: "fetch_boot e t0 c \<Longrightarrow> fetch_ok d t0 c"
  using start_cases by (fastforce simp: fetch_boot_def fetch_ok_def)

text \<open>What the invariant says of a fetch under way, and the ways to restore it.\<close>

lemma fetch_ok_busy:
  assumes "fetch_ok d t0 (t, s, st)" "web_busy st"
  obtains b where "w_t0 st = of_nat b" "b \<le> t"
    "w_state st = WEB_RESOLVING \<longrightarrow> 1 \<le> unat (g_tries st) \<and> unat (g_tries st) \<le> 3 \<and> b \<le> t0 + (unat (g_tries st) - 1) * (200 + d) \<and> s \<le> b + 200"
    "w_state st = WEB_CONNECTING \<longrightarrow> b \<le> t0 + 3 * (200 + d) \<and> s \<le> b + 800"
    "w_state st = WEB_REQUESTING \<longrightarrow> b \<le> t0 + 3 * (200 + d) + (800 + d) \<and> s \<le> b + 1200"
proof -
  have "web_busy st \<longrightarrow> (\<exists>b. w_t0 st = of_nat b \<and> b \<le> t \<and>
       (w_state st = WEB_RESOLVING \<longrightarrow> 1 \<le> unat (g_tries st) \<and> unat (g_tries st) \<le> 3 \<and> b \<le> t0 + (unat (g_tries st) - 1) * (200 + d) \<and> s \<le> b + 200) \<and>
       (w_state st = WEB_CONNECTING \<longrightarrow> b \<le> t0 + 3 * (200 + d) \<and> s \<le> b + 800) \<and>
       (w_state st = WEB_REQUESTING \<longrightarrow> b \<le> t0 + 3 * (200 + d) + (800 + d) \<and> s \<le> b + 1200))"
    using assms(1) unfolding fetch_ok_def prod.case by (elim conjE)
  from mp [OF this assms(2)] show thesis by (elim exE conjE) (rule that)
qed

lemma tries_bound: "unat n \<le> 3 \<Longrightarrow> (unat n - 1) * (200 + d) \<le> 2 * (200 + d)"
  by (intro mult_right_mono) simp_all

lemma fetch_ok_same:
  assumes "fetch_ok d t0 (t, s, st)" "t \<le> t'" "t' \<le> s + d" "w_state st' = w_state st" "w_t0 st' = w_t0 st" "open_ok st'"
    and "w_state st = WEB_RESOLVING \<longrightarrow> g_tries st' = g_tries st"
  shows "fetch_ok d t0 (t', s, st')"
proof (cases "web_busy st")
  case True
  from fetch_ok_busy [OF assms(1) True] obtain b where b: "w_t0 st = of_nat b" "b \<le> t"
    "w_state st = WEB_RESOLVING \<longrightarrow> 1 \<le> unat (g_tries st) \<and> unat (g_tries st) \<le> 3 \<and> b \<le> t0 + (unat (g_tries st) - 1) * (200 + d) \<and> s \<le> b + 200"
    "w_state st = WEB_CONNECTING \<longrightarrow> b \<le> t0 + 3 * (200 + d) \<and> s \<le> b + 800"
    "w_state st = WEB_REQUESTING \<longrightarrow> b \<le> t0 + 3 * (200 + d) + (800 + d) \<and> s \<le> b + 1200" .
  have "s \<le> t'" "b \<le> t'" using assms(1,2) b(2) by (simp_all add: fetch_ok_def)
  then show ?thesis unfolding fetch_ok_def prod.case using assms(3-7) b by (intro conjI impI exI [of _ b]) simp_all
next
  case False
  then show ?thesis using assms by (simp add: fetch_ok_def)
qed

lemma u32_of_nat_less: "n < 4294967296 \<Longrightarrow> (x :: u32) < of_nat n \<longleftrightarrow> unat x < n"
  by (simp add: word_less_nat_alt unat_of_nat_u32)

lemma fetch_ok_service:
  assumes "fetch_ok d t0 (t, s, st)" "t \<le> t'" "t' \<le> s + d" "d \<le> 1000000"
  shows "fetch_ok d t0 (t', t', webfetch_service e (of_nat t') st)"
proof -
  let ?st = "webfetch_service e (of_nat t') st"
  have o: "open_ok st" "s \<le> t" using assms(1) by (simp_all add: fetch_ok_def)
  show ?thesis
  proof (cases "web_busy st \<and> web_busy ?st")
    case False
    have "\<not> web_busy ?st \<and> open_ok ?st" using False service_cases [OF o(1) refl refl, of e "of_nat t'"] o(1) by auto
    then show ?thesis by (intro fetch_ok_over) simp_all
  next
    case True
    then have busy: "web_busy st" by simp
    from fetch_ok_busy [OF assms(1) busy] obtain b where b: "w_t0 st = of_nat b" "b \<le> t"
      and R: "w_state st = WEB_RESOLVING \<longrightarrow> 1 \<le> unat (g_tries st) \<and> unat (g_tries st) \<le> 3 \<and> b \<le> t0 + (unat (g_tries st) - 1) * (200 + d) \<and> s \<le> b + 200"
      and C: "w_state st = WEB_CONNECTING \<longrightarrow> b \<le> t0 + 3 * (200 + d) \<and> s \<le> b + 800"
      and Q: "w_state st = WEB_REQUESTING \<longrightarrow> b \<le> t0 + 3 * (200 + d) + (800 + d) \<and> s \<le> b + 1200" .
    have "s \<le> b + 1200" using R C Q True by auto
    then have "t' - b < 4294967296" "b \<le> t'" using assms(2-4) b(2) by simp_all
    note el = elapsed [OF this(2,1)]
    have el: "(200 < of_nat t' - w_t0 st) = (200 < t' - b)" "(800 < of_nat t' - w_t0 st) = (800 < t' - b)" "(1200 < of_nat t' - w_t0 st) = (1200 < t' - b)"
      using el [of 200] el [of 800] el [of 1200] unfolding b(1) by simp_all
    have "?st = st \<and> (w_state st = WEB_RESOLVING \<longrightarrow> \<not> 200 < t' - b) \<and> (w_state st = WEB_CONNECTING \<longrightarrow> \<not> 800 < t' - b)
        \<and> (w_state st = WEB_REQUESTING \<longrightarrow> \<not> 1200 < t' - b)
      \<or> w_state st = WEB_RESOLVING \<and> 200 < t' - b \<and> g_tries st < 3 \<and> w_state ?st = WEB_RESOLVING \<and> w_t0 ?st = of_nat t'
        \<and> g_tries ?st = g_tries st + 1 \<and> open_ok ?st"
      using service_cases [OF o(1) refl refl, of e "of_nat t'", unfolded el] True by argo
    then consider
      "?st = st" "w_state st = WEB_RESOLVING \<longrightarrow> \<not> 200 < t' - b" "w_state st = WEB_CONNECTING \<longrightarrow> \<not> 800 < t' - b"
        "w_state st = WEB_REQUESTING \<longrightarrow> \<not> 1200 < t' - b"
      | "w_state st = WEB_RESOLVING" "g_tries st < 3" "w_state ?st = WEB_RESOLVING" "w_t0 ?st = of_nat t'" "g_tries ?st = g_tries st + 1" "open_ok ?st"
      by blast
    then show ?thesis
    proof cases
      case 1
      have "b \<le> t'" using b(2) assms(2) by simp
      then show ?thesis unfolding 1(1) fetch_ok_def prod.case using o(1) b(1) R C Q 1(2-4) by (intro conjI impI exI [of _ b]) auto
    next
      case 2
      have u: "unat (g_tries st) < 3" using 2(2) u32_of_nat_less [of 3 "g_tries st"] by simp
      have v: "unat (g_tries ?st) = unat (g_tries st) + 1" unfolding 2(5) using u by (simp add: unat_add_u32)
      have r: "1 \<le> unat (g_tries st)" "b \<le> t0 + (unat (g_tries st) - 1) * (200 + d)" "s \<le> b + 200" using R 2(1) by simp_all
      have "t' \<le> t0 + (unat (g_tries st) - 1) * (200 + d) + (200 + d)" using r assms(3) by simp
      also have "\<dots> = t0 + (unat (g_tries ?st) - 1) * (200 + d)" using r(1) unfolding v by (cases "unat (g_tries st)") simp_all
      finally show ?thesis unfolding fetch_ok_def prod.case using 2(3,4,6) u v by (intro conjI impI exI [of _ t']) simp_all
    qed
  qed
qed

lemma fetch_ok_step:
  assumes "fetch_step e d c c'" "fetch_ok d t0 c" "d \<le> 1000000"
  shows "fetch_ok d t0 c'"
  using assms(1,2)
proof cases
  case (fetch_service t t' s st)
  then show ?thesis using fetch_ok_service assms(2,3) by simp
next
  case (fetch_dns t t' s st p)
  let ?st = "on_dns e (of_nat t') p st"
  have o: "open_ok st" using assms(2) fetch_dns by (simp add: fetch_ok_def)
  have ok: "fetch_ok d t0 (t, s, st)" using assms(2) fetch_dns(1) by simp
  then have t: "s \<le> t'" using fetch_dns(3) by (simp add: fetch_ok_def)
  from on_dns_cases [OF o, of e "of_nat t'" p] show ?thesis
  proof (elim disjE conjE)
    assume "w_state ?st = w_state st" "w_t0 ?st = w_t0 st" "g_tries ?st = g_tries st" "open_ok ?st"
    then show ?thesis unfolding fetch_dns(2) using fetch_ok_same [OF ok fetch_dns(3,4)] by blast
  next
    assume "\<not> web_busy ?st" "open_ok ?st"
    then show ?thesis unfolding fetch_dns(2) using fetch_ok_over t fetch_dns(4) by blast
  next
    assume r: "w_state st = WEB_RESOLVING" "w_state ?st = WEB_CONNECTING" "w_t0 ?st = of_nat t'" "open_ok ?st"
    then have "web_busy st" by simp
    from fetch_ok_busy [OF ok this] obtain b where
      "w_state st = WEB_RESOLVING \<longrightarrow> 1 \<le> unat (g_tries st) \<and> unat (g_tries st) \<le> 3 \<and> b \<le> t0 + (unat (g_tries st) - 1) * (200 + d) \<and> s \<le> b + 200" .
    with r(1) have "t' \<le> t0 + 3 * (200 + d)" using tries_bound [of "g_tries st" d] fetch_dns(4) by simp
    then show ?thesis unfolding fetch_dns(2) fetch_ok_def prod.case using r(2-4) t fetch_dns(4) by (intro conjI impI exI [of _ t']) simp_all
  qed
next
  case (fetch_connected t t' s st err)
  have o: "open_ok st" using assms(2) fetch_connected by (simp add: fetch_ok_def)
  have ok: "fetch_ok d t0 (t, s, st)" using assms(2) fetch_connected(1) by simp
  then have t: "s \<le> t'" using fetch_connected(3) by (simp add: fetch_ok_def)
  let ?st = "snd (on_connected e (of_nat t') err st)"
  from on_connected_cases [OF o fetch_connected(6), of e "of_nat t'" err] show ?thesis
  proof (elim disjE conjE)
    assume "\<not> web_busy ?st" "open_ok ?st"
    then show ?thesis unfolding fetch_connected(2) using fetch_ok_over t fetch_connected(4) by blast
  next
    assume r: "w_state ?st = WEB_REQUESTING" "w_t0 ?st = of_nat t'" "open_ok ?st"
    have "web_busy st" using fetch_connected(6) by simp
    from fetch_ok_busy [OF ok this] obtain b where "w_state st = WEB_CONNECTING \<longrightarrow> b \<le> t0 + 3 * (200 + d) \<and> s \<le> b + 800" .
    with fetch_connected(6) have "t' \<le> t0 + 3 * (200 + d) + (800 + d)" using fetch_connected(4) by simp
    then show ?thesis unfolding fetch_connected(2) fetch_ok_def prod.case using r t fetch_connected(4) by (intro conjI impI exI [of _ t']) simp_all
  qed
next
  case (fetch_recv t t' s st q err)
  have o: "open_ok st" using assms(2) fetch_recv by (simp add: fetch_ok_def)
  have ok: "fetch_ok d t0 (t, s, st)" using assms(2) fetch_recv(1) by simp
  then have t: "s \<le> t'" using fetch_recv(3) by (simp add: fetch_ok_def)
  let ?st = "snd (on_recv q err st)"
  from on_recv_cases [OF o fetch_recv(6), of q err] show ?thesis
  proof (elim disjE conjE)
    assume "\<not> web_busy ?st" "open_ok ?st"
    then show ?thesis unfolding fetch_recv(2) using fetch_ok_over t fetch_recv(4) by blast
  next
    assume "w_state ?st = w_state st" "w_t0 ?st = w_t0 st" "open_ok ?st"
    then show ?thesis unfolding fetch_recv(2) using fetch_ok_same [OF ok fetch_recv(3,4)] fetch_recv(6) by simp
  qed
next
  case (fetch_err t t' s st err)
  have o: "open_ok st" using assms(2) fetch_err by (simp add: fetch_ok_def)
  from on_err_cases [OF o fetch_err(5), of err] show ?thesis
    using assms(2) fetch_err by (simp add: fetch_ok_def)
qed

interpretation fetch_sys: invariant_system "fetch_boot e t0" "\<lambda>c c'. d \<le> 1000000 \<and> fetch_step e d c c'" "fetch_ok d t0" for e t0 d
  by unfold_locales (auto intro: fetch_ok_start fetch_ok_step)

text \<open>
  Every fetch ends (C27): with the service called at least every \<open>d\<close> ticks, a fetch that is still under way is no older than 2600 ticks and five periods, whatever the
  network sends or does not send; and once it is over neither a socket nor a connection is left open.
\<close>

theorem web_fetch_ends:
  assumes "reaches (fetch_boot e t0) (\<lambda>c c'. d \<le> 1000000 \<and> fetch_step e d c c') (t, s, st)"
  shows "(web_busy st \<longrightarrow> t \<le> t0 + 2600 + 5 * d) \<and> (\<not> web_busy st \<longrightarrow> \<not> g_dns st \<and> \<not> g_tcp st)"
proof -
  have k: "fetch_ok d t0 (t, s, st)" by (rule fetch_sys.reaches_inv [OF assms])
  have "t \<le> t0 + 2600 + 5 * d" if busy: "web_busy st"
  proof -
    from fetch_ok_busy [OF k busy] obtain b where b:
      "w_state st = WEB_RESOLVING \<longrightarrow> 1 \<le> unat (g_tries st) \<and> unat (g_tries st) \<le> 3 \<and> b \<le> t0 + (unat (g_tries st) - 1) * (200 + d) \<and> s \<le> b + 200"
      "w_state st = WEB_CONNECTING \<longrightarrow> b \<le> t0 + 3 * (200 + d) \<and> s \<le> b + 800"
      "w_state st = WEB_REQUESTING \<longrightarrow> b \<le> t0 + 3 * (200 + d) + (800 + d) \<and> s \<le> b + 1200" .
    have t: "t \<le> s + d" using k by (simp add: fetch_ok_def)
    from busy consider "w_state st = WEB_RESOLVING" | "w_state st = WEB_CONNECTING" | "w_state st = WEB_REQUESTING" by auto
    then show ?thesis
    proof cases
      case 1
      then show ?thesis using b(1) t tries_bound [of "g_tries st" d] by simp
    next
      case 2
      then show ?thesis using b(2) t by simp
    next
      case 3
      then show ?thesis using b(3) t by simp
    qed
  qed
  moreover have "\<not> web_busy st \<longrightarrow> \<not> g_dns st \<and> \<not> g_tcp st" using k by (auto simp: fetch_ok_def open_ok_def)
  ultimately show ?thesis by blast
qed

subsection \<open>Where the code and its surroundings differ\<close>

text \<open>A record whose name is labels and then a pointer, as the format allows, is not stepped over: the pointer is taken for a label.\<close>

lemma dns_mixed_name: "find_address (replicate 12 0 @ [1, 97, 0xC0, 12, 0, 1, 0, 1, 0, 0, 0, 0, 0, 4, 10, 0, 0, 1]) 1 12 = None"
proof -
  let ?b = "replicate 12 0 @ [1, 97, 0xC0, 12, 0, 1, 0, 1, 0, 0, 0, 0, 0, 4, 10, 0, 0, 1] :: u8 list"
  have b: "?b ! 12 = 1" "?b ! 14 = 0xC0" "length ?b = 30" by (simp_all add: nth_append)
  have s: "skip_labels ?b 207 = 207" using b(3) by (subst skip_labels.simps) simp
  have "skip_labels ?b 14 = skip_labels ?b 207" using b by (subst skip_labels.simps) (simp del: nth_append_length)
  moreover have "skip_labels ?b 12 = skip_labels ?b 14" using b by (subst skip_labels.simps) (simp del: nth_append_length)
  ultimately have k: "skip_labels ?b 12 = 207" using s by simp
  have "find_address ?b (Suc 0) 12 = None" using b k unfolding find_address.simps Let_def by simp
  then show ?thesis by simp
qed

text \<open>The stack asks a callback that aborts its connection to return \<open>ERR_ABRT\<close>; these return the error they were given.\<close>

lemma callbacks_abort:
  assumes "g_tcp st" "err \<noteq> ERR_OK"
  shows "fst (on_recv p err st) = err" "Tcp_abort \<in> set (w_log (snd (on_recv p err st)))"
    "fst (on_connected e now err st) = err" "Tcp_abort \<in> set (w_log (snd (on_connected e now err st)))"
  using assms by (simp_all add: on_recv_def on_connected_def web_fail_def tcp_drop_def dns_drop_def on_err_def web_do_def Let_def)

subsection \<open>Instances\<close>

definition willing :: stack where
  "willing = \<lparr>wifi_ip = (\<lambda>_. 1), wifi_gw = (\<lambda>_. 1), udp_ok = (\<lambda>_. True), bind_ok = (\<lambda>_. True), pbuf_ok = (\<lambda>_. True), tcp_ok = (\<lambda>_. True),
     connect_ok = (\<lambda>_. True), write_ok = (\<lambda>_. True)\<rparr>"

definition web_boot :: web where
  "web_boot = \<lparr>w_state = WEB_IDLE, g_host = [], g_path = [], g_body = [], w_dropped = 0, g_code = 0, g_status = [], g_addr = [0, 0, 0, 0], g_dns = False,
     g_tcp = False, w_t0 = 0, g_tries = 0, g_id = 0, g_dns_srv = 0, w_log = []\<rparr>"

lemma web_body_segments_witness: "g_body (recv_all [[[72], [105, 13]], [[10]]] web_boot) = [72, 105, 32, 10]"
proof -
  have "g_body web_boot = []" "w_dropped web_boot = 0" by (simp_all add: web_boot_def)
  from web_body_segments [OF this, of "[[[72], [105, 13]], [[10]]]"] show ?thesis by (simp add: clean_def)
qed

text \<open>A reply with an alias first, one name a pointer and one labels, and a second address behind the first.\<close>

lemma web_resolves_witness:
  "\<exists>p st'. on_dns willing 7 p (web_boot\<lparr>w_state := WEB_RESOLVING, g_host := chars ''a.net''\<rparr>) = st' \<and> w_state st' = WEB_CONNECTING \<and> g_addr st' = [10, 0, 0, 9]"
proof -
  let ?st = "web_boot\<lparr>w_state := WEB_RESOLVING, g_host := chars ''a.net''\<rparr>"
  let ?o = "[(Pointer 12, 5, [0, 0, 0, 1], [1, 98, 0])] :: (rname \<times> nat \<times> u8 list \<times> u8 list) list"
  let ?r = "dns_reply ?st (0x81, 0x80) 3 [0, 0, 0, 0] ?o (Labels [98]) [0, 0, 0, 1] [10, 0, 0, 9]"
  have h: "g_host ?st = [97, 46, 110, 101, 116]" by (simp add: chars_def)
  have "host_ok (g_host ?st)" unfolding h by (simp add: host_ok.simps)
  moreover have "length ?r \<le> 512" unfolding dns_reply_def h by (simp add: dns_labels.simps rr_def be2_def)
  moreover have "\<forall>x \<in> set ?o. rr_ok x \<and> \<not> has_address x" by (simp add: rr_ok_def has_address_def)
  moreover have "rr_ok (Labels [98], 1, [0, 0, 0, 1], [10, 0, 0, 9])" by (simp add: rr_ok_def host_ok.simps)
  moreover have "\<forall>h. tcp_ok willing h \<and> connect_ok willing h" by (simp add: willing_def)
  moreover have "snd (0x81 :: u8, 0x80 :: u8) AND 0x0F = 0" by simp
  ultimately show ?thesis
    using web_resolves [of ?st "(0x81, 0x80)" "[0, 0, 0, 0]" ?o 3 "Labels [98]" "[0, 0, 0, 1]" "[10, 0, 0, 9]" willing 7 "rr (Pointer 12, 1, [0, 0, 0, 1], [10, 0, 0, 8])"]
    by auto
qed

lemma web_fetch_ends_witness:
  "\<exists>st. reaches (fetch_boot willing 5) (\<lambda>c c'. (10 :: nat) \<le> 1000000 \<and> fetch_step willing 10 c c') (15, 15, st)
    \<and> (web_busy st \<longrightarrow> (15 :: nat) \<le> 5 + 2600 + 5 * 10) \<and> (\<not> web_busy st \<longrightarrow> \<not> g_dns st \<and> \<not> g_tcp st)"
proof -
  obtain st where st: "webfetch_start willing (of_nat 5) (Some [97]) None web_boot = (True, st)"
    by (auto simp: webfetch_start_def willing_def Let_def)
  let ?step = "\<lambda>c c'. (10 :: nat) \<le> 1000000 \<and> fetch_step willing 10 c c'"
  have "reaches (fetch_boot willing 5) ?step (5, 5, st)" by (rule reaches_start) (use st in \<open>auto simp: fetch_boot_def\<close>)
  moreover have "?step (5, 5, st) (15, 15, webfetch_service willing (of_nat 15) st)" using fetch_service [of 5 15 5 10] by simp
  ultimately have r: "reaches (fetch_boot willing 5) ?step (15, 15, webfetch_service willing (of_nat 15) st)" by (rule reaches_step)
  from web_fetch_ends [OF this] r show ?thesis by blast
qed

end
