(* ===== verification/Spec2Isabelle.thy ===== *)
theory Spec2Isabelle
  imports KHeap KArena KTimer KTask KSched KMutex KIpc KStore KKeyq KDevice Vm VmSys VmRun KApp KFat KOsi KIntr KHtml
    KOut KTouch KFlash KCred KKeyboard KTerm KNotes KDesk KSdRead KNet KWeb
begin

text \<open>
  \<^bold>\<open>nat-os: a verification of the kernel's core\<close>

  nat-os is a small preemptive kernel for the ESP32 that runs untrusted bytecode programs beside its own tasks.
  This library models the parts of \<^verbatim>\<open>src/kernel\<close> that carry its guarantees and proves them. Every
  definition keeps the name of the C function or variable it models where the name is free; machine
  integers are words of the width the C code uses, so all arithmetic wraps as it does there.

  \<^bold>\<open>Parts and theories\<close>

  \<^item> \<^verbatim>\<open>Prelude\<close>: words, byte memory, bounds checks in the offset domain (locale \<open>range_guard\<close>) and state machines with
    an invariant (locale \<open>invariant_system\<close>), which the other theories interpret.
  \<^item> \<^verbatim>\<open>KHeap\<close> (heap.c): the first-fit allocator over a linked list of headers. The header of a block is looked up
    by its address; walks of the list are partial functions with \<open>None\<close> for a walk that never ends, and the
    theorems show that on every reachable heap they return.
  \<^item> \<^verbatim>\<open>KArena\<close> (arena.c): the memory regions given to programs, on top of the heap.
  \<^item> \<^verbatim>\<open>KTimer\<close> (timer.c, timer.h, \<^verbatim>\<open>task_yield\<close>): the tick and its deadline, with elapsed time beside the cycle counter.
  \<^item> \<^verbatim>\<open>KTask\<close>, \<^verbatim>\<open>KSched\<close> (task.c, the pin of blobcall.c, the liveness window of watchdog.c): tasks, their first frame,
    selection with ageing, sleeping and waking; the second theory holds the proofs.
  \<^item> \<^verbatim>\<open>KMutex\<close> (mutex.c): the blocking mutex; one round of the lock loop is one step, so that interleavings are
    sequences of steps.
  \<^item> \<^verbatim>\<open>KIpc\<close> (ipc.c): mailboxes, refining a map from slots to messages.
  \<^item> \<^verbatim>\<open>KStore\<close> (store.c): the persistent record and its deferred save; the flash is a parameter (whether an erase and
    a write succeed).
  \<^item> \<^verbatim>\<open>KKeyq\<close> (term.c): the key ring, refining a bounded queue.
  \<^item> \<^verbatim>\<open>KDevice\<close> (device.c, netdev.c): the device table, its drivers and the permission check in front of them. The
    hardware behind the drivers is the record \<open>hw\<close>, a parameter of every route.
  \<^item> \<^verbatim>\<open>Vm\<close>, \<^verbatim>\<open>VmSys\<close>, \<^verbatim>\<open>VmRun\<close> (vm.c, vmarg.c): the bytecode machine, its argument validation, its services and the
    interpreter. The record \<open>kern\<close> is the state the services share: memory, serial output, the calls that reach
    the panel, mailboxes and devices. \<open>run_loop\<close> recurses on the quantum, so no fuel is needed.
  \<^item> \<^verbatim>\<open>KApp\<close> (app.c): the application slots, which put arenas, machines, mail, devices and viewports together.

  \<^item> \<^verbatim>\<open>KFat\<close> (fat.c): the FAT16/FAT32 reader. The card is the record \<open>card\<close>, a parameter: what single and multiple
    block reads return, \<open>None\<close> for an error. Directory walks and the read loop are partial functions, \<open>None\<close> a
    loop that never ends. A file is specified by the bytes of its cluster chain (\<open>file_byte\<close>).
  \<^item> \<^verbatim>\<open>KOsi\<close> (wifi_osi_impl.c, osi_wait.h): the services the radio library is offered: semaphores, queues, event groups,
    timers, allocation and the clock. A handle is a word as in the C code; storage comes from \<^verbatim>\<open>KHeap\<close> and blocking
    from \<^verbatim>\<open>KSched\<close>. What the rest of the system does while a caller sleeps is the parameter \<open>env\<close>, a timer's
    callback the parameter \<open>call\<close>. A wait is a partial function, \<open>None\<close> one that never ends.
  \<^item> \<^verbatim>\<open>KIntr\<close> (intr.c and the interrupt requests of wifi_osi_impl.c): the handler table, the dispatchers and the routing
    of sources to lines. Handlers are parameters.
  \<^item> \<^verbatim>\<open>KHtml\<close> (html.c): the reader that turns a response into text and links; each iteration of its loop is a function
    from the rest of the source to a shorter rest.
  \<^item> \<^verbatim>\<open>KOut\<close>: calls of the display and the serial port as values, for components whose output is part of what they do.
  \<^item> \<^verbatim>\<open>KTouch\<close> (touch.c, calib.c): the touch panel: the bits exchanged with its converter, the burst, debouncing, mapping, the
    pen interrupt and its sleeping reader (over \<^verbatim>\<open>KSched\<close>), and the calibration screen that fits the mapping and saves it (over
    \<^verbatim>\<open>KStore\<close>). What the converter answers to the bits clocked so far is the parameter \<open>miso\<close>.
  \<^item> \<^verbatim>\<open>KFlash\<close> (flash.c): the flash driver down to the registers of the controller. The transactions sent form the history
    \<open>bus\<close>; what the chip and the cycle counter answer to a history is the record \<open>wire_env\<close>, a parameter. The meaning of
    a history is given by \<open>nor_run\<close>, the data sheet's write enable, page program and sector erase.
  \<^item> \<^verbatim>\<open>KCred\<close> (wificred.c, pmkcache.c, wifiprefs.c): the records the radio keeps in flash; the locale \<open>keyed_slots\<close> is a table of named
    slots that refines a bounded association list, and both tables interpret it.
  \<^item> \<^verbatim>\<open>KKeyboard\<close>, \<^verbatim>\<open>KTerm\<close> (keyboard.c, term.c): the multi-tap keyboard the views share, specified by an editor on a text with a
    live key, and the terminal over it. The shell the terminal runs is the parameter \<open>sh\<close>, what it prints for a line.
  \<^item> \<^verbatim>\<open>KNotes\<close> (messages.c, notes.c): the saved messages, a bounded list in flash, and the note pad.
  \<^item> \<^verbatim>\<open>KDesk\<close> (desktop.c, \<^verbatim>\<open>launch_entry\<close> of shell.c, the touch routing of kmain.c): the launcher over the application host:
    views, focus, double taps, close buttons and the launch of a program with the grants of its manifest.
  \<^item> \<^verbatim>\<open>KSpi3\<close>, \<^verbatim>\<open>KSd\<close>, \<^verbatim>\<open>KSdRead\<close> (spi3.c, sd.c): the card driver over the second SPI controller. The edges sent form the
    history \<open>wire\<close>; what the card drives on an edge and what a transfer delivers are the record \<open>spi_hw\<close>, a parameter. The last
    theory holds the reads on a bus that works, with a card that plays back bytes as its instance.
  \<^item> \<^verbatim>\<open>KBytes\<close>: byte buffers written in place, shared by the card and the network.
  \<^item> \<^verbatim>\<open>KNet\<close> (net.c): the receive ring, the service loops and the kernel's own ARP, ICMP and DHCP; the other stack is a history
    of calls. What happens while the poll sleeps is the parameter \<open>sleep\<close>.
  \<^item> \<^verbatim>\<open>KWeb\<close> (webfetch.c): fetching a page over the vendored stack. The calls into the stack form a history; what it answers is the
    record \<open>stack\<close>, a parameter, and its callbacks are steps that may come at any time for what is open.

  \<^bold>\<open>How the parts interact\<close>

  \<^verbatim>\<open>app_start\<close> takes an arena from the arena table (and so from the heap), copies the image, binds a machine to it and
  assigns a viewport; \<^verbatim>\<open>app_tick\<close> gives each running slot a slice: events are polled from the key ring and the tick,
  a handler may be injected, and \<^verbatim>\<open>vm_run\<close> interprets at most a quantum of instructions, calling the services,
  which reach the mailboxes, the devices (and through them the store) and the panel. A program that halts or
  faults is retired: its arena, mail and grants are released. The scheduler, timer and mutex run the tasks
  that do this.

  \<^bold>\<open>What is shown\<close>

  \<^item> Memory: the heap is consistent in every reachable state, allocation is sound and complete and undone by release;
    arenas never overlap; the interpreter's bounds check and the kernel's agree.
  \<^item> Containment: whatever a program executes, it changes no byte outside its arena, draws no pixel outside its
    viewport, touches no permission and no mail of others, and leaves every other application alone;
    viewports are disjoint from each other and from the kernel's controls; a device is reached only with a grant.
  \<^item> Progress: a run ends within its quantum, a ready task is scheduled within a bounded number of decisions, a mutex
    loses no wake-up, a dirty record is written within a bounded number of attempts, the tick rearms.
  \<^item> Functional behaviour and refinement: mail, the key queue, sleeping, the store's save and load, manifests, the
    transparency of event handlers.
  \<^item> Files: seeking and reading deliver exactly the bytes of the file; long names are decoded as the format lays them
    out; a directory walk returns when its chain ends; mounting leaves a consistent geometry or nothing.
  \<^item> Radio services: a queue is a bounded sequence of items byte for byte; a call with a time limit returns whatever the
    rest of the system does; the clock keeps time order; requests of the library never stop or take the tick, and
    the dispatcher serves each pending line once.
  \<^item> The HTML reader stays in its buffers on any input, renders plain text as its words and shows nothing of a script.
  \<^item> Touch: a sample is on the screen whatever the panel sends, a press takes two firm samples, no edge of the pen is lost
    around a wait, and a good calibration puts its targets back under its crosses.
  \<^item> Flash: a successful write programs exactly the bytes asked for and what was written reads back; nothing below the data
    region changes while addresses stay inside the 16 MB the wire can name; the controller is left as it was found; every call returns.
  \<^item> Radio memory: both tables are association lists that drop their oldest entry, and a save is what the next boot loads.
  \<^item> Keyboard, terminal and notes: a press is one edit of the text in view, the pane shows the history at its scroll position,
    the buffers keep their shape, a saved message is what the next boot loads.
  \<^item> Launcher: a program gets exactly the devices its manifest names; whatever is touched or opened, it draws above the strips only with the focus
    and in its strip only while no view has the band; the ways the focus outlives the application view are listed; a close button stops its own program and nothing else.
  \<^item> Card: a burst returns the card's blocks in order by either path although transfers read past each block; the word copy is
    a byte copy; an empty slot fails in bounded time.
  \<^item> Packets: under any interleaving the ring delivers in order and once, and counts what it drops; a ping is answered with right checksums; an address request
    carries what was offered; the poll returns while the clock moves.
  \<^item> Fetching: every fetch ends in bounded time with nothing left open; an answer to the name question whose names are pointers or plain labels is decoded to
    its address; the body does not depend on how the answer is cut.
  \<^item> Where the code does not do what its comments say, a theorem states what it does: the event state that
    \<^verbatim>\<open>vm_init\<close> keeps, the stack size check, the checksum, the frame counter, the network body, the worst wait,
    the order of a mutex hand-over, the image identity, a cyclic directory, a read retried after a card error, the
    recursive mark and owner a reused slot keeps, a queue whose size wraps, the race of the clock, a link cut short, a
    calibration that freezes an axis, a flash address past the end, a ring of three slots that holds two, a name of labels and a
    pointer, a tap outside the icons that counts, a focus left behind, a passphrase that outlives its removal.

  \<^bold>\<open>Bounds\<close>

  No loop carries fuel: heap walks, directory walks, file reads and the polls of the flash are partial functions shown to return, the other loops recurse on the data or
  the count the code bounds them by. The bound on waiting is the one the ageing constants of task.h give for the
  size of the task table.

  \<^bold>\<open>Not modelled\<close>

  Register access of the drivers (display, ADC, I2C, radio, the registers behind a card transfer): their results are
  parameters and their effects the calls made. The wireless glue, because the library it adapts is not in the repository. The boot
  sequence and the reporter of kmain.c and the commands of shell.c, which print what the components answer; the crash printer; the
  decoders and players of audio and video; the glue to the vendored TCP/IP stack and the browser over it. Interrupts are steps of the state
  machines at the points where the code admits them; preemption inside a critical section is excluded as
  in the code. The diagnostic counters of the scheduler beyond the wait histogram are left out.
\<close>

end
